(* ===== verification/Prelude.thy ===== *)
theory Prelude
  imports Main "HOL-Library.Word"
begin

text \<open>
  Shared vocabulary of the development: the C integer types as words of their width,
  64-bit \<open>size_t\<close> arithmetic with its wrap-around written out, operations that
  return a success flag together with a changed state, and big-endian numbers.
\<close>

unbundle bit_operations_syntax

type_synonym byte = "8 word"
type_synonym u16 = "16 word"
type_synonym u32 = "32 word"
type_synonym u64 = "64 word"

named_theorems op_simps \<open>unfolding rules of the operation combinators\<close>

section \<open>size_t\<close>

text \<open>The code is built for 64-bit targets: a \<open>size_t\<close> sum or product wraps at \<open>2 ^ 64\<close>.\<close>

definition size_add :: "nat \<Rightarrow> nat \<Rightarrow> nat" where
  "size_add a b = (a + b) mod 2 ^ 64"

definition size_mul :: "nat \<Rightarrow> nat \<Rightarrow> nat" where
  "size_mul a b = (a * b) mod 2 ^ 64"

lemma size_add_small: "a + b < 2 ^ 64 \<Longrightarrow> size_add a b = a + b"
  by (simp add: size_add_def)

lemma size_add_wraps:
  assumes "a < 2 ^ 64" and "b < 2 ^ 64" and "2 ^ 64 \<le> a + b"
  shows "size_add a b < a"
proof -
  have "(a + b) mod 2 ^ 64 = (a + b - 2 ^ 64) mod 2 ^ 64"
    using assms(3) by (rule le_mod_geq)
  also have "\<dots> = a + b - 2 ^ 64"
    using assms by (intro mod_less) linarith
  finally show ?thesis
    unfolding size_add_def using assms by linarith
qed

lemma size_add_overflow_iff:
  assumes "a < 2 ^ 64" and "b < 2 ^ 64"
  shows "size_add a b < a \<longleftrightarrow> 2 ^ 64 \<le> a + b"
proof (cases "a + b < 2 ^ 64")
  case True
  then show ?thesis by (simp add: size_add_small)
next
  case False
  with assms size_add_wraps [of a b] show ?thesis by simp
qed

section \<open>Operations with a success flag\<close>

text \<open>
  A C function that returns 1 or 0, writes its result through a pointer and advances its
  first argument becomes a function from the state to the optional result and the new
  state: \<open>None\<close> is the return value 0, and the state is what the function leaves behind
  in either case.  \<open>and_then\<close> is \<open>&&\<close> and the early \<open>return 0\<close> of the code.
\<close>

type_synonym ('s, 'a) oper = "'s \<Rightarrow> 'a option \<times> 's"

definition ok :: "'a \<Rightarrow> ('s, 'a) oper" where
  "ok x s = (Some x, s)"

definition fail :: "('s, 'a) oper" where
  "fail s = (None, s)"

definition and_then :: "('s, 'a) oper \<Rightarrow> ('a \<Rightarrow> ('s, 'b) oper) \<Rightarrow> ('s, 'b) oper" where
  "and_then m f s = (case m s of (None, t) \<Rightarrow> (None, t) | (Some x, t) \<Rightarrow> f x t)"

definition require :: "bool \<Rightarrow> ('s, unit) oper" where
  "require b s = (if b then Some () else None, s)"

lemma and_then_Some [op_simps]: "m s = (Some x, t) \<Longrightarrow> and_then m f s = f x t"
  by (simp add: and_then_def)

lemma and_then_None [op_simps]: "m s = (None, t) \<Longrightarrow> and_then m f s = (None, t)"
  by (simp add: and_then_def)

lemma and_then_eq_SomeD:
  "and_then m f s = (Some y, t) \<Longrightarrow> \<exists>x u. m s = (Some x, u) \<and> f x u = (Some y, t)"
  by (auto simp: and_then_def split: prod.splits option.splits)

lemma and_then_eq_SomeE:
  assumes "and_then m f s = (Some y, t)"
  obtains x u where "m s = (Some x, u)" and "f x u = (Some y, t)"
  using assms by (auto simp: and_then_def split: prod.splits option.splits)

lemma require_Some_iff [simp]: "require b s = (Some x, t) \<longleftrightarrow> b \<and> t = s"
  by (auto simp: require_def)

lemma ok_Some_iff [simp]: "ok x s = (Some y, t) \<longleftrightarrow> y = x \<and> t = s"
  by (auto simp: ok_def)

lemma fail_not_Some [simp]: "fail s \<noteq> (Some y, t)"
  by (simp add: fail_def)

lemma and_then_require [op_simps]:
  "and_then (require b) f s = (if b then f () s else (None, s))"
  by (simp add: and_then_def require_def)

lemma and_then_ok [op_simps]: "and_then (ok x) f s = f x s"
  by (simp add: and_then_def ok_def)

section \<open>Words as numbers\<close>

lemma unat_of_nat_small: "n < 2 ^ LENGTH('a) \<Longrightarrow> unat (of_nat n :: 'a::len word) = n"
  by (simp add: unat_of_nat)

lemma word_eq_of_natI: "unat w = n \<Longrightarrow> (w :: 'a::len word) = of_nat n"
  by (metis of_nat_unat ucast_id)

lemma drop_bit_word_eq_0_iff: "drop_bit n (w :: 'a::len word) = 0 \<longleftrightarrow> unat w < 2 ^ n"
proof -
  have "drop_bit n w = 0 \<longleftrightarrow> unat (drop_bit n w) = 0"
    by (simp only: unat_eq_zero)
  also have "\<dots> \<longleftrightarrow> unat w div 2 ^ n = 0"
    by (subst unat_drop_bit_eq) (simp only: drop_bit_eq_div)
  finally show ?thesis by (simp add: div_eq_0_iff)
qed

section \<open>Big-endian numbers\<close>

text \<open>
  \<open>shl8_or\<close> is the C idiom \<open>result <<= 8; result |= b\<close>; \<open>be_nat\<close> is the number a byte
  string denotes, and \<open>be_bytes n\<close> its encoding in \<open>n\<close> bytes.
\<close>

definition shl8_or :: "'a::len word \<Rightarrow> byte \<Rightarrow> 'a word" where
  "shl8_or r b = (push_bit 8 r OR ucast b)"

fun be_nat :: "byte list \<Rightarrow> nat" where
  "be_nat [] = 0"
| "be_nat (b # bs) = unat b * 256 ^ length bs + be_nat bs"

fun be_bytes :: "nat \<Rightarrow> nat \<Rightarrow> byte list" where
  "be_bytes 0 v = []"
| "be_bytes (Suc n) v = be_bytes n (v div 256) @ [of_nat v]"

lemma unat_byte_less: "unat (b :: byte) < 256"
  using unsigned_less [of b] by simp

lemma be_nat_append: "be_nat (xs @ ys) = be_nat xs * 256 ^ length ys + be_nat ys"
  by (induction xs) (simp_all add: power_add algebra_simps)

lemma be_nat_snoc [simp]: "be_nat (xs @ [b]) = 256 * be_nat xs + unat b"
  by (simp add: be_nat_append)

lemma be_nat_less: "be_nat bs < 256 ^ length bs"
proof (induction bs)
  case (Cons b bs)
  have "unat b + 1 \<le> 256"
    using unat_byte_less [of b] by linarith
  then have "(unat b + 1) * 256 ^ length bs \<le> 256 * 256 ^ length bs"
    by (rule mult_le_mono1)
  then have "unat b * 256 ^ length bs + 256 ^ length bs \<le> 256 * 256 ^ length bs"
    by (simp only: distrib_right mult_1)
  with Cons.IH have "unat b * 256 ^ length bs + be_nat bs < 256 * 256 ^ length bs"
    by linarith
  then show ?case by simp
qed simp

lemma length_be_bytes [simp]: "length (be_bytes n v) = n"
  by (induction n arbitrary: v) simp_all

lemma be_nat_be_bytes: "be_nat (be_bytes n v) = v mod 256 ^ n"
proof (induction n arbitrary: v)
  case (Suc n)
  have "unat (of_nat v :: byte) = v mod 256"
    by (simp add: unat_of_nat)
  with Suc show ?case
    by (simp add: mod_mult2_eq)
qed simp

lemma be_bytes_be_nat: "be_bytes (length bs) (be_nat bs) = bs"
proof (induction bs rule: rev_induct)
  case (snoc b bs)
  have "(256 * be_nat bs + unat b) div 256 = be_nat bs"
    using unat_byte_less [of b] by simp
  moreover have "(of_nat (256 * be_nat bs + unat b) :: byte) = b"
    using unat_byte_less [of b] by (simp add: word_unat_eq_iff unat_of_nat del: of_nat_add of_nat_mult)
  ultimately show ?case
    using snoc by (simp only: length_append_singleton be_bytes.simps be_nat_snoc)
qed simp

lemma be_nat_inject: "length xs = length ys \<Longrightarrow> be_nat xs = be_nat ys \<Longrightarrow> xs = ys"
  by (metis be_bytes_be_nat)

lemma unat_shl8_or:
  fixes r :: "'a::len word"
  assumes "unat r * 256 + 255 < 2 ^ LENGTH('a)"
  shows "unat (shl8_or r b) = 256 * unat r + unat b"
proof -
  have len: "8 \<le> LENGTH('a)"
  proof (rule ccontr)
    assume "\<not> 8 \<le> LENGTH('a)"
    then have "(2::nat) ^ LENGTH('a) \<le> 2 ^ 7"
      by (intro power_increasing) simp_all
    with assms show False by simp
  qed
  have disj: "push_bit 8 r AND ucast b = 0"
    by (rule bit_word_eqI) (auto simp: bit_simps dest: bit_imp_le_length)
  have "push_bit 8 r OR ucast b = push_bit 8 r + ucast b"
    using disj by (rule disjunctive_add_eq_or [symmetric])
  moreover have "unat (push_bit 8 r) = 256 * unat r"
    using assms by (subst unsigned_push_bit_eq) (simp add: push_bit_eq_mult take_bit_nat_eq_self)
  moreover have "unat (ucast b :: 'a word) = unat b"
    using len power_increasing [of 8 "LENGTH('a)" "2::nat"]
    by (simp add: unsigned_ucast_eq take_bit_nat_eq_self_iff order_less_le_trans [OF unat_byte_less])
  ultimately show ?thesis
    using assms unat_byte_less [of b] by (simp add: shl8_or_def unat_word_ariths)
qed

section \<open>Little-endian numbers\<close>

text \<open>
  \<open>merge_bits\<close> is the idiom \<open>result |= (uintN_t)b << pos\<close> when the low bits of the
  result are below \<open>2 ^ pos\<close>: bits past the width are lost as the C shift loses them.
\<close>

lemma nat_or_push_bit:
  assumes "a < 2 ^ k"
  shows "a OR push_bit k b = a + 2 ^ k * (b :: nat)"
proof -
  have "\<not> bit a n" if "k \<le> n" for n
  proof -
    have "a < 2 ^ n"
      using assms power_increasing [OF that, of "2::nat"] by linarith
    then show ?thesis by (simp add: bit_iff_odd)
  qed
  then have "a AND push_bit k b = 0"
    by (intro bit_eqI) (auto simp: bit_simps not_le)
  then have "a OR push_bit k b = a + push_bit k b"
    by (rule disjunctive_add_eq_or [symmetric])
  then show ?thesis by (simp add: push_bit_eq_mult mult.commute)
qed

lemma merge_bits:
  assumes "a < 2 ^ k"
  shows "of_nat a OR push_bit k (of_nat b) = (of_nat (a + 2 ^ k * b) :: 'a::len word)"
  by (simp only: nat_or_push_bit [OF assms, symmetric] of_nat_or_eq push_bit_of_nat)

lemma ucast_eq_of_nat: "ucast (w :: 'b::len word) = (of_nat (unat w) :: 'a::len word)"
  by (simp add: unsigned_of_nat)

fun le_nat :: "byte list \<Rightarrow> nat" where
  "le_nat [] = 0"
| "le_nat (b # bs) = unat b + 256 * le_nat bs"

fun le_bytes :: "nat \<Rightarrow> nat \<Rightarrow> byte list" where
  "le_bytes 0 v = []"
| "le_bytes (Suc n) v = of_nat v # le_bytes n (v div 256)"

lemma length_le_bytes [simp]: "length (le_bytes n v) = n"
  by (induction n arbitrary: v) simp_all

lemma le_nat_append: "le_nat (xs @ ys) = le_nat xs + 256 ^ length xs * le_nat ys"
  by (induction xs) (simp_all add: algebra_simps)

lemma le_nat_less: "le_nat bs < 256 ^ length bs"
proof (induction bs)
  case (Cons b bs)
  have "le_nat bs + 1 \<le> 256 ^ length bs"
    using Cons by simp
  then have "256 * (le_nat bs + 1) \<le> 256 * 256 ^ length bs"
    by (rule mult_le_mono2)
  with unat_byte_less [of b] show ?case by simp
qed simp

lemma le_nat_le_bytes: "le_nat (le_bytes n v) = v mod 256 ^ n"
proof (induction n arbitrary: v)
  case (Suc n)
  have "unat (of_nat v :: byte) = v mod 256"
    by (simp add: unat_of_nat)
  with Suc show ?case
    by (simp add: mod_mult2_eq)
qed simp

lemma le_bytes_le_nat: "le_bytes (length bs) (le_nat bs) = bs"
proof (induction bs)
  case (Cons b bs)
  have "(unat b + 256 * le_nat bs) div 256 = le_nat bs"
    using unat_byte_less [of b] by simp
  moreover have "(of_nat (unat b + 256 * le_nat bs) :: byte) = b"
    using unat_byte_less [of b]
    by (simp add: word_unat_eq_iff unat_of_nat del: of_nat_add of_nat_mult)
  ultimately show ?case
    using Cons by (simp only: list.size le_nat.simps le_bytes.simps add_Suc_right add_0_right)
qed simp

section \<open>Comparing memory\<close>

text \<open>\<open>memcmp\<close> on equally many bytes, as a sign.\<close>

fun memcmp :: "byte list \<Rightarrow> byte list \<Rightarrow> int" where
  "memcmp (x # xs) (y # ys) = (if x < y then - 1 else if y < x then 1 else memcmp xs ys)"
| "memcmp _ _ = 0"

lemma memcmp_eq_0_iff: "length xs = length ys \<Longrightarrow> memcmp xs ys = 0 \<longleftrightarrow> xs = ys"
  by (induction xs ys rule: list_induct2) auto

end
