(* ===== verification/Cbs.thy ===== *)
theory Cbs
  imports Prelude
begin

text \<open>
  The byte-string reader \<open>CBS\<close> of BoringSSL (\<open>crypto/bytestring/cbs.c\<close>).

  A \<open>CBS\<close> is a pointer and a length: a window on memory it does not own.  The model is the
  list of the bytes in the window, so that \<open>CBS_len\<close> is the length of the list and advancing
  the pointer is \<open>drop\<close>.  Every reader is an operation on that state: it returns what it
  stored through its out-pointers, or \<open>None\<close> for the return value 0, and the window it leaves
  (which C advances even when a later check fails).
\<close>

type_synonym cbs = "byte list"

section \<open>Byte order (internal.h)\<close>

definition CRYPTO_bswap2 :: "u16 \<Rightarrow> u16" where
  "CRYPTO_bswap2 x = (drop_bit 8 x OR push_bit 8 x)"

definition CRYPTO_bswap4 :: "u32 \<Rightarrow> u32" where
  "CRYPTO_bswap4 x0 =
     (let x = drop_bit 16 x0 OR push_bit 16 x0
      in drop_bit 8 (x AND 0xff00ff00) OR push_bit 8 (x AND 0x00ff00ff))"

definition CRYPTO_bswap8 :: "u64 \<Rightarrow> u64" where
  "CRYPTO_bswap8 x =
     (ucast (CRYPTO_bswap4 (ucast (drop_bit 32 x))) OR
      push_bit 32 (ucast (CRYPTO_bswap4 (ucast x))))"

section \<open>Windows\<close>

definition CBS_init :: "byte list \<Rightarrow> nat \<Rightarrow> cbs" where
  "CBS_init data len = take len data"

definition CBS_data :: "cbs \<Rightarrow> byte list" where
  "CBS_data cbs = cbs"

definition CBS_len :: "cbs \<Rightarrow> nat" where
  "CBS_len cbs = length cbs"

definition cbs_get :: "nat \<Rightarrow> (cbs, byte list) oper" where
  "cbs_get n cbs = (if CBS_len cbs < n then (None, cbs) else (Some (take n cbs), drop n cbs))"

definition CBS_skip :: "nat \<Rightarrow> (cbs, unit) oper" where
  "CBS_skip len = and_then (cbs_get len) (\<lambda>dummy. ok ())"

text \<open>
  \<open>malloc_ok n\<close> says whether the allocator grants \<open>n\<close> bytes; the new value of \<open>*out_ptr\<close> is
  \<open>None\<close> for \<open>NULL\<close>.
\<close>

definition OPENSSL_memdup :: "(nat \<Rightarrow> bool) \<Rightarrow> byte list \<Rightarrow> byte list option" where
  "OPENSSL_memdup malloc_ok data =
     (if length data = 0 then None else if malloc_ok (length data) then Some data else None)"

definition OPENSSL_strndup :: "(nat \<Rightarrow> bool) \<Rightarrow> byte list \<Rightarrow> byte list option" where
  "OPENSSL_strndup malloc_ok str =
     (let s = takeWhile (\<lambda>b. b \<noteq> 0) str
      in if size_add (length s) 1 < length s then None
         else if malloc_ok (length s + 1) then Some (s @ [0]) else None)"

definition CBS_stow :: "(nat \<Rightarrow> bool) \<Rightarrow> cbs \<Rightarrow> bool \<times> byte list option \<times> nat" where
  "CBS_stow malloc_ok cbs =
     (if CBS_len cbs = 0 then (True, None, 0)
      else case OPENSSL_memdup malloc_ok (CBS_data cbs) of
          None \<Rightarrow> (False, None, 0)
        | Some p \<Rightarrow> (True, Some p, CBS_len cbs))"

definition CBS_strdup :: "(nat \<Rightarrow> bool) \<Rightarrow> cbs \<Rightarrow> bool \<times> byte list option" where
  "CBS_strdup malloc_ok cbs =
     (let p = OPENSSL_strndup malloc_ok (CBS_data cbs) in (p \<noteq> None, p))"

definition CBS_contains_zero_byte :: "cbs \<Rightarrow> bool" where
  "CBS_contains_zero_byte cbs = (0 \<in> set (CBS_data cbs))"

definition CBS_mem_equal :: "cbs \<Rightarrow> byte list \<Rightarrow> bool" where
  "CBS_mem_equal cbs data = (if length data \<noteq> CBS_len cbs then False else CBS_data cbs = data)"

section \<open>Fixed-width readers\<close>

definition cbs_get_u :: "nat \<Rightarrow> (cbs, u64) oper" where
  "cbs_get_u len = and_then (cbs_get len) (\<lambda>data. ok (foldl shl8_or 0 data))"

definition CBS_get_u8 :: "(cbs, byte) oper" where
  "CBS_get_u8 = and_then (cbs_get 1) (\<lambda>v. ok (hd v))"

definition CBS_get_u16 :: "(cbs, u16) oper" where
  "CBS_get_u16 = and_then (cbs_get_u 2) (\<lambda>v. ok (ucast v))"

definition CBS_get_u16le :: "(cbs, u16) oper" where
  "CBS_get_u16le = and_then CBS_get_u16 (\<lambda>v. ok (CRYPTO_bswap2 v))"

definition CBS_get_u24 :: "(cbs, u32) oper" where
  "CBS_get_u24 = and_then (cbs_get_u 3) (\<lambda>v. ok (ucast v))"

definition CBS_get_u32 :: "(cbs, u32) oper" where
  "CBS_get_u32 = and_then (cbs_get_u 4) (\<lambda>v. ok (ucast v))"

definition CBS_get_u32le :: "(cbs, u32) oper" where
  "CBS_get_u32le = and_then CBS_get_u32 (\<lambda>v. ok (CRYPTO_bswap4 v))"

definition CBS_get_u64 :: "(cbs, u64) oper" where
  "CBS_get_u64 = cbs_get_u 8"

definition CBS_get_u64le :: "(cbs, u64) oper" where
  "CBS_get_u64le = and_then (cbs_get_u 8) (\<lambda>v. ok (CRYPTO_bswap8 v))"

definition CBS_get_last_u8 :: "(cbs, byte) oper" where
  "CBS_get_last_u8 cbs =
     (if CBS_len cbs = 0 then (None, cbs) else (Some (last cbs), butlast cbs))"

definition CBS_get_bytes :: "nat \<Rightarrow> (cbs, cbs) oper" where
  "CBS_get_bytes len = and_then (cbs_get len) (\<lambda>v. ok (CBS_init v len))"

definition CBS_copy_bytes :: "nat \<Rightarrow> (cbs, byte list) oper" where
  "CBS_copy_bytes len = and_then (cbs_get len) (\<lambda>v. ok v)"

definition cbs_get_length_prefixed :: "nat \<Rightarrow> (cbs, cbs) oper" where
  "cbs_get_length_prefixed len_len =
     and_then (cbs_get_u len_len) (\<lambda>len. CBS_get_bytes (unat len))"

definition CBS_get_u8_length_prefixed :: "(cbs, cbs) oper" where
  "CBS_get_u8_length_prefixed = cbs_get_length_prefixed 1"

definition CBS_get_u16_length_prefixed :: "(cbs, cbs) oper" where
  "CBS_get_u16_length_prefixed = cbs_get_length_prefixed 2"

definition CBS_get_u24_length_prefixed :: "(cbs, cbs) oper" where
  "CBS_get_u24_length_prefixed = cbs_get_length_prefixed 3"

section \<open>ASN.1 constants (bytestring.h)\<close>

definition CBS_ASN1_CONSTRUCTED :: u32 where "CBS_ASN1_CONSTRUCTED = 0x20000000"
definition CBS_ASN1_TAG_NUMBER_MASK :: u32 where "CBS_ASN1_TAG_NUMBER_MASK = 0x1fffffff"
definition CBS_ASN1_BOOLEAN :: u32 where "CBS_ASN1_BOOLEAN = 1"
definition CBS_ASN1_INTEGER :: u32 where "CBS_ASN1_INTEGER = 2"
definition CBS_ASN1_OCTETSTRING :: u32 where "CBS_ASN1_OCTETSTRING = 4"

section \<open>Tags and elements\<close>

text \<open>The do-while loop of \<open>parse_base128_integer\<close>; \<open>v\<close> is the accumulator.\<close>

fun parse_base128_loop :: "u64 \<Rightarrow> (cbs, u64) oper" where
  "parse_base128_loop v [] = (None, [])"
| "parse_base128_loop v (b # bs) =
     (if drop_bit (64 - 7) v \<noteq> 0 then (None, bs)
      else if v = 0 \<and> b = 0x80 then (None, bs)
      else let v' = push_bit 7 v OR ucast (b AND 0x7f)
           in if b AND 0x80 \<noteq> 0 then parse_base128_loop v' bs else (Some v', bs))"

definition parse_base128_integer :: "(cbs, u64) oper" where
  "parse_base128_integer = parse_base128_loop 0"

definition parse_asn1_tag :: "(cbs, u32) oper" where
  "parse_asn1_tag =
     and_then CBS_get_u8 (\<lambda>tag_byte.
       let tag = push_bit 24 (ucast tag_byte AND 0xe0 :: u32);
           tag_number = ucast (tag_byte AND 0x1f) :: u32
       in if tag_number = 0x1f
          then and_then parse_base128_integer (\<lambda>v.
                 and_then (require (\<not> (ucast CBS_ASN1_TAG_NUMBER_MASK < v \<or> v < 0x1f))) (\<lambda>_.
                   ok (tag OR ucast v)))
          else ok (tag OR tag_number))"

text \<open>
  The element parser works on a copy \<open>header\<close> of the window and moves \<open>cbs\<close> itself only in the
  final \<open>CBS_get_bytes\<close>; it returns the element, its tag and its header length.
\<close>

definition cbs_get_any_asn1_element :: "bool \<Rightarrow> (cbs, cbs \<times> u32 \<times> nat) oper" where
  "cbs_get_any_asn1_element ber_ok cbs =
     (case parse_asn1_tag cbs of (None, _) \<Rightarrow> (None, cbs)
      | (Some tag, header) \<Rightarrow>
     (case CBS_get_u8 header of (None, _) \<Rightarrow> (None, cbs)
      | (Some length_byte, header) \<Rightarrow>
     (let header_len = CBS_len cbs - CBS_len header in
      if length_byte AND 0x80 = 0 then
        and_then (CBS_get_bytes (size_add (unat length_byte) header_len))
          (\<lambda>out. ok (out, tag, header_len)) cbs
      else
        let num_bytes = unat (length_byte AND 0x7f) in
        if ber_ok \<and> tag AND CBS_ASN1_CONSTRUCTED \<noteq> 0 \<and> num_bytes = 0 then
          and_then (CBS_get_bytes header_len) (\<lambda>out. ok (out, tag, header_len)) cbs
        else if num_bytes = 0 \<or> 4 < num_bytes then (None, cbs)
        else (case cbs_get_u num_bytes header of (None, _) \<Rightarrow> (None, cbs)
          | (Some len64, _) \<Rightarrow>
            if len64 < 128 then (None, cbs)
            else if drop_bit ((num_bytes - 1) * 8) len64 = 0 then (None, cbs)
            else if size_add (size_add (unat len64) header_len) num_bytes < unat len64
            then (None, cbs)
            else and_then
                   (CBS_get_bytes (size_add (unat len64) (size_add header_len num_bytes)))
                   (\<lambda>out. ok (out, tag, header_len + num_bytes)) cbs))))"

definition CBS_get_any_asn1_element :: "(cbs, cbs \<times> u32 \<times> nat) oper" where
  "CBS_get_any_asn1_element = cbs_get_any_asn1_element False"

definition CBS_get_any_ber_asn1_element :: "(cbs, cbs \<times> u32 \<times> nat) oper" where
  "CBS_get_any_ber_asn1_element = cbs_get_any_asn1_element True"

definition CBS_get_any_asn1 :: "(cbs, cbs \<times> u32) oper" where
  "CBS_get_any_asn1 =
     and_then CBS_get_any_asn1_element (\<lambda>(out, tag, header_len) cbs.
       (case CBS_skip header_len out of
          (None, _) \<Rightarrow> (None, cbs)
        | (Some _, out) \<Rightarrow> (Some (out, tag), cbs)))"

definition cbs_get_asn1 :: "u32 \<Rightarrow> bool \<Rightarrow> (cbs, cbs) oper" where
  "cbs_get_asn1 tag_value skip_header =
     and_then CBS_get_any_asn1_element (\<lambda>(out, tag, header_len) cbs.
       if tag \<noteq> tag_value then (None, cbs)
       else if skip_header then
         (case CBS_skip header_len out of
            (None, _) \<Rightarrow> (None, cbs)
          | (Some _, out) \<Rightarrow> (Some out, cbs))
       else (Some out, cbs))"

definition CBS_get_asn1 :: "u32 \<Rightarrow> (cbs, cbs) oper" where
  "CBS_get_asn1 tag_value = cbs_get_asn1 tag_value True"

definition CBS_get_asn1_element :: "u32 \<Rightarrow> (cbs, cbs) oper" where
  "CBS_get_asn1_element tag_value = cbs_get_asn1 tag_value False"

definition CBS_peek_asn1_tag :: "cbs \<Rightarrow> u32 \<Rightarrow> bool" where
  "CBS_peek_asn1_tag cbs tag_value =
     (if CBS_len cbs < 1 then False
      else fst (parse_asn1_tag cbs) = Some tag_value)"

section \<open>Typed values\<close>

fun asn1_uint64_loop :: "u64 \<Rightarrow> byte list \<Rightarrow> u64 option" where
  "asn1_uint64_loop out [] = Some out"
| "asn1_uint64_loop out (b # data) =
     (if drop_bit 56 out \<noteq> 0 then None else asn1_uint64_loop (shl8_or out b) data)"

definition CBS_get_asn1_uint64 :: "(cbs, u64) oper" where
  "CBS_get_asn1_uint64 =
     and_then (CBS_get_asn1 CBS_ASN1_INTEGER) (\<lambda>data cbs.
       let len = CBS_len data in
       if len = 0 then (None, cbs)
       else if data ! 0 AND 0x80 \<noteq> 0 then (None, cbs)
       else if data ! 0 = 0 \<and> len > 1 \<and> data ! 1 AND 0x80 = 0 then (None, cbs)
       else (asn1_uint64_loop 0 data, cbs))"

text \<open>The \<open>int64_t\<close> view of the eight bytes of the union on a little-endian machine.\<close>

definition load_le64 :: "byte list \<Rightarrow> u64" where
  "load_le64 bytes = foldr (\<lambda>b r. shl8_or r b) bytes 0"

definition CBS_get_asn1_int64 :: "(cbs, u64) oper" where
  "CBS_get_asn1_int64 =
     and_then (CBS_get_asn1 CBS_ASN1_INTEGER) (\<lambda>data cbs.
       let len = CBS_len data in
       if len = 0 \<or> len > 8 then (None, cbs)
       else if len > 1 \<and> data ! 0 = 0 \<and> data ! 1 AND 0x80 = 0 then (None, cbs)
       else if len > 1 \<and> data ! 0 = 0xff \<and> data ! 1 AND 0x80 \<noteq> 0 then (None, cbs)
       else
         let is_negative = data ! 0 AND 0x80;
             sign = replicate 8 (if is_negative \<noteq> 0 then 0xff else 0);
             bytes = map (\<lambda>i. if i < len then data ! (len - i - 1) else sign ! i) [0..<8]
         in (Some (load_le64 bytes), cbs))"

definition CBS_get_asn1_bool :: "(cbs, bool) oper" where
  "CBS_get_asn1_bool =
     and_then (CBS_get_asn1 CBS_ASN1_BOOLEAN) (\<lambda>bytes cbs.
       if CBS_len bytes \<noteq> 1 then (None, cbs)
       else let value = hd bytes in
         if value \<noteq> 0 \<and> value \<noteq> 0xff then (None, cbs) else (Some (value \<noteq> 0), cbs))"

text \<open>An optional element: the result is \<open>None\<close> when absent, \<open>Some out\<close> when present.\<close>

definition CBS_get_optional_asn1 :: "u32 \<Rightarrow> (cbs, cbs option) oper" where
  "CBS_get_optional_asn1 tag cbs =
     (if CBS_peek_asn1_tag cbs tag
      then and_then (CBS_get_asn1 tag) (\<lambda>out. ok (Some out)) cbs
      else (Some None, cbs))"

definition CBS_get_optional_asn1_octet_string :: "u32 \<Rightarrow> (cbs, cbs \<times> bool) oper" where
  "CBS_get_optional_asn1_octet_string tag =
     and_then (CBS_get_optional_asn1 tag) (\<lambda>child cbs.
       case child of
         None \<Rightarrow> (Some (CBS_init [] 0, False), cbs)
       | Some child \<Rightarrow>
         (case CBS_get_asn1 CBS_ASN1_OCTETSTRING child of
            (None, _) \<Rightarrow> (None, cbs)
          | (Some out, child) \<Rightarrow> (if CBS_len child \<noteq> 0 then None else Some (out, True), cbs)))"

definition CBS_get_optional_asn1_uint64 :: "u32 \<Rightarrow> u64 \<Rightarrow> (cbs, u64) oper" where
  "CBS_get_optional_asn1_uint64 tag default_value =
     and_then (CBS_get_optional_asn1 tag) (\<lambda>child cbs.
       case child of
         None \<Rightarrow> (Some default_value, cbs)
       | Some child \<Rightarrow>
         (case CBS_get_asn1_uint64 child of
            (None, _) \<Rightarrow> (None, cbs)
          | (Some out, child) \<Rightarrow> (if CBS_len child \<noteq> 0 then None else Some out, cbs)))"

text \<open>The result is the C \<open>int\<close> stored in \<open>*out\<close>; \<open>default_value\<close> is handed back unchanged.\<close>

definition CBS_get_optional_asn1_bool :: "u32 \<Rightarrow> int \<Rightarrow> (cbs, int) oper" where
  "CBS_get_optional_asn1_bool tag default_value =
     and_then (CBS_get_optional_asn1 tag) (\<lambda>child cbs.
       case child of
         None \<Rightarrow> (Some default_value, cbs)
       | Some child \<Rightarrow>
         (case CBS_get_asn1 CBS_ASN1_BOOLEAN child of
            (None, _) \<Rightarrow> (None, cbs)
          | (Some child2, child) \<Rightarrow>
            if CBS_len child2 \<noteq> 1 \<or> CBS_len child \<noteq> 0 then (None, cbs)
            else let boolean = CBS_data child2 ! 0 in
              if boolean = 0 then (Some 0, cbs)
              else if boolean = 0xff then (Some 1, cbs)
              else (None, cbs)))"

section \<open>Bit strings\<close>

definition CBS_is_valid_asn1_bitstring :: "cbs \<Rightarrow> bool" where
  "CBS_is_valid_asn1_bitstring cbs =
     (case CBS_get_u8 cbs of (None, _) \<Rightarrow> False
      | (Some num_unused_bits, rest) \<Rightarrow>
        if num_unused_bits > 7 then False
        else if num_unused_bits = 0 then True
        else (case CBS_get_last_u8 rest of (None, _) \<Rightarrow> False
          | (Some last_byte, _) \<Rightarrow> last_byte AND (push_bit (unat num_unused_bits) 1 - 1) = 0))"

definition CBS_asn1_bitstring_has_bit :: "cbs \<Rightarrow> u32 \<Rightarrow> bool" where
  "CBS_asn1_bitstring_has_bit cbs bit_index =
     (if \<not> CBS_is_valid_asn1_bitstring cbs then False
      else let byte_num = unat (drop_bit 3 bit_index + 1);
               bit_num = unat (7 - (bit_index AND 7))
           in byte_num < CBS_len cbs \<and> CBS_data cbs ! byte_num AND push_bit bit_num 1 \<noteq> 0)"

section \<open>The readers, branch by branch\<close>

named_theorems cbs_simps \<open>characteristic equations of the readers\<close>

lemma cbs_get_simp [cbs_simps]:
  "cbs_get n s = (if length s < n then (None, s) else (Some (take n s), drop n s))"
  by (simp add: cbs_get_def CBS_len_def)

lemma CBS_skip_simp [cbs_simps]:
  "CBS_skip n s = (if length s < n then (None, s) else (Some (), drop n s))"
  by (simp add: CBS_skip_def and_then_def ok_def cbs_simps)

lemma CBS_get_bytes_simp [cbs_simps]:
  "CBS_get_bytes n s = (if length s < n then (None, s) else (Some (take n s), drop n s))"
  by (simp add: CBS_get_bytes_def and_then_def ok_def cbs_simps CBS_init_def)

lemma CBS_get_u8_Nil [cbs_simps]: "CBS_get_u8 [] = (None, [])"
  by (simp add: CBS_get_u8_def and_then_def cbs_simps)

lemma CBS_get_u8_Cons [cbs_simps]: "CBS_get_u8 (b # s) = (Some b, s)"
  by (simp add: CBS_get_u8_def and_then_def ok_def cbs_simps)

lemma unat_foldl_shl8_or:
  assumes "length bs \<le> n" and "unat r < 256 ^ (n - length bs)" and "(256::nat) ^ n \<le> 2 ^ LENGTH('a)"
  shows "unat (foldl shl8_or (r :: 'a::len word) bs) = unat r * 256 ^ length bs + be_nat bs"
  using assms(1,2)
proof (induction bs arbitrary: r)
  case (Cons b bs)
  let ?k = "n - length (b # bs)"
  from Cons.prems have k: "n - length bs = Suc ?k" by simp
  from Cons.prems(2) have lt: "unat r * 256 + 255 < 256 ^ Suc ?k" by simp
  have "(256::nat) ^ Suc ?k \<le> 256 ^ n"
    using Cons.prems(1) by (intro power_increasing) simp_all
  with lt assms(3) have step: "unat (shl8_or r b) = 256 * unat r + unat b"
    by (intro unat_shl8_or) linarith
  with lt k have "unat (shl8_or r b) < 256 ^ (n - length bs)"
    using unat_byte_less [of b] by simp
  with Cons.prems(1) Cons.IH [of "shl8_or r b"] step show ?case
    by (simp add: algebra_simps)
qed simp

lemma unat_be_u64: "length bs \<le> 8 \<Longrightarrow> unat (foldl shl8_or (0 :: u64) bs) = be_nat bs"
  using unat_foldl_shl8_or [of bs 8 "0 :: u64"] by simp

lemma foldl_shl8_or_be_nat: "length bs \<le> 8 \<Longrightarrow> foldl shl8_or (0 :: u64) bs = of_nat (be_nat bs)"
  by (metis unat_be_u64 of_nat_unat ucast_id)

lemma cbs_get_u_simp:
  "n \<le> 8 \<Longrightarrow> cbs_get_u n s =
    (if length s < n then (None, s) else (Some (of_nat (be_nat (take n s))), drop n s))"
  by (simp add: cbs_get_u_def and_then_def ok_def cbs_simps foldl_shl8_or_be_nat)

text \<open>A reader never moves outside its window: what it leaves is a suffix of what it was given.\<close>

definition consumes :: "(cbs, 'a) oper \<Rightarrow> bool" where
  "consumes m \<longleftrightarrow> (\<forall>s. \<exists>p. s = p @ snd (m s))"

lemma consumesD: "consumes m \<Longrightarrow> m s = (r, t) \<Longrightarrow> \<exists>p. s = p @ t"
  unfolding consumes_def by (metis snd_conv)

lemma consumesI: "(\<And>s r t. m s = (r, t) \<Longrightarrow> \<exists>p. s = p @ t) \<Longrightarrow> consumes m"
  unfolding consumes_def by (metis prod.collapse)

lemma consumes_cbs_get [intro]: "consumes (cbs_get n)"
  by (rule consumesI) (auto simp: cbs_simps split: if_splits intro: append_take_drop_id [symmetric])

lemma consumes_ok [intro]: "consumes (ok x)"
  by (auto simp: consumes_def ok_def)

lemma consumes_require [intro]: "consumes (require b)"
  by (auto simp: consumes_def require_def)

lemma consumes_and_then [intro]:
  assumes "consumes m" and "\<And>x. consumes (f x)"
  shows "consumes (and_then m f)"
proof (rule consumesI)
  fix s r t
  assume eq: "and_then m f s = (r, t)"
  obtain o1 u where m: "m s = (o1, u)" by (cases "m s")
  with assms(1) obtain p where p: "s = p @ u" by (blast dest: consumesD)
  show "\<exists>p. s = p @ t"
  proof (cases o1)
    case None
    with m p eq show ?thesis by (auto simp: and_then_def)
  next
    case (Some x)
    with m eq have "f x u = (r, t)" by (simp add: and_then_def)
    with assms(2) obtain q where "u = q @ t" by (blast dest: consumesD)
    with p show ?thesis by (metis append_assoc)
  qed
qed

lemma consumes_suffix_cases:
  assumes "consumes m" and "\<And>x s. \<exists>r. f x s = (r, s)"
  shows "consumes (and_then m f)"
  by (rule consumes_and_then [OF assms(1)], rule consumesI) (metis append_Nil assms(2) snd_conv)

lemma consumes_parse_base128: "consumes parse_base128_integer"
proof (rule consumesI)
  fix s r t
  assume eq: "parse_base128_integer s = (r, t)"
  have "\<exists>p. s = p @ snd (parse_base128_loop v s)" for v
  proof (induction v s rule: parse_base128_loop.induct)
    case (2 v b bs)
    then show ?case
      by (auto simp: Let_def intro: exI [of _ "b # _"]) (metis append_Cons)+
  qed simp
  then have "\<exists>p. s = p @ snd (parse_base128_integer s)"
    by (simp add: parse_base128_integer_def)
  with eq show "\<exists>p. s = p @ t" by simp
qed

lemma consumes_CBS_get_u8 [intro]: "consumes CBS_get_u8"
  unfolding CBS_get_u8_def by blast

lemma consumes_cbs_get_u [intro]: "consumes (cbs_get_u n)"
  unfolding cbs_get_u_def by blast

lemma consumes_CBS_get_bytes [intro]: "consumes (CBS_get_bytes n)"
  unfolding CBS_get_bytes_def by blast

lemma consumes_copy: "\<exists>p. (s :: byte list) = p @ s"
  by simp

lemma consumes_suffixD: "consumes m \<Longrightarrow> \<exists>p. s = p @ snd (m s)"
  unfolding consumes_def by blast

lemma consumes_element [intro]: "consumes (cbs_get_any_asn1_element ber_ok)"
proof -
  have bytes: "\<exists>p. s = p @ snd (and_then (CBS_get_bytes n) (\<lambda>out. ok (f out)) s)" for n s
    and f :: "cbs \<Rightarrow> cbs \<times> u32 \<times> nat"
    by (rule consumes_suffixD) blast
  show ?thesis
    unfolding consumes_def cbs_get_any_asn1_element_def Let_def
    by (auto simp del: snd_conv simp: bytes split: prod.splits option.splits if_splits)
      (simp_all add: bytes)
qed

lemma consumes_CBS_get_asn1 [intro]: "consumes (CBS_get_asn1 tag)"
  unfolding CBS_get_asn1_def cbs_get_asn1_def CBS_get_any_asn1_element_def
  by (rule consumes_suffix_cases [OF consumes_element]) (auto split: prod.splits option.splits)

lemma consumes_CBS_get_asn1_uint64 [intro]: "consumes CBS_get_asn1_uint64"
  unfolding CBS_get_asn1_uint64_def
  by (rule consumes_suffix_cases [OF consumes_CBS_get_asn1]) (simp add: Let_def)

lemma consumes_CBS_get_asn1_int64 [intro]: "consumes CBS_get_asn1_int64"
  unfolding CBS_get_asn1_int64_def
  by (rule consumes_suffix_cases [OF consumes_CBS_get_asn1]) (simp add: Let_def)

end
