(* ===== verification/Der.thy ===== *)
theory Der
  imports Cbs
begin

text \<open>
  The DER encoding of X.690 as an abstract specification, and the theorems that the readers
  of \<open>cbs.c\<close> accept exactly the encodings it describes: base-128 integers, identifier octets
  (tags), and whole elements.
\<close>

section \<open>Specification\<close>

text \<open>
  \<open>b128_hi n\<close> is \<open>n\<close> in base 128 with the continuation bit on every octet, without leading
  zero digits; \<open>b128 n\<close> ends the number with an octet whose high bit is clear.
\<close>

fun b128_hi :: "nat \<Rightarrow> byte list" where
  "b128_hi n = (if n = 0 then [] else b128_hi (n div 128) @ [of_nat (128 + n mod 128)])"

declare b128_hi.simps [simp del]

definition b128 :: "nat \<Rightarrow> byte list" where
  "b128 n = b128_hi (n div 128) @ [of_nat (n mod 128)]"

definition der_tag :: "u32 \<Rightarrow> byte list" where
  "der_tag tag =
     (let bits = ucast (drop_bit 24 tag) AND 0xe0;
          number = unat (tag AND CBS_ASN1_TAG_NUMBER_MASK)
      in if number \<ge> 31 then (bits OR 0x1f) # b128 number else [bits OR of_nat number])"

definition octets_needed :: "nat \<Rightarrow> nat" where
  "octets_needed n =
     (if n < 2 ^ 8 then 1 else if n < 2 ^ 16 then 2 else if n < 2 ^ 24 then 3 else 4)"

definition der_length :: "nat \<Rightarrow> byte list" where
  "der_length n =
     (if n < 128 then [of_nat n]
      else of_nat (128 + octets_needed n) # be_bytes (octets_needed n) n)"

definition der_header :: "u32 \<Rightarrow> nat \<Rightarrow> byte list" where
  "der_header tag n = der_tag tag @ der_length n"

definition der_element :: "u32 \<Rightarrow> byte list \<Rightarrow> byte list" where
  "der_element tag body = der_header tag (length body) @ body"

section \<open>Base-128 integers\<close>

lemma b128_hi_0 [simp]: "b128_hi 0 = []"
  by (simp add: b128_hi.simps)

lemma b128_hi_step:
  "d < 128 \<Longrightarrow> n * 128 + d \<noteq> 0 \<Longrightarrow> b128_hi (n * 128 + d) = b128_hi n @ [of_nat (128 + d)]"
  by (subst b128_hi.simps) simp

lemma b128_step: "d < 128 \<Longrightarrow> b128 (n * 128 + d) = b128_hi n @ [of_nat d]"
  by (simp add: b128_def)

lemma unat_and_7f: "unat (b AND 0x7f :: byte) = unat b mod 128"
proof -
  have "unat (b AND 0x7f) = unat b AND mask 7"
    by (simp add: unsigned_and_eq mask_eq_exp_minus_1)
  also have "\<dots> = unat b mod 2 ^ 7"
    by (simp only: take_bit_eq_mod flip: take_bit_eq_mask)
  finally show ?thesis by simp
qed

lemma and_80_zero_iff: "(b :: byte) AND 0x80 = 0 \<longleftrightarrow> unat b < 128"
proof -
  have "b AND 0x80 = 0 \<longleftrightarrow> \<not> bit b 7"
    using and_exp_eq_0_iff_not_bit [of b 7] by simp
  also have "\<dots> \<longleftrightarrow> \<not> bit (unat b) 7"
    by (simp add: bit_unsigned_iff)
  also have "\<dots> \<longleftrightarrow> unat b div 128 mod 2 = 0"
    by (simp only: bit_iff_odd even_iff_mod_2_eq_zero) simp
  also have "\<dots> \<longleftrightarrow> unat b < 128"
  proof -
    have "unat b div 128 < 2"
      using unat_byte_less [of b] by (simp add: less_mult_imp_div_less)
    then show ?thesis by (auto simp: div_eq_0_iff)
  qed
  finally show ?thesis .
qed

lemma push7_or:
  fixes v :: u64
  assumes "unat v < 2 ^ 57"
  shows "unat (push_bit 7 v OR ucast (b AND 0x7f :: byte)) = unat v * 128 + unat b mod 128"
proof -
  have disj: "push_bit 7 v AND ucast (b AND 0x7f) = 0"
  proof (rule bit_word_eqI)
    fix n
    assume "n < LENGTH(64)"
    have "n < 7" if "bit (0x7f :: byte) n"
    proof -
      have "(0x7f :: byte) = mask 7" by (simp add: mask_eq_exp_minus_1)
      with that show ?thesis by (simp only: bit_mask_iff)
    qed
    then show "bit (push_bit 7 v AND ucast (b AND 0x7f)) n = bit (0 :: u64) n"
      by (auto simp: bit_simps simp del: bit_numeral_rec)
  qed
  have "push_bit 7 v OR ucast (b AND 0x7f) = push_bit 7 v + ucast (b AND 0x7f)"
    using disj by (rule disjunctive_add_eq_or [symmetric])
  moreover have "unat (push_bit 7 v) = unat v * 128"
    using assms by (subst unsigned_push_bit_eq) (simp add: push_bit_eq_mult take_bit_nat_eq_self)
  moreover have "unat (ucast (b AND 0x7f) :: u64) = unat b mod 128"
    by (simp add: unsigned_ucast_eq unat_and_7f take_bit_nat_eq_self)
  ultimately show ?thesis
    using assms by (simp add: unat_word_ariths)
qed


lemma base128_stop_iff:
  "(v :: u64) = 0 \<and> (b :: byte) = 0x80 \<longleftrightarrow> unat v * 128 + unat b mod 128 = 0 \<and> 128 \<le> unat b"
proof -
  have "b = 0x80 \<longleftrightarrow> unat b mod 128 = 0 \<and> 128 \<le> unat b"
  proof -
    have "unat b < 256" by (rule unat_byte_less)
    then have "unat b = 128 \<longleftrightarrow> unat b mod 128 = 0 \<and> 128 \<le> unat b"
      by (auto simp: mod_if split: if_splits)
    then show ?thesis by (simp add: word_unat_eq_iff)
  qed
  then show ?thesis by (auto simp: unat_eq_zero)
qed

lemma drop_57_eq_0_iff: "drop_bit 57 (v :: u64) = 0 \<longleftrightarrow> unat v < 2 ^ 57"
  by (rule drop_bit_word_eq_0_iff)

text \<open>One turn of the loop, read on natural numbers.\<close>

lemma parse_base128_loop_Cons:
  "parse_base128_loop v (b # s) =
    (let n = unat v * 128 + unat b mod 128 in
     if 2 ^ 57 \<le> unat v then (None, s)
     else if n = 0 \<and> 128 \<le> unat b then (None, s)
     else if 128 \<le> unat b then parse_base128_loop (of_nat n) s
     else (Some (of_nat n), s))"
proof (cases "unat v < 2 ^ 57")
  case True
  then have "push_bit 7 v OR ucast (b AND 0x7f) = of_nat (unat v * 128 + unat b mod 128)"
    by (intro word_eq_of_natI push7_or)
  with True show ?thesis
    using base128_stop_iff [of v b] drop_57_eq_0_iff [of v] and_80_zero_iff [of b]
    by (simp add: Let_def not_le del: of_nat_add of_nat_mult)
next
  case False
  then show ?thesis
    using drop_57_eq_0_iff [of v] by (simp add: Let_def not_le)
qed

declare parse_base128_loop.simps(2) [simp del]

lemma unat_b128_octet: "unat (of_nat (128 + n mod 128) :: byte) = 128 + n mod 128"
proof -
  have "n mod 128 < 128" by simp
  then show ?thesis by (intro unat_of_nat_small) simp
qed

lemma parse_b128_hi:
  "n < 2 ^ 64 \<Longrightarrow> parse_base128_loop 0 (b128_hi n @ s) = parse_base128_loop (of_nat n) s"
proof (induction n arbitrary: s rule: b128_hi.induct)
  case (1 n)
  show ?case
  proof (cases "n = 0")
    case False
    let ?q = "n div 128" and ?b = "of_nat (128 + n mod 128) :: byte"
    have q: "?q < 2 ^ 57" using "1.prems" by simp
    then have uq: "unat (of_nat ?q :: u64) = ?q" by (simp add: unat_of_nat)
    have "b128_hi n = b128_hi ?q @ [?b]"
      using False by (subst b128_hi.simps) simp
    then have "parse_base128_loop 0 (b128_hi n @ s) = parse_base128_loop (of_nat ?q) (?b # s)"
      using "1.IH" [OF False] "1.prems" by simp
    also have "\<dots> = parse_base128_loop (of_nat n) s"
      using q uq False unat_b128_octet [of n]
      by (subst parse_base128_loop_Cons) (simp add: Let_def del: of_nat_add)
    finally show ?thesis .
  qed simp
qed

lemma parse_b128:
  assumes "n < 2 ^ 64"
  shows "parse_base128_integer (b128 n @ s) = (Some (of_nat n), s)"
proof -
  let ?q = "n div 128" and ?b = "of_nat (n mod 128) :: byte"
  have "?q < 2 ^ 57" using assms by simp
  moreover have "unat (of_nat ?q :: u64) = ?q"
    using assms by (intro unat_of_nat_small) simp
  moreover have "unat ?b = n mod 128"
    by (rule unat_of_nat_small) (simp add: order_less_trans [of _ 128])
  moreover have "\<not> 128 \<le> n mod 128"
    by (simp add: not_le)
  moreover have "parse_base128_integer (b128 n @ s) = parse_base128_loop (of_nat ?q) (?b # s)"
    using assms by (simp add: parse_base128_integer_def b128_def parse_b128_hi)
  ultimately show ?thesis
    by (simp add: parse_base128_loop_Cons Let_def del: of_nat_add of_nat_mult)
qed

lemma parse_base128_loop_sound:
  "parse_base128_loop v s = (Some w, t) \<Longrightarrow> b128_hi (unat v) @ s = b128 (unat w) @ t"
proof (induction s arbitrary: v)
  case (Cons b s)
  let ?d = "unat b mod 128" and ?n = "unat v * 128 + unat b mod 128"
  from Cons.prems have small: "unat v < 2 ^ 57" and nz: "\<not> (?n = 0 \<and> 128 \<le> unat b)"
    by (simp_all add: parse_base128_loop_Cons Let_def split: if_splits)
  have d: "?d < 128" by simp
  have "x * 128 + y < 2 ^ 64" if "x < 2 ^ 57" and "y < 128" for x y :: nat
    using that by simp
  from this [OF small d] have "?n < 2 ^ 64" .
  then have un: "unat (of_nat ?n :: u64) = ?n" by (intro unat_of_nat_small) simp
  show ?case
  proof (cases "128 \<le> unat b")
    case True
    then have "?d = unat b - 128"
      using unat_byte_less [of b] by (simp add: le_mod_geq)
    with True have "unat b = 128 + ?d" by simp
    then have b: "b = of_nat (128 + ?d)" by (rule word_eq_of_natI)
    from Cons.prems small nz True have "parse_base128_loop (of_nat ?n) s = (Some w, t)"
      by (simp add: parse_base128_loop_Cons Let_def del: of_nat_add of_nat_mult split: if_splits)
    from Cons.IH [OF this] have "b128_hi ?n @ s = b128 (unat w) @ t"
      by (simp only: un)
    moreover have "b128_hi ?n = b128_hi (unat v) @ [b]"
      using d nz True b by (subst b128_hi_step) simp_all
    ultimately show ?thesis by simp
  next
    case False
    then have "?d = unat b" by simp
    then have b: "b = of_nat ?d" by (intro word_eq_of_natI) simp
    from Cons.prems small nz False have "w = of_nat ?n" and t: "t = s"
      by (simp_all add: parse_base128_loop_Cons Let_def del: of_nat_add of_nat_mult split: if_splits)
    then have w: "unat w = ?n" by (simp only: un)
    have "b128 ?n = b128_hi (unat v) @ [b]"
      using d b by (simp only: b128_step)
    with w t show ?thesis by (simp only: append_assoc append_Cons append_Nil)
  qed
qed simp

lemma parse_base128_iff:
  "parse_base128_integer s = (Some w, t) \<longleftrightarrow> s = b128 (unat w) @ t"
proof
  assume "parse_base128_integer s = (Some w, t)"
  from parse_base128_loop_sound [OF this [unfolded parse_base128_integer_def]]
  show "s = b128 (unat w) @ t" by simp
next
  assume "s = b128 (unat w) @ t"
  moreover have "parse_base128_integer (b128 (unat w) @ t) = (Some (of_nat (unat w)), t)"
    using unsigned_less [of w] by (intro parse_b128) simp
  ultimately show "parse_base128_integer s = (Some w, t)"
    by (simp only: of_nat_unat ucast_id)
qed

section \<open>Tags\<close>

text \<open>The tag that identifier octet \<open>f\<close> and tag number \<open>n\<close> make.\<close>

definition tag_of :: "byte \<Rightarrow> u32 \<Rightarrow> u32" where
  "tag_of f n = push_bit 24 (ucast f AND 0xe0) OR n"

lemma e0_mask: "(0xe0 :: byte) = push_bit 5 (mask 3)" "(0xe0 :: u32) = push_bit 5 (mask 3)"
  by (simp_all add: mask_eq_exp_minus_1)

lemma x1f_mask: "(0x1f :: byte) = mask 5" "(0x1fffffff :: u32) = mask 29"
  by (simp_all add: mask_eq_exp_minus_1)

lemma tag_of_number:
  assumes "n AND mask 29 = n"
  shows "tag_of f n AND mask 29 = n"
  unfolding tag_of_def e0_mask
  by (rule bit_word_eqI) (use assms in \<open>auto simp: bit_simps bit_eq_iff\<close>)

lemma tag_of_bits:
  assumes "n AND mask 29 = n"
  shows "ucast (drop_bit 24 (tag_of f n)) AND 0xe0 = f AND 0xe0"
proof -
  have "\<not> bit n i" if "29 \<le> i" for i
    using that assms by (metis bit_and_iff bit_mask_iff not_less)
  then show ?thesis
    unfolding tag_of_def e0_mask
    by (intro bit_word_eqI) (auto simp: bit_simps)
qed

lemma tag_of_split: "tag_of (ucast (drop_bit 24 t) AND 0xe0) (t AND mask 29) = t"
  unfolding tag_of_def e0_mask
  by (rule bit_word_eqI) (auto simp: bit_simps)

lemma tag_of_and_e0: "tag_of (f AND 0xe0) n = tag_of f n"
  unfolding tag_of_def e0_mask
  by (rule arg_cong [where f = "\<lambda>x. x OR n"], rule bit_word_eqI) (auto simp: bit_simps)

lemma octet_parts:
  fixes f l :: byte
  assumes "l AND mask 5 = l"
  shows "((f AND 0xe0) OR l) AND 0x1f = l" and "((f AND 0xe0) OR l) AND 0xe0 = f AND 0xe0"
proof -
  have l: "i < 5" if "bit l i" for i
    using that assms by (metis bit_and_iff bit_mask_iff)
  show "((f AND 0xe0) OR l) AND 0x1f = l"
    unfolding e0_mask x1f_mask by (rule bit_word_eqI) (use l in \<open>auto simp: bit_simps\<close>)
  show "((f AND 0xe0) OR l) AND 0xe0 = f AND 0xe0"
    unfolding e0_mask by (rule bit_word_eqI) (auto simp: bit_simps dest: l)
qed

lemma octet_split: "(f AND 0xe0) OR (f AND 0x1f) = (f :: byte)"
  unfolding e0_mask x1f_mask by (rule bit_word_eqI) (auto simp: bit_simps)

lemma and_mask_eq_self_iff: "(w :: 'a::len word) AND mask n = w \<longleftrightarrow> unat w < 2 ^ n"
  by (metis (no_types, lifting) drop_bit_word_eq_0_iff take_bit_eq_mask take_bit_eq_self_iff_drop_bit_eq_0)

lemma unat_and_1f: "unat (f AND 0x1f :: byte) < 32"
  using and_mask_eq_self_iff [of "f AND 0x1f" 5]
  by (simp only: x1f_mask and.assoc and.idem) simp

lemma parse_asn1_tag_Cons:
  "parse_asn1_tag (f # s) =
    (if f AND 0x1f = 0x1f then
       (case parse_base128_integer s of
          (None, t) \<Rightarrow> (None, t)
        | (Some v, t) \<Rightarrow>
            if 31 \<le> unat v \<and> unat v < 2 ^ 29 then (Some (tag_of f (ucast v)), t) else (None, t))
     else (Some (tag_of f (ucast (f AND 0x1f))), s))"
proof -
  have low: "ucast (f AND 0x1f) = (0x1f :: u32) \<longleftrightarrow> f AND 0x1f = 0x1f"
  proof -
    have "unat (ucast (f AND 0x1f) :: u32) = unat (f AND 0x1f)"
      using unat_and_1f [of f] by (simp add: unsigned_ucast_eq take_bit_nat_eq_self)
    then show ?thesis by (simp add: word_unat_eq_iff)
  qed
  have upper: "ucast CBS_ASN1_TAG_NUMBER_MASK < v \<longleftrightarrow> \<not> unat v < 2 ^ 29" for v :: u64
    by (auto simp: CBS_ASN1_TAG_NUMBER_MASK_def word_less_nat_alt)
  have lower: "v < 0x1f \<longleftrightarrow> \<not> 31 \<le> unat v" for v :: u64
    by (auto simp: word_less_nat_alt)
  have "parse_asn1_tag (f # s) =
     (if ucast (f AND 0x1f) = (0x1f :: u32)
      then and_then parse_base128_integer (\<lambda>v.
             and_then (require (\<not> (ucast CBS_ASN1_TAG_NUMBER_MASK < v \<or> v < 0x1f))) (\<lambda>_.
               ok (tag_of f (ucast v)))) s
      else ok (tag_of f (ucast (f AND 0x1f))) s)"
    unfolding parse_asn1_tag_def tag_of_def and_then_def [of CBS_get_u8] CBS_get_u8_Cons Let_def
    by (simp only: prod.case option.case) simp
  also have "\<dots> =
    (if f AND 0x1f = 0x1f then
       (case parse_base128_integer s of
          (None, t) \<Rightarrow> (None, t)
        | (Some v, t) \<Rightarrow>
            if 31 \<le> unat v \<and> unat v < 2 ^ 29 then (Some (tag_of f (ucast v)), t) else (None, t))
     else (Some (tag_of f (ucast (f AND 0x1f))), s))"
    unfolding low upper lower
    by (auto simp: and_then_def ok_def require_def split: prod.splits option.splits)
  finally show ?thesis .
qed

lemma parse_asn1_tag_Nil: "parse_asn1_tag [] = (None, [])"
  by (simp add: parse_asn1_tag_def and_then_def cbs_simps)

lemma der_tag_tag_of:
  assumes "unat n < 2 ^ 29"
  shows "der_tag (tag_of f n) =
    (if 31 \<le> unat n then ((f AND 0xe0) OR 0x1f) # b128 (unat n)
     else [(f AND 0xe0) OR of_nat (unat n)])"
proof -
  have n: "n AND mask 29 = n" using assms by (simp only: and_mask_eq_self_iff)
  show ?thesis
    unfolding der_tag_def Let_def CBS_ASN1_TAG_NUMBER_MASK_def x1f_mask(2)
      tag_of_number [OF n] tag_of_bits [OF n] by simp
qed

lemma parse_asn1_tag_der_tag: "parse_asn1_tag (der_tag t @ r) = (Some t, r)"
proof -
  let ?n = "t AND mask 29" and ?f = "ucast (drop_bit 24 t) :: byte"
  have n: "unat ?n < 2 ^ 29" by (simp only: and_mask_eq_self_iff [symmetric] and.assoc and.idem)
  have t: "tag_of (?f AND 0xe0) ?n = t" by (rule tag_of_split)
  then have t': "tag_of ?f ?n = t" by (simp only: tag_of_and_e0)
  show ?thesis
  proof (cases "31 \<le> unat ?n")
    case True
    have low: "((?f AND 0xe0) OR 0x1f) AND 0x1f = (0x1f :: byte)"
      by (rule octet_parts(1)) (simp add: x1f_mask(1))
    have high: "((?f AND 0xe0) OR 0x1f) AND 0xe0 = ?f AND 0xe0"
      by (rule octet_parts(2)) (simp add: x1f_mask(1))
    have v: "unat (of_nat (unat ?n) :: u64) = unat ?n"
      using n by (intro unat_of_nat_small) simp
    have "ucast (of_nat (unat ?n) :: u64) = ?n"
      by (simp only: word_unat_eq_iff unsigned_ucast_eq v)
        (use n in \<open>simp add: take_bit_nat_eq_self\<close>)
    moreover have "tag_of ((?f AND 0xe0) OR 0x1f) ?n = t"
      by (metis high tag_of_and_e0 t)
    ultimately show ?thesis
      using True n v low unfolding der_tag_tag_of [OF n, of ?f, unfolded t']
      by (simp add: parse_asn1_tag_Cons parse_b128 del: of_nat_unat)
  next
    case False
    let ?l = "of_nat (unat ?n) :: byte"
    have ul: "unat ?l = unat ?n" using False by (intro unat_of_nat_small) simp
    then have l: "?l AND mask 5 = ?l" using False by (simp only: and_mask_eq_self_iff) simp
    have "?l \<noteq> 0x1f" using ul False by (auto simp: word_unat_eq_iff)
    moreover have "ucast ?l = ?n"
      by (simp only: word_unat_eq_iff unsigned_ucast_eq ul)
        (use n in \<open>simp add: take_bit_nat_eq_self\<close>)
    moreover have "tag_of ((?f AND 0xe0) OR ?l) ?n = t"
      by (metis octet_parts(2) [OF l] tag_of_and_e0 t)
    ultimately show ?thesis
      using False octet_parts(1) [OF l, of ?f] unfolding der_tag_tag_of [OF n, of ?f, unfolded t']
      by (simp add: parse_asn1_tag_Cons del: of_nat_unat)
  qed
qed

lemma parse_asn1_tag_sound:
  assumes "parse_asn1_tag s = (Some t, r)"
  shows "s = der_tag t @ r"
proof (cases s)
  case Nil
  with assms show ?thesis by (simp add: parse_asn1_tag_Nil)
next
  case (Cons f u)
  show ?thesis
  proof (cases "f AND 0x1f = 0x1f")
    case True
    with assms Cons obtain v where v: "parse_base128_integer u = (Some v, r)"
      and bounds: "31 \<le> unat v" "unat v < 2 ^ 29" and t: "t = tag_of f (ucast v)"
      by (auto simp: parse_asn1_tag_Cons split: prod.splits option.splits if_splits)
    have uv: "unat (ucast v :: u32) = unat v"
      by (simp only: unsigned_ucast_eq) (use bounds in \<open>simp add: take_bit_nat_eq_self\<close>)
    with bounds have "der_tag t = ((f AND 0xe0) OR 0x1f) # b128 (unat v)"
      by (simp only: t der_tag_tag_of uv) simp
    moreover have "(f AND 0xe0) OR 0x1f = f"
      using octet_split [of f] True by simp
    moreover have "u = b128 (unat v) @ r"
      using v by (simp only: parse_base128_iff)
    ultimately show ?thesis using Cons by simp
  next
    case False
    let ?l = "f AND 0x1f"
    from assms Cons False have t: "t = tag_of f (ucast ?l)" and r: "r = u"
      by (simp_all add: parse_asn1_tag_Cons)
    have ul: "unat (ucast ?l :: u32) = unat ?l"
      using unat_and_1f [of f] by (simp only: unsigned_ucast_eq) (simp add: take_bit_nat_eq_self)
    have "unat ?l \<noteq> 31" using False by (auto simp: word_unat_eq_iff)
    with unat_and_1f [of f] have small: "unat ?l < 31" by linarith
    have "of_nat (unat ?l) = ?l" by (simp only: of_nat_unat ucast_id)
    with small have "der_tag t = [(f AND 0xe0) OR ?l]"
      using der_tag_tag_of [of "ucast ?l" f, unfolded ul] by (simp add: t del: of_nat_unat)
    then show ?thesis using Cons r octet_split [of f] by simp
  qed
qed

lemma parse_asn1_tag_iff: "parse_asn1_tag s = (Some t, r) \<longleftrightarrow> s = der_tag t @ r"
  using parse_asn1_tag_sound parse_asn1_tag_der_tag by blast

lemma length_b128_hi: "n < 128 ^ k \<Longrightarrow> length (b128_hi n) \<le> k"
proof (induction k arbitrary: n)
  case (Suc k)
  show ?case
  proof (cases "n = 0")
    case False
    from Suc.prems have "n div 128 < 128 ^ k" by (simp add: less_mult_imp_div_less mult.commute)
    with Suc.IH False show ?thesis by (subst b128_hi.simps) simp
  qed simp
qed simp

lemma length_der_tag: "length (der_tag t) \<le> 6"
proof -
  let ?n = "unat (t AND mask 29)"
  have "?n < 2 ^ 29" by (simp only: and_mask_eq_self_iff [symmetric] and.assoc and.idem)
  then have "?n div 128 < 128 ^ 4" by simp
  then have "length (b128_hi (?n div 128)) \<le> 4" by (rule length_b128_hi)
  then show ?thesis
    by (simp add: der_tag_def Let_def b128_def CBS_ASN1_TAG_NUMBER_MASK_def x1f_mask(2))
qed

lemma der_tag_not_Nil: "der_tag t \<noteq> []"
  by (simp add: der_tag_def Let_def)

section \<open>Lengths\<close>

text \<open>The length octets as the parser reads them: content length and number of octets.\<close>

fun length_field :: "byte list \<Rightarrow> (nat \<times> nat) option" where
  "length_field [] = None"
| "length_field (b # s) =
     (if unat b < 128 then Some (unat b, 1)
      else let k = unat b mod 128 in
        if k = 0 \<or> 4 < k \<or> length s < k then None
        else let n = be_nat (take k s) in
          if n < 128 \<or> n < 256 ^ (k - 1) then None else Some (n, 1 + k))"

lemma octets_needed_eq:
  assumes "1 \<le> k" and "k \<le> 4" and "256 ^ (k - 1) \<le> n \<or> k = 1" and "n < 256 ^ k"
  shows "octets_needed n = k"
proof -
  from assms(1,2) consider "k = 1" | "k = 2" | "k = 3" | "k = 4" by linarith
  then show ?thesis
    by cases (use assms in \<open>simp_all add: octets_needed_def\<close>)
qed

lemma octets_needed_bounds:
  assumes "n < 2 ^ 32"
  shows "n < 256 ^ octets_needed n" and "256 ^ (octets_needed n - 1) \<le> n \<or> n < 256"
    and "1 \<le> octets_needed n" and "octets_needed n \<le> 4"
  using assms by (simp_all add: octets_needed_def)

lemma length_field_der_length:
  assumes "n < 2 ^ 32"
  shows "length_field (der_length n @ r) = Some (n, length (der_length n))"
proof (cases "n < 128")
  case True
  then show ?thesis by (simp add: der_length_def unat_of_nat_small)
next
  case False
  let ?k = "octets_needed n"
  note k = octets_needed_bounds [OF assms]
  have "unat (of_nat (128 + ?k) :: byte) = 128 + ?k"
    using k(4) by (intro unat_of_nat_small) simp
  moreover have "\<not> n < 256 ^ (?k - 1)"
    using k(2) False by (auto simp: octets_needed_def)
  moreover have "be_nat (be_bytes ?k n) = n"
    using k(1) by (simp add: be_nat_be_bytes)
  ultimately show ?thesis
    using False k(3,4) by (simp add: der_length_def Let_def del: of_nat_add)
qed

lemma length_field_sound:
  assumes "length_field s = Some (n, m)"
  obtains r where "s = der_length n @ r" and "m = length (der_length n)" and "n < 2 ^ 32"
proof (cases s)
  case (Cons b u)
  show ?thesis
  proof (cases "unat b < 128")
    case True
    with assms Cons have "n = unat b" and "m = 1" by simp_all
    with True Cons show ?thesis
      by (intro that [of u]) (simp_all add: der_length_def)
  next
    case False
    let ?k = "unat b mod 128"
    from assms Cons False have k: "1 \<le> ?k" "?k \<le> 4" "?k \<le> length u"
      and n: "n = be_nat (take ?k u)" "128 \<le> n" "256 ^ (?k - 1) \<le> n" and m: "m = 1 + ?k"
      by (auto simp: Let_def split: if_splits)
    have lt: "n < 256 ^ ?k"
      using be_nat_less [of "take ?k u"] k n(1) by (simp add: min_absorb2)
    have oct: "octets_needed n = ?k"
      using k n(3) lt by (intro octets_needed_eq) simp_all
    have "unat b = 128 + ?k"
      using False unat_byte_less [of b] by (simp add: le_mod_geq)
    then have b: "b = of_nat (128 + ?k)" by (rule word_eq_of_natI)
    have "be_bytes ?k n = take ?k u"
      using be_bytes_be_nat [of "take ?k u"] k(3) n(1) by (simp add: min_absorb2)
    then have "s = der_length n @ drop ?k u"
      using Cons n(2) b by (simp add: der_length_def oct del: of_nat_add)
    moreover have "(256::nat) ^ ?k \<le> 256 ^ 4"
      using k(2) by (intro power_increasing) simp_all
    ultimately show ?thesis
      using lt m n(2) by (intro that [of "drop ?k u"]) (simp_all add: der_length_def oct)
  qed
qed (use assms in simp)

lemma length_der_length: "length (der_length n) \<le> 5"
  by (simp add: der_length_def octets_needed_def)

section \<open>Elements\<close>

lemma long_form_octet:
  assumes "128 \<le> unat (b :: byte)"
  shows "b AND 0x80 \<noteq> 0" and "unat (b AND 0x7f) = unat b mod 128"
proof -
  show "b AND 0x80 \<noteq> 0" using assms and_80_zero_iff [of b] by simp
  show "unat (b AND 0x7f) = unat b mod 128" by (rule unat_and_7f)
qed

lemma be_nat_take_less:
  assumes "k \<le> 4" and "k \<le> length u"
  shows "be_nat (take k u) < 2 ^ 32"
proof -
  have "be_nat (take k u) < 256 ^ k"
    using be_nat_less [of "take k u"] assms(2) by (simp add: min_absorb2)
  also have "(256::nat) ^ k \<le> 256 ^ 4"
    using assms(1) by (intro power_increasing) simp_all
  finally show ?thesis by simp
qed

text \<open>
  The element parser in terms of the tag and length specifications; \<open>ber_ok\<close> adds exactly the
  indefinite-length form of constructed elements.
\<close>

definition indefinite :: "u32 \<Rightarrow> byte list \<Rightarrow> bool" where
  "indefinite tag h \<longleftrightarrow> tag AND CBS_ASN1_CONSTRUCTED \<noteq> 0 \<and> (\<exists>u. h = 0x80 # u)"

lemma cbs_get_any_asn1_element_split:
  assumes tag: "parse_asn1_tag s = (Some tag, h)"
  shows "cbs_get_any_asn1_element ber_ok s =
    (if ber_ok \<and> indefinite tag h then
       (let hl = length s - length h + 1 in (Some (take hl s, tag, hl), drop hl s))
     else (case length_field h of None \<Rightarrow> (None, s)
       | Some (n, m) \<Rightarrow>
           (let hl = length s - length h + m in
            if length s < n + hl then (None, s) else (Some (take (n + hl) s, tag, hl), drop (n + hl) s))))"
proof -
  from tag have s: "s = der_tag tag @ h" by (rule parse_asn1_tag_sound)
  then have tl: "length s - length h \<le> 6" using length_der_tag [of tag] by simp
  show ?thesis
  proof (cases h)
    case Nil
    with tag show ?thesis
      by (simp add: cbs_get_any_asn1_element_def cbs_simps indefinite_def)
  next
    case (Cons b u)
    let ?t = "length s - length h"
    have len: "Suc (length u) \<le> length s" using s Cons by simp
    have hl: "CBS_len s - CBS_len u = ?t + 1" using s Cons by (simp add: CBS_len_def)
    show ?thesis
    proof (cases "unat b < 128")
      case True
      then have "b AND 0x80 = 0" by (simp only: and_80_zero_iff)
      moreover have "size_add (unat b) (?t + 1) = unat b + (?t + 1)"
        using True tl by (intro size_add_small) simp
      moreover have "\<not> indefinite tag h" using True Cons by (auto simp: indefinite_def)
      ultimately show ?thesis
        using tag Cons True
        by (simp add: cbs_get_any_asn1_element_def cbs_simps Let_def hl and_then_def ok_def)
    next
      case False
      let ?k = "unat b mod 128"
      from False have b: "b AND 0x80 \<noteq> 0" "unat (b AND 0x7f) = ?k"
        using long_form_octet [of b] by simp_all
      have zero: "?k = 0 \<longleftrightarrow> b = 0x80"
        using False unat_byte_less [of b] by (simp add: le_mod_geq word_unat_eq_iff)
      have ind: "indefinite tag h \<longleftrightarrow> tag AND CBS_ASN1_CONSTRUCTED \<noteq> 0 \<and> ?k = 0"
        using Cons zero by (simp add: indefinite_def)
      define k where "k = ?k"
      have kk: "unat (b AND 0x7f) = k" "?k = k" using b(2) by (simp_all only: k_def)
      show ?thesis
      proof (cases "k = 0 \<or> 4 < k \<or> length u < k")
        case True
        then have "length_field h = None" using Cons False by (simp add: kk Let_def)
        moreover have "4 < k \<or> cbs_get_u k u = (None, u)" if "k \<noteq> 0"
          using True that by (cases "4 < k") (auto simp: cbs_get_u_simp)
        ultimately show ?thesis
          using tag Cons True b(1) ind len
          by (auto simp: cbs_get_any_asn1_element_def cbs_simps Let_def hl kk and_then_def ok_def)
      next
        case k: False
        define n where "n = be_nat (take k u)"
        define t0 where "t0 = ?t"
        have n: "n < 2 ^ 32" unfolding n_def using k by (intro be_nat_take_less) simp_all
        then have un: "unat (of_nat n :: u64) = n" by (intro unat_of_nat_small) simp
        have small: "(of_nat n :: u64) < 128 \<longleftrightarrow> n < 128"
          by (simp only: word_less_nat_alt un) simp
        have top: "drop_bit ((k - 1) * 8) (of_nat n :: u64) = 0 \<longleftrightarrow> n < 256 ^ (k - 1)"
          by (simp only: drop_bit_word_eq_0_iff un power_mult mult.commute [of _ 8]) simp
        have sizes: "size_add (t0 + 1) k = t0 + 1 + k" "size_add n (t0 + 1 + k) = n + (t0 + 1 + k)"
          "size_add n (t0 + 1) = n + (t0 + 1)" "size_add (n + (t0 + 1)) k = n + (t0 + 1) + k"
          using k tl [folded t0_def] n by (simp_all add: size_add_small)
        have get: "cbs_get_u k u = (Some (of_nat n), drop k u)"
          using k by (simp add: cbs_get_u_simp n_def)
        have "(ber_ok \<and> indefinite tag h) = False" using ind k by (simp add: kk)
        moreover have "length_field h = (if n < 128 \<or> n < 256 ^ (k - 1) then None else Some (n, 1 + k))"
          using k Cons False by (simp add: kk Let_def n_def)
        moreover have "cbs_get_any_asn1_element ber_ok s =
          (if n < 128 then (None, s) else if n < 256 ^ (k - 1) then (None, s)
           else and_then (CBS_get_bytes (n + (t0 + 1 + k))) (\<lambda>out. ok (out, tag, t0 + 1 + k)) s)"
          using tag Cons b(1) k
          by (simp only: cbs_get_any_asn1_element_def prod.case option.case CBS_get_u8_Cons Let_def
              hl [folded t0_def]
              kk get small top un sizes if_False simp_thms) simp
        ultimately show ?thesis
          by (simp only: if_False) (simp add: and_then_def ok_def cbs_simps Let_def ac_simps flip: t0_def)
      qed
    qed
  qed
qed

lemma der_header_append: "der_header t n @ b = der_tag t @ der_length n @ b"
  by (simp add: der_header_def)

theorem get_any_asn1_element_iff:
  "CBS_get_any_asn1_element s = (Some (out, tag, hl), r) \<longleftrightarrow>
    (\<exists>body. length body < 2 ^ 32 \<and> out = der_element tag body \<and> s = out @ r \<and>
       hl = length (der_header tag (length body)))"
proof
  assume eq: "CBS_get_any_asn1_element s = (Some (out, tag, hl), r)"
  obtain t h where "parse_asn1_tag s = (Some t, h)"
    using eq by (cases "parse_asn1_tag s"; cases "fst (parse_asn1_tag s)")
      (simp_all add: CBS_get_any_asn1_element_def cbs_get_any_asn1_element_def)
  with eq have th: "parse_asn1_tag s = (Some tag, h)"
    by (auto simp: CBS_get_any_asn1_element_def cbs_get_any_asn1_element_split Let_def
        split: option.splits if_splits)
  from parse_asn1_tag_sound [OF th] have s: "s = der_tag tag @ h" .
  from eq th obtain n m where lf: "length_field h = Some (n, m)"
    and hl: "hl = length (der_tag tag) + m" and le: "n + hl \<le> length s"
    and out: "out = take (n + hl) s" and r: "r = drop (n + hl) s"
    by (auto simp: CBS_get_any_asn1_element_def cbs_get_any_asn1_element_split Let_def s
        split: option.splits if_splits)
  from lf obtain u where h: "h = der_length n @ u" and m: "m = length (der_length n)" and n: "n < 2 ^ 32"
    by (rule length_field_sound)
  let ?body = "take n u"
  have "length ?body = n" using le s h hl m by simp
  moreover have "out = der_tag tag @ der_length n @ ?body"
    using out s h hl m by simp
  moreover have "s = out @ r" by (simp only: out r append_take_drop_id)
  ultimately show "\<exists>body. length body < 2 ^ 32 \<and> out = der_element tag body \<and> s = out @ r \<and>
       hl = length (der_header tag (length body))"
    using n hl m by (intro exI [of _ ?body]) (simp add: der_element_def der_header_def)
next
  assume "\<exists>body. length body < 2 ^ 32 \<and> out = der_element tag body \<and> s = out @ r \<and>
       hl = length (der_header tag (length body))"
  then obtain body where n: "length body < 2 ^ 32" and out: "out = der_element tag body"
    and s: "s = out @ r" and hl: "hl = length (der_header tag (length body))" by blast
  let ?h = "der_length (length body) @ body @ r"
  have th: "parse_asn1_tag s = (Some tag, ?h)"
    unfolding parse_asn1_tag_iff by (simp add: s out der_element_def der_header_def)
  have "length_field ?h = Some (length body, length (der_length (length body)))"
    using n by (rule length_field_der_length)
  with th show "CBS_get_any_asn1_element s = (Some (out, tag, hl), r)"
    by (simp add: CBS_get_any_asn1_element_def cbs_get_any_asn1_element_split Let_def s out hl
        der_element_def der_header_def)
qed

lemma der_element_inject:
  assumes "der_element t b @ r = der_element t' b' @ r'"
    and "length b < 2 ^ 32" and "length b' < 2 ^ 32"
  shows "t = t' \<and> b = b' \<and> r = r'"
proof -
  let ?s = "der_element t b @ r"
  have e1: "CBS_get_any_asn1_element ?s = (Some (der_element t b, t, length (der_header t (length b))), r)"
    unfolding get_any_asn1_element_iff using assms(2) by blast
  have e2: "CBS_get_any_asn1_element ?s =
      (Some (der_element t' b', t', length (der_header t' (length b'))), r')"
    unfolding get_any_asn1_element_iff using assms(1,3) by blast
  from trans [OF e1 [symmetric] e2] show ?thesis by (auto simp: der_element_def)
qed

text \<open>The typed reader returns the contents octets of the element.\<close>

lemma CBS_get_asn1_iff:
  "CBS_get_asn1 tag s = (Some out, r) \<longleftrightarrow> length out < 2 ^ 32 \<and> s = der_element tag out @ r"
proof -
  have skip: "CBS_skip (length (der_header t n)) (der_header t n @ b) = (Some (), b)" for t n b
    by (simp add: cbs_simps)
  show ?thesis
  proof
    assume "CBS_get_asn1 tag s = (Some out, r)"
    then obtain e hl where e: "CBS_get_any_asn1_element s = (Some (e, tag, hl), r)"
      and sk: "CBS_skip hl e = (Some (), out)"
      by (auto simp: CBS_get_asn1_def cbs_get_asn1_def and_then_def
          split: prod.splits option.splits if_splits)
    from e sk show "length out < 2 ^ 32 \<and> s = der_element tag out @ r"
      unfolding get_any_asn1_element_iff by (auto simp: der_element_def skip)
  next
    assume a: "length out < 2 ^ 32 \<and> s = der_element tag out @ r"
    then have "CBS_get_any_asn1_element s =
        (Some (der_element tag out, tag, length (der_header tag (length out))), r)"
      unfolding get_any_asn1_element_iff by blast
    then show "CBS_get_asn1 tag s = (Some out, r)"
      by (simp add: CBS_get_asn1_def cbs_get_asn1_def and_then_def der_element_def skip)
  qed
qed

end
