(* ===== verification/Cbb.thy ===== *)
theory Cbb
  imports Der
begin

text \<open>
  The byte-string builder \<open>CBB\<close> of BoringSSL (\<open>crypto/bytestring/cbb.c\<close>).

  A top-level \<open>CBB\<close> owns a growing buffer; a length-prefixed child writes into the same
  buffer behind a pending length prefix, and may have a child of its own, so that at any time
  the open \<open>CBB\<close>s form a chain.  The state holds the shared buffer and the chain of open
  children, outermost first; a \<open>CBB *\<close> argument is the depth of the \<open>CBB\<close> in the chain
  (0 for the top-level one).  A depth beyond the chain is a child that has been flushed or
  discarded, whose \<open>base\<close> pointer the code has set to \<open>NULL\<close>.
\<close>

section \<open>State\<close>

text \<open>
  \<open>buf\<close> is the whole allocation (\<open>cap\<close> is its length), of which the first \<open>len\<close> bytes are
  valid; \<open>realloc_ok\<close> is the environment's answer to a request for that many bytes.
\<close>

record cbb_buffer =
  buf :: "byte list"
  len :: nat
  can_resize :: bool
  error :: bool
  realloc_ok :: "nat \<Rightarrow> bool"

record cbb_child =
  offset :: nat
  pending_len_len :: nat
  pending_is_asn1 :: bool

record cbb =
  base :: "cbb_buffer option"
  chain :: "cbb_child list"

definition cap :: "cbb_buffer \<Rightarrow> nat" where
  "cap b = length (buf b)"

definition contents :: "cbb_buffer \<Rightarrow> byte list" where
  "contents b = take (len b) (buf b)"

section \<open>The buffer\<close>

text \<open>Bytes that \<open>realloc\<close> adds are given the value 0; nothing reads them before writing them.\<close>

definition cbb_buffer_reserve :: "nat \<Rightarrow> (cbb_buffer, nat) oper" where
  "cbb_buffer_reserve n b =
     (let newlen = size_add (len b) n in
      if newlen < len b then (None, b\<lparr>error := True\<rparr>)
      else if newlen > cap b then
        if \<not> can_resize b then (None, b\<lparr>error := True\<rparr>)
        else let newcap = size_mul (cap b) 2;
                 newcap = (if newcap < cap b \<or> newcap < newlen then newlen else newcap)
          in if \<not> realloc_ok b newcap then (None, b\<lparr>error := True\<rparr>)
             else (Some (len b), b\<lparr>buf := buf b @ replicate (newcap - cap b) 0\<rparr>)
      else (Some (len b), b))"

definition cbb_buffer_add :: "nat \<Rightarrow> (cbb_buffer, nat) oper" where
  "cbb_buffer_add n =
     and_then (cbb_buffer_reserve n) (\<lambda>out b. (Some out, b\<lparr>len := len b + n\<rparr>))"

text \<open>The countdown loop that stores the low \<open>n\<close> bytes of \<open>v\<close> big-endian, and what is left of \<open>v\<close>.\<close>

fun put_be :: "byte list \<Rightarrow> nat \<Rightarrow> nat \<Rightarrow> nat \<Rightarrow> byte list \<times> nat" where
  "put_be bs off 0 v = (bs, v)"
| "put_be bs off (Suc i) v = put_be (bs[off + i := of_nat v]) off i (v div 256)"

definition cbb_buffer_add_u :: "nat \<Rightarrow> nat \<Rightarrow> (cbb_buffer, unit) oper" where
  "cbb_buffer_add_u v len_len =
     (if len_len = 0 then ok ()
      else and_then (cbb_buffer_add len_len) (\<lambda>dest b.
        case put_be (buf b) dest len_len v of (bs, rest) \<Rightarrow>
          let b' = b\<lparr>buf := bs\<rparr> in
          if rest \<noteq> 0 then (None, b'\<lparr>error := True\<rparr>) else (Some (), b')))"

section \<open>Flushing pending length prefixes\<close>

text \<open>
  The width of the DER length of \<open>n\<close> content octets with its first octet, and the value still
  to be written behind it (\<open>len = 0\<close> in the short form).
\<close>

definition asn1_length_form :: "nat \<Rightarrow> nat \<times> byte \<times> nat" where
  "asn1_length_form n =
     (if n > 0xffffff then (5, 0x80 OR 4, n)
      else if n > 0xffff then (4, 0x80 OR 3, n)
      else if n > 0xff then (3, 0x80 OR 2, n)
      else if n > 0x7f then (2, 0x80 OR 1, n)
      else (1, of_nat n, 0))"

definition memmove_up :: "byte list \<Rightarrow> nat \<Rightarrow> nat \<Rightarrow> nat \<Rightarrow> byte list" where
  "memmove_up bs from extra n =
     take (from + extra) bs @ take n (drop from bs) @ drop (from + extra + n) bs"

definition write_prefix :: "cbb_buffer \<Rightarrow> nat \<Rightarrow> nat \<Rightarrow> nat \<Rightarrow> bool \<times> cbb_buffer" where
  "write_prefix b off len_len n =
     (case put_be (buf b) off len_len n of (bs, rest) \<Rightarrow>
        if rest \<noteq> 0 then (False, b\<lparr>buf := bs, error := True\<rparr>) else (True, b\<lparr>buf := bs\<rparr>))"

definition flush_child :: "cbb_child \<Rightarrow> cbb_buffer \<Rightarrow> bool \<times> cbb_buffer" where
  "flush_child c b =
     (let child_start = offset c + pending_len_len c; n = len b - child_start in
      if pending_is_asn1 c then
        if n > 0xfffffffe then (False, b\<lparr>error := True\<rparr>)
        else (case asn1_length_form n of (len_len, initial_length_byte, n') \<Rightarrow>
          if len_len \<noteq> 1 then
            (let extra_bytes = len_len - 1 in
             case cbb_buffer_add extra_bytes b of
               (None, b1) \<Rightarrow> (False, b1\<lparr>error := True\<rparr>)
             | (Some _, b1) \<Rightarrow>
                 let b2 = b1\<lparr>buf := (memmove_up (buf b1) child_start extra_bytes n)
                                     [offset c := initial_length_byte]\<rparr>
                 in write_prefix b2 (offset c + 1) extra_bytes n')
          else write_prefix (b\<lparr>buf := (buf b)[offset c := initial_length_byte]\<rparr>)
                 (offset c + 1) 0 n')
      else write_prefix b (offset c) (pending_len_len c) n)"

text \<open>
  \<open>CBB_flush\<close> below a \<open>CBB\<close> whose open descendants are the given list: success, the buffer and
  the descendants still linked.
\<close>

fun flush_chain :: "cbb_buffer \<Rightarrow> cbb_child list \<Rightarrow> bool \<times> cbb_buffer \<times> cbb_child list" where
  "flush_chain b [] = (\<not> error b, b, [])"
| "flush_chain b (c # cs) =
     (if error b then (False, b, c # cs)
      else if pending_len_len c = 0 then (True, b, c # cs)
      else let child_start = size_add (offset c) (pending_len_len c) in
        (case flush_chain b cs of (flushed, b', cs') \<Rightarrow>
          if \<not> flushed \<or> child_start < offset c \<or> len b' < child_start
          then (False, b'\<lparr>error := True\<rparr>, c # cs')
          else (case flush_child c b' of
              (False, b'') \<Rightarrow> (False, b'', c # cs')
            | (True, b'') \<Rightarrow> (True, b'', []))))"

definition CBB_flush :: "nat \<Rightarrow> (cbb, unit) oper" where
  "CBB_flush d s =
     (case base s of None \<Rightarrow> (None, s)
      | Some b \<Rightarrow>
        if length (chain s) < d then (None, s)
        else (case flush_chain b (drop d (chain s)) of (flushed, b', cs') \<Rightarrow>
          (if flushed then Some () else None,
           s\<lparr>base := Some b', chain := take d (chain s) @ cs'\<rparr>)))"

definition on_base :: "(cbb_buffer, 'a) oper \<Rightarrow> (cbb, 'a) oper" where
  "on_base f s =
     (case base s of None \<Rightarrow> (None, s)
      | Some b \<Rightarrow> (case f b of (r, b') \<Rightarrow> (r, s\<lparr>base := Some b'\<rparr>)))"

section \<open>Life cycle\<close>

definition CBB_zero :: cbb where
  "CBB_zero = \<lparr>base = None, chain = []\<rparr>"

definition cbb_init :: "(nat \<Rightarrow> bool) \<Rightarrow> bool \<Rightarrow> byte list \<Rightarrow> (cbb, unit) oper" where
  "cbb_init mem malloc_base bs s =
     (if \<not> malloc_base then (None, s)
      else (Some (), s\<lparr>base := Some \<lparr>buf = bs, len = 0, can_resize = True, error = False,
                                    realloc_ok = mem\<rparr>\<rparr>))"

text \<open>\<open>mem\<close> answers the requests for buffer memory, \<open>malloc_base\<close> the one for the buffer header.\<close>

definition CBB_init :: "(nat \<Rightarrow> bool) \<Rightarrow> bool \<Rightarrow> nat \<Rightarrow> bool \<times> cbb" where
  "CBB_init mem malloc_base initial_capacity =
     (if initial_capacity > 0 \<and> \<not> mem initial_capacity then (False, CBB_zero)
      else case cbb_init mem malloc_base (replicate initial_capacity 0) CBB_zero of
          (None, s) \<Rightarrow> (False, s)
        | (Some _, s) \<Rightarrow> (True, s))"

definition CBB_init_fixed :: "bool \<Rightarrow> byte list \<Rightarrow> bool \<times> cbb" where
  "CBB_init_fixed malloc_base bs =
     (case cbb_init (\<lambda>_. False) malloc_base bs CBB_zero of
        (None, s) \<Rightarrow> (False, s)
      | (Some _, s) \<Rightarrow> (True, s\<lparr>base := map_option (\<lambda>b. b\<lparr>can_resize := False\<rparr>) (base s)\<rparr>))"

definition CBB_cleanup :: "cbb \<Rightarrow> cbb" where
  "CBB_cleanup s = s\<lparr>base := None\<rparr>"

text \<open>\<open>want_out\<close>: both \<open>out_data\<close> and \<open>out_len\<close> are non-\<open>NULL\<close>.\<close>

definition CBB_finish :: "nat \<Rightarrow> bool \<Rightarrow> (cbb, byte list) oper" where
  "CBB_finish d want_out =
     (if d \<noteq> 0 then fail
      else and_then (CBB_flush 0) (\<lambda>_ s.
        case base s of None \<Rightarrow> (None, s)
        | Some b \<Rightarrow>
          if can_resize b \<and> \<not> want_out then (None, s)
          else (Some (contents b), CBB_cleanup s)))"

definition cbb_start :: "cbb \<Rightarrow> nat \<Rightarrow> nat" where
  "cbb_start s d = (if d = 0 then 0
     else let c = chain s ! (d - 1) in offset c + pending_len_len c)"

definition CBB_data :: "nat \<Rightarrow> cbb \<Rightarrow> byte list" where
  "CBB_data d s = (case base s of None \<Rightarrow> [] | Some b \<Rightarrow> drop (cbb_start s d) (contents b))"

definition CBB_len :: "nat \<Rightarrow> cbb \<Rightarrow> nat" where
  "CBB_len d s = (case base s of None \<Rightarrow> 0 | Some b \<Rightarrow> len b - cbb_start s d)"

section \<open>Children\<close>

definition link_child :: "nat \<Rightarrow> cbb_child \<Rightarrow> cbb \<Rightarrow> cbb" where
  "link_child d c s = s\<lparr>chain := take d (chain s) @ [c]\<rparr>"

definition cbb_add_length_prefixed :: "nat \<Rightarrow> nat \<Rightarrow> (cbb, unit) oper" where
  "cbb_add_length_prefixed d len_len =
     and_then (CBB_flush d) (\<lambda>_.
       and_then (on_base (and_then (cbb_buffer_add len_len) (\<lambda>off b.
           (Some off, b\<lparr>buf := take off (buf b) @ replicate len_len 0 @ drop (off + len_len) (buf b)\<rparr>))))
         (\<lambda>off s. (Some (), link_child d
            \<lparr>offset = off, pending_len_len = len_len, pending_is_asn1 = False\<rparr> s)))"

definition CBB_add_u8_length_prefixed :: "nat \<Rightarrow> (cbb, unit) oper" where
  "CBB_add_u8_length_prefixed d = cbb_add_length_prefixed d 1"

definition CBB_add_u16_length_prefixed :: "nat \<Rightarrow> (cbb, unit) oper" where
  "CBB_add_u16_length_prefixed d = cbb_add_length_prefixed d 2"

definition CBB_add_u24_length_prefixed :: "nat \<Rightarrow> (cbb, unit) oper" where
  "CBB_add_u24_length_prefixed d = cbb_add_length_prefixed d 3"

definition CBB_discard_child :: "nat \<Rightarrow> cbb \<Rightarrow> cbb" where
  "CBB_discard_child d s =
     (case drop d (chain s) of [] \<Rightarrow> s
      | c # _ \<Rightarrow> s\<lparr>base := map_option (\<lambda>b. b\<lparr>len := offset c\<rparr>) (base s), chain := take d (chain s)\<rparr>)"

section \<open>Writers\<close>

definition CBB_add_bytes :: "nat \<Rightarrow> byte list \<Rightarrow> (cbb, unit) oper" where
  "CBB_add_bytes d data =
     and_then (CBB_flush d) (\<lambda>_.
       on_base (and_then (cbb_buffer_add (length data)) (\<lambda>dest b.
         (Some (), b\<lparr>buf := take dest (buf b) @ data @ drop (dest + length data) (buf b)\<rparr>))))"

text \<open>The result of the next two is the position in the buffer that \<open>*out_data\<close> points to.\<close>

definition CBB_add_space :: "nat \<Rightarrow> nat \<Rightarrow> (cbb, nat) oper" where
  "CBB_add_space d n = and_then (CBB_flush d) (\<lambda>_. on_base (cbb_buffer_add n))"

definition CBB_reserve :: "nat \<Rightarrow> nat \<Rightarrow> (cbb, nat) oper" where
  "CBB_reserve d n = and_then (CBB_flush d) (\<lambda>_. on_base (cbb_buffer_reserve n))"

definition CBB_did_write :: "nat \<Rightarrow> nat \<Rightarrow> (cbb, unit) oper" where
  "CBB_did_write d n s =
     on_base (\<lambda>b. let newlen = size_add (len b) n in
       if drop d (chain s) \<noteq> [] \<or> newlen < len b \<or> newlen > cap b then (None, b)
       else (Some (), b\<lparr>len := newlen\<rparr>)) s"

definition CBB_add_u8 :: "nat \<Rightarrow> byte \<Rightarrow> (cbb, unit) oper" where
  "CBB_add_u8 d v = and_then (CBB_flush d) (\<lambda>_. on_base (cbb_buffer_add_u (unat v) 1))"

definition CBB_add_u16 :: "nat \<Rightarrow> u16 \<Rightarrow> (cbb, unit) oper" where
  "CBB_add_u16 d v = and_then (CBB_flush d) (\<lambda>_. on_base (cbb_buffer_add_u (unat v) 2))"

definition CBB_add_u16le :: "nat \<Rightarrow> u16 \<Rightarrow> (cbb, unit) oper" where
  "CBB_add_u16le d v = CBB_add_u16 d (CRYPTO_bswap2 v)"

definition CBB_add_u24 :: "nat \<Rightarrow> u32 \<Rightarrow> (cbb, unit) oper" where
  "CBB_add_u24 d v = and_then (CBB_flush d) (\<lambda>_. on_base (cbb_buffer_add_u (unat v) 3))"

definition CBB_add_u32 :: "nat \<Rightarrow> u32 \<Rightarrow> (cbb, unit) oper" where
  "CBB_add_u32 d v = and_then (CBB_flush d) (\<lambda>_. on_base (cbb_buffer_add_u (unat v) 4))"

definition CBB_add_u32le :: "nat \<Rightarrow> u32 \<Rightarrow> (cbb, unit) oper" where
  "CBB_add_u32le d v = CBB_add_u32 d (CRYPTO_bswap4 v)"

definition CBB_add_u64 :: "nat \<Rightarrow> u64 \<Rightarrow> (cbb, unit) oper" where
  "CBB_add_u64 d v = and_then (CBB_flush d) (\<lambda>_. on_base (cbb_buffer_add_u (unat v) 8))"

definition CBB_add_u64le :: "nat \<Rightarrow> u64 \<Rightarrow> (cbb, unit) oper" where
  "CBB_add_u64le d v = CBB_add_u64 d (CRYPTO_bswap8 v)"

section \<open>ASN.1\<close>

fun base128_len :: "nat \<Rightarrow> nat" where
  "base128_len copy = (if copy > 0 then Suc (base128_len (copy div 128)) else 0)"

declare base128_len.simps [simp del]

fun add_base128_digits :: "nat \<Rightarrow> u64 \<Rightarrow> nat \<Rightarrow> (cbb, unit) oper" where
  "add_base128_digits d v 0 = ok ()"
| "add_base128_digits d v (Suc i) =
     (let octet = ucast (drop_bit (7 * i) v) AND 0x7f in
      and_then (CBB_add_u8 d (if i \<noteq> 0 then octet OR 0x80 else octet)) (\<lambda>_.
        add_base128_digits d v i))"

definition add_base128_integer :: "nat \<Rightarrow> u64 \<Rightarrow> (cbb, unit) oper" where
  "add_base128_integer d v =
     (let len_len = base128_len (unat v)
      in add_base128_digits d v (if len_len = 0 then 1 else len_len))"

definition CBB_add_asn1 :: "nat \<Rightarrow> u32 \<Rightarrow> (cbb, unit) oper" where
  "CBB_add_asn1 d tag =
     and_then (CBB_flush d) (\<lambda>_.
       let tag_bits = ucast (drop_bit 24 tag) AND 0xe0 :: byte;
           tag_number = tag AND CBS_ASN1_TAG_NUMBER_MASK
       in and_then
            (if 0x1f \<le> tag_number
             then and_then (CBB_add_u8 d (tag_bits OR 0x1f)) (\<lambda>_.
                    add_base128_integer d (ucast tag_number))
             else CBB_add_u8 d (tag_bits OR ucast tag_number)) (\<lambda>_ s.
          let off = (case base s of None \<Rightarrow> 0 | Some b \<Rightarrow> len b) in
          and_then (CBB_add_u8 d 0) (\<lambda>_ s.
            (Some (), link_child d
               \<lparr>offset = off, pending_len_len = 1, pending_is_asn1 = True\<rparr> s)) s))"

section \<open>Buffer lemmas\<close>

definition buf_ok :: "cbb_buffer \<Rightarrow> bool" where
  "buf_ok b \<longleftrightarrow> len b \<le> length (buf b) \<and> length (buf b) < 2 ^ 64"

text \<open>A resizable buffer whose allocator never refuses.\<close>

definition grows :: "cbb_buffer \<Rightarrow> bool" where
  "grows b \<longleftrightarrow> can_resize b \<and> (\<forall>n. realloc_ok b n)"

definition same_flags :: "cbb_buffer \<Rightarrow> cbb_buffer \<Rightarrow> bool" where
  "same_flags b b' \<longleftrightarrow>
     error b' = error b \<and> can_resize b' = can_resize b \<and> realloc_ok b' = realloc_ok b"

lemma same_flags_refl [simp]: "same_flags b b"
  by (simp add: same_flags_def)

lemma same_flags_trans [trans]: "same_flags a b \<Longrightarrow> same_flags b c \<Longrightarrow> same_flags a c"
  by (simp add: same_flags_def)

lemma length_contents: "buf_ok b \<Longrightarrow> length (contents b) = len b"
  by (simp add: contents_def buf_ok_def)

lemma reserve_Some:
  assumes "cbb_buffer_reserve n b = (Some out, b')" and "buf_ok b" and "n < 2 ^ 64"
  shows "out = len b \<and> len b' = len b \<and> contents b' = contents b \<and> same_flags b b' \<and>
    len b + n \<le> length (buf b') \<and> buf_ok b' \<and>
    (\<exists>k. buf b' = buf b @ replicate k 0)"
proof -
  let ?new = "size_add (len b) n"
  from assms(2) have l: "len b < 2 ^ 64" by (simp add: buf_ok_def)
  from assms(1) have no: "\<not> ?new < len b"
    by (auto simp: cbb_buffer_reserve_def Let_def)
  with size_add_overflow_iff [OF l assms(3)] have new: "?new = len b + n" and lt: "len b + n < 2 ^ 64"
    by (auto simp: size_add_small)
  show ?thesis
  proof (cases "len b + n > cap b")
    case False
    with assms(1,2) no new show ?thesis
      by (auto simp: cbb_buffer_reserve_def Let_def cap_def intro: exI [of _ 0])
  next
    case True
    let ?cap = "if size_mul (cap b) 2 < cap b \<or> size_mul (cap b) 2 < len b + n
      then len b + n else size_mul (cap b) 2"
    have capacity: "len b + n \<le> ?cap" "?cap < 2 ^ 64"
      using lt by (auto simp: size_mul_def)
    from assms(1) no new True have "out = len b"
      and b': "b' = b\<lparr>buf := buf b @ replicate (?cap - cap b) 0\<rparr>"
      by (auto simp: cbb_buffer_reserve_def Let_def split: if_splits)
    moreover have "length (buf b') = ?cap"
      using b' True capacity(1) by (simp add: cap_def)
    ultimately show ?thesis
      using capacity assms(2) by (auto simp: contents_def same_flags_def buf_ok_def)
  qed
qed

lemma reserve_grows:
  assumes "buf_ok b" and "grows b" and "len b + n < 2 ^ 64"
  shows "\<exists>b'. cbb_buffer_reserve n b = (Some (len b), b')"
  using assms by (simp add: cbb_buffer_reserve_def Let_def size_add_small grows_def)

lemma reserve_None:
  "cbb_buffer_reserve n b = (None, b') \<Longrightarrow> b' = b\<lparr>error := True\<rparr>"
  by (auto simp: cbb_buffer_reserve_def Let_def split: if_splits)

lemma buffer_add_Some:
  assumes "cbb_buffer_add n b = (Some out, b')" and "buf_ok b" and "n < 2 ^ 64"
  shows "out = len b \<and> len b' = len b + n \<and> same_flags b b' \<and> buf_ok b' \<and>
    take (len b) (buf b') = contents b"
proof -
  from assms(1) obtain b1 where r: "cbb_buffer_reserve n b = (Some out, b1)"
    and b': "b' = b1\<lparr>len := len b1 + n\<rparr>"
    by (auto simp: cbb_buffer_add_def elim!: and_then_eq_SomeE)
  from reserve_Some [OF r assms(2,3)] b' show ?thesis
    by (auto simp: buf_ok_def contents_def same_flags_def)
qed

lemma buffer_add_grows:
  assumes "buf_ok b" and "grows b" and "len b + n < 2 ^ 64"
  shows "\<exists>b'. cbb_buffer_add n b = (Some (len b), b')"
  using reserve_grows [OF assms] by (auto simp: cbb_buffer_add_def and_then_def)

lemma put_be_eq:
  "off + k \<le> length bs \<Longrightarrow>
   put_be bs off k v = (take off bs @ be_bytes k v @ drop (off + k) bs, v div 256 ^ k)"
proof (induction k arbitrary: bs v)
  case (Suc k)
  let ?bs = "bs[off + k := of_nat v]"
  have "put_be bs off (Suc k) v = (take off ?bs @ be_bytes k (v div 256) @ drop (off + k) ?bs,
      v div 256 div 256 ^ k)"
    using Suc by simp
  moreover have "drop (off + k) ?bs = of_nat v # drop (off + Suc k) bs"
    using Suc.prems by (simp add: drop_update_swap Cons_nth_drop_Suc [symmetric])
  ultimately show ?case by (simp add: div_mult2_eq)
qed simp

lemma take_append_drop_contents:
  assumes "length xs = n" and "m + n \<le> length bs"
  shows "take (m + n) (take m bs @ xs @ drop (m + n) bs) = take m bs @ xs"
  using assms by simp

text \<open>Appending \<open>data\<close> to the valid bytes, in the three ways the code does it.\<close>

definition appended :: "cbb_buffer \<Rightarrow> byte list \<Rightarrow> cbb_buffer \<Rightarrow> bool" where
  "appended b data b' \<longleftrightarrow> buf_ok b' \<and> same_flags b b' \<and> contents b' = contents b @ data"

lemma overwrite_appended:
  assumes add: "cbb_buffer_add (length data) b = (Some out, b1)" and ok: "buf_ok b"
    and small: "length data < 2 ^ 64"
  shows "appended b data
    (b1\<lparr>buf := take out (buf b1) @ data @ drop (out + length data) (buf b1)\<rparr>)"
proof -
  from buffer_add_Some [OF add ok small] have "out = len b" "len b1 = len b + length data"
    "same_flags b b1" "buf_ok b1" "take (len b) (buf b1) = contents b" by simp_all
  moreover from ok have "len b \<le> length (buf b)" by (simp add: buf_ok_def)
  ultimately show ?thesis
    by (simp add: appended_def buf_ok_def contents_def same_flags_def min_absorb2)
qed

lemma add_u_appended:
  assumes "cbb_buffer_add_u v k b = (Some (), b')" and "buf_ok b" and "k < 2 ^ 64" and "0 < k"
  shows "appended b (be_bytes k v) b' \<and> v < 256 ^ k"
proof -
  from assms(1,4) obtain out b1 where add: "cbb_buffer_add k b = (Some out, b1)"
    and put: "snd (put_be (buf b1) out k v) = 0" "b' = b1\<lparr>buf := fst (put_be (buf b1) out k v)\<rparr>"
    by (auto simp: cbb_buffer_add_u_def Let_def split: prod.splits if_splits elim!: and_then_eq_SomeE)
  from buffer_add_Some [OF add assms(2,3)] have b1: "out = len b" "len b1 = len b + k"
    "same_flags b b1" "buf_ok b1" "take (len b) (buf b1) = contents b" by simp_all
  then have "out + k \<le> length (buf b1)" by (simp add: buf_ok_def)
  note eq = put_be_eq [OF this, of v]
  from put(1) have "v div 256 ^ k = 0" by (simp add: eq)
  then have "v < 256 ^ k" by (simp add: div_eq_0_iff)
  moreover have "appended b (be_bytes k v) b'"
    using overwrite_appended [of "be_bytes k v" b out b1] add assms(2,3) put(2) by (simp add: eq)
  ultimately show ?thesis by simp
qed

lemma add_u_grows:
  assumes "buf_ok b" and "grows b" and "len b + k < 2 ^ 64" and "v < 256 ^ k" and "0 < k"
  shows "\<exists>b'. cbb_buffer_add_u v k b = (Some (), b')"
proof -
  from buffer_add_grows [OF assms(1-3)] obtain b1 where add: "cbb_buffer_add k b = (Some (len b), b1)" ..
  from buffer_add_Some [OF add assms(1)] assms(3) have "len b1 = len b + k" "buf_ok b1" by simp_all
  then have "len b + k \<le> length (buf b1)" by (simp add: buf_ok_def)
  from put_be_eq [OF this, of v] add assms(4,5) show ?thesis
    by (simp add: cbb_buffer_add_u_def and_then_def Let_def)
qed

section \<open>Flushing one child\<close>

text \<open>The finished length prefix of a child with \<open>n\<close> content octets.\<close>

definition prefix_of :: "cbb_child \<Rightarrow> nat \<Rightarrow> byte list" where
  "prefix_of c n = (if pending_is_asn1 c then der_length n else be_bytes (pending_len_len c) n)"

definition prefix_fits :: "cbb_child \<Rightarrow> nat \<Rightarrow> bool" where
  "prefix_fits c n \<longleftrightarrow>
     (if pending_is_asn1 c then n \<le> 0xfffffffe else n < 256 ^ pending_len_len c)"

definition child_ok :: "cbb_child \<Rightarrow> bool" where
  "child_ok c \<longleftrightarrow> pending_len_len c \<in> {1, 2, 3} \<and> (pending_is_asn1 c \<longrightarrow> pending_len_len c = 1)"

definition child_start :: "cbb_child \<Rightarrow> nat" where
  "child_start c = offset c + pending_len_len c"

lemma asn1_length_form_eq:
  assumes "asn1_length_form n = (len_len, ini, n')" and "n \<le> 0xfffffffe"
  shows "ini # be_bytes (len_len - 1) n' = der_length n" and "1 \<le> len_len" and "len_len \<le> 5"
    and "n' < 256 ^ (len_len - 1)"
  using assms
  by (auto simp: asn1_length_form_def der_length_def octets_needed_def split: if_splits)

lemma write_prefix_eq:
  assumes "off + k \<le> length (buf b)"
  shows "write_prefix b off k n =
    (let b' = b\<lparr>buf := take off (buf b) @ be_bytes k n @ drop (off + k) (buf b)\<rparr> in
     if n < 256 ^ k then (True, b') else (False, b'\<lparr>error := True\<rparr>))"
  by (simp add: write_prefix_def put_be_eq [OF assms] Let_def div_eq_0_iff)

lemma length_memmove_up:
  "from + extra + n \<le> length bs \<Longrightarrow> length (memmove_up bs from extra n) = length bs"
  unfolding memmove_up_def by (simp add: min_def, arith)

lemma take_drop_le: "m + n \<le> k \<Longrightarrow> take n (drop m (take k bs)) = take n (drop m bs)"
  by (simp add: take_drop min_def add.commute)

text \<open>The long form: open a gap of \<open>extra\<close> bytes behind the first length octet and fill it.\<close>

lemma gap_filled:
  assumes len: "length bs = o1 + 1 + n + extra + slack" and ini: "ini # be_bytes extra n' = p"
  shows "take (o1 + 1 + n + extra)
      (take (o1 + 1) ((memmove_up bs (o1 + 1) extra n)[o1 := ini]) @ be_bytes extra n' @
       drop (o1 + 1 + extra) ((memmove_up bs (o1 + 1) extra n)[o1 := ini])) =
    take o1 bs @ p @ take n (drop (o1 + 1) bs)"
proof -
  let ?m = "(memmove_up bs (o1 + 1) extra n)[o1 := ini]"
  have lm: "length ?m = length bs" using len by (simp add: length_memmove_up)
  have front: "take (o1 + 1) ?m = take o1 bs @ [ini]"
  proof -
    have "take (o1 + 1) ?m = (take (o1 + 1) (memmove_up bs (o1 + 1) extra n))[o1 := ini]"
      by (rule take_update_swap)
    also have "take (o1 + 1) (memmove_up bs (o1 + 1) extra n) = take (o1 + 1) bs"
      using len by (simp add: memmove_up_def min_def)
    also have "(take (o1 + 1) bs)[o1 := ini] = take o1 bs @ [ini]"
      using len by (simp add: take_Suc_conv_app_nth list_update_append)
    finally show ?thesis .
  qed
  have tail: "take n (drop (o1 + 1 + extra) ?m) = take n (drop (o1 + 1) bs)"
    using len by (simp add: memmove_up_def drop_update_cancel)
  have "take (o1 + 1 + n + extra) (take (o1 + 1) ?m @ be_bytes extra n' @ drop (o1 + 1 + extra) ?m) =
      take (o1 + 1) ?m @ be_bytes extra n' @ take n (drop (o1 + 1 + extra) ?m)"
    using lm len by (simp add: min_def)
  with front tail ini show ?thesis by (simp add: append_assoc [symmetric] del: append_assoc) (simp flip: ini)
qed

lemma flush_child_prefix:
  assumes ok: "buf_ok b" and c: "child_ok c" "\<not> pending_is_asn1 c" "child_start c \<le> len b"
  shows "flush_child c b =
    (let n = len b - child_start c;
         b' = b\<lparr>buf := take (offset c) (buf b) @ be_bytes (pending_len_len c) n @
                        drop (child_start c) (buf b)\<rparr>
     in if n < 256 ^ pending_len_len c then (True, b') else (False, b'\<lparr>error := True\<rparr>))"
proof -
  have "offset c + pending_len_len c \<le> length (buf b)"
    using ok c(3) by (simp add: buf_ok_def child_start_def)
  from write_prefix_eq [OF this] c(2) show ?thesis
    by (simp add: flush_child_def child_start_def Let_def)
qed

lemma take_replaced:
  assumes "o1 + length ys \<le> l" and "l \<le> length xs"
  shows "take l (take o1 xs @ ys @ drop (o1 + length ys) xs) =
    take o1 (take l xs) @ ys @ drop (o1 + length ys) (take l xs)"
proof -
  obtain k where l: "l = o1 + length ys + k" using assms(1) le_Suc_ex by blast
  with assms(2) have "o1 \<le> length xs" by simp
  then show ?thesis by (simp add: l min_absorb1 min_absorb2 drop_take add.assoc)
qed

text \<open>What a successful flush of one child does to the bytes written so far.\<close>

definition closed :: "cbb_child \<Rightarrow> byte list \<Rightarrow> byte list" where
  "closed c w = take (offset c) w @ prefix_of c (length w - child_start c) @ drop (child_start c) w"

lemma flush_child_True:
  assumes fl: "flush_child c b = (True, b')" and ok: "buf_ok b"
    and c: "child_ok c" "child_start c \<le> len b"
  shows "buf_ok b' \<and> same_flags b b' \<and> contents b' = closed c (contents b) \<and>
    prefix_fits c (len b - child_start c)"
proof (cases "pending_is_asn1 c")
  case False
  from fl have n: "len b - child_start c < 256 ^ pending_len_len c"
    and b': "b' = b\<lparr>buf := take (offset c) (buf b) @ be_bytes (pending_len_len c) (len b - child_start c) @
                        drop (child_start c) (buf b)\<rparr>"
    using flush_child_prefix [OF ok c(1) False c(2)] by (simp_all add: Let_def split: if_splits)
  have lens: "offset c + pending_len_len c \<le> len b" "len b \<le> length (buf b)"
    using c(2) ok by (simp_all add: child_start_def buf_ok_def)
  then have "contents b' = closed c (contents b)"
    using False length_contents [OF ok]
    by (simp add: b' contents_def closed_def prefix_of_def child_start_def take_replaced min_absorb2 drop_take)
  moreover have "offset c \<le> length (buf b)" using lens by simp
  ultimately show ?thesis
    using ok lens n False
    by (simp add: b' buf_ok_def same_flags_def prefix_fits_def child_start_def min_absorb2)
next
  case asn1: True
  let ?o = "offset c" and ?n = "len b - child_start c"
  from asn1 c(1) have p1: "pending_len_len c = 1" by (simp add: child_ok_def)
  then have st: "child_start c = ?o + 1" by (simp add: child_start_def)
  from fl asn1 have small: "?n \<le> 0xfffffffe"
    by (auto simp: flush_child_def Let_def child_start_def split: if_splits)
  obtain w ini n' where form: "asn1_length_form ?n = (w, ini, n')" by (metis prod_cases3)
  note enc = asn1_length_form_eq [OF form small]
  have lens: "?o + 1 \<le> len b" "len b \<le> length (buf b)" "?o + 1 + ?n = len b"
    using c(2) ok st by (simp_all add: buf_ok_def)
  have fin: "closed c (contents b) = take ?o (buf b) @ der_length ?n @ take ?n (drop (?o + 1) (buf b))"
    using asn1 lens length_contents [OF ok]
    by (simp add: closed_def prefix_of_def st contents_def min_def drop_take)
  show ?thesis
  proof (cases "w = 1")
    case True
    then have d: "der_length ?n = [ini]" and n': "n' < 1" using enc by simp_all
    have "take (Suc ?o) ((buf b)[?o := ini]) @ drop (Suc ?o) (buf b) = (buf b)[?o := ini]"
      by (metis append_take_drop_id drop_update_cancel lessI)
    then have b': "b' = b\<lparr>buf := (buf b)[?o := ini]\<rparr>"
      using fl asn1 form True n' small lens
      by (simp add: flush_child_def Let_def st p1 child_start_def write_prefix_eq)
    have n1: "len b - ?o = Suc ?n" using lens by linarith
    have "take (len b) ((buf b)[?o := ini]) = take ?o (buf b) @ [ini] @ take ?n (drop (?o + 1) (buf b))"
      using lens by (simp add: upd_conv_take_nth_drop min_absorb1 n1)
    with fin d ok b' asn1 small show ?thesis
      by (simp add: contents_def buf_ok_def same_flags_def prefix_fits_def)
  next
    case False
    let ?x = "w - 1"
    from fl asn1 form False small obtain out b1 where add: "cbb_buffer_add ?x b = (Some out, b1)"
      and wr: "write_prefix (b1\<lparr>buf := (memmove_up (buf b1) (?o + 1) ?x ?n)[?o := ini]\<rparr>) (?o + 1) ?x n'
         = (True, b')"
      by (auto simp: flush_child_def Let_def st p1 child_start_def split: option.splits prod.splits)
    have "?x < 2 ^ 64" using enc(3) by simp
    from buffer_add_Some [OF add ok this] have b1: "len b1 = len b + ?x" "same_flags b b1"
      "buf_ok b1" "take (len b) (buf b1) = contents b" by simp_all
    define slack where "slack = length (buf b1) - len b1"
    have lb1: "length (buf b1) = ?o + 1 + ?n + ?x + slack"
      using b1(1,3) lens by (simp add: slack_def buf_ok_def)
    have "length ((memmove_up (buf b1) (?o + 1) ?x ?n)[?o := ini]) = length (buf b1)"
      using lb1 by (simp add: length_memmove_up)
    then have b': "b' = b1\<lparr>buf :=
        take (?o + 1) ((memmove_up (buf b1) (?o + 1) ?x ?n)[?o := ini]) @ be_bytes ?x n' @
        drop (?o + 1 + ?x) ((memmove_up (buf b1) (?o + 1) ?x ?n)[?o := ini])\<rparr>"
      using wr lb1 enc(4) by (subst (asm) write_prefix_eq) (simp_all add: Let_def)
    have "len b1 = ?o + 1 + ?n + ?x" using b1(1) lens by simp
    then have "contents b' = take ?o (buf b1) @ der_length ?n @ take ?n (drop (?o + 1) (buf b1))"
      using gap_filled [OF lb1 enc(1)] by (simp add: b' contents_def)
    moreover have "take ?o (buf b1) = take ?o (buf b)"
      using b1(4) lens by (metis contents_def min.absorb1 add_leE take_take)
    moreover have "take ?n (drop (?o + 1) (buf b1)) = take ?n (drop (?o + 1) (buf b))"
      using b1(4) lens by (metis contents_def take_drop_le order_refl)
    moreover have "buf_ok b'" and "same_flags b b'"
      using b1 lb1 by (simp_all add: b' buf_ok_def same_flags_def length_memmove_up)
    ultimately show ?thesis using fin asn1 small by (simp add: prefix_fits_def)
  qed
qed

lemma flush_child_grows:
  assumes ok: "buf_ok b" and g: "grows b"
    and c: "child_ok c" "child_start c \<le> len b" and fits: "prefix_fits c (len b - child_start c)"
    and room: "len b + 4 < 2 ^ 64"
  shows "\<exists>b'. flush_child c b = (True, b')"
proof (cases "pending_is_asn1 c")
  case False
  then show ?thesis
    using flush_child_prefix [OF ok c(1) False c(2)] fits by (simp add: prefix_fits_def Let_def)
next
  case asn1: True
  let ?o = "offset c" and ?n = "len b - child_start c"
  from asn1 c(1) have p1: "pending_len_len c = 1" by (simp add: child_ok_def)
  then have st: "child_start c = ?o + 1" by (simp add: child_start_def)
  from fits asn1 have small: "?n \<le> 0xfffffffe" by (simp add: prefix_fits_def)
  obtain w ini n' where form: "asn1_length_form ?n = (w, ini, n')" by (metis prod_cases3)
  note enc = asn1_length_form_eq [OF form small]
  have lens: "?o + 1 \<le> len b" "len b \<le> length (buf b)" "?o + 1 + ?n = len b"
    using c(2) ok st by (simp_all add: buf_ok_def)
  show ?thesis
  proof (cases "w = 1")
    case True
    then show ?thesis
      using asn1 form enc small lens
      by (simp add: flush_child_def Let_def st p1 child_start_def write_prefix_eq)
  next
    case False
    let ?x = "w - 1"
    have x: "len b + ?x < 2 ^ 64" "?x < 2 ^ 64" using enc(3) room by simp_all
    from buffer_add_grows [OF ok g x(1)] obtain b1 where add: "cbb_buffer_add ?x b = (Some (len b), b1)" ..
    from buffer_add_Some [OF add ok x(2)] have "len b1 = len b + ?x" "buf_ok b1" by simp_all
    then have "?o + 1 + ?n + ?x \<le> length (buf b1)" using lens by (simp add: buf_ok_def)
    then have "?o + 1 + ?x \<le> length ((memmove_up (buf b1) (?o + 1) ?x ?n)[?o := ini])"
      by (simp add: length_memmove_up)
    then have "write_prefix (b1\<lparr>buf := (memmove_up (buf b1) (?o + 1) ?x ?n)[?o := ini]\<rparr>) (?o + 1) ?x n'
       = (True, b1\<lparr>buf := take (?o + 1) ((memmove_up (buf b1) (?o + 1) ?x ?n)[?o := ini]) @
            be_bytes ?x n' @ drop (?o + 1 + ?x) ((memmove_up (buf b1) (?o + 1) ?x ?n)[?o := ini])\<rparr>)"
      using enc(4) by (simp add: write_prefix_eq Let_def)
    then show ?thesis
      using asn1 form False small add
      by (simp add: flush_child_def Let_def st p1 child_start_def)
  qed
qed

section \<open>Flushing a chain\<close>

text \<open>The open children lie behind one another, each prefix inside the valid bytes.\<close>

fun chain_ok :: "nat \<Rightarrow> cbb_child list \<Rightarrow> nat \<Rightarrow> bool" where
  "chain_ok lo [] n = (lo \<le> n)"
| "chain_ok lo (c # cs) n = (lo \<le> offset c \<and> child_ok c \<and> chain_ok (child_start c) cs n)"

text \<open>
  The abstract meaning of a builder: the bytes that are written when every open child is
  closed, innermost first.
\<close>

fun render :: "cbb_child list \<Rightarrow> byte list \<Rightarrow> byte list" where
  "render [] w = w"
| "render (c # cs) w = closed c (render cs w)"

lemma chain_ok_le: "chain_ok lo cs n \<Longrightarrow> lo \<le> n"
  by (induction lo cs n rule: chain_ok.induct) (auto simp: child_start_def)

lemma chain_ok_mono: "chain_ok lo cs n \<Longrightarrow> n \<le> m \<Longrightarrow> chain_ok lo cs m"
  by (induction lo cs n rule: chain_ok.induct) auto

lemma chain_ok_append:
  "chain_ok lo (cs @ ds) n \<longleftrightarrow>
    chain_ok lo cs n \<and> chain_ok (if cs = [] then lo else child_start (last cs)) ds n"
  by (induction cs arbitrary: lo) (auto dest: chain_ok_le)

lemma chain_ok_shrink:
  "chain_ok lo cs n \<Longrightarrow> cs \<noteq> [] \<Longrightarrow> child_start (last cs) \<le> m \<Longrightarrow> chain_ok lo cs m"
  by (induction cs arbitrary: lo) (auto split: if_splits)

lemma length_closed:
  "child_start c \<le> length w \<Longrightarrow>
   length (closed c w) = offset c + length (prefix_of c (length w - child_start c)) + (length w - child_start c)"
  by (simp add: closed_def child_start_def)

lemma length_prefix_of:
  "child_ok c \<Longrightarrow> pending_len_len c \<le> length (prefix_of c n)"
  by (auto simp: prefix_of_def child_ok_def der_length_def octets_needed_def)

lemma length_closed_ge: "child_ok c \<Longrightarrow> child_start c \<le> length w \<Longrightarrow> length w \<le> length (closed c w)"
  using length_prefix_of [of c "length w - child_start c"]
  by (simp add: length_closed child_start_def)

lemma flush_chain_True:
  "flush_chain b cs = (True, b', cs') \<Longrightarrow> buf_ok b \<Longrightarrow> chain_ok lo cs (len b) \<Longrightarrow>
   \<not> error b \<and> cs' = [] \<and> buf_ok b' \<and> same_flags b b' \<and> contents b' = render cs (contents b) \<and>
   len b \<le> len b'"
proof (induction cs arbitrary: b' cs' lo)
  case (Cons c cs)
  from Cons.prems(3) have c: "child_ok c" and cs: "chain_ok (child_start c) cs (len b)" by simp_all
  from Cons.prems(1) c obtain b1 cs1 where rec: "flush_chain b cs = (True, b1, cs1)"
    and fc: "flush_child c b1 = (True, b')" and e: "\<not> error b" "cs' = []"
    by (auto simp: child_ok_def Let_def split: if_splits prod.splits bool.splits)
  from Cons.IH [OF rec Cons.prems(2) cs] have b1: "buf_ok b1" "same_flags b b1"
    "contents b1 = render cs (contents b)" "len b \<le> len b1" by simp_all
  have st: "child_start c \<le> len b1" using chain_ok_le [OF cs] b1(4) by simp
  from flush_child_True [OF fc b1(1) c st] have b': "buf_ok b'" "same_flags b1 b'"
    "contents b' = closed c (contents b1)" by simp_all
  have "len b1 \<le> len b'"
    using length_closed_ge [OF c, of "contents b1"] st b' b1(1)
    by (simp add: length_contents [symmetric])
  then show ?case
    using b1 b' e by (auto intro: same_flags_trans)
qed simp

section \<open>Writers on a builder without an open child below it\<close>

text \<open>
  \<open>ready d s b\<close>: \<open>b\<close> is the buffer of \<open>s\<close>, the \<open>CBB\<close> at depth \<open>d\<close> is the innermost open one,
  no error has occurred and memory does not run out.  \<open>writes d m xs\<close>: on such a builder,
  within the 64-bit size limit, \<open>m\<close> succeeds and appends \<open>xs\<close>.
\<close>

definition ready :: "nat \<Rightarrow> cbb \<Rightarrow> cbb_buffer \<Rightarrow> bool" where
  "ready d s b \<longleftrightarrow> base s = Some b \<and> buf_ok b \<and> \<not> error b \<and> grows b \<and>
     length (chain s) = d \<and> chain_ok 0 (chain s) (len b)"

definition writes :: "nat \<Rightarrow> (cbb, unit) oper \<Rightarrow> byte list \<Rightarrow> bool" where
  "writes d m xs \<longleftrightarrow>
     (\<forall>s b. ready d s b \<and> len b + length xs + 4 < 2 ^ 64 \<longrightarrow>
       (\<exists>s' b'. m s = (Some (), s') \<and> ready d s' b' \<and> chain s' = chain s \<and>
                contents b' = contents b @ xs))"

lemma writesD:
  assumes "writes d m xs" and "ready d s b" and "len b + length xs + 4 < 2 ^ 64"
  obtains s' b' where "m s = (Some (), s')" and "ready d s' b'" and "chain s' = chain s"
    and "contents b' = contents b @ xs" and "len b' = len b + length xs"
proof -
  from assms obtain s' b' where s': "m s = (Some (), s')" "ready d s' b'" "chain s' = chain s"
    "contents b' = contents b @ xs" unfolding writes_def by blast
  moreover from s'(2,4) assms(2) have "len b' = len b + length xs"
    by (metis length_append length_contents ready_def)
  ultimately show ?thesis by (rule that)
qed

lemma writes_ok [intro]: "writes d (ok ()) []"
  by (auto simp: writes_def ok_def)

lemma writes_seq [intro]:
  assumes "writes d m xs" and "writes d m' ys"
  shows "writes d (and_then m (\<lambda>_. m')) (xs @ ys)"
  unfolding writes_def
proof (intro allI impI)
  fix s b
  assume a: "ready d s b \<and> len b + length (xs @ ys) + 4 < 2 ^ 64"
  then obtain s1 b1 where 1: "m s = (Some (), s1)" "ready d s1 b1" "chain s1 = chain s"
    "contents b1 = contents b @ xs" "len b1 = len b + length xs"
    using writesD [OF assms(1), of s b] by auto
  then have "len b1 + length ys + 4 < 2 ^ 64" using a by simp
  from writesD [OF assms(2) 1(2) this] obtain s2 b2 where
    "m' s1 = (Some (), s2)" "ready d s2 b2" "chain s2 = chain s1" "contents b2 = contents b1 @ ys" .
  with 1 show "\<exists>s' b'. and_then m (\<lambda>_. m') s = (Some (), s') \<and> ready d s' b' \<and>
      chain s' = chain s \<and> contents b' = contents b @ xs @ ys"
    by (auto simp: and_then_def)
qed

lemma flush_ready: "ready d s b \<Longrightarrow> CBB_flush d s = (Some (), s)"
  by (simp add: ready_def CBB_flush_def)

lemma on_base_writes:
  assumes "\<And>b. buf_ok b \<Longrightarrow> grows b \<Longrightarrow> len b + length xs < 2 ^ 64 \<Longrightarrow>
      \<exists>b'. f b = (Some (), b') \<and> appended b xs b'"
  shows "writes d (and_then (CBB_flush d) (\<lambda>_. on_base f)) xs"
  unfolding writes_def
proof (intro allI impI)
  fix s b
  assume a: "ready d s b \<and> len b + length xs + 4 < 2 ^ 64"
  then have b: "buf_ok b" "grows b" "base s = Some b" by (simp_all add: ready_def)
  with a assms obtain b' where f: "f b = (Some (), b')" and ap: "appended b xs b'" by fastforce
  let ?s = "s\<lparr>base := Some b'\<rparr>"
  have "len b \<le> len b'"
    using ap b(1) by (metis appended_def length_append length_contents le_add1)
  then have "ready d ?s b'"
    using a ap by (auto simp: ready_def appended_def same_flags_def grows_def intro: chain_ok_mono)
  moreover have "and_then (CBB_flush d) (\<lambda>_. on_base f) s = (Some (), ?s)"
    using a f b(3) flush_ready [of d s b] by (simp add: and_then_def on_base_def)
  ultimately show "\<exists>s' b'. and_then (CBB_flush d) (\<lambda>_. on_base f) s = (Some (), s') \<and> ready d s' b' \<and>
      chain s' = chain s \<and> contents b' = contents b @ xs"
    using ap by (intro exI [of _ ?s] exI [of _ b']) (simp add: appended_def)
qed

lemma writes_add_u:
  assumes "v < 256 ^ k" and "0 < k" and "k \<le> 8"
  shows "writes d (and_then (CBB_flush d) (\<lambda>_. on_base (cbb_buffer_add_u v k))) (be_bytes k v)"
proof (rule on_base_writes)
  fix b
  assume b: "buf_ok b" "grows b" "len b + length (be_bytes k v) < 2 ^ 64"
  with assms obtain b' where "cbb_buffer_add_u v k b = (Some (), b')"
    using add_u_grows [of b k v] by auto
  with add_u_appended [OF this b(1)] assms
  show "\<exists>b'. cbb_buffer_add_u v k b = (Some (), b') \<and> appended b (be_bytes k v) b'" by auto
qed

lemma writes_u8 [intro]: "writes d (CBB_add_u8 d v) [v]"
proof -
  have "writes d (CBB_add_u8 d v) (be_bytes 1 (unat v))"
    unfolding CBB_add_u8_def using unat_byte_less [of v] by (intro writes_add_u) simp_all
  then show ?thesis by simp
qed

lemma writes_u16: "writes d (CBB_add_u16 d v) (be_bytes 2 (unat v))"
  unfolding CBB_add_u16_def using unsigned_less [of v] by (intro writes_add_u) simp_all

lemma writes_u24: "unat v < 2 ^ 24 \<Longrightarrow> writes d (CBB_add_u24 d v) (be_bytes 3 (unat v))"
  unfolding CBB_add_u24_def by (intro writes_add_u) simp_all

lemma writes_u32: "writes d (CBB_add_u32 d v) (be_bytes 4 (unat v))"
  unfolding CBB_add_u32_def using unsigned_less [of v] by (intro writes_add_u) simp_all

lemma writes_u64: "writes d (CBB_add_u64 d v) (be_bytes 8 (unat v))"
  unfolding CBB_add_u64_def using unsigned_less [of v] by (intro writes_add_u) simp_all

lemma writes_bytes [intro]: "writes d (CBB_add_bytes d data) data"
  unfolding CBB_add_bytes_def
proof (rule on_base_writes)
  fix b
  let ?f = "and_then (cbb_buffer_add (length data)) (\<lambda>dest b.
    (Some (), b\<lparr>buf := take dest (buf b) @ data @ drop (dest + length data) (buf b)\<rparr>))"
  assume b: "buf_ok b" "grows b" "len b + length data < 2 ^ 64"
  from buffer_add_grows [OF this] obtain b1 where
    add: "cbb_buffer_add (length data) b = (Some (len b), b1)" ..
  with overwrite_appended [OF add b(1)] b(3)
  show "\<exists>b'. ?f b = (Some (), b') \<and> appended b data b'" by (simp add: and_then_def)
qed

text \<open>Closing the innermost child.\<close>

lemma flush_innermost:
  assumes r: "ready (Suc d) s b" and c: "chain s = cs @ [c]"
    and fits: "prefix_fits c (len b - child_start c)" and room: "len b + 4 < 2 ^ 64"
  shows "\<exists>s' b'. CBB_flush d s = (Some (), s') \<and> ready d s' b' \<and> chain s' = cs \<and>
    contents b' = closed c (contents b)"
proof -
  from r c have b: "base s = Some b" "buf_ok b" "\<not> error b" "grows b" and d: "length cs = d"
    and ok: "chain_ok 0 (cs @ [c]) (len b)" by (simp_all add: ready_def)
  from ok have co: "child_ok c" "child_start c \<le> len b" and ok': "chain_ok 0 cs (offset c)"
    by (auto simp: chain_ok_append intro: chain_ok_le chain_ok_shrink split: if_splits)
  from flush_child_grows [OF b(2,4) co fits room] obtain b' where fc: "flush_child c b = (True, b')" ..
  from flush_child_True [OF fc b(2) co] have b': "buf_ok b'" "same_flags b b'"
    "contents b' = closed c (contents b)" by simp_all
  have "size_add (offset c) (pending_len_len c) = child_start c"
    unfolding child_start_def using co b(2)
    by (intro size_add_small) (simp add: child_start_def buf_ok_def)
  then have "flush_chain b [c] = (True, b', [])"
    using b(3) co fc by (auto simp: Let_def child_ok_def child_start_def)
  then have "CBB_flush d s = (Some (), s\<lparr>base := Some b', chain := cs\<rparr>)"
    using b(1) c d by (simp add: CBB_flush_def)
  moreover have "len b \<le> len b'"
    using length_closed_ge [OF co(1), of "contents b"] co(2) b' b(2)
    by (simp add: length_contents [symmetric])
  then have "ready d (s\<lparr>base := Some b', chain := cs\<rparr>) b'"
    using b' b d ok' co
    by (auto simp: ready_def same_flags_def grows_def child_start_def intro: chain_ok_mono)
  ultimately show ?thesis using b'(3)
    by (intro exI [of _ "s\<lparr>base := Some b', chain := cs\<rparr>"] exI [of _ b']) simp
qed

section \<open>Length-prefixed and ASN.1 children\<close>

lemma and_then_assoc: "and_then (and_then m f) g = and_then m (\<lambda>x. and_then (f x) g)"
  by (rule ext) (simp add: and_then_def split: prod.splits option.splits)

text \<open>
  A child is opened with \<open>open_child\<close>, filled by \<open>m\<close> and closed by a flush of its parent: the
  three together append the length prefix and the contents.
\<close>

lemma writes_child:
  assumes opn: "\<And>s b. ready d s b \<Longrightarrow> len b + length hdr + pl + 4 < 2 ^ 64 \<Longrightarrow>
      \<exists>s' b'. open_child s = (Some (), s') \<and> ready (Suc d) s' b' \<and>
        chain s' = chain s @ [\<lparr>offset = len b + length hdr, pending_len_len = pl, pending_is_asn1 = a\<rparr>] \<and>
        contents b' = contents b @ hdr @ replicate pl 0"
    and m: "writes (Suc d) m xs"
    and fits: "prefix_fits \<lparr>offset = 0, pending_len_len = pl, pending_is_asn1 = a\<rparr> (length xs)"
    and pl: "pl \<le> length (prefix_of \<lparr>offset = 0, pending_len_len = pl, pending_is_asn1 = a\<rparr> (length xs))"
  shows "writes d (and_then open_child (\<lambda>_. and_then m (\<lambda>_. CBB_flush d)))
    (hdr @ prefix_of \<lparr>offset = 0, pending_len_len = pl, pending_is_asn1 = a\<rparr> (length xs) @ xs)"
  unfolding writes_def
proof (intro allI impI)
  fix s b
  let ?c = "\<lambda>off. \<lparr>offset = off, pending_len_len = pl, pending_is_asn1 = a\<rparr>"
  let ?p = "prefix_of (?c 0) (length xs)"
  assume "ready d s b \<and> len b + length (hdr @ ?p @ xs) + 4 < 2 ^ 64"
  then have r: "ready d s b" and room: "len b + length hdr + length ?p + length xs + 4 < 2 ^ 64"
    by simp_all
  let ?o = "len b + length hdr"
  have "?o + pl + 4 < 2 ^ 64" using room pl by simp
  from opn [OF r this] obtain s1 b1 where 1: "open_child s = (Some (), s1)" "ready (Suc d) s1 b1"
    "chain s1 = chain s @ [?c ?o]" "contents b1 = contents b @ hdr @ replicate pl 0" by blast
  have lb1: "len b1 = ?o + pl"
    using 1(2,4) r by (metis add.assoc length_append length_contents length_replicate ready_def)
  then have "len b1 + length xs + 4 < 2 ^ 64" using room pl by simp
  from writesD [OF m 1(2) this] obtain s2 b2 where 2: "m s1 = (Some (), s2)" "ready (Suc d) s2 b2"
    "chain s2 = chain s1" "contents b2 = contents b1 @ xs" "len b2 = len b1 + length xs" .
  have n: "len b2 - child_start (?c ?o) = length xs" using 2(5) lb1 by (simp add: child_start_def)
  have "prefix_fits (?c ?o) (length xs)" using fits by (auto simp: prefix_fits_def split: if_splits)
  moreover have "len b2 + 4 < 2 ^ 64" using 2(5) lb1 room pl by simp
  moreover have "chain s2 = chain s @ [?c ?o]" using 1(3) 2(3) by simp
  ultimately obtain s3 b3 where 3: "CBB_flush d s2 = (Some (), s3)" "ready d s3 b3" "chain s3 = chain s"
    "contents b3 = closed (?c ?o) (contents b2)"
    using flush_innermost [OF 2(2)] n by metis
  have lb: "length (contents b) = len b" using r by (simp add: ready_def length_contents)
  have "prefix_of (?c ?o) (length xs) = ?p" by (simp add: prefix_of_def)
  then have "contents b3 = contents b @ hdr @ ?p @ xs"
    using 3(4) 2(4) 1(4) lb by (simp add: closed_def child_start_def)
  then show "\<exists>s' b'. and_then open_child (\<lambda>_. and_then m (\<lambda>_. CBB_flush d)) s = (Some (), s') \<and>
      ready d s' b' \<and> chain s' = chain s \<and> contents b' = contents b @ hdr @ ?p @ xs"
    using 1(1) 2(1) 3(1-3) by (intro exI [of _ s3] exI [of _ b3]) (simp add: and_then_def)
qed

lemma ready_link:
  assumes "ready d s' b'" and "chain s' = chain s" and "ready d s b"
    and "len b' = len b + n + pl" and "pl \<in> {1, 2, 3}" and "a \<longrightarrow> pl = 1"
  shows "ready (Suc d) (link_child d \<lparr>offset = len b + n, pending_len_len = pl, pending_is_asn1 = a\<rparr> s') b'"
proof -
  have "chain_ok 0 (chain s) (len b + n)"
    using assms(3) by (auto simp: ready_def intro: chain_ok_mono)
  moreover from this have "chain s \<noteq> [] \<Longrightarrow> child_start (last (chain s)) \<le> len b + n"
    by (cases "chain s" rule: rev_cases) (auto simp: chain_ok_append split: if_splits)
  ultimately show ?thesis
    using assms by (auto simp: ready_def link_child_def chain_ok_append child_ok_def child_start_def
        intro: chain_ok_mono)
qed

lemma open_length_prefixed:
  assumes r: "ready d s b" and room: "len b + length ([] :: byte list) + pl + 4 < 2 ^ 64"
    and pl: "pl \<in> {1, 2, 3}"
  shows "\<exists>s' b'. cbb_add_length_prefixed d pl s = (Some (), s') \<and> ready (Suc d) s' b' \<and>
    chain s' = chain s @ [\<lparr>offset = len b + length ([] :: byte list), pending_len_len = pl,
      pending_is_asn1 = False\<rparr>] \<and> contents b' = contents b @ [] @ replicate pl 0"
proof -
  from r have b: "base s = Some b" "buf_ok b" "grows b" "length (chain s) = d"
    by (simp_all add: ready_def)
  have pl64: "pl < 2 ^ 64" using pl by auto
  have "len b + pl < 2 ^ 64" using room by simp
  from buffer_add_grows [OF b(2,3) this] obtain b1 where add: "cbb_buffer_add pl b = (Some (len b), b1)" ..
  let ?b = "b1\<lparr>buf := take (len b) (buf b1) @ replicate pl 0 @ drop (len b + pl) (buf b1)\<rparr>"
  have ap: "appended b (replicate pl 0) ?b"
    using overwrite_appended [of "replicate pl 0" b "len b" b1] add b(2) pl64 by simp
  let ?s = "s\<lparr>base := Some ?b\<rparr>"
  have lb: "len ?b = len b + pl"
    using ap b(2) by (metis appended_def length_append length_contents length_replicate)
  then have rs: "ready d ?s ?b"
    using ap r by (auto simp: ready_def appended_def same_flags_def grows_def intro: chain_ok_mono)
  have "ready (Suc d) (link_child d \<lparr>offset = len b + 0, pending_len_len = pl, pending_is_asn1 = False\<rparr> ?s) ?b"
    using rs r lb pl by (intro ready_link [where s = s and b = b]) simp_all
  moreover have "cbb_add_length_prefixed d pl s =
     (Some (), link_child d \<lparr>offset = len b + 0, pending_len_len = pl, pending_is_asn1 = False\<rparr> ?s)"
    using add b(1) flush_ready [OF r]
    by (simp add: cbb_add_length_prefixed_def and_then_def on_base_def)
  ultimately show ?thesis
    using ap b(4) by (intro exI conjI) (auto simp: link_child_def appended_def)
qed

lemma writes_length_prefixed:
  assumes "writes (Suc d) m xs" and "pl \<in> {1, 2, 3}" and "length xs < 256 ^ pl"
  shows "writes d (and_then (cbb_add_length_prefixed d pl) (\<lambda>_. and_then m (\<lambda>_. CBB_flush d)))
    (be_bytes pl (length xs) @ xs)"
  using writes_child [of d "[]" pl "cbb_add_length_prefixed d pl" False m xs]
    open_length_prefixed [OF _ _ assms(2)] assms
  by (simp add: prefix_of_def prefix_fits_def)

section \<open>Tags\<close>

fun b128_digits :: "nat \<Rightarrow> nat \<Rightarrow> byte list" where
  "b128_digits q 0 = []"
| "b128_digits q (Suc i) = of_nat (128 + q div 128 ^ i mod 128) # b128_digits q i"

lemma b128_digits_Suc: "b128_digits q (Suc i) = b128_digits (q div 128) i @ [of_nat (128 + q mod 128)]"
proof (induction i)
  case (Suc i)
  have "q div 128 ^ Suc i = q div 128 div 128 ^ i" by (simp add: div_mult2_eq)
  then have "b128_digits q (Suc (Suc i)) =
      of_nat (128 + q div 128 div 128 ^ i mod 128) # b128_digits q (Suc i)"
    by (simp only: b128_digits.simps)
  with Suc show ?case by (simp only: b128_digits.simps append_Cons)
qed simp

lemma b128_digits_eq: "b128_digits q (base128_len q) = b128_hi q"
proof (induction q rule: b128_hi.induct)
  case (1 q)
  then show ?case
    by (cases "q = 0")
      (simp_all add: base128_len.simps [of 0] base128_len.simps [of q] b128_hi.simps [of q] b128_digits_Suc
        del: b128_digits.simps(2))
qed

lemma unat_octet: "unat (ucast (drop_bit (7 * i) (v :: u64)) AND 0x7f :: byte) = unat v div 128 ^ i mod 128"
proof -
  have "unat (ucast (drop_bit (7 * i) v) :: byte) = unat v div 2 ^ (7 * i) mod 2 ^ 8"
    by (simp only: unsigned_ucast_eq unat_drop_bit_eq) (simp add: take_bit_eq_mod drop_bit_eq_div)
  then have "unat (ucast (drop_bit (7 * i) v) AND 0x7f :: byte) = unat v div 2 ^ (7 * i) mod 2 ^ 8 mod 128"
    by (simp only: unat_and_7f)
  also have "\<dots> = unat v div 2 ^ (7 * i) mod 128"
    by (simp add: mod_mod_cancel)
  finally show ?thesis by (simp add: power_mult)
qed

lemma or_80:
  assumes "unat (w :: byte) < 128"
  shows "w OR 0x80 = of_nat (128 + unat w)"
proof -
  have "w AND 0x80 = 0" using assms by (simp only: and_80_zero_iff)
  then have "w OR 0x80 = w + 0x80" by (rule disjunctive_add_eq_or [symmetric])
  then show ?thesis by (simp add: add.commute)
qed

lemma writes_base128_digits:
  "writes d (add_base128_digits d v (Suc i)) (b128_digits (unat v div 128) i @ [of_nat (unat v mod 128)])"
proof (induction i)
  case 0
  have "ucast v AND 0x7f = (of_nat (unat v mod 128) :: byte)"
    using unat_octet [of 0 v] by (intro word_eq_of_natI) simp
  then have "add_base128_digits d v (Suc 0) = and_then (CBB_add_u8 d (of_nat (unat v mod 128))) (\<lambda>_. ok ())"
    by simp
  moreover have "writes d (and_then (CBB_add_u8 d (of_nat (unat v mod 128))) (\<lambda>_. ok ()))
      ([of_nat (unat v mod 128)] @ [])" by blast
  ultimately show ?case by simp
next
  case (Suc i)
  let ?w = "ucast (drop_bit (7 * Suc i) v) AND 0x7f :: byte"
  have w: "unat ?w = unat v div 128 div 128 ^ i mod 128"
    by (simp only: unat_octet) (simp add: div_mult2_eq)
  then have "unat ?w < 128" by simp
  then have "?w OR 0x80 = of_nat (128 + unat v div 128 div 128 ^ i mod 128)"
    by (simp only: or_80 w)
  then have "add_base128_digits d v (Suc (Suc i)) =
      and_then (CBB_add_u8 d (of_nat (128 + unat v div 128 div 128 ^ i mod 128)))
        (\<lambda>_. add_base128_digits d v (Suc i))"
    by (simp only: add_base128_digits.simps Let_def nat.simps if_True simp_thms)
  moreover have "writes d (and_then (CBB_add_u8 d (of_nat (128 + unat v div 128 div 128 ^ i mod 128)))
        (\<lambda>_. add_base128_digits d v (Suc i)))
      ([of_nat (128 + unat v div 128 div 128 ^ i mod 128)] @
       (b128_digits (unat v div 128) i @ [of_nat (unat v mod 128)]))"
    using Suc by blast
  ultimately show ?case by simp
qed

lemma writes_base128: "writes d (add_base128_integer d v) (b128 (unat v))"
proof (cases "unat v = 0")
  case True
  have "add_base128_integer d v = add_base128_digits d v (Suc 0)"
    by (simp add: add_base128_integer_def True base128_len.simps [of 0])
  with writes_base128_digits [of d v 0] True show ?thesis by (simp add: b128_def)
next
  case False
  then have "base128_len (unat v) = Suc (base128_len (unat v div 128))"
    by (subst base128_len.simps) simp
  with writes_base128_digits [of d v "base128_len (unat v div 128)"] show ?thesis
    by (simp add: add_base128_integer_def b128_def b128_digits_eq)
qed

definition add_tag :: "nat \<Rightarrow> u32 \<Rightarrow> (cbb, unit) oper" where
  "add_tag d tag =
     (let tag_bits = ucast (drop_bit 24 tag) AND 0xe0 :: byte;
          tag_number = tag AND CBS_ASN1_TAG_NUMBER_MASK
      in if 0x1f \<le> tag_number
         then and_then (CBB_add_u8 d (tag_bits OR 0x1f)) (\<lambda>_. add_base128_integer d (ucast tag_number))
         else CBB_add_u8 d (tag_bits OR ucast tag_number))"

lemma writes_tag: "writes d (add_tag d tag) (der_tag tag)"
proof -
  let ?n = "tag AND CBS_ASN1_TAG_NUMBER_MASK"
  have "unat (ucast ?n :: u64) = unat ?n"
    by (simp only: unsigned_ucast_eq)
      (rule take_bit_nat_eq_self, rule order_less_le_trans [OF unsigned_less], simp)
  then have hi: "writes d (and_then (CBB_add_u8 d f) (\<lambda>_. add_base128_integer d (ucast ?n))) (f # b128 (unat ?n))" for f
    using writes_seq [OF writes_u8 writes_base128, of d f "ucast ?n"] by simp
  have "ucast ?n = (of_nat (unat ?n) :: byte)" by (simp only: of_nat_unat)
  with hi show ?thesis
    by (auto simp: add_tag_def der_tag_def Let_def word_le_nat_alt)
qed

lemma CBB_add_asn1_eq:
  "CBB_add_asn1 d tag =
    and_then (CBB_flush d) (\<lambda>_. and_then (add_tag d tag) (\<lambda>_ s.
      let off = (case base s of None \<Rightarrow> 0 | Some b \<Rightarrow> len b) in
      and_then (CBB_add_u8 d 0) (\<lambda>_ s.
        (Some (), link_child d \<lparr>offset = off, pending_len_len = 1, pending_is_asn1 = True\<rparr> s)) s))"
  by (simp add: CBB_add_asn1_def add_tag_def Let_def)

lemma open_asn1:
  assumes r: "ready d s b" and room: "len b + length (der_tag tag) + 1 + 4 < 2 ^ 64"
  shows "\<exists>s' b'. CBB_add_asn1 d tag s = (Some (), s') \<and> ready (Suc d) s' b' \<and>
    chain s' = chain s @ [\<lparr>offset = len b + length (der_tag tag), pending_len_len = 1,
      pending_is_asn1 = True\<rparr>] \<and> contents b' = contents b @ der_tag tag @ replicate 1 0"
proof -
  let ?t = "length (der_tag tag)"
  let ?c = "\<lparr>offset = len b + ?t, pending_len_len = 1, pending_is_asn1 = True\<rparr>"
  have "len b + length (der_tag tag) + 4 < 2 ^ 64" using room by simp
  from writesD [OF writes_tag r this] obtain s1 b1 where 1: "add_tag d tag s = (Some (), s1)"
    "ready d s1 b1" "chain s1 = chain s" "contents b1 = contents b @ der_tag tag"
    "len b1 = len b + ?t" .
  then have "len b1 + length [0 :: byte] + 4 < 2 ^ 64" using room by simp
  from writesD [OF writes_u8 1(2) this] obtain s2 b2 where 2: "CBB_add_u8 d 0 s1 = (Some (), s2)"
    "ready d s2 b2" "chain s2 = chain s1" "contents b2 = contents b1 @ [0]"
    "len b2 = len b1 + length [0 :: byte]" .
  have "CBB_add_asn1 d tag s = (Some (), link_child d ?c s2)"
    using flush_ready [OF r] 1 2
    by (simp add: CBB_add_asn1_eq and_then_def Let_def ready_def)
  moreover have "ready (Suc d) (link_child d ?c s2) b2"
    using 1 2 r by (intro ready_link [where s = s and b = b]) simp_all
  moreover have "chain (link_child d ?c s2) = chain s @ [?c]"
    using 1 2 r by (simp add: link_child_def ready_def)
  ultimately show ?thesis using 1 2 by (intro exI conjI) auto
qed

lemma writes_asn1 [intro]:
  assumes "writes (Suc d) m xs" and "length xs \<le> 0xfffffffe"
  shows "writes d (and_then (CBB_add_asn1 d tag) (\<lambda>_. and_then m (\<lambda>_. CBB_flush d)))
    (der_element tag xs)"
proof -
  have "1 \<le> length (der_length (length xs))" by (simp add: der_length_def)
  then show ?thesis
    using writes_child [of d "der_tag tag" 1 "CBB_add_asn1 d tag" True m xs] open_asn1 [of d _ _ tag] assms
    by (simp add: prefix_of_def prefix_fits_def der_element_def der_header_def)
qed

lemma writes_flush: "writes d (CBB_flush d) []"
  by (auto simp: writes_def flush_ready)

section \<open>Finishing\<close>

lemma finish_writes:
  assumes "writes 0 m xs" and "length xs + 4 < 2 ^ 64" and "cap0 < 2 ^ 64"
  shows "\<exists>s s' s''. CBB_init (\<lambda>_. True) True cap0 = (True, s) \<and> m s = (Some (), s') \<and>
    CBB_finish 0 True s' = (Some xs, s'')"
proof -
  let ?b = "\<lparr>buf = replicate cap0 0, len = 0, can_resize = True, error = False, realloc_ok = \<lambda>_. True\<rparr>"
  let ?s = "\<lparr>base = Some ?b, chain = []\<rparr>"
  have r: "ready 0 ?s ?b"
    using assms(3) by (simp add: ready_def buf_ok_def grows_def)
  have "len ?b + length xs + 4 < 2 ^ 64" using assms(2) by simp
  from writesD [OF assms(1) r this] obtain s' b' where s': "m ?s = (Some (), s')" "ready 0 s' b'"
    "contents b' = contents ?b @ xs" by blast
  have "CBB_init (\<lambda>_. True) True cap0 = (True, ?s)"
    by (simp add: CBB_init_def cbb_init_def CBB_zero_def)
  moreover have "CBB_finish 0 True s' = (Some xs, CBB_cleanup s')"
    using s'(2,3) flush_ready [OF s'(2)]
    by (simp add: CBB_finish_def and_then_def ready_def) (simp add: contents_def)
  ultimately show ?thesis using s'(1) by blast
qed

section \<open>Errors\<close>

lemma flush_failed:
  assumes "base s = Some b" and "error b"
  shows "CBB_flush d s = (None, s)"
proof -
  have "flush_chain b (drop d (chain s)) = (False, b, drop d (chain s))"
    using assms(2) by (cases "drop d (chain s)") auto
  moreover have "s\<lparr>base := Some b, chain := take d (chain s) @ drop d (chain s)\<rparr> = s"
    using assms(1) by (cases s) simp
  ultimately show ?thesis using assms(1) by (simp add: CBB_flush_def del: append_take_drop_id)
qed

lemma failed_sticky:
  assumes "base s = Some b" and "error b"
  shows "CBB_add_bytes d data s = (None, s)" and "CBB_add_u8 d v s = (None, s)"
    and "CBB_add_asn1 d tag s = (None, s)" and "cbb_add_length_prefixed d k s = (None, s)"
    and "CBB_add_space d k s = (None, s)" and "CBB_finish 0 want s = (None, s)"
  using flush_failed [OF assms]
  by (simp_all add: CBB_add_bytes_def CBB_add_u8_def CBB_add_asn1_def cbb_add_length_prefixed_def
      CBB_add_space_def CBB_finish_def and_then_def)

text \<open>When a request for space fails, and what it leaves.\<close>

definition new_capacity :: "nat \<Rightarrow> nat \<Rightarrow> nat" where
  "new_capacity c need = (if 2 * c < 2 ^ 64 \<and> need \<le> 2 * c then 2 * c else need)"

lemma reserve_None_iff:
  assumes "buf_ok b" and "n < 2 ^ 64"
  shows "fst (cbb_buffer_reserve n b) = None \<longleftrightarrow>
    2 ^ 64 \<le> len b + n \<or>
    cap b < len b + n \<and> (\<not> can_resize b \<or> \<not> realloc_ok b (new_capacity (cap b) (len b + n)))"
proof (cases "2 ^ 64 \<le> len b + n")
  case True
  have "len b < 2 ^ 64" using assms(1) by (simp add: buf_ok_def)
  with True size_add_overflow_iff [OF this assms(2)] show ?thesis
    by (simp add: cbb_buffer_reserve_def)
next
  case False
  then have sum: "size_add (len b) n = len b + n" by (simp add: size_add_small)
  have c: "cap b < 2 ^ 64" using assms(1) by (simp add: buf_ok_def cap_def)
  have "(if size_mul (cap b) 2 < cap b \<or> size_mul (cap b) 2 < len b + n then len b + n else size_mul (cap b) 2) =
      new_capacity (cap b) (len b + n)" if "cap b < len b + n"
  proof (cases "2 * cap b < 2 ^ 64")
    case True
    then show ?thesis by (simp add: size_mul_def new_capacity_def)
  next
    case False
    then have "cap b * 2 mod 2 ^ 64 = cap b * 2 - 2 ^ 64"
      using c by (simp add: le_mod_geq)
    then have "size_mul (cap b) 2 < cap b" using False c by (simp add: size_mul_def)
    with False show ?thesis by (simp add: new_capacity_def)
  qed
  with False sum show ?thesis by (simp add: cbb_buffer_reserve_def Let_def)
qed

end
