(* ===== verification/Asn1_Values.thy ===== *)
theory Asn1_Values
  imports Cbb
begin

text \<open>
  Typed ASN.1 values over the reader and the builder: the INTEGER, OCTET STRING and BOOLEAN
  writers of \<open>cbb.c\<close>.  The lemmas show that each writer appends the DER element of an abstract
  value, and that the readers of \<open>cbs.c\<close> accept exactly that element for that value.
\<close>

section \<open>Writers\<close>

text \<open>The loop of \<open>CBB_add_asn1_uint64\<close> over the bytes of \<open>value\<close>; its result is \<open>started\<close>.\<close>

fun add_uint64_bytes :: "nat \<Rightarrow> bool \<Rightarrow> byte list \<Rightarrow> (cbb, bool) oper" where
  "add_uint64_bytes d started [] = ok started"
| "add_uint64_bytes d started (b # bs) =
     (if \<not> started then
        if b = 0 then add_uint64_bytes d started bs
        else and_then (if b AND 0x80 \<noteq> 0 then CBB_add_u8 d 0 else ok ()) (\<lambda>_.
             and_then (CBB_add_u8 d b) (\<lambda>_. add_uint64_bytes d True bs))
      else and_then (CBB_add_u8 d b) (\<lambda>_. add_uint64_bytes d started bs))"

definition CBB_add_asn1_uint64 :: "nat \<Rightarrow> u64 \<Rightarrow> (cbb, unit) oper" where
  "CBB_add_asn1_uint64 d value =
     and_then (CBB_add_asn1 d CBS_ASN1_INTEGER) (\<lambda>_.
       and_then (add_uint64_bytes (Suc d) False (map (\<lambda>i. ucast (drop_bit (8 * (7 - i)) value)) [0..<8]))
         (\<lambda>started. and_then (if \<not> started then CBB_add_u8 (Suc d) 0 else ok ()) (\<lambda>_. CBB_flush d)))"

text \<open>
  An \<open>int64_t\<close> is its 64-bit two's-complement word; \<open>u.bytes[i]\<close> of the little-endian union is
  byte \<open>i\<close> of it.
\<close>

definition int64_byte :: "u64 \<Rightarrow> nat \<Rightarrow> byte" where
  "int64_byte value i = ucast (drop_bit (8 * i) value)"

fun int64_start :: "u64 \<Rightarrow> nat \<Rightarrow> nat" where
  "int64_start value 0 = 0"
| "int64_start value (Suc start) =
     (if int64_byte value (Suc start) = 0xff \<and> int64_byte value start AND 0x80 \<noteq> 0
      then int64_start value start else Suc start)"

fun add_int64_bytes :: "nat \<Rightarrow> u64 \<Rightarrow> nat \<Rightarrow> (cbb, unit) oper" where
  "add_int64_bytes d value 0 = ok ()"
| "add_int64_bytes d value (Suc i) =
     and_then (CBB_add_u8 d (int64_byte value i)) (\<lambda>_. add_int64_bytes d value i)"

definition CBB_add_asn1_int64 :: "nat \<Rightarrow> u64 \<Rightarrow> (cbb, unit) oper" where
  "CBB_add_asn1_int64 d value =
     (if 0 \<le> sint value then CBB_add_asn1_uint64 d value
      else and_then (CBB_add_asn1 d CBS_ASN1_INTEGER) (\<lambda>_.
             and_then (add_int64_bytes (Suc d) value (Suc (int64_start value 7))) (\<lambda>_. CBB_flush d)))"

definition CBB_add_asn1_octet_string :: "nat \<Rightarrow> byte list \<Rightarrow> (cbb, unit) oper" where
  "CBB_add_asn1_octet_string d data =
     and_then (CBB_add_asn1 d CBS_ASN1_OCTETSTRING) (\<lambda>_.
       and_then (CBB_add_bytes (Suc d) data) (\<lambda>_. CBB_flush d))"

definition CBB_add_asn1_bool :: "nat \<Rightarrow> int \<Rightarrow> (cbb, unit) oper" where
  "CBB_add_asn1_bool d value =
     and_then (CBB_add_asn1 d CBS_ASN1_BOOLEAN) (\<lambda>_.
       and_then (CBB_add_u8 (Suc d) (if value \<noteq> 0 then 0xff else 0)) (\<lambda>_. CBB_flush d))"

section \<open>Integers\<close>

text \<open>
  \<open>der_uint n\<close>: the contents octets of a non-negative INTEGER, the shortest big-endian
  two's-complement string.
\<close>

definition minimal :: "byte list \<Rightarrow> byte list" where
  "minimal bs = (case dropWhile (\<lambda>b. b = 0) bs of
     [] \<Rightarrow> [0] | b # t \<Rightarrow> if b AND 0x80 \<noteq> 0 then 0 # b # t else b # t)"

definition der_uint :: "nat \<Rightarrow> byte list" where
  "der_uint n = minimal (be_bytes 8 n)"

lemma writes_uint64_True:
  "writes d (and_then (add_uint64_bytes d True bs) (\<lambda>st. if \<not> st then CBB_add_u8 d 0 else ok ())) bs"
proof (induction bs)
  case Nil
  have "and_then (add_uint64_bytes d True []) (\<lambda>st. if \<not> st then CBB_add_u8 d 0 else ok ()) = ok ()"
    by (rule ext) (simp add: and_then_def ok_def)
  then show ?case by (simp only: writes_ok)
next
  case (Cons b bs)
  from writes_seq [OF writes_u8 [of d b] Cons] show ?case by (simp add: and_then_assoc)
qed

lemma writes_uint64_False:
  "writes d (and_then (add_uint64_bytes d False bs) (\<lambda>st. if \<not> st then CBB_add_u8 d 0 else ok ()))
    (minimal bs)"
proof (induction bs)
  case Nil
  have "and_then (add_uint64_bytes d False []) (\<lambda>st. if \<not> st then CBB_add_u8 d 0 else ok ()) = CBB_add_u8 d 0"
    by (rule ext) (simp add: and_then_def ok_def)
  then show ?case by (simp add: minimal_def writes_u8)
next
  case (Cons b bs)
  note tail = writes_seq [OF writes_u8 [of d b] writes_uint64_True [of d bs]]
  have ok: "and_then (ok ()) (\<lambda>_. m) = m" for m :: "(cbb, unit) oper"
    by (rule ext) (simp add: and_then_def ok_def)
  show ?case
  proof (cases "b = 0")
    case True
    with Cons show ?thesis by (simp add: minimal_def)
  next
    case False
    with tail writes_seq [OF writes_u8 [of d 0] tail] show ?thesis
      by (simp add: minimal_def and_then_assoc ok)
  qed
qed

lemma be_bytes_map: "be_bytes k n = map (\<lambda>i. of_nat (n div 256 ^ (k - 1 - i))) [0..<k]"
proof (induction k arbitrary: n)
  case (Suc k)
  have "be_bytes k (n div 256) = map (\<lambda>i. of_nat (n div 256 ^ (Suc k - 1 - i))) [0..<k]"
  proof (unfold Suc, rule map_cong [OF refl])
    fix i
    assume "i \<in> set [0..<k]"
    then have "Suc k - 1 - i = Suc (k - 1 - i)" by auto
    then show "of_nat (n div 256 div 256 ^ (k - 1 - i)) = (of_nat (n div 256 ^ (Suc k - 1 - i)) :: byte)"
      by (simp only: power_Suc div_mult2_eq)
  qed
  then show ?case by simp
qed simp

lemma ucast_drop_bit_byte: "(ucast (drop_bit (8 * i) (v :: u64)) :: byte) = of_nat (unat v div 256 ^ i)"
proof -
  have "unat (ucast (drop_bit (8 * i) v) :: byte) = unat v div 2 ^ (8 * i) mod 2 ^ 8"
    by (simp only: unsigned_ucast_eq unat_drop_bit_eq) (simp add: take_bit_eq_mod drop_bit_eq_div)
  then show ?thesis by (simp add: word_unat_eq_iff unat_of_nat power_mult)
qed

lemma uint64_bytes: "map (\<lambda>i. ucast (drop_bit (8 * (7 - i)) (v :: u64))) [0..<8] = be_bytes 8 (unat v)"
  by (simp only: be_bytes_map ucast_drop_bit_byte) simp

lemma length_minimal: "length (minimal bs) \<le> Suc (length bs)"
  using length_dropWhile_le [of "\<lambda>b. b = 0" bs] by (auto simp: minimal_def split: list.splits)

lemma writes_asn1_uint64:
  "writes d (CBB_add_asn1_uint64 d v) (der_element CBS_ASN1_INTEGER (der_uint (unat v)))"
proof -
  let ?m = "and_then (add_uint64_bytes (Suc d) False (be_bytes 8 (unat v)))
    (\<lambda>st. if \<not> st then CBB_add_u8 (Suc d) 0 else ok ())"
  have "CBB_add_asn1_uint64 d v =
    and_then (CBB_add_asn1 d CBS_ASN1_INTEGER) (\<lambda>_. and_then ?m (\<lambda>_. CBB_flush d))"
    by (simp only: CBB_add_asn1_uint64_def uint64_bytes and_then_assoc)
  moreover have "writes (Suc d) ?m (der_uint (unat v))"
    unfolding der_uint_def by (rule writes_uint64_False)
  moreover have "length (der_uint (unat v)) \<le> 0xfffffffe"
    using length_minimal [of "be_bytes 8 (unat v)"] by (simp add: der_uint_def)
  ultimately show ?thesis by (simp add: writes_asn1)
qed

lemma asn1_uint64_loop_eq:
  "asn1_uint64_loop v data =
    (let n = unat v * 256 ^ length data + be_nat data in if n < 2 ^ 64 then Some (of_nat n) else None)"
proof (induction data arbitrary: v)
  case Nil
  have "unat v < 2 ^ 64" using unsigned_less [of v] by simp
  then show ?case by (simp add: Let_def)
next
  case (Cons b data)
  let ?n = "unat v * 256 ^ length (b # data) + be_nat (b # data)"
  show ?case
  proof (cases "unat v < 2 ^ 56")
    case True
    then have "unat (shl8_or v b) = 256 * unat v + unat b"
      using unat_shl8_or [of v b] by simp
    then have "unat (shl8_or v b) * 256 ^ length data + be_nat data = ?n"
      by (simp add: algebra_simps)
    with True show ?thesis
      by (simp add: Cons drop_bit_word_eq_0_iff [of 56] del: be_nat.simps)
  next
    case False
    have "2 ^ 56 * 256 \<le> unat v * 256 ^ length (b # data)"
      using False by (intro mult_mono) simp_all
    then have "\<not> ?n < 2 ^ 64" by simp
    moreover have "drop_bit 56 v \<noteq> 0" using False drop_bit_word_eq_0_iff [of 56 v] by blast
    ultimately show ?thesis by (simp add: Let_def)
  qed
qed

text \<open>Contents octets that the readers accept as the shortest form of a non-negative number.\<close>

definition shortest_uint :: "byte list \<Rightarrow> bool" where
  "shortest_uint data \<longleftrightarrow> data \<noteq> [] \<and> unat (hd data) < 128 \<and>
     \<not> (1 < length data \<and> data ! 0 = 0 \<and> unat (data ! 1) < 128)"

lemma CBS_get_asn1_uint64_iff:
  "CBS_get_asn1_uint64 s = (Some v, r) \<longleftrightarrow>
    (\<exists>data. s = der_element CBS_ASN1_INTEGER data @ r \<and> length data < 2 ^ 32 \<and>
       shortest_uint data \<and> be_nat data < 2 ^ 64 \<and> v = of_nat (be_nat data))"
proof -
  have body: "(if CBS_len data = 0 then (None, c)
       else if data ! 0 AND 0x80 \<noteq> 0 then (None, c)
       else if data ! 0 = 0 \<and> CBS_len data > 1 \<and> data ! 1 AND 0x80 = 0 then (None, c)
       else (asn1_uint64_loop 0 data, c)) =
     (if shortest_uint data \<and> be_nat data < 2 ^ 64 then Some (of_nat (be_nat data)) else None, c)"
    for data :: cbs and c :: cbs
    by (cases data) (auto simp: CBS_len_def shortest_uint_def and_80_zero_iff asn1_uint64_loop_eq Let_def)
  have "CBS_get_asn1_uint64 s = (Some v, r) \<longleftrightarrow>
    (\<exists>data. CBS_get_asn1 CBS_ASN1_INTEGER s = (Some data, r) \<and>
       shortest_uint data \<and> be_nat data < 2 ^ 64 \<and> v = of_nat (be_nat data))"
    unfolding CBS_get_asn1_uint64_def and_then_def Let_def body
    by (auto split: prod.splits option.splits if_splits)
  then show ?thesis by (auto simp: CBS_get_asn1_iff)
qed

lemma be_nat_replicate_0: "be_nat (replicate k 0 @ bs) = be_nat bs"
  by (induction k) simp_all

lemma be_nat_dropWhile: "be_nat (dropWhile (\<lambda>b. b = 0) bs) = be_nat bs"
  by (induction bs) simp_all

lemma be_bytes_pad:
  assumes "length bs \<le> k"
  shows "be_bytes k (be_nat bs) = replicate (k - length bs) 0 @ bs"
  using be_bytes_be_nat [of "replicate (k - length bs) 0 @ bs"] assms
  by (simp add: be_nat_replicate_0)

lemma dropWhile_replicate_0: "dropWhile (\<lambda>b. b = 0) (replicate k 0 @ bs) = dropWhile (\<lambda>b. b = 0) bs"
  by (induction k) simp_all

lemma minimal_cong: "dropWhile (\<lambda>b. b = 0) xs = dropWhile (\<lambda>b. b = 0) ys \<Longrightarrow> minimal xs = minimal ys"
  by (simp add: minimal_def)

lemma hd_dropWhile_0: "dropWhile (\<lambda>b. b = 0) xs = b # t \<Longrightarrow> b \<noteq> (0 :: byte)"
  by (metis (full_types) hd_dropWhile list.distinct(1) list.sel(1))

lemma minimal_shortest: "shortest_uint data \<Longrightarrow> minimal data = data"
proof (cases data)
  case (Cons b t)
  assume sh: "shortest_uint data"
  show ?thesis
  proof (cases "b = 0")
    case False
    with sh Cons show ?thesis
      by (simp add: minimal_def shortest_uint_def and_80_zero_iff)
  next
    case True
    with sh Cons show ?thesis
      by (cases t) (auto simp: minimal_def shortest_uint_def and_80_zero_iff)
  qed
qed (simp add: shortest_uint_def)

lemma shortest_minimal: "shortest_uint (minimal bs)"
  by (auto simp: minimal_def shortest_uint_def and_80_zero_iff dest: hd_dropWhile_0 split: list.splits)

lemma be_nat_minimal: "be_nat (minimal bs) = be_nat bs"
proof (cases "dropWhile (\<lambda>b. b = 0) bs")
  case Nil
  with be_nat_dropWhile [of bs] show ?thesis
    by (simp only: minimal_def list.case be_nat.simps) simp
next
  case (Cons b t)
  with be_nat_dropWhile [of bs] show ?thesis by (simp add: minimal_def)
qed

lemma der_uint_be_nat:
  assumes "shortest_uint data" and "be_nat data < 2 ^ 64"
  shows "der_uint (be_nat data) = data"
proof -
  let ?core = "dropWhile (\<lambda>b. b = 0) data"
  have "length ?core \<le> 8"
  proof (cases ?core)
    case (Cons b t)
    have "1 * 256 ^ length t \<le> unat b * 256 ^ length t"
      using hd_dropWhile_0 [OF Cons] by (intro mult_le_mono1) (simp add: Suc_le_eq unat_gt_0)
    also have "\<dots> \<le> be_nat data"
      using be_nat_dropWhile [of data] Cons by simp
    also have "\<dots> < 256 ^ 8" using assms(2) by simp
    finally have "(256 :: nat) ^ length t < 256 ^ 8" by simp
    then have "length t < 8" by (rule power_less_imp_less_exp [rotated]) simp
    with Cons show ?thesis by simp
  next
    case Nil
    then show ?thesis by (simp only: list.size)
  qed
  then have "be_bytes 8 (be_nat data) = replicate (8 - length ?core) 0 @ ?core"
    using be_bytes_pad [of ?core 8] by (simp add: be_nat_dropWhile)
  then have "der_uint (be_nat data) = minimal data"
    unfolding der_uint_def by (intro minimal_cong) (simp add: dropWhile_replicate_0)
  with minimal_shortest [OF assms(1)] show ?thesis by simp
qed

lemma be_nat_der_uint: "n < 2 ^ 64 \<Longrightarrow> be_nat (der_uint n) = n"
  by (simp add: der_uint_def be_nat_minimal be_nat_be_bytes)

lemma length_der_uint: "length (der_uint n) \<le> 9"
  using length_minimal [of "be_bytes 8 n"] by (simp add: der_uint_def)

theorem asn1_uint64_iff:
  "CBS_get_asn1_uint64 s = (Some v, r) \<longleftrightarrow> s = der_element CBS_ASN1_INTEGER (der_uint (unat v)) @ r"
proof
  assume "CBS_get_asn1_uint64 s = (Some v, r)"
  then obtain data where s: "s = der_element CBS_ASN1_INTEGER data @ r"
    and d: "shortest_uint data" "be_nat data < 2 ^ 64" and v: "v = of_nat (be_nat data)"
    by (auto simp: CBS_get_asn1_uint64_iff)
  have "unat v = be_nat data" using v d(2) by (simp add: unat_of_nat_small)
  with s der_uint_be_nat [OF d] show "s = der_element CBS_ASN1_INTEGER (der_uint (unat v)) @ r" by simp
next
  assume s: "s = der_element CBS_ASN1_INTEGER (der_uint (unat v)) @ r"
  have v: "unat v < 2 ^ 64" using unsigned_less [of v] by simp
  have "v = of_nat (be_nat (der_uint (unat v)))"
    by (intro word_eq_of_natI) (simp only: be_nat_der_uint [OF v])
  moreover have "length (der_uint (unat v)) < 2 ^ 32"
    using length_der_uint [of "unat v"] by simp
  moreover have "shortest_uint (der_uint (unat v))"
    unfolding der_uint_def by (rule shortest_minimal)
  ultimately show "CBS_get_asn1_uint64 s = (Some v, r)"
    using s v by (auto simp: CBS_get_asn1_uint64_iff be_nat_der_uint)
qed

section \<open>Signed integers\<close>

definition der_int :: "u64 \<Rightarrow> byte list" where
  "der_int v = (if 0 \<le> sint v then der_uint (unat v)
     else drop (7 - int64_start v 7) (be_bytes 8 (unat v)))"

lemma int64_byte_eq: "int64_byte v i = of_nat (unat v div 256 ^ i)"
  by (simp only: int64_byte_def ucast_drop_bit_byte)

lemma nth_be_bytes_8: "i < 8 \<Longrightarrow> be_bytes 8 (unat v) ! i = int64_byte v (7 - i)"
  by (simp add: be_bytes_map int64_byte_eq)

lemma writes_int64_bytes:
  "k \<le> 8 \<Longrightarrow> writes d (add_int64_bytes d v k) (drop (8 - k) (be_bytes 8 (unat v)))"
proof (induction k)
  case (Suc k)
  have "drop (8 - Suc k) (be_bytes 8 (unat v)) =
      int64_byte v k # drop (8 - k) (be_bytes 8 (unat v))"
  proof -
    have k: "7 - k < 8" "Suc (7 - k) = 8 - k" "7 - (7 - k) = k" "8 - Suc k = 7 - k"
      using Suc.prems by simp_all
    have "drop (7 - k) (be_bytes 8 (unat v)) =
        be_bytes 8 (unat v) ! (7 - k) # drop (Suc (7 - k)) (be_bytes 8 (unat v))"
      by (rule Cons_nth_drop_Suc [symmetric]) (simp only: length_be_bytes k(1))
    then show ?thesis by (simp only: k nth_be_bytes_8 [OF k(1)])
  qed
  moreover have "writes d (add_int64_bytes d v (Suc k))
      ([int64_byte v k] @ drop (8 - k) (be_bytes 8 (unat v)))"
    using Suc by (simp add: writes_seq writes_u8 del: append_Cons append_Nil)
  ultimately show ?case by simp
qed (simp add: writes_ok)

text \<open>\<open>int64_start\<close> strips the octets that only repeat the sign.\<close>

definition sign_octets_end :: "u64 \<Rightarrow> nat \<Rightarrow> nat \<Rightarrow> bool" where
  "sign_octets_end v n st \<longleftrightarrow> st \<le> n \<and>
     (\<forall>j. st < j \<and> j \<le> n \<longrightarrow> int64_byte v j = 0xff \<and> int64_byte v (j - 1) AND 0x80 \<noteq> 0) \<and>
     (0 < st \<longrightarrow> \<not> (int64_byte v st = 0xff \<and> int64_byte v (st - 1) AND 0x80 \<noteq> 0))"

lemma int64_start_iff: "int64_start v n = st \<longleftrightarrow> sign_octets_end v n st"
proof -
  have start: "sign_octets_end v n (int64_start v n)" for n
  proof (induction n)
    case (Suc n)
    then show ?case by (auto simp: sign_octets_end_def le_Suc_eq)
  qed (simp add: sign_octets_end_def)
  have "a = b" if "sign_octets_end v n a" "sign_octets_end v n b" for a b
  proof (rule linorder_cases [of a b])
    assume "a < b"
    with that show "a = b" unfolding sign_octets_end_def by (metis gr_zeroI not_less_zero)
  next
    assume "b < a"
    with that show "a = b" unfolding sign_octets_end_def by (metis gr_zeroI not_less_zero)
  qed simp
  with start show ?thesis by blast
qed

lemma sint_negative_iff: "sint (v :: u64) < 0 \<longleftrightarrow> int64_byte v 7 AND 0x80 \<noteq> 0"
proof -
  have "sint v < 0 \<longleftrightarrow> bit v 63" using bit_last_iff [of v] by simp
  also have "\<dots> \<longleftrightarrow> bit (int64_byte v 7) 7"
    by (simp add: int64_byte_def bit_simps)
  also have "\<dots> \<longleftrightarrow> int64_byte v 7 AND 0x80 \<noteq> 0"
    using and_exp_eq_0_iff_not_bit [of "int64_byte v 7" 7] by simp
  finally show ?thesis .
qed

lemma writes_asn1_int64: "writes d (CBB_add_asn1_int64 d v) (der_element CBS_ASN1_INTEGER (der_int v))"
proof (cases "0 \<le> sint v")
  case True
  then show ?thesis by (simp add: CBB_add_asn1_int64_def der_int_def writes_asn1_uint64)
next
  case False
  have "int64_start v 7 \<le> 7" using int64_start_iff [of v 7 "int64_start v 7"] by (simp add: sign_octets_end_def)
  then have "writes (Suc d) (add_int64_bytes (Suc d) v (Suc (int64_start v 7))) (der_int v)"
    using writes_int64_bytes [of "Suc (int64_start v 7)" "Suc d" v] False by (simp add: der_int_def)
  moreover have "length (der_int v) \<le> 0xfffffffe" using False by (simp add: der_int_def)
  ultimately show ?thesis using False by (simp add: CBB_add_asn1_int64_def writes_asn1)
qed

lemma load_le64_eq: "length bs = 8 \<Longrightarrow> load_le64 bs = of_nat (be_nat (rev bs))"
  using foldl_shl8_or_be_nat [of "rev bs"] by (simp add: load_le64_def foldr_conv_foldl)

lemma length_der_uint_le_8: "n < 2 ^ 63 \<Longrightarrow> length (der_uint n) \<le> 8"
proof (rule ccontr)
  assume n: "n < 2 ^ 63" and "\<not> length (der_uint n) \<le> 8"
  then have l: "length (der_uint n) = 9" using length_der_uint [of n] by simp
  then obtain b t where eq: "dropWhile (\<lambda>b. b = 0) (be_bytes 8 n) = b # t" and top: "b AND 0x80 \<noteq> 0"
    and t: "length t = 7"
    using length_dropWhile_le [of "\<lambda>b. b = 0" "be_bytes 8 n"]
    by (auto simp: der_uint_def minimal_def split: list.splits if_splits)
  have "128 * 256 ^ 7 \<le> unat b * 256 ^ 7"
    using top and_80_zero_iff [of b] by (intro mult_le_mono1) simp
  also have "\<dots> \<le> be_nat (b # t)" using t by simp
  also have "be_nat (b # t) = n"
    using be_nat_dropWhile [of "be_bytes 8 n"] eq n by (simp add: be_nat_be_bytes)
  finally show False using n by simp
qed

text \<open>The value that the reader of \<open>CBS_get_asn1_int64\<close> assembles from at most eight octets.\<close>

definition sign_extended :: "byte list \<Rightarrow> u64" where
  "sign_extended data =
     of_nat (be_nat (replicate (8 - length data) (if hd data AND 0x80 \<noteq> 0 then 0xff else 0) @ data))"

lemma int64_reader_value:
  assumes "data \<noteq> []" and "length data \<le> 8"
  shows "load_le64 (map (\<lambda>i. if i < length data then data ! (length data - i - 1)
      else replicate 8 (if data ! 0 AND 0x80 \<noteq> 0 then 0xff else 0) ! i) [0..<8]) = sign_extended data"
proof -
  let ?f = "if hd data AND 0x80 \<noteq> 0 then 0xff else 0 :: byte"
  have "map (\<lambda>i. if i < length data then data ! (length data - i - 1)
      else replicate 8 (if data ! 0 AND 0x80 \<noteq> 0 then 0xff else 0) ! i) [0..<8] =
    rev (replicate (8 - length data) ?f @ data)"
    using assms by (intro nth_equalityI) (auto simp: nth_append rev_nth hd_conv_nth)
  then show ?thesis
    using assms(2) by (simp only: sign_extended_def) (subst load_le64_eq, simp_all)
qed

definition shortest_int :: "byte list \<Rightarrow> bool" where
  "shortest_int data \<longleftrightarrow> data \<noteq> [] \<and> length data \<le> 8 \<and>
     \<not> (1 < length data \<and> data ! 0 = 0 \<and> data ! 1 AND 0x80 = 0) \<and>
     \<not> (1 < length data \<and> data ! 0 = 0xff \<and> data ! 1 AND 0x80 \<noteq> 0)"

lemma CBS_get_asn1_int64_iff:
  "CBS_get_asn1_int64 s = (Some v, r) \<longleftrightarrow>
    (\<exists>data. s = der_element CBS_ASN1_INTEGER data @ r \<and> shortest_int data \<and> v = sign_extended data)"
proof -
  have "CBS_get_asn1_int64 s = (Some v, r) \<longleftrightarrow>
    (\<exists>data. CBS_get_asn1 CBS_ASN1_INTEGER s = (Some data, r) \<and> shortest_int data \<and> v = sign_extended data)"
    (is "?L \<longleftrightarrow> ?R")
  proof (cases "CBS_get_asn1 CBS_ASN1_INTEGER s")
    case (Pair o1 t)
    show ?thesis
    proof (cases o1)
      case None
      with Pair show ?thesis by (simp add: CBS_get_asn1_int64_def and_then_def)
    next
      case (Some data)
      with Pair int64_reader_value [of data] show ?thesis
        by (auto simp: CBS_get_asn1_int64_def and_then_def CBS_len_def Let_def shortest_int_def)
    qed
  qed
  moreover have "length data < 2 ^ 32" if "shortest_int data" for data
    using that by (simp add: shortest_int_def)
  ultimately show ?thesis unfolding CBS_get_asn1_iff by blast
qed

lemma sign_extended_nonneg:
  assumes "data \<noteq> []" and "length data \<le> 8" and "unat (hd data) < 128"
  shows "unat (sign_extended data) = be_nat data" and "be_nat data < 2 ^ 63"
proof -
  obtain b t where d: "data = b # t" using assms(1) by (cases data) auto
  have "be_nat data < (unat b + 1) * 256 ^ length t"
    using be_nat_less [of t] by (simp add: d algebra_simps)
  also have "\<dots> \<le> 128 * 256 ^ 7"
    using assms d by (intro mult_mono power_increasing) simp_all
  finally show lt: "be_nat data < 2 ^ 63" by simp
  have "hd data AND 0x80 = 0" using assms(3) by (simp only: and_80_zero_iff)
  then show "unat (sign_extended data) = be_nat data"
    using lt by (simp add: sign_extended_def be_nat_replicate_0 unat_of_nat_small)
qed

lemma be_bytes_sign_extended:
  assumes "length data \<le> 8"
  shows "be_bytes 8 (unat (sign_extended data)) =
    replicate (8 - length data) (if hd data AND 0x80 \<noteq> 0 then 0xff else 0) @ data"
proof -
  let ?bs = "replicate (8 - length data) (if hd data AND 0x80 \<noteq> 0 then 0xff else 0) @ data"
  have l: "length ?bs = 8" using assms by simp
  then have "be_nat ?bs < 2 ^ 64" using be_nat_less [of ?bs] by simp
  then have "unat (sign_extended data) = be_nat ?bs"
    by (simp add: sign_extended_def unat_of_nat_small)
  with be_bytes_be_nat [of ?bs] l show ?thesis by simp
qed

lemma sign_extended_inverse:
  assumes "sign_extended data = v" and "data \<noteq> []" and "length data \<le> 8" and "i < length data"
  shows "int64_byte v i = data ! (length data - 1 - i)"
proof -
  have "7 - i < 8" "\<not> 7 - i < 8 - length data" "7 - i - (8 - length data) = length data - 1 - i" "7 - (7 - i) = i"
    using assms(3,4) by auto
  then show ?thesis
    using nth_be_bytes_8 [of "7 - i" v] be_bytes_sign_extended [OF assms(3)] assms(1)
    by (simp add: nth_append)
qed

lemma sign_extended_above:
  assumes "sign_extended data = v" and "length data \<le> 8" and "length data \<le> i" and "i < 8"
  shows "int64_byte v i = (if hd data AND 0x80 \<noteq> 0 then 0xff else 0)"
proof -
  have "7 - i < 8" "7 - i < 8 - length data" "7 - (7 - i) = i"
    using assms(2-4) by auto
  then show ?thesis
    using nth_be_bytes_8 [of "7 - i" v] be_bytes_sign_extended [OF assms(2)] assms(1)
    by (simp add: nth_append)
qed

lemma sign_extended_negative:
  assumes "data \<noteq> []" and "length data \<le> 8"
  shows "sint (sign_extended data) < 0 \<longleftrightarrow> hd data AND 0x80 \<noteq> 0"
proof (cases "length data = 8")
  case True
  then show ?thesis
    using sign_extended_inverse [of data _ 7] assms by (simp add: sint_negative_iff hd_conv_nth)
next
  case False
  then show ?thesis
    using sign_extended_above [of data _ 7] assms by (simp add: sint_negative_iff)
qed

lemma der_int_sign_extended:
  assumes "shortest_int data"
  shows "der_int (sign_extended data) = data"
proof -
  let ?v = "sign_extended data" and ?n = "length data"
  from assms have ne: "data \<noteq> []" and le: "?n \<le> 8" by (simp_all add: shortest_int_def)
  show ?thesis
  proof (cases "hd data AND 0x80 = 0")
    case True
    then have h: "unat (hd data) < 128" by (simp only: and_80_zero_iff)
    note val = sign_extended_nonneg [OF ne le h]
    have "shortest_uint data"
      using assms h ne by (auto simp: shortest_int_def shortest_uint_def and_80_zero_iff)
    with val have "der_uint (unat ?v) = data" by (simp add: der_uint_be_nat)
    then show ?thesis using True sign_extended_negative [OF ne le] by (simp add: der_int_def)
  next
    case False
    have "sign_octets_end ?v 7 (?n - 1)"
      unfolding sign_octets_end_def
    proof (intro conjI allI impI)
      show "?n - 1 \<le> 7" using le by simp
    next
      fix j
      assume j: "?n - 1 < j \<and> j \<le> 7"
      show "int64_byte ?v j = 0xff"
        using j ne False by (subst sign_extended_above [OF refl le]) auto
      show "int64_byte ?v (j - 1) AND 0x80 \<noteq> 0"
      proof (cases "j = ?n")
        case True
        then show ?thesis
          using False ne le by (subst sign_extended_inverse [OF refl ne le]) (auto simp: hd_conv_nth)
      next
        case False
        then show ?thesis
          using j ne \<open>hd data AND 0x80 \<noteq> 0\<close> by (subst sign_extended_above [OF refl le]) auto
      qed
    next
      assume n: "0 < ?n - 1"
      have "int64_byte ?v (?n - 1) = data ! 0" and "int64_byte ?v (?n - 1 - 1) = data ! 1"
        using n by (simp_all add: sign_extended_inverse [OF refl ne le])
      then show "\<not> (int64_byte ?v (?n - 1) = 0xff \<and> int64_byte ?v (?n - 1 - 1) AND 0x80 \<noteq> 0)"
        using assms n by (auto simp: shortest_int_def)
    qed
    then have "int64_start ?v 7 = ?n - 1" by (simp only: int64_start_iff)
    moreover have "7 - (?n - 1) = 8 - ?n" using ne le by (cases data) auto
    ultimately show ?thesis
      using False sign_extended_negative [OF ne le] be_bytes_sign_extended [OF le]
      by (simp add: der_int_def)
  qed
qed

lemma der_int_nonneg:
  assumes "0 \<le> sint v"
  shows "shortest_int (der_int v) \<and> sign_extended (der_int v) = v"
proof -
  have "\<not> bit v 63" using assms bit_last_iff [of v] by simp
  then have "take_bit 63 v = v"
  proof (intro bit_word_eqI)
    fix n
    assume "n < LENGTH(64)"
    then have "n < 63 \<or> n = 63" by auto
    with \<open>\<not> bit v 63\<close> show "bit (take_bit 63 v) n \<longleftrightarrow> bit v n" by (auto simp: bit_take_bit_iff)
  qed
  then have lt: "unat v < 2 ^ 63"
    by (metis take_bit_nat_less_exp unsigned_take_bit_eq)
  let ?d = "der_uint (unat v)"
  have sh: "shortest_uint ?d" unfolding der_uint_def by (rule shortest_minimal)
  have le: "length ?d \<le> 8" by (rule length_der_uint_le_8 [OF lt])
  have "shortest_int ?d"
    using sh le by (cases ?d) (auto simp: shortest_uint_def shortest_int_def and_80_zero_iff)
  moreover have "unat (sign_extended ?d) = unat v"
    using sh le lt sign_extended_nonneg(1) [of ?d] by (simp add: shortest_uint_def be_nat_der_uint)
  ultimately show ?thesis using assms by (simp add: der_int_def word_unat_eq_iff)
qed

lemma der_int_negative:
  assumes "sint v < 0"
  shows "shortest_int (der_int v) \<and> sign_extended (der_int v) = v"
proof -
  define st where "st = int64_start v 7"
  then have st: "sign_octets_end v 7 st" using int64_start_iff by blast
  then have le: "st \<le> 7" by (simp add: sign_octets_end_def)
  define bs where "bs = be_bytes 8 (unat v)"
  have len: "length bs = 8" by (simp add: bs_def)
  have nth: "bs ! i = int64_byte v (7 - i)" if "i < 8" for i
    using that by (simp add: bs_def nth_be_bytes_8)
  have d: "der_int v = drop (7 - st) bs" using assms by (simp add: der_int_def st_def bs_def)
  have hd: "hd (der_int v) = int64_byte v st"
    using le nth [of "7 - st"] len by (simp add: d hd_drop_conv_nth)
  have top: "int64_byte v st AND 0x80 \<noteq> 0"
  proof (cases "st = 7")
    case True
    with assms show ?thesis by (simp add: sint_negative_iff)
  next
    case False
    with le have "st < Suc st \<and> Suc st \<le> 7" by simp
    with st have "int64_byte v (Suc st - 1) AND 0x80 \<noteq> 0"
      unfolding sign_octets_end_def by blast
    then show ?thesis by simp
  qed
  have "shortest_int (der_int v)"
  proof -
    have "der_int v ! 1 = int64_byte v (st - 1)" if "0 < st"
      using le that nth [of "8 - st"] len by (simp add: d Suc_diff_le [symmetric])
    moreover have "der_int v ! 0 = int64_byte v st"
      using le nth [of "7 - st"] len by (simp add: d)
    moreover have "length (der_int v) = Suc st" using le len by (simp add: d)
    ultimately show ?thesis
      using st le top by (auto simp: shortest_int_def sign_octets_end_def)
  qed
  have "replicate (8 - length (der_int v)) 0xff @ der_int v = bs"
  proof (rule nth_equalityI)
    show "length (replicate (8 - length (der_int v)) 0xff @ der_int v) = length bs"
      using le len by (simp add: d)
  next
    fix i
    assume "i < length (replicate (8 - length (der_int v)) 0xff @ der_int v)"
    then have i: "i < 8" using le len by (simp add: d)
    show "(replicate (8 - length (der_int v)) 0xff @ der_int v) ! i = bs ! i"
    proof (cases "i < 7 - st")
      case True
      then have "st < 7 - i \<and> 7 - i \<le> 7" by simp
      with st have "int64_byte v (7 - i) = 0xff" unfolding sign_octets_end_def by blast
      with True i le len show ?thesis by (simp add: d nth_append nth)
    next
      case False
      with i le len show ?thesis by (simp add: d nth_append)
    qed
  qed
  moreover have "unat v < 2 ^ 64" using unsigned_less [of v] by simp
  ultimately have sx: "sign_extended (der_int v) = v"
    using top by (simp add: sign_extended_def hd bs_def be_nat_be_bytes)
  with \<open>shortest_int (der_int v)\<close> show ?thesis by simp
qed

lemma der_int_value: "shortest_int (der_int v)" "sign_extended (der_int v) = v"
  using der_int_nonneg [of v] der_int_negative [of v] by linarith+

theorem asn1_int64_iff:
  "CBS_get_asn1_int64 s = (Some v, r) \<longleftrightarrow> s = der_element CBS_ASN1_INTEGER (der_int v) @ r"
  unfolding CBS_get_asn1_int64_iff using der_int_value [of v] der_int_sign_extended by metis

section \<open>Octet strings and booleans\<close>

lemma writes_asn1_octet_string:
  "length data \<le> 0xfffffffe \<Longrightarrow>
   writes d (CBB_add_asn1_octet_string d data) (der_element CBS_ASN1_OCTETSTRING data)"
  unfolding CBB_add_asn1_octet_string_def by (intro writes_asn1 writes_bytes)

lemma writes_asn1_bool:
  "writes d (CBB_add_asn1_bool d v) (der_element CBS_ASN1_BOOLEAN [if v \<noteq> 0 then 0xff else 0])"
  unfolding CBB_add_asn1_bool_def by (intro writes_asn1 writes_u8) simp

lemma CBS_get_asn1_bool_iff:
  "CBS_get_asn1_bool s = (Some v, r) \<longleftrightarrow> s = der_element CBS_ASN1_BOOLEAN [if v then 0xff else 0] @ r"
proof -
  have "CBS_get_asn1_bool s = (Some v, r) \<longleftrightarrow>
    (\<exists>bytes. CBS_get_asn1 CBS_ASN1_BOOLEAN s = (Some bytes, r) \<and> bytes = [if v then 0xff else 0])"
    by (auto simp: CBS_get_asn1_bool_def and_then_def CBS_len_def Let_def length_Suc_conv
        split: prod.splits option.splits if_splits)
  then show ?thesis by (auto simp: CBS_get_asn1_iff)
qed

text \<open>A whole builder run: \<open>CBB_init\<close>, one operation, \<open>CBB_finish\<close>.\<close>

definition build :: "(cbb, unit) oper \<Rightarrow> byte list option" where
  "build m = fst (and_then m (\<lambda>_. CBB_finish 0 True) (snd (CBB_init (\<lambda>_. True) True 0)))"

lemma build_writes: "writes 0 m xs \<Longrightarrow> length xs + 4 < 2 ^ 64 \<Longrightarrow> build m = Some xs"
  using finish_writes [of m xs 0] by (auto simp: build_def and_then_def)

end
