(* ===== verification/Asn1_Oids.thy ===== *)
theory Asn1_Oids
  imports Asn1_Values
begin

text \<open>
  Object identifiers: the writer \<open>CBB_add_asn1_oid_from_text\<close> of \<open>cbb.c\<close>, which reads the
  dotted-decimal form, and the printer \<open>CBS_asn1_oid_to_text\<close> of \<open>cbs.c\<close>.  The lemmas relate
  both to the list of components of the OID.
\<close>

section \<open>Object identifiers\<close>

text \<open>Text is a list of ASCII bytes: \<open>46\<close> is the dot and \<open>48\<close> the digit zero.\<close>

fun dotted_loop :: "u64 \<Rightarrow> bool \<Rightarrow> (cbs, u64) oper" where
  "dotted_loop out seen_digit [] = (if seen_digit then Some out else None, [])"
| "dotted_loop out seen_digit (u # cbs) =
     (if u = 46 \<and> CBS_len cbs > 0 then (if seen_digit then Some out else None, cbs)
      else if u < 48 \<or> u > 57 \<or> (seen_digit \<and> out = 0) \<or> out > (- 1) div 10 \<or>
              out * 10 > - 1 - ucast (u - 48) then (None, cbs)
      else dotted_loop (out * 10 + ucast (u - 48)) True cbs)"

definition parse_dotted_decimal :: "(cbs, u64) oper" where
  "parse_dotted_decimal = dotted_loop 0 False"

lemma dotted_loop_length: "length (snd (dotted_loop out seen s)) \<le> length s"
  by (induction out seen s rule: dotted_loop.induct) auto

lemma parse_dotted_decimal_shorter:
  assumes "parse_dotted_decimal s = (Some a, r)" and "s \<noteq> []"
  shows "length r < length s"
proof (cases s)
  case (Cons u t)
  have "length (snd (dotted_loop out seen (u # t))) \<le> length t" for out seen
    using dotted_loop_length [of "out * 10 + ucast (u - 48)" True t] by auto
  from this [of 0 False] assms(1) Cons show ?thesis
    by (simp add: parse_dotted_decimal_def del: dotted_loop.simps)
qed (use assms in simp)

function oid_from_text_loop :: "nat \<Rightarrow> cbs \<Rightarrow> (cbb, unit) oper" where
  "oid_from_text_loop d cbs =
     (if cbs = [] then ok ()
      else case parse_dotted_decimal cbs of
          (None, _) \<Rightarrow> fail
        | (Some a, cbs') \<Rightarrow> and_then (add_base128_integer d a) (\<lambda>_. oid_from_text_loop d cbs'))"
  by pat_completeness auto
termination
  by (relation "measure (\<lambda>(d, cbs). length cbs)")
    (auto dest: parse_dotted_decimal_shorter [OF sym])

declare oid_from_text_loop.simps [simp del]

definition CBB_add_asn1_oid_from_text :: "nat \<Rightarrow> byte list \<Rightarrow> (cbb, unit) oper" where
  "CBB_add_asn1_oid_from_text d text =
     and_then (CBB_flush d) (\<lambda>_.
       case parse_dotted_decimal text of (None, _) \<Rightarrow> fail
       | (Some a, cbs) \<Rightarrow>
         (case parse_dotted_decimal cbs of (None, _) \<Rightarrow> fail
          | (Some b, cbs) \<Rightarrow>
            if a > 2 \<or> (a < 2 \<and> b > 39) \<or> b > - 1 - 80 then fail
            else and_then (add_base128_integer d (40 * a + b)) (\<lambda>_. oid_from_text_loop d cbs)))"

text \<open>\<open>decimal\<close> is what \<open>BIO_snprintf\<close> prints for the format \<open>PRIu64\<close>.\<close>

fun decimal :: "nat \<Rightarrow> byte list" where
  "decimal n = (if n < 10 then [of_nat (48 + n)] else decimal (n div 10) @ [of_nat (48 + n mod 10)])"

declare decimal.simps [simp del]

definition add_decimal :: "nat \<Rightarrow> u64 \<Rightarrow> (cbb, unit) oper" where
  "add_decimal d v = CBB_add_bytes d (decimal (unat v))"

lemma parse_base128_shorter:
  assumes "parse_base128_integer s = (Some v, r)"
  shows "length r < length s"
  using assms by (simp only: parse_base128_iff) (simp add: b128_def)

function oid_to_text_loop :: "cbs \<Rightarrow> (cbb, unit) oper" where
  "oid_to_text_loop copy =
     (if CBS_len copy = 0 then ok ()
      else case parse_base128_integer copy of
          (None, _) \<Rightarrow> fail
        | (Some v, copy') \<Rightarrow>
            and_then (CBB_add_u8 0 46) (\<lambda>_. and_then (add_decimal 0 v) (\<lambda>_. oid_to_text_loop copy')))"
  by pat_completeness auto
termination
  by (relation "measure length") (auto dest: parse_base128_shorter [OF sym])

declare oid_to_text_loop.simps [simp del]

definition oid_to_text_body :: "cbs \<Rightarrow> (cbb, unit) oper" where
  "oid_to_text_body cbs =
     (case parse_base128_integer cbs of (None, _) \<Rightarrow> fail
      | (Some v, copy) \<Rightarrow>
        and_then
          (if v \<ge> 80 then and_then (CBB_add_bytes 0 [50, 46]) (\<lambda>_. add_decimal 0 (v - 80))
           else and_then (add_decimal 0 (v div 40)) (\<lambda>_.
                and_then (CBB_add_u8 0 46) (\<lambda>_. add_decimal 0 (v mod 40))))
          (\<lambda>_. and_then (oid_to_text_loop copy) (\<lambda>_. CBB_add_u8 0 0)))"

definition CBS_asn1_oid_to_text :: "(nat \<Rightarrow> bool) \<Rightarrow> bool \<Rightarrow> cbs \<Rightarrow> byte list option" where
  "CBS_asn1_oid_to_text mem malloc_base cbs =
     (case CBB_init mem malloc_base 32 of
        (False, _) \<Rightarrow> None
      | (True, cbb) \<Rightarrow>
          fst (and_then (oid_to_text_body cbs) (\<lambda>_. CBB_finish 0 True) cbb))"

section \<open>Decimal numbers\<close>

text \<open>
  \<open>dotted a r\<close>: the component \<open>a\<close> in decimal, followed by a dot and the rest unless that is
  empty.
\<close>

definition dotted :: "nat \<Rightarrow> byte list \<Rightarrow> byte list" where
  "dotted a r = decimal a @ (if r = [] then [] else 46 # r)"

lemma decimal_digit: "n < 10 \<Longrightarrow> decimal n = [of_nat (48 + n)]"
  by (simp add: decimal.simps)

lemma decimal_step: "0 < n \<Longrightarrow> d < 10 \<Longrightarrow> decimal (10 * n + d) = decimal n @ [of_nat (48 + d)]"
  by (subst decimal.simps) simp

lemma decimal_not_Nil: "decimal n \<noteq> []"
  by (subst decimal.simps) simp

lemma digit_step:
  fixes u :: byte and out :: u64
  assumes "48 \<le> unat u" and "unat u \<le> 57"
  defines "d \<equiv> unat u - 48"
  shows "out > (- 1) div 10 \<or> out * 10 > - 1 - ucast (u - 48) \<longleftrightarrow> 2 ^ 64 \<le> 10 * unat out + d"
    and "10 * unat out + d < 2 ^ 64 \<Longrightarrow> unat (out * 10 + ucast (u - 48)) = 10 * unat out + d"
proof -
  have "unat (u - 48) = d"
    using assms(1) by (simp add: d_def unat_sub word_le_nat_alt)
  moreover have d10: "d < 10" using assms by simp
  ultimately have ud: "unat (ucast (u - 48) :: u64) = d"
    by (simp add: unsigned_ucast_eq take_bit_nat_eq_self_iff)
  have m1: "unat (- 1 :: u64) = 2 ^ 64 - 1" by (simp add: unsigned_minus_1_eq_mask mask_eq_exp_minus_1)
  have "unat ((- 1 :: u64) div 10) = (2 ^ 64 - 1) div 10"
    by (simp only: unat_div m1) simp
  then have c1: "out > (- 1) div 10 \<longleftrightarrow> (2 ^ 64 - 1) div 10 < unat out"
    by (simp only: word_less_nat_alt)
  have "(ucast (u - 48) :: u64) \<le> - 1" by simp
  then have "unat (- 1 - ucast (u - 48) :: u64) = 2 ^ 64 - 1 - d"
    using ud m1 by (simp only: unat_sub)
  then have c2: "out * 10 > - 1 - ucast (u - 48) \<longleftrightarrow> 2 ^ 64 - 1 - d < unat (out * 10)"
    by (simp only: word_less_nat_alt)
  have mul: "unat (out * 10) = 10 * unat out" if "unat out \<le> (2 ^ 64 - 1) div 10"
  proof -
    have "unat out * 10 < 2 ^ 64" using that by simp
    then show ?thesis by (simp add: unat_word_ariths)
  qed
  show "out > (- 1) div 10 \<or> out * 10 > - 1 - ucast (u - 48) \<longleftrightarrow> 2 ^ 64 \<le> 10 * unat out + d"
  proof (cases "unat out \<le> (2 ^ 64 - 1) div 10")
    case True
    then show ?thesis using c1 c2 mul [OF True] d10 by auto
  next
    case False
    then have "2 ^ 64 \<le> 10 * unat out + d" by simp
    with False c1 show ?thesis by simp
  qed
  assume lt: "10 * unat out + d < 2 ^ 64"
  then have "unat out \<le> (2 ^ 64 - 1) div 10" by simp
  from mul [OF this] ud lt show "unat (out * 10 + ucast (u - 48)) = 10 * unat out + d"
    by (simp add: unat_word_ariths)
qed

lemma dotted_loop_digit:
  assumes "48 \<le> unat (u :: byte)" and "unat u \<le> 57"
  shows "dotted_loop out seen (u # s) =
    (if seen \<and> unat out = 0 \<or> 2 ^ 64 \<le> 10 * unat out + (unat u - 48) then (None, s)
     else dotted_loop (of_nat (10 * unat out + (unat u - 48))) True s)"
proof -
  have "u \<noteq> 46" using assms by auto
  moreover have "\<not> (u < 48 \<or> u > 57)" using assms by (simp add: word_less_nat_alt)
  moreover have "10 * unat out + (unat u - 48) < 2 ^ 64 \<Longrightarrow>
      out * 10 + ucast (u - 48) = of_nat (10 * unat out + (unat u - 48))"
    using digit_step(2) [OF assms, of out] by (intro word_eq_of_natI) simp
  ultimately show ?thesis
    using digit_step(1) [OF assms, of out]
    by (auto simp: unat_eq_zero not_le simp del: of_nat_add of_nat_mult of_nat_unat)
qed

lemma dotted_loop_sound:
  "dotted_loop out seen s = (Some a, r) \<Longrightarrow> (\<not> seen \<Longrightarrow> out = 0) \<Longrightarrow>
   (if seen then decimal (unat out) else []) @ s = dotted (unat a) r"
proof (induction out seen s rule: dotted_loop.induct)
  case (1 out seen)
  then show ?case by (simp add: dotted_def split: if_splits)
next
  case (2 out seen u s)
  show ?case
  proof (cases "u = 46 \<and> CBS_len s > 0")
    case True
    with "2.prems" show ?thesis by (auto simp: dotted_def CBS_len_def split: if_splits)
  next
    case False
    let ?n = "10 * unat out + (unat u - 48)"
    from False "2.prems"(1) have u: "48 \<le> unat u" "unat u \<le> 57"
      by (auto simp: word_less_nat_alt not_less split: if_splits)
    with "2.prems"(1) have nz: "seen \<longrightarrow> 0 < unat out" and lt: "?n < 2 ^ 64"
      and rec: "dotted_loop (of_nat ?n) True s = (Some a, r)"
      by (simp_all only: dotted_loop_digit split: if_splits) auto
    have of: "out * 10 + ucast (u - 48) = of_nat ?n"
      using digit_step(2) [OF u lt] by (intro word_eq_of_natI) simp
    have IH: "decimal ?n @ s = dotted (unat a) r"
      using "2.IH" [OF False] "2.prems"(1) False rec lt unfolding of
      by (auto simp: unat_of_nat_small simp del: of_nat_add of_nat_mult of_nat_unat split: if_splits)
    have u': "of_nat (48 + (unat u - 48)) = u"
      using u by (metis le_add_diff_inverse word_eq_of_natI)
    have "decimal ?n = (if seen then decimal (unat out) else []) @ [u]"
      using decimal_step [of "unat out" "unat u - 48"] decimal_digit [of "unat u - 48"] nz u u' "2.prems"(2)
      by (cases seen) (simp_all del: of_nat_add)
    with IH show ?thesis by simp
  qed
qed

lemma dotted_loop_decimal:
  "n < 2 ^ 64 \<Longrightarrow> dotted_loop 0 False (decimal n @ t) = dotted_loop (of_nat n) True t"
proof (induction n arbitrary: t rule: decimal.induct)
  case (1 n)
  let ?u = "of_nat (48 + n mod 10) :: byte"
  have u: "unat ?u = 48 + n mod 10" by (rule unat_of_nat_small) (simp add: trans_less_add2)
  then have digit: "48 \<le> unat ?u" "unat ?u \<le> 57" by simp_all
  show ?case
  proof (cases "n < 10")
    case True
    then have "decimal n = [?u]" by (simp add: decimal_digit del: of_nat_add)
    then show ?thesis
      using dotted_loop_digit [OF digit, of 0 False t] u True by (simp del: of_nat_add dotted_loop.simps)
  next
    case False
    then have d: "decimal n = decimal (n div 10) @ [?u]" by (subst decimal.simps) simp
    have q: "n div 10 < 2 ^ 64" using "1.prems" by simp
    then have uq: "unat (of_nat (n div 10) :: u64) = n div 10" by (intro unat_of_nat_small) simp
    have "dotted_loop 0 False (decimal n @ t) = dotted_loop (of_nat (n div 10)) True (?u # t)"
      using "1.IH" [OF False q, of "?u # t"] by (simp add: d del: of_nat_add dotted_loop.simps)
    also have "\<dots> = dotted_loop (of_nat n) True t"
      using dotted_loop_digit [OF digit, of "of_nat (n div 10)" True t] u uq False "1.prems"
        div_eq_0_iff [of n 10]
      by (simp del: of_nat_add dotted_loop.simps)
    finally show ?thesis .
  qed
qed

lemma parse_dotted_decimal_iff: "parse_dotted_decimal s = (Some a, r) \<longleftrightarrow> s = dotted (unat a) r"
proof
  assume "parse_dotted_decimal s = (Some a, r)"
  then show "s = dotted (unat a) r"
    using dotted_loop_sound [of 0 False s a r] by (simp add: parse_dotted_decimal_def)
next
  assume s: "s = dotted (unat a) r"
  have "unat a < 2 ^ 64" using unsigned_less [of a] by simp
  from dotted_loop_decimal [OF this, of "if r = [] then [] else 46 # r"] s
  show "parse_dotted_decimal s = (Some a, r)"
    by (cases r) (simp_all add: parse_dotted_decimal_def dotted_def CBS_len_def)
qed

section \<open>Object identifiers as component lists\<close>

fun oid_text :: "nat list \<Rightarrow> byte list" where
  "oid_text [] = []"
| "oid_text (a # cs) = dotted a (oid_text cs)"

definition oid_der :: "nat list \<Rightarrow> byte list" where
  "oid_der comps = b128 (40 * comps ! 0 + comps ! 1) @ concat (map b128 (drop 2 comps))"

text \<open>The components that fit the reader and the writer.\<close>

definition valid_oid :: "nat list \<Rightarrow> bool" where
  "valid_oid comps \<longleftrightarrow> 2 \<le> length comps \<and> (\<forall>c\<in>set comps. c < 2 ^ 64) \<and>
     comps ! 0 \<le> 2 \<and> (comps ! 0 < 2 \<longrightarrow> comps ! 1 < 40) \<and> comps ! 1 < 2 ^ 64 - 80"

lemma oid_text_Nil_iff [simp]: "oid_text cs = [] \<longleftrightarrow> cs = []"
  by (cases cs) (auto simp: dotted_def decimal_not_Nil)

lemma u64_of_nat [simp]: "n < 2 ^ 64 \<Longrightarrow> unat (of_nat n :: u64) = n"
  by (rule unat_of_nat_small) simp

text \<open>The writer.\<close>

lemma writes_oid_tail:
  "\<forall>c\<in>set cs. c < 2 ^ 64 \<Longrightarrow> writes d (oid_from_text_loop d (oid_text cs)) (concat (map b128 cs))"
proof (induction cs)
  case (Cons c cs)
  then have "parse_dotted_decimal (oid_text (c # cs)) = (Some (of_nat c), oid_text cs)"
    by (simp add: parse_dotted_decimal_iff)
  then have "oid_from_text_loop d (oid_text (c # cs)) =
      and_then (add_base128_integer d (of_nat c)) (\<lambda>_. oid_from_text_loop d (oid_text cs))"
    by (subst oid_from_text_loop.simps) (simp add: dotted_def decimal_not_Nil)
  moreover have "writes d (add_base128_integer d (of_nat c)) (b128 c)"
    using writes_base128 [of d "of_nat c"] Cons.prems by simp
  ultimately show ?case using Cons by auto
qed (simp add: oid_from_text_loop.simps writes_ok)

lemma valid_oidE:
  assumes "valid_oid comps"
  obtains a b cs where "comps = a # b # cs" and "a \<le> 2" and "a < 2 \<longrightarrow> b < 40" and "b < 2 ^ 64 - 80"
    and "\<forall>c\<in>set cs. c < 2 ^ 64"
proof (cases comps)
  case (Cons a t)
  with assms show ?thesis by (cases t) (auto simp: valid_oid_def intro: that)
qed (use assms in \<open>simp add: valid_oid_def\<close>)

lemma from_text_guard:
  assumes "a < 2 ^ 64" and "b < 2 ^ 64"
  shows "((of_nat a :: u64) > 2 \<or> ((of_nat a :: u64) < 2 \<and> (of_nat b :: u64) > 39) \<or> (of_nat b :: u64) > - 1 - 80) \<longleftrightarrow>
    \<not> (a \<le> 2 \<and> (a < 2 \<longrightarrow> b < 40) \<and> b < 2 ^ 64 - 80)"
proof -
  have "unat (- 1 - 80 :: u64) = 2 ^ 64 - 81" by simp
  then show ?thesis using assms by (auto simp: word_less_nat_alt)
qed

lemma writes_oid_from_text:
  assumes "valid_oid comps"
  shows "writes d (CBB_add_asn1_oid_from_text d (oid_text comps)) (oid_der comps)"
proof -
  from assms obtain a b cs where c: "comps = a # b # cs" and v: "a \<le> 2" "a < 2 \<longrightarrow> b < 40"
    "b < 2 ^ 64 - 80" "\<forall>c\<in>set cs. c < 2 ^ 64" by (rule valid_oidE)
  then have small: "a < 2 ^ 64" "b < 2 ^ 64" "40 * a + b < 2 ^ 64" by simp_all
  have p: "parse_dotted_decimal (oid_text comps) = (Some (of_nat a), oid_text (b # cs))"
    "parse_dotted_decimal (oid_text (b # cs)) = (Some (of_nat b), oid_text cs)"
    using small by (simp_all add: c parse_dotted_decimal_iff del: oid_text.simps(2)) simp_all
  have sum: "(40 * of_nat a + of_nat b :: u64) = of_nat (40 * a + b)" by simp
  have guard: "((of_nat a :: u64) > 2 \<or> ((of_nat a :: u64) < 2 \<and> (of_nat b :: u64) > 39) \<or> (of_nat b :: u64) > - 1 - 80) = False"
    unfolding from_text_guard [OF small(1,2)] using v by simp
  have "CBB_add_asn1_oid_from_text d (oid_text comps) = and_then (CBB_flush d) (\<lambda>_.
      and_then (add_base128_integer d (of_nat (40 * a + b))) (\<lambda>_. oid_from_text_loop d (oid_text cs)))"
    by (simp only: CBB_add_asn1_oid_from_text_def p option.case prod.case guard sum if_False)
  moreover have "writes d (add_base128_integer d (of_nat (40 * a + b))) (b128 (40 * a + b))"
    using writes_base128 [of d "of_nat (40 * a + b)"] small by (simp del: of_nat_add of_nat_mult)
  moreover have "oid_der comps = [] @ b128 (40 * a + b) @ concat (map b128 cs)"
    by (simp add: oid_der_def c)
  ultimately show ?thesis
    using writes_oid_tail [OF v(4)] by (simp only:) (intro writes_seq writes_flush)
qed

text \<open>The printer.\<close>

lemma oid_text_eq: "oid_text (a # cs) = decimal a @ concat (map (\<lambda>c. 46 # decimal c) cs)"
proof (induction cs arbitrary: a)
  case (Cons b cs)
  have "oid_text (a # b # cs) = decimal a @ 46 # oid_text (b # cs)"
    by (simp add: dotted_def decimal_not_Nil)
  with Cons show ?case by (simp del: oid_text.simps)
qed (simp add: dotted_def)

lemma writes_decimal: "writes d (add_decimal d v) (decimal (unat v))"
  by (simp add: add_decimal_def writes_bytes)

lemma oid_to_text_loop_Cons:
  assumes "c < 2 ^ 64"
  shows "oid_to_text_loop (b128 c @ t) =
    and_then (CBB_add_u8 0 46) (\<lambda>_. and_then (add_decimal 0 (of_nat c)) (\<lambda>_. oid_to_text_loop t))"
proof -
  have "parse_base128_integer (b128 c @ t) = (Some (of_nat c), t)" by (rule parse_b128 [OF assms])
  then show ?thesis by (subst oid_to_text_loop.simps) (simp add: CBS_len_def b128_def)
qed

lemma writes_oid_to_text_loop:
  "\<forall>c\<in>set cs. c < 2 ^ 64 \<Longrightarrow>
   writes 0 (oid_to_text_loop (concat (map b128 cs))) (concat (map (\<lambda>c. 46 # decimal c) cs))"
proof (induction cs)
  case (Cons c cs)
  then have "writes 0 (add_decimal 0 (of_nat c)) (decimal c)"
    using writes_decimal [of 0 "of_nat c"] by simp
  moreover have "c < 2 ^ 64" using Cons.prems by simp
  ultimately have "writes 0 (oid_to_text_loop (b128 c @ concat (map b128 cs)))
      ([46] @ decimal c @ concat (map (\<lambda>c. 46 # decimal c) cs))"
    unfolding oid_to_text_loop_Cons [OF \<open>c < 2 ^ 64\<close>]
    using Cons by (intro writes_seq writes_u8) simp_all
  then show ?case by simp
qed (simp add: oid_to_text_loop.simps CBS_len_def writes_ok)

lemma oid_to_text_loop_sound:
  "oid_to_text_loop copy s = (Some x, s') \<Longrightarrow>
   \<exists>cs. copy = concat (map b128 cs) \<and> (\<forall>c\<in>set cs. c < 2 ^ 64)"
proof (induction copy arbitrary: s rule: oid_to_text_loop.induct)
  case (1 copy)
  show ?case
  proof (cases "copy = []")
    case True
    then show ?thesis by (intro exI [of _ "[]"]) simp
  next
    case False
    with "1.prems" obtain v r where p: "parse_base128_integer copy = (Some v, r)"
      and rest: "and_then (CBB_add_u8 0 46) (\<lambda>_. and_then (add_decimal 0 v) (\<lambda>_. oid_to_text_loop r)) s = (Some x, s')"
      by (auto simp: oid_to_text_loop.simps [of copy] CBS_len_def split: prod.splits option.splits)
    from rest obtain s1 where "oid_to_text_loop r s1 = (Some x, s')"
      by (auto elim!: and_then_eq_SomeE)
    then obtain cs where "r = concat (map b128 cs)" "\<forall>c\<in>set cs. c < 2 ^ 64"
      using "1.IH" [OF _ p [symmetric]] False by (auto simp: CBS_len_def)
    moreover have "unat v < 2 ^ 64" using unsigned_less [of v] by simp
    ultimately show ?thesis using p
      by (intro exI [of _ "unat v # cs"]) (simp add: parse_base128_iff)
  qed
qed

text \<open>The first octets hold the first two components.\<close>

definition first_two :: "nat \<Rightarrow> nat list" where
  "first_two n = (if n \<ge> 80 then [2, n - 80] else [n div 40, n mod 40])"

lemma first_two_valid:
  assumes "n < 2 ^ 64" and "\<forall>c\<in>set cs. c < 2 ^ 64"
  shows "valid_oid (first_two n @ cs)" and "oid_der (first_two n @ cs) = b128 n @ concat (map b128 cs)"
proof -
  have "n div 40 < 2 \<or> 80 \<le> n" by auto
  then show "valid_oid (first_two n @ cs)"
    using assms by (auto simp: valid_oid_def first_two_def)
  show "oid_der (first_two n @ cs) = b128 n @ concat (map b128 cs)"
    by (simp add: oid_der_def first_two_def)
qed

lemma valid_first_two:
  assumes "valid_oid comps"
  obtains n cs where "comps = first_two n @ cs" and "n < 2 ^ 64" and "\<forall>c\<in>set cs. c < 2 ^ 64"
proof -
  from assms obtain a b cs where c: "comps = a # b # cs" and v: "a \<le> 2" "a < 2 \<longrightarrow> b < 40"
    "b < 2 ^ 64 - 80" "\<forall>c\<in>set cs. c < 2 ^ 64" by (rule valid_oidE)
  have "a = 2 \<or> (a < 2 \<and> b < 40)" using v by auto
  then have "first_two (40 * a + b) = [a, b]"
    by (auto simp: first_two_def less_2_cases_iff)
  with c v show ?thesis by (intro that [of "40 * a + b" cs]) simp_all
qed

lemma writes_oid_to_text_body:
  assumes n: "n < 2 ^ 64" and cs: "\<forall>c\<in>set cs. c < 2 ^ 64"
  shows "writes 0 (oid_to_text_body (b128 n @ concat (map b128 cs))) (oid_text (first_two n @ cs) @ [0])"
proof -
  let ?v = "of_nat n :: u64"
  have v: "unat ?v = n" using n by simp
  have ge: "80 \<le> ?v \<longleftrightarrow> 80 \<le> n" by (simp add: word_le_nat_alt v)
  let ?first = "if 80 \<le> ?v then and_then (CBB_add_bytes 0 [50, 46]) (\<lambda>_. add_decimal 0 (?v - 80))
    else and_then (add_decimal 0 (?v div 40)) (\<lambda>_. and_then (CBB_add_u8 0 46) (\<lambda>_. add_decimal 0 (?v mod 40)))"
  have "writes 0 ?first (decimal (first_two n ! 0) @ 46 # decimal (first_two n ! 1))"
  proof (cases "80 \<le> n")
    case True
    then have "unat (?v - 80) = n - 80" using ge v by (simp add: unat_sub)
    then show ?thesis
      using True ge writes_seq [OF writes_bytes [of 0 "[50, 46]"] writes_decimal [of 0 "?v - 80"]]
      by (simp add: first_two_def decimal_digit)
  next
    case False
    then show ?thesis
      using ge writes_seq [OF writes_decimal [of 0 "?v div 40"]
          writes_seq [OF writes_u8 [of 0 46] writes_decimal [of 0 "?v mod 40"]]]
      by (simp add: first_two_def unat_div unat_mod v del: of_nat_unat)
  qed
  note all = writes_seq [OF this writes_seq [OF writes_oid_to_text_loop [OF cs] writes_u8 [of 0 0]]]
  have "oid_text (first_two n @ cs) @ [0] =
      (decimal (first_two n ! 0) @ 46 # decimal (first_two n ! 1)) @
      concat (map (\<lambda>c. 46 # decimal c) cs) @ [0]"
    by (simp add: first_two_def oid_text_eq del: oid_text.simps)
  then show ?thesis
    using all by (simp only: oid_to_text_body_def parse_b128 [OF n] prod.case option.case)
qed

lemma oid_to_text_body_sound:
  assumes "oid_to_text_body cbs s = (Some x, s')"
  shows "\<exists>n cs. n < 2 ^ 64 \<and> (\<forall>c\<in>set cs. c < 2 ^ 64) \<and> cbs = b128 n @ concat (map b128 cs)"
proof -
  from assms obtain v r s1 y s2 where p: "parse_base128_integer cbs = (Some v, r)"
    and l: "oid_to_text_loop r s1 = (Some y, s2)"
    by (auto simp: oid_to_text_body_def split: prod.splits option.splits elim!: and_then_eq_SomeE)
  have "unat v < 2 ^ 64" using unsigned_less [of v] by simp
  with oid_to_text_loop_sound [OF l] p show ?thesis by (auto simp: parse_base128_iff)
qed

lemma length_decimal: "n < 10 ^ Suc k \<Longrightarrow> length (decimal n) \<le> Suc k"
proof (induction k arbitrary: n)
  case 0
  then show ?case by (simp add: decimal_digit)
next
  case (Suc k)
  then have "n div 10 < 10 ^ Suc k" by (simp add: less_mult_imp_div_less mult.commute)
  with Suc.IH [of "n div 10"] show ?case by (subst decimal.simps) simp
qed

lemma length_oid_text:
  assumes "\<forall>c\<in>set cs. c < 2 ^ 64"
  shows "length (concat (map (\<lambda>c. 46 # decimal c) cs)) \<le> 21 * length (concat (map b128 cs))"
  using assms
proof (induction cs)
  case (Cons c cs)
  then have "length (decimal c) \<le> 20" using length_decimal [of c 19] by simp
  with Cons show ?case by (simp add: b128_def)
qed simp

lemma length_first_two_text:
  assumes "n < 2 ^ 64" and "\<forall>c\<in>set cs. c < 2 ^ 64"
  shows "length (oid_text (first_two n @ cs)) \<le> 42 + 21 * length (b128 n @ concat (map b128 cs))"
proof -
  have d: "length (decimal (first_two n ! 0)) \<le> 20" "length (decimal (first_two n ! 1)) \<le> 20"
    using assms(1) by (auto simp: first_two_def intro!: length_decimal [of _ 19, simplified])
  have "oid_text (first_two n @ cs) =
      (decimal (first_two n ! 0) @ 46 # decimal (first_two n ! 1)) @ concat (map (\<lambda>c. 46 # decimal c) cs)"
    by (simp add: first_two_def oid_text_eq del: oid_text.simps)
  with d length_oid_text [OF assms(2)] show ?thesis by simp
qed

lemma oid_to_text_Some:
  assumes "n < 2 ^ 64" and "\<forall>c\<in>set cs. c < 2 ^ 64" and "length (b128 n @ concat (map b128 cs)) < 2 ^ 58"
  shows "CBS_asn1_oid_to_text (\<lambda>_. True) True (b128 n @ concat (map b128 cs)) =
    Some (oid_text (first_two n @ cs) @ [0])"
proof -
  let ?t = "oid_text (first_two n @ cs) @ [0]"
  have "length ?t + 4 < 2 ^ 64" using length_first_two_text [OF assms(1,2)] assms(3) by simp
  moreover have "(32 :: nat) < 2 ^ 64" by simp
  ultimately obtain s s' s'' where "CBB_init (\<lambda>_. True) True 32 = (True, s)"
    "oid_to_text_body (b128 n @ concat (map b128 cs)) s = (Some (), s')"
    "CBB_finish 0 True s' = (Some ?t, s'')"
    using finish_writes [OF writes_oid_to_text_body [OF assms(1,2)]] by blast
  then show ?thesis by (simp add: CBS_asn1_oid_to_text_def and_then_def)
qed

theorem oid_to_text_iff:
  assumes "length cbs < 2 ^ 58"
  shows "CBS_asn1_oid_to_text (\<lambda>_. True) True cbs = Some t \<longleftrightarrow>
    (\<exists>comps. valid_oid comps \<and> cbs = oid_der comps \<and> t = oid_text comps @ [0])"
proof
  assume eq: "CBS_asn1_oid_to_text (\<lambda>_. True) True cbs = Some t"
  then obtain s x s' where "oid_to_text_body cbs s = (Some x, s')"
    by (auto simp: CBS_asn1_oid_to_text_def and_then_def split: prod.splits bool.splits option.splits)
  then obtain n cs where nc: "n < 2 ^ 64" "\<forall>c\<in>set cs. c < 2 ^ 64" and c: "cbs = b128 n @ concat (map b128 cs)"
    using oid_to_text_body_sound by blast
  with eq assms have "t = oid_text (first_two n @ cs) @ [0]"
    using oid_to_text_Some [OF nc] by simp
  with c first_two_valid [OF nc] show "\<exists>comps. valid_oid comps \<and> cbs = oid_der comps \<and> t = oid_text comps @ [0]"
    by (intro exI [of _ "first_two n @ cs"]) simp
next
  assume "\<exists>comps. valid_oid comps \<and> cbs = oid_der comps \<and> t = oid_text comps @ [0]"
  then obtain comps where v: "valid_oid comps" and c: "cbs = oid_der comps" "t = oid_text comps @ [0]" by blast
  from valid_first_two [OF v] obtain n cs where f: "comps = first_two n @ cs"
    and nc: "n < 2 ^ 64" "\<forall>c\<in>set cs. c < 2 ^ 64" .
  with first_two_valid [OF nc] c assms oid_to_text_Some [OF nc]
  show "CBS_asn1_oid_to_text (\<lambda>_. True) True cbs = Some t" by simp
qed

end
