(* ===== verification/Asn1_Sets.thy ===== *)
theory Asn1_Sets
  imports Asn1_Values "HOL-Library.Multiset" "HOL-Library.List_Lexorder"
begin

text \<open>
  The DER order of a SET OF: \<open>CBB_flush_asn1_set_of\<close> of \<open>cbb.c\<close>.  The comparator is shown to be
  the lexicographic order on byte strings, so that the sort is the library's, and the flush to
  replace the elements written so far by their sorted permutation.
\<close>

section \<open>SET OF\<close>

definition compare_set_of_element :: "cbs \<Rightarrow> cbs \<Rightarrow> int" where
  "compare_set_of_element a b =
     (let min_len = min (CBS_len a) (CBS_len b);
          ret = memcmp (take min_len a) (take min_len b)
      in if ret \<noteq> 0 then ret
         else if CBS_len a = CBS_len b then 0
         else if CBS_len a < CBS_len b then - 1 else 1)"

lemma get_any_asn1_element_shorter:
  "CBS_get_any_asn1_element s = (Some (e, t, hl), r) \<Longrightarrow> length r < length s"
  by (auto simp: get_any_asn1_element_iff der_element_def der_header_def der_tag_not_Nil)

function split_elements :: "cbs \<Rightarrow> cbs list option" where
  "split_elements cbs =
     (if CBS_len cbs = 0 then Some []
      else case CBS_get_any_asn1_element cbs of
          (None, _) \<Rightarrow> None
        | (Some (e, _, _), cbs') \<Rightarrow> map_option ((#) e) (split_elements cbs'))"
  by pat_completeness auto
termination
  by (relation "measure length") (auto dest: get_any_asn1_element_shorter [OF sym])

declare split_elements.simps [simp del]

text \<open>\<open>qsort\<close> with the comparator, as insertion sort.\<close>

fun insert_element :: "cbs \<Rightarrow> cbs list \<Rightarrow> cbs list" where
  "insert_element x [] = [x]"
| "insert_element x (y # ys) =
     (if compare_set_of_element x y \<le> 0 then x # y # ys else y # insert_element x ys)"

definition sort_elements :: "cbs list \<Rightarrow> cbs list" where
  "sort_elements xs = foldr insert_element xs []"

fun add_elements :: "nat \<Rightarrow> cbs list \<Rightarrow> (cbb, unit) oper" where
  "add_elements d [] = ok ()"
| "add_elements d (e # es) = and_then (CBB_add_bytes d e) (\<lambda>_. add_elements d es)"

text \<open>
  The allocator is asked for the copy of the contents and for the array of children, of 16 bytes
  each; it answers by the number of bytes.
\<close>

definition CBB_flush_asn1_set_of :: "(nat \<Rightarrow> bool) \<Rightarrow> nat \<Rightarrow> (cbb, unit) oper" where
  "CBB_flush_asn1_set_of malloc d =
     and_then (CBB_flush d) (\<lambda>_ s.
       case split_elements (CBB_data d s) of None \<Rightarrow> (None, s)
       | Some children \<Rightarrow>
         let num_children = length children in
         if num_children < 2 then (Some (), s)
         else if num_children > (2 ^ 64 - 1) div 16 then (None, s)
         else if \<not> malloc (CBB_len d s) \<or> \<not> malloc (num_children * 16) then (None, s)
         else add_elements d (sort_elements children)
                (s\<lparr>base := map_option (\<lambda>b. b\<lparr>len := cbb_start s d\<rparr>) (base s)\<rparr>))"

section \<open>The comparator is the lexicographic order\<close>

lemma memcmp_take:
  "(if memcmp (take (min (length a) (length b)) a) (take (min (length a) (length b)) b) \<noteq> 0
    then memcmp (take (min (length a) (length b)) a) (take (min (length a) (length b)) b)
    else if length a = length b then 0 else if length a < length b then - 1 else 1) =
   (if a = b then 0 else if a < b then - 1 else 1)"
proof (induction a b rule: list_induct2')
  case (4 x xs y ys)
  show ?case
  proof (cases x y rule: linorder_cases)
    case equal
    from 4 show ?thesis unfolding equal
      by (simp only: min_Suc_Suc take_Suc_Cons memcmp.simps less_irrefl if_False list.size add_Suc_right add_0_right
          Suc_less_eq nat.inject list.inject simp_thms Cons_less_Cons add_less_cancel_right add_right_cancel)
  next
    case less
    then show ?thesis by (auto simp del: less_imp_not_less)
  next
    case greater
    then show ?thesis by (auto simp del: less_imp_not_less)
  qed
qed auto

lemma compare_eq: "compare_set_of_element a b = (if a = b then 0 else if a < b then - 1 else 1)"
  by (simp only: compare_set_of_element_def CBS_len_def Let_def memcmp_take)

lemma compare_le: "compare_set_of_element a b \<le> 0 \<longleftrightarrow> a \<le> b"
  by (auto simp: compare_eq)

lemma sort_elements_eq: "sort_elements xs = sort xs"
proof -
  have "insert_element x ys = insort x ys" for x ys
    by (induction ys) (auto simp: compare_le)
  then have "insert_element = insort" by blast
  then show ?thesis by (simp add: sort_elements_def sort_key_def)
qed

section \<open>Elements\<close>

definition is_element :: "byte list \<Rightarrow> bool" where
  "is_element e \<longleftrightarrow> (\<exists>t body. length body < 2 ^ 32 \<and> e = der_element t body)"

lemma get_element_iff:
  "(\<exists>t hl. CBS_get_any_asn1_element s = (Some (e, t, hl), r)) \<longleftrightarrow> is_element e \<and> s = e @ r"
  by (auto simp: get_any_asn1_element_iff is_element_def)

lemma is_element_not_Nil: "is_element e \<Longrightarrow> e \<noteq> []"
  by (auto simp: is_element_def der_element_def der_header_def der_tag_not_Nil)

lemma split_elements_Some: "split_elements s = Some es \<Longrightarrow> s = concat es \<and> list_all is_element es"
proof (induction s arbitrary: es rule: split_elements.induct)
  case (1 s)
  show ?case
  proof (cases "s = []")
    case True
    with "1.prems" show ?thesis by (simp add: split_elements.simps [of "[]"] CBS_len_def)
  next
    case False
    with "1.prems" obtain e t hl r es' where g: "CBS_get_any_asn1_element s = (Some (e, t, hl), r)"
      and rest: "split_elements r = Some es'" "es = e # es'"
      by (auto simp: split_elements.simps [of s] CBS_len_def split: prod.splits option.splits)
    then have "is_element e \<and> s = e @ r" using get_element_iff by blast
    moreover have "r = concat es' \<and> list_all is_element es'"
      using "1.IH" [OF _ g [symmetric]] rest False by (simp add: CBS_len_def)
    ultimately show ?thesis using rest(2) by simp
  qed
qed

lemma split_elements_concat: "list_all is_element es \<Longrightarrow> split_elements (concat es) = Some es"
proof (induction es)
  case (Cons e es)
  then obtain t hl where "CBS_get_any_asn1_element (e @ concat es) = (Some (e, t, hl), concat es)"
    using get_element_iff [of "e @ concat es" e "concat es"] by auto
  with Cons is_element_not_Nil [of e] show ?case
    by (subst split_elements.simps) (simp add: CBS_len_def)
qed (simp add: split_elements.simps CBS_len_def)

lemma split_elements_iff: "split_elements s = Some es \<longleftrightarrow> s = concat es \<and> list_all is_element es"
  using split_elements_Some split_elements_concat by blast

section \<open>The flush\<close>

lemma writes_elements: "writes d (add_elements d es) (concat es)"
  by (induction es) (auto simp: writes_ok)

lemma length_concat_sort: "length (concat (sort es)) = length (concat (es :: byte list list))"
  by (metis length_concat mset_map mset_sort sum_mset_sum_list)

lemma cbb_start_le: "ready d s b \<Longrightarrow> cbb_start s d \<le> len b"
  and ready_truncate: "ready d s b \<Longrightarrow> n = cbb_start s d \<Longrightarrow>
    ready d (s\<lparr>base := Some (b\<lparr>len := n\<rparr>)\<rparr>) (b\<lparr>len := n\<rparr>)"
proof -
  assume r: "ready d s b"
  have "chain_ok 0 (chain s) (cbb_start s d) \<and> cbb_start s d \<le> len b"
  proof (cases "chain s" rule: rev_cases)
    case Nil
    with r show ?thesis by (simp add: ready_def cbb_start_def)
  next
    case (snoc cs c)
    with r have "cbb_start s d = child_start (last (chain s))"
      by (auto simp: ready_def cbb_start_def child_start_def Let_def)
    with r snoc show ?thesis
      by (cases "cs = []")
        (auto simp: ready_def chain_ok_append child_start_def intro: chain_ok_shrink)
  qed
  note st = this
  then show "cbb_start s d \<le> len b" by simp
  assume "n = cbb_start s d"
  with st r show "ready d (s\<lparr>base := Some (b\<lparr>len := n\<rparr>)\<rparr>) (b\<lparr>len := n\<rparr>)"
    by (auto simp: ready_def buf_ok_def grows_def)
qed

lemma flush_set_of:
  assumes r: "ready d s b" and es: "CBB_data d s = concat es" "list_all is_element es"
    and room: "len b + 4 < 2 ^ 64" and few: "length es \<le> (2 ^ 64 - 1) div 16"
  shows "\<exists>s' b'. CBB_flush_asn1_set_of (\<lambda>_. True) d s = (Some (), s') \<and> ready d s' b' \<and>
    chain s' = chain s \<and> contents b' = take (cbb_start s d) (contents b) @ concat (sort es)"
proof -
  have split: "split_elements (CBB_data d s) = Some es" using es split_elements_iff by blast
  let ?n = "cbb_start s d"
  have cont: "contents b = take ?n (contents b) @ concat es"
    using r es(1) by (simp add: CBB_data_def ready_def) (metis append_take_drop_id)
  show ?thesis
  proof (cases "length es < 2")
    case True
    then have "sort es = es" by (cases es) (auto simp: Suc_lessI)
    with True r cont split flush_ready [OF r] show ?thesis
      by (intro exI [of _ s] exI [of _ b]) (simp add: CBB_flush_asn1_set_of_def and_then_def Let_def)
  next
    case False
    let ?b = "b\<lparr>len := ?n\<rparr>" and ?s = "s\<lparr>base := Some (b\<lparr>len := ?n\<rparr>)\<rparr>"
    have le: "?n \<le> len b" by (rule cbb_start_le [OF r])
    have "len b = ?n + length (concat es)"
      using arg_cong [OF cont, of length] le length_contents [of b] r
      by (simp only: ready_def length_append length_take min_absorb2)
    then have "len ?b + length (concat (sort es)) + 4 < 2 ^ 64"
      using room by (simp add: length_concat_sort del: length_concat)
    from writesD [OF writes_elements ready_truncate [OF r refl] this] obtain s' b' where
      s': "add_elements d (sort es) ?s = (Some (), s')" "ready d s' b'" "chain s' = chain ?s"
        "contents b' = contents ?b @ concat (sort es)" .
    have "CBB_flush_asn1_set_of (\<lambda>_. True) d s = (Some (), s')"
      using False few s'(1) r flush_ready [OF r]
      by (simp add: CBB_flush_asn1_set_of_def and_then_def Let_def split sort_elements_eq ready_def)
    moreover have "contents ?b = take ?n (contents b)"
      using le by (simp add: contents_def min_absorb1)
    ultimately show ?thesis using s' by auto
  qed
qed

end
