(* ===== verification/Ber.thy ===== *)
theory Ber
  imports Cbb
begin

text \<open>
  The BER to DER converter (\<open>crypto/bytestring/ber.c\<close>).  The converter reads elements with
  either form of length, joins the fragments of constructed strings and writes definite-length
  elements through the builder.  The lemmas relate it to a grammar of BER encodings of abstract
  ASN.1 values: the conversion succeeds exactly on the encodings within the nesting limit, and
  then yields the DER encodings of the same values.
\<close>

section \<open>The converter\<close>

definition kMaxDepth :: nat where
  "kMaxDepth = 2048"

definition CBS_ASN1_BITSTRING :: u32 where "CBS_ASN1_BITSTRING = 3"
definition CBS_ASN1_UTF8STRING :: u32 where "CBS_ASN1_UTF8STRING = 0xc"
definition CBS_ASN1_NUMERICSTRING :: u32 where "CBS_ASN1_NUMERICSTRING = 0x12"
definition CBS_ASN1_PRINTABLESTRING :: u32 where "CBS_ASN1_PRINTABLESTRING = 0x13"
definition CBS_ASN1_T61STRING :: u32 where "CBS_ASN1_T61STRING = 0x14"
definition CBS_ASN1_VIDEOTEXSTRING :: u32 where "CBS_ASN1_VIDEOTEXSTRING = 0x15"
definition CBS_ASN1_IA5STRING :: u32 where "CBS_ASN1_IA5STRING = 0x16"
definition CBS_ASN1_GRAPHICSTRING :: u32 where "CBS_ASN1_GRAPHICSTRING = 0x19"
definition CBS_ASN1_VISIBLESTRING :: u32 where "CBS_ASN1_VISIBLESTRING = 0x1a"
definition CBS_ASN1_GENERALSTRING :: u32 where "CBS_ASN1_GENERALSTRING = 0x1b"
definition CBS_ASN1_UNIVERSALSTRING :: u32 where "CBS_ASN1_UNIVERSALSTRING = 0x1c"
definition CBS_ASN1_BMPSTRING :: u32 where "CBS_ASN1_BMPSTRING = 0x1e"

definition is_string_type :: "u32 \<Rightarrow> bool" where
  "is_string_type tag \<longleftrightarrow> tag AND NOT CBS_ASN1_CONSTRUCTED \<in>
     {CBS_ASN1_BITSTRING, CBS_ASN1_OCTETSTRING, CBS_ASN1_UTF8STRING, CBS_ASN1_NUMERICSTRING,
      CBS_ASN1_PRINTABLESTRING, CBS_ASN1_T61STRING, CBS_ASN1_VIDEOTEXSTRING, CBS_ASN1_IA5STRING,
      CBS_ASN1_GRAPHICSTRING, CBS_ASN1_VISIBLESTRING, CBS_ASN1_GENERALSTRING,
      CBS_ASN1_UNIVERSALSTRING, CBS_ASN1_BMPSTRING}"

definition is_constructed :: "u32 \<Rightarrow> bool" where
  "is_constructed tag \<longleftrightarrow> tag AND CBS_ASN1_CONSTRUCTED \<noteq> 0"

text \<open>The test for an indefinite-length header, as both walks write it.\<close>

definition is_indefinite :: "cbs \<Rightarrow> nat \<Rightarrow> bool" where
  "is_indefinite element header_len \<longleftrightarrow>
     CBS_len element = header_len \<and> header_len > 0 \<and> CBS_data element ! (header_len - 1) = 0x80"

definition is_eoc :: "nat \<Rightarrow> cbs \<Rightarrow> bool" where
  "is_eoc header_len element \<longleftrightarrow>
     header_len = 2 \<and> CBS_len element = 2 \<and> CBS_data element = [0, 0]"

lemma ber_element_split:
  assumes "CBS_get_any_ber_asn1_element s = (Some (out, tag, hl), r)"
  shows "s = out @ r" and "hl \<le> length out" and "0 < hl"
proof -
  obtain t h where th: "parse_asn1_tag s = (Some t, h)"
    using assms by (cases "parse_asn1_tag s"; cases "fst (parse_asn1_tag s)")
      (simp_all add: CBS_get_any_ber_asn1_element_def cbs_get_any_asn1_element_def)
  then have s: "s = der_tag t @ h" by (rule parse_asn1_tag_sound)
  have "s = out @ r \<and> hl \<le> length out \<and> 0 < hl"
    using assms der_tag_not_Nil [of t]
    unfolding CBS_get_any_ber_asn1_element_def cbs_get_any_asn1_element_split [OF th]
    by (auto simp: Let_def s indefinite_def split: option.splits if_splits)
  then show "s = out @ r" "hl \<le> length out" "0 < hl" by auto
qed

lemma ber_element_shorter:
  "CBS_get_any_ber_asn1_element s = (Some (element, tag, hl), r) \<Longrightarrow> length r < length s"
  using ber_element_split [of s element tag hl r] by auto

lemma ber_body_shorter:
  "CBS_get_any_ber_asn1_element s = (Some (element, tag, hl), r) \<Longrightarrow>
   CBS_skip hl element = (Some u, body) \<Longrightarrow> length body < length s"
  using ber_element_split [of s element tag hl r] by (auto simp: cbs_simps split: if_splits)

text \<open>
  \<open>cbs_find_ber\<close>: \<open>None\<close> is the return value 0, \<open>Some b\<close> the value stored in \<open>*ber_found\<close>.  The
  loop carries \<open>*ber_found\<close>, which the recursive call overwrites.
\<close>

function cbs_find_ber :: "nat \<Rightarrow> cbs \<Rightarrow> bool option"
  and find_ber_loop :: "bool \<Rightarrow> nat \<Rightarrow> cbs \<Rightarrow> bool option" where
  "cbs_find_ber depth orig_in =
     (if depth > kMaxDepth then None else find_ber_loop False depth orig_in)"
| "find_ber_loop ber_found depth inp =
     (if CBS_len inp = 0 then Some ber_found
      else case CBS_get_any_ber_asn1_element inp of
          (None, _) \<Rightarrow> None
        | (Some (element, tag, header_len), inp') \<Rightarrow>
            if is_indefinite element header_len then Some True
            else if is_constructed tag then
              if is_string_type tag then Some True
              else (case CBS_skip header_len element of
                  (None, _) \<Rightarrow> None
                | (Some _, body) \<Rightarrow>
                    (case cbs_find_ber (depth + 1) body of
                       None \<Rightarrow> None
                     | Some found \<Rightarrow> find_ber_loop found depth inp'))
            else find_ber_loop ber_found depth inp')"
  by pat_completeness auto
termination
  by (relation "measure (case_sum (\<lambda>(depth, s). 2 * length s + 1) (\<lambda>(b, depth, s). 2 * length s))")
    (auto dest: ber_element_shorter [OF sym] ber_body_shorter [OF sym sym])

declare cbs_find_ber.simps [simp del] find_ber_loop.simps [simp del]

text \<open>
  \<open>cbs_convert_ber\<close> works on the pair of the reader \<open>in\<close> and the builder \<open>out\<close>, the latter at
  depth \<open>d\<close>.  Inside a constructed string (\<open>string_tag\<close> is not 0) the contents go to \<open>out\<close>
  itself, otherwise to a new child of it.  The recursion is nested: the loop goes on with the
  reader that the recursive call has left, which is why the termination proof needs that a call
  never gives back more than it was given.
\<close>

definition clears :: "u32 \<Rightarrow> u32 \<Rightarrow> bool" where
  "clears string_tag tag \<longleftrightarrow> string_tag = 0 \<and> is_constructed tag \<and> is_string_type tag"

definition out_tag :: "u32 \<Rightarrow> u32 \<Rightarrow> u32" where
  "out_tag string_tag tag = (if clears string_tag tag then tag AND NOT CBS_ASN1_CONSTRUCTED else tag)"

definition child_string_tag :: "u32 \<Rightarrow> u32 \<Rightarrow> u32" where
  "child_string_tag string_tag tag = (if clears string_tag tag then out_tag string_tag tag else string_tag)"

definition out_contents :: "u32 \<Rightarrow> nat \<Rightarrow> nat" where
  "out_contents string_tag d = (if string_tag \<noteq> 0 then d else Suc d)"

definition open_element :: "u32 \<Rightarrow> u32 \<Rightarrow> nat \<Rightarrow> (cbb, unit) oper" where
  "open_element string_tag tag d =
     (if string_tag \<noteq> 0 then ok () else CBB_add_asn1 d (out_tag string_tag tag))"

definition with_input :: "cbs \<Rightarrow> unit option \<times> 'a \<times> cbb \<Rightarrow> unit option \<times> cbs \<times> cbb" where
  "with_input inp res = (fst res, inp, snd (snd res))"

definition flush_then ::
    "nat \<Rightarrow> (cbs \<times> cbb, unit) oper \<Rightarrow> unit option \<times> cbs \<times> cbb \<Rightarrow> unit option \<times> cbs \<times> cbb" where
  "flush_then d continue res =
     (case res of (None, s) \<Rightarrow> (None, s)
      | (Some _, (inp, out)) \<Rightarrow>
          (case CBB_flush d out of (None, out) \<Rightarrow> (None, (inp, out))
           | (Some _, out) \<Rightarrow> continue (inp, out)))"

lemma flush_then_cong [fundef_cong]:
  assumes "res = res'"
    and "\<And>u inp out out'. res' = (Some u, (inp, out)) \<Longrightarrow> CBB_flush d out = (Some (), out') \<Longrightarrow>
      continue (inp, out') = continue' (inp, out')"
  shows "flush_then d continue res = flush_then d continue' res'"
  using assms by (auto simp: flush_then_def split: prod.splits option.splits)

function convert_loop :: "u32 \<Rightarrow> bool \<Rightarrow> nat \<Rightarrow> nat \<Rightarrow> (cbs \<times> cbb, unit) oper" where
  "convert_loop string_tag looking_for_eoc depth d (inp, out) =
     (if CBS_len inp = 0 then (if looking_for_eoc then None else Some (), (inp, out))
      else case CBS_get_any_ber_asn1_element inp of
          (None, inp') \<Rightarrow> (None, (inp', out))
        | (Some (element, tag, header_len), inp') \<Rightarrow>
      if is_eoc header_len element then (if looking_for_eoc then Some () else None, (inp', out))
      else if string_tag \<noteq> 0 \<and> tag AND NOT CBS_ASN1_CONSTRUCTED \<noteq> string_tag then (None, (inp', out))
      else case open_element string_tag tag d out of
          (None, out) \<Rightarrow> (None, (inp', out))
        | (Some _, out) \<Rightarrow>
      flush_then d (convert_loop string_tag looking_for_eoc depth d)
        (if is_indefinite element header_len then
           (if depth + 1 > kMaxDepth then (None, (inp', out))
            else convert_loop (child_string_tag string_tag tag) True (depth + 1)
                   (out_contents string_tag d) (inp', out))
         else case CBS_skip header_len element of
             (None, _) \<Rightarrow> (None, (inp', out))
           | (Some _, body) \<Rightarrow>
               with_input inp'
                 (if is_constructed tag then
                    (if depth + 1 > kMaxDepth then (None, (body, out))
                     else convert_loop (child_string_tag string_tag tag) False (depth + 1)
                            (out_contents string_tag d) (body, out))
                  else (case CBB_add_bytes (out_contents string_tag d) body out of
                          (r, out) \<Rightarrow> (r, (body, out))))))"
  by pat_completeness auto

text \<open>A call that succeeds leaves no more input than it was given.\<close>

lemma flush_then_SomeE:
  assumes "flush_then d continue res = (Some u, p)"
  obtains v inp out out' where "res = (Some v, (inp, out))" and "CBB_flush d out = (Some (), out')"
    and "continue (inp, out') = (Some u, p)"
  using assms by (auto simp: flush_then_def split: prod.splits option.splits)

lemma with_input_Some: "with_input i res = (Some v, (inp, out)) \<Longrightarrow> inp = i"
  by (simp add: with_input_def)

lemma contents_shrinks:
  assumes "(if ind then (if deep then (None, (inp', s)) else m)
      else case CBS_skip hl element of (None, _) \<Rightarrow> (None, (inp', s)) | (Some _, body) \<Rightarrow> with_input inp' (f body)) =
    (Some u, (inp, out))"
    and "ind \<Longrightarrow> \<not> deep \<Longrightarrow> m = (Some u, (inp, out)) \<Longrightarrow> length inp \<le> length inp'"
  shows "length inp \<le> length inp'"
  using assms by (auto dest: with_input_Some split: if_splits prod.splits option.splits)

lemma convert_loop_shrinks:
  "convert_loop_dom (st, l, depth, d, s) \<Longrightarrow> convert_loop st l depth d s = (Some u, (rest, out)) \<Longrightarrow>
    length rest \<le> length (fst s)"
proof (induction st l depth d s arbitrary: u rest out rule: convert_loop.pinduct)
  case (1 st l depth d inp s)
  note eq = "1.prems" [unfolded convert_loop.psimps [OF "1.hyps"]]
  show ?case
  proof (cases "CBS_len inp = 0")
    case True
    with eq show ?thesis by (auto split: if_splits)
  next
    case False
    note eq = eq [unfolded if_not_P [OF False]]
    then obtain e tag hl inp' where g: "CBS_get_any_ber_asn1_element inp = (Some (e, tag, hl), inp')"
      by (auto split: prod.splits option.splits)
    have less: "length inp' < length inp" by (rule ber_element_shorter [OF g])
    show ?thesis
    proof (cases "is_eoc hl e")
      case True
      with eq g less show ?thesis by (auto split: if_splits)
    next
      case no_eoc: False
      note eq = eq [unfolded g prod.case option.case if_not_P [OF no_eoc]]
      then have st: "\<not> (st \<noteq> 0 \<and> tag AND NOT CBS_ASN1_CONSTRUCTED \<noteq> st)" by (auto split: if_splits)
      note eq = eq [unfolded if_not_P [OF st]]
      then obtain v s1 where o: "open_element st tag d s = (Some v, s1)"
        by (cases "open_element st tag d s"; cases "fst (open_element st tag d s)") auto
      note IH = "1.IH" [OF False g [symmetric] refl refl refl no_eoc st o [symmetric] refl]
      from eq [unfolded o prod.case option.case] show ?thesis
      proof (rule flush_then_SomeE)
        fix w i o' out'
        assume m: "(if is_indefinite e hl then (if depth + 1 > kMaxDepth then (None, (inp', s1))
              else convert_loop (child_string_tag st tag) True (depth + 1) (out_contents st d) (inp', s1))
            else case CBS_skip hl e of (None, _) \<Rightarrow> (None, (inp', s1))
              | (Some _, body) \<Rightarrow> with_input inp' (if is_constructed tag then
                   (if depth + 1 > kMaxDepth then (None, (body, s1))
                    else convert_loop (child_string_tag st tag) False (depth + 1) (out_contents st d) (body, s1))
                 else (case CBB_add_bytes (out_contents st d) body s1 of (r, out) \<Rightarrow> (r, (body, out))))) = (Some w, (i, o'))"
          and f: "CBB_flush d o' = (Some (), out')" and rest: "convert_loop st l depth d (i, out') = (Some u, (rest, out))"
        have "length i \<le> length inp'"
          by (rule contents_shrinks [OF m]) (use IH(1) in auto)
        moreover have "length rest \<le> length i" using IH(3) [OF m f rest] by simp
        ultimately show ?thesis using less by simp
      qed
    qed
  qed
qed

termination convert_loop
proof (relation "measure (\<lambda>(st, l, depth, d, s). length (fst s))", goal_cases)
  case 1
  show ?case by simp
next
  case 2
  from ber_element_shorter [OF 2(2) [symmetric, unfolded 2(3) 2(4) [symmetric] 2(5) [symmetric]]]
  show ?case by simp
next
  case 3
  note g = 3(2) [symmetric, unfolded 3(3) 3(4) [symmetric] 3(5) [symmetric]]
  from ber_body_shorter [OF g 3(11) [symmetric, unfolded 3(12)]] show ?case by simp
next
  case (4 st l depth d inp out x y x2 e ya tag hl xc s1 x2a u i o' out')
  note g = 4(2) [symmetric, unfolded 4(3) 4(4) [symmetric] 4(5) [symmetric]]
  have "length i \<le> length y"
    by (rule contents_shrinks [OF 4(10)]) (use convert_loop_shrinks 4(13) in fastforce)
  with ber_element_shorter [OF g] show ?case by simp
qed

declare convert_loop.simps [simp del]

definition cbs_convert_ber :: "u32 \<Rightarrow> bool \<Rightarrow> nat \<Rightarrow> nat \<Rightarrow> (cbs \<times> cbb, unit) oper" where
  "cbs_convert_ber string_tag looking_for_eoc depth d s =
     (if depth > kMaxDepth then (None, s)
      else convert_loop string_tag looking_for_eoc depth d s)"

text \<open>
  The result of the next two is \<open>*out\<close> and whether \<open>*out_storage\<close> is non-\<open>NULL\<close>, with what is
  left of \<open>in\<close>; \<open>mem\<close> and \<open>malloc_base\<close> are the answers of the allocator to \<open>CBB_init\<close>.
\<close>

definition CBS_asn1_ber_to_der :: "(nat \<Rightarrow> bool) \<Rightarrow> bool \<Rightarrow> (cbs, cbs \<times> bool) oper" where
  "CBS_asn1_ber_to_der mem malloc_base inp =
     (case cbs_find_ber 0 inp of
        None \<Rightarrow> (None, inp)
      | Some conversion_needed \<Rightarrow>
          if \<not> conversion_needed then
            and_then CBS_get_any_asn1_element (\<lambda>(out, _, _). ok (out, False)) inp
          else
            (case CBB_init mem malloc_base (CBS_len inp) of
               (False, _) \<Rightarrow> (None, inp)
             | (True, cbb) \<Rightarrow>
                 (case cbs_convert_ber 0 False 0 0 (inp, cbb) of
                    (None, (inp', _)) \<Rightarrow> (None, inp')
                  | (Some _, (inp', cbb)) \<Rightarrow>
                      (case CBB_finish 0 True cbb of
                         (None, _) \<Rightarrow> (None, inp')
                       | (Some der, _) \<Rightarrow> (Some (der, True), inp')))))"

text \<open>The loop over the chunks of a constructed string.\<close>

function implicit_chunks :: "u32 \<Rightarrow> cbs \<Rightarrow> (cbb, unit) oper" where
  "implicit_chunks inner_tag child =
     (if CBS_len child = 0 then ok ()
      else case CBS_get_asn1 inner_tag child of
          (None, _) \<Rightarrow> fail
        | (Some chunk, child') \<Rightarrow>
            and_then (CBB_add_bytes 0 chunk) (\<lambda>_. implicit_chunks inner_tag child'))"
  by pat_completeness auto

lemma get_asn1_shorter: "CBS_get_asn1 tag s = (Some body, r) \<Longrightarrow> length r < length s"
  by (auto simp: CBS_get_asn1_iff der_element_def der_header_def der_tag_not_Nil)

termination implicit_chunks
  by (relation "measure (\<lambda>(t, s). length s)") (auto dest: get_asn1_shorter [OF sym])

declare implicit_chunks.simps [simp del]

definition CBS_get_asn1_implicit_string ::
    "(nat \<Rightarrow> bool) \<Rightarrow> bool \<Rightarrow> u32 \<Rightarrow> u32 \<Rightarrow> (cbs, cbs \<times> bool) oper" where
  "CBS_get_asn1_implicit_string mem malloc_base outer_tag inner_tag inp =
     (if CBS_peek_asn1_tag inp outer_tag then
        and_then (CBS_get_asn1 outer_tag) (\<lambda>out. ok (out, False)) inp
      else
        (case CBB_init mem malloc_base (CBS_len inp) of
           (False, _) \<Rightarrow> (None, inp)
         | (True, result) \<Rightarrow>
             (case CBS_get_asn1 (outer_tag OR CBS_ASN1_CONSTRUCTED) inp of
                (None, inp') \<Rightarrow> (None, inp')
              | (Some child, inp') \<Rightarrow>
                  (case and_then (implicit_chunks inner_tag child) (\<lambda>_. CBB_finish 0 True) result of
                     (None, _) \<Rightarrow> (None, inp')
                   | (Some data, _) \<Rightarrow> (Some (data, True), inp')))))"

section \<open>BER encodings of abstract values\<close>

text \<open>
  \<open>Prim\<close> holds the contents octets of a primitive element or the joined contents of a
  constructed string.  \<open>ber_elements k bs ts\<close>: \<open>bs\<close> is a BER encoding of the values \<open>ts\<close> with at
  most \<open>k\<close> levels of constructed elements and no end-of-contents marker;
  \<open>ber_fragments k t bs out\<close>: \<open>bs\<close> is a sequence of fragments of a string with tag \<open>t\<close> whose
  contents join to \<open>out\<close>.
\<close>

datatype asn1 = Prim u32 "byte list" | Constr u32 "asn1 list"

fun to_der :: "asn1 \<Rightarrow> byte list" where
  "to_der (Prim t body) = der_element t body"
| "to_der (Constr t us) = der_element t (concat (map to_der us))"

inductive framed :: "u32 \<Rightarrow> byte list \<Rightarrow> byte list \<Rightarrow> bool" where
  definite: "length body < 2 ^ 32 \<Longrightarrow> framed tag body (der_element tag body)"
| indefinite: "framed tag body (der_tag tag @ [0x80] @ body @ [0, 0])"

inductive ber_fragments :: "nat \<Rightarrow> u32 \<Rightarrow> byte list \<Rightarrow> byte list \<Rightarrow> bool" where
  fragments_Nil: "ber_fragments k t [] []"
| fragments_Prim:
    "\<not> is_constructed t \<Longrightarrow> length body < 2 ^ 32 \<Longrightarrow> ber_fragments k t bs out \<Longrightarrow>
     ber_fragments k t (der_element t body @ bs) (body @ out)"
| fragments_Constr:
    "is_constructed tag \<Longrightarrow> tag AND NOT CBS_ASN1_CONSTRUCTED = t \<Longrightarrow> framed tag body e \<Longrightarrow>
     ber_fragments k t body inner \<Longrightarrow> ber_fragments (Suc k) t bs out \<Longrightarrow>
     ber_fragments (Suc k) t (e @ bs) (inner @ out)"

inductive ber_elements :: "nat \<Rightarrow> byte list \<Rightarrow> asn1 list \<Rightarrow> bool" where
  elements_Nil: "ber_elements k [] []"
| elements_Prim:
    "\<not> is_constructed t \<Longrightarrow> length body < 2 ^ 32 \<Longrightarrow> \<not> (t = 0 \<and> body = []) \<Longrightarrow> ber_elements k bs ts \<Longrightarrow>
     ber_elements k (der_element t body @ bs) (Prim t body # ts)"
| elements_string:
    "is_constructed tag \<Longrightarrow> is_string_type tag \<Longrightarrow> framed tag body e \<Longrightarrow>
     ber_fragments k (tag AND NOT CBS_ASN1_CONSTRUCTED) body out \<Longrightarrow> ber_elements (Suc k) bs ts \<Longrightarrow>
     ber_elements (Suc k) (e @ bs) (Prim (tag AND NOT CBS_ASN1_CONSTRUCTED) out # ts)"
| elements_Constr:
    "is_constructed tag \<Longrightarrow> \<not> is_string_type tag \<Longrightarrow> framed tag body e \<Longrightarrow>
     ber_elements k body us \<Longrightarrow> ber_elements (Suc k) bs ts \<Longrightarrow>
     ber_elements (Suc k) (e @ bs) (Constr tag us # ts)"

section \<open>Reading one element\<close>

lemma ber_element_eq:
  assumes "parse_asn1_tag s = (Some tag, h)"
  shows "CBS_get_any_ber_asn1_element s =
    (if indefinite tag h then
       (let hl = length s - length h + 1 in (Some (take hl s, tag, hl), drop hl s))
     else CBS_get_any_asn1_element s)"
  using assms
  by (simp add: CBS_get_any_ber_asn1_element_def CBS_get_any_asn1_element_def cbs_get_any_asn1_element_split)

lemma der_length_not_80: "der_length n = b # t \<Longrightarrow> n < 2 ^ 32 \<Longrightarrow> b \<noteq> 0x80"
proof -
  assume eq: "der_length n = b # t" and n: "n < 2 ^ 32"
  have "length_field (der_length n @ []) = Some (n, length (der_length n))"
    by (rule length_field_der_length [OF n])
  with eq show "b \<noteq> 0x80" by auto
qed

lemma read_definite:
  assumes "length body < 2 ^ 32"
  shows "CBS_get_any_ber_asn1_element (der_element tag body @ r) =
    (Some (der_element tag body, tag, length (der_header tag (length body))), r)"
proof -
  let ?h = "der_length (length body) @ body @ r"
  have "parse_asn1_tag (der_element tag body @ r) = (Some tag, ?h)"
    unfolding parse_asn1_tag_iff by (simp add: der_element_def der_header_def)
  moreover have "\<not> indefinite tag ?h"
  proof (cases "der_length (length body)")
    case (Cons b t)
    with der_length_not_80 [OF Cons assms] show ?thesis by (simp add: indefinite_def)
  qed (simp add: der_length_def split: if_splits)
  moreover have "CBS_get_any_asn1_element (der_element tag body @ r) =
      (Some (der_element tag body, tag, length (der_header tag (length body))), r)"
    using assms get_any_asn1_element_iff by blast
  ultimately show ?thesis by (simp add: ber_element_eq)
qed

lemma read_indefinite:
  assumes "is_constructed tag"
  shows "CBS_get_any_ber_asn1_element (der_tag tag @ 0x80 # r) =
    (Some (der_tag tag @ [0x80], tag, Suc (length (der_tag tag))), r)"
proof -
  have "parse_asn1_tag (der_tag tag @ 0x80 # r) = (Some tag, 0x80 # r)"
    unfolding parse_asn1_tag_iff by simp
  moreover have "indefinite tag (0x80 # r)" using assms by (simp add: indefinite_def is_constructed_def)
  ultimately show ?thesis by (simp add: ber_element_eq Let_def)
qed

lemma ber_element_cases:
  assumes "CBS_get_any_ber_asn1_element s = (Some (e, tag, hl), r)"
  obtains (definite) body where "length body < 2 ^ 32" "s = der_element tag body @ r"
      "e = der_element tag body" "hl = length (der_header tag (length body))"
  | (indefinite) "is_constructed tag" "s = der_tag tag @ 0x80 # r" "e = der_tag tag @ [0x80]"
      "hl = Suc (length (der_tag tag))"
proof -
  obtain t h where th: "parse_asn1_tag s = (Some t, h)"
    using assms by (cases "parse_asn1_tag s"; cases "fst (parse_asn1_tag s)")
      (simp_all add: CBS_get_any_ber_asn1_element_def cbs_get_any_asn1_element_def)
  then have s: "s = der_tag t @ h" by (rule parse_asn1_tag_sound)
  show ?thesis
  proof (cases "indefinite t h")
    case True
    then obtain u where "h = 0x80 # u" "is_constructed t"
      by (auto simp: indefinite_def is_constructed_def)
    with True assms s th show ?thesis
      by (intro indefinite) (auto simp: ber_element_eq Let_def)
  next
    case False
    with assms th have "CBS_get_any_asn1_element s = (Some (e, tag, hl), r)"
      by (simp add: ber_element_eq)
    then show ?thesis using definite unfolding get_any_asn1_element_iff by blast
  qed
qed

lemma is_indefinite_element: "length body < 2 ^ 32 \<Longrightarrow>
    \<not> is_indefinite (der_element tag body) (length (der_header tag (length body)))"
  by (auto simp: is_indefinite_def der_element_def der_header_def der_length_def CBS_len_def
      CBS_data_def nth_append)

lemma is_indefinite_marker: "is_indefinite (der_tag tag @ [0x80]) (Suc (length (der_tag tag)))"
  by (simp add: is_indefinite_def CBS_len_def CBS_data_def nth_append)

lemma eoc_element: "der_element 0 [] = [0, 0]"
  by (simp add: der_element_def der_header_def der_tag_def der_length_def CBS_ASN1_TAG_NUMBER_MASK_def)

lemma is_eoc_element:
  assumes "length body < 2 ^ 32"
  shows "is_eoc (length (der_header tag (length body))) (der_element tag body) \<longleftrightarrow> tag = 0 \<and> body = []"
proof
  assume "is_eoc (length (der_header tag (length body))) (der_element tag body)"
  then have "der_element tag body @ [] = der_element 0 [] @ []"
    by (simp add: is_eoc_def eoc_element CBS_data_def)
  from der_element_inject [OF this] assms show "tag = 0 \<and> body = []" by simp
qed (simp add: is_eoc_def eoc_element CBS_len_def CBS_data_def der_header_def der_tag_def
    der_length_def CBS_ASN1_TAG_NUMBER_MASK_def)

lemma is_eoc_marker: "\<not> is_eoc k (der_tag tag @ [0x80])"
  by (cases "der_tag tag") (auto simp: is_eoc_def CBS_data_def)

lemma skip_header: "CBS_skip (length (der_header tag (length body))) (der_element tag body) = (Some (), body)"
  by (simp add: cbs_simps der_element_def)

lemmas element_reading = read_definite is_indefinite_element is_eoc_element skip_header

lemmas marker_reading = read_indefinite is_indefinite_marker is_eoc_marker

lemma CBS_len_element [simp]: "CBS_len (der_element tag body @ r) = 0 \<longleftrightarrow> False"
  "CBS_len (der_tag tag @ 0x80 # r) = 0 \<longleftrightarrow> False"
  by (simp_all add: CBS_len_def der_element_def der_header_def der_tag_not_Nil)

section \<open>The conversion succeeds only on encodings\<close>

lemma convert_definite:
  assumes "length body < 2 ^ 32"
  shows "convert_loop st l depth d (der_element tag body @ r, s) =
    (if tag = 0 \<and> body = [] then (if l then Some () else None, (r, s))
     else if st \<noteq> 0 \<and> tag AND NOT CBS_ASN1_CONSTRUCTED \<noteq> st then (None, (r, s))
     else case open_element st tag d s of
         (None, s) \<Rightarrow> (None, (r, s))
       | (Some _, s) \<Rightarrow>
           flush_then d (convert_loop st l depth d)
             (with_input r
               (if is_constructed tag then
                  (if depth + 1 > kMaxDepth then (None, (body, s))
                   else convert_loop (child_string_tag st tag) False (depth + 1) (out_contents st d) (body, s))
                else (case CBB_add_bytes (out_contents st d) body s of (r, s) \<Rightarrow> (r, (body, s))))))"
  using assms by (subst convert_loop.simps) (simp only: element_reading prod.case option.case CBS_len_element
      is_indefinite_element if_False simp_thms)

lemma convert_marker:
  assumes "is_constructed tag"
  shows "convert_loop st l depth d (der_tag tag @ 0x80 # r, s) =
    (if st \<noteq> 0 \<and> tag AND NOT CBS_ASN1_CONSTRUCTED \<noteq> st then (None, (r, s))
     else case open_element st tag d s of
         (None, s) \<Rightarrow> (None, (r, s))
       | (Some _, s) \<Rightarrow>
           flush_then d (convert_loop st l depth d)
             (if depth + 1 > kMaxDepth then (None, (r, s))
              else convert_loop (child_string_tag st tag) True (depth + 1) (out_contents st d) (r, s)))"
  using assms by (subst convert_loop.simps) (simp only: marker_reading prod.case option.case CBS_len_element
      if_True if_False simp_thms)

lemma step_definiteE:
  assumes eq: "convert_loop st l depth d (der_element tag body @ r, s) = (Some u, p)"
    and len: "length body < 2 ^ 32" and ne: "\<not> (tag = 0 \<and> body = [])"
  obtains s1 q s2 where "st \<noteq> 0 \<longrightarrow> tag AND NOT CBS_ASN1_CONSTRUCTED = st"
    and "is_constructed tag \<longrightarrow> depth + 1 \<le> kMaxDepth \<and>
      convert_loop (child_string_tag st tag) False (depth + 1) (out_contents st d) (body, s1) = (Some (), q)"
    and "convert_loop st l depth d (r, s2) = (Some u, p)"
proof -
  obtain o1 s1 where o: "open_element st tag d s = (o1, s1)" by fastforce
  from eq have st: "st \<noteq> 0 \<longrightarrow> tag AND NOT CBS_ASN1_CONSTRUCTED = st"
    unfolding convert_definite [OF len] if_not_P [OF ne] by (auto split: if_splits)
  then have g: "\<not> (st \<noteq> 0 \<and> tag AND NOT CBS_ASN1_CONSTRUCTED \<noteq> st)" by blast
  note eq' = eq [unfolded convert_definite [OF len] if_not_P [OF ne] if_not_P [OF g] o prod.case]
  then have "o1 = Some ()" by (cases o1) simp_all
  with eq' have "flush_then d (convert_loop st l depth d)
      (with_input r
        (if is_constructed tag then
           (if depth + 1 > kMaxDepth then (None, (body, s1))
            else convert_loop (child_string_tag st tag) False (depth + 1) (out_contents st d) (body, s1))
         else (case CBB_add_bytes (out_contents st d) body s1 of (r, s) \<Rightarrow> (r, (body, s))))) = (Some u, p)"
    by (simp only: option.case)
  then show ?thesis
  proof (elim flush_then_SomeE)
    fix v inp out out'
    assume w: "with_input r
        (if is_constructed tag then
           (if depth + 1 > kMaxDepth then (None, (body, s1))
            else convert_loop (child_string_tag st tag) False (depth + 1) (out_contents st d) (body, s1))
         else (case CBB_add_bytes (out_contents st d) body s1 of (r, s) \<Rightarrow> (r, (body, s)))) = (Some v, (inp, out))"
      and "convert_loop st l depth d (inp, out') = (Some u, p)"
    moreover from w have "inp = r" by (simp add: with_input_def)
    moreover from w have "depth + 1 \<le> kMaxDepth \<and>
        (\<exists>q. convert_loop (child_string_tag st tag) False (depth + 1) (out_contents st d) (body, s1) = (Some (), q))"
      if "is_constructed tag"
      using that by (cases "convert_loop (child_string_tag st tag) False (depth + 1) (out_contents st d) (body, s1)")
        (simp add: with_input_def split: if_splits)
    ultimately show thesis using that [OF st, of s1] by blast
  qed
qed

lemma step_markerE:
  assumes eq: "convert_loop st l depth d (der_tag tag @ 0x80 # r, s) = (Some u, p)"
    and con: "is_constructed tag"
  obtains s1 r' s2 s3 where "st \<noteq> 0 \<longrightarrow> tag AND NOT CBS_ASN1_CONSTRUCTED = st"
    and "depth + 1 \<le> kMaxDepth"
    and "convert_loop (child_string_tag st tag) True (depth + 1) (out_contents st d) (r, s1) = (Some (), (r', s2))"
    and "convert_loop st l depth d (r', s3) = (Some u, p)"
proof -
  obtain o1 s1 where o: "open_element st tag d s = (o1, s1)" by fastforce
  from eq have st: "st \<noteq> 0 \<longrightarrow> tag AND NOT CBS_ASN1_CONSTRUCTED = st"
    unfolding convert_marker [OF con] by (auto split: if_splits)
  then have g: "\<not> (st \<noteq> 0 \<and> tag AND NOT CBS_ASN1_CONSTRUCTED \<noteq> st)" by blast
  note eq' = eq [unfolded convert_marker [OF con] if_not_P [OF g] o prod.case]
  then have "o1 = Some ()" by (cases o1) simp_all
  with eq' have "flush_then d (convert_loop st l depth d)
      (if depth + 1 > kMaxDepth then (None, (r, s1))
       else convert_loop (child_string_tag st tag) True (depth + 1) (out_contents st d) (r, s1)) = (Some u, p)"
    by (simp only: option.case)
  then show ?thesis
  proof (elim flush_then_SomeE)
    fix v inp out out'
    assume "(if depth + 1 > kMaxDepth then (None, (r, s1))
       else convert_loop (child_string_tag st tag) True (depth + 1) (out_contents st d) (r, s1)) = (Some v, (inp, out))"
      and "convert_loop st l depth d (inp, out') = (Some u, p)"
    then show thesis using that [OF st, of s1 inp out out'] by (simp split: if_splits)
  qed
qed

lemma constructed_mask: "\<not> is_constructed (tag AND NOT CBS_ASN1_CONSTRUCTED)"
  by (simp add: is_constructed_def and.assoc)

lemma not_constructed_mask: "\<not> is_constructed tag \<Longrightarrow> tag AND NOT CBS_ASN1_CONSTRUCTED = tag"
  unfolding is_constructed_def by (rule bit_word_eqI) (auto simp: bit_simps bit_eq_iff)

lemma child_string_tag_eq:
  "st \<noteq> 0 \<Longrightarrow> child_string_tag st tag = st"
  "is_constructed tag \<Longrightarrow> is_string_type tag \<Longrightarrow> child_string_tag 0 tag = tag AND NOT CBS_ASN1_CONSTRUCTED"
  "\<not> is_string_type tag \<Longrightarrow> child_string_tag 0 tag = 0"
  by (simp_all add: child_string_tag_def clears_def out_tag_def)

lemma string_type_not_0: "is_string_type tag \<Longrightarrow> tag AND NOT CBS_ASN1_CONSTRUCTED \<noteq> 0"
  by (auto simp: is_string_type_def CBS_ASN1_BITSTRING_def CBS_ASN1_OCTETSTRING_def
      CBS_ASN1_UTF8STRING_def CBS_ASN1_NUMERICSTRING_def CBS_ASN1_PRINTABLESTRING_def
      CBS_ASN1_T61STRING_def CBS_ASN1_VIDEOTEXSTRING_def CBS_ASN1_IA5STRING_def
      CBS_ASN1_GRAPHICSTRING_def CBS_ASN1_VISIBLESTRING_def CBS_ASN1_GENERALSTRING_def
      CBS_ASN1_UNIVERSALSTRING_def CBS_ASN1_BMPSTRING_def)

text \<open>\<open>encodes k st bs\<close>: \<open>bs\<close> is what one call of the converter may consume.\<close>

definition encodes :: "nat \<Rightarrow> u32 \<Rightarrow> byte list \<Rightarrow> bool" where
  "encodes k st bs \<longleftrightarrow>
     (if st = 0 then \<exists>ts. ber_elements k bs ts else \<exists>out. ber_fragments k st bs out)"

lemma encodes_Nil: "encodes k st []"
  by (auto simp: encodes_def intro: elements_Nil fragments_Nil)

lemma encodes_Prim:
  assumes "\<not> is_constructed tag" and "length body < 2 ^ 32" and "\<not> (tag = 0 \<and> body = [])"
    and "st \<noteq> 0 \<longrightarrow> tag AND NOT CBS_ASN1_CONSTRUCTED = st" and "encodes k st bs"
  shows "encodes k st (der_element tag body @ bs)"
proof (cases "st = 0")
  case True
  with assms(5) obtain ts where "ber_elements k bs ts" by (auto simp: encodes_def)
  from elements_Prim [OF assms(1-3) this] True show ?thesis unfolding encodes_def by auto
next
  case False
  with assms(4) not_constructed_mask [OF assms(1)] have tag: "st = tag" by simp
  from False assms(5) obtain out where "ber_fragments k tag bs out" by (auto simp: encodes_def tag)
  from fragments_Prim [OF assms(1,2) this] False show ?thesis unfolding encodes_def tag by auto
qed

lemma encodes_Constr:
  assumes "is_constructed tag" and "framed tag body e" and "encodes k (child_string_tag st tag) body"
    and "st \<noteq> 0 \<longrightarrow> tag AND NOT CBS_ASN1_CONSTRUCTED = st" and "encodes (Suc k) st bs"
  shows "encodes (Suc k) st (e @ bs)"
proof (cases "st = 0")
  case False
  with assms show ?thesis
    by (auto simp: encodes_def child_string_tag_eq intro: fragments_Constr)
next
  case True
  show ?thesis
  proof (cases "is_string_type tag")
    case True
    with \<open>st = 0\<close> assms string_type_not_0 [of tag] show ?thesis
      by (auto simp: encodes_def child_string_tag_eq intro: elements_string)
  next
    case False
    with \<open>st = 0\<close> assms show ?thesis
      by (auto simp: encodes_def child_string_tag_eq intro: elements_Constr)
  qed
qed

lemma convert_sound:
  assumes "convert_loop st l depth d (inp, s) = (Some u, (rest, s'))" and "depth \<le> kMaxDepth"
  shows "\<exists>bs. encodes (kMaxDepth - depth) st bs \<and>
    (if l then inp = bs @ [0, 0] @ rest else inp = bs \<and> rest = [])"
  using assms
proof (induction inp arbitrary: st l depth d s rest u s' rule: length_induct)
  case (1 inp)
  note IH = "1.IH" [rule_format]
  show ?case
  proof (cases "inp = []")
    case True
    with "1.prems" show ?thesis by (auto simp: convert_loop.simps [of _ _ _ _ "[]"] CBS_len_def encodes_Nil split: if_splits)
  next
    case False
    with "1.prems" obtain e tag hl r where g: "CBS_get_any_ber_asn1_element inp = (Some (e, tag, hl), r)"
      by (cases "CBS_get_any_ber_asn1_element inp"; cases "fst (CBS_get_any_ber_asn1_element inp)")
        (auto simp: convert_loop.simps [of _ _ _ _ inp] CBS_len_def)
    have less: "length r < length inp" by (rule ber_element_shorter [OF g])
    from g show ?thesis
    proof (cases rule: ber_element_cases)
      case (definite body)
      show ?thesis
      proof (cases "tag = 0 \<and> body = []")
        case True
        with "1.prems"(1) have "l \<and> rest = r"
          unfolding definite(2) convert_definite [OF definite(1)] by (simp split: if_splits)
        with True definite(2) show ?thesis
          by (auto simp: eoc_element encodes_Nil intro: exI [of _ "[]"])
      next
        case ne: False
        from "1.prems"(1) [unfolded definite(2)] definite(1) ne obtain s1 q s2 where
          st: "st \<noteq> 0 \<longrightarrow> tag AND NOT CBS_ASN1_CONSTRUCTED = st"
          and inner: "is_constructed tag \<longrightarrow> depth + 1 \<le> kMaxDepth \<and>
            convert_loop (child_string_tag st tag) False (depth + 1) (out_contents st d) (body, s1) = (Some (), q)"
          and rest: "convert_loop st l depth d (r, s2) = (Some u, (rest, s'))"
          by (rule step_definiteE)
        from IH [OF less rest "1.prems"(2)] obtain bs where bs: "encodes (kMaxDepth - depth) st bs"
          "if l then r = bs @ [0, 0] @ rest else r = bs \<and> rest = []" by blast
        have "encodes (kMaxDepth - depth) st (der_element tag body @ bs)"
        proof (cases "is_constructed tag")
          case True
          then have dep: "depth + 1 \<le> kMaxDepth" using inner by simp
          obtain rb sb where "convert_loop (child_string_tag st tag) False (depth + 1) (out_contents st d) (body, s1) =
              (Some (), (rb, sb))" using inner True by (cases q) simp
          moreover have "length body < length inp"
            using definite(2) by (simp add: der_element_def der_header_def der_tag_not_Nil)
          ultimately have "encodes (kMaxDepth - (depth + 1)) (child_string_tag st tag) body" using IH [OF _ _ dep] by fastforce
          moreover have "Suc (kMaxDepth - (depth + 1)) = kMaxDepth - depth" using dep by simp
          ultimately show ?thesis
            using encodes_Constr [OF True framed.definite [OF definite(1)] _ st] bs(1) by metis
        next
          case False
          then show ?thesis using definite(1) ne st bs(1) by (intro encodes_Prim) simp_all
        qed
        then show ?thesis using bs(2) definite(2)
          by (intro exI [of _ "der_element tag body @ bs"]) (simp split: if_splits)
      qed
    next
      case indefinite
      from "1.prems"(1) [unfolded indefinite(2)] indefinite(1) obtain s1 r' s2 s3 where
        st: "st \<noteq> 0 \<longrightarrow> tag AND NOT CBS_ASN1_CONSTRUCTED = st" and dep: "depth + 1 \<le> kMaxDepth"
        and inner: "convert_loop (child_string_tag st tag) True (depth + 1) (out_contents st d) (r, s1) = (Some (), (r', s2))"
        and rest: "convert_loop st l depth d (r', s3) = (Some u, (rest, s'))"
        by (rule step_markerE)
      from IH [OF less inner dep] obtain body where body:
        "encodes (kMaxDepth - (depth + 1)) (child_string_tag st tag) body" "r = body @ [0, 0] @ r'" by auto
      then have "length r' < length inp" using less by simp
      from IH [OF this rest "1.prems"(2)] obtain bs where bs: "encodes (kMaxDepth - depth) st bs"
        "if l then r' = bs @ [0, 0] @ rest else r' = bs \<and> rest = []" by blast
      have "Suc (kMaxDepth - (depth + 1)) = kMaxDepth - depth" using dep by simp
      with encodes_Constr [OF indefinite(1) framed.indefinite body(1) st] bs(1)
      have "encodes (kMaxDepth - depth) st ((der_tag tag @ [0x80] @ body @ [0, 0]) @ bs)" by simp
      then show ?thesis using bs(2) indefinite(2) body(2)
        by (intro exI [of _ "(der_tag tag @ [0x80] @ body @ [0, 0]) @ bs"]) (simp split: if_splits)
    qed
  qed
qed

section \<open>The conversion succeeds on all encodings\<close>

text \<open>
  \<open>appends d m q xs\<close>: run on a builder whose innermost open \<open>CBB\<close> has depth \<open>d\<close>, \<open>m\<close> succeeds
  with the reader at \<open>q\<close> and has appended \<open>xs\<close>.
\<close>

definition appends :: "nat \<Rightarrow> (cbb \<Rightarrow> unit option \<times> 'a \<times> cbb) \<Rightarrow> 'a \<Rightarrow> byte list \<Rightarrow> bool" where
  "appends d m q xs \<longleftrightarrow>
     (\<forall>s b. ready d s b \<and> len b + length xs + 4 < 2 ^ 64 \<longrightarrow>
       (\<exists>s' b'. m s = (Some (), (q, s')) \<and> ready d s' b' \<and> chain s' = chain s \<and>
          contents b' = contents b @ xs))"

lemma appendsD:
  assumes "appends d m q xs" and "ready d s b" and "len b + length xs + 4 < 2 ^ 64"
  obtains s' b' where "m s = (Some (), (q, s'))" and "ready d s' b'" and "chain s' = chain s"
    and "contents b' = contents b @ xs" and "len b' = len b + length xs"
proof -
  from assms obtain s' b' where s': "m s = (Some (), (q, s'))" "ready d s' b'" "chain s' = chain s"
    "contents b' = contents b @ xs" unfolding appends_def by blast
  moreover from s'(2,4) assms(2) have "len b' = len b + length xs"
    by (metis length_append length_contents ready_def)
  ultimately show ?thesis by (rule that)
qed

lemma appends_writes: "appends d m q xs \<Longrightarrow> writes d (\<lambda>s. (fst (m s), snd (snd (m s)))) xs"
  unfolding appends_def writes_def by fastforce

definition wrapped :: "u32 \<Rightarrow> u32 \<Rightarrow> byte list \<Rightarrow> byte list" where
  "wrapped st tag xs = (if st \<noteq> 0 then xs else der_element (out_tag st tag) xs)"

lemma wrapped_appends:
  assumes m: "appends (out_contents st d) m q xs" and small: "length xs \<le> 0xfffffffe"
    and r: "ready d s b" and room: "len b + length (wrapped st tag xs) + 4 < 2 ^ 64"
  obtains s1 s2 s3 b3 where "open_element st tag d s = (Some (), s1)" and "m s1 = (Some (), (q, s2))"
    and "CBB_flush d s2 = (Some (), s3)" and "ready d s3 b3" and "chain s3 = chain s"
    and "contents b3 = contents b @ wrapped st tag xs"
proof (cases "st = 0")
  case False
  then have "len b + length xs + 4 < 2 ^ 64" using room by (simp add: wrapped_def)
  moreover have "appends d m q xs" using m False by (simp add: out_contents_def)
  ultimately obtain s' b' where "m s = (Some (), (q, s'))" "ready d s' b'" "chain s' = chain s"
    "contents b' = contents b @ xs" using r by (metis appendsD)
  moreover have "open_element st tag d s = (Some (), s)"
    using False by (simp add: open_element_def ok_def)
  ultimately show ?thesis
    using False flush_ready that by (simp add: wrapped_def)
next
  case True
  let ?t = "out_tag st tag" and ?m = "\<lambda>s. (fst (m s), snd (snd (m s)))"
  have m': "appends (Suc d) m q xs" using m True by (simp add: out_contents_def)
  from writes_asn1 [OF appends_writes [OF this] small, of ?t]
  have "writes d (and_then (CBB_add_asn1 d ?t) (\<lambda>_. and_then ?m (\<lambda>_. CBB_flush d))) (wrapped st tag xs)"
    using True by (simp add: wrapped_def)
  from writesD [OF this r room] obtain s3 b3 where
    all: "and_then (CBB_add_asn1 d ?t) (\<lambda>_. and_then ?m (\<lambda>_. CBB_flush d)) s = (Some (), s3)"
    and r3: "ready d s3 b3" "chain s3 = chain s" "contents b3 = contents b @ wrapped st tag xs" .
  from all obtain s1 s2 where 1: "CBB_add_asn1 d ?t s = (Some (), s1)" and 2: "?m s1 = (Some (), s2)"
    and 3: "CBB_flush d s2 = (Some (), s3)"
    by (elim and_then_eq_SomeE) simp
  have tl: "1 \<le> length (der_length (length xs))" by (simp add: der_length_def)
  then have "len b + length (der_tag ?t) + 1 + 4 < 2 ^ 64"
    using room True by (simp add: wrapped_def der_element_def der_header_def)
  from open_asn1 [OF r this] 1 obtain b1 where r1: "ready (Suc d) s1 b1"
    and c1: "contents b1 = contents b @ der_tag ?t @ replicate 1 0" by auto
  then have "len b1 = len b + length (der_tag ?t) + 1"
    using r length_contents [of b1] length_contents [of b] by (simp add: ready_def)
  then have "len b1 + length xs + 4 < 2 ^ 64"
    using room tl True by (simp add: wrapped_def der_element_def der_header_def)
  from appendsD [OF m' r1 this] obtain s2' where "m s1 = (Some (), (q, s2'))" by blast
  with 2 have "m s1 = (Some (), (q, s2))" by simp
  moreover have "open_element st tag d s = (Some (), s1)"
    using 1 True by (simp add: open_element_def)
  ultimately show ?thesis using 3 r3 that by blast
qed

text \<open>\<open>runs\<close>: what the loop does on an input.\<close>

definition runs :: "nat \<Rightarrow> u32 \<Rightarrow> bool \<Rightarrow> nat \<Rightarrow> cbs \<Rightarrow> cbs \<Rightarrow> byte list \<Rightarrow> bool" where
  "runs d st l depth i r xs \<longleftrightarrow>
     appends d (\<lambda>s. convert_loop st l depth d (i, s)) r xs"

lemma runs_step:
  assumes step: "\<And>s. convert_loop st l depth d (e @ i, s) =
      (case open_element st tag d s of (None, s) \<Rightarrow> (None, (i', s))
       | (Some _, s) \<Rightarrow> flush_then d (convert_loop st l depth d) (body s))"
    and body: "appends (out_contents st d) body i xs" and small: "length xs \<le> 0xfffffffe"
    and rest: "runs d st l depth i r ys"
  shows "runs d st l depth (e @ i) r (wrapped st tag xs @ ys)"
  unfolding runs_def appends_def
proof (intro allI impI)
  fix s b
  assume a: "ready d s b \<and> len b + length (wrapped st tag xs @ ys) + 4 < 2 ^ 64"
  have "len b + length (wrapped st tag xs) + 4 < 2 ^ 64" using a by simp
  from wrapped_appends [OF body small _ this] a obtain s1 s2 s3 b3 where
    s1: "open_element st tag d s = (Some (), s1)" "body s1 = (Some (), (i, s2))"
      "CBB_flush d s2 = (Some (), s3)"
    and s3: "ready d s3 b3" "chain s3 = chain s" "contents b3 = contents b @ wrapped st tag xs" by blast
  have "len b3 = len b + length (wrapped st tag xs)"
    using s3 a by (metis length_append length_contents ready_def)
  then have "len b3 + length ys + 4 < 2 ^ 64" using a by simp
  then obtain s' b' where "convert_loop st l depth d (i, s3) = (Some (), (r, s'))"
    "ready d s' b'" "chain s' = chain s3" "contents b' = contents b3 @ ys"
    using s3(1) rest unfolding runs_def by (metis appendsD)
  then show "\<exists>s' b'. convert_loop st l depth d (e @ i, s) = (Some (), (r, s')) \<and> ready d s' b' \<and>
      chain s' = chain s \<and> contents b' = contents b @ wrapped st tag xs @ ys"
    using s3 by (intro exI [of _ s'] exI [of _ b'])
      (simp only: step s1 prod.case option.case flush_then_def append_assoc simp_thms)
qed

text \<open>
  What may follow the elements of one call: the end of its window, or the end-of-contents marker
  it looks for.
\<close>

definition closing :: "bool \<Rightarrow> cbs \<Rightarrow> cbs \<Rightarrow> bool" where
  "closing l rest t \<longleftrightarrow> (if l then t = [0, 0] @ rest else t = [] \<and> rest = [])"

definition converts :: "nat \<Rightarrow> u32 \<Rightarrow> nat \<Rightarrow> byte list \<Rightarrow> byte list \<Rightarrow> bool" where
  "converts d st depth bs xs \<longleftrightarrow> (\<forall>l rest t. closing l rest t \<longrightarrow> runs d st l depth (bs @ t) rest xs)"

lemma convert_end:
  assumes "closing l rest t"
  shows "convert_loop st l depth d (t, s) = (Some (), (rest, s))"
proof (cases l)
  case True
  with assms have t: "t = der_element 0 [] @ rest" by (simp add: closing_def eoc_element)
  show ?thesis unfolding t using True by (subst convert_definite) simp_all
next
  case False
  with assms show ?thesis by (simp add: convert_loop.simps closing_def CBS_len_def)
qed

lemma converts_Nil: "converts d st depth [] []"
  unfolding converts_def runs_def appends_def by (auto simp: convert_end)

lemma appends_bytes:
  "appends d (\<lambda>s. with_input i (case CBB_add_bytes d body s of (r, s) \<Rightarrow> (r, (body, s)))) i body"
  unfolding appends_def
proof (intro allI impI)
  fix s b
  assume "ready d s b \<and> len b + length body + 4 < 2 ^ 64"
  then obtain s' b' where "CBB_add_bytes d body s = (Some (), s')" "ready d s' b'" "chain s' = chain s"
    "contents b' = contents b @ body" using writesD [OF writes_bytes] by blast
  then show "\<exists>s' b'. with_input i (case CBB_add_bytes d body s of (r, s) \<Rightarrow> (r, (body, s))) = (Some (), (i, s')) \<and>
      ready d s' b' \<and> chain s' = chain s \<and> contents b' = contents b @ body"
    by (intro exI [of _ s'] exI [of _ b']) (simp add: with_input_def)
qed

lemma appends_with_input: "appends d m q xs \<Longrightarrow> appends d (\<lambda>s. with_input i (m s)) i xs"
  unfolding appends_def with_input_def by fastforce

lemma der_element_not_Nil: "der_element tag body \<noteq> []"
  by (simp add: der_element_def der_header_def der_tag_not_Nil)

lemma converts_Prim:
  assumes tag: "\<not> is_constructed tag" "st \<noteq> 0 \<longrightarrow> tag AND NOT CBS_ASN1_CONSTRUCTED = st"
    and len: "length body \<le> 0xfffffffe" and ne: "\<not> (tag = 0 \<and> body = [])"
    and rest: "converts d st depth bs ys"
  shows "converts d st depth (der_element tag body @ bs) (wrapped st tag body @ ys)"
  unfolding converts_def append_assoc
proof (intro allI impI)
  fix l r t
  assume "closing l r t"
  with rest have "runs d st l depth (bs @ t) r ys" by (simp add: converts_def)
  then show "runs d st l depth (der_element tag body @ bs @ t) r (wrapped st tag body @ ys)"
  proof (rule runs_step [OF _ appends_bytes len, rotated])
    fix s
    have len': "length body < 2 ^ 32" using len by simp
    have g: "\<not> (st \<noteq> 0 \<and> tag AND NOT CBS_ASN1_CONSTRUCTED \<noteq> st)" using tag(2) by blast
    show "convert_loop st l depth d (der_element tag body @ bs @ t, s) =
      (case open_element st tag d s of (None, s) \<Rightarrow> (None, (bs @ t, s))
       | (Some _, s) \<Rightarrow> flush_then d (convert_loop st l depth d)
           (with_input (bs @ t) (case CBB_add_bytes (out_contents st d) body s of (r, s) \<Rightarrow> (r, (body, s)))))"
      unfolding convert_definite [OF len'] if_not_P [OF ne] if_not_P [OF g] if_not_P [OF tag(1)] ..
  qed
qed

lemma framed_length: "framed tag body e \<Longrightarrow> length body + 2 \<le> length e"
  by (cases rule: framed.cases)
    (auto simp: der_element_def der_header_def der_tag_not_Nil Suc_le_eq der_length_def split: if_splits)

lemma converts_Constr:
  assumes tag: "is_constructed tag" "st \<noteq> 0 \<longrightarrow> tag AND NOT CBS_ASN1_CONSTRUCTED = st"
    and fr: "framed tag body e" and dep: "depth + 1 \<le> kMaxDepth"
    and inner: "converts (out_contents st d) (child_string_tag st tag) (depth + 1) body xs"
    and len: "length xs \<le> 0xfffffffe" and rest: "converts d st depth bs ys"
  shows "converts d st depth (e @ bs) (wrapped st tag xs @ ys)"
  unfolding converts_def append_assoc
proof (intro allI impI)
  fix l r t
  assume "closing l r t"
  with rest have runs: "runs d st l depth (bs @ t) r ys" by (simp add: converts_def)
  have g: "\<not> (st \<noteq> 0 \<and> tag AND NOT CBS_ASN1_CONSTRUCTED \<noteq> st)" "\<not> kMaxDepth < depth + 1"
    using tag dep by auto
  have t0: "tag \<noteq> 0" using tag(1) by (auto simp: is_constructed_def)
  from fr show "runs d st l depth (e @ bs @ t) r (wrapped st tag xs @ ys)"
  proof cases
    case definite
    show ?thesis
    proof (rule runs_step [OF _ _ len runs])
      fix s
      show "convert_loop st l depth d (e @ bs @ t, s) =
        (case open_element st tag d s of (None, s) \<Rightarrow> (None, (bs @ t, s))
         | (Some _, s) \<Rightarrow> flush_then d (convert_loop st l depth d)
             (with_input (bs @ t) (convert_loop (child_string_tag st tag) False (depth + 1) (out_contents st d) (body, s))))"
        using t0 tag(1) by (simp only: definite(1) convert_definite [OF definite(2)] g if_False if_True simp_thms)
    next
      have "runs (out_contents st d) (child_string_tag st tag) False (depth + 1) (body @ []) [] xs"
        using inner [unfolded converts_def, rule_format, of False "[]" "[]"] by (simp add: closing_def)
      then show "appends (out_contents st d) (\<lambda>s. with_input (bs @ t) (convert_loop (child_string_tag st tag)
          False (depth + 1) (out_contents st d) (body, s))) (bs @ t) xs"
        unfolding runs_def append_Nil2 by (rule appends_with_input)
    qed
  next
    case indefinite
    have eq: "e @ bs @ t = der_tag tag @ 0x80 # body @ [0, 0] @ bs @ t" by (simp add: indefinite)
    show ?thesis
    proof (rule runs_step [OF _ _ len runs])
      fix s
      show "convert_loop st l depth d (e @ bs @ t, s) =
        (case open_element st tag d s of (None, s) \<Rightarrow> (None, (body @ [0, 0] @ bs @ t, s))
         | (Some _, s) \<Rightarrow> flush_then d (convert_loop st l depth d)
             (convert_loop (child_string_tag st tag) True (depth + 1) (out_contents st d) (body @ [0, 0] @ bs @ t, s)))"
        unfolding eq by (simp only: convert_marker [OF tag(1)] g if_False)
    next
      have "runs (out_contents st d) (child_string_tag st tag) True (depth + 1) (body @ [0, 0] @ bs @ t) (bs @ t) xs"
        using inner [unfolded converts_def, rule_format, of True "bs @ t" "[0, 0] @ bs @ t"] by (simp add: closing_def)
      then show "appends (out_contents st d) (\<lambda>s. convert_loop (child_string_tag st tag)
          True (depth + 1) (out_contents st d) (body @ [0, 0] @ bs @ t, s)) (bs @ t) xs"
        unfolding runs_def .
    qed
  qed
qed

lemma fragments_length: "ber_fragments k t bs out \<Longrightarrow> length out \<le> length bs"
  by (induction rule: ber_fragments.induct)
    (auto simp: der_element_def dest: framed_length)

lemma length_der_element: "length (der_element tag body) \<le> 11 + length body"
  using length_der_tag [of tag] length_der_length [of "length body"]
  by (simp add: der_element_def der_header_def)

lemma element_length: "length body < 2 ^ 32 \<Longrightarrow> length body + 2 \<le> length (der_element tag body)"
  using framed_length [OF framed.definite] by blast

lemma elements_length: "ber_elements k bs ts \<Longrightarrow> length (concat (map to_der ts)) \<le> 6 * length bs"
proof (induction rule: ber_elements.induct)
  case (elements_Prim t body k bs ts)
  then show ?case
    using length_der_element [of t body] element_length [of body t] by simp
next
  case (elements_string tag body e k out bs ts)
  then show ?case
    using length_der_element [of "tag AND NOT CBS_ASN1_CONSTRUCTED" out] framed_length [of tag body e]
      fragments_length [of k _ body out] by force
next
  case (elements_Constr tag body e k us bs ts)
  then show ?case
    using length_der_element [of tag "concat (map to_der us)"] framed_length [of tag body e] by simp
qed simp

text \<open>The input is small enough for every DER length to fit its four octets.\<close>

definition fits :: "byte list \<Rightarrow> bool" where
  "fits bs \<longleftrightarrow> 6 * length bs \<le> 0xfffffffe"

lemma fits_append: "fits (xs @ ys) \<Longrightarrow> fits xs" "fits (xs @ ys) \<Longrightarrow> fits ys"
  by (simp_all add: fits_def)

lemma fits_framed: "framed tag body e \<Longrightarrow> fits e \<Longrightarrow> fits body"
  using framed_length [of tag body e] by (simp add: fits_def)

lemma fits_element: "length body < 2 ^ 32 \<Longrightarrow> fits (der_element tag body) \<Longrightarrow> length body \<le> 0xfffffffe"
  using element_length [of body tag] by (simp add: fits_def)

lemma fragments_converts:
  "ber_fragments k t bs out \<Longrightarrow> t \<noteq> 0 \<Longrightarrow> fits bs \<Longrightarrow> depth + k \<le> kMaxDepth \<Longrightarrow>
   converts d t depth bs out"
proof (induction arbitrary: depth rule: ber_fragments.induct)
  case (fragments_Nil k t)
  show ?case by (rule converts_Nil)
next
  case (fragments_Prim t body k bs out)
  have "converts d t depth (der_element t body @ bs) (wrapped t t body @ out)"
    proof (rule converts_Prim)
      show "\<not> is_constructed t" by (rule fragments_Prim.hyps(1))
      show "length body \<le> 0xfffffffe"
        by (rule fits_element [OF fragments_Prim.hyps(2) fits_append(1) [OF fragments_Prim.prems(2)]])
      show "converts d t depth bs out"
        by (rule fragments_Prim.IH [OF fragments_Prim.prems(1) fits_append(2) [OF fragments_Prim.prems(2)] fragments_Prim.prems(3)])
      show "t \<noteq> 0 \<longrightarrow> t AND NOT CBS_ASN1_CONSTRUCTED = t"
        using not_constructed_mask [OF fragments_Prim.hyps(1)] by simp
      show "\<not> (t = 0 \<and> body = [])" using fragments_Prim.prems(1) by simp
    qed
  then show ?case using fragments_Prim.prems(1) by (simp add: wrapped_def)
next
  case (fragments_Constr tag t body e k inner bs out)
  have fb: "fits body" using fits_framed [OF fragments_Constr.hyps(3) fits_append(1) [OF fragments_Constr.prems(2)]] .
  have "length inner \<le> length body" by (rule fragments_length [OF fragments_Constr.hyps(4)])
  then have len: "length inner \<le> 0xfffffffe" using fb by (simp add: fits_def)
  have out: "out_contents t d = d" "child_string_tag t tag = t"
    using fragments_Constr.prems(1) by (simp_all add: out_contents_def child_string_tag_eq)
  have "converts d t (depth + 1) body inner"
    using fragments_Constr.IH(1) [OF fragments_Constr.prems(1) fb, of "depth + 1"] fragments_Constr.prems(3) by simp
  moreover have "converts d t depth bs out"
    by (rule fragments_Constr.IH(2) [OF fragments_Constr.prems(1) fits_append(2) [OF fragments_Constr.prems(2)] fragments_Constr.prems(3)])
  ultimately have "converts d t depth (e @ bs) (wrapped t tag inner @ out)"
    using fragments_Constr.hyps fragments_Constr.prems(3) len
    by (intro converts_Constr) (simp_all add: out)
  then show ?case using fragments_Constr.prems(1) by (simp add: wrapped_def)
qed

lemma elements_converts:
  "ber_elements k bs ts \<Longrightarrow> fits bs \<Longrightarrow> depth + k \<le> kMaxDepth \<Longrightarrow>
   converts d 0 depth bs (concat (map to_der ts))"
proof (induction arbitrary: depth d rule: ber_elements.induct)
  case (elements_Nil k)
  show ?case by (simp add: converts_Nil)
next
  case (elements_Prim t body k bs ts)
  have "converts d 0 depth (der_element t body @ bs) (wrapped 0 t body @ concat (map to_der ts))"
    proof (rule converts_Prim)
      show "\<not> is_constructed t" by (rule elements_Prim.hyps(1))
      show "length body \<le> 0xfffffffe"
        by (rule fits_element [OF elements_Prim.hyps(2) fits_append(1) [OF elements_Prim.prems(1)]])
      show "converts d 0 depth bs (concat (map to_der ts))"
        by (rule elements_Prim.IH [OF fits_append(2) [OF elements_Prim.prems(1)] elements_Prim.prems(2)])
    qed (use elements_Prim.hyps(3) in simp_all)
  then show ?case using elements_Prim.hyps(1) by (simp add: wrapped_def out_tag_def clears_def)
next
  case (elements_string tag body e k out bs ts)
  let ?t = "tag AND NOT CBS_ASN1_CONSTRUCTED"
  have fb: "fits body" using fits_framed [OF elements_string.hyps(3) fits_append(1) [OF elements_string.prems(1)]] .
  have "length out \<le> length body" by (rule fragments_length [OF elements_string.hyps(4)])
  then have len: "length out \<le> 0xfffffffe" using fb by (simp add: fits_def)
  have t0: "?t \<noteq> 0" using elements_string.hyps(2) by (rule string_type_not_0)
  have "converts (Suc d) ?t (depth + 1) body out"
    using elements_string.hyps(4) t0 fb by (rule fragments_converts) (use elements_string.prems(2) in simp)
  moreover have "converts d 0 depth bs (concat (map to_der ts))"
    by (rule elements_string.IH [OF fits_append(2) [OF elements_string.prems(1)] elements_string.prems(2)])
  ultimately have "converts d 0 depth (e @ bs) (wrapped 0 tag out @ concat (map to_der ts))"
    using elements_string.hyps elements_string.prems(2) len
    by (intro converts_Constr) (simp_all add: out_contents_def child_string_tag_eq)
  then show ?case using elements_string.hyps(1,2) by (simp add: wrapped_def out_tag_def clears_def)
next
  case (elements_Constr tag body e k us bs ts)
  have fb: "fits body" using fits_framed [OF elements_Constr.hyps(3) fits_append(1) [OF elements_Constr.prems(1)]] .
  then have len: "length (concat (map to_der us)) \<le> 0xfffffffe"
    using elements_length [OF elements_Constr.hyps(4)] by (simp add: fits_def)
  have "converts (Suc d) 0 (depth + 1) body (concat (map to_der us))"
    using elements_Constr.IH(1) [OF fb] elements_Constr.prems(2) by simp
  moreover have "converts d 0 depth bs (concat (map to_der ts))"
    by (rule elements_Constr.IH(2) [OF fits_append(2) [OF elements_Constr.prems(1)] elements_Constr.prems(2)])
  ultimately have "converts d 0 depth (e @ bs) (wrapped 0 tag (concat (map to_der us)) @ concat (map to_der ts))"
    using elements_Constr.hyps elements_Constr.prems(2) len
    by (intro converts_Constr) (simp_all add: out_contents_def child_string_tag_eq)
  then show ?case using elements_Constr.hyps(2) by (simp add: wrapped_def out_tag_def clears_def)
qed

section \<open>The main functions\<close>

text \<open>The conversion from an empty builder, as \<open>CBS_asn1_ber_to_der\<close> calls it.\<close>

lemma convert_ber_iff:
  assumes fits: "fits inp" and r: "ready 0 s b" and empty: "len b = 0"
  shows "(\<exists>s'. cbs_convert_ber 0 False 0 0 (inp, s) = (Some (), (rest, s')) \<and>
      (\<exists>b'. ready 0 s' b' \<and> contents b' = out)) \<longleftrightarrow>
    rest = [] \<and> (\<exists>ts. ber_elements kMaxDepth inp ts \<and> out = concat (map to_der ts))"
proof -
  have enough: "\<exists>s' b'. convert_loop 0 False 0 0 (inp, s) = (Some (), ([], s')) \<and>
      ready 0 s' b' \<and> contents b' = concat (map to_der ts)" if "ber_elements kMaxDepth inp ts" for ts
  proof -
    have "converts 0 0 0 inp (concat (map to_der ts))"
      using elements_converts [OF that fits, of 0 0] by simp
    from this [unfolded converts_def, rule_format, of False "[]" "[]"]
    have "appends 0 (\<lambda>s. convert_loop 0 False 0 0 (inp, s)) [] (concat (map to_der ts))"
      by (simp add: closing_def runs_def)
    moreover have "len b + length (concat (map to_der ts)) + 4 < 2 ^ 64"
      using elements_length [OF that] fits empty by (simp add: fits_def)
    moreover have "contents b = []" using empty by (simp add: contents_def)
    ultimately show ?thesis using appendsD [OF _ r] by (metis append_Nil)
  qed
  have def: "cbs_convert_ber 0 False 0 0 (inp, s) = convert_loop 0 False 0 0 (inp, s)"
    by (simp add: cbs_convert_ber_def kMaxDepth_def CBS_len_def)
  show ?thesis
  proof
    assume "\<exists>s'. cbs_convert_ber 0 False 0 0 (inp, s) = (Some (), (rest, s')) \<and>
      (\<exists>b'. ready 0 s' b' \<and> contents b' = out)"
    then obtain s' b' where c: "convert_loop 0 False 0 0 (inp, s) = (Some (), (rest, s'))"
      and b': "ready 0 s' b'" "contents b' = out" unfolding def by blast
    from convert_sound [OF c] obtain ts where ts: "ber_elements kMaxDepth inp ts"
      by (auto simp: encodes_def)
    with enough [OF ts] c b' show "rest = [] \<and> (\<exists>ts. ber_elements kMaxDepth inp ts \<and> out = concat (map to_der ts))"
      by (auto simp: ready_def)
  next
    assume "rest = [] \<and> (\<exists>ts. ber_elements kMaxDepth inp ts \<and> out = concat (map to_der ts))"
    with enough show "\<exists>s'. cbs_convert_ber 0 False 0 0 (inp, s) = (Some (), (rest, s')) \<and>
      (\<exists>b'. ready 0 s' b' \<and> contents b' = out)" unfolding def by blast
  qed
qed

lemma finish_ready: "ready 0 s b \<Longrightarrow> CBB_finish 0 True s = (Some (contents b), CBB_cleanup s)"
  using flush_ready [of 0 s b] by (simp add: CBB_finish_def and_then_def ready_def)

lemma ready_init:
  assumes "n < 2 ^ 64"
  obtains s b where "CBB_init (\<lambda>_. True) True n = (True, s)" and "ready 0 s b" and "len b = 0"
proof -
  let ?b = "\<lparr>buf = replicate n 0, len = 0, can_resize = True, error = False, realloc_ok = \<lambda>_. True\<rparr>"
  have "CBB_init (\<lambda>_. True) True n = (True, \<lparr>base = Some ?b, chain = []\<rparr>)"
    by (simp add: CBB_init_def cbb_init_def CBB_zero_def)
  moreover have "ready 0 \<lparr>base = Some ?b, chain = []\<rparr> ?b"
    using assms by (simp add: ready_def buf_ok_def grows_def)
  ultimately show ?thesis using that by simp
qed

lemma ber_to_der_iff:
  assumes fits: "fits inp" and found: "cbs_find_ber 0 inp = Some True"
  shows "CBS_asn1_ber_to_der (\<lambda>_. True) True inp = (Some (out, stored), rest) \<longleftrightarrow>
    stored \<and> rest = [] \<and> (\<exists>ts. ber_elements kMaxDepth inp ts \<and> out = concat (map to_der ts))"
proof -
  have "length inp < 2 ^ 64" using fits by (simp add: fits_def)
  then obtain s b where s: "CBB_init (\<lambda>_. True) True (length inp) = (True, s)" "ready 0 s b" "len b = 0"
    by (rule ready_init)
  note conv = convert_ber_iff [OF fits s(2,3)]
  have body: "CBS_asn1_ber_to_der (\<lambda>_. True) True inp =
    (case cbs_convert_ber 0 False 0 0 (inp, s) of
       (None, (inp', _)) \<Rightarrow> (None, inp')
     | (Some _, (inp', cbb)) \<Rightarrow>
         (case CBB_finish 0 True cbb of (None, _) \<Rightarrow> (None, inp') | (Some der, _) \<Rightarrow> (Some (der, True), inp')))"
    by (simp add: CBS_asn1_ber_to_der_def found s(1) CBS_len_def)
  show ?thesis
  proof
    assume "CBS_asn1_ber_to_der (\<lambda>_. True) True inp = (Some (out, stored), rest)"
    then obtain s' t where c: "cbs_convert_ber 0 False 0 0 (inp, s) = (Some (), (rest, s'))"
      and f: "CBB_finish 0 True s' = (Some out, t)" and st: stored
      unfolding body by (auto split: prod.splits option.splits)
    have "convert_loop 0 False 0 0 (inp, s) = (Some (), (rest, s'))"
      using c by (simp add: cbs_convert_ber_def CBS_len_def split: if_splits)
    from convert_sound [OF this] obtain ts where "ber_elements kMaxDepth inp ts" by (auto simp: encodes_def)
    then obtain s'' b' where "cbs_convert_ber 0 False 0 0 (inp, s) = (Some (), ([], s''))" "ready 0 s'' b'"
      "contents b' = concat (map to_der ts)" using conv [of "[]" "concat (map to_der ts)"] by blast
    then show "stored \<and> rest = [] \<and> (\<exists>ts. ber_elements kMaxDepth inp ts \<and> out = concat (map to_der ts))"
      using c f st finish_ready [of s'' b'] \<open>ber_elements kMaxDepth inp ts\<close> by auto
  next
    assume a: "stored \<and> rest = [] \<and> (\<exists>ts. ber_elements kMaxDepth inp ts \<and> out = concat (map to_der ts))"
    then obtain s' b' where "cbs_convert_ber 0 False 0 0 (inp, s) = (Some (), (rest, s'))"
      "ready 0 s' b'" "contents b' = out" using conv [of rest out] by blast
    with a finish_ready [of s' b'] show "CBS_asn1_ber_to_der (\<lambda>_. True) True inp = (Some (out, stored), rest)"
      unfolding body by simp
  qed
qed

section \<open>The quick walk\<close>

text \<open>Values whose DER encoding has at most \<open>k\<close> levels of constructed elements.\<close>

fun wf_asn1 :: "nat \<Rightarrow> asn1 \<Rightarrow> bool" where
  "wf_asn1 k (Prim t body) \<longleftrightarrow> \<not> is_constructed t \<and> length body < 2 ^ 32"
| "wf_asn1 k (Constr t us) \<longleftrightarrow> is_constructed t \<and> \<not> is_string_type t \<and> 0 < k \<and>
     length (concat (map to_der us)) < 2 ^ 32 \<and> (\<forall>u\<in>set us. wf_asn1 (k - 1) u)"

lemma elements_wf: "ber_elements k bs ts \<Longrightarrow> fits bs \<Longrightarrow> \<forall>t\<in>set ts. wf_asn1 k t"
proof (induction rule: ber_elements.induct)
  case (elements_Nil k)
  show ?case by simp
next
  case (elements_Prim t body k bs ts)
  then show ?case using elements_Prim.IH [OF fits_append(2) [OF elements_Prim.prems]] by simp
next
  case (elements_string tag body e k out bs ts)
  have "fits body" by (rule fits_framed [OF elements_string.hyps(3) fits_append(1) [OF elements_string.prems]])
  then have "length out < 2 ^ 32"
    using fragments_length [OF elements_string.hyps(4)] by (simp add: fits_def)
  then show ?case
    using elements_string.IH [OF fits_append(2) [OF elements_string.prems]] by (simp add: constructed_mask)
next
  case (elements_Constr tag body e k us bs ts)
  have fb: "fits body" by (rule fits_framed [OF elements_Constr.hyps(3) fits_append(1) [OF elements_Constr.prems]])
  then have "length (concat (map to_der us)) < 2 ^ 32"
    using elements_length [OF elements_Constr.hyps(4)] by (simp add: fits_def)
  then show ?case
    using elements_Constr.hyps(1,2) elements_Constr.IH(1) [OF fb]
      elements_Constr.IH(2) [OF fits_append(2) [OF elements_Constr.prems]] by simp
qed

lemma find_ber_element:
  assumes "length body < 2 ^ 32"
  shows "find_ber_loop found depth (der_element tag body @ r) =
    (if is_constructed tag then
       if is_string_type tag then Some True
       else (case cbs_find_ber (depth + 1) body of None \<Rightarrow> None
         | Some found' \<Rightarrow> find_ber_loop found' depth r)
     else find_ber_loop found depth r)"
  by (subst find_ber_loop.simps)
    (simp add: read_definite [OF assms] is_indefinite_element [OF assms] skip_header)

lemma find_ber_Nil: "find_ber_loop found depth [] = Some found"
  by (subst find_ber_loop.simps) (simp add: CBS_len_def)

lemma find_ber_der:
  "\<forall>t\<in>set ts. wf_asn1 k t \<Longrightarrow> depth + k \<le> kMaxDepth \<Longrightarrow>
   find_ber_loop False depth (concat (map to_der ts)) = Some False"
proof (induction k arbitrary: ts depth)
  case 0
  then show ?case
  proof (induction ts)
    case (Cons t ts)
    then show ?case by (cases t) (simp_all add: find_ber_element)
  qed (simp add: find_ber_Nil)
next
  case (Suc k)
  from Suc.prems show ?case
  proof (induction ts)
    case (Cons t ts)
    show ?case
    proof (cases t)
      case (Prim g body)
      with Cons show ?thesis by (simp add: find_ber_element)
    next
      case (Constr g us)
      with Cons.prems have "\<forall>u\<in>set us. wf_asn1 k u" by simp
      from Suc.IH [OF this, of "depth + 1"] Cons.prems(2)
      have "cbs_find_ber (depth + 1) (concat (map to_der us)) = Some False"
        by (simp add: cbs_find_ber.simps)
      with Constr Cons show ?thesis by (simp add: find_ber_element)
    qed
  qed (simp add: find_ber_Nil)
qed

lemma find_ber_on_der:
  "\<forall>t\<in>set ts. wf_asn1 kMaxDepth t \<Longrightarrow> cbs_find_ber 0 (concat (map to_der ts)) = Some False"
  using find_ber_der [of ts kMaxDepth 0] by (simp add: cbs_find_ber.simps)

text \<open>A pass that finds nothing to convert returns the first element.\<close>

lemma second_pass:
  assumes "cbs_find_ber 0 (to_der t @ r) = Some False" and "wf_asn1 k t"
  shows "CBS_asn1_ber_to_der mem malloc_base (to_der t @ r) = (Some (to_der t, False), r)"
proof -
  obtain tag body where "to_der t = der_element tag body" "length body < 2 ^ 32"
    using assms(2) by (cases t) auto
  then have "CBS_get_any_asn1_element (to_der t @ r) = (Some (to_der t, tag, length (der_header tag (length body))), r)"
    using get_any_asn1_element_iff by blast
  with assms(1) show ?thesis by (simp add: CBS_asn1_ber_to_der_def and_then_Some ok_def)
qed

text \<open>
  The loop of \<open>cbs_find_ber\<close> lets a later sibling overwrite what an earlier one has found: after
  a constructed element without BER the answer is again \<open>False\<close>.
\<close>

lemma find_ber_overwritten:
  assumes "is_constructed t" and "\<not> is_string_type t" and "length body < 2 ^ 32"
    and "cbs_find_ber (depth + 1) body = Some found" and "depth < kMaxDepth"
  shows "cbs_find_ber depth (der_element t body @ der_element t []) = Some False"
proof -
  have "cbs_find_ber (Suc depth) [] = Some False"
    using assms(5) by (simp add: cbs_find_ber.simps find_ber_Nil)
  then have "find_ber_loop True depth (der_element t []) = Some False"
    "find_ber_loop False depth (der_element t []) = Some False"
    using find_ber_element [of "[]" _ depth t "[]"] assms(1,2) by (simp_all add: find_ber_Nil)
  then show ?thesis
    using assms by (cases found) (simp_all add: cbs_find_ber.simps find_ber_element)
qed

section \<open>Implicitly tagged strings\<close>

lemma implicit_chunks_sound:
  "implicit_chunks t child s = (Some (), s') \<Longrightarrow>
   \<exists>cs. child = concat (map (der_element t) cs) \<and> (\<forall>c\<in>set cs. length c < 2 ^ 32)"
proof (induction t child arbitrary: s rule: implicit_chunks.induct)
  case (1 t child)
  show ?case
  proof (cases "child = []")
    case True
    then show ?thesis by (intro exI [of _ "[]"]) simp
  next
    case False
    with "1.prems" obtain c r where g: "CBS_get_asn1 t child = (Some c, r)"
      and rest: "and_then (CBB_add_bytes 0 c) (\<lambda>_. implicit_chunks t r) s = (Some (), s')"
      by (auto simp: implicit_chunks.simps [of t child] CBS_len_def split: prod.splits option.splits)
    from rest obtain s1 where "implicit_chunks t r s1 = (Some (), s')" by (auto elim!: and_then_eq_SomeE)
    then obtain cs where "r = concat (map (der_element t) cs)" "\<forall>c\<in>set cs. length c < 2 ^ 32"
      using "1.IH" [OF _ g [symmetric]] False by (auto simp: CBS_len_def)
    moreover have "length c < 2 ^ 32 \<and> child = der_element t c @ r" using g by (simp add: CBS_get_asn1_iff)
    ultimately show ?thesis by (intro exI [of _ "c # cs"]) simp
  qed
qed

lemma writes_implicit_chunks:
  "\<forall>c\<in>set cs. length c < 2 ^ 32 \<Longrightarrow> writes 0 (implicit_chunks t (concat (map (der_element t) cs))) (concat cs)"
proof (induction cs)
  case (Cons c cs)
  let ?r = "concat (map (der_element t) cs)"
  have g: "CBS_get_asn1 t (der_element t c @ ?r) = (Some c, ?r)"
    unfolding CBS_get_asn1_iff using Cons.prems by simp
  have "implicit_chunks t (der_element t c @ ?r) = and_then (CBB_add_bytes 0 c) (\<lambda>_. implicit_chunks t ?r)"
    by (subst implicit_chunks.simps) (simp only: CBS_len_element if_False g prod.case option.case)
  moreover have "writes 0 (and_then (CBB_add_bytes 0 c) (\<lambda>_. implicit_chunks t ?r)) (c @ concat cs)"
    using Cons by (intro writes_seq writes_bytes) simp_all
  ultimately show ?case by simp
qed (simp add: implicit_chunks.simps CBS_len_def writes_ok)

lemma chunks_length: "length (concat cs) \<le> length (concat (map (der_element t) cs))"
  by (induction cs) (simp_all add: der_element_def)

lemma implicit_chunks_finish:
  assumes r: "ready 0 s b" "len b = 0" and small: "length child < 2 ^ 63"
  shows "fst (and_then (implicit_chunks t child) (\<lambda>_. CBB_finish 0 True) s) = Some out \<longleftrightarrow>
    (\<exists>cs. child = concat (map (der_element t) cs) \<and> (\<forall>c\<in>set cs. length c < 2 ^ 32) \<and> out = concat cs)"
proof -
  have run: "fst (and_then (implicit_chunks t child) (\<lambda>_. CBB_finish 0 True) s) = Some (concat cs)"
    if c: "child = concat (map (der_element t) cs)" "\<forall>c\<in>set cs. length c < 2 ^ 32" for cs
  proof -
    have "len b + length (concat cs) + 4 < 2 ^ 64"
      using chunks_length [of cs t] small r(2) c(1) by simp
    from writesD [OF writes_implicit_chunks [OF c(2), of t] r(1) this] obtain s' b' where
      "implicit_chunks t child s = (Some (), s')" "ready 0 s' b'" "contents b' = contents b @ concat cs"
      unfolding c(1) by blast
    with r(2) finish_ready [of s' b'] show ?thesis by (simp add: and_then_def contents_def)
  qed
  show ?thesis
  proof
    assume a: "fst (and_then (implicit_chunks t child) (\<lambda>_. CBB_finish 0 True) s) = Some out"
    then obtain s' where "implicit_chunks t child s = (Some (), s')"
      by (auto simp: and_then_def split: prod.splits option.splits)
    from implicit_chunks_sound [OF this] a run
    show "\<exists>cs. child = concat (map (der_element t) cs) \<and> (\<forall>c\<in>set cs. length c < 2 ^ 32) \<and> out = concat cs"
      by fastforce
  qed (use run in blast)
qed

lemma implicit_string_iff:
  assumes prim: "\<not> is_constructed outer" and small: "length s < 2 ^ 63"
  shows "CBS_get_asn1_implicit_string (\<lambda>_. True) True outer inner s = (Some (out, stored), r) \<longleftrightarrow>
    (if stored then \<exists>cs. s = der_element (outer OR CBS_ASN1_CONSTRUCTED) (concat (map (der_element inner) cs)) @ r \<and>
        length (concat (map (der_element inner) cs)) < 2 ^ 32 \<and> (\<forall>c\<in>set cs. length c < 2 ^ 32) \<and> out = concat cs
     else s = der_element outer out @ r \<and> length out < 2 ^ 32)"
proof -
  let ?c = "outer OR CBS_ASN1_CONSTRUCTED"
  have "?c AND CBS_ASN1_CONSTRUCTED = CBS_ASN1_CONSTRUCTED"
    by (rule bit_word_eqI) (auto simp: bit_simps)
  moreover have "CBS_ASN1_CONSTRUCTED \<noteq> 0" by (simp add: CBS_ASN1_CONSTRUCTED_def)
  ultimately have "is_constructed ?c" by (simp add: is_constructed_def)
  then have ne: "?c \<noteq> outer" using prim by metis
  have peek: "CBS_peek_asn1_tag (der_element t b @ r) outer \<longleftrightarrow> t = outer" for t b r
  proof -
    have "parse_asn1_tag (der_element t b @ r) = (Some t, der_length (length b) @ b @ r)"
      unfolding parse_asn1_tag_iff by (simp add: der_element_def der_header_def)
    moreover have "\<not> CBS_len (der_element t b @ r) < 1"
      by (cases "der_element t b") (simp_all add: der_element_not_Nil CBS_len_def)
    ultimately show ?thesis by (simp add: CBS_peek_asn1_tag_def)
  qed
  have "length s < 2 ^ 64" using small by simp
  then obtain s0 b0 where s0: "CBB_init (\<lambda>_. True) True (length s) = (True, s0)" "ready 0 s0 b0" "len b0 = 0"
    by (rule ready_init)
  let ?run = "\<lambda>child. fst (and_then (implicit_chunks inner child) (\<lambda>_. CBB_finish 0 True) s0)"
  show ?thesis
  proof (cases "CBS_peek_asn1_tag s outer")
    case True
    have "CBS_get_asn1_implicit_string (\<lambda>_. True) True outer inner s = (Some (out, stored), r) \<longleftrightarrow>
        \<not> stored \<and> CBS_get_asn1 outer s = (Some out, r)"
      using True by (auto simp: CBS_get_asn1_implicit_string_def and_then_def ok_def split: prod.splits option.splits)
    also have "\<dots> \<longleftrightarrow> \<not> stored \<and> s = der_element outer out @ r \<and> length out < 2 ^ 32"
      by (auto simp: CBS_get_asn1_iff)
    finally show ?thesis using True peek ne by auto
  next
    case False
    have run: "?run child = Some out \<longleftrightarrow>
        (\<exists>cs. child = concat (map (der_element inner) cs) \<and> (\<forall>c\<in>set cs. length c < 2 ^ 32) \<and> out = concat cs)"
      if "length child < 2 ^ 32" for child
      by (rule implicit_chunks_finish [OF s0(2,3)]) (use that in simp)
    have "CBS_get_asn1_implicit_string (\<lambda>_. True) True outer inner s = (Some (out, stored), r) \<longleftrightarrow>
        stored \<and> (\<exists>child. CBS_get_asn1 ?c s = (Some child, r) \<and> ?run child = Some out)"
      using False s0(1)
      by (auto simp: CBS_get_asn1_implicit_string_def CBS_len_def split: prod.splits option.splits)
    also have "\<dots> \<longleftrightarrow> stored \<and> (\<exists>child. length child < 2 ^ 32 \<and> s = der_element ?c child @ r \<and> ?run child = Some out)"
      by (simp add: CBS_get_asn1_iff conj_ac)
    also have "\<dots> \<longleftrightarrow> stored \<and> (\<exists>child. length child < 2 ^ 32 \<and> s = der_element ?c child @ r \<and>
        (\<exists>cs. child = concat (map (der_element inner) cs) \<and> (\<forall>c\<in>set cs. length c < 2 ^ 32) \<and> out = concat cs))"
      by (simp only: run cong: conj_cong)
    finally show ?thesis using False peek by auto
  qed
qed

end
