(* ===== verification/Unicode.thy ===== *)
theory Unicode
  imports Cbb
begin

text \<open>
  Character encodings over the reader and the builder (\<open>crypto/bytestring/unicode.c\<close>): UTF-8,
  Latin-1, UCS-2 and UTF-32.  The specification \<open>utf8\<close> is the encoding form of the Unicode
  standard in arithmetic; the reader is shown to accept exactly the encodings of valid code
  points, so that overlong forms, surrogates and truncated sequences are refused, and the writer
  to produce them.
\<close>

section \<open>Code points\<close>

definition is_valid_code_point :: "u32 \<Rightarrow> bool" where
  "is_valid_code_point v \<longleftrightarrow>
     \<not> (v > 0x10ffff \<or> v AND 0xfffe = 0xfffe \<or> (v \<ge> 0xfdd0 \<and> v \<le> 0xfdef) \<or>
        (v \<ge> 0xd800 \<and> v \<le> 0xdfff))"

definition BOTTOM_BITS :: "nat \<Rightarrow> byte" where
  "BOTTOM_BITS n = ucast (push_bit n 1 - 1 :: u32)"

definition TOP_BITS :: "nat \<Rightarrow> byte" where
  "TOP_BITS n = NOT (BOTTOM_BITS (8 - n))"

section \<open>Readers\<close>

text \<open>The loop over the continuation bytes; \<open>None\<close> is the \<open>return 0\<close> inside it.\<close>

fun utf8_continuation :: "nat \<Rightarrow> u32 \<Rightarrow> (cbs, u32) oper" where
  "utf8_continuation 0 v = ok v"
| "utf8_continuation (Suc n) v =
     and_then CBS_get_u8 (\<lambda>c.
       if c AND TOP_BITS 2 \<noteq> TOP_BITS 1 then fail
       else utf8_continuation n (push_bit 6 v OR ucast (c AND BOTTOM_BITS 6)))"

definition utf8_check :: "u32 \<Rightarrow> u32 \<Rightarrow> (cbs, u32) oper" where
  "utf8_check lower_bound v =
     (if \<not> is_valid_code_point v \<or> v < lower_bound then fail else ok v)"

definition cbs_get_utf8 :: "(cbs, u32) oper" where
  "cbs_get_utf8 =
     and_then CBS_get_u8 (\<lambda>c.
       if c \<le> 0x7f then ok (ucast c)
       else
         let lead =
           (if c AND TOP_BITS 3 = TOP_BITS 2 then Some (c AND BOTTOM_BITS 5, 1, 0x80)
            else if c AND TOP_BITS 4 = TOP_BITS 3 then Some (c AND BOTTOM_BITS 4, 2, 0x800)
            else if c AND TOP_BITS 5 = TOP_BITS 4 then Some (c AND BOTTOM_BITS 3, 3, 0x10000)
            else None)
         in case lead of None \<Rightarrow> fail
            | Some (v, n, lower_bound) \<Rightarrow>
              and_then (utf8_continuation n (ucast v)) (utf8_check lower_bound))"

definition cbs_get_latin1 :: "(cbs, u32) oper" where
  "cbs_get_latin1 = and_then CBS_get_u8 (\<lambda>c. ok (ucast c))"

definition cbs_get_ucs2_be :: "(cbs, u32) oper" where
  "cbs_get_ucs2_be =
     and_then CBS_get_u16 (\<lambda>c. if \<not> is_valid_code_point (ucast c) then fail else ok (ucast c))"

definition cbs_get_utf32_be :: "(cbs, u32) oper" where
  "cbs_get_utf32_be =
     and_then CBS_get_u32 (\<lambda>u. if is_valid_code_point u then ok u else fail)"

section \<open>Writers\<close>

definition cbb_get_utf8_len :: "u32 \<Rightarrow> nat" where
  "cbb_get_utf8_len u =
     (if u \<le> 0x7f then 1 else if u \<le> 0x7ff then 2 else if u \<le> 0xffff then 3 else 4)"

text \<open>The byte that \<open>t | (u >> k)\<close> and \<open>TOP_BITS(1) | ((u >> k) & BOTTOM_BITS(6))\<close> denote.\<close>

definition lead_byte :: "byte \<Rightarrow> u32 \<Rightarrow> nat \<Rightarrow> byte" where
  "lead_byte t u k = ucast (ucast t OR drop_bit k u)"

definition continuation_byte :: "u32 \<Rightarrow> nat \<Rightarrow> byte" where
  "continuation_byte u k = ucast (ucast (TOP_BITS 1) OR (drop_bit k u AND ucast (BOTTOM_BITS 6)))"

definition cbb_add_utf8 :: "nat \<Rightarrow> u32 \<Rightarrow> (cbb, unit) oper" where
  "cbb_add_utf8 d u =
     (if \<not> is_valid_code_point u then fail
      else if u \<le> 0x7f then CBB_add_u8 d (ucast u)
      else if u \<le> 0x7ff then
        and_then (CBB_add_u8 d (lead_byte (TOP_BITS 2) u 6)) (\<lambda>_.
          CBB_add_u8 d (continuation_byte u 0))
      else if u \<le> 0xffff then
        and_then (CBB_add_u8 d (lead_byte (TOP_BITS 3) u 12)) (\<lambda>_.
          and_then (CBB_add_u8 d (continuation_byte u 6)) (\<lambda>_.
            CBB_add_u8 d (continuation_byte u 0)))
      else if u \<le> 0x10ffff then
        and_then (CBB_add_u8 d (lead_byte (TOP_BITS 4) u 18)) (\<lambda>_.
          and_then (CBB_add_u8 d (continuation_byte u 12)) (\<lambda>_.
            and_then (CBB_add_u8 d (continuation_byte u 6)) (\<lambda>_.
              CBB_add_u8 d (continuation_byte u 0))))
      else fail)"

definition cbb_add_latin1 :: "nat \<Rightarrow> u32 \<Rightarrow> (cbb, unit) oper" where
  "cbb_add_latin1 d u = (if u \<le> 0xff then CBB_add_u8 d (ucast u) else fail)"

definition cbb_add_ucs2_be :: "nat \<Rightarrow> u32 \<Rightarrow> (cbb, unit) oper" where
  "cbb_add_ucs2_be d u =
     (if u \<le> 0xffff \<and> is_valid_code_point u then CBB_add_u16 d (ucast u) else fail)"

definition cbb_add_utf32_be :: "nat \<Rightarrow> u32 \<Rightarrow> (cbb, unit) oper" where
  "cbb_add_utf32_be d u = (if is_valid_code_point u then CBB_add_u32 d u else fail)"

section \<open>The encoding form\<close>

definition utf8 :: "nat \<Rightarrow> byte list" where
  "utf8 n =
     (if n < 0x80 then [of_nat n]
      else if n < 0x800 then [of_nat (0xc0 + n div 64), of_nat (0x80 + n mod 64)]
      else if n < 0x10000 then
        [of_nat (0xe0 + n div 4096), of_nat (0x80 + n div 64 mod 64), of_nat (0x80 + n mod 64)]
      else
        [of_nat (0xf0 + n div 262144), of_nat (0x80 + n div 4096 mod 64),
         of_nat (0x80 + n div 64 mod 64), of_nat (0x80 + n mod 64)])"

lemma bits_values:
  "BOTTOM_BITS 3 = mask 3" "BOTTOM_BITS 4 = mask 4" "BOTTOM_BITS 5 = mask 5" "BOTTOM_BITS 6 = mask 6"
  "TOP_BITS 1 = 0x80" "TOP_BITS 2 = 0xc0" "TOP_BITS 3 = 0xe0" "TOP_BITS 4 = 0xf0" "TOP_BITS 5 = 0xf8"
  by (simp_all add: BOTTOM_BITS_def TOP_BITS_def mask_eq_exp_minus_1)

lemma unat_and_mask: "unat (w AND mask k :: 'a::len word) = unat w mod 2 ^ k"
  by (simp only: unsigned_take_bit_eq flip: take_bit_eq_mask) (simp only: take_bit_eq_mod)

lemma unat_and_not_mask: "unat (w AND NOT (mask k) :: 'a::len word) = unat w div 2 ^ k * 2 ^ k"
proof -
  have "w AND NOT (mask k) = push_bit k (drop_bit k w)"
    by (rule bit_word_eqI) (auto simp: bit_simps)
  moreover have "unat w div 2 ^ k * 2 ^ k < 2 ^ LENGTH('a)"
    by (rule order_le_less_trans [OF _ unsigned_less [of w]]) simp
  ultimately show ?thesis
    by (simp only: unsigned_push_bit_eq unat_drop_bit_eq)
      (simp add: push_bit_eq_mult drop_bit_eq_div take_bit_nat_eq_self_iff)
qed

lemma top_bits_iff:
  "c AND 0xc0 = 0x80 \<longleftrightarrow> unat c div 64 = 2" "c AND 0xe0 = 0xc0 \<longleftrightarrow> unat c div 32 = 6"
  "c AND 0xf0 = 0xe0 \<longleftrightarrow> unat c div 16 = 14" "c AND 0xf8 = 0xf0 \<longleftrightarrow> unat c div 8 = 30" for c :: byte
proof -
  have eq: "c AND NOT (mask k) = t \<longleftrightarrow> unat c div 2 ^ k * 2 ^ k = unat t" for k and t :: byte
    by (simp only: word_unat_eq_iff unat_and_not_mask)
  have m: "NOT (mask 6) = (0xc0 :: byte)" "NOT (mask 5) = (0xe0 :: byte)"
    "NOT (mask 4) = (0xf0 :: byte)" "NOT (mask 3) = (0xf8 :: byte)"
    by (simp_all add: mask_eq_exp_minus_1)
  show "c AND 0xc0 = 0x80 \<longleftrightarrow> unat c div 64 = 2" using eq [of 6 "0x80"] unfolding m by auto
  show "c AND 0xe0 = 0xc0 \<longleftrightarrow> unat c div 32 = 6" using eq [of 5 "0xc0"] unfolding m by auto
  show "c AND 0xf0 = 0xe0 \<longleftrightarrow> unat c div 16 = 14" using eq [of 4 "0xe0"] unfolding m by auto
  show "c AND 0xf8 = 0xf0 \<longleftrightarrow> unat c div 8 = 30" using eq [of 3 "0xf0"] unfolding m by auto
qed

lemma push6_or:
  fixes v :: u32
  assumes "unat v < 2 ^ 26"
  shows "unat (push_bit 6 v OR ucast (c AND mask 6 :: byte)) = 64 * unat v + unat c mod 64"
proof -
  have "push_bit 6 v AND ucast (c AND mask 6) = 0"
    by (rule bit_word_eqI) (auto simp: bit_simps)
  then have "push_bit 6 v OR ucast (c AND mask 6) = push_bit 6 v + ucast (c AND mask 6)"
    by (rule disjunctive_add_eq_or [symmetric])
  moreover have "unat (push_bit 6 v) = 64 * unat v"
    using assms by (subst unsigned_push_bit_eq) (simp add: push_bit_eq_mult take_bit_nat_eq_self)
  moreover have "unat (ucast (c AND mask 6) :: u32) = unat c mod 64"
    by (simp only: unsigned_ucast_eq unat_and_mask) (simp add: take_bit_nat_eq_self_iff)
  ultimately show ?thesis using assms by (simp only: unat_word_ariths) simp
qed

section \<open>The reader accepts exactly the encodings of valid code points\<close>

definition sextets :: "nat \<Rightarrow> byte list \<Rightarrow> nat" where
  "sextets v bs = foldl (\<lambda>a b. 64 * a + unat b mod 64) v bs"

lemma utf8_continuation_iff:
  assumes "(unat v + 1) * 64 ^ n \<le> 2 ^ 32"
  shows "utf8_continuation n v s = (Some w, r) \<longleftrightarrow>
    (\<exists>bs. s = bs @ r \<and> length bs = n \<and> (\<forall>b\<in>set bs. unat b div 64 = 2) \<and> unat w = sextets (unat v) bs)"
  using assms
proof (induction n arbitrary: v s)
  case 0
  then show ?case by (auto simp: sextets_def word_unat_eq_iff)
next
  case (Suc n)
  show ?case
  proof (cases s)
    case Nil
    then show ?thesis by (simp add: and_then_def cbs_simps)
  next
    case (Cons c t)
    let ?v = "push_bit 6 v OR ucast (c AND mask 6)"
    have "(unat v + 1) * 64 ^ 1 \<le> (unat v + 1) * 64 ^ Suc n"
      by (intro mult_le_mono2 power_increasing) simp_all
    with Suc.prems have "unat v < 2 ^ 26" by simp
    then have v: "unat ?v = 64 * unat v + unat c mod 64" by (rule push6_or)
    have "(unat ?v + 1) * 64 ^ n \<le> (64 * (unat v + 1)) * 64 ^ n"
      unfolding v by (intro mult_le_mono1) simp
    also have "\<dots> \<le> 2 ^ 32" using Suc.prems by (simp add: algebra_simps)
    finally have IH: "utf8_continuation n ?v t = (Some w, r) \<longleftrightarrow>
      (\<exists>bs. t = bs @ r \<and> length bs = n \<and> (\<forall>b\<in>set bs. unat b div 64 = 2) \<and> unat w = sextets (unat ?v) bs)"
      by (rule Suc.IH)
    have "utf8_continuation (Suc n) v s = (Some w, r) \<longleftrightarrow>
        unat c div 64 = 2 \<and> utf8_continuation n ?v t = (Some w, r)"
      by (simp add: Cons and_then_def cbs_simps bits_values [simplified] top_bits_iff fail_def)
    also have "\<dots> \<longleftrightarrow> (\<exists>bs. s = bs @ r \<and> length bs = Suc n \<and> (\<forall>b\<in>set bs. unat b div 64 = 2) \<and>
        unat w = sextets (unat v) bs)" (is "_ \<longleftrightarrow> ?R")
    proof
      assume "unat c div 64 = 2 \<and> utf8_continuation n ?v t = (Some w, r)"
      then obtain bs where "unat c div 64 = 2" "t = bs @ r" "length bs = n" "\<forall>b\<in>set bs. unat b div 64 = 2"
        "unat w = sextets (unat ?v) bs" using IH by blast
      then show ?R using Cons v by (intro exI [of _ "c # bs"]) (simp add: sextets_def)
    next
      assume ?R
      then obtain bs where "s = bs @ r" "length bs = Suc n" "\<forall>b\<in>set bs. unat b div 64 = 2"
        "unat w = sextets (unat v) bs" by blast
      with Cons v show "unat c div 64 = 2 \<and> utf8_continuation n ?v t = (Some w, r)"
        by (cases bs) (auto simp: sextets_def IH)
    qed
    finally show ?thesis .
  qed
qed

lemma valid_le: "is_valid_code_point v \<Longrightarrow> unat v \<le> 0x10ffff"
  by (auto simp: is_valid_code_point_def word_le_nat_alt not_less)

lemma low_valid: "unat v < 0x80 \<Longrightarrow> is_valid_code_point v"
proof -
  assume lt: "unat v < 0x80"
  then have "v AND mask 7 = v" by (simp add: and_mask_eq_self_iff)
  moreover have "\<not> bit (v AND mask 7) 15" by (simp add: bit_and_iff bit_mask_iff)
  ultimately have "\<not> bit (v AND 0xfffe) 15" by (simp only: bit_and_iff) simp
  moreover have "bit (0xfffe :: u32) 15" by simp
  ultimately have "v AND 0xfffe \<noteq> 0xfffe" by metis
  with lt show ?thesis by (simp add: is_valid_code_point_def word_le_nat_alt word_less_nat_alt)
qed

text \<open>The bytes of one sequence, as the reader sees them and as the encoding form has them.\<close>

definition utf8_sequence :: "byte \<Rightarrow> byte list \<Rightarrow> nat \<Rightarrow> bool" where
  "utf8_sequence c bs n \<longleftrightarrow> (\<forall>b\<in>set bs. unat b div 64 = 2) \<and>
     (unat c < 128 \<and> bs = [] \<and> n = unat c \<or>
      unat c div 32 = 6 \<and> length bs = 1 \<and> n = sextets (unat c mod 32) bs \<and> 0x80 \<le> n \<or>
      unat c div 16 = 14 \<and> length bs = 2 \<and> n = sextets (unat c mod 16) bs \<and> 0x800 \<le> n \<or>
      unat c div 8 = 30 \<and> length bs = 3 \<and> n = sextets (unat c mod 8) bs \<and> 0x10000 \<le> n)"

lemma get_utf8_sequence:
  "cbs_get_utf8 (c # t) = (Some v, r) \<longleftrightarrow>
    is_valid_code_point v \<and> (\<exists>bs. t = bs @ r \<and> utf8_sequence c bs (unat v))"
proof -
  have first: "unat (ucast (c AND mask k) :: u32) = unat c mod 2 ^ k" if "k \<le> 8" for k
  proof -
    have "unat c mod 2 ^ k < 2 ^ 8" by (rule order_le_less_trans [OF mod_less_eq_dividend]) (simp add: unat_byte_less)
    then show ?thesis
      by (simp only: unsigned_ucast_eq unat_and_mask) (simp add: take_bit_nat_eq_self_iff)
  qed
  have small: "unat c mod k + 1 \<le> k" if "0 < k" for k using that by (simp add: Suc_le_eq)
  note cont = utf8_continuation_iff
  have c1: "utf8_continuation 1 (ucast (c AND mask 5)) t = (Some v, r) \<longleftrightarrow>
    (\<exists>bs. t = bs @ r \<and> length bs = 1 \<and> (\<forall>b\<in>set bs. unat b div 64 = 2) \<and> unat v = sextets (unat c mod 32) bs)"
    using cont [of "ucast (c AND mask 5)" 1 t v r] first [of 5] small [of 32] by simp
  have c2: "utf8_continuation 2 (ucast (c AND mask 4)) t = (Some v, r) \<longleftrightarrow>
    (\<exists>bs. t = bs @ r \<and> length bs = 2 \<and> (\<forall>b\<in>set bs. unat b div 64 = 2) \<and> unat v = sextets (unat c mod 16) bs)"
    using cont [of "ucast (c AND mask 4)" 2 t v r] first [of 4] small [of 16] by simp
  have c3: "utf8_continuation 3 (ucast (c AND mask 3)) t = (Some v, r) \<longleftrightarrow>
    (\<exists>bs. t = bs @ r \<and> length bs = 3 \<and> (\<forall>b\<in>set bs. unat b div 64 = 2) \<and> unat v = sextets (unat c mod 8) bs)"
    using cont [of "ucast (c AND mask 3)" 3 t v r] first [of 3] small [of 8] by simp
  have tail: "and_then (utf8_continuation k w) (utf8_check b) t = (Some v, r)
    \<longleftrightarrow> utf8_continuation k w t = (Some v, r) \<and> is_valid_code_point v \<and> unat b \<le> unat v" for k w b
    by (auto simp: and_then_def utf8_check_def fail_def ok_def word_less_nat_alt split: prod.splits option.splits if_splits)
  have le: "c \<le> 0x7f \<longleftrightarrow> unat c < 128" by (auto simp: word_le_nat_alt)
  have "unat c < 2 ^ 32" using unat_byte_less [of c] by simp
  then have uc: "unat (ucast c :: u32) = unat c" by (simp add: unsigned_ucast_eq take_bit_nat_eq_self_iff)
  show ?thesis
  proof (cases "unat c < 128")
    case True
    then have "unat c div 32 \<noteq> 6" "unat c div 16 \<noteq> 14" "unat c div 8 \<noteq> 30" by auto
    then show ?thesis using True uc low_valid [of "ucast c"] low_valid [of v]
      by (auto simp: cbs_get_utf8_def and_then_def cbs_simps le utf8_sequence_def ok_def word_unat_eq_iff)
  next
    case False
    consider "unat c div 32 = 6" | "unat c div 16 = 14" | "unat c div 8 = 30"
      | "unat c div 32 \<noteq> 6" "unat c div 16 \<noteq> 14" "unat c div 8 \<noteq> 30" by blast
    then show ?thesis
    proof cases
      case 1
      then have "unat c div 16 \<noteq> 14" "unat c div 8 \<noteq> 30" by auto
      with 1 False show ?thesis
        using c1 by (auto simp: cbs_get_utf8_def and_then_Some cbs_simps le bits_values top_bits_iff tail utf8_sequence_def
            simp del: utf8_continuation.simps)
    next
      case 2
      then have "unat c div 32 \<noteq> 6" "unat c div 8 \<noteq> 30" by auto
      with 2 False show ?thesis
        using c2 by (auto simp: cbs_get_utf8_def and_then_Some cbs_simps le bits_values top_bits_iff tail utf8_sequence_def
            simp del: utf8_continuation.simps)
    next
      case 3
      then have "unat c div 32 \<noteq> 6" "unat c div 16 \<noteq> 14" by auto
      with 3 False show ?thesis
        using c3 by (auto simp: cbs_get_utf8_def and_then_Some cbs_simps le bits_values top_bits_iff tail utf8_sequence_def
            simp del: utf8_continuation.simps)
    next
      case 4
      with False show ?thesis
        by (auto simp: cbs_get_utf8_def and_then_Some cbs_simps le bits_values top_bits_iff utf8_sequence_def)
    qed
  qed
qed

lemma sextet_list: "length bs = Suc 0 \<longleftrightarrow> (\<exists>x. bs = [x])" "length bs = 2 \<longleftrightarrow> (\<exists>x y. bs = [x, y])"
  "length bs = 3 \<longleftrightarrow> (\<exists>x y z. bs = [x, y, z])"
  by (auto simp: length_Suc_conv numeral_eq_Suc)

lemma byte_eq_iff: "m < 256 \<Longrightarrow> b = of_nat m \<longleftrightarrow> unat (b :: byte) = m"
  by (auto simp: unat_of_nat_small word_eq_of_natI)

lemma lead_eq: "q < w \<Longrightarrow> c = p * w + q \<longleftrightarrow> c div w = p \<and> c mod w = (q :: nat)"
  by auto

lemma continuation_eq: "b = of_nat (128 + k mod 64) \<longleftrightarrow> unat (b :: byte) div 64 = 2 \<and> unat b mod 64 = k mod 64"
proof -
  have "k mod 64 < 64" by simp
  then have "b = of_nat (128 + k mod 64) \<longleftrightarrow> unat b = 2 * 64 + k mod 64"
    by (subst byte_eq_iff) simp_all
  also have "\<dots> \<longleftrightarrow> unat b div 64 = 2 \<and> unat b mod 64 = k mod 64"
    using \<open>k mod 64 < 64\<close> by (rule lead_eq)
  finally show ?thesis .
qed

lemma sextet_eq: "n = 64 * a + x mod 64 \<longleftrightarrow> a = n div 64 \<and> x mod 64 = n mod (64 :: nat)"
proof
  assume "a = n div 64 \<and> x mod 64 = n mod 64"
  then show "n = 64 * a + x mod 64" by (metis mult_div_mod_eq)
qed simp

lemma sextet_eq': "64 * a + x mod 64 = n \<longleftrightarrow> a = n div 64 \<and> x mod 64 = n mod (64 :: nat)"
  using sextet_eq [of n a x] by metis

lemma sextets_simps [simp]: "sextets v [] = v" "sextets v (b # bs) = sextets (64 * v + unat b mod 64) bs"
  by (simp_all add: sextets_def)

lemma sextets_less: "sextets v bs < (v + 1) * 64 ^ length bs"
proof (induction bs arbitrary: v)
  case (Cons b bs)
  have "sextets v (b # bs) < (64 * v + unat b mod 64 + 1) * 64 ^ length bs"
    using Cons [of "64 * v + unat b mod 64"] by simp
  also have "\<dots> \<le> (64 * (v + 1)) * 64 ^ length bs"
    by (intro mult_le_mono1) (simp add: Suc_le_eq)
  finally show ?case by (simp add: algebra_simps)
qed simp

lemma utf8_sequence_long:
  assumes "0x10000 \<le> n"
  shows "utf8_sequence c bs n \<longleftrightarrow> unat c div 8 = 30 \<and> length bs = 3 \<and>
    (\<forall>b\<in>set bs. unat b div 64 = 2) \<and> n = sextets (unat c mod 8) bs"
proof -
  have "sextets (unat c mod 32) bs < 32 * 64" if "length bs = 1"
    using sextets_less [of "unat c mod 32" bs] that by (auto elim: less_le_trans)
  moreover have "sextets (unat c mod 16) bs < 16 * 4096" if "length bs = 2"
    using sextets_less [of "unat c mod 16" bs] that by (auto elim: less_le_trans)
  ultimately show ?thesis using assms by (auto simp: utf8_sequence_def)
qed

lemma utf8_sequence_middle:
  assumes "0x800 \<le> n" and "n < 0x10000"
  shows "utf8_sequence c bs n \<longleftrightarrow> unat c div 16 = 14 \<and> length bs = 2 \<and>
    (\<forall>b\<in>set bs. unat b div 64 = 2) \<and> n = sextets (unat c mod 16) bs"
proof -
  have "sextets (unat c mod 32) bs < 32 * 64" if "length bs = 1"
    using sextets_less [of "unat c mod 32" bs] that by (auto elim: less_le_trans)
  then show ?thesis using assms by (auto simp: utf8_sequence_def)
qed

lemma utf8_sequence_iff:
  assumes "n \<le> 0x10ffff"
  shows "utf8_sequence c bs n \<longleftrightarrow> c # bs = utf8 n"
proof -
  consider "n < 0x80" | "0x80 \<le> n" "n < 0x800" | "0x800 \<le> n" "n < 0x10000" | "0x10000 \<le> n"
    by linarith
  then show ?thesis
  proof cases
    case 1
    then show ?thesis
      using byte_eq_iff [of n c] by (auto simp: utf8_def utf8_sequence_def)
  next
    case 2
    have q: "n div 64 < 32" using 2 by simp
    then have "c = of_nat (0xc0 + n div 64) \<longleftrightarrow> unat c = 6 * 32 + n div 64"
      by (subst byte_eq_iff) simp_all
    then have c: "c = of_nat (0xc0 + n div 64) \<longleftrightarrow> unat c div 32 = 6 \<and> unat c mod 32 = n div 64"
      by (simp only: lead_eq [OF q])
    have u: "utf8 n = [of_nat (0xc0 + n div 64), of_nat (0x80 + n mod 64)]"
      using 2 by (simp add: utf8_def)
    have "c # bs = utf8 n \<longleftrightarrow> (\<exists>x. bs = [x] \<and> unat c div 32 = 6 \<and> unat c mod 32 = n div 64 \<and>
        x = of_nat (0x80 + n mod 64))"
      unfolding u list.inject c by blast
    then have "c # bs = utf8 n \<longleftrightarrow> (\<exists>x. bs = [x] \<and> unat c div 32 = 6 \<and> unat c mod 32 = n div 64 \<and>
        unat x div 64 = 2 \<and> unat x mod 64 = n mod 64)"
      by (simp only: continuation_eq conj_assoc)
    moreover have "utf8_sequence c bs n \<longleftrightarrow> (\<exists>x. bs = [x] \<and> unat c div 32 = 6 \<and> unat x div 64 = 2 \<and>
        n = 64 * (unat c mod 32) + unat x mod 64)"
      using 2 by (auto simp: utf8_sequence_def sextet_list)
    ultimately show ?thesis by (simp only: sextet_eq sextet_eq' conj_ac)
  next
    case 3
    have q: "n div 64 div 64 < 16" using 3 by simp
    then have "c = of_nat (0xe0 + n div 64 div 64) \<longleftrightarrow> unat c = 14 * 16 + n div 64 div 64"
      by (subst byte_eq_iff) simp_all
    then have c: "c = of_nat (0xe0 + n div 64 div 64) \<longleftrightarrow> unat c div 16 = 14 \<and> unat c mod 16 = n div 64 div 64"
      by (simp only: lead_eq [OF q])
    have u: "utf8 n = [of_nat (0xe0 + n div 64 div 64), of_nat (0x80 + n div 64 mod 64), of_nat (0x80 + n mod 64)]"
      using 3 by (simp add: utf8_def flip: div_mult2_eq)
    have "c # bs = utf8 n \<longleftrightarrow> (\<exists>x y. bs = [x, y] \<and> unat c div 16 = 14 \<and> unat c mod 16 = n div 64 div 64 \<and>
        x = of_nat (0x80 + n div 64 mod 64) \<and> y = of_nat (0x80 + n mod 64))"
      unfolding u list.inject c by blast
    then have "c # bs = utf8 n \<longleftrightarrow> (\<exists>x y. bs = [x, y] \<and> unat c div 16 = 14 \<and> unat c mod 16 = n div 64 div 64 \<and>
        unat x div 64 = 2 \<and> unat x mod 64 = n div 64 mod 64 \<and> unat y div 64 = 2 \<and> unat y mod 64 = n mod 64)"
      by (simp only: continuation_eq conj_assoc)
    moreover have "utf8_sequence c bs n \<longleftrightarrow> (\<exists>x y. bs = [x, y] \<and> unat c div 16 = 14 \<and> unat x div 64 = 2 \<and> unat y div 64 = 2 \<and>
        n = 64 * (64 * (unat c mod 16) + unat x mod 64) + unat y mod 64)"
    proof
      assume "utf8_sequence c bs n"
      then have l: "unat c div 16 = 14" "length bs = 2" "\<forall>b\<in>set bs. unat b div 64 = 2"
        "n = sextets (unat c mod 16) bs" unfolding utf8_sequence_middle [OF 3] by blast+
      from l(2) obtain x y where "bs = [x, y]" unfolding sextet_list by blast
      with l show "\<exists>x y. bs = [x, y] \<and> unat c div 16 = 14 \<and>
          unat x div 64 = 2 \<and> unat y div 64 = 2 \<and>
          n = 64 * (64 * (unat c mod 16) + unat x mod 64) + unat y mod 64"
        by (intro exI [of _ x] exI [of _ y]) (simp only: sextets_simps list.set ball_simps simp_thms insert_iff)
    qed (auto simp: utf8_sequence_middle [OF 3])
    ultimately show ?thesis by (simp only: sextet_eq sextet_eq' conj_ac)
  next
    case 4
    have q: "n div 64 div 64 div 64 < 8" using assms by simp
    then have "c = of_nat (0xf0 + n div 64 div 64 div 64) \<longleftrightarrow> unat c = 30 * 8 + n div 64 div 64 div 64"
      by (subst byte_eq_iff) simp_all
    then have c: "c = of_nat (0xf0 + n div 64 div 64 div 64) \<longleftrightarrow>
        unat c div 8 = 30 \<and> unat c mod 8 = n div 64 div 64 div 64"
      by (simp only: lead_eq [OF q])
    have u: "utf8 n = [of_nat (0xf0 + n div 64 div 64 div 64), of_nat (0x80 + n div 64 div 64 mod 64), of_nat (0x80 + n div 64 mod 64), of_nat (0x80 + n mod 64)]"
      using 4 by (simp add: utf8_def flip: div_mult2_eq)
    have "c # bs = utf8 n \<longleftrightarrow> (\<exists>x y z. bs = [x, y, z] \<and> unat c div 8 = 30 \<and> unat c mod 8 = n div 64 div 64 div 64 \<and>
        x = of_nat (0x80 + n div 64 div 64 mod 64) \<and> y = of_nat (0x80 + n div 64 mod 64) \<and> z = of_nat (0x80 + n mod 64))"
      unfolding u list.inject c by blast
    then have "c # bs = utf8 n \<longleftrightarrow> (\<exists>x y z. bs = [x, y, z] \<and> unat c div 8 = 30 \<and> unat c mod 8 = n div 64 div 64 div 64 \<and>
        unat x div 64 = 2 \<and> unat x mod 64 = n div 64 div 64 mod 64 \<and> unat y div 64 = 2 \<and>
        unat y mod 64 = n div 64 mod 64 \<and> unat z div 64 = 2 \<and> unat z mod 64 = n mod 64)"
      by (simp only: continuation_eq conj_assoc)
    moreover have "utf8_sequence c bs n \<longleftrightarrow> (\<exists>x y z. bs = [x, y, z] \<and> unat c div 8 = 30 \<and>
        unat x div 64 = 2 \<and> unat y div 64 = 2 \<and> unat z div 64 = 2 \<and>
        n = 64 * (64 * (64 * (unat c mod 8) + unat x mod 64) + unat y mod 64) + unat z mod 64)"
    proof
      assume "utf8_sequence c bs n"
      then have l: "unat c div 8 = 30" "length bs = 3" "\<forall>b\<in>set bs. unat b div 64 = 2"
        "n = sextets (unat c mod 8) bs" unfolding utf8_sequence_long [OF 4] by blast+
      from l(2) obtain x y z where "bs = [x, y, z]" unfolding sextet_list by blast
      with l show "\<exists>x y z. bs = [x, y, z] \<and> unat c div 8 = 30 \<and>
          unat x div 64 = 2 \<and> unat y div 64 = 2 \<and> unat z div 64 = 2 \<and>
          n = 64 * (64 * (64 * (unat c mod 8) + unat x mod 64) + unat y mod 64) + unat z mod 64"
        by (intro exI [of _ x] exI [of _ y] exI [of _ z]) (simp only: sextets_simps list.set ball_simps simp_thms insert_iff)
    qed (auto simp: utf8_sequence_long [OF 4])
    then have "utf8_sequence c bs n \<longleftrightarrow> (\<exists>x y z. bs = [x, y, z] \<and> unat c div 8 = 30 \<and>
        unat c mod 8 = n div 64 div 64 div 64 \<and>
        unat x div 64 = 2 \<and> unat x mod 64 = n div 64 div 64 mod 64 \<and> unat y div 64 = 2 \<and>
        unat y mod 64 = n div 64 mod 64 \<and> unat z div 64 = 2 \<and> unat z mod 64 = n mod 64)"
      unfolding sextet_eq sextet_eq' by metis
    ultimately show ?thesis by (simp only:)
  qed
qed

theorem get_utf8_iff:
  "cbs_get_utf8 s = (Some v, r) \<longleftrightarrow> is_valid_code_point v \<and> s = utf8 (unat v) @ r"
proof (cases s)
  case Nil
  then show ?thesis by (simp add: cbs_get_utf8_def and_then_def cbs_simps utf8_def)
next
  case (Cons c t)
  have "(\<exists>bs. t = bs @ r \<and> c # bs = utf8 (unat v)) \<longleftrightarrow> s = utf8 (unat v) @ r"
    unfolding Cons by (cases "utf8 (unat v)") (auto simp: utf8_def split: if_splits)
  then show ?thesis
    using Cons utf8_sequence_iff [OF valid_le [of v]] by (auto simp: get_utf8_sequence)
qed

section \<open>The writer produces the encodings\<close>

lemma or_add:
  fixes t x :: u32
  assumes "t AND mask k = 0" and "unat x < 2 ^ k"
  shows "t OR x = t + x"
proof -
  have "x AND mask k = x" using assms(2) by (simp only: and_mask_eq_self_iff)
  then have "t AND x = (t AND mask k) AND x" by (metis and.assoc and.commute)
  then show ?thesis using assms(1) by (intro disjunctive_add_eq_or [symmetric]) simp
qed

lemma byte_or:
  fixes t x :: u32
  assumes "t AND mask k = 0" and "unat x < 2 ^ k" and "unat t + unat x < 256"
  shows "(ucast (t OR x) :: byte) = of_nat (unat t + unat x)"
proof -
  have "unat (t + x) = unat t + unat x" using assms(3) by (simp add: unat_word_ariths)
  then have "unat (ucast (t OR x) :: byte) = unat t + unat x"
    using assms by (simp only: or_add [OF assms(1,2)] unsigned_ucast_eq) (simp add: take_bit_nat_eq_self_iff)
  then show ?thesis by (rule word_eq_of_natI)
qed

lemma unat_drop: "unat (drop_bit k (u :: u32)) = unat u div 2 ^ k"
  by (subst unat_drop_bit_eq) (simp only: drop_bit_eq_div)

lemma continuation_byte_eq: "continuation_byte u k = of_nat (0x80 + unat u div 2 ^ k mod 64)"
proof -
  have "(ucast (BOTTOM_BITS 6) :: u32) = mask 6" by (simp add: BOTTOM_BITS_def mask_eq_exp_minus_1)
  then have x: "unat (drop_bit k u AND ucast (BOTTOM_BITS 6)) = unat u div 2 ^ k mod 64"
    by (simp only: unat_and_mask unat_drop) simp
  have t: "ucast (TOP_BITS 1) = (0x80 :: u32)" by (simp add: TOP_BITS_def BOTTOM_BITS_def)
  have "(0x80 :: u32) AND mask 6 = 0" by (simp add: mask_eq_exp_minus_1)
  moreover have "unat u div 2 ^ k mod 64 < 64" by simp
  ultimately show ?thesis
    using byte_or [of "0x80" 6 "drop_bit k u AND ucast (BOTTOM_BITS 6)"]
    unfolding continuation_byte_def t x by simp
qed

lemma lead_byte_eq:
  "unat u < 2 ^ 11 \<Longrightarrow> lead_byte (TOP_BITS 2) u 6 = of_nat (0xc0 + unat u div 64)"
  "unat u < 2 ^ 16 \<Longrightarrow> lead_byte (TOP_BITS 3) u 12 = of_nat (0xe0 + unat u div 4096)"
  "unat u < 2 ^ 21 \<Longrightarrow> lead_byte (TOP_BITS 4) u 18 = of_nat (0xf0 + unat u div 262144)"
proof -
  have t: "ucast (TOP_BITS 2) = (0xc0 :: u32)" "ucast (TOP_BITS 3) = (0xe0 :: u32)"
    "ucast (TOP_BITS 4) = (0xf0 :: u32)" by (simp_all add: TOP_BITS_def BOTTOM_BITS_def)
  have m: "(0xc0 :: u32) AND mask 5 = 0" "(0xe0 :: u32) AND mask 4 = 0" "(0xf0 :: u32) AND mask 3 = 0"
    by (simp_all add: mask_eq_exp_minus_1)
  show "unat u < 2 ^ 11 \<Longrightarrow> lead_byte (TOP_BITS 2) u 6 = of_nat (0xc0 + unat u div 64)"
    using byte_or [OF m(1), of "drop_bit 6 u"] unfolding lead_byte_def t unat_drop by simp
  show "unat u < 2 ^ 16 \<Longrightarrow> lead_byte (TOP_BITS 3) u 12 = of_nat (0xe0 + unat u div 4096)"
    using byte_or [OF m(2), of "drop_bit 12 u"] unfolding lead_byte_def t unat_drop by simp
  show "unat u < 2 ^ 21 \<Longrightarrow> lead_byte (TOP_BITS 4) u 18 = of_nat (0xf0 + unat u div 262144)"
    using byte_or [OF m(3), of "drop_bit 18 u"] unfolding lead_byte_def t unat_drop by simp
qed

lemma writes_utf8:
  assumes "is_valid_code_point u"
  shows "writes d (cbb_add_utf8 d u) (utf8 (unat u))"
proof -
  let ?n = "unat u"
  have le: "?n \<le> 0x10ffff" by (rule valid_le [OF assms])
  consider "?n < 0x80" | "0x80 \<le> ?n" "?n < 0x800" | "0x800 \<le> ?n" "?n < 0x10000" | "0x10000 \<le> ?n"
    by linarith
  then show ?thesis
  proof cases
    case 1
    have "ucast u = (of_nat ?n :: byte)" by (simp only: of_nat_unat)
    with 1 assms show ?thesis
      by (simp add: cbb_add_utf8_def utf8_def word_le_nat_alt writes_u8 del: of_nat_unat)
  next
    case 2
    then have "utf8 ?n = [lead_byte (TOP_BITS 2) u 6] @ [continuation_byte u 0]"
      by (simp add: utf8_def lead_byte_eq continuation_byte_eq del: of_nat_add)
    moreover have "cbb_add_utf8 d u = and_then (CBB_add_u8 d (lead_byte (TOP_BITS 2) u 6))
        (\<lambda>_. CBB_add_u8 d (continuation_byte u 0))"
      using 2 assms by (simp add: cbb_add_utf8_def word_le_nat_alt)
    ultimately show ?thesis by (simp only:) (intro writes_seq writes_u8)
  next
    case 3
    then have "utf8 ?n = [lead_byte (TOP_BITS 3) u 12] @ [continuation_byte u 6] @ [continuation_byte u 0]"
      by (simp add: utf8_def lead_byte_eq continuation_byte_eq del: of_nat_add)
    moreover have "cbb_add_utf8 d u = and_then (CBB_add_u8 d (lead_byte (TOP_BITS 3) u 12))
        (\<lambda>_. and_then (CBB_add_u8 d (continuation_byte u 6)) (\<lambda>_. CBB_add_u8 d (continuation_byte u 0)))"
      using 3 assms by (simp add: cbb_add_utf8_def word_le_nat_alt)
    ultimately show ?thesis by (simp only:) (intro writes_seq writes_u8)
  next
    case 4
    then have "utf8 ?n = [lead_byte (TOP_BITS 4) u 18] @ [continuation_byte u 12] @
        [continuation_byte u 6] @ [continuation_byte u 0]"
      using le by (simp add: utf8_def lead_byte_eq continuation_byte_eq del: of_nat_add)
    moreover have "cbb_add_utf8 d u = and_then (CBB_add_u8 d (lead_byte (TOP_BITS 4) u 18))
        (\<lambda>_. and_then (CBB_add_u8 d (continuation_byte u 12)) (\<lambda>_.
          and_then (CBB_add_u8 d (continuation_byte u 6)) (\<lambda>_. CBB_add_u8 d (continuation_byte u 0))))"
      using 4 le assms by (simp add: cbb_add_utf8_def word_le_nat_alt)
    ultimately show ?thesis by (simp only:) (intro writes_seq writes_u8)
  qed
qed

lemma invalid_utf8: "\<not> is_valid_code_point u \<Longrightarrow> cbb_add_utf8 d u s = (None, s)"
  by (simp add: cbb_add_utf8_def fail_def)

lemma length_utf8: "is_valid_code_point u \<Longrightarrow> length (utf8 (unat u)) = cbb_get_utf8_len u"
  using valid_le [of u] by (simp add: utf8_def cbb_get_utf8_len_def word_le_nat_alt)

end
