(* ===== verification/Pb_Istream.thy ===== *)
theory Pb_Istream
  imports Prelude
begin

text \<open>
  The input side of nanopb (\<open>pb_decode.c\<close>): streams, varints, tags, skipping and
  substreams.  A stream is the record of the code: the callback that delivers bytes, the
  state the callback owns, the bytes left and the sticky error message.  The callback of an
  application is a parameter: a function from its state and a count to the bytes it stores,
  or \<open>None\<close> for an error, and its next state.  Its contract is the locale
  \<open>input_source\<close>; the memory buffer of the code (\<open>buf_read\<close>) is the instance.
\<close>

section \<open>Streams\<close>

type_synonym 's reader = "'s \<Rightarrow> nat \<Rightarrow> byte list option \<times> 's"

text \<open>\<open>is_buf_read\<close> is the test \<open>stream->callback == buf_read\<close> of the code.\<close>

record 's istream =
  callback :: "'s reader"
  is_buf_read :: bool
  src_state :: 's
  bytes_left :: nat
  errmsg :: "string option"

definition set_error :: "string \<Rightarrow> 's istream \<Rightarrow> 's istream" where
  "set_error msg s = s\<lparr>errmsg := (case errmsg s of None \<Rightarrow> Some msg | Some m \<Rightarrow> Some m)\<rparr>"

definition return_error :: "string \<Rightarrow> ('s istream, 'a) oper" where
  "return_error msg s = (None, set_error msg s)"

definition buf_read :: "byte list reader" where
  "buf_read mem count = (Some (take count mem), drop count mem)"

definition pb_istream_from_buffer :: "byte list \<Rightarrow> nat \<Rightarrow> byte list istream" where
  "pb_istream_from_buffer buf bufsize =
    \<lparr>callback = buf_read, is_buf_read = True, src_state = buf, bytes_left = bufsize, errmsg = None\<rparr>"

text \<open>
  \<open>read_block\<close> is the second half of \<open>pb_read\<close>.  A null buffer means that the bytes are
  not wanted; on a stream with another callback they are read in blocks of sixteen.
\<close>

definition read_block :: "nat \<Rightarrow> ('s istream, byte list) oper" where
  "read_block count s =
    (if bytes_left s < count then return_error ''end-of-stream'' s
     else case callback s (src_state s) count of
       (None, t) \<Rightarrow> return_error ''io error'' (s\<lparr>src_state := t\<rparr>)
     | (Some bs, t) \<Rightarrow> (Some bs, s\<lparr>src_state := t, bytes_left := bytes_left s - count\<rparr>))"

fun skip_blocks :: "nat \<Rightarrow> ('s istream, byte list) oper" where
  "skip_blocks count s =
    (if 16 < count
     then (case read_block 16 s of
         (None, t) \<Rightarrow> (None, t)
       | (Some bs, t) \<Rightarrow> skip_blocks (count - 16) t)
     else read_block count s)"

declare skip_blocks.simps [simp del]

definition pb_read :: "bool \<Rightarrow> nat \<Rightarrow> ('s istream, byte list) oper" where
  "pb_read null count s =
    (if count = 0 then (Some [], s)
     else if null \<and> \<not> is_buf_read s then and_then (skip_blocks count) (\<lambda>_. ok []) s
     else if null then and_then (read_block count) (\<lambda>_. ok []) s
     else read_block count s)"

definition pb_readbyte :: "('s istream, byte) oper" where
  "pb_readbyte s =
    (if bytes_left s = 0 then return_error ''end-of-stream'' s
     else case callback s (src_state s) 1 of
       (None, t) \<Rightarrow> return_error ''io error'' (s\<lparr>src_state := t\<rparr>)
     | (Some bs, t) \<Rightarrow> (Some (hd bs), s\<lparr>src_state := t, bytes_left := bytes_left s - 1\<rparr>))"

lemma pb_readbyte_decreases:
  "pb_readbyte s = (Some b, t) \<Longrightarrow> bytes_left t < bytes_left s"
  by (auto simp: pb_readbyte_def return_error_def split: if_splits prod.splits option.splits)

section \<open>Varints\<close>

text \<open>
  \<open>bitpos\<close> is the code's \<open>uint_fast8_t\<close>, an eight-bit counter on the targets of the app.
\<close>

definition sign_extension :: "8 word \<Rightarrow> byte" where
  "sign_extension bitpos = (if bitpos < 63 then 0xFF else 0x01)"

function varint32_loop :: "8 word \<Rightarrow> u32 \<Rightarrow> ('s istream, u32) oper" where
  "varint32_loop bitpos result s =
    (case pb_readbyte s of
       (None, t) \<Rightarrow> (None, t)
     | (Some b, t) \<Rightarrow>
        if 32 \<le> bitpos \<and> b AND 0x7F \<noteq> 0 \<and> (drop_bit 31 result = 0 \<or> b \<noteq> sign_extension bitpos)
        then return_error ''varint overflow'' t
        else
          let result' = (if 32 \<le> bitpos then result
                         else result OR push_bit (unat bitpos) (ucast (b AND 0x7F)));
              bitpos' = bitpos + 7
          in if b AND 0x80 \<noteq> 0 then varint32_loop bitpos' result' t
             else if bitpos' = 35 \<and> b AND 0x70 \<noteq> 0 then return_error ''varint overflow'' t
             else (Some result', t))"
  by pat_completeness auto
termination
  by (relation "measure (\<lambda>(p, r, s). bytes_left s)") (auto dest: pb_readbyte_decreases [OF sym])

declare varint32_loop.simps [simp del]

text \<open>The second component of the result is the assignment to \<open>*eof\<close>.\<close>

definition pb_decode_varint32_eof :: "'s istream \<Rightarrow> (u32 option \<times> bool) \<times> 's istream" where
  "pb_decode_varint32_eof s =
    (case pb_readbyte s of
       (None, t) \<Rightarrow> ((None, bytes_left t = 0), t)
     | (Some b, t) \<Rightarrow>
        if b AND 0x80 = 0 then ((Some (ucast b), False), t)
        else case varint32_loop 7 (ucast (b AND 0x7F)) t of (r, u) \<Rightarrow> ((r, False), u))"

definition pb_decode_varint32 :: "('s istream, u32) oper" where
  "pb_decode_varint32 s = (case pb_decode_varint32_eof s of ((r, eof), t) \<Rightarrow> (r, t))"

function varint_loop :: "8 word \<Rightarrow> u64 \<Rightarrow> ('s istream, u64) oper" where
  "varint_loop bitpos result s =
    (if 64 \<le> bitpos then return_error ''varint overflow'' s
     else case pb_readbyte s of
       (None, t) \<Rightarrow> (None, t)
     | (Some b, t) \<Rightarrow>
        let result' = result OR push_bit (unat bitpos) (ucast (b AND 0x7F))
        in if b AND 0x80 \<noteq> 0 then varint_loop (bitpos + 7) result' t
           else (Some result', t))"
  by pat_completeness auto
termination
  by (relation "measure (\<lambda>(p, r, s). bytes_left s)") (auto dest: pb_readbyte_decreases [OF sym])

declare varint_loop.simps [simp del]

definition pb_decode_varint :: "('s istream, u64) oper" where
  "pb_decode_varint = varint_loop 0 0"

text \<open>
  \<open>pb_read(stream, &byte, 1)\<close> is a block of one byte; the loop ends because each round
  takes one from \<open>bytes_left\<close>.
\<close>

lemma read_block_decreases:
  "read_block n s = (Some bs, t) \<Longrightarrow> bytes_left t = bytes_left s - n \<and> n \<le> bytes_left s"
  by (auto simp: read_block_def return_error_def split: if_splits prod.splits option.splits)

lemma pb_read_one_decreases:
  "pb_read False 1 s = (Some bs, t) \<Longrightarrow> bytes_left t < bytes_left s"
  by (auto simp: pb_read_def dest: read_block_decreases)

function pb_skip_varint :: "('s istream, unit) oper" where
  "pb_skip_varint s =
    (case pb_read False 1 s of
       (None, t) \<Rightarrow> (None, t)
     | (Some bs, t) \<Rightarrow> if hd bs AND 0x80 \<noteq> 0 then pb_skip_varint t else (Some (), t))"
  by pat_completeness auto
termination
  by (relation "measure bytes_left") (auto dest: pb_read_one_decreases [OF sym, simplified])

declare pb_skip_varint.simps [simp del]

definition pb_skip_string :: "('s istream, unit) oper" where
  "pb_skip_string =
    and_then pb_decode_varint32 (\<lambda>n. and_then (pb_read True (unat n)) (\<lambda>_. ok ()))"

section \<open>Tags and fields\<close>

text \<open>\<open>pb_wire_type_t\<close>; the low three bits of a tag also reach the values without a name.\<close>

type_synonym wire_type = u32

definition PB_WT_VARINT :: wire_type where "PB_WT_VARINT = 0"
definition PB_WT_64BIT :: wire_type where "PB_WT_64BIT = 1"
definition PB_WT_STRING :: wire_type where "PB_WT_STRING = 2"
definition PB_WT_32BIT :: wire_type where "PB_WT_32BIT = 5"

lemmas wire_types = PB_WT_VARINT_def PB_WT_64BIT_def PB_WT_STRING_def PB_WT_32BIT_def

text \<open>The result is \<open>*wire_type\<close> and \<open>*tag\<close>, then \<open>*eof\<close>.\<close>

definition pb_decode_tag :: "'s istream \<Rightarrow> ((wire_type \<times> u32) option \<times> bool) \<times> 's istream" where
  "pb_decode_tag s =
    (case pb_decode_varint32_eof s of
       ((None, eof), t) \<Rightarrow> ((None, eof), t)
     | ((Some temp, eof), t) \<Rightarrow>
        if temp = 0 then ((None, True), t)
        else ((Some (temp AND 7, drop_bit 3 temp), eof), t))"

definition pb_skip_field :: "wire_type \<Rightarrow> ('s istream, unit) oper" where
  "pb_skip_field wt s =
    (if wt = PB_WT_VARINT then pb_skip_varint s
     else if wt = PB_WT_64BIT then and_then (pb_read True 8) (\<lambda>_. ok ()) s
     else if wt = PB_WT_STRING then pb_skip_string s
     else if wt = PB_WT_32BIT then and_then (pb_read True 4) (\<lambda>_. ok ()) s
     else return_error ''invalid wire_type'' s)"

text \<open>
  \<open>read_raw_value\<close> stores the bytes of a scalar; for a varint at most \<open>max_size\<close> of
  them.  The result is the buffer's contents, whose length is \<open>*size\<close>.
\<close>

function raw_varint :: "nat \<Rightarrow> byte list \<Rightarrow> ('s istream, byte list) oper" where
  "raw_varint max_size got s =
    (if max_size < length got + 1 then (None, s)
     else case pb_read False 1 s of
       (None, t) \<Rightarrow> (None, t)
     | (Some bs, t) \<Rightarrow>
        if hd bs AND 0x80 \<noteq> 0 then raw_varint max_size (got @ [hd bs]) t
        else (Some (got @ [hd bs]), t))"
  by pat_completeness auto
termination
  by (relation "measure (\<lambda>(m, g, s). bytes_left s)") (auto dest: pb_read_one_decreases [OF sym, simplified])

declare raw_varint.simps [simp del]

definition read_raw_value :: "wire_type \<Rightarrow> nat \<Rightarrow> ('s istream, byte list) oper" where
  "read_raw_value wt max_size s =
    (if wt = PB_WT_VARINT then raw_varint max_size [] s
     else if wt = PB_WT_64BIT then pb_read False 8 s
     else if wt = PB_WT_32BIT then pb_read False 4 s
     else return_error ''invalid wire_type'' s)"

section \<open>Substreams\<close>

definition pb_make_string_substream :: "('s istream, 's istream) oper" where
  "pb_make_string_substream s =
    (case pb_decode_varint32 s of
       (None, t) \<Rightarrow> (None, t)
     | (Some n, t) \<Rightarrow>
        if bytes_left t < unat n then return_error ''parent stream too short'' t
        else (Some (t\<lparr>bytes_left := unat n\<rparr>), t\<lparr>bytes_left := bytes_left t - unat n\<rparr>))"

definition pb_close_string_substream :: "'s istream \<Rightarrow> ('s istream, unit) oper" where
  "pb_close_string_substream sub s =
    (case (if bytes_left sub \<noteq> 0 then pb_read True (bytes_left sub) sub else (Some [], sub)) of
       (None, u) \<Rightarrow> (None, s)
     | (Some bs, u) \<Rightarrow> (Some (), s\<lparr>src_state := src_state u, errmsg := errmsg u\<rparr>))"

section \<open>Fixed-width numbers\<close>

definition le32 :: "byte list \<Rightarrow> u32" where
  "le32 bytes = (push_bit 0 (ucast (bytes ! 0)) OR push_bit 8 (ucast (bytes ! 1))
    OR push_bit 16 (ucast (bytes ! 2)) OR push_bit 24 (ucast (bytes ! 3)))"

definition pb_decode_fixed32 :: "('s istream, u32) oper" where
  "pb_decode_fixed32 = and_then (pb_read False 4) (\<lambda>bytes. ok (le32 bytes))"

definition le64 :: "byte list \<Rightarrow> u64" where
  "le64 bytes = (push_bit 0 (ucast (bytes ! 0)) OR push_bit 8 (ucast (bytes ! 1))
    OR push_bit 16 (ucast (bytes ! 2)) OR push_bit 24 (ucast (bytes ! 3))
    OR push_bit 32 (ucast (bytes ! 4)) OR push_bit 40 (ucast (bytes ! 5))
    OR push_bit 48 (ucast (bytes ! 6)) OR push_bit 56 (ucast (bytes ! 7)))"

definition pb_decode_fixed64 :: "('s istream, u64) oper" where
  "pb_decode_fixed64 = and_then (pb_read False 8) (\<lambda>bytes. ok (le64 bytes))"

text \<open>The \<open>int64_t\<close> of a zigzag number is kept as its bit pattern.\<close>

definition pb_decode_svarint :: "('s istream, u64) oper" where
  "pb_decode_svarint = and_then pb_decode_varint
    (\<lambda>v. ok (if v AND 1 \<noteq> 0 then NOT (drop_bit 1 v) else drop_bit 1 v))"

section \<open>The contract of an input source\<close>

text \<open>
  \<open>rem s\<close> is what the source will deliver from the state \<open>s\<close>.  A stream is primed when
  its source still has the \<open>bytes_left\<close> that the stream promises; \<open>contents\<close> are those
  bytes, and \<open>advanced rem s n t\<close> says that \<open>t\<close> is \<open>s\<close> after reading \<open>n\<close> of them.
\<close>

definition contents_of :: "('s \<Rightarrow> byte list) \<Rightarrow> 's istream \<Rightarrow> byte list" where
  "contents_of rem s = take (bytes_left s) (rem (src_state s))"

definition primed :: "'s reader \<Rightarrow> ('s \<Rightarrow> byte list) \<Rightarrow> 's istream \<Rightarrow> bool" where
  "primed cb rem s \<longleftrightarrow> callback s = cb \<and> bytes_left s \<le> length (rem (src_state s))"

definition advanced :: "('s \<Rightarrow> byte list) \<Rightarrow> 's istream \<Rightarrow> nat \<Rightarrow> 's istream \<Rightarrow> bool" where
  "advanced rem s n t \<longleftrightarrow> n \<le> bytes_left s \<and> callback t = callback s
     \<and> is_buf_read t = is_buf_read s \<and> errmsg t = errmsg s
     \<and> bytes_left t = bytes_left s - n \<and> rem (src_state t) = drop n (rem (src_state s))"

lemma advanced_refl [simp]: "advanced rem s 0 s"
  by (simp add: advanced_def)

lemma advanced_trans [trans]:
  "advanced rem s m t \<Longrightarrow> advanced rem t n u \<Longrightarrow> advanced rem s (m + n) u"
  by (auto simp: advanced_def add.commute)

lemma primed_advanced: "primed cb rem s \<Longrightarrow> advanced rem s n t \<Longrightarrow> primed cb rem t"
  by (auto simp: primed_def advanced_def)

lemma contents_advanced:
  "advanced rem s n t \<Longrightarrow> contents_of rem t = drop n (contents_of rem s)"
  by (auto simp: contents_of_def advanced_def drop_take)

lemma length_stream_contents: "primed cb rem s \<Longrightarrow> length (contents_of rem s) = bytes_left s"
  by (simp add: primed_def contents_of_def)

locale input_source =
  fixes cb :: "'s reader"
    and rem :: "'s \<Rightarrow> byte list"
  assumes delivers: "n \<le> length (rem s) \<Longrightarrow>
    \<exists>t. cb s n = (Some (take n (rem s)), t) \<and> rem t = drop n (rem s)"
begin

lemma read_block_ok:
  assumes "primed cb rem s" and "n \<le> bytes_left s"
  shows "\<exists>t. read_block n s = (Some (take n (contents_of rem s)), t) \<and> advanced rem s n t"
proof -
  obtain u where "cb (src_state s) n = (Some (take n (rem (src_state s))), u)"
    and "rem u = drop n (rem (src_state s))"
    using delivers [of n "src_state s"] assms by (auto simp: primed_def)
  with assms show ?thesis
    by (auto simp: read_block_def primed_def advanced_def contents_of_def min_def)
qed

lemma skip_blocks_ok:
  assumes "primed cb rem s" and "n \<le> bytes_left s"
  shows "\<exists>bs t. skip_blocks n s = (Some bs, t) \<and> advanced rem s n t"
  using assms
proof (induction n arbitrary: s rule: less_induct)
  case (less n)
  show ?case
  proof (cases "16 < n")
    case True
    obtain t where t: "read_block 16 s = (Some (take 16 (contents_of rem s)), t)"
      and a: "advanced rem s 16 t"
      using read_block_ok [OF less.prems(1), of 16] True less.prems(2) by auto
    have "n - 16 \<le> bytes_left t"
      using a less.prems(2) by (simp add: advanced_def)
    then obtain bs u where "skip_blocks (n - 16) t = (Some bs, u)" and "advanced rem t (n - 16) u"
      using less.IH [of "n - 16" t] primed_advanced [OF less.prems(1) a] True by auto
    with t a True show ?thesis
      using advanced_trans [OF a, of "n - 16" u] by (auto simp: skip_blocks.simps [of n])
  next
    case False
    then show ?thesis
      using read_block_ok [OF less.prems] by (auto simp: skip_blocks.simps [of n])
  qed
qed

text \<open>Reading delivers the next bytes and skipping passes them, whatever the callback.\<close>

lemma pb_read_ok:
  assumes "primed cb rem s" and "n \<le> bytes_left s"
  shows "\<exists>t. pb_read False n s = (Some (take n (contents_of rem s)), t) \<and> advanced rem s n t"
  using read_block_ok [OF assms] by (auto simp: pb_read_def)

lemma pb_skip_ok:
  assumes "primed cb rem s" and "n \<le> bytes_left s"
  shows "\<exists>t. pb_read True n s = (Some [], t) \<and> advanced rem s n t"
proof -
  obtain bs t where "skip_blocks n s = (Some bs, t)" "advanced rem s n t"
    using skip_blocks_ok [OF assms] by auto
  moreover obtain u where "read_block n s = (Some (take n (contents_of rem s)), u)" "advanced rem s n u"
    using read_block_ok [OF assms] by auto
  ultimately show ?thesis
    by (auto simp: pb_read_def op_simps)
qed

lemma pb_readbyte_ok:
  assumes "primed cb rem s" and "contents_of rem s = b # bs"
  shows "\<exists>t. pb_readbyte s = (Some b, t) \<and> advanced rem s 1 t"
proof -
  have "1 \<le> bytes_left s \<and> rem (src_state s) \<noteq> [] \<and> hd (rem (src_state s)) = b"
    using assms(2) by (cases "bytes_left s"; cases "rem (src_state s)"; simp add: contents_of_def)
  then have n: "1 \<le> bytes_left s" and hd: "rem (src_state s) \<noteq> []" "hd (rem (src_state s)) = b"
    by blast+
  obtain u where "cb (src_state s) 1 = (Some (take 1 (rem (src_state s))), u)" "rem u = drop 1 (rem (src_state s))"
    using delivers [of 1 "src_state s"] assms(1) n by (auto simp: primed_def)
  with assms(1) n hd show ?thesis
    by (cases "rem (src_state s)") (auto simp: pb_readbyte_def primed_def advanced_def)
qed

end

text \<open>The memory buffer keeps the contract: what remains is the memory itself.\<close>

interpretation buffer: input_source buf_read "\<lambda>mem. mem"
  by unfold_locales (simp add: buf_read_def)

section \<open>What a varint denotes\<close>

text \<open>
  A varint is a run of bytes with the high bit set and one byte without it; \<open>varint_nat\<close>
  is the number its seven-bit groups denote, the least significant group first.
\<close>

definition cont :: "byte \<Rightarrow> bool" where
  "cont b \<longleftrightarrow> b AND 0x80 \<noteq> 0"

definition low7 :: "byte \<Rightarrow> nat" where
  "low7 b = unat (b AND 0x7F)"

fun varint_nat :: "byte list \<Rightarrow> nat" where
  "varint_nat [] = 0"
| "varint_nat (b # bs) = low7 b + 128 * varint_nat bs"

definition is_varint :: "byte list \<Rightarrow> bool" where
  "is_varint bs \<longleftrightarrow> bs \<noteq> [] \<and> (\<forall>b \<in> set (butlast bs). cont b) \<and> \<not> cont (last bs)"

lemma low7_less: "low7 b < 128"
proof -
  have "unat (b AND 0x7F) \<le> unat (0x7F :: byte)"
    by (simp only: word_le_nat_alt [symmetric] word_and_le1)
  then show ?thesis by (simp add: low7_def)
qed

lemma varint_nat_less: "varint_nat bs < 128 ^ length bs"
proof (induction bs)
  case (Cons b bs)
  have "varint_nat bs + 1 \<le> 128 ^ length bs"
    using Cons by simp
  then have "128 * (varint_nat bs + 1) \<le> 128 * 128 ^ length bs"
    by (rule mult_le_mono2)
  with low7_less [of b] show ?case by simp
qed simp

lemma is_varint_Cons: "is_varint (b # bs) \<longleftrightarrow> (if cont b then is_varint bs else bs = [])"
  by (cases bs) (auto simp: is_varint_def)

lemma is_varint_Nil [simp]: "\<not> is_varint []"
  by (simp add: is_varint_def)

lemma varint_split:
  "(\<exists>v rest. bs = v @ rest \<and> is_varint v) \<or> (\<forall>b \<in> set bs. cont b)"
proof (induction bs)
  case (Cons b bs)
  show ?case
  proof (cases "cont b")
    case True
    with Cons.IH show ?thesis
      by (metis append_Cons is_varint_Cons set_ConsD)
  next
    case False
    then have "b # bs = [b] @ bs \<and> is_varint [b]"
      by (simp add: is_varint_Cons)
    then show ?thesis by blast
  qed
qed simp

lemma is_varint_unique:
  assumes "v @ r = v' @ r'" and "is_varint v" and "is_varint v'"
  shows "v = v'"
  using assms
proof (induction v arbitrary: v')
  case (Cons b v)
  then show ?case
    by (cases v') (auto simp: is_varint_Cons split: if_splits)
qed simp

lemma ucast_low7: "ucast (b AND 0x7F) = (of_nat (low7 b) :: 'a::len word)"
  by (simp only: low7_def ucast_eq_of_nat)

lemma low7_mod: "low7 b = unat b mod 128"
proof -
  have "b AND 0x7F = take_bit 7 b"
    by (simp add: take_bit_eq_mask mask_eq_decr_exp)
  then have "low7 b = take_bit 7 (unat b)"
    by (simp only: low7_def unsigned_take_bit_eq)
  then show ?thesis by (simp add: take_bit_eq_mod)
qed

lemma cont_iff: "cont b \<longleftrightarrow> 128 \<le> unat b"
proof -
  have "b AND 0x80 = 0 \<longleftrightarrow> drop_bit 7 (b AND 0x80) = 0"
  proof
    assume z: "drop_bit 7 (b AND 0x80) = 0"
    have "take_bit 7 (b AND 0x80) = 0"
      by (simp add: take_bit_and)
    with z bits_ident [of 7 "b AND 0x80"] show "b AND 0x80 = 0"
      by simp
  qed simp
  also have "drop_bit 7 (b AND 0x80) = drop_bit 7 b AND 1"
    by (simp add: drop_bit_and)
  also have "\<dots> = drop_bit 7 b"
    by (rule bit_word_eqI) (auto simp: bit_simps less_Suc_eq_0_disj numeral_eq_Suc dest: bit_imp_le_length)
  also have "\<dots> = 0 \<longleftrightarrow> unat b < 128"
    by (simp add: drop_bit_word_eq_0_iff)
  finally show ?thesis by (simp add: cont_def not_less)
qed

lemma unat_byte_split: "unat b = low7 b + (if cont b then 128 else 0)"
proof (cases "cont b")
  case True
  with unat_byte_less [of b] show ?thesis
    by (simp add: low7_mod cont_iff mod_if [of "unat b"])
next
  case False
  then show ?thesis by (simp add: low7_mod cont_iff)
qed

lemma unat_bitpos: "i \<le> 36 \<Longrightarrow> unat (of_nat (7 * i) :: 8 word) = 7 * i"
  by (rule unat_of_nat_small) simp

lemma bitpos_le: "i \<le> 36 \<Longrightarrow> n < 256 \<Longrightarrow> (of_nat n \<le> (of_nat (7 * i) :: 8 word)) \<longleftrightarrow> n \<le> 7 * i"
  by (simp only: word_le_nat_alt unat_bitpos) (simp add: unat_of_nat_small)

lemma bitpos_next: "(of_nat (7 * i) :: 8 word) + 7 = of_nat (7 * Suc i)"
  by (simp add: algebra_simps)

lemma pow128: "(128::nat) ^ i = 2 ^ (7 * i)"
  by (simp add: power_mult)

lemma merge_low7:
  assumes "a < 128 ^ i" and "i \<le> 36"
  shows "of_nat a OR push_bit (unat (of_nat (7 * i) :: 8 word)) (ucast (b AND 0x7F))
    = (of_nat (a + 128 ^ i * low7 b) :: 'a::len word)"
  unfolding unat_bitpos [OF assms(2)] ucast_low7 pow128
  by (rule merge_bits) (rule assms(1) [unfolded pow128])

lemma merged_less: "a < 128 ^ i \<Longrightarrow> a + 128 ^ i * low7 b < 128 ^ Suc i"
proof -
  assume "a < 128 ^ i"
  moreover have "128 ^ i * (low7 b + 1) \<le> 128 ^ i * 128"
    using low7_less [of b] by (intro mult_le_mono2) simp
  ultimately show ?thesis
    unfolding distrib_left mult_1_right power_Suc mult.commute [of 128] by linarith
qed

context input_source
begin

lemma varint_loop_ok:
  assumes "primed cb rem s" and "contents_of rem s = v @ rest" and "is_varint v"
    and "i + length v \<le> 10" and "a < 128 ^ i"
  shows "\<exists>t. varint_loop (of_nat (7 * i)) (of_nat a) s
      = (Some (of_nat (a + 128 ^ i * varint_nat v)), t) \<and> advanced rem s (length v) t"
  using assms
proof (induction v arbitrary: i a s)
  case (Cons b v)
  have i: "i \<le> 9" using Cons.prems(4) by simp
  then have pos: "\<not> 64 \<le> (of_nat (7 * i) :: 8 word)"
    using bitpos_le [of i 64] by simp
  obtain t where t: "pb_readbyte s = (Some b, t)" "advanced rem s 1 t"
    using pb_readbyte_ok [OF Cons.prems(1), of b "v @ rest"] Cons.prems(2) by auto
  note m = merge_low7 [OF Cons.prems(5), of b]
  show ?case
  proof (cases "cont b")
    case False
    then have "v = []" using Cons.prems(3) by (simp add: is_varint_Cons)
    then show ?thesis
      using t pos i False m
      by (simp add: varint_loop.simps [of "of_nat (7 * i)"] cont_def Let_def
          del: of_nat_add of_nat_mult)
  next
    case True
    have "contents_of rem t = v @ rest"
      using contents_advanced [OF t(2)] Cons.prems(2) by simp
    then obtain u where u: "varint_loop (of_nat (7 * Suc i)) (of_nat (a + 128 ^ i * low7 b)) t
        = (Some (of_nat (a + 128 ^ i * low7 b + 128 ^ Suc i * varint_nat v)), u)"
      and au: "advanced rem t (length v) u"
      using Cons.IH [OF primed_advanced [OF Cons.prems(1) t(2)], of "Suc i" "a + 128 ^ i * low7 b"]
        Cons.prems(3,4) merged_less [OF Cons.prems(5)] True by (auto simp: is_varint_Cons)
    have e1: "a + 128 ^ i * low7 b + 128 ^ Suc i * varint_nat v = a + 128 ^ i * varint_nat (b # v)"
      by (simp add: algebra_simps)
    have e2: "varint_loop (of_nat (7 * i)) (of_nat a) s
        = varint_loop (of_nat (7 * Suc i)) (of_nat (a + 128 ^ i * low7 b)) t"
      using t pos i True unfolding cont_def
      by (simp only: varint_loop.simps [of "of_nat (7 * i)"] bitpos_next Let_def m
          if_False if_True prod.case option.case not_False_eq_True)
    have "advanced rem s (length (b # v)) u"
      using advanced_trans [OF t(2) au] by simp
    then show ?thesis
      unfolding e2 u e1 by blast
  qed
qed simp

lemma varint_loop_long:
  assumes "primed cb rem s" and "contents_of rem s = xs @ rest" and "\<forall>b \<in> set xs. cont b"
    and "i + length xs = 10"
  shows "\<exists>t. varint_loop (of_nat (7 * i)) r s = (None, t)"
  using assms
proof (induction xs arbitrary: i r s)
  case Nil
  then have "(64 :: 8 word) \<le> of_nat (7 * i)"
    using bitpos_le [of i 64] by simp
  then show ?case
    by (simp only: varint_loop.simps [of "of_nat (7 * i)"] return_error_def if_True) blast
next
  case (Cons b xs)
  have pos: "\<not> 64 \<le> (of_nat (7 * i) :: 8 word)"
    using bitpos_le [of i 64] Cons.prems(4) by simp
  obtain t where t: "pb_readbyte s = (Some b, t)" "advanced rem s 1 t"
    using pb_readbyte_ok [OF Cons.prems(1), of b "xs @ rest"] Cons.prems(2) by auto
  have "contents_of rem t = xs @ rest"
    using contents_advanced [OF t(2)] Cons.prems(2) by simp
  then have "\<exists>u. varint_loop (of_nat (7 * Suc i)) r' t = (None, u)" for r'
    using Cons.IH [OF primed_advanced [OF Cons.prems(1) t(2)], of "Suc i"] Cons.prems(3,4) by auto
  then show ?case
    using t pos Cons.prems(3) unfolding cont_def
    by (simp add: varint_loop.simps [of "of_nat (7 * i)"] bitpos_next Let_def del: of_nat_mult)
qed

lemma pb_readbyte_end:
  "primed cb rem s \<Longrightarrow> contents_of rem s = [] \<Longrightarrow>
    pb_readbyte s = return_error ''end-of-stream'' s"
  using length_stream_contents [of cb rem s] by (simp add: pb_readbyte_def)

lemma varint_loop_short:
  assumes "primed cb rem s" and "\<forall>b \<in> set (contents_of rem s). cont b"
  shows "\<exists>t. varint_loop (of_nat (7 * i)) r s = (None, t)"
  using assms
proof (induction "contents_of rem s" arbitrary: i r s)
  case Nil
  then show ?case
    using pb_readbyte_end [of s]
    by (cases "64 \<le> (of_nat (7 * i) :: 8 word)")
      (simp_all add: varint_loop.simps [of "of_nat (7 * i)"] return_error_def del: of_nat_mult)
next
  case (Cons b xs)
  obtain t where t: "pb_readbyte s = (Some b, t)" "advanced rem s 1 t"
    using pb_readbyte_ok [OF Cons.prems(1) Cons.hyps(2) [symmetric]] by auto
  have "contents_of rem t = xs"
    using contents_advanced [OF t(2)] Cons.hyps(2) [symmetric] by simp
  then have "\<exists>u. varint_loop (of_nat (7 * Suc i)) r' t = (None, u)" for r'
    using Cons.hyps(1) [OF _ primed_advanced [OF Cons.prems(1) t(2)], of "Suc i"]
      Cons.prems(2) Cons.hyps(2) [symmetric] by auto
  then show ?case
    using t Cons.prems(2) Cons.hyps(2) [symmetric] unfolding cont_def
    by (simp add: varint_loop.simps [of "of_nat (7 * i)"] bitpos_next Let_def return_error_def
        del: of_nat_mult)
qed

text \<open>
  \<open>pb_decode_varint\<close> accepts exactly the varints of at most ten bytes at the front of the
  stream and returns their value modulo \<open>2 ^ 64\<close>.
\<close>

lemma pb_decode_varint_ok:
  assumes "primed cb rem s" and "contents_of rem s = v @ rest" and "is_varint v" and "length v \<le> 10"
  shows "\<exists>t. pb_decode_varint s = (Some (of_nat (varint_nat v)), t) \<and> advanced rem s (length v) t"
  using varint_loop_ok [OF assms(1-3), of 0 0] assms(4) by (simp add: pb_decode_varint_def)

lemma pb_decode_varint_SomeD:
  assumes "primed cb rem s" and "pb_decode_varint s = (Some x, t)"
  shows "\<exists>v rest. contents_of rem s = v @ rest \<and> is_varint v \<and> length v \<le> 10"
proof (rule disjE [OF varint_split [of "contents_of rem s"]])
  assume "\<forall>b \<in> set (contents_of rem s). cont b"
  with varint_loop_short [OF assms(1), of 0 0] assms(2) show ?thesis
    by (simp add: pb_decode_varint_def)
next
  assume "\<exists>v rest. contents_of rem s = v @ rest \<and> is_varint v"
  then obtain v rest where v: "contents_of rem s = v @ rest" "is_varint v" by blast
  have False if "10 < length v"
  proof -
    have "\<forall>b \<in> set (take 10 v). cont b"
    proof
      fix b assume "b \<in> set (take 10 v)"
      also have "set (take 10 v) \<subseteq> set (butlast v)"
        using that by (simp add: butlast_conv_take set_take_subset_set_take)
      finally show "cont b" using v(2) by (simp add: is_varint_def)
    qed
    then show False
      using varint_loop_long [OF assms(1), of "take 10 v" "drop 10 v @ rest" 0 0] that v(1) assms(2)
      by (simp add: pb_decode_varint_def)
  qed
  with v show ?thesis by force
qed

lemma pb_skip_varint_ok:
  assumes "primed cb rem s" and "contents_of rem s = v @ rest" and "is_varint v"
  shows "\<exists>t. pb_skip_varint s = (Some (), t) \<and> advanced rem s (length v) t"
  using assms
proof (induction v arbitrary: s)
  case (Cons b v)
  have "1 \<le> bytes_left s"
    using length_stream_contents [OF Cons.prems(1)] Cons.prems(2) by simp
  then obtain t where t: "pb_read False 1 s = (Some [b], t)" "advanced rem s 1 t"
    using pb_read_ok [OF Cons.prems(1), of 1] Cons.prems(2) by auto
  have c: "contents_of rem t = v @ rest"
    using contents_advanced [OF t(2)] Cons.prems(2) by simp
  show ?case
  proof (cases "cont b")
    case True
    then obtain u where "pb_skip_varint t = (Some (), u)" "advanced rem t (length v) u"
      using Cons.IH [OF primed_advanced [OF Cons.prems(1) t(2)] c] Cons.prems(3)
      by (auto simp: is_varint_Cons)
    with t True advanced_trans [OF t(2), of "length v" u] show ?thesis
      by (simp add: pb_skip_varint.simps [of s] cont_def)
  next
    case False
    with t Cons.prems(3) show ?thesis
      by (simp add: pb_skip_varint.simps [of s] cont_def is_varint_Cons)
  qed
qed simp

end

section \<open>The 32-bit decoder\<close>

lemma high_nibble_iff: "b AND 0x70 = 0 \<longleftrightarrow> low7 b < 16"
proof -
  have "low7 b < 16 \<longleftrightarrow> drop_bit 4 (b AND 0x7F) = 0"
    by (simp only: low7_def drop_bit_word_eq_0_iff) simp
  also have "drop_bit 4 (b AND 0x7F) = drop_bit 4 (b AND 0x70)"
    by (simp add: drop_bit_and)
  also have "drop_bit 4 (b AND 0x70) = 0 \<longleftrightarrow> b AND 0x70 = 0"
  proof
    assume z: "drop_bit 4 (b AND 0x70) = 0"
    have "take_bit 4 (b AND 0x70) = 0"
      by (simp add: take_bit_and)
    with z bits_ident [of 4 "b AND 0x70"] show "b AND 0x70 = 0"
      by simp
  qed simp
  finally show ?thesis by simp
qed

lemma low7_eq_0_iff: "b AND 0x7F = 0 \<longleftrightarrow> low7 b = 0"
  by (simp only: low7_def unat_eq_zero)

text \<open>
  On varints of at most five bytes \<open>pb_decode_varint32\<close> is exact; it also accepts
  redundant zero groups after the value as long as the bit counter does not wrap.
\<close>

lemma bitpos_eq_35: "i \<le> 35 \<Longrightarrow> (of_nat (7 * i) + 7 = (35 :: 8 word)) \<longleftrightarrow> i = 4"
proof -
  assume "i \<le> 35"
  then have u: "unat (of_nat (7 * Suc i) :: 8 word) = 7 * Suc i"
    by (intro unat_bitpos) simp
  have "(of_nat (7 * Suc i) = (35 :: 8 word)) \<longleftrightarrow>
      unat (of_nat (7 * Suc i) :: 8 word) = unat (35 :: 8 word)"
    by (rule word_unat_eq_iff)
  then show ?thesis
    unfolding u bitpos_next by simp
qed

context input_source
begin

lemma varint32_step:
  assumes "primed cb rem s" and "contents_of rem s = b # bs" and "a < 128 ^ i" and "i \<le> 4"
  shows "\<exists>t. advanced rem s 1 t \<and> contents_of rem t = bs \<and>
    varint32_loop (of_nat (7 * i)) (of_nat a) s =
      (if cont b then varint32_loop (of_nat (7 * Suc i)) (of_nat (a + 128 ^ i * low7 b)) t
       else if i = 4 \<and> 16 \<le> low7 b then return_error ''varint overflow'' t
       else (Some (of_nat (a + 128 ^ i * low7 b)), t))"
proof -
  obtain t where t: "pb_readbyte s = (Some b, t)" "advanced rem s 1 t"
    using pb_readbyte_ok [OF assms(1,2)] by auto
  have c: "contents_of rem t = bs"
    using contents_advanced [OF t(2)] assms(2) by simp
  have p: "\<not> 32 \<le> (of_nat (7 * i) :: 8 word)"
    using bitpos_le [of i 32] assms(4) by simp
  have q: "(of_nat (7 * i) + 7 = (35 :: 8 word)) = (i = 4)"
    using bitpos_eq_35 [of i] assms(4) by simp
  have m: "of_nat a OR push_bit (unat (of_nat (7 * i) :: 8 word)) (ucast (b AND 0x7F))
      = (of_nat (a + 128 ^ i * low7 b) :: u32)"
    using merge_low7 [of a i b] assms(3,4) by simp
  have n: "(b AND 0x70 \<noteq> 0) = (16 \<le> low7 b)"
    by (simp add: high_nibble_iff not_less)
  have "varint32_loop (of_nat (7 * i)) (of_nat a) s =
      (if cont b then varint32_loop (of_nat (7 * Suc i)) (of_nat (a + 128 ^ i * low7 b)) t
       else if i = 4 \<and> 16 \<le> low7 b then return_error ''varint overflow'' t
       else (Some (of_nat (a + 128 ^ i * low7 b)), t))"
    unfolding cont_def varint32_loop.simps [of "of_nat (7 * i)"] t(1) Let_def
    by (simp only: p q [unfolded bitpos_next] n m bitpos_next prod.case option.case simp_thms if_False)
  with t(2) c show ?thesis by blast
qed

lemma varint32_tail:
  assumes "primed cb rem s" and "contents_of rem s = v @ rest" and "is_varint v"
    and "varint_nat v = 0" and "5 \<le> i" and "i + length v \<le> 36"
  shows "\<exists>t. varint32_loop (of_nat (7 * i)) r s = (Some r, t) \<and> advanced rem s (length v) t"
  using assms
proof (induction v arbitrary: i s)
  case (Cons b v)
  obtain t where t: "pb_readbyte s = (Some b, t)" "advanced rem s 1 t"
    using pb_readbyte_ok [OF Cons.prems(1), of b "v @ rest"] Cons.prems(2) by auto
  have c: "contents_of rem t = v @ rest"
    using contents_advanced [OF t(2)] Cons.prems(2) by simp
  have p: "32 \<le> (of_nat (7 * i) :: 8 word)"
    using bitpos_le [of i 32] Cons.prems(5,6) by simp
  have q: "of_nat (7 * i) + 7 \<noteq> (35 :: 8 word)"
    using bitpos_eq_35 [of i] Cons.prems(5,6) by simp
  have z: "b AND 0x7F = 0"
    using Cons.prems(4) by (simp add: low7_eq_0_iff)
  have e: "varint32_loop (of_nat (7 * i)) r s =
      (if cont b then varint32_loop (of_nat (7 * Suc i)) r t else (Some r, t))"
    unfolding cont_def varint32_loop.simps [of "of_nat (7 * i)"] t(1) Let_def bitpos_next [symmetric]
    by (simp only: p q z prod.case option.case simp_thms if_True if_False)
  show ?case
  proof (cases "cont b")
    case True
    then obtain u where "varint32_loop (of_nat (7 * Suc i)) r t = (Some r, u)"
      and "advanced rem t (length v) u"
      using Cons.IH [OF primed_advanced [OF Cons.prems(1) t(2)] c, of "Suc i"] Cons.prems(3-6)
      by (auto simp: is_varint_Cons)
    with e True advanced_trans [OF t(2), of "length v" u] show ?thesis by simp
  next
    case False
    with e t(2) Cons.prems(3) show ?thesis by (simp add: is_varint_Cons)
  qed
qed simp

lemma varint32_loop_ok:
  assumes "primed cb rem s" and "contents_of rem s = v @ rest" and "is_varint v"
    and "i \<le> 5" and "i + length v \<le> 36" and "a < 128 ^ i"
    and "a + 128 ^ i * varint_nat v < 2 ^ 32"
  shows "\<exists>t. varint32_loop (of_nat (7 * i)) (of_nat a) s
      = (Some (of_nat (a + 128 ^ i * varint_nat v)), t) \<and> advanced rem s (length v) t"
  using assms
proof (induction v arbitrary: i a s)
  case (Cons b v)
  show ?case
  proof (cases "i = 5")
    case True
    then have "varint_nat (b # v) = 0"
      using Cons.prems(7) by (cases "varint_nat (b # v)") auto
    with varint32_tail [OF Cons.prems(1-3), of i] True Cons.prems(5) show ?thesis
      by simp
  next
    case False
    then have i: "i \<le> 4" using Cons.prems(4) by simp
    have e: "a + 128 ^ i * low7 b + 128 ^ Suc i * varint_nat v = a + 128 ^ i * varint_nat (b # v)"
      by (simp add: algebra_simps)
    obtain t where t: "advanced rem s 1 t" and c: "contents_of rem t = v @ rest"
      and step: "varint32_loop (of_nat (7 * i)) (of_nat a) s =
        (if cont b then varint32_loop (of_nat (7 * Suc i)) (of_nat (a + 128 ^ i * low7 b)) t
         else if i = 4 \<and> 16 \<le> low7 b then return_error ''varint overflow'' t
         else (Some (of_nat (a + 128 ^ i * low7 b)), t))"
      using varint32_step [OF Cons.prems(1) _ Cons.prems(6) i, of b "v @ rest"] Cons.prems(2)
      by auto
    show ?thesis
    proof (cases "cont b")
      case True
      then have "is_varint v" using Cons.prems(3) by (simp add: is_varint_Cons)
      then obtain u where "varint32_loop (of_nat (7 * Suc i)) (of_nat (a + 128 ^ i * low7 b)) t =
          (Some (of_nat (a + 128 ^ i * varint_nat (b # v))), u)"
        and "advanced rem t (length v) u"
        using Cons.IH [OF primed_advanced [OF Cons.prems(1) t] c, of "Suc i" "a + 128 ^ i * low7 b"]
          merged_less [OF Cons.prems(6), of b] Cons.prems(5,7) i unfolding e by auto
      with step True advanced_trans [OF t, of "length v" u] show ?thesis
        by (simp del: of_nat_add of_nat_mult varint_nat.simps)
    next
      case False
      then have v: "v = []" using Cons.prems(3) by (simp add: is_varint_Cons)
      have "\<not> (i = 4 \<and> 16 \<le> low7 b)"
        using Cons.prems(7) by (auto simp: v)
      with step False t v show ?thesis by simp
    qed
  qed
qed simp

lemma varint32_loop_overflow:
  assumes "primed cb rem s" and "contents_of rem s = v @ rest" and "is_varint v"
    and "i + length v \<le> 5" and "a < 128 ^ i" and "2 ^ 32 \<le> a + 128 ^ i * varint_nat v"
  shows "\<exists>t. varint32_loop (of_nat (7 * i)) (of_nat a) s = return_error ''varint overflow'' t"
  using assms
proof (induction v arbitrary: i a s)
  case (Cons b v)
  have i: "i \<le> 4" using Cons.prems(4) by simp
  have e: "a + 128 ^ i * low7 b + 128 ^ Suc i * varint_nat v = a + 128 ^ i * varint_nat (b # v)"
    by (simp add: algebra_simps)
  obtain t where t: "advanced rem s 1 t" and c: "contents_of rem t = v @ rest"
    and step: "varint32_loop (of_nat (7 * i)) (of_nat a) s =
      (if cont b then varint32_loop (of_nat (7 * Suc i)) (of_nat (a + 128 ^ i * low7 b)) t
       else if i = 4 \<and> 16 \<le> low7 b then return_error ''varint overflow'' t
       else (Some (of_nat (a + 128 ^ i * low7 b)), t))"
    using varint32_step [OF Cons.prems(1) _ Cons.prems(5) i, of b "v @ rest"] Cons.prems(2)
    by auto
  show ?case
  proof (cases "cont b")
    case True
    then have "is_varint v" using Cons.prems(3) by (simp add: is_varint_Cons)
    with Cons.IH [OF primed_advanced [OF Cons.prems(1) t] c, of "Suc i" "a + 128 ^ i * low7 b"]
      merged_less [OF Cons.prems(5), of b] Cons.prems(4,6) step True show ?thesis
      unfolding e by (simp del: of_nat_add of_nat_mult varint_nat.simps)
  next
    case False
    then have v: "v = []" using Cons.prems(3) by (simp add: is_varint_Cons)
    have big: "2 ^ 32 \<le> a + 128 ^ i * low7 b"
      using Cons.prems(6) by (simp add: v)
    have "i = 4"
    proof (rule ccontr)
      assume "i \<noteq> 4"
      with i have "(128::nat) ^ Suc i \<le> 128 ^ 4" by (intro power_increasing) simp_all
      with merged_less [OF Cons.prems(5), of b] big show False by simp
    qed
    with big Cons.prems(5) have "16 \<le> low7 b" by simp
    with step False \<open>i = 4\<close> show ?thesis by auto
  qed
qed simp

text \<open>The decoder itself: the quick case and the loop together.\<close>

lemma varint32_eof_loop:
  assumes "primed cb rem s" and "contents_of rem s = b # bs" and "cont b"
  shows "\<exists>t. advanced rem s 1 t \<and> contents_of rem t = bs \<and> pb_decode_varint32_eof s =
    (case varint32_loop (of_nat (7 * 1)) (of_nat (low7 b)) t of (r, u) \<Rightarrow> ((r, False), u))"
proof -
  obtain t where t: "pb_readbyte s = (Some b, t)" "advanced rem s 1 t"
    using pb_readbyte_ok [OF assms(1,2)] by auto
  then show ?thesis
    using contents_advanced [OF t(2)] assms(2,3)
    by (auto simp: pb_decode_varint32_eof_def cont_def ucast_low7)
qed

lemma pb_decode_varint32_eof_ok:
  assumes "primed cb rem s" and "contents_of rem s = v @ rest" and "is_varint v"
    and "length v \<le> 36" and "varint_nat v < 2 ^ 32"
  shows "\<exists>t. pb_decode_varint32_eof s = ((Some (of_nat (varint_nat v)), False), t)
    \<and> advanced rem s (length v) t"
proof (cases v)
  case (Cons b w)
  show ?thesis
  proof (cases "cont b")
    case True
    obtain t where t: "advanced rem s 1 t" "contents_of rem t = w @ rest"
      and e: "pb_decode_varint32_eof s =
        (case varint32_loop (of_nat (7 * 1)) (of_nat (low7 b)) t of (r, u) \<Rightarrow> ((r, False), u))"
      using varint32_eof_loop [OF assms(1) _ True, of "w @ rest"] assms(2) Cons by auto
    have "is_varint w" using assms(3) True by (simp add: Cons is_varint_Cons)
    then obtain u where "varint32_loop (of_nat (7 * 1)) (of_nat (low7 b)) t =
        (Some (of_nat (low7 b + 128 ^ 1 * varint_nat w)), u)" "advanced rem t (length w) u"
      using varint32_loop_ok [OF primed_advanced [OF assms(1) t(1)] t(2), of 1 "low7 b"]
        low7_less [of b] assms(4,5) by (auto simp: Cons)
    then show ?thesis
      using e advanced_trans [OF t(1), of "length w" u] by (simp add: Cons)
  next
    case False
    then have w: "w = []" using assms(3) by (simp add: Cons is_varint_Cons)
    obtain t where t: "pb_readbyte s = (Some b, t)" "advanced rem s 1 t"
      using pb_readbyte_ok [OF assms(1), of b rest] assms(2) by (auto simp: Cons w)
    have "ucast b = (of_nat (low7 b) :: u32)"
      using unat_byte_split [of b] False by (simp only: ucast_eq_of_nat if_False add_0_right)
    then show ?thesis
      using t False by (simp add: Cons w pb_decode_varint32_eof_def cont_def)
  qed
qed (use assms in simp)

end

section \<open>Fields, substreams and fixed-width numbers\<close>

lemma of_nat_le_nat_Cons:
  "of_nat (le_nat (b # bs)) = (ucast b OR push_bit 8 (of_nat (le_nat bs)) :: 'a::len word)"
  using merge_bits [of "unat b" 8 "le_nat bs", where 'a = 'a] unat_byte_less [of b]
  by (simp only: ucast_eq_of_nat le_nat.simps) simp

lemma le32_le_nat: "length bs = 4 \<Longrightarrow> le32 bs = of_nat (le_nat bs)"
  by (auto simp: le32_def length_Suc_conv numeral_eq_Suc of_nat_le_nat_Cons push_bit_or
      simp del: le_nat.simps(2))

lemma le64_le_nat: "length bs = 8 \<Longrightarrow> le64 bs = of_nat (le_nat bs)"
  by (auto simp: le64_def length_Suc_conv numeral_eq_Suc of_nat_le_nat_Cons push_bit_or
      simp del: le_nat.simps(2))

text \<open>The payload of a field of each wire type, as the encoding defines it.\<close>

definition is_length_varint :: "byte list \<Rightarrow> nat \<Rightarrow> bool" where
  "is_length_varint v n \<longleftrightarrow> is_varint v \<and> length v \<le> 36 \<and> varint_nat v = n \<and> n < 2 ^ 32"

definition is_payload :: "wire_type \<Rightarrow> byte list \<Rightarrow> bool" where
  "is_payload wt p \<longleftrightarrow>
     (wt = PB_WT_VARINT \<and> is_varint p) \<or> (wt = PB_WT_64BIT \<and> length p = 8)
   \<or> (wt = PB_WT_STRING \<and> (\<exists>v body. p = v @ body \<and> is_length_varint v (length body)))
   \<or> (wt = PB_WT_32BIT \<and> length p = 4)"

context input_source
begin

lemma pb_decode_varint32_ok:
  assumes "primed cb rem s" and "contents_of rem s = v @ rest" and "is_length_varint v n"
  shows "\<exists>t. pb_decode_varint32 s = (Some (of_nat n), t) \<and> advanced rem s (length v) t"
  using pb_decode_varint32_eof_ok [OF assms(1,2)] assms(3)
  by (auto simp: pb_decode_varint32_def is_length_varint_def)

lemma pb_decode_tag_ok:
  assumes "primed cb rem s" and "contents_of rem s = v @ rest"
    and "is_length_varint v n" and "0 < n"
  shows "\<exists>t. pb_decode_tag s = ((Some (of_nat (n mod 8), of_nat (n div 8)), False), t)
    \<and> advanced rem s (length v) t"
proof -
  obtain t where t: "pb_decode_varint32_eof s = ((Some (of_nat n), False), t)"
    "advanced rem s (length v) t"
    using pb_decode_varint32_eof_ok [OF assms(1,2)] assms(3) by (auto simp: is_length_varint_def)
  have n: "unat (of_nat n :: u32) = n"
    using assms(3) by (intro unat_of_nat_small) (simp add: is_length_varint_def)
  have "(of_nat n :: u32) \<noteq> 0"
    using n assms(4) by (metis less_numeral_extra(3) unat_0)
  moreover have "(of_nat n AND 7 :: u32) = of_nat (n mod 8)"
  proof -
    have "(of_nat n AND 7 :: u32) = take_bit 3 (of_nat n)"
      by (simp add: take_bit_eq_mask mask_eq_decr_exp)
    also have "take_bit 3 (of_nat n) = (of_nat (take_bit 3 n) :: u32)"
      by (rule take_bit_of_nat)
    finally show ?thesis by (simp add: take_bit_eq_mod)
  qed
  moreover have "drop_bit 3 (of_nat n :: u32) = of_nat (n div 8)"
    by (rule word_eq_of_natI) (subst unat_drop_bit_eq, simp only: n drop_bit_eq_div, simp)
  ultimately show ?thesis
    using t by (simp add: pb_decode_tag_def)
qed

lemma skip_bytes_ok:
  assumes "primed cb rem s" and "contents_of rem s = p @ rest"
  shows "\<exists>t. and_then (pb_read True (length p)) (\<lambda>_. ok ()) s = (Some (), t) \<and> advanced rem s (length p) t"
proof -
  have "length p \<le> bytes_left s"
    using length_stream_contents [OF assms(1)] assms(2) by simp
  from pb_skip_ok [OF assms(1) this] show ?thesis
    by (auto simp: op_simps)
qed

lemma pb_skip_string_ok:
  assumes "primed cb rem s" and "contents_of rem s = v @ body @ rest"
    and "is_length_varint v (length body)"
  shows "\<exists>t. pb_skip_string s = (Some (), t) \<and> advanced rem s (length v + length body) t"
proof -
  obtain t where t: "pb_decode_varint32 s = (Some (of_nat (length body)), t)"
    and a: "advanced rem s (length v) t"
    using pb_decode_varint32_ok [OF assms] by blast
  have "unat (of_nat (length body) :: u32) = length body"
    using assms(3) by (intro unat_of_nat_small) (simp add: is_length_varint_def)
  moreover have "contents_of rem t = body @ rest"
    using contents_advanced [OF a] assms(2) by simp
  ultimately show ?thesis
    using skip_bytes_ok [OF primed_advanced [OF assms(1) a], of body rest] t advanced_trans [OF a]
    by (auto simp: pb_skip_string_def op_simps)
qed

text \<open>Skipping a field leaves the stream exactly behind its payload.\<close>

lemma pb_skip_field_ok:
  assumes "primed cb rem s" and "contents_of rem s = p @ rest" and "is_payload wt p"
  shows "\<exists>t. pb_skip_field wt s = (Some (), t) \<and> advanced rem s (length p) t"
  using assms(3) unfolding is_payload_def
proof (elim disjE conjE exE)
  assume "wt = PB_WT_VARINT" "is_varint p"
  then show ?thesis
    using pb_skip_varint_ok [OF assms(1,2)] by (simp add: pb_skip_field_def)
next
  assume "wt = PB_WT_64BIT" "length p = 8"
  then show ?thesis
    using skip_bytes_ok [OF assms(1,2)] by (simp add: pb_skip_field_def wire_types)
next
  fix v body
  assume "wt = PB_WT_STRING" "p = v @ body" "is_length_varint v (length body)"
  then show ?thesis
    using pb_skip_string_ok [OF assms(1), of v body rest] assms(2)
    by (simp add: pb_skip_field_def wire_types)
next
  assume "wt = PB_WT_32BIT" "length p = 4"
  then show ?thesis
    using skip_bytes_ok [OF assms(1,2)] by (simp add: pb_skip_field_def wire_types)
qed

text \<open>
  A substream sees its body and nothing else; when it is closed after any amount of
  reading, the parent stands behind the body.
\<close>

lemma substream_ok:
  assumes "primed cb rem s" and "contents_of rem s = v @ body @ rest"
    and "is_length_varint v (length body)"
  shows "\<exists>sub t. pb_make_string_substream s = (Some sub, t) \<and> primed cb rem sub
    \<and> contents_of rem sub = body \<and> bytes_left t = length rest \<and>
    (\<forall>n sub'. advanced rem sub n sub' \<longrightarrow> (\<exists>u. pb_close_string_substream sub' t = (Some (), u)
       \<and> advanced rem s (length v + length body) u))"
proof -
  obtain t where t: "pb_decode_varint32 s = (Some (of_nat (length body)), t)"
    and a: "advanced rem s (length v) t"
    using pb_decode_varint32_ok [OF assms] by blast
  have u: "unat (of_nat (length body) :: u32) = length body"
    using assms(3) by (intro unat_of_nat_small) (simp add: is_length_varint_def)
  have c: "contents_of rem t = body @ rest"
    using contents_advanced [OF a] assms(2) by simp
  have rt: "primed cb rem t" by (rule primed_advanced [OF assms(1) a])
  have bl: "bytes_left t = length body + length rest"
    using length_stream_contents [OF rt] c by simp
  define sub where "sub = t\<lparr>bytes_left := length body\<rparr>"
  define par where "par = t\<lparr>bytes_left := bytes_left t - length body\<rparr>"
  have make: "pb_make_string_substream s = (Some sub, par)"
    using t u bl by (simp add: pb_make_string_substream_def sub_def par_def)
  have rs: "primed cb rem sub"
    using rt bl by (simp add: primed_def sub_def)
  have "take (length body) (take (bytes_left t) (rem (src_state t))) = body"
    using c by (simp add: contents_of_def)
  then have cs: "contents_of rem sub = body"
    using bl by (simp add: contents_of_def sub_def min_def)
  have close: "\<exists>u. pb_close_string_substream sub' par = (Some (), u)
      \<and> advanced rem s (length v + length body) u" if d: "advanced rem sub n sub'" for n sub'
  proof -
    have "primed cb rem sub'" by (rule primed_advanced [OF rs d])
    then obtain w where w: "pb_read True (bytes_left sub') sub' = (Some [], w)"
      and aw: "advanced rem sub' (bytes_left sub') w"
      using pb_skip_ok [of sub' "bytes_left sub'"] by auto
    have "advanced rem s (length v + length body)
        (par\<lparr>src_state := src_state w, errmsg := errmsg w\<rparr>)"
      using a d aw bl by (auto simp: advanced_def sub_def par_def add.commute)
    moreover have "pb_close_string_substream sub' par =
        (Some (), par\<lparr>src_state := src_state w, errmsg := errmsg w\<rparr>)"
      using w by (auto simp: pb_close_string_substream_def pb_read_def)
    ultimately show ?thesis by blast
  qed
  have "bytes_left par = length rest"
    using bl by (simp add: par_def)
  with make rs cs close show ?thesis by blast
qed

lemma pb_decode_fixed32_ok:
  assumes "primed cb rem s" and "contents_of rem s = bs @ rest" and "length bs = 4"
  shows "\<exists>t. pb_decode_fixed32 s = (Some (of_nat (le_nat bs)), t) \<and> advanced rem s 4 t"
proof -
  have "4 \<le> bytes_left s"
    using length_stream_contents [OF assms(1)] assms(2,3) by simp
  from pb_read_ok [OF assms(1) this] show ?thesis
    using assms(2,3) by (auto simp: pb_decode_fixed32_def op_simps le32_le_nat)
qed

lemma pb_decode_fixed64_ok:
  assumes "primed cb rem s" and "contents_of rem s = bs @ rest" and "length bs = 8"
  shows "\<exists>t. pb_decode_fixed64 s = (Some (of_nat (le_nat bs)), t) \<and> advanced rem s 8 t"
proof -
  have "8 \<le> bytes_left s"
    using length_stream_contents [OF assms(1)] assms(2,3) by simp
  from pb_read_ok [OF assms(1) this] show ?thesis
    using assms(2,3) by (auto simp: pb_decode_fixed64_def op_simps le64_le_nat)
qed

end

section \<open>Streams over a whole buffer\<close>

definition whole_buffer :: "byte list \<Rightarrow> byte list istream" where
  "whole_buffer bs = pb_istream_from_buffer bs (length bs)"

lemma primed_whole [simp]: "primed buf_read (\<lambda>mem. mem) (whole_buffer bs)"
  by (simp add: primed_def whole_buffer_def pb_istream_from_buffer_def)

lemma contents_whole [simp]: "contents_of (\<lambda>mem. mem) (whole_buffer bs) = bs"
  by (simp add: contents_of_def whole_buffer_def pb_istream_from_buffer_def)

lemma advanced_whole:
  "advanced (\<lambda>mem. mem) (whole_buffer (xs @ rest)) (length xs) t \<Longrightarrow> t = whole_buffer rest"
  by (cases t) (simp add: advanced_def whole_buffer_def pb_istream_from_buffer_def)

lemma advanced_whole2:
  "advanced (\<lambda>mem. mem) (whole_buffer (xs @ ys @ rest)) (length xs + length ys) t \<Longrightarrow> t = whole_buffer rest"
  using advanced_whole [of "xs @ ys" rest t] by simp

text \<open>
  The 32-bit decoder checks the bits above the value only when the fifth byte is the last.
  Here it is followed by an empty group, and the number \<open>7 * 2 ^ 32\<close> is returned as 0.
\<close>

lemma varint32_misses_overflow:
  "pb_decode_varint32 (whole_buffer [0x80, 0x80, 0x80, 0x80, 0xF0, 0x00]) = (Some 0, whole_buffer [])"
  "varint_nat [0x80, 0x80, 0x80, 0x80, 0xF0, 0x00] = 7 * 2 ^ 32"
  by (simp_all add: pb_decode_varint32_def pb_decode_varint32_eof_def pb_readbyte_def buf_read_def
      whole_buffer_def pb_istream_from_buffer_def varint32_loop.simps low7_def sign_extension_def)

lemma varint32_short_exact:
  assumes "is_varint v" and "length v \<le> 5"
  shows "pb_decode_varint32 (whole_buffer (v @ rest)) = (if varint_nat v < 2 ^ 32
    then (Some (of_nat (varint_nat v)), whole_buffer rest)
    else (None, snd (pb_decode_varint32 (whole_buffer (v @ rest)))))"
proof (cases "varint_nat v < 2 ^ 32")
  case True
  then have "is_length_varint v (varint_nat v)"
    using assms by (simp add: is_length_varint_def)
  then obtain t where t: "pb_decode_varint32 (whole_buffer (v @ rest)) = (Some (of_nat (varint_nat v)), t)"
    and a: "advanced (\<lambda>mem. mem) (whole_buffer (v @ rest)) (length v) t"
    using buffer.pb_decode_varint32_ok [OF primed_whole contents_whole] by blast
  show ?thesis
    unfolding t advanced_whole [OF a] using True by simp
next
  case False
  obtain b w where v: "v = b # w" using assms(1) by (cases v) auto
  have m: "cont b"
  proof (rule ccontr)
    assume "\<not> cont b"
    with assms(1) v have "w = []" by (simp add: is_varint_Cons)
    with False low7_less [of b] show False by (simp add: v)
  qed
  then have w: "is_varint w" using assms(1) by (simp add: v is_varint_Cons)
  obtain t where t: "advanced (\<lambda>mem. mem) (whole_buffer (v @ rest)) 1 t"
    "contents_of (\<lambda>mem. mem) t = w @ rest"
    and e: "pb_decode_varint32_eof (whole_buffer (v @ rest)) =
      (case varint32_loop (of_nat (7 * 1)) (of_nat (low7 b)) t of (r, u) \<Rightarrow> ((r, False), u))"
    using buffer.varint32_eof_loop [OF primed_whole, of "v @ rest" b "w @ rest"] m v by auto
  obtain u where "varint32_loop (of_nat (7 * 1)) (of_nat (low7 b)) t = return_error ''varint overflow'' u"
    using buffer.varint32_loop_overflow [OF primed_advanced [OF primed_whole t(1)] t(2) w, of 1 "low7 b"]
      assms(2) False low7_less [of b] by (auto simp: v)
  then have "fst (pb_decode_varint32 (whole_buffer (v @ rest))) = None"
    using e by (simp add: pb_decode_varint32_def return_error_def)
  with False show ?thesis
    by (simp add: prod_eq_iff)
qed

end
