(* ===== verification/Pb_Ostream.thy ===== *)
theory Pb_Ostream
  imports Pb_Istream
begin

text \<open>
  The output side of nanopb (\<open>pb_encode.c\<close>): streams, varints, tags and strings.  A stream
  without a callback only counts (\<open>PB_OSTREAM_SIZING\<close>).  The callback of an application is
  a parameter with the contract \<open>output_sink\<close>, whose instance is the memory buffer.
\<close>

section \<open>Streams\<close>

type_synonym 's writer = "'s \<Rightarrow> byte list \<Rightarrow> bool \<times> 's"

record 's ostream =
  sink :: "'s writer option"
  sink_state :: 's
  max_size :: nat
  bytes_written :: nat
  out_errmsg :: "string option"

definition out_error :: "string \<Rightarrow> ('s ostream, 'a) oper" where
  "out_error msg s =
    (None, s\<lparr>out_errmsg := (case out_errmsg s of None \<Rightarrow> Some msg | Some m \<Rightarrow> Some m)\<rparr>)"

text \<open>The state of the memory buffer is what has been stored in front of its pointer.\<close>

definition buf_write :: "byte list writer" where
  "buf_write mem bs = (True, mem @ bs)"

definition pb_ostream_from_buffer :: "nat \<Rightarrow> byte list ostream" where
  "pb_ostream_from_buffer bufsize =
    \<lparr>sink = Some buf_write, sink_state = [], max_size = bufsize, bytes_written = 0, out_errmsg = None\<rparr>"

definition PB_OSTREAM_SIZING :: "'s \<Rightarrow> 's ostream" where
  "PB_OSTREAM_SIZING st =
    \<lparr>sink = None, sink_state = st, max_size = 0, bytes_written = 0, out_errmsg = None\<rparr>"

definition pb_write :: "byte list \<Rightarrow> nat \<Rightarrow> ('s ostream, unit) oper" where
  "pb_write buf count s =
    (case sink s of
       Some put \<Rightarrow>
        if 0 < count then
          if size_add (bytes_written s) count < bytes_written s
             \<or> max_size s < size_add (bytes_written s) count
          then out_error ''stream full'' s
          else (case put (sink_state s) (take count buf) of
              (False, t) \<Rightarrow> out_error ''io error'' (s\<lparr>sink_state := t\<rparr>)
            | (True, t) \<Rightarrow> (Some (), s\<lparr>sink_state := t,
                bytes_written := size_add (bytes_written s) count\<rparr>))
        else (Some (), s\<lparr>bytes_written := size_add (bytes_written s) count\<rparr>)
     | None \<Rightarrow> (Some (), s\<lparr>bytes_written := size_add (bytes_written s) count\<rparr>))"

section \<open>Numbers\<close>

text \<open>
  \<open>varint_groups\<close> is the loop of \<open>pb_encode_varint\<close> that fills \<open>buffer\<close>; the last byte
  loses its high bit afterwards.
\<close>

function varint_groups :: "u64 \<Rightarrow> byte list" where
  "varint_groups v = (if v = 0 then [] else ucast ((v AND 0x7F) OR 0x80) # varint_groups (drop_bit 7 v))"
  by pat_completeness auto
termination
proof (relation "measure unat")
  fix v :: u64
  assume "v \<noteq> 0"
  then have "0 < unat v" by (simp add: word_neq_0_conv [symmetric] unat_gt_0)
  moreover have "unat (drop_bit 7 v) = unat v div 128"
    by (subst unat_drop_bit_eq) (simp add: drop_bit_eq_div)
  ultimately show "(drop_bit 7 v, v) \<in> measure unat" by simp
qed simp

declare varint_groups.simps [simp del]

definition varint_buffer :: "u64 \<Rightarrow> byte list" where
  "varint_buffer v =
    (if v \<le> 0x7F then [ucast v]
     else let g = varint_groups v in g[length g - 1 := last g AND 0x7F])"

definition pb_encode_varint :: "u64 \<Rightarrow> ('s ostream, unit) oper" where
  "pb_encode_varint v = pb_write (varint_buffer v) (length (varint_buffer v))"

text \<open>A signed number arrives as its bit pattern; \<open>v <s 0\<close> is the C test \<open>value < 0\<close>.\<close>

definition zigzag :: "u64 \<Rightarrow> u64" where
  "zigzag v = (if v <s 0 then NOT (push_bit 1 v) else push_bit 1 v)"

definition pb_encode_svarint :: "u64 \<Rightarrow> ('s ostream, unit) oper" where
  "pb_encode_svarint v = pb_encode_varint (zigzag v)"

definition pb_encode_fixed32 :: "u32 \<Rightarrow> ('s ostream, unit) oper" where
  "pb_encode_fixed32 v = pb_write
    [ucast (v AND 0xFF), ucast (drop_bit 8 v AND 0xFF), ucast (drop_bit 16 v AND 0xFF),
     ucast (drop_bit 24 v AND 0xFF)] 4"

definition pb_encode_fixed64 :: "u64 \<Rightarrow> ('s ostream, unit) oper" where
  "pb_encode_fixed64 v = pb_write
    [ucast (v AND 0xFF), ucast (drop_bit 8 v AND 0xFF), ucast (drop_bit 16 v AND 0xFF),
     ucast (drop_bit 24 v AND 0xFF), ucast (drop_bit 32 v AND 0xFF), ucast (drop_bit 40 v AND 0xFF),
     ucast (drop_bit 48 v AND 0xFF), ucast (drop_bit 56 v AND 0xFF)] 8"

definition pb_encode_tag :: "wire_type \<Rightarrow> u32 \<Rightarrow> ('s ostream, unit) oper" where
  "pb_encode_tag wt field_number = pb_encode_varint (push_bit 3 (ucast field_number) OR ucast wt)"

definition pb_encode_string :: "byte list \<Rightarrow> nat \<Rightarrow> ('s ostream, unit) oper" where
  "pb_encode_string buf n =
    and_then (pb_encode_varint (of_nat n)) (\<lambda>_. pb_write buf n)"

section \<open>The varint buffer\<close>

lemma and_7F_nat: "(v :: u64) AND 0x7F = of_nat (unat v mod 128)"
proof -
  have "v AND 0x7F = take_bit 7 v"
    by (simp add: take_bit_eq_mask mask_eq_decr_exp)
  then have "unat (v AND 0x7F) = take_bit 7 (unat v)"
    by (simp only: unsigned_take_bit_eq)
  then show ?thesis
    by (intro word_eq_of_natI) (simp add: take_bit_eq_mod)
qed

lemma ucast_of_nat_byte: "n < 2 ^ 64 \<Longrightarrow> (ucast (of_nat n :: u64) :: byte) = of_nat n"
  by (simp only: ucast_eq_of_nat) (subst unat_of_nat_small, simp_all)

lemma group_byte:
  fixes v :: u64
  shows "(ucast ((v AND 0x7F) OR 0x80) :: byte) = of_nat (unat v mod 128 + 128)"
proof -
  have "of_nat (unat v mod 128) OR push_bit 7 (of_nat 1) = (of_nat (unat v mod 128 + 2 ^ 7 * 1) :: u64)"
    by (rule merge_bits) simp
  then have "(v AND 0x7F) OR 0x80 = of_nat (unat v mod 128 + 128)"
    by (simp add: and_7F_nat)
  moreover have "unat v mod 128 + 128 < 2 ^ 64"
    using mod_less_divisor [of 128 "unat v"] by simp
  ultimately show ?thesis by (simp only: ucast_of_nat_byte)
qed

lemma unat_group: "unat (of_nat (n mod 128 + 128) :: byte) = n mod 128 + 128"
  using mod_less_divisor [of 128 n] by (intro unat_of_nat_small) simp

lemma low7_group [simp]: "low7 (of_nat (n mod 128 + 128)) = n mod 128"
  unfolding low7_mod unat_group by simp

lemma cont_group [simp]: "cont (of_nat (n mod 128 + 128))"
  unfolding cont_iff unat_group by simp

lemma unat_drop_bit_7: "unat (drop_bit 7 (v :: u64)) = unat v div 128"
  by (subst unat_drop_bit_eq) (simp add: drop_bit_eq_div)

text \<open>The groups and the buffer in terms of the number, and the size of the buffer.\<close>

lemma varint_groups_correct:
  "varint_nat (varint_groups v) = unat v \<and> (\<forall>b \<in> set (varint_groups v). cont b)"
proof (induction v rule: varint_groups.induct)
  case (1 v)
  show ?case
  proof (cases "v = 0")
    case False
    have "varint_groups v = of_nat (unat v mod 128 + 128) # varint_groups (drop_bit 7 v)"
      using False by (simp only: varint_groups.simps [of v] group_byte if_False)
    with 1 [OF False] show ?thesis
      by (simp del: of_nat_add add: unat_drop_bit_7)
  qed (simp add: varint_groups.simps)
qed

lemma length_varint_groups: "unat v < 128 ^ n \<Longrightarrow> length (varint_groups v) \<le> n"
proof (induction n arbitrary: v)
  case 0
  then have "v = 0" by (simp add: unat_eq_zero)
  then show ?case by (simp add: varint_groups.simps)
next
  case (Suc n)
  then have "unat (drop_bit 7 v) < 128 ^ n"
    by (simp add: unat_drop_bit_7 less_mult_imp_div_less mult.commute)
  with Suc.IH show ?case
    by (simp add: varint_groups.simps [of v])
qed

lemma varint_nat_append: "varint_nat (xs @ ys) = varint_nat xs + 128 ^ length xs * varint_nat ys"
  by (induction xs) (simp_all add: algebra_simps)

lemma clear_cont: "\<not> cont (b AND 0x7F)" "low7 (b AND 0x7F) = low7 b"
  by (simp_all add: cont_def low7_def and.assoc)

lemma varint_groups_eq_Nil_iff: "varint_groups v = [] \<longleftrightarrow> v = 0"
  by (simp add: varint_groups.simps)

lemma varint_buffer_correct:
  "is_varint (varint_buffer v) \<and> varint_nat (varint_buffer v) = unat v"
proof (cases "v \<le> 0x7F")
  case True
  then have le: "unat v \<le> 127"
    by (simp add: word_le_nat_alt)
  then have u: "unat (ucast v :: byte) = unat v"
    unfolding ucast_eq_of_nat by (intro unat_of_nat_small) simp
  have "varint_buffer v = [ucast v]"
    using True by (simp only: varint_buffer_def if_True)
  moreover have "\<not> cont (ucast v)" "low7 (ucast v) = unat v"
    using le by (simp_all only: cont_iff low7_mod u) simp_all
  ultimately show ?thesis
    by (simp add: is_varint_Cons)
next
  case False
  then have "v \<noteq> 0" by auto
  then obtain g b where g: "varint_groups v = g @ [b]"
    using varint_groups_eq_Nil_iff [of v] by (metis rev_exhaust)
  have "varint_buffer v = g @ [b AND 0x7F]"
    using False by (simp add: varint_buffer_def g Let_def)
  moreover have "\<forall>x \<in> set g. cont x" "varint_nat (g @ [b]) = unat v"
    using varint_groups_correct [of v] by (auto simp: g)
  ultimately show ?thesis
    by (simp add: is_varint_def varint_nat_append clear_cont)
qed

lemma length_varint_buffer: "unat v < 128 ^ n \<Longrightarrow> 0 < n \<Longrightarrow> length (varint_buffer v) \<le> n"
  using length_varint_groups [of v n] by (simp add: varint_buffer_def Let_def)

lemma varint_buffer_bound: "length (varint_buffer v) \<le> 10"
proof (rule length_varint_buffer)
  have "unat v < 2 ^ LENGTH(64)"
    by (rule unsigned_less)
  also have "\<dots> \<le> 128 ^ 10" by simp
  finally show "unat v < 128 ^ 10" .
qed simp

lemma is_length_varint_buffer: "n < 2 ^ 32 \<Longrightarrow> is_length_varint (varint_buffer (of_nat n)) n"
  using varint_buffer_correct [of "of_nat n"] varint_buffer_bound [of "of_nat n"]
  by (simp add: is_length_varint_def unat_of_nat_small)

lemma ucast_and_FF: "(ucast ((w :: 'a::len word) AND 0xFF) :: byte) = of_nat (unat w)"
proof -
  have "(ucast (w AND 0xFF) :: byte) = ucast w"
  proof (rule bit_word_eqI)
    fix n assume n: "n < LENGTH(8)"
    have "(0xFF :: 'a word) = mask 8"
      by (simp add: mask_eq_decr_exp)
    then show "bit (ucast (w AND 0xFF) :: byte) n = bit (ucast w :: byte) n"
      using n by (simp only: bit_and_iff bit_mask_iff bit_ucast_iff)
        (auto dest: bit_imp_le_length)
  qed
  then show ?thesis by (simp only: ucast_eq_of_nat)
qed

lemma byte_at: "(ucast (drop_bit k (w :: 'a::len word) AND 0xFF) :: byte) = of_nat (unat w div 2 ^ k)"
  unfolding ucast_and_FF by (subst unat_drop_bit_eq) (simp only: drop_bit_eq_div)

lemma byte_at_0: "(ucast ((w :: 'a::len word) AND 0xFF) :: byte) = of_nat (unat w div 2 ^ 0)"
  using byte_at [of 0 w] by simp

lemma le_bytes_4: "le_bytes 4 n =
    [of_nat (n div 2 ^ 0), of_nat (n div 2 ^ 8), of_nat (n div 2 ^ 16), of_nat (n div 2 ^ 24)]"
proof -
  have "(4::nat) = Suc (Suc (Suc (Suc 0)))" by simp
  then show ?thesis
    by (simp only: le_bytes.simps div_mult2_eq [symmetric]) simp
qed

lemma le_bytes_8: "le_bytes 8 n =
    [of_nat (n div 2 ^ 0), of_nat (n div 2 ^ 8), of_nat (n div 2 ^ 16), of_nat (n div 2 ^ 24),
     of_nat (n div 2 ^ 32), of_nat (n div 2 ^ 40), of_nat (n div 2 ^ 48), of_nat (n div 2 ^ 56)]"
proof -
  have "(8::nat) = Suc (Suc (Suc (Suc (Suc (Suc (Suc (Suc 0)))))))" by simp
  then show ?thesis
    by (simp only: le_bytes.simps div_mult2_eq [symmetric]) simp
qed

section \<open>The contract of an output sink\<close>

text \<open>
  \<open>written st\<close> is what a sink has taken.  A stream is \<open>writable\<close> for \<open>n\<close> bytes when its
  counters are \<open>size_t\<close> values that do not wrap and its limit holds so far, and has \<open>room\<close> for them when it is a
  sizing stream or its limit allows them.  \<open>emits op bs\<close> says that \<open>op\<close> succeeds exactly when
  there is room for \<open>bs\<close>, and then writes \<open>bs\<close> and counts it.
\<close>

definition writable :: "'s writer \<Rightarrow> nat \<Rightarrow> 's ostream \<Rightarrow> bool" where
  "writable put n s \<longleftrightarrow>
     (sink s = None \<or> sink s = Some put \<and> bytes_written s \<le> max_size s) \<and> bytes_written s + n < 2 ^ 64"

definition room :: "nat \<Rightarrow> 's ostream \<Rightarrow> bool" where
  "room n s \<longleftrightarrow> n = 0 \<or> sink s = None \<or> bytes_written s + n \<le> max_size s"

definition emitted :: "('s \<Rightarrow> byte list) \<Rightarrow> 's ostream \<Rightarrow> byte list \<Rightarrow> 's ostream \<Rightarrow> bool" where
  "emitted written s bs t \<longleftrightarrow> sink t = sink s \<and> max_size t = max_size s
     \<and> bytes_written t = bytes_written s + length bs
     \<and> written (sink_state t) = written (sink_state s) @ (if sink s = None then [] else bs)"

definition emits ::
  "'s writer \<Rightarrow> ('s \<Rightarrow> byte list) \<Rightarrow> ('s ostream, unit) oper \<Rightarrow> byte list \<Rightarrow> bool" where
  "emits put written op bs \<longleftrightarrow> (\<forall>s. writable put (length bs) s \<longrightarrow>
     (if room (length bs) s then \<exists>t. op s = (Some (), t) \<and> emitted written s bs t
      else \<exists>t. op s = (None, t)))"

lemma emitted_trans:
  "emitted w s xs t \<Longrightarrow> emitted w t ys u \<Longrightarrow> emitted w s (xs @ ys) u"
  by (simp add: emitted_def)

lemma emits_and_then:
  assumes "emits put w f xs" and "emits put w g ys"
  shows "emits put w (and_then f (\<lambda>_. g)) (xs @ ys)"
  unfolding emits_def
proof (intro allI impI)
  fix s assume wr: "writable put (length (xs @ ys)) s"
  then have "writable put (length xs) s" by (simp add: writable_def)
  then have f: "if room (length xs) s then \<exists>t. f s = (Some (), t) \<and> emitted w s xs t
      else \<exists>t. f s = (None, t)"
    using assms(1) by (simp add: emits_def)
  have g: "if room (length ys) t then \<exists>u. g t = (Some (), u) \<and> emitted w t ys u
      else \<exists>u. g t = (None, u)" if "emitted w s xs t" and r: "room (length xs) s" for t
  proof -
    have "writable put (length ys) t"
      using that wr r by (auto simp: writable_def emitted_def room_def)
    then show ?thesis using assms(2) by (simp add: emits_def)
  qed
  show "if room (length (xs @ ys)) s
      then \<exists>u. and_then f (\<lambda>_. g) s = (Some (), u) \<and> emitted w s (xs @ ys) u
      else \<exists>u. and_then f (\<lambda>_. g) s = (None, u)"
  proof (cases "room (length xs) s")
    case True
    with f obtain t where t: "f s = (Some (), t)" "emitted w s xs t" by auto
    have r: "room (length (xs @ ys)) s = room (length ys) t"
      using t(2) True by (auto simp: room_def emitted_def)
    show ?thesis
      using g [OF t(2) True] t emitted_trans [OF t(2), of ys] unfolding r
      by (auto simp: op_simps split: if_splits)
  next
    case False
    moreover from this have "\<not> room (length (xs @ ys)) s"
      by (auto simp: room_def)
    ultimately show ?thesis
      using f by (auto simp: op_simps)
  qed
qed

lemma emits_ok: "emits put w (ok ()) []"
  by (simp add: emits_def room_def ok_def emitted_def)

text \<open>The sizing stream counts exactly what a writing stream would take.\<close>

lemma emits_sizing:
  assumes "emits put w op bs" and "length bs < 2 ^ 64"
  shows "\<exists>t. op (PB_OSTREAM_SIZING st) = (Some (), t) \<and> bytes_written t = length bs"
  using assms unfolding emits_def
  by (drule_tac spec [of _ "PB_OSTREAM_SIZING st"])
    (auto simp: writable_def room_def PB_OSTREAM_SIZING_def emitted_def)

locale output_sink =
  fixes put :: "'s writer"
    and written :: "'s \<Rightarrow> byte list"
  assumes takes: "\<exists>t. put st bs = (True, t) \<and> written t = written st @ bs"
begin

lemma emits_pb_write:
  assumes "length bs = n"
  shows "emits put written (pb_write bs n) bs"
  unfolding emits_def
proof (intro allI impI)
  fix s assume wr: "writable put (length bs) s"
  then have add: "size_add (bytes_written s) (length bs) = bytes_written s + length bs"
    by (intro size_add_small) (simp add: writable_def)
  have add0: "size_add (bytes_written s) 0 = bytes_written s"
    using wr by (intro size_add_small [of _ 0, simplified]) (simp add: writable_def)
  obtain t where "put (sink_state s) bs = (True, t)" "written t = written (sink_state s) @ bs"
    using takes by blast
  then show "if room (length bs) s then \<exists>t. pb_write bs n s = (Some (), t) \<and> emitted written s bs t
      else \<exists>t. pb_write bs n s = (None, t)"
    using wr assms
    by (auto simp: pb_write_def add add0 writable_def room_def emitted_def out_error_def)
qed

lemma emits_varint: "emits put written (pb_encode_varint v) (varint_buffer v)"
  unfolding pb_encode_varint_def by (rule emits_pb_write) simp

lemma emits_string:
  assumes "length body = n"
  shows "emits put written (pb_encode_string body n) (varint_buffer (of_nat n) @ body)"
  unfolding pb_encode_string_def
  by (rule emits_and_then [OF emits_varint emits_pb_write [OF assms]])

lemma emits_fixed32:
  "emits put written (pb_encode_fixed32 v) (le_bytes 4 (unat v))"
  unfolding pb_encode_fixed32_def byte_at_0 [of v] byte_at le_bytes_4
  by (rule emits_pb_write) simp

lemma emits_fixed64:
  "emits put written (pb_encode_fixed64 v) (le_bytes 8 (unat v))"
  unfolding pb_encode_fixed64_def byte_at_0 [of v] byte_at le_bytes_8
  by (rule emits_pb_write) simp

end

interpretation memory: output_sink buf_write "\<lambda>mem. mem"
  by unfold_locales (simp add: buf_write_def)

text \<open>On a fresh buffer the operation stores exactly its bytes, or fails for lack of room.\<close>

lemma emits_to_buffer:
  assumes "emits buf_write (\<lambda>mem. mem) op bs" and "length bs < 2 ^ 64"
  shows "if length bs \<le> n
    then \<exists>t. op (pb_ostream_from_buffer n) = (Some (), t) \<and> sink_state t = bs
      \<and> bytes_written t = length bs
    else \<exists>t. op (pb_ostream_from_buffer n) = (None, t)"
proof -
  have "writable buf_write (length bs) (pb_ostream_from_buffer n)"
    using assms(2) by (simp add: writable_def pb_ostream_from_buffer_def)
  with assms(1) have "if room (length bs) (pb_ostream_from_buffer n)
      then \<exists>t. op (pb_ostream_from_buffer n) = (Some (), t)
        \<and> emitted (\<lambda>mem. mem) (pb_ostream_from_buffer n) bs t
      else \<exists>t. op (pb_ostream_from_buffer n) = (None, t)"
    by (simp add: emits_def)
  moreover have "room (length bs) (pb_ostream_from_buffer n) \<longleftrightarrow> length bs \<le> n"
    by (auto simp: room_def pb_ostream_from_buffer_def)
  ultimately show ?thesis
    by (auto simp: emitted_def pb_ostream_from_buffer_def split: if_splits)
qed

section \<open>Zigzag and tags\<close>

lemma sless_0_iff: "(v :: u64) <s 0 \<longleftrightarrow> bit v 63"
  by (simp add: word_sless_alt bit_last_iff [of v, simplified])

lemma and_1_eq: "(w :: u64) AND 1 = (if bit w 0 then 1 else 0)"
  by (rule bit_word_eqI) (auto simp: bit_and_iff bit_1_iff intro: gr0I)

lemma bit_double: "bit (push_bit 1 (v :: u64)) m \<longleftrightarrow> 0 < m \<and> m < 64 \<and> bit v (m - 1)"
  by (simp only: bit_push_bit_iff possible_bit_word) auto

lemma unzigzag:
  "(if zigzag v AND 1 \<noteq> 0 then NOT (drop_bit 1 (zigzag v)) else drop_bit 1 (zigzag v)) = v"
proof (cases "bit v 63")
  case True
  have "NOT (drop_bit 1 (NOT (push_bit 1 v))) = v"
  proof (rule bit_word_eqI)
    fix n assume "n < LENGTH(64)"
    then show "bit (NOT (drop_bit 1 (NOT (push_bit 1 v)))) n = bit v n"
      using True by (cases "n = 63")
        (auto simp only: bit_not_iff bit_drop_bit_eq bit_double possible_bit_word o_def, auto)
  qed
  moreover have "bit (NOT (push_bit 1 v)) 0"
    by (simp only: bit_not_iff bit_double possible_bit_word) simp
  ultimately show ?thesis
    using True by (simp only: zigzag_def sless_0_iff and_1_eq if_True) simp
next
  case False
  have "drop_bit 1 (push_bit 1 v) = v"
  proof (rule bit_word_eqI)
    fix n assume "n < LENGTH(64)"
    then show "bit (drop_bit 1 (push_bit 1 v)) n = bit v n"
      using False by (cases "n = 63")
        (auto simp only: bit_not_iff bit_drop_bit_eq bit_double possible_bit_word o_def, auto)
  qed
  moreover have "\<not> bit (push_bit 1 v) 0"
    by (simp only: bit_double) simp
  ultimately show ?thesis
    using False by (simp only: zigzag_def sless_0_iff and_1_eq if_False) simp
qed

lemma unat_tag: "unat (push_bit 3 (ucast (n :: u32)) OR ucast (wt :: u32) :: u64) = 8 * unat n + unat wt"
  if "unat wt < 8"
proof -
  have "of_nat (unat wt) OR push_bit 3 (of_nat (unat n)) = (of_nat (unat wt + 2 ^ 3 * unat n) :: u64)"
    using that by (intro merge_bits) simp
  moreover have "unat n < 2 ^ LENGTH(32)"
    by (rule unsigned_less)
  ultimately show ?thesis
    using that by (simp only: ucast_eq_of_nat or.commute [of "push_bit 3 _"])
      (subst unat_of_nat_small, simp_all)
qed

end
