(* ===== verification/Pb_Fields.thy ===== *)
theory Pb_Fields
  imports Pb_Ostream
begin

text \<open>
  The field codecs of nanopb: the encoders and decoders of \<open>PB_ENCODERS\<close> and
  \<open>PB_DECODERS\<close>, arrays (\<open>encode_array\<close>) and the decoding of a statically allocated field
  (\<open>decode_static_field\<close>).  The structure in memory is the list of bytes at the pointer,
  numbers in the little-endian order of the targets; \<open>pb_size_t\<close> has 32 bits
  (\<open>PB_FIELD_32BIT\<close>) and allocation is enabled (\<open>PB_ENABLE_MALLOC\<close>), as the app builds it.
\<close>

section \<open>Field descriptions\<close>

record pb_field =
  ftag :: u32
  ftype :: byte
  data_size :: nat
  array_size :: nat

definition PB_LTYPE :: "byte \<Rightarrow> byte" where "PB_LTYPE t = t AND 0x0F"
definition PB_HTYPE :: "byte \<Rightarrow> byte" where "PB_HTYPE t = t AND 0x30"
definition PB_ATYPE :: "byte \<Rightarrow> byte" where "PB_ATYPE t = t AND 0xC0"

abbreviation (input) PB_LTYPE_BOOL :: byte where "PB_LTYPE_BOOL \<equiv> 0x00"
abbreviation (input) PB_LTYPE_VARINT :: byte where "PB_LTYPE_VARINT \<equiv> 0x01"
abbreviation (input) PB_LTYPE_UVARINT :: byte where "PB_LTYPE_UVARINT \<equiv> 0x02"
abbreviation (input) PB_LTYPE_SVARINT :: byte where "PB_LTYPE_SVARINT \<equiv> 0x03"
abbreviation (input) PB_LTYPE_FIXED32 :: byte where "PB_LTYPE_FIXED32 \<equiv> 0x04"
abbreviation (input) PB_LTYPE_FIXED64 :: byte where "PB_LTYPE_FIXED64 \<equiv> 0x05"
abbreviation (input) PB_LTYPE_LAST_PACKABLE :: byte where "PB_LTYPE_LAST_PACKABLE \<equiv> 0x05"
abbreviation (input) PB_LTYPE_BYTES :: byte where "PB_LTYPE_BYTES \<equiv> 0x06"
abbreviation (input) PB_LTYPE_STRING :: byte where "PB_LTYPE_STRING \<equiv> 0x07"
abbreviation (input) PB_LTYPE_SUBMESSAGE :: byte where "PB_LTYPE_SUBMESSAGE \<equiv> 0x08"
abbreviation (input) PB_LTYPE_FIXED_LENGTH_BYTES :: byte where "PB_LTYPE_FIXED_LENGTH_BYTES \<equiv> 0x0A"
abbreviation (input) PB_HTYPE_REQUIRED :: byte where "PB_HTYPE_REQUIRED \<equiv> 0x00"
abbreviation (input) PB_HTYPE_OPTIONAL :: byte where "PB_HTYPE_OPTIONAL \<equiv> 0x10"
abbreviation (input) PB_HTYPE_REPEATED :: byte where "PB_HTYPE_REPEATED \<equiv> 0x20"
abbreviation (input) PB_HTYPE_ONEOF :: byte where "PB_HTYPE_ONEOF \<equiv> 0x30"
abbreviation (input) PB_ATYPE_STATIC :: byte where "PB_ATYPE_STATIC \<equiv> 0x00"
abbreviation (input) PB_ATYPE_POINTER :: byte where "PB_ATYPE_POINTER \<equiv> 0x80"

definition PB_SIZE_MAX :: nat where "PB_SIZE_MAX = 2 ^ 32 - 1"
definition SIZE_MAX :: nat where "SIZE_MAX = 2 ^ 64 - 1"

text \<open>\<open>PB_BYTES_ARRAY_T_ALLOCSIZE\<close>: the four bytes of \<open>size\<close> come before the data.\<close>

definition PB_BYTES_ARRAY_T_ALLOCSIZE :: "nat \<Rightarrow> nat" where
  "PB_BYTES_ARRAY_T_ALLOCSIZE n = size_add n 4"

section \<open>Numbers in memory\<close>

definition load_u32 :: "byte list \<Rightarrow> u32" where "load_u32 m = of_nat (le_nat (take 4 m))"
definition load_u64 :: "byte list \<Rightarrow> u64" where "load_u64 m = of_nat (le_nat (take 8 m))"

text \<open>
  Reading an \<open>intN_t\<close> or \<open>uintN_t\<close> of \<open>data_size\<close> bytes into 64 bits, and the cast
  back with the value it leaves in \<open>clamped\<close>.
\<close>

definition load_signed :: "nat \<Rightarrow> byte list \<Rightarrow> u64 option" where
  "load_signed n m =
    (if n = 1 then Some (scast (of_nat (le_nat (take 1 m)) :: 8 word))
     else if n = 2 then Some (scast (of_nat (le_nat (take 2 m)) :: 16 word))
     else if n = 4 then Some (scast (load_u32 m))
     else if n = 8 then Some (load_u64 m)
     else None)"

definition load_unsigned :: "nat \<Rightarrow> byte list \<Rightarrow> u64 option" where
  "load_unsigned n m =
    (if n = 1 then Some (ucast (of_nat (le_nat (take 1 m)) :: 8 word))
     else if n = 2 then Some (ucast (of_nat (le_nat (take 2 m)) :: 16 word))
     else if n = 4 then Some (ucast (load_u32 m))
     else if n = 8 then Some (load_u64 m)
     else None)"

definition store_signed :: "nat \<Rightarrow> u64 \<Rightarrow> (byte list \<times> u64) option" where
  "store_signed n v =
    (if n = 8 then Some (le_bytes 8 (unat v), v)
     else if n = 4 then Some (le_bytes 4 (unat (ucast v :: 32 word)), scast (ucast v :: 32 word))
     else if n = 2 then Some (le_bytes 2 (unat (ucast v :: 16 word)), scast (ucast v :: 16 word))
     else if n = 1 then Some (le_bytes 1 (unat (ucast v :: 8 word)), scast (ucast v :: 8 word))
     else None)"

definition store_unsigned :: "nat \<Rightarrow> u64 \<Rightarrow> (byte list \<times> u64) option" where
  "store_unsigned n v =
    (if n = 8 then Some (le_bytes 8 (unat v), v)
     else if n = 4 then Some (le_bytes 4 (unat (ucast v :: 32 word)), ucast (ucast v :: 32 word))
     else if n = 2 then Some (le_bytes 2 (unat (ucast v :: 16 word)), ucast (ucast v :: 16 word))
     else if n = 1 then Some (le_bytes 1 (unat (ucast v :: 8 word)), ucast (ucast v :: 8 word))
     else None)"

section \<open>Field encoders\<close>

type_synonym 's encoder = "pb_field \<Rightarrow> byte list \<Rightarrow> ('s ostream, unit) oper"

text \<open>\<open>sizeof(bool)\<close> is one byte.\<close>

definition safe_read_bool :: "byte list \<Rightarrow> bool" where
  "safe_read_bool m \<longleftrightarrow> (\<exists>b \<in> set (take 1 m). b \<noteq> 0)"

definition pb_enc_bool :: "'s encoder" where
  "pb_enc_bool f src = pb_encode_varint (if safe_read_bool src then 1 else 0)"

definition pb_enc_varint :: "'s encoder" where
  "pb_enc_varint f src = (case load_signed (data_size f) src of
     None \<Rightarrow> out_error ''invalid data_size'' | Some v \<Rightarrow> pb_encode_varint v)"

definition pb_enc_uvarint :: "'s encoder" where
  "pb_enc_uvarint f src = (case load_unsigned (data_size f) src of
     None \<Rightarrow> out_error ''invalid data_size'' | Some v \<Rightarrow> pb_encode_varint v)"

definition pb_enc_svarint :: "'s encoder" where
  "pb_enc_svarint f src = (case load_signed (data_size f) src of
     None \<Rightarrow> out_error ''invalid data_size'' | Some v \<Rightarrow> pb_encode_svarint v)"

definition pb_enc_fixed32 :: "'s encoder" where
  "pb_enc_fixed32 f src = pb_encode_fixed32 (load_u32 src)"

definition pb_enc_fixed64 :: "'s encoder" where
  "pb_enc_fixed64 f src = pb_encode_fixed64 (load_u64 src)"

text \<open>For bytes and strings the pointer may be null.\<close>

definition pb_enc_bytes :: "pb_field \<Rightarrow> byte list option \<Rightarrow> ('s ostream, unit) oper" where
  "pb_enc_bytes f src =
    (case src of
       None \<Rightarrow> pb_encode_string [] 0
     | Some m \<Rightarrow>
        let n = unat (load_u32 m); allocsize = PB_BYTES_ARRAY_T_ALLOCSIZE n
        in if allocsize < n \<or> PB_ATYPE (ftype f) = PB_ATYPE_STATIC \<and> data_size f < allocsize
           then out_error ''bytes size exceeded''
           else pb_encode_string (take n (drop 4 m)) n)"

fun c_strnlen :: "nat \<Rightarrow> byte list \<Rightarrow> nat" where
  "c_strnlen (Suc k) (b # p) = (if b \<noteq> 0 then Suc (c_strnlen k p) else 0)"
| "c_strnlen _ _ = 0"

definition pb_enc_string :: "pb_field \<Rightarrow> byte list option \<Rightarrow> ('s ostream, unit) oper" where
  "pb_enc_string f src =
    (let max_sz = (if PB_ATYPE (ftype f) = PB_ATYPE_POINTER then SIZE_MAX else data_size f)
     in case src of
       None \<Rightarrow> pb_encode_string [] 0
     | Some m \<Rightarrow> let n = c_strnlen max_sz m in pb_encode_string (take n m) n)"

definition pb_enc_fixed_length_bytes :: "'s encoder" where
  "pb_enc_fixed_length_bytes f src = pb_encode_string (take (data_size f) src) (data_size f)"

text \<open>
  The table of encoders; the encoder of submessages is an argument, and the slot of
  extensions is a null pointer.
\<close>

definition PB_ENCODERS :: "'s encoder \<Rightarrow> byte \<Rightarrow> 's encoder option" where
  "PB_ENCODERS submsg lt =
    (if lt = PB_LTYPE_BOOL then Some pb_enc_bool
     else if lt = PB_LTYPE_VARINT then Some pb_enc_varint
     else if lt = PB_LTYPE_UVARINT then Some pb_enc_uvarint
     else if lt = PB_LTYPE_SVARINT then Some pb_enc_svarint
     else if lt = PB_LTYPE_FIXED32 then Some pb_enc_fixed32
     else if lt = PB_LTYPE_FIXED64 then Some pb_enc_fixed64
     else if lt = PB_LTYPE_BYTES then Some (\<lambda>f m. pb_enc_bytes f (Some m))
     else if lt = PB_LTYPE_STRING then Some (\<lambda>f m. pb_enc_string f (Some m))
     else if lt = PB_LTYPE_SUBMESSAGE then Some submsg
     else if lt = PB_LTYPE_FIXED_LENGTH_BYTES then Some pb_enc_fixed_length_bytes
     else None)"

definition pb_encode_tag_for_field :: "pb_field \<Rightarrow> ('s ostream, unit) oper" where
  "pb_encode_tag_for_field f =
    (let lt = PB_LTYPE (ftype f)
     in if lt \<in> {PB_LTYPE_BOOL, PB_LTYPE_VARINT, PB_LTYPE_UVARINT, PB_LTYPE_SVARINT}
        then pb_encode_tag PB_WT_VARINT (ftag f)
        else if lt = PB_LTYPE_FIXED32 then pb_encode_tag PB_WT_32BIT (ftag f)
        else if lt = PB_LTYPE_FIXED64 then pb_encode_tag PB_WT_64BIT (ftag f)
        else if lt \<in> {PB_LTYPE_BYTES, PB_LTYPE_STRING, PB_LTYPE_SUBMESSAGE, PB_LTYPE_FIXED_LENGTH_BYTES}
        then pb_encode_tag PB_WT_STRING (ftag f)
        else out_error ''invalid field type'')"

section \<open>Arrays\<close>

text \<open>\<open>encode_items\<close> is the loop over the entries with \<open>p\<close> moving by \<open>data_size\<close>.\<close>

fun encode_items :: "(byte list \<Rightarrow> ('s ostream, unit) oper) \<Rightarrow> nat \<Rightarrow> nat \<Rightarrow> byte list
    \<Rightarrow> ('s ostream, unit) oper" where
  "encode_items func sz 0 p = ok ()"
| "encode_items func sz (Suc n) p =
    and_then (func p) (\<lambda>_. encode_items func sz n (drop sz p))"

text \<open>
  For a pointer to strings or byte arrays the entries are pointers themselves: \<open>deref\<close> is
  the memory they point to.
\<close>

definition encode_array :: "(byte list \<Rightarrow> byte list) \<Rightarrow> pb_field \<Rightarrow> byte list \<Rightarrow> nat \<Rightarrow> 's encoder
    \<Rightarrow> ('s ostream, unit) oper" where
  "encode_array deref f pData count func s =
    (let at = PB_ATYPE (ftype f); lt = PB_LTYPE (ftype f)
     in if count = 0 then (Some (), s)
        else if at \<noteq> PB_ATYPE_POINTER \<and> array_size f < count
        then out_error ''array max size exceeded'' s
        else if lt \<le> PB_LTYPE_LAST_PACKABLE then
          and_then (pb_encode_tag PB_WT_STRING (ftag f)) (\<lambda>_ s1.
            case (if lt = PB_LTYPE_FIXED32 then (Some (), size_mul 4 count)
                  else if lt = PB_LTYPE_FIXED64 then (Some (), size_mul 8 count)
                  else case encode_items (func f) (data_size f) count pData
                         (PB_OSTREAM_SIZING (sink_state s1)) of (r, z) \<Rightarrow> (r, bytes_written z)) of
              (None, n) \<Rightarrow> (None, s1)
            | (Some _, n) \<Rightarrow>
                and_then (pb_encode_varint (of_nat n)) (\<lambda>_ s2.
                  if sink s2 = None then pb_write [] n s2
                  else encode_items (func f) (data_size f) count pData s2) s1) s
        else encode_items (\<lambda>p. and_then (pb_encode_tag_for_field f)
               (\<lambda>_. func f (if at = PB_ATYPE_POINTER \<and> lt \<in> {PB_LTYPE_STRING, PB_LTYPE_BYTES}
                            then deref p else p)))
             (data_size f) count pData s)"

section \<open>Field decoders\<close>

text \<open>
  A decoder works on the memory at \<open>dest\<close> and the stream.  For a pointer field the memory
  is the block that \<open>*(void **)dest\<close> points to; \<open>realloc\<close> answers with the new block for
  a size and the old one, or \<open>None\<close>.
\<close>

type_synonym ('s, 'a) mem_oper = "(byte list \<times> 's istream, 'a) oper"
type_synonym 's decoder = "pb_field \<Rightarrow> ('s, unit) mem_oper"

definition on_stream :: "('s istream, 'a) oper \<Rightarrow> ('s, 'a) mem_oper" where
  "on_stream m = (\<lambda>(d, s). case m s of (r, t) \<Rightarrow> (r, (d, t)))"

definition put_mem :: "nat \<Rightarrow> byte list \<Rightarrow> ('s, unit) mem_oper" where
  "put_mem pos bs = (\<lambda>(d, s). (Some (), (take pos d @ bs @ drop (pos + length bs) d, s)))"

definition read_mem :: "nat \<Rightarrow> nat \<Rightarrow> ('s, unit) mem_oper" where
  "read_mem pos n = and_then (on_stream (pb_read False n)) (put_mem pos)"

definition mem_error :: "string \<Rightarrow> ('s, 'a) mem_oper" where
  "mem_error msg = on_stream (return_error msg)"

definition allocate_field :: "(nat \<Rightarrow> byte list \<Rightarrow> byte list option) \<Rightarrow> nat \<Rightarrow> nat \<Rightarrow> ('s, unit) mem_oper" where
  "allocate_field realloc dsize asize = (\<lambda>(d, s).
    if dsize = 0 \<or> asize = 0 then mem_error ''invalid size'' (d, s)
    else if (2 ^ 32 \<le> dsize \<or> 2 ^ 32 \<le> asize) \<and> SIZE_MAX div asize < dsize
    then mem_error ''size too large'' (d, s)
    else case realloc (size_mul asize dsize) d of
      None \<Rightarrow> mem_error ''realloc failed'' (d, s)
    | Some block \<Rightarrow> (Some (), (block, s)))"

definition store_checked :: "(byte list \<times> u64) option \<Rightarrow> u64 \<Rightarrow> ('s, unit) mem_oper" where
  "store_checked r v = (case r of
     None \<Rightarrow> mem_error ''invalid data_size''
   | Some (bs, clamped) \<Rightarrow>
      and_then (put_mem 0 bs) (\<lambda>_.
        if clamped \<noteq> v then mem_error ''integer too large'' else ok ()))"

definition pb_dec_bool :: "'s decoder" where
  "pb_dec_bool f = and_then (on_stream pb_decode_varint32) (\<lambda>v. put_mem 0 [of_bool (v \<noteq> 0)])"

definition pb_dec_varint :: "'s decoder" where
  "pb_dec_varint f = and_then (on_stream pb_decode_varint) (\<lambda>v.
     let svalue = (if data_size f = 8 then v else scast (ucast v :: 32 word))
     in store_checked (store_signed (data_size f) svalue) svalue)"

definition pb_dec_uvarint :: "'s decoder" where
  "pb_dec_uvarint f = and_then (on_stream pb_decode_varint) (\<lambda>v.
     store_checked (store_unsigned (data_size f) v) v)"

definition pb_dec_svarint :: "'s decoder" where
  "pb_dec_svarint f = and_then (on_stream pb_decode_svarint) (\<lambda>v.
     store_checked (store_signed (data_size f) v) v)"

definition pb_dec_fixed32 :: "'s decoder" where
  "pb_dec_fixed32 f = and_then (on_stream pb_decode_fixed32) (\<lambda>v. put_mem 0 (le_bytes 4 (unat v)))"

definition pb_dec_fixed64 :: "'s decoder" where
  "pb_dec_fixed64 f = and_then (on_stream pb_decode_fixed64) (\<lambda>v. put_mem 0 (le_bytes 8 (unat v)))"

definition pb_dec_bytes :: "(nat \<Rightarrow> byte list \<Rightarrow> byte list option) \<Rightarrow> 's decoder" where
  "pb_dec_bytes realloc f = and_then (on_stream pb_decode_varint32) (\<lambda>v.
     let n = unat v; alloc_size = PB_BYTES_ARRAY_T_ALLOCSIZE n
     in if PB_SIZE_MAX < n then mem_error ''bytes overflow''
        else if alloc_size < n then mem_error ''size too large''
        else and_then
          (if PB_ATYPE (ftype f) = PB_ATYPE_POINTER then allocate_field realloc alloc_size 1
           else if data_size f < alloc_size then mem_error ''bytes overflow''
           else ok ())
          (\<lambda>_. and_then (put_mem 0 (le_bytes 4 n)) (\<lambda>_. read_mem 4 n)))"

text \<open>The terminating zero is stored even when reading the characters failed.\<close>

definition pb_dec_string :: "(nat \<Rightarrow> byte list \<Rightarrow> byte list option) \<Rightarrow> 's decoder" where
  "pb_dec_string realloc f = and_then (on_stream pb_decode_varint32) (\<lambda>v.
     let n = unat v; alloc_size = unat (v + 1)
     in if alloc_size < n then mem_error ''size too large''
        else and_then
          (if PB_ATYPE (ftype f) = PB_ATYPE_POINTER then allocate_field realloc alloc_size 1
           else if data_size f < alloc_size then mem_error ''string overflow''
           else ok ())
          (\<lambda>_ ds. case read_mem 0 n ds of (r, (d, t)) \<Rightarrow> (r, (d[n := 0], t))))"

definition pb_dec_fixed_length_bytes :: "'s decoder" where
  "pb_dec_fixed_length_bytes f = and_then (on_stream pb_decode_varint32) (\<lambda>v.
     let n = unat v
     in if PB_SIZE_MAX < n then mem_error ''bytes overflow''
        else if n = 0 then put_mem 0 (replicate (data_size f) 0)
        else if n \<noteq> data_size f then mem_error ''incorrect fixed length bytes size''
        else read_mem 0 (data_size f))"

definition PB_DECODERS :: "(nat \<Rightarrow> byte list \<Rightarrow> byte list option) \<Rightarrow> 's decoder \<Rightarrow> byte \<Rightarrow> 's decoder option" where
  "PB_DECODERS realloc submsg lt =
    (if lt = PB_LTYPE_BOOL then Some pb_dec_bool
     else if lt = PB_LTYPE_VARINT then Some pb_dec_varint
     else if lt = PB_LTYPE_UVARINT then Some pb_dec_uvarint
     else if lt = PB_LTYPE_SVARINT then Some pb_dec_svarint
     else if lt = PB_LTYPE_FIXED32 then Some pb_dec_fixed32
     else if lt = PB_LTYPE_FIXED64 then Some pb_dec_fixed64
     else if lt = PB_LTYPE_BYTES then Some (pb_dec_bytes realloc)
     else if lt = PB_LTYPE_STRING then Some (pb_dec_string realloc)
     else if lt = PB_LTYPE_SUBMESSAGE then Some submsg
     else if lt = PB_LTYPE_FIXED_LENGTH_BYTES then Some pb_dec_fixed_length_bytes
     else None)"

section \<open>Static fields\<close>

text \<open>
  The iterator points to a field of the structure: \<open>has_size\<close> tells whether \<open>pSize\<close> is a
  separate location (\<open>pSize != pData\<close>), \<open>fcount\<close> is the \<open>pb_size_t\<close> or the flag there, and
  \<open>pdata\<close> the memory at \<open>pData\<close>.
\<close>

record field_iter =
  fpos :: pb_field
  has_size :: bool
  fcount :: nat
  pdata :: "byte list"

type_synonym ('s, 'a) field_oper = "(field_iter \<times> 's istream, 'a) oper"

text \<open>\<open>at_item func off\<close> calls the decoder with the pointer \<open>pData + off\<close>.\<close>

definition at_item :: "'s decoder \<Rightarrow> nat \<Rightarrow> ('s, unit) field_oper" where
  "at_item func off = (\<lambda>(it, s).
    case func (fpos it) (drop off (pdata it), s) of
      (r, (d, t)) \<Rightarrow> (r, (it\<lparr>pdata := take off (pdata it) @ d\<rparr>, t)))"

definition item_offset :: "field_iter \<Rightarrow> nat" where
  "item_offset it = (data_size (fpos it) * fcount it) mod 2 ^ 32"

definition field_error :: "string \<Rightarrow> ('s, 'a) field_oper" where
  "field_error msg = (\<lambda>(it, s). case return_error msg s of (r, t) \<Rightarrow> (r, (it, t)))"

function packed_loop :: "'s decoder \<Rightarrow> ('s, unit) field_oper" where
  "packed_loop func (it, sub) =
    (if 0 < bytes_left sub \<and> fcount it < array_size (fpos it) then
       (case at_item func (item_offset it) (it, sub) of
          (None, r) \<Rightarrow> (None, r)
        | (Some _, (it', sub')) \<Rightarrow> packed_loop func (it'\<lparr>fcount := fcount it + 1\<rparr>, sub'))
     else (Some (), (it, sub)))"
  by pat_completeness auto
termination
  by (relation "measure (\<lambda>(f, it, s). array_size (fpos it) - fcount it)")
    (auto simp: at_item_def split: prod.splits)

declare packed_loop.simps [simp del]

definition decode_static_field ::
  "(nat \<Rightarrow> byte list \<Rightarrow> byte list option) \<Rightarrow> 's decoder \<Rightarrow> (pb_field \<Rightarrow> byte list)
    \<Rightarrow> wire_type \<Rightarrow> ('s, unit) field_oper" where
  "decode_static_field realloc submsg defaults wt = (\<lambda>(it, s).
    let t = ftype (fpos it); func = the (PB_DECODERS realloc submsg (PB_LTYPE t)); ht = PB_HTYPE t
    in if ht = PB_HTYPE_REQUIRED then at_item func 0 (it, s)
       else if ht = PB_HTYPE_OPTIONAL then
         at_item func 0 (if has_size it then it\<lparr>fcount := 1\<rparr> else it, s)
       else if ht = PB_HTYPE_REPEATED then
         if wt = PB_WT_STRING \<and> PB_LTYPE t \<le> PB_LTYPE_LAST_PACKABLE then
           (case pb_make_string_substream s of
              (None, s1) \<Rightarrow> (None, (it, s1))
            | (Some sub, s1) \<Rightarrow>
               (case packed_loop func (it, sub) of
                  (status, (it', sub')) \<Rightarrow>
                    if bytes_left sub' \<noteq> 0 then field_error ''array overflow'' (it', s1)
                    else (case pb_close_string_substream sub' s1 of
                        (None, s2) \<Rightarrow> (None, (it', s2))
                      | (Some _, s2) \<Rightarrow> (status, (it', s2)))))
         else
           let it' = it\<lparr>fcount := (fcount it + 1) mod 2 ^ 32\<rparr>
           in if array_size (fpos it) \<le> fcount it then field_error ''array overflow'' (it', s)
              else at_item func (item_offset it) (it', s)
       else
         at_item func 0
           (let it' = it\<lparr>fcount := unat (ftag (fpos it))\<rparr>
            in if PB_LTYPE t = PB_LTYPE_SUBMESSAGE then it'\<lparr>pdata := defaults (fpos it) @ drop (data_size (fpos it)) (pdata it)\<rparr> else it', s))"

section \<open>Numbers survive memory\<close>

lemma le_nat_take: "n \<le> length m \<Longrightarrow> le_bytes n (le_nat (take n m)) = take n m"
  using le_bytes_le_nat [of "take n m"] by simp

lemma unat_loaded:
  assumes "(256 :: nat) ^ n \<le> 2 ^ LENGTH('a)"
  shows "unat (of_nat (le_nat (take n m)) :: 'a::len word) = le_nat (take n m)"
proof (rule unat_of_nat_small)
  have "le_nat (take n m) < 256 ^ length (take n m)"
    by (rule le_nat_less)
  also have "\<dots> \<le> 256 ^ n"
    by (intro power_increasing) simp_all
  finally show "le_nat (take n m) < 2 ^ LENGTH('a)"
    using assms by simp
qed

lemma stored:
  "n \<le> length m \<Longrightarrow> (256 :: nat) ^ n \<le> 2 ^ LENGTH('a) \<Longrightarrow>
    le_bytes n (unat (of_nat (le_nat (take n m)) :: 'a::len word)) = take n m"
  by (simp only: unat_loaded le_nat_take)

lemma ucast_scast_up:
  assumes "LENGTH('a) \<le> LENGTH('b)"
  shows "ucast (scast (w :: 'a::len word) :: 'b::len word) = w"
proof (rule bit_word_eqI)
  fix n assume "n < LENGTH('a)"
  with assms show "bit (ucast (scast w :: 'b word) :: 'a word) n = bit w n"
    by (cases "n = LENGTH('a) - 1") (auto simp: bit_simps min_def)
qed

lemma ucast_ucast_up: "LENGTH('a) \<le> LENGTH('b) \<Longrightarrow> ucast (ucast (w :: 'a::len word) :: 'b::len word) = w"
  by (rule bit_word_eqI) (auto simp: bit_simps)

lemma scast_ucast_scast:
  assumes "LENGTH('a) \<le> LENGTH('b)" and "LENGTH('b) \<le> LENGTH('c)"
  shows "scast (ucast (scast (w :: 'a::len word) :: 'c::len word) :: 'b::len word) = (scast w :: 'c word)"
proof (rule bit_word_eqI)
  fix n assume n: "n < LENGTH('c)"
  have a: "LENGTH('a) - 1 < LENGTH('c)" "LENGTH('b) - 1 < LENGTH('c)"
    using assms by (metis diff_less len_gt_0 less_le_trans zero_less_one order_trans)+
  have m: "min (LENGTH('b) - 1) (LENGTH('a) - 1) = LENGTH('a) - 1"
    using assms by simp
  show "bit (scast (ucast (scast w :: 'c word) :: 'b word) :: 'c word) n = bit (scast w :: 'c word) n"
    using n assms a m
    by (cases "n < LENGTH('b) - 1") (auto simp: bit_simps min_def)
qed

lemma load_store_signed:
  "load_signed n m = Some v \<Longrightarrow> n \<le> length m \<Longrightarrow> store_signed n v = Some (take n m, v)"
  using stored [of 1 m, where 'a = 8] stored [of 2 m, where 'a = 16]
    stored [of 4 m, where 'a = 32] stored [of 8 m, where 'a = 64]
  by (auto simp: load_signed_def store_signed_def load_u32_def load_u64_def ucast_scast_up
      split: if_splits simp del: le_bytes.simps One_nat_def)

lemma load_store_unsigned:
  "load_unsigned n m = Some v \<Longrightarrow> n \<le> length m \<Longrightarrow> store_unsigned n v = Some (take n m, v)"
  using stored [of 1 m, where 'a = 8] stored [of 2 m, where 'a = 16]
    stored [of 4 m, where 'a = 32] stored [of 8 m, where 'a = 64]
  by (auto simp: load_unsigned_def store_unsigned_def load_u32_def load_u64_def ucast_ucast_up
      split: if_splits simp del: le_bytes.simps One_nat_def)

lemma load_signed_wrapped:
  "load_signed n m = Some v \<Longrightarrow> n \<noteq> 8 \<Longrightarrow> scast (ucast v :: 32 word) = v"
  by (auto simp: load_signed_def scast_ucast_scast split: if_splits)

lemma load_signed_Some_iff: "(\<exists>v. load_signed n m = Some v) \<longleftrightarrow> n \<in> {1, 2, 4, 8}"
  by (auto simp: load_signed_def)

lemma load_unsigned_Some_iff: "(\<exists>v. load_unsigned n m = Some v) \<longleftrightarrow> n \<in> {1, 2, 4, 8}"
  by (auto simp: load_unsigned_def)

section \<open>The wire format of a scalar\<close>

text \<open>
  \<open>well_typed f item\<close>: the bytes are an item of the packable type of \<open>f\<close>, with a size the
  codecs support and, for a bool, one of its two representations.  \<open>scalar_bytes\<close> is the
  encoding that the wire format prescribes for it.
\<close>

definition well_typed :: "pb_field \<Rightarrow> byte list \<Rightarrow> bool" where
  "well_typed f item \<longleftrightarrow> length item = data_size f \<and>
    (PB_LTYPE (ftype f) = PB_LTYPE_BOOL \<and> (item = [0] \<or> item = [1])
     \<or> PB_LTYPE (ftype f) = PB_LTYPE_VARINT \<and> data_size f \<in> {1, 2, 4, 8}
     \<or> PB_LTYPE (ftype f) = PB_LTYPE_UVARINT \<and> data_size f \<in> {1, 2, 4, 8}
     \<or> PB_LTYPE (ftype f) = PB_LTYPE_SVARINT \<and> data_size f \<in> {1, 2, 4, 8}
     \<or> PB_LTYPE (ftype f) = PB_LTYPE_FIXED32 \<and> data_size f = 4
     \<or> PB_LTYPE (ftype f) = PB_LTYPE_FIXED64 \<and> data_size f = 8)"

definition scalar_bytes :: "pb_field \<Rightarrow> byte list \<Rightarrow> byte list" where
  "scalar_bytes f item =
    (let lt = PB_LTYPE (ftype f); n = data_size f
     in if lt = PB_LTYPE_BOOL then varint_buffer (if safe_read_bool item then 1 else 0)
        else if lt = PB_LTYPE_VARINT then varint_buffer (the (load_signed n item))
        else if lt = PB_LTYPE_UVARINT then varint_buffer (the (load_unsigned n item))
        else if lt = PB_LTYPE_SVARINT then varint_buffer (zigzag (the (load_signed n item)))
        else item)"

lemma load_signed_take: "load_signed n (take n p) = load_signed n p"
  by (simp add: load_signed_def load_u32_def load_u64_def)

lemma load_unsigned_take: "load_unsigned n (take n p) = load_unsigned n p"
  by (simp add: load_unsigned_def load_u32_def load_u64_def)

lemma varint_buffer_not_Nil: "varint_buffer v \<noteq> []"
  using varint_buffer_correct [of v] by auto

lemma scalar_bytes_not_Nil: "well_typed f item \<Longrightarrow> scalar_bytes f item \<noteq> []"
  by (auto simp: scalar_bytes_def well_typed_def varint_buffer_not_Nil Let_def split: if_splits)

context output_sink
begin

lemma emits_scalar:
  assumes "well_typed f item" and "take (data_size f) p = item"
    and "PB_ENCODERS submsg (PB_LTYPE (ftype f)) = Some enc"
  shows "emits put written (enc f p) (scalar_bytes f item)"
proof -
  define lt where "lt = PB_LTYPE (ftype f)"
  define n where "n = data_size f"
  note d = lt_def [symmetric] n_def [symmetric]
  have item: "item = take n p" "length (take n p) = n"
    using assms(1,2) by (auto simp: well_typed_def n_def)
  consider "lt = PB_LTYPE_BOOL" "item = [0] \<or> item = [1]" | "lt = PB_LTYPE_VARINT" "n \<in> {1, 2, 4, 8}"
    | "lt = PB_LTYPE_UVARINT" "n \<in> {1, 2, 4, 8}" | "lt = PB_LTYPE_SVARINT" "n \<in> {1, 2, 4, 8}"
    | "lt = PB_LTYPE_FIXED32" "n = 4" | "lt = PB_LTYPE_FIXED64" "n = 8"
    using assms(1) unfolding well_typed_def d by blast
  then show ?thesis
  proof cases
    case 1
    moreover have "length item = n" using item by simp
    ultimately have "n = 1" by auto
    then have "safe_read_bool item = safe_read_bool p"
      by (simp add: item safe_read_bool_def)
    with 1(1) assms(3) emits_varint show ?thesis
      by (auto simp: PB_ENCODERS_def scalar_bytes_def d pb_enc_bool_def)
  next
    case 2
    then obtain v where "load_signed n p = Some v"
      using load_signed_Some_iff by blast
    with 2 assms(3) emits_varint show ?thesis
      by (auto simp: PB_ENCODERS_def scalar_bytes_def d pb_enc_varint_def item load_signed_take)
  next
    case 3
    then obtain v where "load_unsigned n p = Some v"
      using load_unsigned_Some_iff by blast
    with 3 assms(3) emits_varint show ?thesis
      by (auto simp: PB_ENCODERS_def scalar_bytes_def d pb_enc_uvarint_def item load_unsigned_take)
  next
    case 4
    then obtain v where "load_signed n p = Some v"
      using load_signed_Some_iff by blast
    with 4 assms(3) emits_varint show ?thesis
      by (auto simp: PB_ENCODERS_def scalar_bytes_def d pb_enc_svarint_def pb_encode_svarint_def
          item load_signed_take)
  next
    case 5
    then have "le_bytes 4 (unat (load_u32 p)) = item"
      using stored [of 4 p, where 'a = 32] item by (simp add: load_u32_def)
    with 5 assms(3) emits_fixed32 [of "load_u32 p"] show ?thesis
      by (auto simp: PB_ENCODERS_def scalar_bytes_def d pb_enc_fixed32_def)
  next
    case 6
    then have "le_bytes 8 (unat (load_u64 p)) = item"
      using stored [of 8 p, where 'a = 64] item by (simp add: load_u64_def)
    with 6 assms(3) emits_fixed64 [of "load_u64 p"] show ?thesis
      by (auto simp: PB_ENCODERS_def scalar_bytes_def d pb_enc_fixed64_def)
  qed
qed

end

text \<open>\<open>decodes\<close>: the operation reads exactly \<open>bs\<close> and leaves \<open>item\<close> at the pointer.\<close>

definition decodes ::
  "'s reader \<Rightarrow> ('s \<Rightarrow> byte list) \<Rightarrow> ('s, unit) mem_oper \<Rightarrow> byte list \<Rightarrow> byte list \<Rightarrow> bool" where
  "decodes cb rem m bs item \<longleftrightarrow> (\<forall>s d rest. primed cb rem s \<longrightarrow> contents_of rem s = bs @ rest \<longrightarrow>
     length item \<le> length d \<longrightarrow>
     (\<exists>t. m (d, s) = (Some (), (item @ drop (length item) d, t)) \<and> advanced rem s (length bs) t))"

lemma on_stream_Some [op_simps]: "m s = (r, t) \<Longrightarrow> on_stream m (d, s) = (r, (d, t))"
  by (simp add: on_stream_def)

lemma decodes_via:
  assumes "\<And>s rest. primed cb rem s \<Longrightarrow> contents_of rem s = bs @ rest \<Longrightarrow>
      \<exists>t. m s = (Some v, t) \<and> advanced rem s (length bs) t"
    and "\<And>(d :: byte list) s. length item \<le> length d \<Longrightarrow> k v (d, s) = (Some (), (item @ drop (length item) d, s))"
  shows "decodes cb rem (and_then (on_stream m) k) bs item"
  unfolding decodes_def
proof (intro allI impI)
  fix s rest and d :: "byte list"
  assume s: "primed cb rem s" "contents_of rem s = bs @ rest" and d: "length item \<le> length d"
  obtain t where t: "m s = (Some v, t)" "advanced rem s (length bs) t"
    using assms(1) [OF s] by blast
  have "and_then (on_stream m) k (d, s) = k v (d, t)"
    by (rule and_then_Some) (simp only: on_stream_def prod.case t(1))
  then show "\<exists>t. and_then (on_stream m) k (d, s) = (Some (), (item @ drop (length item) d, t))
      \<and> advanced rem s (length bs) t"
    using assms(2) [OF d] t(2) by simp
qed

lemma put_mem_0: "put_mem 0 bs (d, s) = (Some (), (bs @ drop (length bs) d, s))"
  by (simp add: put_mem_def)

lemma store_checked_ok:
  "store_checked (Some (bs, v)) v (d, s) = (Some (), (bs @ drop (length bs) d, s))"
  by (simp add: store_checked_def and_then_def put_mem_0 ok_def)

context input_source
begin

lemma decode_varint_buffer:
  "primed cb rem s \<Longrightarrow> contents_of rem s = varint_buffer v @ rest \<Longrightarrow>
    \<exists>t. pb_decode_varint s = (Some v, t) \<and> advanced rem s (length (varint_buffer v)) t"
  using pb_decode_varint_ok [of s "varint_buffer v" rest] varint_buffer_correct [of v]
    varint_buffer_bound [of v] by simp

lemma decode_svarint_buffer:
  assumes "primed cb rem s" and "contents_of rem s = varint_buffer (zigzag v) @ rest"
  shows "\<exists>t. pb_decode_svarint s = (Some v, t) \<and> advanced rem s (length (varint_buffer (zigzag v))) t"
  using decode_varint_buffer [OF assms] unzigzag [of v]
  by (auto simp: pb_decode_svarint_def op_simps simp del: if_split)

lemma decode_varint32_buffer:
  assumes "primed cb rem s" and "contents_of rem s = varint_buffer (of_nat n) @ rest" and "n < 2 ^ 32"
  shows "\<exists>t. pb_decode_varint32 s = (Some (of_nat n), t)
    \<and> advanced rem s (length (varint_buffer (of_nat n))) t"
  by (rule pb_decode_varint32_ok [OF assms(1,2) is_length_varint_buffer [OF assms(3)]])

lemma decodes_scalar:
  assumes "well_typed f item" and "PB_DECODERS realloc submsg (PB_LTYPE (ftype f)) = Some dec"
  shows "decodes cb rem (dec f) (scalar_bytes f item) item"
proof -
  define lt where "lt = PB_LTYPE (ftype f)"
  define n where "n = data_size f"
  note d = lt_def [symmetric] n_def [symmetric]
  have item: "length item = n" "take n item = item"
    using assms(1) by (auto simp: well_typed_def n_def)
  consider "lt = PB_LTYPE_BOOL" "item = [0] \<or> item = [1]" | "lt = PB_LTYPE_VARINT" "n \<in> {1, 2, 4, 8}"
    | "lt = PB_LTYPE_UVARINT" "n \<in> {1, 2, 4, 8}" | "lt = PB_LTYPE_SVARINT" "n \<in> {1, 2, 4, 8}"
    | "lt = PB_LTYPE_FIXED32" "n = 4" | "lt = PB_LTYPE_FIXED64" "n = 8"
    using assms(1) unfolding well_typed_def d by blast
  then show ?thesis
  proof cases
    case 1
    define b where "b = safe_read_bool item"
    have i: "item = [of_bool b]"
      using 1(2) by (auto simp: b_def safe_read_bool_def)
    have "decodes cb rem (pb_dec_bool f) (varint_buffer (of_nat (of_bool b))) item"
      unfolding pb_dec_bool_def
      by (rule decodes_via [OF decode_varint32_buffer]) (simp_all add: i put_mem_0)
    with 1(1) assms(2) show ?thesis
      by (auto simp: PB_DECODERS_def scalar_bytes_def d b_def [symmetric])
  next
    case 2
    then obtain v where v: "load_signed n item = Some v"
      using load_signed_Some_iff by blast
    have sv: "(if n = 8 then v else scast (ucast v :: 32 word)) = v"
      using load_signed_wrapped [OF v] by simp
    have "decodes cb rem (pb_dec_varint f) (varint_buffer v) item"
      unfolding pb_dec_varint_def d
      by (rule decodes_via [OF decode_varint_buffer])
        (simp_all only: sv Let_def load_store_signed [OF v] item store_checked_ok order_refl)
    with 2(1) assms(2) v show ?thesis
      by (auto simp: PB_DECODERS_def scalar_bytes_def d)
  next
    case 3
    then obtain v where v: "load_unsigned n item = Some v"
      using load_unsigned_Some_iff by blast
    have "decodes cb rem (pb_dec_uvarint f) (varint_buffer v) item"
      unfolding pb_dec_uvarint_def d
      by (rule decodes_via [OF decode_varint_buffer])
        (simp_all only: load_store_unsigned [OF v] item store_checked_ok order_refl)
    with 3(1) assms(2) v show ?thesis
      by (auto simp: PB_DECODERS_def scalar_bytes_def d)
  next
    case 4
    then obtain v where v: "load_signed n item = Some v"
      using load_signed_Some_iff by blast
    have "decodes cb rem (pb_dec_svarint f) (varint_buffer (zigzag v)) item"
      unfolding pb_dec_svarint_def d
      by (rule decodes_via [OF decode_svarint_buffer])
        (simp_all only: load_store_signed [OF v] item store_checked_ok order_refl)
    with 4(1) assms(2) v show ?thesis
      by (auto simp: PB_DECODERS_def scalar_bytes_def d)
  next
    case 5
    have f: "\<exists>t. pb_decode_fixed32 s = (Some (of_nat (le_nat item)), t) \<and> advanced rem s (length item) t"
      if "primed cb rem s" and "contents_of rem s = item @ rest" for s rest
      using pb_decode_fixed32_ok [OF that] item(1) 5(2) by simp
    have i: "le_bytes 4 (unat (of_nat (le_nat item) :: u32)) = item"
      using stored [of 4 item, where 'a = 32] item 5(2) by simp
    have "decodes cb rem (pb_dec_fixed32 f) item item"
      unfolding pb_dec_fixed32_def
      by (rule decodes_via [OF f]) (simp_all only: i put_mem_0)
    with 5(1) assms(2) show ?thesis
      by (auto simp: PB_DECODERS_def scalar_bytes_def d)
  next
    case 6
    have f: "\<exists>t. pb_decode_fixed64 s = (Some (of_nat (le_nat item)), t) \<and> advanced rem s (length item) t"
      if "primed cb rem s" and "contents_of rem s = item @ rest" for s rest
      using pb_decode_fixed64_ok [OF that] item(1) 6(2) by simp
    have i: "le_bytes 8 (unat (of_nat (le_nat item) :: u64)) = item"
      using stored [of 8 item, where 'a = 64] item 6(2) by simp
    have "decodes cb rem (pb_dec_fixed64 f) item item"
      unfolding pb_dec_fixed64_def
      by (rule decodes_via [OF f]) (simp_all only: i put_mem_0)
    with 6(1) assms(2) show ?thesis
      by (auto simp: PB_DECODERS_def scalar_bytes_def d)
  qed
qed

end

section \<open>Packed arrays\<close>

definition array_body :: "pb_field \<Rightarrow> byte list list \<Rightarrow> byte list" where
  "array_body f items = concat (map (scalar_bytes f) items)"

definition tag_bytes :: "wire_type \<Rightarrow> u32 \<Rightarrow> byte list" where
  "tag_bytes wt t = varint_buffer (push_bit 3 (ucast t) OR ucast wt)"

lemma packable: "well_typed f item \<Longrightarrow> PB_LTYPE (ftype f) \<le> PB_LTYPE_LAST_PACKABLE"
  unfolding well_typed_def by (elim conjE disjE) simp_all

lemma length_array_body_fixed:
  assumes "\<forall>item \<in> set items. well_typed f item"
  shows "PB_LTYPE (ftype f) = PB_LTYPE_FIXED32 \<Longrightarrow> length (array_body f items) = 4 * length items"
    and "PB_LTYPE (ftype f) = PB_LTYPE_FIXED64 \<Longrightarrow> length (array_body f items) = 8 * length items"
  using assms by (induction items) (auto simp: array_body_def scalar_bytes_def well_typed_def)

lemma length_concat_items:
  "\<forall>item \<in> set items. length item = n \<Longrightarrow> length (concat items) = n * length items"
  by (induction items) simp_all

context output_sink
begin

lemma emits_tag: "emits put written (pb_encode_tag wt t) (tag_bytes wt t)"
  unfolding pb_encode_tag_def tag_bytes_def by (rule emits_varint)

lemma emits_items:
  assumes "\<And>item p. item \<in> set items \<Longrightarrow> take sz p = item \<Longrightarrow> emits put written (func p) (enc item)"
    and "\<forall>item \<in> set items. length item = sz"
  shows "emits put written (encode_items func sz (length items) (concat items @ rest))
    (concat (map enc items))"
  using assms
proof (induction items)
  case Nil
  then show ?case by (simp add: emits_ok)
next
  case (Cons item items)
  have "emits put written (func (concat (item # items) @ rest)) (enc item)"
    using Cons.prems(2) by (intro Cons.prems(1)) simp_all
  moreover have "emits put written (encode_items func sz (length items)
      (drop sz (concat (item # items) @ rest))) (concat (map enc items))"
    using Cons.IH Cons.prems by simp
  ultimately show ?case
    by (simp only: list.size add_0_right add_Suc_right encode_items.simps list.map concat.simps
        emits_and_then)
qed

text \<open>A packed array is its tag, its length and the encodings of its items.\<close>

lemma emits_packed_array:
  assumes "items \<noteq> []" and typed: "\<forall>item \<in> set items. well_typed f item"
    and "length items \<le> array_size f" and enc: "PB_ENCODERS submsg (PB_LTYPE (ftype f)) = Some func"
    and small: "length (array_body f items) < 2 ^ 64"
  shows "emits put written (encode_array deref f (concat items @ rest) (length items) func)
    (tag_bytes PB_WT_STRING (ftag f) @ varint_buffer (of_nat (length (array_body f items))) @ array_body f items)"
proof -
  define n where "n = length (array_body f items)"
  define loop where "loop = encode_items (func f) (data_size f) (length items) (concat items @ rest)"
  have lt: "PB_LTYPE (ftype f) \<le> PB_LTYPE_LAST_PACKABLE"
    using assms(1) typed packable by (cases items) auto
  have body: "emits put written loop (array_body f items)"
    unfolding loop_def array_body_def using typed enc emits_scalar
    by (intro emits_items) (auto simp: well_typed_def)
  have sized: "(if PB_LTYPE (ftype f) = PB_LTYPE_FIXED32 then (Some (), size_mul 4 (length items))
      else if PB_LTYPE (ftype f) = PB_LTYPE_FIXED64 then (Some (), size_mul 8 (length items))
      else case loop (PB_OSTREAM_SIZING st) of (r, z) \<Rightarrow> (r, bytes_written z)) = (Some (), n)" for st
    using emits_sizing [OF body small, of st] length_array_body_fixed [OF typed] small
    by (auto simp: size_mul_def n_def)
  have wbody: "emits put written
      (\<lambda>s. if sink s = None then pb_write [] n s else loop s) (array_body f items)"
    unfolding emits_def
  proof (intro allI impI)
    fix s assume w: "writable put (length (array_body f items)) s"
    show "if room (length (array_body f items)) s
      then \<exists>t. (if sink s = None then pb_write [] n s else loop s) = (Some (), t)
        \<and> emitted written s (array_body f items) t
      else \<exists>t. (if sink s = None then pb_write [] n s else loop s) = (None, t)"
    proof (cases "sink s = None")
      case True
      with w show ?thesis
        by (simp add: pb_write_def room_def emitted_def n_def size_add_def writable_def)
    next
      case False
      then show ?thesis
        using body [unfolded emits_def, rule_format, OF w] by (simp only: if_False)
    qed
  qed
  have "encode_array deref f (concat items @ rest) (length items) func =
      and_then (pb_encode_tag PB_WT_STRING (ftag f)) (\<lambda>_. and_then (pb_encode_varint (of_nat n))
        (\<lambda>_ s. if sink s = None then pb_write [] n s else loop s))"
    unfolding encode_array_def Let_def loop_def [symmetric] sized
    using assms(1,3) lt by (intro ext) simp
  with emits_and_then [OF emits_tag emits_and_then [OF emits_varint wbody]] show ?thesis
    by (simp only: n_def)
qed

end

context input_source
begin

lemma packed_loop_ok:
  assumes "\<And>item. item \<in> set items \<Longrightarrow> decodes cb rem (func f) (enc item) item"
    and "\<forall>item \<in> set items. length item = data_size f \<and> enc item \<noteq> []"
    and "primed cb rem sub" and "contents_of rem sub = concat (map enc items)"
    and "fpos it = f" and "pdata it = pre @ d" and "length pre = data_size f * fcount it"
    and "fcount it + length items \<le> array_size f" and "data_size f * array_size f < 2 ^ 32"
    and "data_size f * length items \<le> length d"
  shows "\<exists>sub'. packed_loop func (it, sub) =
    (Some (), (it\<lparr>fcount := fcount it + length items,
       pdata := pre @ concat items @ drop (data_size f * length items) d\<rparr>, sub'))
    \<and> advanced rem sub (bytes_left sub) sub'"
  using assms
proof (induction items arbitrary: it sub pre d)
  case Nil
  then have "bytes_left sub = 0"
    using length_stream_contents [OF Nil.prems(3)] by simp
  moreover have "it\<lparr>fcount := fcount it, pdata := pre @ d\<rparr> = it"
    using Nil.prems(6) by simp
  ultimately show ?case by (simp add: packed_loop.simps)
next
  case (Cons item items)
  have len: "length item = data_size f" and ne: "enc item \<noteq> []"
    using Cons.prems(2) by auto
  have c: "contents_of rem sub = enc item @ concat (map enc items)"
    using Cons.prems(4) by simp
  have bl: "0 < bytes_left sub"
    using length_stream_contents [OF Cons.prems(3)] c ne by (cases "bytes_left sub") auto
  have "data_size f * fcount it \<le> data_size f * array_size f"
    using Cons.prems(8) by (intro mult_le_mono2) simp
  then have off: "item_offset it = length pre"
    using Cons.prems(5,7,9) unfolding item_offset_def by (subst mod_less) (simp_all only:)
  have "length item \<le> length d"
    using Cons.prems(10) len by simp
  then obtain t where t: "func f (d, sub) = (Some (), (item @ drop (length item) d, t))"
    and a: "advanced rem sub (length (enc item)) t"
    using Cons.prems(1) [of item] Cons.prems(3) c unfolding decodes_def by (meson list.set_intros(1))
  define it1 where "it1 = it\<lparr>pdata := pre @ item @ drop (length item) d\<rparr>"
  have step: "packed_loop func (it, sub) = packed_loop func (it1\<lparr>fcount := fcount it + 1\<rparr>, t)"
    using bl Cons.prems(5,6,8) t off
    by (simp add: packed_loop.simps [of func it sub] at_item_def it1_def)
  have "\<exists>sub'. packed_loop func (it1\<lparr>fcount := fcount it + 1\<rparr>, t) =
      (Some (), ((it1\<lparr>fcount := fcount it + 1\<rparr>)\<lparr>fcount := fcount it + 1 + length items,
         pdata := (pre @ item) @ concat items @ drop (data_size f * length items) (drop (length item) d)\<rparr>, sub'))
      \<and> advanced rem t (bytes_left t) sub'"
    using Cons.IH [of t "it1\<lparr>fcount := fcount it + 1\<rparr>" "pre @ item" "drop (length item) d"]
      Cons.prems primed_advanced [OF Cons.prems(3) a] contents_advanced [OF a] c len
    by (simp add: it1_def)
  moreover have "advanced rem sub (bytes_left sub) u" if "advanced rem t (bytes_left t) u" for u
    using advanced_trans [OF a that] a by (simp add: advanced_def)
  ultimately show ?case
    unfolding step by (auto simp: it1_def len add.commute)
qed

text \<open>Decoding a packed field fills the array and counts its items.\<close>

lemma decode_packed_ok:
  assumes typed: "\<forall>item \<in> set items. well_typed f item"
    and "primed cb rem s"
    and "contents_of rem s = varint_buffer (of_nat (length (array_body f items))) @ array_body f items @ rest"
    and "length (array_body f items) < 2 ^ 32"
    and "fpos it = f" and "PB_HTYPE (ftype f) = PB_HTYPE_REPEATED" and "items \<noteq> []"
    and "pdata it = pre @ d" and "length pre = data_size f * fcount it"
    and "fcount it + length items \<le> array_size f" and "data_size f * array_size f < 2 ^ 32"
    and "data_size f * length items \<le> length d"
  shows "\<exists>t. decode_static_field realloc submsg defaults PB_WT_STRING (it, s) =
    (Some (), (it\<lparr>fcount := fcount it + length items,
       pdata := pre @ concat items @ drop (data_size f * length items) d\<rparr>, t))
    \<and> advanced rem s (length (varint_buffer (of_nat (length (array_body f items))))
        + length (array_body f items)) t"
proof -
  have lt: "PB_LTYPE (ftype f) \<le> PB_LTYPE_LAST_PACKABLE"
    using assms(7) typed packable by (cases items) auto
  have "\<exists>func. PB_DECODERS realloc submsg (PB_LTYPE (ftype f)) = Some (func :: 's decoder)"
    using assms(7) typed by (cases items) (auto simp: well_typed_def PB_DECODERS_def)
  then obtain func :: "'s decoder" where func: "PB_DECODERS realloc submsg (PB_LTYPE (ftype f)) = Some func"
    by blast
  obtain sub s1 where make: "pb_make_string_substream s = (Some sub, s1)" and sub: "primed cb rem sub"
      "contents_of rem sub = array_body f items"
    and close: "\<And>n sub'. advanced rem sub n sub' \<Longrightarrow>
      \<exists>u. pb_close_string_substream sub' s1 = (Some (), u)
        \<and> advanced rem s (length (varint_buffer (of_nat (length (array_body f items))))
            + length (array_body f items)) u"
    using substream_ok [OF assms(2,3) is_length_varint_buffer [OF assms(4)]] by blast
  have len: "\<forall>item \<in> set items. length item = data_size f \<and> scalar_bytes f item \<noteq> []"
    using typed scalar_bytes_not_Nil by (auto simp: well_typed_def)
  obtain sub' where loop: "packed_loop func (it, sub) =
    (Some (), (it\<lparr>fcount := fcount it + length items,
       pdata := pre @ concat items @ drop (data_size f * length items) d\<rparr>, sub'))"
    and adv: "advanced rem sub (bytes_left sub) sub'"
    using packed_loop_ok [OF _ len sub(1) sub(2) [unfolded array_body_def] assms(5,8-12), of func]
      typed decodes_scalar [OF _ func] by blast
  obtain u where "pb_close_string_substream sub' s1 = (Some (), u)"
    and "advanced rem s (length (varint_buffer (of_nat (length (array_body f items))))
            + length (array_body f items)) u"
    using close [OF adv] by blast
  moreover have "bytes_left sub' = 0"
    using adv by (simp add: advanced_def)
  ultimately show ?thesis
    using make loop lt func assms(5,6) by (simp add: decode_static_field_def Let_def)
qed

end

section \<open>Strings and byte arrays\<close>

lemma c_strnlen_body:
  "\<forall>b \<in> set body. b \<noteq> 0 \<Longrightarrow> length body < n \<Longrightarrow> c_strnlen n (body @ 0 # rest) = length body"
proof (induction body arbitrary: n)
  case Nil
  then show ?case by (cases n) simp_all
next
  case (Cons b body)
  then show ?case by (cases n) simp_all
qed

lemma unat_length32: "n < 2 ^ 32 \<Longrightarrow> unat (of_nat n :: u32) = n"
  by (rule unat_of_nat_small) simp

lemma and_then_on_stream:
  "m s = (Some v, t) \<Longrightarrow> and_then (on_stream m) k (d, s) = k v (d, t)"
  by (rule and_then_Some) (simp only: on_stream_def prod.case)

context output_sink
begin

lemma emits_enc_string:
  assumes "\<forall>b \<in> set body. b \<noteq> 0" and "length body < data_size f"
    and "PB_ATYPE (ftype f) = PB_ATYPE_STATIC"
  shows "emits put written (pb_enc_string f (Some (body @ 0 # rest)))
    (varint_buffer (of_nat (length body)) @ body)"
  using emits_string [of body "length body"] c_strnlen_body [OF assms(1,2), of rest] assms(3)
  by (simp add: pb_enc_string_def Let_def)

lemma emits_enc_bytes:
  assumes "length body + 4 \<le> data_size f" and "data_size f < 2 ^ 32"
  shows "emits put written (pb_enc_bytes f (Some (le_bytes 4 (length body) @ body @ rest)))
    (varint_buffer (of_nat (length body)) @ body)"
proof -
  have "load_u32 (le_bytes 4 (length body) @ body @ rest) = of_nat (length body)"
    using assms le_nat_le_bytes [of 4 "length body"] by (simp add: load_u32_def)
  then show ?thesis
    using emits_string [of body "length body"] assms
    by (simp add: pb_enc_bytes_def Let_def unat_length32 PB_BYTES_ARRAY_T_ALLOCSIZE_def size_add_def)
qed

end

context input_source
begin

lemma read_mem_ok:
  assumes "primed cb rem s" and "contents_of rem s = bs @ rest" and "k + length bs \<le> length d"
  shows "\<exists>t. read_mem k (length bs) (d, s) = (Some (), (take k d @ bs @ drop (k + length bs) d, t))
    \<and> advanced rem s (length bs) t"
proof -
  have "length bs \<le> bytes_left s"
    using length_stream_contents [OF assms(1)] assms(2) by simp
  then obtain t where "pb_read False (length bs) s = (Some bs, t)" "advanced rem s (length bs) t"
    using pb_read_ok [OF assms(1), of "length bs"] assms(2) by auto
  then show ?thesis
    by (simp add: read_mem_def and_then_on_stream put_mem_def)
qed

text \<open>A string arrives with its terminator; one that does not fit is refused.\<close>

lemma pb_dec_string_ok:
  assumes "primed cb rem s" and "contents_of rem s = varint_buffer (of_nat (length body)) @ body @ rest"
    and "length body < data_size f" and "data_size f < 2 ^ 32" and "data_size f \<le> length d"
    and "PB_ATYPE (ftype f) \<noteq> PB_ATYPE_POINTER"
  shows "\<exists>t. pb_dec_string realloc f (d, s) = (Some (), (body @ 0 # drop (length body + 1) d, t))
    \<and> advanced rem s (length (varint_buffer (of_nat (length body))) + length body) t"
proof -
  have small: "length body < 2 ^ 32" using assms(3,4) by simp
  obtain t where t: "pb_decode_varint32 s = (Some (of_nat (length body)), t)"
    and a: "advanced rem s (length (varint_buffer (of_nat (length body)))) t"
    using decode_varint32_buffer [OF assms(1,2) small] by blast
  have c: "contents_of rem t = body @ rest"
    using contents_advanced [OF a] assms(2) by simp
  have "(of_nat (length body) + 1 :: u32) = of_nat (length body + 1)"
    by simp
  then have plus: "unat (of_nat (length body) + 1 :: u32) = length body + 1"
    using assms(3,4) by (simp only:) (rule unat_length32, simp)
  obtain u where "read_mem 0 (length body) (d, t) = (Some (), (body @ drop (length body) d, u))"
    and "advanced rem t (length body) u"
    using read_mem_ok [OF primed_advanced [OF assms(1) a] c, of 0 d] assms(3,5) by auto
  moreover have "(body @ drop (length body) d)[length body := 0] = body @ 0 # drop (length body + 1) d"
    using assms(3,5) by (cases "drop (length body) d")
      (simp_all add: list_update_append drop_Suc tl_drop [symmetric])
  ultimately show ?thesis
    using t plus small assms(3,6) advanced_trans [OF a]
    by (simp add: pb_dec_string_def and_then_on_stream Let_def unat_length32 and_then_def [of "ok ()"] ok_def)
qed

lemma pb_dec_bytes_ok:
  assumes "primed cb rem s" and "contents_of rem s = varint_buffer (of_nat (length body)) @ body @ rest"
    and "length body + 4 \<le> data_size f" and "data_size f < 2 ^ 32" and "data_size f \<le> length d"
    and "PB_ATYPE (ftype f) \<noteq> PB_ATYPE_POINTER"
  shows "\<exists>t. pb_dec_bytes realloc f (d, s) =
      (Some (), (le_bytes 4 (length body) @ body @ drop (4 + length body) d, t))
    \<and> advanced rem s (length (varint_buffer (of_nat (length body))) + length body) t"
proof -
  have small: "length body < 2 ^ 32" using assms(3,4) by simp
  obtain t where t: "pb_decode_varint32 s = (Some (of_nat (length body)), t)"
    and a: "advanced rem s (length (varint_buffer (of_nat (length body)))) t"
    using decode_varint32_buffer [OF assms(1,2) small] by blast
  have c: "contents_of rem t = body @ rest"
    using contents_advanced [OF a] assms(2) by simp
  define d1 where "d1 = le_bytes 4 (length body) @ drop 4 d"
  obtain u where u: "read_mem 4 (length body) (d1, t) =
      (Some (), (le_bytes 4 (length body) @ body @ drop (4 + length body) d, u))"
    and "advanced rem t (length body) u"
    using read_mem_ok [OF primed_advanced [OF assms(1) a] c, of 4 d1] assms(3,5)
    by (auto simp: d1_def add.commute)
  moreover have "size_add (length body) 4 = length body + 4"
    using small by (intro size_add_small) simp
  ultimately show ?thesis
    using t small assms(3,6) advanced_trans [OF a]
    by (simp add: pb_dec_bytes_def and_then_on_stream Let_def unat_length32 and_then_def [of "ok ()"]
        ok_def and_then_def [of "put_mem 0 _"] put_mem_0 d1_def [symmetric] PB_SIZE_MAX_def
        PB_BYTES_ARRAY_T_ALLOCSIZE_def)
qed

end

section \<open>Decoders stay inside the field\<close>

text \<open>
  \<open>frame n m\<close>: whatever the input is, \<open>m\<close> changes at most the first \<open>n\<close> bytes at the
  pointer.  The callback is only trusted not to deliver more bytes than asked for.
\<close>

named_theorems keeps_rules \<open>operations that leave the callback of the stream alone\<close>
named_theorems frame_rules \<open>operations that write only into the field\<close>

definition keeps :: "('s istream, 'a) oper \<Rightarrow> bool" where
  "keeps m \<longleftrightarrow> (\<forall>s r t. m s = (r, t) \<longrightarrow> callback t = callback s)"

definition modest :: "'s reader \<Rightarrow> bool" where
  "modest cb \<longleftrightarrow> (\<forall>st n bs u. cb st n = (Some bs, u) \<longrightarrow> length bs \<le> n)"

definition frame :: "nat \<Rightarrow> ('s, 'a) mem_oper \<Rightarrow> bool" where
  "frame n m \<longleftrightarrow> (\<forall>d s r d' t. modest (callback s) \<longrightarrow> n \<le> length d \<longrightarrow> m (d, s) = (r, (d', t)) \<longrightarrow>
     callback t = callback s \<and> length d' = length d \<and> drop n d' = drop n d)"

lemma modest_buf_read: "modest buf_read"
  by (simp add: modest_def buf_read_def)

lemma keeps_and_then [keeps_rules]: "keeps m \<Longrightarrow> (\<And>x. keeps (k x)) \<Longrightarrow> keeps (and_then m k)"
  by (fastforce simp: keeps_def and_then_def split: prod.splits option.splits)

lemma keeps_ok [keeps_rules]: "keeps (ok x)"
  by (simp add: keeps_def ok_def)

lemma keeps_error [keeps_rules]: "keeps (return_error msg)"
  by (simp add: keeps_def return_error_def set_error_def)

lemma keeps_readbyte [keeps_rules]: "keeps pb_readbyte"
  by (auto simp: keeps_def pb_readbyte_def return_error_def set_error_def
      split: prod.splits option.splits if_splits)

lemma keeps_read_block [keeps_rules]: "keeps (read_block n)"
  by (auto simp: keeps_def read_block_def return_error_def set_error_def
      split: prod.splits option.splits if_splits)

lemma keeps_read [keeps_rules]: "keeps (pb_read False n)"
  using keeps_read_block [of n] by (auto simp: keeps_def pb_read_def)

lemma readbyte_callback: "pb_readbyte s = (r, t) \<Longrightarrow> callback t = callback s"
  using keeps_readbyte unfolding keeps_def by blast

lemma varint_loop_callback: "varint_loop p r s = (v, t) \<Longrightarrow> callback t = callback s"
proof (induction p r s rule: varint_loop.induct)
  case (1 p r s)
  show ?case
  proof (cases "pb_readbyte s")
    case (Pair x u)
    then have "callback u = callback s" by (rule readbyte_callback)
    with 1 Pair show ?thesis
      by (auto simp: varint_loop.simps [of p] return_error_def set_error_def Let_def
          split: if_splits option.splits)
  qed
qed

lemma varint32_loop_callback: "varint32_loop p r s = (v, t) \<Longrightarrow> callback t = callback s"
proof (induction p r s rule: varint32_loop.induct)
  case (1 p r s)
  show ?case
  proof (cases "pb_readbyte s")
    case (Pair x u)
    then have "callback u = callback s" by (rule readbyte_callback)
    with 1 Pair show ?thesis
      by (auto simp: varint32_loop.simps [of p] return_error_def set_error_def Let_def
          split: if_splits option.splits)
  qed
qed

lemma keeps_varint [keeps_rules]: "keeps pb_decode_varint"
  by (auto simp: keeps_def pb_decode_varint_def dest: varint_loop_callback)

lemma keeps_varint32 [keeps_rules]: "keeps pb_decode_varint32"
  by (auto simp: keeps_def pb_decode_varint32_def pb_decode_varint32_eof_def
      split: prod.splits option.splits if_splits) (metis readbyte_callback varint32_loop_callback)+

lemma keeps_svarint [keeps_rules]: "keeps pb_decode_svarint"
  unfolding pb_decode_svarint_def by (intro keeps_rules)

lemma keeps_fixed [keeps_rules]: "keeps pb_decode_fixed32" "keeps pb_decode_fixed64"
  unfolding pb_decode_fixed32_def pb_decode_fixed64_def by (intro keeps_rules)+

lemma frame_on_stream [frame_rules]: "keeps m \<Longrightarrow> frame n (on_stream m)"
  by (auto simp: frame_def keeps_def on_stream_def split: prod.splits)

lemma frame_and_then [frame_rules]:
  assumes "frame n m" and "\<And>x. frame n (k x)"
  shows "frame n (and_then m k)"
  unfolding frame_def
proof (intro allI impI)
  fix d s r d' t
  assume h: "modest (callback s)" "n \<le> length d" "and_then m k (d, s) = (r, (d', t))"
  obtain x d1 s1 where m: "m (d, s) = (x, (d1, s1))"
    by (metis prod.collapse)
  have f: "callback s1 = callback s \<and> length d1 = length d \<and> drop n d1 = drop n d"
    using assms(1) h(1,2) m unfolding frame_def by blast
  show "callback t = callback s \<and> length d' = length d \<and> drop n d' = drop n d"
  proof (cases x)
    case None
    with m f h(3) show ?thesis by (simp add: and_then_def)
  next
    case (Some y)
    with m h(3) have "k y (d1, s1) = (r, (d', t))"
      by (simp add: and_then_def)
    then show ?thesis
      using assms(2) [of y] h(1,2) f unfolding frame_def by metis
  qed
qed

lemma frame_ok [frame_rules]: "frame n (ok x)"
  by (simp add: frame_def ok_def)

lemma frame_error [frame_rules]: "frame n (mem_error msg)"
  unfolding mem_error_def by (intro frame_rules keeps_rules)

lemma frame_put [frame_rules]: "k + length bs \<le> n \<Longrightarrow> frame n (put_mem k bs)"
  by (auto simp: frame_def put_mem_def)

lemma frame_read [frame_rules]:
  assumes "k + m \<le> n"
  shows "frame n (read_mem k m)"
  unfolding frame_def
proof (intro allI impI)
  fix d s r d' t
  assume h: "modest (callback s)" "n \<le> length d" "read_mem k m (d, s) = (r, (d', t))"
  obtain x u where rd: "pb_read False m s = (x, u)" by fastforce
  have cb: "callback u = callback s"
    using keeps_read rd unfolding keeps_def by blast
  have len: "length bs \<le> m" if "x = Some bs" for bs
    using rd that h(1) by (auto simp: pb_read_def read_block_def modest_def return_error_def
        split: if_splits prod.splits option.splits)
  show "callback t = callback s \<and> length d' = length d \<and> drop n d' = drop n d"
  proof (cases x)
    case None
    then show ?thesis
      using rd h(3) cb by (auto simp: read_mem_def and_then_def on_stream_def)
  next
    case (Some bs)
    then show ?thesis
      using rd h(2,3) cb len [OF Some] assms
      by (auto simp: read_mem_def and_then_def on_stream_def put_mem_def)
  qed
qed

text \<open>
  The scalar decoders need the size that their type says; with it no decoder of a static
  field touches memory behind the field.
\<close>

definition sized_for :: "pb_field \<Rightarrow> bool" where
  "sized_for f \<longleftrightarrow>
     (PB_LTYPE (ftype f) = PB_LTYPE_BOOL \<longrightarrow> 1 \<le> data_size f)
   \<and> (PB_LTYPE (ftype f) = PB_LTYPE_FIXED32 \<longrightarrow> 4 \<le> data_size f)
   \<and> (PB_LTYPE (ftype f) = PB_LTYPE_FIXED64 \<longrightarrow> 8 \<le> data_size f)"

lemma store_signed_length: "store_signed n v = Some (bs, c) \<Longrightarrow> length bs = n"
  by (auto simp: store_signed_def split: if_splits)

lemma store_unsigned_length: "store_unsigned n v = Some (bs, c) \<Longrightarrow> length bs = n"
  by (auto simp: store_unsigned_def split: if_splits)

lemma frame_store_checked [frame_rules]:
  assumes "\<And>bs c. r = Some (bs, c) \<Longrightarrow> length bs \<le> n"
  shows "frame n (store_checked r v)"
proof (cases r)
  case None
  then show ?thesis by (simp add: store_checked_def frame_error)
next
  case (Some bc)
  then obtain bs c where r: "r = Some (bs, c)" by (cases bc) auto
  have "frame n (and_then (put_mem 0 bs)
      (\<lambda>_. if c \<noteq> v then mem_error ''integer too large'' else ok ()))"
    using assms [OF r] frame_error frame_ok by (intro frame_rules) auto
  then show ?thesis by (simp add: store_checked_def r)
qed

lemma frame_terminated:
  assumes "k < n"
  shows "frame n (\<lambda>ds. case read_mem 0 k ds of (r, (d, t)) \<Rightarrow> (r, (d[k := 0], t)))"
  unfolding frame_def
proof (intro allI impI)
  fix d s r d' t
  assume h: "modest (callback s)" "n \<le> length d"
    and run: "(case read_mem 0 k (d, s) of (r, (d, t)) \<Rightarrow> (r, (d[k := 0], t))) = (r, (d', t))"
  obtain r1 d1 t1 where rd: "read_mem 0 k (d, s) = (r1, (d1, t1))"
    by (metis prod.collapse)
  have "frame n (read_mem 0 k)"
    using assms by (intro frame_read) simp
  then have "callback t1 = callback s \<and> length d1 = length d \<and> drop n d1 = drop n d"
    using h rd unfolding frame_def by blast
  moreover have "d' = d1[k := 0]" "t = t1"
    using run by (simp_all add: rd)
  ultimately show "callback t = callback s \<and> length d' = length d \<and> drop n d' = drop n d"
    using assms by simp
qed

lemma and_then_guard:
  "and_then (if c then mem_error msg else ok ()) k = (if c then mem_error msg else k ())"
  by (rule ext) (auto simp: and_then_def mem_error_def on_stream_def return_error_def ok_def)

lemma unat_plus_one:
  assumes "unat v \<le> unat (v + 1 :: u32)"
  shows "unat (v + 1) = unat v + 1"
proof -
  have "unat (v + 1) = (unat v + 1) mod 2 ^ 32"
    by (simp add: unat_word_ariths)
  moreover have "unat v < 2 ^ LENGTH(32)"
    by (rule unsigned_less)
  ultimately show ?thesis
    using assms by (cases "unat v + 1 = 2 ^ 32") simp_all
qed

lemma allocsize: "PB_BYTES_ARRAY_T_ALLOCSIZE (unat (v :: u32)) = unat v + 4"
proof -
  have "unat v < 2 ^ LENGTH(32)"
    by (rule unsigned_less)
  then show ?thesis
    unfolding PB_BYTES_ARRAY_T_ALLOCSIZE_def by (intro size_add_small) simp
qed

lemma frame_if: "(b \<Longrightarrow> frame n m) \<Longrightarrow> (\<not> b \<Longrightarrow> frame n m') \<Longrightarrow> frame n (if b then m else m')"
  by simp

lemma frame_decoder:
  assumes "PB_DECODERS realloc submsg (PB_LTYPE (ftype f)) = Some dec"
    and lt: "PB_LTYPE (ftype f) \<noteq> PB_LTYPE_SUBMESSAGE"
    and at: "PB_ATYPE (ftype f) \<noteq> PB_ATYPE_POINTER" and sz: "sized_for f"
  shows "frame (data_size f) (dec f)"
proof -
  have "frame (data_size f) (pb_dec_bool f)" if "1 \<le> data_size f"
    unfolding pb_dec_bool_def using that by (intro frame_rules keeps_rules) simp
  moreover have "frame (data_size f) (pb_dec_varint f)"
    unfolding pb_dec_varint_def Let_def
    by (intro frame_rules keeps_rules) (auto dest: store_signed_length)
  moreover have "frame (data_size f) (pb_dec_uvarint f)"
    unfolding pb_dec_uvarint_def
    by (intro frame_rules keeps_rules) (auto dest: store_unsigned_length)
  moreover have "frame (data_size f) (pb_dec_svarint f)"
    unfolding pb_dec_svarint_def
    by (intro frame_rules keeps_rules) (auto dest: store_signed_length)
  moreover have "frame (data_size f) (pb_dec_fixed32 f)" if "4 \<le> data_size f"
    unfolding pb_dec_fixed32_def using that by (intro frame_rules keeps_rules) simp
  moreover have "frame (data_size f) (pb_dec_fixed64 f)" if "8 \<le> data_size f"
    unfolding pb_dec_fixed64_def using that by (intro frame_rules keeps_rules) simp
  moreover have "frame (data_size f) (pb_dec_fixed_length_bytes f)"
    unfolding pb_dec_fixed_length_bytes_def Let_def
    by (intro frame_rules keeps_rules frame_if) simp_all
  moreover have "frame (data_size f) (pb_dec_bytes realloc f)"
    using at unfolding pb_dec_bytes_def Let_def allocsize
    by (simp only: if_False and_then_guard) (intro frame_rules keeps_rules frame_if, simp_all)
  moreover have "frame (data_size f) (pb_dec_string realloc f)"
    using at unfolding pb_dec_string_def Let_def
    by (simp only: if_False and_then_guard)
      (intro frame_and_then frame_on_stream keeps_rules frame_if frame_error frame_terminated,
       use unat_plus_one in \<open>fastforce simp: not_less\<close>)
  ultimately show ?thesis
    using assms(1) lt sz unfolding PB_DECODERS_def sized_for_def
    by (auto split: if_splits)
qed

section \<open>Tags on the wire\<close>

lemma is_length_varint_tag:
  assumes "unat t < 2 ^ 29" and "unat wt < 8"
  shows "is_length_varint (tag_bytes wt t) (8 * unat t + unat wt)"
proof -
  have "unat (push_bit 3 (ucast t) OR ucast wt :: u64) = 8 * unat t + unat wt"
    by (rule unat_tag [OF assms(2)])
  then show ?thesis
    using assms varint_buffer_correct [of "push_bit 3 (ucast t) OR ucast wt"]
      varint_buffer_bound [of "push_bit 3 (ucast t) OR ucast wt"]
    by (simp add: is_length_varint_def tag_bytes_def)
qed

lemma decode_tag_bytes:
  assumes "0 < unat t" and "unat t < 2 ^ 29" and "unat wt < 8"
  shows "pb_decode_tag (whole_buffer (tag_bytes wt t @ rest)) = ((Some (wt, t), False), whole_buffer rest)"
proof -
  obtain u where "pb_decode_tag (whole_buffer (tag_bytes wt t @ rest)) =
      ((Some (of_nat ((8 * unat t + unat wt) mod 8), of_nat ((8 * unat t + unat wt) div 8)), False), u)"
    and a: "advanced (\<lambda>mem. mem) (whole_buffer (tag_bytes wt t @ rest)) (length (tag_bytes wt t)) u"
    using buffer.pb_decode_tag_ok [OF primed_whole contents_whole is_length_varint_tag [OF assms(2,3)]]
      assms(1) by auto
  then show ?thesis
    using assms(3) advanced_whole [OF a] by simp
qed

section \<open>Submessages\<close>

text \<open>
  A submessage is written as its length and its encoding; the length comes from a first run
  on a sizing stream.  \<open>enc\<close> is \<open>pb_encode\<close> for the message, whose second run is
  compared with the first.
\<close>

definition submessage_body :: "('s ostream, unit) oper \<Rightarrow> nat \<Rightarrow> ('s ostream, unit) oper" where
  "submessage_body enc n s =
    (if sink s = None then pb_write [] n s
     else if max_size s < size_add (bytes_written s) n then out_error ''stream full'' s
     else case enc \<lparr>sink = sink s, sink_state = sink_state s, max_size = n, bytes_written = 0,
         out_errmsg = None\<rparr> of
       (status, sub) \<Rightarrow>
         let t = s\<lparr>bytes_written := size_add (bytes_written s) (bytes_written sub),
           sink_state := sink_state sub, out_errmsg := out_errmsg sub\<rparr>
         in if bytes_written sub \<noteq> n then out_error ''submsg size changed'' t
            else (status, t))"

definition pb_encode_submessage :: "('s ostream, unit) oper \<Rightarrow> ('s ostream, unit) oper" where
  "pb_encode_submessage enc s =
    (case enc (PB_OSTREAM_SIZING (sink_state s)) of
       (None, z) \<Rightarrow> (None, s\<lparr>out_errmsg := out_errmsg z\<rparr>)
     | (Some _, z) \<Rightarrow>
        and_then (pb_encode_varint (of_nat (bytes_written z)))
          (\<lambda>_. submessage_body enc (bytes_written z)) s)"

definition pb_encode_delimited :: "('s ostream, unit) oper \<Rightarrow> ('s ostream, unit) oper" where
  "pb_encode_delimited enc = pb_encode_submessage enc"

definition pb_enc_submessage :: "('s ostream, unit) oper option \<Rightarrow> ('s ostream, unit) oper" where
  "pb_enc_submessage submsg = (case submsg of
     None \<Rightarrow> out_error ''invalid field descriptor'' | Some enc \<Rightarrow> pb_encode_submessage enc)"

definition pb_encode_nullterminated :: "('s ostream, unit) oper \<Rightarrow> ('s ostream, unit) oper" where
  "pb_encode_nullterminated enc = and_then enc (\<lambda>_. pb_write [0] 1)"

definition pb_get_encoded_size :: "('s ostream, unit) oper \<Rightarrow> 's \<Rightarrow> nat option" where
  "pb_get_encoded_size enc st = (case enc (PB_OSTREAM_SIZING st) of
     (None, z) \<Rightarrow> None | (Some _, z) \<Rightarrow> Some (bytes_written z))"

text \<open>
  Decoding runs on a substream, which is closed whatever the result was.  \<open>dec\<close> and
  \<open>dec_noinit\<close> are \<open>pb_decode\<close> and \<open>pb_decode_noinit\<close> for the message type, absent when
  the field has no descriptor.
\<close>

definition in_substream :: "('s, unit) mem_oper \<Rightarrow> ('s, unit) mem_oper" where
  "in_substream dec = (\<lambda>(d, s).
    case pb_make_string_substream s of
      (None, t) \<Rightarrow> (None, (d, t))
    | (Some sub, t) \<Rightarrow>
        case dec (d, sub) of (status, (d', sub')) \<Rightarrow>
          case pb_close_string_substream sub' t of
            (None, u) \<Rightarrow> (None, (d', u))
          | (Some _, u) \<Rightarrow> (status, (d', u)))"

definition pb_decode_delimited :: "('s, unit) mem_oper \<Rightarrow> ('s, unit) mem_oper" where
  "pb_decode_delimited dec = in_substream dec"

definition pb_decode_delimited_noinit :: "('s, unit) mem_oper \<Rightarrow> ('s, unit) mem_oper" where
  "pb_decode_delimited_noinit dec_noinit = in_substream dec_noinit"

definition pb_dec_submessage ::
  "(('s, unit) mem_oper \<times> ('s, unit) mem_oper) option \<Rightarrow> 's decoder" where
  "pb_dec_submessage submsg f = (\<lambda>(d, s).
    case submsg of
      None \<Rightarrow>
        (case pb_make_string_substream s of
           (None, t) \<Rightarrow> (None, (d, t))
         | (Some sub, t) \<Rightarrow> mem_error ''invalid field descriptor'' (d, t))
    | Some (dec, dec_noinit) \<Rightarrow>
        in_substream (if PB_HTYPE (ftype f) = PB_HTYPE_REPEATED then dec else dec_noinit) (d, s))"

definition pb_decode_bool :: "('s, unit) mem_oper" where
  "pb_decode_bool = pb_dec_bool undefined"

context output_sink
begin

lemma emits_submessage_body:
  assumes body: "emits put written enc body"
  shows "emits put written (submessage_body enc (length body)) body"
  unfolding emits_def
proof (intro allI impI)
  fix s assume w: "writable put (length body) s"
  then have add: "size_add (bytes_written s) (length body) = bytes_written s + length body"
    by (intro size_add_small) (simp add: writable_def)
  show "if room (length body) s
    then \<exists>t. submessage_body enc (length body) s = (Some (), t) \<and> emitted written s body t
    else \<exists>t. submessage_body enc (length body) s = (None, t)"
  proof (cases "sink s = None")
    case True
    then show ?thesis
      by (simp add: submessage_body_def pb_write_def room_def emitted_def add)
  next
    case False
    define sub where "sub = \<lparr>sink = sink s, sink_state = sink_state s, max_size = length body,
      bytes_written = 0, out_errmsg = None\<rparr>"
    have "writable put (length body) sub" "room (length body) sub"
      using w by (auto simp: writable_def room_def sub_def)
    then obtain u where u: "enc sub = (Some (), u)" and em: "emitted written sub body u"
      using body [unfolded emits_def, rule_format, of sub] by auto
    have eq: "submessage_body enc (length body) s =
        (if max_size s < bytes_written s + length body then out_error ''stream full'' s
         else (Some (), s\<lparr>bytes_written := bytes_written s + length body, sink_state := sink_state u,
           out_errmsg := out_errmsg u\<rparr>))"
      using u em by (simp add: False submessage_body_def sub_def [symmetric] add emitted_def Let_def)
        (simp add: sub_def)
    show ?thesis
      using w False em by (auto simp: eq room_def writable_def emitted_def sub_def out_error_def)
  qed
qed

lemma emits_submessage:
  assumes "emits put written enc body" and "length body < 2 ^ 64"
  shows "emits put written (pb_encode_submessage enc) (varint_buffer (of_nat (length body)) @ body)"
proof -
  have "pb_encode_submessage enc = and_then (pb_encode_varint (of_nat (length body)))
      (\<lambda>_. submessage_body enc (length body))"
  proof
    fix s :: "'s ostream"
    obtain z where "enc (PB_OSTREAM_SIZING (sink_state s)) = (Some (), z)" "bytes_written z = length body"
      using emits_sizing [OF assms] by blast
    then show "pb_encode_submessage enc s = and_then (pb_encode_varint (of_nat (length body)))
        (\<lambda>_. submessage_body enc (length body)) s"
      by (simp add: pb_encode_submessage_def)
  qed
  with emits_and_then [OF emits_varint emits_submessage_body [OF assms(1)]] show ?thesis
    by simp
qed

end

context input_source
begin

lemma in_substream_ok:
  assumes "primed cb rem s" and "contents_of rem s = varint_buffer (of_nat (length body)) @ body @ rest"
    and "length body < 2 ^ 32"
    and "\<And>sub. primed cb rem sub \<Longrightarrow> contents_of rem sub = body \<Longrightarrow>
      \<exists>n sub'. dec (d, sub) = (status, (d', sub')) \<and> advanced rem sub n sub'"
  shows "\<exists>t. in_substream dec (d, s) = (status, (d', t))
    \<and> advanced rem s (length (varint_buffer (of_nat (length body))) + length body) t"
proof -
  obtain sub t where make: "pb_make_string_substream s = (Some sub, t)"
    and sub: "primed cb rem sub" "contents_of rem sub = body"
    and close: "\<And>n sub'. advanced rem sub n sub' \<Longrightarrow>
      \<exists>u. pb_close_string_substream sub' t = (Some (), u)
        \<and> advanced rem s (length (varint_buffer (of_nat (length body))) + length body) u"
    using substream_ok [OF assms(1,2) is_length_varint_buffer [OF assms(3)]] by blast
  obtain n sub' where "dec (d, sub) = (status, (d', sub'))" and adv: "advanced rem sub n sub'"
    using assms(4) [OF sub] by blast
  moreover obtain u where "pb_close_string_substream sub' t = (Some (), u)"
    and "advanced rem s (length (varint_buffer (of_nat (length body))) + length body) u"
    using close [OF adv] by blast
  ultimately show ?thesis
    using make by (simp add: in_substream_def)
qed

end

section \<open>Types\<close>

text \<open>What a scalar decoder leaves in memory is an item of the type of the field.\<close>

lemma on_stream_SomeD: "on_stream m (d, s) = (Some x, t) \<Longrightarrow> fst t = d"
  by (auto simp: on_stream_def split: prod.splits)

lemma put_after_stream:
  assumes "and_then (on_stream m) (\<lambda>v. put_mem 0 (g v)) (d, s) = (Some (), (d', s'))"
  shows "\<exists>v. d' = g v @ drop (length (g v)) d"
  using assms by (auto simp: on_stream_def put_mem_def elim!: and_then_eq_SomeE split: prod.splits)

lemma store_checked_SomeD:
  assumes "store_checked r v (d, s) = (Some (), (d', s'))"
  shows "\<exists>bs w. r = Some (bs, w) \<and> d' = bs @ drop (length bs) d"
  using assms
  by (auto simp: store_checked_def mem_error_def on_stream_def return_error_def put_mem_0 ok_def and_then_def
      split: option.splits if_splits prod.splits)

lemma store_sizes:
  "store_signed n v = Some (bs, w) \<Longrightarrow> n \<in> {1, 2, 4, 8} \<and> length bs = n"
  "store_unsigned n v = Some (bs, w) \<Longrightarrow> n \<in> {1, 2, 4, 8} \<and> length bs = n"
  by (auto simp: store_signed_def store_unsigned_def split: if_splits)

lemma checked_after_stream:
  assumes "and_then (on_stream m) (\<lambda>v. store_checked (r v) (g v)) (d, s) = (Some (), (d', s'))"
  shows "\<exists>v bs w. r v = Some (bs, w) \<and> d' = bs @ drop (length bs) d"
proof -
  obtain v t where "store_checked (r v) (g v) (d, t) = (Some (), (d', s'))"
    using assms by (auto simp: on_stream_def elim!: and_then_eq_SomeE split: prod.splits)
  from store_checked_SomeD [OF this] show ?thesis by blast
qed

lemma decoder_well_typed:
  assumes "PB_DECODERS realloc submsg (PB_LTYPE (ftype f)) = Some dec"
    and "PB_LTYPE (ftype f) \<le> PB_LTYPE_LAST_PACKABLE" and "dec f (d, s) = (Some (), (d', s'))"
    and "PB_LTYPE (ftype f) = PB_LTYPE_BOOL \<longrightarrow> data_size f = 1"
    and "PB_LTYPE (ftype f) = PB_LTYPE_FIXED32 \<longrightarrow> data_size f = 4"
    and "PB_LTYPE (ftype f) = PB_LTYPE_FIXED64 \<longrightarrow> data_size f = 8"
  shows "well_typed f (take (data_size f) d') \<and> drop (data_size f) d' = drop (data_size f) d"
proof -
  define lt n where "lt = PB_LTYPE (ftype f)" and "n = data_size f"
  note d = lt_def [symmetric] n_def [symmetric]
  have stored: "length bs = n \<Longrightarrow> d' = bs @ drop (length bs) d \<Longrightarrow> take n d' = bs \<and> drop n d' = drop n d" for bs
    by simp
  have "unat lt \<le> 5" using assms(2) by (simp add: lt_def word_le_nat_alt)
  then have "unat lt \<in> {0, 1, 2, 3, 4, 5}" by auto
  then consider "lt = 0" | "lt = 1" | "lt = 2" | "lt = 3" | "lt = 4" | "lt = 5"
    by (auto simp: word_unat_eq_iff)
  then show ?thesis
  proof cases
    case 1
    then have run: "pb_dec_bool f (d, s) = (Some (), (d', s'))" and n: "n = 1"
      using assms(1,3,4) by (simp_all add: PB_DECODERS_def d)
    from put_after_stream [OF run [unfolded pb_dec_bool_def]] obtain b where "d' = [of_bool b] @ drop 1 d" by auto
    with stored [of "[of_bool b]"] 1 n show ?thesis
      by (cases b) (simp_all add: well_typed_def d)
  next
    case 2
    then have run: "pb_dec_varint f (d, s) = (Some (), (d', s'))"
      using assms(1,3) by (simp add: PB_DECODERS_def d)
    from checked_after_stream [OF run [unfolded pb_dec_varint_def Let_def]] obtain v bs w
      where "store_signed n v = Some (bs, w)" "d' = bs @ drop (length bs) d" unfolding d by blast
    with stored [of bs] store_sizes(1) 2 show ?thesis by (auto simp: well_typed_def d)
  next
    case 3
    then have run: "pb_dec_uvarint f (d, s) = (Some (), (d', s'))"
      using assms(1,3) by (simp add: PB_DECODERS_def d)
    from checked_after_stream [OF run [unfolded pb_dec_uvarint_def]] obtain v bs w
      where "store_unsigned n v = Some (bs, w)" "d' = bs @ drop (length bs) d" unfolding d by blast
    with stored [of bs] store_sizes(2) 3 show ?thesis by (auto simp: well_typed_def d)
  next
    case 4
    then have run: "pb_dec_svarint f (d, s) = (Some (), (d', s'))"
      using assms(1,3) by (simp add: PB_DECODERS_def d)
    from checked_after_stream [OF run [unfolded pb_dec_svarint_def]] obtain v bs w
      where "store_signed n v = Some (bs, w)" "d' = bs @ drop (length bs) d" unfolding d by blast
    with stored [of bs] store_sizes(1) 4 show ?thesis by (auto simp: well_typed_def d)
  next
    case 5
    then have run: "pb_dec_fixed32 f (d, s) = (Some (), (d', s'))" and n: "n = 4"
      using assms(1,3,5) by (simp_all add: PB_DECODERS_def d)
    from put_after_stream [OF run [unfolded pb_dec_fixed32_def]] obtain v
      where "d' = le_bytes 4 v @ drop (length (le_bytes 4 v)) d" by blast
    with stored [of "le_bytes 4 v"] 5 n show ?thesis by (simp add: well_typed_def d)
  next
    case 6
    then have run: "pb_dec_fixed64 f (d, s) = (Some (), (d', s'))" and n: "n = 8"
      using assms(1,3,6) by (simp_all add: PB_DECODERS_def d)
    from put_after_stream [OF run [unfolded pb_dec_fixed64_def]] obtain v
      where "d' = le_bytes 8 v @ drop (length (le_bytes 8 v)) d" by blast
    with stored [of "le_bytes 8 v"] 6 n show ?thesis by (simp add: well_typed_def d)
  qed
qed

end
