(* ===== verification/Lhash.thy ===== *)
theory Lhash
  imports Prelude "HOL-Library.Multiset"
begin

text \<open>
  The hash table of \<open>lhash/lhash.c\<close>: an array of chains of items, each with its data and
  cached hash, that grows and shrinks with the number of items.  Data are the pointers of
  the caller, whose hash and comparison functions sit in the table; their contract is the
  locale \<open>hashing\<close>.  \<open>malloc\<close> is the allocator's answer for a size.
\<close>

section \<open>The table\<close>

definition kMinNumBuckets :: nat where "kMinNumBuckets = 16"
definition kMaxAverageChainLength :: nat where "kMaxAverageChainLength = 2"
definition kMinAverageChainLength :: nat where "kMinAverageChainLength = 1"
definition UINT_MAX :: nat where "UINT_MAX = 2 ^ 32 - 1"

type_synonym 'a lhash_item = "'a \<times> u32"

record 'a lhash =
  num_items :: nat
  buckets :: "'a lhash_item list list"
  num_buckets :: nat
  callback_depth :: nat
  lh_comp :: "'a \<Rightarrow> 'a \<Rightarrow> int"
  lh_hash :: "'a \<Rightarrow> u32"

definition lh_new :: "(nat \<Rightarrow> bool) \<Rightarrow> ('a \<Rightarrow> u32) \<Rightarrow> ('a \<Rightarrow> 'a \<Rightarrow> int) \<Rightarrow> 'a lhash option" where
  "lh_new malloc hash cmp =
    (if \<not> malloc 48 then None
     else if \<not> malloc (8 * kMinNumBuckets) then None
     else Some \<lparr>num_items = 0, buckets = replicate kMinNumBuckets [], num_buckets = kMinNumBuckets,
       callback_depth = 0, lh_comp = cmp, lh_hash = hash\<rparr>)"

definition lh_num_items :: "'a lhash \<Rightarrow> nat" where
  "lh_num_items lh = num_items lh"

text \<open>
  A pointer to a \<open>next\<close> pointer is the bucket and a position in its chain; the position
  behind the last item is the pointer to \<open>NULL\<close>.
\<close>

fun chain_pos :: "('a \<Rightarrow> bool) \<Rightarrow> 'a lhash_item list \<Rightarrow> nat" where
  "chain_pos P [] = 0"
| "chain_pos P (x # xs) = (if P (fst x) then 0 else Suc (chain_pos P xs))"

definition get_next_ptr_and_hash :: "'a lhash \<Rightarrow> 'a \<Rightarrow> u32 \<times> nat \<times> nat" where
  "get_next_ptr_and_hash lh data =
    (let hash = lh_hash lh data; b = unat hash mod num_buckets lh
     in (hash, b, chain_pos (\<lambda>d. lh_comp lh d data = 0) (buckets lh ! b)))"

definition get_next_ptr_by_key :: "'a lhash \<Rightarrow> 'k \<Rightarrow> u32 \<Rightarrow> ('k \<Rightarrow> 'a \<Rightarrow> int) \<Rightarrow> nat \<times> nat" where
  "get_next_ptr_by_key lh key key_hash cmp_key =
    (let b = unat key_hash mod num_buckets lh
     in (b, chain_pos (\<lambda>d. cmp_key key d = 0) (buckets lh ! b)))"

definition lh_retrieve :: "'a lhash \<Rightarrow> 'a \<Rightarrow> 'a option" where
  "lh_retrieve lh data =
    (case get_next_ptr_and_hash lh data of (_, b, i) \<Rightarrow>
       if i = length (buckets lh ! b) then None else Some (fst (buckets lh ! b ! i)))"

definition lh_retrieve_key :: "'a lhash \<Rightarrow> 'k \<Rightarrow> u32 \<Rightarrow> ('k \<Rightarrow> 'a \<Rightarrow> int) \<Rightarrow> 'a option" where
  "lh_retrieve_key lh key key_hash cmp_key =
    (case get_next_ptr_by_key lh key key_hash cmp_key of (b, i) \<Rightarrow>
       if i = length (buckets lh ! b) then None else Some (fst (buckets lh ! b ! i)))"

section \<open>Growing and shrinking\<close>

definition move_item :: "nat \<Rightarrow> 'a lhash_item \<Rightarrow> 'a lhash_item list list \<Rightarrow> 'a lhash_item list list" where
  "move_item n cur new_buckets =
    (let b = unat (snd cur) mod n in new_buckets[b := cur # new_buckets ! b])"

definition lh_rebucket :: "(nat \<Rightarrow> bool) \<Rightarrow> nat \<Rightarrow> 'a lhash \<Rightarrow> 'a lhash" where
  "lh_rebucket malloc new_num_buckets lh =
    (let alloc_size = size_mul 8 new_num_buckets
     in if alloc_size div 8 \<noteq> new_num_buckets then lh
        else if \<not> malloc alloc_size then lh
        else lh\<lparr>num_buckets := new_num_buckets,
          buckets := fold (move_item new_num_buckets) (concat (buckets lh))
            (replicate new_num_buckets [])\<rparr>)"

definition lh_maybe_resize :: "(nat \<Rightarrow> bool) \<Rightarrow> 'a lhash \<Rightarrow> 'a lhash" where
  "lh_maybe_resize malloc lh =
    (if 0 < callback_depth lh then lh
     else
       let avg_chain_length = num_items lh div num_buckets lh
       in if kMaxAverageChainLength < avg_chain_length then
            let n = size_mul (num_buckets lh) 2
            in if num_buckets lh < n then lh_rebucket malloc n lh else lh
          else if avg_chain_length < kMinAverageChainLength \<and> kMinNumBuckets < num_buckets lh then
            let n = num_buckets lh div 2
            in lh_rebucket malloc (if n < kMinNumBuckets then kMinNumBuckets else n) lh
          else lh)"

section \<open>Insertion, deletion, iteration\<close>

text \<open>The results are the return value, \<open>*old_data\<close> and the table.\<close>

definition lh_insert :: "(nat \<Rightarrow> bool) \<Rightarrow> 'a \<Rightarrow> 'a lhash \<Rightarrow> bool \<times> 'a option \<times> 'a lhash" where
  "lh_insert malloc data lh =
    (case get_next_ptr_and_hash lh data of (hash, b, i) \<Rightarrow>
       let chain = buckets lh ! b
       in if i \<noteq> length chain then
            (True, Some (fst (chain ! i)),
             lh\<lparr>buckets := (buckets lh)[b := chain[i := (data, snd (chain ! i))]]\<rparr>)
          else if \<not> malloc 24 then (False, None, lh)
          else (True, None, lh_maybe_resize malloc
             (lh\<lparr>buckets := (buckets lh)[b := chain @ [(data, hash)]],
                 num_items := size_add (num_items lh) 1\<rparr>)))"

definition lh_delete :: "(nat \<Rightarrow> bool) \<Rightarrow> 'a \<Rightarrow> 'a lhash \<Rightarrow> 'a option \<times> 'a lhash" where
  "lh_delete malloc data lh =
    (case get_next_ptr_and_hash lh data of (_, b, i) \<Rightarrow>
       let chain = buckets lh ! b
       in if i = length chain then (None, lh)
          else (Some (fst (chain ! i)), lh_maybe_resize malloc
             (lh\<lparr>buckets := (buckets lh)[b := take i chain @ drop (Suc i) chain],
                 num_items := num_items lh - 1\<rparr>)))"

text \<open>
  The callback of \<open>lh_doall_arg\<close> is a function on the state behind \<open>arg\<close>; it does not
  change the table it walks.  The depth is a saturating counter.
\<close>

definition lh_doall_arg :: "(nat \<Rightarrow> bool) \<Rightarrow> ('a \<Rightarrow> 's \<Rightarrow> 's) \<Rightarrow> 'a lhash \<Rightarrow> 's \<Rightarrow> 'a lhash \<times> 's" where
  "lh_doall_arg malloc func lh arg =
    (let lh1 = (if callback_depth lh < UINT_MAX
                then lh\<lparr>callback_depth := callback_depth lh + 1\<rparr> else lh);
         arg' = fold (fold (\<lambda>item. func (fst item))) (buckets lh1) arg;
         lh2 = (if callback_depth lh1 < UINT_MAX
                then lh1\<lparr>callback_depth := callback_depth lh1 - 1\<rparr> else lh1)
     in (lh_maybe_resize malloc lh2, arg'))"

section \<open>The string hash\<close>

fun hash32_loop :: "byte list \<Rightarrow> u32 \<Rightarrow> u32" where
  "hash32_loop [] h = h"
| "hash32_loop (b # bs) h = hash32_loop bs ((h XOR ucast b) * 16777619)"

definition OPENSSL_hash32 :: "byte list \<Rightarrow> u32" where
  "OPENSSL_hash32 bs = hash32_loop bs 2166136261"

definition lh_strhash :: "byte list option \<Rightarrow> u32" where
  "lh_strhash c = (case c of None \<Rightarrow> 0 | Some s \<Rightarrow> OPENSSL_hash32 (takeWhile (\<lambda>b. b \<noteq> 0) s))"

section \<open>What a table holds\<close>

text \<open>
  \<open>lh_items\<close> are the stored data.  In a well-formed table every item sits in the chain of its
  hash, no two items are equal for the comparison function, and the counter is right.
\<close>

definition lh_items :: "'a lhash \<Rightarrow> 'a list" where
  "lh_items lh = map fst (concat (buckets lh))"

definition placed :: "('a \<Rightarrow> u32) \<Rightarrow> 'a lhash_item list list \<Rightarrow> bool" where
  "placed hash bs \<longleftrightarrow> (\<forall>i < length bs. \<forall>x \<in> set (bs ! i). snd x = hash (fst x) \<and> unat (snd x) mod length bs = i)"

definition distinct_for :: "('a \<Rightarrow> 'a \<Rightarrow> bool) \<Rightarrow> 'a list \<Rightarrow> bool" where
  "distinct_for eq xs \<longleftrightarrow> distinct xs \<and> (\<forall>x \<in> set xs. \<forall>y \<in> set xs. eq x y \<longrightarrow> x = y)"

definition lh_wf :: "('a \<Rightarrow> u32) \<Rightarrow> ('a \<Rightarrow> 'a \<Rightarrow> int) \<Rightarrow> 'a lhash \<Rightarrow> bool" where
  "lh_wf hash cmp lh \<longleftrightarrow> lh_hash lh = hash \<and> lh_comp lh = cmp
     \<and> num_buckets lh = length (buckets lh) \<and> kMinNumBuckets \<le> num_buckets lh
     \<and> placed hash (buckets lh) \<and> distinct_for (\<lambda>x y. cmp x y = 0) (lh_items lh)
     \<and> num_items lh = length (lh_items lh)"

lemma chain_pos_le: "chain_pos P xs \<le> length xs"
  by (induction xs) auto

lemma chain_pos_eq_length_iff: "chain_pos P xs = length xs \<longleftrightarrow> (\<forall>x \<in> set xs. \<not> P (fst x))"
  by (induction xs) auto

lemma chain_pos_nth: "chain_pos P xs < length xs \<Longrightarrow> P (fst (xs ! chain_pos P xs))"
  by (induction xs) auto

lemma mset_concat_update:
  "i < length bs \<Longrightarrow> mset (concat (bs[i := c])) + mset (bs ! i) = mset (concat bs) + mset c"
proof (induction bs arbitrary: i)
  case (Cons b bs)
  then show ?case by (cases i) (auto simp: add.assoc add.left_commute)
qed simp

lemma mset_items_update:
  "i < length (buckets lh) \<Longrightarrow>
    mset (lh_items (lh\<lparr>buckets := (buckets lh)[i := c]\<rparr>)) + mset (map fst (buckets lh ! i))
      = mset (lh_items lh) + mset (map fst c)"
  using arg_cong [OF mset_concat_update, of i "buckets lh" "image_mset fst" c]
  by (simp add: lh_items_def)

lemma in_itemsI: "i < length (buckets lh) \<Longrightarrow> y \<in> set (buckets lh ! i) \<Longrightarrow> fst y \<in> set (lh_items lh)"
  unfolding lh_items_def using nth_mem by fastforce

lemma in_itemsE:
  assumes "x \<in> set (lh_items lh)"
  obtains i y where "i < length (buckets lh)" and "y \<in> set (buckets lh ! i)" and "x = fst y"
proof -
  obtain b y where "b \<in> set (buckets lh)" "y \<in> set b" "x = fst y"
    using assms by (auto simp: lh_items_def)
  moreover from this obtain i where "i < length (buckets lh)" "buckets lh ! i = b"
    by (auto simp: in_set_conv_nth)
  ultimately show ?thesis
    using that by blast
qed

lemma placedD: "placed hash bs \<Longrightarrow> i < length bs \<Longrightarrow> x \<in> set (bs ! i) \<Longrightarrow>
    snd x = hash (fst x) \<and> unat (snd x) mod length bs = i"
  unfolding placed_def by blast

lemma placed_update:
  assumes "placed hash bs" and "\<And>x. x \<in> set c \<Longrightarrow> snd x = hash (fst x) \<and> unat (snd x) mod length bs = i"
  shows "placed hash (bs[i := c])"
  unfolding placed_def
proof (intro allI impI ballI)
  fix j x assume j: "j < length (bs[i := c])" and x: "x \<in> set (bs[i := c] ! j)"
  show "snd x = hash (fst x) \<and> unat (snd x) mod length (bs[i := c]) = j"
  proof (cases "i = j")
    case True
    with j x have "x \<in> set c" by simp
    from assms(2) [OF this] True show ?thesis by (metis length_list_update)
  next
    case False
    with j x have "j < length bs" "x \<in> set (bs ! j)" by simp_all
    from placedD [OF assms(1) this] show ?thesis by (metis length_list_update)
  qed
qed

section \<open>The contract of the hash and comparison functions\<close>

locale hashing =
  fixes hash :: "'a \<Rightarrow> u32"
    and cmp :: "'a \<Rightarrow> 'a \<Rightarrow> int"
  assumes cmp_refl: "cmp x x = 0"
    and cmp_sym: "cmp x y = 0 \<Longrightarrow> cmp y x = 0"
    and cmp_trans: "cmp x y = 0 \<Longrightarrow> cmp y z = 0 \<Longrightarrow> cmp x z = 0"
    and cmp_hash: "cmp x y = 0 \<Longrightarrow> hash x = hash y"
begin

abbreviation wf where "wf \<equiv> lh_wf hash cmp"

lemma bucket_less: "wf lh \<Longrightarrow> unat h mod num_buckets lh < length (buckets lh)"
  unfolding lh_wf_def kMinNumBuckets_def by (elim conjE) (simp, rule mod_less_divisor, linarith)

text \<open>An equal item can only be in the chain of the hash, and at most once.\<close>

lemma equal_in_chain:
  assumes "wf lh" and "x \<in> set (lh_items lh)" and "cmp x d = 0"
  shows "x \<in> fst ` set (buckets lh ! (unat (hash d) mod num_buckets lh))"
proof -
  obtain i y where i: "i < length (buckets lh)" "y \<in> set (buckets lh ! i)" "x = fst y"
    using assms(2) by (rule in_itemsE)
  have "placed hash (buckets lh)" and n: "num_buckets lh = length (buckets lh)"
    using assms(1) by (simp_all add: lh_wf_def)
  from placedD [OF this(1) i(1,2)] have "snd y = hash x \<and> unat (snd y) mod length (buckets lh) = i"
    by (metis i(3))
  moreover have "hash x = hash d" using assms(3) by (rule cmp_hash)
  ultimately have "unat (hash d) mod num_buckets lh = i"
    using n by metis
  then show ?thesis
    using i(2,3) by (simp only:) blast
qed

lemma chain_in_items:
  "wf lh \<Longrightarrow> y \<in> set (buckets lh ! (unat h mod num_buckets lh)) \<Longrightarrow> fst y \<in> set (lh_items lh)"
  using in_itemsI bucket_less by blast

lemma retrieve_Some_iff:
  assumes "wf lh"
  shows "lh_retrieve lh d = Some x \<longleftrightarrow> x \<in> set (lh_items lh) \<and> cmp x d = 0"
proof -
  define c where "c = buckets lh ! (unat (hash d) mod num_buckets lh)"
  define i where "i = chain_pos (\<lambda>y. cmp y d = 0) c"
  have r: "lh_retrieve lh d = (if i = length c then None else Some (fst (c ! i)))"
    using assms by (simp add: lh_retrieve_def get_next_ptr_and_hash_def Let_def c_def i_def lh_wf_def)
  have found: "fst (c ! i) \<in> set (lh_items lh) \<and> cmp (fst (c ! i)) d = 0" if "i \<noteq> length c"
  proof -
    have "i < length c" using that chain_pos_le [of _ c] by (simp add: i_def order_less_le)
    then show ?thesis
      using chain_pos_nth [of "\<lambda>y. cmp y d = 0" c] chain_in_items [OF assms, of "c ! i" "hash d"]
      by (simp add: i_def c_def)
  qed
  have unique: "x = y" if "x \<in> set (lh_items lh)" "cmp x d = 0" "y \<in> set (lh_items lh)" "cmp y d = 0" for x y
    using assms that cmp_sym cmp_trans unfolding lh_wf_def distinct_for_def by blast
  have notfound: "i \<noteq> length c" if "x \<in> set (lh_items lh)" "cmp x d = 0" for x
    using equal_in_chain [OF assms that] that(2) by (auto simp: i_def chain_pos_eq_length_iff c_def)
  show ?thesis
    using r found unique notfound by (metis option.distinct(1) option.inject)
qed

lemma retrieve_None_iff:
  "wf lh \<Longrightarrow> lh_retrieve lh d = None \<longleftrightarrow> (\<forall>x \<in> set (lh_items lh). cmp x d \<noteq> 0)"
  using retrieve_Some_iff by (metis not_None_eq)

end

section \<open>Every operation keeps the table well-formed\<close>

text \<open>
  Rebucketing permutes the items and places them anew, so \<open>lh_maybe_resize\<close> is invisible:
  it keeps a well-formed table well-formed with the same items.
\<close>

lemma placed_replicate: "placed hash (replicate n [])"
  by (simp add: placed_def)

lemma placed_move:
  assumes "placed hash bs" and "length bs = n" and "0 < n" and "snd x = hash (fst x)"
  shows "placed hash (move_item n x bs)"
  unfolding move_item_def Let_def
proof (rule placed_update [OF assms(1)])
  fix y assume y: "y \<in> set (x # bs ! (unat (snd x) mod n))"
  have "unat (snd x) mod n < length bs" using assms(2,3) by simp
  with y assms(2,4) placedD [OF assms(1), of "unat (snd x) mod n" y]
  show "snd y = hash (fst y) \<and> unat (snd y) mod length bs = unat (snd x) mod n"
    by (metis set_ConsD)
qed

lemma fold_move:
  assumes "placed hash bs" and "length bs = n" and "0 < n" and "\<forall>x \<in> set xs. snd x = hash (fst x)"
  shows "placed hash (fold (move_item n) xs bs) \<and> length (fold (move_item n) xs bs) = n
    \<and> mset (concat (fold (move_item n) xs bs)) = mset (concat bs) + mset xs"
  using assms
proof (induction xs arbitrary: bs)
  case (Cons x xs)
  define i where "i = unat (snd x) mod n"
  have i: "i < length bs" using Cons.prems(2,3) by (simp add: i_def)
  have "mset (concat (move_item n x bs)) + mset (bs ! i) = mset (concat bs) + mset (x # bs ! i)"
    unfolding move_item_def Let_def i_def [symmetric] by (rule mset_concat_update [OF i])
  then have "mset (concat (move_item n x bs)) = mset (concat bs) + {#x#}"
    by simp
  moreover have "placed hash (move_item n x bs)" "length (move_item n x bs) = n"
    using placed_move [OF Cons.prems(1-3), of x] Cons.prems(2,4) by (simp_all add: move_item_def Let_def)
  ultimately show ?case
    using Cons.IH [of "move_item n x bs"] Cons.prems(3,4) by simp
qed simp

definition same_table :: "'a lhash \<Rightarrow> 'a lhash \<Rightarrow> bool" where
  "same_table lh lh' \<longleftrightarrow> mset (lh_items lh') = mset (lh_items lh) \<and> num_items lh' = num_items lh
     \<and> callback_depth lh' = callback_depth lh \<and> lh_hash lh' = lh_hash lh \<and> lh_comp lh' = lh_comp lh"

lemma same_table_refl [simp]: "same_table lh lh"
  by (simp add: same_table_def)

lemma same_table_set: "same_table lh lh' \<Longrightarrow> set (lh_items lh') = set (lh_items lh)"
  by (metis same_table_def mset_eq_setD)

lemma distinct_for_mset: "mset xs = mset ys \<Longrightarrow> distinct_for eq xs \<longleftrightarrow> distinct_for eq ys"
  unfolding distinct_for_def by (metis mset_eq_setD mset_eq_imp_distinct_iff)

lemma placed_hashes:
  assumes "placed hash bs" and "x \<in> set (concat bs)"
  shows "snd x = hash (fst x)"
proof -
  obtain i where "i < length bs" "x \<in> set (bs ! i)"
    using assms(2) by (auto simp: in_set_conv_nth [of _ bs])
  with placedD [OF assms(1)] show ?thesis by blast
qed

lemma rebucket_wf:
  assumes "lh_wf hash cmp lh" and "kMinNumBuckets \<le> n"
  shows "lh_wf hash cmp (lh_rebucket malloc n lh) \<and> same_table lh (lh_rebucket malloc n lh)"
proof -
  define bs where "bs = fold (move_item n) (concat (buckets lh)) (replicate n [])"
  have pl: "placed hash (buckets lh)" using assms(1) by (simp add: lh_wf_def)
  have n: "0 < n" using assms(2) by (simp add: kMinNumBuckets_def)
  have "placed hash bs \<and> length bs = n \<and> mset (concat bs) = mset (concat (replicate n [])) + mset (concat (buckets lh))"
    unfolding bs_def using placed_hashes [OF pl]
    by (intro fold_move placed_replicate n) simp_all
  moreover have "concat (replicate n []) = ([] :: 'a lhash_item list)" by simp
  ultimately have b: "placed hash bs" "length bs = n" "mset (concat bs) = mset (concat (buckets lh))"
    by simp_all
  define lh' where "lh' = lh\<lparr>num_buckets := n, buckets := bs\<rparr>"
  have m: "mset (lh_items lh') = mset (lh_items lh)"
    using arg_cong [OF b(3), of "image_mset fst"] by (simp add: lh_items_def lh'_def)
  have "lh_wf hash cmp lh'"
    using assms b(1,2) distinct_for_mset [OF m] mset_eq_length [OF m]
    by (simp add: lh_wf_def lh'_def)
  moreover have "same_table lh lh'"
    using m by (simp add: same_table_def lh'_def)
  moreover have "lh_rebucket malloc n lh = lh \<or> lh_rebucket malloc n lh = lh'"
    by (simp add: lh_rebucket_def lh'_def bs_def Let_def)
  ultimately show ?thesis
    using assms(1) by auto
qed

lemma maybe_resize_wf:
  assumes "lh_wf hash cmp lh"
  shows "lh_wf hash cmp (lh_maybe_resize malloc lh) \<and> same_table lh (lh_maybe_resize malloc lh)"
proof -
  have "kMinNumBuckets \<le> num_buckets lh" using assms by (simp add: lh_wf_def)
  with assms rebucket_wf [OF assms] show ?thesis
    by (auto simp: lh_maybe_resize_def Let_def)
qed

definition others :: "('a \<Rightarrow> 'a \<Rightarrow> int) \<Rightarrow> 'a \<Rightarrow> 'a lhash \<Rightarrow> 'a multiset" where
  "others cmp d lh = filter_mset (\<lambda>x. cmp x d \<noteq> 0) (mset (lh_items lh))"

context hashing
begin

lemma new_wf: "lh_new malloc hash cmp = Some lh \<Longrightarrow> wf lh \<and> lh_items lh = []"
  by (auto simp: lh_new_def lh_wf_def lh_items_def placed_def distinct_for_def split: if_splits)

text \<open>What insertion and deletion do to the items.\<close>

lemma wf_parts:
  assumes "wf lh"
  shows "lh_hash lh = hash" and "lh_comp lh = cmp" and "num_buckets lh = length (buckets lh)"
    and "placed hash (buckets lh)" and "distinct_for (\<lambda>x y. cmp x y = 0) (lh_items lh)"
    and "num_items lh = length (lh_items lh)"
  using assms by (simp_all add: lh_wf_def)

lemma others_found:
  assumes "wf lh" and "x \<in> set (lh_items lh)" and "cmp x d = 0"
  shows "others cmp d lh = mset (lh_items lh) - {#x#}"
proof -
  have dist: "distinct (lh_items lh)" and uniq: "\<And>y. y \<in> set (lh_items lh) \<Longrightarrow> cmp y d = 0 \<Longrightarrow> y = x"
    using assms cmp_sym cmp_trans unfolding lh_wf_def distinct_for_def by blast+
  have "filter_mset (\<lambda>y. cmp y d = 0) (mset (lh_items lh)) = {#x#}"
  proof -
    have "filter_mset (\<lambda>y. cmp y d = 0) (mset (lh_items lh)) = filter_mset (\<lambda>y. y = x) (mset (lh_items lh))"
      using uniq assms(3) by (intro filter_mset_cong) auto
    also have "\<dots> = {#x#}"
      using dist assms(2) by (simp add: filter_eq_replicate_mset distinct_count_atmost_1 count_mset)
    finally show ?thesis .
  qed
  moreover have "mset (lh_items lh) = filter_mset (\<lambda>y. cmp y d = 0) (mset (lh_items lh)) + others cmp d lh"
    unfolding others_def by (rule multiset_partition)
  ultimately show ?thesis by simp
qed

lemma others_not_found: "\<forall>x \<in> set (lh_items lh). cmp x d \<noteq> 0 \<Longrightarrow> others cmp d lh = mset (lh_items lh)"
  by (simp add: others_def filter_mset_eq_conv)

lemma distinct_others:
  assumes "wf lh" and "mset xs = others cmp d lh"
  shows "distinct_for (\<lambda>x y. cmp x y = 0) xs"
proof -
  have "mset xs \<subseteq># mset (lh_items lh)"
    unfolding assms(2) others_def by (rule multiset_filter_subset)
  then obtain ys where "mset (xs @ ys) = mset (lh_items lh)"
    by (metis ex_mset mset_append subset_mset.le_iff_add)
  then have "distinct_for (\<lambda>x y. cmp x y = 0) (xs @ ys)"
    using assms(1) distinct_for_mset unfolding lh_wf_def by blast
  then show ?thesis by (auto simp: distinct_for_def)
qed

lemma distinct_add:
  assumes "wf lh" and "mset xs = add_mset d (others cmp d lh)"
  shows "distinct_for (\<lambda>x y. cmp x y = 0) xs"
proof -
  obtain ys where ys: "mset ys = others cmp d lh" by (metis ex_mset)
  have "distinct_for (\<lambda>x y. cmp x y = 0) ys" by (rule distinct_others [OF assms(1) ys])
  moreover have "\<forall>y \<in> set ys. cmp y d \<noteq> 0"
    unfolding set_mset_mset [symmetric] ys by (simp add: others_def)
  ultimately have "distinct_for (\<lambda>x y. cmp x y = 0) (d # ys)"
    using cmp_refl cmp_sym unfolding distinct_for_def by auto
  then show ?thesis
    using distinct_for_mset [of xs "d # ys"] assms(2) ys by simp
qed

text \<open>Replacing the chain of the hash of \<open>d\<close> by a chain of items with that hash.\<close>

lemma chain_hash:
  assumes "wf lh" and "y \<in> set (buckets lh ! (unat (hash d) mod num_buckets lh))"
  shows "snd y = hash (fst y) \<and> unat (snd y) mod length (buckets lh) = unat (hash d) mod num_buckets lh"
  using placedD [OF wf_parts(4) [OF assms(1)] bucket_less [OF assms(1)] assms(2)] .

lemma update_wf:
  assumes wf: "wf lh" and b: "b = unat (hash d) mod num_buckets lh"
    and chain: "\<And>y. y \<in> set c \<Longrightarrow> y \<in> set (buckets lh ! b) \<or> y = (d, hash d)"
    and dist: "distinct_for (\<lambda>x y. cmp x y = 0) (lh_items (lh\<lparr>buckets := (buckets lh)[b := c]\<rparr>))"
    and n: "n = length (lh_items (lh\<lparr>buckets := (buckets lh)[b := c]\<rparr>))"
  shows "wf (lh\<lparr>buckets := (buckets lh)[b := c], num_items := n\<rparr>)"
proof -
  have "placed hash ((buckets lh)[b := c])"
  proof (rule placed_update [OF wf_parts(4) [OF wf]])
    fix y assume "y \<in> set c"
    from chain [OF this] chain_hash [OF wf, of y d]
    show "snd y = hash (fst y) \<and> unat (snd y) mod length (buckets lh) = b"
      using wf_parts(3) [OF wf] b by (metis fst_conv snd_conv)
  qed
  then show ?thesis
    using wf dist n by (simp add: lh_wf_def lh_items_def)
qed

lemma multiset_swap:
  assumes "A + M = B + add_mset d (M - {#x#})" and "x \<in># M" and "x \<in># B"
  shows "A = add_mset d (B - {#x#})"
proof -
  obtain M' B' where "M = add_mset x M'" "B = add_mset x B'"
    using assms(2,3) by (metis mset_add)
  with assms(1) show ?thesis by simp
qed

lemma insert_correct:
  assumes wf: "wf lh" and small: "length (lh_items lh) + 1 < 2 ^ 64"
    and run: "lh_insert malloc d lh = (r, old, lh')"
  shows "wf lh' \<and> old = lh_retrieve lh d \<and> r = (old \<noteq> None \<or> malloc 24) \<and>
    mset (lh_items lh') = (if r then add_mset d (others cmp d lh) else mset (lh_items lh))"
proof -
  define b where "b = unat (hash d) mod num_buckets lh"
  define c where "c = buckets lh ! b"
  define i where "i = chain_pos (\<lambda>y. cmp y d = 0) c"
  have g: "get_next_ptr_and_hash lh d = (hash d, b, i)"
    by (simp add: get_next_ptr_and_hash_def wf_parts(1,2) [OF wf] b_def c_def i_def Let_def)
  have b: "b < length (buckets lh)" unfolding b_def by (rule bucket_less [OF wf])
  have ret: "lh_retrieve lh d = (if i = length c then None else Some (fst (c ! i)))"
    by (simp add: lh_retrieve_def g c_def)
  show ?thesis
  proof (cases "i = length c")
    case False
    define x where "x = fst (c ! i)"
    define c1 where "c1 = c[i := (d, snd (c ! i))]"
    define lh1 where "lh1 = lh\<lparr>buckets := (buckets lh)[b := c1]\<rparr>"
    have i: "i < length c" using False chain_pos_le [of _ c] by (simp add: i_def order_less_le)
    have r: "lh_retrieve lh d = Some x" using ret False by (simp add: x_def)
    then have x: "x \<in> set (lh_items lh)" "cmp x d = 0"
      using retrieve_Some_iff [OF wf] by blast+
    have "mset (lh_items lh1) + mset (map fst c) = mset (lh_items lh) + mset (map fst c1)"
      using mset_items_update [OF b, of c1] by (simp add: lh1_def c_def)
    also have "mset (map fst c1) = add_mset d (mset (map fst c) - {#x#})"
      using i by (simp add: c1_def map_update mset_update x_def)
    finally have m: "mset (lh_items lh1) = add_mset d (others cmp d lh)"
      using multiset_swap [of "mset (lh_items lh1)" "mset (map fst c)" "mset (lh_items lh)" d x] i x
        others_found [OF wf x] by (simp add: x_def)
    have "c ! i \<in> set (buckets lh ! b)" using i by (simp add: c_def)
    then have "snd (c ! i) = hash x"
      using chain_hash [OF wf, of "c ! i" d] by (simp add: x_def b_def)
    then have "snd (c ! i) = hash d" using cmp_hash [OF x(2)] by simp
    then have chain: "y \<in> set (buckets lh ! b) \<or> y = (d, hash d)" if "y \<in> set c1" for y
      using that set_update_subset_insert [of c i "(d, hash d)"] by (auto simp: c1_def c_def)
    have "size (mset (lh_items lh1)) = size (mset (lh_items lh))"
      using m others_found [OF wf x] x(1) by (metis insert_DiffM set_mset_mset size_add_mset)
    then have "wf (lh\<lparr>buckets := (buckets lh)[b := c1], num_items := num_items lh\<rparr>)"
      using wf_parts(6) [OF wf] distinct_add [OF wf m]
      by (intro update_wf [OF wf b_def chain]) (simp_all add: lh1_def)
    then have "wf lh1" by (simp add: lh1_def)
    moreover have "lh_insert malloc d lh = (True, Some x, lh1)"
      using False by (simp add: lh_insert_def g Let_def c_def [symmetric] lh1_def c1_def x_def)
    ultimately show ?thesis using run m r by auto
  next
    case True
    define c1 where "c1 = c @ [(d, hash d)]"
    define lh1 where "lh1 = lh\<lparr>buckets := (buckets lh)[b := c1]\<rparr>"
    define lh2 where "lh2 = lh\<lparr>buckets := (buckets lh)[b := c1], num_items := size_add (num_items lh) 1\<rparr>"
    have r: "lh_retrieve lh d = None" using ret True by simp
    then have o: "others cmp d lh = mset (lh_items lh)"
      using retrieve_None_iff [OF wf] others_not_found by blast
    have "mset (lh_items lh1) + mset (map fst c) = mset (lh_items lh) + mset (map fst c1)"
      using mset_items_update [OF b, of c1] by (simp add: lh1_def c_def)
    then have m: "mset (lh_items lh1) = add_mset d (others cmp d lh)"
      by (simp add: c1_def o)
    have len: "length (lh_items lh1) = length (lh_items lh) + 1"
      using arg_cong [OF m, of size] o by simp
    have "size_add (num_items lh) 1 = length (lh_items lh1)"
      using small wf_parts(6) [OF wf] len by (simp add: size_add_small)
    then have wf2: "wf lh2"
      unfolding lh2_def using distinct_add [OF wf m]
      by (intro update_wf [OF wf b_def]) (auto simp: c1_def c_def lh1_def)
    have "lh_items lh2 = lh_items lh1" by (simp add: lh_items_def lh1_def lh2_def)
    then have "mset (lh_items (lh_maybe_resize malloc lh2)) = add_mset d (others cmp d lh)"
      using maybe_resize_wf [OF wf2] m by (simp add: same_table_def)
    moreover have "lh_insert malloc d lh = (if malloc 24 then (True, None, lh_maybe_resize malloc lh2)
        else (False, None, lh))"
      using True by (simp add: lh_insert_def g Let_def c_def [symmetric] lh2_def c1_def)
    ultimately show ?thesis
      using run r wf maybe_resize_wf [OF wf2] by (auto split: if_splits)
  qed
qed

lemma delete_correct:
  assumes wf: "wf lh" and run: "lh_delete malloc d lh = (old, lh')"
  shows "wf lh' \<and> old = lh_retrieve lh d \<and> mset (lh_items lh') = others cmp d lh"
proof -
  define b where "b = unat (hash d) mod num_buckets lh"
  define c where "c = buckets lh ! b"
  define i where "i = chain_pos (\<lambda>y. cmp y d = 0) c"
  have g: "get_next_ptr_and_hash lh d = (hash d, b, i)"
    by (simp add: get_next_ptr_and_hash_def wf_parts(1,2) [OF wf] b_def c_def i_def Let_def)
  have b: "b < length (buckets lh)" unfolding b_def by (rule bucket_less [OF wf])
  have ret: "lh_retrieve lh d = (if i = length c then None else Some (fst (c ! i)))"
    by (simp add: lh_retrieve_def g c_def)
  show ?thesis
  proof (cases "i = length c")
    case False
    define x where "x = fst (c ! i)"
    define c1 where "c1 = take i c @ drop (Suc i) c"
    define lh1 where "lh1 = lh\<lparr>buckets := (buckets lh)[b := c1]\<rparr>"
    define lh2 where "lh2 = lh\<lparr>buckets := (buckets lh)[b := c1], num_items := num_items lh - 1\<rparr>"
    have i: "i < length c" using False chain_pos_le [of _ c] by (simp add: i_def order_less_le)
    have r: "lh_retrieve lh d = Some x" using ret False by (simp add: x_def)
    then have x: "x \<in> set (lh_items lh)" "cmp x d = 0"
      using retrieve_Some_iff [OF wf] by blast+
    have "mset c = add_mset (c ! i) (mset c1)"
      unfolding c1_def by (subst id_take_nth_drop [OF i]) simp
    then have "mset (map fst c) = add_mset x (mset (map fst c1))"
      by (simp add: x_def)
    moreover have "mset (lh_items lh1) + mset (map fst c) = mset (lh_items lh) + mset (map fst c1)"
      using mset_items_update [OF b, of c1] by (simp add: lh1_def c_def)
    ultimately have "add_mset x (mset (lh_items lh1)) = mset (lh_items lh)"
      by simp
    then have m: "mset (lh_items lh1) = others cmp d lh"
      using others_found [OF wf x] by (metis add_mset_remove_trivial)
    have "size (mset (lh_items lh)) = Suc (size (mset (lh_items lh1)))"
      using \<open>add_mset x (mset (lh_items lh1)) = mset (lh_items lh)\<close> by (metis size_add_mset)
    then have "num_items lh - 1 = length (lh_items lh1)"
      using wf_parts(6) [OF wf] by simp
    then have wf2: "wf lh2"
      unfolding lh2_def using distinct_others [OF wf m]
      by (intro update_wf [OF wf b_def])
        (auto simp: c1_def c_def lh1_def dest: in_set_takeD in_set_dropD)
    have "lh_items lh2 = lh_items lh1" by (simp add: lh_items_def lh1_def lh2_def)
    then have "mset (lh_items (lh_maybe_resize malloc lh2)) = others cmp d lh"
      using maybe_resize_wf [OF wf2] m by (simp add: same_table_def)
    moreover have "lh_delete malloc d lh = (Some x, lh_maybe_resize malloc lh2)"
      using False by (simp add: lh_delete_def g Let_def c_def [symmetric] lh2_def c1_def x_def)
    ultimately show ?thesis
      using run r maybe_resize_wf [OF wf2] by auto
  next
    case True
    then have r: "lh_retrieve lh d = None" using ret by simp
    then have "others cmp d lh = mset (lh_items lh)"
      using retrieve_None_iff [OF wf] others_not_found by blast
    moreover have "lh_delete malloc d lh = (None, lh)"
      using True by (simp add: lh_delete_def g Let_def c_def [symmetric])
    ultimately show ?thesis using run r wf by auto
  qed
qed

end

section \<open>The table as a dictionary\<close>

text \<open>
  What a client of the table relies on: after a successful insertion the equal keys find the
  new datum, after a deletion they find nothing, all others find what they found before.
\<close>

locale dictionary =
  fixes inv :: "'t \<Rightarrow> bool"
    and contents :: "'t \<Rightarrow> 'a set"
    and lookup :: "'t \<Rightarrow> 'a \<Rightarrow> 'a option"
    and put :: "'a \<Rightarrow> 't \<Rightarrow> bool \<times> 'a option \<times> 't"
    and remove :: "'a \<Rightarrow> 't \<Rightarrow> 'a option \<times> 't"
    and equal_keys :: "'a \<Rightarrow> 'a \<Rightarrow> bool"
  assumes equal_refl: "equal_keys x x"
    and equal_sym: "equal_keys x y \<Longrightarrow> equal_keys y x"
    and equal_trans: "equal_keys x y \<Longrightarrow> equal_keys y z \<Longrightarrow> equal_keys x z"
    and lookup_iff: "inv t \<Longrightarrow> lookup t k = Some x \<longleftrightarrow> x \<in> contents t \<and> equal_keys x k"
    and put_inv: "inv t \<Longrightarrow> card (contents t) + 1 < 2 ^ 64 \<Longrightarrow> put x t = (r, old, t') \<Longrightarrow>
      inv t' \<and> old = lookup t x \<and>
      contents t' = (if r then insert x {y \<in> contents t. \<not> equal_keys y x} else contents t)"
    and remove_inv: "inv t \<Longrightarrow> remove x t = (old, t') \<Longrightarrow>
      inv t' \<and> old = lookup t x \<and> contents t' = {y \<in> contents t. \<not> equal_keys y x}"
begin

lemma lookup_unique:
  "inv t \<Longrightarrow> x \<in> contents t \<Longrightarrow> y \<in> contents t \<Longrightarrow> equal_keys x y \<Longrightarrow> x = y"
  using lookup_iff equal_refl by (metis option.inject)

lemma lookup_None_iff: "inv t \<Longrightarrow> lookup t k = None \<longleftrightarrow> (\<forall>x \<in> contents t. \<not> equal_keys x k)"
  using lookup_iff by (metis not_None_eq)

lemma lookup_put:
  assumes "inv t" and "card (contents t) + 1 < 2 ^ 64" and "put x t = (True, old, t')"
  shows "lookup t' k = (if equal_keys x k then Some x else lookup t k)"
proof -
  have t': "inv t'" "contents t' = insert x {y \<in> contents t. \<not> equal_keys y x}"
    using put_inv [OF assms] by simp_all
  show ?thesis
  proof (cases "equal_keys x k")
    case True
    with t' show ?thesis by (simp add: lookup_iff)
  next
    case False
    then have other: "equal_keys y k \<Longrightarrow> \<not> equal_keys y x" for y
      using equal_sym equal_trans by metis
    have "lookup t' k = Some y \<longleftrightarrow> lookup t k = Some y" for y
      unfolding lookup_iff [OF t'(1)] lookup_iff [OF assms(1)] t'(2) using False other by auto
    with False show ?thesis by (metis option.exhaust)
  qed
qed

lemma lookup_remove:
  assumes "inv t" and "remove x t = (old, t')"
  shows "lookup t' k = (if equal_keys x k then None else lookup t k)"
proof -
  have t': "inv t'" "contents t' = {y \<in> contents t. \<not> equal_keys y x}"
    using remove_inv [OF assms] by simp_all
  show ?thesis
  proof (cases "equal_keys x k")
    case True
    then have "equal_keys y k \<Longrightarrow> equal_keys y x" for y
      using equal_sym equal_trans by metis
    then have "lookup t' k = None"
      unfolding lookup_None_iff [OF t'(1)] t'(2) by auto
    with True show ?thesis by simp
  next
    case False
    then have other: "equal_keys y k \<Longrightarrow> \<not> equal_keys y x" for y
      using equal_sym equal_trans by metis
    have "lookup t' k = Some y \<longleftrightarrow> lookup t k = Some y" for y
      unfolding lookup_iff [OF t'(1)] lookup_iff [OF assms(1)] t'(2) using False other by auto
    with False show ?thesis by (metis option.exhaust)
  qed
qed

lemma put_fresh:
  assumes "inv t" and "card (contents t) + 1 < 2 ^ 64" and "lookup t x = None" and "put x t = (r, old, t')"
  shows "inv t' \<and> old = None \<and> contents t' = (if r then insert x (contents t) else contents t)"
proof -
  have "{y \<in> contents t. \<not> equal_keys y x} = contents t"
    using assms(3) lookup_None_iff [OF assms(1)] by auto
  with put_inv [OF assms(1,2,4)] assms(3) show ?thesis by simp
qed

lemma remove_found:
  assumes "inv t" and "x \<in> contents t" and "remove x t = (old, t')"
  shows "inv t' \<and> old = Some x \<and> contents t' = contents t - {x}"
proof -
  have "{y \<in> contents t. \<not> equal_keys y x} = contents t - {x}"
    using assms(2) lookup_unique [OF assms(1)] equal_refl by auto
  moreover have "lookup t x = Some x"
    using assms(1,2) equal_refl by (simp add: lookup_iff)
  ultimately show ?thesis
    using remove_inv [OF assms(1,3)] by simp
qed

end

locale hash_table = hashing +
  fixes malloc :: "nat \<Rightarrow> bool"

sublocale hash_table \<subseteq> dictionary "lh_wf hash cmp" "\<lambda>lh. set (lh_items lh)" lh_retrieve
  "lh_insert malloc" "lh_delete malloc" "\<lambda>x y. cmp x y = 0"
proof
  show "cmp x x = 0" for x by (rule cmp_refl)
  show "cmp x y = 0 \<Longrightarrow> cmp y x = 0" for x y by (rule cmp_sym)
  show "cmp x y = 0 \<Longrightarrow> cmp y z = 0 \<Longrightarrow> cmp x z = 0" for x y z by (rule cmp_trans)
  show "lh_wf hash cmp t \<Longrightarrow> (lh_retrieve t k = Some x) = (x \<in> set (lh_items t) \<and> cmp x k = 0)" for t k x
    by (rule retrieve_Some_iff)
  show "lh_wf hash cmp t' \<and> old = lh_retrieve t x \<and>
      set (lh_items t') = (if r then insert x {y \<in> set (lh_items t). cmp y x \<noteq> 0} else set (lh_items t))"
    if wf: "lh_wf hash cmp t" and small: "card (set (lh_items t)) + 1 < 2 ^ 64"
      and run: "lh_insert malloc x t = (r, old, t')" for t t' x r old
  proof -
    have "length (lh_items t) = card (set (lh_items t))"
      using wf_parts(5) [OF wf] by (simp add: distinct_for_def distinct_card)
    with insert_correct [OF wf _ run] small
    have "lh_wf hash cmp t' \<and> old = lh_retrieve t x \<and>
        mset (lh_items t') = (if r then add_mset x (others cmp x t) else mset (lh_items t))" by simp
    moreover from this have "set (lh_items t') =
        set_mset (if r then add_mset x (others cmp x t) else mset (lh_items t))"
      by (metis set_mset_mset)
    ultimately show ?thesis by (simp add: others_def)
  qed
  show "lh_wf hash cmp t' \<and> old = lh_retrieve t x \<and> set (lh_items t') = {y \<in> set (lh_items t). cmp y x \<noteq> 0}"
    if "lh_wf hash cmp t" and "lh_delete malloc x t = (old, t')" for t t' x old
  proof -
    have "lh_wf hash cmp t' \<and> old = lh_retrieve t x \<and> mset (lh_items t') = others cmp x t"
      by (rule delete_correct [OF that])
    moreover from this have "set (lh_items t') = set_mset (others cmp x t)"
      by (metis set_mset_mset)
    ultimately show ?thesis by (simp add: others_def)
  qed
qed

section \<open>Runs\<close>

text \<open>
  The abstract table is a finite map from keys, compared by \<open>cmp\<close>, to data; a run of
  insertions and deletions on the table refines the run on the map.
\<close>

datatype 'a lh_op = Insert 'a | Delete 'a

primrec lh_step :: "(nat \<Rightarrow> bool) \<Rightarrow> 'a lh_op \<Rightarrow> 'a lhash \<Rightarrow> 'a lhash" where
  "lh_step malloc (Insert x) lh = snd (snd (lh_insert malloc x lh))"
| "lh_step malloc (Delete x) lh = snd (lh_delete malloc x lh)"

primrec map_step :: "('a \<Rightarrow> 'a \<Rightarrow> int) \<Rightarrow> 'a lh_op \<Rightarrow> ('a \<Rightarrow> 'a option) \<Rightarrow> 'a \<Rightarrow> 'a option" where
  "map_step cmp (Insert x) m = (\<lambda>k. if cmp x k = 0 then Some x else m k)"
| "map_step cmp (Delete x) m = (\<lambda>k. if cmp x k = 0 then None else m k)"

lemma insert_success: "malloc 24 \<Longrightarrow> fst (lh_insert malloc x lh)"
  by (simp add: lh_insert_def Let_def split: prod.splits)

context hash_table
begin

lemma step_refines:
  assumes "lh_wf hash cmp t" and "card (set (lh_items t)) + 1 < 2 ^ 64" and "malloc 24"
  shows "lh_wf hash cmp (lh_step malloc c t) \<and>
    lh_retrieve (lh_step malloc c t) = map_step cmp c (lh_retrieve t) \<and>
    card (set (lh_items (lh_step malloc c t))) \<le> card (set (lh_items t)) + 1"
proof (cases c)
  case (Insert x)
  obtain r old t' where run: "lh_insert malloc x t = (r, old, t')" by (metis prod.collapse)
  then have r: "r" using insert_success [of malloc x t, OF assms(3)] by simp
  note p = put_inv [OF assms(1,2) run]
  have "lh_wf hash cmp (lh_step malloc c t)" using p run Insert by simp
  moreover have "lh_retrieve (lh_step malloc c t) = map_step cmp c (lh_retrieve t)"
    using lookup_put [OF assms(1,2) run [unfolded r [THEN eqTrueI]]] run Insert by auto
  moreover have "card (set (lh_items (lh_step malloc c t))) \<le> card (set (lh_items t)) + 1"
  proof -
    have "card (insert x {y \<in> set (lh_items t). cmp y x \<noteq> 0}) \<le> Suc (card {y \<in> set (lh_items t). cmp y x \<noteq> 0})"
      by (simp add: card_insert_if)
    also have "\<dots> \<le> Suc (card (set (lh_items t)))" by (simp add: card_mono)
    finally show ?thesis using p r run Insert by simp
  qed
  ultimately show ?thesis by blast
next
  case (Delete x)
  obtain old t' where run: "lh_delete malloc x t = (old, t')" by (metis prod.collapse)
  note d = remove_inv [OF assms(1) run]
  have "lh_wf hash cmp (lh_step malloc c t)" using d run Delete by simp
  moreover have "lh_retrieve (lh_step malloc c t) = map_step cmp c (lh_retrieve t)"
    using lookup_remove [OF assms(1) run] run Delete by auto
  moreover have "card {y \<in> set (lh_items t). cmp y x \<noteq> 0} \<le> card (set (lh_items t))"
    by (simp add: card_mono)
  ultimately show ?thesis using d run Delete by simp
qed

lemma run_refines:
  assumes "lh_wf hash cmp t" and "card (set (lh_items t)) + length ops < 2 ^ 64" and "malloc 24"
  shows "lh_wf hash cmp (fold (lh_step malloc) ops t) \<and>
    lh_retrieve (fold (lh_step malloc) ops t) = fold (map_step cmp) ops (lh_retrieve t)"
  using assms(1,2)
proof (induction ops arbitrary: t)
  case (Cons c ops)
  have "card (set (lh_items t)) + 1 < 2 ^ 64" using Cons.prems(2) by simp
  note s = step_refines [OF Cons.prems(1) this assms(3), of c]
  have "card (set (lh_items (lh_step malloc c t))) + length ops < 2 ^ 64"
    using s Cons.prems(2) by simp
  from Cons.IH [OF _ this] s show ?case by simp
qed simp

end

section \<open>Load and iteration\<close>

text \<open>
  With memory available and outside an iteration, the average chain never exceeds
  \<open>kMaxAverageChainLength\<close>.
\<close>

definition loaded :: "'a lhash \<Rightarrow> bool" where
  "loaded lh \<longleftrightarrow> num_items lh div num_buckets lh \<le> kMaxAverageChainLength"

lemma rebucket_size:
  "n < 2 ^ 61 \<Longrightarrow> malloc (8 * n) \<Longrightarrow>
    num_buckets (lh_rebucket malloc n lh) = n \<and> num_items (lh_rebucket malloc n lh) = num_items lh"
  by (simp add: lh_rebucket_def size_mul_def Let_def)

lemma maybe_resize_loaded:
  assumes "\<And>k. malloc k" and "callback_depth lh = 0" and "kMinNumBuckets \<le> num_buckets lh"
    and "num_buckets lh < 2 ^ 60" and "num_items lh div num_buckets lh \<le> 3"
  shows "loaded (lh_maybe_resize malloc lh)"
proof -
  define n m where "n = num_items lh" and "m = num_buckets lh"
  have m: "16 \<le> m" "m < 2 ^ 60" "n div m \<le> 3"
    using assms(3-5) by (simp_all add: n_def m_def kMinNumBuckets_def)
  consider "2 < n div m" | "n div m \<le> 2" "1 \<le> n div m \<or> m \<le> 16" | "n div m = 0" "16 < m"
    by linarith
  then show ?thesis
  proof cases
    case 1
    have "size_mul m 2 = 2 * m"
      using m(2) by (simp add: size_mul_def)
    then have "lh_maybe_resize malloc lh = lh_rebucket malloc (2 * m) lh"
      using 1 m assms(2)
      by (simp add: lh_maybe_resize_def n_def m_def Let_def kMaxAverageChainLength_def)
    moreover have "n div (2 * m) \<le> 2"
      using m(3) by (simp add: div_mult2_eq mult.commute [of 2])
    moreover have "2 * m < 2 ^ 61"
      using m(2) by simp
    ultimately show ?thesis
      using rebucket_size [of "2 * m" malloc lh] assms(1)
      by (simp add: loaded_def kMaxAverageChainLength_def n_def)
  next
    case 2
    then have "lh_maybe_resize malloc lh = lh"
      using assms(2) by (auto simp: lh_maybe_resize_def n_def m_def Let_def kMinNumBuckets_def
          kMaxAverageChainLength_def kMinAverageChainLength_def)
    with 2 show ?thesis
      by (simp add: loaded_def kMaxAverageChainLength_def n_def m_def)
  next
    case 3
    define k where "k = (if m div 2 < 16 then 16 else m div 2)"
    have "lh_maybe_resize malloc lh = lh_rebucket malloc k lh"
      using 3 assms(2) by (simp add: lh_maybe_resize_def n_def m_def k_def Let_def kMinNumBuckets_def
          kMaxAverageChainLength_def kMinAverageChainLength_def)
    moreover have "n < m" using 3 m(1) by (simp add: div_eq_0_iff)
    then have "n < 3 * k" using m(1) by (simp add: k_def) linarith
    then have "n div k \<le> 2" by (simp add: less_mult_imp_div_less less_Suc_eq_le [symmetric])
    moreover have "m div 2 < 2 ^ 61" using m(2) by (intro le_less_trans [OF div_le_dividend]) simp
    then have "k < 2 ^ 61" by (simp add: k_def)
    ultimately show ?thesis
      using rebucket_size [of k malloc lh] assms(1)
      by (simp add: loaded_def kMaxAverageChainLength_def n_def)
  qed
qed

lemma doall_visits:
  "snd (lh_doall_arg malloc func lh arg) = fold func (lh_items lh) arg"
proof -
  have "fold (fold (\<lambda>item. func (fst item))) bs a = fold func (map fst (concat bs)) a" for bs a
    by (induction bs arbitrary: a) (simp_all add: fold_map comp_def)
  then show ?thesis
    by (simp add: lh_doall_arg_def lh_items_def Let_def)
qed

lemma doall_wf:
  assumes "lh_wf hash cmp lh"
  shows "lh_wf hash cmp (fst (lh_doall_arg malloc func lh arg))
    \<and> mset (lh_items (fst (lh_doall_arg malloc func lh arg))) = mset (lh_items lh)"
proof -
  define lh1 where "lh1 = (if callback_depth lh < UINT_MAX
    then lh\<lparr>callback_depth := callback_depth lh + 1\<rparr> else lh)"
  define lh2 where "lh2 = (if callback_depth lh1 < UINT_MAX
    then lh1\<lparr>callback_depth := callback_depth lh1 - 1\<rparr> else lh1)"
  have i: "lh_items lh2 = lh_items lh"
    by (simp add: lh1_def lh2_def lh_items_def)
  have "lh_wf hash cmp lh2"
    using assms i by (auto simp: lh_wf_def lh1_def lh2_def)
  moreover have "fst (lh_doall_arg malloc func lh arg) = lh_maybe_resize malloc lh2"
    by (simp add: lh_doall_arg_def lh1_def lh2_def Let_def)
  ultimately show ?thesis
    using maybe_resize_wf [of hash cmp lh2] i by (simp add: same_table_def)
qed

lemma insert_loaded:
  assumes "lh_wf hash cmp lh" and "loaded lh" and "callback_depth lh = 0" and "\<And>k. malloc k"
    and "num_buckets lh < 2 ^ 60" and "lh_insert malloc d lh = (r, old, lh')"
  shows "loaded lh'"
proof -
  define b where "b = fst (snd (get_next_ptr_and_hash lh d))"
  define i where "i = snd (snd (get_next_ptr_and_hash lh d))"
  define h where "h = fst (get_next_ptr_and_hash lh d)"
  have g: "get_next_ptr_and_hash lh d = (h, b, i)" by (simp add: b_def i_def h_def)
  have m: "16 \<le> num_buckets lh" "num_items lh div num_buckets lh \<le> 2"
    using assms(1,2) by (simp_all add: lh_wf_def kMinNumBuckets_def loaded_def kMaxAverageChainLength_def)
  have "num_items lh < 3 * num_buckets lh"
    using m div_less_iff_less_mult [of "num_buckets lh" "num_items lh" 3] by simp
  then have small: "size_add (num_items lh) 1 = num_items lh + 1"
    using assms(5) by (intro size_add_small) simp
  have avg: "(num_items lh + 1) div num_buckets lh \<le> 3"
    using m \<open>num_items lh < 3 * num_buckets lh\<close>
      div_less_iff_less_mult [of "num_buckets lh" "num_items lh + 1" 4] by simp
  define lh1 where "lh1 = lh\<lparr>buckets := (buckets lh)[b := buckets lh ! b @ [(d, h)]],
    num_items := num_items lh + 1\<rparr>"
  have "loaded (lh_maybe_resize malloc lh1)"
    using assms(3,4,5) m avg
    by (intro maybe_resize_loaded) (simp_all add: lh1_def kMinNumBuckets_def)
  moreover have "lh_insert malloc d lh = (True, None, lh_maybe_resize malloc lh1)"
    if "i = length (buckets lh ! b)"
    using that assms(4) small by (simp add: lh_insert_def g Let_def lh1_def)
  moreover have "loaded lh'" if "i \<noteq> length (buckets lh ! b)"
    using that assms(2,6) by (auto simp: lh_insert_def g Let_def loaded_def)
  ultimately show ?thesis
    using assms(6) by auto
qed

end
