(* ===== verification/Pool.thy ===== *)
theory Pool
  imports Lhash
begin

text \<open>
  The pool of shared certificate buffers (\<open>pool/pool.c\<close>) on the hash table, and its
  saturating reference counts (\<open>refcount_lock.c\<close>).  A buffer is its address and its
  contents, which never change; the counts and the set of allocated addresses are the mutable
  state.  Each critical section of the code is one step, so \<open>CRYPTO_BUFFER_new\<close> is two
  of them and other threads may run in between.
\<close>

section \<open>Reference counts\<close>

definition CRYPTO_REFCOUNT_MAX :: u32 where "CRYPTO_REFCOUNT_MAX = 0xffffffff"

definition CRYPTO_refcount_inc :: "u32 \<Rightarrow> u32" where
  "CRYPTO_refcount_inc c = (if c < CRYPTO_REFCOUNT_MAX then c + 1 else c)"

text \<open>\<open>None\<close> is \<open>abort\<close>; otherwise the new count and whether it is zero.\<close>

definition CRYPTO_refcount_dec_and_test_zero :: "u32 \<Rightarrow> (u32 \<times> bool) option" where
  "CRYPTO_refcount_dec_and_test_zero c =
    (if c = 0 then None
     else let c' = (if c < CRYPTO_REFCOUNT_MAX then c - 1 else c) in Some (c', c' = 0))"

section \<open>Buffers and pools\<close>

record crypto_buffer =
  cb_addr :: nat
  cb_data :: "byte list"
  cb_pooled :: bool

definition CRYPTO_BUFFER_hash :: "crypto_buffer \<Rightarrow> u32" where
  "CRYPTO_BUFFER_hash b = OPENSSL_hash32 (cb_data b)"

definition CRYPTO_BUFFER_cmp :: "crypto_buffer \<Rightarrow> crypto_buffer \<Rightarrow> int" where
  "CRYPTO_BUFFER_cmp a b =
    (if length (cb_data a) \<noteq> length (cb_data b) then 1 else memcmp (cb_data a) (cb_data b))"

text \<open>\<open>references\<close> are the counts by address, \<open>allocated\<close> the addresses not yet freed.\<close>

record pool =
  bufs :: "crypto_buffer lhash"
  references :: "nat \<Rightarrow> u32"
  allocated :: "nat set"

definition CRYPTO_BUFFER_POOL_new :: "(nat \<Rightarrow> bool) \<Rightarrow> pool option" where
  "CRYPTO_BUFFER_POOL_new malloc =
    (if \<not> malloc 64 then None
     else case lh_new malloc CRYPTO_BUFFER_hash CRYPTO_BUFFER_cmp of
       None \<Rightarrow> None
     | Some lh \<Rightarrow> Some \<lparr>bufs = lh, references = (\<lambda>_. 0), allocated = {}\<rparr>)"

definition inc_ref :: "crypto_buffer \<Rightarrow> pool \<Rightarrow> pool" where
  "inc_ref b p = p\<lparr>references := (references p)(cb_addr b := CRYPTO_refcount_inc (references p (cb_addr b)))\<rparr>"

text \<open>The read-locked section of \<open>CRYPTO_BUFFER_new\<close>: look for the contents.\<close>

definition buffer_lookup :: "byte list \<Rightarrow> pool \<Rightarrow> crypto_buffer option \<times> pool" where
  "buffer_lookup data p =
    (case lh_retrieve (bufs p) \<lparr>cb_addr = 0, cb_data = data, cb_pooled = False\<rparr> of
       None \<Rightarrow> (None, p)
     | Some dup \<Rightarrow> (Some dup, inc_ref dup p))"

text \<open>
  The write-locked section: \<open>buf\<close> is the new buffer, which is inserted unless another
  thread was faster; a buffer that was not inserted is freed.
\<close>

definition buffer_insert :: "(nat \<Rightarrow> bool) \<Rightarrow> crypto_buffer \<Rightarrow> pool \<Rightarrow> crypto_buffer option \<times> pool" where
  "buffer_insert malloc buf p =
    (case lh_retrieve (bufs p) buf of
       None \<Rightarrow>
         (case lh_insert malloc buf (bufs p) of
            (inserted, old, lh) \<Rightarrow>
              if inserted
              then (Some buf, p\<lparr>bufs := lh, references := (references p)(cb_addr buf := 1),
                allocated := insert (cb_addr buf) (allocated p)\<rparr>)
              else (None, p\<lparr>bufs := lh\<rparr>))
     | Some dup \<Rightarrow> (Some dup, inc_ref dup p))"

text \<open>
  The whole function, run without interference.  \<open>addr\<close> and \<open>memdup_ok\<close> are the
  allocator's answers for the structure and the contents.
\<close>

definition CRYPTO_BUFFER_new ::
  "(nat \<Rightarrow> bool) \<Rightarrow> nat option \<Rightarrow> bool \<Rightarrow> byte list \<Rightarrow> bool \<Rightarrow> pool \<Rightarrow> crypto_buffer option \<times> pool" where
  "CRYPTO_BUFFER_new malloc addr memdup_ok data has_pool p =
    (case (if has_pool then buffer_lookup data p else (None, p)) of
       (Some dup, p') \<Rightarrow> (Some dup, p')
     | (None, p') \<Rightarrow>
         (case addr of
            None \<Rightarrow> (None, p')
          | Some a \<Rightarrow>
              if data \<noteq> [] \<and> \<not> memdup_ok then (None, p')
              else if has_pool
              then buffer_insert malloc \<lparr>cb_addr = a, cb_data = data, cb_pooled = True\<rparr> p'
              else (Some \<lparr>cb_addr = a, cb_data = data, cb_pooled = False\<rparr>,
                p'\<lparr>references := (references p')(a := 1), allocated := insert a (allocated p')\<rparr>)))"

definition CRYPTO_BUFFER_up_ref :: "crypto_buffer \<Rightarrow> pool \<Rightarrow> pool" where
  "CRYPTO_BUFFER_up_ref b p = inc_ref b p"

text \<open>\<open>None\<close> is the abort of a count that is already zero.\<close>

definition CRYPTO_BUFFER_free :: "(nat \<Rightarrow> bool) \<Rightarrow> crypto_buffer \<Rightarrow> pool \<Rightarrow> pool option" where
  "CRYPTO_BUFFER_free malloc b p =
    (case CRYPTO_refcount_dec_and_test_zero (references p (cb_addr b)) of
       None \<Rightarrow> None
     | Some (c, zero) \<Rightarrow>
        let p' = p\<lparr>references := (references p)(cb_addr b := c)\<rparr>
        in if \<not> zero then Some p'
           else if \<not> cb_pooled b then Some (p'\<lparr>allocated := allocated p' - {cb_addr b}\<rparr>)
           else (case lh_delete malloc b (bufs p') of
               (found, lh) \<Rightarrow> Some (p'\<lparr>bufs := lh, allocated := allocated p' - {cb_addr b}\<rparr>)))"

definition CRYPTO_BUFFER_data :: "crypto_buffer \<Rightarrow> byte list" where
  "CRYPTO_BUFFER_data b = cb_data b"

definition CRYPTO_BUFFER_len :: "crypto_buffer \<Rightarrow> nat" where
  "CRYPTO_BUFFER_len b = length (cb_data b)"

section \<open>The hash table of a pool\<close>

lemma cmp_iff: "CRYPTO_BUFFER_cmp a b = 0 \<longleftrightarrow> cb_data a = cb_data b"
  by (auto simp: CRYPTO_BUFFER_cmp_def memcmp_eq_0_iff)

text \<open>The functions of the pool keep the contract of the table.\<close>

interpretation pool: hashing CRYPTO_BUFFER_hash CRYPTO_BUFFER_cmp
  by unfold_locales (simp_all add: cmp_iff CRYPTO_BUFFER_hash_def)

interpretation pool_table: hash_table CRYPTO_BUFFER_hash CRYPTO_BUFFER_cmp malloc for malloc
  by unfold_locales

abbreviation (input) pool_wf :: "pool \<Rightarrow> bool" where
  "pool_wf p \<equiv> lh_wf CRYPTO_BUFFER_hash CRYPTO_BUFFER_cmp (bufs p)"

section \<open>Threads\<close>

text \<open>
  The steps of any number of threads: the critical sections, with the multiset \<open>held\<close> of
  references that the threads own.  A thread frees and duplicates only references it owns, and
  the allocator returns user-space addresses that are not in use.
\<close>

inductive pool_step :: "pool \<times> crypto_buffer multiset \<Rightarrow> pool \<times> crypto_buffer multiset \<Rightarrow> bool" where
  lookup_hit: "buffer_lookup data p = (Some b, p') \<Longrightarrow> pool_step (p, held) (p', add_mset b held)"
| lookup_miss: "buffer_lookup data p = (None, p') \<Longrightarrow> pool_step (p, held) (p', held)"
| insert_ok: "a \<notin> allocated p \<Longrightarrow> a < 2 ^ 63 \<Longrightarrow>
    buffer_insert malloc \<lparr>cb_addr = a, cb_data = data, cb_pooled = True\<rparr> p = (Some b, p') \<Longrightarrow>
    pool_step (p, held) (p', add_mset b held)"
| insert_fail: "a \<notin> allocated p \<Longrightarrow> a < 2 ^ 63 \<Longrightarrow>
    buffer_insert malloc \<lparr>cb_addr = a, cb_data = data, cb_pooled = True\<rparr> p = (None, p') \<Longrightarrow>
    pool_step (p, held) (p', held)"
| up_ref: "b \<in># held \<Longrightarrow> pool_step (p, held) (CRYPTO_BUFFER_up_ref b p, add_mset b held)"
| free: "b \<in># held \<Longrightarrow> CRYPTO_BUFFER_free malloc b p = Some p' \<Longrightarrow>
    pool_step (p, held) (p', held - {#b#})"

text \<open>
  The invariant: the table holds exactly the allocated buffers, under distinct addresses;
  what is held is in the table; and each count is the number of references that are held
  unless it has saturated, in which case the buffer is never freed.
\<close>

definition counted :: "u32 \<Rightarrow> nat \<Rightarrow> bool" where
  "counted c n \<longleftrightarrow> c = CRYPTO_REFCOUNT_MAX \<or> unat c = n \<and> 0 < n"

definition pool_inv :: "pool \<times> crypto_buffer multiset \<Rightarrow> bool" where
  "pool_inv s \<longleftrightarrow> (case s of (p, held) \<Rightarrow>
     pool_wf p \<and> set_mset held \<subseteq> set (lh_items (bufs p))
     \<and> cb_addr ` set (lh_items (bufs p)) = allocated p \<and> inj_on cb_addr (set (lh_items (bufs p)))
     \<and> (\<forall>a \<in> allocated p. a < 2 ^ 63)
     \<and> (\<forall>b \<in> set (lh_items (bufs p)). cb_pooled b \<and> counted (references p (cb_addr b)) (count held b)))"

lemma refcount_le_max: "c \<le> CRYPTO_REFCOUNT_MAX"
proof -
  have max: "CRYPTO_REFCOUNT_MAX = - 1" by (simp add: CRYPTO_REFCOUNT_MAX_def)
  show ?thesis unfolding max by (rule word_order.extremum)
qed

lemma counted_inc:
  assumes "counted c n"
  shows "counted (CRYPTO_refcount_inc c) (Suc n)"
proof (cases "c < CRYPTO_REFCOUNT_MAX")
  case True
  then have "unat c < unat CRYPTO_REFCOUNT_MAX" by (simp add: word_less_nat_alt)
  then have "unat (c + 1) = unat c + 1"
    by (simp add: CRYPTO_REFCOUNT_MAX_def unat_word_ariths)
  with True assms show ?thesis
    by (auto simp: counted_def CRYPTO_refcount_inc_def)
next
  case False
  with refcount_le_max [of c] have "c = CRYPTO_REFCOUNT_MAX" by simp
  then show ?thesis
    by (simp add: counted_def CRYPTO_refcount_inc_def)
qed

lemma counted_dec:
  assumes "counted c n" and "0 < n"
  obtains "c = CRYPTO_REFCOUNT_MAX" and "CRYPTO_refcount_dec_and_test_zero c = Some (c, False)"
  | "n = 1" and "CRYPTO_refcount_dec_and_test_zero c = Some (0, True)"
  | c' where "CRYPTO_refcount_dec_and_test_zero c = Some (c', False)" and "counted c' (n - 1)"
proof (cases "c = CRYPTO_REFCOUNT_MAX")
  case True
  then have "CRYPTO_refcount_dec_and_test_zero c = Some (c, False)"
    by (simp add: CRYPTO_refcount_dec_and_test_zero_def CRYPTO_REFCOUNT_MAX_def Let_def)
  with True show ?thesis by (rule that(1))
next
  case False
  with refcount_le_max [of c] have lt: "c < CRYPTO_REFCOUNT_MAX" by simp
  have n: "unat c = n" using assms False by (simp add: counted_def)
  then have nz: "c \<noteq> 0" using assms(2) by auto
  then have u: "unat (c - 1) = n - 1"
    using n by (simp add: unat_minus_one)
  have dec: "CRYPTO_refcount_dec_and_test_zero c = Some (c - 1, c - 1 = 0)"
    using lt nz by (simp add: CRYPTO_refcount_dec_and_test_zero_def Let_def)
  show ?thesis
  proof (cases "n = 1")
    case True
    with u have "c - 1 = 0" by (simp add: unat_eq_zero)
    with dec True show ?thesis by (intro that(2)) simp_all
  next
    case False
    then have "c - 1 \<noteq> 0" using u assms(2) by (metis One_nat_def Suc_pred diff_is_0_eq' le_SucE not_one_le_zero unat_0 zero_less_iff_neq_zero)
    with dec u False assms(2) show ?thesis
      by (intro that(3) [of "c - 1"]) (simp_all add: counted_def)
  qed
qed

lemma pool_invD:
  assumes "pool_inv (p, held)"
  shows "pool_wf p" and "set_mset held \<subseteq> set (lh_items (bufs p))"
    and "cb_addr ` set (lh_items (bufs p)) = allocated p" and "inj_on cb_addr (set (lh_items (bufs p)))"
    and "\<forall>a \<in> allocated p. a < 2 ^ 63"
    and "\<And>b. b \<in> set (lh_items (bufs p)) \<Longrightarrow> cb_pooled b \<and> counted (references p (cb_addr b)) (count held b)"
  using assms by (auto simp: pool_inv_def)

lemma inc_ref_inv:
  assumes inv: "pool_inv (p, held)" and b: "b \<in> set (lh_items (bufs p))"
  shows "pool_inv (inc_ref b p, add_mset b held)"
proof -
  have "counted (references (inc_ref b p) (cb_addr x)) (count (add_mset b held) x)"
    if x: "x \<in> set (lh_items (bufs p))" for x
  proof (cases "x = b")
    case True
    then show ?thesis
      using counted_inc pool_invD(6) [OF inv b] by (simp add: inc_ref_def)
  next
    case False
    then have "cb_addr x \<noteq> cb_addr b"
      using inj_onD [OF pool_invD(4) [OF inv] _ x b] by blast
    with False show ?thesis
      using pool_invD(6) [OF inv x] by (simp add: inc_ref_def)
  qed
  then show ?thesis
    using inv b by (auto simp: pool_inv_def inc_ref_def)
qed

lemma few_buffers:
  assumes "pool_inv (p, held)"
  shows "card (set (lh_items (bufs p))) + 1 < 2 ^ 64"
proof -
  have "card (set (lh_items (bufs p))) = card (allocated p)"
    using card_image [OF pool_invD(4) [OF assms]] pool_invD(3) [OF assms] by simp
  also have "\<dots> \<le> card {..< (2::nat) ^ 63}"
    using pool_invD(5) [OF assms] by (intro card_mono) auto
  finally show ?thesis by simp
qed

lemma lookup_inv:
  assumes "pool_inv (p, held)" and "buffer_lookup data p = (r, p')"
  shows "case r of None \<Rightarrow> p' = p
    | Some b \<Rightarrow> cb_data b = data \<and> b \<in> set (lh_items (bufs p)) \<and> pool_inv (p', add_mset b held)"
  using assms inc_ref_inv [OF assms(1)]
  by (auto simp: buffer_lookup_def pool.retrieve_Some_iff [OF pool_invD(1) [OF assms(1)]] cmp_iff
      split: option.splits)

lemma insert_inv:
  assumes inv: "pool_inv (p, held)" and fresh: "a \<notin> allocated p" "a < 2 ^ 63"
    and run: "buffer_insert malloc \<lparr>cb_addr = a, cb_data = data, cb_pooled = True\<rparr> p = (r, p')"
  shows "case r of None \<Rightarrow> pool_inv (p', held)
    | Some b \<Rightarrow> cb_data b = data \<and> pool_inv (p', add_mset b held)"
proof -
  define buf where "buf = \<lparr>cb_addr = a, cb_data = data, cb_pooled = True\<rparr>"
  show ?thesis
  proof (cases "lh_retrieve (bufs p) buf")
    case (Some b)
    then have "b \<in> set (lh_items (bufs p))" "cb_data b = data"
      using pool.retrieve_Some_iff [OF pool_invD(1) [OF inv]] by (auto simp: cmp_iff buf_def)
    moreover have "r = Some b" "p' = inc_ref b p"
      using run Some by (simp_all add: buffer_insert_def buf_def)
    ultimately show ?thesis using inc_ref_inv [OF inv] by simp
  next
    case None
    obtain ok' old lh where ins: "lh_insert malloc buf (bufs p) = (ok', old, lh)"
      by (metis prod.collapse)
    have lh: "lh_wf CRYPTO_BUFFER_hash CRYPTO_BUFFER_cmp lh"
      "set (lh_items lh) = (if ok' then insert buf (set (lh_items (bufs p))) else set (lh_items (bufs p)))"
      using pool_table.put_fresh [OF pool_invD(1) [OF inv] few_buffers [OF inv] None ins] by simp_all
    show ?thesis
    proof (cases ok')
      case False
      then have "r = None" "p' = p\<lparr>bufs := lh\<rparr>"
        using run None ins by (simp_all add: buffer_insert_def buf_def)
      then show ?thesis using inv lh False by (simp add: pool_inv_def)
    next
      case True
      have r: "r = Some buf" and p': "p' = p\<lparr>bufs := lh, references := (references p)(a := 1),
          allocated := insert a (allocated p)\<rparr>"
        using run None ins True by (simp_all add: buffer_insert_def buf_def)
      have notin: "x \<in> set (lh_items (bufs p)) \<Longrightarrow> cb_addr x \<noteq> a" for x
        using fresh(1) pool_invD(3) [OF inv] by blast
      have "buf \<notin> set (lh_items (bufs p))"
        using notin [of buf] by (auto simp: buf_def)
      then have "buf \<notin># held"
        using pool_invD(2) [OF inv] by blast
      then have "count held buf = 0" by (simp add: not_in_iff)
      moreover have "counted (1 :: u32) 1" by (simp add: counted_def)
      ultimately have cnt: "cb_pooled x \<and> counted (references p' (cb_addr x)) (count (add_mset buf held) x)"
        if "x \<in> insert buf (set (lh_items (bufs p)))" for x
        using that notin pool_invD(6) [OF inv, of x] by (auto simp: p' buf_def)
      have inj: "inj_on cb_addr (insert buf (set (lh_items (bufs p))))"
        using pool_invD(4) [OF inv] notin by (auto simp: buf_def)
      have parts: "bufs p' = lh" "allocated p' = insert a (allocated p)" "cb_addr buf = a"
        "set (lh_items lh) = insert buf (set (lh_items (bufs p)))"
        using lh(2) True by (simp_all add: p' buf_def)
      have "pool_inv (p', add_mset buf held)"
        unfolding pool_inv_def prod.case parts
        using lh(1) pool_invD(2,3,5) [OF inv] fresh(2) inj cnt parts(3)
        by (intro conjI ballI) auto
      then show ?thesis by (simp add: r buf_def)
    qed
  qed
qed

lemma free_inv:
  assumes inv: "pool_inv (p, held)" and b: "b \<in># held"
  shows "\<exists>p'. CRYPTO_BUFFER_free malloc b p = Some p' \<and> pool_inv (p', held - {#b#})
    \<and> (cb_addr b \<notin> allocated p' \<longrightarrow> count held b = 1)"
proof -
  have bi: "b \<in> set (lh_items (bufs p))" using pool_invD(2) [OF inv] b by blast
  have cnt: "counted (references p (cb_addr b)) (count held b)" "0 < count held b"
    using pool_invD(6) [OF inv bi] b by simp_all
  have other: "x \<noteq> b \<Longrightarrow> x \<in> set (lh_items (bufs p)) \<Longrightarrow> cb_addr x \<noteq> cb_addr b" for x
    using inj_onD [OF pool_invD(4) [OF inv] _ _ bi] by blast
  have ba: "cb_addr b \<in> allocated p" using pool_invD(3) [OF inv] bi by blast
  have keep: ?thesis if dec: "CRYPTO_refcount_dec_and_test_zero (references p (cb_addr b)) = Some (c, False)"
    and c: "counted c (count held b - 1)" for c
  proof -
    define p1 where "p1 = p\<lparr>references := (references p)(cb_addr b := c)\<rparr>"
    have "counted (references p1 (cb_addr x)) (count (held - {#b#}) x)"
      if "x \<in> set (lh_items (bufs p))" for x
      using that c other [of x] pool_invD(6) [OF inv that] by (cases "x = b") (auto simp: p1_def)
    then have "pool_inv (p1, held - {#b#})"
      using inv by (auto simp: pool_inv_def p1_def dest: in_diffD)
    moreover have "CRYPTO_BUFFER_free malloc b p = Some p1"
      using dec by (simp add: CRYPTO_BUFFER_free_def p1_def)
    ultimately show ?thesis using ba by (auto simp: p1_def)
  qed
  from cnt show ?thesis
  proof (cases rule: counted_dec)
    case 1
    then show ?thesis using keep [of CRYPTO_REFCOUNT_MAX] by (simp add: counted_def)
  next
    case (3 c')
    then show ?thesis by (rule keep)
  next
    case 2
    define p1 where "p1 = p\<lparr>references := (references p)(cb_addr b := 0)\<rparr>"
    obtain found lh where del: "lh_delete malloc b (bufs p) = (found, lh)" by fastforce
    have lh: "lh_wf CRYPTO_BUFFER_hash CRYPTO_BUFFER_cmp lh" "set (lh_items lh) = set (lh_items (bufs p)) - {b}"
      using pool_table.remove_found [OF pool_invD(1) [OF inv] bi del] by simp_all
    define p2 where "p2 = p1\<lparr>bufs := lh, allocated := allocated p - {cb_addr b}\<rparr>"
    have run: "CRYPTO_BUFFER_free malloc b p = Some p2"
      using 2 del pool_invD(6) [OF inv bi] by (simp add: CRYPTO_BUFFER_free_def p1_def p2_def)
    have "b \<notin># held - {#b#}" using 2(1) by (simp add: not_in_iff)
    then have sub: "set_mset (held - {#b#}) \<subseteq> set (lh_items lh)"
      using pool_invD(2) [OF inv] lh(2) by (auto dest: in_diffD)
    have "cb_addr ` (set (lh_items (bufs p)) - {b}) = allocated p - {cb_addr b}"
      using inj_on_image_set_diff [OF pool_invD(4) [OF inv], of "set (lh_items (bufs p))" "{b}"]
        pool_invD(3) [OF inv] bi by simp
    moreover have "cb_pooled x \<and> counted (references p2 (cb_addr x)) (count (held - {#b#}) x)"
      if "x \<in> set (lh_items (bufs p)) - {b}" for x
    proof -
      have "x \<noteq> b" "b \<noteq> x" "x \<in> set (lh_items (bufs p))" using that by auto
      then show ?thesis
        using other [of x] pool_invD(6) [OF inv, of x] by (simp add: p2_def p1_def)
    qed
    ultimately have "pool_inv (p2, held - {#b#})"
      using lh sub pool_invD(4,5) [OF inv]
      by (auto simp: pool_inv_def p2_def inj_on_diff)
    then show ?thesis using run 2(1) by blast
  qed
qed

lemma pool_step_inv: "pool_step s s' \<Longrightarrow> pool_inv s \<Longrightarrow> pool_inv s'"
proof (induction rule: pool_step.induct)
  case (lookup_hit data p b p' held)
  then show ?case using lookup_inv by fastforce
next
  case (lookup_miss data p p' held)
  then show ?case using lookup_inv by fastforce
next
  case (insert_ok a p malloc data b p' held)
  then show ?case using insert_inv by fastforce
next
  case (insert_fail a p malloc data p' held)
  then show ?case using insert_inv by fastforce
next
  case (up_ref b held p)
  then have "b \<in> set (lh_items (bufs p))"
    using pool_invD(2) by blast
  then show ?case
    using inc_ref_inv up_ref by (simp add: CRYPTO_BUFFER_up_ref_def)
next
  case (free b held malloc p p')
  then show ?case using free_inv by (metis option.inject)
qed

lemma pool_new_inv: "CRYPTO_BUFFER_POOL_new malloc = Some p \<Longrightarrow> pool_inv (p, {#})"
  using pool.new_wf
  by (auto simp: CRYPTO_BUFFER_POOL_new_def pool_inv_def split: if_splits option.splits)

lemma pool_reachable_inv:
  assumes "CRYPTO_BUFFER_POOL_new malloc = Some p" and "pool_step\<^sup>*\<^sup>* (p, {#}) s"
  shows "pool_inv s"
  using assms(2) by (induction rule: rtranclp_induct) (auto intro: pool_new_inv [OF assms(1)] pool_step_inv)

text \<open>What the invariant means for the threads.\<close>

lemma held_alive:
  assumes inv: "pool_inv (p, held)" and b: "b \<in># held"
  shows "cb_addr b \<in> allocated p" and "lh_retrieve (bufs p) b = Some b"
    and "c \<in># held \<Longrightarrow> cb_data b = cb_data c \<or> cb_addr b = cb_addr c \<Longrightarrow> b = c"
proof -
  have in_table: "x \<in># held \<Longrightarrow> x \<in> set (lh_items (bufs p))" for x
    using pool_invD(2) [OF inv] by blast
  show "cb_addr b \<in> allocated p"
    using pool_invD(3) [OF inv] in_table [OF b] by blast
  show "lh_retrieve (bufs p) b = Some b"
    using pool.retrieve_Some_iff [OF pool_invD(1) [OF inv]] in_table [OF b] by (simp add: cmp_iff)
  show "b = c" if "c \<in># held" "cb_data b = cb_data c \<or> cb_addr b = cb_addr c"
    using that(2) inj_onD [OF pool_invD(4) [OF inv] _ in_table [OF b] in_table [OF that(1)]]
      pool_table.lookup_unique [OF pool_invD(1) [OF inv] in_table [OF b] in_table [OF that(1)]]
    by (auto simp: cmp_iff)
qed

lemma drained:
  assumes inv: "pool_inv (p, {#})" and "\<forall>a \<in> allocated p. references p a \<noteq> CRYPTO_REFCOUNT_MAX"
  shows "allocated p = {} \<and> lh_num_items (bufs p) = 0"
proof -
  have "b \<notin> set (lh_items (bufs p))" for b
    using pool_invD(3,6) [OF inv] assms(2) by (fastforce simp: counted_def)
  then have "lh_items (bufs p) = []" by (metis list.set_intros(1) list.exhaust)
  moreover from this have "allocated p = {}" using pool_invD(3) [OF inv] by simp
  ultimately show ?thesis
    using pool_invD(1) [OF inv] by (simp add: lh_num_items_def lh_wf_def lh_items_def)
qed

lemma insert_miss:
  assumes "lh_retrieve (bufs p) buf = None" and "malloc 24"
  obtains p' where "buffer_insert malloc buf p = (Some buf, p')" and "references p' (cb_addr buf) = 1"
    and "allocated p' = insert (cb_addr buf) (allocated p)"
proof -
  obtain old lh where "lh_insert malloc buf (bufs p) = (True, old, lh)"
    using insert_success [of malloc buf "bufs p", OF assms(2)] by (metis (full_types) prod.collapse)
  then show ?thesis
    using that assms(1) by (simp add: buffer_insert_def)
qed

lemma new_pool_empty:
  assumes "CRYPTO_BUFFER_POOL_new malloc = Some p"
  shows "allocated p = {}" and "lh_retrieve (bufs p) b = None"
proof -
  show "allocated p = {}"
    using assms by (auto simp: CRYPTO_BUFFER_POOL_new_def split: if_splits option.splits)
  then show "lh_retrieve (bufs p) b = None"
    using pool_invD(1,3) [OF pool_new_inv [OF assms]] by (auto simp: pool.retrieve_None_iff)
qed

end
