(* ===== verification/Stack.thy ===== *)
theory Stack
  imports Prelude "HOL-Library.Multiset"
begin

text \<open>
  The growable arrays of pointers of \<open>stack/stack.c\<close>.  A pointer is an option, \<open>None\<close> the
  null pointer, and so is the stack itself, because every function accepts \<open>NULL\<close>.
  \<open>realloc\<close> and \<open>malloc\<close> are the allocator's answers for a size, and \<open>qsort\<close> of the C
  library is a function with the contract \<open>sorting\<close>.
\<close>

section \<open>Stacks\<close>

type_synonym 'a ptr = "'a option"

record 'a stack =
  sk_data :: "'a ptr list"
  num :: nat
  sorted_flag :: bool
  num_alloc :: nat
  sk_comp :: "('a ptr \<Rightarrow> 'a ptr \<Rightarrow> int) option"

definition kMinSize :: nat where "kMinSize = 4"

definition sk_new :: "(nat \<Rightarrow> bool) \<Rightarrow> ('a ptr \<Rightarrow> 'a ptr \<Rightarrow> int) option \<Rightarrow> 'a stack option" where
  "sk_new malloc cmp =
    (if \<not> malloc 40 then None
     else if \<not> malloc (8 * kMinSize) then None
     else Some \<lparr>sk_data = replicate kMinSize None, num = 0, sorted_flag = False,
       num_alloc = kMinSize, sk_comp = cmp\<rparr>)"

definition sk_new_null :: "(nat \<Rightarrow> bool) \<Rightarrow> 'a stack option" where
  "sk_new_null malloc = sk_new malloc None"

definition sk_num :: "'a stack option \<Rightarrow> nat" where
  "sk_num sk = (case sk of None \<Rightarrow> 0 | Some s \<Rightarrow> num s)"

definition sk_zero :: "'a stack option \<Rightarrow> 'a stack option" where
  "sk_zero sk = (case sk of
     None \<Rightarrow> None
   | Some s \<Rightarrow> if num s = 0 then Some s
       else Some (s\<lparr>sk_data := replicate (num s) None @ drop (num s) (sk_data s),
         num := 0, sorted_flag := False\<rparr>))"

definition sk_value :: "'a stack option \<Rightarrow> nat \<Rightarrow> 'a ptr" where
  "sk_value sk i = (case sk of None \<Rightarrow> None | Some s \<Rightarrow> if num s \<le> i then None else sk_data s ! i)"

definition sk_set :: "nat \<Rightarrow> 'a ptr \<Rightarrow> 'a stack option \<Rightarrow> 'a ptr \<times> 'a stack option" where
  "sk_set i v sk = (case sk of
     None \<Rightarrow> (None, None)
   | Some s \<Rightarrow> if num s \<le> i then (None, Some s)
       else (v, Some (s\<lparr>sk_data := (sk_data s)[i := v]\<rparr>)))"

text \<open>\<open>free_func\<close> acts on the caller's state for every element that is not null.\<close>

definition sk_pop_free_ex :: "('a \<Rightarrow> 's \<Rightarrow> 's) \<Rightarrow> 'a stack option \<Rightarrow> 's \<Rightarrow> 's" where
  "sk_pop_free_ex free_func sk = (case sk of
     None \<Rightarrow> id
   | Some s \<Rightarrow> fold (\<lambda>p. case p of None \<Rightarrow> id | Some x \<Rightarrow> free_func x) (take (num s) (sk_data s)))"

section \<open>Insertion and deletion\<close>

text \<open>The array is doubled or, if that overflows, grown by one.\<close>

definition grown_alloc :: "nat \<Rightarrow> nat option" where
  "grown_alloc n =
    (let a = size_mul n 2; b = size_add n 1
     in if \<not> (a < n \<or> size_mul a 8 div 8 \<noteq> a) then Some a
        else if \<not> (b < n \<or> size_mul b 8 div 8 \<noteq> b) then Some b
        else None)"

definition sk_grow :: "(nat \<Rightarrow> bool) \<Rightarrow> 'a stack \<Rightarrow> 'a stack option" where
  "sk_grow realloc s =
    (case grown_alloc (num_alloc s) of
       None \<Rightarrow> None
     | Some n \<Rightarrow> if \<not> realloc (size_mul n 8) then None
         else Some (s\<lparr>sk_data := sk_data s @ replicate (n - num_alloc s) None, num_alloc := n\<rparr>))"

definition put_at :: "nat \<Rightarrow> 'a ptr \<Rightarrow> 'a stack \<Rightarrow> 'a stack" where
  "put_at pos p s =
    (let d = sk_data s; n = num s
     in s\<lparr>sk_data := (if n \<le> pos then d[n := p]
                      else (take (Suc pos) d @ take (n - pos) (drop pos d) @ drop (Suc n) d)[pos := p]),
          num := n + 1, sorted_flag := False\<rparr>)"

definition sk_insert :: "(nat \<Rightarrow> bool) \<Rightarrow> 'a ptr \<Rightarrow> nat \<Rightarrow> 'a stack option \<Rightarrow> nat \<times> 'a stack option" where
  "sk_insert realloc p pos sk = (case sk of
     None \<Rightarrow> (0, None)
   | Some s \<Rightarrow>
      (case (if num_alloc s \<le> size_add (num s) 1 then sk_grow realloc s else Some s) of
         None \<Rightarrow> (0, Some s)
       | Some t \<Rightarrow> (num t + 1, Some (put_at pos p t))))"

definition sk_delete :: "nat \<Rightarrow> 'a stack option \<Rightarrow> 'a ptr \<times> 'a stack option" where
  "sk_delete pos sk = (case sk of
     None \<Rightarrow> (None, None)
   | Some s \<Rightarrow>
      let d = sk_data s; n = num s
      in if n \<le> pos then (None, Some s)
         else (d ! pos, Some (s\<lparr>sk_data := (if pos \<noteq> n - 1
             then take pos d @ take (n - pos - 1) (drop (Suc pos) d) @ drop (n - 1) d else d),
           num := n - 1\<rparr>)))"

fun index_from :: "('a \<Rightarrow> bool) \<Rightarrow> nat \<Rightarrow> 'a list \<Rightarrow> nat option" where
  "index_from P i [] = None"
| "index_from P i (x # xs) = (if P x then Some i else index_from P (Suc i) xs)"

definition sk_delete_ptr :: "'a ptr \<Rightarrow> 'a stack option \<Rightarrow> 'a ptr \<times> 'a stack option" where
  "sk_delete_ptr p sk = (case sk of
     None \<Rightarrow> (None, None)
   | Some s \<Rightarrow> (case index_from (\<lambda>q. q = p) 0 (take (num s) (sk_data s)) of
       None \<Rightarrow> (None, Some s) | Some i \<Rightarrow> sk_delete i sk))"

definition sk_shift :: "'a stack option \<Rightarrow> 'a ptr \<times> 'a stack option" where
  "sk_shift sk = (case sk of
     None \<Rightarrow> (None, None) | Some s \<Rightarrow> if num s = 0 then (None, sk) else sk_delete 0 sk)"

definition sk_push :: "(nat \<Rightarrow> bool) \<Rightarrow> 'a ptr \<Rightarrow> 'a stack option \<Rightarrow> nat \<times> 'a stack option" where
  "sk_push realloc p sk = sk_insert realloc p (sk_num sk) sk"

definition sk_pop :: "'a stack option \<Rightarrow> 'a ptr \<times> 'a stack option" where
  "sk_pop sk = (case sk of
     None \<Rightarrow> (None, None) | Some s \<Rightarrow> if num s = 0 then (None, sk) else sk_delete (num s - 1) sk)"

section \<open>Searching and sorting\<close>

definition sk_is_sorted :: "'a stack option \<Rightarrow> bool" where
  "sk_is_sorted sk = (case sk of None \<Rightarrow> True | Some s \<Rightarrow> sorted_flag s)"

function bsearch :: "('a ptr \<Rightarrow> int) \<Rightarrow> 'a ptr list \<Rightarrow> nat \<Rightarrow> nat \<Rightarrow> nat option" where
  "bsearch r d lo hi =
    (if lo < hi then
       let mid = lo + (hi - lo - 1) div 2
       in if 0 < r (d ! mid) then bsearch r d (mid + 1) hi
          else if r (d ! mid) < 0 then bsearch r d lo mid
          else if hi - lo = 1 then Some mid
          else bsearch r d lo (mid + 1)
     else None)"
  by pat_completeness auto
termination
  by (relation "measure (\<lambda>(r, d, lo, hi). hi - lo)") auto

declare bsearch.simps [simp del]

definition sk_find :: "'a stack option \<Rightarrow> 'a ptr \<Rightarrow> nat option" where
  "sk_find sk p = (case sk of
     None \<Rightarrow> None
   | Some s \<Rightarrow>
      let d = take (num s) (sk_data s)
      in (case sk_comp s of
            None \<Rightarrow> index_from (\<lambda>q. q = p) 0 d
          | Some cmp \<Rightarrow>
              if p = None then None
              else if \<not> sk_is_sorted sk then index_from (\<lambda>q. cmp p q = 0) 0 d
              else bsearch (cmp p) d 0 (num s)))"

definition sk_sort :: "(('a ptr \<Rightarrow> 'a ptr \<Rightarrow> int) \<Rightarrow> 'a ptr list \<Rightarrow> 'a ptr list) \<Rightarrow>
    'a stack option \<Rightarrow> 'a stack option" where
  "sk_sort qsort sk = (case sk of
     None \<Rightarrow> None
   | Some s \<Rightarrow> (case sk_comp s of
       None \<Rightarrow> Some s
     | Some cmp \<Rightarrow>
        if sorted_flag s then Some s
        else Some (s\<lparr>sk_data := (if 2 \<le> num s
            then qsort cmp (take (num s) (sk_data s)) @ drop (num s) (sk_data s) else sk_data s),
          sorted_flag := True\<rparr>)))"

text \<open>
  Function pointers are compared in \<open>sk_set_cmp_func\<close>; \<open>same\<close> is the outcome of
  \<open>sk->comp == comp\<close>.
\<close>

definition sk_set_cmp_func :: "bool \<Rightarrow> ('a ptr \<Rightarrow> 'a ptr \<Rightarrow> int) option \<Rightarrow> 'a stack \<Rightarrow>
    ('a ptr \<Rightarrow> 'a ptr \<Rightarrow> int) option \<times> 'a stack" where
  "sk_set_cmp_func same cmp s =
    (sk_comp s, s\<lparr>sorted_flag := (if \<not> same then False else sorted_flag s), sk_comp := cmp\<rparr>)"

section \<open>Copies\<close>

definition sk_dup :: "(nat \<Rightarrow> bool) \<Rightarrow> (nat \<Rightarrow> bool) \<Rightarrow> 'a stack option \<Rightarrow> 'a stack option" where
  "sk_dup malloc realloc sk = (case sk of
     None \<Rightarrow> None
   | Some s \<Rightarrow> (case sk_new malloc (sk_comp s) of
       None \<Rightarrow> None
     | Some t \<Rightarrow> if \<not> realloc (size_mul 8 (num_alloc s)) then None
         else Some (t\<lparr>sk_data := take (num s) (sk_data s) @ replicate (num_alloc s - num s) None,
           num := num s, sorted_flag := sorted_flag s, num_alloc := num_alloc s, sk_comp := sk_comp s\<rparr>)))"

text \<open>
  \<open>copy\<close> answers with the copy or the null pointer and changes the caller's state; when
  it fails the copies made so far are freed.
\<close>

fun copy_loop :: "('a \<Rightarrow> 's \<Rightarrow> 'a ptr \<times> 's) \<Rightarrow> ('a \<Rightarrow> 's \<Rightarrow> 's) \<Rightarrow> 'a ptr list \<Rightarrow> 'a ptr list \<Rightarrow> 's \<Rightarrow>
    'a ptr list option \<times> 's" where
  "copy_loop copy free made [] st = (Some made, st)"
| "copy_loop copy free made (None # ps) st = copy_loop copy free (made @ [None]) ps st"
| "copy_loop copy free made (Some x # ps) st =
    (case copy x st of
       (None, st') \<Rightarrow> (None, fold (\<lambda>p. case p of None \<Rightarrow> id | Some y \<Rightarrow> free y) made st')
     | (Some y, st') \<Rightarrow> copy_loop copy free (made @ [Some y]) ps st')"

definition sk_deep_copy :: "(nat \<Rightarrow> bool) \<Rightarrow> (nat \<Rightarrow> bool) \<Rightarrow> ('a \<Rightarrow> 's \<Rightarrow> 'a ptr \<times> 's) \<Rightarrow>
    ('a \<Rightarrow> 's \<Rightarrow> 's) \<Rightarrow> 'a stack option \<Rightarrow> 's \<Rightarrow> 'a stack option \<times> 's" where
  "sk_deep_copy malloc realloc copy free sk st = (case sk_dup malloc realloc sk of
     None \<Rightarrow> (None, st)
   | Some t \<Rightarrow> (case copy_loop copy free [] (take (num t) (sk_data t)) st of
       (None, st') \<Rightarrow> (None, st')
     | (Some made, st') \<Rightarrow> (Some (t\<lparr>sk_data := made @ drop (num t) (sk_data t)\<rparr>), st')))"

section \<open>Refinement to lists\<close>

definition elems :: "'a stack \<Rightarrow> 'a ptr list" where
  "elems s = take (num s) (sk_data s)"

definition stack_ok :: "'a stack \<Rightarrow> bool" where
  "stack_ok s \<longleftrightarrow> length (sk_data s) = num_alloc s \<and> num s < num_alloc s \<and> num_alloc s < 2 ^ 60"

lemma length_elems [simp]: "stack_ok s \<Longrightarrow> length (elems s) = num s"
  by (simp add: stack_ok_def elems_def)

lemma new_ok: "sk_new malloc cmp = Some s \<Longrightarrow> stack_ok s \<and> elems s = [] \<and> sk_comp s = cmp"
  by (auto simp: sk_new_def stack_ok_def elems_def kMinSize_def split: if_splits)

lemma grown_alloc_small: "n < 2 ^ 60 \<Longrightarrow> grown_alloc n = Some (2 * n)"
  by (simp add: grown_alloc_def Let_def size_mul_def)

lemma put_at_elems:
  assumes "length (sk_data s) = num_alloc s" and "num s + 1 < num_alloc s"
  shows "elems (put_at pos p s) = take pos (elems s) @ p # drop pos (elems s)"
proof (cases "num s \<le> pos")
  case True
  then show ?thesis
    using assms by (simp add: put_at_def elems_def Let_def take_Suc_conv_app_nth take_update_swap list_update_append)
next
  case False
  have "(take (Suc pos) d @ ys)[pos := p] = take pos d @ p # ys" if "pos < length d" for d :: "'a ptr list" and ys
    using that by (simp add: take_Suc_conv_app_nth list_update_append)
  with False assms show ?thesis
    by (simp add: put_at_def elems_def Let_def drop_take Suc_diff_le)
qed

lemma insert_elems:
  assumes "stack_ok s" and "num_alloc s < 2 ^ 59"
  shows "sk_insert realloc p pos (Some s) =
      (if num_alloc s \<le> num s + 1 \<and> \<not> realloc (16 * num_alloc s) then (0, Some s)
       else (num s + 1, snd (sk_insert realloc p pos (Some s)))) \<and>
    (\<forall>n t. sk_insert realloc p pos (Some s) = (n, Some t) \<and> n \<noteq> 0 \<longrightarrow>
      stack_ok t \<and> elems t = take pos (elems s) @ p # drop pos (elems s) \<and> \<not> sorted_flag t \<and> sk_comp t = sk_comp s)"
proof -
  have len: "length (sk_data s) = num_alloc s" "num s < num_alloc s"
    using assms(1) by (simp_all add: stack_ok_def)
  then have add: "size_add (num s) 1 = num s + 1"
    using assms(2) by (intro size_add_small) simp
  have mul: "size_mul (2 * num_alloc s) 8 = 16 * num_alloc s"
    using assms(2) by (simp add: size_mul_def)
  define t where "t = (if num_alloc s \<le> num s + 1
    then s\<lparr>sk_data := sk_data s @ replicate (2 * num_alloc s - num_alloc s) None, num_alloc := 2 * num_alloc s\<rparr> else s)"
  have t: "length (sk_data t) = num_alloc t" "num t + 1 < num_alloc t" "num_alloc t < 2 ^ 60" "num t = num s"
    "elems t = elems s" "sk_comp t = sk_comp s"
    using len assms(2) by (auto simp: t_def elems_def)
  have p: "elems (put_at pos p t) = take pos (elems s) @ p # drop pos (elems s)"
    using put_at_elems [OF t(1,2)] t(5) by simp
  have ok: "stack_ok (put_at pos p t)"
    using t by (simp add: stack_ok_def put_at_def Let_def)
  have run: "sk_insert realloc p pos (Some s) =
      (if num_alloc s \<le> num s + 1 \<and> \<not> realloc (16 * num_alloc s) then (0, Some s)
       else (num s + 1, Some (put_at pos p t)))"
    using assms(2) grown_alloc_small [of "num_alloc s"] mul t(4)
    by (auto simp: sk_insert_def add [unfolded One_nat_def] sk_grow_def t_def)
  show ?thesis
    unfolding run using p ok t(6) by (auto simp: put_at_def Let_def)
qed

lemma delete_elems:
  assumes "stack_ok s" and "pos < num s"
  shows "\<exists>t. sk_delete pos (Some s) = (elems s ! pos, Some t) \<and> stack_ok t
    \<and> elems t = take pos (elems s) @ drop (Suc pos) (elems s)
    \<and> sorted_flag t = sorted_flag s \<and> sk_comp t = sk_comp s"
proof -
  define t where "t = the (snd (sk_delete pos (Some s)))"
  have len: "length (sk_data s) = num_alloc s" "num s < num_alloc s"
    using assms(1) by (simp_all add: stack_ok_def)
  have "sk_delete pos (Some s) = (elems s ! pos, Some t)"
    using assms(2) by (simp add: sk_delete_def t_def Let_def elems_def)
  moreover have "stack_ok t"
    using assms len by (auto simp: sk_delete_def t_def Let_def stack_ok_def)
  moreover have "elems t = take pos (elems s) @ drop (Suc pos) (elems s)"
  proof (cases "pos = num s - 1")
    case True
    then show ?thesis
      using assms(2) len by (simp add: sk_delete_def t_def Let_def elems_def)
  next
    case False
    then show ?thesis
      using assms(2) len by (simp add: sk_delete_def t_def Let_def elems_def drop_take)
  qed
  moreover have "sorted_flag t = sorted_flag s \<and> sk_comp t = sk_comp s"
    using assms(2) by (simp add: sk_delete_def t_def Let_def)
  ultimately show ?thesis by blast
qed

lemma index_from_iff:
  "index_from P i xs = Some k \<longleftrightarrow>
    i \<le> k \<and> k - i < length xs \<and> P (xs ! (k - i)) \<and> (\<forall>j < k - i. \<not> P (xs ! j))"
proof (induction xs arbitrary: i)
  case (Cons x xs)
  show ?case
  proof (cases "P x")
    case True
    then show ?thesis by (auto simp: nth_Cons')
  next
    case False
    show ?thesis
    proof (cases "i < k")
      case True
      then have "k - i = Suc (k - Suc i)" by simp
      with False Cons.IH [of "Suc i"] True show ?thesis
        by (simp add: All_less_Suc2)
    next
      case not: False
      with False Cons.IH [of "Suc i"] show ?thesis by auto
    qed
  qed
qed simp

lemma index_from_unique:
  assumes "case r of Some k \<Rightarrow> k < length xs \<and> P (xs ! k) \<and> (\<forall>i < k. \<not> P (xs ! i))
    | None \<Rightarrow> \<forall>i < length xs. \<not> P (xs ! i)"
  shows "index_from P 0 xs = r"
proof (cases r)
  case None
  then have "index_from P 0 xs \<noteq> Some k" for k
    using assms by (auto simp: index_from_iff)
  with None show ?thesis by (metis option.exhaust)
next
  case (Some k)
  then show ?thesis
    using assms by (simp add: index_from_iff)
qed

section \<open>Binary search\<close>

text \<open>\<open>descending r d\<close>: going through the array the sign of the comparison only falls.\<close>

definition descending :: "('a ptr \<Rightarrow> int) \<Rightarrow> 'a ptr list \<Rightarrow> bool" where
  "descending r d \<longleftrightarrow> (\<forall>i j. i < j \<longrightarrow> j < length d \<longrightarrow> sgn (r (d ! j)) \<le> sgn (r (d ! i)))"

lemma descendingD: "descending r d \<Longrightarrow> i \<le> j \<Longrightarrow> j < length d \<Longrightarrow> sgn (r (d ! j)) \<le> sgn (r (d ! i))"
  by (cases "i = j") (auto simp: descending_def)

lemma sgn_le_pos: "sgn a \<le> sgn b \<Longrightarrow> 0 < a \<Longrightarrow> 0 < (b :: int)"
  by (auto simp: sgn_if split: if_splits)

lemma sgn_le_neg: "sgn b \<le> sgn a \<Longrightarrow> a < 0 \<Longrightarrow> (b :: int) < 0"
  by (auto simp: sgn_if split: if_splits)

lemma bsearch_correct:
  assumes "descending r d" and "hi \<le> length d"
    and "\<forall>i < lo. 0 < r (d ! i)" and "\<forall>i. hi \<le> i \<longrightarrow> i < length d \<longrightarrow> r (d ! i) < 0 \<or> (lo < hi \<and> r (d ! (hi - 1)) = 0)"
  shows "case bsearch r d lo hi of
      Some k \<Rightarrow> k < length d \<and> r (d ! k) = 0 \<and> (\<forall>i < k. r (d ! i) \<noteq> 0)
    | None \<Rightarrow> \<forall>i < length d. r (d ! i) \<noteq> 0"
  using assms
proof (induction r d lo hi rule: bsearch.induct)
  case (1 r d lo hi)
  define mid where "mid = lo + (hi - lo - 1) div 2"
  show ?case
  proof (cases "lo < hi")
    case False
    then have "\<forall>i < length d. r (d ! i) \<noteq> 0"
      using 1(6,7) by (metis less_irrefl not_less order_trans)
    with False show ?thesis by (simp add: bsearch.simps)
  next
    case lt: True
    then have mid: "lo \<le> mid" "mid < hi" "mid < length d" and mid2: "mid + 1 < hi \<or> hi - lo = 1"
      using 1(5) by (auto simp: mid_def)
    have below: "0 < r (d ! mid) \<Longrightarrow> i \<le> mid \<Longrightarrow> 0 < r (d ! i)" for i
      using descendingD [OF 1(4), of i mid] mid(3) sgn_le_pos by blast
    have above: "r (d ! mid) < 0 \<Longrightarrow> mid \<le> i \<Longrightarrow> i < length d \<Longrightarrow> r (d ! i) < 0" for i
      using descendingD [OF 1(4), of mid i] sgn_le_neg by blast
    have step: "bsearch r d lo hi =
        (if 0 < r (d ! mid) then bsearch r d (mid + 1) hi
         else if r (d ! mid) < 0 then bsearch r d lo mid
         else if hi - lo = 1 then Some mid
         else bsearch r d lo (mid + 1))"
      using lt by (simp add: bsearch.simps [of r d lo hi] mid_def Let_def)
    consider "0 < r (d ! mid)" | "r (d ! mid) < 0" | "r (d ! mid) = 0" "hi - lo = 1"
      | "r (d ! mid) = 0" "hi - lo \<noteq> 1" by linarith
    then show ?thesis
    proof cases
      case pos: 1
      have new_hi: "\<forall>i. hi \<le> i \<longrightarrow> i < length d \<longrightarrow> r (d ! i) < 0 \<or> (mid + 1 < hi \<and> r (d ! (hi - 1)) = 0)"
      proof (intro allI impI)
        fix i assume i: "hi \<le> i" "i < length d"
        show "r (d ! i) < 0 \<or> (mid + 1 < hi \<and> r (d ! (hi - 1)) = 0)"
        proof (cases "r (d ! (hi - 1)) = 0")
          case True
          with pos have "mid \<noteq> hi - 1" by auto
          then have "mid + 1 < hi" using mid(2) by linarith
          with True show ?thesis by simp
        next
          case False
          with i 1(7) show ?thesis by blast
        qed
      qed
      have "\<forall>i < mid + 1. 0 < r (d ! i)"
        using below [OF pos] by simp
      with 1(1) [OF lt mid_def pos 1(4,5) _ new_hi] pos step show ?thesis by simp
    next
      case neg: 2
      have "\<forall>i. mid \<le> i \<longrightarrow> i < length d \<longrightarrow> r (d ! i) < 0 \<or> (lo < mid \<and> r (d ! (mid - 1)) = 0)"
        using above [OF neg] by blast
      with 1(2) [OF lt mid_def _ neg 1(4) _ 1(6)] neg step mid show ?thesis by simp
    next
      case 3
      then have "mid = lo" using mid by simp
      then have "\<forall>i < mid. r (d ! i) \<noteq> 0"
        using 1(6) by (metis less_irrefl)
      with 3 step mid show ?thesis by simp
    next
      case 4
      have "\<forall>i. mid + 1 \<le> i \<longrightarrow> i < length d \<longrightarrow> r (d ! i) < 0 \<or> (lo < mid + 1 \<and> r (d ! (mid + 1 - 1)) = 0)"
        using 4(1) mid(1) by simp
      with 1(3) [OF lt mid_def _ _ 4(2) 1(4) _ 1(6)] 4 step mid show ?thesis by simp
    qed
  qed
qed


section \<open>Sorted stacks\<close>

text \<open>
  What the code relies on: the comparison is a total preorder, and \<open>qsort\<close> of the C
  library permutes the array into an order that the comparison accepts.
\<close>

definition total_preorder :: "('a \<Rightarrow> 'a \<Rightarrow> int) \<Rightarrow> bool" where
  "total_preorder cmp \<longleftrightarrow> (\<forall>x y. sgn (cmp x y) = - sgn (cmp y x)) \<and>
     (\<forall>x y z. cmp x y \<le> 0 \<longrightarrow> cmp y z \<le> 0 \<longrightarrow> cmp x z \<le> 0)"

definition qsort_contract :: "(('a \<Rightarrow> 'a \<Rightarrow> int) \<Rightarrow> 'a list \<Rightarrow> 'a list) \<Rightarrow> bool" where
  "qsort_contract qsort \<longleftrightarrow> (\<forall>cmp xs. mset (qsort cmp xs) = mset xs \<and>
     (total_preorder cmp \<longrightarrow> sorted_wrt (\<lambda>x y. cmp x y \<le> 0) (qsort cmp xs)))"

text \<open>An insertion sort has this contract.\<close>

fun insert_by :: "('a \<Rightarrow> 'a \<Rightarrow> int) \<Rightarrow> 'a \<Rightarrow> 'a list \<Rightarrow> 'a list" where
  "insert_by cmp x [] = [x]"
| "insert_by cmp x (y # ys) = (if cmp x y \<le> 0 then x # y # ys else y # insert_by cmp x ys)"

definition isort :: "('a \<Rightarrow> 'a \<Rightarrow> int) \<Rightarrow> 'a list \<Rightarrow> 'a list" where
  "isort cmp xs = foldr (insert_by cmp) xs []"

lemma mset_insert_by [simp]: "mset (insert_by cmp x ys) = add_mset x (mset ys)"
  by (induction ys) auto

lemma set_insert_by [simp]: "set (insert_by cmp x ys) = insert x (set ys)"
  by (induction ys) auto

definition in_order :: "'a stack \<Rightarrow> bool" where
  "in_order s \<longleftrightarrow> (\<forall>cmp. sorted_flag s \<longrightarrow> sk_comp s = Some cmp \<longrightarrow>
     sorted_wrt (\<lambda>x y. cmp x y \<le> 0) (elems s))"

lemma preorder_swap: "total_preorder cmp \<Longrightarrow> cmp x y < 0 \<longleftrightarrow> 0 < cmp y x"
  unfolding total_preorder_def by (metis neg_less_0_iff_less sgn_greater sgn_less)

lemma preorder_trans: "total_preorder cmp \<Longrightarrow> cmp x y \<le> 0 \<Longrightarrow> cmp y z \<le> 0 \<Longrightarrow> cmp x z \<le> 0"
  unfolding total_preorder_def by blast

lemma preorder_trans_strict:
  assumes "total_preorder cmp" and "cmp x y < 0" and "cmp y z \<le> 0"
  shows "cmp x z < 0"
proof (rule ccontr)
  assume "\<not> cmp x z < 0"
  then have "cmp z x \<le> 0"
    using preorder_swap [OF assms(1), of x z] preorder_swap [OF assms(1), of z x] by linarith
  from preorder_trans [OF assms(1,3) this] have "cmp y x \<le> 0" .
  with assms(2) preorder_swap [OF assms(1), of x y] show False by simp
qed

lemma sorted_insert_by:
  assumes "total_preorder cmp" and "sorted_wrt (\<lambda>x y. cmp x y \<le> 0) ys"
  shows "sorted_wrt (\<lambda>x y. cmp x y \<le> 0) (insert_by cmp x ys)"
  using assms(2)
proof (induction ys)
  case (Cons y ys)
  show ?case
  proof (cases "cmp x y \<le> 0")
    case True
    with Cons.prems preorder_trans [OF assms(1) True] show ?thesis by auto
  next
    case False
    with preorder_swap [OF assms(1), of y x] have "cmp y x \<le> 0" by simp
    with False Cons show ?thesis by simp
  qed
qed simp

lemma isort_contract: "qsort_contract isort"
proof -
  have "mset (isort cmp xs) = mset xs" for cmp and xs :: "'a list"
    by (induction xs) (simp_all add: isort_def)
  moreover have "total_preorder cmp \<Longrightarrow> sorted_wrt (\<lambda>x y. cmp x y \<le> 0) (isort cmp xs)" for cmp and xs :: "'a list"
    by (induction xs) (simp_all add: isort_def sorted_insert_by)
  ultimately show ?thesis by (simp add: qsort_contract_def)
qed

lemma descending_sorted:
  assumes "total_preorder cmp" and "sorted_wrt (\<lambda>x y. cmp x y \<le> 0) d"
  shows "descending (cmp p) d"
  unfolding descending_def
proof (intro allI impI)
  fix i j assume "i < j" "j < length d"
  then have le: "cmp (d ! i) (d ! j) \<le> 0"
    using sorted_wrt_nth_less [OF assms(2)] by simp
  show "sgn (cmp p (d ! j)) \<le> sgn (cmp p (d ! i))"
    using preorder_trans [OF assms(1) _ le, of p] preorder_trans_strict [OF assms(1) _ le, of p]
    by (cases "cmp p (d ! i)" "0 :: int" rule: linorder_cases) (auto simp: sgn_if)
qed

lemma find_matches:
  assumes "stack_ok s" and "in_order s" and "sk_comp s = Some cmp" and "total_preorder cmp"
  shows "sk_find (Some s) (Some x) = index_from (\<lambda>q. cmp (Some x) q = 0) 0 (elems s)"
proof (cases "sorted_flag s")
  case False
  with assms(3) show ?thesis by (simp add: sk_find_def sk_is_sorted_def elems_def)
next
  case True
  have "descending (cmp (Some x)) (elems s)"
    using assms(2-4) True by (intro descending_sorted) (auto simp: in_order_def)
  then have "case bsearch (cmp (Some x)) (elems s) 0 (num s) of
      Some k \<Rightarrow> k < length (elems s) \<and> cmp (Some x) (elems s ! k) = 0 \<and> (\<forall>i < k. cmp (Some x) (elems s ! i) \<noteq> 0)
    | None \<Rightarrow> \<forall>i < length (elems s). cmp (Some x) (elems s ! i) \<noteq> 0"
    by (rule bsearch_correct) (use assms(1) in auto)
  moreover have "sk_find (Some s) (Some x) = bsearch (cmp (Some x)) (elems s) 0 (num s)"
    using assms(3) True by (simp add: sk_find_def sk_is_sorted_def elems_def)
  ultimately show ?thesis
    using index_from_unique [where r = "bsearch (cmp (Some x)) (elems s) 0 (num s)"
      and xs = "elems s" and P = "\<lambda>q. cmp (Some x) q = 0"] by simp
qed

lemma sort_ok:
  assumes "stack_ok s" and "in_order s" and "qsort_contract qsort"
    and "\<And>cmp. sk_comp s = Some cmp \<Longrightarrow> total_preorder cmp"
  shows "\<exists>t. sk_sort qsort (Some s) = Some t \<and> stack_ok t \<and> in_order t \<and> sk_comp t = sk_comp s \<and>
    mset (elems t) = mset (elems s) \<and> (sk_comp s \<noteq> None \<longrightarrow> sorted_flag t)"
proof (cases "sk_comp s")
  case None
  with assms show ?thesis by (simp add: sk_sort_def)
next
  case (Some cmp)
  have q: "mset (qsort cmp xs) = mset xs" "sorted_wrt (\<lambda>x y. cmp x y \<le> 0) (qsort cmp xs)" for xs
    using assms(3) assms(4) [OF Some] by (simp_all add: qsort_contract_def)
  then have l: "length (qsort cmp xs) = length xs" for xs
    by (metis size_mset)
  have len: "length (take (num s) (sk_data s)) = num s" "num s \<le> length (sk_data s)"
    using assms(1) by (simp_all add: stack_ok_def)
  have short: "sorted_wrt (\<lambda>x y. cmp x y \<le> 0) ys" if "\<not> 2 \<le> num s" "length ys \<le> num s" for ys
    using that by (cases ys; cases "tl ys") auto
  show ?thesis
    using Some assms(1,2) q l len short
    by (cases "sorted_flag s")
      (auto simp: sk_sort_def stack_ok_def elems_def in_order_def)
qed

text \<open>Replacing an element keeps the flag, so that it may be set on an unordered array.\<close>

lemma set_ok:
  assumes "stack_ok s" and "i < num s"
  shows "\<exists>t. sk_set i v (Some s) = (v, Some t) \<and> stack_ok t \<and> elems t = (elems s)[i := v]
    \<and> sorted_flag t = sorted_flag s \<and> sk_comp t = sk_comp s"
  using assms by (auto simp: sk_set_def stack_ok_def elems_def take_update_swap)

definition nat_cmp :: "nat ptr \<Rightarrow> nat ptr \<Rightarrow> int" where
  "nat_cmp p q = int (case p of None \<Rightarrow> 0 | Some n \<Rightarrow> n) - int (case q of None \<Rightarrow> 0 | Some n \<Rightarrow> n)"

lemma nat_cmp_preorder: "total_preorder nat_cmp"
  by (auto simp: total_preorder_def nat_cmp_def sgn_if)

end
