(* ===== verification/Consttime.thy ===== *)
theory Consttime
  imports Prelude
begin

text \<open>
  The branch-free comparisons and selections of \<open>internal.h\<close>, on which code that handles
  secrets rests, and \<open>CRYPTO_memcmp\<close> of \<open>mem.c\<close>.  A truth value is a word of ones or of
  zeros.  The lemmas replace each by the conditional that it computes, so that clients can
  be read as ordinary code.
\<close>

section \<open>The operations\<close>

type_synonym crypto_word = u64

definition constant_time_msb_w :: "crypto_word \<Rightarrow> crypto_word" where
  "constant_time_msb_w a = 0 - drop_bit 63 a"

definition constant_time_lt_w :: "crypto_word \<Rightarrow> crypto_word \<Rightarrow> crypto_word" where
  "constant_time_lt_w a b = constant_time_msb_w (a XOR ((a XOR b) OR ((a - b) XOR a)))"

definition constant_time_lt_8 :: "crypto_word \<Rightarrow> crypto_word \<Rightarrow> byte" where
  "constant_time_lt_8 a b = ucast (constant_time_lt_w a b)"

definition constant_time_ge_w :: "crypto_word \<Rightarrow> crypto_word \<Rightarrow> crypto_word" where
  "constant_time_ge_w a b = NOT (constant_time_lt_w a b)"

definition constant_time_ge_8 :: "crypto_word \<Rightarrow> crypto_word \<Rightarrow> byte" where
  "constant_time_ge_8 a b = ucast (constant_time_ge_w a b)"

definition constant_time_is_zero_w :: "crypto_word \<Rightarrow> crypto_word" where
  "constant_time_is_zero_w a = constant_time_msb_w (NOT a AND (a - 1))"

definition constant_time_is_zero_8 :: "crypto_word \<Rightarrow> byte" where
  "constant_time_is_zero_8 a = ucast (constant_time_is_zero_w a)"

definition constant_time_eq_w :: "crypto_word \<Rightarrow> crypto_word \<Rightarrow> crypto_word" where
  "constant_time_eq_w a b = constant_time_is_zero_w (a XOR b)"

definition constant_time_eq_8 :: "crypto_word \<Rightarrow> crypto_word \<Rightarrow> byte" where
  "constant_time_eq_8 a b = ucast (constant_time_eq_w a b)"

text \<open>An \<open>int\<close> is a 32-bit word; its conversion to \<open>crypto_word_t\<close> extends the sign.\<close>

definition constant_time_eq_int :: "u32 \<Rightarrow> u32 \<Rightarrow> crypto_word" where
  "constant_time_eq_int a b = constant_time_eq_w (scast a) (scast b)"

definition constant_time_eq_int_8 :: "u32 \<Rightarrow> u32 \<Rightarrow> byte" where
  "constant_time_eq_int_8 a b = constant_time_eq_8 (scast a) (scast b)"

definition constant_time_select_w :: "crypto_word \<Rightarrow> crypto_word \<Rightarrow> crypto_word \<Rightarrow> crypto_word" where
  "constant_time_select_w m a b = (m AND a) OR (NOT m AND b)"

definition constant_time_select_8 :: "byte \<Rightarrow> byte \<Rightarrow> byte \<Rightarrow> byte" where
  "constant_time_select_8 m a b = ucast (constant_time_select_w (ucast m) (ucast a) (ucast b))"

definition constant_time_select_int :: "crypto_word \<Rightarrow> u32 \<Rightarrow> u32 \<Rightarrow> u32" where
  "constant_time_select_int m a b = ucast (constant_time_select_w m (scast a) (scast b))"

fun memcmp_loop :: "byte \<Rightarrow> byte list \<Rightarrow> byte list \<Rightarrow> byte" where
  "memcmp_loop x (a # as) (b # bs) = memcmp_loop (x OR (a XOR b)) as bs"
| "memcmp_loop x _ _ = x"

definition CRYPTO_memcmp :: "byte list \<Rightarrow> byte list \<Rightarrow> int" where
  "CRYPTO_memcmp a b = uint (memcmp_loop 0 a b)"

section \<open>What they compute\<close>

text \<open>\<open>mask\<close> is the truth value of a condition.\<close>

definition mask_of :: "bool \<Rightarrow> 'a::len word" where
  "mask_of b = (if b then - 1 else 0)"

named_theorems consttime \<open>constant-time operations as conditionals\<close>

lemma bit_63_iff: "bit (a :: u64) 63 \<longleftrightarrow> 2 ^ 63 \<le> unat a"
proof -
  have "unat a div 2 ^ 63 < 2"
    using unsigned_less [of a] by (intro less_mult_imp_div_less) simp
  then have "odd (unat a div 2 ^ 63) \<longleftrightarrow> unat a div 2 ^ 63 \<noteq> 0"
    by (cases "unat a div 2 ^ 63") auto
  also have "\<dots> \<longleftrightarrow> 2 ^ 63 \<le> unat a"
    by (simp add: div_eq_0_iff not_less)
  finally have "bit (unat a) 63 \<longleftrightarrow> 2 ^ 63 \<le> unat a"
    by (simp add: bit_iff_odd)
  then show ?thesis
    by (simp add: bit_unsigned_iff)
qed

lemma msb_w [consttime]: "constant_time_msb_w a = mask_of (bit a 63)"
proof -
  have "drop_bit 63 a = of_bool (bit a 63)"
  proof (rule bit_word_eqI)
    fix n assume "n < LENGTH(64)"
    then show "bit (drop_bit 63 a) n = bit (of_bool (bit a 63) :: u64) n"
      by (cases n) (auto simp: bit_simps dest: bit_imp_le_length)
  qed
  then show ?thesis
    by (simp add: constant_time_msb_w_def mask_of_def)
qed

lemma lt_sign:
  assumes "bit (a :: u64) 63 = bit b 63"
  shows "bit (a - b) 63 \<longleftrightarrow> a < b"
proof (cases "a < b")
  case True
  then have "unat a < unat b" by (simp add: word_less_nat_alt)
  moreover from this have "unat (a - b) = 2 ^ 64 + unat a - unat b"
    by (simp add: unat_sub_if_size word_size)
  ultimately show ?thesis
    using True assms unsigned_less [of b, where 'a = nat] by (simp add: bit_63_iff) linarith
next
  case False
  then have "unat b \<le> unat a" by (simp add: word_less_nat_alt)
  moreover from this have "unat (a - b) = unat a - unat b"
    by (simp add: unat_sub_if_size)
  ultimately show ?thesis
    using False assms unsigned_less [of a, where 'a = nat] by (simp add: bit_63_iff) linarith
qed

lemma lt_w [consttime]: "constant_time_lt_w a b = mask_of (a < b)"
proof (cases "bit a 63 = bit b 63")
  case True
  with lt_sign [OF True] show ?thesis
    by (auto simp: constant_time_lt_w_def msb_w bit_simps)
next
  case False
  then have "a < b \<longleftrightarrow> bit b 63"
    by (auto simp: bit_63_iff word_less_nat_alt)
  with False show ?thesis
    by (auto simp: constant_time_lt_w_def msb_w bit_simps)
qed

lemma ge_w [consttime]: "constant_time_ge_w a b = mask_of (b \<le> a)"
  by (auto simp: constant_time_ge_w_def lt_w mask_of_def not_less)

lemma is_zero_w [consttime]: "constant_time_is_zero_w a = mask_of (a = 0)"
proof (cases "a = 0")
  case False
  then have "unat (a - 1) = unat a - 1" "0 < unat a"
    by (simp_all add: unat_minus_one unat_gt_0)
  then have "bit (a - 1) 63 \<Longrightarrow> bit a 63"
    by (simp add: bit_63_iff)
  then have "\<not> bit (NOT a AND (a - 1)) 63"
    by (auto simp: bit_simps)
  with False show ?thesis
    by (simp add: constant_time_is_zero_w_def msb_w)
qed (simp add: constant_time_is_zero_w_def msb_w bit_simps)

lemma xor_eq_0_iff: "a XOR b = 0 \<longleftrightarrow> a = (b :: 'a::len word)"
proof
  assume "a XOR b = 0"
  then have "(a XOR b) XOR b = b" by simp
  then show "a = b" by (simp add: xor.assoc)
qed simp

lemma eq_w [consttime]: "constant_time_eq_w a b = mask_of (a = b)"
  by (simp add: constant_time_eq_w_def is_zero_w xor_eq_0_iff)

lemma ucast_mask_of [consttime]: "ucast (mask_of b :: u64) = (mask_of b :: byte)"
  by (rule bit_word_eqI) (simp add: mask_of_def bit_simps)

lemma masks_8 [consttime]:
  "constant_time_lt_8 a b = mask_of (a < b)" "constant_time_ge_8 a b = mask_of (b \<le> a)"
  "constant_time_is_zero_8 a = mask_of (a = 0)" "constant_time_eq_8 a b = mask_of (a = b)"
  by (simp_all add: constant_time_lt_8_def constant_time_ge_8_def constant_time_is_zero_8_def
      constant_time_eq_8_def consttime)

lemma select_w [consttime]: "constant_time_select_w (mask_of c) a b = (if c then a else b)"
  by (simp add: constant_time_select_w_def mask_of_def)

lemma select_8 [consttime]: "constant_time_select_8 (mask_of c) a b = (if c then a else b)"
proof -
  have "ucast ((ucast (mask_of c :: byte) AND ucast a) OR (NOT (ucast (mask_of c :: byte)) AND ucast b) :: u64)
      = (if c then a else b)"
    by (rule bit_word_eqI) (auto simp: mask_of_def bit_simps dest: bit_imp_le_length)
  then show ?thesis
    by (simp add: constant_time_select_8_def constant_time_select_w_def)
qed

lemma ucast_scast [simp]: "ucast (scast a :: u64) = (a :: u32)"
  by (rule bit_word_eqI) (auto simp: bit_simps)

lemma scast_inject: "(scast (a :: u32) :: u64) = scast b \<longleftrightarrow> a = b"
  by (metis ucast_scast)

lemma ints [consttime]:
  "constant_time_eq_int a b = mask_of (a = b)" "constant_time_eq_int_8 a b = mask_of (a = b)"
  "constant_time_select_int (mask_of c) a b = (if c then a else b)"
  by (simp_all add: constant_time_eq_int_def constant_time_eq_int_8_def constant_time_select_int_def
      consttime scast_inject)

lemma memcmp_loop_0_iff:
  "length as = length bs \<Longrightarrow> memcmp_loop x as bs = 0 \<longleftrightarrow> x = 0 \<and> as = bs"
proof (induction as bs arbitrary: x rule: list_induct2)
  case (Cons a as b bs)
  have "x OR (a XOR b) = 0 \<longleftrightarrow> x = 0 \<and> a = b"
    by (simp only: or_eq_0_iff xor_eq_0_iff)
  with Cons.IH [of "x OR (a XOR b)"] show ?case by auto
qed simp

lemma CRYPTO_memcmp_0_iff: "length as = length bs \<Longrightarrow> CRYPTO_memcmp as bs = 0 \<longleftrightarrow> as = bs"
  by (simp add: CRYPTO_memcmp_def memcmp_loop_0_iff uint_0_iff)

end
