(* ===== verification/Base64.thy ===== *)
theory Base64
  imports Consttime
begin

text \<open>
  Base64 (\<open>base64/base64.c\<close>): the alphabet by branch-free selections, blocks, and the two
  streaming contexts, which buffer what does not fill a line or a quad.  The lemmas show that
  decoding inverts encoding and that streams do not depend on how the input is cut.
\<close>

section \<open>The alphabet\<close>

definition constant_time_lt_args_8 :: "byte \<Rightarrow> byte \<Rightarrow> byte" where
  "constant_time_lt_args_8 a b =
    (let aw = ucast a :: crypto_word; bw = ucast b in ucast (constant_time_msb_w (aw - bw)))"

definition constant_time_in_range_8 :: "byte \<Rightarrow> byte \<Rightarrow> byte \<Rightarrow> byte" where
  "constant_time_in_range_8 a lo hi =
    (let a = a - lo in constant_time_lt_args_8 a (hi - lo + 1))"

definition conv_bin2ascii :: "byte \<Rightarrow> byte" where
  "conv_bin2ascii a =
    (let a = a AND 0x3f;
         ret = constant_time_select_8 (constant_time_eq_8 (ucast a) 62) 43 47;
         ret = constant_time_select_8 (constant_time_lt_args_8 a 62) (a - 52 + 48) ret;
         ret = constant_time_select_8 (constant_time_lt_args_8 a 52) (a - 26 + 97) ret
     in constant_time_select_8 (constant_time_lt_args_8 a 26) (a + 65) ret)"

definition base64_ascii_to_bin :: "byte \<Rightarrow> byte" where
  "base64_ascii_to_bin a =
    (let is_upper = constant_time_in_range_8 a 65 90;
         is_lower = constant_time_in_range_8 a 97 122;
         is_digit = constant_time_in_range_8 a 48 57;
         is_plus = constant_time_eq_8 (ucast a) 43;
         is_slash = constant_time_eq_8 (ucast a) 47;
         is_equals = constant_time_eq_8 (ucast a) 61;
         ret = 0xff;
         ret = constant_time_select_8 is_upper (a - 65) ret;
         ret = constant_time_select_8 is_lower (a - 97 + 26) ret;
         ret = constant_time_select_8 is_digit (a - 48 + 52) ret;
         ret = constant_time_select_8 is_plus 62 ret;
         ret = constant_time_select_8 is_slash 63 ret
     in constant_time_select_8 is_equals 0 ret)"

section \<open>Encoding\<close>

definition EVP_EncodedLength :: "nat \<Rightarrow> nat option" where
  "EVP_EncodedLength len =
    (if size_add len 2 < len then None
     else let len = size_add len 2 div 3
       in if size_mul len 4 div 4 \<noteq> len then None
          else let len = size_mul len 4
            in if size_add len 1 < len then None else Some (size_add len 1))"

text \<open>The characters that \<open>EVP_EncodeBlock\<close> writes before the terminating zero.\<close>

fun EVP_EncodeBlock :: "byte list \<Rightarrow> byte list" where
  "EVP_EncodeBlock [] = []"
| "EVP_EncodeBlock [a] =
    (let l = push_bit 16 (ucast a) :: u32
     in [conv_bin2ascii (ucast (drop_bit 18 l)), conv_bin2ascii (ucast (drop_bit 12 l)), 61, 61])"
| "EVP_EncodeBlock [a, b] =
    (let l = push_bit 16 (ucast a) OR push_bit 8 (ucast b) :: u32
     in [conv_bin2ascii (ucast (drop_bit 18 l)), conv_bin2ascii (ucast (drop_bit 12 l)),
         conv_bin2ascii (ucast (drop_bit 6 l)), 61])"
| "EVP_EncodeBlock (a # b # c # rest) =
    (let l = push_bit 16 (ucast a) OR push_bit 8 (ucast b) OR ucast c :: u32
     in [conv_bin2ascii (ucast (drop_bit 18 l)), conv_bin2ascii (ucast (drop_bit 12 l)),
         conv_bin2ascii (ucast (drop_bit 6 l)), conv_bin2ascii (ucast l)] @ EVP_EncodeBlock rest)"

text \<open>
  The context holds the \<open>data_used\<close> bytes of \<open>data\<close>, at most \<open>48\<close>.  The results of
  the streaming functions are what they write to \<open>out\<close> before the terminating zero,
  \<open>*out_len\<close>, and the context.
\<close>

record encode_ctx =
  ctx_data :: "byte list"
  eof_seen :: bool
  error_encountered :: bool

definition INT_MAX :: nat where "INT_MAX = 2 ^ 31 - 1"

definition EVP_EncodeInit :: encode_ctx where
  "EVP_EncodeInit = \<lparr>ctx_data = [], eof_seen = False, error_encountered = False\<rparr>"

text \<open>
  The loop over whole lines: it returns what it wrote, the rest of the input and the new \<open>total\<close>,
  or \<open>None\<close> for the last where the sum would wrap.
\<close>

fun encode_lines :: "nat \<Rightarrow> byte list \<Rightarrow> byte list \<times> byte list \<times> nat option" where
  "encode_lines sofar inp =
    (if 48 \<le> length inp then
       let line = EVP_EncodeBlock (take 48 inp) @ [10]
       in if size_add sofar (length line) < sofar then (line, drop 48 inp, None)
          else (case encode_lines (size_add sofar (length line)) (drop 48 inp) of
            (out, rest) \<Rightarrow> (line @ out, rest))
     else ([], inp, Some sofar))"

declare encode_lines.simps [simp del]

definition EVP_EncodeUpdate :: "byte list \<Rightarrow> encode_ctx \<Rightarrow> byte list \<times> nat \<times> encode_ctx" where
  "EVP_EncodeUpdate inp ctx =
    (if inp = [] then ([], 0, ctx)
     else if length inp < 48 - length (ctx_data ctx) then ([], 0, ctx\<lparr>ctx_data := ctx_data ctx @ inp\<rparr>)
     else
       let todo = 48 - length (ctx_data ctx);
           (first, inp) = (if ctx_data ctx \<noteq> []
              then (EVP_EncodeBlock (ctx_data ctx @ take todo inp) @ [10], drop todo inp)
              else ([], inp));
           ctx = ctx\<lparr>ctx_data := []\<rparr>
       in case encode_lines (length first) inp of
            (out, rest, None) \<Rightarrow> (first @ out, 0, ctx)
          | (out, rest, Some n) \<Rightarrow>
              (first @ out, if INT_MAX < n then 0 else n, ctx\<lparr>ctx_data := rest\<rparr>))"

definition EVP_EncodeFinal :: "encode_ctx \<Rightarrow> byte list \<times> nat \<times> encode_ctx" where
  "EVP_EncodeFinal ctx =
    (if ctx_data ctx = [] then ([], 0, ctx)
     else let out = EVP_EncodeBlock (ctx_data ctx) @ [10]
       in (out, length out, ctx\<lparr>ctx_data := []\<rparr>))"

section \<open>Decoding\<close>

definition EVP_DecodedLength :: "nat \<Rightarrow> nat option" where
  "EVP_DecodedLength len = (if len mod 4 \<noteq> 0 then None else Some (len div 4 * 3))"

definition EVP_DecodeInit :: encode_ctx where
  "EVP_DecodeInit = \<lparr>ctx_data = [], eof_seen = False, error_encountered = False\<rparr>"

definition base64_decode_quad :: "byte \<Rightarrow> byte \<Rightarrow> byte \<Rightarrow> byte \<Rightarrow> byte list option" where
  "base64_decode_quad in0 in1 in2 in3 =
    (let a = base64_ascii_to_bin in0; b = base64_ascii_to_bin in1;
         c = base64_ascii_to_bin in2; d = base64_ascii_to_bin in3
     in if a = 0xff \<or> b = 0xff \<or> c = 0xff \<or> d = 0xff then None
        else
          let v = push_bit 18 (ucast a) OR push_bit 12 (ucast b) OR push_bit 6 (ucast c) OR ucast d :: u32;
              padding_pattern = push_bit 3 (of_bool (in0 = 61)) OR push_bit 2 (of_bool (in1 = 61))
                OR push_bit 1 (of_bool (in2 = 61)) OR of_bool (in3 = 61) :: u32
          in if padding_pattern = 0 then
               Some [ucast (drop_bit 16 v), ucast (drop_bit 8 v), ucast v]
             else if padding_pattern = 1 then Some [ucast (drop_bit 16 v), ucast (drop_bit 8 v)]
             else if padding_pattern = 3 then Some [ucast (drop_bit 16 v)]
             else None)"

definition is_space :: "byte \<Rightarrow> bool" where
  "is_space c \<longleftrightarrow> c = 32 \<or> c = 9 \<or> c = 13 \<or> c = 10"

text \<open>
  The loop of \<open>EVP_DecodeUpdate\<close>: \<open>None\<close> is the return value -1.  The bytes written by
  then stay in \<open>out\<close>.
\<close>

fun decode_loop :: "byte list \<Rightarrow> encode_ctx \<Rightarrow> byte list \<times> unit option \<times> encode_ctx" where
  "decode_loop [] ctx = ([], Some (), ctx)"
| "decode_loop (c # inp) ctx =
    (if is_space c then decode_loop inp ctx
     else if eof_seen ctx then ([], None, ctx\<lparr>error_encountered := True\<rparr>)
     else
       let ctx = ctx\<lparr>ctx_data := ctx_data ctx @ [c]\<rparr>
       in case ctx_data ctx of
            [c0, c1, c2, c3] \<Rightarrow>
              (case base64_decode_quad c0 c1 c2 c3 of
                 None \<Rightarrow> ([], None, ctx\<lparr>error_encountered := True\<rparr>)
               | Some bytes \<Rightarrow>
                  (case decode_loop inp (ctx\<lparr>ctx_data := [], eof_seen := length bytes < 3\<rparr>) of
                     (out, r) \<Rightarrow> (bytes @ out, r)))
          | _ \<Rightarrow> decode_loop inp ctx)"

text \<open>The results are the return value, \<open>out\<close>, \<open>*out_len\<close> and the context.\<close>

definition EVP_DecodeUpdate :: "byte list \<Rightarrow> encode_ctx \<Rightarrow> int \<times> byte list \<times> nat \<times> encode_ctx" where
  "EVP_DecodeUpdate inp ctx =
    (if error_encountered ctx then (- 1, [], 0, ctx)
     else case decode_loop inp ctx of
       (out, None, ctx) \<Rightarrow> (- 1, out, 0, ctx)
     | (out, Some _, ctx) \<Rightarrow>
         if INT_MAX < length out then (- 1, out, 0, ctx\<lparr>error_encountered := True\<rparr>)
         else (if eof_seen ctx then 0 else 1, out, length out, ctx))"

definition EVP_DecodeFinal :: "encode_ctx \<Rightarrow> int" where
  "EVP_DecodeFinal ctx = (if error_encountered ctx \<or> ctx_data ctx \<noteq> [] then - 1 else 1)"

text \<open>\<open>i != in_len - 4\<close> holds while quads remain.\<close>

fun decode_quads :: "byte list \<Rightarrow> byte list option" where
  "decode_quads (c0 # c1 # c2 # c3 # rest) =
    (case base64_decode_quad c0 c1 c2 c3 of
       None \<Rightarrow> None
     | Some bytes \<Rightarrow>
        if length bytes \<noteq> 3 \<and> rest \<noteq> [] then None
        else map_option (\<lambda>out. bytes @ out) (decode_quads rest))"
| "decode_quads _ = Some []"

definition EVP_DecodeBase64 :: "nat \<Rightarrow> byte list \<Rightarrow> byte list option" where
  "EVP_DecodeBase64 max_out inp =
    (if length inp mod 4 \<noteq> 0 then None
     else case EVP_DecodedLength (length inp) of
       None \<Rightarrow> None
     | Some max_len \<Rightarrow> if max_out < max_len then None else decode_quads inp)"

text \<open>\<open>None\<close> is the return value -1; otherwise the bytes written, zeros of the padding included.\<close>

definition EVP_DecodeBlock :: "byte list \<Rightarrow> byte list option" where
  "EVP_DecodeBlock src =
    (let src = dropWhile (\<lambda>c. c = 32 \<or> c = 9) src;
         src = rev (dropWhile is_space (rev src))
     in case EVP_DecodedLength (length src) of
          None \<Rightarrow> None
        | Some dst_len \<Rightarrow>
            if INT_MAX < dst_len then None
            else (case EVP_DecodeBase64 dst_len src of
               None \<Rightarrow> None
             | Some dst \<Rightarrow> Some (dst @ replicate ((3 - length dst mod 3) mod 3) 0)))"

section \<open>The alphabet in plain terms\<close>

lemma unat_ucast_byte: "unat (ucast (a :: byte) :: u64) = unat a"
  by (simp add: unsigned_ucast_eq take_bit_nat_eq_self order_less_le_trans [OF unat_byte_less])

lemma lt_args_8 [consttime]: "constant_time_lt_args_8 a b = mask_of (a < b)"
proof -
  have "\<not> bit (ucast a :: u64) 63" "\<not> bit (ucast b :: u64) 63"
    by (auto simp: bit_simps dest: bit_imp_le_length)
  then have "bit (ucast a - ucast b :: u64) 63 \<longleftrightarrow> (ucast a :: u64) < ucast b"
    by (intro lt_sign) simp
  also have "\<dots> \<longleftrightarrow> a < b"
    by (simp add: word_less_nat_alt unat_ucast_byte)
  finally show ?thesis
    by (simp add: constant_time_lt_args_8_def consttime)
qed

lemma in_range_8 [consttime]:
  assumes "lo \<le> hi" and "unat hi < unat lo + 255"
  shows "constant_time_in_range_8 a lo hi = mask_of (lo \<le> a \<and> a \<le> hi)"
proof -
  have "unat (hi - lo + 1) = unat hi - unat lo + 1"
    using assms unat_byte_less [of hi]
    by (simp add: unat_word_ariths unat_sub_if_size word_le_nat_alt)
  then have "a - lo < hi - lo + 1 \<longleftrightarrow> lo \<le> a \<and> a \<le> hi"
    using assms unat_byte_less [of a] unat_byte_less [of lo]  unat_byte_less [of hi]
    by (auto simp: word_less_nat_alt word_le_nat_alt unat_sub_if_size word_size)
  then show ?thesis
    by (simp add: constant_time_in_range_8_def consttime)
qed

lemma ucast_eq_numeral [consttime]: "(ucast (a :: byte) :: u64) = 61 \<longleftrightarrow> a = 61"
  "(ucast a :: u64) = 43 \<longleftrightarrow> a = 43" "(ucast a :: u64) = 47 \<longleftrightarrow> a = 47" "(ucast a :: u64) = 62 \<longleftrightarrow> a = 62"
  by (simp_all only: word_unat_eq_iff unat_ucast_byte) simp_all

lemma conv_bin2ascii_if: "conv_bin2ascii a =
    (let a = a AND 0x3f
     in if a < 26 then a + 65 else if a < 52 then a + 71 else if a < 62 then a - 4
        else if a = 62 then 43 else 47)"
  by (simp add: conv_bin2ascii_def Let_def consttime)

lemma base64_ascii_to_bin_if: "base64_ascii_to_bin a =
    (if a = 61 then 0 else if a = 47 then 63 else if a = 43 then 62
     else if 48 \<le> a \<and> a \<le> 57 then a + 4 else if 97 \<le> a \<and> a \<le> 122 then a - 71
     else if 65 \<le> a \<and> a \<le> 90 then a - 65 else 0xff)"
  by (simp add: base64_ascii_to_bin_def Let_def consttime)

lemma and_sextet: "(a :: byte) AND 0x3f = take_bit 6 a"
  by (simp add: take_bit_eq_mask mask_eq_exp_minus_1)

lemma all_sextets: "(\<forall>a. P (a AND 0x3f :: byte)) \<longleftrightarrow> list_all (\<lambda>n. P (word_of_nat n)) [0..<64]"
proof
  assume "\<forall>a. P (a AND 0x3f)"
  then have "P (word_of_nat n AND 0x3f)" for n by blast
  moreover have "(word_of_nat n :: byte) AND 0x3f = word_of_nat n" if "n < 64" for n
    using that unfolding and_sextet by (simp add: take_bit_of_nat take_bit_nat_eq_self)
  ultimately show "list_all (\<lambda>n. P (word_of_nat n)) [0..<64]"
    unfolding list_all_iff by (metis atLeastLessThan_iff set_upt)
next
  assume "list_all (\<lambda>n. P (word_of_nat n)) [0..<64]"
  moreover have "\<exists>n < 64. a AND 0x3f = word_of_nat n" for a :: byte
  proof (intro exI conjI)
    have "take_bit 6 (unat a) < 2 ^ 6" by (rule take_bit_nat_less_exp)
    then show "unat (a AND 0x3f) < 64"
      unfolding and_sextet by (simp add: unsigned_take_bit_eq)
  qed simp
  ultimately show "\<forall>a. P (a AND 0x3f)"
    unfolding list_all_iff by (metis atLeastLessThan_iff set_upt zero_le)
qed

lemma conv_inverse_table:
  "list_all (\<lambda>n. base64_ascii_to_bin (conv_bin2ascii (word_of_nat n)) = word_of_nat n \<and>
     conv_bin2ascii (word_of_nat n) \<noteq> 61) [0..<64]"
  by (simp add: upt_rec conv_bin2ascii_if base64_ascii_to_bin_if)

lemma conv_and [simp]: "conv_bin2ascii (a AND 0x3f) = conv_bin2ascii a"
  by (simp add: conv_bin2ascii_if Let_def and.assoc)

lemma ascii_to_bin_conv [simp]:
  "base64_ascii_to_bin (conv_bin2ascii a) = take_bit 6 a" "conv_bin2ascii a \<noteq> 61"
proof -
  have "\<forall>a. base64_ascii_to_bin (conv_bin2ascii (a AND 0x3f)) = a AND 0x3f \<and> conv_bin2ascii (a AND 0x3f) \<noteq> 61"
    using conv_inverse_table
    by (subst all_sextets [where P = "\<lambda>a. base64_ascii_to_bin (conv_bin2ascii a) = a \<and> conv_bin2ascii a \<noteq> 61"])
  then show "base64_ascii_to_bin (conv_bin2ascii a) = take_bit 6 a" "conv_bin2ascii a \<noteq> 61"
    by (simp_all flip: and_sextet)
qed

lemma sextet_valid [simp]: "take_bit 6 a \<noteq> (0xff :: byte)"
proof
  assume "take_bit 6 a = (0xff :: byte)"
  then have "bit (take_bit 6 a) 7 = bit (0xff :: byte) 7" by simp
  then show False by (simp add: bit_simps)
qed

lemma equals_to_bin [simp]: "base64_ascii_to_bin 61 = 0"
  by (simp add: base64_ascii_to_bin_if)

text \<open>Four sextets put together are the 24-bit number they were cut from.\<close>

lemma ucast_sextet: "(ucast (take_bit 6 (ucast (x :: u32) :: byte)) :: u32) = take_bit 6 x"
  by (rule bit_word_eqI) (auto simp: bit_simps)

lemma sextets_join:
  assumes "take_bit 24 l = (l :: u32)"
  shows "push_bit 18 (take_bit 6 (drop_bit 18 l)) OR push_bit 12 (take_bit 6 (drop_bit 12 l))
    OR push_bit 6 (take_bit 6 (drop_bit 6 l)) OR take_bit 6 l = l"
proof (rule bit_word_eqI)
  fix n assume n: "n < LENGTH(32)"
  have "bit l n \<Longrightarrow> n < 24"
    using assms by (metis bit_take_bit_iff)
  then show "bit (push_bit 18 (take_bit 6 (drop_bit 18 l)) OR push_bit 12 (take_bit 6 (drop_bit 12 l))
    OR push_bit 6 (take_bit 6 (drop_bit 6 l)) OR take_bit 6 l) n = bit l n"
    using n by (cases "18 \<le> n"; cases "12 \<le> n"; cases "6 \<le> n")
      (auto simp: bit_or_iff bit_push_bit_iff bit_take_bit_iff bit_drop_bit_eq)
qed

lemma octets_split:
  "take_bit 24 (push_bit 16 (ucast a) OR push_bit 8 (ucast b) OR ucast c :: u32)
    = push_bit 16 (ucast (a :: byte)) OR push_bit 8 (ucast (b :: byte)) OR ucast (c :: byte)"
  "ucast (drop_bit 16 (push_bit 16 (ucast a) OR push_bit 8 (ucast b) OR ucast c :: u32)) = a"
  "ucast (drop_bit 8 (push_bit 16 (ucast a) OR push_bit 8 (ucast b) OR ucast c :: u32)) = b"
  "ucast (push_bit 16 (ucast a) OR push_bit 8 (ucast b) OR ucast c :: u32) = c"
  by (rule bit_word_eqI; auto simp: bit_simps dest: bit_imp_le_length)+


section \<open>Blocks\<close>

lemma decode_three:
  "base64_decode_quad (conv_bin2ascii (ucast (drop_bit 18 l))) (conv_bin2ascii (ucast (drop_bit 12 l)))
    (conv_bin2ascii (ucast (drop_bit 6 l))) (conv_bin2ascii (ucast l)) =
   Some [ucast (drop_bit 16 l), ucast (drop_bit 8 l), ucast l]"
  if "take_bit 24 l = (l :: u32)"
  using sextets_join [OF that] by (simp add: base64_decode_quad_def Let_def ucast_sextet)

lemma decode_two:
  "base64_decode_quad (conv_bin2ascii (ucast (drop_bit 18 l))) (conv_bin2ascii (ucast (drop_bit 12 l)))
    (conv_bin2ascii (ucast (drop_bit 6 l))) 61 = Some [ucast (drop_bit 16 l), ucast (drop_bit 8 l)]"
  if "take_bit 24 l = (l :: u32)" and "take_bit 6 l = 0"
  using sextets_join [OF that(1)] that(2) by (simp add: base64_decode_quad_def Let_def ucast_sextet)

lemma decode_one:
  "base64_decode_quad (conv_bin2ascii (ucast (drop_bit 18 l))) (conv_bin2ascii (ucast (drop_bit 12 l)))
    61 61 = Some [ucast (drop_bit 16 l)]"
  if "take_bit 24 l = (l :: u32)" and "take_bit 6 l = 0" and "take_bit 6 (drop_bit 6 l) = 0"
  using sextets_join [OF that(1)] that(2,3) by (simp add: base64_decode_quad_def Let_def ucast_sextet)

lemma octets_two:
  "push_bit 16 (ucast a) OR push_bit 8 (ucast b) = (push_bit 16 (ucast (a :: byte)) OR push_bit 8 (ucast (b :: byte)) OR ucast (0 :: byte) :: u32)"
  "take_bit 6 (push_bit 16 (ucast a) OR push_bit 8 (ucast b) :: u32) = 0"
  by (simp, rule bit_word_eqI) (auto simp: bit_simps)

lemma octets_one:
  "push_bit 16 (ucast a) = (push_bit 16 (ucast (a :: byte)) OR push_bit 8 (ucast (0 :: byte)) OR ucast (0 :: byte) :: u32)"
  "take_bit 6 (push_bit 16 (ucast a) :: u32) = 0" "take_bit 6 (drop_bit 6 (push_bit 16 (ucast a) :: u32)) = 0"
  by (simp, (rule bit_word_eqI; auto simp: bit_simps)+)

lemma length_EncodeBlock: "length (EVP_EncodeBlock bs) = (length bs + 2) div 3 * 4"
proof (induction bs rule: EVP_EncodeBlock.induct)
  case (4 a b c rest)
  have "(length (a # b # c # rest) + 2) div 3 = Suc ((length rest + 2) div 3)"
    using div_add_self2 [of 3 "length rest + 2"] by simp
  with 4 show ?case by (simp add: Let_def)
qed (simp_all add: Let_def)

text \<open>The quads of an encoding: the full ones, then at most one with padding.\<close>

lemma decode_quads_encode: "decode_quads (EVP_EncodeBlock bs) = Some bs"
proof (induction bs rule: EVP_EncodeBlock.induct)
  case (2 a)
  show ?case
    using decode_one [OF _ octets_one(2,3), of a] octets_split(1,2) [of a 0 0]
    by (simp add: Let_def)
next
  case (3 a b)
  show ?case
    using decode_two [OF _ octets_two(2), of a b] octets_split(1-3) [of a b 0]
    by (simp add: Let_def)
next
  case (4 a b c rest)
  then show ?case
    using decode_three [OF octets_split(1), of a b c] octets_split(2-4) [of a b c]
    by (simp add: Let_def)
qed simp

lemma EncodeBlock_append:
  "length xs mod 3 = 0 \<Longrightarrow> EVP_EncodeBlock (xs @ ys) = EVP_EncodeBlock xs @ EVP_EncodeBlock ys"
proof (induction xs rule: EVP_EncodeBlock.induct)
  case (4 a b c rest)
  then have "length rest mod 3 = 0" by (simp add: mod_Suc split: if_splits)
  with 4 show ?case by (simp add: Let_def)
qed simp_all

lemma conv_not_space: "\<not> is_space (conv_bin2ascii a)"
proof -
  have "\<forall>a. \<not> is_space (conv_bin2ascii (a AND 0x3f))"
    by (subst all_sextets [where P = "\<lambda>a. \<not> is_space (conv_bin2ascii a)"])
      (simp add: upt_rec conv_bin2ascii_if is_space_def)
  then show ?thesis by simp
qed

lemma EncodeBlock_no_space: "c \<in> set (EVP_EncodeBlock bs) \<Longrightarrow> \<not> is_space c"
  by (induction bs rule: EVP_EncodeBlock.induct) (auto simp: Let_def conv_not_space is_space_def [of 61])

lemma EncodedLength_exact:
  assumes "n < 2 ^ 64"
  shows "EVP_EncodedLength n = (if (n + 2) div 3 < 2 ^ 62 then Some ((n + 2) div 3 * 4 + 1) else None)"
proof (cases "n + 2 < 2 ^ 64")
  case False
  then have "size_add n 2 < n" "\<not> (n + 2) div 3 < 2 ^ 62"
    using assms by (simp_all add: size_add_overflow_iff)
  then show ?thesis by (simp add: EVP_EncodedLength_def)
next
  case True
  then have add: "size_add n 2 = n + 2" by (simp add: size_add_small)
  define q where "q = (n + 2) div 3"
  have run: "EVP_EncodedLength n = (if size_mul q 4 div 4 \<noteq> q then None
      else if size_add (size_mul q 4) 1 < size_mul q 4 then None else Some (size_add (size_mul q 4) 1))"
    unfolding EVP_EncodedLength_def Let_def add q_def [symmetric] by (simp only: not_add_less1 if_False)
  show ?thesis
  proof (cases "q < 2 ^ 62")
    case small: True
    then have "size_mul q 4 = q * 4" "size_add (q * 4) 1 = q * 4 + 1"
      by (simp_all add: size_mul_def size_add_def)
    with small show ?thesis unfolding run q_def [symmetric] by simp
  next
    case big: False
    have "size_mul q 4 < 2 ^ 62 * 4" by (simp add: size_mul_def)
    then have "size_mul q 4 div 4 < 2 ^ 62" by (rule less_mult_imp_div_less)
    with big show ?thesis unfolding run q_def [symmetric] by simp
  qed
qed

section \<open>Streams\<close>

text \<open>
  \<open>base64_text\<close> is the text of a whole stream: lines of 48 bytes each, the last one shorter.
  Every update writes the next part of it.
\<close>

function base64_text :: "byte list \<Rightarrow> byte list" where
  "base64_text bs = (if bs = [] then [] else EVP_EncodeBlock (take 48 bs) @ [10] @ base64_text (drop 48 bs))"
  by pat_completeness auto
termination
  by (relation "measure length") auto

declare base64_text.simps [simp del]

fun encode_stream :: "byte list list \<Rightarrow> encode_ctx \<Rightarrow> byte list" where
  "encode_stream [] ctx = (case EVP_EncodeFinal ctx of (out, n, ctx') \<Rightarrow> take n out)"
| "encode_stream (c # cs) ctx =
    (case EVP_EncodeUpdate c ctx of (out, n, ctx') \<Rightarrow> take n out @ encode_stream cs ctx')"

lemma base64_text_Nil [simp]: "base64_text [] = []"
  by (simp add: base64_text.simps)

lemma base64_text_line:
  "length line = 48 \<Longrightarrow> base64_text (line @ bs) = EVP_EncodeBlock line @ [10] @ base64_text bs"
  by (subst base64_text.simps) auto

lemma encode_lines_text:
  assumes "sofar + 2 * length inp + 65 < 2 ^ 64"
  shows "\<exists>out rest. encode_lines sofar inp = (out, rest, Some (sofar + length out)) \<and> length rest < 48 \<and>
    length out \<le> 2 * length inp \<and> (\<forall>more. base64_text (inp @ more) = out @ base64_text (rest @ more))"
  using assms
proof (induction sofar inp rule: encode_lines.induct)
  case (1 sofar inp)
  show ?case
  proof (cases "48 \<le> length inp")
    case False
    then show ?thesis by (simp add: encode_lines.simps)
  next
    case True
    define line where "line = EVP_EncodeBlock (take 48 inp) @ [10]"
    have len: "length line = 65" using True by (simp add: line_def length_EncodeBlock)
    have add: "size_add sofar (length line) = sofar + 65"
      using 1(2) by (simp add: len size_add_small)
    have small: "sofar + 65 + 2 * length (drop 48 inp) + 65 < 2 ^ 64"
      using True 1(2) by simp
    obtain out rest where r: "encode_lines (sofar + 65) (drop 48 inp) = (out, rest, Some (sofar + 65 + length out))"
      "length rest < 48" "length out \<le> 2 * length (drop 48 inp)"
      "\<And>more. base64_text (drop 48 inp @ more) = out @ base64_text (rest @ more)"
      using 1(1) [OF True line_def] add small by auto
    have "base64_text (inp @ more) = line @ out @ base64_text (rest @ more)" for more
    proof -
      have e: "inp @ more = take 48 inp @ drop 48 inp @ more" by (simp flip: append_assoc)
      show ?thesis
        unfolding e using base64_text_line [of "take 48 inp" "drop 48 inp @ more"] True r(4)
        by (simp add: line_def)
    qed
    moreover have "encode_lines sofar inp = (line @ out, rest, Some (sofar + length (line @ out)))"
      using True r(1) add by (simp add: encode_lines.simps [of sofar inp] Let_def flip: line_def) (simp add: len)
    ultimately show ?thesis
      using r(2,3) True len by auto
  qed
qed

lemma EncodeUpdate_text:
  assumes "length (ctx_data ctx) < 48" and "length inp < 2 ^ 29"
  shows "\<exists>out ctx'. EVP_EncodeUpdate inp ctx = (out, length out, ctx') \<and> length (ctx_data ctx') < 48 \<and>
    (\<forall>more. base64_text (ctx_data ctx @ inp @ more) = out @ base64_text (ctx_data ctx' @ more))"
proof -
  define d where "d = ctx_data ctx"
  define todo where "todo = 48 - length d"
  consider "inp = [] \<or> length inp < todo" | "inp \<noteq> []" "todo \<le> length inp" by linarith
  then show ?thesis
  proof cases
    case 1
    then show ?thesis using assms(1) by (auto simp: EVP_EncodeUpdate_def d_def todo_def)
  next
    case 2
    define first inp' where "first = (if d \<noteq> [] then EVP_EncodeBlock (d @ take todo inp) @ [10] else [])"
      and "inp' = (if d \<noteq> [] then drop todo inp else inp)"
    have "length inp' \<le> length inp" by (simp add: inp'_def)
    moreover have "length first \<le> 65"
      using 2 assms(1) by (simp add: first_def length_EncodeBlock todo_def d_def)
    ultimately have len: "length first \<le> 65" "length inp' \<le> length inp" by simp_all
    have tx: "base64_text (d @ inp @ more) = first @ base64_text (inp' @ more)" for more
    proof (cases "d = []")
      case False
      have e: "d @ inp @ more = (d @ take todo inp) @ drop todo inp @ more"
        by (metis append_assoc append_take_drop_id)
      have "length (d @ take todo inp) = 48" using 2 assms(1) by (simp add: todo_def d_def)
      then show ?thesis
        unfolding e using False base64_text_line [of "d @ take todo inp" "drop todo inp @ more"]
        by (simp add: first_def inp'_def)
    qed (simp add: first_def inp'_def)
    obtain out rest where r: "encode_lines (length first) inp' = (out, rest, Some (length first + length out))"
      "length rest < 48" "length out \<le> 2 * length inp'" "\<And>more. base64_text (inp' @ more) = out @ base64_text (rest @ more)"
      using encode_lines_text [of "length first" inp'] len assms(2) by auto
    have "EVP_EncodeUpdate inp ctx = (first @ out, length (first @ out), ctx\<lparr>ctx_data := rest\<rparr>)"
      using 2 r(1,3) len assms(2)
      by (auto simp: EVP_EncodeUpdate_def d_def [symmetric] todo_def [symmetric] first_def inp'_def INT_MAX_def Let_def)
    with r tx show ?thesis by (simp flip: d_def)
  qed
qed

lemma encode_stream_text:
  "length (ctx_data ctx) < 48 \<Longrightarrow> \<forall>c \<in> set cs. length c < 2 ^ 29 \<Longrightarrow>
    encode_stream cs ctx = base64_text (ctx_data ctx @ concat cs)"
proof (induction cs arbitrary: ctx)
  case Nil
  then show ?case
    by (auto simp: EVP_EncodeFinal_def Let_def base64_text.simps [of "ctx_data ctx"])
next
  case (Cons c cs)
  obtain out ctx' where "EVP_EncodeUpdate c ctx = (out, length out, ctx')" "length (ctx_data ctx') < 48"
    "\<And>more. base64_text (ctx_data ctx @ c @ more) = out @ base64_text (ctx_data ctx' @ more)"
    using EncodeUpdate_text [of ctx c] Cons.prems by auto
  with Cons.IH [of ctx'] Cons.prems(2) show ?case by simp
qed

lemma base64_text_plain: "filter (\<lambda>c. \<not> is_space c) (base64_text bs) = EVP_EncodeBlock bs"
proof (induction bs rule: base64_text.induct)
  case (1 bs)
  show ?case
  proof (cases "bs = []")
    case False
    have "EVP_EncodeBlock bs = EVP_EncodeBlock (take 48 bs) @ EVP_EncodeBlock (drop 48 bs)"
    proof (cases "length bs \<le> 48")
      case False
      then show ?thesis
        using EncodeBlock_append [of "take 48 bs" "drop 48 bs"] by simp
    qed simp
    moreover have "filter (\<lambda>c. \<not> is_space c) (EVP_EncodeBlock (take 48 bs)) = EVP_EncodeBlock (take 48 bs)"
      using EncodeBlock_no_space by (auto simp: filter_id_conv)
    ultimately show ?thesis
      using 1 [OF False] False by (subst base64_text.simps) (simp add: is_space_def [of 10])
  qed simp
qed

text \<open>Decoding a stream: what all updates deliver, provided none fails and nothing is left over.\<close>

fun decode_stream :: "byte list list \<Rightarrow> encode_ctx \<Rightarrow> byte list option" where
  "decode_stream [] ctx = (if EVP_DecodeFinal ctx = 1 then Some [] else None)"
| "decode_stream (c # cs) ctx =
    (case EVP_DecodeUpdate c ctx of (r, out, n, ctx') \<Rightarrow>
       if r < 0 then None else map_option (\<lambda>more. take n out @ more) (decode_stream cs ctx'))"

definition decode_text :: "byte list \<Rightarrow> byte list option" where
  "decode_text inp =
    (let t = filter (\<lambda>c. \<not> is_space c) inp in if length t mod 4 = 0 then decode_quads t else None)"

lemma decode_quad_length: "base64_decode_quad a b c d = Some bytes \<Longrightarrow> length bytes = 1 \<or> length bytes = 2 \<or> length bytes = 3"
  by (auto simp: base64_decode_quad_def Let_def split: if_splits)

text \<open>What a context can still accept: \<open>pending\<close> is the meaning of the rest of the stream.\<close>

definition pending :: "encode_ctx \<Rightarrow> byte list \<Rightarrow> byte list option" where
  "pending ctx inp =
    (let t = ctx_data ctx @ filter (\<lambda>c. \<not> is_space c) inp
     in if error_encountered ctx then None
        else if eof_seen ctx then (if t = [] then Some [] else None)
        else if length t mod 4 = 0 then decode_quads t else None)"

definition ctx_ok :: "encode_ctx \<Rightarrow> bool" where
  "ctx_ok ctx \<longleftrightarrow> length (ctx_data ctx) < 4 \<and> (eof_seen ctx \<longrightarrow> ctx_data ctx = [])"

lemma map_append [simp]: "map_option (\<lambda>bs. [] @ bs) x = x"
  "map_option (\<lambda>bs. (as @ cs) @ bs) x = map_option (\<lambda>bs. as @ bs) (map_option (\<lambda>bs. cs @ bs) x)"
  by (cases x; simp)+

lemma decode_loop_pending:
  assumes "ctx_ok ctx" and "\<not> error_encountered ctx"
  shows "case decode_loop inp ctx of
      (out, None, ctx') \<Rightarrow> error_encountered ctx' \<and> (\<forall>more. pending ctx (inp @ more) = None)
    | (out, Some _, ctx') \<Rightarrow> ctx_ok ctx' \<and> \<not> error_encountered ctx' \<and> length out \<le> length (ctx_data ctx) + length inp \<and>
        (\<forall>more. pending ctx (inp @ more) = map_option (\<lambda>bs. out @ bs) (pending ctx' more))"
  using assms
proof (induction inp arbitrary: ctx)
  case Nil
  then show ?case by (simp add: map_append(1) [simplified])
next
  case (Cons c inp)
  show ?case
  proof (cases "is_space c")
    case True
    then have "pending ctx ((c # inp) @ more) = pending ctx (inp @ more)" for more
      by (simp add: pending_def)
    with Cons.IH [OF Cons.prems] True show ?thesis
      by (auto split: prod.splits option.splits)
  next
    case vis: False
    show ?thesis
    proof (cases "eof_seen ctx")
      case True
      with vis show ?thesis by (simp add: pending_def Let_def)
    next
      case run: False
      define ctx1 where "ctx1 = ctx\<lparr>ctx_data := ctx_data ctx @ [c]\<rparr>"
      show ?thesis
      proof (cases "length (ctx_data ctx) = 3")
        case False
        then have short: "length (ctx_data ctx @ [c]) < 4" using Cons.prems(1) by (auto simp: ctx_ok_def)
        then have ok: "ctx_ok ctx1" "\<not> error_encountered ctx1"
          using run Cons.prems(2) by (simp_all add: ctx_ok_def ctx1_def)
        have shift: "pending ctx ((c # inp) @ more) = pending ctx1 (inp @ more)" for more
          using vis run Cons.prems(2) by (simp add: pending_def ctx1_def)
        have step: "decode_loop (c # inp) ctx = decode_loop inp ctx1"
          using vis run short by (auto simp: Let_def ctx1_def split: list.splits)
        show ?thesis
          using Cons.IH [OF ok] unfolding step shift by (auto simp: ctx1_def split: prod.splits option.splits)
      next
        case True
        then obtain c0 c1 c2 where d: "ctx_data ctx = [c0, c1, c2]"
          by (auto simp: numeral_3_eq_3 length_Suc_conv)
        show ?thesis
        proof (cases "base64_decode_quad c0 c1 c2 c")
          case None
          with vis run d show ?thesis by (simp add: pending_def Let_def)
        next
          case (Some bytes)
          define ctx2 where "ctx2 = ctx\<lparr>ctx_data := [], eof_seen := length bytes < 3\<rparr>"
          have ok: "ctx_ok ctx2" "\<not> error_encountered ctx2" "length bytes \<le> 3" "length bytes = 3 \<or> length bytes < 3"
            using Cons.prems(2) decode_quad_length [OF Some] by (auto simp: ctx_ok_def ctx2_def)
          have pend: "pending ctx ((c # inp) @ more) = map_option (\<lambda>bs. bytes @ bs) (pending ctx2 (inp @ more))" for more
            using vis run d Some Cons.prems(2) ok(4)
            by (auto simp: pending_def ctx2_def Let_def mod_Suc)
          have step: "decode_loop (c # inp) ctx = (case decode_loop inp ctx2 of (out, r) \<Rightarrow> (bytes @ out, r))"
            using vis run d Some by (simp add: Let_def ctx2_def)
          show ?thesis
            using Cons.IH [OF ok(1,2)] ok(3) d unfolding step pend
            by (auto simp: ctx2_def split: prod.splits option.splits) 
        qed
      qed
    qed
  qed
qed

lemma decode_stream_pending:
  "ctx_ok ctx \<Longrightarrow> \<forall>c \<in> set cs. length c < 2 ^ 30 \<Longrightarrow> decode_stream cs ctx = pending ctx (concat cs)"
proof (induction cs arbitrary: ctx)
  case Nil
  then show ?case
    by (auto simp: pending_def EVP_DecodeFinal_def ctx_ok_def Let_def mod_less)
next
  case (Cons c cs)
  show ?case
  proof (cases "error_encountered ctx")
    case True
    then show ?thesis by (simp add: EVP_DecodeUpdate_def pending_def)
  next
    case False
    obtain out r ctx' where run: "decode_loop c ctx = (out, r, ctx')" by (metis prod.collapse)
    note d = decode_loop_pending [OF Cons.prems(1) False, of c, unfolded run prod.case]
    show ?thesis
    proof (cases r)
      case None
      with d run False show ?thesis by (simp add: EVP_DecodeUpdate_def)
    next
      case (Some u)
      with d have "length out \<le> length (ctx_data ctx) + length c" by simp
      then have "length out \<le> INT_MAX"
        using Cons.prems by (simp add: ctx_ok_def INT_MAX_def)
      with run False Some have "EVP_DecodeUpdate c ctx = (if eof_seen ctx' then 0 else 1, out, length out, ctx')"
        by (simp add: EVP_DecodeUpdate_def)
      moreover have "pending ctx (c @ concat cs) = map_option (\<lambda>bs. out @ bs) (pending ctx' (concat cs))"
        using d Some by simp
      moreover have "decode_stream cs ctx' = pending ctx' (concat cs)"
        using d Some Cons.IH [of ctx'] Cons.prems(2) by simp
      ultimately show ?thesis by simp
    qed
  qed
qed

lemma decode_stream_text:
  "\<forall>c \<in> set cs. length c < 2 ^ 30 \<Longrightarrow> decode_stream cs EVP_DecodeInit = decode_text (concat cs)"
  by (subst decode_stream_pending) (simp_all add: ctx_ok_def EVP_DecodeInit_def pending_def decode_text_def)

section \<open>The one-shot decoder\<close>

lemma decode_quads_length: "length t mod 4 = 0 \<Longrightarrow> decode_quads t = Some out \<Longrightarrow>
    length out \<le> length t div 4 * 3 \<and> length t div 4 * 3 < length out + 3"
proof (induction t arbitrary: out rule: decode_quads.induct)
  case (1 c0 c1 c2 c3 rest)
  then obtain bytes more where q: "base64_decode_quad c0 c1 c2 c3 = Some bytes" "decode_quads rest = Some more"
    "length bytes = 3 \<or> rest = []" "out = bytes @ more"
    by (auto split: option.splits if_splits)
  then have "length more \<le> length rest div 4 * 3 \<and> length rest div 4 * 3 < length more + 3"
    using 1 by (auto simp: mod_Suc split: if_splits)
  moreover have "length (c0 # c1 # c2 # c3 # rest) div 4 = Suc (length rest div 4)"
    using div_add_self1 [of 4 "length rest"] by simp
  ultimately show ?case
    using q decode_quad_length [OF q(1)] by auto
qed auto

lemma DecodeBase64_iff:
  "EVP_DecodeBase64 max_out inp = Some out \<longleftrightarrow>
    length inp mod 4 = 0 \<and> length inp div 4 * 3 \<le> max_out \<and> decode_quads inp = Some out"
  by (auto simp: EVP_DecodeBase64_def EVP_DecodedLength_def)

text \<open>\<open>EVP_DecodeBlock\<close> pads with zeros to whole groups of three.\<close>

lemma DecodeBlock_encode:
  assumes "\<forall>c \<in> set pre. c = 32 \<or> c = 9" and "\<forall>c \<in> set post. is_space c" and "length bs < 2 ^ 30" and "bs \<noteq> []"
  shows "EVP_DecodeBlock (pre @ EVP_EncodeBlock bs @ post) =
    Some (bs @ replicate ((3 - length bs mod 3) mod 3) 0)"
proof -
  let ?t = "EVP_EncodeBlock bs"
  have ne: "?t \<noteq> []" using assms(4) by (metis EVP_EncodeBlock.simps(1) decode_quads_encode option.inject)
  have ns: "c \<in> set ?t \<Longrightarrow> \<not> is_space c" for c by (rule EncodeBlock_no_space)
  have "\<not> (hd ?t = 32 \<or> hd ?t = 9)"
    using ns [of "hd ?t"] ne by (auto simp: is_space_def)
  then have "dropWhile (\<lambda>c. c = 32 \<or> c = 9) (pre @ ?t @ post) = ?t @ post"
    using assms(1) ne by (subst dropWhile_append2) (auto simp: dropWhile_append1 neq_Nil_conv)
  moreover have "dropWhile is_space (rev (?t @ post)) = rev ?t"
  proof -
    have "dropWhile is_space (rev ?t) = rev ?t"
      using ns [of "last ?t"] ne by (simp add: dropWhile_eq_self_iff hd_rev)
    then show ?thesis
      using assms(2) dropWhile_append2 [of "rev post" is_space "rev ?t"] by simp
  qed
  moreover have "length ?t mod 4 = 0" "length ?t div 4 = (length bs + 2) div 3"
    by (simp_all add: length_EncodeBlock)
  moreover have "(length bs + 2) div 3 * 3 \<le> INT_MAX"
    using assms(3) div_times_less_eq_dividend [of "length bs + 2" 3] by (simp add: INT_MAX_def)
  ultimately show ?thesis
    by (simp add: EVP_DecodeBlock_def EVP_DecodedLength_def EVP_DecodeBase64_def decode_quads_encode Let_def not_less)
qed

end
