(* ===== verification/Mem.thy ===== *)
theory Mem
  imports Prelude
begin

text \<open>
  The string functions of \<open>mem.c\<close>.  A string is the memory at its pointer, a list of bytes
  with a zero byte; \<open>c_str\<close> is the text before it.  \<open>char\<close> is signed, as on the targets.
\<close>

section \<open>The functions\<close>

definition c_str :: "byte list \<Rightarrow> byte list" where
  "c_str s = takeWhile (\<lambda>b. b \<noteq> 0) s"

fun strnlen_loop :: "nat \<Rightarrow> nat \<Rightarrow> byte list \<Rightarrow> nat" where
  "strnlen_loop i len (b # s) = (if i < len then if b = 0 then i else strnlen_loop (Suc i) len s else len)"
| "strnlen_loop i len [] = len"

definition OPENSSL_strnlen :: "byte list \<Rightarrow> nat \<Rightarrow> nat" where
  "OPENSSL_strnlen s len = strnlen_loop 0 len s"

definition OPENSSL_strdup :: "(nat \<Rightarrow> bool) \<Rightarrow> byte list option \<Rightarrow> byte list option" where
  "OPENSSL_strdup malloc s = (case s of
     None \<Rightarrow> None
   | Some s \<Rightarrow> let len = length (c_str s) + 1 in if \<not> malloc len then None else Some (take len s))"

definition OPENSSL_tolower :: "int \<Rightarrow> int" where
  "OPENSSL_tolower c = (if 65 \<le> c \<and> c \<le> 90 then c + (97 - 65) else c)"

fun OPENSSL_strcasecmp :: "byte list \<Rightarrow> byte list \<Rightarrow> int" where
  "OPENSSL_strcasecmp (a # as) (b # bs) =
    (let aa = OPENSSL_tolower (sint a); bb = OPENSSL_tolower (sint b)
     in if aa < bb then - 1 else if bb < aa then 1 else if aa = 0 then 0 else OPENSSL_strcasecmp as bs)"
| "OPENSSL_strcasecmp _ _ = 0"

fun OPENSSL_strncasecmp :: "byte list \<Rightarrow> byte list \<Rightarrow> nat \<Rightarrow> int" where
  "OPENSSL_strncasecmp (a # as) (b # bs) (Suc n) =
    (let aa = OPENSSL_tolower (sint a); bb = OPENSSL_tolower (sint b)
     in if aa < bb then - 1 else if bb < aa then 1 else if aa = 0 then 0 else OPENSSL_strncasecmp as bs n)"
| "OPENSSL_strncasecmp _ _ _ = 0"

text \<open>The loop of \<open>OPENSSL_strlcpy\<close>: what it copies, and \<open>src\<close> and \<open>dst_size\<close> after it.\<close>

fun strlcpy_loop :: "byte list \<Rightarrow> nat \<Rightarrow> byte list \<times> byte list \<times> nat" where
  "strlcpy_loop (c # src) dst_size =
    (if 1 < dst_size \<and> c \<noteq> 0
     then (case strlcpy_loop src (dst_size - 1) of (out, rest) \<Rightarrow> (c # out, rest))
     else ([], c # src, dst_size))"
| "strlcpy_loop [] dst_size = ([], [], dst_size)"

text \<open>The results are the return value and the memory at \<open>dst\<close>.\<close>

definition OPENSSL_strlcpy :: "byte list \<Rightarrow> byte list \<Rightarrow> nat \<Rightarrow> nat \<times> byte list" where
  "OPENSSL_strlcpy dst src dst_size =
    (case strlcpy_loop src dst_size of (out, src, dst_size) \<Rightarrow>
       (length out + length (c_str src),
        out @ (if dst_size \<noteq> 0 then 0 # drop (length out + 1) dst else drop (length out) dst)))"

fun OPENSSL_strlcat :: "byte list \<Rightarrow> byte list \<Rightarrow> nat \<Rightarrow> nat \<times> byte list" where
  "OPENSSL_strlcat (d # dst) src (Suc dst_size) =
    (if d \<noteq> 0 then (case OPENSSL_strlcat dst src dst_size of (l, dst') \<Rightarrow> (Suc l, d # dst'))
     else OPENSSL_strlcpy (d # dst) src (Suc dst_size))"
| "OPENSSL_strlcat dst src dst_size = OPENSSL_strlcpy dst src dst_size"

definition OPENSSL_cleanse :: "byte list \<Rightarrow> nat \<Rightarrow> byte list" where
  "OPENSSL_cleanse mem len = replicate len 0 @ drop len mem"

section \<open>What they do\<close>

lemma strnlen_min:
  assumes "0 \<in> set s \<or> len \<le> length s"
  shows "OPENSSL_strnlen s len = min len (length (c_str s))"
proof -
  have "strnlen_loop i len s = min len (i + length (c_str s))"
    if "i \<le> len" "0 \<in> set s \<or> len \<le> i + length s" for i
    using that by (induction s arbitrary: i) (auto simp: c_str_def)
  from this [of 0] assms show ?thesis by (simp add: OPENSSL_strnlen_def)
qed

lemma strlcpy_loop_take:
  "0 \<in> set src \<Longrightarrow> 0 < n \<Longrightarrow> strlcpy_loop src n =
    (take (n - 1) (c_str src), drop (min (n - 1) (length (c_str src))) src,
     n - min (n - 1) (length (c_str src)))"
proof (induction src arbitrary: n)
  case (Cons c src)
  then show ?case
    by (cases n; cases "n - 1") (auto simp: c_str_def)
qed simp

lemma c_str_drop: "k \<le> length (c_str s) \<Longrightarrow> c_str (drop k s) = drop k (c_str s)"
  by (induction s arbitrary: k) (auto simp: c_str_def drop_Cons split: nat.splits)

lemma strlcpy_spec:
  assumes "0 \<in> set src" and "n \<le> length dst"
  shows "OPENSSL_strlcpy dst src n = (length (c_str src),
    if n = 0 then dst else take (n - 1) (c_str src) @ 0 # drop (min (n - 1) (length (c_str src)) + 1) dst)"
proof (cases "n = 0")
  case True
  have "strlcpy_loop src 0 = ([], src, 0)" by (cases src) simp_all
  with True show ?thesis by (simp add: OPENSSL_strlcpy_def)
next
  case False
  define k where "k = min (n - 1) (length (c_str src))"
  have k: "n - k \<noteq> 0" "k \<le> length (c_str src)" "length (take (n - 1) (c_str src)) = k"
    using False by (auto simp: k_def)
  have loop: "strlcpy_loop src n = (take (n - 1) (c_str src), drop k src, n - k)"
    unfolding k_def using strlcpy_loop_take [OF assms(1)] False by simp
  show ?thesis
    unfolding OPENSSL_strlcpy_def loop prod.case k(3) k_def [symmetric]
    using False k by (simp add: c_str_drop)
qed

text \<open>
  Appending: the text is the concatenation cut to the room, always terminated and never beyond
  \<open>dst_size\<close>; the return value is the length it wanted.
\<close>

lemma c_str_Cons: "c_str (b # s) = (if b = 0 then [] else b # c_str s)"
  by (simp add: c_str_def)

lemma c_str_nonzero: "\<forall>b \<in> set s. b \<noteq> 0 \<Longrightarrow> c_str (s @ t) = s @ c_str t"
  by (simp add: c_str_def)

lemma c_str_set: "b \<in> set (c_str s) \<Longrightarrow> b \<noteq> 0"
  by (auto simp: c_str_def dest: set_takeWhileD)

lemma strlcat_spec:
  assumes "0 \<in> set src" and "n \<le> length dst"
  shows "fst (OPENSSL_strlcat dst src n) = min n (length (c_str dst)) + length (c_str src) \<and>
    length (snd (OPENSSL_strlcat dst src n)) = length dst \<and>
    drop n (snd (OPENSSL_strlcat dst src n)) = drop n dst \<and>
    (length (c_str dst) < n \<longrightarrow>
      (\<exists>junk. snd (OPENSSL_strlcat dst src n) = take (n - 1) (c_str dst @ c_str src) @ 0 # junk)) \<and>
    (n \<le> length (c_str dst) \<longrightarrow> snd (OPENSSL_strlcat dst src n) = dst)"
  using assms
proof (induction dst src n rule: OPENSSL_strlcat.induct)
  case (1 d dst src n)
  show ?case
  proof (cases "d = 0")
    case False
    have run: "OPENSSL_strlcat (d # dst) src (Suc n) = (Suc (fst (OPENSSL_strlcat dst src n)), d # snd (OPENSSL_strlcat dst src n))"
      using False by (simp add: case_prod_beta)
    have "length (c_str dst) < n \<Longrightarrow> take n (d # c_str dst @ c_str src) = d # take (n - 1) (c_str dst @ c_str src)"
      by (cases n) simp_all
    with 1 show ?thesis
      unfolding run using False by (simp add: c_str_Cons)
  next
    case True
    then show ?thesis
      using strlcpy_spec [OF 1(2,3)] 1(3)
      by (cases "n \<le> length (c_str src)") (auto simp: c_str_Cons Suc_diff_le)
  qed
qed (auto simp: strlcpy_spec)

end
