(* ===== verification/Bio_Pair.thy ===== *)
theory Bio_Pair
  imports Prelude
begin

text \<open>
  BIO pairs (\<open>bio/pair.c\<close>), the in-memory transport under TLS: two BIOs, each with a ring
  buffer that it writes and its peer reads, and the wrappers of \<open>bio.c\<close> that dispatch to
  them.  BIOs are addressed by numbers in a store, so that an operation on one end sees and
  changes the other through its \<open>peer\<close> pointer.  A ring buffer refines a bounded queue
  of bytes, which is the locale \<open>bounded_queue\<close>.
\<close>

section \<open>State\<close>

record bio_bio =
  bb_peer :: "nat option"
  bb_closed :: bool
  bb_len :: nat
  bb_offset :: nat
  bb_size :: nat
  bb_buf :: "byte list option"
  bb_request :: nat

record bio =
  bio_init :: bool
  bio_shutdown :: int
  bio_flags :: u32
  num_read :: nat
  num_write :: nat
  bio_ptr :: bio_bio

type_synonym bios = "nat \<Rightarrow> bio"

definition upd_ptr :: "nat \<Rightarrow> (bio_bio \<Rightarrow> bio_bio) \<Rightarrow> bios \<Rightarrow> bios" where
  "upd_ptr a f h = h(a := (h a)\<lparr>bio_ptr := f (bio_ptr (h a))\<rparr>)"

definition BIO_FLAGS_READ :: u32 where "BIO_FLAGS_READ = 1"
definition BIO_FLAGS_WRITE :: u32 where "BIO_FLAGS_WRITE = 2"
definition BIO_FLAGS_RWS :: u32 where "BIO_FLAGS_RWS = 7"
definition BIO_FLAGS_SHOULD_RETRY :: u32 where "BIO_FLAGS_SHOULD_RETRY = 8"

definition BIO_set_retry_read :: "nat \<Rightarrow> bios \<Rightarrow> bios" where
  "BIO_set_retry_read a h =
    h(a := (h a)\<lparr>bio_flags := bio_flags (h a) OR (BIO_FLAGS_READ OR BIO_FLAGS_SHOULD_RETRY)\<rparr>)"

definition BIO_set_retry_write :: "nat \<Rightarrow> bios \<Rightarrow> bios" where
  "BIO_set_retry_write a h =
    h(a := (h a)\<lparr>bio_flags := bio_flags (h a) OR (BIO_FLAGS_WRITE OR BIO_FLAGS_SHOULD_RETRY)\<rparr>)"

definition BIO_clear_retry_flags :: "nat \<Rightarrow> bios \<Rightarrow> bios" where
  "BIO_clear_retry_flags a h =
    h(a := (h a)\<lparr>bio_flags := bio_flags (h a) AND NOT (BIO_FLAGS_RWS OR BIO_FLAGS_SHOULD_RETRY)\<rparr>)"

definition BIO_should_read :: "bio \<Rightarrow> bool" where
  "BIO_should_read b \<longleftrightarrow> bio_flags b AND BIO_FLAGS_READ \<noteq> 0"

definition BIO_should_write :: "bio \<Rightarrow> bool" where
  "BIO_should_write b \<longleftrightarrow> bio_flags b AND BIO_FLAGS_WRITE \<noteq> 0"

definition BIO_should_retry :: "bio \<Rightarrow> bool" where
  "BIO_should_retry b \<longleftrightarrow> bio_flags b AND BIO_FLAGS_SHOULD_RETRY \<noteq> 0"

section \<open>Ring buffers\<close>

text \<open>
  The copying loops of \<open>bio_read\<close> and \<open>bio_write\<close>.  A loop that does not end is
  \<open>None\<close>.  Sums stay below the size of an allocated buffer, so they do not wrap.
\<close>

partial_function (option) read_loop ::
  "byte list \<Rightarrow> nat \<Rightarrow> nat \<Rightarrow> nat \<Rightarrow> nat \<Rightarrow> byte list \<Rightarrow> (byte list \<times> nat \<times> nat) option" where
  "read_loop buf sz len off rest out =
    (let chunk = (if off + rest \<le> sz then rest else sz - off);
         out = out @ take chunk (drop off buf);
         len = len - chunk;
         off = (if len \<noteq> 0 then (if off + chunk = sz then 0 else off + chunk) else 0);
         rest = rest - chunk
     in if rest = 0 then Some (out, len, off) else read_loop buf sz len off rest out)"

partial_function (option) write_loop ::
  "nat \<Rightarrow> nat \<Rightarrow> byte list \<Rightarrow> nat \<Rightarrow> nat \<Rightarrow> byte list \<Rightarrow> (byte list \<times> nat) option" where
  "write_loop sz off buf len rest inp =
    (let wo = off + len;
         wo = (if sz \<le> wo then wo - sz else wo);
         chunk = (if wo + rest \<le> sz then rest else sz - wo);
         buf = take wo buf @ take chunk inp @ drop (wo + chunk) buf;
         len = len + chunk;
         rest = rest - chunk
     in if rest = 0 then Some (buf, len) else write_loop sz off buf len rest (drop chunk inp))"

text \<open>The end of \<open>bio_read\<close>, with the ring buffer of the peer, and of \<open>bio_write\<close>.\<close>

definition ring_get :: "nat \<Rightarrow> bio_bio \<Rightarrow> (byte list \<times> bio_bio) option" where
  "ring_get n b =
    (let n = (if bb_len b < n then bb_len b else n)
     in case read_loop (the (bb_buf b)) (bb_size b) (bb_len b) (bb_offset b) n [] of
          None \<Rightarrow> None
        | Some (out, len, off) \<Rightarrow> Some (out, b\<lparr>bb_len := len, bb_offset := off\<rparr>))"

definition ring_put :: "byte list \<Rightarrow> bio_bio \<Rightarrow> (nat \<times> bio_bio) option" where
  "ring_put inp b =
    (let n = (if bb_size b - bb_len b < length inp then bb_size b - bb_len b else length inp)
     in case write_loop (bb_size b) (bb_offset b) (the (bb_buf b)) (bb_len b) n inp of
          None \<Rightarrow> None
        | Some (buf, len) \<Rightarrow> Some (n, b\<lparr>bb_buf := Some buf, bb_len := len\<rparr>))"

section \<open>Reading and writing\<close>

text \<open>
  The results are the return value, the bytes stored through \<open>buf\<close>, and the store;
  \<open>None\<close> if the function does not return.
\<close>

definition bio_read :: "nat \<Rightarrow> nat \<Rightarrow> bios \<Rightarrow> (int \<times> byte list \<times> bios) option" where
  "bio_read a n h =
    (let h = BIO_clear_retry_flags a h
     in if \<not> bio_init (h a) then Some (0, [], h)
        else
          let p = the (bb_peer (bio_ptr (h a)));
              h = upd_ptr p (\<lambda>b. b\<lparr>bb_request := 0\<rparr>) h
          in if n = 0 then Some (0, [], h)
             else if bb_len (bio_ptr (h p)) = 0 then
               if bb_closed (bio_ptr (h p)) then Some (0, [], h)
               else
                 let h = BIO_set_retry_read a h;
                     sz = bb_size (bio_ptr (h p))
                 in Some (- 1, [], upd_ptr p (\<lambda>b. b\<lparr>bb_request := (if n \<le> sz then n else sz)\<rparr>) h)
             else
               (case ring_get n (bio_ptr (h p)) of
                  None \<Rightarrow> None
                | Some (out, b) \<Rightarrow> Some (int (length out), out, upd_ptr p (\<lambda>_. b) h)))"

definition bio_write :: "nat \<Rightarrow> byte list \<Rightarrow> bios \<Rightarrow> (int \<times> bios) option" where
  "bio_write a inp h =
    (let h = BIO_clear_retry_flags a h
     in if \<not> bio_init (h a) \<or> inp = [] then Some (0, h)
        else
          let h = upd_ptr a (\<lambda>b. b\<lparr>bb_request := 0\<rparr>) h;
              b = bio_ptr (h a)
          in if bb_closed b then Some (- 1, h)
             else if bb_len b = bb_size b then Some (- 1, BIO_set_retry_write a h)
             else
               (case ring_put inp b of
                  None \<Rightarrow> None
                | Some (n, b) \<Rightarrow> Some (int n, upd_ptr a (\<lambda>_. b) h)))"

text \<open>The callers of \<open>bio.c\<close>: \<open>len\<close> is an \<open>int\<close>, \<open>-2\<close> the answer for a BIO that is not initialised.\<close>

definition BIO_read :: "nat \<Rightarrow> int \<Rightarrow> bios \<Rightarrow> (int \<times> byte list \<times> bios) option" where
  "BIO_read a len h =
    (if \<not> bio_init (h a) then Some (- 2, [], h)
     else if len \<le> 0 then Some (0, [], h)
     else case bio_read a (nat len) h of
       None \<Rightarrow> None
     | Some (ret, out, h) \<Rightarrow>
         Some (ret, out, if 0 < ret then h(a := (h a)\<lparr>num_read := size_add (num_read (h a)) (nat ret)\<rparr>) else h))"

definition BIO_write :: "nat \<Rightarrow> byte list \<Rightarrow> bios \<Rightarrow> (int \<times> bios) option" where
  "BIO_write a inp h =
    (if \<not> bio_init (h a) then Some (- 2, h)
     else if inp = [] then Some (0, h)
     else case bio_write a inp h of
       None \<Rightarrow> None
     | Some (ret, h) \<Rightarrow>
         Some (ret, if 0 < ret then h(a := (h a)\<lparr>num_write := size_add (num_write (h a)) (nat ret)\<rparr>) else h))"

section \<open>Making and breaking pairs\<close>

definition bio_new :: bio where
  "bio_new = \<lparr>bio_init = False, bio_shutdown = 1, bio_flags = 0, num_read = 0, num_write = 0,
     bio_ptr = \<lparr>bb_peer = None, bb_closed = False, bb_len = 0, bb_offset = 0, bb_size = 17 * 1024,
       bb_buf = None, bb_request = 0\<rparr>\<rparr>"

definition unlink :: "bio_bio \<Rightarrow> bio_bio" where
  "unlink b = b\<lparr>bb_peer := None, bb_len := 0, bb_offset := 0\<rparr>"

definition bio_destroy_pair :: "nat \<Rightarrow> bios \<Rightarrow> bios" where
  "bio_destroy_pair a h = (case bb_peer (bio_ptr (h a)) of
     None \<Rightarrow> h
   | Some p \<Rightarrow>
      let h = upd_ptr p unlink (h(p := (h p)\<lparr>bio_init := False\<rparr>))
      in upd_ptr a unlink (h(a := (h a)\<lparr>bio_init := False\<rparr>)))"

text \<open>
  \<open>bio_free\<close> releases the buffer and the structure of \<open>a\<close>; the store keeps the record,
  which nothing refers to any more.
\<close>

definition bio_free :: "nat \<Rightarrow> bios \<Rightarrow> bios" where
  "bio_free a h = upd_ptr a (\<lambda>b. b\<lparr>bb_buf := None\<rparr>)
     (if bb_peer (bio_ptr (h a)) \<noteq> None then bio_destroy_pair a h else h)"

text \<open>\<open>malloc\<close> answers for a size; the fresh bytes are zero. \<open>None\<close> is failure.\<close>

definition make_buf :: "(nat \<Rightarrow> bool) \<Rightarrow> nat \<Rightarrow> bio_bio \<Rightarrow> bool \<times> bio_bio" where
  "make_buf malloc writebuf_len b =
    (if bb_buf b = None then
       let b = (if writebuf_len \<noteq> 0 then b\<lparr>bb_size := writebuf_len\<rparr> else b)
       in if \<not> malloc (bb_size b) then (False, b)
          else (True, b\<lparr>bb_buf := Some (replicate (bb_size b) 0), bb_len := 0, bb_offset := 0\<rparr>)
     else (True, b))"

definition bio_make_pair :: "(nat \<Rightarrow> bool) \<Rightarrow> nat \<Rightarrow> nat \<Rightarrow> nat \<Rightarrow> nat \<Rightarrow> bios \<Rightarrow> bool \<times> bios" where
  "bio_make_pair malloc a1 a2 writebuf1_len writebuf2_len h =
    (if bb_peer (bio_ptr (h a1)) \<noteq> None \<or> bb_peer (bio_ptr (h a2)) \<noteq> None then (False, h)
     else case make_buf malloc writebuf1_len (bio_ptr (h a1)) of
       (False, b1) \<Rightarrow> (False, upd_ptr a1 (\<lambda>_. b1) h)
     | (True, b1) \<Rightarrow>
        let h = upd_ptr a1 (\<lambda>_. b1) h
        in case make_buf malloc writebuf2_len (bio_ptr (h a2)) of
             (False, b2) \<Rightarrow> (False, upd_ptr a2 (\<lambda>_. b2) h)
           | (True, b2) \<Rightarrow>
              let h = upd_ptr a2 (\<lambda>_. b2) h;
                  h = upd_ptr a1 (\<lambda>b. b\<lparr>bb_peer := Some a2, bb_closed := False, bb_request := 0\<rparr>) h;
                  h = upd_ptr a2 (\<lambda>b. b\<lparr>bb_peer := Some a1, bb_closed := False, bb_request := 0\<rparr>) h;
                  h = h(a1 := (h a1)\<lparr>bio_init := True\<rparr>)
              in (True, h(a2 := (h a2)\<lparr>bio_init := True\<rparr>)))"

text \<open>
  The addresses of the two new BIOs and whether their structures could be allocated are
  arguments.
\<close>

definition BIO_new_bio_pair ::
  "(nat \<Rightarrow> bool) \<Rightarrow> nat option \<Rightarrow> nat option \<Rightarrow> nat \<Rightarrow> nat \<Rightarrow> bios \<Rightarrow> (nat \<times> nat) option \<times> bios" where
  "BIO_new_bio_pair malloc new1 new2 writebuf1_len writebuf2_len h =
    (case (new1, new2) of
       (Some a1, Some a2) \<Rightarrow>
         (case bio_make_pair malloc a1 a2 writebuf1_len writebuf2_len (h(a1 := bio_new, a2 := bio_new)) of
            (True, h) \<Rightarrow> (Some (a1, a2), h)
          | (False, h) \<Rightarrow> (None, bio_free a2 (bio_free a1 h)))
     | _ \<Rightarrow> (None, h))"

section \<open>Control\<close>

datatype bio_cmd =
  BIO_C_GET_WRITE_BUF_SIZE | BIO_C_GET_WRITE_GUARANTEE | BIO_C_GET_READ_REQUEST
| BIO_C_RESET_READ_REQUEST | BIO_C_SHUTDOWN_WR | BIO_CTRL_GET_CLOSE | BIO_CTRL_SET_CLOSE int
| BIO_CTRL_PENDING | BIO_CTRL_WPENDING | BIO_CTRL_FLUSH | BIO_CTRL_EOF "nat option" | BIO_other_cmd

fun bio_ctrl :: "nat \<Rightarrow> bio_cmd \<Rightarrow> bios \<Rightarrow> int \<times> bios" where
  "bio_ctrl a BIO_C_GET_WRITE_BUF_SIZE h = (int (bb_size (bio_ptr (h a))), h)"
| "bio_ctrl a BIO_C_GET_WRITE_GUARANTEE h =
    (let b = bio_ptr (h a)
     in (if bb_peer b = None \<or> bb_closed b then 0 else int (bb_size b) - int (bb_len b), h))"
| "bio_ctrl a BIO_C_GET_READ_REQUEST h = (int (bb_request (bio_ptr (h a))), h)"
| "bio_ctrl a BIO_C_RESET_READ_REQUEST h = (1, upd_ptr a (\<lambda>b. b\<lparr>bb_request := 0\<rparr>) h)"
| "bio_ctrl a BIO_C_SHUTDOWN_WR h = (1, upd_ptr a (\<lambda>b. b\<lparr>bb_closed := True\<rparr>) h)"
| "bio_ctrl a BIO_CTRL_GET_CLOSE h = (bio_shutdown (h a), h)"
| "bio_ctrl a (BIO_CTRL_SET_CLOSE n) h = (1, h(a := (h a)\<lparr>bio_shutdown := n\<rparr>))"
| "bio_ctrl a BIO_CTRL_PENDING h =
    (case bb_peer (bio_ptr (h a)) of None \<Rightarrow> 0 | Some p \<Rightarrow> int (bb_len (bio_ptr (h p))), h)"
| "bio_ctrl a BIO_CTRL_WPENDING h =
    (if bb_buf (bio_ptr (h a)) \<noteq> None then int (bb_len (bio_ptr (h a))) else 0, h)"
| "bio_ctrl a BIO_CTRL_FLUSH h = (1, h)"
| "bio_ctrl a (BIO_CTRL_EOF other) h =
    (case other of None \<Rightarrow> 1
     | Some p \<Rightarrow> of_bool (bb_len (bio_ptr (h p)) = 0 \<and> bb_closed (bio_ptr (h p))), h)"
| "bio_ctrl a BIO_other_cmd h = (0, h)"

definition BIO_ctrl_get_read_request :: "nat \<Rightarrow> bios \<Rightarrow> int" where
  "BIO_ctrl_get_read_request a h = fst (bio_ctrl a BIO_C_GET_READ_REQUEST h)"

definition BIO_ctrl_get_write_guarantee :: "nat \<Rightarrow> bios \<Rightarrow> int" where
  "BIO_ctrl_get_write_guarantee a h = fst (bio_ctrl a BIO_C_GET_WRITE_GUARANTEE h)"

definition BIO_shutdown_wr :: "nat \<Rightarrow> bios \<Rightarrow> int \<times> bios" where
  "BIO_shutdown_wr a h = bio_ctrl a BIO_C_SHUTDOWN_WR h"

section \<open>Bounded queues\<close>

text \<open>What the two ends rely on: bytes leave in the order in which they were accepted.\<close>

locale bounded_queue =
  fixes inv :: "'q \<Rightarrow> bool"
    and contents :: "'q \<Rightarrow> byte list"
    and capacity :: "'q \<Rightarrow> nat"
    and put :: "byte list \<Rightarrow> 'q \<Rightarrow> (nat \<times> 'q) option"
    and get :: "nat \<Rightarrow> 'q \<Rightarrow> (byte list \<times> 'q) option"
  assumes bounded: "inv q \<Longrightarrow> length (contents q) \<le> capacity q"
    and put_law: "inv q \<Longrightarrow> inp \<noteq> [] \<Longrightarrow> length (contents q) < capacity q \<Longrightarrow>
      n = min (length inp) (capacity q - length (contents q)) \<Longrightarrow>
      \<exists>q'. put inp q = Some (n, q') \<and> inv q' \<and> contents q' = contents q @ take n inp \<and> capacity q' = capacity q"
    and get_law: "inv q \<Longrightarrow> 0 < n \<Longrightarrow> contents q \<noteq> [] \<Longrightarrow>
      \<exists>q'. get n q = Some (take n (contents q), q') \<and> inv q' \<and> contents q' = drop n (contents q) \<and>
        capacity q' = capacity q"
begin

text \<open>The log of what was sent is the log of what was received and the contents.\<close>

lemma put_log:
  assumes "inv q" and "inp \<noteq> []" and "length (contents q) < capacity q" and "sent = received @ contents q"
  obtains n q' where "put inp q = Some (n, q')" and "inv q'" and "0 < n" and "n \<le> length inp"
    and "sent @ take n inp = received @ contents q'" and "capacity q' = capacity q"
    and "length inp \<le> capacity q - length (contents q) \<Longrightarrow> n = length inp"
proof -
  obtain q' where q': "put inp q = Some (min (length inp) (capacity q - length (contents q)), q')" "inv q'"
    "contents q' = contents q @ take (min (length inp) (capacity q - length (contents q))) inp" "capacity q' = capacity q"
    using put_law [OF assms(1-3) refl] by blast
  show thesis
    by (rule that [OF q'(1,2)]) (use q' assms(2-4) in auto)
qed

lemma get_log:
  assumes "inv q" and "0 < n" and "contents q \<noteq> []" and "sent = received @ contents q"
  obtains out q' where "get n q = Some (out, q')" and "inv q'" and "out = take n (contents q)" and "out \<noteq> []"
    and "sent = (received @ out) @ contents q'" and "capacity q' = capacity q"
proof -
  obtain q' where q': "get n q = Some (take n (contents q), q')" "inv q'" "contents q' = drop n (contents q)"
    "capacity q' = capacity q"
    using get_law [OF assms(1-3)] by blast
  show thesis
    by (rule that [OF q'(1,2) refl]) (use q' assms(2-4) in auto)
qed

end

section \<open>A ring buffer is a bounded queue\<close>

definition ring_ok :: "bio_bio \<Rightarrow> bool" where
  "ring_ok b \<longleftrightarrow> (\<exists>buf. bb_buf b = Some buf \<and> length buf = bb_size b) \<and> bb_len b \<le> bb_size b \<and>
     bb_offset b < bb_size b"

definition queue :: "bio_bio \<Rightarrow> byte list" where
  "queue b = take (bb_len b) (drop (bb_offset b) (the (bb_buf b)) @ take (bb_offset b) (the (bb_buf b)))"

lemma length_queue [simp]: "ring_ok b \<Longrightarrow> length (queue b) = bb_len b"
  by (auto simp: ring_ok_def queue_def)

text \<open>Reading takes one or two rounds, the second at the start of the buffer.\<close>

lemma read_loop_queue:
  assumes "length buf = sz" and "len \<le> sz" and "off < sz" and "0 < n" and "n \<le> len"
  defines "ring \<equiv> drop off buf @ take off buf"
  shows "\<exists>off'. read_loop buf sz len off n [] = Some (take n ring, len - n, off') \<and> off' < sz \<and>
    take (len - n) (drop off' buf @ take off' buf) = take (len - n) (drop n ring)"
proof (cases "off + n \<le> sz")
  case True
  have run: "read_loop buf sz len off n [] = Some (take n ring, len - n,
      if len - n \<noteq> 0 then if off + n = sz then 0 else off + n else 0)"
    using True assms(1) by (subst read_loop.simps) (simp add: ring_def Let_def)
  show ?thesis
    unfolding run using True assms by (auto simp: ring_def drop_take intro!: arg_cong2 [where f = take] arg_cong2 [where f = drop])
next
  case False
  then have "read_loop buf sz len off n [] = read_loop buf sz (len - (sz - off)) 0 (n - (sz - off)) (drop off buf)"
    using assms(1-5) by (subst read_loop.simps) (auto simp: Let_def)
  also have "\<dots> = Some (take n ring, len - n, if len - n \<noteq> 0 then n - (sz - off) else 0)"
    using False assms(1-5) by (subst read_loop.simps) (auto simp: Let_def ring_def)
  finally have run: "read_loop buf sz len off n [] = Some (take n ring, len - n, if len - n \<noteq> 0 then n - (sz - off) else 0)" .
  show ?thesis
    unfolding run using False assms by (auto simp: ring_def drop_take)
qed

lemma ring_get_queue:
  assumes "ring_ok b" and "0 < n" and "queue b \<noteq> []"
  shows "\<exists>b'. ring_get n b = Some (take n (queue b), b') \<and> ring_ok b' \<and> queue b' = drop n (queue b) \<and>
    bb_size b' = bb_size b \<and> bb_closed b' = bb_closed b \<and> bb_peer b' = bb_peer b \<and> bb_request b' = bb_request b"
proof -
  obtain buf where buf: "bb_buf b = Some buf" "length buf = bb_size b" "bb_len b \<le> bb_size b" "bb_offset b < bb_size b"
    using assms(1) by (auto simp: ring_ok_def)
  define k where "k = (if bb_len b < n then bb_len b else n)"
  have "bb_len b \<noteq> 0" using assms(1,3) by (metis length_0_conv length_queue)
  then have k: "0 < k" "k \<le> bb_len b" "k = min n (bb_len b)" using assms(2) by (auto simp: k_def)
  obtain off' where r: "read_loop buf (bb_size b) (bb_len b) (bb_offset b) k [] =
      Some (take k (drop (bb_offset b) buf @ take (bb_offset b) buf), bb_len b - k, off')"
    and off': "off' < bb_size b" "take (bb_len b - k) (drop off' buf @ take off' buf) =
      take (bb_len b - k) (drop k (drop (bb_offset b) buf @ take (bb_offset b) buf))"
    using read_loop_queue [OF buf(2-4) k(1,2)] by auto
  have out: "take k (drop (bb_offset b) buf @ take (bb_offset b) buf) = take n (queue b)"
    by (simp only: queue_def buf(1) option.sel take_take k(3))
  have get: "ring_get n b = Some (take n (queue b), b\<lparr>bb_len := bb_len b - k, bb_offset := off'\<rparr>)"
    unfolding ring_get_def Let_def k_def [symmetric] buf(1) option.sel r out by simp
  moreover have "queue (b\<lparr>bb_len := bb_len b - k, bb_offset := off'\<rparr>) = drop k (queue b)"
    using off'(2) by (simp add: queue_def buf(1) drop_take del: take_append drop_append)
  moreover have "drop k (queue b) = drop n (queue b)"
    using k length_queue [OF assms(1)] by (cases "n \<le> bb_len b") simp_all
  ultimately show ?thesis
    using buf off'(1) by (auto simp: ring_ok_def)
qed

text \<open>Writing takes one or two rounds as well.\<close>

lemma rotated_nth:
  "length buf = sz \<Longrightarrow> off < sz \<Longrightarrow> i < sz \<Longrightarrow>
    (drop off buf @ take off buf) ! i = buf ! (if off + i < sz then off + i else off + i - sz)"
  by (auto simp: nth_append add.commute)

lemma write_loop_queue:
  assumes "length buf = sz" and "off < sz" and "0 < n" and "len + n \<le> sz" and "n \<le> length inp"
  shows "\<exists>buf'. write_loop sz off buf len n inp = Some (buf', len + n) \<and> length buf' = sz \<and>
    take (len + n) (drop off buf' @ take off buf') = take len (drop off buf @ take off buf) @ take n inp"
proof -
  define wo where "wo = (if sz \<le> off + len then off + len - sz else off + len)"
  have wo: "wo < sz" using assms by (auto simp: wo_def)
  have append: ?thesis if run: "write_loop sz off buf len n inp = Some (buf', len + n)" and l: "length buf' = sz"
    and nth: "\<And>i. i < sz \<Longrightarrow> buf' ! i = (if wo \<le> i \<and> i < wo + n then inp ! (i - wo)
      else if i + sz < wo + n then inp ! (i + sz - wo) else buf ! i)" for buf'
  proof -
    have "take (len + n) (drop off buf' @ take off buf') = take len (drop off buf @ take off buf) @ take n inp"
    proof (rule nth_equalityI)
      fix i assume "i < length (take (len + n) (drop off buf' @ take off buf'))"
      then have i: "i < len + n" "i < sz" using l assms(2,4) by auto
      define j where "j = (if off + i < sz then off + i else off + i - sz)"
      have j: "j < sz" using i assms(2) by (auto simp: j_def)
      have "take (len + n) (drop off buf' @ take off buf') ! i = buf' ! j"
        unfolding j_def using rotated_nth [OF l assms(2) i(2)] i(1) by (simp only: nth_take)
      also have "\<dots> = (if i < len then buf ! j else inp ! (i - len))"
        using nth [OF j] i assms by (auto simp: j_def wo_def)
      also have "\<dots> = (take len (drop off buf @ take off buf) @ take n inp) ! i"
      proof (cases "i < len")
        case True
        then show ?thesis
          using rotated_nth [OF assms(1,2) i(2)] assms(1,4)
          by (subst nth_append_left) (simp_all add: j_def del: take_append)
      next
        case False
        then show ?thesis
          using i(1) assms(1,2,4) by (subst nth_append_right) (simp_all add: min_def del: take_append)
      qed
      finally show "take (len + n) (drop off buf' @ take off buf') ! i =
          (take len (drop off buf @ take off buf) @ take n inp) ! i" .
    qed (use l assms in simp)
    with run l show ?thesis by blast
  qed
  show ?thesis
  proof (cases "wo + n \<le> sz")
    case True
    have "write_loop sz off buf len n inp = Some (take wo buf @ take n inp @ drop (wo + n) buf, len + n)"
      using True by (subst write_loop.simps) (simp add: wo_def Let_def)
    then show ?thesis
      by (rule append) (use True assms wo in \<open>auto simp: nth_append min_def\<close>)
  next
    case False
    then have wo': "off + len < sz"
      using assms(2,4) unfolding wo_def by (cases "sz \<le> off + len") auto
    then have "wo = off + len" by (simp add: wo_def)
    note wo' = this wo'
    define c where "c = sz - wo"
    define buf1 where "buf1 = take wo buf @ take c inp"
    have c: "c < n" "0 < c" "wo + c = sz" "c \<le> length inp" using False wo assms(5) by (auto simp: c_def)
    have "write_loop sz off buf len n inp = write_loop sz off buf1 (len + c) (n - c) (drop c inp)"
      using False c(1) wo' assms(1) by (subst write_loop.simps) (simp add: c_def buf1_def Let_def)
    also have "\<dots> = Some (take (n - c) (drop c inp) @ drop (n - c) buf1, len + n)"
      using c wo' assms(2-4) by (subst write_loop.simps) (auto simp: Let_def)
    finally show ?thesis
    proof (rule append)
      have l: "length buf1 = sz" "length (take (n - c) (drop c inp)) = n - c" "n - c \<le> wo"
        using c wo' assms(1,4,5) by (simp_all add: buf1_def)
      then show "length (take (n - c) (drop c inp) @ drop (n - c) buf1) = sz"
        using wo by simp
      fix i assume i: "i < sz"
      show "(take (n - c) (drop c inp) @ drop (n - c) buf1) ! i = (if wo \<le> i \<and> i < wo + n then inp ! (i - wo)
          else if i + sz < wo + n then inp ! (i + sz - wo) else buf ! i)"
      proof (cases "i < n - c")
        case True
        then have "i + sz - wo = c + i" "i + sz < wo + n" "\<not> wo \<le> i" using c l(3) by simp_all
        with True l(2) c(4) show ?thesis by (simp add: nth_append)
      next
        case False
        then have "(take (n - c) (drop c inp) @ drop (n - c) buf1) ! i = buf1 ! i"
          using l i by (simp add: nth_append)
        moreover have "buf1 ! i = (if i < wo then buf ! i else inp ! (i - wo))"
          using i c wo assms(1) by (simp add: buf1_def nth_append)
        moreover have "\<not> i + sz < wo + n" "wo \<le> i \<Longrightarrow> i < wo + n"
          using False c i by simp_all
        ultimately show ?thesis by simp
      qed
    qed
  qed
qed

lemma ring_put_queue:
  assumes "ring_ok b" and "inp \<noteq> []" and "bb_len b < bb_size b"
  defines "n \<equiv> min (length inp) (bb_size b - bb_len b)"
  shows "\<exists>b'. ring_put inp b = Some (n, b') \<and> ring_ok b' \<and> queue b' = queue b @ take n inp \<and>
    bb_size b' = bb_size b \<and> bb_closed b' = bb_closed b \<and> bb_peer b' = bb_peer b \<and> bb_request b' = bb_request b"
proof -
  obtain buf where buf: "bb_buf b = Some buf" "length buf = bb_size b" "bb_len b \<le> bb_size b" "bb_offset b < bb_size b"
    using assms(1) by (auto simp: ring_ok_def)
  have n: "0 < n" "bb_len b + n \<le> bb_size b" "n \<le> length inp" 
    using assms(2,3) by (auto simp: n_def)
  obtain buf' where w: "write_loop (bb_size b) (bb_offset b) buf (bb_len b) n inp = Some (buf', bb_len b + n)"
    "length buf' = bb_size b" "take (bb_len b + n) (drop (bb_offset b) buf' @ take (bb_offset b) buf') =
      take (bb_len b) (drop (bb_offset b) buf @ take (bb_offset b) buf) @ take n inp"
    using write_loop_queue [OF buf(2,4) n] by auto
  have "ring_put inp b = Some (n, b\<lparr>bb_buf := Some buf', bb_len := bb_len b + n\<rparr>)"
  proof -
    have "(if bb_size b - bb_len b < length inp then bb_size b - bb_len b else length inp) = n"
      by (simp add: n_def)
    then show ?thesis
      unfolding ring_put_def Let_def using w(1) by (simp only: buf(1) option.sel option.case prod.case)
  qed
  then show ?thesis
    using w(2,3) buf n(2) by (auto simp: ring_ok_def queue_def)
qed

interpretation ring: bounded_queue ring_ok queue bb_size ring_put ring_get
proof
  show "length (queue q) \<le> bb_size q" if "ring_ok q" for q
    using that by (simp add: ring_ok_def)
  show "\<exists>q'. ring_put inp q = Some (n, q') \<and> ring_ok q' \<and> queue q' = queue q @ take n inp \<and> bb_size q' = bb_size q"
    if "ring_ok q" "inp \<noteq> []" "length (queue q) < bb_size q" "n = min (length inp) (bb_size q - length (queue q))" for q inp n
    using ring_put_queue [of q inp] that by auto
  show "\<exists>q'. ring_get n q = Some (take n (queue q), q') \<and> ring_ok q' \<and> queue q' = drop n (queue q) \<and> bb_size q' = bb_size q"
    if "ring_ok q" "0 < n" "queue q \<noteq> []" for q n
    using ring_get_queue [OF that] by blast
qed

lemma ring_frame:
  "ring_put inp b = Some (n, b') \<Longrightarrow> bb_peer b' = bb_peer b \<and> bb_closed b' = bb_closed b \<and> bb_request b' = bb_request b"
  "ring_get k b = Some (out, b') \<Longrightarrow> bb_peer b' = bb_peer b \<and> bb_closed b' = bb_closed b \<and> bb_request b' = bb_request b"
  by (auto simp: ring_put_def ring_get_def Let_def split: option.splits)

section \<open>Pairs\<close>

definition paired :: "nat \<Rightarrow> nat \<Rightarrow> bios \<Rightarrow> bool" where
  "paired a p h \<longleftrightarrow> a \<noteq> p \<and> bio_init (h a) \<and> bio_init (h p) \<and> bb_peer (bio_ptr (h a)) = Some p \<and>
     bb_peer (bio_ptr (h p)) = Some a \<and> ring_ok (bio_ptr (h a)) \<and> ring_ok (bio_ptr (h p))"

abbreviation q_of :: "bios \<Rightarrow> nat \<Rightarrow> byte list" where
  "q_of h a \<equiv> queue (bio_ptr (h a))"

lemma queue_simps [simp]:
  "queue (b\<lparr>bb_request := r\<rparr>) = queue b" "ring_ok (b\<lparr>bb_request := r\<rparr>) = ring_ok b"
  "queue (b\<lparr>bb_closed := c\<rparr>) = queue b" "ring_ok (b\<lparr>bb_closed := c\<rparr>) = ring_ok b"
  by (simp_all add: queue_def ring_ok_def)

lemma paired_sym: "paired a p h \<Longrightarrow> paired p a h"
  by (auto simp: paired_def)

lemma write_simps:
  assumes "bio_init (h a)" and "inp \<noteq> []"
  shows "BIO_write a inp h = (case bio_write a inp h of None \<Rightarrow> None
     | Some (ret, h) \<Rightarrow>
         Some (ret, if 0 < ret then h(a := (h a)\<lparr>num_write := size_add (num_write (h a)) (nat ret)\<rparr>) else h))"
  using assms by (simp add: BIO_write_def)

lemmas flag_defs = BIO_FLAGS_READ_def BIO_FLAGS_WRITE_def BIO_FLAGS_RWS_def BIO_FLAGS_SHOULD_RETRY_def

lemma flag_set:
  assumes "f \<noteq> 0" and "y AND f = f"
  shows "(x OR y) AND f \<noteq> (0 :: u32)"
proof -
  have "(x OR y) AND f = (x AND f) OR (y AND f)"
    by (rule bit_word_eqI) (auto simp: bit_simps)
  with assms show ?thesis by (simp only: or_eq_0_iff) simp
qed

lemma BIO_write_spec:
  assumes "paired a p h" and "inp \<noteq> []" and "sent = received @ q_of h a"
  shows "\<exists>r h'. BIO_write a inp h = Some (r, h') \<and> paired a p h' \<and> q_of h' p = q_of h p \<and>
    sent @ take (nat r) inp = received @ q_of h' a \<and> r \<le> int (length inp) \<and>
    (if bb_closed (bio_ptr (h a)) then r = - 1
     else if length (q_of h a) = bb_size (bio_ptr (h a)) then r = - 1 \<and> BIO_should_retry (h' a) \<and> BIO_should_write (h' a)
     else 0 < r \<and> (length inp \<le> bb_size (bio_ptr (h a)) - length (q_of h a) \<longrightarrow> r = int (length inp)))"
proof -
  define b where "b = (bio_ptr (h a))\<lparr>bb_request := 0\<rparr>"
  have b: "ring_ok b" "queue b = q_of h a" "bb_size b = bb_size (bio_ptr (h a))" "bb_closed b = bb_closed (bio_ptr (h a))"
    "length (queue b) = bb_len b"
    using assms(1) by (simp_all add: b_def paired_def)
  have pa: "a \<noteq> p" "bio_init (h a)" using assms(1) by (simp_all add: paired_def)
  consider "bb_closed b" | "\<not> bb_closed b" "bb_len b = bb_size b" | "\<not> bb_closed b" "bb_len b < bb_size b"
    using b(1) by (force simp: ring_ok_def)
  then show ?thesis
  proof cases
    case 3
    obtain n b' where put: "ring_put inp b = Some (n, b')" "ring_ok b'" "0 < n" "n \<le> length inp"
      "sent @ take n inp = received @ queue b'" "bb_size b' = bb_size b"
      "length inp \<le> bb_size b - length (queue b) \<Longrightarrow> n = length inp"
      using ring.put_log [OF b(1) assms(2), of sent received] 3 b(5) assms(3) unfolding b(2) [symmetric] by metis
    show ?thesis
      using 3 put ring_frame(1) [OF put(1)] assms(1,2) b pa
      by (auto simp: BIO_write_def bio_write_def BIO_clear_retry_flags_def upd_ptr_def Let_def paired_def b_def)
  next
    case 1
    then show ?thesis
      using assms pa b
      by (auto simp: BIO_write_def bio_write_def BIO_clear_retry_flags_def upd_ptr_def Let_def paired_def b_def)
  next
    case 2
    have flags: "BIO_should_retry (b\<lparr>bio_flags := x OR (BIO_FLAGS_WRITE OR BIO_FLAGS_SHOULD_RETRY)\<rparr>)"
      "BIO_should_write (b\<lparr>bio_flags := x OR (BIO_FLAGS_WRITE OR BIO_FLAGS_SHOULD_RETRY)\<rparr>)" for b x
      by (simp_all add: BIO_should_retry_def BIO_should_write_def flag_set flag_defs)
    from 2 show ?thesis
      using assms pa b flags
      by (auto simp: BIO_write_def bio_write_def BIO_clear_retry_flags_def BIO_set_retry_write_def upd_ptr_def Let_def
          paired_def b_def)
  qed
qed

lemma BIO_read_spec:
  assumes "paired a p h" and "0 < n" and "sent = received @ q_of h p"
  shows "\<exists>r out h'. BIO_read a n h = Some (r, out, h') \<and> paired a p h' \<and> q_of h' a = q_of h a \<and>
    sent = (received @ out) @ q_of h' p \<and>
    (if q_of h p \<noteq> [] then out = take (nat n) (q_of h p) \<and> r = int (length out) \<and> 0 < r
     else out = [] \<and> (if bb_closed (bio_ptr (h p)) then r = 0 else r = - 1 \<and> BIO_should_retry (h' a) \<and>
       BIO_should_read (h' a) \<and> bb_request (bio_ptr (h' p)) = min (nat n) (bb_size (bio_ptr (h p)))))"
proof -
  define b where "b = (bio_ptr (h p))\<lparr>bb_request := 0\<rparr>"
  have b: "ring_ok b" "queue b = q_of h p" "bb_size b = bb_size (bio_ptr (h p))" "bb_closed b = bb_closed (bio_ptr (h p))"
    "length (queue b) = bb_len b"
    using assms(1) by (simp_all add: b_def paired_def)
  have pa: "a \<noteq> p" "bio_init (h a)" "bb_peer (bio_ptr (h a)) = Some p" using assms(1) by (simp_all add: paired_def)
  have n: "0 < nat n" using assms(2) by simp
  consider "bb_len b \<noteq> 0" | "bb_len b = 0" "bb_closed b" | "bb_len b = 0" "\<not> bb_closed b" by blast
  then show ?thesis
  proof cases
    case 1
    then have ne: "queue b \<noteq> []" using b(5) by auto
    obtain out b' where get: "ring_get (nat n) b = Some (out, b')" "ring_ok b'" "out = take (nat n) (queue b)" "out \<noteq> []"
      "sent = (received @ out) @ queue b'" "bb_size b' = bb_size b"
      using ring.get_log [OF b(1) n ne assms(3) [folded b(2)]] by blast
    show ?thesis
      using 1 get ring_frame(2) [OF get(1)] assms(1,2) b pa ne
      by (auto simp: BIO_read_def bio_read_def BIO_clear_retry_flags_def upd_ptr_def Let_def paired_def b_def)
  next
    case 2
    then have "queue b = []" using b(5) by simp
    with 2 show ?thesis
      using assms pa b
      by (auto simp: BIO_read_def bio_read_def BIO_clear_retry_flags_def upd_ptr_def Let_def paired_def b_def)
  next
    case 3
    then have "queue b = []" using b(5) by simp
    moreover have flags: "BIO_should_retry (c\<lparr>bio_flags := x OR (BIO_FLAGS_READ OR BIO_FLAGS_SHOULD_RETRY)\<rparr>)"
      "BIO_should_read (c\<lparr>bio_flags := x OR (BIO_FLAGS_READ OR BIO_FLAGS_SHOULD_RETRY)\<rparr>)" for c x
      by (simp_all add: BIO_should_retry_def BIO_should_read_def flag_set flag_defs)
    ultimately show ?thesis
      using 3 assms pa b
      by (auto simp: BIO_read_def bio_read_def BIO_clear_retry_flags_def BIO_set_retry_read_def upd_ptr_def Let_def
          paired_def b_def)
  qed
qed

text \<open>
  Any use of the two ends, with the logs of the bytes that each has sent and received.
\<close>

datatype bio_event = Write nat "byte list" | Read nat int | Shutdown nat

type_synonym bio_logs = "bios \<times> (nat \<Rightarrow> byte list) \<times> (nat \<Rightarrow> byte list)"

fun do_event :: "bio_event \<Rightarrow> bio_logs \<Rightarrow> bio_logs option" where
  "do_event (Write a inp) (h, sent, received) =
    (case BIO_write a inp h of None \<Rightarrow> None
     | Some (r, h') \<Rightarrow> Some (h', sent(a := sent a @ take (nat r) inp), received))"
| "do_event (Read a n) (h, sent, received) =
    (case BIO_read a n h of None \<Rightarrow> None
     | Some (r, out, h') \<Rightarrow> Some (h', sent, received(a := received a @ out)))"
| "do_event (Shutdown a) (h, sent, received) = Some (snd (BIO_shutdown_wr a h), sent, received)"

fun bio_run :: "bio_event list \<Rightarrow> bio_logs \<Rightarrow> bio_logs option" where
  "bio_run [] s = Some s"
| "bio_run (e # es) s = (case do_event e s of None \<Rightarrow> None | Some t \<Rightarrow> bio_run es t)"

fun event_end :: "bio_event \<Rightarrow> nat" where
  "event_end (Write a inp) = a"
| "event_end (Read a n) = a"
| "event_end (Shutdown a) = a"

definition in_transit :: "nat \<Rightarrow> nat \<Rightarrow> bio_logs \<Rightarrow> bool" where
  "in_transit a p s \<longleftrightarrow> (case s of (h, sent, received) \<Rightarrow>
     paired a p h \<and> sent a = received p @ q_of h a \<and> sent p = received a @ q_of h p)"

lemma in_transit_sym: "in_transit a p s \<Longrightarrow> in_transit p a s"
  by (auto simp: in_transit_def paired_sym)

lemma event_transit:
  assumes "in_transit a p s" and "event_end e = a"
  shows "\<exists>t. do_event e s = Some t \<and> in_transit a p t"
proof -
  obtain h sent received where s: "s = (h, sent, received)" by (metis prod.collapse)
  then have pr: "paired a p h" and logs: "sent a = received p @ q_of h a" "sent p = received a @ q_of h p"
    using assms(1) by (simp_all add: in_transit_def)
  have ne: "a \<noteq> p" and init: "bio_init (h a)" using pr by (simp_all add: paired_def)
  show ?thesis
  proof (cases e)
    case (Write a' inp)
    show ?thesis
    proof (cases "inp = []")
      case True
      with Write assms init s show ?thesis by (simp add: BIO_write_def in_transit_def)
    next
      case False
      from BIO_write_spec [OF pr False logs(1)] obtain r h' where
        "BIO_write a inp h = Some (r, h')" "paired a p h'" "q_of h' p = q_of h p"
        "sent a @ take (nat r) inp = received p @ q_of h' a" by blast
      with Write assms(2) logs ne s show ?thesis by (simp add: in_transit_def)
    qed
  next
    case (Read a' n)
    show ?thesis
    proof (cases "0 < n")
      case False
      with Read assms init s show ?thesis by (simp add: BIO_read_def in_transit_def)
    next
      case True
      from BIO_read_spec [OF pr True logs(2)] obtain r out h' where
        "BIO_read a n h = Some (r, out, h')" "paired a p h'" "q_of h' a = q_of h a"
        "sent p = (received a @ out) @ q_of h' p" by blast
      with Read assms(2) logs ne s show ?thesis by (simp add: in_transit_def)
    qed
  next
    case (Shutdown a')
    with assms s ne show ?thesis
      by (simp add: BIO_shutdown_wr_def in_transit_def paired_def upd_ptr_def)
  qed
qed

lemma run_transit:
  "in_transit a p s \<Longrightarrow> \<forall>e \<in> set es. event_end e = a \<or> event_end e = p \<Longrightarrow>
    \<exists>t. bio_run es s = Some t \<and> in_transit a p t"
proof (induction es arbitrary: s)
  case (Cons e es)
  from Cons.prems(2) consider "event_end e = a" | "event_end e = p" by auto
  then obtain t where "do_event e s = Some t" "in_transit a p t"
    using event_transit [OF Cons.prems(1)] event_transit [OF in_transit_sym [OF Cons.prems(1)]] in_transit_sym
    by cases blast+
  with Cons.IH [of t] Cons.prems(2) show ?case by simp
qed simp

lemma new_pair:
  assumes "BIO_new_bio_pair malloc (Some a) (Some p) n m h = (Some (a, p), h')" and "a \<noteq> p"
  shows "paired a p h'" and "q_of h' a = []" and "q_of h' p = []"
    and "bb_size (bio_ptr (h' a)) = (if n = 0 then 17 * 1024 else n)"
    and "bb_size (bio_ptr (h' p)) = (if m = 0 then 17 * 1024 else m)"
  using assms
  by (auto simp: BIO_new_bio_pair_def bio_make_pair_def make_buf_def bio_new_def upd_ptr_def paired_def ring_ok_def
      queue_def Let_def split: if_splits)

lemma new_pair_fails:
  assumes "BIO_new_bio_pair malloc (Some a) (Some p) n m h = (None, h')" and "a \<noteq> p"
  shows "bb_buf (bio_ptr (h' a)) = None \<and> bb_buf (bio_ptr (h' p)) = None \<and>
    (\<not> malloc (if n = 0 then 17 * 1024 else n) \<or> \<not> malloc (if m = 0 then 17 * 1024 else m))"
  using assms
  by (auto simp: BIO_new_bio_pair_def bio_make_pair_def make_buf_def bio_new_def bio_free_def upd_ptr_def Let_def
      split: if_splits)

text \<open>Breaking the pair empties both queues, and both ends refuse to work afterwards.\<close>

lemma destroy_pair:
  assumes "paired a p h"
  shows "\<forall>x \<in> {a, p}. \<not> bio_init (bio_destroy_pair a h x) \<and> bb_peer (bio_ptr (bio_destroy_pair a h x)) = None
    \<and> q_of (bio_destroy_pair a h) x = []"
  using assms by (auto simp: bio_destroy_pair_def upd_ptr_def unlink_def queue_def paired_def)

lemma write_guarantee:
  assumes "paired a p h" and "inp \<noteq> []" and "int (length inp) \<le> BIO_ctrl_get_write_guarantee a h"
  shows "\<exists>h'. BIO_write a inp h = Some (int (length inp), h') \<and> q_of h' a = q_of h a @ inp"
proof -
  have l: "length (q_of h a) = bb_len (bio_ptr (h a))"
    using assms(1) by (simp add: paired_def)
  with assms have "\<not> bb_closed (bio_ptr (h a))" "length (q_of h a) \<noteq> bb_size (bio_ptr (h a))"
    "length inp \<le> bb_size (bio_ptr (h a)) - length (q_of h a)"
    by (auto simp: BIO_ctrl_get_write_guarantee_def paired_def Let_def split: if_splits)
  with BIO_write_spec [OF assms(1,2), of "q_of h a" "[]"] show ?thesis by auto
qed

end
