(* ===== verification/Bn_Words.thy ===== *)
theory Bn_Words
  imports Consttime
begin

text \<open>
  The arithmetic on arrays of limbs under the big numbers: \<open>fipsmodule/bn/generic.c\<close>, the
  word-level functions of \<open>cmp.c\<close>, \<open>div.c\<close> and \<open>bn.c\<close>, and the quadratic multiplication and
  squaring of \<open>mul.c\<close>.  A \<open>BN_ULONG\<close> has 64 bits and \<open>BN_ULLONG\<close> is the 128-bit type of the
  compilers.  An array is the list of its limbs, least significant first; a length that is an
  argument in C is the length of the lists.  The loops of \<open>generic.c\<close> repeat one statement per
  limb, four times unrolled; a step of the functions here is that statement.
\<close>

type_synonym u128 = "128 word"
type_synonym limbs = "u64 list"

named_theorems bn_spec \<open>values and lengths of what the word operations compute\<close>

section \<open>The operations\<close>

definition Lw :: "u128 \<Rightarrow> u64" where "Lw t = ucast t"
definition Hw :: "u128 \<Rightarrow> u64" where "Hw t = ucast (drop_bit 64 t)"

definition mul_add :: "u64 \<Rightarrow> u64 \<Rightarrow> u64 \<Rightarrow> u64 \<Rightarrow> u64 \<times> u64" where
  "mul_add r a w c = (let t = (ucast w :: u128) * ucast a + ucast r + ucast c in (Lw t, Hw t))"

definition bn_mul :: "u64 \<Rightarrow> u64 \<Rightarrow> u64 \<Rightarrow> u64 \<times> u64" where
  "bn_mul a w c = (let t = (ucast w :: u128) * ucast a + ucast c in (Lw t, Hw t))"

definition bn_sqr :: "u64 \<Rightarrow> u64 \<times> u64" where
  "bn_sqr a = (let t = (ucast a :: u128) * ucast a in (Lw t, Hw t))"

text \<open>The carry word is threaded through; the result is the new array and the last carry.\<close>

fun mul_add_words :: "u64 \<Rightarrow> limbs \<Rightarrow> limbs \<Rightarrow> u64 \<Rightarrow> limbs \<times> u64" where
  "mul_add_words c (r # rp) (a # ap) w =
    (let (r', c') = mul_add r a w c; (rs, c'') = mul_add_words c' rp ap w in (r' # rs, c''))"
| "mul_add_words c _ _ w = ([], c)"

definition bn_mul_add_words :: "limbs \<Rightarrow> limbs \<Rightarrow> u64 \<Rightarrow> limbs \<times> u64" where
  "bn_mul_add_words rp ap w = mul_add_words 0 rp ap w"

fun mul_words :: "u64 \<Rightarrow> limbs \<Rightarrow> u64 \<Rightarrow> limbs \<times> u64" where
  "mul_words c (a # ap) w =
    (let (r, c') = bn_mul a w c; (rs, c'') = mul_words c' ap w in (r # rs, c''))"
| "mul_words c [] w = ([], c)"

definition bn_mul_words :: "limbs \<Rightarrow> u64 \<Rightarrow> limbs \<times> u64" where
  "bn_mul_words ap w = mul_words 0 ap w"

fun bn_sqr_words :: "limbs \<Rightarrow> limbs" where
  "bn_sqr_words (a # ap) = (let (r0, r1) = bn_sqr a in r0 # r1 # bn_sqr_words ap)"
| "bn_sqr_words [] = []"

fun add_words :: "u128 \<Rightarrow> limbs \<Rightarrow> limbs \<Rightarrow> limbs \<times> u128" where
  "add_words ll (a # as) (b # bs) =
    (let ll = ll + (ucast a + ucast b); (rs, ll') = add_words (drop_bit 64 ll) as bs
     in (ucast ll # rs, ll'))"
| "add_words ll _ _ = ([], ll)"

definition bn_add_words :: "limbs \<Rightarrow> limbs \<Rightarrow> limbs \<times> u64" where
  "bn_add_words a b = (case add_words 0 a b of (r, ll) \<Rightarrow> (r, ucast ll))"

fun sub_words :: "u64 \<Rightarrow> limbs \<Rightarrow> limbs \<Rightarrow> limbs \<times> u64" where
  "sub_words c (t1 # as) (t2 # bs) =
    (let (rs, c') = sub_words (if t1 \<noteq> t2 then of_bool (t1 < t2) else c) as bs
     in ((t1 - t2 - c) # rs, c'))"
| "sub_words c _ _ = ([], c)"

definition bn_sub_words :: "limbs \<Rightarrow> limbs \<Rightarrow> limbs \<times> u64" where
  "bn_sub_words a b = sub_words 0 a b"

definition bn_select_words :: "u64 \<Rightarrow> limbs \<Rightarrow> limbs \<Rightarrow> limbs" where
  "bn_select_words m a b = map2 (constant_time_select_w m) a b"

section \<open>Numbers in limbs\<close>

definition bn_base :: nat where "bn_base = 2 ^ 64"

fun bn_val :: "limbs \<Rightarrow> nat" where
  "bn_val [] = 0"
| "bn_val (x # xs) = unat x + bn_base * bn_val xs"

lemma bn_base_pos [simp]: "0 < bn_base" "bn_base \<noteq> 0" "Suc 0 \<le> bn_base"
  by (simp_all add: bn_base_def)

lemma limb_less [simp]: "unat (x :: u64) < bn_base"
  using unsigned_less [of x] by (simp add: bn_base_def)

lemma bn_val_less: "bn_val xs < bn_base ^ length xs"
proof (induction xs)
  case (Cons x xs)
  then have "Suc (bn_val xs) \<le> bn_base ^ length xs" by simp
  then have "bn_base * Suc (bn_val xs) \<le> bn_base * bn_base ^ length xs"
    by (rule mult_le_mono2)
  with limb_less [of x] show ?case by (simp del: limb_less)
qed simp

lemma bn_val_append: "bn_val (xs @ ys) = bn_val xs + bn_base ^ length xs * bn_val ys"
  by (induction xs) (simp_all add: algebra_simps)

lemma bn_val_replicate_0 [simp]: "bn_val (replicate n 0) = 0"
  by (induction n) simp_all

lemma bn_val_take_drop: "n \<le> length xs \<Longrightarrow> bn_val xs = bn_val (take n xs) + bn_base ^ n * bn_val (drop n xs)"
  using bn_val_append [of "take n xs" "drop n xs"] by simp

lemma bn_val_0_iff: "bn_val xs = 0 \<longleftrightarrow> (\<forall>x \<in> set xs. x = 0)"
  by (induction xs) (auto simp: unat_eq_0)

lemma bn_val_inject: "length xs = length ys \<Longrightarrow> bn_val xs = bn_val ys \<longleftrightarrow> xs = ys"
proof (induction xs ys rule: list_induct2)
  case (Cons x xs y ys)
  have "x = y \<and> bn_val xs = bn_val ys" if "unat x + bn_base * bn_val xs = unat y + bn_base * bn_val ys"
  proof -
    from that have "(unat x + bn_base * bn_val xs) mod bn_base = (unat y + bn_base * bn_val ys) mod bn_base"
      by simp
    then have "unat x = unat y" by (simp add: mod_less)
    with that show ?thesis by (simp add: word_unat_eq_iff)
  qed
  with Cons show ?case by auto
qed simp

lemma unat_Lw_Hw: "unat (Lw t) + bn_base * unat (Hw t) = unat t"
proof -
  have "unat (Lw t) = unat t mod 2 ^ 64"
    by (simp add: Lw_def unsigned_ucast_eq take_bit_eq_mod)
  moreover have "unat t div 2 ^ 64 < 2 ^ 64"
    using unsigned_less [of t] by (intro less_mult_imp_div_less) simp
  then have "unat (Hw t) = unat t div 2 ^ 64"
    by (simp add: Hw_def unsigned_ucast_eq unat_drop_bit_eq drop_bit_eq_div [where 'a = nat] take_bit_nat_eq_self_iff)
  ultimately show ?thesis by (simp add: bn_base_def)
qed

lemma unat_ucast_128 [simp]: "unat (ucast (x :: u64) :: u128) = unat x"
  by (simp add: unsigned_ucast_eq take_bit_nat_eq_self_iff less_le_trans [OF unsigned_less])

lemma bn_base_sq: "bn_base * bn_base = 2 ^ 128"
  by (simp add: bn_base_def)

text \<open>\<open>w * a + r + c\<close> fits two limbs.\<close>

lemma mul_add_fits:
  assumes "w < bn_base" "a < bn_base" "r < bn_base" "c < bn_base"
  shows "w * a + r + c < bn_base * bn_base"
proof -
  obtain B where B: "bn_base = Suc B" using bn_base_pos(1) gr0_implies_Suc by blast
  have "w \<le> B" "a \<le> B" "r \<le> B" "c \<le> B"
    using assms unfolding B by simp_all
  then have "w * a \<le> B * B" "r + c \<le> B + B"
    by (simp_all add: mult_le_mono add_mono)
  then have "w * a + r + c < Suc B * Suc B" by simp
  then show ?thesis unfolding B .
qed

lemma mul_add_val [bn_spec]:
  "mul_add r a w c = (r', c') \<Longrightarrow> unat r' + bn_base * unat c' = unat w * unat a + unat r + unat c"
proof -
  assume eq: "mul_add r a w c = (r', c')"
  let ?t = "(ucast w :: u128) * ucast a + ucast r + ucast c"
  have "unat w * unat a + unat r + unat c < 2 ^ 128"
    using mul_add_fits [of "unat w" "unat a" "unat r" "unat c"] by (simp only: limb_less bn_base_sq simp_thms)
  then have "unat ?t = unat w * unat a + unat r + unat c"
    by (simp add: unat_word_ariths)
  with eq unat_Lw_Hw [of ?t] show ?thesis by (auto simp: mul_add_def Let_def)
qed

lemma bn_mul_val:
  "bn_mul a w c = (r', c') \<Longrightarrow> unat r' + bn_base * unat c' = unat w * unat a + unat c"
  using mul_add_val [of 0 a w c r' c'] by (simp add: mul_add_def bn_mul_def)

lemma bn_sqr_val: "bn_sqr a = (r0, r1) \<Longrightarrow> unat r0 + bn_base * unat r1 = unat a * unat a"
  using mul_add_val [of 0 a a 0 r0 r1] by (simp add: mul_add_def bn_sqr_def)

lemma mul_add_words_val:
  "mul_add_words c rp ap w = (rs, c') \<Longrightarrow> length rp = length ap \<Longrightarrow>
    length rs = length ap \<and>
    bn_val rs + bn_base ^ length ap * unat c' = bn_val rp + unat w * bn_val ap + unat c"
proof (induction c rp ap w arbitrary: rs c' rule: mul_add_words.induct)
  case (1 c r rp a ap w)
  obtain r0 c0 where step: "mul_add r a w c = (r0, c0)" by (cases "mul_add r a w c")
  obtain rs0 where rest: "mul_add_words c0 rp ap w = (rs0, c')" "rs = r0 # rs0"
    using 1(2) step by (auto split: prod.splits)
  from 1(1) [OF step [symmetric] refl rest(1)] 1(3) have
    len: "length rs0 = length ap" and
    val: "bn_val rs0 + bn_base ^ length ap * unat c' = bn_val rp + unat w * bn_val ap + unat c0"
    by simp_all
  have "bn_val rs + bn_base ^ length (a # ap) * unat c' =
      unat r0 + bn_base * (bn_val rs0 + bn_base ^ length ap * unat c')"
    by (simp add: rest(2) algebra_simps)
  also have "\<dots> = (unat r0 + bn_base * unat c0) + bn_base * (bn_val rp + unat w * bn_val ap)"
    unfolding val by (simp add: algebra_simps)
  also have "\<dots> = bn_val (r # rp) + unat w * bn_val (a # ap) + unat c"
    using mul_add_val [OF step] by (simp add: algebra_simps)
  finally show ?case using len rest(2) by simp
qed simp_all

lemma bn_mul_add_words_val [bn_spec]:
  assumes "bn_mul_add_words rp ap w = (rs, c)" and "length rp = length ap"
  shows "length rs = length ap" and
    "bn_val rs + bn_base ^ length ap * unat c = bn_val rp + unat w * bn_val ap"
  using mul_add_words_val [of 0 rp ap w rs c] assms by (simp_all add: bn_mul_add_words_def)

lemma mul_words_mul_add: "mul_words c ap w = mul_add_words c (replicate (length ap) 0) ap w"
  by (induction ap arbitrary: c) (simp_all add: bn_mul_def mul_add_def Let_def)

lemma bn_mul_words_val [bn_spec]:
  assumes "bn_mul_words ap w = (rs, c)"
  shows "length rs = length ap" and "bn_val rs + bn_base ^ length ap * unat c = unat w * bn_val ap"
  using mul_add_words_val [of 0 "replicate (length ap) 0" ap w rs c] assms
  by (simp_all add: bn_mul_words_def mul_words_mul_add)

text \<open>The sum of the squares of the limbs, each at its place.\<close>

fun squares :: "limbs \<Rightarrow> nat" where
  "squares [] = 0"
| "squares (x # xs) = unat x * unat x + bn_base * bn_base * squares xs"

lemma bn_sqr_words_val [bn_spec]:
  "length (bn_sqr_words a) = 2 * length a \<and> bn_val (bn_sqr_words a) = squares a"
proof (induction a)
  case (Cons x xs)
  obtain r0 r1 where "bn_sqr x = (r0, r1)" by (cases "bn_sqr x")
  with Cons bn_sqr_val [OF this] show ?case by (simp add: algebra_simps)
qed simp

lemma add_words_val:
  "add_words ll as bs = (rs, ll') \<Longrightarrow> length as = length bs \<Longrightarrow> unat ll \<le> 1 \<Longrightarrow>
    length rs = length bs \<and> unat ll' \<le> 1 \<and>
    bn_val rs + bn_base ^ length bs * unat ll' = bn_val as + bn_val bs + unat ll"
proof (induction ll as bs arbitrary: rs ll' rule: add_words.induct)
  case (1 ll a as b bs)
  let ?t = "ll + (ucast a + ucast b) :: u128"
  have bound: "unat a + unat b + unat ll < 2 * bn_base"
    using 1(4) limb_less [of a] limb_less [of b] by linarith
  have "2 * bn_base \<le> 2 ^ 128" by (simp add: bn_base_def)
  with bound have "unat ll + (unat a + unat b) < 2 ^ 128" by linarith
  then have sum: "unat ?t = unat a + unat b + unat ll"
    by (simp add: unat_word_ariths)
  have hi: "unat (drop_bit 64 ?t) = unat ?t div bn_base"
    by (simp add: unat_drop_bit_eq drop_bit_eq_div [where 'a = nat] bn_base_def)
  have lo: "unat (ucast ?t :: u64) = unat ?t mod bn_base"
    by (simp add: unsigned_ucast_eq take_bit_eq_mod bn_base_def)
  have carry: "unat (drop_bit 64 ?t) \<le> 1"
    using less_mult_imp_div_less [OF bound] unfolding hi sum by simp
  obtain rs0 where rest: "add_words (drop_bit 64 ?t) as bs = (rs0, ll')" "rs = ucast ?t # rs0"
    using 1(2) by (auto simp: Let_def split: prod.splits)
  from 1(1) [OF refl rest(1)] 1(3) carry have IH: "length rs0 = length bs" "unat ll' \<le> 1"
    "bn_val rs0 + bn_base ^ length bs * unat ll' = bn_val as + bn_val bs + unat (drop_bit 64 ?t)"
    by simp_all
  have "bn_val rs + bn_base ^ length (b # bs) * unat ll' =
      unat (ucast ?t :: u64) + bn_base * (bn_val rs0 + bn_base ^ length bs * unat ll')"
    by (simp add: rest(2) algebra_simps)
  also have "\<dots> = (unat ?t mod bn_base + bn_base * (unat ?t div bn_base)) + bn_base * (bn_val as + bn_val bs)"
    unfolding IH(3) hi lo by (simp add: algebra_simps)
  also have "\<dots> = bn_val (a # as) + bn_val (b # bs) + unat ll"
    by (simp add: sum algebra_simps)
  finally show ?case using IH rest(2) by simp
qed simp_all

lemma bn_add_words_val [bn_spec]:
  assumes "bn_add_words a b = (r, c)" and "length a = length b"
  shows "length r = length b" and "unat c \<le> 1" and
    "bn_val r + bn_base ^ length b * unat c = bn_val a + bn_val b"
proof -
  obtain ll where run: "add_words 0 a b = (r, ll)" "c = ucast ll"
    using assms(1) by (auto simp: bn_add_words_def split: prod.splits)
  from add_words_val [OF this(1) assms(2)] have v: "length r = length b" "unat ll \<le> 1"
    "bn_val r + bn_base ^ length b * unat ll = bn_val a + bn_val b" by simp_all
  then have "unat c = unat ll"
    by (simp add: run(2) unsigned_ucast_eq take_bit_nat_eq_self_iff)
  with v show "length r = length b" "unat c \<le> 1"
    "bn_val r + bn_base ^ length b * unat c = bn_val a + bn_val b" by simp_all
qed

lemma sub_step:
  assumes "c = 0 \<or> c = (1 :: u64)"
  shows "unat (t1 - t2 - c) + unat t2 + unat c =
    unat t1 + bn_base * unat (if t1 \<noteq> t2 then of_bool (t1 < t2) else c)"
  using assms unsigned_less [of t1, where 'a = nat] unsigned_less [of t2, where 'a = nat]
  by (auto simp: unat_sub_if_size word_size bn_base_def word_less_nat_alt word_unat_eq_iff)

lemma sub_words_val:
  "sub_words c as bs = (rs, c') \<Longrightarrow> length as = length bs \<Longrightarrow> c = 0 \<or> c = 1 \<Longrightarrow>
    length rs = length bs \<and> (c' = 0 \<or> c' = 1) \<and>
    bn_val rs + bn_val bs + unat c = bn_val as + bn_base ^ length bs * unat c'"
proof (induction c as bs arbitrary: rs c' rule: sub_words.induct)
  case (1 c t1 as t2 bs)
  let ?c = "if t1 \<noteq> t2 then of_bool (t1 < t2) else c"
  obtain rs0 where rest: "sub_words ?c as bs = (rs0, c')" "rs = (t1 - t2 - c) # rs0"
    using 1(2) by (auto simp: Let_def split: prod.splits)
  have "?c = 0 \<or> ?c = 1" using 1(4) by auto
  with 1(1) [OF rest(1)] 1(3) have IH: "length rs0 = length bs" "c' = 0 \<or> c' = 1"
    "bn_val rs0 + bn_val bs + unat ?c = bn_val as + bn_base ^ length bs * unat c'"
    by simp_all
  have "bn_val rs + bn_val (t2 # bs) + unat c + bn_base * unat ?c =
      (unat (t1 - t2 - c) + unat t2 + unat c) + bn_base * (bn_val rs0 + bn_val bs + unat ?c)"
    by (simp add: rest(2) algebra_simps del: of_bool_eq)
  also have "\<dots> = bn_val (t1 # as) + bn_base ^ length (t2 # bs) * unat c' + bn_base * unat ?c"
    unfolding IH(3) sub_step [OF 1(4)] by (simp add: algebra_simps)
  finally show ?case using IH rest(2) by (simp del: bn_val.simps)
qed simp_all

lemma bn_sub_words_val [bn_spec]:
  assumes "bn_sub_words a b = (r, c)" and "length a = length b"
  shows "length r = length b" and "c = 0 \<or> c = 1" and
    "bn_val r + bn_val b = bn_val a + bn_base ^ length b * unat c"
  using sub_words_val [of 0 a b r c] assms by (simp_all add: bn_sub_words_def)

lemma bn_sub_words_borrow:
  assumes "bn_sub_words a b = (r, c)" and "length a = length b"
  shows "c = of_bool (bn_val a < bn_val b)"
proof -
  note v = bn_sub_words_val [OF assms]
  have "bn_val r < bn_base ^ length b" using bn_val_less [of r] v(1) by simp
  with v(2,3) show ?thesis by auto
qed

lemma unat_carry: "unat (c + hi) + bn_base * of_bool (c + hi < hi) = unat c + unat (hi :: u64)"
  using unsigned_less [of c, where 'a = nat] unsigned_less [of hi, where 'a = nat]
  by (auto simp: unat_word_ariths word_less_nat_alt bn_base_def mod_if split: if_splits)

lemma bn_select_words_mask [simp]:
  "length a = length b \<Longrightarrow> bn_select_words (mask_of c) a b = (if c then a else b)"
  by (induction a b rule: list_induct2) (auto simp: bn_select_words_def consttime)

end
