(* ===== verification/Bn_Reduce.thy ===== *)
theory Bn_Reduce
  imports Bn_Words
begin

text \<open>
  Comparison of arrays of limbs (\<open>bn_cmp_words_consttime\<close> of \<open>cmp.c\<close>) and the additions and
  subtractions modulo an array of \<open>div.c\<close>.
\<close>

section \<open>Comparison\<close>

text \<open>The result is an \<open>int\<close>; the limbs are visited from the least significant one.\<close>

fun cmp_loop :: "u32 \<Rightarrow> limbs \<Rightarrow> limbs \<Rightarrow> u32" where
  "cmp_loop ret (a # as) (b # bs) =
    cmp_loop (constant_time_select_int (constant_time_eq_w a b) ret
      (constant_time_select_int (constant_time_lt_w a b) (- 1) 1)) as bs"
| "cmp_loop ret _ _ = ret"

definition or_words :: "limbs \<Rightarrow> u64" where "or_words ws = fold (OR) ws 0"

definition bn_cmp_words_consttime :: "limbs \<Rightarrow> limbs \<Rightarrow> u32" where
  "bn_cmp_words_consttime a b =
    (let ret = cmp_loop 0 a b
     in if length a < length b
        then constant_time_select_int (constant_time_is_zero_w (or_words (drop (length a) b))) ret (- 1)
        else if length b < length a
        then constant_time_select_int (constant_time_is_zero_w (or_words (drop (length b) a))) ret 1
        else ret)"

definition bn_less_than_words :: "limbs \<Rightarrow> limbs \<Rightarrow> bool" where
  "bn_less_than_words a b \<longleftrightarrow> sint (bn_cmp_words_consttime a b) < 0"

definition order :: "nat \<Rightarrow> nat \<Rightarrow> u32" where
  "order m n = (if m < n then - 1 else if m = n then 0 else 1)"

lemma fold_or_0_iff: "fold (OR) ws x = 0 \<longleftrightarrow> x = 0 \<and> (\<forall>w \<in> set ws. w = (0 :: u64))"
  by (induction ws arbitrary: x) (auto simp: or_eq_0_iff)

lemma or_words_0_iff: "or_words ws = 0 \<longleftrightarrow> bn_val ws = 0"
  by (simp add: or_words_def fold_or_0_iff bn_val_0_iff)

lemma limbs_less_iff:
  assumes "x < bn_base" and "y < bn_base"
  shows "x + bn_base * m < y + bn_base * n \<longleftrightarrow> m < n \<or> m = n \<and> x < y"
proof (cases m n rule: linorder_cases)
  case less
  then have "bn_base * Suc m \<le> bn_base * n" by (intro mult_le_mono2) simp
  with less assms show ?thesis by simp
next
  case greater
  then have "bn_base * Suc n \<le> bn_base * m" by (intro mult_le_mono2) simp
  with greater assms show ?thesis by simp
qed simp

lemma order_Cons:
  assumes "x < bn_base" and "y < bn_base"
  shows "order (x + bn_base * m) (y + bn_base * n) = (if m = n then order x y else order m n)"
  using limbs_less_iff [OF assms, of m n] limbs_less_iff [OF assms(2,1), of n m]
  by (cases m n rule: linorder_cases) (auto simp: order_def)

lemma limbs_eq_iff:
  assumes "x < bn_base" and "y < bn_base"
  shows "x + bn_base * m = y + bn_base * n \<longleftrightarrow> m = n \<and> x = y"
  using limbs_less_iff [OF assms, of m n] limbs_less_iff [OF assms(2,1), of n m]
  by (cases m n rule: linorder_cases) auto

lemma cmp_step:
  "constant_time_select_int (constant_time_eq_w a b) ret
    (constant_time_select_int (constant_time_lt_w a b) (- 1) 1) = (if a = b then ret else order (unat a) (unat b))"
  by (simp add: consttime order_def word_less_nat_alt word_unat_eq_iff)

lemma cmp_loop_val:
  "cmp_loop ret as bs = (let n = min (length as) (length bs)
    in if bn_val (take n as) = bn_val (take n bs) then ret else order (bn_val (take n as)) (bn_val (take n bs)))"
proof (induction ret as bs rule: cmp_loop.induct)
  case (1 ret a as b bs)
  let ?n = "min (length as) (length bs)"
  let ?A = "bn_val (take ?n as)" and ?B = "bn_val (take ?n bs)"
  have "cmp_loop ret (a # as) (b # bs) = (if ?A = ?B then if a = b then ret else order (unat a) (unat b) else order ?A ?B)"
    using 1 by (simp add: cmp_step Let_def)
  also have "\<dots> = (if unat a + bn_base * ?A = unat b + bn_base * ?B then ret
      else order (unat a + bn_base * ?A) (unat b + bn_base * ?B))"
    unfolding order_Cons [OF limb_less limb_less] limbs_eq_iff [OF limb_less limb_less]
    by (simp add: word_unat_eq_iff)
  finally show ?case by simp
qed simp_all

lemma order_tail:
  assumes "x < n" and "y < n"
  shows "order x (y + n * z) = (if z = 0 then order x y else - 1)"
    and "order (y + n * z) x = (if z = 0 then order y x else 1)"
  using assms by (cases z; simp add: order_def)+

lemma cmp_words_val [bn_spec]: "bn_cmp_words_consttime a b = order (bn_val a) (bn_val b)"
proof -
  let ?n = "min (length a) (length b)"
  have loop: "cmp_loop 0 a b = order (bn_val (take ?n a)) (bn_val (take ?n b))"
    by (simp add: cmp_loop_val Let_def order_def)
  have le: "bn_val (take ?n a) < bn_base ^ ?n" "bn_val (take ?n b) < bn_base ^ ?n"
    using bn_val_less [of "take ?n a"] bn_val_less [of "take ?n b"] by simp_all
  show ?thesis
  proof (cases "length a" "length b" rule: linorder_cases)
    case less
    then have "bn_val b = bn_val (take (length a) b) + bn_base ^ length a * bn_val (drop (length a) b)"
      by (intro bn_val_take_drop) simp
    with less le loop show ?thesis
      by (simp add: bn_cmp_words_consttime_def consttime or_words_0_iff order_tail Let_def)
  next
    case greater
    then have "bn_val a = bn_val (take (length b) a) + bn_base ^ length b * bn_val (drop (length b) a)"
      by (intro bn_val_take_drop) simp
    with greater le loop show ?thesis
      by (simp add: bn_cmp_words_consttime_def consttime or_words_0_iff order_tail Let_def)
  next
    case equal
    with loop show ?thesis by (simp add: bn_cmp_words_consttime_def Let_def)
  qed
qed

lemma less_than_words_val [bn_spec]: "bn_less_than_words a b \<longleftrightarrow> bn_val a < bn_val b"
  by (auto simp: bn_less_than_words_def cmp_words_val order_def)

section \<open>Modular addition and subtraction\<close>

definition bn_reduce_once :: "limbs \<Rightarrow> u64 \<Rightarrow> limbs \<Rightarrow> limbs \<times> u64" where
  "bn_reduce_once a carry m =
    (case bn_sub_words a m of (r, b) \<Rightarrow>
       let carry = carry - b in (bn_select_words carry a r, carry))"

definition bn_reduce_once_in_place :: "limbs \<Rightarrow> u64 \<Rightarrow> limbs \<Rightarrow> limbs \<times> u64" where
  "bn_reduce_once_in_place r carry m =
    (case bn_sub_words r m of (tmp, b) \<Rightarrow>
       let carry = carry - b in (bn_select_words carry r tmp, carry))"

definition bn_mod_sub_words :: "limbs \<Rightarrow> limbs \<Rightarrow> limbs \<Rightarrow> limbs" where
  "bn_mod_sub_words a b m =
    (case bn_sub_words a b of (r, borrow) \<Rightarrow>
       bn_select_words (0 - borrow) (fst (bn_add_words r m)) r)"

definition bn_mod_add_words :: "limbs \<Rightarrow> limbs \<Rightarrow> limbs \<Rightarrow> limbs" where
  "bn_mod_add_words a b m =
    (case bn_add_words a b of (r, carry) \<Rightarrow> fst (bn_reduce_once_in_place r carry m))"

lemma bn_reduce_once_val [bn_spec]:
  assumes "length a = length m" and "bn_val a + bn_base ^ length m * unat carry < 2 * bn_val m"
    and "bn_reduce_once a carry m = (r, c)"
  shows "length r = length m" and "bn_val r = (bn_val a + bn_base ^ length m * unat carry) mod bn_val m"
    and "c = mask_of (bn_val a + bn_base ^ length m * unat carry < bn_val m)"
proof -
  obtain d b where sub: "bn_sub_words a m = (d, b)" by (cases "bn_sub_words a m")
  note v = bn_sub_words_val [OF sub assms(1)]
  have b: "b = of_bool (bn_val a < bn_val m)" by (rule bn_sub_words_borrow [OF sub assms(1)])
  have lm: "bn_val m < bn_base ^ length m" by (rule bn_val_less)
  have ld: "bn_val d < bn_base ^ length m" using bn_val_less [of d] v(1) by simp
  have "unat carry < 2"
  proof (rule ccontr)
    assume "\<not> unat carry < 2"
    then have "bn_base ^ length m * 2 \<le> bn_base ^ length m * unat carry"
      by (intro mult_le_mono2) simp
    with assms(2) lm show False by linarith
  qed
  then consider "carry = 0" | "carry = 1"
    by (auto simp: less_2_cases_iff word_unat_eq_iff)
  then have "length r = length m \<and>
      bn_val r = (bn_val a + bn_base ^ length m * unat carry) mod bn_val m \<and>
      c = mask_of (bn_val a + bn_base ^ length m * unat carry < bn_val m)"
  proof cases
    case 1
    then have "carry - b = mask_of (bn_val a < bn_val m)" by (simp add: b mask_of_def)
    moreover have "bn_val d = bn_val a mod bn_val m" if "\<not> bn_val a < bn_val m"
      using that v(3) assms(2) 1 b by (simp add: le_mod_geq)
    ultimately show ?thesis
      using 1 assms(1,3) v(1) by (auto simp: bn_reduce_once_def sub Let_def)
  next
    case 2
    have "unat carry = 1" using 2 by simp
    then have "bn_val a < bn_val m" using assms(2) lm by simp
    with 2 b have "carry - b = mask_of False" by (simp add: mask_of_def)
    moreover have "bn_val d = bn_val a + bn_base ^ length m - bn_val m"
      using v(3) b \<open>bn_val a < bn_val m\<close> by simp
    moreover have "bn_val m \<le> bn_val a + bn_base ^ length m" using lm by simp
    ultimately show ?thesis
      using 2 assms v(1) by (auto simp: bn_reduce_once_def sub Let_def le_mod_geq)
  qed
  then show "length r = length m" "bn_val r = (bn_val a + bn_base ^ length m * unat carry) mod bn_val m"
    "c = mask_of (bn_val a + bn_base ^ length m * unat carry < bn_val m)" by simp_all
qed

lemma bn_reduce_once_in_place: "bn_reduce_once_in_place = bn_reduce_once"
  by (simp add: fun_eq_iff bn_reduce_once_in_place_def bn_reduce_once_def)

lemma bn_mod_add_words_val [bn_spec]:
  assumes "length a = length m" and "length b = length m"
    and "bn_val a < bn_val m" and "bn_val b < bn_val m"
  shows "length (bn_mod_add_words a b m) = length m"
    and "bn_val (bn_mod_add_words a b m) = (bn_val a + bn_val b) mod bn_val m"
proof -
  obtain r c where add: "bn_add_words a b = (r, c)" by (cases "bn_add_words a b")
  note v = bn_add_words_val [OF add]
  obtain r' c' where red: "bn_reduce_once r c m = (r', c')" by (cases "bn_reduce_once r c m")
  note w = bn_reduce_once_val(1,2) [OF _ _ red]
  show "length (bn_mod_add_words a b m) = length m"
    "bn_val (bn_mod_add_words a b m) = (bn_val a + bn_val b) mod bn_val m"
    using v w assms by (simp_all add: bn_mod_add_words_def bn_reduce_once_in_place add red)
qed

lemma bn_mod_sub_words_val [bn_spec]:
  assumes "length a = length m" and "length b = length m"
    and "bn_val a < bn_val m" and "bn_val b < bn_val m"
  shows "length (bn_mod_sub_words a b m) = length m"
    and "int (bn_val (bn_mod_sub_words a b m)) = (int (bn_val a) - int (bn_val b)) mod int (bn_val m)"
proof -
  have len: "length a = length b" using assms by simp
  obtain r c where sub: "bn_sub_words a b = (r, c)" by (cases "bn_sub_words a b")
  note v = bn_sub_words_val [OF sub len] and c = bn_sub_words_borrow [OF sub len]
  obtain r' c' where add: "bn_add_words r m = (r', c')" by (cases "bn_add_words r m")
  have lr: "length r = length m" using v(1) assms by simp
  note w = bn_add_words_val [OF add lr]
  have mask: "0 - c = mask_of (bn_val a < bn_val b)" by (simp add: c mask_of_def)
  have eq: "bn_mod_sub_words a b m = (if bn_val a < bn_val b then r' else r)"
    using w(1) lr by (simp add: bn_mod_sub_words_def sub add mask del: diff_0)
  show "length (bn_mod_sub_words a b m) = length m"
    using w(1) lr by (simp add: eq)
  show "int (bn_val (bn_mod_sub_words a b m)) = (int (bn_val a) - int (bn_val b)) mod int (bn_val m)"
  proof (cases "bn_val a < bn_val b")
    case False
    with v(3) c have "int (bn_val r) = int (bn_val a) - int (bn_val b)" by simp
    with False assms show ?thesis by (simp add: eq mod_pos_pos_trivial)
  next
    case True
    with v(3) c assms(2) have "bn_val r + bn_val b = bn_val a + bn_base ^ length m" by simp
    moreover have "bn_val r' < bn_base ^ length m" using bn_val_less [of r'] w(1) lr by simp
    moreover have "unat c' = 0 \<or> unat c' = 1" using w(2) by auto
    ultimately have "bn_val r' + bn_val b = bn_val a + bn_val m"
      using w(3) True assms lr by auto
    then have "int (bn_val r') = int (bn_val a) - int (bn_val b) + int (bn_val m)" by simp
    moreover have "(int (bn_val a) - int (bn_val b) + int (bn_val m)) mod int (bn_val m)
        = int (bn_val a) - int (bn_val b) + int (bn_val m)"
      using True assms by (intro mod_pos_pos_trivial) linarith+
    ultimately show ?thesis using True by (simp add: eq)
  qed
qed

end
