(* ===== verification/Bignum.thy ===== *)
theory Bignum
  imports Bn_Reduce
begin

text \<open>
  Big numbers: \<open>fipsmodule/bn/bn.c\<close> and \<open>cmp.c\<close>.  A \<open>BIGNUM\<close> is its array of limbs, with
  \<open>dmax\<close> the length of the list, the number of limbs in use, the sign and the flag for data
  that may not be reallocated.  The function \<open>malloc\<close> is the answer of the allocator for a
  number of bytes.  An operation works on the destination \<open>r\<close>; an operand that is the same
  object is passed as its value, since the code reads every limb before it overwrites it.
\<close>

record bignum =
  bn_d :: limbs
  bn_width :: nat
  bn_neg :: bool
  bn_static :: bool

type_synonym 'a bn_oper = "(bignum, 'a) oper"

abbreviation bn_words :: "bignum \<Rightarrow> limbs" where "bn_words bn \<equiv> take (bn_width bn) (bn_d bn)"

text \<open>The first limbs are written, and become the ones in use.\<close>

definition set_d :: "limbs \<Rightarrow> bignum \<Rightarrow> bignum" where
  "set_d ws bn = bn\<lparr>bn_d := ws @ drop (length ws) (bn_d bn)\<rparr>"

definition put_words :: "limbs \<Rightarrow> bignum \<Rightarrow> bignum" where
  "put_words ws bn = (set_d ws bn)\<lparr>bn_width := length ws\<rparr>"

section \<open>Basic operations\<close>

definition BN_init :: bignum where
  "BN_init = \<lparr>bn_d = [], bn_width = 0, bn_neg = False, bn_static = False\<rparr>"

definition BN_value_one :: bignum where
  "BN_value_one = \<lparr>bn_d = [1], bn_width = 1, bn_neg = False, bn_static = True\<rparr>"

text \<open>\<open>INT_MAX / (4 * BN_BITS2)\<close> limbs are the most.\<close>

definition bn_wexpand :: "(nat \<Rightarrow> bool) \<Rightarrow> nat \<Rightarrow> unit bn_oper" where
  "bn_wexpand malloc n bn =
    (if n \<le> length (bn_d bn) then (Some (), bn)
     else if (2 ^ 31 - 1) div (4 * 64) < n then (None, bn)
     else if bn_static bn then (None, bn)
     else if \<not> malloc (8 * n) then (None, bn)
     else (Some (), bn\<lparr>bn_d := bn_words bn @ replicate (n - bn_width bn) 0\<rparr>))"

definition bn_expand :: "(nat \<Rightarrow> bool) \<Rightarrow> nat \<Rightarrow> unit bn_oper" where
  "bn_expand malloc bits bn =
    (if size_add bits 63 < bits then (None, bn)
     else bn_wexpand malloc ((bits + 63) div 64) bn)"

definition BN_copy :: "(nat \<Rightarrow> bool) \<Rightarrow> bignum \<Rightarrow> unit bn_oper" where
  "BN_copy malloc src = and_then (bn_wexpand malloc (bn_width src)) (\<lambda>_ dest.
     (Some (), (put_words (bn_words src) dest)\<lparr>bn_neg := bn_neg src\<rparr>))"

definition BN_dup :: "(nat \<Rightarrow> bool) \<Rightarrow> bool \<Rightarrow> bignum option \<Rightarrow> bignum option" where
  "BN_dup malloc new_ok src =
    (case src of None \<Rightarrow> None
     | Some s \<Rightarrow> if \<not> new_ok then None
        else case BN_copy malloc s BN_init of (None, _) \<Rightarrow> None | (Some _, copy) \<Rightarrow> Some copy)"

definition BN_clear :: "bignum \<Rightarrow> bignum" where
  "BN_clear bn = bn\<lparr>bn_d := replicate (length (bn_d bn)) 0, bn_width := 0, bn_neg := False\<rparr>"

definition BN_zero :: "bignum \<Rightarrow> bignum" where
  "BN_zero bn = bn\<lparr>bn_width := 0, bn_neg := False\<rparr>"

definition BN_set_word :: "(nat \<Rightarrow> bool) \<Rightarrow> u64 \<Rightarrow> unit bn_oper" where
  "BN_set_word malloc v bn =
    (if v = 0 then (Some (), BN_zero bn)
     else and_then (bn_wexpand malloc 1) (\<lambda>_ bn. (Some (), (put_words [v] bn)\<lparr>bn_neg := False\<rparr>)) bn)"

definition BN_set_u64 :: "(nat \<Rightarrow> bool) \<Rightarrow> u64 \<Rightarrow> unit bn_oper" where
  "BN_set_u64 = BN_set_word"

definition BN_one :: "(nat \<Rightarrow> bool) \<Rightarrow> unit bn_oper" where
  "BN_one malloc = BN_set_word malloc 1"

definition bn_set_words :: "(nat \<Rightarrow> bool) \<Rightarrow> limbs \<Rightarrow> unit bn_oper" where
  "bn_set_words malloc ws = and_then (bn_wexpand malloc (length ws)) (\<lambda>_ bn.
     (Some (), (put_words ws bn)\<lparr>bn_neg := False\<rparr>))"

definition bn_fits_in_words :: "nat \<Rightarrow> bignum \<Rightarrow> bool" where
  "bn_fits_in_words n bn \<longleftrightarrow> or_words (drop n (bn_words bn)) = 0"

definition bn_copy_words :: "nat \<Rightarrow> bignum \<Rightarrow> limbs option" where
  "bn_copy_words n bn =
    (if bn_neg bn then None
     else if n < bn_width bn \<and> \<not> bn_fits_in_words n bn then None
     else let width = min n (bn_width bn) in Some (take width (bn_d bn) @ replicate (n - width) 0))"

definition bn_resize_words :: "(nat \<Rightarrow> bool) \<Rightarrow> nat \<Rightarrow> unit bn_oper" where
  "bn_resize_words malloc n bn =
    (if bn_width bn \<le> n then
       and_then (bn_wexpand malloc n) (\<lambda>_ bn.
         (Some (), put_words (bn_words bn @ replicate (n - bn_width bn) 0) bn)) bn
     else if \<not> bn_fits_in_words n bn then (None, bn)
     else (Some (), bn\<lparr>bn_width := n\<rparr>))"

fun minimal_width :: "nat \<Rightarrow> limbs \<Rightarrow> nat" where
  "minimal_width (Suc n) d = (if d ! n = 0 then minimal_width n d else Suc n)"
| "minimal_width 0 d = 0"

definition bn_minimal_width :: "bignum \<Rightarrow> nat" where
  "bn_minimal_width bn = minimal_width (bn_width bn) (bn_d bn)"

definition bn_set_minimal_width :: "bignum \<Rightarrow> bignum" where
  "bn_set_minimal_width bn =
    (let width = bn_minimal_width bn
     in bn\<lparr>bn_width := width, bn_neg := (if width = 0 then False else bn_neg bn)\<rparr>)"

text \<open>One of the six blocks of \<open>BN_num_bits_word\<close>, for \<open>k\<close> bits.\<close>

definition num_bits_step :: "nat \<Rightarrow> u64 \<times> nat \<Rightarrow> u64 \<times> nat" where
  "num_bits_step k = (\<lambda>(l, bits).
    let x = drop_bit k l; m = 0 - x; m = 0 - drop_bit 63 m
    in (l XOR ((x XOR l) AND m), bits + unat (of_nat k AND m)))"

definition BN_num_bits_word :: "u64 \<Rightarrow> nat" where
  "BN_num_bits_word l =
    snd (num_bits_step 1 (num_bits_step 2 (num_bits_step 4 (num_bits_step 8
      (num_bits_step 16 (num_bits_step 32 (l, of_bool (l \<noteq> 0))))))))"

definition BN_num_bits :: "bignum \<Rightarrow> nat" where
  "BN_num_bits bn =
    (let width = bn_minimal_width bn
     in if width = 0 then 0 else (width - 1) * 64 + BN_num_bits_word (bn_d bn ! (width - 1)))"

definition BN_num_bytes :: "bignum \<Rightarrow> nat" where
  "BN_num_bytes bn = (BN_num_bits bn + 7) div 8"

section \<open>Comparison\<close>

definition BN_is_zero :: "bignum \<Rightarrow> bool" where "BN_is_zero bn = bn_fits_in_words 0 bn"

definition BN_is_negative :: "bignum \<Rightarrow> bool" where "BN_is_negative bn = bn_neg bn"

definition BN_set_negative :: "bool \<Rightarrow> bignum \<Rightarrow> bignum" where
  "BN_set_negative sign bn = bn\<lparr>bn_neg := sign \<and> \<not> BN_is_zero bn\<rparr>"

definition BN_ucmp :: "bignum \<Rightarrow> bignum \<Rightarrow> u32" where
  "BN_ucmp a b = bn_cmp_words_consttime (bn_words a) (bn_words b)"

definition BN_cmp :: "bignum option \<Rightarrow> bignum option \<Rightarrow> u32" where
  "BN_cmp a b =
    (case (a, b) of
       (None, None) \<Rightarrow> 0
     | (Some _, None) \<Rightarrow> - 1
     | (None, Some _) \<Rightarrow> 1
     | (Some a, Some b) \<Rightarrow>
         if bn_neg a \<noteq> bn_neg b then (if bn_neg a then - 1 else 1)
         else let ret = BN_ucmp a b in if bn_neg a then - ret else ret)"

definition BN_abs_is_word :: "u64 \<Rightarrow> bignum \<Rightarrow> bool" where
  "BN_abs_is_word w bn =
    (if bn_width bn = 0 then w = 0
     else fold (OR) (drop 1 (bn_words bn)) (bn_d bn ! 0 XOR w) = 0)"

definition BN_cmp_word :: "bignum \<Rightarrow> u64 \<Rightarrow> u32" where
  "BN_cmp_word a b =
    BN_cmp (Some a) (Some \<lparr>bn_d = [b], bn_width = of_bool (b > 0), bn_neg = False, bn_static = True\<rparr>)"

definition BN_is_one :: "bignum \<Rightarrow> bool" where
  "BN_is_one bn \<longleftrightarrow> \<not> bn_neg bn \<and> BN_abs_is_word 1 bn"

definition BN_is_word :: "u64 \<Rightarrow> bignum \<Rightarrow> bool" where
  "BN_is_word w bn \<longleftrightarrow> BN_abs_is_word w bn \<and> (w = 0 \<or> \<not> bn_neg bn)"

definition BN_is_odd :: "bignum \<Rightarrow> bool" where
  "BN_is_odd bn \<longleftrightarrow> 0 < bn_width bn \<and> bn_d bn ! 0 AND 1 = 1"

definition BN_is_pow2 :: "bignum \<Rightarrow> bool" where
  "BN_is_pow2 bn =
    (let width = bn_minimal_width bn
     in if width = 0 \<or> bn_neg bn then False
        else if \<exists>w \<in> set (take (width - 1) (bn_d bn)). w \<noteq> 0 then False
        else let top = bn_d bn ! (width - 1) in top AND (top - 1) = 0)"

definition BN_equal_consttime :: "bignum \<Rightarrow> bignum \<Rightarrow> bool" where
  "BN_equal_consttime a b =
    (let m = fold (OR) (drop (bn_width a) (bn_words b)) 0;
         m = fold (OR) (drop (bn_width b) (bn_words a)) m;
         n = min (bn_width a) (bn_width b);
         m = fold (OR) (map2 (XOR) (take n (bn_d a)) (take n (bn_d b))) m;
         m = m OR of_bool (bn_neg a \<noteq> bn_neg b)
     in m = 0)"

section \<open>What a number denotes\<close>

definition bn_abs :: "bignum \<Rightarrow> nat" where "bn_abs bn = bn_val (bn_words bn)"

definition bn_int :: "bignum \<Rightarrow> int" where
  "bn_int bn = (if bn_neg bn then - int (bn_abs bn) else int (bn_abs bn))"

definition bn_ok :: "bignum \<Rightarrow> bool" where "bn_ok bn \<longleftrightarrow> bn_width bn \<le> length (bn_d bn)"

text \<open>The normal form that \<open>bn_set_minimal_width\<close> restores: no leading zeros, no negative zero.\<close>

definition bn_normal :: "bignum \<Rightarrow> bool" where
  "bn_normal bn \<longleftrightarrow> bn_ok bn \<and> bn_minimal_width bn = bn_width bn \<and> (bn_width bn = 0 \<longrightarrow> \<not> bn_neg bn)"

subsection \<open>Growing and writing\<close>

definition bn_room :: "(nat \<Rightarrow> bool) \<Rightarrow> nat \<Rightarrow> bignum \<Rightarrow> bool" where
  "bn_room malloc n bn \<longleftrightarrow> fst (bn_wexpand malloc n bn) \<noteq> None"

lemma bn_wexpand_None: "bn_wexpand malloc n bn = (None, bn') \<longleftrightarrow> \<not> bn_room malloc n bn \<and> bn' = bn"
  by (auto simp: bn_room_def bn_wexpand_def)

lemma bn_wexpand_Some [bn_spec]:
  assumes "bn_wexpand malloc n bn = (Some u, bn')" and "bn_ok bn"
  shows "bn_room malloc n bn" and "n \<le> length (bn_d bn')" and "bn_words bn' = bn_words bn"
    and "bn_width bn' = bn_width bn" and "bn_neg bn' = bn_neg bn" and "bn_ok bn'"
  using assms by (auto simp: bn_room_def bn_wexpand_def bn_ok_def split: if_splits)

lemma bn_wexpand_cases:
  obtains (no_room) "bn_wexpand malloc n bn = (None, bn)" "\<not> bn_room malloc n bn"
  | (room) bn' where "bn_wexpand malloc n bn = (Some (), bn')" "bn_room malloc n bn"
proof (cases "bn_wexpand malloc n bn")
  case (Pair r bn')
  with no_room room show ?thesis
    using bn_wexpand_None [of malloc n bn bn'] by (cases r) (auto simp: bn_room_def)
qed

lemma put_words [simp]:
  "bn_words (put_words ws bn) = ws" "take (length ws) (bn_d (put_words ws bn)) = ws" "bn_width (put_words ws bn) = length ws"
  "bn_neg (put_words ws bn) = bn_neg bn" "bn_ok (put_words ws bn)"
  by (simp_all add: put_words_def set_d_def bn_ok_def)

lemma bn_abs_put_words [simp]: "bn_abs (put_words ws bn) = bn_val ws"
  by (simp add: bn_abs_def)

lemma bn_abs_less: "bn_abs bn < bn_base ^ bn_width bn"
  unfolding bn_abs_def by (rule less_le_trans [OF bn_val_less]) (simp add: power_increasing)

lemma bn_words_split:
  "n \<le> length ws \<Longrightarrow> bn_val (drop n ws) = 0 \<longleftrightarrow> bn_val ws < bn_base ^ n"
proof -
  assume n: "n \<le> length ws"
  have low: "bn_val (take n ws) < bn_base ^ n" using bn_val_less [of "take n ws"] n by simp
  show ?thesis
    using bn_val_take_drop [OF n] low by (cases "bn_val (drop n ws)") auto
qed

lemma fits_in_words_iff [bn_spec]: "bn_fits_in_words n bn \<longleftrightarrow> bn_abs bn < bn_base ^ n"
proof (cases "n \<le> length (bn_words bn)")
  case True
  then show ?thesis
    unfolding bn_fits_in_words_def or_words_0_iff bn_abs_def by (rule bn_words_split)
next
  case False
  have "bn_val (bn_words bn) < bn_base ^ length (bn_words bn)" by (rule bn_val_less)
  also have "\<dots> \<le> bn_base ^ n" using False by (intro power_increasing) (simp_all only: not_le less_imp_le bn_base_pos One_nat_def)
  finally show ?thesis
    using False by (auto simp: bn_fits_in_words_def or_words_0_iff bn_abs_def min_def)
qed

lemma is_zero_iff [bn_spec]: "BN_is_zero bn \<longleftrightarrow> bn_abs bn = 0"
  by (simp add: BN_is_zero_def fits_in_words_iff)

lemma length_words [simp]: "bn_ok a \<Longrightarrow> min (length (bn_d a)) (bn_width a) = bn_width a"
  by (simp add: bn_ok_def)

lemma words_split:
  assumes "bn_ok a" and "n \<le> bn_width a"
  shows "bn_abs a = bn_val (take n (bn_d a)) + bn_base ^ n * bn_val (drop n (bn_words a))"
  using bn_val_take_drop [of n "bn_words a"] assms by (simp add: bn_abs_def bn_ok_def min_absorb1)

lemma set_neg [simp]:
  "bn_abs (bn\<lparr>bn_neg := n\<rparr>) = bn_abs bn" "bn_ok (bn\<lparr>bn_neg := n\<rparr>) = bn_ok bn"
  "bn_minimal_width (bn\<lparr>bn_neg := n\<rparr>) = bn_minimal_width bn"
  by (simp_all add: bn_abs_def bn_ok_def bn_minimal_width_def)

lemma bn_int_set_neg: "bn_int (bn\<lparr>bn_neg := n\<rparr>) = (if n then - int (bn_abs bn) else int (bn_abs bn))"
  by (simp add: bn_int_def)

lemma bn_int_eq_int: "bn_int bn = int n \<Longrightarrow> bn_abs bn = n"
  by (auto simp: bn_int_def split: if_splits)

subsection \<open>The minimal width\<close>

lemma minimal_width_val:
  "n \<le> length d \<Longrightarrow> minimal_width n d \<le> n \<and> bn_val (take (minimal_width n d) d) = bn_val (take n d) \<and>
    (minimal_width n d = 0 \<or> d ! (minimal_width n d - 1) \<noteq> 0)"
proof (induction n d rule: minimal_width.induct)
  case (1 n d)
  then have "take (Suc n) d = take n d @ [d ! n]" by (simp add: take_Suc_conv_app_nth)
  with 1 show ?case by (auto simp: bn_val_append)
qed simp

lemma top_limb:
  assumes "0 < m" and "m \<le> length d"
  shows "bn_val (take m d) = bn_val (take (m - 1) d) + bn_base ^ (m - 1) * unat (d ! (m - 1))"
proof -
  have "take m d = take (m - 1) d @ [d ! (m - 1)]"
    using assms take_Suc_conv_app_nth [of "m - 1" d] by simp
  with assms show ?thesis by (simp add: bn_val_append)
qed

lemma top_nonzero:
  assumes "0 < m" and "m \<le> length d" and "d ! (m - 1) \<noteq> 0"
  shows "bn_base ^ (m - 1) \<le> bn_val (take m d)"
proof -
  have "1 \<le> unat (d ! (m - 1))" using assms(3) by (simp add: Suc_le_eq unat_gt_0)
  then have "bn_base ^ (m - 1) * 1 \<le> bn_base ^ (m - 1) * unat (d ! (m - 1))"
    by (rule mult_le_mono2)
  with top_limb [OF assms(1,2)] show ?thesis by linarith
qed

lemma bn_minimal_width [bn_spec]:
  assumes "bn_ok bn"
  shows "bn_minimal_width bn \<le> bn_width bn"
    and "bn_val (take (bn_minimal_width bn) (bn_d bn)) = bn_abs bn"
    and "bn_minimal_width bn = 0 \<or> bn_d bn ! (bn_minimal_width bn - 1) \<noteq> 0"
    and "bn_minimal_width bn = 0 \<or> bn_base ^ (bn_minimal_width bn - 1) \<le> bn_abs bn"
    and "bn_abs bn < bn_base ^ bn_minimal_width bn"
proof -
  let ?m = "bn_minimal_width bn"
  show m: "?m \<le> bn_width bn" "bn_val (take ?m (bn_d bn)) = bn_abs bn" "?m = 0 \<or> bn_d bn ! (?m - 1) \<noteq> 0"
    using minimal_width_val [of "bn_width bn" "bn_d bn"] assms
    by (simp_all add: bn_ok_def bn_minimal_width_def bn_abs_def)
  have len: "?m \<le> length (bn_d bn)" using m(1) assms by (simp add: bn_ok_def)
  show "bn_abs bn < bn_base ^ ?m"
    using bn_val_less [of "take ?m (bn_d bn)"] len m(2) by simp
  show "?m = 0 \<or> bn_base ^ (?m - 1) \<le> bn_abs bn"
  proof (cases "?m = 0")
    case False
    with top_nonzero [of ?m "bn_d bn"] len m(2,3) show ?thesis by simp
  qed simp
qed

lemma bn_minimal_width_0_iff: "bn_ok bn \<Longrightarrow> bn_minimal_width bn = 0 \<longleftrightarrow> bn_abs bn = 0"
  using bn_minimal_width(4,5) [of bn] by auto

lemma set_minimal_width [bn_spec]:
  assumes "bn_ok bn"
  shows "bn_abs (bn_set_minimal_width bn) = bn_abs bn"
    and "bn_neg (bn_set_minimal_width bn) \<longleftrightarrow> bn_neg bn \<and> bn_abs bn \<noteq> 0"
    and "bn_int (bn_set_minimal_width bn) = bn_int bn"
    and "bn_normal (bn_set_minimal_width bn)"
proof -
  note m = bn_minimal_width [OF assms]
  have mm: "minimal_width (bn_minimal_width bn) (bn_d bn) = bn_minimal_width bn"
    using m(3) by (cases "bn_minimal_width bn") auto
  show a: "bn_abs (bn_set_minimal_width bn) = bn_abs bn"
    using m(2) by (simp add: bn_set_minimal_width_def bn_abs_def Let_def)
  show n: "bn_neg (bn_set_minimal_width bn) \<longleftrightarrow> bn_neg bn \<and> bn_abs bn \<noteq> 0"
    using bn_minimal_width_0_iff [OF assms] by (simp add: bn_set_minimal_width_def Let_def)
  show "bn_int (bn_set_minimal_width bn) = bn_int bn"
    using a n by (simp add: bn_int_def)
  show "bn_normal (bn_set_minimal_width bn)"
    using m(1) assms mm
    by (simp add: bn_normal_def bn_ok_def bn_set_minimal_width_def bn_minimal_width_def Let_def)
qed

lemma bn_normal_ok: "bn_normal bn \<Longrightarrow> bn_ok bn"
  by (simp add: bn_normal_def)

lemma bn_normal_iff: "bn_normal bn \<longleftrightarrow> bn_ok bn \<and> (bn_width bn = 0 \<longrightarrow> \<not> bn_neg bn) \<and>
    (bn_width bn = 0 \<or> bn_base ^ (bn_width bn - 1) \<le> bn_abs bn)"
proof -
  have "bn_minimal_width bn = bn_width bn"
    if "bn_ok bn" "bn_width bn \<noteq> 0" "bn_base ^ (bn_width bn - 1) \<le> bn_abs bn"
  proof -
    from that(3) bn_minimal_width(5) [OF that(1)] have "bn_base ^ (bn_width bn - 1) < bn_base ^ bn_minimal_width bn"
      by (rule le_less_trans)
    then have "bn_width bn - 1 < bn_minimal_width bn"
      by (rule power_less_imp_less_exp [rotated]) (simp add: bn_base_def)
    with bn_minimal_width(1) [OF that(1)] that(2) show ?thesis by simp
  qed
  then show ?thesis
    using bn_minimal_width(1,4) [of bn] by (cases "bn_width bn = 0") (auto simp: bn_normal_def)
qed

lemma bn_normal_set_neg: "bn_normal bn \<Longrightarrow> bn_normal (bn\<lparr>bn_neg := n\<rparr>) \<longleftrightarrow> (n \<longrightarrow> bn_abs bn \<noteq> 0)"
  using bn_minimal_width_0_iff [of bn] by (auto simp: bn_normal_def)

lemma bn_normal_nonneg: "bn_normal bn \<Longrightarrow> bn_abs bn = 0 \<Longrightarrow> \<not> bn_neg bn"
  using bn_minimal_width_0_iff [of bn] by (auto simp: bn_normal_def)

subsection \<open>Order\<close>

lemma BN_ucmp_val [bn_spec]: "BN_ucmp a b = order (bn_abs a) (bn_abs b)"
  by (simp add: BN_ucmp_def cmp_words_val bn_abs_def)

lemma ucmp_less_iff: "sint (BN_ucmp a b) < 0 \<longleftrightarrow> bn_abs a < bn_abs b"
  by (simp add: BN_ucmp_val order_def)

lemma BN_cmp_val [bn_spec]:
  assumes "bn_neg a \<Longrightarrow> bn_abs a \<noteq> 0" and "bn_neg b \<Longrightarrow> bn_abs b \<noteq> 0"
  shows "BN_cmp (Some a) (Some b) = (if bn_int a < bn_int b then - 1 else if bn_int a = bn_int b then 0 else 1)"
  using assms by (auto simp: BN_cmp_def BN_ucmp_val order_def bn_int_def Let_def)

lemma BN_abs_is_word_val [bn_spec]: "bn_ok bn \<Longrightarrow> BN_abs_is_word w bn \<longleftrightarrow> bn_abs bn = unat w"
proof (cases "bn_words bn")
  case Nil
  then show "bn_ok bn \<Longrightarrow> BN_abs_is_word w bn \<longleftrightarrow> bn_abs bn = unat w"
    by (auto simp: BN_abs_is_word_def bn_abs_def bn_ok_def unat_eq_0)
next
  case (Cons x xs)
  then have "bn_d bn ! 0 = x" "bn_width bn \<noteq> 0" by (cases "bn_d bn"; auto simp: take_Cons' split: if_splits)+
  then have "BN_abs_is_word w bn \<longleftrightarrow> x = w \<and> bn_val xs = 0"
    by (simp add: BN_abs_is_word_def Cons fold_or_0_iff xor_eq_0_iff bn_val_0_iff)
  also have "\<dots> \<longleftrightarrow> bn_abs bn = unat w"
    using limbs_eq_iff [of "unat x" "unat w" "bn_val xs" 0] by (auto simp: bn_abs_def Cons word_unat_eq_iff)
  finally show "bn_ok bn \<Longrightarrow> BN_abs_is_word w bn \<longleftrightarrow> bn_abs bn = unat w" .
qed

lemma map2_xor_0_iff:
  "length xs = length ys \<Longrightarrow> (\<forall>w \<in> set (map2 (XOR) xs ys). w = (0 :: u64)) \<longleftrightarrow> xs = ys"
  by (induction xs ys rule: list_induct2) (auto simp: xor_eq_0_iff)

lemma bn_val_eq_iff:
  assumes "length xs \<le> length ys"
  shows "bn_val xs = bn_val ys \<longleftrightarrow> xs = take (length xs) ys \<and> bn_val (drop (length xs) ys) = 0"
proof -
  have "bn_val ys = bn_val (take (length xs) ys) + bn_base ^ length xs * bn_val (drop (length xs) ys)"
    using assms by (rule bn_val_take_drop)
  moreover have "bn_val xs = bn_val (take (length xs) ys) \<longleftrightarrow> xs = take (length xs) ys"
    using assms by (intro bn_val_inject) simp
  ultimately show ?thesis
    using bn_val_less [of xs] by (cases "bn_val (drop (length xs) ys)") auto
qed

lemma bn_val_common:
  "bn_val (drop (length xs) ys) = 0 \<and> bn_val (drop (length ys) xs) = 0 \<and>
    take (min (length xs) (length ys)) xs = take (min (length xs) (length ys)) ys \<longleftrightarrow> bn_val xs = bn_val ys"
proof (cases "length xs \<le> length ys")
  case True
  from bn_val_eq_iff [OF this] True show ?thesis by (auto simp: min_absorb1)
next
  case False
  then have "length ys \<le> length xs" by simp
  from bn_val_eq_iff [OF this] this show ?thesis by (auto simp: min_absorb2)
qed

lemma BN_equal_val [bn_spec]:
  assumes "bn_ok a" and "bn_ok b"
  shows "BN_equal_consttime a b \<longleftrightarrow> bn_neg a = bn_neg b \<and> bn_abs a = bn_abs b"
proof -
  let ?A = "bn_words a" and ?B = "bn_words b"
  let ?n = "min (length ?A) (length ?B)"
  have width: "bn_width a = length ?A" "bn_width b = length ?B"
    using assms by (simp_all add: bn_ok_def)
  have "take ?n (bn_d a) = take ?n ?A" "take ?n (bn_d b) = take ?n ?B"
    unfolding take_take by (simp_all add: min_def)
  then have "BN_equal_consttime a b \<longleftrightarrow> bn_neg a = bn_neg b \<and> bn_val (drop (length ?A) ?B) = 0 \<and>
      bn_val (drop (length ?B) ?A) = 0 \<and> (\<forall>w \<in> set (map2 (XOR) (take ?n ?A) (take ?n ?B)). w = 0)"
    unfolding BN_equal_consttime_def Let_def width [symmetric]
    by (auto simp: or_eq_0_iff fold_or_0_iff bn_val_0_iff)
  also have "(\<forall>w \<in> set (map2 (XOR) (take ?n ?A) (take ?n ?B)). w = 0) \<longleftrightarrow> take ?n ?A = take ?n ?B"
    by (rule map2_xor_0_iff) simp
  finally show ?thesis unfolding bn_abs_def using bn_val_common [of ?A ?B] by blast
qed

subsection \<open>Counting bits\<close>

lemma nonzero_mask:
  assumes "unat x < 2 ^ 63"
  shows "0 - drop_bit 63 (0 - x) = (mask_of (x \<noteq> 0) :: u64)"
proof -
  have "bit (0 - x) 63 \<longleftrightarrow> x \<noteq> 0"
  proof (cases "x = 0")
    case False
    then have "unat (0 - x) = 2 ^ 64 - unat x"
      using unat_sub_if_size [of 0 x] by (simp add: word_size unat_eq_0)
    with assms False show ?thesis by (simp add: bit_63_iff)
  qed simp
  then show ?thesis
    using msb_w [of "0 - x"] by (simp add: constant_time_msb_w_def)
qed

definition bits_left :: "u64 \<Rightarrow> nat \<Rightarrow> u64 \<times> nat \<Rightarrow> bool" where
  "bits_left l0 k = (\<lambda>(l, bits). \<exists>s. unat l = unat l0 div 2 ^ s \<and> bits = s + of_bool (l0 \<noteq> 0) \<and>
    unat l < 2 ^ k \<and> (l0 \<noteq> 0 \<longrightarrow> l \<noteq> 0))"

lemma xor_swap: "l XOR x XOR l = (x :: 'a::len word)"
  by (rule bit_word_eqI) (auto simp: bit_simps)

lemma num_bits_step:
  assumes "bits_left l0 n lb" and "n = 2 * k" and "0 < k" and "k \<le> 32"
  shows "bits_left l0 k (num_bits_step k lb)"
proof -
  obtain l bits where lb: "lb = (l, bits)" by (cases lb)
  with assms(1,2) obtain s where s: "unat l = unat l0 div 2 ^ s" "bits = s + of_bool (l0 \<noteq> 0)"
    "unat l < 2 ^ (2 * k)" "l0 \<noteq> 0 \<longrightarrow> l \<noteq> 0" by (auto simp: bits_left_def)
  have x: "unat (drop_bit k l) = unat l div 2 ^ k"
    by (simp add: unat_drop_bit_eq drop_bit_eq_div [where 'a = nat])
  have "unat l div 2 ^ k < 2 ^ k"
    using s(3) by (intro less_mult_imp_div_less) (simp add: mult_2 power_add)
  moreover have "(2 :: nat) ^ k \<le> 2 ^ 63" using assms(4) by (intro power_increasing) simp_all
  ultimately have m: "0 - drop_bit 63 (0 - drop_bit k l) = mask_of (drop_bit k l \<noteq> 0)"
    by (intro nonzero_mask) (simp add: x)
  have k: "unat (of_nat k :: u64) = k" using assms(4) by (simp add: unat_of_nat_small)
  show ?thesis
  proof (cases "drop_bit k l = 0")
    case True
    then have "num_bits_step k lb = lb" using m by (simp add: lb num_bits_step_def mask_of_def Let_def)
    moreover have "unat l < 2 ^ k" using True by (simp add: drop_bit_word_eq_0_iff)
    ultimately show ?thesis using s by (auto simp: lb bits_left_def)
  next
    case False
    then have "num_bits_step k lb = (drop_bit k l, bits + k)"
      using m k by (simp add: lb num_bits_step_def mask_of_def Let_def xor_swap)
    moreover have "unat l div 2 ^ k = unat l0 div 2 ^ (s + k)"
      using s(1) by (simp add: div_mult2_eq power_add)
    ultimately show ?thesis
      using s x False \<open>unat l div 2 ^ k < 2 ^ k\<close> by (auto simp: bits_left_def intro!: exI [of _ "s + k"])
  qed
qed

lemma BN_num_bits_word_val [bn_spec]:
  shows "unat l < 2 ^ BN_num_bits_word l" and "l \<noteq> 0 \<Longrightarrow> 0 < BN_num_bits_word l \<and> 2 ^ (BN_num_bits_word l - 1) \<le> unat l"
proof -
  have "bits_left l 64 (l, of_bool (l \<noteq> 0))"
    using unsigned_less [of l, where 'a = nat] by (auto simp: bits_left_def intro!: exI [of _ 0])
  then have "bits_left l 1 (num_bits_step 1 (num_bits_step 2 (num_bits_step 4 (num_bits_step 8
      (num_bits_step 16 (num_bits_step 32 (l, of_bool (l \<noteq> 0))))))))"
    by (rule num_bits_step [OF num_bits_step [OF num_bits_step [OF num_bits_step [OF num_bits_step [OF num_bits_step]]]]]) simp_all
  then obtain s where s: "BN_num_bits_word l = s + of_bool (l \<noteq> 0)" "unat l div 2 ^ s < 2"
    "l \<noteq> 0 \<longrightarrow> unat l div 2 ^ s \<noteq> 0"
    by (fastforce simp: bits_left_def BN_num_bits_word_def unat_eq_0 [symmetric] split: prod.splits)
  show "unat l < 2 ^ BN_num_bits_word l"
  proof (cases "l = 0")
    case False
    with s have "unat l < 2 * 2 ^ s" by (simp add: div_less_iff_less_mult)
    with False s show ?thesis by simp
  qed simp
  show "0 < BN_num_bits_word l \<and> 2 ^ (BN_num_bits_word l - 1) \<le> unat l" if "l \<noteq> 0"
    using that s by (simp add: div_eq_0_iff not_less)
qed

lemma BN_num_bits_val [bn_spec]:
  assumes "bn_ok bn"
  shows "bn_abs bn < 2 ^ BN_num_bits bn"
    and "bn_abs bn \<noteq> 0 \<Longrightarrow> 0 < BN_num_bits bn \<and> 2 ^ (BN_num_bits bn - 1) \<le> bn_abs bn"
proof -
  let ?m = "bn_minimal_width bn"
  note m = bn_minimal_width [OF assms]
  have "bn_abs bn < 2 ^ BN_num_bits bn \<and>
    (bn_abs bn \<noteq> 0 \<longrightarrow> 0 < BN_num_bits bn \<and> 2 ^ (BN_num_bits bn - 1) \<le> bn_abs bn)"
  proof (cases "?m = 0")
    case True
    with bn_minimal_width_0_iff [OF assms] show ?thesis by (simp add: BN_num_bits_def)
  next
    case False
    let ?top = "bn_d bn ! (?m - 1)" and ?low = "bn_val (take (?m - 1) (bn_d bn))"
    let ?k = "BN_num_bits_word ?top"
    have len: "?m \<le> length (bn_d bn)" using m(1) assms by (simp add: bn_ok_def)
    have abs: "bn_abs bn = ?low + bn_base ^ (?m - 1) * unat ?top"
      using top_limb [of ?m "bn_d bn"] False len m(2) by simp
    have low: "?low < bn_base ^ (?m - 1)"
      using bn_val_less [of "take (?m - 1) (bn_d bn)"] len by (simp add: min_absorb2)
    have k: "unat ?top < 2 ^ ?k" "0 < ?k" "2 ^ (?k - 1) \<le> unat ?top"
      using BN_num_bits_word_val [of ?top] m(3) False by simp_all
    have B: "bn_base ^ (?m - 1) = 2 ^ (64 * (?m - 1))" by (simp add: bn_base_def power_mult)
    have bits: "BN_num_bits bn = 64 * (?m - 1) + ?k" using False by (simp add: BN_num_bits_def Let_def)
    have "bn_abs bn < bn_base ^ (?m - 1) * Suc (unat ?top)" using low abs by simp
    also have "\<dots> \<le> bn_base ^ (?m - 1) * 2 ^ ?k" using k(1) by (intro mult_le_mono2) simp
    finally have upper: "bn_abs bn < 2 ^ BN_num_bits bn" unfolding bits power_add B .
    have "bn_base ^ (?m - 1) * 2 ^ (?k - 1) \<le> bn_base ^ (?m - 1) * unat ?top"
      using k(3) by (rule mult_le_mono2)
    moreover have "2 ^ (BN_num_bits bn - 1) = bn_base ^ (?m - 1) * 2 ^ (?k - 1)"
      unfolding bits B power_add [symmetric] using k(2) by simp
    ultimately have "2 ^ (BN_num_bits bn - 1) \<le> bn_abs bn" using abs by linarith
    with upper show ?thesis using k(2) bits by simp
  qed
  then show "bn_abs bn < 2 ^ BN_num_bits bn"
    "bn_abs bn \<noteq> 0 \<Longrightarrow> 0 < BN_num_bits bn \<and> 2 ^ (BN_num_bits bn - 1) \<le> bn_abs bn" by simp_all
qed

end
