(* ===== verification/Bn_Mul.thy ===== *)
theory Bn_Mul
  imports Bn_Words
begin

text \<open>
  The quadratic multiplication and squaring of \<open>mul.c\<close>, and the unrolled products of
  \<open>generic.c\<close> that work column by column (\<open>bn_mul_comba4\<close> and the like).
\<close>

section \<open>Row by row\<close>

text \<open>
  \<open>mul_rows r a j bs\<close>: the rows for the limbs \<open>bs\<close> from number \<open>j\<close> on are added to the array
  \<open>r\<close> of \<open>length a + j\<close> limbs, each at its offset; the carry becomes the next limb.
\<close>

fun mul_rows :: "limbs \<Rightarrow> limbs \<Rightarrow> nat \<Rightarrow> limbs \<Rightarrow> limbs" where
  "mul_rows r a j [] = r"
| "mul_rows r a j (b # bs) =
    (case bn_mul_add_words (drop j r) a b of (m, c) \<Rightarrow> mul_rows (take j r @ m @ [c]) a (Suc j) bs)"

definition bn_mul_normal :: "limbs \<Rightarrow> limbs \<Rightarrow> limbs" where
  "bn_mul_normal a b =
    (let (a, b) = (if length a < length b then (b, a) else (a, b))
     in case b of
          [] \<Rightarrow> replicate (length a) 0
        | b0 # bs \<Rightarrow> (case bn_mul_words a b0 of (r, c) \<Rightarrow> mul_rows (r @ [c]) a 1 bs))"

text \<open>
  The products of different limbs: row \<open>k\<close> multiplies limb \<open>k\<close> with those above it, at
  offset \<open>2 * k + 1\<close>.
\<close>

fun sqr_rows :: "limbs \<Rightarrow> nat \<Rightarrow> limbs \<Rightarrow> limbs" where
  "sqr_rows r k (x # y # ys) =
    (case bn_mul_add_words (drop (2 * k + 1) r) (y # ys) x of (m, c) \<Rightarrow>
       sqr_rows (take (2 * k + 1) r @ m @ [c]) (Suc k) (y # ys))"
| "sqr_rows r k _ = r"

definition bn_sqr_normal :: "limbs \<Rightarrow> limbs" where
  "bn_sqr_normal a =
    (case a of
       [] \<Rightarrow> []
     | x # xs \<Rightarrow>
        let r = (if xs = [] then [0]
                 else case bn_mul_words xs x of (m, c) \<Rightarrow> sqr_rows (0 # m @ [c]) 1 xs) @ [0];
            r = fst (bn_add_words r r)
        in fst (bn_add_words r (bn_sqr_words a)))"

section \<open>Column by column\<close>

text \<open>An accumulator of three words; the macros add one product, or twice one product.\<close>

type_synonym accu = "u64 \<times> u64 \<times> u64"

definition mul_add_c :: "u64 \<Rightarrow> u64 \<Rightarrow> accu \<Rightarrow> accu" where
  "mul_add_c a b = (\<lambda>(c0, c1, c2).
    let t = (ucast a :: u128) * ucast b + ucast c0; hi = Hw t; c1 = c1 + hi
    in (Lw t, c1, if c1 < hi then c2 + 1 else c2))"

definition mul_add_c2 :: "u64 \<Rightarrow> u64 \<Rightarrow> accu \<Rightarrow> accu" where
  "mul_add_c2 a b = (\<lambda>(c0, c1, c2).
    let t = (ucast a :: u128) * ucast b;
        tt = t + ucast c0; c0 = Lw tt; hi = Hw tt; c1 = c1 + hi;
        c2 = (if c1 < hi then c2 + 1 else c2);
        t = t + ucast c0; hi = Hw t; c1 = c1 + hi
    in (Lw t, c1, if c1 < hi then c2 + 1 else c2))"

definition sqr_add_c :: "limbs \<Rightarrow> nat \<Rightarrow> accu \<Rightarrow> accu" where
  "sqr_add_c a i = (\<lambda>(c0, c1, c2).
    let t = (ucast (a ! i) :: u128) * ucast (a ! i) + ucast c0; hi = Hw t; c1 = c1 + hi
    in (Lw t, c1, if c1 < hi then c2 + 1 else c2))"

definition sqr_add_c2 :: "limbs \<Rightarrow> nat \<Rightarrow> nat \<Rightarrow> accu \<Rightarrow> accu" where
  "sqr_add_c2 a i j = mul_add_c2 (a ! i) (a ! j)"

text \<open>
  A column is the list of the index pairs of its macros in the order of the code.  After each
  column its low word is stored and cleared; it becomes the high word of the next one, which
  is how \<open>c1\<close>, \<open>c2\<close> and \<open>c3\<close> rotate in the code.
\<close>

fun columns :: "(nat \<times> nat \<Rightarrow> accu \<Rightarrow> accu) \<Rightarrow> (nat \<times> nat) list list \<Rightarrow> accu \<Rightarrow> limbs" where
  "columns f [] (c0, c1, c2) = [c0]"
| "columns f (col # cols) acc = (case fold f col acc of (c0, c1, c2) \<Rightarrow> c0 # columns f cols (c1, c2, 0))"

definition mul_comba :: "(nat \<times> nat) list list \<Rightarrow> limbs \<Rightarrow> limbs \<Rightarrow> limbs" where
  "mul_comba cols a b = columns (\<lambda>(i, j). mul_add_c (a ! i) (b ! j)) cols (0, 0, 0)"

definition sqr_comba :: "(nat \<times> nat) list list \<Rightarrow> limbs \<Rightarrow> limbs" where
  "sqr_comba cols a =
    columns (\<lambda>(i, j). if i = j then sqr_add_c a i else sqr_add_c2 a i j) cols (0, 0, 0)"

definition bn_mul_comba8 :: "limbs \<Rightarrow> limbs \<Rightarrow> limbs" where
  "bn_mul_comba8 = mul_comba
    [[(0, 0)],
     [(0, 1), (1, 0)],
     [(2, 0), (1, 1), (0, 2)],
     [(0, 3), (1, 2), (2, 1), (3, 0)],
     [(4, 0), (3, 1), (2, 2), (1, 3), (0, 4)],
     [(0, 5), (1, 4), (2, 3), (3, 2), (4, 1), (5, 0)],
     [(6, 0), (5, 1), (4, 2), (3, 3), (2, 4), (1, 5), (0, 6)],
     [(0, 7), (1, 6), (2, 5), (3, 4), (4, 3), (5, 2), (6, 1), (7, 0)],
     [(7, 1), (6, 2), (5, 3), (4, 4), (3, 5), (2, 6), (1, 7)],
     [(2, 7), (3, 6), (4, 5), (5, 4), (6, 3), (7, 2)],
     [(7, 3), (6, 4), (5, 5), (4, 6), (3, 7)],
     [(4, 7), (5, 6), (6, 5), (7, 4)],
     [(7, 5), (6, 6), (5, 7)],
     [(6, 7), (7, 6)],
     [(7, 7)]]"

definition bn_mul_comba4 :: "limbs \<Rightarrow> limbs \<Rightarrow> limbs" where
  "bn_mul_comba4 = mul_comba
    [[(0, 0)],
     [(0, 1), (1, 0)],
     [(2, 0), (1, 1), (0, 2)],
     [(0, 3), (1, 2), (2, 1), (3, 0)],
     [(3, 1), (2, 2), (1, 3)],
     [(2, 3), (3, 2)],
     [(3, 3)]]"

definition bn_sqr_comba8 :: "limbs \<Rightarrow> limbs" where
  "bn_sqr_comba8 = sqr_comba
    [[(0, 0)],
     [(1, 0)],
     [(1, 1), (2, 0)],
     [(3, 0), (2, 1)],
     [(2, 2), (3, 1), (4, 0)],
     [(5, 0), (4, 1), (3, 2)],
     [(3, 3), (4, 2), (5, 1), (6, 0)],
     [(7, 0), (6, 1), (5, 2), (4, 3)],
     [(4, 4), (5, 3), (6, 2), (7, 1)],
     [(7, 2), (6, 3), (5, 4)],
     [(5, 5), (6, 4), (7, 3)],
     [(7, 4), (6, 5)],
     [(6, 6), (7, 5)],
     [(7, 6)],
     [(7, 7)]]"

definition bn_sqr_comba4 :: "limbs \<Rightarrow> limbs" where
  "bn_sqr_comba4 = sqr_comba
    [[(0, 0)],
     [(1, 0)],
     [(1, 1), (2, 0)],
     [(3, 0), (2, 1)],
     [(2, 2), (3, 1)],
     [(3, 2)],
     [(3, 3)]]"

text \<open>\<open>None\<close> stands for the call of \<open>abort\<close>; \<open>BN_SMALL_MAX_WORDS\<close> is 9.\<close>

definition BN_SMALL_MAX_WORDS :: nat where "BN_SMALL_MAX_WORDS = 9"

definition bn_mul_small :: "nat \<Rightarrow> limbs \<Rightarrow> limbs \<Rightarrow> limbs option" where
  "bn_mul_small num_r a b =
    (if num_r \<noteq> length a + length b then None
     else if length a = 8 \<and> length b = 8 then Some (bn_mul_comba8 a b)
     else Some (bn_mul_normal a b))"

definition bn_sqr_small :: "nat \<Rightarrow> limbs \<Rightarrow> limbs option" where
  "bn_sqr_small num_r a =
    (if num_r \<noteq> 2 * length a \<or> BN_SMALL_MAX_WORDS < length a then None
     else if length a = 4 then Some (bn_sqr_comba4 a)
     else if length a = 8 then Some (bn_sqr_comba8 a)
     else Some (bn_sqr_normal a))"

section \<open>The rows compute the product\<close>

lemma mul_rows_val:
  "length r = length a + j \<Longrightarrow> length (mul_rows r a j bs) = length a + j + length bs \<and>
    bn_val (mul_rows r a j bs) = bn_val r + bn_base ^ j * (bn_val a * bn_val bs)"
proof (induction bs arbitrary: r j)
  case (Cons b bs)
  obtain m c where row: "bn_mul_add_words (drop j r) a b = (m, c)"
    by (cases "bn_mul_add_words (drop j r) a b")
  have "length (drop j r) = length a" using Cons.prems by simp
  note v = bn_mul_add_words_val [OF row this]
  let ?r = "take j r @ m @ [c]"
  have "bn_val ?r = bn_val (take j r) + bn_base ^ j * (bn_val m + bn_base ^ length a * unat c)"
    using Cons.prems v(1) by (simp add: bn_val_append)
  also have "\<dots> = bn_val (take j r) + bn_base ^ j * bn_val (drop j r) + bn_base ^ j * (bn_val a * unat b)"
    unfolding v(2) by (simp add: algebra_simps)
  also have "\<dots> = bn_val r + bn_base ^ j * (bn_val a * unat b)"
    using Cons.prems bn_val_take_drop [of j r] by simp
  finally have r: "bn_val ?r = bn_val r + bn_base ^ j * (bn_val a * unat b)" .
  have "length ?r = length a + Suc j" using Cons.prems v(1) by simp
  from Cons.IH [OF this] r show ?case
    by (simp add: row algebra_simps)
qed simp

lemma bn_mul_normal_val [bn_spec]:
  "length (bn_mul_normal a b) = length a + length b \<and> bn_val (bn_mul_normal a b) = bn_val a * bn_val b"
proof -
  have "length (bn_mul_normal a b) = length a + length b \<and> bn_val (bn_mul_normal a b) = bn_val a * bn_val b"
    if le: "length b \<le> length a" for a b
  proof (cases b)
    case Nil
    with le show ?thesis by (simp add: bn_mul_normal_def)
  next
    case (Cons b0 bs)
    obtain r c where row: "bn_mul_words a b0 = (r, c)" by (cases "bn_mul_words a b0")
    note v = bn_mul_words_val [OF row]
    have "length (r @ [c]) = length a + 1" using v(1) by simp
    from mul_rows_val [OF this, of bs] v(1,2) Cons le row show ?thesis
      by (simp add: bn_mul_normal_def bn_val_append algebra_simps)
  qed
  moreover have "bn_mul_normal a b = bn_mul_normal b a" if "length a < length b"
    using that by (simp add: bn_mul_normal_def)
  ultimately show ?thesis
    by (cases "length b \<le> length a") (simp_all add: mult.commute)
qed

fun cross :: "limbs \<Rightarrow> nat" where
  "cross [] = 0"
| "cross (x # xs) = bn_base * (unat x * bn_val xs) + bn_base * bn_base * cross xs"

lemma square_split: "bn_val a * bn_val a = squares a + 2 * cross a"
  by (induction a) (simp_all add: algebra_simps)

lemma sqr_rows_val:
  "a \<noteq> [] \<Longrightarrow> length r = 2 * k + length a \<Longrightarrow>
    length (sqr_rows r k a) + 1 = 2 * k + 2 * length a \<and>
    bn_val (sqr_rows r k a) = bn_val r + bn_base ^ (2 * k) * cross a"
proof (induction r k a rule: sqr_rows.induct)
  case (1 r k x y ys)
  obtain m c where row: "bn_mul_add_words (drop (2 * k + 1) r) (y # ys) x = (m, c)"
    by (cases "bn_mul_add_words (drop (2 * k + 1) r) (y # ys) x")
  have "length (drop (2 * k + 1) r) = length (y # ys)" using 1(3) by simp
  note v = bn_mul_add_words_val [OF row this]
  let ?r = "take (2 * k + 1) r @ m @ [c]"
  have "bn_val ?r = bn_val (take (2 * k + 1) r) +
      bn_base ^ (2 * k + 1) * (bn_val m + bn_base ^ length (y # ys) * unat c)"
    using 1(3) v(1) by (simp add: bn_val_append)
  also have "\<dots> = bn_val (take (2 * k + 1) r) + bn_base ^ (2 * k + 1) * bn_val (drop (2 * k + 1) r) +
      bn_base ^ (2 * k + 1) * (unat x * bn_val (y # ys))"
    unfolding v(2) by (simp add: algebra_simps del: bn_val.simps)
  also have "\<dots> = bn_val r + bn_base ^ (2 * k + 1) * (unat x * bn_val (y # ys))"
    using 1(3) bn_val_take_drop [of "2 * k + 1" r] by (simp del: bn_val.simps)
  finally have r: "bn_val ?r = bn_val r + bn_base ^ (2 * k + 1) * (unat x * bn_val (y # ys))" .
  have "length ?r = 2 * Suc k + length (y # ys)" using 1(3) v(1) by simp
  note IH = 1(1) [OF row [symmetric] _ this]
  have "sqr_rows r k (x # y # ys) = sqr_rows ?r (Suc k) (y # ys)"
    by (simp only: sqr_rows.simps row prod.case)
  with IH r show ?case by (simp add: algebra_simps del: bn_val.simps sqr_rows.simps)
qed simp_all

lemma add_no_carry:
  assumes "bn_add_words a b = (r, c)" and "length a = length b"
    and "bn_val a + bn_val b < bn_base ^ length b"
  shows "bn_val r = bn_val a + bn_val b"
  using bn_add_words_val [OF assms(1,2)] assms(3) by (cases "unat c") auto

lemma bn_sqr_normal_val [bn_spec]:
  "length (bn_sqr_normal a) = 2 * length a \<and> bn_val (bn_sqr_normal a) = bn_val a * bn_val a"
proof (cases a)
  case (Cons x xs)
  define r where "r = (if xs = [] then [0]
      else case bn_mul_words xs x of (m, c) \<Rightarrow> sqr_rows (0 # m @ [c]) 1 xs) @ [0]"
  have r: "length r = 2 * length a \<and> bn_val r = cross a"
  proof (cases "xs = []")
    case False
    obtain m c where row: "bn_mul_words xs x = (m, c)" by (cases "bn_mul_words xs x")
    note v = bn_mul_words_val [OF row]
    have "length (0 # m @ [c]) = 2 * 1 + length xs" using v(1) by simp
    note rows = sqr_rows_val [OF False this]
    have "bn_base * bn_val (m @ [c]) = bn_base * (unat x * bn_val xs)"
      using v by (simp add: bn_val_append)
    with rows False Cons show ?thesis
      by (simp add: r_def row bn_val_append power2_eq_square)
  qed (use Cons in \<open>simp add: r_def\<close>)
  obtain d c1 where d: "bn_add_words r r = (d, c1)" by (cases "bn_add_words r r")
  obtain e c2 where e: "bn_add_words d (bn_sqr_words a) = (e, c2)" by (cases "bn_add_words d (bn_sqr_words a)")
  have bound: "squares a + 2 * cross a < bn_base ^ (2 * length a)"
    using mult_strict_mono [OF bn_val_less [of a] bn_val_less [of a]]
    by (simp add: square_split power_add mult_2)
  have "bn_val d = 2 * cross a" "length d = 2 * length a"
    using add_no_carry [OF d] bn_add_words_val(1) [OF d] r bound by simp_all
  then have "bn_val e = squares a + 2 * cross a" "length e = 2 * length a"
    using add_no_carry [OF e] bn_add_words_val(1) [OF e] bn_sqr_words_val [of a] bound by simp_all
  moreover have "bn_sqr_normal a = e"
    using Cons d e by (simp add: bn_sqr_normal_def r_def Let_def)
  ultimately show ?thesis by (simp add: square_split)
qed (simp add: bn_sqr_normal_def)

section \<open>The columns compute the product\<close>

definition accu_val :: "accu \<Rightarrow> nat" where
  "accu_val = (\<lambda>(c0, c1, c2). unat c0 + bn_base * unat c1 + bn_base * bn_base * unat c2)"

lemma accu_carry:
  assumes "accu_val (0, c1, c2) + bn_base * unat hi < bn_base * bn_base * bn_base"
  shows "accu_val (c0, c1 + hi, if c1 + hi < hi then c2 + 1 else c2) = accu_val (c0, c1, c2) + bn_base * unat hi"
proof (cases "c1 + hi < hi")
  case False
  with unat_carry [of c1 hi] show ?thesis by (simp add: accu_val_def algebra_simps)
next
  case True
  with unat_carry [of c1 hi] have c1: "unat (c1 + hi) + bn_base = unat c1 + unat hi" by simp
  have "bn_base * bn_base * (unat c2 + 1) \<le> bn_base * (unat c1 + unat hi) + bn_base * bn_base * unat c2"
    unfolding c1 [symmetric] by (simp add: algebra_simps)
  also have "\<dots> < bn_base * bn_base * bn_base"
    using assms by (simp add: accu_val_def algebra_simps)
  finally have "unat c2 + 1 < 2 ^ 64" by (simp add: bn_base_def)
  then have "unat (c2 + 1) = unat c2 + 1" by (simp add: unat_word_ariths)
  with True have "accu_val (c0, c1 + hi, if c1 + hi < hi then c2 + 1 else c2)
      = unat c0 + bn_base * (unat (c1 + hi) + bn_base) + bn_base * bn_base * unat c2"
    by (simp add: accu_val_def algebra_simps)
  then show ?thesis
    unfolding c1 by (simp add: accu_val_def algebra_simps)
qed

lemma mul_add_c_val:
  assumes "accu_val acc + unat a * unat b < bn_base * bn_base * bn_base"
  shows "accu_val (mul_add_c a b acc) = accu_val acc + unat a * unat b"
proof -
  obtain c0 c1 c2 where acc: "acc = (c0, c1, c2)" by (cases acc)
  obtain lo hi where m: "mul_add c0 b a 0 = (lo, hi)" by (cases "mul_add c0 b a 0")
  note v = mul_add_val [OF m]
  have eq: "mul_add_c a b acc = (lo, c1 + hi, if c1 + hi < hi then c2 + 1 else c2)"
    using m by (simp add: acc mul_add_c_def mul_add_def Let_def)
  have "accu_val (0, c1, c2) + bn_base * unat hi \<le> accu_val acc + unat a * unat b"
    using v by (simp add: accu_val_def acc)
  with assms have "accu_val (0, c1, c2) + bn_base * unat hi < bn_base * bn_base * bn_base"
    by (rule le_less_trans [rotated])
  from accu_carry [OF this, of lo] v show ?thesis
    by (simp add: eq) (simp add: accu_val_def acc)
qed

lemma mul_add_c2_twice: "mul_add_c2 a b acc = mul_add_c a b (mul_add_c a b acc)"
  by (cases acc) (simp add: mul_add_c2_def mul_add_c_def Let_def)

lemma mul_add_c2_val:
  assumes "accu_val acc + 2 * (unat a * unat b) < bn_base * bn_base * bn_base"
  shows "accu_val (mul_add_c2 a b acc) = accu_val acc + 2 * (unat a * unat b)"
  using assms by (simp add: mul_add_c2_twice mul_add_c_val)

lemma sqr_add_c: "sqr_add_c a i = mul_add_c (a ! i) (a ! i)"
  by (simp add: sqr_add_c_def mul_add_c_def)

text \<open>\<open>adds f g\<close>: a macro \<open>f\<close> adds the number \<open>g\<close> to the accumulator, unless it overflows.\<close>

definition adds :: "(nat \<times> nat \<Rightarrow> accu \<Rightarrow> accu) \<Rightarrow> (nat \<times> nat \<Rightarrow> nat) \<Rightarrow> bool" where
  "adds f g \<longleftrightarrow> (\<forall>ij acc. accu_val acc + g ij < bn_base * bn_base * bn_base \<longrightarrow>
    accu_val (f ij acc) = accu_val acc + g ij)"

lemma adds_column:
  "adds f g \<Longrightarrow> accu_val acc + sum_list (map g col) < bn_base * bn_base * bn_base \<Longrightarrow>
    accu_val (fold f col acc) = accu_val acc + sum_list (map g col)"
proof (induction col arbitrary: acc)
  case (Cons ij col)
  then have "accu_val (f ij acc) = accu_val acc + g ij"
    unfolding adds_def by (simp del: split_paired_All)
  with Cons show ?case by simp
qed simp

fun columns_sum :: "(nat \<times> nat \<Rightarrow> nat) \<Rightarrow> (nat \<times> nat) list list \<Rightarrow> nat" where
  "columns_sum g [] = 0"
| "columns_sum g (col # cols) = sum_list (map g col) + bn_base * columns_sum g cols"

lemma accu_val_less: "accu_val (c0, c1, 0) < bn_base * bn_base"
proof -
  have "bn_base * Suc (unat c1) \<le> bn_base * bn_base"
    by (intro mult_le_mono2) (simp add: Suc_le_eq)
  with limb_less [of c0] show ?thesis by (simp add: accu_val_def del: limb_less)
qed

lemma columns_val:
  assumes "adds f g"
  shows "accu_val acc < bn_base * bn_base \<Longrightarrow>
    \<forall>col \<in> set cols. bn_base * bn_base + sum_list (map g col) \<le> bn_base * bn_base * bn_base \<Longrightarrow>
    length (columns f cols acc) = length cols + 1 \<and>
    (\<exists>e. bn_val (columns f cols acc) + bn_base ^ (length cols + 1) * e = accu_val acc + columns_sum g cols)"
proof (induction cols arbitrary: acc)
  case Nil
  obtain c0 c1 c2 where "acc = (c0, c1, c2)" by (cases acc)
  then show ?case by (auto simp: accu_val_def algebra_simps intro: exI [of _ "unat c1 + bn_base * unat c2"])
next
  case (Cons col cols)
  obtain c0 c1 c2 where col: "fold f col acc = (c0, c1, c2)" by (cases "fold f col acc")
  have "accu_val acc + sum_list (map g col) < bn_base * bn_base * bn_base"
    using Cons.prems by simp
  from adds_column [OF assms this] have v:
    "unat c0 + bn_base * accu_val (c1, c2, 0) = accu_val acc + sum_list (map g col)"
    by (simp add: col accu_val_def algebra_simps)
  from Cons.IH [of "(c1, c2, 0)"] Cons.prems accu_val_less obtain e where
    IH: "length (columns f cols (c1, c2, 0)) = length cols + 1"
    "bn_val (columns f cols (c1, c2, 0)) + bn_base ^ (length cols + 1) * e =
      accu_val (c1, c2, 0) + columns_sum g cols"
    by auto
  have "bn_val (columns f (col # cols) acc) + bn_base ^ (length (col # cols) + 1) * e =
      unat c0 + bn_base * (bn_val (columns f cols (c1, c2, 0)) + bn_base ^ (length cols + 1) * e)"
    by (simp add: col algebra_simps)
  also have "\<dots> = (unat c0 + bn_base * accu_val (c1, c2, 0)) + bn_base * columns_sum g cols"
    unfolding IH(2) by (simp add: algebra_simps)
  also have "\<dots> = accu_val acc + columns_sum g (col # cols)"
    unfolding v by simp
  finally show ?case using IH(1) col by auto
qed

lemma columns_exact:
  assumes "adds f g" and "\<And>ij. g ij \<le> 2 * (bn_base * bn_base)"
    and "\<forall>col \<in> set cols. length col \<le> 8" and "columns_sum g cols < bn_base ^ (length cols + 1)"
  shows "length (columns f cols (0, 0, 0)) = length cols + 1 \<and>
    bn_val (columns f cols (0, 0, 0)) = columns_sum g cols"
proof -
  have "bn_base * bn_base + sum_list (map g col) \<le> bn_base * bn_base * bn_base" if "col \<in> set cols" for col
  proof -
    have "sum_list (map g col) \<le> length col * (2 * (bn_base * bn_base))"
      by (induction col) (simp_all add: assms(2) add_mono)
    also have "\<dots> \<le> 8 * (2 * (bn_base * bn_base))"
      using assms(3) that by (intro mult_le_mono1) simp
    finally have "bn_base * bn_base + sum_list (map g col) \<le> 17 * (bn_base * bn_base)" by simp
    also have "\<dots> \<le> bn_base * (bn_base * bn_base)"
      by (intro mult_le_mono1) (simp add: bn_base_def)
    finally show ?thesis by (simp only: mult.assoc)
  qed
  then have "\<forall>col \<in> set cols. bn_base * bn_base + sum_list (map g col) \<le> bn_base * bn_base * bn_base" ..
  from columns_val [OF assms(1) accu_val_less this, of 0 0] obtain e where e:
    "length (columns f cols (0, 0, 0)) = length cols + 1"
    "bn_val (columns f cols (0, 0, 0)) + bn_base ^ (length cols + 1) * e = columns_sum g cols"
    by (auto simp: accu_val_def)
  then have "bn_base ^ (length cols + 1) * e < bn_base ^ (length cols + 1) * 1"
    using assms(4) by linarith
  then have "e = 0" by simp
  with e show ?thesis by simp
qed

lemma limb_product_le: "unat (a :: u64) * unat (b :: u64) \<le> bn_base * bn_base"
  by (intro mult_le_mono less_imp_le) simp_all

lemma adds_mul: "adds (\<lambda>(i, j). mul_add_c (a ! i) (b ! j)) (\<lambda>(i, j). unat (a ! i) * unat (b ! j))"
  unfolding adds_def by (auto simp: mul_add_c_val simp del: split_paired_All)

lemma adds_sqr: "adds (\<lambda>(i, j). if i = j then sqr_add_c a i else sqr_add_c2 a i j)
    (\<lambda>(i, j). (if i = j then 1 else 2) * (unat (a ! i) * unat (a ! j)))"
  unfolding adds_def by (auto simp: mul_add_c_val mul_add_c2_val sqr_add_c sqr_add_c2_def simp del: split_paired_All)

lemma mul_comba_exact:
  assumes "columns_sum (\<lambda>(i, j). unat (a ! i) * unat (b ! j)) cols = bn_val a * bn_val b"
    and "length cols + 1 = length a + length b" and "\<forall>col \<in> set cols. length col \<le> 8"
  shows "length (mul_comba cols a b) = length a + length b \<and> bn_val (mul_comba cols a b) = bn_val a * bn_val b"
proof -
  have "bn_val a * bn_val b < bn_base ^ (length cols + 1)"
    unfolding assms(2) power_add by (intro mult_strict_mono bn_val_less) simp_all
  moreover have "(case ij of (i, j) \<Rightarrow> unat (a ! i) * unat (b ! j)) \<le> 2 * (bn_base * bn_base)" for ij
    using limb_product_le by (cases ij) (simp add: trans_le_add1 mult_2)
  ultimately show ?thesis
    using columns_exact [OF adds_mul _ assms(3), of a b] assms(1,2) by (simp add: mul_comba_def)
qed

lemma sqr_comba_exact:
  assumes "columns_sum (\<lambda>(i, j). (if i = j then 1 else 2) * (unat (a ! i) * unat (a ! j))) cols = bn_val a * bn_val a"
    and "length cols + 1 = 2 * length a" and "\<forall>col \<in> set cols. length col \<le> 8"
  shows "length (sqr_comba cols a) = 2 * length a \<and> bn_val (sqr_comba cols a) = bn_val a * bn_val a"
proof -
  have "bn_val a * bn_val a < bn_base ^ (length cols + 1)"
    unfolding assms(2) mult_2 power_add by (intro mult_strict_mono bn_val_less) simp_all
  moreover have "(case ij of (i, j) \<Rightarrow> (if i = j then 1 else 2) * (unat (a ! i) * unat (a ! j))) \<le> 2 * (bn_base * bn_base)" for ij
    using limb_product_le by (cases ij) (simp add: trans_le_add1 mult_2 add_mono)
  ultimately show ?thesis
    using columns_exact [OF adds_sqr _ assms(3), of a] assms(1,2) by (simp add: sqr_comba_def)
qed

lemma length_Suc: "length xs = Suc n \<longleftrightarrow> (\<exists>y ys. xs = y # ys \<and> length ys = n)"
  by (cases xs) auto

lemma length_4: "length xs = 4 \<longleftrightarrow> (\<exists>a b c d. xs = [a, b, c, d])"
  by (auto simp: eval_nat_numeral length_Suc)

lemma length_8: "length xs = 8 \<longleftrightarrow> (\<exists>a b c d e f g h. xs = [a, b, c, d, e, f, g, h])"
  by (auto simp: eval_nat_numeral length_Suc)

lemma comba4_val [bn_spec]:
  assumes "length a = 4" and "length b = 4"
  shows "length (bn_mul_comba4 a b) = length a + length b \<and> bn_val (bn_mul_comba4 a b) = bn_val a * bn_val b"
  using assms unfolding length_4 bn_mul_comba4_def
  by (elim exE, intro mul_comba_exact) (simp_all add: algebra_simps)

lemma comba8_val [bn_spec]:
  assumes "length a = 8" and "length b = 8"
  shows "length (bn_mul_comba8 a b) = length a + length b \<and> bn_val (bn_mul_comba8 a b) = bn_val a * bn_val b"
  using assms unfolding length_8 bn_mul_comba8_def
  by (elim exE, intro mul_comba_exact) (simp_all add: algebra_simps)

lemma sqr_comba4_val [bn_spec]:
  assumes "length a = 4"
  shows "length (bn_sqr_comba4 a) = 2 * length a \<and> bn_val (bn_sqr_comba4 a) = bn_val a * bn_val a"
  using assms unfolding length_4 bn_sqr_comba4_def
  by (elim exE, intro sqr_comba_exact) (simp_all add: algebra_simps)

lemma sqr_comba8_val [bn_spec]:
  assumes "length a = 8"
  shows "length (bn_sqr_comba8 a) = 2 * length a \<and> bn_val (bn_sqr_comba8 a) = bn_val a * bn_val a"
  using assms unfolding length_8 bn_sqr_comba8_def
  by (elim exE, intro sqr_comba_exact) (simp_all add: algebra_simps)

lemma bn_mul_small_val [bn_spec]:
  "bn_mul_small (length a + length b) a b = Some r \<longleftrightarrow>
    r = (if length a = 8 \<and> length b = 8 then bn_mul_comba8 a b else bn_mul_normal a b)"
  "bn_mul_small n a b = Some r \<Longrightarrow> length r = length a + length b \<and> bn_val r = bn_val a * bn_val b"
  using comba8_val [of a b] bn_mul_normal_val [of a b]
  by (auto simp: bn_mul_small_def split: if_splits)

lemma bn_sqr_small_val [bn_spec]:
  "bn_sqr_small n a = Some r \<Longrightarrow> length r = 2 * length a \<and> bn_val r = bn_val a * bn_val a"
  using sqr_comba8_val [of a] sqr_comba4_val [of a] bn_sqr_normal_val [of a]
  by (auto simp: bn_sqr_small_def split: if_splits)

end
