(* ===== verification/Bn_Karatsuba.thy ===== *)
theory Bn_Karatsuba
  imports Bn_Mul
begin

text \<open>
  Karatsuba's multiplication and squaring of arrays of limbs, \<open>fipsmodule/bn/mul.c\<close>.  The
  lengths that are arguments in C are the lengths of the lists: \<open>n2 + dna\<close> is \<open>length a\<close>.
  The scratch space \<open>t\<close> is local.  Both recursions are proved to compute the product for
  the lengths that their comments allow.
\<close>

section \<open>The operations\<close>

subsection \<open>Differences of arrays of two lengths\<close>

text \<open>The two loops after \<open>bn_sub_words\<close>: the missing limbs of \<open>a\<close>, or of \<open>b\<close>, are zeros.\<close>

fun sub_from_zero :: "u64 \<Rightarrow> limbs \<Rightarrow> limbs \<times> u64" where
  "sub_from_zero c (t # bs) =
    (case sub_from_zero (if t \<noteq> 0 then 1 else c) bs of (rs, c') \<Rightarrow> ((0 - t - c) # rs, c'))"
| "sub_from_zero c [] = ([], c)"

fun sub_borrow_only :: "u64 \<Rightarrow> limbs \<Rightarrow> limbs \<times> u64" where
  "sub_borrow_only c (t # as) =
    (if c = 0 then (t # as, 0)
     else case sub_borrow_only (if t \<noteq> 0 then 0 else c) as of (rs, c') \<Rightarrow> ((t - c) # rs, c'))"
| "sub_borrow_only c [] = ([], c)"

definition bn_sub_part_words :: "limbs \<Rightarrow> limbs \<Rightarrow> limbs \<times> u64" where
  "bn_sub_part_words a b =
    (let cl = min (length a) (length b); (lo, c) = bn_sub_words (take cl a) (take cl b)
     in if length a = length b then (lo, c)
        else case (if length a < length b then sub_from_zero c (drop cl b) else sub_borrow_only c (drop cl a))
             of (hi, c) \<Rightarrow> (lo @ hi, c))"

definition bn_abs_sub_part_words :: "limbs \<Rightarrow> limbs \<Rightarrow> limbs \<times> u64" where
  "bn_abs_sub_part_words a b =
    (let (tmp, borrow) = bn_sub_part_words a b; (r, _) = bn_sub_part_words b a; borrow = 0 - borrow
     in (bn_select_words borrow r tmp, borrow))"

definition bn_abs_sub_words :: "limbs \<Rightarrow> limbs \<Rightarrow> limbs" where
  "bn_abs_sub_words a b =
    (let (tmp, borrow) = bn_sub_words a b; (r, _) = bn_sub_words b a
     in bn_select_words (0 - borrow) r tmp)"

subsection \<open>The three products are added\<close>

fun carry_to_end :: "u64 \<Rightarrow> limbs \<Rightarrow> limbs \<times> u64" where
  "carry_to_end c (old # rs) =
    (let new = old + c in case carry_to_end (of_bool (new < old)) rs of (rs', c') \<Rightarrow> (new # rs', c'))"
| "carry_to_end c [] = ([], c)"

text \<open>\<open>r1,r2,c += t2,t3,c\<close>, the common end of the three recursions.\<close>

definition add_middle :: "nat \<Rightarrow> limbs \<Rightarrow> limbs \<Rightarrow> u64 \<Rightarrow> limbs" where
  "add_middle n r t23 c =
    (let (mid, e) = bn_add_words (take (2 * n) (drop n r)) t23; (hi, _) = carry_to_end (c + e) (drop (3 * n) r)
     in take n r @ mid @ hi)"

definition karatsuba_add :: "nat \<Rightarrow> u64 \<Rightarrow> limbs \<Rightarrow> limbs \<Rightarrow> limbs \<Rightarrow> limbs" where
  "karatsuba_add n neg t23 r01 r23 =
    (let (t01, c) = bn_add_words r01 r23;
         (t45, b) = bn_sub_words t01 t23; c_neg = c - b;
         (t23, d) = bn_add_words t01 t23; c_pos = c + d
     in add_middle n (r01 @ r23) (bn_select_words neg t45 t23) (constant_time_select_w neg c_neg c_pos))"

subsection \<open>The recursions\<close>

function bn_mul_recursive :: "nat \<Rightarrow> limbs \<Rightarrow> limbs \<Rightarrow> limbs" where
  "bn_mul_recursive n2 a b =
    (if n2 = 8 \<and> length a = n2 \<and> length b = n2 then bn_mul_comba8 a b
     else if n2 < 16 then bn_mul_normal a b @ replicate (2 * n2 - (length a + length b)) 0
     else let n = n2 div 2;
              (t0, neg0) = bn_abs_sub_part_words (take n a) (drop n a);
              (t1, neg1) = bn_abs_sub_part_words (drop n b) (take n b);
              full = (length a = n2 \<and> length b = n2);
              mul = (\<lambda>x y. if n = 4 \<and> full then bn_mul_comba4 x y
                else if n = 8 \<and> full then bn_mul_comba8 x y else bn_mul_recursive n x y)
          in karatsuba_add n (neg0 XOR neg1) (mul t0 t1) (mul (take n a) (take n b)) (mul (drop n a) (drop n b)))"
  by pat_completeness auto
termination by (relation "measure (\<lambda>(n2, a, b). n2)") auto

text \<open>The loop \<open>i /= 2\<close>; the flag tells which of the two calls follows.\<close>

function halve :: "nat \<Rightarrow> nat \<Rightarrow> nat \<Rightarrow> nat \<times> bool" where
  "halve i tna tnb =
    (let i = i div 2
     in if i < tna \<or> i < tnb then (i, True)
        else if i = tna \<or> i = tnb then (i, False) else halve i tna tnb)"
  by pat_completeness auto
termination by (relation "measure (\<lambda>(i, _). i)") auto

declare halve.simps [simp del] bn_mul_recursive.simps [simp del]

lemma halve_le: "halve i tna tnb = (j, part) \<Longrightarrow> j \<le> i div 2"
  by (induction i tna tnb rule: halve.induct) (subst (asm) (2) halve.simps, auto simp: Let_def split: if_splits)

text \<open>\<open>memset\<close> with a number of bytes.\<close>

fun clear_bytes :: "nat \<Rightarrow> limbs \<Rightarrow> limbs" where
  "clear_bytes k (w # ws) =
    (if k < 8 then push_bit (8 * k) (drop_bit (8 * k) w) # ws else 0 # clear_bytes (k - 8) ws)"
| "clear_bytes k [] = []"

text \<open>\<open>r\<close> is the array before the call, since the case \<open>n < 8\<close> does not write all of it.\<close>

function bn_mul_part_recursive :: "nat \<Rightarrow> limbs \<Rightarrow> limbs \<Rightarrow> limbs \<Rightarrow> limbs" where
  "bn_mul_part_recursive n a b r =
    (let tna = length a - n; tnb = length b - n; n2 = 2 * n
     in if n < 8 then bn_mul_normal a b @ clear_bytes (n2 - tna - tnb) (drop (n2 + tna + tnb) r)
        else let (t0, neg0) = bn_abs_sub_part_words (take n a) (drop n a);
                 (t1, neg1) = bn_abs_sub_part_words (drop n b) (take n b);
                 mul = (\<lambda>x y. if n = 8 then bn_mul_comba8 x y else bn_mul_recursive n x y);
                 r23 = (if n = 8 \<or> tna < 16 \<and> tnb < 16
                   then bn_mul_normal (drop n a) (drop n b) @ replicate (n2 - tna - tnb) 0
                   else case halve n tna tnb of (i, part) \<Rightarrow>
                     if part then bn_mul_part_recursive i (drop n a) (drop n b) (replicate (4 * i) 0)
                       @ replicate (n2 - 4 * i) 0
                     else bn_mul_recursive i (drop n a) (drop n b) @ replicate (n2 - 2 * i) 0)
             in karatsuba_add n (neg0 XOR neg1) (mul t0 t1) (mul (take n a) (take n b)) r23)"
  by pat_completeness auto
termination
  by (relation "measure (\<lambda>(n, a, b, r). n)") (auto dest!: halve_le [OF sym])

declare bn_mul_part_recursive.simps [simp del]

function bn_sqr_recursive :: "nat \<Rightarrow> limbs \<Rightarrow> limbs" where
  "bn_sqr_recursive n2 a =
    (if n2 = 4 then bn_sqr_comba4 a
     else if n2 = 8 then bn_sqr_comba8 a
     else if n2 < 16 then bn_sqr_normal a
     else let n = n2 div 2;
              t23 = bn_sqr_recursive n (bn_abs_sub_words (take n a) (drop n a));
              r01 = bn_sqr_recursive n (take n a);
              r23 = bn_sqr_recursive n (drop n a);
              (t01, c) = bn_add_words r01 r23;
              (t23, b) = bn_sub_words t01 t23
          in add_middle n (r01 @ r23) t23 (c - b))"
  by pat_completeness auto
termination by (relation "measure (\<lambda>(n2, a). n2)") auto

declare bn_sqr_recursive.simps [simp del]

section \<open>Differences\<close>

lemma sub_from_zero_eq: "sub_from_zero c bs = sub_words c (replicate (length bs) 0) bs"
  by (induction c bs rule: sub_from_zero.induct) (auto simp: word_gt_0 split: prod.splits)

lemma sub_words_0: "sub_words 0 as (replicate (length as) 0) = (as, 0)"
  by (induction as) auto

lemma sub_borrow_only_eq: "sub_borrow_only c as = sub_words c as (replicate (length as) 0)"
  by (induction c as rule: sub_borrow_only.induct) (auto simp: sub_words_0 split: prod.splits)

lemma sub_words_append:
  "length as = length bs \<Longrightarrow> sub_words c (as @ xs) (bs @ ys) =
    (case sub_words c as bs of (lo, c) \<Rightarrow> case sub_words c xs ys of (hi, c) \<Rightarrow> (lo @ hi, c))"
  by (induction as bs arbitrary: c rule: list_induct2) (auto split: prod.splits)

lemma bn_sub_part_words_pad:
  "bn_sub_part_words a b =
    bn_sub_words (a @ replicate (length b - length a) 0) (b @ replicate (length a - length b) 0)"
proof -
  consider "length a = length b" | "length a < length b" | "length b < length a" by linarith
  then show ?thesis
  proof cases
    case 2
    have "sub_words 0 (a @ replicate (length b - length a) 0) (take (length a) b @ drop (length a) b) =
      (case sub_words 0 a (take (length a) b) of (lo, c) \<Rightarrow>
       case sub_words c (replicate (length b - length a) 0) (drop (length a) b) of (hi, c) \<Rightarrow> (lo @ hi, c))"
      using 2 by (intro sub_words_append) simp
    with 2 show ?thesis
      by (auto simp: bn_sub_part_words_def bn_sub_words_def sub_from_zero_eq Let_def min_def split: prod.splits)
  next
    case 3
    have "sub_words 0 (take (length b) a @ drop (length b) a) (b @ replicate (length a - length b) 0) =
      (case sub_words 0 (take (length b) a) b of (lo, c) \<Rightarrow>
       case sub_words c (drop (length b) a) (replicate (length a - length b) 0) of (hi, c) \<Rightarrow> (lo @ hi, c))"
      using 3 by (intro sub_words_append) simp
    with 3 show ?thesis
      by (auto simp: bn_sub_part_words_def bn_sub_words_def sub_borrow_only_eq Let_def min_def split: prod.splits)
  qed (auto simp: bn_sub_part_words_def Let_def split: prod.splits)
qed

lemma bn_sub_part_words_val [bn_spec]:
  assumes "bn_sub_part_words a b = (r, c)"
  shows "length r = max (length a) (length b)" and "c = of_bool (bn_val a < bn_val b)"
    and "bn_val r + bn_val b = bn_val a + bn_base ^ max (length a) (length b) * unat c"
proof -
  let ?a = "a @ replicate (length b - length a) 0" and ?b = "b @ replicate (length a - length b) 0"
  have run: "bn_sub_words ?a ?b = (r, c)" using assms by (simp add: bn_sub_part_words_pad)
  have len: "length ?a = length ?b" and max: "length ?b = max (length a) (length b)" by auto
  have val: "bn_val ?a = bn_val a" "bn_val ?b = bn_val b" by (simp_all add: bn_val_append)
  from bn_sub_words_val [OF run len] bn_sub_words_borrow [OF run len]
  show "length r = max (length a) (length b)" "c = of_bool (bn_val a < bn_val b)"
    "bn_val r + bn_val b = bn_val a + bn_base ^ max (length a) (length b) * unat c"
    unfolding val max by simp_all
qed

lemma bn_abs_sub_part_words_val [bn_spec]:
  assumes "bn_abs_sub_part_words a b = (r, m)"
  shows "length r = max (length a) (length b)" and "m = mask_of (bn_val a < bn_val b)"
    and "bn_val r = (if bn_val a < bn_val b then bn_val b - bn_val a else bn_val a - bn_val b)"
proof -
  obtain t c where t: "bn_sub_part_words a b = (t, c)" by (cases "bn_sub_part_words a b")
  obtain s d where s: "bn_sub_part_words b a = (s, d)" by (cases "bn_sub_part_words b a")
  note vt = bn_sub_part_words_val [OF t] and vs = bn_sub_part_words_val [OF s]
  have m: "m = mask_of (bn_val a < bn_val b)"
    using assms vt(2) by (auto simp: bn_abs_sub_part_words_def t s mask_of_def Let_def)
  moreover have "r = bn_select_words m s t"
    using assms by (auto simp: bn_abs_sub_part_words_def t s Let_def)
  ultimately have r: "r = (if bn_val a < bn_val b then s else t)"
    using vt(1) vs(1) by (simp add: max.commute)
  show "m = mask_of (bn_val a < bn_val b)" by (rule m)
  show "length r = max (length a) (length b)" using r vt(1) vs(1) by (simp add: max.commute)
  show "bn_val r = (if bn_val a < bn_val b then bn_val b - bn_val a else bn_val a - bn_val b)"
    using r vt(2,3) vs(2,3) by auto
qed

lemma bn_abs_sub_words_val [bn_spec]:
  assumes "length a = length b"
  shows "length (bn_abs_sub_words a b) = length b" and
    "bn_val (bn_abs_sub_words a b) = (if bn_val a < bn_val b then bn_val b - bn_val a else bn_val a - bn_val b)"
proof -
  have "bn_sub_part_words a b = bn_sub_words a b" "bn_sub_part_words b a = bn_sub_words b a"
    using assms by (simp_all add: bn_sub_part_words_pad)
  then have "bn_abs_sub_words a b = fst (bn_abs_sub_part_words a b)"
    by (simp add: bn_abs_sub_words_def bn_abs_sub_part_words_def Let_def split: prod.splits)
  then have "bn_abs_sub_part_words a b = (bn_abs_sub_words a b, snd (bn_abs_sub_part_words a b))" by simp
  from bn_abs_sub_part_words_val(1,3) [OF this] assms
  show "length (bn_abs_sub_words a b) = length b"
    "bn_val (bn_abs_sub_words a b) = (if bn_val a < bn_val b then bn_val b - bn_val a else bn_val a - bn_val b)"
    by simp_all
qed

section \<open>The sum of the three products\<close>

lemma carry_to_end_val:
  "carry_to_end c rs = (rs', c') \<Longrightarrow>
    length rs' = length rs \<and> bn_val rs' + bn_base ^ length rs * unat c' = bn_val rs + unat c"
proof (induction c rs arbitrary: rs' c' rule: carry_to_end.induct)
  case (1 c old rs)
  obtain rs0 where rest: "carry_to_end (of_bool (old + c < old)) rs = (rs0, c')" "rs' = (old + c) # rs0"
    using 1(2) by (auto simp: Let_def split: prod.splits)
  have limb: "unat (old + c) + bn_base * of_bool (old + c < old) = unat old + unat c"
    using unat_carry [of c old] by (simp add: add.commute)
  from 1(1) [OF refl rest(1)] have IH: "length rs0 = length rs"
    "bn_val rs0 + bn_base ^ length rs * unat c' = bn_val rs + of_bool (old + c < old)" by auto
  have "bn_val rs' + bn_base ^ length (old # rs) * unat c' =
      unat (old + c) + bn_base * (bn_val rs0 + bn_base ^ length rs * unat c')"
    by (simp add: rest(2) algebra_simps)
  also have "\<dots> = (unat (old + c) + bn_base * of_bool (old + c < old)) + bn_base * bn_val rs"
    unfolding IH(2) by (simp add: algebra_simps)
  finally show ?case using limb IH rest(2) by simp
qed simp

lemma add_middle_val:
  assumes "length r = 4 * n" and "length t23 = 2 * n" and "unat c \<le> 2"
    and fits: "bn_val r + bn_base ^ n * (bn_val t23 + bn_base ^ (2 * n) * unat c) < bn_base ^ (4 * n)"
  shows "length (add_middle n r t23 c) = 4 * n" and
    "bn_val (add_middle n r t23 c) = bn_val r + bn_base ^ n * (bn_val t23 + bn_base ^ (2 * n) * unat c)"
proof -
  let ?B = "bn_base ^ n"
  define lo m h where "lo = take n r" and "m = take (2 * n) (drop n r)" and "h = drop (3 * n) r"
  obtain mid e where mid: "bn_add_words m t23 = (mid, e)" by (cases "bn_add_words m t23")
  obtain hi k where hi: "carry_to_end (c + e) h = (hi, k)" by (cases "carry_to_end (c + e) h")
  have len: "length lo = n" "length m = 2 * n" "length h = n" using assms(1) by (simp_all add: lo_def m_def h_def)
  have "r = lo @ m @ h"
    unfolding lo_def m_def h_def using append_take_drop_id [of "2 * n" "drop n r"] by simp
  then have r: "bn_val r = bn_val lo + ?B * (bn_val m + ?B * (?B * bn_val h))"
    using len by (simp add: bn_val_append power_add mult_2 mult.assoc)
  have "length m = length t23" using len assms(2) by simp
  note v = bn_add_words_val [OF mid this]
  have ce: "unat (c + e) = unat c + unat e"
    using assms(3) v(2) by (simp add: unat_word_ariths)
  note w = carry_to_end_val [OF hi]
  have res: "add_middle n r t23 c = lo @ mid @ hi"
    by (simp add: add_middle_def mid hi flip: lo_def m_def h_def)
  show l: "length (add_middle n r t23 c) = 4 * n" using res len v(1) w assms(2) by simp
  have bm: "bn_val m + bn_val t23 = bn_val mid + ?B * (?B * unat e)"
    using v(3) assms(2) by (simp add: power_add mult_2 mult.assoc)
  have bh: "bn_val h + unat c + unat e = bn_val hi + ?B * unat k"
    using w ce len by simp
  have "bn_val r + ?B * (bn_val t23 + bn_base ^ (2 * n) * unat c) =
      bn_val lo + ?B * ((bn_val m + bn_val t23) + ?B * (?B * (bn_val h + unat c)))"
    unfolding r mult_2 power_add by (simp add: algebra_simps)
  also have "\<dots> = bn_val lo + ?B * (bn_val mid + ?B * (?B * (bn_val h + unat c + unat e)))"
    unfolding bm by (simp add: algebra_simps)
  also have "\<dots> = bn_val (lo @ mid @ hi) + ?B * (?B * (?B * (?B * unat k)))"
    unfolding bh bn_val_append using len v(1) assms(2) by (simp add: mult_2 power_add distrib_left mult.assoc)
  also have "?B * (?B * (?B * (?B * unat k))) = bn_base ^ (4 * n) * unat k"
    by (simp add: numeral_eq_Suc power_add)
  finally have total: "bn_val r + ?B * (bn_val t23 + bn_base ^ (2 * n) * unat c) =
      bn_val (add_middle n r t23 c) + bn_base ^ (4 * n) * unat k" unfolding res .
  with fits have "bn_base ^ (4 * n) * unat k < bn_base ^ (4 * n) * 1" by linarith
  then have "unat k = 0" by simp
  with total show "bn_val (add_middle n r t23 c) = bn_val r + ?B * (bn_val t23 + bn_base ^ (2 * n) * unat c)" by simp
qed

lemma karatsuba_add_val:
  assumes len: "length r01 = 2 * n" "length r23 = 2 * n" "length t23 = 2 * n"
    and M: "if neg then M + bn_val t23 = bn_val r01 + bn_val r23 else M = bn_val r01 + bn_val r23 + bn_val t23"
    and fits: "bn_val r01 + bn_base ^ n * M + bn_base ^ (2 * n) * bn_val r23 < bn_base ^ (4 * n)"
  shows "length (karatsuba_add n (mask_of neg) t23 r01 r23) = 4 * n \<and>
    bn_val (karatsuba_add n (mask_of neg) t23 r01 r23) =
      bn_val r01 + bn_base ^ n * M + bn_base ^ (2 * n) * bn_val r23"
proof -
  let ?B = "bn_base ^ (2 * n)"
  obtain t01 c where t01: "bn_add_words r01 r23 = (t01, c)" by (cases "bn_add_words r01 r23")
  obtain t45 b where t45: "bn_sub_words t01 t23 = (t45, b)" by (cases "bn_sub_words t01 t23")
  obtain p d where p: "bn_add_words t01 t23 = (p, d)" by (cases "bn_add_words t01 t23")
  have v1: "length t01 = 2 * n" "unat c \<le> 1" "bn_val t01 + ?B * unat c = bn_val r01 + bn_val r23"
    using bn_add_words_val [OF t01] len by simp_all
  have v2: "length t45 = 2 * n" "b = 0 \<or> b = 1" "bn_val t45 + bn_val t23 = bn_val t01 + ?B * unat b"
    using bn_sub_words_val [OF t45] len v1(1) by simp_all
  have v3: "length p = 2 * n" "unat d \<le> 1" "bn_val p + ?B * unat d = bn_val t01 + bn_val t23"
    using bn_add_words_val [OF p] len v1(1) by simp_all
  define t k where "t = (if neg then t45 else p)" and "k = (if neg then c - b else c + d)"
  have "karatsuba_add n (mask_of neg) t23 r01 r23 = add_middle n (r01 @ r23) t k"
    using v2(1) v3(1) by (simp add: karatsuba_add_def t01 t45 p t_def k_def consttime)
  moreover have t: "length t = 2 * n" by (simp add: t_def v2(1) v3(1))
  moreover have k: "unat k \<le> 2 \<and> bn_val t + ?B * unat k = M"
  proof (cases neg)
    case True
    then have sum: "M + bn_val t23 = bn_val t01 + ?B * unat c" using M v1(3) by simp
    have "unat b \<le> unat c"
    proof (rule ccontr)
      assume "\<not> unat b \<le> unat c"
      with v2(2) have "unat b = 1" "unat c = 0" by auto
      with sum v2(3) have "bn_val t45 = M + ?B" by simp
      with bn_val_less [of t45] v2(1) show False by simp
    qed
    moreover then have kb: "unat (c - b) = unat c - unat b" by (simp add: unat_sub_if_size)
    ultimately have e: "?B * unat c = ?B * unat b + ?B * unat (c - b)"
      by (simp flip: distrib_left)
    with sum v2(3) have "M + ?B * unat b = bn_val t45 + ?B * unat b + ?B * unat (c - b)" by linarith
    with True kb v1(2) show ?thesis by (simp add: t_def k_def)
  next
    case False
    have "unat (c + d) = unat c + unat d" using v1(2) v3(2) by (simp add: unat_word_ariths)
    with False M v1 v3 show ?thesis by (simp add: t_def k_def distrib_left)
  qed
  moreover have r: "bn_val (r01 @ r23) = bn_val r01 + ?B * bn_val r23" using len by (simp add: bn_val_append)
  ultimately show ?thesis
    using add_middle_val [of "r01 @ r23" n t k] len fits by (simp add: add.assoc add.left_commute)
qed

section \<open>The recursions multiply\<close>

text \<open>The middle term of the product of \<open>a0 + B * a1\<close> and \<open>b0 + B * b1\<close>.\<close>

lemma middle_term:
  fixes a0 a1 b0 b1 :: nat
  defines "x \<equiv> (if a0 < a1 then a1 - a0 else a0 - a1)" and "y \<equiv> (if b1 < b0 then b0 - b1 else b1 - b0)"
  shows "if (a0 < a1) \<noteq> (b1 < b0) then (a0 * b1 + a1 * b0) + x * y = a0 * b0 + a1 * b1
    else a0 * b1 + a1 * b0 = a0 * b0 + a1 * b1 + x * y"
proof -
  have "int x = (if a0 < a1 then int a1 - int a0 else int a0 - int a1)"
    "int y = (if b1 < b0 then int b0 - int b1 else int b1 - int b0)" by (auto simp: x_def y_def)
  then have "if (a0 < a1) \<noteq> (b1 < b0)
    then (int a0 * int b1 + int a1 * int b0) + int x * int y = int a0 * int b0 + int a1 * int b1
    else int a0 * int b1 + int a1 * int b0 = int a0 * int b0 + int a1 * int b1 + int x * int y"
    by (auto simp: algebra_simps)
  then show ?thesis by (simp flip: of_nat_mult of_nat_add split: if_splits)
qed

lemma mask_xor: "mask_of x XOR mask_of y = mask_of (x \<noteq> y)"
  by (simp add: mask_of_def)

text \<open>The step of both recursions: three exact products give the whole product.\<close>

lemma karatsuba_step:
  assumes a: "n \<le> length a" "length a \<le> 2 * n" and b: "n \<le> length b" "length b \<le> 2 * n"
    and t0: "bn_abs_sub_part_words (take n a) (drop n a) = (t0, neg0)"
    and t1: "bn_abs_sub_part_words (drop n b) (take n b) = (t1, neg1)"
    and t23: "length t23 = 2 * n" "bn_val t23 = bn_val t0 * bn_val t1"
    and r01: "length r01 = 2 * n" "bn_val r01 = bn_val (take n a) * bn_val (take n b)"
    and r23: "length r23 = 2 * n" "bn_val r23 = bn_val (drop n a) * bn_val (drop n b)"
  shows "length (karatsuba_add n (neg0 XOR neg1) t23 r01 r23) = 4 * n \<and>
    bn_val (karatsuba_add n (neg0 XOR neg1) t23 r01 r23) = bn_val a * bn_val b"
proof -
  let ?B = "bn_base ^ n"
  let ?a0 = "bn_val (take n a)" and ?a1 = "bn_val (drop n a)"
  let ?b0 = "bn_val (take n b)" and ?b1 = "bn_val (drop n b)"
  let ?M = "?a0 * ?b1 + ?a1 * ?b0"
  note v0 = bn_abs_sub_part_words_val [OF t0] and v1 = bn_abs_sub_part_words_val [OF t1]
  have neg: "neg0 XOR neg1 = mask_of ((?a0 < ?a1) \<noteq> (?b1 < ?b0))"
    unfolding v0(2) v1(2) by (rule mask_xor)
  have M: "if (?a0 < ?a1) \<noteq> (?b1 < ?b0) then ?M + bn_val t23 = bn_val r01 + bn_val r23
    else ?M = bn_val r01 + bn_val r23 + bn_val t23"
    unfolding t23(2) r01(2) r23(2) v0(3) v1(3) by (rule middle_term)
  have "bn_val a * bn_val b = (?a0 + ?B * ?a1) * (?b0 + ?B * ?b1)"
    using bn_val_take_drop [OF a(1)] bn_val_take_drop [OF b(1)] by simp
  also have "\<dots> = bn_val r01 + ?B * ?M + bn_base ^ (2 * n) * bn_val r23"
    unfolding r01(2) r23(2) mult_2 power_add by (simp add: algebra_simps)
  finally have prod: "bn_val a * bn_val b = bn_val r01 + ?B * ?M + bn_base ^ (2 * n) * bn_val r23" .
  have "bn_val a < bn_base ^ (2 * n)" "bn_val b < bn_base ^ (2 * n)"
    using bn_val_less [of a] bn_val_less [of b] a(2) b(2)
    by (auto elim!: less_le_trans intro!: power_increasing)
  then have "bn_val a * bn_val b < bn_base ^ (2 * n) * bn_base ^ (2 * n)"
    by (intro mult_strict_mono) simp_all
  then have "bn_val r01 + ?B * ?M + bn_base ^ (2 * n) * bn_val r23 < bn_base ^ (4 * n)"
    unfolding prod by (simp flip: power_add)
  from karatsuba_add_val [OF r01(1) r23(1) t23(1) M this] show ?thesis unfolding neg prod by simp
qed

lemma t0_length:
  assumes "n \<le> length a" "length a \<le> 2 * n" and "bn_abs_sub_part_words (take n a) (drop n a) = (t, m)"
  shows "length t = n"
proof -
  have "length (take n a) = n" "length (drop n a) \<le> n" using assms(1,2) by simp_all
  with bn_abs_sub_part_words_val(1) [OF assms(3)] show ?thesis by (simp only: max_absorb1)
qed

lemma t1_length:
  assumes "n \<le> length b" "length b \<le> 2 * n" and "bn_abs_sub_part_words (drop n b) (take n b) = (t, m)"
  shows "length t = n"
proof -
  have "length (take n b) = n" "length (drop n b) \<le> n" using assms(1,2) by simp_all
  with bn_abs_sub_part_words_val(1) [OF assms(3)] show ?thesis by (simp only: max_absorb2)
qed

lemma mul_normal_pad:
  assumes "length a + length b + k = m"
  shows "length (bn_mul_normal a b @ replicate k 0) = m \<and> bn_val (bn_mul_normal a b @ replicate k 0) = bn_val a * bn_val b"
  using bn_mul_normal_val [of a b] assms by (simp add: bn_val_append)

lemma bn_mul_recursive_val [bn_spec]:
  "n2 = 2 ^ k \<Longrightarrow> length a \<le> n2 \<Longrightarrow> n2 \<le> length a + 8 \<Longrightarrow> length b \<le> n2 \<Longrightarrow> n2 \<le> length b + 8 \<Longrightarrow>
    length (bn_mul_recursive n2 a b) = 2 * n2 \<and> bn_val (bn_mul_recursive n2 a b) = bn_val a * bn_val b"
proof (induction n2 a b arbitrary: k rule: bn_mul_recursive.induct)
  case (1 n2 a b)
  let ?full = "length a = n2 \<and> length b = n2"
  show ?case
  proof (cases "n2 = 8 \<and> length a = n2 \<and> length b = n2")
    case True
    then have "bn_mul_recursive n2 a b = bn_mul_comba8 a b" by (subst bn_mul_recursive.simps) simp
    with True comba8_val [of a b] show ?thesis by simp
  next
    case not8: False
    show ?thesis
    proof (cases "n2 < 16")
      case True
      then have "bn_mul_recursive n2 a b = bn_mul_normal a b @ replicate (2 * n2 - (length a + length b)) 0"
        unfolding bn_mul_recursive.simps [of n2] if_not_P [OF not8] by simp
      with 1 mul_normal_pad [of a b "2 * n2 - (length a + length b)" "2 * n2"] show ?thesis by simp
    next
      case big: False
      define n where "n = n2 div 2"
      from big 1(2) obtain k' where k: "k = Suc k'" by (cases k) auto
      then have n: "n = 2 ^ k'" "n2 = 2 * n" "8 \<le> n" using 1(2) big by (simp_all add: n_def)
      obtain t0 neg0 where t0: "bn_abs_sub_part_words (take n a) (drop n a) = (t0, neg0)"
        by (cases "bn_abs_sub_part_words (take n a) (drop n a)")
      obtain t1 neg1 where t1: "bn_abs_sub_part_words (drop n b) (take n b) = (t1, neg1)"
        by (cases "bn_abs_sub_part_words (drop n b) (take n b)")
      define mul where "mul = (\<lambda>x y. if n = 4 \<and> ?full then bn_mul_comba4 x y
                else if n = 8 \<and> ?full then bn_mul_comba8 x y else bn_mul_recursive n x y)"
      have run: "bn_mul_recursive n2 a b = karatsuba_add n (neg0 XOR neg1) (mul t0 t1)
          (mul (take n a) (take n b)) (mul (drop n a) (drop n b))"
        unfolding bn_mul_recursive.simps [of n2] if_not_P [OF not8] if_not_P [OF big]
        by (simp add: t0 t1 mul_def Let_def flip: n_def)
      have la: "n \<le> length a" "length a \<le> 2 * n" and lb: "n \<le> length b" "length b \<le> 2 * n" using 1 n by simp_all
      have ih: "length (mul x y) = 2 * n \<and> bn_val (mul x y) = bn_val x * bn_val y"
        if "length x \<le> n" "n \<le> length x + 8" "length y \<le> n" "n \<le> length y + 8" "?full \<Longrightarrow> length x = n \<and> length y = n" for x y
      proof (cases "n = 8 \<and> ?full")
        case True
        with that(5) comba8_val [of x y] show ?thesis by (simp add: mul_def)
      next
        case False
        have n4: "\<not> (n = 4 \<and> ?full)" using n(3) by simp
        from 1(1) [OF not8 big n_def refl t0 [symmetric] refl t1 [symmetric] refl n4 False n(1) that(1-4)]
        show ?thesis unfolding mul_def if_not_P [OF n4] if_not_P [OF False] .
      qed
      have t: "length t0 = n" "length t1 = n"
        using t0_length [OF la t0] t1_length [OF lb t1] .
      have "length (mul t0 t1) = 2 * n \<and> bn_val (mul t0 t1) = bn_val t0 * bn_val t1"
        using t by (intro ih) simp_all
      moreover have "length (mul (take n a) (take n b)) = 2 * n \<and>
        bn_val (mul (take n a) (take n b)) = bn_val (take n a) * bn_val (take n b)"
        using la lb by (intro ih) simp_all
      moreover have "length (mul (drop n a) (drop n b)) = 2 * n \<and>
        bn_val (mul (drop n a) (drop n b)) = bn_val (drop n a) * bn_val (drop n b)"
        using 1(3-6) n(2) by (intro ih) simp_all
      moreover have "2 * n2 = 4 * n" using n(2) by simp
      ultimately show ?thesis
        unfolding run using karatsuba_step [OF la lb t0 t1] by simp
    qed
  qed
qed

lemma halve_val:
  "halve i tna tnb = (j, part) \<Longrightarrow> i = 2 ^ k \<Longrightarrow> tna < i \<Longrightarrow> tnb < i \<Longrightarrow> 0 < tna \<or> 0 < tnb \<Longrightarrow>
    (\<exists>k'. j = 2 ^ k') \<and> 2 * j \<le> i \<and> tna < 2 * j \<and> tnb < 2 * j \<and>
    (if part then j < tna \<or> j < tnb else tna \<le> j \<and> tnb \<le> j \<and> (j = tna \<or> j = tnb))"
proof (induction i tna tnb arbitrary: k rule: halve.induct)
  case (1 i tna tnb)
  from 1(4-6) have "1 < i" by auto
  with 1(3) obtain k' where k: "i = 2 * 2 ^ k'" by (cases k) auto
  then have half: "i div 2 = 2 ^ k'" by simp
  show ?case
  proof (cases "i div 2 < tna \<or> i div 2 < tnb \<or> i div 2 = tna \<or> i div 2 = tnb")
    case True
    with 1(2) have "j = i div 2" "part = (i div 2 < tna \<or> i div 2 < tnb)"
      by (subst (asm) halve.simps, auto simp: Let_def split: if_splits)+
    with True k half 1(4,5) show ?thesis by auto
  next
    case False
    then have n: "\<not> (i div 2 < tna \<or> i div 2 < tnb)" "\<not> (i div 2 = tna \<or> i div 2 = tnb)" by simp_all
    with 1(2) have "halve (i div 2) tna tnb = (j, part)"
      by (subst (asm) halve.simps) (simp add: Let_def)
    from 1(1) [OF refl n this half _ _ 1(6)] n k show ?thesis by auto
  qed
qed

lemma bn_mul_part_recursive_val [bn_spec]:
  "n = 2 ^ k \<Longrightarrow> 8 \<le> n \<Longrightarrow> n \<le> length a \<Longrightarrow> length a < 2 * n \<Longrightarrow> n \<le> length b \<Longrightarrow> length b < 2 * n \<Longrightarrow>
    length a \<le> length b + 1 \<Longrightarrow> length b \<le> length a + 1 \<Longrightarrow>
    length (bn_mul_part_recursive n a b r) = 4 * n \<and> bn_val (bn_mul_part_recursive n a b r) = bn_val a * bn_val b"
proof (induction n a b r arbitrary: k rule: bn_mul_part_recursive.induct)
  case (1 n a b r)
  define tna tnb where "tna = length a - n" and "tnb = length b - n"
  have small: "\<not> n < 8" using 1(3) by simp
  obtain t0 neg0 where t0: "bn_abs_sub_part_words (take n a) (drop n a) = (t0, neg0)"
    by (cases "bn_abs_sub_part_words (take n a) (drop n a)")
  obtain t1 neg1 where t1: "bn_abs_sub_part_words (drop n b) (take n b) = (t1, neg1)"
    by (cases "bn_abs_sub_part_words (drop n b) (take n b)")
  define mul where "mul = (\<lambda>x y. if n = 8 then bn_mul_comba8 x y else bn_mul_recursive n x y)"
  define r23 where "r23 = (if n = 8 \<or> tna < 16 \<and> tnb < 16
     then bn_mul_normal (drop n a) (drop n b) @ replicate (2 * n - tna - tnb) 0
     else case halve n tna tnb of (i, part) \<Rightarrow>
       if part then bn_mul_part_recursive i (drop n a) (drop n b) (replicate (4 * i) 0) @ replicate (2 * n - 4 * i) 0
       else bn_mul_recursive i (drop n a) (drop n b) @ replicate (2 * n - 2 * i) 0)"
  have run: "bn_mul_part_recursive n a b r =
      karatsuba_add n (neg0 XOR neg1) (mul t0 t1) (mul (take n a) (take n b)) r23"
    unfolding bn_mul_part_recursive.simps [of n] Let_def if_not_P [OF small]
    by (simp add: t0 t1 mul_def r23_def tna_def tnb_def)
  have la: "n \<le> length a" "length a \<le> 2 * n" and lb: "n \<le> length b" "length b \<le> 2 * n" using 1(4-7) by simp_all
  have mul: "length (mul x y) = 2 * n \<and> bn_val (mul x y) = bn_val x * bn_val y" if "length x = n" "length y = n" for x y
    using comba8_val [of x y] bn_mul_recursive_val [OF 1(2), of x y] that by (simp add: mul_def)
  have t: "length t0 = n" "length t1 = n"
    using t0_length [OF la t0] t1_length [OF lb t1] .
  have high: "length (drop n a) = tna" "length (drop n b) = tnb" "tna < n" "tnb < n" "tna \<le> tnb + 1" "tnb \<le> tna + 1"
    using 1(4-9) unfolding tna_def tnb_def by simp_all
  have "length r23 = 2 * n \<and> bn_val r23 = bn_val (drop n a) * bn_val (drop n b)"
  proof (cases "n = 8 \<or> tna < 16 \<and> tnb < 16")
    case True
    have "tna + tnb + (2 * n - tna - tnb) = 2 * n" using high by simp
    with True mul_normal_pad [of "drop n a" "drop n b" "2 * n - tna - tnb" "2 * n"] high
    show ?thesis unfolding r23_def if_P [OF True] by simp
  next
    case False
    obtain i part where h: "halve n tna tnb = (i, part)" by (cases "halve n tna tnb")
    have "0 < tna \<or> 0 < tnb" using False by auto
    from halve_val [OF h 1(2) high(3,4) this] obtain k' where i: "i = 2 ^ k'" "2 * i \<le> n" "tna < 2 * i" "tnb < 2 * i"
      "if part then i < tna \<or> i < tnb else tna \<le> i \<and> tnb \<le> i \<and> (i = tna \<or> i = tnb)"
      by (elim conjE exE) (rule that; assumption)
    have i8: "8 \<le> i" using False i(3,4) by auto
    show ?thesis
    proof (cases part)
      case True
      have "length (bn_mul_part_recursive i (drop n a) (drop n b) (replicate (4 * i) 0)) = 4 * i \<and>
        bn_val (bn_mul_part_recursive i (drop n a) (drop n b) (replicate (4 * i) 0)) = bn_val (drop n a) * bn_val (drop n b)"
        by (rule 1(1) [OF tna_def tnb_def refl small refl t0 [symmetric] refl t1 [symmetric] refl False h [symmetric] True i(1) i8])
          (use i True high in \<open>auto\<close>)
      with i(2) True show ?thesis unfolding r23_def if_not_P [OF False] h by (simp add: bn_val_append)
    next
      case part: False
      have "length (bn_mul_recursive i (drop n a) (drop n b)) = 2 * i \<and>
        bn_val (bn_mul_recursive i (drop n a) (drop n b)) = bn_val (drop n a) * bn_val (drop n b)"
        using i part high i8 by (intro bn_mul_recursive_val [of i k']) auto
      with i(2) part show ?thesis unfolding r23_def if_not_P [OF False] h by (simp add: bn_val_append)
    qed
  qed
  with mul [OF t] mul [of "take n a" "take n b"] la lb show ?case
    unfolding run using karatsuba_step [OF la lb t0 t1] by simp
qed

section \<open>The recursion squares\<close>

lemma square_difference:
  fixes a0 a1 :: nat
  defines "x \<equiv> (if a0 < a1 then a1 - a0 else a0 - a1)"
  shows "2 * a0 * a1 + x * x = a0 * a0 + a1 * a1"
proof -
  have "int x * int x = (int a0 - int a1) * (int a0 - int a1)"
    by (auto simp: x_def algebra_simps)
  then have "int (2 * a0 * a1 + x * x) = int (a0 * a0 + a1 * a1)" by (simp add: algebra_simps)
  then show ?thesis by (simp only: of_nat_eq_iff)
qed

lemma sqr_step:
  assumes len: "length r01 = 2 * n" "length r23 = 2 * n" "length t23 = 2 * n"
    and t01: "bn_add_words r01 r23 = (t01, c)" and t45: "bn_sub_words t01 t23 = (t45, b)"
  shows "add_middle n (r01 @ r23) t45 (c - b) = karatsuba_add n (mask_of True) t23 r01 r23"
proof -
  obtain p d where p: "bn_add_words t01 t23 = (p, d)" by (cases "bn_add_words t01 t23")
  have "length t01 = 2 * n" using bn_add_words_val(1) [OF t01] len by simp
  then have "length t45 = length p"
    using bn_sub_words_val(1) [OF t45] bn_add_words_val(1) [OF p] len by simp
  then show ?thesis by (simp add: karatsuba_add_def t01 t45 p consttime)
qed

lemma bn_sqr_recursive_val [bn_spec]:
  "n2 = 2 ^ k \<Longrightarrow> length a = n2 \<Longrightarrow>
    length (bn_sqr_recursive n2 a) = 2 * n2 \<and> bn_val (bn_sqr_recursive n2 a) = bn_val a * bn_val a"
proof (induction n2 a arbitrary: k rule: bn_sqr_recursive.induct)
  case (1 n2 a)
  consider (four) "n2 = 4" | (eight) "n2 = 8" | (normal) "n2 \<noteq> 4" "n2 \<noteq> 8" "n2 < 16" | (big) "\<not> n2 < 16" by linarith
  then show ?case
  proof cases
    case four
    then have "bn_sqr_recursive n2 a = bn_sqr_comba4 a" by (subst bn_sqr_recursive.simps) simp
    with four 1(5) sqr_comba4_val [of a] show ?thesis by simp
  next
    case eight
    then have "bn_sqr_recursive n2 a = bn_sqr_comba8 a" by (subst bn_sqr_recursive.simps) simp
    with eight 1(5) sqr_comba8_val [of a] show ?thesis by simp
  next
    case normal
    then have "bn_sqr_recursive n2 a = bn_sqr_normal a" by (subst bn_sqr_recursive.simps) simp
    with 1(5) bn_sqr_normal_val [of a] show ?thesis by simp
  next
    case big
    then have other: "n2 \<noteq> 4" "n2 \<noteq> 8" by auto
    define n where "n = n2 div 2"
    from big 1(4) obtain k' where "k = Suc k'" by (cases k) auto
    then have n: "n = 2 ^ k'" "n2 = 2 * n" "2 * n2 = 4 * n" using 1(4) by (simp_all add: n_def)
    let ?a0 = "take n a" and ?a1 = "drop n a"
    let ?s = "bn_abs_sub_words ?a0 ?a1"
    have len: "length ?a0 = n" "length ?a1 = n" using 1(5) n(2) by simp_all
    have s: "length ?s = n" using bn_abs_sub_words_val(1) [of ?a0 ?a1] len by simp
    define t23 r01 r23 where "t23 = bn_sqr_recursive n ?s"
      and "r01 = bn_sqr_recursive n ?a0" and "r23 = bn_sqr_recursive n ?a1"
    have t23: "length t23 = 2 * n" "bn_val t23 = bn_val ?s * bn_val ?s"
      using 1(1) [OF other big n_def n(1) s] by (simp_all add: t23_def)
    have r01: "length r01 = 2 * n" "bn_val r01 = bn_val ?a0 * bn_val ?a0"
      using 1(2) [OF other big n_def refl n(1) len(1)] by (simp_all add: r01_def)
    have r23: "length r23 = 2 * n" "bn_val r23 = bn_val ?a1 * bn_val ?a1"
      using 1(3) [OF other big n_def refl refl n(1) len(2)] by (simp_all add: r23_def)
    obtain t01 c where t01: "bn_add_words r01 r23 = (t01, c)" by (cases "bn_add_words r01 r23")
    obtain t45 b where t45: "bn_sub_words t01 t23 = (t45, b)" by (cases "bn_sub_words t01 t23")
    have "bn_sqr_recursive n2 a = add_middle n (r01 @ r23) t45 (c - b)"
      using other big t01 t45 unfolding t23_def r01_def r23_def
      by (subst bn_sqr_recursive.simps) (simp add: Let_def flip: n_def)
    then have run: "bn_sqr_recursive n2 a = karatsuba_add n (mask_of True) t23 r01 r23"
      using sqr_step [OF r01(1) r23(1) t23(1) t01 t45] by simp
    let ?M = "2 * bn_val ?a0 * bn_val ?a1"
    have M: "?M + bn_val t23 = bn_val r01 + bn_val r23"
      unfolding t23(2) r01(2) r23(2) bn_abs_sub_words_val(2) [of ?a0 ?a1, simplified len, OF refl]
      by (rule square_difference)
    have "bn_val a = bn_val ?a0 + bn_base ^ n * bn_val ?a1"
      using 1(5) n(2) by (intro bn_val_take_drop) simp
    then have prod: "bn_val a * bn_val a = bn_val r01 + bn_base ^ n * ?M + bn_base ^ (2 * n) * bn_val r23"
      unfolding r01(2) r23(2) mult_2 power_add by (simp add: algebra_simps)
    have "bn_val a < bn_base ^ (2 * n)" using bn_val_less [of a] 1(5) n(2) by simp
    then have "bn_val a * bn_val a < bn_base ^ (2 * n) * bn_base ^ (2 * n)"
      by (intro mult_strict_mono) simp_all
    then have "bn_val r01 + bn_base ^ n * ?M + bn_base ^ (2 * n) * bn_val r23 < bn_base ^ (4 * n)"
      unfolding prod by (simp flip: power_add)
    with karatsuba_add_val [OF r01(1) r23(1) t23(1), of True ?M] M show ?thesis
      unfolding run n(3) prod by simp
  qed
qed

end
