(* ===== verification/Bn_Product.thy ===== *)
theory Bn_Product
  imports Bignum Bn_Karatsuba
begin

text \<open>
  Products of big numbers, the second half of \<open>fipsmodule/bn/mul.c\<close>.  A destination that is
  also an operand is \<open>same\<close>; the code then works on a \<open>BN_CTX_get\<close> number and copies it.  The
  answers of \<open>BN_CTX_get\<close> are arguments.
\<close>

section \<open>The operations\<close>

text \<open>From the wanted sign and the operands to the label \<open>end\<close> of \<open>bn_mul_impl\<close>.\<close>

definition mul_into :: "(nat \<Rightarrow> bool) \<Rightarrow> bignum \<Rightarrow> bignum \<Rightarrow> bignum option \<Rightarrow> unit bn_oper" where
  "mul_into malloc a b t =
    (let al = bn_width a; bl = bn_width b; top = al + bl
     in if al = bl \<and> al = 8 then
          and_then (bn_wexpand malloc 16) (\<lambda>_ rr. (Some (), put_words (bn_mul_comba8 (bn_words a) (bn_words b)) rr))
        else if 16 \<le> al \<and> 16 \<le> bl \<and> al \<le> bl + 1 \<and> bl \<le> al + 1 then
          (\<lambda>rr. let j = 2 ^ (BN_num_bits_word (of_nat (if bl \<le> al then al else bl)) - 1)
             in case t of None \<Rightarrow> (None, rr)
              | Some t \<Rightarrow>
                  if j < al \<or> j < bl then
                    (if fst (bn_wexpand malloc (j * 8) t) = None then (None, rr)
                     else and_then (bn_wexpand malloc (j * 4)) (\<lambda>_ rr. (Some (),
                       (set_d (bn_mul_part_recursive j (bn_words a) (bn_words b) (take (4 * j) (bn_d rr))) rr)
                         \<lparr>bn_width := top\<rparr>)) rr)
                  else
                    (if fst (bn_wexpand malloc (j * 4) t) = None then (None, rr)
                     else and_then (bn_wexpand malloc (j * 2)) (\<lambda>_ rr. (Some (),
                       (set_d (bn_mul_recursive j (bn_words a) (bn_words b)) rr)\<lparr>bn_width := top\<rparr>)) rr))
        else and_then (bn_wexpand malloc top) (\<lambda>_ rr.
               (Some (), put_words (bn_mul_normal (bn_words a) (bn_words b)) rr)))"

definition bn_mul_impl ::
    "(nat \<Rightarrow> bool) \<Rightarrow> bignum \<Rightarrow> bignum \<Rightarrow> bool \<Rightarrow> bignum option \<Rightarrow> bignum option \<Rightarrow> unit bn_oper" where
  "bn_mul_impl malloc a b same rr t r =
    (if bn_width a = 0 \<or> bn_width b = 0 then (Some (), BN_zero r)
     else case (if same then rr else Some r) of
       None \<Rightarrow> (None, r)
     | Some rr \<Rightarrow>
         (case mul_into malloc a b t (rr\<lparr>bn_neg := (bn_neg a \<noteq> bn_neg b)\<rparr>) of
            (None, rr) \<Rightarrow> (None, if same then r else rr)
          | (Some _, rr) \<Rightarrow> if same then BN_copy malloc rr r else (Some (), rr)))"

definition BN_mul ::
    "(nat \<Rightarrow> bool) \<Rightarrow> bignum \<Rightarrow> bignum \<Rightarrow> bool \<Rightarrow> bignum option \<Rightarrow> bignum option \<Rightarrow> unit bn_oper" where
  "BN_mul malloc a b same rr t =
    and_then (bn_mul_impl malloc a b same rr t) (\<lambda>_ r. (Some (), bn_set_minimal_width r))"

definition bn_mul_consttime ::
    "(nat \<Rightarrow> bool) \<Rightarrow> bignum \<Rightarrow> bignum \<Rightarrow> bool \<Rightarrow> bignum option \<Rightarrow> bignum option \<Rightarrow> unit bn_oper" where
  "bn_mul_consttime malloc a b same rr t r =
    (if bn_neg a \<or> bn_neg b then (None, r) else bn_mul_impl malloc a b same rr t r)"

definition BN_mul_word :: "(nat \<Rightarrow> bool) \<Rightarrow> u64 \<Rightarrow> unit bn_oper" where
  "BN_mul_word malloc w bn =
    (if bn_width bn = 0 then (Some (), bn)
     else if w = 0 then (Some (), BN_zero bn)
     else case bn_mul_words (bn_words bn) w of (rs, ll) \<Rightarrow>
       (let bn = set_d rs bn
        in if ll = 0 then (Some (), bn)
           else and_then (bn_wexpand malloc (bn_width bn + 1)) (\<lambda>_ bn.
             (Some (), put_words (bn_words bn @ [ll]) bn)) bn))"

text \<open>The square, for \<open>al > 0\<close> limbs.\<close>

definition sqr_into :: "(nat \<Rightarrow> bool) \<Rightarrow> bignum \<Rightarrow> bignum \<Rightarrow> unit bn_oper" where
  "sqr_into malloc a tmp =
    (let al = bn_width a; max = 2 * al; ws = bn_words a
     in and_then (bn_wexpand malloc max) (\<lambda>_ rr.
          let write = (\<lambda>ws. (Some (), (put_words ws rr)\<lparr>bn_neg := False\<rparr>))
          in if al = 4 then write (bn_sqr_comba4 ws)
             else if al = 8 then write (bn_sqr_comba8 ws)
             else if al < 16 then write (bn_sqr_normal ws)
             else if al \<noteq> 0 \<and> al AND (al - 1) = 0 then
               (if fst (bn_wexpand malloc (al * 4) tmp) = None then (None, rr) else write (bn_sqr_recursive al ws))
             else (if fst (bn_wexpand malloc max tmp) = None then (None, rr) else write (bn_sqr_normal ws))))"

definition bn_sqr_consttime ::
    "(nat \<Rightarrow> bool) \<Rightarrow> bignum \<Rightarrow> bool \<Rightarrow> bignum option \<Rightarrow> bignum option \<Rightarrow> unit bn_oper" where
  "bn_sqr_consttime malloc a same rr tmp r =
    (if bn_width a = 0 then (Some (), r\<lparr>bn_width := 0, bn_neg := False\<rparr>)
     else case (if same then rr else Some r, tmp) of
       (Some rr, Some tmp) \<Rightarrow>
         (case sqr_into malloc a tmp rr of
            (None, rr) \<Rightarrow> (None, if same then r else rr)
          | (Some _, rr) \<Rightarrow> if same then BN_copy malloc rr r else (Some (), rr))
     | _ \<Rightarrow> (None, r))"

definition BN_sqr :: "(nat \<Rightarrow> bool) \<Rightarrow> bignum \<Rightarrow> bool \<Rightarrow> bignum option \<Rightarrow> bignum option \<Rightarrow> unit bn_oper" where
  "BN_sqr malloc a same rr tmp =
    and_then (bn_sqr_consttime malloc a same rr tmp) (\<lambda>_ r. (Some (), bn_set_minimal_width r))"

text \<open>The absolute value of a difference; the sign of the destination stays as it is.\<close>

definition bn_abs_sub_consttime :: "(nat \<Rightarrow> bool) \<Rightarrow> bignum \<Rightarrow> bignum \<Rightarrow> bignum option \<Rightarrow> unit bn_oper" where
  "bn_abs_sub_consttime malloc a b tmp r =
    (let r_len = (if bn_width a < bn_width b then bn_width b else bn_width a)
     in case tmp of
          None \<Rightarrow> (None, r)
        | Some tmp \<Rightarrow>
            and_then (bn_wexpand malloc r_len) (\<lambda>_ r.
              if fst (bn_wexpand malloc r_len tmp) = None then (None, r)
              else (Some (), put_words (fst (bn_abs_sub_part_words (bn_words a) (bn_words b))) r)) r)"

section \<open>They compute products\<close>

lemma set_d_width:
  assumes "bn_val ws < bn_base ^ n" and "n \<le> length ws"
  shows "bn_abs ((set_d ws r)\<lparr>bn_width := n\<rparr>) = bn_val ws" and "bn_ok ((set_d ws r)\<lparr>bn_width := n\<rparr>)"
    and "bn_neg ((set_d ws r)\<lparr>bn_width := n\<rparr>) = bn_neg r"
proof -
  have "bn_val (drop n ws) = 0" using bn_words_split [OF assms(2)] assms(1) by blast
  then have "bn_val (take n ws) = bn_val ws" using bn_val_take_drop [OF assms(2)] by simp
  with assms(2) show "bn_abs ((set_d ws r)\<lparr>bn_width := n\<rparr>) = bn_val ws"
    by (simp add: bn_abs_def set_d_def)
  show "bn_ok ((set_d ws r)\<lparr>bn_width := n\<rparr>)" "bn_neg ((set_d ws r)\<lparr>bn_width := n\<rparr>) = bn_neg r"
    using assms(2) by (simp_all add: bn_ok_def set_d_def)
qed

lemma put_words_val:
  "r = put_words ws r1 \<Longrightarrow> bn_abs r = bn_val ws \<and> bn_neg r = bn_neg r1 \<and> bn_width r = length ws \<and> bn_ok r"
  "r = (put_words ws r1)\<lparr>bn_neg := s\<rparr> \<Longrightarrow> bn_abs r = bn_val ws \<and> bn_neg r = s \<and> bn_width r = length ws \<and> bn_ok r"
  by (auto simp only: bn_abs_put_words put_words set_neg) simp_all

lemma product_bound: "bn_abs a * bn_abs b < bn_base ^ (bn_width a + bn_width b)"
proof -
  have "bn_abs a * bn_abs b < bn_base ^ bn_width a * bn_base ^ bn_width b"
    using bn_abs_less [of a] bn_abs_less [of b] by (intro mult_strict_mono) simp_all
  then show ?thesis by (simp add: power_add)
qed

lemma mul_into_val:
  assumes run: "mul_into malloc a b t rr = (Some u, r)"
    and ok: "bn_ok a" "bn_ok b" "bn_ok rr" and small: "bn_width a < 2 ^ 31" "bn_width b < 2 ^ 31"
  shows "bn_abs r = bn_abs a * bn_abs b \<and> bn_neg r = bn_neg rr \<and> bn_width r = bn_width a + bn_width b \<and> bn_ok r"
proof -
  let ?al = "bn_width a" and ?bl = "bn_width b"
  let ?m = "if ?bl \<le> ?al then ?al else ?bl"
  let ?j = "2 ^ (BN_num_bits_word (of_nat ?m) - 1) :: nat"
  let ?A = "bn_words a" and ?B = "bn_words b"
  let ?kara = "16 \<le> ?al \<and> 16 \<le> ?bl \<and> ?al \<le> ?bl + 1 \<and> ?bl \<le> ?al + 1"
  have len: "length ?A = ?al" "length ?B = ?bl" using ok by (simp_all add: bn_ok_def)
  consider (comba) "?al = ?bl \<and> ?al = 8" | (kara) "\<not> (?al = ?bl \<and> ?al = 8)" ?kara
    | (normal) "\<not> (?al = ?bl \<and> ?al = 8)" "\<not> ?kara" by blast
  then show ?thesis
  proof cases
    case comba
    with run obtain r1 where "r = put_words (bn_mul_comba8 ?A ?B) r1" "bn_wexpand malloc 16 rr = (Some (), r1)"
      by (auto simp: mul_into_def Let_def dest!: and_then_eq_SomeD)
    with comba8_val [of ?A ?B] comba len bn_wexpand_Some(5) [OF this(2) ok(3)] put_words_val(1) [OF this(1)]
    show ?thesis by (simp add: bn_abs_def [of a] bn_abs_def [of b])
  next
    case normal
    with run obtain r1 where r1: "r = put_words (bn_mul_normal ?A ?B) r1"
      "bn_wexpand malloc (?al + ?bl) rr = (Some (), r1)"
      unfolding mul_into_def Let_def if_not_P [OF normal(1)] if_not_P [OF normal(2)] by (auto dest!: and_then_eq_SomeD)
    with bn_mul_normal_val [of ?A ?B] len bn_wexpand_Some(5) [OF r1(2) ok(3)] put_words_val(1) [OF r1(1)]
    show ?thesis by (simp add: bn_abs_def [of a] bn_abs_def [of b])
  next
    case kara
    have m: "?m < 2 ^ 64" "?m \<noteq> 0" using small kara(2) by auto
    then have um: "unat (of_nat ?m :: u64) = ?m" by (intro unat_of_nat_small) simp
    then have "of_nat ?m \<noteq> (0 :: u64)" using m(2) by (metis unat_0)
    with BN_num_bits_word_val [of "of_nat ?m"] have bits: "?j \<le> ?m" "?m < 2 * ?j"
      unfolding um by (auto simp flip: power_Suc)
    define j where "j = ?j"
    have j: "j \<le> ?al \<or> j \<le> ?bl" "?al < 2 * j" "?bl < 2 * j" "8 \<le> j"
      using bits kara(2) unfolding j_def by (auto split: if_splits)
    have "\<exists>ws. bn_val ws = bn_abs a * bn_abs b \<and> ?al + ?bl \<le> length ws \<and>
      (\<exists>r1. r = (set_d ws r1)\<lparr>bn_width := ?al + ?bl\<rparr> \<and> bn_neg r1 = bn_neg rr)"
    proof (cases "j < ?al \<or> j < ?bl")
      case True
      with run kara obtain r1 where r: "bn_wexpand malloc (j * 4) rr = (Some (), r1)"
        "r = (set_d (bn_mul_part_recursive j ?A ?B (take (4 * j) (bn_d r1))) r1)\<lparr>bn_width := ?al + ?bl\<rparr>"
        unfolding mul_into_def Let_def if_not_P [OF kara(1)] if_P [OF kara(2)] j_def [symmetric]
        by (auto simp: and_then_def split: option.splits prod.splits if_splits)
      let ?ws = "bn_mul_part_recursive j ?A ?B (take (4 * j) (bn_d r1))"
      have "j \<le> ?al" "j \<le> ?bl" using True j kara(2) by linarith+
      then have "length ?ws = 4 * j \<and> bn_val ?ws = bn_val ?A * bn_val ?B"
        using bn_mul_part_recursive_val [OF j_def j(4), of ?A ?B] j(2,3) kara(2) unfolding len by blast
      with r bn_wexpand_Some(5) [OF r(1) ok(3)] j show ?thesis
        unfolding bn_abs_def by (intro exI [of _ ?ws] conjI exI [of _ r1]) simp_all
    next
      case False
      with run kara obtain r1 where r: "bn_wexpand malloc (j * 2) rr = (Some (), r1)"
        "r = (set_d (bn_mul_recursive j ?A ?B) r1)\<lparr>bn_width := ?al + ?bl\<rparr>"
        unfolding mul_into_def Let_def if_not_P [OF kara(1)] if_P [OF kara(2)] j_def [symmetric] if_not_P [OF False]
        by (auto simp: and_then_def split: option.splits prod.splits if_splits)
      let ?ws = "bn_mul_recursive j ?A ?B"
      have "?al \<le> j" "?bl \<le> j" "j \<le> ?al + 8" "j \<le> ?bl + 8" using False j kara(2) by linarith+
      then have "length ?ws = 2 * j \<and> bn_val ?ws = bn_val ?A * bn_val ?B"
        using bn_mul_recursive_val [OF j_def, of ?A ?B] unfolding len by blast
      moreover have "?al + ?bl \<le> 2 * j" using False by linarith
      ultimately show ?thesis
        using r bn_wexpand_Some(5) [OF r(1) ok(3)]
        unfolding bn_abs_def by (intro exI [of _ ?ws] conjI exI [of _ r1]) simp_all
    qed
    then obtain ws r1 where ws: "bn_val ws = bn_abs a * bn_abs b" "?al + ?bl \<le> length ws"
      "r = (set_d ws r1)\<lparr>bn_width := ?al + ?bl\<rparr>" "bn_neg r1 = bn_neg rr" by blast
    have "bn_val ws < bn_base ^ (?al + ?bl)" unfolding ws(1) by (rule product_bound)
    from set_d_width [OF this ws(2), of r1] ws show ?thesis by simp
  qed
qed

text \<open>Whether the destination is an operand makes no difference.\<close>

lemma copied_val:
  assumes "(if same then BN_copy malloc rr r else (Some (), rr)) = (Some u, r')"
    and "bn_ok rr"
  shows "bn_abs r' = bn_abs rr" and "bn_neg r' = bn_neg rr" and "bn_width r' = bn_width rr" and "bn_ok r'"
proof -
  have "bn_abs r' = bn_abs rr \<and> bn_neg r' = bn_neg rr \<and> bn_width r' = bn_width rr \<and> bn_ok r'"
  proof (cases same)
    case True
    with assms(1) obtain r1 where "r' = (put_words (bn_words rr) r1)\<lparr>bn_neg := bn_neg rr\<rparr>"
      unfolding BN_copy_def by (auto dest!: and_then_eq_SomeD)
    from put_words_val(2) [OF this] assms(2) show ?thesis by (simp add: bn_ok_def bn_abs_def [of rr])
  qed (use assms in simp)
  then show "bn_abs r' = bn_abs rr" "bn_neg r' = bn_neg rr" "bn_width r' = bn_width rr" "bn_ok r'" by simp_all
qed

definition bn_small :: "bignum \<Rightarrow> bool" where
  "bn_small bn \<longleftrightarrow> bn_ok bn \<and> bn_width bn < 2 ^ 31"

lemma bn_mul_impl_val [bn_spec]:
  assumes run: "bn_mul_impl malloc a b same rr t r = (Some u, r')"
    and ok: "bn_small a" "bn_small b" "bn_ok r" "\<And>x. rr = Some x \<Longrightarrow> bn_ok x"
  shows "bn_abs r' = bn_abs a * bn_abs b" and "bn_width r' \<le> bn_width a + bn_width b" and "bn_ok r'"
    and "bn_neg r' \<longleftrightarrow> bn_width a \<noteq> 0 \<and> bn_width b \<noteq> 0 \<and> bn_neg a \<noteq> bn_neg b"
proof -
  have "bn_abs r' = bn_abs a * bn_abs b \<and> bn_width r' \<le> bn_width a + bn_width b \<and> bn_ok r' \<and>
    (bn_neg r' \<longleftrightarrow> bn_width a \<noteq> 0 \<and> bn_width b \<noteq> 0 \<and> bn_neg a \<noteq> bn_neg b)"
  proof (cases "bn_width a = 0 \<or> bn_width b = 0")
    case True
    then have "bn_abs a * bn_abs b = 0" by (auto simp: bn_abs_def)
    moreover have "r' = BN_zero r" using run True by (simp add: bn_mul_impl_def)
    moreover have "bn_abs (BN_zero r) = 0" by (simp add: bn_abs_def BN_zero_def)
    ultimately show ?thesis using True by (auto simp: BN_zero_def bn_ok_def)
  next
    case False
    with run obtain rr0 rr1 where rr: "(if same then rr else Some r) = Some rr0"
      "mul_into malloc a b t (rr0\<lparr>bn_neg := (bn_neg a \<noteq> bn_neg b)\<rparr>) = (Some (), rr1)"
      "(if same then BN_copy malloc rr1 r else (Some (), rr1)) = (Some u, r')"
      unfolding bn_mul_impl_def by (auto split: option.splits prod.splits)
    have "bn_ok rr0" using rr(1) ok(3,4) by (auto split: if_splits)
    with mul_into_val [OF rr(2)] ok(1,2) have "bn_abs rr1 = bn_abs a * bn_abs b \<and>
      bn_neg rr1 = (bn_neg a \<noteq> bn_neg b) \<and> bn_width rr1 = bn_width a + bn_width b \<and> bn_ok rr1"
      by (simp add: bn_small_def)
    with copied_val [OF rr(3)] False show ?thesis by simp
  qed
  then show "bn_abs r' = bn_abs a * bn_abs b" "bn_width r' \<le> bn_width a + bn_width b" "bn_ok r'"
    "bn_neg r' \<longleftrightarrow> bn_width a \<noteq> 0 \<and> bn_width b \<noteq> 0 \<and> bn_neg a \<noteq> bn_neg b" by simp_all
qed

lemma BN_mul_val [bn_spec]:
  assumes run: "BN_mul malloc a b same rr t r = (Some u, r')"
    and ok: "bn_small a" "bn_small b" "bn_ok r" "\<And>x. rr = Some x \<Longrightarrow> bn_ok x"
  shows "bn_int r' = bn_int a * bn_int b" and "bn_normal r'"
proof -
  from run obtain r1 where r1: "bn_mul_impl malloc a b same rr t r = (Some (), r1)" "r' = bn_set_minimal_width r1"
    unfolding BN_mul_def by (auto dest!: and_then_eq_SomeD)
  note v = bn_mul_impl_val [OF r1(1) ok]
  have "bn_width a = 0 \<Longrightarrow> bn_abs a = 0" "bn_width b = 0 \<Longrightarrow> bn_abs b = 0" by (simp_all add: bn_abs_def)
  with v have "bn_int r1 = bn_int a * bn_int b" by (auto simp: bn_int_def)
  with set_minimal_width [OF v(3)] show "bn_int r' = bn_int a * bn_int b" "bn_normal r'" by (simp_all add: r1(2))
qed

lemma bn_mul_consttime_val [bn_spec]:
  assumes run: "bn_mul_consttime malloc a b same rr t r = (Some u, r')"
    and ok: "bn_small a" "bn_small b" "bn_ok r" "\<And>x. rr = Some x \<Longrightarrow> bn_ok x"
  shows "bn_abs r' = bn_abs a * bn_abs b" and "bn_width r' \<le> bn_width a + bn_width b" and "bn_ok r'" and "\<not> bn_neg r'"
proof -
  from run have neg: "\<not> bn_neg a" "\<not> bn_neg b" and r': "bn_mul_impl malloc a b same rr t r = (Some u, r')"
    by (auto simp: bn_mul_consttime_def split: if_splits)
  from bn_mul_impl_val [OF r' ok] neg
  show "bn_abs r' = bn_abs a * bn_abs b" "bn_width r' \<le> bn_width a + bn_width b" "bn_ok r'" "\<not> bn_neg r'" by simp_all
qed

lemma BN_mul_word_val [bn_spec]:
  assumes "BN_mul_word malloc w a = (Some u, r)" and ok: "bn_ok a"
  shows "bn_int r = bn_int a * int (unat w)" and "bn_ok r"
proof -
  have "bn_int r = bn_int a * int (unat w) \<and> bn_ok r"
  proof (cases "bn_width a = 0 \<or> w = 0")
    case True
    with assms show ?thesis
      by (auto simp: BN_mul_word_def BN_zero_def bn_int_def bn_abs_def bn_ok_def split: if_splits)
  next
    case False
    obtain rs ll where mul: "bn_mul_words (bn_words a) w = (rs, ll)" by (cases "bn_mul_words (bn_words a) w")
    have len: "length rs = bn_width a" and val: "bn_val rs + bn_base ^ bn_width a * unat ll = unat w * bn_abs a"
      using bn_mul_words_val [OF mul] ok by (simp_all add: bn_ok_def bn_abs_def)
    let ?a = "set_d rs a"
    have a: "bn_words ?a = rs" "bn_width ?a = bn_width a" "bn_neg ?a = bn_neg a" "bn_ok ?a"
      using len ok by (auto simp: set_d_def bn_ok_def)
    have "bn_abs r = unat w * bn_abs a \<and> bn_neg r = bn_neg a \<and> bn_ok r"
    proof (cases "ll = 0")
      case True
      with assms(1) False mul have "r = ?a" by (simp add: BN_mul_word_def Let_def)
      with a val True show ?thesis by (simp add: bn_abs_def)
    next
      case ll: False
      from assms(1) False mul ll obtain r1 where r1: "bn_wexpand malloc (bn_width a + 1) ?a = (Some (), r1)"
        "r = put_words (bn_words r1 @ [ll]) r1"
        by (auto simp: BN_mul_word_def Let_def a dest!: and_then_eq_SomeD)
      from bn_wexpand_Some [OF r1(1) a(4)] a have "bn_words r1 = rs" "bn_neg r1 = bn_neg a" by simp_all
      with put_words_val(1) [OF r1(2)] val len show ?thesis
        by (simp add: bn_val_append)
    qed
    then show ?thesis by (auto simp: bn_int_def)
  qed
  then show "bn_int r = bn_int a * int (unat w)" "bn_ok r" by simp_all
qed

section \<open>Squares\<close>

lemma pow2_and_iff:
  assumes "n \<noteq> 0" and "n AND (n - 1) = (0 :: nat)" and "2 ^ k \<le> n" and "n < 2 ^ Suc k"
  shows "n = 2 ^ k"
proof (rule ccontr)
  assume "n \<noteq> 2 ^ k"
  with assms(3) have "2 ^ k \<le> n - 1" by simp
  have top: "bit m k" if "2 ^ k \<le> m" "m < 2 ^ Suc k" for m :: nat
  proof -
    have "m div 2 ^ k = 1" using that by (intro div_nat_eqI) simp_all
    then show ?thesis by (simp add: bit_iff_odd)
  qed
  have "bit (n AND (n - 1)) k"
    using top [of n] top [of "n - 1"] assms(3,4) \<open>2 ^ k \<le> n - 1\<close> by (simp add: bit_and_iff)
  with assms(2) show False by simp
qed

lemma sqr_into_val:
  assumes run: "sqr_into malloc a tmp rr = (Some u, r)" and ok: "bn_small a"
  shows "bn_abs r = bn_abs a * bn_abs a \<and> \<not> bn_neg r \<and> bn_width r = 2 * bn_width a \<and> bn_ok r"
proof -
  let ?al = "bn_width a" and ?ws = "bn_words a"
  have len: "length ?ws = ?al" using ok by (simp add: bn_small_def bn_ok_def)
  have pow: "\<exists>k. ?al = 2 ^ k" if "?al \<noteq> 0 \<and> ?al AND (?al - 1) = 0"
  proof -
    have um: "unat (of_nat ?al :: u64) = ?al" using ok by (intro unat_of_nat_small) (simp add: bn_small_def)
    then have "of_nat ?al \<noteq> (0 :: u64)" using that by (metis unat_0)
    with BN_num_bits_word_val [of "of_nat ?al"] um have
      "2 ^ (BN_num_bits_word (of_nat ?al) - 1) \<le> ?al" "?al < 2 ^ Suc (BN_num_bits_word (of_nat ?al) - 1)" by auto
    with that pow2_and_iff show ?thesis by blast
  qed
  have "\<exists>q r1. r = (put_words q r1)\<lparr>bn_neg := False\<rparr> \<and> length q = 2 * ?al \<and> bn_val q = bn_abs a * bn_abs a"
  proof -
    from run obtain r1 q where "r = (put_words q r1)\<lparr>bn_neg := False\<rparr>"
      "q = bn_sqr_comba4 ?ws \<and> ?al = 4 \<or> q = bn_sqr_comba8 ?ws \<and> ?al = 8 \<or> q = bn_sqr_normal ?ws \<or>
       q = bn_sqr_recursive ?al ?ws \<and> (?al \<noteq> 0 \<and> ?al AND (?al - 1) = 0)"
      unfolding sqr_into_def Let_def by (auto dest!: and_then_eq_SomeD split: if_splits)
    moreover from this(2) have "length q = 2 * ?al \<and> bn_val q = bn_abs a * bn_abs a"
      using sqr_comba4_val [of ?ws] sqr_comba8_val [of ?ws] bn_sqr_normal_val [of ?ws]
        bn_sqr_recursive_val [of ?al _ ?ws] pow len unfolding bn_abs_def by (elim disjE) auto
    ultimately show ?thesis by blast
  qed
  then show ?thesis by auto
qed

lemma bn_sqr_consttime_val [bn_spec]:
  assumes run: "bn_sqr_consttime malloc a same rr tmp r = (Some u, r')" and ok: "bn_small a" "bn_ok r"
  shows "bn_abs r' = bn_abs a * bn_abs a" and "bn_width r' = 2 * bn_width a" and "bn_ok r'" and "\<not> bn_neg r'"
proof -
  have "bn_abs r' = bn_abs a * bn_abs a \<and> \<not> bn_neg r' \<and> bn_width r' = 2 * bn_width a \<and> bn_ok r'"
  proof (cases "bn_width a = 0")
    case True
    with run ok show ?thesis by (auto simp: bn_sqr_consttime_def bn_abs_def bn_ok_def)
  next
    case False
    with run obtain rr0 rr1 tmp0 where "sqr_into malloc a tmp0 rr0 = (Some (), rr1)"
      "(if same then BN_copy malloc rr1 r else (Some (), rr1)) = (Some u, r')"
      unfolding bn_sqr_consttime_def by (auto split: option.splits prod.splits)
    with sqr_into_val [OF this(1) ok(1)] copied_val [OF this(2)] show ?thesis by simp
  qed
  then show "bn_abs r' = bn_abs a * bn_abs a" "bn_width r' = 2 * bn_width a" "bn_ok r'" "\<not> bn_neg r'" by simp_all
qed

lemma BN_sqr_val [bn_spec]:
  assumes run: "BN_sqr malloc a same rr tmp r = (Some u, r')" and ok: "bn_small a" "bn_ok r"
  shows "bn_int r' = bn_int a * bn_int a" and "bn_normal r'"
proof -
  from run obtain r1 where r1: "bn_sqr_consttime malloc a same rr tmp r = (Some (), r1)" "r' = bn_set_minimal_width r1"
    unfolding BN_sqr_def by (auto dest!: and_then_eq_SomeD)
  from bn_sqr_consttime_val [OF r1(1) ok] set_minimal_width [of r1]
  show "bn_int r' = bn_int a * bn_int a" "bn_normal r'" by (simp_all add: r1(2) bn_int_def)
qed

lemma bn_abs_sub_consttime_val [bn_spec]:
  assumes run: "bn_abs_sub_consttime malloc a b tmp r = (Some u, r')" and ok: "bn_ok a" "bn_ok b" "bn_ok r"
  shows "int (bn_abs r') = \<bar>int (bn_abs a) - int (bn_abs b)\<bar>" and "bn_neg r' = bn_neg r" and "bn_ok r'"
proof -
  obtain d c where d: "bn_abs_sub_part_words (bn_words a) (bn_words b) = (d, c)" by (rule prod.exhaust)
  from run obtain r1 where r1: "bn_wexpand malloc (if bn_width a < bn_width b then bn_width b else bn_width a) r = (Some (), r1)"
    "r' = put_words d r1"
    by (auto simp: bn_abs_sub_consttime_def Let_def d split: option.splits if_splits dest!: and_then_eq_SomeD)
  note v = bn_abs_sub_part_words_val [OF d] and w = bn_wexpand_Some [OF r1(1) ok(3)]
  show "int (bn_abs r') = \<bar>int (bn_abs a) - int (bn_abs b)\<bar>" "bn_neg r' = bn_neg r" "bn_ok r'"
    unfolding r1(2) bn_abs_put_words v(3) using w(5) by (simp_all add: bn_abs_def of_nat_diff)
qed

end
