(* ===== verification/Bn_Shift.thy ===== *)
theory Bn_Shift
  imports Bignum
begin

text \<open>
  Shifts and single bits of big numbers, \<open>fipsmodule/bn/shift.c\<close>.  The loops of the shifts
  run over limbs; \<open>unsigned\<close> and \<open>int\<close> arguments are numbers.
\<close>

section \<open>The operations\<close>

text \<open>
  The loop of \<open>BN_lshift\<close> goes from the top: \<open>ts\<close> is the part of \<open>t\<close> above the current
  limb, whose lowest limb gets the bits that are shifted out of \<open>l\<close>.
\<close>

fun lshift_loop :: "nat \<Rightarrow> limbs \<Rightarrow> limbs \<Rightarrow> limbs" where
  "lshift_loop lb (l # fs) (t # ts) =
    lshift_loop lb fs (push_bit lb l # (t OR drop_bit (64 - lb) l) # ts)"
| "lshift_loop lb _ ts = ts"

definition BN_lshift :: "(nat \<Rightarrow> bool) \<Rightarrow> bignum \<Rightarrow> int \<Rightarrow> unit bn_oper" where
  "BN_lshift malloc a n r =
    (if n < 0 then (None, r)
     else let nw = nat n div 64; lb = nat n mod 64; f = bn_words a
     in and_then (bn_wexpand malloc (bn_width a + nw + 1)) (\<lambda>_ r.
          let t = (if lb = 0 then f @ [0] else lshift_loop lb (rev f) [0])
          in (Some (), bn_set_minimal_width (put_words (replicate nw 0 @ t) r)))
        (r\<lparr>bn_neg := bn_neg a\<rparr>))"

fun lshift1_loop :: "u64 \<Rightarrow> limbs \<Rightarrow> limbs \<times> u64" where
  "lshift1_loop c (t # ap) =
    (case lshift1_loop (drop_bit 63 t) ap of (rp, c') \<Rightarrow> ((push_bit 1 t OR c) # rp, c'))"
| "lshift1_loop c [] = ([], c)"

definition BN_lshift1 :: "(nat \<Rightarrow> bool) \<Rightarrow> bignum \<Rightarrow> unit bn_oper" where
  "BN_lshift1 malloc a r =
    and_then (bn_wexpand malloc (bn_width a + 1)) (\<lambda>_ r.
      case lshift1_loop 0 (bn_words a) of (rp, c) \<Rightarrow>
        (Some (), put_words (if c \<noteq> 0 then rp @ [1] else rp) r)) (r\<lparr>bn_neg := bn_neg a\<rparr>)"

fun rshift_loop :: "nat \<Rightarrow> limbs \<Rightarrow> limbs" where
  "rshift_loop sb (x # y # ys) = (drop_bit sb x OR push_bit (64 - sb) y) # rshift_loop sb (y # ys)"
| "rshift_loop sb [x] = [drop_bit sb x]"
| "rshift_loop sb [] = []"

definition bn_rshift_words :: "limbs \<Rightarrow> nat \<Rightarrow> limbs" where
  "bn_rshift_words a shift =
    (let sb = shift mod 64; sw = shift div 64
     in if length a \<le> sw then replicate (length a) 0
        else (if sb = 0 then drop sw a else rshift_loop sb (drop sw a)) @ replicate sw 0)"

definition BN_rshift :: "(nat \<Rightarrow> bool) \<Rightarrow> bignum \<Rightarrow> int \<Rightarrow> unit bn_oper" where
  "BN_rshift malloc a n r =
    (if n < 0 then (None, r)
     else and_then (bn_wexpand malloc (bn_width a)) (\<lambda>_ r.
       (Some (), bn_set_minimal_width
         ((put_words (bn_rshift_words (bn_words a) (nat n)) r)\<lparr>bn_neg := bn_neg a\<rparr>))) r)"

text \<open>The loop ends when \<open>max_bits >> i\<close> is zero; \<open>tmp\<close> is the answer of \<open>BN_CTX_get\<close>.\<close>

function secret_loop :: "nat \<Rightarrow> nat \<Rightarrow> nat \<Rightarrow> limbs \<Rightarrow> limbs" where
  "secret_loop max_bits n i r =
    (if max_bits div 2 ^ i = 0 then r
     else secret_loop max_bits n (Suc i)
       (bn_select_words (0 - of_bool (bit n i)) (bn_rshift_words r (2 ^ i)) r))"
  by pat_completeness auto
termination
proof (relation "measure (\<lambda>(b, n, i, r). Suc b - i)", goal_cases)
  case (2 b n i r)
  then have "2 ^ i \<le> b" by (simp add: div_eq_0_iff not_less)
  with less_exp [of i] have "i < Suc b" by linarith
  then show ?case by simp
qed simp

declare secret_loop.simps [simp del]

definition bn_rshift_secret_shift :: "(nat \<Rightarrow> bool) \<Rightarrow> bignum \<Rightarrow> nat \<Rightarrow> bignum option \<Rightarrow> unit bn_oper" where
  "bn_rshift_secret_shift malloc a n tmp r =
    (case tmp of None \<Rightarrow> (None, r)
     | Some tmp \<Rightarrow> and_then (BN_copy malloc a) (\<lambda>_ r.
         case bn_wexpand malloc (bn_width r) tmp of
           (None, _) \<Rightarrow> (None, r)
         | (Some _, _) \<Rightarrow> (Some (), set_d (secret_loop (64 * bn_width r) n 0 (bn_words r)) r)) r)"

fun bn_rshift1_words :: "limbs \<Rightarrow> limbs" where
  "bn_rshift1_words (x # y # ys) = (drop_bit 1 x OR push_bit 63 y) # bn_rshift1_words (y # ys)"
| "bn_rshift1_words [x] = [drop_bit 1 x]"
| "bn_rshift1_words [] = []"

definition BN_rshift1 :: "(nat \<Rightarrow> bool) \<Rightarrow> bignum \<Rightarrow> unit bn_oper" where
  "BN_rshift1 malloc a =
    and_then (bn_wexpand malloc (bn_width a)) (\<lambda>_ r.
      (Some (), bn_set_minimal_width ((put_words (bn_rshift1_words (bn_words a)) r)\<lparr>bn_neg := bn_neg a\<rparr>)))"

definition BN_set_bit :: "(nat \<Rightarrow> bool) \<Rightarrow> int \<Rightarrow> unit bn_oper" where
  "BN_set_bit malloc n a =
    (if n < 0 then (None, a)
     else let i = nat n div 64; j = nat n mod 64
     in and_then (\<lambda>a. if bn_width a \<le> i
          then and_then (bn_wexpand malloc (i + 1)) (\<lambda>_ a.
                 (Some (), put_words (bn_words a @ replicate (i + 1 - bn_width a) 0) a)) a
          else (Some (), a))
        (\<lambda>_ a. (Some (), a\<lparr>bn_d := (bn_d a)[i := bn_d a ! i OR push_bit j 1]\<rparr>)) a)"

definition BN_clear_bit :: "int \<Rightarrow> unit bn_oper" where
  "BN_clear_bit n a =
    (if n < 0 then (None, a)
     else let i = nat n div 64; j = nat n mod 64
     in if bn_width a \<le> i then (None, a)
        else (Some (), bn_set_minimal_width (a\<lparr>bn_d := (bn_d a)[i := bn_d a ! i AND NOT (push_bit j 1)]\<rparr>)))"

definition bn_is_bit_set_words :: "limbs \<Rightarrow> nat \<Rightarrow> bool" where
  "bn_is_bit_set_words a b =
    (let i = b div 64; j = b mod 64
     in if length a \<le> i then False else drop_bit j (a ! i) AND 1 \<noteq> 0)"

definition BN_is_bit_set :: "bignum \<Rightarrow> int \<Rightarrow> bool" where
  "BN_is_bit_set a n = (if n < 0 then False else bn_is_bit_set_words (bn_words a) (nat n))"

definition BN_mask_bits :: "int \<Rightarrow> unit bn_oper" where
  "BN_mask_bits n a =
    (if n < 0 then (None, a)
     else let w = nat n div 64; b = nat n mod 64
     in if bn_width a \<le> w then (Some (), a)
        else (Some (), bn_set_minimal_width
          (if b = 0 then a\<lparr>bn_width := w\<rparr>
           else a\<lparr>bn_width := w + 1, bn_d := (bn_d a)[w := bn_d a ! w AND NOT (push_bit b (- 1))]\<rparr>)))"

text \<open>One of the blocks of \<open>bn_count_low_zero_bits_word\<close>, for \<open>k\<close> bits.\<close>

definition low_zero_step :: "nat \<Rightarrow> u64 \<times> nat \<Rightarrow> u64 \<times> nat" where
  "low_zero_step k = (\<lambda>(l, bits).
    let m = constant_time_is_zero_w (push_bit (64 - k) l)
    in (constant_time_select_w m (drop_bit k l) l, bits + unat (of_nat k AND m)))"

definition bn_count_low_zero_bits_word :: "u64 \<Rightarrow> nat" where
  "bn_count_low_zero_bits_word l =
    snd (low_zero_step 1 (low_zero_step 2 (low_zero_step 4 (low_zero_step 8
      (low_zero_step 16 (low_zero_step 32 (l, 0)))))))"

text \<open>The \<open>int\<close> result is kept as the word that is masked; \<open>i\<close> is the number of the limb.\<close>

fun low_zero_loop :: "u64 \<Rightarrow> u64 \<Rightarrow> nat \<Rightarrow> limbs \<Rightarrow> u64" where
  "low_zero_loop ret saw i (d # ds) =
    (let nonzero = NOT (constant_time_is_zero_w d); first = NOT saw AND nonzero
     in low_zero_loop (ret OR (first AND of_nat (i * 64 + bn_count_low_zero_bits_word d)))
          (saw OR nonzero) (Suc i) ds)"
| "low_zero_loop ret saw i [] = ret"

definition BN_count_low_zero_bits :: "bignum \<Rightarrow> nat" where
  "BN_count_low_zero_bits bn = unat (low_zero_loop 0 0 0 (bn_words bn))"

section \<open>Shifts multiply and divide\<close>

text \<open>An \<open>OR\<close> of words without common bits is a sum.\<close>

lemma unat_or_disjoint: "x AND y = 0 \<Longrightarrow> unat (x OR y) = unat x + unat (y :: 'a::len word)"
proof -
  assume "x AND y = 0"
  then have "unat x AND unat y = 0" by (simp flip: unsigned_and_eq)
  then show ?thesis by (simp add: unsigned_or_eq disjunctive_add_eq_or)
qed

lemma unat_push_bit:
  assumes "n \<le> 64"
  shows "unat (push_bit n (x :: u64)) = 2 ^ n * (unat x mod 2 ^ (64 - n))"
proof -
  have split: "(2 :: nat) ^ 64 = 2 ^ n * 2 ^ (64 - n)"
    using assms by (simp flip: power_add)
  have "unat (push_bit n x) = take_bit 64 (push_bit n (unat x))"
    by (simp add: unsigned_push_bit_eq)
  also have "\<dots> = (2 ^ n * unat x) mod 2 ^ 64"
    by (simp only: take_bit_eq_mod push_bit_eq_mult mult.commute)
  also have "\<dots> = 2 ^ n * (unat x mod 2 ^ (64 - n))"
    unfolding split by (rule mult_mod_right [symmetric])
  finally show ?thesis .
qed

lemma unat_drop_bit: "unat (drop_bit n (x :: u64)) = unat x div 2 ^ n"
  by (simp add: unat_drop_bit_eq drop_bit_eq_div [where 'a = nat])

lemma push_drop_limb:
  assumes "lb \<le> 64"
  shows "unat (push_bit lb l) + bn_base * unat (drop_bit (64 - lb) l) = 2 ^ lb * unat (l :: u64)"
proof -
  have split: "bn_base = 2 ^ lb * 2 ^ (64 - lb)"
    using assms by (simp add: bn_base_def flip: power_add)
  have "unat (push_bit lb l) + bn_base * unat (drop_bit (64 - lb) l)
      = 2 ^ lb * (unat l mod 2 ^ (64 - lb) + 2 ^ (64 - lb) * (unat l div 2 ^ (64 - lb)))"
    unfolding split unat_push_bit [OF assms] unat_drop_bit by (simp only: distrib_left mult.assoc)
  then show ?thesis by simp
qed

lemma push_drop_disjoint:
  "push_bit lb (x :: u64) AND drop_bit (64 - lb) l = 0"
  by (intro bit_word_eqI) (auto simp: bit_simps dest: bit_imp_le_length)

lemma lshift_loop_val:
  "t = push_bit lb x \<Longrightarrow> lb \<le> 64 \<Longrightarrow>
    bn_val (lshift_loop lb gs (t # ts)) = 2 ^ lb * bn_val (rev gs) + bn_base ^ length gs * bn_val (t # ts) \<and>
    length (lshift_loop lb gs (t # ts)) = length gs + length (t # ts)"
proof (induction gs arbitrary: t x ts)
  case (Cons l gs)
  let ?t = "t OR drop_bit (64 - lb) l"
  have t: "unat ?t = unat t + unat (drop_bit (64 - lb) l)"
    unfolding Cons.prems(1) by (rule unat_or_disjoint [OF push_drop_disjoint])
  have "bn_val (push_bit lb l # ?t # ts) =
      (unat (push_bit lb l) + bn_base * unat (drop_bit (64 - lb) l)) + bn_base * bn_val (t # ts)"
    by (simp add: t algebra_simps)
  also have "\<dots> = 2 ^ lb * unat l + bn_base * bn_val (t # ts)"
    unfolding push_drop_limb [OF Cons.prems(2)] ..
  finally have v: "bn_val (push_bit lb l # ?t # ts) = 2 ^ lb * unat l + bn_base * bn_val (t # ts)" .
  from Cons.IH [OF refl Cons.prems(2), of l "?t # ts"] show ?case
    unfolding lshift_loop.simps v by (simp add: bn_val_append algebra_simps del: bn_val.simps(2))
      (simp add: algebra_simps)
qed simp

lemma pow_limbs: "2 ^ n = bn_base ^ (n div 64) * 2 ^ (n mod 64)"
  by (simp only: bn_base_def power_mult [symmetric] power_add [symmetric]) simp

lemma lshift_words_val:
  fixes a :: limbs and n :: nat
  defines "t \<equiv> if n mod 64 = 0 then a @ [0] else lshift_loop (n mod 64) (rev a) [0]"
  shows "bn_val (replicate (n div 64) 0 @ t) = 2 ^ n * bn_val a" and "length t = length a + 1"
proof -
  have "bn_val t = 2 ^ (n mod 64) * bn_val a \<and> length t = length a + 1"
    using lshift_loop_val [of 0 "n mod 64" 0 "rev a" "[]"]
    by (auto simp: t_def bn_val_append)
  then show "bn_val (replicate (n div 64) 0 @ t) = 2 ^ n * bn_val a" "length t = length a + 1"
    by (simp_all add: bn_val_append pow_limbs [of n])
qed

lemma BN_lshift_val [bn_spec]:
  assumes "BN_lshift malloc a n r = (Some u, r')" and "bn_ok a" and "bn_ok r"
  shows "0 \<le> n" and "bn_int r' = 2 ^ nat n * bn_int a" and "bn_normal r'"
proof -
  let ?t = "if nat n mod 64 = 0 then bn_words a @ [0] else lshift_loop (nat n mod 64) (rev (bn_words a)) [0]"
  let ?w = "replicate (nat n div 64) 0 @ ?t"
  from assms(1) show n: "0 \<le> n" by (simp add: BN_lshift_def split: if_splits)
  with assms(1) obtain r1 where r1:
    "bn_wexpand malloc (bn_width a + nat n div 64 + 1) (r\<lparr>bn_neg := bn_neg a\<rparr>) = (Some (), r1)"
    "r' = bn_set_minimal_width (put_words ?w r1)"
    unfolding BN_lshift_def Let_def by (auto dest!: and_then_eq_SomeD)
  have "bn_neg r1 = bn_neg a" using bn_wexpand_Some(5) [OF r1(1)] assms(3) by simp
  moreover have "bn_val ?w = 2 ^ nat n * bn_abs a"
    by (simp only: lshift_words_val(1) bn_abs_def)
  ultimately have "bn_int (put_words ?w r1) = 2 ^ nat n * bn_int a"
    by (simp only: bn_int_def bn_abs_put_words put_words) simp
  then show "bn_int r' = 2 ^ nat n * bn_int a" "bn_normal r'"
    unfolding r1(2) by (simp_all add: set_minimal_width)
qed

subsection \<open>To the right\<close>

lemma rshift_limb:
  assumes "sb \<le> 64"
  shows "unat (drop_bit sb x OR push_bit (64 - sb) y) = unat x div 2 ^ sb + 2 ^ (64 - sb) * (unat (y :: u64) mod 2 ^ sb)"
proof -
  have "drop_bit sb x AND push_bit (64 - sb) y = 0"
    using push_drop_disjoint [of "64 - sb" y x] assms by (simp add: and.commute)
  then show ?thesis using assms by (simp add: unat_or_disjoint unat_push_bit unat_drop_bit)
qed

lemma bn_base_split: "sb \<le> 64 \<Longrightarrow> bn_base = 2 ^ sb * 2 ^ (64 - sb)"
  by (simp add: bn_base_def flip: power_add)

lemma rshift_loop_val:
  "sb \<le> 64 \<Longrightarrow> bn_val (rshift_loop sb d) = bn_val d div 2 ^ sb \<and> length (rshift_loop sb d) = length d"
proof (induction sb d rule: rshift_loop.induct)
  case (1 sb x y ys)
  let ?V = "bn_val (y # ys)"
  have "unat y mod 2 ^ sb = ?V mod 2 ^ sb"
    using mod_mult_self2 [of "unat y" "2 ^ sb" "2 ^ (64 - sb) * bn_val ys"]
    by (simp add: bn_base_split [OF 1(2)] mult.assoc)
  then have "bn_val (rshift_loop sb (x # y # ys)) =
      unat x div 2 ^ sb + 2 ^ (64 - sb) * (?V mod 2 ^ sb) + bn_base * (?V div 2 ^ sb)"
    using 1 by (simp add: rshift_limb)
  also have "\<dots> = unat x div 2 ^ sb + 2 ^ (64 - sb) * (?V mod 2 ^ sb + 2 ^ sb * (?V div 2 ^ sb))"
  proof -
    have "x + p * m + q * p * d = x + p * (m + q * d)" for x p q m d :: nat
      by (simp add: algebra_simps)
    then show ?thesis unfolding bn_base_split [OF 1(2)] .
  qed
  also have "\<dots> = unat x div 2 ^ sb + 2 ^ (64 - sb) * ?V"
    by (simp only: mod_mult_div_eq)
  also have "\<dots> = (unat x + 2 ^ sb * (2 ^ (64 - sb) * ?V)) div 2 ^ sb"
    by (simp del: bn_val.simps)
  also have "\<dots> = bn_val (x # y # ys) div 2 ^ sb"
    unfolding bn_val.simps(2) [of x] bn_base_split [OF 1(2)] by (simp only: mult.assoc)
  finally show ?case using 1 by simp
qed (simp_all add: unat_drop_bit)

lemma div_limbs: "n \<le> length a \<Longrightarrow> bn_val (drop n a) = bn_val a div bn_base ^ n"
  using bn_val_take_drop [of n a] bn_val_less [of "take n a"] by simp

lemma rshift_words_val [bn_spec]:
  "bn_val (bn_rshift_words a n) = bn_val a div 2 ^ n \<and> length (bn_rshift_words a n) = length a"
proof (cases "length a \<le> n div 64")
  case True
  have "bn_val a < bn_base ^ length a" by (rule bn_val_less)
  also have "\<dots> \<le> bn_base ^ (n div 64)" using True by (intro power_increasing) simp_all
  also have "\<dots> \<le> 2 ^ n" unfolding pow_limbs [of n] by simp
  finally show ?thesis using True by (simp add: bn_rshift_words_def Let_def)
next
  case False
  have "bn_val (drop (n div 64) a) div 2 ^ (n mod 64) = bn_val a div 2 ^ n"
    using False by (simp add: div_limbs div_mult2_eq pow_limbs [of n])
  then show ?thesis
    using False rshift_loop_val [of "n mod 64" "drop (n div 64) a"]
    by (auto simp: bn_rshift_words_def Let_def bn_val_append)
qed

lemma put_words_neg [simp]: "bn_words ((put_words ws bn)\<lparr>bn_neg := s\<rparr>) = ws"
  using put_words(1) [of ws bn] by simp

lemma shifted_val:
  assumes "r' = bn_set_minimal_width ((put_words ws r)\<lparr>bn_neg := s\<rparr>)"
  shows "bn_int r' = (if s then - int (bn_val ws) else int (bn_val ws))" and "bn_normal r'"
  unfolding assms by (simp_all add: set_minimal_width bn_int_set_neg)

text \<open>The magnitude is divided, so a negative number is rounded towards zero.\<close>

lemma BN_rshift_val [bn_spec]:
  assumes "BN_rshift malloc a n r = (Some u, r')"
  shows "0 \<le> n" and "bn_int r' = sgn (bn_int a) * (\<bar>bn_int a\<bar> div 2 ^ nat n)" and "bn_normal r'"
proof -
  from assms show n: "0 \<le> n" by (simp add: BN_rshift_def split: if_splits)
  with assms obtain r1 where r1:
    "r' = bn_set_minimal_width ((put_words (bn_rshift_words (bn_words a) (nat n)) r1)\<lparr>bn_neg := bn_neg a\<rparr>)"
    unfolding BN_rshift_def by (auto dest!: and_then_eq_SomeD)
  from shifted_val [OF this] show "bn_int r' = sgn (bn_int a) * (\<bar>bn_int a\<bar> div 2 ^ nat n)" "bn_normal r'"
    by (auto simp: rshift_words_val bn_int_def bn_abs_def zdiv_int sgn_if)
qed

lemma rshift1_words_val: "bn_rshift1_words d = rshift_loop 1 d"
  by (induction d rule: bn_rshift1_words.induct) simp_all

lemma BN_rshift1_val [bn_spec]:
  assumes "BN_rshift1 malloc a r = (Some u, r')"
  shows "bn_int r' = sgn (bn_int a) * (\<bar>bn_int a\<bar> div 2)" and "bn_normal r'"
proof -
  from assms obtain r1 where r1:
    "r' = bn_set_minimal_width ((put_words (bn_rshift1_words (bn_words a)) r1)\<lparr>bn_neg := bn_neg a\<rparr>)"
    unfolding BN_rshift1_def by (auto dest!: and_then_eq_SomeD)
  from shifted_val [OF this] show "bn_int r' = sgn (bn_int a) * (\<bar>bn_int a\<bar> div 2)" "bn_normal r'"
    by (auto simp: rshift1_words_val rshift_loop_val bn_int_def bn_abs_def zdiv_int sgn_if)
qed

lemma lshift1_loop_val:
  "lshift1_loop c d = (rp, c') \<Longrightarrow> unat c \<le> 1 \<Longrightarrow>
    length rp = length d \<and> unat c' \<le> 1 \<and> bn_val rp + bn_base ^ length d * unat c' = 2 * bn_val d + unat c"
proof (induction c d arbitrary: rp c' rule: lshift1_loop.induct)
  case (1 c t ap)
  obtain rp0 where rest: "lshift1_loop (drop_bit 63 t) ap = (rp0, c')" "rp = (push_bit 1 t OR c) # rp0"
    using 1(2) by (auto split: prod.splits)
  have "unat (drop_bit 63 t) < 2"
    unfolding unat_drop_bit using unsigned_less [of t, where 'a = nat] by (intro less_mult_imp_div_less) simp
  with 1(1) [OF rest(1)] have IH: "length rp0 = length ap" "unat c' \<le> 1"
    "bn_val rp0 + bn_base ^ length ap * unat c' = 2 * bn_val ap + unat (drop_bit 63 t)" by simp_all
  have "c = 0 \<or> c = 1" using 1(3) by (auto simp: le_Suc_eq word_unat_eq_iff)
  then have "push_bit 1 t AND c = 0" by (auto simp: and_one_eq mod_2_eq_odd)
  then have "unat (push_bit 1 t OR c) = unat (push_bit 1 t) + unat c" by (rule unat_or_disjoint)
  moreover have "unat (push_bit 1 t) + bn_base * unat (drop_bit 63 t) = 2 * unat t"
    using push_drop_limb [of 1 t] by simp
  ultimately have "bn_val rp + bn_base ^ length (t # ap) * unat c' + bn_base * unat (drop_bit 63 t) =
      2 * unat t + unat c + bn_base * (bn_val rp0 + bn_base ^ length ap * unat c')"
    unfolding rest(2) by (simp add: algebra_simps)
  then show ?case unfolding IH(3) rest(2) using IH(1,2) by (simp add: algebra_simps)
qed auto

lemma BN_lshift1_val [bn_spec]:
  assumes "BN_lshift1 malloc a r = (Some u, r')" and "bn_ok a" and "bn_ok r"
  shows "bn_int r' = 2 * bn_int a"
proof -
  obtain rp c where loop: "lshift1_loop 0 (bn_words a) = (rp, c)" by (cases "lshift1_loop 0 (bn_words a)")
  note v = lshift1_loop_val [OF loop, simplified]
  with assms(1) loop obtain r1 where r1: "bn_wexpand malloc (bn_width a + 1) (r\<lparr>bn_neg := bn_neg a\<rparr>) = (Some (), r1)"
    "r' = put_words (if c \<noteq> 0 then rp @ [1] else rp) r1"
    unfolding BN_lshift1_def by (auto dest!: and_then_eq_SomeD)
  have "c = 0 \<or> c = 1" using v by (auto simp: le_Suc_eq word_unat_eq_iff)
  then have "bn_val (if c \<noteq> 0 then rp @ [1] else rp) = 2 * bn_abs a"
    using v assms(2) by (auto simp: bn_val_append bn_abs_def)
  moreover have "bn_neg r1 = bn_neg a" using bn_wexpand_Some(5) [OF r1(1)] assms(3) by simp
  ultimately show ?thesis unfolding r1(2) bn_int_def bn_abs_put_words put_words by simp
qed

section \<open>Single bits\<close>

lemma div_mod_eq_iff: "k = n \<longleftrightarrow> k div m = n div m \<and> k mod m = n mod (m :: nat)"
  by (metis div_mult_mod_eq)

lemma less_div_mod_iff: "k < n \<longleftrightarrow> k div m < n div m \<or> k div m = n div m \<and> k mod m < n mod (m :: nat)"
proof (cases "k div m = n div m")
  case True
  then have "k = m * (n div m) + k mod m" "n = m * (n div m) + n mod m"
    using mult_div_mod_eq [of m k] mult_div_mod_eq [of m n] by simp_all
  then have "k < n \<longleftrightarrow> k mod m < n mod m" by linarith
  with True show ?thesis by simp
next
  case False
  then show ?thesis by (metis div_le_mono le_neq_implies_less less_imp_le not_le)
qed

lemma bit_limbs: "bit (bn_val ws) k \<longleftrightarrow> k div 64 < length ws \<and> bit (ws ! (k div 64)) (k mod 64)"
proof (cases "k div 64 < length ws")
  case False
  have "bn_val ws < bn_base ^ length ws" by (rule bn_val_less)
  also have "\<dots> \<le> bn_base ^ (k div 64)" using False by (intro power_increasing) simp_all
  also have "\<dots> \<le> 2 ^ k" unfolding pow_limbs [of k] by simp
  finally show ?thesis using False by (simp add: bit_iff_odd)
next
  case True
  let ?x = "ws ! (k div 64)" and ?V = "bn_val (drop (Suc (k div 64)) ws)"
  have "bn_val ws div 2 ^ k = bn_val (drop (k div 64) ws) div 2 ^ (k mod 64)"
    using True by (simp add: div_limbs div_mult2_eq pow_limbs [of k])
  also have "bn_val (drop (k div 64) ws) = unat ?x + 2 ^ (k mod 64) * (2 ^ (64 - k mod 64) * ?V)"
    using True by (simp add: bn_base_split [of "k mod 64"] flip: Cons_nth_drop_Suc)
  also have "\<dots> div 2 ^ (k mod 64) = unat ?x div 2 ^ (k mod 64) + 2 ^ (64 - k mod 64) * ?V"
    by simp
  finally have "bit (bn_val ws) k \<longleftrightarrow> bit (unat ?x) (k mod 64)"
    unfolding bit_iff_odd using mod_less_divisor [of 64 k] by (simp del: mod_less_divisor)
  then show ?thesis using True by (simp add: bit_unsigned_iff)
qed

lemma is_bit_set_words_iff [bn_spec]: "bn_is_bit_set_words a b \<longleftrightarrow> bit (bn_val a) b"
proof -
  have "drop_bit (b mod 64) x AND 1 \<noteq> 0 \<longleftrightarrow> bit x (b mod 64)" for x :: u64
    by (simp add: and_one_eq mod_2_eq_odd bit_iff_odd_drop_bit)
  then show ?thesis by (simp add: bn_is_bit_set_words_def bit_limbs Let_def not_less)
qed

lemma BN_is_bit_set_iff [bn_spec]: "BN_is_bit_set a n \<longleftrightarrow> 0 \<le> n \<and> bit (bn_abs a) (nat n)"
  by (simp add: BN_is_bit_set_def is_bit_set_words_iff bn_abs_def)

lemma BN_set_bit_val [bn_spec]:
  assumes "BN_set_bit malloc n a = (Some u, r)" and "bn_ok a"
  shows "0 \<le> n" and "bn_abs r = set_bit (nat n) (bn_abs a)" and "bn_neg r = bn_neg a" and "bn_ok r"
proof -
  show n: "0 \<le> n" using assms(1) by (simp add: BN_set_bit_def split: if_splits)
  let ?i = "nat n div 64" and ?j = "nat n mod 64"
  have "\<exists>b. bn_ok b \<and> bn_abs b = bn_abs a \<and> bn_neg b = bn_neg a \<and> ?i < bn_width b \<and>
      r = b\<lparr>bn_d := (bn_d b)[?i := bn_d b ! ?i OR push_bit ?j 1]\<rparr>"
  proof (cases "bn_width a \<le> ?i")
    case True
    with assms(1) n obtain a1 where a1: "bn_wexpand malloc (?i + 1) a = (Some (), a1)"
      and r: "r = (let b = put_words (bn_words a1 @ replicate (?i + 1 - bn_width a1) 0) a1
        in b\<lparr>bn_d := (bn_d b)[?i := bn_d b ! ?i OR push_bit ?j 1]\<rparr>)"
      unfolding BN_set_bit_def Let_def by (auto dest!: and_then_eq_SomeD)
    note v = bn_wexpand_Some [OF a1 assms(2)]
    define w where "w = bn_words a1 @ replicate (?i + 1 - bn_width a1) 0"
    have "bn_val w = bn_abs a" "?i < length w"
      using v True assms(2) by (simp_all add: w_def bn_val_append bn_abs_def)
    with v show ?thesis
      unfolding r Let_def w_def [symmetric] by (intro exI [of _ "put_words w a1"]) simp
  next
    case False
    with assms n show ?thesis by (auto simp: BN_set_bit_def Let_def and_then_def)
  qed
  then obtain b where b: "bn_ok b" "bn_abs b = bn_abs a" "bn_neg b = bn_neg a" "?i < bn_width b"
    "r = b\<lparr>bn_d := (bn_d b)[?i := bn_d b ! ?i OR push_bit ?j 1]\<rparr>" by blast
  then have i: "?i < length (bn_words b)" by (simp add: bn_ok_def)
  have w: "bn_words r = (bn_words b)[?i := bn_words b ! ?i OR push_bit ?j 1]"
    using b by (simp add: take_update_swap)
  show "bn_neg r = bn_neg a" "bn_ok r" using b by (simp_all add: bn_ok_def)
  have "bn_val (bn_words r) = set_bit (nat n) (bn_val (bn_words b))"
  proof (rule bit_eqI)
    fix k
    have "k = nat n \<longleftrightarrow> k div 64 = ?i \<and> k mod 64 = ?j" using div_mod_eq_iff by metis
    then show "bit (bn_val (bn_words r)) k \<longleftrightarrow> bit (set_bit (nat n) (bn_val (bn_words b))) k"
      using i unfolding w by (auto simp: bit_limbs bit_simps nth_list_update)
  qed
  then show "bn_abs r = set_bit (nat n) (bn_abs a)"
    using b(2) by (simp only: bn_abs_def)
qed

lemma BN_clear_bit_val [bn_spec]:
  assumes "BN_clear_bit n a = (Some u, r)" and "bn_ok a"
  shows "0 \<le> n" and "bn_abs r = unset_bit (nat n) (bn_abs a)" and "bn_normal r"
proof -
  show n: "0 \<le> n" using assms(1) by (simp add: BN_clear_bit_def split: if_splits)
  let ?i = "nat n div 64" and ?j = "nat n mod 64"
  define b where "b = a\<lparr>bn_d := (bn_d a)[?i := bn_d a ! ?i AND NOT (push_bit ?j 1)]\<rparr>"
  have i: "?i < bn_width a" and r: "r = bn_set_minimal_width b"
    using assms(1) n by (auto simp: BN_clear_bit_def b_def Let_def split: if_splits)
  with assms(2) have len: "?i < length (bn_words a)" and ok: "bn_ok b" by (simp_all add: bn_ok_def b_def)
  have w: "bn_words b = (bn_words a)[?i := bn_words a ! ?i AND NOT (push_bit ?j 1)]"
    using i by (simp add: b_def take_update_swap)
  have "bn_val (bn_words b) = unset_bit (nat n) (bn_val (bn_words a))"
  proof (rule bit_eqI)
    fix k
    have "k = nat n \<longleftrightarrow> k div 64 = ?i \<and> k mod 64 = ?j" by (rule div_mod_eq_iff)
    then show "bit (bn_val (bn_words b)) k \<longleftrightarrow> bit (unset_bit (nat n) (bn_val (bn_words a))) k"
      using len unfolding w by (auto simp: bit_limbs bit_simps nth_list_update)
  qed
  then have "bn_abs b = unset_bit (nat n) (bn_abs a)" by (simp only: bn_abs_def)
  then show "bn_abs r = unset_bit (nat n) (bn_abs a)" "bn_normal r"
    unfolding r by (simp_all add: set_minimal_width [OF ok])
qed

lemma BN_mask_bits_val [bn_spec]:
  assumes "BN_mask_bits n a = (Some u, r)" and "bn_ok a"
  shows "0 \<le> n" and "bn_abs r = bn_abs a mod 2 ^ nat n"
proof -
  show n: "0 \<le> n" using assms(1) by (simp add: BN_mask_bits_def split: if_splits)
  let ?i = "nat n div 64" and ?j = "nat n mod 64"
  show "bn_abs r = bn_abs a mod 2 ^ nat n"
  proof (cases "bn_width a \<le> ?i")
    case True
    with assms(1) n have "r = a" by (simp add: BN_mask_bits_def Let_def)
    moreover have "bn_abs a < 2 ^ nat n"
    proof -
      have "bn_abs a < bn_base ^ bn_width a" by (rule bn_abs_less)
      also have "\<dots> \<le> bn_base ^ ?i" using True by (intro power_increasing) simp_all
      also have "\<dots> \<le> 2 ^ nat n" unfolding pow_limbs [of "nat n"] by simp
      finally show ?thesis .
    qed
    ultimately show ?thesis by simp
  next
    case False
    define b where "b = (if ?j = 0 then a\<lparr>bn_width := ?i\<rparr>
      else a\<lparr>bn_width := ?i + 1, bn_d := (bn_d a)[?i := bn_d a ! ?i AND NOT (push_bit ?j (- 1))]\<rparr>)"
    have r: "r = bn_set_minimal_width b" and ok: "bn_ok b"
      using assms n False by (auto simp: BN_mask_bits_def b_def bn_ok_def Let_def)
    have len: "?i < length (bn_words a)" using False assms(2) by (simp add: bn_ok_def)
    have w: "bn_words b = (if ?j = 0 then take ?i (bn_words a)
      else take (?i + 1) ((bn_words a)[?i := bn_words a ! ?i AND NOT (push_bit ?j (- 1))]))"
      using False by (auto simp: b_def take_update_swap min_absorb1)
    have "bn_val (bn_words b) = take_bit (nat n) (bn_val (bn_words a))"
    proof (rule bit_eqI)
      fix k
      have "k < nat n \<longleftrightarrow> k div 64 < ?i \<or> k div 64 = ?i \<and> k mod 64 < ?j" by (rule less_div_mod_iff)
      then have k: "bit (take_bit (nat n) (bn_val (bn_words a))) k \<longleftrightarrow>
          (k div 64 < ?i \<or> k div 64 = ?i \<and> k mod 64 < ?j) \<and> bit (bn_val (bn_words a)) k"
        by (simp only: bit_take_bit_iff)
      show "bit (bn_val (bn_words b)) k \<longleftrightarrow> bit (take_bit (nat n) (bn_val (bn_words a))) k"
      proof (cases "?j = 0")
        case True
        with len k show ?thesis unfolding w by (auto simp: bit_limbs)
      next
        case j: False
        have bits: "bit (x AND NOT (push_bit ?j (- 1))) (k mod 64) \<longleftrightarrow> k mod 64 < ?j \<and> bit x (k mod 64)" for x :: u64
          by (auto simp: bit_simps)
        consider "k div 64 < ?i" | "k div 64 = ?i" | "?i < k div 64" by linarith
        then show ?thesis
          using len j bits unfolding w k by cases (simp_all add: bit_limbs del: push_bit_minus_one)
      qed
    qed
    then have "bn_abs b = bn_abs a mod 2 ^ nat n" by (simp only: bn_abs_def take_bit_eq_mod)
    then show ?thesis unfolding r by (simp add: set_minimal_width [OF ok])
  qed
qed

section \<open>The shift by a secret number\<close>

text \<open>\<open>k\<close> is the number of bits of \<open>max_bits\<close>: the loop uses so many bits of \<open>n\<close>.\<close>

lemma secret_loop_val:
  "m < 2 ^ k \<Longrightarrow> 0 < k \<longrightarrow> 2 ^ (k - 1) \<le> m \<Longrightarrow> i \<le> k \<Longrightarrow>
    bn_val (secret_loop m n i r) = bn_val r div 2 ^ (n mod 2 ^ k - n mod 2 ^ i) \<and>
    length (secret_loop m n i r) = length r"
proof (induction m n i r rule: secret_loop.induct)
  case (1 m n i r)
  show ?case
  proof (cases "i = k")
    case True
    with 1(2) have "secret_loop m n i r = r" by (subst secret_loop.simps) simp
    with True show ?thesis by simp
  next
    case False
    with 1(4) have ik: "i \<le> k - 1" "0 < k" "Suc i \<le> k" by simp_all
    have "(2 :: nat) ^ i \<le> 2 ^ (k - 1)" using ik(1) by (intro power_increasing) simp_all
    also have "\<dots> \<le> m" using 1(3) ik(2) by blast
    finally have m: "m div 2 ^ i \<noteq> 0" by (simp add: div_eq_0_iff not_less)
    let ?r = "bn_select_words (0 - of_bool (bit n i)) (bn_rshift_words r (2 ^ i)) r"
    have "?r = (if bit n i then bn_rshift_words r (2 ^ i) else r)"
      using bn_select_words_mask [of "bn_rshift_words r (2 ^ i)" r "bit n i"] rshift_words_val [of r "2 ^ i"]
      by (cases "bit n i") (simp_all add: mask_of_def)
    then have r: "bn_val ?r = bn_val r div 2 ^ (2 ^ i * of_bool (bit n i))" "length ?r = length r"
      by (simp_all add: rshift_words_val)
    have step: "n mod 2 ^ Suc i = n mod 2 ^ i + 2 ^ i * of_bool (bit n i)"
      using take_bit_Suc_from_most [of i n] by (simp add: take_bit_eq_mod)
    have "n mod 2 ^ k mod 2 ^ Suc i = n mod 2 ^ Suc i"
      by (intro mod_mod_cancel le_imp_power_dvd ik)
    then have "n mod 2 ^ Suc i \<le> n mod 2 ^ k" by (metis mod_less_eq_dividend)
    then have e: "n mod 2 ^ k - n mod 2 ^ i = 2 ^ i * of_bool (bit n i) + (n mod 2 ^ k - n mod 2 ^ Suc i)"
      using step by linarith
    have "secret_loop m n i r = secret_loop m n (Suc i) ?r"
      using m by (subst secret_loop.simps) simp
    with 1(1) [OF m 1(2,3) ik(3)] show ?thesis
      unfolding r e power_add by (simp only: div_mult2_eq)
  qed
qed

fun bit_length :: "nat \<Rightarrow> nat" where
  "bit_length m = (if m = 0 then 0 else Suc (bit_length (m div 2)))"

declare bit_length.simps [simp del]

lemma bit_length_bounds: "m < 2 ^ bit_length m \<and> (0 < bit_length m \<longrightarrow> 2 ^ (bit_length m - 1) \<le> m)"
proof (induction m rule: bit_length.induct)
  case (1 m)
  show ?case
  proof (cases "m = 0")
    case False
    with 1 have IH: "m div 2 < 2 ^ bit_length (m div 2)"
      "0 < bit_length (m div 2) \<longrightarrow> 2 ^ (bit_length (m div 2) - 1) \<le> m div 2" by simp_all
    have l: "bit_length m = Suc (bit_length (m div 2))" using False by (simp add: bit_length.simps [of m])
    have "m < 2 ^ bit_length m" unfolding l using IH(1) by (simp add: power_Suc)
    moreover have "2 ^ (bit_length m - 1) \<le> m"
      using IH(2) False unfolding l by (cases "bit_length (m div 2)") (simp_all add: power_Suc)
    ultimately show ?thesis by blast
  qed (simp add: bit_length.simps)
qed

lemma bit_length_unique:
  assumes "m < 2 ^ k" and "k \<noteq> 0 \<Longrightarrow> 2 ^ (k - 1) \<le> m"
  shows "bit_length m = k"
proof (rule antisym)
  have b: "m < 2 ^ bit_length m" "0 < bit_length m \<Longrightarrow> 2 ^ (bit_length m - 1) \<le> m" using bit_length_bounds [of m] by simp_all
  have less: "i < j" if "2 ^ i \<le> m" "m < 2 ^ j" for i j
    using order.strict_trans1 [OF that] by (rule power_less_imp_less_exp [rotated]) simp
  show "bit_length m \<le> k" using less [of "bit_length m - 1" k] b(2) assms(1) by (cases "bit_length m") auto
  show "k \<le> bit_length m" using less [of "k - 1" "bit_length m"] b(1) assms(2) by (cases k) auto
qed

lemma bn_rshift_secret_shift_val [bn_spec]:
  assumes "bn_rshift_secret_shift malloc a n tmp r = (Some u, r')" and "bn_ok r"
  shows "bn_abs r' = bn_abs a div 2 ^ (n mod 2 ^ bit_length (64 * length (bn_words a)))"
    and "bn_neg r' = bn_neg a" and "bn_width r' = length (bn_words a)" and "bn_ok r'"
proof -
  let ?m = "64 * length (bn_words a)"
  obtain r1 where copy: "BN_copy malloc a r = (Some (), r1)"
    and r': "r' = set_d (secret_loop (64 * bn_width r1) n 0 (bn_words r1)) r1"
    using assms(1) unfolding bn_rshift_secret_shift_def
    by (auto dest!: and_then_eq_SomeD split: option.splits prod.splits)
  from copy obtain r0 where r1: "r1 = (put_words (bn_words a) r0)\<lparr>bn_neg := bn_neg a\<rparr>"
    unfolding BN_copy_def by (auto dest!: and_then_eq_SomeD)
  have w1: "bn_words r1 = bn_words a" "bn_width r1 = length (bn_words a)"
    unfolding r1 by (simp_all only: put_words_neg) simp
  let ?w = "secret_loop ?m n 0 (bn_words a)"
  from bit_length_bounds [of ?m] have v: "bn_val ?w = bn_abs a div 2 ^ (n mod 2 ^ bit_length ?m)"
    "length ?w = length (bn_words a)"
    using secret_loop_val [of ?m "bit_length ?m" 0 n "bn_words a"] by (simp_all add: bn_abs_def)
  have "r' = set_d ?w r1" unfolding r' w1(1) unfolding w1(2) ..
  then have "bn_words r' = ?w" "bn_neg r' = bn_neg a" "bn_width r' = length (bn_words a)" "bn_ok r'"
    using v(2) w1(2) by (simp_all add: set_d_def r1 bn_ok_def)
  with v show "bn_abs r' = bn_abs a div 2 ^ (n mod 2 ^ bit_length ?m)" "bn_neg r' = bn_neg a"
    "bn_width r' = length (bn_words a)" "bn_ok r'" by (simp_all add: bn_abs_def)
qed

text \<open>For a shift below the width of the number that is the shift by \<open>n\<close>.\<close>

lemma secret_shift_small: "n \<le> 64 * w \<Longrightarrow> n mod 2 ^ bit_length (64 * w) = n"
  using bit_length_bounds [of "64 * w"] by (simp add: mod_less)

section \<open>Trailing zeros\<close>

text \<open>What the blocks keep: \<open>bits\<close> zeros are gone, and one of the next \<open>2 ^ k\<close> bits is set.\<close>

definition zeros_left :: "u64 \<Rightarrow> nat \<Rightarrow> u64 \<times> nat \<Rightarrow> bool" where
  "zeros_left l0 k = (\<lambda>(l, bits). unat l0 = 2 ^ bits * unat l \<and> unat l mod 2 ^ k \<noteq> 0)"

lemma low_zero_step:
  assumes "zeros_left l0 n lb" and "n = 2 * k" and "k \<le> 32"
  shows "zeros_left l0 k (low_zero_step k lb)"
proof -
  obtain l bits where lb: "lb = (l, bits)" by (cases lb)
  with assms(1,2) have l: "unat l0 = 2 ^ bits * unat l" "unat l mod 2 ^ (2 * k) \<noteq> 0"
    by (auto simp: zeros_left_def)
  have "64 - (64 - k) = k" using assms(3) by simp
  then have zero: "push_bit (64 - k) l = 0 \<longleftrightarrow> unat l mod 2 ^ k = 0"
    using unat_push_bit [of "64 - k" l] by (simp flip: unat_eq_0)
  have k: "unat (of_nat k :: u64) = k" using assms(3) by (simp add: unat_of_nat_small)
  show ?thesis
  proof (cases "unat l mod 2 ^ k = 0")
    case True
    then have v: "unat l = 2 ^ k * unat (drop_bit k l)" by (auto simp: unat_drop_bit)
    have sq: "(2 ^ k * x) mod 2 ^ (2 * k) = 2 ^ k * (x mod 2 ^ k)" for x :: nat
      unfolding mult_2 power_add by (rule mult_mod_right [symmetric])
    have "unat (drop_bit k l) mod 2 ^ k \<noteq> 0"
      using l(2) sq [of "unat (drop_bit k l)"] unfolding v [symmetric] by (auto simp only: mult_eq_0_iff)
    moreover have "unat l0 = 2 ^ (bits + k) * unat (drop_bit k l)"
      unfolding l(1) power_add mult.assoc v [symmetric] ..
    moreover have "low_zero_step k lb = (drop_bit k l, bits + k)"
      using zero True k by (simp add: lb low_zero_step_def is_zero_w select_w Let_def) (simp add: mask_of_def)
    ultimately show ?thesis by (simp add: zeros_left_def)
  next
    case False
    then have "low_zero_step k lb = lb"
      using zero by (simp add: lb low_zero_step_def is_zero_w select_w Let_def) (simp add: mask_of_def)
    with False l(1) show ?thesis by (simp add: lb zeros_left_def)
  qed
qed

lemma BN_count_low_zero_bits_word [bn_spec]:
  assumes "l \<noteq> 0"
  shows "unat l = 2 ^ bn_count_low_zero_bits_word l * (unat l div 2 ^ bn_count_low_zero_bits_word l)"
    and "odd (unat l div 2 ^ bn_count_low_zero_bits_word l)"
proof -
  have "zeros_left l 64 (l, 0)"
    using assms unsigned_less [of l, where 'a = nat] by (simp add: zeros_left_def unat_gt_0)
  then have "zeros_left l 1 (low_zero_step 1 (low_zero_step 2 (low_zero_step 4 (low_zero_step 8
      (low_zero_step 16 (low_zero_step 32 (l, 0)))))))"
    by (rule low_zero_step [OF low_zero_step [OF low_zero_step [OF low_zero_step [OF low_zero_step [OF low_zero_step]]]]]) simp_all
  then obtain m where m: "unat l = 2 ^ bn_count_low_zero_bits_word l * unat m" "unat (m :: u64) mod 2 \<noteq> 0"
    unfolding bn_count_low_zero_bits_word_def zeros_left_def by (auto split: prod.splits)
  then show "unat l = 2 ^ bn_count_low_zero_bits_word l * (unat l div 2 ^ bn_count_low_zero_bits_word l)"
    "odd (unat l div 2 ^ bn_count_low_zero_bits_word l)" by (simp_all add: odd_iff_mod_2_eq_one)
qed

lemma low_zero_word_less: "l \<noteq> 0 \<Longrightarrow> bn_count_low_zero_bits_word l < 64"
proof (rule ccontr)
  assume "l \<noteq> 0" and "\<not> bn_count_low_zero_bits_word l < 64"
  then have "2 ^ 64 \<le> (2 :: nat) ^ bn_count_low_zero_bits_word l" by (intro power_increasing) simp_all
  with unsigned_less [of l, where 'a = nat] have "unat l div 2 ^ bn_count_low_zero_bits_word l = 0"
    by simp
  with BN_count_low_zero_bits_word(2) [OF \<open>l \<noteq> 0\<close>] show False by simp
qed

lemma low_zero_loop_seen: "low_zero_loop ret (- 1) i ds = ret"
  by (induction ds arbitrary: i) (simp_all add: Let_def)

lemma low_zero_loop_val:
  "i + length ds \<le> 2 ^ 57 \<Longrightarrow> bn_val ds \<noteq> 0 \<Longrightarrow>
    \<exists>k. unat (low_zero_loop 0 0 i ds) = 64 * i + k \<and> 2 ^ k dvd bn_val ds \<and> odd (bn_val ds div 2 ^ k)"
proof (induction ds arbitrary: i)
  case (Cons d ds)
  show ?case
  proof (cases "d = 0")
    case True
    with Cons.IH [of "Suc i"] Cons.prems obtain k where k: "unat (low_zero_loop 0 0 (Suc i) ds) = 64 * Suc i + k"
      "2 ^ k dvd bn_val ds" "odd (bn_val ds div 2 ^ k)" by auto
    have "bn_val (d # ds) div 2 ^ (64 + k) = bn_val ds div 2 ^ k"
      using True by (simp add: power_add div_mult2_eq bn_base_def)
    moreover have "2 ^ (64 + k) dvd bn_val (d # ds)"
      using True k(2) by (simp only: power_add bn_val.simps bn_base_def) (simp add: mult_dvd_mono)
    ultimately show ?thesis
      using True k by (intro exI [of _ "64 + k"]) (simp add: Let_def consttime mask_of_def)
  next
    case False
    let ?k = "bn_count_low_zero_bits_word d"
    note v = BN_count_low_zero_bits_word [OF False]
    have k: "?k < 64" using False by (rule low_zero_word_less)
    then have "unat (of_nat (i * 64 + ?k) :: u64) = i * 64 + ?k"
      using Cons.prems(1) by (intro unat_of_nat_small) simp
    moreover have "bn_val (d # ds) = 2 ^ ?k * (unat d div 2 ^ ?k + 2 ^ (64 - ?k) * bn_val ds)"
      using v(1) bn_base_split [of ?k] k by (simp add: distrib_left mult.assoc)
    moreover have "even ((2 :: nat) ^ (64 - ?k))" using k by simp
    ultimately show ?thesis
      using False v(2) by (intro exI [of _ ?k])
        (simp add: Let_def consttime mask_of_def low_zero_loop_seen del: bn_val.simps)
  qed
qed simp

lemma BN_count_low_zero_bits_val [bn_spec]:
  assumes "bn_width bn \<le> 2 ^ 57" and "bn_abs bn \<noteq> 0"
  shows "2 ^ BN_count_low_zero_bits bn dvd bn_abs bn" and "odd (bn_abs bn div 2 ^ BN_count_low_zero_bits bn)"
proof -
  have "length (bn_words bn) \<le> 2 ^ 57" using assms(1) by simp
  with assms(2) low_zero_loop_val [of 0 "bn_words bn"]
  show "2 ^ BN_count_low_zero_bits bn dvd bn_abs bn" "odd (bn_abs bn div 2 ^ BN_count_low_zero_bits bn)"
    by (auto simp: BN_count_low_zero_bits_def bn_abs_def)
qed

lemma BN_count_low_zero_bits_0: "bn_abs bn = 0 \<Longrightarrow> BN_count_low_zero_bits bn = 0"
proof -
  have "\<forall>d \<in> set ds. d = 0 \<Longrightarrow> low_zero_loop 0 0 i ds = 0" for ds i
    by (induction ds arbitrary: i) (simp_all add: Let_def consttime mask_of_def)
  then show "bn_abs bn = 0 \<Longrightarrow> ?thesis"
    by (simp add: BN_count_low_zero_bits_def bn_abs_def bn_val_0_iff)
qed

end
