(* ===== verification/Bn_Modular.thy ===== *)
theory Bn_Modular
  imports Bn_Product Bn_Shift
begin

text \<open>
  Arithmetic modulo a number in constant time, from \<open>fipsmodule/bn/div.c\<close>: the long division
  in binary, and sums, differences and doublings of reduced numbers.  The answers of
  \<open>BN_CTX_get\<close> are arguments.
\<close>

section \<open>The operations\<close>

subsection \<open>Long division in binary\<close>

text \<open>The inner loop, for the \<open>k\<close> lower bits of the limb \<open>l\<close>; \<open>q\<close> is \<open>q->d[i]\<close>.\<close>

fun div_bits :: "nat \<Rightarrow> limbs \<Rightarrow> u64 \<Rightarrow> limbs \<Rightarrow> u64 \<Rightarrow> limbs \<times> u64" where
  "div_bits (Suc k) m l r q =
    (let (r, carry) = bn_add_words r r;
         r = r[0 := r ! 0 OR (drop_bit k l AND 1)];
         (r, subtracted) = bn_reduce_once_in_place r carry m
     in div_bits k m l r (q OR push_bit k (NOT subtracted AND 1)))"
| "div_bits 0 m l r q = (r, q)"

text \<open>The outer loop, over the limbs of the numerator from the top.\<close>

fun div_limbs_loop :: "limbs \<Rightarrow> limbs \<Rightarrow> limbs \<Rightarrow> limbs \<Rightarrow> limbs \<times> limbs" where
  "div_limbs_loop m (l # ls) r qs = (case div_bits 64 m l r 0 of (r, q) \<Rightarrow> div_limbs_loop m ls r (q # qs))"
| "div_limbs_loop m [] r qs = (r, qs)"

text \<open>
  An output \<open>x\<close> that is an operand, or is missing, is computed in a number of the context,
  and copied to.
\<close>

definition output_in :: "bool \<Rightarrow> bignum option \<Rightarrow> bignum option \<Rightarrow> bignum option" where
  "output_in same c x = (if x = None \<or> same then c else x)"

definition output_now :: "bool \<Rightarrow> bignum \<Rightarrow> bignum option \<Rightarrow> bignum option" where
  "output_now same y x = (if x = None \<or> same then x else Some y)"

definition output_copy :: "(nat \<Rightarrow> bool) \<Rightarrow> bool \<Rightarrow> bignum \<Rightarrow> bignum option \<Rightarrow> unit option \<times> bignum option" where
  "output_copy malloc same y x =
    (case x of
       None \<Rightarrow> (Some (), None)
     | Some x \<Rightarrow> if same then (case BN_copy malloc y x of (ret, x) \<Rightarrow> (ret, Some x)) else (Some (), Some y))"

definition bn_div_consttime :: "(nat \<Rightarrow> bool) \<Rightarrow> bignum \<Rightarrow> bignum \<Rightarrow> bool \<Rightarrow> bool \<Rightarrow>
    bignum option \<Rightarrow> bignum option \<Rightarrow> bignum option \<Rightarrow> (bignum option \<times> bignum option, unit) oper" where
  "bn_div_consttime malloc num divisor q_same r_same cq cr tmp = (\<lambda>(quo, rem).
    if BN_is_negative num \<or> BN_is_negative divisor then (None, quo, rem)
    else if BN_is_zero divisor then (None, quo, rem)
    else case (output_in q_same cq quo, output_in r_same cr rem, tmp) of
      (Some q, Some r, Some tmp) \<Rightarrow>
        (case bn_wexpand malloc (bn_width num) q of
           (None, q) \<Rightarrow> (None, output_now q_same q quo, rem)
         | (Some _, q) \<Rightarrow>
        (case bn_wexpand malloc (bn_width divisor) r of
           (None, r) \<Rightarrow> (None, output_now q_same q quo, output_now r_same r rem)
         | (Some _, r) \<Rightarrow>
        (case bn_wexpand malloc (bn_width divisor) tmp of
           (None, _) \<Rightarrow> (None, output_now q_same q quo, output_now r_same r rem)
         | (Some _, _) \<Rightarrow>
        (case div_limbs_loop (bn_words divisor) (rev (bn_words num)) (replicate (bn_width divisor) 0) [] of
           (rw, qw) \<Rightarrow>
             let q = (put_words qw q)\<lparr>bn_neg := False\<rparr>; r = (put_words rw r)\<lparr>bn_neg := False\<rparr>
             in case output_copy malloc q_same q quo of
                  (None, quo) \<Rightarrow> (None, quo, output_now r_same r rem)
                | (Some _, quo) \<Rightarrow> (case output_copy malloc r_same r rem of (ret, rem) \<Rightarrow> (ret, quo, rem))))))
    | _ \<Rightarrow> (None, quo, rem))"

subsection \<open>Reduced numbers\<close>

definition bn_scratch_space_from_ctx :: "(nat \<Rightarrow> bool) \<Rightarrow> nat \<Rightarrow> bignum option \<Rightarrow> bignum option" where
  "bn_scratch_space_from_ctx malloc width ret =
    (case ret of
       None \<Rightarrow> None
     | Some ret \<Rightarrow> (case bn_wexpand malloc width ret of
         (None, _) \<Rightarrow> None
       | (Some _, ret) \<Rightarrow> Some (ret\<lparr>bn_neg := False, bn_width := width\<rparr>)))"

definition bn_resized_from_ctx :: "(nat \<Rightarrow> bool) \<Rightarrow> bignum \<Rightarrow> nat \<Rightarrow> bignum option \<Rightarrow> bignum option" where
  "bn_resized_from_ctx malloc bn width ctx =
    (if width \<le> bn_width bn then Some bn
     else case bn_scratch_space_from_ctx malloc width ctx of
       None \<Rightarrow> None
     | Some ret \<Rightarrow>
         (case and_then (BN_copy malloc bn) (\<lambda>_. bn_resize_words malloc width) ret of
            (None, _) \<Rightarrow> None | (Some _, ret) \<Rightarrow> Some ret))"

text \<open>The three numbers that one call gets from its context.\<close>

type_synonym ctx3 = "bignum option \<times> bignum option \<times> bignum option"

text \<open>\<open>f\<close> is \<open>bn_mod_add_words\<close> or \<open>bn_mod_sub_words\<close>: the two functions agree otherwise.\<close>

definition mod_words :: "(limbs \<Rightarrow> limbs \<Rightarrow> limbs \<Rightarrow> limbs) \<Rightarrow> (nat \<Rightarrow> bool) \<Rightarrow> bignum \<Rightarrow> bignum \<Rightarrow> bignum \<Rightarrow>
    ctx3 \<Rightarrow> unit bn_oper" where
  "mod_words f malloc a b m = (\<lambda>(ca, cb, ctmp) r.
    case (bn_resized_from_ctx malloc a (bn_width m) ca, bn_resized_from_ctx malloc b (bn_width m) cb,
          bn_scratch_space_from_ctx malloc (bn_width m) ctmp) of
      (Some a, Some b, Some _) \<Rightarrow>
        and_then (bn_wexpand malloc (bn_width m)) (\<lambda>_ r.
          (Some (), (put_words (f (take (bn_width m) (bn_d a)) (take (bn_width m) (bn_d b)) (bn_words m)) r)
            \<lparr>bn_neg := False\<rparr>)) r
    | _ \<Rightarrow> (None, r))"

definition bn_mod_add_consttime :: "(nat \<Rightarrow> bool) \<Rightarrow> bignum \<Rightarrow> bignum \<Rightarrow> bignum \<Rightarrow> ctx3 \<Rightarrow> unit bn_oper" where
  "bn_mod_add_consttime = mod_words bn_mod_add_words"

definition bn_mod_sub_consttime :: "(nat \<Rightarrow> bool) \<Rightarrow> bignum \<Rightarrow> bignum \<Rightarrow> bignum \<Rightarrow> ctx3 \<Rightarrow> unit bn_oper" where
  "bn_mod_sub_consttime = mod_words bn_mod_sub_words"

text \<open>The \<open>_quick\<close> functions make a context first.\<close>

definition BN_mod_add_quick :: "(nat \<Rightarrow> bool) \<Rightarrow> bignum \<Rightarrow> bignum \<Rightarrow> bignum \<Rightarrow> ctx3 option \<Rightarrow> unit bn_oper" where
  "BN_mod_add_quick malloc a b m ctx r =
    (case ctx of None \<Rightarrow> (None, r) | Some ctx \<Rightarrow> bn_mod_add_consttime malloc a b m ctx r)"

definition BN_mod_sub_quick :: "(nat \<Rightarrow> bool) \<Rightarrow> bignum \<Rightarrow> bignum \<Rightarrow> bignum \<Rightarrow> ctx3 option \<Rightarrow> unit bn_oper" where
  "BN_mod_sub_quick malloc a b m ctx r =
    (case ctx of None \<Rightarrow> (None, r) | Some ctx \<Rightarrow> bn_mod_sub_consttime malloc a b m ctx r)"

definition bn_mod_lshift1_consttime :: "(nat \<Rightarrow> bool) \<Rightarrow> bignum \<Rightarrow> bignum \<Rightarrow> ctx3 \<Rightarrow> unit bn_oper" where
  "bn_mod_lshift1_consttime malloc a m = bn_mod_add_consttime malloc a a m"

text \<open>\<open>ctx i\<close> is what the context gives to the \<open>i\<close>-th doubling.\<close>

fun mod_lshift_loop :: "(nat \<Rightarrow> bool) \<Rightarrow> bignum \<Rightarrow> (nat \<Rightarrow> ctx3) \<Rightarrow> nat \<Rightarrow> nat \<Rightarrow> unit bn_oper" where
  "mod_lshift_loop malloc m ctx i (Suc n) r =
    and_then (\<lambda>r. bn_mod_lshift1_consttime malloc r m (ctx i) r) (\<lambda>_. mod_lshift_loop malloc m ctx (Suc i) n) r"
| "mod_lshift_loop malloc m ctx i 0 r = (Some (), r)"

definition bn_mod_lshift_consttime ::
    "(nat \<Rightarrow> bool) \<Rightarrow> bignum \<Rightarrow> int \<Rightarrow> bignum \<Rightarrow> (nat \<Rightarrow> ctx3) \<Rightarrow> unit bn_oper" where
  "bn_mod_lshift_consttime malloc a n m ctx =
    and_then (BN_copy malloc a) (\<lambda>_. mod_lshift_loop malloc m ctx 0 (nat n))"

definition BN_mod_lshift_quick ::
    "(nat \<Rightarrow> bool) \<Rightarrow> bignum \<Rightarrow> int \<Rightarrow> bignum \<Rightarrow> (nat \<Rightarrow> ctx3) option \<Rightarrow> unit bn_oper" where
  "BN_mod_lshift_quick malloc a n m ctx r =
    (case ctx of None \<Rightarrow> (None, r) | Some ctx \<Rightarrow> bn_mod_lshift_consttime malloc a n m ctx r)"

definition BN_mod_lshift1_quick :: "(nat \<Rightarrow> bool) \<Rightarrow> bignum \<Rightarrow> bignum \<Rightarrow> ctx3 option \<Rightarrow> unit bn_oper" where
  "BN_mod_lshift1_quick malloc a m ctx r =
    (case ctx of None \<Rightarrow> (None, r) | Some ctx \<Rightarrow> bn_mod_lshift1_consttime malloc a m ctx r)"

text \<open>\<open>2 ^ p\<close> modulo \<open>n\<close>, at the end of \<open>montgomery_inv.c\<close>.\<close>

definition bn_mod_exp_base_2_consttime ::
    "(nat \<Rightarrow> bool) \<Rightarrow> nat \<Rightarrow> bignum \<Rightarrow> (nat \<Rightarrow> ctx3) \<Rightarrow> unit bn_oper" where
  "bn_mod_exp_base_2_consttime malloc p n ctx r =
    (let r = BN_zero r; n_bits = BN_num_bits n
     in if n_bits = 1 then (Some (), r)
        else and_then (BN_set_bit malloc (int n_bits - 1))
          (\<lambda>_ r. bn_mod_lshift_consttime malloc r (int p - (int n_bits - 1)) n ctx r) r)"

section \<open>The division is exact\<close>

lemma reduced_length: "bn_add_words r r = (s, c) \<Longrightarrow> length s = length r"
  using bn_add_words_val(1) by blast

lemma double_plus_bit:
  assumes "bn_add_words r r = (s, c)" and "r \<noteq> []" and "b = 0 \<or> b = (1 :: u64)"
  shows "length (s[0 := s ! 0 OR b]) = length r" and
    "bn_val (s[0 := s ! 0 OR b]) + bn_base ^ length r * unat c = 2 * bn_val r + unat b"
proof -
  note v = bn_add_words_val [OF assms(1) refl]
  from v(1) assms(2) obtain x xs where s: "s = x # xs" by (cases s) auto
  have "even (bn_base ^ length r)" using assms(2) by (simp add: bn_base_def)
  moreover have "bn_val s + bn_base ^ length r * unat c = 2 * bn_val r" using v(3) by simp
  ultimately have "even (bn_val s)" by (metis dvd_add_left_iff dvd_mult2 dvd_triv_left)
  then have "\<not> bit (unat x) 0" by (simp add: s bn_base_def bit_0)
  then have "\<not> bit x 0" by (simp add: bit_unsigned_iff)
  then have "x AND b = 0"
    using assms(3) by (auto simp: and_one_eq mod_2_eq_odd bit_0)
  then have "unat (x OR b) = unat x + unat b" by (rule unat_or_disjoint)
  with v s show "bn_val (s[0 := s ! 0 OR b]) + bn_base ^ length r * unat c = 2 * bn_val r + unat b"
    "length (s[0 := s ! 0 OR b]) = length r" by simp_all
qed

lemma div_step:
  fixes M p r b l :: nat
  shows "(p * (2 * r + b) + l) mod M = (p * ((2 * r + b) mod M) + l) mod M" and
    "0 < M \<Longrightarrow> (p * (2 * r + b) + l) div M = p * ((2 * r + b) div M) + (p * ((2 * r + b) mod M) + l) div M"
proof -
  let ?x = "2 * r + b"
  have "?x = M * (?x div M) + ?x mod M" by simp
  then have "p * ?x + l = p * (M * (?x div M) + ?x mod M) + l" by simp
  also have "\<dots> = (p * (?x mod M) + l) + M * (p * (?x div M))" by (simp only: distrib_left mult_ac add_ac)
  finally have e: "p * ?x + l = (p * (?x mod M) + l) + M * (p * (?x div M))" .
  show "(p * ?x + l) mod M = (p * (?x mod M) + l) mod M" unfolding e by (rule mod_mult_self2)
  show "(p * ?x + l) div M = p * (?x div M) + (p * (?x mod M) + l) div M" if "0 < M"
    unfolding e using that by simp
qed

lemma low_bits_Suc: "unat (l :: u64) mod 2 ^ Suc k = 2 ^ k * of_bool (bit l k) + unat l mod 2 ^ k"
  using take_bit_Suc_from_most [of k "unat l"] by (simp add: take_bit_eq_mod bit_unsigned_iff)

lemma or_next_bit:
  assumes "2 ^ Suc k dvd unat q" and "k < 64" and "b = 0 \<or> b = (1 :: u64)"
  shows "unat (q OR push_bit k b) = unat q + 2 ^ k * unat b" and "2 ^ k dvd unat (q OR push_bit k b)"
proof -
  have "even (unat q div 2 ^ k)" using assms(1) by (auto elim!: dvdE)
  then have "\<not> bit (unat q) k" by (simp add: bit_iff_odd)
  then have "\<not> bit q k" by (simp add: bit_unsigned_iff)
  then have "q AND push_bit k b = 0"
    using assms(3) by (auto intro!: bit_word_eqI simp: bit_simps bit_1_iff)
  then have "unat (q OR push_bit k b) = unat q + unat (push_bit k b)" by (rule unat_or_disjoint)
  moreover have "unat b mod 2 ^ (64 - k) = unat b"
  proof -
    have "(2 :: nat) ^ 1 \<le> 2 ^ (64 - k)" using assms(2) by (intro power_increasing) simp_all
    with assms(3) show ?thesis by auto
  qed
  ultimately show v: "unat (q OR push_bit k b) = unat q + 2 ^ k * unat b"
    using assms(2) by (simp add: unat_push_bit)
  have "2 ^ k dvd unat q" using assms(1) by (auto elim!: dvdE)
  then show "2 ^ k dvd unat (q OR push_bit k b)" unfolding v by simp
qed

lemma div_bits_val:
  "k \<le> 64 \<Longrightarrow> length r = length m \<Longrightarrow> bn_val r < bn_val m \<Longrightarrow> 2 ^ k dvd unat q \<Longrightarrow>
    div_bits k m l r q = (r', q') \<Longrightarrow>
    length r' = length m \<and> bn_val r' = (2 ^ k * bn_val r + unat l mod 2 ^ k) mod bn_val m \<and>
    unat q' = unat q + (2 ^ k * bn_val r + unat l mod 2 ^ k) div bn_val m"
proof (induction k m l r q rule: div_bits.induct)
  case (1 k m l r q)
  let ?M = "bn_val m"
  obtain s c where add: "bn_add_words r r = (s, c)" by (cases "bn_add_words r r")
  define b where "b = drop_bit k l AND 1"
  have b: "b = of_bool (bit l k)" unfolding b_def by (simp add: and_one_eq mod_2_eq_odd bit_iff_odd_drop_bit)
  define s' where "s' = s[0 := s ! 0 OR b]"
  obtain t d where red: "bn_reduce_once s' c m = (t, d)" by (cases "bn_reduce_once s' c m")
  have "r \<noteq> []" using 1(3,4) by auto
  from double_plus_bit [OF add this] b have s': "length s' = length m"
    "bn_val s' + bn_base ^ length m * unat c = 2 * bn_val r + of_bool (bit l k)"
    using 1(3) by (auto simp: s'_def)
  have "2 * bn_val r + of_bool (bit l k) < 2 * ?M" using 1(4) by auto
  with bn_reduce_once_val [OF s'(1) _ red] s'(2)
  have t: "length t = length m" "bn_val t = (2 * bn_val r + of_bool (bit l k)) mod ?M"
    "d = mask_of (2 * bn_val r + of_bool (bit l k) < ?M)" by simp_all
  have M: "0 < ?M" using 1(4) by simp
  let ?x = "2 * bn_val r + of_bool (bit l k)"
  have "?x div ?M < 2" using \<open>?x < 2 * ?M\<close> by (rule less_mult_imp_div_less)
  then have bit: "unat (NOT d AND 1) = ?x div ?M"
    using M by (cases "?x < ?M") (auto simp: t(3) mask_of_def less_2_cases_iff div_eq_0_iff)
  have "NOT d AND 1 = 0 \<or> NOT d AND 1 = 1" by (auto simp: t(3) mask_of_def)
  from or_next_bit [OF 1(5) _ this] 1(2) bit
  have q: "unat (q OR push_bit k (NOT d AND 1)) = unat q + 2 ^ k * (?x div ?M)"
    "2 ^ k dvd unat (q OR push_bit k (NOT d AND 1))" by simp_all
  have run: "div_bits k m l t (q OR push_bit k (NOT d AND 1)) = (r', q')"
    using 1(6) by (simp add: add red bn_reduce_once_in_place flip: b_def s'_def)
  have e: "2 ^ Suc k * bn_val r + unat l mod 2 ^ Suc k = 2 ^ k * ?x + unat l mod 2 ^ k"
    unfolding low_bits_Suc by (simp add: distrib_left)
  have tM: "bn_val t < ?M" using t(2) M by simp
  have red': "(t, d) = bn_reduce_once_in_place (s[0 := s ! 0 OR (drop_bit k l AND 1)]) c m"
    using red unfolding s'_def b_def bn_reduce_once_in_place by (rule sym)
  from 1(1) [OF add [symmetric] refl refl red' refl _ t(1) tM q(2) run] 1(2)
  have IH: "length r' = length m" "bn_val r' = (2 ^ k * (?x mod ?M) + unat l mod 2 ^ k) mod ?M"
    "unat q' = unat q + 2 ^ k * (?x div ?M) + (2 ^ k * (?x mod ?M) + unat l mod 2 ^ k) div ?M"
    unfolding t(2) q(1) by simp_all
  show ?case
    unfolding e IH(2,3) div_step(1) [of "2 ^ k" "bn_val r"] div_step(2) [OF M, of "2 ^ k" "bn_val r"]
    using IH(1) by (simp only: add.assoc simp_thms)
qed simp

lemma div_limbs_loop_val:
  "length r = length m \<Longrightarrow> bn_val r < bn_val m \<Longrightarrow> div_limbs_loop m ls r qs = (r', qs') \<Longrightarrow>
    length r' = length m \<and> bn_val r' = (bn_base ^ length ls * bn_val r + bn_val (rev ls)) mod bn_val m \<and>
    length qs' = length ls + length qs \<and>
    bn_val qs' = (bn_base ^ length ls * bn_val r + bn_val (rev ls)) div bn_val m + bn_base ^ length ls * bn_val qs"
proof (induction m ls r qs rule: div_limbs_loop.induct)
  case (1 m l ls r qs)
  let ?M = "bn_val m" and ?B = "bn_base ^ length ls"
  obtain t q where step: "div_bits 64 m l r 0 = (t, q)" by (cases "div_bits 64 m l r 0")
  from div_bits_val [OF _ 1(2,3) _ step] limb_less [of l]
  have t: "length t = length m" "bn_val t = (2 ^ 64 * bn_val r + unat l) mod ?M"
    "unat q = (2 ^ 64 * bn_val r + unat l) div ?M"
    by (simp_all add: mod_less bn_base_def del: limb_less)
  have M: "0 < ?M" using 1(3) by simp
  have "div_limbs_loop m ls t (q # qs) = (r', qs')" using 1(4) step by simp
  from 1(1) [OF step [symmetric] t(1) _ this] M
  have IH: "length r' = length m" "bn_val r' = (?B * bn_val t + bn_val (rev ls)) mod ?M"
    "length qs' = length ls + length (q # qs)"
    "bn_val qs' = (?B * bn_val t + bn_val (rev ls)) div ?M + ?B * bn_val (q # qs)"
    by (simp_all add: t(2))
  have e: "bn_base ^ length (l # ls) * bn_val r + bn_val (rev (l # ls)) =
      ?B * (bn_base * bn_val r + unat l) + bn_val (rev ls)"
    by (simp add: bn_val_append distrib_left)
  have split: "(p * x + v) mod ?M = (p * (x mod ?M) + v) mod ?M"
    "(p * x + v) div ?M = p * (x div ?M) + (p * (x mod ?M) + v) div ?M" for p x v
    using div_step(1) [of p 0 x v ?M] div_step(2) [OF M, of p 0 x v] by simp_all
  show ?case
    using IH t unfolding e split [of ?B "bn_base * bn_val r + unat l"] bn_base_def [symmetric]
    by (simp add: distrib_left)
qed simp

text \<open>A result that the caller asked for has the value of the number that was computed.\<close>

lemma output_copy_val:
  assumes "output_copy malloc same y x = (Some u, x')" and "bn_ok y"
  shows "x' = None \<longleftrightarrow> x = None" and "x' = Some z \<Longrightarrow> bn_abs z = bn_abs y \<and> bn_neg z = bn_neg y \<and> bn_width z = bn_width y \<and> bn_ok z"
proof -
  show "x' = None \<longleftrightarrow> x = None"
    using assms by (auto simp: output_copy_def split: option.splits prod.splits if_splits)
  assume x': "x' = Some z"
  with assms(1) obtain x0 where "x = Some x0" by (auto simp: output_copy_def split: option.splits)
  with assms(1) x' have "(if same then BN_copy malloc y x0 else (Some (), y)) = (Some u, z)"
    by (auto simp: output_copy_def split: if_splits prod.splits)
  from copied_val [OF this assms(2)]
  show "bn_abs z = bn_abs y \<and> bn_neg z = bn_neg y \<and> bn_width z = bn_width y \<and> bn_ok z" by simp
qed

lemma bn_div_consttime_val [bn_spec]:
  assumes run: "bn_div_consttime malloc num divisor q_same r_same cq cr tmp (quo, rem) = (Some u, quo', rem')"
    and ok: "bn_ok num" "bn_ok divisor"
  shows "bn_abs divisor \<noteq> 0 \<and> \<not> bn_neg num \<and> \<not> bn_neg divisor"
    and "(quo' = None \<longleftrightarrow> quo = None) \<and> (rem' = None \<longleftrightarrow> rem = None)"
    and "quo' = Some q \<Longrightarrow> bn_int q = bn_int num div bn_int divisor \<and> bn_width q = bn_width num \<and> bn_ok q"
    and "rem' = Some r \<Longrightarrow> bn_int r = bn_int num mod bn_int divisor \<and> bn_width r = bn_width divisor \<and> bn_ok r"
proof -
  from run show pos: "bn_abs divisor \<noteq> 0 \<and> \<not> bn_neg num \<and> \<not> bn_neg divisor"
    by (auto simp: bn_div_consttime_def is_zero_iff BN_is_negative_def split: if_splits)
  obtain rw qw where loop: "div_limbs_loop (bn_words divisor) (rev (bn_words num)) (replicate (bn_width divisor) 0) [] = (rw, qw)"
    by (cases "div_limbs_loop (bn_words divisor) (rev (bn_words num)) (replicate (bn_width divisor) 0) []")
  from pos div_limbs_loop_val [OF _ _ loop] ok
  have v: "length rw = bn_width divisor" "bn_val rw = bn_abs num mod bn_abs divisor"
    "length qw = bn_width num" "bn_val qw = bn_abs num div bn_abs divisor"
    by (simp_all add: bn_abs_def bn_ok_def)
  from run pos loop obtain q0 r0 where out:
    "output_copy malloc q_same ((put_words qw q0)\<lparr>bn_neg := False\<rparr>) quo = (Some (), quo')"
    "output_copy malloc r_same ((put_words rw r0)\<lparr>bn_neg := False\<rparr>) rem = (Some u, rem')"
    unfolding bn_div_consttime_def
    by (auto simp: is_zero_iff BN_is_negative_def Let_def split: option.splits prod.splits)
  let ?q = "(put_words qw q0)\<lparr>bn_neg := False\<rparr>" and ?r = "(put_words rw r0)\<lparr>bn_neg := False\<rparr>"
  have a: "bn_abs ?q = bn_val qw \<and> bn_neg ?q = False \<and> bn_width ?q = length qw \<and> bn_ok ?q"
    and b: "bn_abs ?r = bn_val rw \<and> bn_neg ?r = False \<and> bn_width ?r = length rw \<and> bn_ok ?r"
    by (rule put_words_val(2) [OF refl])+
  show "(quo' = None \<longleftrightarrow> quo = None) \<and> (rem' = None \<longleftrightarrow> rem = None)"
    using output_copy_val(1) [OF out(1)] output_copy_val(1) [OF out(2)] a b by blast
  show "bn_int q = bn_int num div bn_int divisor \<and> bn_width q = bn_width num \<and> bn_ok q" if "quo' = Some q"
    using output_copy_val(2) [OF out(1) _ that] a v pos by (simp add: bn_int_def zdiv_int)
  show "bn_int r = bn_int num mod bn_int divisor \<and> bn_width r = bn_width divisor \<and> bn_ok r" if "rem' = Some r"
    using output_copy_val(2) [OF out(2) _ that] b v pos by (simp add: bn_int_def zmod_int)
qed

section \<open>Reduced numbers stay reduced\<close>

lemma take_words:
  assumes "bn_ok bn" and "n \<le> bn_width bn" and "bn_abs bn < bn_base ^ n"
  shows "length (take n (bn_d bn)) = n" and "bn_val (take n (bn_d bn)) = bn_abs bn"
proof -
  have n: "n \<le> length (bn_words bn)" using assms(1,2) by (simp add: bn_ok_def)
  then have "bn_val (drop n (bn_words bn)) = 0"
    using bn_words_split [OF n] assms(3) by (simp only: bn_abs_def)
  with words_split [OF assms(1,2)] show "bn_val (take n (bn_d bn)) = bn_abs bn" by simp
  show "length (take n (bn_d bn)) = n" using assms(1,2) by (simp add: bn_ok_def)
qed

lemma bn_resize_words_val [bn_spec]:
  assumes "bn_resize_words malloc n bn = (Some u, bn')" and "bn_ok bn"
  shows "bn_width bn' = n" and "bn_abs bn' = bn_abs bn" and "bn_neg bn' = bn_neg bn" and "bn_ok bn'"
    and "bn_abs bn < bn_base ^ n"
proof -
  have "bn_width bn' = n \<and> bn_abs bn' = bn_abs bn \<and> bn_neg bn' = bn_neg bn \<and> bn_ok bn' \<and> bn_abs bn < bn_base ^ n"
  proof (cases "bn_width bn \<le> n")
    case True
    with assms(1) obtain b where b: "bn_wexpand malloc n bn = (Some (), b)"
      "bn' = put_words (bn_words b @ replicate (n - bn_width b) 0) b"
      unfolding bn_resize_words_def by (auto dest!: and_then_eq_SomeD)
    have "bn_abs bn < bn_base ^ n"
      by (rule less_le_trans [OF bn_abs_less]) (use True in \<open>simp add: power_increasing\<close>)
    with bn_wexpand_Some [OF b(1) assms(2)] put_words_val(1) [OF b(2)] True assms(2)
    show ?thesis by (simp add: bn_val_append bn_abs_def [of bn] bn_ok_def [of bn])
  next
    case False
    with assms(1) have fits: "bn_fits_in_words n bn" and bn': "bn' = bn\<lparr>bn_width := n\<rparr>"
      by (auto simp: bn_resize_words_def split: if_splits)
    from fits have less: "bn_abs bn < bn_base ^ n" by (simp add: fits_in_words_iff)
    with take_words [OF assms(2) _ less] False show ?thesis
      using assms(2) by (simp add: bn' bn_abs_def [of "bn\<lparr>bn_width := n\<rparr>"] bn_ok_def)
  qed
  then show "bn_width bn' = n" "bn_abs bn' = bn_abs bn" "bn_neg bn' = bn_neg bn" "bn_ok bn'"
    "bn_abs bn < bn_base ^ n" by simp_all
qed

lemma BN_copy_val [bn_spec]:
  assumes "BN_copy malloc src dest = (Some u, r)" and "bn_ok src"
  shows "bn_abs r = bn_abs src" and "bn_neg r = bn_neg src" and "bn_width r = bn_width src" and "bn_ok r"
    and "bn_int r = bn_int src"
  using copied_val [of True malloc src dest u r] assms by (simp_all add: bn_int_def)

lemma bn_resized_from_ctx_val:
  assumes "bn_resized_from_ctx malloc a n c = Some a'" and ok: "bn_ok a" and less: "bn_abs a < bn_base ^ n"
  shows "length (take n (bn_d a')) = n" and "bn_val (take n (bn_d a')) = bn_abs a"
proof -
  have "bn_ok a' \<and> n \<le> bn_width a' \<and> bn_abs a' = bn_abs a"
  proof (cases "n \<le> bn_width a")
    case True
    with assms show ?thesis by (auto simp: bn_resized_from_ctx_def)
  next
    case False
    with assms(1) obtain r1 r2 where r: "BN_copy malloc a r1 = (Some (), r2)" "bn_resize_words malloc n r2 = (Some (), a')"
      by (auto simp: bn_resized_from_ctx_def split: option.splits prod.splits dest!: and_then_eq_SomeD)
    from bn_resize_words_val [OF r(2)] BN_copy_val [OF r(1) ok] show ?thesis by simp
  qed
  with less show "length (take n (bn_d a')) = n" "bn_val (take n (bn_d a')) = bn_abs a"
    using take_words [of a' n] by simp_all
qed

lemma mod_words_val:
  assumes run: "mod_words f malloc a b m ctx r = (Some u, r')"
    and ok: "bn_ok a" "bn_ok b" "bn_ok m" and less: "bn_abs a < bn_abs m" "bn_abs b < bn_abs m"
  obtains x y where "length x = length (bn_words m)" "length y = length (bn_words m)"
    "bn_val x = bn_abs a" "bn_val y = bn_abs b"
    "bn_abs r' = bn_val (f x y (bn_words m))" "\<not> bn_neg r'" "bn_width r' = length (f x y (bn_words m))" "bn_ok r'"
proof -
  obtain ca cb ct where ctx: "ctx = (ca, cb, ct)" by (cases ctx) auto
  from run obtain a' b' r1 where r: "bn_resized_from_ctx malloc a (bn_width m) ca = Some a'"
    "bn_resized_from_ctx malloc b (bn_width m) cb = Some b'"
    "r' = (put_words (f (take (bn_width m) (bn_d a')) (take (bn_width m) (bn_d b')) (bn_words m)) r1)\<lparr>bn_neg := False\<rparr>"
    unfolding ctx mod_words_def by (auto split: option.splits dest!: and_then_eq_SomeD)
  have "bn_abs a < bn_base ^ bn_width m" "bn_abs b < bn_base ^ bn_width m"
    using less bn_abs_less [of m] by simp_all
  from bn_resized_from_ctx_val [OF r(1) ok(1) this(1)] bn_resized_from_ctx_val [OF r(2) ok(2) this(2)]
    put_words_val(2) [OF r(3)] ok(3)
  show thesis by (intro that [of "take (bn_width m) (bn_d a')" "take (bn_width m) (bn_d b')"]) (simp_all add: bn_ok_def)
qed

lemma bn_mod_add_consttime_val [bn_spec]:
  assumes run: "bn_mod_add_consttime malloc a b m ctx r = (Some u, r')"
    and ok: "bn_ok a" "bn_ok b" "bn_ok m" and less: "bn_abs a < bn_abs m" "bn_abs b < bn_abs m"
  shows "bn_abs r' = (bn_abs a + bn_abs b) mod bn_abs m" and "\<not> bn_neg r'" and "bn_width r' = bn_width m" and "bn_ok r'"
proof -
  from run have "mod_words bn_mod_add_words malloc a b m ctx r = (Some u, r')" by (simp add: bn_mod_add_consttime_def)
  from mod_words_val [OF this ok less] obtain x y where
    "length x = length (bn_words m)" "length y = length (bn_words m)" "bn_val x = bn_abs a" "bn_val y = bn_abs b"
    "bn_abs r' = bn_val (bn_mod_add_words x y (bn_words m))" "\<not> bn_neg r'"
    "bn_width r' = length (bn_mod_add_words x y (bn_words m))" "bn_ok r'" by blast
  with bn_mod_add_words_val [of x "bn_words m" y] less ok(3)
  show "bn_abs r' = (bn_abs a + bn_abs b) mod bn_abs m" "\<not> bn_neg r'" "bn_width r' = bn_width m" "bn_ok r'"
    by (simp_all add: bn_abs_def [of m] bn_ok_def [of m])
qed

lemma bn_mod_sub_consttime_val [bn_spec]:
  assumes run: "bn_mod_sub_consttime malloc a b m ctx r = (Some u, r')"
    and ok: "bn_ok a" "bn_ok b" "bn_ok m" and less: "bn_abs a < bn_abs m" "bn_abs b < bn_abs m"
  shows "bn_int r' = (int (bn_abs a) - int (bn_abs b)) mod int (bn_abs m)" and "bn_width r' = bn_width m" and "bn_ok r'"
proof -
  from run have "mod_words bn_mod_sub_words malloc a b m ctx r = (Some u, r')" by (simp add: bn_mod_sub_consttime_def)
  from mod_words_val [OF this ok less] obtain x y where
    "length x = length (bn_words m)" "length y = length (bn_words m)" "bn_val x = bn_abs a" "bn_val y = bn_abs b"
    "bn_abs r' = bn_val (bn_mod_sub_words x y (bn_words m))" "\<not> bn_neg r'"
    "bn_width r' = length (bn_mod_sub_words x y (bn_words m))" "bn_ok r'" by blast
  with bn_mod_sub_words_val [of x "bn_words m" y] less ok(3)
  show "bn_int r' = (int (bn_abs a) - int (bn_abs b)) mod int (bn_abs m)" "bn_width r' = bn_width m" "bn_ok r'"
    by (simp_all add: bn_abs_def [of m] bn_ok_def [of m] bn_int_def [of r'])
qed

lemma mod_lshift_loop_val:
  "mod_lshift_loop malloc m ctx i n r = (Some u, r') \<Longrightarrow> bn_ok m \<Longrightarrow> bn_ok r \<Longrightarrow> bn_abs r < bn_abs m \<Longrightarrow> \<not> bn_neg r \<Longrightarrow>
    bn_abs r' = 2 ^ n * bn_abs r mod bn_abs m \<and> \<not> bn_neg r' \<and> bn_ok r' \<and> (0 < n \<longrightarrow> bn_width r' = bn_width m)"
proof (induction n arbitrary: i r)
  case (Suc n)
  from Suc.prems(1) obtain r1 where r1: "bn_mod_add_consttime malloc r r m (ctx i) r = (Some (), r1)"
    "mod_lshift_loop malloc m ctx (Suc i) n r1 = (Some u, r')"
    by (auto simp: bn_mod_lshift1_consttime_def dest!: and_then_eq_SomeD)
  note v = bn_mod_add_consttime_val [OF r1(1) Suc.prems(3,3,2,4,4)]
  have "bn_abs r1 < bn_abs m" using v(1) Suc.prems(4) by simp
  note IH = Suc.IH [OF r1(2) Suc.prems(2) v(4) this v(2)]
  have "2 ^ n * ((bn_abs r + bn_abs r) mod bn_abs m) mod bn_abs m = 2 ^ Suc n * bn_abs r mod bn_abs m"
    unfolding mod_mult_right_eq by (simp add: mult_2 distrib_left distrib_right)
  moreover have "bn_width r' = bn_width m"
    using IH r1(2) v(3) by (cases n) simp_all
  ultimately show ?case using IH by (simp add: v(1))
qed simp

lemma bn_mod_lshift_consttime_val [bn_spec]:
  assumes run: "bn_mod_lshift_consttime malloc a n m ctx r = (Some u, r')"
    and ok: "bn_ok a" "bn_ok m" and less: "bn_abs a < bn_abs m" "\<not> bn_neg a"
  shows "bn_abs r' = 2 ^ nat n * bn_abs a mod bn_abs m" and "\<not> bn_neg r'" and "bn_ok r'"
    and "0 < n \<Longrightarrow> bn_width r' = bn_width m"
proof -
  from run obtain r1 where r1: "BN_copy malloc a r = (Some (), r1)" "mod_lshift_loop malloc m ctx 0 (nat n) r1 = (Some u, r')"
    by (auto simp: bn_mod_lshift_consttime_def dest!: and_then_eq_SomeD)
  note c = BN_copy_val [OF r1(1) ok(1)]
  from mod_lshift_loop_val [OF r1(2) ok(2) c(4)] c less
  show "bn_abs r' = 2 ^ nat n * bn_abs a mod bn_abs m" "\<not> bn_neg r'" "bn_ok r'"
    "0 < n \<Longrightarrow> bn_width r' = bn_width m" by simp_all
qed

lemma bn_mod_exp_base_2_consttime_val [bn_spec]:
  assumes run: "bn_mod_exp_base_2_consttime malloc p n ctx r = (Some u, r')"
    and ok: "bn_ok n" "bn_ok r" and odd: "odd (bn_abs n)" and p: "BN_num_bits n < p"
  shows "bn_abs r' = 2 ^ p mod bn_abs n" and "\<not> bn_neg r'" and "bn_ok r'"
proof -
  let ?k = "BN_num_bits n"
  from odd have "bn_abs n \<noteq> 0" by (intro notI) simp
  with BN_num_bits_val [OF ok(1)] have k: "bn_abs n < 2 ^ ?k" "0 < ?k" "2 ^ (?k - 1) \<le> bn_abs n" by simp_all
  have zero: "bn_abs (BN_zero r) = 0" "\<not> bn_neg (BN_zero r)" "bn_ok (BN_zero r)"
    by (simp_all add: BN_zero_def bn_abs_def bn_ok_def)
  have "bn_abs r' = 2 ^ p mod bn_abs n \<and> \<not> bn_neg r' \<and> bn_ok r'"
  proof (cases "?k = 1")
    case True
    with k odd have "bn_abs n = 1" by (cases "bn_abs n") auto
    moreover have "r' = BN_zero r" using run True by (simp add: bn_mod_exp_base_2_consttime_def Let_def)
    ultimately show ?thesis using zero by simp
  next
    case False
    with k have k1: "1 < ?k" by simp
    from run False obtain r1 where r1: "BN_set_bit malloc (int ?k - 1) (BN_zero r) = (Some (), r1)"
      "bn_mod_lshift_consttime malloc r1 (int p - (int ?k - 1)) n ctx r1 = (Some u, r')"
      by (auto simp: bn_mod_exp_base_2_consttime_def Let_def dest!: and_then_eq_SomeD)
    have "nat (int ?k - 1) = ?k - 1" using k by simp
    with BN_set_bit_val [OF r1(1) zero(3)] zero have s: "bn_abs r1 = 2 ^ (?k - 1)" "\<not> bn_neg r1" "bn_ok r1"
      by (simp_all add: set_bit_eq_or push_bit_eq_mult)
    have "even ((2 :: nat) ^ (?k - 1))" using k1 by simp
    with odd k(3) have "bn_abs r1 < bn_abs n" unfolding s(1) by (metis le_neq_implies_less)
    from bn_mod_lshift_consttime_val [OF r1(2) s(3) ok(1) this s(2)]
    have "bn_abs r' = 2 ^ (p - (?k - 1)) * 2 ^ (?k - 1) mod bn_abs n" "\<not> bn_neg r'" "bn_ok r'"
      using p k1 by (simp_all add: s(1) nat_diff_distrib)
    moreover have "2 ^ (p - (?k - 1)) * 2 ^ (?k - 1) = (2 :: nat) ^ p" using p by (simp flip: power_add)
    ultimately show ?thesis by simp
  qed
  then show "bn_abs r' = 2 ^ p mod bn_abs n" "\<not> bn_neg r'" "bn_ok r'" by simp_all
qed

end
