(* ===== verification/Bn_Mont.thy ===== *)
theory Bn_Mont
  imports Bn_Modular
begin

text \<open>
  Montgomery arithmetic: \<open>fipsmodule/bn/montgomery_inv.c\<close> and \<open>montgomery.c\<close>, in the build
  without assembly.  A context holds the modulus, \<open>R ^ 2\<close> modulo it, and \<open>n0\<close>; \<open>R\<close> is
  \<open>2 ^ (64 * width)\<close>.  The second limb of \<open>n0\<close> is zero where limbs have 64 bits.
\<close>

section \<open>The operations\<close>

subsection \<open>The inverse of an odd limb\<close>

definition inv_step :: "u64 \<Rightarrow> u64 \<times> u64 \<Rightarrow> u64 \<times> u64" where
  "inv_step beta = (\<lambda>(u, v).
    let u_is_odd = 0 - (u AND 1);
        beta_if_u_is_odd = beta AND u_is_odd;
        u = drop_bit 1 (u XOR beta_if_u_is_odd) + (u AND beta_if_u_is_odd);
        alpha_if_u_is_odd = push_bit 63 1 AND u_is_odd
    in (u, drop_bit 1 v + alpha_if_u_is_odd))"

definition bn_neg_inv_mod_r_u64 :: "u64 \<Rightarrow> u64" where
  "bn_neg_inv_mod_r_u64 n = snd ((inv_step n ^^ 64) (1, 0))"

definition bn_mont_n0 :: "bignum \<Rightarrow> u64" where
  "bn_mont_n0 n = bn_neg_inv_mod_r_u64 (bn_d n ! 0)"

subsection \<open>The context\<close>

record mont_ctx =
  mont_RR :: bignum
  mont_N :: bignum
  mont_n0 :: u64

definition BN_MONT_CTX_new :: "bool \<Rightarrow> mont_ctx option" where
  "BN_MONT_CTX_new malloc_ok =
    (if malloc_ok then Some \<lparr>mont_RR = BN_init, mont_N = BN_init, mont_n0 = 0\<rparr> else None)"

definition BN_MONT_CTX_copy :: "(nat \<Rightarrow> bool) \<Rightarrow> mont_ctx \<Rightarrow> (mont_ctx, unit) oper" where
  "BN_MONT_CTX_copy malloc from to =
    (case BN_copy malloc (mont_RR from) (mont_RR to) of
       (None, rr) \<Rightarrow> (None, to\<lparr>mont_RR := rr\<rparr>)
     | (Some _, rr) \<Rightarrow>
         (case BN_copy malloc (mont_N from) (mont_N to) of
            (None, n) \<Rightarrow> (None, to\<lparr>mont_RR := rr, mont_N := n\<rparr>)
          | (Some _, n) \<Rightarrow> (Some (), to\<lparr>mont_RR := rr, mont_N := n, mont_n0 := mont_n0 from\<rparr>)))"

definition bn_mont_ctx_set_N_and_n0 :: "(nat \<Rightarrow> bool) \<Rightarrow> bignum \<Rightarrow> (mont_ctx, unit) oper" where
  "bn_mont_ctx_set_N_and_n0 malloc modulus mont =
    (if BN_is_zero modulus \<or> \<not> BN_is_odd modulus \<or> BN_is_negative modulus then (None, mont)
     else case BN_copy malloc modulus (mont_N mont) of
       (None, n) \<Rightarrow> (None, mont\<lparr>mont_N := n\<rparr>)
     | (Some _, n) \<Rightarrow>
         let n = bn_set_minimal_width n in (Some (), mont\<lparr>mont_N := n, mont_n0 := bn_mont_n0 n\<rparr>))"

definition BN_MONT_CTX_new_consttime ::
    "(nat \<Rightarrow> bool) \<Rightarrow> bool \<Rightarrow> bignum \<Rightarrow> (nat \<Rightarrow> ctx3) \<Rightarrow> mont_ctx option" where
  "BN_MONT_CTX_new_consttime malloc new_ok modulus ctx =
    (case BN_MONT_CTX_new new_ok of
       None \<Rightarrow> None
     | Some mont \<Rightarrow>
         (case bn_mont_ctx_set_N_and_n0 malloc modulus mont of
            (None, _) \<Rightarrow> None
          | (Some _, mont) \<Rightarrow>
              let lgBigR = bn_width (mont_N mont) * 64
              in case and_then (bn_mod_exp_base_2_consttime malloc (lgBigR * 2) (mont_N mont) ctx)
                   (\<lambda>_. bn_resize_words malloc (bn_width (mont_N mont))) (mont_RR mont) of
                (None, _) \<Rightarrow> None
              | (Some _, rr) \<Rightarrow> Some (mont\<lparr>mont_RR := rr\<rparr>)))"

subsection \<open>Reduction\<close>

text \<open>\<open>i\<close> is the number of the round, of which \<open>k\<close> are left; \<open>a\<close> is the array of twice the length.\<close>

fun mont_rounds :: "u64 \<Rightarrow> limbs \<Rightarrow> nat \<Rightarrow> nat \<Rightarrow> u64 \<Rightarrow> limbs \<Rightarrow> limbs \<times> u64" where
  "mont_rounds n0 n i (Suc k) carry a =
    (let num_n = length n; top = a ! (i + num_n);
         (m, v) = bn_mul_add_words (take num_n (drop i a)) n (a ! i * n0);
         v = v + (carry + top);
         carry = carry OR of_bool (v \<noteq> top);
         carry = carry AND of_bool (v \<le> top)
     in mont_rounds n0 n (Suc i) k carry (take i a @ m @ v # drop (i + num_n + 1) a))"
| "mont_rounds n0 n i 0 carry a = (a, carry)"

definition bn_from_montgomery_in_place :: "mont_ctx \<Rightarrow> nat \<Rightarrow> limbs \<Rightarrow> limbs option" where
  "bn_from_montgomery_in_place mont num_r a =
    (let n = bn_words (mont_N mont); num_n = bn_width (mont_N mont)
     in if num_r \<noteq> num_n \<or> length a \<noteq> 2 * num_n then None
        else case mont_rounds (mont_n0 mont) n 0 num_n 0 a of
          (a, carry) \<Rightarrow> Some (fst (bn_reduce_once (drop num_n a) carry n)))"

definition BN_from_montgomery_word :: "(nat \<Rightarrow> bool) \<Rightarrow> mont_ctx \<Rightarrow> bignum \<Rightarrow> unit bn_oper" where
  "BN_from_montgomery_word malloc mont r ret =
    (if bn_neg r then (None, ret)
     else let n = mont_N mont
     in if bn_width n = 0 then (Some (), ret\<lparr>bn_width := 0\<rparr>)
        else case bn_resize_words malloc (2 * bn_width n) r of
          (None, _) \<Rightarrow> (None, ret)
        | (Some _, r) \<Rightarrow>
            and_then (bn_wexpand malloc (bn_width n)) (\<lambda>_ ret.
              let ret = ret\<lparr>bn_width := bn_width n, bn_neg := False\<rparr>
              in case bn_from_montgomery_in_place mont (bn_width ret) (bn_words r) of
                   None \<Rightarrow> (None, ret) | Some ws \<Rightarrow> (Some (), set_d ws ret)) ret)"

definition BN_from_montgomery :: "(nat \<Rightarrow> bool) \<Rightarrow> mont_ctx \<Rightarrow> bignum \<Rightarrow> bignum option \<Rightarrow> unit bn_oper" where
  "BN_from_montgomery malloc mont a t r =
    (case t of
       None \<Rightarrow> (None, r)
     | Some t \<Rightarrow> (case BN_copy malloc a t of
         (None, _) \<Rightarrow> (None, r) | (Some _, t) \<Rightarrow> BN_from_montgomery_word malloc mont t r))"

definition bn_one_to_montgomery :: "(nat \<Rightarrow> bool) \<Rightarrow> mont_ctx \<Rightarrow> bignum option \<Rightarrow> unit bn_oper" where
  "bn_one_to_montgomery malloc mont t =
    (let n = mont_N mont
     in if 0 < bn_width n \<and> drop_bit 63 (bn_d n ! (bn_width n - 1)) \<noteq> 0 then
          and_then (bn_wexpand malloc (bn_width n)) (\<lambda>_ r.
            (Some (), (put_words ((0 - bn_d n ! 0) # map NOT (drop 1 (bn_words n))) r)\<lparr>bn_neg := False\<rparr>))
        else BN_from_montgomery malloc mont (mont_RR mont) t)"

text \<open>
  \<open>ab_same\<close> tells whether \<open>a\<close> and \<open>b\<close> are the same object; the temporaries are what the
  context gives to this function (\<open>tmp\<close>) and to the product (\<open>t\<close>).
\<close>

definition bn_mod_mul_montgomery_fallback :: "(nat \<Rightarrow> bool) \<Rightarrow> mont_ctx \<Rightarrow> bignum \<Rightarrow> bignum \<Rightarrow> bool \<Rightarrow>
    bignum option \<Rightarrow> bignum option \<Rightarrow> unit bn_oper" where
  "bn_mod_mul_montgomery_fallback malloc mont a b ab_same tmp t r =
    (case tmp of
       None \<Rightarrow> (None, r)
     | Some tmp \<Rightarrow>
         (case (if ab_same then bn_sqr_consttime malloc a False None t tmp
                else bn_mul_consttime malloc a b False None t tmp) of
            (None, _) \<Rightarrow> (None, r) | (Some _, tmp) \<Rightarrow> BN_from_montgomery_word malloc mont tmp r))"

definition BN_mod_mul_montgomery :: "(nat \<Rightarrow> bool) \<Rightarrow> mont_ctx \<Rightarrow> bignum \<Rightarrow> bignum \<Rightarrow> bool \<Rightarrow>
    bignum option \<Rightarrow> bignum option \<Rightarrow> unit bn_oper" where
  "BN_mod_mul_montgomery malloc mont a b ab_same tmp t r =
    (if bn_neg a \<or> bn_neg b then (None, r)
     else bn_mod_mul_montgomery_fallback malloc mont a b ab_same tmp t r)"

definition BN_to_montgomery :: "(nat \<Rightarrow> bool) \<Rightarrow> mont_ctx \<Rightarrow> bignum \<Rightarrow> bignum option \<Rightarrow> bignum option \<Rightarrow> unit bn_oper" where
  "BN_to_montgomery malloc mont a = BN_mod_mul_montgomery malloc mont a (mont_RR mont) False"

definition bn_less_than_montgomery_R :: "mont_ctx \<Rightarrow> bignum \<Rightarrow> bool" where
  "bn_less_than_montgomery_R mont bn \<longleftrightarrow> \<not> BN_is_negative bn \<and> bn_fits_in_words (bn_width (mont_N mont)) bn"

text \<open>The functions on small arrays call \<open>abort\<close> where these have no value.\<close>

definition bn_from_montgomery_small :: "mont_ctx \<Rightarrow> limbs \<Rightarrow> limbs option" where
  "bn_from_montgomery_small mont a =
    (if length a \<noteq> bn_width (mont_N mont) \<or> BN_SMALL_MAX_WORDS < length a then None
     else bn_from_montgomery_in_place mont (length a) (a @ replicate (length a) 0))"

definition bn_mod_mul_montgomery_small :: "mont_ctx \<Rightarrow> limbs \<Rightarrow> limbs \<Rightarrow> bool \<Rightarrow> limbs option" where
  "bn_mod_mul_montgomery_small mont a b ab_same =
    (let num = length a
     in if num \<noteq> bn_width (mont_N mont) \<or> BN_SMALL_MAX_WORDS < num then None
        else case (if ab_same then bn_sqr_small (2 * num) a else bn_mul_small (2 * num) a b) of
          None \<Rightarrow> None | Some tmp \<Rightarrow> bn_from_montgomery_in_place mont num tmp)"

definition bn_to_montgomery_small :: "mont_ctx \<Rightarrow> limbs \<Rightarrow> limbs option" where
  "bn_to_montgomery_small mont a =
    bn_mod_mul_montgomery_small mont a (take (length a) (bn_d (mont_RR mont))) False"

section \<open>The inverse\<close>

lemma nat_plus_and_or: "(a AND b) + (a OR b) = a + (b :: nat)"
proof -
  have "int ((a AND b) + (a OR b)) = int (a + b)"
    by (simp add: of_nat_and_eq of_nat_or_eq plus_and_or)
  then show ?thesis by (simp only: of_nat_eq_iff)
qed

lemma average: "unat (drop_bit 1 (x XOR y) + (x AND y)) = (unat x + unat (y :: u64)) div 2"
proof -
  have "unat x + unat y = (unat x AND unat y) + (unat x OR unat y)" by (simp add: nat_plus_and_or)
  also have "unat x OR unat y = (unat x XOR unat y) + (unat x AND unat y)"
  proof -
    have "(unat x XOR unat y) AND (unat x AND unat y) = 0"
      by (rule bit_eqI) (auto simp: bit_simps)
    then have "(unat x XOR unat y) + (unat x AND unat y) = (unat x XOR unat y) OR (unat x AND unat y)"
      by (rule disjunctive_add_eq_or)
    also have "\<dots> = unat x OR unat y" by (rule bit_eqI) (auto simp: bit_simps)
    finally show ?thesis by simp
  qed
  finally have sum: "(unat x + unat y) div 2 = (unat x XOR unat y) div 2 + (unat x AND unat y)" by simp
  moreover have "(unat x + unat y) div 2 < 2 ^ 64"
    using unsigned_less [of x, where 'a = nat] unsigned_less [of y, where 'a = nat] by simp
  moreover have "unat (drop_bit 1 (x XOR y)) = (unat x XOR unat y) div 2"
    by (simp only: unat_drop_bit unsigned_xor_eq power_one_right)
  moreover have "unat (x AND y) = unat x AND unat y" by (rule unsigned_and_eq)
  ultimately show ?thesis by (simp add: unat_word_ariths)
qed

lemma inv_step_val:
  assumes beta: "odd (unat beta)" and u: "unat u \<le> unat beta"
    and inv: "2 * k + unat v * unat beta = unat u * 2 ^ 64"
    and step: "inv_step beta (u, v) = (u', v')"
  shows "unat u' \<le> unat beta" and "k + unat v' * unat beta = unat u' * 2 ^ 64"
proof -
  let ?odd = "bit u 0"
  have odd: "odd (unat u) \<longleftrightarrow> ?odd" by (simp add: bit_unsigned_iff flip: bit_0)
  have m: "0 - (u AND 1) = mask_of ?odd" by (simp add: and_one_eq mod_2_eq_odd bit_0 mask_of_def)
  have step': "u' = drop_bit 1 (u XOR (beta AND mask_of ?odd)) + (u AND (beta AND mask_of ?odd))"
    "v' = drop_bit 1 v + (push_bit 63 1 AND mask_of ?odd)"
    using step by (simp_all only: inv_step_def Let_def prod.case prod.inject m)
  have "even (unat u * 2 ^ 64)" by simp
  with inv have "even (unat v * unat beta)" by (metis dvd_add_right_iff dvd_triv_left)
  with beta have "even (unat v)" by simp
  then obtain w where w: "unat v = 2 * w" by (elim evenE)
  then have w63: "w < 2 ^ 63" using unsigned_less [of v, where 'a = nat] by simp
  have half: "unat (drop_bit 1 v) = w" by (simp add: unat_drop_bit w)
  show "unat u' \<le> unat beta" "k + unat v' * unat beta = unat u' * 2 ^ 64"
  proof -
    have "unat u' \<le> unat beta \<and> k + unat v' * unat beta = unat u' * 2 ^ 64"
    proof (cases ?odd)
      case True
      then have "u' = drop_bit 1 (u XOR beta) + (u AND beta)" "v' = drop_bit 1 v + push_bit 63 1"
        using step' by (simp_all only: mask_of_def if_True and.right_neutral)
      then have u': "unat u' = (unat u + unat beta) div 2" and "unat v' = w + 2 ^ 63"
        using w63 half by (simp_all only: average) (simp add: unat_word_ariths)
      moreover obtain s where s: "unat u + unat beta = 2 * s" using True odd beta by (metis evenE odd_even_add)
      ultimately have v: "unat u' = s" "unat v' = w + 2 ^ 63" by simp_all
      have "2 * (k + unat v' * unat beta) = 2 * k + unat v * unat beta + 2 ^ 64 * unat beta"
        unfolding v w by (simp add: algebra_simps)
      also have "\<dots> = (unat u + unat beta) * 2 ^ 64" unfolding inv by (simp add: algebra_simps)
      also have "\<dots> = 2 * (unat u' * 2 ^ 64)" unfolding s v by simp
      finally show ?thesis using u s v by simp
    next
      case False
      then have "u' = drop_bit 1 (u XOR 0) + (u AND 0)" "v' = drop_bit 1 v"
        using step' False by (simp_all add: mask_of_def)
      then have u': "unat u' = unat u div 2" and "unat v' = w" using average [of u 0] half by simp_all
      moreover obtain s where s: "unat u = 2 * s" using False odd by (auto elim: evenE)
      ultimately have v: "unat u' = s" "unat v' = w" by simp_all
      from inv have "2 * (k + unat v' * unat beta) = 2 * (unat u' * 2 ^ 64)" unfolding v w s by simp
      then show ?thesis using u s v by simp
    qed
    then show "unat u' \<le> unat beta" "k + unat v' * unat beta = unat u' * 2 ^ 64" by simp_all
  qed
qed

text \<open>The invariant that the code asserts in every round.\<close>

lemma inv_rounds:
  assumes "odd (unat beta)"
  shows "i \<le> 64 \<Longrightarrow> (inv_step beta ^^ i) (1, 0) = (u, v) \<Longrightarrow>
    unat u \<le> unat beta \<and> 2 ^ (64 - i) + unat v * unat beta = unat u * 2 ^ 64"
proof (induction i arbitrary: u v)
  case 0
  then show ?case using assms by (cases "unat beta") auto
next
  case (Suc i)
  obtain u0 v0 where s: "(inv_step beta ^^ i) (1, 0) = (u0, v0)" by (cases "(inv_step beta ^^ i) (1, 0)")
  then have step: "inv_step beta (u0, v0) = (u, v)" using Suc.prems(2) by simp
  have "64 - i = Suc (64 - Suc i)" using Suc.prems(1) by simp
  with Suc.IH [OF _ s] Suc.prems(1) have "unat u0 \<le> unat beta"
    "2 * 2 ^ (64 - Suc i) + unat v0 * unat beta = unat u0 * 2 ^ 64" by simp_all
  from inv_step_val [OF assms this step] show ?case by simp
qed

lemma neg_inv_val [bn_spec]:
  assumes "odd (unat n)"
  shows "(unat (bn_neg_inv_mod_r_u64 n) * unat n + 1) mod bn_base = 0"
proof -
  obtain u v where "(inv_step n ^^ 64) (1, 0) = (u, v)" by (cases "(inv_step n ^^ 64) (1, 0)")
  with inv_rounds [OF assms _ this] have "unat (bn_neg_inv_mod_r_u64 n) * unat n + 1 = unat u * bn_base"
    by (simp add: bn_neg_inv_mod_r_u64_def bn_base_def)
  then show ?thesis by simp
qed

section \<open>The reduction\<close>

text \<open>The carry of \<open>v + carry + a[i + num_n]\<close>.\<close>

lemma round_carry:
  fixes v c top :: u64
  assumes "c = 0 \<or> c = (1 :: u64)"
  defines "w \<equiv> v + (c + top)"
  defines "k \<equiv> (c OR of_bool (w \<noteq> top)) AND of_bool (w \<le> top)"
  shows "k = 0 \<or> k = 1" and "unat w + bn_base * unat k = unat v + unat c + unat top"
proof -
  have le: "unat v < bn_base" "unat top < bn_base" "unat c \<le> 1" using assms(1) by auto
  have w: "unat w = (unat v + unat c + unat top) mod bn_base"
    unfolding w_def bn_base_def by (simp add: unat_word_ariths mod_simps add.assoc)
  have "(k = 0 \<or> k = 1) \<and> unat w + bn_base * unat k = unat v + unat c + unat top"
  proof (cases "unat v + unat c + unat top < bn_base")
    case True
    then have uw: "unat w = unat v + unat c + unat top" using w by simp
    have "k = 0"
    proof (cases "w = top")
      case True
      then have "c = 0" using uw by (simp add: unat_eq_0)
      with True show ?thesis by (simp add: k_def)
    next
      case False
      then have "\<not> w \<le> top" using uw by (auto simp: word_le_nat_alt word_unat_eq_iff)
      then show ?thesis by (simp add: k_def)
    qed
    with uw show ?thesis by simp
  next
    case False
    moreover have "unat v + unat c + unat top < 2 * bn_base" using le by linarith
    ultimately have uw: "unat w + bn_base = unat v + unat c + unat top"
      using w by (simp add: le_mod_geq)
    then have "unat w \<le> unat top" using le by linarith
    then have "w \<le> top" by (simp add: word_le_nat_alt)
    moreover have "c = 1" if "w = top"
    proof -
      have "unat v + unat c = bn_base" using uw that by simp
      with le have "unat c = 1" by linarith
      then show ?thesis by (simp add: word_unat_eq_iff)
    qed
    ultimately have "k = 1" using assms(1) by (auto simp: k_def)
    with uw show ?thesis by simp
  qed
  then show "k = 0 \<or> k = 1" "unat w + bn_base * unat k = unat v + unat c + unat top" by simp_all
qed

lemma mod_limb: "(x + B * y + (p mod B) * z) mod B = (x + p * z) mod (B :: nat)"
proof -
  have "(x + B * y + (p mod B) * z) mod B = (x + (p mod B) * z + B * y) mod B" by (simp only: add_ac)
  also have "\<dots> = (x + (p mod B) * z) mod B" by (rule mod_mult_self2)
  also have "\<dots> = (x + ((p mod B) * z) mod B) mod B" by (simp only: mod_add_right_eq)
  also have "\<dots> = (x + p * z) mod B" by (simp only: mod_mult_left_eq mod_add_right_eq)
  finally show ?thesis .
qed

text \<open>A round adds a multiple of the modulus that makes one more limb zero.\<close>

lemma mont_round:
  assumes n: "length n = num" "0 < num" "(unat n0 * bn_val n + 1) mod bn_base = 0"
    and a: "length a = 2 * num" "i < num" "bn_val (take i a) = 0" and c: "c = 0 \<or> c = 1"
    and mul: "bn_mul_add_words (take num (drop i a)) n (a ! i * n0) = (m, v)"
  defines "w \<equiv> v + (c + a ! (i + num))"
  defines "k \<equiv> (c OR of_bool (w \<noteq> a ! (i + num))) AND of_bool (w \<le> a ! (i + num))"
  defines "a' \<equiv> take i a @ m @ w # drop (i + num + 1) a"
  shows "length a' = 2 * num" and "bn_val (take (Suc i) a') = 0" and "k = 0 \<or> k = 1"
    and "bn_val a' + bn_base ^ (Suc i + num) * unat k =
      bn_val a + bn_base ^ (i + num) * unat c + bn_base ^ i * (unat (a ! i * n0) * bn_val n)"
proof -
  let ?lo = "take i a" and ?mid = "take num (drop i a)" and ?top = "a ! (i + num)" and ?hi = "drop (i + num + 1) a"
  let ?q = "unat (a ! i * n0)" and ?N = "bn_val n"
  have len: "length ?lo = i" "length ?mid = num" using a(1,2) by simp_all
  have "a = ?lo @ ?mid @ drop (i + num) a"
    using append_take_drop_id [of num "drop i a"] by (simp add: add.commute)
  also have "drop (i + num) a = ?top # ?hi" using a(1,2) by (simp add: Cons_nth_drop_Suc)
  finally have split: "a = ?lo @ ?mid @ ?top # ?hi" .
  have va: "bn_val a = bn_val ?lo + bn_base ^ i * (bn_val ?mid + bn_base ^ num * (unat ?top + bn_base * bn_val ?hi))"
    by (subst split) (simp only: bn_val_append len bn_val.simps)
  have v: "length m = num" "bn_val m + bn_base ^ num * unat v = bn_val ?mid + ?q * ?N"
    using bn_mul_add_words_val [OF mul] len n(1) by simp_all
  show "length a' = 2 * num" using a(1,2) v(1) by (simp add: a'_def)
  have k: "k = 0 \<or> k = 1" "unat w + bn_base * unat k = unat v + unat c + unat ?top"
    using round_carry [OF c, of v ?top] by (simp_all only: w_def k_def)
  show "k = 0 \<or> k = 1" by (rule k)
  have "bn_val a' = bn_val ?lo + bn_base ^ i * (bn_val m + bn_base ^ num * (unat w + bn_base * bn_val ?hi))"
    unfolding a'_def by (simp only: bn_val_append len v(1) bn_val.simps)
  then have "bn_val a' + bn_base ^ (Suc i + num) * unat k =
      bn_val ?lo + bn_base ^ i * (bn_val m + bn_base ^ num * ((unat w + bn_base * unat k) + bn_base * bn_val ?hi))"
    by (simp add: power_add algebra_simps)
  also have "\<dots> = bn_val ?lo + bn_base ^ i * ((bn_val m + bn_base ^ num * unat v) +
      bn_base ^ num * (unat c + unat ?top + bn_base * bn_val ?hi))"
    unfolding k(2) by (simp add: algebra_simps)
  also have "\<dots> = bn_val a + bn_base ^ (i + num) * unat c + bn_base ^ i * (?q * ?N)"
    unfolding v(2) va by (simp add: power_add algebra_simps)
  finally show "bn_val a' + bn_base ^ (Suc i + num) * unat k =
      bn_val a + bn_base ^ (i + num) * unat c + bn_base ^ i * (?q * ?N)" .
  obtain x xs where m: "m = x # xs" using v(1) n(2) by (cases m) auto
  have "(bn_val ?mid + ?q * ?N) mod bn_base = 0"
  proof -
    obtain y ys where mid: "?mid = y # ys" using len(2) n(2) by (cases ?mid) auto
    have "?mid ! 0 = a ! i" using a(1,2) n(2) by simp
    then have y: "y = a ! i" by (simp add: mid)
    have "?q = (unat (a ! i) * unat n0) mod bn_base" by (simp add: unat_word_ariths bn_base_def)
    then have "(bn_val ?mid + ?q * ?N) mod bn_base = (unat (a ! i) + unat (a ! i) * unat n0 * ?N) mod bn_base"
      unfolding mid y bn_val.simps by (simp only: mod_limb)
    also have "\<dots> = (unat (a ! i) * (unat n0 * ?N + 1)) mod bn_base" by (simp add: algebra_simps)
    also have "\<dots> = (unat (a ! i) * ((unat n0 * ?N + 1) mod bn_base)) mod bn_base" by (simp only: mod_mult_right_eq)
    finally show ?thesis unfolding n(3) by simp
  qed
  moreover obtain p where p: "num = Suc p" using n(2) by (cases num) auto
  moreover have "unat x + bn_base * (bn_val xs + bn_base ^ p * unat v) = bn_val ?mid + ?q * ?N"
    using v(2) unfolding m p by (simp add: algebra_simps)
  ultimately have "(unat x + bn_base * (bn_val xs + bn_base ^ p * unat v)) mod bn_base = 0" by simp
  then have "x = 0" by (simp add: unat_eq_0)
  then show "bn_val (take (Suc i) a') = 0"
    using a(3) len by (simp add: a'_def m bn_val_append take_Cons')
qed

lemma mont_rounds_val:
  "length n = num \<Longrightarrow> 0 < num \<Longrightarrow> (unat n0 * bn_val n + 1) mod bn_base = 0 \<Longrightarrow> length a = 2 * num \<Longrightarrow> i + k = num \<Longrightarrow>
    bn_val (take i a) = 0 \<Longrightarrow> c = 0 \<or> c = 1 \<Longrightarrow> mont_rounds n0 n i k c a = (a', c') \<Longrightarrow>
    length a' = 2 * num \<and> bn_val (take num a') = 0 \<and> (\<exists>K. K + bn_base ^ i \<le> bn_base ^ num \<and>
      bn_val a' + bn_base ^ (2 * num) * unat c' = bn_val a + bn_base ^ (i + num) * unat c + K * bn_val n)"
proof (induction n0 n i k c a rule: mont_rounds.induct)
  case (1 n0 n i k c a)
  obtain m v where mul: "bn_mul_add_words (take num (drop i a)) n (a ! i * n0) = (m, v)"
    by (cases "bn_mul_add_words (take num (drop i a)) n (a ! i * n0)")
  define w where "w = v + (c + a ! (i + num))"
  define c1 where "c1 = (c OR of_bool (w \<noteq> a ! (i + num))) AND of_bool (w \<le> a ! (i + num))"
  define a1 where "a1 = take i a @ m @ w # drop (i + num + 1) a"
  let ?q = "unat (a ! i * n0)"
  have i: "i < num" "Suc i + k = num" using 1(6) by simp_all
  note r = mont_round [OF 1(2,3,4,5) i(1) 1(7,8) mul, folded w_def, folded a1_def c1_def]
  have run: "mont_rounds n0 n (Suc i) k c1 a1 = (a', c')"
    using 1(9) unfolding mont_rounds.simps Let_def 1(2) mul prod.case by (simp only: a1_def c1_def w_def)
  from 1(1) [OF refl refl _ refl refl refl, unfolded 1(2), OF mul [symmetric], folded w_def, folded a1_def c1_def,
      OF refl refl 1(3,4) r(1) i(2) r(2,3) run]
  obtain K where K: "length a' = 2 * num" "bn_val (take num a') = 0" "K + bn_base ^ Suc i \<le> bn_base ^ num"
    "bn_val a' + bn_base ^ (2 * num) * unat c' = bn_val a1 + bn_base ^ (Suc i + num) * unat c1 + K * bn_val n" by blast
  have "bn_base ^ i * ?q + bn_base ^ i \<le> bn_base ^ Suc i"
  proof -
    have "?q + 1 \<le> bn_base" using limb_less [of "a ! i * n0"] by (simp del: limb_less)
    then have "bn_base ^ i * (?q + 1) \<le> bn_base ^ i * bn_base" by (rule mult_le_mono2)
    then show ?thesis by (simp add: mult.commute)
  qed
  with K(3) have "(bn_base ^ i * ?q + K) + bn_base ^ i \<le> bn_base ^ num" by linarith
  moreover have "bn_val a' + bn_base ^ (2 * num) * unat c' =
      bn_val a + bn_base ^ (i + num) * unat c + (bn_base ^ i * ?q + K) * bn_val n"
    unfolding K(4) r(4) by (simp add: algebra_simps)
  ultimately show ?case using K(1,2) by blast
next
  case (2 n0 n i c a)
  then show ?case by (auto intro!: exI [of _ 0] simp: mult_2)
qed

text \<open>What makes a context good.\<close>

abbreviation mont_R :: "mont_ctx \<Rightarrow> nat" where "mont_R mont \<equiv> bn_base ^ bn_width (mont_N mont)"
abbreviation mont_n :: "mont_ctx \<Rightarrow> nat" where "mont_n mont \<equiv> bn_abs (mont_N mont)"

definition mont_ok :: "mont_ctx \<Rightarrow> bool" where
  "mont_ok mont \<longleftrightarrow> bn_small (mont_N mont) \<and> odd (mont_n mont) \<and>
    (unat (mont_n0 mont) * mont_n mont + 1) mod bn_base = 0 \<and>
    bn_small (mont_RR mont) \<and> \<not> bn_neg (mont_RR mont) \<and> bn_width (mont_RR mont) = bn_width (mont_N mont) \<and>
    bn_abs (mont_RR mont) = mont_R mont * mont_R mont mod mont_n mont"

lemma mont_okD:
  assumes "mont_ok mont"
  shows "bn_ok (mont_N mont)" and "odd (mont_n mont)" and "0 < mont_n mont" and "0 < bn_width (mont_N mont)"
    and "(unat (mont_n0 mont) * mont_n mont + 1) mod bn_base = 0" and "mont_n mont < mont_R mont"
    and "bn_abs (mont_RR mont) = mont_R mont * mont_R mont mod mont_n mont"
    and "bn_abs (mont_RR mont) < mont_n mont" and "\<not> bn_neg (mont_RR mont)"
    and "bn_small (mont_RR mont)" and "bn_width (mont_RR mont) = bn_width (mont_N mont)"
proof -
  show a: "bn_ok (mont_N mont)" "odd (mont_n mont)" "(unat (mont_n0 mont) * mont_n mont + 1) mod bn_base = 0"
    "bn_abs (mont_RR mont) = mont_R mont * mont_R mont mod mont_n mont" "\<not> bn_neg (mont_RR mont)"
    "bn_small (mont_RR mont)" "bn_width (mont_RR mont) = bn_width (mont_N mont)"
    using assms by (simp_all add: mont_ok_def bn_small_def)
  show n: "0 < mont_n mont" using a(2) by (rule odd_pos)
  then show "0 < bn_width (mont_N mont)" by (intro gr0I) (simp add: bn_abs_def)
  show "mont_n mont < mont_R mont" by (rule bn_abs_less)
  show "bn_abs (mont_RR mont) < mont_n mont" unfolding a(4) using n by simp
qed

text \<open>\<open>R\<close> can be cancelled modulo an odd number.\<close>

lemma cancel_R:
  assumes "odd N" and "(bn_base ^ k * x) mod N = (bn_base ^ k * y) mod (N :: nat)"
  shows "x mod N = y mod N"
proof -
  have co: "coprime N (bn_base ^ k)"
    unfolding bn_base_def power_mult [symmetric] using assms(1) by simp
  show ?thesis
  proof (cases "x \<le> y")
    case True
    then have "N dvd bn_base ^ k * (y - x)"
      using assms(2) mod_eq_dvd_iff_nat [of "bn_base ^ k * x" "bn_base ^ k * y" N]
      by (simp add: diff_mult_distrib2)
    then have "N dvd y - x" using co by (simp add: coprime_dvd_mult_right_iff)
    then show ?thesis using mod_eq_dvd_iff_nat [OF True, of N] by simp
  next
    case False
    then have le: "y \<le> x" by simp
    then have "N dvd bn_base ^ k * (x - y)"
      using assms(2) mod_eq_dvd_iff_nat [of "bn_base ^ k * y" "bn_base ^ k * x" N]
      by (simp add: diff_mult_distrib2)
    then have "N dvd x - y" using co by (simp add: coprime_dvd_mult_right_iff)
    then show ?thesis using mod_eq_dvd_iff_nat [OF le, of N] by simp
  qed
qed

lemma bn_from_montgomery_in_place_val [bn_spec]:
  assumes ok: "mont_ok mont" and len: "length a = 2 * bn_width (mont_N mont)"
    and less: "bn_val a < mont_n mont * mont_R mont"
  obtains r where "bn_from_montgomery_in_place mont (bn_width (mont_N mont)) a = Some r"
    "length r = bn_width (mont_N mont)" "bn_val r < mont_n mont"
    "(mont_R mont * bn_val r) mod mont_n mont = bn_val a mod mont_n mont"
proof -
  let ?num = "bn_width (mont_N mont)" and ?n = "bn_words (mont_N mont)" and ?N = "mont_n mont" and ?R = "mont_R mont"
  note m = mont_okD [OF ok]
  have n: "length ?n = ?num" "bn_val ?n = ?N" using m(1) by (simp_all add: bn_ok_def bn_abs_def)
  obtain a' c where run: "mont_rounds (mont_n0 mont) ?n 0 ?num 0 a = (a', c)"
    by (cases "mont_rounds (mont_n0 mont) ?n 0 ?num 0 a")
  have v: "length a' = 2 * ?num \<and> bn_val (take ?num a') = 0 \<and> (\<exists>K. K + bn_base ^ 0 \<le> bn_base ^ ?num \<and>
      bn_val a' + bn_base ^ (2 * ?num) * unat c = bn_val a + bn_base ^ (0 + ?num) * unat (0 :: u64) + K * bn_val ?n)"
    using mont_rounds_val [OF n(1) m(4) _ len _ _ _ run] m(5) by (simp add: n(2))
  then obtain K where K: "length a' = 2 * ?num" "bn_val (take ?num a') = 0" "K + 1 \<le> ?R"
    "bn_val a' + bn_base ^ (2 * ?num) * unat c = bn_val a + K * ?N"
    unfolding n(2) by auto
  let ?X = "bn_val (drop ?num a') + ?R * unat c"
  have "bn_val a' = ?R * bn_val (drop ?num a')"
    using bn_val_take_drop [of ?num a'] K(1,2) by simp
  with K(4) have X: "?R * ?X = bn_val a + K * ?N"
    by (simp add: mult_2 power_add distrib_left mult.assoc)
  have "K * ?N < ?R * ?N" using K(3) m(3) by simp
  moreover have "bn_val a < ?R * ?N" using less by (simp only: mult.commute)
  ultimately have "?R * ?X < ?R * ?N + ?R * ?N" using X by linarith
  also have "\<dots> = ?R * (2 * ?N)" by simp
  finally have X2: "?X < 2 * ?N" by (simp only: nat_mult_less_cancel1 zero_less_power bn_base_pos)
  obtain r d where red: "bn_reduce_once (drop ?num a') c ?n = (r, d)" by (cases "bn_reduce_once (drop ?num a') c ?n")
  have "length (drop ?num a') = length ?n" using K(1) n(1) by simp
  from bn_reduce_once_val(1,2) [OF this _ red] X2 have r: "length r = ?num" "bn_val r = ?X mod ?N"
    unfolding n by simp_all
  show thesis
  proof (rule that)
    show "bn_from_montgomery_in_place mont ?num a = Some r"
      using run red len by (simp add: bn_from_montgomery_in_place_def Let_def)
    show "length r = ?num" "bn_val r < ?N" using r m(3) by simp_all
    have "(?R * bn_val r) mod ?N = (?R * ?X) mod ?N" unfolding r(2) by (rule mod_mult_right_eq)
    then show "(?R * bn_val r) mod ?N = bn_val a mod ?N" unfolding X by simp
  qed
qed

lemma BN_from_montgomery_word_val [bn_spec]:
  assumes run: "BN_from_montgomery_word malloc mont r ret = (Some u, ret')" and ok: "mont_ok mont" "bn_ok r"
    and less: "bn_abs r < mont_n mont * mont_R mont"
  shows "bn_abs ret' < mont_n mont" and "(mont_R mont * bn_abs ret') mod mont_n mont = bn_abs r mod mont_n mont"
    and "\<not> bn_neg ret'" and "bn_width ret' = bn_width (mont_N mont)" and "bn_ok ret'"
proof -
  let ?num = "bn_width (mont_N mont)"
  note m = mont_okD [OF ok(1)]
  from run have neg: "\<not> bn_neg r" by (auto simp: BN_from_montgomery_word_def)
  from run neg m(4) obtain r1 ret1 ws where r1: "bn_resize_words malloc (2 * ?num) r = (Some (), r1)"
    "bn_from_montgomery_in_place mont ?num (bn_words r1) = Some ws"
    "ret' = set_d ws (ret1\<lparr>bn_width := ?num, bn_neg := False\<rparr>)"
    by (auto simp: BN_from_montgomery_word_def Let_def split: option.splits prod.splits dest!: and_then_eq_SomeD)
  note v = bn_resize_words_val [OF r1(1) ok(2)]
  have "length (bn_words r1) = 2 * ?num" using v(1,4) by (simp add: bn_ok_def)
  moreover have "bn_val (bn_words r1) = bn_abs r" using v(2) by (simp add: bn_abs_def)
  ultimately have ws: "length ws = ?num" "bn_val ws < mont_n mont"
    "(mont_R mont * bn_val ws) mod mont_n mont = bn_abs r mod mont_n mont"
    using bn_from_montgomery_in_place_val [OF ok(1), of "bn_words r1"] less r1(2) by (metis option.inject)+
  then have "bn_words ret' = ws" "bn_width ret' = ?num" "\<not> bn_neg ret'" "bn_ok ret'"
    unfolding r1(3) by (simp_all add: set_d_def bn_ok_def)
  with ws show "bn_abs ret' < mont_n mont" "(mont_R mont * bn_abs ret') mod mont_n mont = bn_abs r mod mont_n mont"
    "\<not> bn_neg ret'" "bn_width ret' = bn_width (mont_N mont)" "bn_ok ret'" by (simp_all add: bn_abs_def [of ret'])
qed

lemma BN_from_montgomery_val [bn_spec]:
  assumes run: "BN_from_montgomery malloc mont a t r = (Some u, r')" and ok: "mont_ok mont" "bn_ok a"
    and less: "bn_abs a < mont_n mont * mont_R mont"
  shows "bn_abs r' < mont_n mont" and "(mont_R mont * bn_abs r') mod mont_n mont = bn_abs a mod mont_n mont"
    and "\<not> bn_neg r'" and "bn_width r' = bn_width (mont_N mont)" and "bn_ok r'"
proof -
  from run obtain t1 t2 where t: "BN_copy malloc a t1 = (Some (), t2)" "BN_from_montgomery_word malloc mont t2 r = (Some u, r')"
    by (auto simp: BN_from_montgomery_def split: option.splits prod.splits)
  note c = BN_copy_val [OF t(1) ok(2)]
  have "bn_abs t2 < mont_n mont * mont_R mont" using less c(1) by simp
  from BN_from_montgomery_word_val [OF t(2) ok(1) c(4) this] c(1)
  show "bn_abs r' < mont_n mont" "(mont_R mont * bn_abs r') mod mont_n mont = bn_abs a mod mont_n mont"
    "\<not> bn_neg r'" "bn_width r' = bn_width (mont_N mont)" "bn_ok r'" by simp_all
qed

text \<open>\<open>a\<close> and \<open>b\<close> are the same number where they are the same object.\<close>

lemma BN_mod_mul_montgomery_val [bn_spec]:
  assumes run: "BN_mod_mul_montgomery malloc mont a b same tmp t r = (Some u, r')" and ok: "mont_ok mont" "bn_small a" "bn_small b"
    and ctx: "\<And>x. tmp = Some x \<Longrightarrow> bn_ok x" and same: "same \<Longrightarrow> a = b"
    and less: "bn_abs a * bn_abs b < mont_n mont * mont_R mont"
  shows "bn_abs r' < mont_n mont" and "(mont_R mont * bn_abs r') mod mont_n mont = (bn_abs a * bn_abs b) mod mont_n mont"
    and "\<not> bn_neg r'" and "bn_width r' = bn_width (mont_N mont)" and "bn_ok r'"
proof -
  from run obtain x y where x: "tmp = Some x"
    "(if same then bn_sqr_consttime malloc a False None t x else bn_mul_consttime malloc a b False None t x) = (Some (), y)"
    "BN_from_montgomery_word malloc mont y r = (Some u, r')"
    by (auto simp: BN_mod_mul_montgomery_def bn_mod_mul_montgomery_fallback_def split: option.splits prod.splits if_splits)
  have y: "bn_abs y = bn_abs a * bn_abs b" "bn_ok y"
    using x(2) bn_sqr_consttime_val(1,3) [of malloc a False None t x "()" y] bn_mul_consttime_val(1,3) [of malloc a b False None t x "()" y]
      ok ctx [OF x(1)] same by (auto split: if_splits)
  have "bn_abs y < mont_n mont * mont_R mont" using less y by simp
  from BN_from_montgomery_word_val [OF x(3) ok(1) y(2) this] y(1)
  show "bn_abs r' < mont_n mont" "(mont_R mont * bn_abs r') mod mont_n mont = (bn_abs a * bn_abs b) mod mont_n mont"
    "\<not> bn_neg r'" "bn_width r' = bn_width (mont_N mont)" "bn_ok r'" by simp_all
qed

section \<open>Conversion and small arrays\<close>

lemma mod_eq_of_less: "x < n \<Longrightarrow> x mod n = y mod n \<Longrightarrow> x = y mod (n :: nat)"
  by simp

text \<open>A product with \<open>R ^ 2\<close>, divided by \<open>R\<close>, is a product with \<open>R\<close>.\<close>

lemma times_RR:
  assumes "mont_ok mont" and "x < mont_n mont"
    and "(mont_R mont * x) mod mont_n mont = (a * bn_abs (mont_RR mont)) mod mont_n mont"
  shows "x = (mont_R mont * a) mod mont_n mont"
proof -
  note m = mont_okD [OF assms(1)]
  have "(a * bn_abs (mont_RR mont)) mod mont_n mont = (mont_R mont * (mont_R mont * a)) mod mont_n mont"
    unfolding m(7) mod_mult_right_eq by (simp only: mult_ac)
  from cancel_R [OF m(2) trans [OF assms(3) this]] show ?thesis by (rule mod_eq_of_less [OF assms(2)])
qed

lemma BN_to_montgomery_val [bn_spec]:
  assumes run: "BN_to_montgomery malloc mont a tmp t r = (Some u, r')" and ok: "mont_ok mont" "bn_small a"
    and ctx: "\<And>x. tmp = Some x \<Longrightarrow> bn_ok x" and less: "bn_less_than_montgomery_R mont a"
  shows "bn_abs r' = (mont_R mont * bn_abs a) mod mont_n mont" and "\<not> bn_neg r'"
    and "bn_width r' = bn_width (mont_N mont)" and "bn_ok r'"
proof -
  note m = mont_okD [OF ok(1)]
  have "bn_abs a < mont_R mont" using less by (simp add: bn_less_than_montgomery_R_def fits_in_words_iff)
  then have "bn_abs a * bn_abs (mont_RR mont) < mont_R mont * mont_n mont"
    using m(8) by (intro mult_strict_mono) simp_all
  then have bound: "bn_abs a * bn_abs (mont_RR mont) < mont_n mont * mont_R mont" by (simp only: mult.commute)
  note v = BN_mod_mul_montgomery_val [OF run [unfolded BN_to_montgomery_def] ok m(10) ctx _ bound]
  show "bn_abs r' = (mont_R mont * bn_abs a) mod mont_n mont" using times_RR [OF ok(1) v(1,2)] by simp
  show "\<not> bn_neg r'" "bn_width r' = bn_width (mont_N mont)" "bn_ok r'" using v(3-5) by simp_all
qed

lemma limbs_complement:
  "ws \<noteq> [] \<Longrightarrow> hd ws \<noteq> 0 \<Longrightarrow>
    bn_val ((0 - hd ws) # map NOT (tl ws)) + bn_val ws = bn_base ^ length ws"
proof -
  have comp: "bn_val (map NOT xs) + bn_val xs + 1 = bn_base ^ length xs" for xs
  proof (induction xs)
    case (Cons x xs)
    have "unat (NOT x) + unat x + 1 = bn_base"
    proof -
      have "NOT x = - 1 - x" by (metis add_diff_cancel_left' word_add_not)
      then have "unat (NOT x) = unat (- 1 :: u64) - unat x" by (simp add: unat_sub)
      then show ?thesis using unsigned_less [of x, where 'a = nat] by (simp add: bn_base_def unsigned_minus_1_eq_mask mask_eq_exp_minus_1)
    qed
    with Cons have "unat (NOT x) + unat x + 1 + bn_base * (bn_val (map NOT xs) + bn_val xs) = bn_base * bn_base ^ length xs"
      by (metis (no_types, lifting) add.commute add.left_commute distrib_left mult.right_neutral)
    then show ?case by (simp add: algebra_simps)
  qed simp
  assume ws: "ws \<noteq> []" "hd ws \<noteq> 0"
  then obtain x xs where x: "ws = x # xs" "x \<noteq> 0" by (cases ws) auto
  have "unat (0 - x) + unat x = bn_base"
    using unat_sub_if_size [of 0 x] x(2) unsigned_less [of x, where 'a = nat]
    by (simp add: word_size unat_eq_0 bn_base_def)
  moreover have "bn_base * (bn_val (map NOT xs) + bn_val xs + 1) = bn_base ^ length ws"
    unfolding comp x(1) by simp
  ultimately show ?thesis unfolding x(1) by (simp add: algebra_simps)
qed

lemma bn_one_to_montgomery_val [bn_spec]:
  assumes run: "bn_one_to_montgomery malloc mont t r = (Some u, r')" and ok: "mont_ok mont"
  shows "bn_abs r' = mont_R mont mod mont_n mont" and "\<not> bn_neg r'" and "bn_width r' = bn_width (mont_N mont)" and "bn_ok r'"
proof -
  note m = mont_okD [OF ok]
  let ?n = "mont_N mont" and ?num = "bn_width (mont_N mont)" and ?ws = "bn_words (mont_N mont)"
  have "bn_abs r' = mont_R mont mod mont_n mont \<and> \<not> bn_neg r' \<and> bn_width r' = ?num \<and> bn_ok r'"
  proof (cases "0 < ?num \<and> drop_bit 63 (bn_d ?n ! (?num - 1)) \<noteq> 0")
    case True
    let ?q = "(0 - bn_d ?n ! 0) # map NOT (drop 1 ?ws)"
    from run True obtain r1 where r': "r' = (put_words ?q r1)\<lparr>bn_neg := False\<rparr>"
      unfolding bn_one_to_montgomery_def Let_def if_P [OF True] by (auto dest!: and_then_eq_SomeD)
    have len: "length ?ws = ?num" using m(1) by (simp add: bn_ok_def)
    then obtain x xs where x: "?ws = x # xs" using m(4) by (cases ?ws) auto
    have x0: "bn_d ?n ! 0 = x" using x m(4) by (metis nth_Cons_0 nth_take)
    have "odd (unat x)" using m(2) by (simp add: bn_abs_def x bn_base_def)
    then have "x \<noteq> 0" by (intro notI) simp
    moreover have "mont_R mont = bn_base ^ length ?ws" by (simp only: len)
    ultimately have sum: "bn_val ?q + mont_n mont = mont_R mont"
      using limbs_complement [of ?ws] unfolding bn_abs_def x0 x by simp
    have top: "mont_n mont = bn_val (take (?num - 1) (bn_d ?n)) + bn_base ^ (?num - 1) * unat (bn_d ?n ! (?num - 1))"
      using top_limb [of ?num "bn_d ?n"] m(1,4) by (simp add: bn_abs_def bn_ok_def)
    have "2 ^ 63 \<le> unat (bn_d ?n ! (?num - 1))"
      using True by (simp add: drop_bit_word_eq_0_iff not_less)
    then have "2 * (bn_base ^ (?num - 1) * 2 ^ 63) \<le> 2 * mont_n mont"
      unfolding top by (intro mult_le_mono2 trans_le_add2) simp
    moreover have "2 * (bn_base ^ (?num - 1) * 2 ^ 63) = mont_R mont"
      using m(4) by (cases ?num) (simp_all add: bn_base_def)
    moreover have "odd (mont_n mont)" "even (mont_R mont)" using m(2,4) by (simp_all add: bn_base_def)
    ultimately have "mont_R mont < 2 * mont_n mont"
    proof -
      assume "2 * (bn_base ^ (?num - 1) * 2 ^ 63) \<le> 2 * mont_n mont" and "2 * (bn_base ^ (?num - 1) * 2 ^ 63) = mont_R mont"
        and odd: "odd (mont_n mont)"
      then have "bn_base ^ (?num - 1) * 2 ^ 63 \<le> mont_n mont" "mont_R mont = 2 * (bn_base ^ (?num - 1) * 2 ^ 63)" by simp_all
      moreover have "bn_base ^ (?num - 1) * 2 ^ 63 \<noteq> mont_n mont" 
      proof
        assume "bn_base ^ (?num - 1) * 2 ^ 63 = mont_n mont"
        moreover have "even (bn_base ^ (?num - 1) * (2 :: nat) ^ 63)" by (intro dvd_mult) simp
        ultimately show False using odd by simp
      qed
      ultimately show ?thesis by simp
    qed
    then have "mont_R mont mod mont_n mont = mont_R mont - mont_n mont" using m(6) by (simp add: le_mod_geq)
    with sum have "bn_val ?q = mont_R mont mod mont_n mont" by simp
    with put_words_val(2) [OF r'] len x show ?thesis by simp
  next
    case False
    then have run': "BN_from_montgomery malloc mont (mont_RR mont) t r = (Some u, r')"
      using run unfolding bn_one_to_montgomery_def Let_def if_not_P [OF False] by simp
    have "mont_n mont * 1 \<le> mont_n mont * mont_R mont" by (intro mult_le_mono2) simp
    then have less: "bn_abs (mont_RR mont) < mont_n mont * mont_R mont" using m(8) by linarith
    have "bn_ok (mont_RR mont)" using m(10) by (simp add: bn_small_def)
    note v = BN_from_montgomery_val [OF run' ok this less]
    with times_RR [OF ok v(1), of 1] v show ?thesis by simp
  qed
  then show "bn_abs r' = mont_R mont mod mont_n mont" "\<not> bn_neg r'" "bn_width r' = ?num" "bn_ok r'" by simp_all
qed

lemma BN_SMALL_val: "BN_SMALL_MAX_WORDS = 9" by (simp add: BN_SMALL_MAX_WORDS_def)

lemma bn_from_montgomery_small_val [bn_spec]:
  assumes ok: "mont_ok mont" and len: "length a = bn_width (mont_N mont)" "length a \<le> BN_SMALL_MAX_WORDS"
  obtains r where "bn_from_montgomery_small mont a = Some r" "length r = length a" "bn_val r < mont_n mont"
    "(mont_R mont * bn_val r) mod mont_n mont = bn_val a mod mont_n mont"
proof -
  note m = mont_okD [OF ok]
  let ?a = "a @ replicate (length a) 0"
  have val: "bn_val ?a = bn_val a" by (simp add: bn_val_append)
  have "bn_val a < mont_R mont" using bn_val_less [of a] len(1) by simp
  also have "\<dots> \<le> mont_n mont * mont_R mont" using m(3) by simp
  finally have less: "bn_val ?a < mont_n mont * mont_R mont" unfolding val .
  have la: "length ?a = 2 * bn_width (mont_N mont)" using len(1) by simp
  obtain r where r: "bn_from_montgomery_in_place mont (bn_width (mont_N mont)) ?a = Some r"
    "length r = bn_width (mont_N mont)" "bn_val r < mont_n mont"
    "(mont_R mont * bn_val r) mod mont_n mont = bn_val ?a mod mont_n mont"
    using bn_from_montgomery_in_place_val [OF ok la less] by blast
  show thesis
    using r(1-3) r(4) [unfolded val] len by (intro that [of r]) (simp_all add: bn_from_montgomery_small_def)
qed

lemma bn_mod_mul_montgomery_small_val [bn_spec]:
  assumes ok: "mont_ok mont" and len: "length a = bn_width (mont_N mont)" "length b = length a" "length a \<le> BN_SMALL_MAX_WORDS"
    and same: "same \<Longrightarrow> a = b" and less: "bn_val a * bn_val b < mont_n mont * mont_R mont"
  obtains r where "bn_mod_mul_montgomery_small mont a b same = Some r" "length r = length a" "bn_val r < mont_n mont"
    "(mont_R mont * bn_val r) mod mont_n mont = (bn_val a * bn_val b) mod mont_n mont"
proof -
  define p where "p = (if same then bn_sqr_small (2 * length a) a else bn_mul_small (2 * length a) a b)"
  have "\<exists>q. p = Some q \<and> length q = 2 * length a \<and> bn_val q = bn_val a * bn_val b"
  proof (cases same)
    case True
    then have "p \<noteq> None" using len(3) by (simp add: p_def bn_sqr_small_def)
    then obtain q where "p = Some q" by blast
    with True bn_sqr_small_val same show ?thesis by (simp add: p_def)
  next
    case False
    then have "p \<noteq> None" using len(2) by (simp add: p_def bn_mul_small_def)
    then obtain q where "p = Some q" by blast
    with False bn_mul_small_val len(2) show ?thesis by (simp add: p_def)
  qed
  then obtain q where q: "p = Some q" "length q = 2 * bn_width (mont_N mont)" "bn_val q = bn_val a * bn_val b"
    using len(1) by auto
  from less have "bn_val q < mont_n mont * mont_R mont" by (simp only: q(3))
  then obtain r where r: "bn_from_montgomery_in_place mont (bn_width (mont_N mont)) q = Some r"
    "length r = bn_width (mont_N mont)" "bn_val r < mont_n mont"
    "(mont_R mont * bn_val r) mod mont_n mont = bn_val q mod mont_n mont"
    using bn_from_montgomery_in_place_val [OF ok q(2)] by blast
  show thesis
  proof (rule that)
    have "bn_mod_mul_montgomery_small mont a b same =
        (case p of None \<Rightarrow> None | Some tmp \<Rightarrow> bn_from_montgomery_in_place mont (bn_width (mont_N mont)) tmp)"
      using len by (simp add: bn_mod_mul_montgomery_small_def p_def Let_def)
    then show "bn_mod_mul_montgomery_small mont a b same = Some r"
      using r(1) q(1) len(1) by simp
  qed (use r len q in simp_all)
qed

section \<open>Making a context\<close>

lemma is_odd_iff [bn_spec]:
  assumes "bn_ok bn"
  shows "BN_is_odd bn \<longleftrightarrow> odd (bn_abs bn)"
proof (cases "bn_words bn")
  case Nil
  then show ?thesis using assms by (auto simp: BN_is_odd_def bn_abs_def bn_ok_def)
next
  case (Cons x xs)
  then have "BN_is_odd bn \<longleftrightarrow> x AND 1 = 1"
    using assms by (cases "bn_d bn") (auto simp: BN_is_odd_def take_Cons' split: if_splits)
  also have "\<dots> \<longleftrightarrow> bit x 0" by (simp add: and_one_eq mod_2_eq_odd bit_0)
  also have "\<dots> \<longleftrightarrow> bit (unat x) 0" by (simp add: bit_unsigned_iff)
  also have "\<dots> \<longleftrightarrow> odd (bn_abs bn)" by (simp add: bit_0 bn_abs_def Cons bn_base_def)
  finally show ?thesis .
qed

lemma set_N_and_n0_val:
  assumes run: "bn_mont_ctx_set_N_and_n0 malloc modulus mont = (Some u, mont')" and ok: "bn_small modulus"
  shows "mont_n mont' = bn_abs modulus" and "odd (bn_abs modulus)" and "\<not> bn_neg modulus"
    and "bn_normal (mont_N mont')" and "bn_small (mont_N mont')"
    and "(unat (mont_n0 mont') * mont_n mont' + 1) mod bn_base = 0" and "mont_RR mont' = mont_RR mont"
proof -
  from run have odd: "BN_is_odd modulus" and neg: "\<not> bn_neg modulus"
    by (auto simp: bn_mont_ctx_set_N_and_n0_def BN_is_negative_def split: if_splits)
  have okm: "bn_ok modulus" using ok by (simp add: bn_small_def)
  show o: "odd (bn_abs modulus)" using odd okm by (simp add: is_odd_iff)
  show "\<not> bn_neg modulus" by (rule neg)
  from run odd neg obtain n where n: "BN_copy malloc modulus (mont_N mont) = (Some (), n)"
    "mont' = mont\<lparr>mont_N := bn_set_minimal_width n, mont_n0 := bn_mont_n0 (bn_set_minimal_width n)\<rparr>"
    by (auto simp: bn_mont_ctx_set_N_and_n0_def Let_def split: if_splits option.splits prod.splits)
  note c = BN_copy_val [OF n(1) okm] and s = set_minimal_width [OF BN_copy_val(4) [OF n(1) okm]]
  let ?N = "bn_set_minimal_width n"
  show "mont_n mont' = bn_abs modulus" "bn_normal (mont_N mont')" "mont_RR mont' = mont_RR mont"
    unfolding n(2) using s c by simp_all
  show "bn_small (mont_N mont')"
    using ok c bn_minimal_width(1) [OF c(4)] bn_normal_ok [OF s(4)] unfolding n(2) bn_small_def
    by (simp add: bn_set_minimal_width_def Let_def)
  show "(unat (mont_n0 mont') * mont_n mont' + 1) mod bn_base = 0"
  proof -
    have N: "bn_abs ?N = bn_abs modulus" "bn_ok ?N" using s c bn_normal_ok [OF s(4)] by simp_all
    with o have "bn_abs ?N \<noteq> 0" by (intro notI) simp
    then have "bn_words ?N \<noteq> []" by (intro notI) (simp add: bn_abs_def)
    then obtain y ys where y: "bn_words ?N = y # ys" by (cases "bn_words ?N") auto
    then have y0: "bn_d ?N ! 0 = y" by (cases "bn_d ?N"; cases "bn_width ?N") auto
    have val: "bn_abs ?N = unat y + bn_base * bn_val ys" by (simp only: bn_abs_def y bn_val.simps)
    have "odd (unat y + bn_base * bn_val ys)" using o unfolding val [symmetric] N(1) .
    then have "odd (unat y)" by (simp add: bn_base_def)
    then have "(unat (bn_mont_n0 ?N) * unat y + 1) mod bn_base = 0"
      unfolding bn_mont_n0_def y0 by (rule neg_inv_val)
    moreover have "(unat (bn_mont_n0 ?N) * bn_abs ?N + 1) mod bn_base = (unat (bn_mont_n0 ?N) * unat y + 1) mod bn_base"
    proof -
      have "unat (bn_mont_n0 ?N) * bn_abs ?N + 1 = unat (bn_mont_n0 ?N) * unat y + 1 + bn_base * (unat (bn_mont_n0 ?N) * bn_val ys)"
        unfolding val by (simp add: algebra_simps)
      then show ?thesis by (simp only: mod_mult_self2)
    qed
    ultimately show ?thesis unfolding n(2) by simp
  qed
qed

lemma BN_MONT_CTX_new_consttime_ok [bn_spec]:
  assumes run: "BN_MONT_CTX_new_consttime malloc new_ok modulus ctx = Some mont" and ok: "bn_small modulus"
  shows "mont_ok mont" and "mont_n mont = bn_abs modulus"
proof -
  from run obtain m0 m1 r0 rr where m: "bn_mont_ctx_set_N_and_n0 malloc modulus m0 = (Some (), m1)"
    "mont_RR m0 = BN_init"
    "bn_mod_exp_base_2_consttime malloc (bn_width (mont_N m1) * 64 * 2) (mont_N m1) ctx (mont_RR m1) = (Some (), r0)"
    "bn_resize_words malloc (bn_width (mont_N m1)) r0 = (Some (), rr)" "mont = m1\<lparr>mont_RR := rr\<rparr>"
    by (auto simp: BN_MONT_CTX_new_consttime_def BN_MONT_CTX_new_def Let_def
        split: if_splits option.splits prod.splits dest!: and_then_eq_SomeD)
  note n = set_N_and_n0_val [OF m(1) ok]
  let ?w = "bn_width (mont_N m1)"
  have okN: "bn_ok (mont_N m1)" using n(5) by (simp add: bn_small_def)
  have odd: "odd (mont_n m1)" using n(1,2) by simp
  have "mont_n m1 \<noteq> 0" using odd by (intro notI) simp
  with BN_num_bits_val [OF okN] have "2 ^ (BN_num_bits (mont_N m1) - 1) \<le> mont_n m1" by blast
  also have "\<dots> < 2 ^ (64 * ?w)" using bn_abs_less [of "mont_N m1"] by (simp add: bn_base_def power_mult)
  finally have bits: "BN_num_bits (mont_N m1) - 1 < 64 * ?w" by (rule power_less_imp_less_exp [rotated]) simp
  have p: "BN_num_bits (mont_N m1) < ?w * 64 * 2" using bits by linarith
  have "bn_ok (mont_RR m1)" unfolding n(7) m(2) by (simp add: BN_init_def bn_ok_def)
  from bn_mod_exp_base_2_consttime_val [OF m(3) okN this odd p]
  have r0: "bn_abs r0 = 2 ^ (?w * 64 * 2) mod mont_n m1" "\<not> bn_neg r0" "bn_ok r0" by simp_all
  note rr = bn_resize_words_val [OF m(4) r0(3)]
  have "(2 :: nat) ^ (?w * 64 * 2) = bn_base ^ ?w * bn_base ^ ?w"
    unfolding bn_base_def power_mult [symmetric] power_add [symmetric] by (simp add: algebra_simps)
  then show "mont_ok mont" "mont_n mont = bn_abs modulus"
    using n odd rr r0 unfolding mont_ok_def m(5) by (simp_all add: bn_small_def)
qed

end
