(* ===== verification/Bn_Bytes.thy ===== *)
theory Bn_Bytes
  imports Bignum
begin

text \<open>
  Big numbers as byte strings and as machine words, \<open>fipsmodule/bn/bytes.c\<close>.  The platform
  is little-endian, so the code copies between the array of limbs and bytes.
\<close>

section \<open>The operations\<close>

text \<open>\<open>m\<close> bytes are missing in \<open>word\<close>; \<open>hi\<close> are the limbs that are written already.\<close>

fun bin2bn_loop :: "nat \<Rightarrow> u64 \<Rightarrow> byte list \<Rightarrow> limbs \<Rightarrow> limbs" where
  "bin2bn_loop m w (b # bs) hi =
    (let w = shl8_or w b
     in if m = 0 then bin2bn_loop 7 0 bs (w # hi) else bin2bn_loop (m - 1) w bs hi)"
| "bin2bn_loop m w [] hi = hi"

text \<open>\<open>new\<close> is what \<open>BN_new\<close> answers when the caller gives no destination.\<close>

definition BN_bin2bn :: "(nat \<Rightarrow> bool) \<Rightarrow> bignum option \<Rightarrow> byte list \<Rightarrow> bignum option \<Rightarrow> bignum option" where
  "BN_bin2bn malloc new inp ret =
    (case (if ret = None then new else ret) of
       None \<Rightarrow> None
     | Some r \<Rightarrow>
         if inp = [] then Some (r\<lparr>bn_width := 0\<rparr>)
         else let num_words = (length inp - 1) div 8 + 1; m = (length inp - 1) mod 8
         in case bn_wexpand malloc num_words r of
              (None, _) \<Rightarrow> None
            | (Some _, r) \<Rightarrow> Some ((put_words (bin2bn_loop m 0 inp []) r)\<lparr>bn_neg := False\<rparr>))"

text \<open>\<open>n\<close> limbs over the bytes of a string, and zeros after them.\<close>

fun le_limbs :: "nat \<Rightarrow> byte list \<Rightarrow> limbs" where
  "le_limbs (Suc n) bs = of_nat (le_nat (take 8 bs)) # le_limbs n (drop 8 bs)"
| "le_limbs 0 bs = []"

definition BN_le2bn :: "(nat \<Rightarrow> bool) \<Rightarrow> bignum option \<Rightarrow> byte list \<Rightarrow> bignum option \<Rightarrow> bignum option" where
  "BN_le2bn malloc new inp ret =
    (case (if ret = None then new else ret) of
       None \<Rightarrow> None
     | Some r \<Rightarrow>
         if inp = [] then Some (r\<lparr>bn_width := 0, bn_neg := False\<rparr>)
         else let num_words = (length inp - 1) div 8 + 1
         in case bn_wexpand malloc num_words r of
              (None, _) \<Rightarrow> None
            | (Some _, r) \<Rightarrow> Some (put_words (le_limbs num_words inp) r))"

definition BN_bn2bin :: "bignum \<Rightarrow> byte list" where
  "BN_bn2bin inp = map (\<lambda>i. ucast (drop_bit (8 * (i mod 8)) (bn_d inp ! (i div 8)))) (rev [0..<BN_num_bytes inp])"

text \<open>The bytes of the array.\<close>

definition bn_bytes :: "limbs \<Rightarrow> byte list" where
  "bn_bytes ws = concat (map (\<lambda>w. le_bytes 8 (unat w)) ws)"

definition fits_in_bytes :: "byte list \<Rightarrow> nat \<Rightarrow> bool" where
  "fits_in_bytes bytes len \<longleftrightarrow> fold (OR) (drop len bytes) 0 = (0 :: byte)"

definition BN_bn2le_padded :: "nat \<Rightarrow> bignum \<Rightarrow> byte list option" where
  "BN_bn2le_padded len inp =
    (let bytes = bn_bytes (bn_words inp); num_bytes = bn_width inp * 8
     in if len < num_bytes \<and> \<not> fits_in_bytes bytes len then None
        else let num_bytes = min len num_bytes
        in Some (take num_bytes bytes @ replicate (len - num_bytes) 0))"

definition BN_bn2bin_padded :: "nat \<Rightarrow> bignum \<Rightarrow> byte list option" where
  "BN_bn2bin_padded len inp =
    (let bytes = bn_bytes (bn_words inp); num_bytes = bn_width inp * 8
     in if len < num_bytes \<and> \<not> fits_in_bytes bytes len then None
        else let num_bytes = min len num_bytes
        in Some (replicate (len - num_bytes) 0 @ rev (take num_bytes bytes)))"

definition BN_get_word :: "bignum \<Rightarrow> u64" where
  "BN_get_word bn =
    (case bn_minimal_width bn of 0 \<Rightarrow> 0 | Suc 0 \<Rightarrow> bn_d bn ! 0 | _ \<Rightarrow> - 1)"

definition BN_get_u64 :: "bignum \<Rightarrow> u64 option" where
  "BN_get_u64 bn =
    (case bn_minimal_width bn of 0 \<Rightarrow> Some 0 | Suc 0 \<Rightarrow> Some (bn_d bn ! 0) | _ \<Rightarrow> None)"

section \<open>Reading\<close>

lemma base_256: "bn_base = 256 ^ 8"
  by (simp add: bn_base_def)

lemma bin2bn_loop_val:
  "length bs = 8 * q + m + 1 \<Longrightarrow> m < 8 \<Longrightarrow> unat w < 256 ^ (7 - m) \<Longrightarrow>
    bn_val (bin2bn_loop m w bs hi) = be_nat bs + 256 ^ length bs * unat w + bn_base ^ Suc q * bn_val hi \<and>
    length (bin2bn_loop m w bs hi) = Suc q + length hi"
proof (induction bs arbitrary: q m w hi)
  case (Cons b bs)
  have "unat w + 1 \<le> 256 ^ (7 - m)" using Cons.prems(3) by simp
  then have "(unat w + 1) * 256 \<le> 256 ^ (7 - m) * 256" by (rule mult_le_mono1)
  also have "(256 :: nat) ^ (7 - m) * 256 \<le> 256 ^ 8"
    using power_increasing [of "Suc (7 - m)" 8 "256 :: nat"] by (simp add: mult.commute)
  finally have "unat w * 256 + 255 < 2 ^ LENGTH(64)" by simp
  then have w: "unat (shl8_or w b) = 256 * unat w + unat b" by (rule unat_shl8_or)
  show ?case
  proof (cases m)
    case 0
    show ?thesis
    proof (cases q)
      case q: 0
      with Cons.prems 0 have "bs = []" by simp
      with 0 q w show ?thesis by (simp add: Let_def)
    next
      case (Suc q')
      with Cons.IH [of q' 7 0 "shl8_or w b # hi"] Cons.prems 0 have IH:
        "bn_val (bin2bn_loop 7 0 bs (shl8_or w b # hi)) = be_nat bs + bn_base ^ q * bn_val (shl8_or w b # hi)"
        "length (bin2bn_loop 7 0 bs (shl8_or w b # hi)) = Suc (q + length hi)" by simp_all
      have "256 ^ length bs = bn_base ^ q" using Cons.prems(1) 0 by (simp add: base_256 power_mult)
      with IH w 0 show ?thesis by (simp add: Let_def algebra_simps)
    qed
  next
    case (Suc m')
    have "unat (shl8_or w b) < 256 ^ (7 - m')"
    proof -
      have "256 * (unat w + 1) \<le> 256 * 256 ^ (7 - m)" using Cons.prems(3) by (intro mult_le_mono2) simp
      moreover have "7 - m' = Suc (7 - m)" using Suc Cons.prems(2) by simp
      ultimately show ?thesis using unat_byte_less [of b] unfolding w by simp
    qed
    with Cons.IH [of q m' "shl8_or w b" hi] Cons.prems Suc w show ?thesis
      by (simp add: Let_def algebra_simps)
  qed
qed simp

lemma BN_bin2bn_val [bn_spec]:
  assumes "BN_bin2bn malloc new inp ret = Some r"
  shows "bn_abs r = be_nat inp" and "inp \<noteq> [] \<Longrightarrow> bn_neg r = False" and "bn_width r = (length inp + 7) div 8"
proof -
  let ?w = "bin2bn_loop ((length inp - 1) mod 8) 0 inp []"
  have "bn_abs r = be_nat inp \<and> (inp \<noteq> [] \<longrightarrow> bn_neg r = False) \<and> bn_width r = (length inp + 7) div 8"
  proof (cases "inp = []")
    case True
    with assms show ?thesis by (auto simp: BN_bin2bn_def bn_abs_def split: option.splits)
  next
    case False
    then have "length inp = 8 * ((length inp - 1) div 8) + (length inp - 1) mod 8 + 1" by (cases inp) simp_all
    from bin2bn_loop_val [OF this, of 0 "[]"] have w: "bn_val ?w = be_nat inp" "length ?w = Suc ((length inp - 1) div 8)"
      by simp_all
    moreover have "Suc ((length inp - 1) div 8) = (length inp + 7) div 8"
      using False div_add_self2 [of 8 "length inp - 1"] by (cases inp) simp_all
    moreover obtain r1 where "r = (put_words ?w r1)\<lparr>bn_neg := False\<rparr>"
      using assms False by (auto simp: BN_bin2bn_def Let_def split: option.splits prod.splits)
    ultimately show ?thesis by (simp only: set_neg bn_abs_put_words) simp
  qed
  then show "bn_abs r = be_nat inp" "inp \<noteq> [] \<Longrightarrow> bn_neg r = False" "bn_width r = (length inp + 7) div 8" by simp_all
qed

lemma le_nat_take_drop: "le_nat bs = le_nat (take n bs) + 256 ^ n * le_nat (drop n bs)"
proof (cases "n \<le> length bs")
  case True
  with le_nat_append [of "take n bs" "drop n bs"] show ?thesis by simp
qed simp

lemma le_limbs_val: "length bs \<le> 8 * n \<Longrightarrow> bn_val (le_limbs n bs) = le_nat bs \<and> length (le_limbs n bs) = n"
proof (induction n bs rule: le_limbs.induct)
  case (1 n bs)
  have "le_nat (take 8 bs) < 256 ^ length (take 8 bs)" by (rule le_nat_less)
  also have "\<dots> \<le> 256 ^ 8" by (intro power_increasing) simp_all
  finally have "unat (of_nat (le_nat (take 8 bs)) :: u64) = le_nat (take 8 bs)"
    by (intro unat_of_nat_small) simp
  with 1 le_nat_take_drop [of bs 8] show ?case by (simp add: base_256)
qed simp

lemma BN_le2bn_val [bn_spec]:
  assumes "BN_le2bn malloc new inp ret = Some r"
  shows "bn_abs r = le_nat inp"
proof (cases "inp = []")
  case True
  with assms show ?thesis by (auto simp: BN_le2bn_def bn_abs_def split: option.splits)
next
  case False
  let ?w = "le_limbs ((length inp - 1) div 8 + 1) inp"
  have "length inp \<le> 8 * ((length inp - 1) div 8 + 1)" using False by (cases inp) simp_all
  then have "bn_val ?w = le_nat inp" using le_limbs_val by blast
  moreover obtain r1 where "r = put_words ?w r1"
    using assms False by (auto simp: BN_le2bn_def Let_def split: option.splits prod.splits)
  ultimately show ?thesis by simp
qed

section \<open>Writing\<close>

lemma length_bn_bytes [simp]: "length (bn_bytes ws) = 8 * length ws"
  by (induction ws) (simp_all add: bn_bytes_def)

lemma le_nat_bn_bytes: "le_nat (bn_bytes ws) = bn_val ws"
proof (induction ws)
  case (Cons w ws)
  have "unat w mod 256 ^ 8 = unat w" using limb_less [of w] by (simp add: base_256 del: limb_less)
  with Cons show ?case by (simp add: bn_bytes_def le_nat_append le_nat_le_bytes base_256)
qed (simp add: bn_bytes_def)

lemma be_nat_rev: "be_nat (rev bs) = le_nat bs"
  by (induction bs) simp_all

lemma le_nat_replicate_0 [simp]: "le_nat (replicate n 0) = 0"
  by (induction n) simp_all

lemma le_nat_0_iff: "le_nat bs = 0 \<longleftrightarrow> (\<forall>b \<in> set bs. b = 0)"
  by (induction bs) (auto simp: unat_eq_0)

lemma fold_or_bytes_0_iff: "fold (OR) bs x = 0 \<longleftrightarrow> x = 0 \<and> (\<forall>b \<in> set bs. b = (0 :: byte))"
  by (induction bs arbitrary: x) (auto simp: or_eq_0_iff)

lemma fits_in_bytes_iff: "fits_in_bytes bytes len \<longleftrightarrow> le_nat bytes < 256 ^ len"
proof (cases "len \<le> length bytes")
  case True
  have "le_nat (take len bytes) < 256 ^ len" using le_nat_less [of "take len bytes"] True by simp
  then show ?thesis
    using le_nat_take_drop [of bytes len]
    by (cases "le_nat (drop len bytes)") (auto simp: fits_in_bytes_def fold_or_bytes_0_iff simp flip: le_nat_0_iff)
next
  case False
  have "le_nat bytes < 256 ^ length bytes" by (rule le_nat_less)
  also have "\<dots> \<le> 256 ^ len" using False by (intro power_increasing) simp_all
  finally show ?thesis using False by (simp add: fits_in_bytes_def)
qed

lemma le_bytes_eqI: "length bs = n \<Longrightarrow> le_nat bs = v \<Longrightarrow> bs = le_bytes n v"
  using le_bytes_le_nat [of bs] by auto

lemma be_bytes_eqI: "length bs = n \<Longrightarrow> be_nat bs = v \<Longrightarrow> bs = be_bytes n v"
  using be_bytes_be_nat [of bs] by auto

lemma BN_bn2le_padded_val [bn_spec]:
  assumes "bn_ok bn"
  shows "BN_bn2le_padded len bn = (if bn_abs bn < 256 ^ len then Some (le_bytes len (bn_abs bn)) else None)"
proof -
  let ?b = "bn_bytes (bn_words bn)"
  have len: "length ?b = bn_width bn * 8" using assms by (simp add: bn_ok_def)
  have fits: "fits_in_bytes ?b len \<longleftrightarrow> bn_abs bn < 256 ^ len"
    by (simp add: fits_in_bytes_iff le_nat_bn_bytes bn_abs_def)
  have big: "bn_abs bn < 256 ^ len" if "bn_width bn * 8 \<le> len"
    using that fits len by (simp add: fits_in_bytes_def)
  show ?thesis
  proof (cases "bn_abs bn < 256 ^ len")
    case True
    let ?n = "min len (bn_width bn * 8)"
    have "le_nat (take ?n ?b) = bn_abs bn"
    proof (cases "len < bn_width bn * 8")
      case lt: True
      with True fits have "le_nat (drop len ?b) = 0"
        by (simp add: fits_in_bytes_def fold_or_bytes_0_iff le_nat_0_iff)
      with le_nat_take_drop [of ?b len] lt show ?thesis by (simp add: le_nat_bn_bytes bn_abs_def)
    next
      case False
      with len show ?thesis by (simp add: le_nat_bn_bytes bn_abs_def)
    qed
    then have "take ?n ?b @ replicate (len - ?n) 0 = le_bytes len (bn_abs bn)"
      using len by (intro le_bytes_eqI) (simp_all add: le_nat_append)
    with True fits show ?thesis by (simp add: BN_bn2le_padded_def Let_def)
  next
    case False
    with big have "len < bn_width bn * 8" by (meson not_le)
    with False fits show ?thesis by (simp add: BN_bn2le_padded_def Let_def)
  qed
qed

lemma BN_bn2bin_padded_rev: "BN_bn2bin_padded len bn = map_option rev (BN_bn2le_padded len bn)"
  by (simp add: BN_bn2bin_padded_def BN_bn2le_padded_def Let_def)

lemma rev_le_bytes: "rev (le_bytes n v) = be_bytes n (v mod 256 ^ n)"
  by (rule be_bytes_eqI) (simp_all add: be_nat_rev le_nat_le_bytes)

lemma BN_bn2bin_padded_val [bn_spec]:
  assumes "bn_ok bn"
  shows "BN_bn2bin_padded len bn = (if bn_abs bn < 256 ^ len then Some (be_bytes len (bn_abs bn)) else None)"
  using BN_bn2le_padded_val [OF assms, of len] by (simp add: BN_bn2bin_padded_rev rev_le_bytes)

lemma nth_le_bytes: "i < n \<Longrightarrow> le_bytes n v ! i = of_nat (v div 256 ^ i)"
proof (induction n arbitrary: i v)
  case (Suc n)
  then show ?case by (cases i) (simp_all add: div_mult2_eq)
qed simp

lemma bn_bytes_Cons: "bn_bytes (w # ws) = le_bytes 8 (unat w) @ bn_bytes ws"
  by (simp add: bn_bytes_def)

lemma bn_byte:
  "i < 8 * length ws \<Longrightarrow> bn_bytes ws ! i = ucast (drop_bit (8 * (i mod 8)) (ws ! (i div 8)))"
proof (induction ws arbitrary: i)
  case (Cons w ws)
  show ?case
  proof (cases "i < 8")
    case True
    have "unat (drop_bit (8 * i) w) = unat w div 256 ^ i"
      unfolding unat_drop_bit_eq drop_bit_eq_div [where 'a = nat] power_mult by simp
    then have "le_bytes 8 (unat w) ! i = ucast (drop_bit (8 * i) w)"
      using True by (simp only: nth_le_bytes ucast_eq_of_nat)
    with True show ?thesis unfolding bn_bytes_Cons by (simp add: nth_append)
  next
    case False
    then have i: "i div 8 = Suc ((i - 8) div 8)" "i mod 8 = (i - 8) mod 8"
      using le_div_geq [of 8 i] le_mod_geq [of 8 i] by simp_all
    have "bn_bytes (w # ws) ! i = bn_bytes ws ! (i - 8)"
      using False unfolding bn_bytes_Cons by (simp add: nth_append)
    moreover have "i - 8 < 8 * length ws" using Cons.prems False by simp
    ultimately show ?thesis using Cons.IH [of "i - 8"] unfolding i by (simp only: nth_Cons_Suc)
  qed
qed simp

lemma BN_num_bytes_val: "bn_ok bn \<Longrightarrow> bn_abs bn < 256 ^ BN_num_bytes bn"
proof -
  assume ok: "bn_ok bn"
  have "bn_abs bn < 2 ^ BN_num_bits bn" using ok by (rule BN_num_bits_val)
  also have "\<dots> \<le> 2 ^ (8 * BN_num_bytes bn)" unfolding BN_num_bytes_def by (intro power_increasing) simp_all
  finally show ?thesis by (simp add: power_mult)
qed

lemma BN_bn2bin_val [bn_spec]:
  assumes "bn_ok bn"
  shows "BN_bn2bin bn = be_bytes (BN_num_bytes bn) (bn_abs bn)"
proof -
  let ?n = "BN_num_bytes bn" and ?b = "bn_bytes (bn_words bn)"
  have "BN_num_bits bn \<le> 64 * bn_width bn"
  proof (rule ccontr)
    assume big: "\<not> ?thesis"
    have "bn_abs bn \<noteq> 0 \<Longrightarrow> False"
    proof -
      assume "bn_abs bn \<noteq> 0"
      then have "2 ^ (BN_num_bits bn - 1) \<le> bn_abs bn" using BN_num_bits_val(2) [OF assms] by blast
      also have "bn_abs bn < bn_base ^ bn_width bn" by (rule bn_abs_less)
      finally have "(2 :: nat) ^ (BN_num_bits bn - 1) < 2 ^ (64 * bn_width bn)" by (simp add: bn_base_def power_mult)
      then show False using big by (simp add: power_strict_increasing_iff)
    qed
    then have "bn_minimal_width bn = 0" using bn_minimal_width_0_iff [OF assms] by blast
    with big show False by (simp add: BN_num_bits_def)
  qed
  then have n: "?n \<le> 8 * bn_width bn" by (simp add: BN_num_bytes_def)
  have len: "length ?b = 8 * bn_width bn" using assms by (simp add: bn_ok_def)
  have "map (\<lambda>i. ucast (drop_bit (8 * (i mod 8)) (bn_d bn ! (i div 8)))) [0..<?n] = take ?n ?b"
    using n len assms by (intro nth_equalityI) (auto simp: bn_byte bn_ok_def)
  then have "BN_bn2bin bn = rev (take ?n ?b)" by (simp add: BN_bn2bin_def flip: rev_map)
  moreover have "fits_in_bytes ?b ?n"
    using BN_num_bytes_val [OF assms] by (simp add: fits_in_bytes_iff le_nat_bn_bytes bn_abs_def)
  ultimately have "Some (BN_bn2bin bn) = BN_bn2bin_padded ?n bn"
    using n by (simp add: BN_bn2bin_padded_def Let_def min_absorb1)
  then show ?thesis using BN_bn2bin_padded_val [OF assms] BN_num_bytes_val [OF assms] by simp
qed

section \<open>Machine words\<close>

lemma BN_get_u64_val [bn_spec]:
  assumes "bn_ok bn"
  shows "BN_get_u64 bn = (if bn_abs bn < 2 ^ 64 then Some (of_nat (bn_abs bn)) else None)"
    and "BN_get_word bn = (if bn_abs bn < 2 ^ 64 then of_nat (bn_abs bn) else - 1)"
proof -
  note m = bn_minimal_width [OF assms]
  consider "bn_minimal_width bn = 0" | "bn_minimal_width bn = 1" | k where "bn_minimal_width bn = Suc (Suc k)"
    by (metis One_nat_def not0_implies_Suc)
  then have "BN_get_u64 bn = (if bn_abs bn < 2 ^ 64 then Some (of_nat (bn_abs bn)) else None) \<and>
    BN_get_word bn = (if bn_abs bn < 2 ^ 64 then of_nat (bn_abs bn) else - 1)"
  proof cases
    case 1
    with m show ?thesis by (simp add: BN_get_u64_def BN_get_word_def)
  next
    case 2
    with m(1) assms have "take 1 (bn_d bn) = [bn_d bn ! 0]"
      by (cases "bn_d bn") (simp_all add: bn_ok_def)
    with m(2,5) 2 have "bn_abs bn = unat (bn_d bn ! 0)" "bn_abs bn < 2 ^ 64" by (simp_all add: bn_base_def)
    with 2 show ?thesis by (simp add: BN_get_u64_def BN_get_word_def)
  next
    case 3
    have "(2 :: nat) ^ 64 \<le> bn_base ^ Suc k" by (simp add: bn_base_def)
    also have "\<dots> \<le> bn_abs bn" using m(4) 3 by simp
    finally show ?thesis using 3 by (simp add: BN_get_u64_def BN_get_word_def)
  qed
  then show "BN_get_u64 bn = (if bn_abs bn < 2 ^ 64 then Some (of_nat (bn_abs bn)) else None)"
    "BN_get_word bn = (if bn_abs bn < 2 ^ 64 then of_nat (bn_abs bn) else - 1)" by simp_all
qed

end
