(* ===== verification/Bn_Add.thy ===== *)
theory Bn_Add
  imports Bignum
begin

text \<open>
  Addition and subtraction of big numbers, \<open>fipsmodule/bn/add.c\<close>, as operations on the
  destination.  A function that fails halfway leaves the destination as the code does.
\<close>

section \<open>The operations\<close>

text \<open>The loops that carry or borrow through the limbs of the longer operand.\<close>

fun add_carry :: "u64 \<Rightarrow> limbs \<Rightarrow> limbs \<times> u64" where
  "add_carry carry (a # as) =
    (let tmp = carry + a; (rs, c) = add_carry (of_bool (tmp < a)) as in (tmp # rs, c))"
| "add_carry carry [] = ([], carry)"

fun sub_borrow :: "u64 \<Rightarrow> limbs \<Rightarrow> limbs \<times> u64" where
  "sub_borrow borrow (a # as) =
    (let r = a - borrow; (rs, c) = sub_borrow (of_bool (a < r)) as in (r # rs, c))"
| "sub_borrow borrow [] = ([], borrow)"

definition bn_uadd_consttime :: "(nat \<Rightarrow> bool) \<Rightarrow> bignum \<Rightarrow> bignum \<Rightarrow> unit bn_oper" where
  "bn_uadd_consttime malloc a b =
    (let (a, b) = (if bn_width a < bn_width b then (b, a) else (a, b));
         max = bn_width a; min = bn_width b
     in and_then (bn_wexpand malloc (max + 1)) (\<lambda>_ r.
          let (lo, carry) = bn_add_words (take min (bn_d a)) (take min (bn_d b));
              (hi, carry) = add_carry carry (drop min (bn_words a))
          in (Some (), put_words (lo @ hi @ [carry]) r)))"

definition BN_uadd :: "(nat \<Rightarrow> bool) \<Rightarrow> bignum \<Rightarrow> bignum \<Rightarrow> unit bn_oper" where
  "BN_uadd malloc a b = and_then (bn_uadd_consttime malloc a b) (\<lambda>_ r. (Some (), bn_set_minimal_width r))"

definition bn_usub_consttime :: "(nat \<Rightarrow> bool) \<Rightarrow> bignum \<Rightarrow> bignum \<Rightarrow> unit bn_oper" where
  "bn_usub_consttime malloc a b r =
    (if bn_width a < bn_width b \<and> \<not> bn_fits_in_words (bn_width a) b then (None, r)
     else let b_width = min (bn_width b) (bn_width a)
     in and_then (bn_wexpand malloc (bn_width a)) (\<lambda>_ r.
          let (lo, borrow) = bn_sub_words (take b_width (bn_d a)) (take b_width (bn_d b));
              (hi, borrow) = sub_borrow borrow (drop b_width (bn_words a))
          in if borrow \<noteq> 0 then (None, set_d (lo @ hi) r)
             else (Some (), (put_words (lo @ hi) r)\<lparr>bn_neg := False\<rparr>)) r)"

definition BN_usub :: "(nat \<Rightarrow> bool) \<Rightarrow> bignum \<Rightarrow> bignum \<Rightarrow> unit bn_oper" where
  "BN_usub malloc a b = and_then (bn_usub_consttime malloc a b) (\<lambda>_ r. (Some (), bn_set_minimal_width r))"

text \<open>\<open>r->neg = neg\<close> after a call that succeeded.\<close>

definition then_neg :: "unit bn_oper \<Rightarrow> bool \<Rightarrow> unit bn_oper" where
  "then_neg m neg = and_then m (\<lambda>_ r. (Some (), r\<lparr>bn_neg := neg\<rparr>))"

definition BN_add :: "(nat \<Rightarrow> bool) \<Rightarrow> bignum \<Rightarrow> bignum \<Rightarrow> unit bn_oper" where
  "BN_add malloc a b r =
    (if bn_neg a \<noteq> bn_neg b then
       let (a, b) = (if bn_neg a then (b, a) else (a, b))
       in if sint (BN_ucmp a b) < 0 then then_neg (BN_usub malloc b a) True r
          else then_neg (BN_usub malloc a b) False r
     else case BN_uadd malloc a b r of (ret, r') \<Rightarrow> (ret, r'\<lparr>bn_neg := bn_neg a\<rparr>))"

definition BN_sub :: "(nat \<Rightarrow> bool) \<Rightarrow> bignum \<Rightarrow> bignum \<Rightarrow> unit bn_oper" where
  "BN_sub malloc a b r =
    (let (add, neg, a', b') =
       (if bn_neg a then if bn_neg b then (False, False, b, a) else (True, True, a, b)
        else if bn_neg b then (True, False, a, b) else (False, False, a, b))
     in if add then then_neg (BN_uadd malloc a' b') neg r
        else if sint (BN_ucmp a' b') < 0 then then_neg (BN_usub malloc b' a') True r
        else then_neg (BN_usub malloc a' b') False r)"

fun add_word_loop :: "u64 \<Rightarrow> limbs \<Rightarrow> limbs \<times> u64" where
  "add_word_loop w (a # as) =
    (if w = 0 then (a # as, 0)
     else let l = a + w; (rs, w') = add_word_loop (of_bool (w > l)) as in (l # rs, w'))"
| "add_word_loop w [] = ([], w)"

text \<open>The result holds the new limbs and the index at which the loop stops.\<close>

fun sub_word_loop :: "u64 \<Rightarrow> limbs \<Rightarrow> limbs \<times> nat" where
  "sub_word_loop w (a # as) =
    (if w \<le> a then ((a - w) # as, 0)
     else case sub_word_loop 1 as of (rs, i) \<Rightarrow> ((a - w) # rs, Suc i))"
| "sub_word_loop w [] = ([], 0)"

function BN_add_word :: "(nat \<Rightarrow> bool) \<Rightarrow> u64 \<Rightarrow> unit bn_oper"
  and BN_sub_word :: "(nat \<Rightarrow> bool) \<Rightarrow> u64 \<Rightarrow> unit bn_oper" where
  "BN_add_word malloc w a =
    (if w = 0 then (Some (), a)
     else if BN_is_zero a then BN_set_word malloc w a
     else if bn_neg a then
       (case BN_sub_word malloc w (a\<lparr>bn_neg := False\<rparr>) of (i, a') \<Rightarrow>
          (i, if BN_is_zero a' then a' else a'\<lparr>bn_neg := \<not> bn_neg a'\<rparr>))
     else case add_word_loop w (bn_words a) of (rs, w') \<Rightarrow>
       (if w' \<noteq> 0
        then and_then (bn_wexpand malloc (bn_width a + 1)) (\<lambda>_ a. (Some (), put_words (rs @ [w']) a)) (set_d rs a)
        else (Some (), set_d rs a)))"
| "BN_sub_word malloc w a =
    (if w = 0 then (Some (), a)
     else if BN_is_zero a then
       (case BN_set_word malloc w a of
          (None, a') \<Rightarrow> (None, a') | (Some _, a') \<Rightarrow> (Some (), BN_set_negative True a'))
     else if bn_neg a then
       (case BN_add_word malloc w (a\<lparr>bn_neg := False\<rparr>) of (i, a') \<Rightarrow> (i, a'\<lparr>bn_neg := True\<rparr>))
     else if bn_minimal_width a = 1 \<and> bn_d a ! 0 < w then
       (Some (), (set_d [w - bn_d a ! 0] a)\<lparr>bn_neg := True\<rparr>)
     else case sub_word_loop w (bn_words a) of (rs, i) \<Rightarrow>
       (Some (), if rs ! i = 0 \<and> i = bn_width a - 1
                 then (set_d rs a)\<lparr>bn_width := bn_width a - 1\<rparr> else set_d rs a))"
  by pat_completeness auto
termination
  by (relation "measure (case_sum (\<lambda>(_, _, a). if bn_neg a then 1 else 0) (\<lambda>(_, _, a). if bn_neg a then 1 else 0))")
    auto

declare BN_add_word.simps [simp del] BN_sub_word.simps [simp del]

section \<open>They compute sums and differences\<close>

lemma add_carry_val:
  "add_carry carry as = (rs, c) \<Longrightarrow> unat carry \<le> 1 \<Longrightarrow>
    length rs = length as \<and> unat c \<le> 1 \<and>
    bn_val rs + bn_base ^ length as * unat c = bn_val as + unat carry"
proof (induction carry as arbitrary: rs c rule: add_carry.induct)
  case (1 carry a as)
  obtain rs0 where rest: "add_carry (of_bool (carry + a < a)) as = (rs0, c)" "rs = (carry + a) # rs0"
    using 1(2) by (auto simp: Let_def split: prod.splits)
  have limb: "unat (carry + a) + bn_base * of_bool (carry + a < a) = unat carry + unat a"
    by (rule unat_carry)
  from 1(1) [OF refl rest(1)] have IH: "length rs0 = length as" "unat c \<le> 1"
    "bn_val rs0 + bn_base ^ length as * unat c = bn_val as + of_bool (carry + a < a)"
    by auto
  have "bn_val rs + bn_base ^ length (a # as) * unat c =
      unat (carry + a) + bn_base * (bn_val rs0 + bn_base ^ length as * unat c)"
    by (simp add: rest(2) algebra_simps)
  also have "\<dots> = (unat (carry + a) + bn_base * of_bool (carry + a < a)) + bn_base * bn_val as"
    unfolding IH(3) by (simp add: algebra_simps)
  finally show ?case using limb IH rest(2) by simp
qed simp

lemma sub_borrow_val:
  "sub_borrow borrow as = (rs, c) \<Longrightarrow> borrow = 0 \<or> borrow = 1 \<Longrightarrow>
    length rs = length as \<and> (c = 0 \<or> c = 1) \<and>
    bn_val rs + unat borrow = bn_val as + bn_base ^ length as * unat c"
proof (induction borrow as arbitrary: rs c rule: sub_borrow.induct)
  case (1 borrow a as)
  have limb: "unat (a - borrow) + unat borrow = unat a + bn_base * of_bool (a < a - borrow)"
    using sub_step [of borrow a 0] 1(3) by (auto simp: word_less_nat_alt unat_sub_if_size word_size split: if_splits)
  obtain rs0 where rest: "sub_borrow (of_bool (a < a - borrow)) as = (rs0, c)" "rs = (a - borrow) # rs0"
    using 1(2) by (auto simp: Let_def split: prod.splits)
  from 1(1) [OF refl rest(1)] have IH: "length rs0 = length as" "c = 0 \<or> c = 1"
    "bn_val rs0 + of_bool (a < a - borrow) = bn_val as + bn_base ^ length as * unat c"
    by auto
  have "bn_val rs + unat borrow + bn_base * of_bool (a < a - borrow) =
      (unat (a - borrow) + unat borrow) + bn_base * (bn_val rs0 + of_bool (a < a - borrow))"
    by (simp add: rest(2) algebra_simps)
  also have "\<dots> = bn_val (a # as) + bn_base ^ length (a # as) * unat c + bn_base * of_bool (a < a - borrow)"
    unfolding IH(3) limb by (simp add: algebra_simps)
  finally show ?case using IH rest(2) by simp
qed simp

lemma uadd_consttime_ordered:
  assumes "bn_ok a" and "bn_ok b" and "bn_width b \<le> bn_width a"
    and "bn_add_words (take (bn_width b) (bn_d a)) (take (bn_width b) (bn_d b)) = (lo, c)"
    and "add_carry c (drop (bn_width b) (bn_words a)) = (hi, c')"
  shows "length (lo @ hi @ [c']) = bn_width a + 1" and "bn_val (lo @ hi @ [c']) = bn_abs a + bn_abs b"
proof -
  have len: "length (take (bn_width b) (bn_d a)) = bn_width b" "length (take (bn_width b) (bn_d b)) = bn_width b"
    using assms by (simp_all add: bn_ok_def)
  note lo = bn_add_words_val [OF assms(4), unfolded len, OF refl]
  note hi = add_carry_val [OF assms(5) lo(2)]
  show "length (lo @ hi @ [c']) = bn_width a + 1"
    using lo(1) hi assms by simp
  have "bn_val (lo @ hi @ [c']) = bn_val lo + bn_base ^ bn_width b * (bn_val hi + bn_base ^ length hi * unat c')"
    using lo(1) by (simp add: bn_val_append)
  also have "\<dots> = (bn_val lo + bn_base ^ bn_width b * unat c) + bn_base ^ bn_width b * bn_val (drop (bn_width b) (bn_words a))"
    using hi by (simp add: algebra_simps)
  also have "\<dots> = bn_abs a + bn_abs b"
    using lo(3) words_split [OF assms(1,3)] by (simp add: bn_abs_def)
  finally show "bn_val (lo @ hi @ [c']) = bn_abs a + bn_abs b" .
qed

lemma bn_uadd_consttime_val [bn_spec]:
  assumes "bn_ok a" and "bn_ok b" and "bn_uadd_consttime malloc a b r = (res, r')"
  shows "res = Some () \<longleftrightarrow> bn_room malloc (max (bn_width a) (bn_width b) + 1) r"
    and "res = Some () \<Longrightarrow> bn_ok r' \<and> bn_abs r' = bn_abs a + bn_abs b \<and>
      bn_width r' = max (bn_width a) (bn_width b) + 1"
proof -
  obtain a' b' where ab: "(if bn_width a < bn_width b then (b, a) else (a, b)) = (a', b')" by fastforce
  then have ord: "bn_ok a'" "bn_ok b'" "bn_width b' \<le> bn_width a'"
    and max: "bn_width a' = max (bn_width a) (bn_width b)" and sum: "bn_abs a' + bn_abs b' = bn_abs a + bn_abs b"
    using assms(1,2) by (auto split: if_splits)
  obtain lo c where lo: "bn_add_words (take (bn_width b') (bn_d a')) (take (bn_width b') (bn_d b')) = (lo, c)"
    by fastforce
  obtain hi c' where hi: "add_carry c (drop (bn_width b') (bn_words a')) = (hi, c')" by fastforce
  note u = uadd_consttime_ordered [OF ord lo hi]
  have run: "bn_uadd_consttime malloc a b r = and_then (bn_wexpand malloc (max (bn_width a) (bn_width b) + 1))
      (\<lambda>_ r. (Some (), put_words (lo @ hi @ [c']) r)) r"
    unfolding bn_uadd_consttime_def ab by (simp add: lo hi) (simp add: max)
  have "(res = Some () \<longleftrightarrow> bn_room malloc (max (bn_width a) (bn_width b) + 1) r) \<and>
    (res = Some () \<longrightarrow> bn_ok r' \<and> bn_abs r' = bn_abs a + bn_abs b \<and> bn_width r' = max (bn_width a) (bn_width b) + 1)"
  proof (cases rule: bn_wexpand_cases [of malloc "max (bn_width a) (bn_width b) + 1" r])
    case no_room
    with assms(3) show ?thesis unfolding run by (simp add: op_simps)
  next
    case (room bn')
    with assms(3) have "res = Some ()" "r' = put_words (lo @ hi @ [c']) bn'"
      unfolding run by (simp_all add: op_simps del: append_assoc)
    with room u sum max show ?thesis by simp
  qed
  then show "res = Some () \<longleftrightarrow> bn_room malloc (max (bn_width a) (bn_width b) + 1) r"
    "res = Some () \<Longrightarrow> bn_ok r' \<and> bn_abs r' = bn_abs a + bn_abs b \<and>
      bn_width r' = max (bn_width a) (bn_width b) + 1" by simp_all
qed

lemma BN_uadd_val [bn_spec]:
  assumes "bn_ok a" and "bn_ok b" and "BN_uadd malloc a b r = (res, r')"
  shows "res = Some () \<longleftrightarrow> bn_room malloc (max (bn_width a) (bn_width b) + 1) r"
    and "res = Some () \<Longrightarrow> bn_normal r' \<and> bn_abs r' = bn_abs a + bn_abs b"
proof -
  obtain res0 r0 where u: "bn_uadd_consttime malloc a b r = (res0, r0)" by fastforce
  note v = bn_uadd_consttime_val [OF assms(1,2) u]
  have "res = res0" "res0 = Some () \<Longrightarrow> r' = bn_set_minimal_width r0"
    using assms(3) u by (auto simp: BN_uadd_def and_then_def split: option.splits)
  with v set_minimal_width [of r0] show "res = Some () \<longleftrightarrow> bn_room malloc (max (bn_width a) (bn_width b) + 1) r"
    "res = Some () \<Longrightarrow> bn_normal r' \<and> bn_abs r' = bn_abs a + bn_abs b" by simp_all
qed

lemma usub_words:
  assumes "bn_ok a" and "bn_ok b" and "bn_width a < bn_width b \<longrightarrow> bn_fits_in_words (bn_width a) b"
    and n: "n = min (bn_width b) (bn_width a)"
    and "bn_sub_words (take n (bn_d a)) (take n (bn_d b)) = (lo, c)"
    and "sub_borrow c (drop n (bn_words a)) = (hi, c')"
  shows "length (lo @ hi) = bn_width a" and "c' = 0 \<longleftrightarrow> bn_abs b \<le> bn_abs a"
    and "c' = 0 \<Longrightarrow> bn_val (lo @ hi) = bn_abs a - bn_abs b"
proof -
  have len: "length (take n (bn_d a)) = n" "length (take n (bn_d b)) = n" "n \<le> bn_width a" "n \<le> bn_width b"
    using assms(1,2) n by (simp_all add: bn_ok_def)
  note lo = bn_sub_words_val [OF assms(5), unfolded len, OF refl]
  note hi = sub_borrow_val [OF assms(6) lo(2)]
  show l: "length (lo @ hi) = bn_width a"
    using lo(1) hi len assms(1) by simp
  have "bn_val (drop n (bn_words b)) = 0"
  proof (cases "bn_width a < bn_width b")
    case True
    with assms(2,3) n show ?thesis
      using bn_words_split [of n "bn_words b"] by (simp add: fits_in_words_iff bn_abs_def min_absorb2)
  qed (use n assms(2) in simp)
  then have b: "bn_abs b = bn_val (take n (bn_d b))"
    using words_split [OF assms(2) len(4)] by simp
  have dl: "length (drop n (bn_words a)) = bn_width a - n" using assms(1) by simp
  have "bn_val (lo @ hi) + bn_abs b + bn_base ^ n * unat c =
      (bn_val lo + bn_val (take n (bn_d b))) + bn_base ^ n * (bn_val hi + unat c)"
    using lo(1) by (simp add: b bn_val_append algebra_simps)
  also have "\<dots> = bn_abs a + bn_base ^ n * bn_base ^ (bn_width a - n) * unat c' + bn_base ^ n * unat c"
    using lo(3) hi words_split [OF assms(1) len(3)] unfolding dl by (simp add: algebra_simps)
  finally have v: "bn_val (lo @ hi) + bn_abs b = bn_abs a + bn_base ^ bn_width a * unat c'"
    using len(3) by (simp flip: power_add)
  have "bn_val (lo @ hi) < bn_base ^ bn_width a" using bn_val_less [of "lo @ hi"] l by simp
  with v hi show "c' = 0 \<longleftrightarrow> bn_abs b \<le> bn_abs a" "c' = 0 \<Longrightarrow> bn_val (lo @ hi) = bn_abs a - bn_abs b"
    by auto
qed

lemma bn_usub_consttime_val [bn_spec]:
  assumes "bn_ok a" and "bn_ok b" and "bn_usub_consttime malloc a b r = (res, r')"
  shows "res = Some () \<longleftrightarrow> bn_abs b \<le> bn_abs a \<and> bn_room malloc (bn_width a) r"
    and "res = Some () \<Longrightarrow> bn_ok r' \<and> bn_abs r' = bn_abs a - bn_abs b \<and> \<not> bn_neg r' \<and> bn_width r' = bn_width a"
proof -
  let ?n = "min (bn_width b) (bn_width a)"
  have "(res = Some () \<longleftrightarrow> bn_abs b \<le> bn_abs a \<and> bn_room malloc (bn_width a) r) \<and>
    (res = Some () \<longrightarrow> bn_ok r' \<and> bn_abs r' = bn_abs a - bn_abs b \<and> \<not> bn_neg r' \<and> bn_width r' = bn_width a)"
  proof (cases "bn_width a < bn_width b \<and> \<not> bn_fits_in_words (bn_width a) b")
    case True
    then have "\<not> bn_abs b \<le> bn_abs a" using bn_abs_less [of a] by (simp add: fits_in_words_iff)
    with True assms(3) show ?thesis by (simp add: bn_usub_consttime_def)
  next
    case False
    obtain lo c where lo: "bn_sub_words (take ?n (bn_d a)) (take ?n (bn_d b)) = (lo, c)" by fastforce
    obtain hi c' where hi: "sub_borrow c (drop ?n (bn_words a)) = (hi, c')" by fastforce
    note u = usub_words [OF assms(1,2) _ refl lo hi]
    have run: "bn_usub_consttime malloc a b r = and_then (bn_wexpand malloc (bn_width a)) (\<lambda>_ r.
        if c' \<noteq> 0 then (None, set_d (lo @ hi) r) else (Some (), (put_words (lo @ hi) r)\<lparr>bn_neg := False\<rparr>)) r"
      unfolding bn_usub_consttime_def if_not_P [OF False] by (simp add: lo hi Let_def)
    show ?thesis
    proof (cases rule: bn_wexpand_cases [of malloc "bn_width a" r])
      case no_room
      with assms(3) show ?thesis unfolding run by (simp add: op_simps)
    next
      case (room bn')
      with assms(3) u False show ?thesis
        unfolding run by (cases "c' = 0") (auto simp: op_simps simp del: append_assoc length_append)
    qed
  qed
  then show "res = Some () \<longleftrightarrow> bn_abs b \<le> bn_abs a \<and> bn_room malloc (bn_width a) r"
    "res = Some () \<Longrightarrow> bn_ok r' \<and> bn_abs r' = bn_abs a - bn_abs b \<and> \<not> bn_neg r' \<and> bn_width r' = bn_width a"
    by simp_all
qed

lemma BN_usub_val [bn_spec]:
  assumes "bn_ok a" and "bn_ok b" and "BN_usub malloc a b r = (res, r')"
  shows "res = Some () \<longleftrightarrow> bn_abs b \<le> bn_abs a \<and> bn_room malloc (bn_width a) r"
    and "res = Some () \<Longrightarrow> bn_normal r' \<and> bn_abs r' = bn_abs a - bn_abs b \<and> \<not> bn_neg r'"
proof -
  obtain res0 r0 where u: "bn_usub_consttime malloc a b r = (res0, r0)" by fastforce
  note v = bn_usub_consttime_val [OF assms(1,2) u]
  have "res = res0" "res0 = Some () \<Longrightarrow> r' = bn_set_minimal_width r0"
    using assms(3) u by (auto simp: BN_usub_def and_then_def split: option.splits)
  with v set_minimal_width [of r0] show "res = Some () \<longleftrightarrow> bn_abs b \<le> bn_abs a \<and> bn_room malloc (bn_width a) r"
    "res = Some () \<Longrightarrow> bn_normal r' \<and> bn_abs r' = bn_abs a - bn_abs b \<and> \<not> bn_neg r'" by simp_all
qed

text \<open>How many limbs the destination must take.\<close>

definition sum_width :: "bool \<Rightarrow> bignum \<Rightarrow> bignum \<Rightarrow> nat" where
  "sum_width same a b =
    (if same then max (bn_width a) (bn_width b) + 1
     else if bn_abs a < bn_abs b then bn_width b else bn_width a)"

lemma then_neg_cases:
  assumes "then_neg m neg r = (res, r')"
  obtains r0 where "m r = (res, r0)" and "res = Some () \<longrightarrow> r' = r0\<lparr>bn_neg := neg\<rparr>"
  using assms by (auto simp: then_neg_def and_then_def split: prod.splits option.splits)

lemma difference_val:
  assumes "bn_ok a" and "bn_ok b"
    and "(if sint (BN_ucmp a b) < 0 then then_neg (BN_usub malloc b a) True r
          else then_neg (BN_usub malloc a b) False r) = (res, r')"
  shows "res = Some () \<longleftrightarrow> bn_room malloc (sum_width False a b) r"
    and "res = Some () \<Longrightarrow> bn_normal r' \<and> bn_int r' = int (bn_abs a) - int (bn_abs b)"
proof -
  have "(res = Some () \<longleftrightarrow> bn_room malloc (sum_width False a b) r) \<and>
    (res = Some () \<longrightarrow> bn_normal r' \<and> bn_int r' = int (bn_abs a) - int (bn_abs b))"
  proof (cases "bn_abs a < bn_abs b")
    case True
    with assms(3) have "then_neg (BN_usub malloc b a) True r = (res, r')" by (simp add: ucmp_less_iff)
    then obtain r0 where r0: "BN_usub malloc b a r = (res, r0)" "res = Some () \<longrightarrow> r' = r0\<lparr>bn_neg := True\<rparr>"
      by (rule then_neg_cases)
    from BN_usub_val [OF assms(2,1) r0(1)] r0(2) True show ?thesis
      by (auto simp: sum_width_def bn_int_def bn_normal_set_neg)
  next
    case False
    with assms(3) have "then_neg (BN_usub malloc a b) False r = (res, r')" by (simp add: ucmp_less_iff)
    then obtain r0 where r0: "BN_usub malloc a b r = (res, r0)" "res = Some () \<longrightarrow> r' = r0\<lparr>bn_neg := False\<rparr>"
      by (rule then_neg_cases)
    from BN_usub_val [OF assms(1,2) r0(1)] r0(2) False show ?thesis
      by (auto simp: sum_width_def bn_int_def bn_normal_set_neg)
  qed
  then show "res = Some () \<longleftrightarrow> bn_room malloc (sum_width False a b) r"
    "res = Some () \<Longrightarrow> bn_normal r' \<and> bn_int r' = int (bn_abs a) - int (bn_abs b)" by simp_all
qed

lemma sum_width_commute: "bn_abs a \<noteq> bn_abs b \<or> same \<Longrightarrow> sum_width same a b = sum_width same b a"
  by (auto simp: sum_width_def max.commute)

theorem BN_add_val [bn_spec]:
  assumes "bn_normal a" and "bn_normal b" and "BN_add malloc a b r = (res, r')"
  shows "res = Some () \<Longrightarrow> bn_normal r' \<and> bn_int r' = bn_int a + bn_int b"
    and "res = None \<Longrightarrow> \<exists>n \<le> max (bn_width a) (bn_width b) + 1. \<not> bn_room malloc n r"
proof -
  have ok: "bn_ok a" "bn_ok b" using assms(1,2) by (simp_all add: bn_normal_def)
  have "(res = Some () \<longrightarrow> bn_normal r' \<and> bn_int r' = bn_int a + bn_int b) \<and>
    (res = None \<longrightarrow> (\<exists>n \<le> max (bn_width a) (bn_width b) + 1. \<not> bn_room malloc n r))"
  proof (cases "bn_neg a = bn_neg b")
    case True
    with assms(3) obtain r0 where r0: "BN_uadd malloc a b r = (res, r0)" "r' = r0\<lparr>bn_neg := bn_neg a\<rparr>"
      by (auto simp: BN_add_def split: prod.splits)
    have "bn_abs a + bn_abs b \<noteq> 0" if "bn_neg a"
      using that bn_normal_nonneg [OF assms(1)] by auto
    with BN_uadd_val [OF ok r0(1)] r0(2) True show ?thesis
      by (auto simp: bn_int_def bn_normal_set_neg)
  next
    case False
    define a' b' where "a' = (if bn_neg a then b else a)" and "b' = (if bn_neg a then a else b)"
    have ok': "bn_ok a'" "bn_ok b'" using ok by (simp_all add: a'_def b'_def)
    have "int (bn_abs a') - int (bn_abs b') = bn_int a + bn_int b"
      using False by (auto simp: a'_def b'_def bn_int_def)
    moreover have "sum_width False a' b' \<le> max (bn_width a) (bn_width b) + 1"
      by (auto simp: sum_width_def a'_def b'_def)
    moreover have "(if sint (BN_ucmp a' b') < 0 then then_neg (BN_usub malloc b' a') True r
          else then_neg (BN_usub malloc a' b') False r) = (res, r')"
      using assms(3) False by (auto simp: BN_add_def a'_def b'_def split: if_splits)
    note difference_val [OF ok' this]
    ultimately show ?thesis by (cases res) auto
  qed
  then show "res = Some () \<Longrightarrow> bn_normal r' \<and> bn_int r' = bn_int a + bn_int b"
    "res = None \<Longrightarrow> \<exists>n \<le> max (bn_width a) (bn_width b) + 1. \<not> bn_room malloc n r" by simp_all
qed

theorem BN_sub_val [bn_spec]:
  assumes "bn_normal a" and "bn_normal b" and "BN_sub malloc a b r = (res, r')"
  shows "res = Some () \<Longrightarrow> bn_normal r' \<and> bn_int r' = bn_int a - bn_int b"
    and "res = None \<Longrightarrow> \<exists>n \<le> max (bn_width a) (bn_width b) + 1. \<not> bn_room malloc n r"
proof -
  have ok: "bn_ok a" "bn_ok b" using assms(1,2) by (simp_all add: bn_normal_def)
  have "(res = Some () \<longrightarrow> bn_normal r' \<and> bn_int r' = bn_int a - bn_int b) \<and>
    (res = None \<longrightarrow> (\<exists>n \<le> max (bn_width a) (bn_width b) + 1. \<not> bn_room malloc n r))"
  proof (cases "bn_neg a = bn_neg b")
    case False
    then have "then_neg (BN_uadd malloc a b) (bn_neg a) r = (res, r')"
      using assms(3) by (auto simp: BN_sub_def split: if_splits)
    then obtain r0 where r0: "BN_uadd malloc a b r = (res, r0)" "res = Some () \<longrightarrow> r' = r0\<lparr>bn_neg := bn_neg a\<rparr>"
      by (rule then_neg_cases)
    have "bn_abs a + bn_abs b \<noteq> 0" if "bn_neg a"
      using that bn_normal_nonneg [OF assms(1)] by auto
    with BN_uadd_val [OF ok r0(1)] r0(2) False show ?thesis
      by (auto simp: bn_int_def bn_normal_set_neg)
  next
    case True
    define a' b' where "a' = (if bn_neg a then b else a)" and "b' = (if bn_neg a then a else b)"
    have ok': "bn_ok a'" "bn_ok b'" using ok by (simp_all add: a'_def b'_def)
    have "int (bn_abs a') - int (bn_abs b') = bn_int a - bn_int b"
      using True by (auto simp: a'_def b'_def bn_int_def)
    moreover have "sum_width False a' b' \<le> max (bn_width a) (bn_width b) + 1"
      by (auto simp: sum_width_def a'_def b'_def)
    moreover have "(if sint (BN_ucmp a' b') < 0 then then_neg (BN_usub malloc b' a') True r
          else then_neg (BN_usub malloc a' b') False r) = (res, r')"
      using assms(3) True by (auto simp: BN_sub_def a'_def b'_def split: if_splits)
    note difference_val [OF ok' this]
    ultimately show ?thesis by (cases res) auto
  qed
  then show "res = Some () \<Longrightarrow> bn_normal r' \<and> bn_int r' = bn_int a - bn_int b"
    "res = None \<Longrightarrow> \<exists>n \<le> max (bn_width a) (bn_width b) + 1. \<not> bn_room malloc n r" by simp_all
qed

section \<open>Adding and subtracting a word\<close>

lemma add_word_loop_val:
  "add_word_loop w as = (rs, w') \<Longrightarrow>
    length rs = length as \<and> bn_val rs + bn_base ^ length as * unat w' = bn_val as + unat w \<and>
    (as \<noteq> [] \<longrightarrow> unat w' \<le> 1)"
proof (induction w as arbitrary: rs w' rule: add_word_loop.induct)
  case (1 w a as)
  show ?case
  proof (cases "w = 0")
    case False
    have limb: "unat (a + w) + bn_base * of_bool (w > a + w) = unat a + unat w"
      using unat_carry [of a w] by simp
    obtain rs0 where rest: "add_word_loop (of_bool (w > a + w)) as = (rs0, w')" "rs = (a + w) # rs0"
      using 1(2) False by (auto simp: Let_def split: prod.splits)
    from 1(1) [OF False refl rest(1)] have IH: "length rs0 = length as"
      "bn_val rs0 + bn_base ^ length as * unat w' = bn_val as + of_bool (w > a + w)"
      "as \<noteq> [] \<longrightarrow> unat w' \<le> 1" by auto
    have "bn_val rs + bn_base ^ length (a # as) * unat w' =
        unat (a + w) + bn_base * (bn_val rs0 + bn_base ^ length as * unat w')"
      by (simp add: rest(2) algebra_simps)
    also have "\<dots> = (unat (a + w) + bn_base * of_bool (w > a + w)) + bn_base * bn_val as"
      unfolding IH(2) by (simp add: algebra_simps)
    finally show ?thesis using limb IH rest
      by (cases as) (auto simp: of_bool_def split: if_splits)
  qed (use 1(2) in auto)
qed simp

lemma sub_word_loop_val:
  "sub_word_loop w as = (rs, i) \<Longrightarrow> unat w \<le> bn_val as \<Longrightarrow> as \<noteq> [] \<Longrightarrow>
    length rs = length as \<and> i < length as \<and> drop (Suc i) rs = drop (Suc i) as \<and> bn_val rs + unat w = bn_val as \<and>
    (0 < i \<longrightarrow> rs ! (i - 1) \<noteq> 0)"
proof (induction w as arbitrary: rs i rule: sub_word_loop.induct)
  case (1 w a as)
  show ?case
  proof (cases "w \<le> a")
    case True
    with 1(2) show ?thesis by (auto simp: unat_sub_if_size word_le_nat_alt)
  next
    case False
    obtain rs0 j where rest: "sub_word_loop 1 as = (rs0, j)" "rs = (a - w) # rs0" "i = Suc j"
      using 1(2) False by (auto split: prod.splits)
    have lt: "unat a < unat w" using False by (simp add: word_le_nat_alt)
    have pos: "1 \<le> bn_val as"
      using 1(3) lt by (cases "bn_val as") auto
    then have "as \<noteq> []" by auto
    with 1(1) [OF False rest(1)] pos have IH: "length rs0 = length as" "j < length as"
      "drop (Suc j) rs0 = drop (Suc j) as" "bn_val rs0 + 1 = bn_val as" "0 < j \<longrightarrow> rs0 ! (j - 1) \<noteq> 0" by auto
    have "unat (a - w) + unat w = unat a + bn_base"
      using lt unsigned_less [of w, where 'a = nat] by (simp add: unat_sub_if_size word_size bn_base_def)
    moreover have "bn_base * bn_val rs0 + bn_base = bn_base * bn_val as"
      unfolding IH(4) [symmetric] by simp
    moreover have "a - w \<noteq> 0" using False by auto
    ultimately show ?thesis using IH rest by (cases j) auto
  qed
qed simp

lemma BN_set_word_val [bn_spec]:
  assumes "bn_ok a" and "BN_set_word malloc w a = (res, a')"
  shows "res = Some () \<Longrightarrow> bn_normal a' \<and> bn_int a' = int (unat w)"
    and "res = None \<Longrightarrow> \<not> bn_room malloc 1 a"
proof -
  have "(res = Some () \<longrightarrow> bn_normal a' \<and> bn_int a' = int (unat w)) \<and> (res = None \<longrightarrow> \<not> bn_room malloc 1 a)"
  proof (cases "w = 0")
    case True
    with assms show ?thesis
      by (auto simp: BN_set_word_def BN_zero_def bn_int_def bn_abs_def bn_normal_iff bn_ok_def)
  next
    case False
    then have "1 \<le> unat w" by (simp add: Suc_le_eq unat_gt_0)
    with False assms show ?thesis
      by (cases rule: bn_wexpand_cases [of malloc 1 a])
        (auto simp: BN_set_word_def op_simps bn_int_def bn_normal_iff)
  qed
  then show "res = Some () \<Longrightarrow> bn_normal a' \<and> bn_int a' = int (unat w)"
    "res = None \<Longrightarrow> \<not> bn_room malloc 1 a" by simp_all
qed

lemma set_d_words:
  assumes "bn_ok a" and "length rs = bn_width a"
  shows "bn_words (set_d rs a) = rs" and "bn_ok (set_d rs a)" and "bn_width (set_d rs a) = bn_width a"
    and "bn_neg (set_d rs a) = bn_neg a" and "bn_room malloc n (set_d rs a) = bn_room malloc n a"
  using assms by (simp_all add: set_d_def bn_ok_def bn_room_def bn_wexpand_def)

lemma add_word_positive:
  assumes "bn_normal a" and "\<not> bn_neg a" and "bn_abs a \<noteq> 0" and "w \<noteq> 0"
    and "BN_add_word malloc w a = (res, a')"
  shows "res = Some () \<Longrightarrow> bn_normal a' \<and> bn_int a' = int (bn_abs a) + int (unat w)"
    and "res = None \<Longrightarrow> \<not> bn_room malloc (bn_width a + 1) a"
proof -
  have ok: "bn_ok a" using assms(1) by (rule bn_normal_ok)
  have ne: "bn_words a \<noteq> []" using assms(3) by (cases "bn_width a = 0") (auto simp: bn_abs_def)
  obtain rs w' where loop: "add_word_loop w (bn_words a) = (rs, w')" by fastforce
  from add_word_loop_val [OF this] ne ok have v: "length rs = bn_width a"
    "bn_val rs + bn_base ^ bn_width a * unat w' = bn_abs a + unat w" "unat w' \<le> 1"
    by (simp_all add: bn_abs_def)
  note d = set_d_words [OF ok v(1)]
  have run: "BN_add_word malloc w a = (if w' \<noteq> 0
      then and_then (bn_wexpand malloc (bn_width a + 1)) (\<lambda>_ a. (Some (), put_words (rs @ [w']) a)) (set_d rs a)
      else (Some (), set_d rs a))"
    using assms(2-4) by (simp add: BN_add_word.simps is_zero_iff loop)
  have "(res = Some () \<longrightarrow> bn_normal a' \<and> bn_int a' = int (bn_abs a) + int (unat w)) \<and>
    (res = None \<longrightarrow> \<not> bn_room malloc (bn_width a + 1) a)"
  proof (cases "w' = 0")
    case True
    with assms(5) run have a': "res = Some ()" "a' = set_d rs a" by simp_all
    have "bn_abs a' = bn_abs a + unat w"
      unfolding bn_abs_def a' d(1) using v(2) True by (simp add: bn_abs_def)
    with a' d assms(1,2) show ?thesis by (auto simp: bn_normal_iff bn_int_def)
  next
    case False
    with v(3) have w': "unat w' = 1" by (metis One_nat_def le_Suc_eq le_zero_eq unat_eq_0)
    show ?thesis
    proof (cases rule: bn_wexpand_cases [of malloc "bn_width a + 1" "set_d rs a"])
      case no_room
      with assms(5) False d show ?thesis unfolding run by (simp add: op_simps)
    next
      case (room bn')
      with assms(5) False have a': "res = Some ()" "a' = put_words (rs @ [w']) bn'"
        unfolding run by (simp_all add: op_simps)
      have "bn_abs a' = bn_abs a + unat w"
        using v w' by (simp add: a' bn_val_append)
      moreover have "\<not> bn_neg a'"
        using bn_wexpand_Some(5) [OF room(1) d(2)] d(4) assms(2) by (simp add: a')
      moreover have "bn_base ^ bn_width a \<le> bn_abs a'"
        using v w' by (simp add: a' bn_val_append)
      ultimately show ?thesis using a' v(1) by (simp add: bn_normal_iff bn_int_def)
    qed
  qed
  then show "res = Some () \<Longrightarrow> bn_normal a' \<and> bn_int a' = int (bn_abs a) + int (unat w)"
    "res = None \<Longrightarrow> \<not> bn_room malloc (bn_width a + 1) a" by simp_all
qed

lemma sub_word_positive:
  assumes "bn_normal a" and "\<not> bn_neg a" and "bn_abs a \<noteq> 0" and "w \<noteq> 0"
  shows "\<exists>a'. BN_sub_word malloc w a = (Some (), a') \<and> bn_normal a' \<and> bn_int a' = int (bn_abs a) - int (unat w)"
proof -
  have ok: "bn_ok a" and min: "bn_minimal_width a = bn_width a" using assms(1) by (simp_all add: bn_normal_def)
  have ne: "bn_words a \<noteq> []" using assms(3) by (cases "bn_width a = 0") (auto simp: bn_abs_def)
  show ?thesis
  proof (cases "bn_width a = 1 \<and> bn_d a ! 0 < w")
    case True
    then obtain x where x: "bn_words a = [x]" "bn_d a ! 0 = x"
      using ne by (cases "bn_d a") auto
    then have abs: "bn_abs a = unat x" by (simp add: bn_abs_def)
    let ?a' = "(set_d [w - x] a)\<lparr>bn_neg := True\<rparr>"
    have "unat (w - x) = unat w - unat x" "unat x < unat w"
      using True x by (simp_all add: unat_sub_if_size word_less_nat_alt)
    moreover have "bn_abs ?a' = unat (w - x)" "bn_width ?a' = 1" "bn_ok ?a'"
      using set_d_words [OF ok, of "[w - x]"] True by (simp_all add: bn_abs_def)
    ultimately have "bn_normal ?a'" "bn_int ?a' = int (bn_abs a) - int (unat w)"
      using abs by (auto simp: bn_normal_iff bn_int_def)
    moreover have "BN_sub_word malloc w a = (Some (), ?a')"
      using True x assms min by (simp add: BN_sub_word.simps is_zero_iff)
    ultimately show ?thesis by blast
  next
    case False
    obtain rs i where loop: "sub_word_loop w (bn_words a) = (rs, i)" by fastforce
    have le: "unat w \<le> bn_abs a"
    proof (cases "bn_width a = 1")
      case True
      then obtain x where "bn_words a = [x]" "bn_d a ! 0 = x" using ne by (cases "bn_d a") auto
      with False True show ?thesis by (simp add: bn_abs_def word_less_nat_alt)
    next
      case w2: False
      have "bn_width a \<noteq> 0" using ne by auto
      with w2 have "bn_base ^ 1 \<le> bn_base ^ (bn_width a - 1)" by (intro power_increasing) simp_all
      also have "\<dots> \<le> bn_abs a" using assms(1) \<open>bn_width a \<noteq> 0\<close> by (simp add: bn_normal_iff)
      finally show ?thesis using limb_less [of w] by (simp del: limb_less)
    qed
    from sub_word_loop_val [OF loop] le ne ok have v: "length rs = bn_width a" "i < bn_width a"
      "drop (Suc i) rs = drop (Suc i) (bn_words a)" "bn_val rs + unat w = bn_abs a"
      "0 < i \<longrightarrow> rs ! (i - 1) \<noteq> 0" by (simp_all add: bn_abs_def)
    note d = set_d_words [OF ok v(1)]
    let ?a' = "if rs ! i = 0 \<and> i = bn_width a - 1 then (set_d rs a)\<lparr>bn_width := bn_width a - 1\<rparr> else set_d rs a"
    have run: "BN_sub_word malloc w a = (Some (), ?a')"
      using False assms min by (auto simp: BN_sub_word.simps is_zero_iff loop)
    have "bn_normal ?a' \<and> bn_abs ?a' = bn_val rs"
    proof (cases "rs ! i = 0 \<and> i = bn_width a - 1")
      case True
      then have top: "rs ! (bn_width a - 1) = 0" "i = bn_width a - 1" by auto
      have w: "bn_width a = length rs" "0 < length rs" using v(1,2) by simp_all
      have val: "bn_val (take (length rs - 1) rs) = bn_val rs"
        using top_limb [of "length rs" rs] top w by simp
      have abs: "bn_abs ?a' = bn_val rs"
        using True val v(1) by (simp add: bn_abs_def set_d_def)
      have "bn_width a = 1 \<or> bn_base ^ (bn_width a - 1 - 1) \<le> bn_val rs"
      proof (cases "bn_width a = 1")
        case False
        with top_nonzero [of "bn_width a - 1" rs] v(1,2,5) top(2) val show ?thesis by simp
      qed simp
      with abs True d assms(2) show ?thesis by (auto simp: bn_normal_iff bn_ok_def)
    next
      case False
      have "rs ! (bn_width a - 1) \<noteq> 0"
      proof (cases "i = bn_width a - 1")
        case neq: False
        then have j: "bn_width a - 1 = Suc i + (bn_width a - 1 - Suc i)" using v(2) by simp
        have "rs ! (bn_width a - 1) = drop (Suc i) rs ! (bn_width a - 1 - Suc i)"
          using j v(1,2) by (subst j) (simp add: nth_drop)
        also have "\<dots> = bn_words a ! (bn_width a - 1)"
          unfolding v(3) using j v(2) ok by (subst j) (simp add: nth_drop)
        finally show ?thesis
          using bn_minimal_width(3) [OF ok] min v(2) by simp
      qed (use False in simp)
      then have "bn_base ^ (bn_width a - 1) \<le> bn_val rs"
        using top_nonzero [of "bn_width a" rs] v(1,2) by simp
      moreover have "bn_abs (set_d rs a) = bn_val rs" unfolding bn_abs_def d(1) ..
      ultimately show ?thesis using False d assms(2) by (auto simp: bn_normal_iff)
    qed
    moreover have "\<not> bn_neg ?a'" using d assms(2) by simp
    moreover have "int (bn_val rs) = int (bn_abs a) - int (unat w)" using v(4) by linarith
    ultimately show ?thesis using run unfolding bn_int_def by metis
  qed
qed

theorem BN_add_word_val [bn_spec]:
  assumes "bn_normal a" and "BN_add_word malloc w a = (res, a')"
  shows "res = Some () \<Longrightarrow> bn_normal a' \<and> bn_int a' = bn_int a + int (unat w)"
    and "res = None \<Longrightarrow> \<exists>n \<le> bn_width a + 1. \<not> bn_room malloc n a"
proof -
  have "(res = Some () \<longrightarrow> bn_normal a' \<and> bn_int a' = bn_int a + int (unat w)) \<and>
    (res = None \<longrightarrow> (\<exists>n \<le> bn_width a + 1. \<not> bn_room malloc n a))"
  proof (cases "w = 0 \<or> bn_abs a = 0")
    case True
    then consider "w = 0" | "w \<noteq> 0" "bn_abs a = 0" by (cases "w = 0") auto
    then show ?thesis
    proof cases
      case 1
      with assms show ?thesis by (auto simp: BN_add_word.simps)
    next
      case 2
      with assms(2) have "BN_set_word malloc w a = (res, a')" by (simp add: BN_add_word.simps is_zero_iff)
      from BN_set_word_val [OF bn_normal_ok [OF assms(1)] this] 2(2) show ?thesis by (auto simp: bn_int_def)
    qed
  next
    case False
    then have nz: "bn_abs a \<noteq> 0" "w \<noteq> 0" by simp_all
    show ?thesis
    proof (cases "bn_neg a")
      case pos: False
      from add_word_positive [OF assms(1) pos nz assms(2)] pos show ?thesis by (auto simp: bn_int_def)
    next
      case True
      have "bn_normal (a\<lparr>bn_neg := False\<rparr>)" using assms(1) by (simp add: bn_normal_set_neg)
      from sub_word_positive [OF this] nz obtain b where b:
        "BN_sub_word malloc w (a\<lparr>bn_neg := False\<rparr>) = (Some (), b)" "bn_normal b"
        "bn_int b = int (bn_abs a) - int (unat w)" by auto
      have run: "res = Some ()" "a' = (if bn_abs b = 0 then b else b\<lparr>bn_neg := \<not> bn_neg b\<rparr>)"
        using assms(2) True nz b(1) by (auto simp: BN_add_word.simps is_zero_iff)
      from b(2,3) True show ?thesis
        by (auto simp: run bn_int_def bn_normal_set_neg split: if_splits)
    qed
  qed
  then show "res = Some () \<Longrightarrow> bn_normal a' \<and> bn_int a' = bn_int a + int (unat w)"
    "res = None \<Longrightarrow> \<exists>n \<le> bn_width a + 1. \<not> bn_room malloc n a" by simp_all
qed

theorem BN_sub_word_val [bn_spec]:
  assumes "bn_normal a" and "BN_sub_word malloc w a = (res, a')"
  shows "res = Some () \<Longrightarrow> bn_normal a' \<and> bn_int a' = bn_int a - int (unat w)"
    and "res = None \<Longrightarrow> \<exists>n \<le> bn_width a + 1. \<not> bn_room malloc n a"
proof -
  have "(res = Some () \<longrightarrow> bn_normal a' \<and> bn_int a' = bn_int a - int (unat w)) \<and>
    (res = None \<longrightarrow> (\<exists>n \<le> bn_width a + 1. \<not> bn_room malloc n a))"
  proof (cases "w = 0 \<or> bn_abs a = 0")
    case True
    then consider "w = 0" | "w \<noteq> 0" "bn_abs a = 0" by (cases "w = 0") auto
    then show ?thesis
    proof cases
      case 1
      with assms show ?thesis by (auto simp: BN_sub_word.simps)
    next
      case 2
      then obtain b where b: "BN_set_word malloc w a = (res, b)"
        "res = Some () \<longrightarrow> a' = BN_set_negative True b"
        using assms(2) by (auto simp: BN_sub_word.simps is_zero_iff split: prod.splits option.splits)
      from 2(1) have "unat w \<noteq> 0" by (simp add: unat_eq_0)
      moreover obtain u where u: "u = unat w" by simp
      ultimately show ?thesis
        using BN_set_word_val [OF bn_normal_ok [OF assms(1)] b(1)] b(2) 2(2) bn_int_eq_int [of b u] unfolding u [symmetric]
        by (auto simp: bn_int_def [of a] bn_int_def [of a'] BN_set_negative_def is_zero_iff bn_normal_set_neg bn_int_set_neg)
    qed
  next
    case False
    then have nz: "bn_abs a \<noteq> 0" "w \<noteq> 0" by simp_all
    show ?thesis
    proof (cases "bn_neg a")
      case pos: False
      from sub_word_positive [OF assms(1) pos nz, of malloc] assms(2) pos show ?thesis by (auto simp: bn_int_def)
    next
      case True
      have n: "bn_normal (a\<lparr>bn_neg := False\<rparr>)" using assms(1) by (simp add: bn_normal_set_neg)
      obtain b where b: "BN_add_word malloc w (a\<lparr>bn_neg := False\<rparr>) = (res, b)" "a' = b\<lparr>bn_neg := True\<rparr>"
        using assms(2) True nz by (auto simp: BN_sub_word.simps is_zero_iff split: prod.splits)
      have room: "bn_room malloc k (a\<lparr>bn_neg := False\<rparr>) = bn_room malloc k a" for k
        by (simp add: bn_room_def bn_wexpand_def)
      note p = add_word_positive [OF n _ _ nz(2) b(1)]
      have "bn_abs b = bn_abs a + unat w" if "res = Some ()"
        using p(1) [OF _ _ that] nz(1) by (intro bn_int_eq_int) simp
      with p nz(1) True b(2) room show ?thesis
        by (auto simp: bn_int_def [of a] bn_int_set_neg bn_normal_set_neg)
    qed
  qed
  then show "res = Some () \<Longrightarrow> bn_normal a' \<and> bn_int a' = bn_int a - int (unat w)"
    "res = None \<Longrightarrow> \<exists>n \<le> bn_width a + 1. \<not> bn_room malloc n a" by simp_all
qed

end
