(* ===== verification/Bn_Room.thy ===== *)
theory Bn_Room
  imports Bn_Mont Bn_Bytes Bn_Add
begin

text \<open>
  The operations on big numbers return a result.  Apart from operands that the code refuses,
  the only failures are those of the allocator and the limit on the number of limbs: where it
  grants up to \<open>N\<close> limbs, every operation whose result needs no more than these succeeds.
\<close>

definition bn_free :: "(nat \<Rightarrow> bool) \<Rightarrow> nat \<Rightarrow> bignum \<Rightarrow> bool" where
  "bn_free malloc N bn \<longleftrightarrow> \<not> bn_static bn \<and> N \<le> (2 ^ 31 - 1) div (4 * 64) \<and> (\<forall>n \<le> N. malloc (8 * n))"

definition bn_total :: "(nat \<Rightarrow> bool) \<Rightarrow> nat \<Rightarrow> unit bn_oper \<Rightarrow> bool" where
  "bn_total malloc N f \<longleftrightarrow>
    (\<forall>r. bn_free malloc N r \<longrightarrow> (\<exists>r'. f r = (Some (), r') \<and> bn_free malloc N r'))"

named_theorems bn_returns \<open>operations that succeed\<close>

lemma bn_totalD:
  assumes "bn_total malloc N f" and "bn_free malloc N r"
  obtains r' where "f r = (Some (), r')" and "bn_free malloc N r'"
  using assms by (auto simp: bn_total_def)

lemma bn_free_le: "bn_free malloc N r \<Longrightarrow> M \<le> N \<Longrightarrow> bn_free malloc M r"
  by (auto simp: bn_free_def)

lemma bn_free_update [simp]:
  "bn_free malloc N (bn\<lparr>bn_neg := b\<rparr>) = bn_free malloc N bn"
  "bn_free malloc N (bn\<lparr>bn_width := w\<rparr>) = bn_free malloc N bn"
  "bn_free malloc N (put_words ws bn) = bn_free malloc N bn"
  "bn_free malloc N (set_d ws bn) = bn_free malloc N bn"
  "bn_free malloc N (BN_zero bn) = bn_free malloc N bn"
  "bn_free malloc N (bn_set_minimal_width bn) = bn_free malloc N bn"
  by (simp_all add: bn_free_def put_words_def set_d_def BN_zero_def bn_set_minimal_width_def Let_def)

lemma total_wexpand [bn_returns]: "n \<le> N \<Longrightarrow> bn_total malloc N (bn_wexpand malloc n)"
  by (auto simp: bn_total_def bn_wexpand_def bn_free_def)

lemma total_and_then [bn_returns]:
  "bn_total malloc N f \<Longrightarrow> (\<And>x. bn_total malloc N (g x)) \<Longrightarrow> bn_total malloc N (and_then f g)"
  unfolding bn_total_def by (metis and_then_Some)

lemma total_return [bn_returns]:
  "(\<And>r. bn_free malloc N r \<Longrightarrow> bn_free malloc N (g r)) \<Longrightarrow> bn_total malloc N (\<lambda>r. (Some (), g r))"
  by (auto simp: bn_total_def)

lemma total_copy [bn_returns]: "bn_width src \<le> N \<Longrightarrow> bn_total malloc N (BN_copy malloc src)"
  unfolding BN_copy_def by (intro bn_returns) auto

lemma total_resize: "bn_width bn \<le> n \<or> bn_abs bn < bn_base ^ n \<Longrightarrow> n \<le> N \<Longrightarrow> bn_free malloc N bn \<Longrightarrow>
    \<exists>bn'. bn_resize_words malloc n bn = (Some (), bn') \<and> bn_free malloc N bn'"
proof -
  assume a: "bn_width bn \<le> n \<or> bn_abs bn < bn_base ^ n" "n \<le> N" "bn_free malloc N bn"
  have t: "bn_total malloc N (and_then (bn_wexpand malloc n) (\<lambda>_ bn'.
      (Some (), put_words (bn_words bn' @ replicate (n - bn_width bn') 0) bn')))"
    using a(2) by (intro bn_returns) auto
  show ?thesis
    using a bn_totalD [OF t a(3)] by (auto simp: bn_resize_words_def fits_in_words_iff)
qed

section \<open>Products\<close>

lemma wexpand_free: "bn_free malloc N t \<Longrightarrow> n \<le> N \<Longrightarrow> fst (bn_wexpand malloc n t) \<noteq> None"
  using bn_totalD [OF total_wexpand] by (metis fst_conv option.distinct(1))

lemma karatsuba_room:
  assumes "0 < m" and "m < 2 ^ 31"
  shows "2 ^ (BN_num_bits_word (of_nat m) - 1) \<le> m"
proof -
  have m: "unat (of_nat m :: u64) = m" using assms(2) by (intro unat_of_nat_small) simp
  then have "(of_nat m :: u64) \<noteq> 0" using assms(1) by (metis gr_implies_not0 unat_0)
  with BN_num_bits_word_val [of "of_nat m :: u64"] m show ?thesis by simp
qed

lemma total_mul_into:
  assumes ok: "bn_small a" "bn_small b" and N: "8 * (bn_width a + bn_width b) + 16 \<le> N"
    and t: "bn_free malloc N t"
  shows "bn_total malloc N (mul_into malloc a b (Some t))"
proof -
  let ?al = "bn_width a" and ?bl = "bn_width b"
  let ?m = "if ?bl \<le> ?al then ?al else ?bl"
  let ?j = "2 ^ (BN_num_bits_word (of_nat ?m) - 1) :: nat"
  consider (comba) "?al = ?bl \<and> ?al = 8"
    | (rec) "\<not> (?al = ?bl \<and> ?al = 8)" "16 \<le> ?al \<and> 16 \<le> ?bl \<and> ?al \<le> ?bl + 1 \<and> ?bl \<le> ?al + 1"
    | (plain) "\<not> (?al = ?bl \<and> ?al = 8)" "\<not> (16 \<le> ?al \<and> 16 \<le> ?bl \<and> ?al \<le> ?bl + 1 \<and> ?bl \<le> ?al + 1)" by blast
  then show ?thesis
  proof cases
    case comba
    show ?thesis
      unfolding mul_into_def Let_def if_P [OF comba] using N by (intro bn_returns) simp_all
  next
    case plain
    show ?thesis
      unfolding mul_into_def Let_def if_not_P [OF plain(1)] if_not_P [OF plain(2)] using N
      by (intro bn_returns) simp_all
  next
    case rec
    have j: "?j \<le> ?m" using rec(2) ok by (intro karatsuba_room) (auto simp: bn_small_def)
    then have le: "?j * 8 \<le> N" "?j * 4 \<le> N" "?j * 2 \<le> N" using N by (simp_all split: if_splits)
    note room = wexpand_free [OF t le(1)] wexpand_free [OF t le(2)]
    have "bn_total malloc N (and_then (bn_wexpand malloc (?j * 4)) (\<lambda>_ rr. (Some (),
        (set_d (bn_mul_part_recursive ?j (bn_words a) (bn_words b) (take (4 * ?j) (bn_d rr))) rr)\<lparr>bn_width := ?al + ?bl\<rparr>)))"
      using le(2) by (intro bn_returns) (simp_all del: power_Suc)
    moreover have "bn_total malloc N (and_then (bn_wexpand malloc (?j * 2)) (\<lambda>_ rr. (Some (),
        (set_d (bn_mul_recursive ?j (bn_words a) (bn_words b)) rr)\<lparr>bn_width := ?al + ?bl\<rparr>)))"
      using le(3) by (intro bn_returns) (simp_all del: power_Suc)
    ultimately show ?thesis
      unfolding mul_into_def Let_def if_not_P [OF rec(1)] if_P [OF rec(2)] bn_total_def option.case
        if_not_P [OF room(1)] if_not_P [OF room(2)]
      by (cases "?j < ?al \<or> ?j < ?bl") (simp_all only: if_True if_False)
  qed
qed

lemma total_mul_impl [bn_returns]:
  assumes "bn_small a" and "bn_small b" and "8 * (bn_width a + bn_width b) + 16 \<le> N"
    and "bn_free malloc N rr" and "bn_free malloc N t" and "bn_ok rr"
  shows "bn_total malloc N (bn_mul_impl malloc a b same (Some rr) (Some t))"
proof (cases "bn_width a = 0 \<or> bn_width b = 0")
  case True
  then show ?thesis unfolding bn_mul_impl_def if_P [OF True] by (intro bn_returns) simp
next
  case nonzero: False
  let ?set = "\<lambda>x. x\<lparr>bn_neg := (bn_neg a \<noteq> bn_neg b)\<rparr>"
  note into = total_mul_into [OF assms(1-3,5)]
  show ?thesis
  proof (cases same)
    case False
    have "bn_mul_impl malloc a b same (Some rr) (Some t) r = mul_into malloc a b (Some t) (?set r)" for r
      unfolding bn_mul_impl_def if_not_P [OF nonzero] if_not_P [OF False] option.case
      by (auto split: prod.splits option.splits)
    then show ?thesis using into unfolding bn_total_def by (metis bn_free_update(1))
  next
    case True
    have "bn_free malloc N (?set rr)" using assms(4) by simp
    then obtain r1 where r1: "mul_into malloc a b (Some t) (?set rr) = (Some (), r1)"
      by (rule bn_totalD [OF into])
    have "bn_width r1 = bn_width a + bn_width b"
      using mul_into_val [OF r1] assms(1,2,6) by (simp add: bn_small_def)
    then have "bn_width r1 \<le> N" using assms(3) by simp
    moreover have "bn_mul_impl malloc a b same (Some rr) (Some t) = BN_copy malloc r1"
      unfolding bn_mul_impl_def if_not_P [OF nonzero] if_P [OF True] option.case r1 prod.case ..
    ultimately show ?thesis by (simp only: total_copy)
  qed
qed

lemma total_mul [bn_returns]:
  assumes "bn_small a" and "bn_small b" and "8 * (bn_width a + bn_width b) + 16 \<le> N"
    and "bn_free malloc N rr" and "bn_free malloc N t" and "bn_ok rr"
  shows "bn_total malloc N (BN_mul malloc a b same (Some rr) (Some t))"
  unfolding BN_mul_def by (intro total_and_then total_mul_impl total_return assms) simp

lemma total_sqr_into:
  assumes "bn_width a * 4 \<le> N" and t: "bn_free malloc N t"
  shows "bn_total malloc N (sqr_into malloc a t)"
proof -
  have le: "bn_width a * 4 \<le> N" "2 * bn_width a \<le> N" using assms(1) by simp_all
  note room = wexpand_free [OF t le(1)] wexpand_free [OF t le(2)]
  show ?thesis
    unfolding sqr_into_def Let_def if_not_P [OF room(1)] if_not_P [OF room(2)] if_cancel
    using le(2) by (intro total_and_then total_wexpand) (auto simp: bn_total_def)
qed

lemma total_sqr [bn_returns]:
  assumes "bn_small a" and N: "bn_width a * 4 \<le> N" and "bn_free malloc N rr" and "bn_free malloc N t"
  shows "bn_total malloc N (bn_sqr_consttime malloc a same (Some rr) (Some t))"
proof (cases "bn_width a = 0")
  case True
  then show ?thesis by (auto simp: bn_sqr_consttime_def bn_total_def)
next
  case nonzero: False
  note into = total_sqr_into [OF N assms(4)]
  show ?thesis
  proof (cases same)
    case False
    have "bn_sqr_consttime malloc a same (Some rr) (Some t) r = sqr_into malloc a t r" for r
      unfolding bn_sqr_consttime_def if_not_P [OF nonzero] if_not_P [OF False] option.case
      by (auto split: prod.splits option.splits)
    then show ?thesis using into unfolding bn_total_def by metis
  next
    case True
    obtain r1 where r1: "sqr_into malloc a t rr = (Some (), r1)"
      by (rule bn_totalD [OF into assms(3)])
    have "bn_width r1 \<le> N" using sqr_into_val [OF r1 assms(1)] N by simp
    moreover have "bn_sqr_consttime malloc a same (Some rr) (Some t) = BN_copy malloc r1"
      unfolding bn_sqr_consttime_def if_not_P [OF nonzero] if_P [OF True] option.case r1 prod.case ..
    ultimately show ?thesis by (simp only: total_copy)
  qed
qed

section \<open>Division and reduced numbers\<close>

lemma wexpandE:
  assumes "bn_free malloc N t" and "n \<le> N"
  obtains t' where "bn_wexpand malloc n t = (Some (), t')" and "bn_free malloc N t'"
  by (rule bn_totalD [OF total_wexpand [OF assms(2)] assms(1)])

definition output_free :: "(nat \<Rightarrow> bool) \<Rightarrow> nat \<Rightarrow> bignum option \<Rightarrow> bool" where
  "output_free malloc N x \<longleftrightarrow> (\<forall>r. x = Some r \<longrightarrow> bn_free malloc N r)"

lemma output_copy_free:
  assumes "output_free malloc N x" and "bn_width y \<le> N" and "bn_free malloc N y"
  obtains x' where "output_copy malloc same y x = (Some (), x')" and "output_free malloc N x'"
proof (cases x)
  case None
  with that show ?thesis by (auto simp: output_copy_def output_free_def)
next
  case (Some r)
  with assms(1) have r: "bn_free malloc N r" by (simp add: output_free_def)
  from total_copy [OF assms(2)] r obtain r' where "BN_copy malloc y r = (Some (), r')" "bn_free malloc N r'"
    by (rule bn_totalD)
  with that assms(3) Some show ?thesis by (cases same) (auto simp: output_copy_def output_free_def)
qed

lemma total_div:
  assumes ok: "bn_ok num" "bn_ok divisor" and pos: "\<not> bn_neg num" "\<not> bn_neg divisor" "bn_abs divisor \<noteq> 0"
    and N: "bn_width num \<le> N" "bn_width divisor \<le> N"
    and free: "bn_free malloc N cq" "bn_free malloc N cr" "bn_free malloc N tmp" "output_free malloc N quo" "output_free malloc N rem"
  obtains quo' rem' where
    "bn_div_consttime malloc num divisor q_same r_same (Some cq) (Some cr) (Some tmp) (quo, rem) = (Some (), quo', rem')"
proof -
  from free obtain q r where in_q: "output_in q_same (Some cq) quo = Some q" "bn_free malloc N q"
    and in_r: "output_in r_same (Some cr) rem = Some r" "bn_free malloc N r"
    by (cases quo; cases rem; cases q_same; cases r_same) (auto simp: output_in_def output_free_def)
  obtain q1 where q1: "bn_wexpand malloc (bn_width num) q = (Some (), q1)" "bn_free malloc N q1"
    by (rule wexpandE [OF in_q(2) N(1)])
  obtain r1 where r1: "bn_wexpand malloc (bn_width divisor) r = (Some (), r1)" "bn_free malloc N r1"
    by (rule wexpandE [OF in_r(2) N(2)])
  obtain t1 where t1: "bn_wexpand malloc (bn_width divisor) tmp = (Some (), t1)"
    by (rule wexpandE [OF free(3) N(2)])
  obtain rw qw where run: "div_limbs_loop (bn_words divisor) (rev (bn_words num)) (replicate (bn_width divisor) 0) [] = (rw, qw)"
    by (rule prod.exhaust)
  let ?q = "(put_words qw q1)\<lparr>bn_neg := False\<rparr>" and ?r = "(put_words rw r1)\<lparr>bn_neg := False\<rparr>"
  have "length rw = bn_width divisor" and "length qw = bn_width num"
    using div_limbs_loop_val [OF _ _ run] ok pos(3) by (simp_all add: bn_ok_def bn_abs_def)
  then have w: "bn_width ?q \<le> N" "bn_width ?r \<le> N" using N by simp_all
  obtain quo' where quo': "output_copy malloc q_same ?q quo = (Some (), quo')"
    by (rule output_copy_free [OF free(4) w(1)]) (use q1(2) in simp_all)
  obtain rem' where rem': "output_copy malloc r_same ?r rem = (Some (), rem')"
    by (rule output_copy_free [OF free(5) w(2)]) (use r1(2) in simp_all)
  show ?thesis
  proof (rule that)
    show "bn_div_consttime malloc num divisor q_same r_same (Some cq) (Some cr) (Some tmp) (quo, rem) = (Some (), quo', rem')"
      using pos by (simp add: bn_div_consttime_def BN_is_negative_def is_zero_iff in_q in_r q1 r1 t1 run Let_def quo' rem')
  qed
qed

definition ctx_free :: "(nat \<Rightarrow> bool) \<Rightarrow> nat \<Rightarrow> ctx3 \<Rightarrow> bool" where
  "ctx_free malloc N ctx \<longleftrightarrow> (\<exists>x y z. ctx = (Some x, Some y, Some z) \<and>
    bn_free malloc N x \<and> bn_free malloc N y \<and> bn_free malloc N z)"

lemma scratch_space_free:
  assumes "bn_free malloc N c" and "w \<le> N"
  obtains s where "bn_scratch_space_from_ctx malloc w (Some c) = Some s" and "bn_free malloc N s" and "bn_width s = w"
proof -
  obtain c' where "bn_wexpand malloc w c = (Some (), c')" "bn_free malloc N c'"
    by (rule wexpandE [OF assms])
  then show thesis
    by (intro that [of "c'\<lparr>bn_neg := False, bn_width := w\<rparr>"]) (simp_all add: bn_scratch_space_from_ctx_def)
qed

lemma resized_free:
  assumes "bn_free malloc N c" and "w \<le> N"
  obtains s where "bn_resized_from_ctx malloc bn w (Some c) = Some s"
proof (cases "w \<le> bn_width bn")
  case True
  then show thesis by (intro that [of bn]) (simp add: bn_resized_from_ctx_def)
next
  case False
  obtain s where s: "bn_scratch_space_from_ctx malloc w (Some c) = Some s" "bn_free malloc N s"
    by (rule scratch_space_free [OF assms])
  have "bn_width bn \<le> N" using False assms(2) by simp
  then obtain s1 where s1: "BN_copy malloc bn s = (Some (), s1)" "bn_free malloc N s1"
    using bn_totalD [OF total_copy s(2)] by blast
  from s1(1) have "bn_width s1 \<le> w" using False by (auto simp: BN_copy_def dest!: and_then_eq_SomeD)
  from total_resize [OF disjI1 [OF this] assms(2) s1(2)] obtain s2 where "bn_resize_words malloc w s1 = (Some (), s2)"
    by blast
  with s s1 False show thesis by (intro that [of s2]) (simp add: bn_resized_from_ctx_def and_then_Some)
qed

lemma total_mod_words [bn_returns]:
  assumes "ctx_free malloc N ctx" and "bn_width m \<le> N"
  shows "bn_total malloc N (mod_words f malloc a b m ctx)"
proof -
  from assms(1) obtain ca cb ct where ctx: "ctx = (Some ca, Some cb, Some ct)"
    and free: "bn_free malloc N ca" "bn_free malloc N cb" "bn_free malloc N ct"
    by (auto simp: ctx_free_def)
  obtain a1 where "bn_resized_from_ctx malloc a (bn_width m) (Some ca) = Some a1"
    by (rule resized_free [OF free(1) assms(2)])
  moreover obtain b1 where "bn_resized_from_ctx malloc b (bn_width m) (Some cb) = Some b1"
    by (rule resized_free [OF free(2) assms(2)])
  moreover obtain t1 where "bn_scratch_space_from_ctx malloc (bn_width m) (Some ct) = Some t1"
    by (rule scratch_space_free [OF free(3) assms(2)])
  ultimately show ?thesis
    unfolding mod_words_def ctx prod.case by (simp only: option.case prod.case) (intro bn_returns assms; simp)
qed

lemma total_self: "(\<And>r. bn_total malloc N (f r)) \<Longrightarrow> bn_total malloc N (\<lambda>r. f r r)"
  by (simp add: bn_total_def)

lemma total_mod_lshift_loop:
  "\<forall>i. ctx_free malloc N (ctx i) \<Longrightarrow> bn_width m \<le> N \<Longrightarrow> bn_total malloc N (mod_lshift_loop malloc m ctx i k)"
proof (induction k arbitrary: i)
  case (Suc k)
  have t: "bn_total malloc N (bn_mod_lshift1_consttime malloc r m (ctx i))" for r
    using Suc.prems by (simp add: bn_mod_lshift1_consttime_def bn_mod_add_consttime_def total_mod_words)
  have "bn_total malloc N (\<lambda>r. bn_mod_lshift1_consttime malloc r m (ctx i) r)"
    by (rule total_self [of malloc N "\<lambda>r. bn_mod_lshift1_consttime malloc r m (ctx i)", OF t])
  moreover have "bn_total malloc N (mod_lshift_loop malloc m ctx (Suc i) k)" by (rule Suc.IH [OF Suc.prems])
  ultimately show ?case unfolding mod_lshift_loop.simps by (rule total_and_then)
qed (auto simp: bn_total_def)

lemma total_mod_lshift [bn_returns]:
  "\<forall>i. ctx_free malloc N (ctx i) \<Longrightarrow> bn_width m \<le> N \<Longrightarrow> bn_width a \<le> N \<Longrightarrow>
    bn_total malloc N (bn_mod_lshift_consttime malloc a n m ctx)"
  unfolding bn_mod_lshift_consttime_def by (intro total_and_then total_copy total_mod_lshift_loop)

lemma total_set_bit:
  assumes "0 \<le> n" and "nat n div 64 < N"
  shows "bn_total malloc N (BN_set_bit malloc n)"
proof -
  let ?i = "nat n div 64"
  have grow: "bn_total malloc N (and_then (bn_wexpand malloc (?i + 1)) (\<lambda>_ a.
      (Some (), put_words (bn_words a @ replicate (?i + 1 - bn_width a) 0) a)))"
    using assms(2) by (intro bn_returns) simp_all
  show ?thesis
    unfolding BN_set_bit_def Let_def using assms(1) grow
    by (auto simp: bn_total_def and_then_def bn_free_def not_less split: if_splits)
qed

lemma total_exp_base_2:
  assumes ctx: "\<forall>i. ctx_free malloc N (ctx i)" and n: "bn_ok n" "bn_abs n \<noteq> 0" and N: "bn_width n \<le> N"
  shows "bn_total malloc N (bn_mod_exp_base_2_consttime malloc p n ctx)"
proof (cases "BN_num_bits n = 1")
  case True
  then show ?thesis by (auto simp: bn_mod_exp_base_2_consttime_def bn_total_def)
next
  case False
  from BN_num_bits_val [OF n(1)] n(2) have bits: "0 < BN_num_bits n" "2 ^ (BN_num_bits n - 1) \<le> bn_abs n" by simp_all
  have "bn_abs n < 2 ^ (64 * bn_width n)" using bn_abs_less [of n] by (simp add: bn_base_def power_mult)
  with bits(2) have "(2 :: nat) ^ (BN_num_bits n - 1) < 2 ^ (64 * bn_width n)" by (rule le_less_trans)
  then have "BN_num_bits n - 1 < 64 * bn_width n" by (rule power_less_imp_less_exp [rotated]) simp
  then have i: "nat (int (BN_num_bits n) - 1) div 64 < bn_width n" using bits(1) by (simp add: nat_diff_distrib less_mult_imp_div_less mult.commute)
  then have set: "bn_total malloc N (BN_set_bit malloc (int (BN_num_bits n) - 1))"
    using N bits(1) by (intro total_set_bit) simp_all
  show ?thesis unfolding bn_total_def
  proof (intro allI impI)
    fix r assume "bn_free malloc N r"
    then have "bn_free malloc N (BN_zero r)" by simp
    with set obtain r1 where r1: "BN_set_bit malloc (int (BN_num_bits n) - 1) (BN_zero r) = (Some (), r1)" "bn_free malloc N r1"
      by (rule bn_totalD)
    have "bn_width r1 \<le> N"
      using r1(1) i N bits(1) by (auto simp: BN_set_bit_def BN_zero_def Let_def bn_wexpand_def and_then_def split: if_splits)
    from bn_totalD [OF total_mod_lshift [OF ctx N this] r1(2)] obtain r2 where
      "bn_mod_lshift_consttime malloc r1 (int p - (int (BN_num_bits n) - 1)) n ctx r1 = (Some (), r2)" "bn_free malloc N r2" .
    with r1(1) False show "\<exists>r'. bn_mod_exp_base_2_consttime malloc p n ctx r = (Some (), r') \<and> bn_free malloc N r'"
      by (simp add: bn_mod_exp_base_2_consttime_def Let_def and_then_Some)
  qed
qed

section \<open>Montgomery contexts and products\<close>

lemma mont_new_returns:
  assumes m: "bn_small modulus" "odd (bn_abs modulus)" "\<not> bn_neg modulus" "bn_width modulus \<le> N"
    and ctx: "\<forall>i. ctx_free malloc N (ctx i)" and init: "bn_free malloc N BN_init"
  obtains mont where "BN_MONT_CTX_new_consttime malloc True modulus ctx = Some mont"
    and "mont_ok mont" and "mont_n mont = bn_abs modulus" and "bn_width (mont_N mont) \<le> bn_width modulus"
proof -
  let ?m0 = "\<lparr>mont_RR = BN_init, mont_N = BN_init, mont_n0 = 0\<rparr>"
  have nz: "bn_abs modulus \<noteq> 0" using m(2) by (intro notI) simp
  obtain n0 where n0: "BN_copy malloc modulus BN_init = (Some (), n0)"
    by (rule bn_totalD [OF total_copy [OF m(4)] init])
  let ?n = "bn_set_minimal_width n0"
  let ?m1 = "?m0\<lparr>mont_N := ?n, mont_n0 := bn_mont_n0 ?n\<rparr>"
  have set: "bn_mont_ctx_set_N_and_n0 malloc modulus ?m0 = (Some (), ?m1)"
    using m(1-3) nz n0 is_odd_iff [of modulus]
    by (simp add: bn_mont_ctx_set_N_and_n0_def is_zero_iff BN_is_negative_def bn_small_def Let_def)
  note n = set_N_and_n0_val [OF set m(1)]
  have okn: "bn_ok ?n" using n(5) by (simp add: bn_small_def)
  have wm: "bn_width ?n \<le> bn_width modulus"
    using BN_copy_val(3,4) [OF n0] m(1) bn_minimal_width(1) [of n0]
    by (simp add: bn_small_def bn_set_minimal_width_def Let_def)
  with m(4) have wn: "bn_width ?n \<le> N" by simp
  have exp: "bn_total malloc N (bn_mod_exp_base_2_consttime malloc (bn_width ?n * 64 * 2) ?n ctx)"
    using n(1) nz by (intro total_exp_base_2 [OF ctx okn _ wn]) simp
  obtain r0 where r0: "bn_mod_exp_base_2_consttime malloc (bn_width ?n * 64 * 2) ?n ctx BN_init = (Some (), r0)" "bn_free malloc N r0"
    by (rule bn_totalD [OF exp init])
  have "mont_n ?m1 \<noteq> 0" using n(1) nz by simp
  with BN_num_bits_val [OF okn] have "2 ^ (BN_num_bits ?n - 1) \<le> bn_abs ?n" by simp
  also have "\<dots> < 2 ^ (64 * bn_width ?n)" using bn_abs_less [of ?n] by (simp add: bn_base_def power_mult)
  finally have "BN_num_bits ?n - 1 < 64 * bn_width ?n" by (rule power_less_imp_less_exp [rotated]) simp
  then have p: "BN_num_bits ?n < bn_width ?n * 64 * 2" by linarith
  have "bn_ok BN_init" by (simp add: bn_ok_def BN_init_def)
  note r0v = bn_mod_exp_base_2_consttime_val [OF r0(1) okn this _ p]
  have "bn_abs r0 < bn_base ^ bn_width ?n"
  proof -
    have "bn_abs r0 < bn_abs ?n" using r0v(1) n(1) nz m(2) by simp
    with bn_abs_less [of ?n] show ?thesis by linarith
  qed
  from total_resize [OF disjI2 [OF this] wn r0(2)] obtain rr where
    rr: "bn_resize_words malloc (bn_width ?n) r0 = (Some (), rr)" by blast
  have m1: "mont_N ?m1 = ?n" "mont_RR ?m1 = BN_init" by simp_all
  have run: "BN_MONT_CTX_new_consttime malloc True modulus ctx = Some (?m1\<lparr>mont_RR := rr\<rparr>)"
    unfolding BN_MONT_CTX_new_consttime_def BN_MONT_CTX_new_def Let_def
    by (simp only: if_True option.case prod.case set m1 and_then_def r0(1) rr)
  show thesis
    by (rule that [OF run BN_MONT_CTX_new_consttime_ok [OF run m(1)]]) (use wm in simp)
qed

lemma total_from_montgomery_word:
  assumes ok: "mont_ok mont" and r: "bn_ok r" "\<not> bn_neg r" "bn_free malloc N r"
    and fits: "bn_width r \<le> 2 * bn_width (mont_N mont) \<or> bn_abs r < mont_R mont * mont_R mont"
    and N: "2 * bn_width (mont_N mont) \<le> N"
  shows "bn_total malloc N (BN_from_montgomery_word malloc mont r)"
proof -
  let ?w = "bn_width (mont_N mont)"
  have "bn_width r \<le> 2 * ?w \<or> bn_abs r < bn_base ^ (2 * ?w)"
    using fits by (simp add: mult_2 power_add)
  from total_resize [OF this N r(3)] obtain r1 where
    r1: "bn_resize_words malloc (2 * ?w) r = (Some (), r1)" by blast
  have len: "length (bn_words r1) = 2 * ?w"
    using bn_resize_words_val [OF r1 r(1)] by (simp add: bn_ok_def)
  have w0: "?w \<noteq> 0" using mont_okD(4) [OF ok] by simp
  obtain ws where ws: "bn_from_montgomery_in_place mont ?w (bn_words r1) = Some ws"
    using len by (cases "mont_rounds (mont_n0 mont) (bn_words (mont_N mont)) 0 ?w 0 (bn_words r1)")
      (simp add: bn_from_montgomery_in_place_def Let_def)
  have "bn_total malloc N (and_then (bn_wexpand malloc ?w)
      (\<lambda>_ ret. (Some (), set_d ws (ret\<lparr>bn_width := ?w, bn_neg := False\<rparr>))))"
    using N by (intro total_and_then total_wexpand total_return) simp_all
  then show ?thesis
    using r(2) w0 by (simp add: BN_from_montgomery_word_def [abs_def] Let_def r1 ws)
qed

lemma total_from_montgomery [bn_returns]:
  assumes ok: "mont_ok mont" and a: "bn_ok a" "\<not> bn_neg a" "bn_width a \<le> 2 * bn_width (mont_N mont)"
    and N: "2 * bn_width (mont_N mont) \<le> N" and t: "bn_free malloc N t"
  shows "bn_total malloc N (BN_from_montgomery malloc mont a (Some t))"
proof -
  have "bn_width a \<le> N" using a(3) N by simp
  then obtain t1 where t1: "BN_copy malloc a t = (Some (), t1)" "bn_free malloc N t1"
    using bn_totalD [OF total_copy t] by blast
  note c = BN_copy_val [OF t1(1) a(1)]
  have "bn_total malloc N (BN_from_montgomery_word malloc mont t1)"
    using c a by (intro total_from_montgomery_word [OF ok _ _ t1(2) _ N]) simp_all
  then show ?thesis by (simp add: BN_from_montgomery_def [abs_def] t1)
qed

lemma total_mod_mul_montgomery [bn_returns]:
  assumes ok: "mont_ok mont" and a: "bn_small a" "\<not> bn_neg a" and b: "bn_small b" "\<not> bn_neg b" and same: "same \<Longrightarrow> a = b"
    and less: "bn_abs a * bn_abs b < mont_n mont * mont_R mont"
    and N: "8 * (bn_width a + bn_width b) + 16 \<le> N" "2 * bn_width (mont_N mont) \<le> N"
    and ctx: "bn_free malloc N tmp" "bn_ok tmp" "bn_free malloc N t"
  shows "bn_total malloc N (BN_mod_mul_montgomery malloc mont a b same (Some tmp) (Some t))"
proof -
  obtain p where p: "(if same then bn_sqr_consttime malloc a False None (Some t) tmp
      else bn_mul_consttime malloc a b False None (Some t) tmp) = (Some (), p)"
    "bn_free malloc N p" "bn_ok p" "\<not> bn_neg p" "bn_abs p = bn_abs a * bn_abs b"
  proof (cases same)
    case True
    have "bn_total malloc N (bn_sqr_consttime malloc a False (Some tmp) (Some t))"
      using N by (intro total_sqr a ctx) simp
    from bn_totalD [OF this ctx(1)] obtain p where "bn_sqr_consttime malloc a False (Some tmp) (Some t) tmp = (Some (), p)"
      "bn_free malloc N p" .
    moreover have "bn_sqr_consttime malloc a False (Some tmp) (Some t) tmp = bn_sqr_consttime malloc a False None (Some t) tmp"
      by (simp add: bn_sqr_consttime_def)
    ultimately show thesis
      using True same bn_sqr_consttime_val [of malloc a False None "Some t" tmp "()" p] a(1) ctx(2)
      by (intro that [of p]) simp_all
  next
    case False
    have "bn_total malloc N (bn_mul_impl malloc a b False (Some tmp) (Some t))"
      using N by (intro total_mul_impl a b ctx) simp
    from bn_totalD [OF this ctx(1)] obtain p where "bn_mul_impl malloc a b False (Some tmp) (Some t) tmp = (Some (), p)"
      "bn_free malloc N p" .
    moreover have "bn_mul_impl malloc a b False (Some tmp) (Some t) tmp = bn_mul_impl malloc a b False None (Some t) tmp"
      by (simp add: bn_mul_impl_def)
    ultimately have "bn_mul_consttime malloc a b False None (Some t) tmp = (Some (), p)" "bn_free malloc N p"
      using a(2) b(2) by (simp_all add: bn_mul_consttime_def)
    with False show thesis
      using bn_mul_consttime_val [of malloc a b False None "Some t" tmp "()" p] a(1) b(1) ctx(2)
      by (intro that [of p]) simp_all
  qed
  have "bn_abs p < mont_R mont * mont_R mont"
    using less p(5) mont_okD(6) [OF ok] by (metis less_trans mult_less_mono1 mult_pos_pos bn_base_pos zero_less_power)
  then have "bn_total malloc N (BN_from_montgomery_word malloc mont p)"
    using p by (intro total_from_montgomery_word [OF ok _ _ _ _ N(2)]) simp_all
  then show ?thesis
    using a(2) b(2) p(1) by (simp add: BN_mod_mul_montgomery_def [abs_def] bn_mod_mul_montgomery_fallback_def [abs_def])
qed

subsection \<open>Residues in Montgomery form\<close>

text \<open>
  \<open>mont_form mont x k\<close>: the number \<open>x\<close> is the reduced Montgomery form of the residue \<open>k\<close>.
\<close>

definition mont_form :: "mont_ctx \<Rightarrow> bignum \<Rightarrow> nat \<Rightarrow> bool" where
  "mont_form mont x k \<longleftrightarrow> bn_small x \<and> \<not> bn_neg x \<and> bn_width x = bn_width (mont_N mont) \<and>
    bn_abs x = (mont_R mont * k) mod mont_n mont"

definition mont_room :: "(nat \<Rightarrow> bool) \<Rightarrow> nat \<Rightarrow> mont_ctx \<Rightarrow> bool" where
  "mont_room malloc N mont \<longleftrightarrow> bn_free malloc N BN_init \<and> 16 * bn_width (mont_N mont) + 16 \<le> N"

text \<open>A number of a context: the caller may write to it, and it can grow.\<close>

definition bn_temp :: "(nat \<Rightarrow> bool) \<Rightarrow> nat \<Rightarrow> bignum \<Rightarrow> bool" where
  "bn_temp malloc N x \<longleftrightarrow> bn_ok x \<and> bn_free malloc N x"

lemma mont_form_less: "mont_ok mont \<Longrightarrow> mont_form mont x k \<Longrightarrow> bn_abs x < mont_n mont"
  using mont_okD(3) by (simp add: mont_form_def)

lemma bn_small_mont:
  "mont_ok mont \<Longrightarrow> bn_ok x \<Longrightarrow> bn_width x = bn_width (mont_N mont) \<Longrightarrow> bn_small x"
  by (simp add: mont_ok_def bn_small_def)

lemma mul_less_mod: "x < (n :: nat) \<Longrightarrow> y < n \<Longrightarrow> n \<le> R \<Longrightarrow> x * y < n * R"
  by (metis less_le_trans mult_strict_mono not_less_zero zero_le neq0_conv)

text \<open>What a run that succeeds computes.\<close>

lemma to_montgomery_form:
  assumes ok: "mont_ok mont" and a: "bn_small a" "\<not> bn_neg a" "bn_abs a < mont_R mont" and tmp: "bn_ok tmp"
    and run: "BN_to_montgomery malloc mont a (Some tmp) t r = (Some u, r')"
  shows "mont_form mont r' (bn_abs a)"
proof -
  have R: "bn_less_than_montgomery_R mont a"
    using a by (simp add: bn_less_than_montgomery_R_def fits_in_words_iff BN_is_negative_def)
  have "\<And>x. Some tmp = Some x \<Longrightarrow> bn_ok x" using tmp by simp
  note v = BN_to_montgomery_val [OF run ok a(1) this R]
  then show ?thesis using bn_small_mont [OF ok] by (simp add: mont_form_def)
qed

lemma mul_montgomery_form:
  assumes ok: "mont_ok mont" and x: "mont_form mont x k" and y: "mont_form mont y l" and same: "same \<Longrightarrow> x = y"
    and tmp: "bn_ok tmp" and run: "BN_mod_mul_montgomery malloc mont x y same (Some tmp) t r = (Some u, r')"
  shows "mont_form mont r' (k * l)"
proof -
  let ?n = "mont_n mont" and ?R = "mont_R mont"
  note m = mont_okD [OF ok]
  have xs: "bn_small x" "bn_small y" using x y by (simp_all add: mont_form_def)
  have less: "bn_abs x * bn_abs y < ?n * ?R"
    using mont_form_less [OF ok x] mont_form_less [OF ok y] m(6) by (intro mul_less_mod) simp_all
  have "\<And>x. Some tmp = Some x \<Longrightarrow> bn_ok x" using tmp by simp
  note v = BN_mod_mul_montgomery_val [OF run ok xs this same less]
  have "(?R * bn_abs r') mod ?n = (?R * k mod ?n) * (?R * l mod ?n) mod ?n"
    using v(2) x y by (simp add: mont_form_def)
  also have "\<dots> = (?R * (?R * (k * l))) mod ?n" unfolding mod_mult_eq by (simp only: ac_simps)
  finally have "bn_abs r' mod ?n = (?R * (k * l)) mod ?n" by (rule cancel_R [OF m(2)])
  then show ?thesis using v bn_small_mont [OF ok v(5,4)] by (simp add: mont_form_def)
qed

lemma from_montgomery_value:
  assumes ok: "mont_ok mont" and x: "mont_form mont x k" and run: "BN_from_montgomery malloc mont x t r = (Some u, r')"
  shows "bn_int r' = int (k mod mont_n mont)" and "bn_width r' = bn_width (mont_N mont)" and "bn_ok r'" and "\<not> bn_neg r'"
proof -
  let ?n = "mont_n mont" and ?R = "mont_R mont"
  note m = mont_okD [OF ok]
  have xs: "bn_ok x" using x by (simp add: mont_form_def bn_small_def)
  have "bn_abs x * 1 < ?n * ?R"
    using mont_form_less [OF ok x] m(3,6) by (intro mult_strict_mono) linarith+
  then have less: "bn_abs x < ?n * ?R" by simp
  note v = BN_from_montgomery_val [OF run ok xs less]
  have "(?R * bn_abs r') mod ?n = (?R * k) mod ?n" using v(2) x by (simp add: mont_form_def)
  then have "bn_abs r' mod ?n = k mod ?n" by (rule cancel_R [OF m(2)])
  with v show "bn_int r' = int (k mod ?n)" "bn_width r' = bn_width (mont_N mont)" "bn_ok r'" "\<not> bn_neg r'"
    by (simp_all add: bn_int_def)
qed

text \<open>
  The runs succeed.  The destination only needs room for the limbs of the modulus; it may be
  an array that cannot grow.
\<close>

abbreviation mont_dest :: "(nat \<Rightarrow> bool) \<Rightarrow> mont_ctx \<Rightarrow> bignum \<Rightarrow> bool" where
  "mont_dest malloc mont r \<equiv> bn_room malloc (bn_width (mont_N mont)) r"

lemma mont_room_init: "mont_room malloc N mont \<Longrightarrow> bn_free malloc N BN_init"
  by (simp add: mont_room_def)

lemma mont_form_dest: "mont_form mont x k \<Longrightarrow> mont_dest malloc mont x"
  by (simp add: mont_form_def bn_small_def bn_ok_def bn_room_def bn_wexpand_def)

lemma temp_dest: "mont_room malloc N mont \<Longrightarrow> bn_temp malloc N r \<Longrightarrow> mont_dest malloc mont r"
  unfolding bn_room_def by (rule wexpand_free) (auto simp: bn_temp_def mont_room_def)

lemma from_montgomery_word_dest:
  assumes "BN_from_montgomery_word malloc mont p r0 = (Some u, r1)" and "mont_dest malloc mont r"
  shows "\<exists>r'. BN_from_montgomery_word malloc mont p r = (Some (), r')"
proof -
  obtain s where s: "bn_wexpand malloc (bn_width (mont_N mont)) r = (Some (), s)"
    using assms(2) by (cases rule: bn_wexpand_cases [of malloc "bn_width (mont_N mont)" r]) auto
  then show ?thesis
    using assms(1)
    by (auto simp: BN_from_montgomery_word_def Let_def and_then_def split: if_splits option.splits prod.splits)
qed

lemma mod_mul_montgomery_dest:
  assumes "BN_mod_mul_montgomery malloc mont a b same tmp t r0 = (Some u, r1)" and "mont_dest malloc mont r"
  shows "\<exists>r'. BN_mod_mul_montgomery malloc mont a b same tmp t r = (Some (), r')"
proof -
  from assms(1) obtain p where "BN_from_montgomery_word malloc mont p r0 = (Some u, r1)"
    "\<And>r. BN_mod_mul_montgomery malloc mont a b same tmp t r = BN_from_montgomery_word malloc mont p r"
    by (auto simp: BN_mod_mul_montgomery_def bn_mod_mul_montgomery_fallback_def split: if_splits option.splits prod.splits)
  with from_montgomery_word_dest [OF _ assms(2)] show ?thesis by auto
qed

lemma from_montgomery_dest:
  assumes "BN_from_montgomery malloc mont a t r0 = (Some u, r1)" and "mont_dest malloc mont r"
  shows "\<exists>r'. BN_from_montgomery malloc mont a t r = (Some (), r')"
proof -
  from assms(1) obtain p where "BN_from_montgomery_word malloc mont p r0 = (Some u, r1)"
    "\<And>r. BN_from_montgomery malloc mont a t r = BN_from_montgomery_word malloc mont p r"
    by (auto simp: BN_from_montgomery_def split: option.splits prod.splits)
  with from_montgomery_word_dest [OF _ assms(2)] show ?thesis by auto
qed

lemma to_montgomery_returns:
  assumes ok: "mont_ok mont" and a: "bn_small a" "\<not> bn_neg a" "bn_abs a < mont_R mont"
    and N: "8 * (bn_width a + bn_width (mont_N mont)) + 16 \<le> N" "mont_room malloc N mont"
    and tmp: "bn_temp malloc N tmp" "bn_temp malloc N t" and r: "mont_dest malloc mont r"
  obtains r' where "BN_to_montgomery malloc mont a (Some tmp) (Some t) r = (Some (), r')"
    and "mont_form mont r' (bn_abs a)"
proof -
  note m = mont_okD [OF ok]
  have less: "bn_abs a * bn_abs (mont_RR mont) < mont_n mont * mont_R mont"
    using a(3) m(3,8) by (metis mult.commute mult_strict_mono not_less_zero zero_le less_nat_zero_code linorder_not_less)
  have "bn_total malloc N (BN_to_montgomery malloc mont a (Some tmp) (Some t))"
    unfolding BN_to_montgomery_def using a m less N tmp
    by (intro total_mod_mul_montgomery ok) (simp_all add: bn_temp_def mont_room_def)
  then obtain r0 where "BN_to_montgomery malloc mont a (Some tmp) (Some t) BN_init = (Some (), r0)"
    by (rule bn_totalD [OF _ mont_room_init [OF N(2)]])
  from mod_mul_montgomery_dest [OF this [unfolded BN_to_montgomery_def] r]
  obtain r' where r': "BN_to_montgomery malloc mont a (Some tmp) (Some t) r = (Some (), r')"
    unfolding BN_to_montgomery_def by blast
  have "bn_ok tmp" using tmp(1) by (simp add: bn_temp_def)
  from that [OF r' to_montgomery_form [OF ok a this r']] show thesis .
qed

lemma mul_montgomery_returns:
  assumes ok: "mont_ok mont" and x: "mont_form mont x k" and y: "mont_form mont y l" and same: "same \<Longrightarrow> x = y"
    and N: "mont_room malloc N mont"
    and tmp: "bn_temp malloc N tmp" "bn_temp malloc N t" and r: "mont_dest malloc mont r"
  obtains r' where "BN_mod_mul_montgomery malloc mont x y same (Some tmp) (Some t) r = (Some (), r')"
    and "mont_form mont r' (k * l)"
proof -
  have xs: "bn_small x" "\<not> bn_neg x" "bn_small y" "\<not> bn_neg y" using x y by (simp_all add: mont_form_def)
  have less: "bn_abs x * bn_abs y < mont_n mont * mont_R mont"
    using mont_form_less [OF ok x] mont_form_less [OF ok y] mont_okD(6) [OF ok] by (intro mul_less_mod) simp_all
  have "bn_total malloc N (BN_mod_mul_montgomery malloc mont x y same (Some tmp) (Some t))"
    using xs less same N tmp x y
    by (intro total_mod_mul_montgomery ok) (simp_all add: bn_temp_def mont_room_def mont_form_def)
  then obtain r0 where "BN_mod_mul_montgomery malloc mont x y same (Some tmp) (Some t) BN_init = (Some (), r0)"
    by (rule bn_totalD [OF _ mont_room_init [OF N]])
  from mod_mul_montgomery_dest [OF this r] obtain r' where
    r': "BN_mod_mul_montgomery malloc mont x y same (Some tmp) (Some t) r = (Some (), r')" by blast
  have "bn_ok tmp" using tmp(1) by (simp add: bn_temp_def)
  from that [OF r' mul_montgomery_form [OF ok x y same this r']] show thesis .
qed

lemma from_montgomery_returns:
  assumes ok: "mont_ok mont" and x: "mont_form mont x k" and N: "mont_room malloc N mont"
    and t: "bn_temp malloc N t" and r: "mont_dest malloc mont r"
  obtains r' where "BN_from_montgomery malloc mont x (Some t) r = (Some (), r')"
    and "bn_int r' = int (k mod mont_n mont)" and "bn_width r' = bn_width (mont_N mont)" and "bn_ok r'" and "\<not> bn_neg r'"
proof -
  have xs: "bn_ok x" "\<not> bn_neg x" "bn_width x \<le> 2 * bn_width (mont_N mont)" using x by (simp_all add: mont_form_def bn_small_def)
  have "bn_total malloc N (BN_from_montgomery malloc mont x (Some t))"
    using N t by (intro total_from_montgomery ok xs) (simp_all add: mont_room_def bn_temp_def)
  then obtain r0 where "BN_from_montgomery malloc mont x (Some t) BN_init = (Some (), r0)"
    by (rule bn_totalD [OF _ mont_room_init [OF N]])
  from from_montgomery_dest [OF this r] obtain r' where r': "BN_from_montgomery malloc mont x (Some t) r = (Some (), r')" by blast
  from that [OF r' from_montgomery_value [OF ok x r']] show thesis .
qed

lemma one_to_montgomery_returns:
  assumes ok: "mont_ok mont" and N: "mont_room malloc N mont" and t: "bn_temp malloc N t" and r: "mont_dest malloc mont r"
  obtains r' where "bn_one_to_montgomery malloc mont (Some t) r = (Some (), r')" and "mont_form mont r' 1"
proof -
  note m = mont_okD [OF ok]
  have RR: "mont_form mont (mont_RR mont) (mont_R mont)" using m by (simp add: mont_form_def)
  have "\<exists>r'. bn_one_to_montgomery malloc mont (Some t) r = (Some (), r')"
  proof (cases "0 < bn_width (mont_N mont) \<and> drop_bit 63 (bn_d (mont_N mont) ! (bn_width (mont_N mont) - 1)) \<noteq> 0")
    case True
    with r show ?thesis
      by (cases rule: bn_wexpand_cases [of malloc "bn_width (mont_N mont)" r])
        (auto simp: bn_one_to_montgomery_def Let_def and_then_def)
  next
    case False
    obtain r' where "BN_from_montgomery malloc mont (mont_RR mont) (Some t) r = (Some (), r')"
      by (rule from_montgomery_returns [OF ok RR N t r])
    then show ?thesis unfolding bn_one_to_montgomery_def Let_def if_not_P [OF False] by blast
  qed
  then obtain r' where r': "bn_one_to_montgomery malloc mont (Some t) r = (Some (), r')" ..
  note v = bn_one_to_montgomery_val [OF r' ok]
  show thesis by (rule that [OF r']) (use v bn_small_mont [OF ok v(4,3)] in \<open>simp add: mont_form_def\<close>)
qed

text \<open>A room of \<open>N\<close> limbs that is enough for the numbers of a computation modulo \<open>m\<close>.\<close>

lemma mont_context:
  assumes m: "bn_small m" "odd (bn_abs m)" "\<not> bn_neg m" and N: "16 * bn_width m + 16 \<le> N"
    and ctx: "\<forall>i. ctx_free malloc N (ctx i)" and init: "bn_free malloc N BN_init"
  obtains mont where "BN_MONT_CTX_new_consttime malloc True m ctx = Some mont" and "mont_ok mont"
    and "mont_n mont = bn_abs m" and "mont_room malloc N mont" and "bn_width (mont_N mont) \<le> bn_width m"
proof -
  have "bn_width m \<le> N" using N by simp
  from mont_new_returns [OF m this ctx init] obtain mont where
    mont: "BN_MONT_CTX_new_consttime malloc True m ctx = Some mont" "mont_ok mont" "mont_n mont = bn_abs m"
      "bn_width (mont_N mont) \<le> bn_width m" .
  with N init that show thesis by (simp add: mont_room_def)
qed

section \<open>Byte strings\<close>

lemma be_nat_strip: "be_nat (dropWhile (\<lambda>b. b = 0) bs) = be_nat bs"
  by (induction bs) auto

lemma num_bytes_unique:
  assumes "bn_ok bn" and "bn_abs bn < 256 ^ k" and "k = 0 \<or> 256 ^ (k - 1) \<le> bn_abs bn"
  shows "BN_num_bytes bn = k"
proof (cases "bn_abs bn = 0")
  case True
  with assms(3) have "k = 0" by auto
  moreover have "BN_num_bits bn = 0"
    using bn_minimal_width(4) [OF assms(1)] True by (simp add: BN_num_bits_def Let_def)
  ultimately show ?thesis by (simp add: BN_num_bytes_def)
next
  case False
  let ?m = "BN_num_bits bn"
  from BN_num_bits_val [OF assms(1)] False have m: "bn_abs bn < 2 ^ ?m" "0 < ?m" "2 ^ (?m - 1) \<le> bn_abs bn" by simp_all
  have k: "0 < k" "256 ^ (k - 1) \<le> bn_abs bn" using assms(2,3) False by (auto intro: gr0I)
  have "(2 :: nat) ^ (?m - 1) < 2 ^ (8 * k)" using m(3) assms(2) by (simp add: power_mult)
  then have "?m - 1 < 8 * k" by (rule power_less_imp_less_exp [rotated]) simp
  moreover have "(2 :: nat) ^ (8 * (k - 1)) < 2 ^ ?m" using m(1) k(2) by (simp add: power_mult)
  then have "8 * (k - 1) < ?m" by (rule power_less_imp_less_exp [rotated]) simp
  ultimately show ?thesis using m(2) k(1) by (auto simp: BN_num_bytes_def)
qed

lemma bn2bin_strip:
  assumes "bn_ok bn" and "bn_abs bn = be_nat inp"
  shows "BN_bn2bin bn = dropWhile (\<lambda>b. b = 0) inp"
proof -
  let ?s = "dropWhile (\<lambda>b. b = 0) inp"
  have v: "bn_abs bn = be_nat ?s" by (simp add: assms(2) be_nat_strip)
  have "BN_num_bytes bn = length ?s"
  proof (rule num_bytes_unique [OF assms(1)])
    show "bn_abs bn < 256 ^ length ?s" unfolding v by (rule be_nat_less)
    show "length ?s = 0 \<or> 256 ^ (length ?s - 1) \<le> bn_abs bn"
    proof (cases ?s)
      case (Cons b bs)
      then have "b \<noteq> 0" using hd_dropWhile [of "\<lambda>b. b = 0" inp] by simp
      then have "1 \<le> unat b" by (simp add: Suc_le_eq unat_gt_0)
      then have "1 * 256 ^ length bs \<le> unat b * 256 ^ length bs" by (rule mult_le_mono1)
      then show ?thesis unfolding v Cons by (simp add: trans_le_add1)
    qed simp
  qed
  then show ?thesis using BN_bn2bin_val [OF assms(1)] be_bytes_be_nat [of ?s] by (simp only: v)
qed

lemma bin2bn_returns:
  assumes "bn_free malloc N r" and "length inp \<le> 8 * N"
  obtains bn where "BN_bin2bn malloc new inp (Some r) = Some bn"
proof (cases "inp = []")
  case True
  then show thesis by (intro that) (auto simp: BN_bin2bn_def)
next
  case False
  then have "(length inp - 1) div 8 + 1 \<le> N" using assms(2) by (cases inp) auto
  then obtain r' where "bn_wexpand malloc ((length inp - 1) div 8 + 1) r = (Some (), r')"
    by (rule wexpandE [OF assms(1)])
  with False that show thesis by (auto simp: BN_bin2bn_def Let_def)
qed

lemma le2bn_returns:
  assumes "bn_free malloc N r" and "inp \<noteq> []" and "length inp \<le> 8 * N"
  obtains bn where "BN_le2bn malloc new inp (Some r) = Some bn" and "bn_neg bn = bn_neg r"
proof -
  have "(length inp - 1) div 8 + 1 \<le> N" using assms(2,3) by (cases inp) auto
  then obtain r' where r': "bn_wexpand malloc ((length inp - 1) div 8 + 1) r = (Some (), r')"
    by (rule wexpandE [OF assms(1)])
  then have "bn_neg r' = bn_neg r" by (auto simp: bn_wexpand_def split: if_splits)
  then show thesis using r' assms(2)
    by (intro that [of "put_words (le_limbs ((length inp - 1) div 8 + 1) inp) r'"]) (auto simp: BN_le2bn_def Let_def)
qed

lemma bin2bn_ok: "BN_bin2bn malloc new inp ret = Some bn \<Longrightarrow> inp \<noteq> [] \<Longrightarrow> bn_ok bn"
  by (auto simp: BN_bin2bn_def Let_def split: option.splits prod.splits)

section \<open>Sums\<close>

lemma add_sub_returns:
  assumes n: "bn_normal a" "bn_normal b" and N: "max (bn_width a) (bn_width b) + 1 \<le> N" and r: "bn_free malloc N r"
  obtains s d where "BN_add malloc a b r = (Some (), s)" "bn_normal s" "bn_int s = bn_int a + bn_int b"
    and "BN_sub malloc a b r = (Some (), d)" "bn_normal d" "bn_int d = bn_int a - bn_int b"
proof -
  have room: "bn_room malloc n r" if "n \<le> max (bn_width a) (bn_width b) + 1" for n
    using wexpand_free [OF r] that N by (simp add: bn_room_def)
  obtain x s where s: "BN_add malloc a b r = (x, s)" by (rule prod.exhaust)
  obtain y d where d: "BN_sub malloc a b r = (y, d)" by (rule prod.exhaust)
  have "x \<noteq> None" and "y \<noteq> None"
    using BN_add_val(2) [OF n s] BN_sub_val(2) [OF n d] room by blast+
  then have "x = Some ()" and "y = Some ()" by auto
  with BN_add_val(1) [OF n s] BN_sub_val(1) [OF n d] s d that show thesis by simp
qed

section \<open>Karatsuba and the schoolbook method\<close>

lemma karatsuba_full:
  assumes "n = 2 ^ k" and "length a = n" and "length b = n"
  shows "bn_mul_recursive n a b = bn_mul_normal a b"
  using bn_mul_recursive_val [of n k a b] bn_mul_normal_val [of a b] assms
  by (intro iffD1 [OF bn_val_inject]) simp_all

lemma karatsuba_square:
  assumes "n = 2 ^ k" and "length a = n"
  shows "bn_sqr_recursive n a = bn_mul_normal a a"
  using bn_sqr_recursive_val [of n k a] bn_mul_normal_val [of a a] assms
  by (intro iffD1 [OF bn_val_inject]) simp_all

lemma karatsuba_part:
  assumes "n = 2 ^ k" and "8 \<le> n" and "n \<le> length a" "length a < 2 * n" and "n \<le> length b" "length b < 2 * n"
    and "length a \<le> length b + 1" and "length b \<le> length a + 1"
  shows "bn_mul_part_recursive n a b r = bn_mul_normal a b @ replicate (4 * n - (length a + length b)) 0"
  using bn_mul_part_recursive_val [of n k a b r] bn_mul_normal_val [of a b] assms
  by (intro iffD1 [OF bn_val_inject]) (simp_all add: bn_val_append)

lemma karatsuba_small:
  assumes "n \<le> length a" and "n \<le> length b"
  shows "n < 8 \<Longrightarrow> bn_mul_part_recursive n a b r =
    bn_mul_normal a b @ clear_bytes (4 * n - (length a + length b)) (drop (length a + length b) r)"
proof -
  have "2 * n - (length a - n) - (length b - n) = 4 * n - (length a + length b)"
    "2 * n + (length a - n) + (length b - n) = length a + length b"
    using assms by simp_all
  then show "n < 8 \<Longrightarrow> ?thesis"
    by (simp add: bn_mul_part_recursive.simps [of n a b r] Let_def)
qed

lemma karatsuba_bytes: "bn_mul_part_recursive 1 [2] [3] [9, 9, 9, 9] = [6, 0, 0, 9]"
  by code_simp

end
