(* ===== verification/Bn_Window.thy ===== *)
theory Bn_Window
  imports Bn_Room
begin

text \<open>
  Exponentiation by windows, the loops of \<open>fipsmodule/bn/exponentiation.c\<close>.  The same loops run
  on big numbers and on small arrays, so they are defined over the product \<open>mul d x y same\<close>
  that writes to \<open>d\<close>, where \<open>same\<close> tells that \<open>x\<close> and \<open>y\<close> are one object, and may fail.
\<close>

section \<open>The loops\<close>

subsection \<open>Sliding windows\<close>

definition BN_window_bits_for_exponent_size :: "nat \<Rightarrow> nat" where
  "BN_window_bits_for_exponent_size b =
    (if b > 671 then 6 else if b > 239 then 5 else if b > 79 then 4 else if b > 23 then 3 else 1)"

type_synonym ('s, 'n) mult = "'n \<Rightarrow> 'n \<Rightarrow> 'n \<Rightarrow> bool \<Rightarrow> ('s, 'n) oper"

text \<open>\<open>val[i]\<close> from \<open>val[i - 1]\<close> and the square \<open>d\<close>; the list has the objects to write to.\<close>

fun odd_powers :: "('s, 'n) mult \<Rightarrow> 'n option list \<Rightarrow> 'n \<Rightarrow> 'n \<Rightarrow> ('s, 'n list) oper" where
  "odd_powers mul (x # xs) d v =
    (case x of
       None \<Rightarrow> fail
     | Some x \<Rightarrow> and_then (mul x v d False) (\<lambda>v. and_then (odd_powers mul xs d v) (\<lambda>vs. ok (v # vs))))"
| "odd_powers mul [] d v = ok []"

text \<open>The table of the odd powers.\<close>

definition power_table :: "('s, 'n) mult \<Rightarrow> nat \<Rightarrow> 'n option \<Rightarrow> (nat \<Rightarrow> 'n option) \<Rightarrow> 'n \<Rightarrow> ('s, 'n list) oper" where
  "power_table mul window d dests val0 =
    (if window > 1 then
       (case d of
          None \<Rightarrow> fail
        | Some d \<Rightarrow> and_then (mul d val0 val0 True) (\<lambda>d.
            and_then (odd_powers mul (map dests [1..<2 ^ (window - 1)]) d val0) (\<lambda>vals. ok (val0 # vals))))
     else ok [val0])"

text \<open>The largest window from the set bit \<open>wstart\<close> downwards that ends on a set bit.\<close>

function find_window :: "(nat \<Rightarrow> bool) \<Rightarrow> nat \<Rightarrow> nat \<Rightarrow> nat \<Rightarrow> nat \<Rightarrow> nat \<Rightarrow> nat \<times> nat" where
  "find_window is_set window wstart i wvalue wsize =
    (if i < window \<and> i \<le> wstart then
       if is_set (wstart - i) then find_window is_set window wstart (i + 1) (push_bit (i - wsize) wvalue OR 1) i
       else find_window is_set window wstart (i + 1) wvalue wsize
     else (wvalue, wsize))"
  by pat_completeness auto
termination by (relation "measure (\<lambda>(_, window, _, i, _). window - i)") auto

declare find_window.simps [simp del]

lemma find_window_le: "wsize \<le> wstart \<Longrightarrow> snd (find_window is_set window wstart i wvalue wsize) \<le> wstart"
  by (induction is_set window wstart i wvalue wsize rule: find_window.induct)
    (subst find_window.simps, auto)

fun square_times :: "('s, 'n) mult \<Rightarrow> nat \<Rightarrow> 'n \<Rightarrow> ('s, 'n) oper" where
  "square_times mul (Suc n) r = and_then (mul r r r True) (square_times mul n)"
| "square_times mul 0 r = ok r"

function slide :: "('s, 'n) mult \<Rightarrow> ('n \<Rightarrow> 'n \<Rightarrow> ('s, 'n) oper) \<Rightarrow> (nat \<Rightarrow> bool) \<Rightarrow> nat \<Rightarrow> 'n list \<Rightarrow>
    bool \<Rightarrow> nat \<Rightarrow> 'n \<Rightarrow> ('s, bool \<times> 'n) oper" where
  "slide mul copy is_set window val r_is_one wstart r =
    (if \<not> is_set wstart then
       and_then (if \<not> r_is_one then mul r r r True else ok r)
         (\<lambda>r. if wstart = 0 then ok (r_is_one, r)
              else slide mul copy is_set window val r_is_one (wstart - 1) r)
     else case find_window is_set window wstart 1 1 0 of (wvalue, wsize) \<Rightarrow>
       and_then (if \<not> r_is_one then square_times mul (wsize + 1) r else ok r)
         (\<lambda>r. and_then (if r_is_one then copy r (val ! (wvalue div 2)) else mul r r (val ! (wvalue div 2)) False)
         (\<lambda>r. if wstart = wsize then ok (False, r)
              else slide mul copy is_set window val False (wstart - (wsize + 1)) r)))"
  by pat_completeness auto
termination
proof (relation "measure (\<lambda>(_, _, _, _, _, _, wstart, _). wstart)", goal_cases)
  case (3 mul copy is_set window val r_is_one wstart r wvalue wsize)
  then have "wsize \<le> wstart" using find_window_le [of 0 wstart is_set window 1 1] by (metis snd_conv le0)
  with 3 show ?case by auto
qed auto

declare slide.simps [simp del]

subsection \<open>Fixed windows\<close>

text \<open>\<open>k\<close> bits of the exponent are read from \<open>bits\<close> downwards.\<close>

fun read_bits :: "(int \<Rightarrow> bool) \<Rightarrow> nat \<Rightarrow> int \<Rightarrow> nat \<Rightarrow> nat" where
  "read_bits is_set (Suc k) bits wvalue = read_bits is_set k (bits - 1) (2 * wvalue + of_bool (is_set bits))"
| "read_bits is_set 0 bits wvalue = wvalue"

text \<open>The same with a squaring before each bit.\<close>

fun scan_window :: "('s, 'n) mult \<Rightarrow> (int \<Rightarrow> bool) \<Rightarrow> nat \<Rightarrow> int \<Rightarrow> nat \<Rightarrow> 'n \<Rightarrow> ('s, nat \<times> 'n) oper" where
  "scan_window mul is_set (Suc k) bits wvalue r =
    and_then (mul r r r True) (scan_window mul is_set k (bits - 1) (2 * wvalue + of_bool (is_set bits)))"
| "scan_window mul is_set 0 bits wvalue r = ok (wvalue, r)"

text \<open>\<open>fetch d i\<close> reads the power \<open>i\<close> from the table into \<open>d\<close>; a window has at least one bit.\<close>

function fixed_windows :: "('s, 'n) mult \<Rightarrow> ('n \<Rightarrow> nat \<Rightarrow> ('s, 'n) oper) \<Rightarrow> (int \<Rightarrow> bool) \<Rightarrow> nat \<Rightarrow>
    int \<Rightarrow> 'n \<Rightarrow> 'n \<Rightarrow> ('s, 'n) oper" where
  "fixed_windows mul fetch is_set window bits tmp am =
    (if bits < 0 \<or> window = 0 then ok tmp
     else and_then (scan_window mul is_set window bits 0 tmp) (\<lambda>(wvalue, tmp).
       and_then (fetch am wvalue) (\<lambda>am.
       and_then (mul tmp tmp am False) (\<lambda>tmp.
         fixed_windows mul fetch is_set window (bits - int window) tmp am))))"
  by pat_completeness auto
termination by (relation "measure (\<lambda>(_, _, _, _, bits, _, _). nat (bits + 1))") auto

declare fixed_windows.simps [simp del]

section \<open>Windows of a number\<close>

text \<open>The \<open>n\<close> bits of \<open>e\<close> from the position \<open>k\<close> on.\<close>

definition bits_at :: "nat \<Rightarrow> nat \<Rightarrow> nat \<Rightarrow> nat" where
  "bits_at e k n = (e div 2 ^ k) mod 2 ^ n"

lemma div_bits_at: "e div 2 ^ k = 2 ^ n * (e div 2 ^ (k + n)) + bits_at e k n"
  unfolding bits_at_def power_add div_mult2_eq by simp

lemma bits_at_Suc: "bits_at e k (Suc n) = 2 * bits_at e (Suc k) n + of_bool (bit e k)"
proof -
  have "(e div 2 ^ k) mod (2 * 2 ^ n) = 2 * (e div 2 ^ k div 2 mod 2 ^ n) + e div 2 ^ k mod 2"
    by (rule mod_mult2_eq)
  also have "e div 2 ^ k mod 2 = of_bool (bit e k)" by (simp add: bit_iff_odd mod_2_eq_odd)
  also have "e div 2 ^ k div 2 = e div 2 ^ Suc k" by (simp only: power_Suc2 div_mult2_eq)
  finally show ?thesis by (simp add: bits_at_def)
qed

lemma bits_at_less: "bits_at e k n < 2 ^ n" by (simp add: bits_at_def)

lemma div_bit_step: "(e :: nat) div 2 ^ k = 2 * (e div 2 ^ Suc k) + of_bool (bit e k)"
  using div_bits_at [of e k 1] bits_at_Suc [of e k 0] by (simp add: bits_at_def)

lemma find_window_val:
  assumes "find_window (bit e) window wstart i wvalue wsize = (v, w)" and "wsize < i" and "i \<le> wstart + 1"
    and "wvalue = bits_at e (wstart - wsize) (wsize + 1)" and "odd wvalue" and "wsize < window"
    and "bits_at e (wstart + 1 - i) i = 2 ^ (i - 1 - wsize) * wvalue"
  shows "v = bits_at e (wstart - w) (w + 1) \<and> odd (bits_at e (wstart - w) (w + 1)) \<and> w \<le> wstart \<and> w < window"
  using assms
proof (induction "bit e" window wstart i wvalue wsize rule: find_window.induct)
  case (1 window wstart i wvalue wsize)
  show ?case
  proof (cases "i < window \<and> i \<le> wstart")
    case False
    then have "v = wvalue" "w = wsize" using "1.prems"(1) by (simp_all add: find_window.simps if_not_P)
    then show ?thesis using "1.prems"(2-6) by simp
  next
    case True
    have nx: "bits_at e (wstart - i) (Suc i) = 2 * (2 ^ (i - 1 - wsize) * wvalue) + of_bool (bit e (wstart - i))"
      using bits_at_Suc [of e "wstart - i" i] "1.prems"(7) True by (simp add: Suc_diff_le)
    have shift: "2 * (2 ^ (i - 1 - wsize) * wvalue) = 2 ^ (i - wsize) * wvalue"
      using "1.prems"(2) by (simp flip: mult.assoc power_Suc add: Suc_diff_Suc)
    note nx = nx [unfolded shift]
    show ?thesis
    proof (cases "bit e (wstart - i)")
      case set: True
      have "even (push_bit (i - wsize) wvalue)" using "1.prems"(2) by (simp add: push_bit_eq_mult)
      then have "push_bit (i - wsize) wvalue OR 1 = 2 ^ (i - wsize) * wvalue + 1"
        unfolding or_one_eq by (simp add: push_bit_eq_mult)
      then have v: "push_bit (i - wsize) wvalue OR 1 = bits_at e (wstart - i) (i + 1)"
        using nx set by simp
      have "find_window (bit e) window wstart (i + 1) (push_bit (i - wsize) wvalue OR 1) i = (v, w)"
        using "1.prems"(1) True set by (subst (asm) find_window.simps) simp
      from "1.hyps"(1) [OF True set this] show ?thesis
        using "1.prems"(2) True v set nx by simp
    next
      case clear: False
      have "find_window (bit e) window wstart (i + 1) wvalue wsize = (v, w)"
        using "1.prems"(1) True clear by (subst (asm) find_window.simps) simp
      from "1.hyps"(2) [OF True clear this] show ?thesis
        using "1.prems"(2-6) True clear nx by simp
    qed
  qed
qed

lemma first_window:
  assumes "find_window (bit e) window wstart 1 1 0 = (v, w)" and "bit e wstart" and "0 < window"
  shows "v = bits_at e (wstart - w) (w + 1)" and "odd v" and "w \<le> wstart" and "w < window"
proof -
  have "bits_at e wstart 1 = 1" using assms(2) bits_at_Suc [of e wstart 0] by (simp add: bits_at_def)
  with find_window_val [OF assms(1)] assms(3)
  show "v = bits_at e (wstart - w) (w + 1)" "odd v" "w \<le> wstart" "w < window" by simp_all
qed

text \<open>The bits from the position \<open>n - 1\<close> downwards.\<close>

lemma bits_at_snoc:
  assumes "Suc k \<le> n"
  shows "2 ^ k * (2 * v + of_bool (bit e (n - 1))) + bits_at e (n - 1 - k) k = 2 ^ Suc k * v + bits_at e (n - Suc k) (Suc k)"
proof -
  have "bits_at e (n - Suc k) (Suc k) = 2 ^ k * of_bool (bit e (n - 1)) + bits_at e (n - Suc k) k"
  proof -
    have "(e div 2 ^ (n - Suc k)) mod (2 ^ k * 2) = 2 ^ k * (e div 2 ^ (n - Suc k) div 2 ^ k mod 2) + e div 2 ^ (n - Suc k) mod 2 ^ k"
      by (rule mod_mult2_eq)
    also have "e div 2 ^ (n - Suc k) div 2 ^ k = e div 2 ^ (n - 1)"
      using assms by (simp flip: div_mult2_eq power_add)
    finally show ?thesis by (simp add: bits_at_def bit_iff_odd mod_2_eq_odd mult.commute)
  qed
  then show ?thesis by (simp add: algebra_simps)
qed

lemma read_bits_val:
  assumes "\<And>b. is_set b \<longleftrightarrow> 0 \<le> b \<and> bit e (nat b)"
  shows "k \<le> n \<Longrightarrow> read_bits is_set k (int n - 1) v = 2 ^ k * v + bits_at e (n - k) k"
proof (induction k arbitrary: n v)
  case (Suc k)
  then have n: "int n - 1 - 1 = int (n - 1) - 1" "is_set (int n - 1) = bit e (n - 1)" using assms by (simp_all add: nat_diff_distrib)
  have "read_bits is_set (Suc k) (int n - 1) v = 2 ^ k * (2 * v + of_bool (bit e (n - 1))) + bits_at e (n - 1 - k) k"
    unfolding read_bits.simps n using Suc.prems by (intro Suc.IH) simp
  then show ?case by (simp only: bits_at_snoc [OF Suc.prems])
qed (simp add: bits_at_def)

section \<open>Operations that succeed\<close>

text \<open>From a good state the operation succeeds with a result as wanted, in a good state.\<close>

definition returns :: "('s \<Rightarrow> bool) \<Rightarrow> ('s, 'a) oper \<Rightarrow> ('a \<Rightarrow> bool) \<Rightarrow> bool" where
  "returns good m P \<longleftrightarrow> (\<forall>s. good s \<longrightarrow> (\<exists>x s'. m s = (Some x, s') \<and> good s' \<and> P x))"

lemma returns_ok [intro]: "P x \<Longrightarrow> returns good (ok x) P"
  by (simp add: returns_def ok_def)

lemma returns_and_then:
  assumes "returns good m Q" and "\<And>x. Q x \<Longrightarrow> returns good (f x) P"
  shows "returns good (and_then m f) P"
  unfolding returns_def
proof (intro allI impI)
  fix s assume "good s"
  with assms(1) obtain x s1 where 1: "m s = (Some x, s1)" "good s1" "Q x" by (auto simp: returns_def)
  from assms(2) [OF 1(3)] 1(2) obtain y s2 where "f x s1 = (Some y, s2)" "good s2" "P y" by (auto simp: returns_def)
  with 1(1) show "\<exists>x s'. and_then m f s = (Some x, s') \<and> good s' \<and> P x" by (simp add: and_then_def)
qed

lemma returns_mono: "returns good m Q \<Longrightarrow> (\<And>x. Q x \<Longrightarrow> P x) \<Longrightarrow> returns good m P"
  unfolding returns_def by blast

lemma returnsD:
  assumes "returns good m P" and "good s"
  obtains x s' where "m s = (Some x, s')" and "good s'" and "P x"
  using assms by (auto simp: returns_def)

section \<open>The loops compute powers\<close>

text \<open>
  The contract of a multiplication: \<open>rep x k\<close> says that \<open>x\<close> represents \<open>k\<close>, \<open>dest d\<close> that \<open>d\<close>
  can be written to.
\<close>

locale power_mult =
  fixes mul :: "('s, 'n) mult"
    and rep :: "'n \<Rightarrow> nat \<Rightarrow> bool"
    and dest :: "'n \<Rightarrow> bool"
    and good :: "'s \<Rightarrow> bool"
  assumes mul_returns: "dest d \<Longrightarrow> rep x k \<Longrightarrow> rep y l \<Longrightarrow> (same \<Longrightarrow> x = y) \<Longrightarrow>
      returns good (mul d x y same) (\<lambda>z. rep z (k * l))"
    and rep_dest: "rep x k \<Longrightarrow> dest x"
begin

lemma square_returns: "rep r k \<Longrightarrow> returns good (mul r r r True) (\<lambda>z. rep z (k ^ 2))"
  using mul_returns [of r r k r k True] rep_dest by (simp add: power2_eq_square)

lemma square_times_returns: "rep r k \<Longrightarrow> returns good (square_times mul n r) (\<lambda>z. rep z (k ^ 2 ^ n))"
proof (induction n arbitrary: r k)
  case (Suc n)
  show ?case unfolding square_times.simps
  proof (rule returns_and_then [OF square_returns [OF Suc.prems]])
    fix x assume "rep x (k ^ 2)"
    from Suc.IH [OF this] show "returns good (square_times mul n x) (\<lambda>z. rep z (k ^ 2 ^ Suc n))"
      by (simp add: power_mult)
  qed
qed auto

lemma odd_powers_returns:
  "rep d (a ^ 2) \<Longrightarrow> rep v (a ^ (2 * j + 1)) \<Longrightarrow> \<forall>x \<in> set xs. \<exists>y. x = Some y \<and> dest y \<Longrightarrow>
    returns good (odd_powers mul xs d v)
      (\<lambda>vs. length vs = length xs \<and> (\<forall>i < length xs. rep (vs ! i) (a ^ (2 * (j + 1 + i) + 1))))"
proof (induction xs arbitrary: v j)
  case (Cons x xs)
  then obtain y where y: "x = Some y" "dest y" by auto
  have step: "odd_powers mul (x # xs) d v =
      and_then (mul y v d False) (\<lambda>v. and_then (odd_powers mul xs d v) (\<lambda>vs. ok (v # vs)))"
    by (simp add: y(1))
  show ?case unfolding step
  proof (rule returns_and_then [OF mul_returns [OF y(2) Cons.prems(2,1)]])
    fix v' assume "rep v' (a ^ (2 * j + 1) * a\<^sup>2)"
    then have v': "rep v' (a ^ (2 * (j + 1) + 1))" by (simp add: power2_eq_square ac_simps)
    have "returns good (odd_powers mul xs d v')
        (\<lambda>vs. length vs = length xs \<and> (\<forall>i < length xs. rep (vs ! i) (a ^ (2 * (j + 1 + 1 + i) + 1))))"
      using Cons.prems(3) by (intro Cons.IH [OF Cons.prems(1) v']) simp
    then show "returns good (and_then (odd_powers mul xs d v') (\<lambda>vs. ok (v' # vs)))
        (\<lambda>vs. length vs = length (x # xs) \<and> (\<forall>i < length (x # xs). rep (vs ! i) (a ^ (2 * (j + 1 + i) + 1))))"
      by (rule returns_and_then) (use v' in \<open>auto simp: less_Suc_eq_0_disj\<close>)
  qed simp
qed auto

lemma power_table_returns:
  assumes window: "0 < window" and v: "rep val0 a" and d: "d = Some dd" "dest dd" and dests: "\<And>i. \<exists>y. dests i = Some y \<and> dest y"
  shows "returns good (power_table mul window d dests val0) (\<lambda>val. \<forall>i < 2 ^ (window - 1). rep (val ! i) (a ^ (2 * i + 1)))"
proof (cases "window > 1")
  case False
  with window v show ?thesis by (auto simp: power_table_def)
next
  case True
  have "\<forall>x \<in> set (map dests [1..<2 ^ (window - 1)]). \<exists>y. x = Some y \<and> dest y" using dests by simp
  note odd = odd_powers_returns [OF _ _ this, where a = a and v = val0 and j = 0]
  show ?thesis
    unfolding power_table_def if_P [OF True] d(1) option.case
  proof (rule returns_and_then [OF mul_returns [OF d(2) v v]])
    fix x assume "rep x (a * a)"
    then have "rep x (a ^ 2)" by (simp add: power2_eq_square)
    note powers = odd [OF this]
    show "returns good (and_then (odd_powers mul (map dests [1..<2 ^ (window - 1)]) x val0) (\<lambda>vals. ok (val0 # vals)))
        (\<lambda>val. \<forall>i < 2 ^ (window - 1). rep (val ! i) (a ^ (2 * i + 1)))"
    proof (rule returns_and_then [OF powers])
      show "rep val0 (a ^ (2 * 0 + 1))" using v by simp
    next
      fix vals assume "length vals = length (map dests [1..<2 ^ (window - 1)]) \<and>
        (\<forall>i < length (map dests [1..<2 ^ (window - 1)]). rep (vals ! i) (a ^ (2 * (0 + 1 + i) + 1)))"
      then have "rep ((val0 # vals) ! i) (a ^ (2 * i + 1))" if "i < 2 ^ (window - 1)" for i
        using that v by (cases i) simp_all
      then show "returns good (ok (val0 # vals)) (\<lambda>val. \<forall>i < 2 ^ (window - 1). rep (val ! i) (a ^ (2 * i + 1)))"
        by (intro returns_ok) blast
    qed
  qed simp
qed

text \<open>
  The result carries the flag \<open>r_is_one\<close>, which is cleared at the first set bit; \<open>copy\<close> is
  what uses the first table entry: a copy of it, or a product with a number that represents one.
\<close>

lemma slide_returns:
  assumes copy: "\<And>d x k. init d \<Longrightarrow> rep x k \<Longrightarrow> returns good (copy d x) (\<lambda>z. rep z k)"
    and val: "\<forall>i < 2 ^ (window - 1). rep (val ! i) (a ^ (2 * i + 1))" and window: "0 < window"
  shows "(one \<Longrightarrow> init r) \<Longrightarrow> one \<longleftrightarrow> e div 2 ^ Suc wstart = 0 \<Longrightarrow> (\<not> one \<Longrightarrow> rep r (a ^ (e div 2 ^ Suc wstart))) \<Longrightarrow>
    returns good (slide mul copy (bit e) window val one wstart r)
      (\<lambda>(one, z). (one \<longleftrightarrow> e = 0) \<and> (\<not> one \<longrightarrow> rep z (a ^ e)))"
proof (induction wstart arbitrary: one r rule: less_induct)
  case (less wstart)
  note r = less.prems
  let ?hi = "e div 2 ^ Suc wstart"
  let ?post = "\<lambda>(one, z). (one \<longleftrightarrow> e = 0) \<and> (\<not> one \<longrightarrow> rep z (a ^ e))"
  show ?case
  proof (cases "bit e wstart")
    case False
    then have lo: "e div 2 ^ wstart = ?hi * 2" using div_bit_step [of e wstart] by simp
    have "returns good (if \<not> one then mul r r r True else ok r) (\<lambda>z. (one \<longrightarrow> init z) \<and> (\<not> one \<longrightarrow> rep z (a ^ (e div 2 ^ wstart))))"
    proof (cases one)
      case False
      then show ?thesis
        using square_returns [OF r(3)] by (auto simp: lo power_mult elim!: returns_mono)
    qed (use r(1) in auto)
    then show ?thesis
      unfolding slide.simps [of _ _ _ _ _ _ wstart] if_P [OF False]
    proof (rule returns_and_then)
      fix z assume z: "(one \<longrightarrow> init z) \<and> (\<not> one \<longrightarrow> rep z (a ^ (e div 2 ^ wstart)))"
      show "returns good (if wstart = 0 then ok (one, z) else slide mul copy (bit e) window val one (wstart - 1) z) ?post"
      proof (cases wstart)
        case 0
        then show ?thesis using z r(2) lo by auto
      next
        case (Suc m)
        then show ?thesis using z r(2) lo by (auto intro!: less.IH)
      qed
    qed
  next
    case True
    then have set_bit: "\<not> \<not> bit e wstart" by simp
    obtain v w where vw: "find_window (bit e) window wstart 1 1 0 = (v, w)" by (rule prod.exhaust)
    note f = first_window [OF vw True window]
    have lo: "e div 2 ^ (wstart - w) = ?hi * 2 ^ (w + 1) + v"
      using div_bits_at [of e "wstart - w" "w + 1"] f(1,3) by (simp add: mult.commute)
    have "v < 2 ^ (w + 1)" unfolding f(1) by (rule bits_at_less)
    also have "\<dots> \<le> 2 ^ window" using f(4) by (intro power_increasing) simp_all
    finally have "v div 2 < 2 ^ (window - 1)" using window by (cases window) auto
    then have "rep (val ! (v div 2)) (a ^ (2 * (v div 2) + 1))" using val by blast
    then have entry: "rep (val ! (v div 2)) (a ^ v)" by (simp only: odd_two_times_div_two_succ [OF f(2)])
    have v0: "v \<noteq> 0" using f(2) by (intro notI) simp
    have squares: "returns good (if \<not> one then square_times mul (w + 1) r else ok r)
        (\<lambda>z. (one \<longrightarrow> init z) \<and> (\<not> one \<longrightarrow> rep z (a ^ (?hi * 2 ^ (w + 1)))))"
    proof (cases one)
      case False
      show ?thesis
        unfolding if_P [OF False] power_mult
        by (rule returns_mono [OF square_times_returns [OF r(3) [OF False]]]) (use False in blast)
    qed (use r(1) in auto)
    have entry_used: "returns good (if one then copy z (val ! (v div 2)) else mul z z (val ! (v div 2)) False)
        (\<lambda>z. rep z (a ^ (e div 2 ^ (wstart - w))))"
      if z: "(one \<longrightarrow> init z) \<and> (\<not> one \<longrightarrow> rep z (a ^ (?hi * 2 ^ (w + 1))))" for z
    proof (cases one)
      case True
      then show ?thesis using copy [OF _ entry] z r(2) lo by auto
    next
      case False
      then have "rep z (a ^ (?hi * 2 ^ (w + 1)))" using z by simp
      from mul_returns [OF rep_dest [OF this] this entry, of False] False show ?thesis unfolding lo power_add by simp
    qed
    have hi0: "e div 2 ^ (wstart - w) \<noteq> 0" using lo v0 by simp
    show ?thesis
      unfolding slide.simps [of _ _ _ _ _ _ wstart] if_not_P [OF set_bit] vw prod.case
    proof (rule returns_and_then [OF squares], rule returns_and_then [OF entry_used], assumption)
      fix z assume z: "rep z (a ^ (e div 2 ^ (wstart - w)))"
      show "returns good (if wstart = w then ok (False, z)
          else slide mul copy (bit e) window val False (wstart - (w + 1)) z) ?post"
      proof (cases "wstart = w")
        case True
        then show ?thesis using z hi0 by auto
      next
        case False
        then have "Suc (wstart - (w + 1)) = wstart - w" using f(3) by simp
        then show ?thesis using less.IH [of "wstart - (w + 1)" False z] False f(3) z hi0 by simp
      qed
    qed
  qed
qed

lemma scan_window_returns:
  assumes is_set: "\<And>b. is_set b \<longleftrightarrow> 0 \<le> b \<and> bit e (nat b)"
  shows "k \<le> n \<Longrightarrow> rep r m \<Longrightarrow> returns good (scan_window mul is_set k (int n - 1) v r)
    (\<lambda>(wvalue, z). wvalue = 2 ^ k * v + bits_at e (n - k) k \<and> rep z (m ^ 2 ^ k))"
proof (induction k arbitrary: n v r m)
  case (Suc k)
  then have n: "int n - 1 - 1 = int (n - 1) - 1" "is_set (int n - 1) = bit e (n - 1)" using is_set by (simp_all add: nat_diff_distrib)
  show ?case unfolding scan_window.simps
  proof (rule returns_and_then [OF square_returns [OF Suc.prems(2)]])
    fix x assume x: "rep x (m ^ 2)"
    have le: "k \<le> n - 1" using Suc.prems by simp
    show "returns good (scan_window mul is_set k (int n - 1 - 1) (2 * v + of_bool (is_set (int n - 1))) x)
        (\<lambda>(wvalue, z). wvalue = 2 ^ Suc k * v + bits_at e (n - Suc k) (Suc k) \<and> rep z (m ^ 2 ^ Suc k))"
      using Suc.IH [OF le x] unfolding n bits_at_snoc [OF Suc.prems(1), symmetric] unfolding power_Suc power_mult .
  qed
qed (auto simp: bits_at_def)

lemma fixed_windows_returns:
  assumes fetch: "\<And>d i. dest d \<Longrightarrow> i < 2 ^ window \<Longrightarrow> returns good (fetch d i) (\<lambda>z. rep z (a ^ i))"
    and is_set: "\<And>b. is_set b \<longleftrightarrow> 0 \<le> b \<and> bit e (nat b)" and window: "0 < window"
  shows "rep tmp (a ^ (e div 2 ^ n)) \<Longrightarrow> dest am \<Longrightarrow> window dvd n \<Longrightarrow>
    returns good (fixed_windows mul fetch is_set window (int n - 1) tmp am) (\<lambda>z. rep z (a ^ e))"
proof (induction n arbitrary: tmp am rule: less_induct)
  case (less n)
  show ?case
  proof (cases n)
    case 0
    then show ?thesis using less.prems by (auto simp: fixed_windows.simps)
  next
    case (Suc m)
    then have le: "window \<le> n" using less.prems(3) by (auto dest: dvd_imp_le)
    let ?w = "bits_at e (n - window) window"
    have step: "\<not> (int n - 1 < 0 \<or> window = 0)" using Suc window by simp
    have eq: "(e div 2 ^ n) * 2 ^ window + ?w = e div 2 ^ (n - window)"
      using div_bits_at [of e "n - window" window] le by (simp add: mult.commute)
    show ?thesis
      unfolding fixed_windows.simps [of _ _ _ _ "int n - 1"] if_not_P [OF step]
    proof (rule returns_and_then [OF scan_window_returns [OF is_set le less.prems(1), of 0]])
      fix p assume "case p of (wvalue, z) \<Rightarrow> wvalue = 2 ^ window * 0 + ?w \<and> rep z ((a ^ (e div 2 ^ n)) ^ 2 ^ window)"
      then obtain z where p: "p = (?w, z)" and z: "rep z ((a ^ (e div 2 ^ n)) ^ 2 ^ window)" by (cases p) auto
      have "?w < 2 ^ window" by (rule bits_at_less)
      from fetch [OF less.prems(2) this] have "returns good (fetch am ?w) (\<lambda>z. rep z (a ^ ?w))" .
      then show "returns good (case p of (wvalue, tmp) \<Rightarrow> and_then (fetch am wvalue) (\<lambda>am. and_then (mul tmp tmp am False)
          (\<lambda>tmp. fixed_windows mul fetch is_set window (int n - 1 - int window) tmp am))) (\<lambda>z. rep z (a ^ e))"
        unfolding p prod.case
      proof (rule returns_and_then)
        fix y assume y: "rep y (a ^ ?w)"
        have "returns good (mul z z y False) (\<lambda>z. rep z (a ^ (e div 2 ^ (n - window))))"
          using mul_returns [OF rep_dest [OF z] z y, of False] by (simp flip: power_mult power_add add: eq)
        then show "returns good (and_then (mul z z y False)
            (\<lambda>tmp. fixed_windows mul fetch is_set window (int n - 1 - int window) tmp y)) (\<lambda>z. rep z (a ^ e))"
        proof (rule returns_and_then)
          fix x assume x: "rep x (a ^ (e div 2 ^ (n - window)))"
          have bits: "int n - 1 - int window = int (n - window) - 1" using le by simp
          have "n - window < n" using window Suc by simp
          from less.IH [OF this x rep_dest [OF y]]
          show "returns good (fixed_windows mul fetch is_set window (int n - 1 - int window) x y) (\<lambda>z. rep z (a ^ e))"
            unfolding bits using less.prems(3) le by (simp add: dvd_diff_nat)
        qed
      qed
    qed
  qed
qed

end

end
