(* ===== verification/Bn_Exp.thy ===== *)
theory Bn_Exp
  imports Bn_Window
begin

text \<open>
  Modular exponentiation with sliding windows, from \<open>fipsmodule/bn/exponentiation.c\<close>: on big
  numbers and on small arrays.
\<close>

section \<open>The operations\<close>

subsection \<open>Sliding windows\<close>

text \<open>
  What the context gives: numbers for \<open>r\<close>, \<open>d\<close> and \<open>val[i]\<close>, and the scratch numbers of the
  functions that are called; the multiplications are counted, and \<open>ex_mul k\<close> is for the one
  with the number \<open>k\<close>.
\<close>

record exp_ctx =
  ex_r :: "bignum option"
  ex_d :: "bignum option"
  ex_val :: "nat \<Rightarrow> bignum option"
  ex_new_ok :: bool
  ex_new :: "nat \<Rightarrow> ctx3"
  ex_to :: "bignum option \<times> bignum option"
  ex_mul :: "nat \<Rightarrow> bignum option \<times> bignum option"
  ex_from :: "bignum option"

definition mont_mult :: "(nat \<Rightarrow> bool) \<Rightarrow> mont_ctx \<Rightarrow> (nat \<Rightarrow> bignum option \<times> bignum option) \<Rightarrow> (nat, bignum) mult" where
  "mont_mult malloc mont ctx d x y same k =
    (case ctx k of (tmp, t) \<Rightarrow>
      case BN_mod_mul_montgomery malloc mont x y same tmp t d of
        (None, _) \<Rightarrow> (None, Suc k) | (Some _, d) \<Rightarrow> (Some d, Suc k))"

definition mont_copy :: "(nat \<Rightarrow> bool) \<Rightarrow> bignum \<Rightarrow> bignum \<Rightarrow> (nat, bignum) oper" where
  "mont_copy malloc d x k = (case BN_copy malloc x d of (None, _) \<Rightarrow> (None, k) | (Some _, d) \<Rightarrow> (Some d, k))"

definition BN_mod_exp_mont :: "(nat \<Rightarrow> bool) \<Rightarrow> exp_ctx \<Rightarrow> bignum \<Rightarrow> bignum \<Rightarrow> bignum \<Rightarrow> mont_ctx option \<Rightarrow> unit bn_oper" where
  "BN_mod_exp_mont malloc ctx a p m mont rr =
    (if \<not> BN_is_odd m then (None, rr)
     else if bn_neg m then (None, rr)
     else if bn_neg a \<or> 0 \<le> sint (BN_ucmp a m) then (None, rr)
     else let bits = BN_num_bits p
     in if bits = 0 then (if BN_abs_is_word 1 m then (Some (), BN_zero rr) else BN_one malloc rr)
     else case (ex_r ctx, ex_val ctx 0) of
       (Some r, Some val0) \<Rightarrow>
         (case (case mont of None \<Rightarrow> BN_MONT_CTX_new_consttime malloc (ex_new_ok ctx) m (ex_new ctx) | Some mont \<Rightarrow> Some mont) of
            None \<Rightarrow> (None, rr)
          | Some mont \<Rightarrow>
              let window = BN_window_bits_for_exponent_size bits; mul = mont_mult malloc mont (ex_mul ctx)
              in case BN_to_montgomery malloc mont a (fst (ex_to ctx)) (snd (ex_to ctx)) val0 of
                (None, _) \<Rightarrow> (None, rr)
              | (Some _, val0) \<Rightarrow>
                  (case and_then (power_table mul window (ex_d ctx) (ex_val ctx) val0) (\<lambda>val.
                     slide mul (mont_copy malloc) (\<lambda>i. BN_is_bit_set p (int i)) window val True (bits - 1) r) 0 of
                     (None, _) \<Rightarrow> (None, rr)
                   | (Some (r_is_one, r), _) \<Rightarrow>
                       if r_is_one then (None, rr) else BN_from_montgomery malloc mont r (ex_from ctx) rr))
     | _ \<Rightarrow> (None, rr))"

definition BN_mod_exp_mont_word :: "(nat \<Rightarrow> bool) \<Rightarrow> exp_ctx \<Rightarrow> u64 \<Rightarrow> bignum \<Rightarrow> bignum \<Rightarrow> mont_ctx option \<Rightarrow> unit bn_oper" where
  "BN_mod_exp_mont_word malloc ctx a p m mont rr =
    (let a = (if bn_minimal_width m = 1 then a mod (bn_d m ! 0) else a)
     in case BN_set_word malloc a BN_init of
       (None, _) \<Rightarrow> (None, rr) | (Some _, a) \<Rightarrow> BN_mod_exp_mont malloc ctx a p m mont rr)"

text \<open>On arrays; \<open>None\<close> is a call of \<open>abort\<close>.\<close>

definition small_mult :: "mont_ctx \<Rightarrow> (unit, limbs) mult" where
  "small_mult mont d x y same s = (bn_mod_mul_montgomery_small mont x y same, s)"

definition bn_mod_exp_mont_small :: "mont_ctx \<Rightarrow> limbs \<Rightarrow> limbs \<Rightarrow> limbs option" where
  "bn_mod_exp_mont_small mont a p =
    (let num = length a
     in if num \<noteq> bn_width (mont_N mont) \<or> BN_SMALL_MAX_WORDS < num then None
        else let num_p = minimal_width (length p) p
        in if num_p = 0 then bn_from_montgomery_small mont (take num (bn_d (mont_RR mont)))
        else let p = take num_p p; bits = BN_num_bits_word (p ! (num_p - 1)) + (num_p - 1) * 64;
                 window = min (BN_window_bits_for_exponent_size bits) 5; mul = small_mult mont
        in case fst (and_then (power_table mul window (Some []) (\<lambda>_. Some []) a) (\<lambda>val.
               slide mul (\<lambda>_. ok) (bn_is_bit_set_words p) window val True (bits - 1) []) ()) of
             None \<Rightarrow> None | Some (r_is_one, r) \<Rightarrow> if r_is_one then None else Some r)"

fun borrow_one :: "limbs \<Rightarrow> limbs" where
  "borrow_one (x # xs) = (if x \<noteq> 0 then (x - 1) # xs else (x - 1) # borrow_one xs)"
| "borrow_one [] = []"

definition bn_mod_inverse_prime_mont_small :: "mont_ctx \<Rightarrow> limbs \<Rightarrow> limbs option" where
  "bn_mod_inverse_prime_mont_small mont a =
    (let num = length a
     in if num \<noteq> bn_width (mont_N mont) \<or> BN_SMALL_MAX_WORDS < num then None
        else let p = bn_words (mont_N mont);
                 p_minus_two = (if 2 \<le> p ! 0 then p[0 := p ! 0 - 2] else (p ! 0 - 2) # borrow_one (drop 1 p))
        in bn_mod_exp_mont_small mont a p_minus_two)"

section \<open>Montgomery products as the products of the loops\<close>

definition temp_pair :: "(nat \<Rightarrow> bool) \<Rightarrow> nat \<Rightarrow> bignum option \<times> bignum option \<Rightarrow> bool" where
  "temp_pair malloc N c \<longleftrightarrow> (\<exists>tmp t. c = (Some tmp, Some t) \<and> bn_temp malloc N tmp \<and> bn_temp malloc N t)"

definition mont_good :: "(nat \<Rightarrow> bool) \<Rightarrow> nat \<Rightarrow> mont_ctx \<Rightarrow> (nat \<Rightarrow> bignum option \<times> bignum option) \<Rightarrow> nat \<Rightarrow> bool" where
  "mont_good malloc N mont ctx k \<longleftrightarrow> mont_ok mont \<and> mont_room malloc N mont \<and> (\<forall>k. temp_pair malloc N (ctx k))"

interpretation bn_exp: power_mult "mont_mult malloc mont ctx" "mont_form mont" "mont_dest malloc mont" "mont_good malloc N mont ctx"
  for malloc N mont ctx
proof unfold_locales
  fix d x y same k l
  assume d: "mont_dest malloc mont d" and x: "mont_form mont x k" and y: "mont_form mont y l" and same: "same \<Longrightarrow> x = y"
  show "returns (mont_good malloc N mont ctx) (mont_mult malloc mont ctx d x y same) (\<lambda>z. mont_form mont z (k * l))"
    unfolding returns_def
  proof (intro allI impI)
    fix s assume s: "mont_good malloc N mont ctx s"
    then obtain tmp t where ctx: "ctx s = (Some tmp, Some t)" "bn_temp malloc N tmp" "bn_temp malloc N t"
      unfolding mont_good_def temp_pair_def by blast
    from s have ok: "mont_ok mont" "mont_room malloc N mont" by (simp_all add: mont_good_def)
    obtain z where "BN_mod_mul_montgomery malloc mont x y same (Some tmp) (Some t) d = (Some (), z)" "mont_form mont z (k * l)"
      by (rule mul_montgomery_returns [OF ok(1) x y same ok(2) ctx(2,3) d])
    with s ctx(1) show "\<exists>z s'. mont_mult malloc mont ctx d x y same s = (Some z, s') \<and> mont_good malloc N mont ctx s' \<and>
        mont_form mont z (k * l)"
      by (simp add: mont_mult_def mont_good_def)
  qed
qed (rule mont_form_dest)

lemma mont_copy_returns:
  assumes "mont_dest malloc mont d" and "mont_form mont x k"
  shows "returns (mont_good malloc N mont ctx) (mont_copy malloc d x) (\<lambda>z. mont_form mont z k)"
proof -
  have w: "bn_width x = bn_width (mont_N mont)" and ok: "bn_ok x" using assms(2) by (simp_all add: mont_form_def bn_small_def)
  have "\<exists>z. BN_copy malloc x d = (Some (), z)"
    using assms(1) by (cases rule: bn_wexpand_cases [of malloc "bn_width x" d]) (auto simp: BN_copy_def and_then_def w)
  then obtain z where z: "BN_copy malloc x d = (Some (), z)" ..
  with BN_copy_val [OF z ok] assms(2) show ?thesis
    by (simp add: returns_def mont_copy_def mont_good_def mont_form_def bn_small_def)
qed

definition small_form :: "mont_ctx \<Rightarrow> limbs \<Rightarrow> nat \<Rightarrow> bool" where
  "small_form mont x k \<longleftrightarrow> length x = bn_width (mont_N mont) \<and> bn_val x = (mont_R mont * k) mod mont_n mont"

definition small_ok :: "mont_ctx \<Rightarrow> bool" where
  "small_ok mont \<longleftrightarrow> mont_ok mont \<and> bn_width (mont_N mont) \<le> BN_SMALL_MAX_WORDS"

lemma small_mul_form:
  assumes ok: "small_ok mont" and x: "small_form mont x k" and y: "small_form mont y l" and same: "same \<Longrightarrow> x = y"
  obtains z where "bn_mod_mul_montgomery_small mont x y same = Some z" and "small_form mont z (k * l)"
proof -
  let ?n = "mont_n mont" and ?R = "mont_R mont"
  have mont: "mont_ok mont" and w: "length x \<le> BN_SMALL_MAX_WORDS" using ok x by (simp_all add: small_ok_def small_form_def)
  note m = mont_okD [OF mont]
  have len: "length x = bn_width (mont_N mont)" "length y = length x" using x y by (simp_all add: small_form_def)
  have "bn_val x < ?n" "bn_val y < ?n" using x y m(3) by (simp_all add: small_form_def)
  then have less: "bn_val x * bn_val y < ?n * ?R" using m(6) by (intro mul_less_mod) simp_all
  obtain z where z: "bn_mod_mul_montgomery_small mont x y same = Some z" "length z = length x" "bn_val z < ?n"
    "(?R * bn_val z) mod ?n = (bn_val x * bn_val y) mod ?n"
    by (rule bn_mod_mul_montgomery_small_val [OF mont len w same less])
  have "(?R * bn_val z) mod ?n = (?R * k mod ?n) * (?R * l mod ?n) mod ?n"
    using z(4) x y by (simp add: small_form_def)
  also have "\<dots> = (?R * (?R * (k * l))) mod ?n" unfolding mod_mult_eq by (simp only: ac_simps)
  finally have "bn_val z mod ?n = (?R * (k * l)) mod ?n" by (rule cancel_R [OF m(2)])
  with z(2,3) len have "small_form mont z (k * l)" by (simp add: small_form_def)
  with z(1) show thesis by (rule that)
qed

text \<open>Into and out of Montgomery form.\<close>

lemma to_small_form:
  assumes ok: "small_ok mont" and x: "length x = bn_width (mont_N mont)" "bn_val x < mont_n mont"
  obtains z where "bn_to_montgomery_small mont x = Some z" and "small_form mont z (bn_val x)"
proof -
  let ?n = "mont_n mont" and ?R = "mont_R mont" and ?rr = "take (length x) (bn_d (mont_RR mont))"
  have mont: "mont_ok mont" and w: "length x \<le> BN_SMALL_MAX_WORDS" using ok x(1) by (simp_all add: small_ok_def)
  note m = mont_okD [OF mont]
  have rr: "length ?rr = length x" "bn_val ?rr = bn_abs (mont_RR mont)"
    using m(10,11) x(1) by (simp_all add: bn_small_def bn_ok_def bn_abs_def)
  have less: "bn_val x * bn_val ?rr < ?n * ?R" using x(2) m(6,8) rr(2) by (intro mul_less_mod) simp_all
  obtain z where z: "bn_mod_mul_montgomery_small mont x ?rr False = Some z" "length z = length x" "bn_val z < ?n"
    "(?R * bn_val z) mod ?n = (bn_val x * bn_val ?rr) mod ?n"
    by (rule bn_mod_mul_montgomery_small_val [where same = False, OF mont x(1) rr(1) w _ less]) simp_all
  have "(?R * bn_val z) mod ?n = (bn_val x * (?R * ?R mod ?n)) mod ?n" using z(4) m(7) rr(2) by simp
  also have "\<dots> = (?R * (?R * bn_val x)) mod ?n" unfolding mod_mult_right_eq by (simp only: ac_simps)
  finally have "bn_val z mod ?n = (?R * bn_val x) mod ?n" by (rule cancel_R [OF m(2)])
  with z x(1) show thesis by (intro that [of z]) (simp_all add: bn_to_montgomery_small_def small_form_def)
qed

lemma from_small_value:
  assumes ok: "small_ok mont" and x: "small_form mont x k"
  obtains z where "bn_from_montgomery_small mont x = Some z" and "bn_val z = k mod mont_n mont"
proof -
  let ?n = "mont_n mont" and ?R = "mont_R mont"
  have mont: "mont_ok mont" and w: "length x \<le> BN_SMALL_MAX_WORDS" "length x = bn_width (mont_N mont)"
    using ok x by (simp_all add: small_ok_def small_form_def)
  note m = mont_okD [OF mont]
  obtain z where z: "bn_from_montgomery_small mont x = Some z" "bn_val z < ?n" "(?R * bn_val z) mod ?n = bn_val x mod ?n"
    by (rule bn_from_montgomery_small_val [OF mont w(2,1)])
  have "(?R * bn_val z) mod ?n = (?R * k) mod ?n" using z(3) x by (simp add: small_form_def)
  then have "bn_val z mod ?n = k mod ?n" by (rule cancel_R [OF m(2)])
  with z show thesis by (intro that [of z]) simp_all
qed

interpretation small_exp: power_mult "small_mult mont" "small_form mont" "\<lambda>_. True" "\<lambda>_. small_ok mont"
  for mont
proof unfold_locales
  fix d x y same k l
  assume x: "small_form mont x k" and y: "small_form mont y l" and same: "same \<Longrightarrow> x = y"
  show "returns (\<lambda>_. small_ok mont) (small_mult mont d x y same) (\<lambda>z. small_form mont z (k * l))"
    unfolding returns_def
  proof (intro allI impI)
    fix s assume ok: "small_ok mont"
    obtain z where "bn_mod_mul_montgomery_small mont x y same = Some z" "small_form mont z (k * l)"
      by (rule small_mul_form [OF ok x y same])
    with ok show "\<exists>z s'. small_mult mont d x y same s = (Some z, s') \<and> small_ok mont \<and> small_form mont z (k * l)"
      by (simp add: small_mult_def)
  qed
qed simp

section \<open>Exponentiation is exact\<close>

definition exp_ctx_ok :: "(nat \<Rightarrow> bool) \<Rightarrow> nat \<Rightarrow> exp_ctx \<Rightarrow> bool" where
  "exp_ctx_ok malloc N ctx \<longleftrightarrow>
    (\<forall>x \<in> {ex_r ctx, ex_d ctx, ex_from ctx}. \<exists>y. x = Some y \<and> bn_temp malloc N y) \<and>
    (\<forall>i. \<exists>y. ex_val ctx i = Some y \<and> bn_temp malloc N y) \<and>
    ex_new_ok ctx \<and> (\<forall>i. ctx_free malloc N (ex_new ctx i)) \<and>
    temp_pair malloc N (ex_to ctx) \<and> (\<forall>k. temp_pair malloc N (ex_mul ctx k))"

lemma exp_ctx_temps:
  assumes "exp_ctx_ok malloc N ctx"
  obtains r d f where "ex_r ctx = Some r" "bn_temp malloc N r" and "ex_d ctx = Some d" "bn_temp malloc N d"
    and "ex_from ctx = Some f" "bn_temp malloc N f"
  using assms by (auto simp: exp_ctx_ok_def)

lemma exp_ctx_pairs:
  assumes "exp_ctx_ok malloc N ctx"
  obtains tmp t where "ex_to ctx = (Some tmp, Some t)" "bn_temp malloc N tmp" "bn_temp malloc N t"
  using assms unfolding exp_ctx_ok_def temp_pair_def by blast

lemma num_bits_0_iff:
  assumes "bn_ok p"
  shows "BN_num_bits p = 0 \<longleftrightarrow> bn_abs p = 0"
  using BN_num_bits_val [OF assms] bn_minimal_width(4) [OF assms]
  by (cases "bn_abs p = 0") (auto simp: BN_num_bits_def Let_def)

text \<open>The modulus and the context that is given, or is made for it.\<close>

definition mont_given :: "(nat \<Rightarrow> bool) \<Rightarrow> nat \<Rightarrow> bignum \<Rightarrow> mont_ctx option \<Rightarrow> bool" where
  "mont_given malloc N m mont \<longleftrightarrow>
    (\<forall>x. mont = Some x \<longrightarrow> mont_ok x \<and> mont_n x = bn_abs m \<and> mont_room malloc N x)"

lemma mont_or_new:
  assumes m: "bn_small m" "odd (bn_abs m)" "\<not> bn_neg m" and N: "16 * bn_width m + 16 \<le> N" and init: "bn_free malloc N BN_init"
    and ctx: "exp_ctx_ok malloc N ctx" and given: "mont_given malloc N m mont"
  obtains x where "(case mont of None \<Rightarrow> BN_MONT_CTX_new_consttime malloc (ex_new_ok ctx) m (ex_new ctx) | Some x \<Rightarrow> Some x) = Some x"
    and "mont_ok x" and "mont_n x = bn_abs m" and "mont_room malloc N x"
proof (cases mont)
  case None
  have new: "\<forall>i. ctx_free malloc N (ex_new ctx i)" "ex_new_ok ctx" using ctx by (simp_all add: exp_ctx_ok_def)
  obtain x where "BN_MONT_CTX_new_consttime malloc True m (ex_new ctx) = Some x" "mont_ok x" "mont_n x = bn_abs m" "mont_room malloc N x"
    by (rule mont_context [OF m N new(1) init])
  with None new(2) that show thesis by simp
next
  case (Some x)
  with given that show thesis by (simp add: mont_given_def)
qed

lemma exp_zero:
  assumes "bn_ok m" and m: "odd (bn_abs m)" "\<not> bn_neg m" and r: "bn_temp malloc N rr" "0 < N"
  obtains r' where "(if BN_abs_is_word 1 m then (Some (), BN_zero rr) else BN_one malloc rr) = (Some (), r')"
    and "bn_int r' = 1 mod bn_int m" and "bn_ok r'" and "bn_width r' \<le> 1" and "\<not> bn_neg r'"
proof (cases "bn_abs m = 1")
  case True
  moreover have "bn_int (BN_zero rr) = 0" by (simp add: bn_int_def BN_zero_def bn_abs_def)
  moreover have "bn_int m = 1" using True m(2) by (simp add: bn_int_def)
  moreover have "bn_ok (BN_zero rr)" "bn_width (BN_zero rr) \<le> 1" "\<not> bn_neg (BN_zero rr)" by (simp_all add: BN_zero_def bn_ok_def)
  ultimately show thesis using that [of "BN_zero rr"] assms(1) by (simp add: BN_abs_is_word_val)
next
  case False
  have free: "bn_free malloc N rr" using r by (simp add: bn_temp_def)
  obtain s where s: "bn_wexpand malloc 1 rr = (Some (), s)" by (rule wexpandE [where n = 1, OF free]) (use r(2) in linarith)
  let ?r' = "(put_words [1] s)\<lparr>bn_neg := False\<rparr>"
  have "BN_one malloc rr = (Some (), ?r')" using s by (simp add: BN_one_def BN_set_word_def and_then_def)
  moreover have "bn_abs m \<noteq> 0" using m(1) by (intro notI) simp
  then have "1 mod bn_int m = 1" using False m(2) by (simp add: bn_int_def mod_pos_pos_trivial)
  moreover have "bn_ok ?r'" "bn_width ?r' \<le> 1" "\<not> bn_neg ?r'" by simp_all
  ultimately show thesis using that [of ?r'] False assms(1) by (simp add: BN_abs_is_word_val bn_int_def)
qed

lemma ucmp_reduced: "bn_abs a < bn_abs m \<Longrightarrow> \<not> 0 \<le> sint (BN_ucmp a m)"
  using ucmp_less_iff [of a m] by simp

theorem BN_mod_exp_mont_returns:
  assumes m: "bn_small m" "odd (bn_abs m)" "\<not> bn_neg m" and a: "bn_small a" "\<not> bn_neg a" "bn_abs a < bn_abs m"
    and p: "bn_ok p" and N: "16 * (bn_width a + bn_width m) + 16 \<le> N" and init: "bn_free malloc N BN_init"
    and ctx: "exp_ctx_ok malloc N ctx" and given: "mont_given malloc N m mont" and rr: "bn_temp malloc N rr"
  obtains rr' where "BN_mod_exp_mont malloc ctx a p m mont rr = (Some (), rr')"
    and "bn_int rr' = bn_int a ^ bn_abs p mod bn_int m" and "bn_ok rr'" and "16 * bn_width rr' + 16 \<le> N" and "\<not> bn_neg rr'"
proof -
  have okm: "bn_ok m" using m(1) by (simp add: bn_small_def)
  have guards: "\<not> \<not> BN_is_odd m" "\<not> (bn_neg a \<or> 0 \<le> sint (BN_ucmp a m))"
    using m a okm ucmp_reduced [OF a(3)] by (simp_all add: is_odd_iff)
  let ?bits = "BN_num_bits p" and ?e = "bn_abs p"
  show thesis
  proof (cases "?bits = 0")
    case True
    have "0 < N" using N by simp
    have "bn_width m \<noteq> 0" using m(2) bn_abs_less [of m] by (cases "bn_width m") auto
    then have N1: "32 \<le> N" using N by simp
    obtain r' where "(if BN_abs_is_word 1 m then (Some (), BN_zero rr) else BN_one malloc rr) = (Some (), r')"
      "bn_int r' = 1 mod bn_int m" "bn_ok r'" "bn_width r' \<le> 1" "\<not> bn_neg r'"
      by (rule exp_zero [OF okm m(2,3) rr \<open>0 < N\<close>])
    with that [of r'] guards m(3) True num_bits_0_iff [OF p] N1 show thesis by (simp add: BN_mod_exp_mont_def)
  next
    case False
    have e: "?e \<noteq> 0" "?e < 2 ^ ?bits" using False BN_num_bits_val(1) [OF p] num_bits_0_iff [OF p] by simp_all
    obtain r d f where r: "ex_r ctx = Some r" "bn_temp malloc N r" and d: "ex_d ctx = Some d" "bn_temp malloc N d"
      and f: "ex_from ctx = Some f" "bn_temp malloc N f"
      by (rule exp_ctx_temps [OF ctx])
    obtain v0 where v0: "ex_val ctx 0 = Some v0" "bn_temp malloc N v0" using ctx unfolding exp_ctx_ok_def by blast
    have Nm: "16 * bn_width m + 16 \<le> N" using N by simp
    obtain mt where mt: "(case mont of None \<Rightarrow> BN_MONT_CTX_new_consttime malloc (ex_new_ok ctx) m (ex_new ctx) | Some x \<Rightarrow> Some x) = Some mt"
      "mont_ok mt" "mont_n mt = bn_abs m" "mont_room malloc N mt"
      by (rule mont_or_new [OF m Nm init ctx given])
    note dest = temp_dest [OF mt(4)]
    obtain tmp t where to: "ex_to ctx = (Some tmp, Some t)" "bn_temp malloc N tmp" "bn_temp malloc N t"
      by (rule exp_ctx_pairs [OF ctx])
    have "bn_abs a < mont_R mt" using a(3) mt(3) mont_okD(6) [OF mt(2)] by linarith
    moreover have "8 * (bn_width a + bn_width (mont_N mt)) + 16 \<le> N" using N mt(4) by (simp add: mont_room_def)
    ultimately obtain v where v: "BN_to_montgomery malloc mt a (Some tmp) (Some t) v0 = (Some (), v)" "mont_form mt v (bn_abs a)"
      by (rule to_montgomery_returns [OF mt(2) a(1,2) _ _ mt(4) to(2,3) dest [OF v0(2)]])
    let ?window = "BN_window_bits_for_exponent_size ?bits" and ?mul = "mont_mult malloc mt (ex_mul ctx)"
    let ?good = "mont_good malloc N mt (ex_mul ctx)"
    have window: "0 < ?window" by (simp add: BN_window_bits_for_exponent_size_def)
    have dests: "\<exists>y. ex_val ctx i = Some y \<and> mont_dest malloc mt y" for i using ctx dest unfolding exp_ctx_ok_def by blast
    have bits: "(\<lambda>i. BN_is_bit_set p (int i)) = bit ?e" by (simp add: BN_is_bit_set_iff fun_eq_iff)
    have top: "?e div 2 ^ Suc (?bits - 1) = 0" using e False by simp
    have "returns ?good (and_then (power_table ?mul ?window (ex_d ctx) (ex_val ctx) v)
        (\<lambda>val. slide ?mul (mont_copy malloc) (bit ?e) ?window val True (?bits - 1) r))
        (\<lambda>(one, z). (one \<longleftrightarrow> ?e = 0) \<and> (\<not> one \<longrightarrow> mont_form mt z (bn_abs a ^ ?e)))"
      by (rule returns_and_then [OF bn_exp.power_table_returns [OF window v(2) d(1) dest [OF d(2)] dests]])
        (rule bn_exp.slide_returns [where init = "mont_dest malloc mt", OF mont_copy_returns _ window dest [OF r(2)]], use top in simp_all)
    moreover have "?good 0" using mt ctx by (simp add: mont_good_def exp_ctx_ok_def)
    ultimately obtain one z k where run: "and_then (power_table ?mul ?window (ex_d ctx) (ex_val ctx) v)
        (\<lambda>val. slide ?mul (mont_copy malloc) (bit ?e) ?window val True (?bits - 1) r) 0 = (Some (one, z), k)"
      "\<not> one" "mont_form mt z (bn_abs a ^ ?e)"
      using e(1) by (elim returnsD) auto
    obtain r' where r': "BN_from_montgomery malloc mt z (Some f) rr = (Some (), r')" "bn_int r' = int (bn_abs a ^ ?e mod mont_n mt)"
      "bn_width r' = bn_width (mont_N mt)" "bn_ok r'" "\<not> bn_neg r'"
      by (rule from_montgomery_returns [OF mt(2) run(3) mt(4) f(2) dest [OF rr]])
    show thesis
    proof (rule that)
      show "BN_mod_exp_mont malloc ctx a p m mont rr = (Some (), r')"
        unfolding BN_mod_exp_mont_def Let_def if_not_P [OF guards(1)] if_not_P [OF m(3)] if_not_P [OF guards(2)] if_not_P [OF False]
          r(1) v0(1) option.case prod.case mt(1) to(1) fst_conv snd_conv v(1) bits run(1) if_not_P [OF run(2)] f(1) r'(1) ..
      show "bn_int r' = bn_int a ^ bn_abs p mod bn_int m"
        unfolding r'(2) using a(2) m(3) by (simp add: mt(3) bn_int_def zmod_int)
      show "bn_ok r'" "\<not> bn_neg r'" by (rule r'(4), rule r'(5))
      show "16 * bn_width r' + 16 \<le> N" using mt(4) r'(3) by (simp add: mont_room_def)
    qed
  qed
qed

subsection \<open>Small arrays\<close>

lemma small_word_bits:
  assumes "num_p = minimal_width (length p) p" and "num_p \<noteq> 0"
  defines "bits \<equiv> BN_num_bits_word (p ! (num_p - 1)) + (num_p - 1) * 64"
  shows "0 < bits" and "bn_val p < 2 ^ bits" and "bn_val (take num_p p) = bn_val p" and "bn_val p \<noteq> 0"
proof -
  let ?b = "\<lparr>bn_d = p, bn_width = length p, bn_neg = False, bn_static = False\<rparr>"
  have ok: "bn_ok ?b" by (simp add: bn_ok_def)
  have b: "BN_num_bits ?b = bits" "bn_abs ?b = bn_val p"
    using assms(1,2) by (simp_all add: BN_num_bits_def bn_minimal_width_def Let_def bits_def bn_abs_def)
  show "bn_val (take num_p p) = bn_val p" using minimal_width_val [of "length p" p] assms(1) by simp
  have "bn_base ^ (num_p - 1) \<le> bn_val p"
    using bn_minimal_width(4) [OF ok] assms(1,2) by (simp add: bn_minimal_width_def bn_abs_def)
  moreover have "0 < bn_base ^ (num_p - 1)" by simp
  ultimately show nz: "bn_val p \<noteq> 0" by linarith
  with BN_num_bits_val [OF ok] b show "0 < bits" "bn_val p < 2 ^ bits" by simp_all
qed

lemma bit_words_iff: "bn_is_bit_set_words p = bit (bn_val p)"
proof
  fix i
  let ?b = "\<lparr>bn_d = p, bn_width = length p, bn_neg = False, bn_static = False\<rparr>"
  show "bn_is_bit_set_words p i = bit (bn_val p) i"
    using BN_is_bit_set_iff [of ?b "int i"] by (simp add: BN_is_bit_set_def bn_abs_def)
qed

lemma small_exp_zero:
  assumes ok: "small_ok mont"
  obtains r where "bn_from_montgomery_small mont (take (bn_width (mont_N mont)) (bn_d (mont_RR mont))) = Some r"
    and "small_form mont r 1"
proof -
  let ?n = "mont_n mont" and ?R = "mont_R mont" and ?rr = "bn_words (mont_RR mont)"
  have mont: "mont_ok mont" using ok by (simp add: small_ok_def)
  note m = mont_okD [OF mont]
  have len: "length (?rr @ replicate (length ?rr) 0) = 2 * bn_width (mont_N mont)" and lr: "length ?rr = bn_width (mont_N mont)"
    using m(10,11) by (simp_all add: bn_small_def bn_ok_def)
  have "bn_abs (mont_RR mont) * 1 < ?n * ?R" using m(3,6,8) by (intro mult_strict_mono) linarith+
  then have "bn_val (?rr @ replicate (length ?rr) 0) < ?n * ?R" by (simp add: bn_val_append bn_abs_def)
  from bn_from_montgomery_in_place_val [OF mont len this] obtain r where
    r: "bn_from_montgomery_in_place mont (bn_width (mont_N mont)) (?rr @ replicate (length ?rr) 0) = Some r"
      "length r = bn_width (mont_N mont)" "bn_val r < ?n" "(?R * bn_val r) mod ?n = bn_val (?rr @ replicate (length ?rr) 0) mod ?n" .
  have "(?R * bn_val r) mod ?n = (?R * ?R) mod ?n"
    using r(4) m(7) by (simp add: bn_val_append bn_abs_def [of "mont_RR mont", symmetric])
  then have "bn_val r mod ?n = ?R mod ?n" by (rule cancel_R [OF m(2)])
  with r(2,3) have form: "small_form mont r 1" by (simp add: small_form_def)
  have "bn_from_montgomery_small mont ?rr = Some r"
    using r(1) lr ok by (simp add: bn_from_montgomery_small_def small_ok_def)
  with form that m(11) show thesis by simp
qed

theorem bn_mod_exp_mont_small_returns:
  assumes ok: "small_ok mont" and a: "small_form mont a k"
  obtains r where "bn_mod_exp_mont_small mont a p = Some r" and "small_form mont r (k ^ bn_val p)"
proof -
  let ?num_p = "minimal_width (length p) p"
  have len: "length a = bn_width (mont_N mont)" using a by (simp add: small_form_def)
  have guard: "\<not> (length a \<noteq> bn_width (mont_N mont) \<or> BN_SMALL_MAX_WORDS < length a)"
    using ok len by (simp add: small_ok_def)
  show thesis
  proof (cases "?num_p = 0")
    case True
    then have e: "bn_val p = 0" using minimal_width_val [of "length p" p] by simp
    obtain r where "bn_from_montgomery_small mont (take (length a) (bn_d (mont_RR mont))) = Some r" "small_form mont r 1"
      using small_exp_zero [OF ok] len by metis
    with that [of r] guard True e show thesis by (simp add: bn_mod_exp_mont_small_def)
  next
    case False
    let ?bits = "BN_num_bits_word (take ?num_p p ! (?num_p - 1)) + (?num_p - 1) * 64"
    have "take ?num_p p ! (?num_p - 1) = p ! (?num_p - 1)" using False by simp
    note b = small_word_bits [OF refl False, folded this]
    let ?window = "min (BN_window_bits_for_exponent_size ?bits) 5" and ?e = "bn_val p"
    have window: "0 < ?window" by (simp add: BN_window_bits_for_exponent_size_def)
    have top: "?e div 2 ^ Suc (?bits - 1) = 0" using b by simp
    have "returns (\<lambda>_. small_ok mont) (and_then (power_table (small_mult mont) ?window (Some []) (\<lambda>_. Some []) a)
        (\<lambda>val. slide (small_mult mont) (\<lambda>_. ok) (bit ?e) ?window val True (?bits - 1) []))
        (\<lambda>(one, z). (one \<longleftrightarrow> ?e = 0) \<and> (\<not> one \<longrightarrow> small_form mont z (k ^ ?e)))"
      by (rule returns_and_then [OF small_exp.power_table_returns [OF window a]], simp, simp, simp)
        (rule small_exp.slide_returns [where init = "\<lambda>_. True", OF _ _ window], use top in auto)
    then obtain one z where run: "and_then (power_table (small_mult mont) ?window (Some []) (\<lambda>_. Some []) a)
        (\<lambda>val. slide (small_mult mont) (\<lambda>_. ok) (bit ?e) ?window val True (?bits - 1) []) () = (Some (one, z), ())"
      "\<not> one" "small_form mont z (k ^ ?e)"
      using ok b(4) by (elim returnsD [where s = "()"]) auto
    show thesis
    proof (rule that)
      show "bn_mod_exp_mont_small mont a p = Some z"
        unfolding bn_mod_exp_mont_small_def Let_def if_not_P [OF guard] if_not_P [OF False] bit_words_iff b(3) run(1) fst_conv
        using run(2) by simp
    qed (rule run(3))
  qed
qed

subsection \<open>The inverse modulo a prime\<close>

text \<open>Multiplication by a unit permutes the residues of a prime, so that powers cancel.\<close>

lemma coprime_prime:
  fixes p k :: nat
  assumes "\<And>d. d dvd p \<Longrightarrow> d = 1 \<or> d = p" and "\<not> p dvd k"
  shows "coprime k p"
proof (rule coprimeI)
  fix d assume d: "d dvd k" "d dvd p"
  from assms(1) [OF d(2)] d(1) assms(2) show "is_unit d" by auto
qed

lemma fermat:
  fixes p k :: nat
  assumes p: "1 < p" "\<And>d. d dvd p \<Longrightarrow> d = 1 \<or> d = p" and k: "\<not> p dvd k"
  shows "k ^ (p - 1) mod p = 1"
proof -
  let ?A = "{1..<p}" and ?f = "\<lambda>x. k * x mod p"
  have unit: "coprime x p" if "\<not> p dvd x" for x by (rule coprime_prime [OF _ that]) (rule p(2))
  have less: "\<not> p dvd x" if "x \<in> ?A" for x using that by (simp add: nat_dvd_not_less)
  note unit_A = unit [OF less]
  have "inj_on ?f ?A"
  proof (rule linorder_inj_onI)
    fix x y assume xy: "x < y" "x \<in> ?A" "y \<in> ?A"
    show "?f x \<noteq> ?f y"
    proof
      assume "?f x = ?f y"
      then have "p dvd k * y - k * x" using xy(1) by (metis mod_eq_dvd_iff_nat mult_le_mono2 less_imp_le)
      then have "p dvd k * (y - x)" by (simp add: diff_mult_distrib2)
      then have "p dvd y - x" using unit [OF k] by (simp add: coprime_commute coprime_dvd_mult_right_iff)
      moreover have "y - x \<in> ?A" using xy by auto
      ultimately show False using less by blast
    qed
  qed auto
  moreover have "?f ` ?A \<subseteq> ?A"
  proof clarify
    fix x assume x: "x \<in> ?A"
    have "\<not> p dvd k * x" using unit [OF k] less [OF x] by (simp add: coprime_commute coprime_dvd_mult_right_iff)
    then show "?f x \<in> ?A" using p(1) by (auto simp: mod_greater_zero_iff_not_dvd Suc_le_eq)
  qed
  ultimately have "?f ` ?A = ?A" by (intro card_subset_eq) (simp_all add: card_image)
  with \<open>inj_on ?f ?A\<close> have "\<Prod>?A = (\<Prod>x \<in> ?A. ?f x)" by (metis prod.reindex_cong prod.cong)
  then have "\<Prod>?A mod p = (\<Prod>x \<in> ?A. k * x) mod p" by (simp add: mod_prod_eq)
  also have "(\<Prod>x \<in> ?A. k * x) = k ^ (p - 1) * \<Prod>?A" by (simp add: prod.distrib)
  finally have eq: "k ^ (p - 1) * \<Prod>?A mod p = \<Prod>?A mod p" ..
  have pos: "1 \<le> k ^ (p - 1)" using k by (cases "k = 0") auto
  then have "\<Prod>?A \<le> k ^ (p - 1) * \<Prod>?A" by simp
  with eq have "p dvd k ^ (p - 1) * \<Prod>?A - \<Prod>?A" by (metis mod_eq_dvd_iff_nat)
  then have "p dvd (k ^ (p - 1) - 1) * \<Prod>?A" by (simp add: diff_mult_distrib)
  moreover have "coprime (\<Prod>?A) p" using unit_A by (intro prod_coprime_left)
  ultimately have "p dvd k ^ (p - 1) - 1" by (simp add: coprime_commute coprime_dvd_mult_left_iff)
  with pos have "k ^ (p - 1) mod p = 1 mod p" by (metis mod_eq_dvd_iff_nat)
  with p(1) show ?thesis by simp
qed


lemma length_borrow_one [simp]: "length (borrow_one xs) = length xs"
  by (induction xs) auto

lemma borrow_one_val: "bn_val xs \<noteq> 0 \<Longrightarrow> bn_val (borrow_one xs) + 1 = bn_val xs"
proof (induction xs)
  case (Cons x xs)
  show ?case
  proof (cases "x = 0")
    case False
    then have "unat (x - 1) + 1 = unat x" by (simp add: unat_minus_one unat_gt_0)
    with False show ?thesis by simp
  next
    case True
    then have "bn_val xs \<noteq> 0" using Cons.prems by simp
    from Cons.IH [OF this] have "bn_val xs = bn_val (borrow_one xs) + 1" by simp
    moreover have "unat (- 1 :: u64) + 1 = bn_base" by (simp add: bn_base_def unsigned_minus_1_eq_mask mask_eq_exp_minus_1)
    ultimately show ?thesis using True by (simp add: algebra_simps)
  qed
qed simp

lemma minus_two_val:
  assumes "2 \<le> bn_val p"
  defines "q \<equiv> (if 2 \<le> p ! 0 then p[0 := p ! 0 - 2] else (p ! 0 - 2) # borrow_one (drop 1 p))"
  shows "bn_val q = bn_val p - 2" and "length q = length p"
proof -
  from assms(1) obtain x xs where p: "p = x # xs" by (cases p) auto
  have "bn_val q + 2 = bn_val p \<and> length q = length p"
  proof (cases "2 \<le> x")
    case True
    then have "unat (x - 2) + 2 = unat x" by (simp add: unat_sub word_le_nat_alt)
    with True show ?thesis by (simp add: q_def p)
  next
    case False
    then have x: "unat x < 2" by (simp add: word_le_nat_alt)
    have "bn_val xs \<noteq> 0" using assms(1) x by (intro notI) (simp add: p)
    note b = borrow_one_val [OF this]
    from x have "unat x = unat (0 :: u64) \<or> unat x = unat (1 :: u64)" by auto
    then have "x = 0 \<or> x = 1" by (simp only: word_unat_eq_iff)
    then have "unat (x - 2) + 2 = bn_base + unat x"
      by (auto simp: bn_base_def unsigned_minus_1_eq_mask mask_eq_exp_minus_1)
    then have "unat (x - 2) + 2 + bn_base * bn_val (borrow_one xs) = unat x + bn_base * (bn_val (borrow_one xs) + 1)"
      by (simp add: algebra_simps)
    with b False show ?thesis by (simp add: q_def p)
  qed
  then show "bn_val q = bn_val p - 2" "length q = length p" by linarith+
qed

theorem bn_mod_inverse_prime_mont_small_returns:
  assumes ok: "small_ok mont" and a: "small_form mont a k" and n: "2 \<le> mont_n mont"
  obtains r where "bn_mod_inverse_prime_mont_small mont a = Some r" and "small_form mont r (k ^ (mont_n mont - 2))"
proof -
  have len: "length a = bn_width (mont_N mont)" using a by (simp add: small_form_def)
  have guard: "\<not> (length a \<noteq> bn_width (mont_N mont) \<or> BN_SMALL_MAX_WORDS < length a)"
    using ok len by (simp add: small_ok_def)
  have "2 \<le> bn_val (bn_words (mont_N mont))" using n by (simp add: bn_abs_def)
  note q = minus_two_val(1) [OF this, folded bn_abs_def]
  let ?p = "bn_words (mont_N mont)"
  let ?q = "if 2 \<le> ?p ! 0 then ?p[0 := ?p ! 0 - 2] else (?p ! 0 - 2) # borrow_one (drop 1 ?p)"
  obtain r where r: "bn_mod_exp_mont_small mont a ?q = Some r" "small_form mont r (k ^ bn_val ?q)"
    by (rule bn_mod_exp_mont_small_returns [OF ok a])
  show thesis
  proof (rule that)
    show "bn_mod_inverse_prime_mont_small mont a = Some r"
      unfolding bn_mod_inverse_prime_mont_small_def Let_def if_not_P [OF guard] by (rule r(1))
    show "small_form mont r (k ^ (mont_n mont - 2))" using r(2) unfolding q .
  qed
qed

end
