(* ===== verification/Bn_Exp_Consttime.thy ===== *)
theory Bn_Exp_Consttime
  imports Bn_Exp
begin

text \<open>
  Modular exponentiation in constant time, from \<open>fipsmodule/bn/exponentiation.c\<close> in the build
  without assembly: fixed windows, and a table of powers of which every read touches all rows.
\<close>

section \<open>The operations\<close>

definition BN_window_bits_for_ctime_exponent_size :: "nat \<Rightarrow> nat" where
  "BN_window_bits_for_ctime_exponent_size b =
    (if b > 937 then 6 else if b > 306 then 5 else if b > 89 then 4 else if b > 22 then 3 else 1)"

definition copy_to_prebuf :: "bignum \<Rightarrow> nat \<Rightarrow> limbs list \<Rightarrow> nat \<Rightarrow> limbs list option" where
  "copy_to_prebuf b width table idx =
    (case bn_copy_words width b of None \<Rightarrow> None | Some ws \<Rightarrow> Some (table[idx := ws]))"

text \<open>Every row is read, and masked unless it is the wanted one.\<close>

fun select_row :: "nat \<Rightarrow> nat \<Rightarrow> limbs list \<Rightarrow> limbs \<Rightarrow> limbs" where
  "select_row idx i (row # table) d =
    select_row idx (Suc i) table (map2 (\<lambda>x y. x OR (y AND constant_time_eq_int (of_nat i) (of_nat idx))) d row)"
| "select_row idx i [] d = d"

definition copy_from_prebuf :: "(nat \<Rightarrow> bool) \<Rightarrow> nat \<Rightarrow> limbs list \<Rightarrow> nat \<Rightarrow> unit bn_oper" where
  "copy_from_prebuf malloc width table idx =
    and_then (bn_wexpand malloc width) (\<lambda>_ b. (Some (), put_words (select_row idx 0 table (replicate width 0)) b))"

text \<open>The powers from \<open>i\<close> on are stored, \<open>tmp\<close> being the one before.\<close>

fun store_powers :: "(nat, bignum) mult \<Rightarrow> nat \<Rightarrow> nat \<Rightarrow> nat \<Rightarrow> bignum \<Rightarrow> bignum \<Rightarrow> limbs list \<Rightarrow>
    (nat, bignum \<times> limbs list) oper" where
  "store_powers mul width (Suc k) i am tmp table =
    and_then (mul tmp am tmp False) (\<lambda>tmp.
      case copy_to_prebuf tmp width table i of
        None \<Rightarrow> fail | Some table \<Rightarrow> store_powers mul width k (Suc i) am tmp table)"
| "store_powers mul width 0 i am tmp table = ok (tmp, table)"

definition prebuf_table :: "(nat, bignum) mult \<Rightarrow> nat \<Rightarrow> nat \<Rightarrow> bignum \<Rightarrow> bignum \<Rightarrow> (nat, bignum \<times> limbs list) oper" where
  "prebuf_table mul width window tmp am =
    (case copy_to_prebuf tmp width (replicate (2 ^ window) (replicate width 0)) 0 of
       None \<Rightarrow> fail
     | Some table \<Rightarrow>
         (case copy_to_prebuf am width table 1 of
            None \<Rightarrow> fail
          | Some table \<Rightarrow>
              if window > 1 then
                and_then (mul tmp am am True) (\<lambda>tmp.
                  case copy_to_prebuf tmp width table 2 of
                    None \<Rightarrow> fail
                  | Some table \<Rightarrow> store_powers mul width (2 ^ window - 3) 3 am tmp table)
              else ok (tmp, table)))"

definition fetch_power :: "(nat \<Rightarrow> bool) \<Rightarrow> nat \<Rightarrow> limbs list \<Rightarrow> bignum \<Rightarrow> nat \<Rightarrow> (nat, bignum) oper" where
  "fetch_power malloc width table b idx k =
    (case copy_from_prebuf malloc width table idx b of (None, _) \<Rightarrow> (None, k) | (Some _, b) \<Rightarrow> (Some b, k))"

text \<open>The numbers \<open>tmp\<close> and \<open>am\<close> behind the table: they cannot grow.\<close>

definition prebuf_number :: "nat \<Rightarrow> bignum" where
  "prebuf_number width = \<lparr>bn_d = replicate width 0, bn_width = 0, bn_neg = False, bn_static = True\<rparr>"

definition BN_mod_exp_mont_consttime :: "(nat \<Rightarrow> bool) \<Rightarrow> exp_ctx \<Rightarrow> bignum option \<Rightarrow> bignum \<Rightarrow> bignum \<Rightarrow> bignum \<Rightarrow>
    mont_ctx option \<Rightarrow> unit bn_oper" where
  "BN_mod_exp_mont_consttime malloc ctx one a p m mont rr =
    (if \<not> BN_is_odd m then (None, rr)
     else if bn_neg m then (None, rr)
     else if bn_neg a \<or> 0 \<le> sint (BN_ucmp a m) then (None, rr)
     else let bits = bn_width p * 64
     in if bits = 0 then (if BN_abs_is_word 1 m then (Some (), BN_zero rr) else BN_one malloc rr)
     else case (case mont of None \<Rightarrow> BN_MONT_CTX_new_consttime malloc (ex_new_ok ctx) m (ex_new ctx) | Some mont \<Rightarrow> Some mont) of
       None \<Rightarrow> (None, rr)
     | Some mont \<Rightarrow>
         let width = bn_width (mont_N mont); window = BN_window_bits_for_ctime_exponent_size bits;
             mul = mont_mult malloc mont (ex_mul ctx); is_set = BN_is_bit_set p;
             powerbufLen = 8 * (width * 2 ^ window + max (2 * width) (2 ^ window))
         in if \<not> malloc (powerbufLen + 64) then (None, rr)
         else case bn_one_to_montgomery malloc mont one (prebuf_number width) of
           (None, _) \<Rightarrow> (None, rr)
         | (Some _, tmp) \<Rightarrow>
         (case BN_to_montgomery malloc mont a (fst (ex_to ctx)) (snd (ex_to ctx)) (prebuf_number width) of
           (None, _) \<Rightarrow> (None, rr)
         | (Some _, am) \<Rightarrow>
         (case and_then (prebuf_table mul width window tmp am) (\<lambda>(tmp, table).
             let first = (bits - 1) mod window + 1; wvalue = read_bits is_set first (int bits - 1) 0
             in and_then (fetch_power malloc width table tmp wvalue) (\<lambda>tmp.
                  fixed_windows mul (fetch_power malloc width table) is_set window (int bits - 1 - int first) tmp am)) 0 of
           (None, _) \<Rightarrow> (None, rr)
         | (Some tmp, _) \<Rightarrow> BN_from_montgomery malloc mont tmp (ex_from ctx) rr)))"

section \<open>The table\<close>

definition powers_upto :: "mont_ctx \<Rightarrow> nat \<Rightarrow> nat \<Rightarrow> nat \<Rightarrow> limbs list \<Rightarrow> bool" where
  "powers_upto mont rows a n table \<longleftrightarrow> length table = rows \<and>
    (\<forall>row \<in> set table. length row = bn_width (mont_N mont)) \<and>
    (\<forall>i < n. bn_val (table ! i) = (mont_R mont * a ^ i) mod mont_n mont)"

lemma copy_to_prebuf_form:
  assumes x: "mont_form mont x (a ^ n)" and table: "powers_upto mont rows a n table" and n: "n < rows"
  obtains table' where "copy_to_prebuf x (bn_width (mont_N mont)) table n = Some table'"
    and "powers_upto mont rows a (Suc n) table'"
proof -
  have w: "bn_copy_words (bn_width (mont_N mont)) x = Some (bn_words x)" "length (bn_words x) = bn_width (mont_N mont)"
    using x by (simp_all add: bn_copy_words_def mont_form_def bn_small_def bn_ok_def)
  have v: "bn_val (bn_words x) = (mont_R mont * a ^ n) mod mont_n mont"
    using x unfolding mont_form_def bn_abs_def [of x] by blast
  have "powers_upto mont rows a (Suc n) (table[n := bn_words x])"
    using table n w(2) v by (auto simp: powers_upto_def less_Suc_eq nth_list_update dest!: subsetD [OF set_update_subset_insert])
  with w(1) show thesis by (intro that [of "table[n := bn_words x]"]) (simp_all add: copy_to_prebuf_def)
qed

lemma select_row_val:
  assumes "i + length table \<le> 2 ^ 31" and "idx < 2 ^ 31"
    and "\<forall>row \<in> set table. length row = length d"
  shows "select_row idx i table d =
    (if i \<le> idx \<and> idx < i + length table then map2 (OR) d (table ! (idx - i)) else d)"
  using assms
proof (induction idx i table d rule: select_row.induct)
  case (1 idx i row table d)
  have u: "unat (of_nat i :: u32) = i" "unat (of_nat idx :: u32) = idx"
    using "1.prems" by (auto intro!: unat_of_nat_small)
  have eq: "constant_time_eq_int (of_nat i) (of_nat idx) = mask_of (i = idx)"
    unfolding consttime word_unat_eq_iff u ..
  have len: "length row = length d" using "1.prems"(3) by simp
  let ?d = "map2 (\<lambda>x y. x OR (y AND constant_time_eq_int (of_nat i) (of_nat idx))) d row"
  have d: "?d = (if i = idx then map2 (OR) d row else d)"
    using len by (intro nth_equalityI) (auto simp: eq mask_of_def)
  have "select_row idx (Suc i) table ?d =
      (if Suc i \<le> idx \<and> idx < Suc i + length table then map2 (OR) ?d (table ! (idx - Suc i)) else ?d)"
    using "1.prems" len by (intro "1.IH") simp_all
  then show ?case unfolding select_row.simps d by (auto simp: nth_Cons' Suc_diff_Suc)
qed auto

lemma select_row_zero:
  assumes "length table \<le> 2 ^ 31" and "idx < length table" and "\<forall>row \<in> set table. length row = w"
  shows "select_row idx 0 table (replicate w 0) = table ! idx"
proof -
  have row: "length (table ! idx) = w" using assms(2,3) by simp
  then have "map2 (OR) (replicate w 0) (table ! idx) = table ! idx" by (intro nth_equalityI) simp_all
  with select_row_val [of 0 table idx "replicate w 0"] assms show ?thesis by simp
qed

lemma fetch_power_returns:
  assumes table: "powers_upto mont (2 ^ window) a (2 ^ window) table" and window: "window \<le> 6" and d: "mont_dest malloc mont d" "\<not> bn_neg d"
    and i: "i < 2 ^ window"
  shows "returns (mont_good malloc N mont ctx) (fetch_power malloc (bn_width (mont_N mont)) table d i)
    (\<lambda>z. mont_form mont z (a ^ i))"
proof -
  let ?w = "bn_width (mont_N mont)"
  have "(2 :: nat) ^ window \<le> 2 ^ 6" using window by (intro power_increasing) simp_all
  then have row: "select_row i 0 table (replicate ?w 0) = table ! i"
    using table i by (intro select_row_zero) (auto simp: powers_upto_def)
  have val: "length (table ! i) = ?w" "bn_val (table ! i) = (mont_R mont * a ^ i) mod mont_n mont"
    using table i by (auto simp: powers_upto_def)
  obtain s where s: "bn_wexpand malloc ?w d = (Some (), s)"
    using d(1) by (cases rule: bn_wexpand_cases [of malloc ?w d]) auto
  then have neg: "\<not> bn_neg s" using d(2) by (auto simp: bn_wexpand_def split: if_splits)
  show ?thesis
    unfolding returns_def
  proof (intro allI impI)
    fix k assume k: "mont_good malloc N mont ctx k"
    then have ok: "mont_ok mont" by (simp add: mont_good_def)
    have "mont_form mont (put_words (table ! i) s) (a ^ i)"
      using val neg bn_small_mont [OF ok, of "put_words (table ! i) s"] by (simp add: mont_form_def)
    with s row k show "\<exists>x s'. fetch_power malloc ?w table d i k = (Some x, s') \<and> mont_good malloc N mont ctx s' \<and> mont_form mont x (a ^ i)"
      by (simp add: fetch_power_def copy_from_prebuf_def and_then_def mont_good_def)
  qed
qed

interpretation ct_exp: power_mult "mont_mult malloc mont ctx" "mont_form mont"
  "\<lambda>d. mont_dest malloc mont d \<and> \<not> bn_neg d" "mont_good malloc N mont ctx"
  for malloc N mont ctx
proof unfold_locales
  fix x k assume "mont_form mont x k"
  then show "mont_dest malloc mont x \<and> \<not> bn_neg x" by (simp add: mont_form_dest) (simp add: mont_form_def)
qed (blast intro: bn_exp.mul_returns)

lemma store_powers_returns:
  assumes am: "mont_form mont am a"
  shows "mont_form mont tmp (a ^ (n - 1)) \<Longrightarrow> 0 < n \<Longrightarrow> n + k = rows \<Longrightarrow> powers_upto mont rows a n table \<Longrightarrow>
    returns (mont_good malloc N mont ctx) (store_powers (mont_mult malloc mont ctx) (bn_width (mont_N mont)) k n am tmp table)
      (\<lambda>(tmp, table). (\<exists>j. mont_form mont tmp j) \<and> powers_upto mont rows a rows table)"
proof (induction k arbitrary: n tmp table)
  case (Suc k)
  note tmp = Suc.prems(1)
  show ?case unfolding store_powers.simps
  proof (rule returns_and_then [OF bn_exp.mul_returns [OF mont_form_dest [OF tmp] am tmp]])
    fix x assume "mont_form mont x (a * a ^ (n - 1))"
    then have x: "mont_form mont x (a ^ n)" using Suc.prems(2) by (cases n) simp_all
    have "n < rows" using Suc.prems(3) by simp
    then obtain table' where t: "copy_to_prebuf x (bn_width (mont_N mont)) table n = Some table'" "powers_upto mont rows a (Suc n) table'"
      by (rule copy_to_prebuf_form [OF x Suc.prems(4)])
    from Suc.IH [of x "Suc n", OF _ _ _ t(2)] x Suc.prems(3)
    show "returns (mont_good malloc N mont ctx) (case copy_to_prebuf x (bn_width (mont_N mont)) table n of None \<Rightarrow> fail
        | Some table \<Rightarrow> store_powers (mont_mult malloc mont ctx) (bn_width (mont_N mont)) k (Suc n) am x table)
        (\<lambda>(tmp, table). (\<exists>j. mont_form mont tmp j) \<and> powers_upto mont rows a rows table)"
      by (simp add: t(1))
  qed simp
qed auto

lemma prebuf_table_returns:
  assumes tmp: "mont_form mont tmp 1" and am: "mont_form mont am a" and window: "window = 1 \<or> 3 \<le> window"
  shows "returns (mont_good malloc N mont ctx) (prebuf_table (mont_mult malloc mont ctx) (bn_width (mont_N mont)) window tmp am)
    (\<lambda>(tmp, table). (\<exists>j. mont_form mont tmp j) \<and> powers_upto mont (2 ^ window) a (2 ^ window) table)"
proof -
  let ?w = "bn_width (mont_N mont)" and ?rows = "2 ^ window :: nat"
  let ?post = "\<lambda>(tmp, table). (\<exists>j. mont_form mont tmp j) \<and> powers_upto mont ?rows a ?rows table"
  have one: "1 < ?rows" using window by (intro one_less_power) auto
  have p0: "powers_upto mont ?rows a 0 (replicate ?rows (replicate ?w 0))" by (simp add: powers_upto_def)
  obtain t1 where t1: "copy_to_prebuf tmp ?w (replicate ?rows (replicate ?w 0)) 0 = Some t1" "powers_upto mont ?rows a (Suc 0) t1"
    by (rule copy_to_prebuf_form [where n = 0, OF _ p0, of tmp]) (use tmp in simp_all)
  obtain t2 where t2: "copy_to_prebuf am ?w t1 1 = Some t2" "powers_upto mont ?rows a (Suc 1) t2"
    by (rule copy_to_prebuf_form [OF _ t1(2) [folded One_nat_def] one, of am]) (use am in simp_all)
  show ?thesis
  proof (cases "window > 1")
    case False
    then have "window = 1" using window by simp
    then show ?thesis using t2(2) tmp unfolding prebuf_table_def t1(1) t2(1) option.case
      by (auto simp: numeral_2_eq_2)
  next
    case True
    then have rows: "8 \<le> ?rows" using window power_increasing [of 3 window "2 :: nat"] by simp
    then have two: "2 < ?rows" by linarith
    show ?thesis
      unfolding prebuf_table_def t1(1) t2(1) option.case if_P [OF True]
    proof (rule returns_and_then [OF bn_exp.mul_returns [OF mont_form_dest [OF tmp] am am]])
      fix x assume "mont_form mont x (a * a)"
      then have x: "mont_form mont x (a ^ 2)" by (simp add: power2_eq_square)
      have "Suc 1 = 2" by simp
      with t2(2) have p2: "powers_upto mont ?rows a 2 t2" by metis
      obtain t3 where t3: "copy_to_prebuf x ?w t2 2 = Some t3" "powers_upto mont ?rows a (Suc 2) t3"
        by (rule copy_to_prebuf_form [OF x p2 two])
      have "returns (mont_good malloc N mont ctx) (store_powers (mont_mult malloc mont ctx) ?w (2 ^ window - 3) 3 am x t3) ?post"
        using x t3(2) rows by (intro store_powers_returns [OF am]) simp_all
      then show "returns (mont_good malloc N mont ctx) (case copy_to_prebuf x ?w t2 2 of None \<Rightarrow> fail
          | Some table \<Rightarrow> store_powers (mont_mult malloc mont ctx) ?w (2 ^ window - 3) 3 am x table) ?post"
        by (simp add: t3(1))
    qed simp
  qed
qed

section \<open>Exponentiation is exact\<close>

lemma ctime_window: "BN_window_bits_for_ctime_exponent_size b = 1 \<or> 3 \<le> BN_window_bits_for_ctime_exponent_size b"
  and ctime_window_le: "BN_window_bits_for_ctime_exponent_size b \<le> 6"
  by (simp_all add: BN_window_bits_for_ctime_exponent_size_def)

lemma prebuf_number_dest: "mont_dest malloc mont (prebuf_number (bn_width (mont_N mont)))"
  by (simp add: prebuf_number_def bn_room_def bn_wexpand_def)

text \<open>The windows below the first one are full.\<close>

lemma windows_returns:
  assumes table: "powers_upto mont (2 ^ window) a (2 ^ window) table" and window: "0 < window" "window \<le> 6"
    and bits: "0 < bits" "e < 2 ^ bits" and tmp: "mont_form mont tmp j" and am: "mont_form mont am l"
    and is_set: "\<And>b. is_set b \<longleftrightarrow> 0 \<le> b \<and> bit e (nat b)"
  defines "first \<equiv> (bits - 1) mod window + 1" and "w \<equiv> bn_width (mont_N mont)"
  shows "returns (mont_good malloc N mont ctx)
    (and_then (fetch_power malloc w table tmp (read_bits is_set first (int bits - 1) 0))
      (\<lambda>tmp. fixed_windows (mont_mult malloc mont ctx) (fetch_power malloc w table) is_set window (int bits - 1 - int first) tmp am))
    (\<lambda>z. mont_form mont z (a ^ e))"
proof -
  let ?n = "bits - first"
  have first: "first \<le> window" "first \<le> bits" using bits(1) mod_less_eq_dividend [of "bits - 1" window] mod_less_divisor [OF window(1), of "bits - 1"]
    unfolding first_def by linarith+
  have "bits - 1 = window * ((bits - 1) div window) + (bits - 1) mod window" by simp
  then have "?n = window * ((bits - 1) div window)" using bits(1) unfolding first_def by linarith
  then have dvd: "window dvd ?n" by simp
  have wvalue: "read_bits is_set first (int bits - 1) 0 = bits_at e ?n first"
    using read_bits_val [of is_set e first bits 0, OF is_set first(2)] by simp
  have whole: "bits_at e ?n first = e div 2 ^ ?n"
    using div_bits_at [of e ?n first] bits(2) first(2) by simp
  have "bits_at e ?n first < 2 ^ first" by (rule bits_at_less)
  also have "\<dots> \<le> 2 ^ window" using first(1) by (intro power_increasing) simp_all
  finally have i: "e div 2 ^ ?n < 2 ^ window" unfolding whole .
  have dest: "mont_dest malloc mont x \<and> \<not> bn_neg x" if "mont_form mont x y" for x y
    using that mont_form_dest [OF that] by (simp add: mont_form_def)
  have start: "int bits - 1 - int first = int ?n - 1" using first(2) by simp
  show ?thesis
    unfolding wvalue whole start w_def
  proof (rule returns_and_then [OF fetch_power_returns [OF table window(2) _ _ i]])
    fix z assume z: "mont_form mont z (a ^ (e div 2 ^ ?n))"
    show "returns (mont_good malloc N mont ctx) (fixed_windows (mont_mult malloc mont ctx)
        (fetch_power malloc (bn_width (mont_N mont)) table) is_set window (int ?n - 1) z am) (\<lambda>z. mont_form mont z (a ^ e))"
      by (rule ct_exp.fixed_windows_returns [OF _ is_set window(1) z dest [OF am] dvd])
        (use fetch_power_returns [OF table window(2)] in blast)
  qed (use dest [OF tmp] in simp_all)
qed

theorem BN_mod_exp_mont_consttime_returns:
  assumes m: "bn_small m" "odd (bn_abs m)" "\<not> bn_neg m" and a: "bn_small a" "\<not> bn_neg a" "bn_abs a < bn_abs m"
    and p: "bn_ok p" and N: "16 * (bn_width a + bn_width m) + 16 \<le> N" and init: "bn_free malloc N BN_init"
    and ctx: "exp_ctx_ok malloc N ctx" and given: "mont_given malloc N m mont" and rr: "bn_temp malloc N rr"
    and one: "bn_temp malloc N one" and buf: "\<And>k. malloc k"
  obtains rr' where "BN_mod_exp_mont_consttime malloc ctx (Some one) a p m mont rr = (Some (), rr')"
    and "bn_int rr' = bn_int a ^ bn_abs p mod bn_int m"
proof -
  have okm: "bn_ok m" using m(1) by (simp add: bn_small_def)
  have guards: "\<not> \<not> BN_is_odd m" "\<not> (bn_neg a \<or> 0 \<le> sint (BN_ucmp a m))"
    using m a okm ucmp_reduced [OF a(3)] by (simp_all add: is_odd_iff)
  let ?bits = "bn_width p * 64" and ?e = "bn_abs p"
  show thesis
  proof (cases "?bits = 0")
    case True
    then have e: "?e = 0" by (simp add: bn_abs_def)
    have "0 < N" using N by simp
    obtain r' where "(if BN_abs_is_word 1 m then (Some (), BN_zero rr) else BN_one malloc rr) = (Some (), r')"
      "bn_int r' = 1 mod bn_int m"
      by (rule exp_zero [OF okm m(2,3) rr \<open>0 < N\<close>])
    with that [of r'] guards m(3) True e show thesis by (simp add: BN_mod_exp_mont_consttime_def)
  next
    case False
    have e: "?e < 2 ^ ?bits" 
      using bn_abs_less [of p] power_mult [of "2 :: nat" 64 "bn_width p"] by (simp add: bn_base_def mult.commute)
    obtain f where f: "ex_from ctx = Some f" "bn_temp malloc N f" by (rule exp_ctx_temps [OF ctx])
    have Nm: "16 * bn_width m + 16 \<le> N" using N by simp
    obtain mt where mt: "(case mont of None \<Rightarrow> BN_MONT_CTX_new_consttime malloc (ex_new_ok ctx) m (ex_new ctx) | Some x \<Rightarrow> Some x) = Some mt"
      "mont_ok mt" "mont_n mt = bn_abs m" "mont_room malloc N mt"
      by (rule mont_or_new [OF m Nm init ctx given])
    let ?w = "bn_width (mont_N mt)"
    note prebuf = prebuf_number_dest [of malloc mt]
    obtain tmp t where to: "ex_to ctx = (Some tmp, Some t)" "bn_temp malloc N tmp" "bn_temp malloc N t"
      by (rule exp_ctx_pairs [OF ctx])
    have less: "bn_abs a < mont_R mt" using a(3) mt(3) mont_okD(6) [OF mt(2)] by linarith
    have Na: "8 * (bn_width a + bn_width (mont_N mt)) + 16 \<le> N" using N mt(4) by (simp add: mont_room_def)
    obtain am where am: "BN_to_montgomery malloc mt a (Some tmp) (Some t) (prebuf_number ?w) = (Some (), am)" "mont_form mt am (bn_abs a)"
      by (rule to_montgomery_returns [OF mt(2) a(1,2) less Na mt(4) to(2,3) prebuf])
    obtain tm where tm: "bn_one_to_montgomery malloc mt (Some one) (prebuf_number ?w) = (Some (), tm)" "mont_form mt tm 1"
      by (rule one_to_montgomery_returns [OF mt(2,4) one prebuf])
    let ?window = "BN_window_bits_for_ctime_exponent_size ?bits" and ?mul = "mont_mult malloc mt (ex_mul ctx)"
    let ?good = "mont_good malloc N mt (ex_mul ctx)" and ?first = "(?bits - 1) mod BN_window_bits_for_ctime_exponent_size ?bits + 1"
    let ?loop = "and_then (prebuf_table ?mul ?w ?window tm am) (\<lambda>(tmp, table).
      and_then (fetch_power malloc ?w table tmp (read_bits (BN_is_bit_set p) ?first (int ?bits - 1) 0))
        (\<lambda>tmp. fixed_windows ?mul (fetch_power malloc ?w table) (BN_is_bit_set p) ?window (int ?bits - 1 - int ?first) tmp am))"
    have window: "0 < ?window" by (simp add: BN_window_bits_for_ctime_exponent_size_def)
    have "returns ?good ?loop (\<lambda>z. mont_form mt z (bn_abs a ^ ?e))"
    proof (rule returns_and_then [OF prebuf_table_returns [OF tm(2) am(2) ctime_window]])
      fix x assume "case x of (tmp, table) \<Rightarrow> (\<exists>j. mont_form mt tmp j) \<and> powers_upto mt (2 ^ ?window) (bn_abs a) (2 ^ ?window) table"
      then obtain z table j where x: "x = (z, table)" "mont_form mt z j" "powers_upto mt (2 ^ ?window) (bn_abs a) (2 ^ ?window) table"
        by (cases x) auto
      show "returns ?good (case x of (tmp, table) \<Rightarrow>
        and_then (fetch_power malloc ?w table tmp (read_bits (BN_is_bit_set p) ?first (int ?bits - 1) 0))
          (\<lambda>tmp. fixed_windows ?mul (fetch_power malloc ?w table) (BN_is_bit_set p) ?window (int ?bits - 1 - int ?first) tmp am))
        (\<lambda>z. mont_form mt z (bn_abs a ^ ?e))"
        unfolding x(1) prod.case
        by (rule windows_returns [OF x(3) window ctime_window_le _ e x(2) am(2) BN_is_bit_set_iff]) (use False in simp)
    qed
    moreover have "?good 0" using mt ctx by (simp add: mont_good_def exp_ctx_ok_def)
    ultimately obtain z k where run: "?loop 0 = (Some z, k)" "mont_form mt z (bn_abs a ^ ?e)" by (rule returnsD)
    obtain r' where r': "BN_from_montgomery malloc mt z (Some f) rr = (Some (), r')" "bn_int r' = int (bn_abs a ^ ?e mod mont_n mt)"
      by (rule from_montgomery_returns [OF mt(2) run(2) mt(4) f(2) temp_dest [OF mt(4) rr]])
    show thesis
    proof (rule that)
      show "BN_mod_exp_mont_consttime malloc ctx (Some one) a p m mont rr = (Some (), r')"
        unfolding BN_mod_exp_mont_consttime_def Let_def if_not_P [OF guards(1)] if_not_P [OF m(3)] if_not_P [OF guards(2)] if_not_P [OF False]
          option.case prod.case mt(1) to(1) fst_conv snd_conv am(1) tm(1) if_not_P [OF notI [OF notE [OF _ buf]]] run(1) f(1) r'(1)
        using buf by simp
      show "bn_int r' = bn_int a ^ bn_abs p mod bn_int m"
        unfolding r'(2) using a(2) m(3) by (simp add: mt(3) bn_int_def zmod_int)
    qed
  qed
qed

end
