(* ===== verification/Bn_Div.thy ===== *)
theory Bn_Div
  imports Bn_Room
begin

text \<open>
  Long division in base \<open>2 ^ 64\<close>, \<open>BN_div\<close> of \<open>fipsmodule/bn/div.c\<close>: each limb of the quotient is
  guessed from the top limbs and corrected.
\<close>

section \<open>The operations\<close>

text \<open>The quotient of two limbs by one, for \<open>n0 < d0\<close>, with the 128-bit division of the compiler.\<close>

definition bn_div_rem_words :: "u64 \<Rightarrow> u64 \<Rightarrow> u64 \<Rightarrow> u64 \<times> u64" where
  "bn_div_rem_words n0 n1 d0 =
    (let n = push_bit 64 (ucast n0 :: u128) OR ucast n1; q = ucast (n div ucast d0)
     in (q, n1 - q * d0))"

lemma limb_sum:
  fixes x d :: u64
  shows "\<not> x + d < d \<Longrightarrow> unat (x + d) = unat x + unat d" and "x + d < d \<Longrightarrow> bn_base \<le> unat x + unat d"
  using unsigned_less [of x, where 'a = nat] unsigned_less [of d, where 'a = nat]
  by (simp_all add: unat_plus_if_size word_size word_less_nat_alt bn_base_def split: if_splits)

text \<open>
  The guess is lowered until it fits the second limb of the divisor too; \<open>t2\<close> is \<open>d1 * q\<close>.  With
  \<open>d0 = 0\<close>, a division by zero before the loop, the model ends.
\<close>

function adjust_q :: "u64 \<Rightarrow> u64 \<Rightarrow> u64 \<Rightarrow> u64 \<Rightarrow> u64 \<Rightarrow> u128 \<Rightarrow> u64" where
  "adjust_q d0 d1 n2 q rm t2 =
    (if t2 \<le> push_bit 64 (ucast rm) OR ucast n2 then q
     else if rm + d0 < d0 \<or> d0 = 0 then q - 1
     else adjust_q d0 d1 n2 (q - 1) (rm + d0) (t2 - ucast d1))"
  by pat_completeness auto
termination
proof (relation "measure (\<lambda>(d0, d1, n2, q, rm, t2). 2 ^ 64 - unat rm)", goal_cases)
  case (2 d0 d1 n2 q rm t2)
  then have "unat (rm + d0) = unat rm + unat d0" by (simp add: limb_sum(1))
  moreover have "unat d0 \<noteq> 0" using 2 by (simp add: unat_eq_0)
  moreover have "unat (rm + d0) < 2 ^ 64" using unsigned_less [of "rm + d0"] by simp
  ultimately show ?case by simp
qed simp

declare adjust_q.simps [simp del]

definition guess_q :: "limbs \<Rightarrow> u64 \<Rightarrow> u64 \<Rightarrow> u64 \<Rightarrow> u64" where
  "guess_q sdiv n0 n1 n2 =
    (let n = length sdiv; d0 = sdiv ! (n - 1); d1 = (if n = 1 then 0 else sdiv ! (n - 2))
     in if n0 = d0 then - 1
        else case bn_div_rem_words n0 n1 d0 of (q, rm) \<Rightarrow> adjust_q d0 d1 n2 q rm (ucast d1 * ucast q))"

text \<open>One limb of the quotient, from the window of \<open>snum\<close> at the offset \<open>i\<close>.\<close>

definition div_window :: "limbs \<Rightarrow> nat \<Rightarrow> limbs \<Rightarrow> limbs \<times> u64" where
  "div_window sdiv i snum =
    (let n = length sdiv; q = guess_q sdiv (snum ! (i + n)) (snum ! (i + n - 1)) (snum ! (i + n - 2))
     in case bn_mul_words sdiv q of (tmp, l0) \<Rightarrow>
       (case bn_sub_words (take (n + 1) (drop i snum)) (tmp @ [l0]) of (w, borrow) \<Rightarrow>
          if borrow \<noteq> 0 then
            (case bn_add_words (take n w) sdiv of (w', c) \<Rightarrow>
               (take i snum @ w' @ [if c \<noteq> 0 then w ! n + 1 else w ! n] @ drop (i + n + 1) snum, q - 1))
          else (take i snum @ w @ drop (i + n + 1) snum, q)))"

text \<open>The limb at the offset zero is only looked at by the guesses.\<close>

fun div_loop :: "limbs \<Rightarrow> nat \<Rightarrow> limbs \<Rightarrow> limbs \<Rightarrow> limbs \<times> limbs" where
  "div_loop sdiv (Suc i) snum qs =
    (case div_window sdiv (Suc i) snum of (snum, q) \<Rightarrow> div_loop sdiv i snum (q # qs))"
| "div_loop sdiv 0 snum qs = (snum, qs)"

text \<open>
  The divisor is shifted so that its top bit is set, and the numerator by one limb more, with
  zeros above.  The result has the distance, too.
\<close>

definition div_normalise :: "(nat \<Rightarrow> bool) \<Rightarrow> bignum \<Rightarrow> bignum \<Rightarrow> bignum \<Rightarrow> bignum \<Rightarrow> (nat \<times> bignum \<times> bignum) option" where
  "div_normalise malloc numerator divisor sdiv snum =
    (let norm_shift = 64 - BN_num_bits divisor mod 64
     in case BN_lshift malloc divisor (int norm_shift) sdiv of
       (None, _) \<Rightarrow> None
     | (Some _, sdiv) \<Rightarrow>
         let sdiv = (bn_set_minimal_width sdiv)\<lparr>bn_neg := False\<rparr>; norm_shift = norm_shift + 64
         in case BN_lshift malloc numerator (int norm_shift) snum of
           (None, _) \<Rightarrow> None
         | (Some _, snum) \<Rightarrow>
             let snum = (bn_set_minimal_width snum)\<lparr>bn_neg := False\<rparr>;
                 width = (if bn_width snum \<le> bn_width sdiv + 1 then bn_width sdiv + 2 else bn_width snum + 1)
             in case bn_wexpand malloc width snum of
               (None, _) \<Rightarrow> None
             | (Some _, s) \<Rightarrow> Some (norm_shift, sdiv, put_words (bn_words snum @ replicate (width - bn_width snum) 0) s))"

text \<open>
  \<open>tmp\<close>, \<open>snum\<close>, \<open>sdiv\<close> and, where no quotient is wanted, \<open>res\<close> are from the context, which fails
  at \<open>sdiv\<close> where it has failed before.  \<open>q_same\<close> tells that the quotient is the object of the
  numerator: its sign has been overwritten when it is read for the remainder.
\<close>

type_synonym div_ctx = "bignum option \<times> bignum option \<times> bignum option \<times> bignum option"

definition BN_div :: "(nat \<Rightarrow> bool) \<Rightarrow> bignum \<Rightarrow> bignum \<Rightarrow> bool \<Rightarrow> div_ctx \<Rightarrow> (bignum option \<times> bignum option, unit) oper" where
  "BN_div malloc numerator divisor q_same ctx = (\<lambda>(quo, rem).
    if (0 < bn_minimal_width numerator \<and> bn_d numerator ! (bn_minimal_width numerator - 1) = 0) \<or>
       (0 < bn_minimal_width divisor \<and> bn_d divisor ! (bn_minimal_width divisor - 1) = 0) then (None, quo, rem)
    else if BN_is_zero divisor then (None, quo, rem)
    else case (case ctx of (tmp, snum, sdiv, res) \<Rightarrow> (tmp, snum, sdiv, if quo = None then res else quo)) of
      (Some tmp, Some snum, Some sdiv, Some res) \<Rightarrow>
        (case div_normalise malloc numerator divisor sdiv snum of
           None \<Rightarrow> (None, quo, rem)
         | Some (norm_shift, sdiv, snum) \<Rightarrow>
             let loop = bn_width snum - bn_width sdiv; out = (\<lambda>res. if quo = None then None else Some res)
             in case bn_wexpand malloc (loop + 1) (res\<lparr>bn_neg := (bn_neg numerator \<noteq> bn_neg divisor)\<rparr>) of
               (None, res) \<Rightarrow> (None, out res, rem)
             | (Some _, res) \<Rightarrow>
                 (case bn_wexpand malloc (bn_width sdiv + 1) tmp of
                    (None, _) \<Rightarrow> (None, out (res\<lparr>bn_width := loop - 1\<rparr>), rem)
                  | (Some _, _) \<Rightarrow>
                      (case div_loop (bn_words sdiv) (loop - 1) (bn_words snum) [] of (ws, qs) \<Rightarrow>
                         let res = (put_words qs res)\<lparr>bn_neg := (loop - 1 \<noteq> 0 \<and> bn_neg res)\<rparr>;
                             snum = bn_set_minimal_width (put_words ws snum);
                             neg = (if q_same then bn_neg res else bn_neg numerator)
                         in case rem of
                           None \<Rightarrow> (Some (), out (bn_set_minimal_width res), None)
                         | Some r \<Rightarrow>
                             (case BN_rshift malloc snum (int norm_shift) r of
                                (None, r) \<Rightarrow> (None, out res, Some r)
                              | (Some _, r) \<Rightarrow> (Some (), out (bn_set_minimal_width res),
                                  Some (if BN_is_zero r then r else r\<lparr>bn_neg := neg\<rparr>))))))
    | _ \<Rightarrow> (None, quo, rem))"

section \<open>The guess\<close>

lemma two_limbs: "unat (push_bit 64 (ucast (h :: u64) :: u128) OR ucast (l :: u64)) = bn_base * unat h + unat l"
proof -
  have "push_bit 64 (ucast h :: u128) AND ucast l = 0"
    by (rule bit_eqI) (auto simp: bit_simps dest: bit_imp_le_length)
  moreover have "unat (push_bit 64 (ucast h :: u128)) = bn_base * unat h"
    using unsigned_less [of h, where 'a = nat] by (simp add: push_bit_eq_mult bn_base_def unat_word_ariths)
  ultimately show ?thesis by (simp add: unat_or_disjoint)
qed

lemma div_rem_words_val:
  assumes "bn_div_rem_words n0 n1 d0 = (q, rm)" and less: "n0 < d0"
  shows "unat d0 * unat q + unat rm = bn_base * unat n0 + unat n1" and "unat rm < unat d0"
proof -
  let ?n = "push_bit 64 (ucast n0 :: u128) OR ucast n1" and ?N = "bn_base * unat n0 + unat n1" and ?d = "unat d0"
  have q: "q = ucast (?n div ucast d0)" and rm: "rm = n1 - q * d0"
    using assms(1) by (auto simp: bn_div_rem_words_def Let_def)
  have pos: "0 < ?d" and lt: "unat n0 + 1 \<le> ?d" using less by (simp_all add: word_less_nat_alt)
  have "?N < bn_base * (unat n0 + 1)" by simp
  also have "\<dots> \<le> bn_base * ?d" using lt by (rule mult_le_mono2)
  finally have "?N div ?d < bn_base" using pos by (simp add: less_mult_imp_div_less mult.commute)
  then have uq: "unat q = ?N div ?d"
    unfolding q by (simp add: unsigned_ucast_eq take_bit_eq_mod unat_div_distrib two_limbs bn_base_def)
  have "(word_of_nat bn_base :: u64) = 0" by (simp add: word_of_nat_eq_0_iff bn_base_def)
  then have "word_of_nat ?N = (n1 :: u64)" by simp
  moreover have "(word_of_nat (?N div ?d) :: u64) = q" by (simp flip: uq)
  moreover have "(word_of_nat (?N mod ?d) :: u64) = word_of_nat ?N - word_of_nat (?N div ?d) * word_of_nat ?d"
    unfolding minus_div_mult_eq_mod [symmetric] by (subst of_nat_diff) simp_all
  ultimately have "rm = word_of_nat (?N mod ?d)" unfolding rm by simp
  moreover have "?N mod ?d < 2 ^ 64"
    by (rule less_trans [OF mod_less_divisor [OF pos]]) (use unsigned_less [of d0, where 'a = nat] in simp)
  ultimately have urm: "unat rm = ?N mod ?d" by (simp add: unat_of_nat_small)
  show "?d * unat q + unat rm = ?N" "unat rm < ?d" unfolding uq urm using pos by simp_all
qed


lemma adjust_q_val:
  assumes "unat d0 * unat q + unat rm = N2" and "unat t2 = unat d1 * unat q" and "0 < unat d0"
    and "bn_base * N2 + unat n2 < (bn_base * unat d0 + unat d1) * (unat q + 1)"
  shows "unat (adjust_q d0 d1 n2 q rm t2) = (bn_base * N2 + unat n2) div (bn_base * unat d0 + unat d1)"
  using assms
proof (induction d0 d1 n2 q rm t2 rule: adjust_q.induct)
  case (1 d0 d1 n2 q rm t2)
  let ?B = bn_base and ?d0 = "unat d0" and ?d1 = "unat d1" and ?q = "unat q" and ?rm = "unat rm" and ?n2 = "unat n2"
  let ?N3 = "?B * N2 + ?n2" and ?D2 = "?B * ?d0 + ?d1"
  note N2 = "1.prems"(1) and t2 = "1.prems"(2) and d0 = "1.prems"(3) and less = "1.prems"(4)
  have N3: "?N3 = ?B * (?d0 * ?q) + (?B * ?rm + ?n2)" unfolding N2 [symmetric] by (simp add: algebra_simps)
  have exact: "?N3 div ?D2 = k" if "?D2 * k \<le> ?N3" "?N3 < ?D2 * (k + 1)" for k
    using that by (intro div_nat_eqI) (simp_all add: mult.commute)
  show ?case
  proof (cases "t2 \<le> push_bit 64 (ucast rm) OR ucast n2")
    case True
    then have "?d1 * ?q \<le> ?B * ?rm + ?n2" by (simp add: word_le_nat_alt two_limbs t2)
    then have "?D2 * ?q \<le> ?N3" unfolding N3 by (simp add: algebra_simps)
    from exact [OF this less] True show ?thesis by (simp add: adjust_q.simps)
  next
    case False
    then have big: "?B * ?rm + ?n2 < ?d1 * ?q" by (simp add: word_le_nat_alt two_limbs t2 not_le)
    then have q: "0 < ?q" by (intro gr0I) simp
    then have q1: "unat (q - 1) = ?q - 1" by (intro unat_minus_one) auto
    obtain k where k: "?q = Suc k" using q by (cases ?q) simp_all
    have down: "?N3 < ?D2 * (unat (q - 1) + 1)" unfolding q1 N3 using big q by (simp add: algebra_simps)
    show ?thesis
    proof (cases "rm + d0 < d0 \<or> d0 = 0")
      case True
      then have over: "?B \<le> ?rm + ?d0"
        using d0 limb_sum(2) [of rm d0] by auto
      have "?d1 * k \<le> ?B * ?B" using k limb_less [of q] by (intro mult_le_mono) (simp_all add: less_imp_le)
      also have "\<dots> \<le> ?B * (?rm + ?d0)" using over by (rule mult_le_mono2)
      finally have "?D2 * k \<le> ?N3" unfolding N3 k by (simp add: algebra_simps)
      moreover have "?N3 < ?D2 * (k + 1)" using down k q1 by simp
      ultimately have "?N3 div ?D2 = k" by (rule exact)
      with True False q1 k show ?thesis by (simp add: adjust_q.simps)
    next
      case ge: False
      then have rm: "unat (rm + d0) = ?rm + ?d0"
        by (intro limb_sum(1)) simp
      have le: "(ucast d1 :: u128) \<le> t2" using k by (simp add: word_le_nat_alt t2)
      have "?d0 * unat (q - 1) + unat (rm + d0) = N2" unfolding q1 rm N2 [symmetric] k by simp
      moreover have "unat (t2 - ucast d1) = ?d1 * unat (q - 1)" unfolding unat_sub [OF le] t2 q1 k by simp
      ultimately have "unat (adjust_q d0 d1 n2 (q - 1) (rm + d0) (t2 - ucast d1)) = ?N3 div ?D2"
        using d0 down by (intro "1.IH" [OF False ge])
      with False ge show ?thesis by (simp add: adjust_q.simps)
    qed
  qed
qed


text \<open>The bounds on the guess, for the top limb \<open>d0\<close> of a divisor \<open>D\<close> and for the top two.\<close>

lemma top_guess:
  fixes W D Y B d0 :: nat
  assumes D: "D < (d0 + 1) * Y" "0 < D" and W: "d0 * (B * Y) \<le> W" "W < D * B" and B: "B \<le> 2 * d0 + 2"
  shows "W div D \<le> B - 1" and "B - 1 \<le> W div D + 1"
proof -
  show "W div D \<le> B - 1" using W(2) D(2) less_mult_imp_div_less [of W B D] by (simp add: mult.commute)
  obtain k where k: "B - 2 = k" by simp
  have "(B - 2) * (d0 + 1) \<le> d0 * B"
  proof (cases "2 \<le> B")
    case True
    then have "B = k + 2" using k by simp
    then show ?thesis using B k by (simp add: algebra_simps)
  qed simp
  then have le: "(B - 2) * (d0 + 1) * Y \<le> d0 * B * Y" by (rule mult_le_mono1)
  have "(B - 2) * D \<le> (B - 2) * ((d0 + 1) * Y)" using D(1) by (intro mult_le_mono2) simp
  also have "\<dots> \<le> d0 * (B * Y)" using le by (simp only: mult.assoc)
  also note W(1)
  finally have "(B - 2) * D \<le> W" .
  then have "B - 2 \<le> W div D" using D(2) by (simp add: less_eq_div_iff_mult_less_eq)
  then show "B - 1 \<le> W div D + 1" by simp
qed

lemma three_guess:
  fixes N3 D2 X dl wl :: nat
  assumes less: "dl < X" "wl < X" and D2: "0 < D2" and small: "N3 div D2 \<le> D2 + 1"
  shows "(N3 * X + wl) div (D2 * X + dl) \<le> N3 div D2" and "N3 div D2 \<le> (N3 * X + wl) div (D2 * X + dl) + 1"
proof -
  let ?W = "N3 * X + wl" and ?D = "D2 * X + dl" and ?q = "N3 div D2"
  have X: "0 < X" using less(1) by simp
  have "?W div ?D \<le> ?W div (D2 * X)" using D2 X by (intro div_le_mono2) simp_all
  also have "\<dots> = ?W div X div D2" by (metis div_mult2_eq mult.commute)
  also have "?W div X = N3" using less(2) by simp
  finally show "?W div ?D \<le> ?q" .
  show "?q \<le> ?W div ?D + 1"
  proof (cases "?q = 0")
    case False
    then obtain k where k: "?q = Suc k" by (cases ?q) simp_all
    have "k * ?D \<le> k * (D2 * X + X)" using less(1) by (intro mult_le_mono2) simp
    also have "\<dots> = (k * D2 + k) * X" by (simp add: algebra_simps)
    also have "\<dots> \<le> (Suc k * D2) * X" using small k by (intro mult_le_mono1) simp
    also have "\<dots> \<le> N3 * X" unfolding k [symmetric] by (intro mult_le_mono1) simp
    finally have "k * ?D \<le> ?W" by simp
    moreover have "0 < ?D" using D2 X by simp
    ultimately have "k \<le> ?W div ?D" by (simp add: less_eq_div_iff_mult_less_eq)
    with k show ?thesis by simp
  qed simp
qed

lemma half_base: "bn_base \<le> 2 * d \<Longrightarrow> 0 < (d :: nat)"
  by (intro gr0I) simp

lemma guess_one:
  assumes d0: "bn_base \<le> 2 * unat d0" and less: "bn_val [n1, n0] < unat d0 * bn_base"
  shows "bn_val [n1, n0] div unat d0 \<le> unat (guess_q [d0] n0 n1 n2)"
    and "unat (guess_q [d0] n0 n1 n2) \<le> bn_val [n1, n0] div unat d0 + 1"
proof -
  let ?W = "bn_val [n1, n0]" and ?d = "unat d0"
  have W: "?W = bn_base * unat n0 + unat n1" by simp
  note pos = half_base [OF d0]
  have "?W div ?d \<le> unat (guess_q [d0] n0 n1 n2) \<and> unat (guess_q [d0] n0 n1 n2) \<le> ?W div ?d + 1"
  proof (cases "n0 = d0")
    case True
    then have "guess_q [d0] n0 n1 n2 = - 1" by (simp add: guess_q_def)
    moreover have "unat (- 1 :: u64) = bn_base - 1" by (simp add: bn_base_def unsigned_minus_1_eq_mask mask_eq_exp_minus_1)
    moreover have "?d * (bn_base * 1) \<le> ?W" unfolding W True by simp
    ultimately show ?thesis using top_guess [of ?d ?d 1 bn_base ?W] pos less d0 by simp
  next
    case False
    have "bn_base * unat n0 < bn_base * ?d" using less unfolding W mult.commute [of ?d] by (rule add_lessD1)
    then have lt: "n0 < d0" by (simp add: word_less_nat_alt)
    obtain q rm where q: "bn_div_rem_words n0 n1 d0 = (q, rm)" by (rule prod.exhaust)
    note v = div_rem_words_val [OF q lt]
    have t2: "unat (ucast (0 :: u64) * ucast q :: u128) = unat (0 :: u64) * unat q" by simp
    have "unat n2 < bn_base" by simp
    moreover have "?W + 1 \<le> ?d * (unat q + 1)" unfolding W v(1) [symmetric] using v(2) by simp
    then have "bn_base * (?W + 1) \<le> bn_base * (?d * (unat q + 1))" by (rule mult_le_mono2)
    ultimately have less: "bn_base * ?W + unat n2 < (bn_base * ?d + unat (0 :: u64)) * (unat q + 1)"
      by (simp add: algebra_simps del: limb_less bn_val.simps)
    have "unat (adjust_q d0 0 n2 q rm (ucast (0 :: u64) * ucast q)) = (bn_base * ?W + unat n2) div (bn_base * ?d + unat (0 :: u64))"
      using adjust_q_val [OF v(1) t2 pos] less unfolding W by blast
    also have "\<dots> = (bn_base * ?W + unat n2) div bn_base div ?d" by (simp add: div_mult2_eq)
    also have "(bn_base * ?W + unat n2) div bn_base = ?W" by simp
    finally show ?thesis using False q by (simp add: guess_q_def)
  qed
  then show "?W div ?d \<le> unat (guess_q [d0] n0 n1 n2)" "unat (guess_q [d0] n0 n1 n2) \<le> ?W div ?d + 1" by simp_all
qed


lemma unat_mult_128: "unat (ucast (a :: u64) * ucast (b :: u64) :: u128) = unat a * unat b"
proof -
  have "unat a * unat b < 2 ^ 64 * 2 ^ 64" by (intro mult_strict_mono) (use unsigned_less [of a] unsigned_less [of b] in simp_all)
  then show ?thesis by (simp add: unat_word_ariths)
qed

lemma guess_two:
  fixes dl wl :: limbs and d0 d1 n0 n1 n2 :: u64
  assumes d0: "bn_base \<le> 2 * unat d0" and len: "length wl = length dl"
  defines "D \<equiv> bn_val (dl @ [d1, d0])" and "W \<equiv> bn_val (wl @ [n2, n1, n0])"
  assumes less: "W < D * bn_base"
  shows "W div D \<le> unat (guess_q (dl @ [d1, d0]) n0 n1 n2)"
    and "unat (guess_q (dl @ [d1, d0]) n0 n1 n2) \<le> W div D + 1"
proof -
  let ?X = "bn_base ^ length dl" and ?D2 = "bn_base * unat d0 + unat d1" and ?B = bn_base
  let ?N2 = "?B * unat n0 + unat n1" and ?g = "unat (guess_q (dl @ [d1, d0]) n0 n1 n2)"
  let ?N3 = "?B * ?N2 + unat n2"
  have low: "bn_val dl < ?X" "bn_val wl < ?X" using bn_val_less [of dl] bn_val_less [of wl] len by simp_all
  have D: "D = ?D2 * ?X + bn_val dl" and W: "W = ?N3 * ?X + bn_val wl"
    unfolding D_def W_def using len by (simp_all add: bn_val_append algebra_simps)
  note pos = half_base [OF d0]
  have D2: "0 < ?D2" using pos by simp
  have "?D2 + 1 \<le> ?B * (unat d0 + 1)" using limb_less [of d1] by (simp del: limb_less)
  then have "(?D2 + 1) * ?X \<le> ?B * (unat d0 + 1) * ?X" by (rule mult_le_mono1)
  then have 1: "D < (unat d0 + 1) * (?B * ?X)" unfolding D using low(1) by (simp add: algebra_simps)
  have guess: "guess_q (dl @ [d1, d0]) n0 n1 n2 =
      (if n0 = d0 then - 1 else case bn_div_rem_words n0 n1 d0 of (q, rm) \<Rightarrow> adjust_q d0 d1 n2 q rm (ucast d1 * ucast q))"
    by (simp add: guess_q_def nth_append)
  have "W div D \<le> ?g \<and> ?g \<le> W div D + 1"
  proof (cases "n0 = d0")
    case True
    then have g: "?g = ?B - 1" unfolding guess if_P [OF True] by (simp add: bn_base_def unsigned_minus_1_eq_mask mask_eq_exp_minus_1)
    have 2: "0 < D" unfolding D using D2 by simp
    have 3: "unat d0 * (?B * (?B * ?X)) \<le> W" unfolding W True by (simp add: algebra_simps)
    have 4: "?B \<le> 2 * unat d0 + 2" using d0 by simp
    from top_guess [OF 1 2 3 less 4] show ?thesis unfolding g by blast
  next
    case False
    have n0: "unat n0 * (?B * (?B * ?X)) \<le> W" unfolding W by (simp add: algebra_simps)
    note n0 also note less
    also have "D * ?B < (unat d0 + 1) * (?B * ?X) * ?B" using 1 by simp
    also have "\<dots> = (unat d0 + 1) * (?B * (?B * ?X))" by (simp only: ac_simps)
    finally have "unat n0 * (?B * (?B * ?X)) < (unat d0 + 1) * (?B * (?B * ?X))" .
    then have "unat n0 < unat d0 + 1" by (rule mult_less_cancel2 [THEN iffD1, THEN conjunct2])
    with False have lt: "n0 < d0" by (simp add: word_less_nat_alt word_unat_eq_iff)
    obtain q rm where q: "bn_div_rem_words n0 n1 d0 = (q, rm)" by (rule prod.exhaust)
    note v = div_rem_words_val [OF q lt]
    have "?N2 + 1 \<le> unat d0 * (unat q + 1)" unfolding v(1) [symmetric] using v(2) by simp
    then have "?B * (?N2 + 1) \<le> ?B * (unat d0 * (unat q + 1))" by (rule mult_le_mono2)
    moreover have "unat n2 < ?B" by simp
    ultimately have "?N3 < ?D2 * (unat q + 1)" by (simp add: algebra_simps del: limb_less)
    from adjust_q_val [OF v(1) unat_mult_128 pos this] have g: "?g = ?N3 div ?D2" by (simp add: guess False q)
    have "?g < ?B" by simp
    moreover have "2 * unat d0 \<le> ?B * unat d0" by (intro mult_le_mono1) (simp add: bn_base_def)
    ultimately have "?N3 div ?D2 \<le> ?D2 + 1" unfolding g using d0 by linarith
    from three_guess [OF low D2 this] show ?thesis unfolding g D W by blast
  qed
  then show "W div D \<le> ?g" "?g \<le> W div D + 1" by simp_all
qed


section \<open>The division\<close>

definition normalised :: "limbs \<Rightarrow> bool" where
  "normalised sdiv \<longleftrightarrow> sdiv \<noteq> [] \<and> bn_base \<le> 2 * unat (last sdiv)"

lemma guess_bounds:
  assumes sdiv: "normalised sdiv" and i: "i + length sdiv < length snum" "0 < i"
  defines "n \<equiv> length sdiv" and "W \<equiv> bn_val (take (length sdiv + 1) (drop i snum))"
  defines "q \<equiv> unat (guess_q sdiv (snum ! (i + n)) (snum ! (i + n - 1)) (snum ! (i + n - 2)))"
  assumes less: "W < bn_val sdiv * bn_base"
  shows "W div bn_val sdiv \<le> q" and "q \<le> W div bn_val sdiv + 1"
proof -
  have top: "bn_base \<le> 2 * unat (last sdiv)" and ne: "sdiv \<noteq> []" using sdiv by (simp_all add: normalised_def)
  have "W div bn_val sdiv \<le> q \<and> q \<le> W div bn_val sdiv + 1"
  proof (cases "length sdiv = 1")
    case True
    then obtain d0 where s: "sdiv = [d0]" by (cases sdiv) simp_all
    have w: "take (length sdiv + 1) (drop i snum) = [snum ! i, snum ! (i + 1)]"
      using i s by (simp add: numeral_2_eq_2 take_Suc_conv_app_nth)
    have W: "W = bn_val [snum ! i, snum ! (i + 1)]" unfolding W_def w ..
    show ?thesis
      using guess_one [of d0 "snum ! i" "snum ! (i + 1)"] less top
      unfolding q_def n_def W s by simp
  next
    case False
    then obtain k where k: "length sdiv = Suc (Suc k)" using ne by (cases sdiv; cases "tl sdiv") auto
    have s: "sdiv = take k sdiv @ [sdiv ! k, last sdiv]"
      using k ne by (intro nth_equalityI) (auto simp: nth_append last_conv_nth [OF ne] less_Suc_eq nth_Cons')
    let ?w = "take k (drop i snum) @ [snum ! (i + k), snum ! (i + Suc k), snum ! (i + Suc (Suc k))]"
    have w: "take (length sdiv + 1) (drop i snum) = ?w"
      using i k by (simp add: take_Suc_conv_app_nth)
    have len: "length (take k (drop i snum)) = length (take k sdiv)" using i k by simp
    have "bn_val ?w < bn_val (take k sdiv @ [sdiv ! k, last sdiv]) * bn_base"
      using less unfolding W_def w by (metis s)
    note g = guess_two [OF top len this, folded s, folded w, folded W_def]
    have "i + n = i + Suc (Suc k)" "i + n - 1 = i + Suc k" "i + n - 2 = i + k" using k by (simp_all add: n_def)
    with g show ?thesis unfolding q_def by simp
  qed
  then show "W div bn_val sdiv \<le> q" "q \<le> W div bn_val sdiv + 1" by simp_all
qed


lemma digits_unique:
  assumes "x + Y * a = y + Y * b" and "x < Y" and "y < (Y :: nat)"
  shows "x = y" and "a = b"
  using arg_cong [OF assms(1), of "\<lambda>z. z mod Y"] arg_cong [OF assms(1), of "\<lambda>z. z div Y"] assms(2,3) by simp_all

lemma correction:
  fixes w q D W Y :: nat
  assumes "w + q * D = W + Y * b" and "w < Y" and D: "0 < D" and g: "W div D \<le> q" "q \<le> W div D + 1"
  shows "b = 0 \<Longrightarrow> q = W div D \<and> w = W mod D" and "b = 1 \<Longrightarrow> q = W div D + 1 \<and> w + D = W mod D + Y"
proof -
  have W: "W = W div D * D + W mod D" by simp
  { assume "b = 0"
    then have "w + q * D = W" using assms(1) by simp
    then have "q \<le> W div D" using D by (simp add: less_eq_div_iff_mult_less_eq)
    with g(1) have q: "q = W div D" by simp
    with \<open>w + q * D = W\<close> have "w + W div D * D = W" by simp
    with W have "w = W mod D" by linarith
    with q show "q = W div D \<and> w = W mod D" by simp }
  { assume "b = 1"
    then have "w + q * D = W + Y" using assms(1) by simp
    with assms(2) have "W < q * D" by linarith
    then have "W div D < q" by (simp add: less_mult_imp_div_less)
    with g(2) have q: "q = W div D + 1" by simp
    then have "q * D = W div D * D + D" by simp
    with \<open>w + q * D = W + Y\<close> W have "w + D = W mod D + Y" by linarith
    with q show "q = W div D + 1 \<and> w + D = W mod D + Y" by simp }
qed

text \<open>One step divides the window by the divisor.\<close>

lemma div_window_val:
  assumes sdiv: "normalised sdiv" and i: "i + length sdiv < length snum" "0 < i"
    and less: "bn_val (take (length sdiv + 1) (drop i snum)) < bn_val sdiv * bn_base"
  obtains w q where "div_window sdiv i snum = (take i snum @ w @ drop (i + length sdiv + 1) snum, q)"
    and "length w = length sdiv + 1" and "bn_val w = bn_val (take (length sdiv + 1) (drop i snum)) mod bn_val sdiv"
    and "unat q = bn_val (take (length sdiv + 1) (drop i snum)) div bn_val sdiv"
proof -
  let ?n = "length sdiv" and ?D = "bn_val sdiv" and ?w = "take (length sdiv + 1) (drop i snum)"
  let ?q = "guess_q sdiv (snum ! (i + ?n)) (snum ! (i + ?n - 1)) (snum ! (i + ?n - 2))"
  let ?Y = "bn_base ^ (?n + 1)" and ?W = "bn_val ?w"
  note g = guess_bounds [OF sdiv i less]
  have lw: "length ?w = ?n + 1" using i by simp
  have D: "0 < ?D" using less by (intro gr0I) simp
  obtain tmp l0 where mul: "bn_mul_words sdiv ?q = (tmp, l0)" by (rule prod.exhaust)
  note m = bn_mul_words_val [OF mul]
  have t: "bn_val (tmp @ [l0]) = unat ?q * ?D" "length (tmp @ [l0]) = ?n + 1" using m by (simp_all add: bn_val_append)
  obtain w b where sub: "bn_sub_words ?w (tmp @ [l0]) = (w, b)" by (rule prod.exhaust)
  have "length ?w = length (tmp @ [l0])" using lw t(2) by simp
  note v = bn_sub_words_val [OF sub this, unfolded t]
  have ww: "bn_val w < ?Y" using bn_val_less [of w] v(1) by simp
  note c = correction [OF v(3) ww D g]
  show thesis
  proof (cases "b = 0")
    case True
    then have q: "unat ?q = ?W div ?D" and "bn_val w = ?W mod ?D" using c(1) by (simp_all only: unat_0)
    moreover have "div_window sdiv i snum = (take i snum @ w @ drop (i + ?n + 1) snum, ?q)"
      unfolding div_window_def Let_def mul prod.case sub using True by simp
    ultimately show thesis using that v(1) q by blast
  next
    case False
    then have b: "unat b = 1" using v(2) by auto
    from c(2) [OF this] have q: "unat ?q = ?W div ?D + 1" and val: "bn_val w + ?D = ?W mod ?D + ?Y" by blast+
    have "unat (?q - 1) = unat ?q - 1" by (rule unat_minus_one) (use q in auto)
    with q have q1: "unat (?q - 1) = ?W div ?D" by simp
    obtain w' c where add: "bn_add_words (take ?n w) sdiv = (w', c)" by (rule prod.exhaust)
    have lt: "length (take ?n w) = length sdiv" using v(1) by simp
    note a = bn_add_words_val [OF add lt]
    let ?t = "w ! ?n"
    have split: "w = take ?n w @ [?t]" using v(1) by (metis Suc_eq_plus1 lessI take_Suc_conv_app_nth take_all_iff le_refl)
    have wv: "bn_val w = bn_val (take ?n w) + bn_base ^ ?n * unat ?t" using bn_val_append [of "take ?n w" "[?t]"] split lt by simp
    have "bn_val w' + bn_base ^ ?n * (unat c + unat ?t) = bn_val (take ?n w) + ?D + bn_base ^ ?n * unat ?t"
      using a(3) by (simp add: distrib_left)
    also have "\<dots> = ?W mod ?D + bn_base ^ ?n * bn_base" using wv val by (simp add: ac_simps)
    finally have eq: "bn_val w' + bn_base ^ ?n * (unat c + unat ?t) = ?W mod ?D + bn_base ^ ?n * bn_base" .
    have "bn_val w' < bn_base ^ ?n" using bn_val_less [of w'] a(1) by simp
    moreover have "?W mod ?D < bn_base ^ ?n" using mod_less_divisor [OF D, of ?W] bn_val_less [of sdiv] by simp
    ultimately have low: "bn_val w' = ?W mod ?D" and top: "unat c + unat ?t = bn_base"
      using digits_unique [OF eq] by blast+
    have "unat c = 1" using top a(2) limb_less [of ?t] by (cases "unat c = 0") (auto simp del: limb_less)
    then have "c \<noteq> 0" "unat (?t + 1) = 0" using top by (auto simp: unat_word_ariths bn_base_def)
    then have "div_window sdiv i snum = (take i snum @ (w' @ [?t + 1]) @ drop (i + ?n + 1) snum, ?q - 1)"
      unfolding div_window_def Let_def mul prod.case sub add using False \<open>c \<noteq> 0\<close> by simp
    moreover have "bn_val (w' @ [?t + 1]) = ?W mod ?D" using low \<open>unat (?t + 1) = 0\<close> by (simp add: bn_val_append)
    ultimately show thesis using that [of "w' @ [?t + 1]" "?q - 1"] a(1) q1 by simp
  qed
qed


text \<open>Where the limbs above are less than the divisor, the window has all that is left.\<close>

lemma last_window:
  assumes less: "bn_val (drop (Suc j) xs) < D" and j: "j + n < length xs" and D: "D < bn_base ^ n"
  shows "bn_val (drop j xs) = bn_val (take (n + 1) (drop j xs))" and "bn_val (take (n + 1) (drop j xs)) < D * bn_base"
    and "bn_val (drop (j + n + 1) xs) = 0"
proof -
  let ?w = "take (n + 1) (drop j xs)" and ?rest = "drop (j + n + 1) xs"
  have len: "length ?w = n + 1" using j by simp
  have "drop j xs = xs ! j # drop (Suc j) xs" using j by (intro Cons_nth_drop_Suc [symmetric]) simp
  then have d: "bn_val (drop j xs) = unat (xs ! j) + bn_base * bn_val (drop (Suc j) xs)" by simp
  have "bn_base * (bn_val (drop (Suc j) xs) + 1) \<le> bn_base * D" using less by (intro mult_le_mono2) simp
  with d have lt: "bn_val (drop j xs) < D * bn_base" using limb_less [of "xs ! j"] by (simp add: mult.commute del: limb_less)
  have "drop j xs = ?w @ ?rest" using append_take_drop_id [of "n + 1" "drop j xs"] by (simp add: ac_simps)
  then have v: "bn_val (drop j xs) = bn_val ?w + bn_base ^ (n + 1) * bn_val ?rest"
    using bn_val_append [of ?w ?rest] len by simp
  have "D * bn_base < bn_base ^ (n + 1)" using D by simp
  with lt v have "bn_base ^ (n + 1) * bn_val ?rest < bn_base ^ (n + 1) * 1" by linarith
  then have "bn_val ?rest < 1" by (rule mult_less_cancel1 [THEN iffD1, THEN conjunct2])
  then show "bn_val ?rest = 0" by simp
  with v lt show "bn_val (drop j xs) = bn_val ?w" "bn_val ?w < D * bn_base" by simp_all
qed

text \<open>The windows below hold the remainder, and so the invariant.\<close>

lemma div_loop_val:
  assumes "normalised sdiv" and "bn_val (drop (Suc i) snum) < bn_val sdiv" and "i + length sdiv < length snum"
    and "div_loop sdiv i snum qs = (snum', qs')"
  obtains new where "qs' = new @ qs" and "length new = i" and "length snum' = length snum" and "take 1 snum' = take 1 snum"
    and "bn_val (drop 1 snum) = bn_val sdiv * bn_val new + bn_val (drop 1 snum')" and "bn_val (drop 1 snum') < bn_val sdiv"
proof -
  have "\<exists>new. qs' = new @ qs \<and> length new = i \<and> length snum' = length snum \<and> take 1 snum' = take 1 snum \<and>
      bn_val (drop 1 snum) = bn_val sdiv * bn_val new + bn_val (drop 1 snum') \<and> bn_val (drop 1 snum') < bn_val sdiv"
    using assms
  proof (induction sdiv i snum qs arbitrary: snum' qs' rule: div_loop.induct)
    case (1 sdiv i snum qs)
    let ?n = "length sdiv" and ?D = "bn_val sdiv" and ?w = "take (length sdiv + 1) (drop (Suc i) snum)"
    let ?rest = "drop (Suc i + ?n + 1) snum"
    have D: "0 < ?D" using "1.prems"(2) by (intro gr0I) simp
    have "Suc i + ?n < length snum" using "1.prems"(3) .
    note win = last_window [OF "1.prems"(2) this bn_val_less]
    obtain w q where step: "div_window sdiv (Suc i) snum = (take (Suc i) snum @ w @ ?rest, q)" "length w = ?n + 1"
      "bn_val w = bn_val ?w mod ?D" "unat q = bn_val ?w div ?D"
      by (rule div_window_val [OF "1.prems"(1,3) _ win(2)]) simp
    let ?s = "take (Suc i) snum @ w @ ?rest"
    have ls: "length (take (Suc i) snum) = Suc i" "length ?s = length snum" using "1.prems"(3) step(2) by simp_all
    have ds: "drop (Suc i) ?s = w @ ?rest" using ls(1) by simp
    have vs: "bn_val (drop (Suc i) ?s) = bn_val ?w mod ?D" unfolding ds bn_val_append win(3) step(3) by simp
    have "div_loop sdiv i ?s (q # qs) = (snum', qs')" using "1.prems"(4) step(1) by simp
    moreover have "bn_val (drop (Suc i) ?s) < ?D" unfolding vs using D by simp
    moreover have "i + ?n < length ?s" using "1.prems"(3) ls(2) by simp
    ultimately obtain new where new: "qs' = new @ q # qs" "length new = i" "length snum' = length snum" "take 1 snum' = take 1 ?s"
      "bn_val (drop 1 ?s) = ?D * bn_val new + bn_val (drop 1 snum')" "bn_val (drop 1 snum') < ?D"
      using "1.IH" [OF step(1) [symmetric] "1.prems"(1)] ls(2) by metis
    have low: "bn_val (drop 1 xs) = bn_val (take i (drop 1 xs)) + bn_base ^ i * bn_val (drop (Suc i) xs)" if "Suc i \<le> length xs" for xs
      using bn_val_take_drop [of i "drop 1 xs"] that by simp
    have "take i (drop 1 ?s) = take i (drop 1 snum)" using ls(1) by (simp add: drop_take)
    then have "bn_val (drop 1 ?s) + bn_base ^ i * (?D * unat q) = bn_val (drop 1 snum)"
      using low [of ?s] low [of snum] "1.prems"(3) ls(2) vs win(1) step(4) by (simp flip: distrib_left)
    moreover have "take 1 ?s = take 1 snum" using "1.prems"(3) by (cases snum) simp_all
    ultimately show ?case using new by (intro exI [of _ "new @ [q]"]) (simp add: bn_val_append algebra_simps)
  qed auto
  with that show thesis by blast
qed


section \<open>Truncating division\<close>

lemma lshift_total:
  assumes "0 \<le> n" and "bn_width a + nat n div 64 + 1 \<le> N"
  shows "bn_total malloc N (BN_lshift malloc a n)"
  unfolding bn_total_def
proof (intro allI impI)
  fix r assume "bn_free malloc N r"
  then have "bn_free malloc N (r\<lparr>bn_neg := bn_neg a\<rparr>)" by simp
  then obtain r1 where "bn_wexpand malloc (bn_width a + nat n div 64 + 1) (r\<lparr>bn_neg := bn_neg a\<rparr>) = (Some (), r1)" "bn_free malloc N r1"
    by (rule wexpandE [OF _ assms(2)])
  with assms(1) show "\<exists>r'. BN_lshift malloc a n r = (Some (), r') \<and> bn_free malloc N r'"
    by (simp add: BN_lshift_def and_then_Some Let_def)
qed

lemma rshift_total: "0 \<le> n \<Longrightarrow> bn_width a \<le> N \<Longrightarrow> bn_total malloc N (BN_rshift malloc a n)"
  unfolding BN_rshift_def by (auto intro!: bn_returns)

lemma normal_width:
  assumes "bn_normal bn" and "bn_abs bn < bn_base ^ k"
  shows "bn_width bn \<le> k"
proof (rule ccontr)
  assume "\<not> bn_width bn \<le> k"
  then have w: "k \<le> bn_width bn - 1" "bn_width bn \<noteq> 0" by simp_all
  then have "bn_base ^ k \<le> bn_base ^ (bn_width bn - 1)" by (intro power_increasing) simp_all
  with assms w(2) show False by (auto simp: bn_normal_iff)
qed

lemma normalised_words:
  assumes bn: "bn_normal bn" and bits: "2 ^ (64 * k - 1) \<le> bn_abs bn" "bn_abs bn < 2 ^ (64 * k)" and k: "0 < k"
  shows "normalised (bn_words bn)" and "bn_width bn = k"
proof -
  have B: "bn_base ^ j = 2 ^ (64 * j)" for j by (simp add: bn_base_def power_mult)
  have ok: "bn_ok bn" using bn by (rule bn_normal_ok)
  have le: "bn_width bn \<le> k" by (rule normal_width [OF bn]) (use bits(2) in \<open>simp add: B\<close>)
  have "(2 :: nat) ^ (64 * k - 1) < 2 ^ (64 * bn_width bn)" using bits(1) bn_abs_less [of bn] unfolding B by linarith
  then have "64 * k - 1 < 64 * bn_width bn" by (rule power_less_imp_less_exp [rotated]) simp
  with le k show w: "bn_width bn = k" by linarith
  let ?t = "bn_d bn ! (k - 1)"
  have len: "k \<le> length (bn_d bn)" using ok w by (simp add: bn_ok_def)
  have abs: "bn_abs bn = bn_val (take (k - 1) (bn_d bn)) + bn_base ^ (k - 1) * unat ?t"
    using top_limb [OF k len] w by (simp add: bn_abs_def)
  have "bn_val (take (k - 1) (bn_d bn)) < bn_base ^ (k - 1)"
    using bn_val_less [of "take (k - 1) (bn_d bn)"] len by simp
  moreover have "64 * k - 1 = 64 * (k - 1) + 63" using k by simp
  then have "bn_base ^ (k - 1) * 2 ^ 63 \<le> bn_abs bn" using bits(1) unfolding B by (simp only: power_add)
  ultimately have "bn_base ^ (k - 1) * 2 ^ 63 < bn_base ^ (k - 1) * (unat ?t + 1)"
    unfolding abs distrib_left mult_1_right by linarith
  then have "2 ^ 63 < unat ?t + 1" by (rule mult_less_cancel1 [THEN iffD1, THEN conjunct2])
  moreover have "last (bn_words bn) = ?t" using len k by (subst last_conv_nth) (auto simp: w)
  ultimately show "normalised (bn_words bn)" using len k by (auto simp: normalised_def bn_base_def w)
qed


lemma set_minimal_nonneg:
  assumes "bn_normal bn"
  shows "bn_normal ((bn_set_minimal_width bn)\<lparr>bn_neg := False\<rparr>)" and "bn_abs ((bn_set_minimal_width bn)\<lparr>bn_neg := False\<rparr>) = bn_abs bn"
proof -
  note m = set_minimal_width [OF bn_normal_ok [OF assms]]
  show "bn_normal ((bn_set_minimal_width bn)\<lparr>bn_neg := False\<rparr>)" using bn_normal_set_neg [OF m(4)] by simp
  show "bn_abs ((bn_set_minimal_width bn)\<lparr>bn_neg := False\<rparr>) = bn_abs bn" using m(1) by simp
qed

lemma abs_of_int: "bn_int x = 2 ^ n * bn_int y \<Longrightarrow> bn_abs x = 2 ^ n * bn_abs y"
proof -
  assume "bn_int x = 2 ^ n * bn_int y"
  then have "\<bar>bn_int x\<bar> = 2 ^ n * \<bar>bn_int y\<bar>" by (simp add: abs_mult)
  then have "int (bn_abs x) = int (2 ^ n * bn_abs y)" by (simp add: bn_int_def split: if_splits)
  then show ?thesis by (simp only: of_nat_eq_iff)
qed

lemma lshift_returns:
  assumes "bn_temp malloc N r" and "bn_ok a" and "bn_width a + n div 64 + 1 \<le> N"
  obtains r' where "BN_lshift malloc a (int n) r = (Some (), r')" and "bn_abs r' = 2 ^ n * bn_abs a" and "bn_normal r'"
    and "bn_free malloc N r'"
proof -
  have r: "bn_ok r" "bn_free malloc N r" using assms(1) by (simp_all add: bn_temp_def)
  have "bn_total malloc N (BN_lshift malloc a (int n))" by (rule lshift_total) (use assms(3) in simp_all)
  then obtain r' where r': "BN_lshift malloc a (int n) r = (Some (), r')" "bn_free malloc N r'" using r(2) by (rule bn_totalD)
  note v = BN_lshift_val [OF r'(1) assms(2) r(1), unfolded nat_int]
  show thesis by (rule that [OF r'(1) abs_of_int [OF v(2)] v(3) r'(2)])
qed

lemma shifted_bits:
  fixes x :: nat
  assumes "0 < b" and "2 ^ (b - 1) \<le> x" and "x < 2 ^ b" and k: "b + s = 64 * k"
  shows "2 ^ (64 * k - 1) \<le> 2 ^ s * x" and "2 ^ s * x < 2 ^ (64 * k)"
proof -
  have "64 * k - 1 = s + (b - 1)" using assms(1) k by simp
  then show "2 ^ (64 * k - 1) \<le> 2 ^ s * x" using assms(2) by (simp only: power_add mult_le_mono2)
  show "2 ^ s * x < 2 ^ (64 * k)" unfolding k [symmetric] using assms(3) by (simp add: power_add mult.commute)
qed

lemma div_normalise_returns:
  assumes ok: "bn_ok numerator" "bn_ok divisor" and pos: "bn_abs divisor \<noteq> 0"
    and N: "bn_width numerator + bn_width divisor + 8 \<le> N" and sdiv: "bn_temp malloc N sdiv" and snum: "bn_temp malloc N snum"
  obtains s sdiv' snum' where "div_normalise malloc numerator divisor sdiv snum = Some (s + 64, sdiv', snum')"
    and "normalised (bn_words sdiv')" and "bn_abs sdiv' = 2 ^ s * bn_abs divisor" and "bn_abs snum' = 2 ^ (s + 64) * bn_abs numerator"
    and "bn_width sdiv' + 2 \<le> bn_width snum'" and "bn_width snum' \<le> bn_width numerator + bn_width divisor + 4"
    and "last (bn_words snum') = 0" and "bn_ok sdiv'" and "bn_ok snum'" and "bn_free malloc N snum'"
    and "\<not> bn_neg snum'"
proof -
  let ?b = "BN_num_bits divisor" and ?s = "64 - BN_num_bits divisor mod 64"
  note b = BN_num_bits_val [OF ok(2)]
  have "bn_width divisor + ?s div 64 + 1 \<le> N" "bn_width numerator + (?s + 64) div 64 + 1 \<le> N" using N by simp_all
  note shifts = lshift_returns [OF sdiv ok(2) this(1)] lshift_returns [OF snum ok(1) this(2)]
  obtain d1 where d1: "BN_lshift malloc divisor (int ?s) sdiv = (Some (), d1)" "bn_abs d1 = 2 ^ ?s * bn_abs divisor" "bn_normal d1"
    by (rule shifts(1))
  obtain n1 where n1: "BN_lshift malloc numerator (int (?s + 64)) snum = (Some (), n1)"
    "bn_abs n1 = 2 ^ (?s + 64) * bn_abs numerator" "bn_normal n1" "bn_free malloc N n1"
    by (rule shifts(2))
  let ?d = "(bn_set_minimal_width d1)\<lparr>bn_neg := False\<rparr>"
  note dm = set_minimal_nonneg [OF d1(3)]
  have da: "bn_abs ?d = 2 ^ ?s * bn_abs divisor" unfolding dm(2) by (rule d1(2))
  let ?k = "?b div 64 + 1"
  have k: "?b + ?s = 64 * ?k" 
  proof -
    have "?b + ?s = 64 * (?b div 64) + (?b mod 64 + ?s)" by (simp only: add.assoc [symmetric] mult_div_mod_eq)
    also have "?b mod 64 + ?s = 64" by (simp add: less_imp_le)
    finally show ?thesis by (simp only: distrib_left mult_1_right)
  qed
  have "0 < ?b" "2 ^ (?b - 1) \<le> bn_abs divisor" using b(2) [OF pos] by simp_all
  note bits = shifted_bits [OF this b(1) k, folded da]
  note nd = normalised_words [OF dm(1) bits]
  let ?n = "(bn_set_minimal_width n1)\<lparr>bn_neg := False\<rparr>"
  note nm = set_minimal_nonneg [OF n1(3)]
  have na: "bn_abs ?n = 2 ^ (?s + 64) * bn_abs numerator" unfolding nm(2) by (rule n1(2))
  let ?w = "if bn_width ?n \<le> bn_width ?d + 1 then bn_width ?d + 2 else bn_width ?n + 1"
  have "bn_abs ?n < bn_base ^ (bn_width numerator + 2)"
  proof -
    have "bn_abs ?n < 2 ^ (?s + 64) * bn_base ^ bn_width numerator" unfolding na using bn_abs_less [of numerator] by simp
    then have "bn_abs ?n < bn_base ^ bn_width numerator * 2 ^ (?s + 64)" by (simp only: mult.commute)
    also have "(2 :: nat) ^ (?s + 64) \<le> 2 ^ 128" by (rule power_increasing) simp_all
    then have "bn_base ^ bn_width numerator * 2 ^ (?s + 64) \<le> bn_base ^ bn_width numerator * bn_base ^ 2"
      by (intro mult_le_mono2) (simp add: bn_base_def)
    finally show ?thesis by (simp only: power_add)
  qed
  then have wn: "bn_width ?n \<le> bn_width numerator + 2" by (rule normal_width [OF nm(1)])
  have "2 ^ (?b - 1) \<le> bn_abs divisor" using b(2) [OF pos] by simp
  also have "\<dots> < 2 ^ (64 * bn_width divisor)" using bn_abs_less [of divisor] by (simp add: bn_base_def power_mult)
  finally have "?b - 1 < 64 * bn_width divisor" by (rule power_less_imp_less_exp [rotated]) simp
  then have "?b div 64 \<le> bn_width divisor" by (metis Suc_diff_1 Suc_leI b(2) div_le_mono nonzero_mult_div_cancel_left pos zero_neq_numeral)
  then have wd: "bn_width ?d \<le> bn_width divisor + 1" using nd(2) by simp
  have wN: "?w \<le> bn_width numerator + bn_width divisor + 4" using wn wd by simp
  then have "?w \<le> N" using N by simp
  moreover have "bn_free malloc N ?n" using n1(4) by simp
  ultimately obtain t where t: "bn_wexpand malloc ?w ?n = (Some (), t)" "bn_free malloc N t" by (metis wexpandE)
  let ?r = "put_words (bn_words ?n @ replicate (?w - bn_width ?n) 0) t"
  have len: "length (bn_words ?n) = bn_width ?n" using bn_normal_ok [OF nm(1)] by (simp add: bn_ok_def)
  show thesis
  proof (rule that)
    show "div_normalise malloc numerator divisor sdiv snum = Some (?s + 64, ?d, ?r)"
      unfolding div_normalise_def Let_def d1(1) n1(1) option.case prod.case t(1) ..
    show "bn_abs ?r = 2 ^ (?s + 64) * bn_abs numerator" 
      unfolding na [symmetric] bn_abs_put_words bn_val_append bn_val_replicate_0 bn_abs_def [of ?n] by (simp only: mult_0_right add_0_right)
    show "bn_width ?d + 2 \<le> bn_width ?r" "bn_width ?r \<le> bn_width numerator + bn_width divisor + 4"
      using wN unfolding put_words length_append len length_replicate by simp_all
    show "last (bn_words ?r) = 0" unfolding put_words by simp
    show "bn_free malloc N ?r" using t(2) by simp
    show "\<not> bn_neg ?r" using t(1) by (auto simp: bn_wexpand_def split: if_splits)
  qed (use nd(1) da bn_normal_ok [OF dm(1)] in simp_all)
qed


lemma quotient_unique:
  assumes "x = D * q + r" and "r < (D :: nat)"
  shows "q = x div D \<and> r = x mod D"
  using assms by (cases "D = 0") (simp_all add: div_mult_self4 mod_mult_self4)

lemma div_core:
  assumes sdiv: "normalised sdiv" "bn_val sdiv = 2 ^ s * d" and snum: "bn_val snum = 2 ^ (s + 64) * m"
    and len: "length sdiv + 2 \<le> length snum" and top: "last snum = 0"
    and run: "div_loop sdiv (length snum - length sdiv - 1) snum [] = (ws, qs)"
  shows "bn_val qs = m div d" and "bn_val ws div 2 ^ (s + 64) = m mod d" and "length ws = length snum"
proof -
  let ?n = "length sdiv" and ?i = "length snum - length sdiv - 1"
  have ne: "sdiv \<noteq> []" "snum \<noteq> []" using sdiv(1) len by (auto simp: normalised_def)
  have "1 \<le> unat (last sdiv)" using half_base [of "unat (last sdiv)"] sdiv(1) by (simp add: normalised_def)
  then have "bn_base ^ (?n - 1) * 1 \<le> bn_base ^ (?n - 1) * unat (last sdiv)" by (rule mult_le_mono2)
  also have "\<dots> \<le> bn_val (butlast sdiv @ [last sdiv])" unfolding bn_val_append by simp
  finally have ge: "bn_base ^ (?n - 1) \<le> bn_val sdiv" using ne(1) by simp
  let ?h = "drop (Suc ?i) snum"
  have lh: "length ?h = ?n" using len by simp
  then have h: "?h \<noteq> []" using ne(1) by (intro notI) simp
  then have "last ?h = 0" using top by (simp add: last_drop)
  then have "bn_val (butlast ?h @ [last ?h]) = bn_val (butlast ?h)" unfolding bn_val_append by simp
  then have "bn_val ?h = bn_val (butlast ?h)" unfolding append_butlast_last_id [OF h] .
  also have "\<dots> < bn_base ^ (?n - 1)" using bn_val_less [of "butlast ?h"] unfolding length_butlast lh .
  finally have less: "bn_val ?h < bn_val sdiv" using ge by simp
  have "?i + ?n < length snum" using len by simp
  from div_loop_val [OF sdiv(1) less this run] obtain new where new: "qs = new @ []" "length ws = length snum" "take 1 ws = take 1 snum"
    "bn_val (drop 1 snum) = bn_val sdiv * bn_val new + bn_val (drop 1 ws)" "bn_val (drop 1 ws) < bn_val sdiv" .
  have first: "bn_val xs = unat (hd (take 1 xs)) + bn_base * bn_val (drop 1 xs)" if "xs \<noteq> []" for xs using that by (cases xs) simp_all
  have snum': "bn_val snum = 0 + bn_base * (2 ^ s * m)" unfolding snum by (simp add: bn_base_def power_add)
  have "unat (hd (take 1 snum)) + bn_base * bn_val (drop 1 snum) = 0 + bn_base * (2 ^ s * m)"
    unfolding first [OF ne(2), symmetric] by (rule snum')
  then have z: "unat (hd (take 1 snum)) = 0" and m: "bn_val (drop 1 snum) = 2 ^ s * m"
    by (rule digits_unique; simp)+
  have sd: "0 < bn_val sdiv" using new(5) by simp
  have "bn_val new = (2 ^ s * m) div (2 ^ s * d) \<and> bn_val (drop 1 ws) = (2 ^ s * m) mod (2 ^ s * d)"
    using new(4,5) unfolding m sdiv(2) by (rule quotient_unique)
  then have q: "bn_val new = m div d" and r: "bn_val (drop 1 ws) = 2 ^ s * (m mod d)" by simp_all
  show "bn_val qs = m div d" "length ws = length snum" using new(1,2) q by simp_all
  have ws: "ws \<noteq> []" using new(2) ne(2) by auto
  have "bn_val ws = 2 ^ (s + 64) * (m mod d)" 
    unfolding first [OF ws] new(3) z r by (simp add: bn_base_def power_add)
  then show "bn_val ws div 2 ^ (s + 64) = m mod d" by simp
qed


text \<open>An output that is wanted gets the number.\<close>

definition out_is :: "(nat \<Rightarrow> bool) \<Rightarrow> nat \<Rightarrow> bignum option \<Rightarrow> bignum option \<Rightarrow> int \<Rightarrow> bool" where
  "out_is malloc N x x' k \<longleftrightarrow>
    (case x of None \<Rightarrow> x' = None
     | Some _ \<Rightarrow> (\<exists>y. x' = Some y \<and> bn_normal y \<and> bn_int y = k \<and> bn_free malloc N y))"

definition div_ctx_ok :: "(nat \<Rightarrow> bool) \<Rightarrow> nat \<Rightarrow> div_ctx \<Rightarrow> bool" where
  "div_ctx_ok malloc N ctx \<longleftrightarrow> (\<exists>tmp snum sdiv res. ctx = (Some tmp, Some snum, Some sdiv, Some res) \<and>
    bn_temp malloc N tmp \<and> bn_temp malloc N snum \<and> bn_temp malloc N sdiv \<and> bn_temp malloc N res)"

lemma rem_sign:
  assumes r: "bn_normal r" "bn_int r = int k" and k: "k \<noteq> 0 \<Longrightarrow> neg = (s < 0)" "k \<noteq> 0 \<Longrightarrow> s \<noteq> 0"
  defines "r' \<equiv> if BN_is_zero r then r else r\<lparr>bn_neg := neg\<rparr>"
  shows "bn_normal r'" and "bn_int r' = sgn s * int k" and "bn_free malloc N r \<Longrightarrow> bn_free malloc N r'"
proof -
  have a: "bn_abs r = k" by (rule bn_int_eq_int [OF r(2)])
  show "bn_normal r'" using r(1) by (simp add: r'_def bn_normal_set_neg is_zero_iff)
  show "bn_int r' = sgn s * int k" using a k r(2) by (auto simp: r'_def is_zero_iff bn_int_set_neg sgn_if)
  show "bn_free malloc N r \<Longrightarrow> bn_free malloc N r'" by (simp add: r'_def)
qed

text \<open>The sign of the remainder is that of the numerator, or of the quotient where these are one object.\<close>

definition rem_sgn :: "bool \<Rightarrow> bignum \<Rightarrow> bignum \<Rightarrow> int" where
  "rem_sgn q_same numerator divisor =
    (if q_same then sgn (bn_int numerator) * sgn (bn_int divisor) else sgn (bn_int numerator))"

lemma sgn_int: "bn_abs x \<noteq> 0 \<Longrightarrow> sgn (bn_int x) = (if bn_neg x then - 1 else 1)"
  by (simp add: bn_int_def)

theorem BN_div_returns:
  assumes ok: "bn_ok numerator" "bn_ok divisor" and pos: "bn_abs divisor \<noteq> 0"
    and N: "bn_width numerator + bn_width divisor + 8 \<le> N" and ctx: "div_ctx_ok malloc N ctx"
    and quo: "\<And>x. quo = Some x \<Longrightarrow> bn_temp malloc N x" and rem: "\<And>x. rem = Some x \<Longrightarrow> bn_temp malloc N x"
  obtains quo' rem' where "BN_div malloc numerator divisor q_same ctx (quo, rem) = (Some (), quo', rem')"
    and "out_is malloc N quo quo' (sgn (bn_int numerator) * sgn (bn_int divisor) * int (bn_abs numerator div bn_abs divisor))"
    and "out_is malloc N rem rem' (rem_sgn q_same numerator divisor * int (bn_abs numerator mod bn_abs divisor))"
proof -
  let ?m = "bn_abs numerator" and ?d = "bn_abs divisor"
  obtain tmp snum sdiv res where c: "ctx = (Some tmp, Some snum, Some sdiv, Some res)" "bn_temp malloc N tmp"
    "bn_temp malloc N snum" "bn_temp malloc N sdiv" "bn_temp malloc N res"
    using ctx by (auto simp: div_ctx_ok_def)
  obtain res1 where res1: "(if quo = None then Some res else quo) = Some res1" "bn_temp malloc N res1"
    using quo c(5) by (cases quo) auto
  obtain s sd sn where norm: "div_normalise malloc numerator divisor sdiv snum = Some (s + 64, sd, sn)"
    "normalised (bn_words sd)" "bn_abs sd = 2 ^ s * ?d" "bn_abs sn = 2 ^ (s + 64) * ?m"
    "bn_width sd + 2 \<le> bn_width sn" "bn_width sn \<le> bn_width numerator + bn_width divisor + 4"
    "last (bn_words sn) = 0" "bn_ok sd" "bn_ok sn" "bn_free malloc N sn" "\<not> bn_neg sn"
    by (rule div_normalise_returns [OF ok pos N c(4,3)])
  let ?loop = "bn_width sn - bn_width sd" and ?sign = "bn_neg numerator \<noteq> bn_neg divisor"
  have wsd: "length (bn_words sd) = bn_width sd" and wsn: "length (bn_words sn) = bn_width sn"
    using norm(8,9) by (simp_all add: bn_ok_def)
  have loop: "?loop - 1 \<noteq> 0" "?loop + 1 \<le> N" "bn_width sd + 1 \<le> N" using norm(5,6) N by simp_all
  have "bn_free malloc N (res1\<lparr>bn_neg := ?sign\<rparr>)" using res1(2) by (simp add: bn_temp_def)
  then obtain r2 where r2: "bn_wexpand malloc (?loop + 1) (res1\<lparr>bn_neg := ?sign\<rparr>) = (Some (), r2)" "bn_free malloc N r2"
    by (rule wexpandE [OF _ loop(2)])
  have neg: "bn_neg r2 = ?sign" using r2(1) by (auto simp: bn_wexpand_def split: if_splits)
  obtain t2 where t2: "bn_wexpand malloc (bn_width sd + 1) tmp = (Some (), t2)"
    using c(2) by (auto simp: bn_temp_def intro: wexpandE [OF _ loop(3)])
  obtain ws qs where run: "div_loop (bn_words sd) (?loop - 1) (bn_words sn) [] = (ws, qs)" by (rule prod.exhaust)
  have v: "bn_val qs = ?m div ?d" "bn_val ws div 2 ^ (s + 64) = ?m mod ?d" "length ws = bn_width sn"
    using div_core [OF norm(2) _ _ _ norm(7), of s ?d ?m ws qs] norm(3-5) run unfolding wsd wsn by (simp_all add: bn_abs_def)
  let ?res = "(put_words qs r2)\<lparr>bn_neg := (?loop - 1 \<noteq> 0 \<and> bn_neg r2)\<rparr>" and ?sn = "bn_set_minimal_width (put_words ws sn)"
  let ?q = "bn_set_minimal_width ?res"
  have sn: "bn_normal ?sn" "bn_abs ?sn = bn_val ws" "\<not> bn_neg ?sn" "bn_width ?sn \<le> bn_width sn"
    using set_minimal_width [of "put_words ws sn"] bn_minimal_width(1) [of "put_words ws sn"] norm(11) v(3)
    by (simp_all add: bn_set_minimal_width_def Let_def)
  have q: "bn_normal ?q" "bn_int ?q = sgn (bn_int numerator) * sgn (bn_int divisor) * int (?m div ?d)" "bn_free malloc N ?q"

  proof -
    have ok: "bn_ok ?res" and a: "bn_abs ?res = ?m div ?d" and n: "bn_neg ?res = ?sign"
      using loop(1) neg v(1) by simp_all
    note m = set_minimal_width [OF ok]
    show "bn_normal ?q" by (rule m(4))
    show "bn_int ?q = sgn (bn_int numerator) * sgn (bn_int divisor) * int (?m div ?d)"
    proof (cases "?m = 0")
      case True
      then show ?thesis unfolding m(3) bn_int_def [of ?res] a by simp
    next
      case False
      then show ?thesis unfolding m(3) bn_int_def [of ?res] a n sgn_int [OF False] sgn_int [OF pos] by simp
    qed
    show "bn_free malloc N ?q" using r2(2) by simp
  qed
  let ?out = "\<lambda>y. if quo = None then None else Some y"
  have out: "out_is malloc N quo (?out ?q) (sgn (bn_int numerator) * sgn (bn_int divisor) * int (?m div ?d))"
    using q by (auto simp: out_is_def split: option.splits)
  have minimal: "\<not> ((0 < bn_minimal_width numerator \<and> bn_d numerator ! (bn_minimal_width numerator - 1) = 0) \<or>
       (0 < bn_minimal_width divisor \<and> bn_d divisor ! (bn_minimal_width divisor - 1) = 0))"
    using bn_minimal_width(3) [OF ok(1)] bn_minimal_width(3) [OF ok(2)] by auto
  have pos': "\<not> BN_is_zero divisor" using pos by (simp add: is_zero_iff)
  note unfold = BN_div_def prod.case if_not_P [OF minimal] if_not_P [OF pos'] c(1) res1(1) option.case norm(1) Let_def r2(1) t2 run
  show thesis
  proof (cases rem)
    case None
    have "BN_div malloc numerator divisor q_same ctx (quo, rem) = (Some (), ?out ?q, None)" unfolding unfold None ..
    then show thesis by (rule that [OF _ out]) (simp add: out_is_def None)
  next
    case (Some r)
    have "bn_width ?sn \<le> N" using sn(4) norm(6) N by simp
    with rem [OF Some] obtain r3 where r3: "BN_rshift malloc ?sn (int (s + 64)) r = (Some (), r3)" "bn_free malloc N r3"
      using bn_totalD [OF rshift_total] by (metis bn_temp_def of_nat_0_le_iff)
    note r3v = BN_rshift_val [OF r3(1), unfolded nat_int]
    have "bn_int ?sn = int (bn_val ws)" using sn(2,3) by (simp add: bn_int_def)
    then have r3i: "bn_int r3 = int (?m mod ?d)" unfolding r3v(2) v(2) [symmetric] by (simp add: sgn_if zdiv_int)
    let ?neg = "if q_same then bn_neg ?res else bn_neg numerator"
    have "BN_div malloc numerator divisor q_same ctx (quo, rem) =
        (Some (), ?out ?q, Some (if BN_is_zero r3 then r3 else r3\<lparr>bn_neg := ?neg\<rparr>))"
      unfolding unfold Some r3(1) ..
    then show thesis
    proof (rule that [OF _ out])
      have nz: "?m \<noteq> 0" if "?m mod ?d \<noteq> 0" using that by (intro notI) simp
      have sign: "?neg = (rem_sgn q_same numerator divisor < 0)" "rem_sgn q_same numerator divisor \<noteq> 0" if "?m mod ?d \<noteq> 0"
        using loop(1) neg sgn_int [OF nz [OF that]] sgn_int [OF pos] by (simp_all add: rem_sgn_def)
      have "rem_sgn q_same numerator divisor = sgn (rem_sgn q_same numerator divisor)" by (simp add: rem_sgn_def sgn_mult)
      with rem_sign [OF r3v(3) r3i sign] r3(2)
      show "out_is malloc N rem (Some (if BN_is_zero r3 then r3 else r3\<lparr>bn_neg := ?neg\<rparr>)) (rem_sgn q_same numerator divisor * int (?m mod ?d))"
        by (simp add: out_is_def Some)
    qed
  qed
qed

text \<open>What the signs of the quotient and the remainder amount to.\<close>

lemma signed_division:
  assumes d: "bn_abs d \<noteq> 0" and q: "bn_int q = sgn (bn_int m) * sgn (bn_int d) * int (bn_abs m div bn_abs d)"
    and r: "bn_int r = sgn (bn_int m) * int (bn_abs m mod bn_abs d)"
  shows "bn_int m = bn_int q * bn_int d + bn_int r" and "\<bar>bn_int r\<bar> < \<bar>bn_int d\<bar>"
    and "bn_int r \<noteq> 0 \<longrightarrow> sgn (bn_int r) = sgn (bn_int m)"
proof -
  let ?m = "bn_abs m" and ?d = "bn_abs d"
  have di: "bn_int d = sgn (bn_int d) * int ?d" and mi: "bn_int m = sgn (bn_int m) * int ?m" and "sgn (bn_int d) * sgn (bn_int d) = 1"
    using d by (auto simp: bn_int_def sgn_if)
  have "bn_int q * bn_int d = sgn (bn_int m) * (sgn (bn_int d) * sgn (bn_int d)) * int (?m div ?d * ?d)"
    unfolding q by (subst di) simp
  then have "bn_int q * bn_int d + bn_int r = sgn (bn_int m) * int (?m div ?d * ?d + ?m mod ?d)"
    unfolding r \<open>_ * _ = 1\<close> by (simp only: mult_1_right of_nat_add distrib_left)
  then show "bn_int m = bn_int q * bn_int d + bn_int r" using mi by simp
  have "?m mod ?d < ?d" using d by simp
  then show "\<bar>bn_int r\<bar> < \<bar>bn_int d\<bar>" unfolding r by (auto simp: abs_mult bn_int_def [of d] sgn_if)
  show "bn_int r \<noteq> 0 \<longrightarrow> sgn (bn_int r) = sgn (bn_int m)" unfolding r by (simp add: sgn_mult)
qed

end
