(* ===== verification/Bn_Div_Mod.thy ===== *)
theory Bn_Div_Mod
  imports Bn_Div
begin

text \<open>
  Arithmetic modulo a number of either sign, and division by words and by powers of two, on top
  of the long division: the rest of \<open>fipsmodule/bn/div.c\<close>.
\<close>

section \<open>The operations\<close>

subsection \<open>Modulo a number\<close>

text \<open>The remainder only; \<open>BN_mod\<close> is a macro of \<open>bn.h\<close>.\<close>

definition BN_mod :: "(nat \<Rightarrow> bool) \<Rightarrow> bignum \<Rightarrow> bignum \<Rightarrow> div_ctx \<Rightarrow> unit bn_oper" where
  "BN_mod malloc numerator divisor ctx r =
    (case BN_div malloc numerator divisor False ctx (None, Some r) of
       (ret, _, Some r) \<Rightarrow> (ret, r) | (ret, _, None) \<Rightarrow> (ret, r))"

definition BN_nnmod :: "(nat \<Rightarrow> bool) \<Rightarrow> bignum \<Rightarrow> bignum \<Rightarrow> div_ctx \<Rightarrow> unit bn_oper" where
  "BN_nnmod malloc m d ctx =
    and_then (BN_mod malloc m d ctx) (\<lambda>_ r.
      if \<not> bn_neg r then (Some (), r)
      else if bn_neg d then BN_sub malloc r d r else BN_add malloc r d r)"

definition BN_mod_add :: "(nat \<Rightarrow> bool) \<Rightarrow> bignum \<Rightarrow> bignum \<Rightarrow> bignum \<Rightarrow> div_ctx \<Rightarrow> unit bn_oper" where
  "BN_mod_add malloc a b m ctx = and_then (BN_add malloc a b) (\<lambda>_ r. BN_nnmod malloc r m ctx r)"

definition BN_mod_sub :: "(nat \<Rightarrow> bool) \<Rightarrow> bignum \<Rightarrow> bignum \<Rightarrow> bignum \<Rightarrow> div_ctx \<Rightarrow> unit bn_oper" where
  "BN_mod_sub malloc a b m ctx = and_then (BN_sub malloc a b) (\<lambda>_ r. BN_nnmod malloc r m ctx r)"

text \<open>\<open>same\<close> tells that \<open>a\<close> and \<open>b\<close> are one object; \<open>tmp\<close> is the scratch number of the product.\<close>

definition BN_mod_mul :: "(nat \<Rightarrow> bool) \<Rightarrow> bignum \<Rightarrow> bignum \<Rightarrow> bool \<Rightarrow> bignum \<Rightarrow> bignum option \<Rightarrow> bignum option \<Rightarrow> div_ctx \<Rightarrow>
    unit bn_oper" where
  "BN_mod_mul malloc a b same m t tmp ctx r =
    (case t of
       None \<Rightarrow> (None, r)
     | Some t \<Rightarrow>
         (case (if same then BN_sqr malloc a False None tmp t else BN_mul malloc a b False None tmp t) of
            (None, _) \<Rightarrow> (None, r)
          | (Some _, t) \<Rightarrow> BN_nnmod malloc t m ctx r))"

definition BN_mod_sqr :: "(nat \<Rightarrow> bool) \<Rightarrow> bignum \<Rightarrow> bool \<Rightarrow> bignum \<Rightarrow> bignum option \<Rightarrow> bignum option \<Rightarrow> div_ctx \<Rightarrow>
    unit bn_oper" where
  "BN_mod_sqr malloc a same m rr tmp ctx = and_then (BN_sqr malloc a same rr tmp) (\<lambda>_ r. BN_mod malloc r m ctx r)"

definition BN_mod_lshift1 :: "(nat \<Rightarrow> bool) \<Rightarrow> bignum \<Rightarrow> bignum \<Rightarrow> div_ctx \<Rightarrow> unit bn_oper" where
  "BN_mod_lshift1 malloc a m ctx = and_then (BN_lshift1 malloc a) (\<lambda>_ r. BN_nnmod malloc r m ctx r)"

text \<open>\<open>dup_ok\<close> is the answer of the allocation for the copy of a negative modulus.\<close>

definition BN_mod_lshift :: "(nat \<Rightarrow> bool) \<Rightarrow> bool \<Rightarrow> bignum \<Rightarrow> int \<Rightarrow> bignum \<Rightarrow> (nat \<Rightarrow> ctx3) \<Rightarrow> div_ctx \<Rightarrow> unit bn_oper" where
  "BN_mod_lshift malloc dup_ok a n m ctx dctx =
    and_then (BN_nnmod malloc a m dctx) (\<lambda>_ r.
      case (if bn_neg m then map_option (\<lambda>abs_m. abs_m\<lparr>bn_neg := False\<rparr>) (BN_dup malloc dup_ok (Some m)) else Some m) of
        None \<Rightarrow> (None, r)
      | Some m \<Rightarrow> bn_mod_lshift_consttime malloc r n m ctx r)"

subsection \<open>By a word\<close>

text \<open>The loop goes down the limbs of \<open>a\<close>, here from the top of the reversed list; \<open>ds\<close> is the quotient.\<close>

fun div_word_loop :: "u64 \<Rightarrow> u64 \<Rightarrow> limbs \<Rightarrow> limbs \<Rightarrow> u64 \<times> limbs" where
  "div_word_loop w ret (l # ls) ds =
    (case bn_div_rem_words ret l w of (d, _) \<Rightarrow> div_word_loop w (l - d * w) ls (d # ds))"
| "div_word_loop w ret [] ds = (ret, ds)"

text \<open>The remainder, or minus one, with the number divided in place.\<close>

definition BN_div_word :: "(nat \<Rightarrow> bool) \<Rightarrow> u64 \<Rightarrow> bignum \<Rightarrow> u64 \<times> bignum" where
  "BN_div_word malloc w a =
    (if w = 0 then (- 1, a)
     else if bn_width a = 0 then (0, a)
     else let j = 64 - BN_num_bits_word w
     in case BN_lshift malloc a (int j) a of
       (None, a) \<Rightarrow> (- 1, a)
     | (Some _, a) \<Rightarrow>
         (case div_word_loop (push_bit j w) 0 (rev (bn_words a)) [] of
            (ret, ds) \<Rightarrow> (drop_bit j ret, bn_set_minimal_width (set_d ds a))))"

fun mod_word_loop :: "u64 \<Rightarrow> u128 \<Rightarrow> limbs \<Rightarrow> u128" where
  "mod_word_loop w ret (l # ls) = mod_word_loop w ((push_bit 64 ret OR ucast l) mod ucast w) ls"
| "mod_word_loop w ret [] = ret"

definition BN_mod_word :: "bignum \<Rightarrow> u64 \<Rightarrow> u64" where
  "BN_mod_word a w = (if w = 0 then - 1 else ucast (mod_word_loop w 0 (rev (bn_words a))))"

subsection \<open>By a power of two\<close>

definition mask_top :: "nat \<Rightarrow> limbs \<Rightarrow> limbs" where
  "mask_top e d =
    (if e mod 64 = 0 then d else d[length d - 1 := last d AND (push_bit (e mod 64) 1 - 1)])"

definition BN_mod_pow2 :: "(nat \<Rightarrow> bool) \<Rightarrow> bignum \<Rightarrow> nat \<Rightarrow> unit bn_oper" where
  "BN_mod_pow2 malloc a e r =
    (if e = 0 \<or> bn_width a = 0 then (Some (), BN_zero r)
     else let num_words = 1 + (e - 1) div 64
     in if bn_width a < num_words then BN_copy malloc a r
        else and_then (bn_wexpand malloc num_words) (\<lambda>_ r.
          (Some (), bn_set_minimal_width ((put_words (mask_top e (take num_words (bn_d a))) r)\<lparr>bn_neg := bn_neg a\<rparr>))) r)"

definition BN_nnmod_pow2 :: "(nat \<Rightarrow> bool) \<Rightarrow> bignum \<Rightarrow> nat \<Rightarrow> unit bn_oper" where
  "BN_nnmod_pow2 malloc a e =
    and_then (BN_mod_pow2 malloc a e) (\<lambda>_ r.
      if BN_is_zero r \<or> \<not> bn_neg r then (Some (), r)
      else let num_words = 1 + (e - 1) div 64
      in and_then (bn_wexpand malloc num_words) (\<lambda>_ r.
           let d = bn_words r @ replicate (num_words - bn_width r) 0;
               r = bn_set_minimal_width ((put_words (mask_top e (map NOT d)) r)\<lparr>bn_neg := False\<rparr>)
           in BN_add malloc r BN_value_one r) r)"

section \<open>Sums keep the room\<close>

definition keeps_static :: "unit bn_oper \<Rightarrow> bool" where
  "keeps_static f \<longleftrightarrow> (\<forall>r. bn_static (snd (f r)) = bn_static r)"

lemma keeps_free: "keeps_static f \<Longrightarrow> f r = (x, r') \<Longrightarrow> bn_free malloc N r \<Longrightarrow> bn_free malloc N r'"
  unfolding keeps_static_def bn_free_def by (metis snd_conv)

lemma keeps_static_then:
  assumes f: "keeps_static f" and g: "\<And>x. keeps_static (g x)"
  shows "keeps_static (and_then f g)"
  unfolding keeps_static_def
proof
  fix r
  obtain x t where t: "f r = (x, t)" by (rule prod.exhaust)
  then have "bn_static t = bn_static r" using f unfolding keeps_static_def by (metis snd_conv)
  then show "bn_static (snd (and_then f g r)) = bn_static r"
    using g t by (cases x) (simp_all add: and_then_def keeps_static_def)
qed

lemma keeps_wexpand: "keeps_static (bn_wexpand malloc n)"
  by (simp add: keeps_static_def bn_wexpand_def)

lemma keeps_pair: "(\<And>r. bn_static (g r) = bn_static r) \<Longrightarrow> keeps_static (\<lambda>r. (x, g r))"
  by (simp add: keeps_static_def)

lemma static_set [simp]:
  "bn_static (put_words ws r) = bn_static r" "bn_static (set_d ws r) = bn_static r" "bn_static (bn_set_minimal_width r) = bn_static r"
  by (simp_all add: put_words_def set_d_def bn_set_minimal_width_def Let_def)

lemma keeps_uadd: "keeps_static (BN_uadd malloc a b)"
  unfolding BN_uadd_def bn_uadd_consttime_def Let_def split_beta
  by (rule keeps_static_then, rule keeps_static_then, rule keeps_wexpand, rule keeps_pair, simp, rule keeps_pair, simp)

lemma keeps_if: "keeps_static f \<Longrightarrow> keeps_static (\<lambda>r. if c then (x, r) else f r)"
  by (simp add: keeps_static_def)

lemma keeps_usub: "keeps_static (BN_usub malloc a b)"
  unfolding BN_usub_def bn_usub_consttime_def [abs_def] Let_def split_beta
  by (rule keeps_static_then, rule keeps_if, rule keeps_static_then, rule keeps_wexpand, simp add: keeps_static_def, rule keeps_pair, simp)

lemma keeps_then_neg: "keeps_static m \<Longrightarrow> keeps_static (then_neg m neg)"
  unfolding then_neg_def by (rule keeps_static_then, assumption, rule keeps_pair, simp)

lemma keeps_add: "keeps_static (BN_add malloc a b)" and keeps_sub: "keeps_static (BN_sub malloc a b)"
proof -
  note k = keeps_uadd keeps_then_neg [OF keeps_uadd] keeps_then_neg [OF keeps_usub]
  show "keeps_static (BN_add malloc a b)"
    using k unfolding keeps_static_def BN_add_def Let_def split_beta by simp
  show "keeps_static (BN_sub malloc a b)"
    using k unfolding keeps_static_def BN_sub_def Let_def split_beta by simp
qed

section \<open>The non-negative remainder\<close>

lemma mod_abs_eq:
  fixes x :: int
  assumes "m = nat \<bar>x\<bar>" and "d = nat \<bar>y\<bar>" and "y \<noteq> 0" and r: "r = sgn x * int (m mod d)"
  shows "(if r < 0 then r + \<bar>y\<bar> else r) = x mod \<bar>y\<bar>"
proof -
  have rd: "int (m mod d) = \<bar>x\<bar> mod \<bar>y\<bar>" using assms(1,2) by (simp add: zmod_int)
  show ?thesis
  proof (cases "0 \<le> x")
    case True
    then show ?thesis using r rd assms(3) by (cases "x = 0") (simp_all add: sgn_if not_less)
  next
    case False
    define u where "u = \<bar>x\<bar> mod \<bar>y\<bar>"
    have "x mod \<bar>y\<bar> = - \<bar>x\<bar> mod \<bar>y\<bar>" using False by simp
    also have "\<dots> = (if u = 0 then 0 else \<bar>y\<bar> - u)" using assms(3) by (simp add: zmod_zminus1_eq_if u_def)
    finally have "x mod \<bar>y\<bar> = (if u = 0 then 0 else \<bar>y\<bar> - u)" .
    moreover have "r = - u" "0 \<le> u" using r rd False assms(3) by (simp_all add: u_def)
    ultimately show ?thesis by simp
  qed
qed

lemma abs_int: "bn_abs x = nat \<bar>bn_int x\<bar>"
  by (simp add: bn_int_def)

lemma mod_returns:
  assumes ok: "bn_ok a" "bn_ok m" "bn_abs m \<noteq> 0" and N: "bn_width a + bn_width m + 8 \<le> N"
    and ctx: "div_ctx_ok malloc N ctx" and r: "bn_temp malloc N r"
  obtains r' where "BN_mod malloc a m ctx r = (Some (), r')" and "bn_normal r'" and "bn_free malloc N r'"
    and "bn_int r' = sgn (bn_int a) * int (bn_abs a mod bn_abs m)"
proof -
  obtain quo rem where run: "BN_div malloc a m False ctx (None, Some r) = (Some (), quo, rem)"
    and out: "out_is malloc N (Some r) rem (rem_sgn False a m * int (bn_abs a mod bn_abs m))"
    by (rule BN_div_returns [OF ok N ctx, of None "Some r" False]) (use r in simp_all)
  from out obtain y where "rem = Some y" "bn_normal y" "bn_int y = sgn (bn_int a) * int (bn_abs a mod bn_abs m)" "bn_free malloc N y"
    by (auto simp: out_is_def rem_sgn_def)
  with run show thesis by (intro that [of y]) (simp_all add: BN_mod_def)
qed

lemma nnmod_returns:
  assumes ok: "bn_ok a" "bn_normal m" "bn_abs m \<noteq> 0" and N: "bn_width a + bn_width m + 8 \<le> N"
    and ctx: "div_ctx_ok malloc N ctx" and r: "bn_temp malloc N r"
  obtains r' where "BN_nnmod malloc a m ctx r = (Some (), r')" and "bn_normal r'" and "bn_int r' = bn_int a mod \<bar>bn_int m\<bar>"
    and "bn_free malloc N r'"
proof -
  obtain x where x: "BN_mod malloc a m ctx r = (Some (), x)" "bn_normal x" "bn_free malloc N x"
    "bn_int x = sgn (bn_int a) * int (bn_abs a mod bn_abs m)"
    by (rule mod_returns [OF ok(1) bn_normal_ok [OF ok(2)] ok(3) N ctx r])
  have m0: "bn_int m \<noteq> 0" using ok(3) by (simp add: bn_int_def)
  note e = mod_abs_eq [OF abs_int abs_int m0 x(4)]
  have neg: "bn_neg x \<longleftrightarrow> bn_int x < 0" using bn_normal_nonneg [OF x(2)] by (auto simp: bn_int_def)
  show thesis
  proof (cases "bn_neg x")
    case False
    then have "BN_nnmod malloc a m ctx r = (Some (), x)" using x(1) by (simp add: BN_nnmod_def and_then_Some)
    then show thesis by (rule that [OF _ x(2) _ x(3)]) (use e False neg in simp)
  next
    case True
    have "bn_abs x < bn_base ^ bn_width m"
    proof -
      have "bn_abs x \<le> bn_abs a mod bn_abs m" using x(4) by (auto simp: abs_int [of x] abs_mult sgn_if)
      also have "\<dots> < bn_abs m" using ok(3) by simp
      finally show ?thesis using bn_abs_less [of m] by simp
    qed
    then have "bn_width x \<le> bn_width m" by (rule normal_width [OF x(2)])
    then have "max (bn_width x) (bn_width m) + 1 \<le> N" using N by simp
    from add_sub_returns [OF x(2) ok(2) this x(3)] obtain s d where
      s: "BN_add malloc x m x = (Some (), s)" "bn_normal s" "bn_int s = bn_int x + bn_int m" and
      d: "BN_sub malloc x m x = (Some (), d)" "bn_normal d" "bn_int d = bn_int x - bn_int m" .
    let ?y = "if bn_neg m then d else s"
    have "bn_int ?y = bn_int x + \<bar>bn_int m\<bar>" using s(3) d(3) by (simp add: bn_int_def [of m])
    moreover have "BN_nnmod malloc a m ctx r = (Some (), ?y)" using x(1) True s(1) d(1) by (simp add: BN_nnmod_def and_then_Some)
    moreover have "bn_normal ?y" "bn_free malloc N ?y"
      using s(2) d(2) keeps_free [OF keeps_add s(1) x(3)] keeps_free [OF keeps_sub d(1) x(3)] by simp_all
    ultimately show thesis using that [of ?y] e neg True by simp
  qed
qed


section \<open>Sums, products and shifts modulo a number\<close>

lemma then_nnmod:
  assumes f: "f r = (Some (), s)" "bn_ok s" "bn_free malloc N s" and m: "bn_normal m" "bn_abs m \<noteq> 0"
    and N: "bn_width s + bn_width m + 8 \<le> N" and ctx: "div_ctx_ok malloc N ctx"
  obtains r' where "and_then f (\<lambda>_ r. BN_nnmod malloc r m ctx r) r = (Some (), r')" and "bn_normal r'"
    and "bn_int r' = bn_int s mod \<bar>bn_int m\<bar>"
proof -
  have s: "bn_temp malloc N s" using f(2,3) by (simp add: bn_temp_def)
  obtain r' where r': "BN_nnmod malloc s m ctx s = (Some (), r')" "bn_normal r'" "bn_int r' = bn_int s mod \<bar>bn_int m\<bar>"
    by (rule nnmod_returns [OF f(2) m N ctx s])
  with f(1) show thesis by (intro that [of r']) (simp_all add: and_then_Some)
qed

lemma sum_less:
  assumes "bn_int s = bn_int a + bn_int b \<or> bn_int s = bn_int a - bn_int b"
  shows "bn_abs s < bn_base ^ (max (bn_width a) (bn_width b) + 1)"
proof -
  have "bn_abs s \<le> bn_abs a + bn_abs b" using assms by (auto simp: bn_int_def split: if_splits)
  also have "bn_abs a + bn_abs b < 2 * bn_base ^ max (bn_width a) (bn_width b)"
  proof -
    have "bn_base ^ bn_width x \<le> bn_base ^ max (bn_width a) (bn_width b)" if "x = a \<or> x = b" for x
      using that by (intro power_increasing) auto
    from this [of a] this [of b] bn_abs_less [of a] bn_abs_less [of b] show ?thesis by simp
  qed
  also have "\<dots> \<le> bn_base ^ (max (bn_width a) (bn_width b) + 1)" by (simp add: bn_base_def)
  finally show ?thesis .
qed

theorem mod_sum_returns:
  assumes n: "bn_normal a" "bn_normal b" and m: "bn_normal m" "bn_abs m \<noteq> 0"
    and N: "max (bn_width a) (bn_width b) + 1 + bn_width m + 8 \<le> N" and ctx: "div_ctx_ok malloc N ctx" and r: "bn_temp malloc N r"
  obtains s d where "BN_mod_add malloc a b m ctx r = (Some (), s)" and "bn_int s = (bn_int a + bn_int b) mod \<bar>bn_int m\<bar>"
    and "BN_mod_sub malloc a b m ctx r = (Some (), d)" and "bn_int d = (bn_int a - bn_int b) mod \<bar>bn_int m\<bar>"
    and "bn_normal s" and "bn_normal d"
proof -
  have "max (bn_width a) (bn_width b) + 1 \<le> N" and free: "bn_free malloc N r" using N r by (simp_all add: bn_temp_def)
  from add_sub_returns [OF n this] obtain s d where
    s: "BN_add malloc a b r = (Some (), s)" "bn_normal s" "bn_int s = bn_int a + bn_int b" and
    d: "BN_sub malloc a b r = (Some (), d)" "bn_normal d" "bn_int d = bn_int a - bn_int b" .
  note free = keeps_free [OF keeps_add s(1) free] keeps_free [OF keeps_sub d(1) free]
  have b: "bn_abs s < bn_base ^ (max (bn_width a) (bn_width b) + 1)" "bn_abs d < bn_base ^ (max (bn_width a) (bn_width b) + 1)"
    using sum_less [of s a b] sum_less [of d a b] s(3) d(3) by blast+
  have w: "bn_width s + bn_width m + 8 \<le> N" "bn_width d + bn_width m + 8 \<le> N"
    using normal_width [OF s(2) b(1)] normal_width [OF d(2) b(2)] N by linarith+
  obtain s' where s': "BN_mod_add malloc a b m ctx r = (Some (), s')" "bn_normal s'" "bn_int s' = bn_int s mod \<bar>bn_int m\<bar>"
    using then_nnmod [where f = "BN_add malloc a b" and r = r, OF s(1) bn_normal_ok [OF s(2)] free(1) m w(1) ctx] unfolding BN_mod_add_def by blast
  obtain d' where d': "BN_mod_sub malloc a b m ctx r = (Some (), d')" "bn_normal d'" "bn_int d' = bn_int d mod \<bar>bn_int m\<bar>"
    using then_nnmod [where f = "BN_sub malloc a b" and r = r, OF d(1) bn_normal_ok [OF d(2)] free(2) m w(2) ctx] unfolding BN_mod_sub_def by blast
  show thesis by (rule that [OF s'(1) _ d'(1) _ s'(2) d'(2)]) (simp_all add: s'(3) d'(3) s(3) d(3))
qed


lemma keeps_lshift1: "keeps_static (BN_lshift1 malloc a)"
proof -
  have "keeps_static (and_then (bn_wexpand malloc (bn_width a + 1)) (\<lambda>_ r.
      case lshift1_loop 0 (bn_words a) of (rp, c) \<Rightarrow> (Some (), put_words (if c \<noteq> 0 then rp @ [1] else rp) r)))"
    unfolding split_beta by (rule keeps_static_then, rule keeps_wexpand, rule keeps_pair, simp)
  then show ?thesis by (simp add: keeps_static_def BN_lshift1_def)
qed

lemma lshift1_returns:
  assumes a: "bn_ok a" and N: "bn_width a + 1 \<le> N" and r: "bn_temp malloc N r"
  obtains r' where "BN_lshift1 malloc a r = (Some (), r')" and "bn_int r' = 2 * bn_int a" and "bn_ok r'"
    and "bn_width r' \<le> bn_width a + 1" and "bn_free malloc N r'"
proof -
  have ok: "bn_ok r" "bn_free malloc N r" using r by (simp_all add: bn_temp_def)
  obtain rp c where loop: "lshift1_loop 0 (bn_words a) = (rp, c)" by (rule prod.exhaust)
  note v = lshift1_loop_val [OF loop]
  have "bn_free malloc N (r\<lparr>bn_neg := bn_neg a\<rparr>)" using ok(2) by simp
  then obtain r1 where "bn_wexpand malloc (bn_width a + 1) (r\<lparr>bn_neg := bn_neg a\<rparr>) = (Some (), r1)" by (rule wexpandE [OF _ N])
  then have run: "BN_lshift1 malloc a r = (Some (), put_words (if c \<noteq> 0 then rp @ [1] else rp) r1)" (is "_ = (_, ?r)")
    using loop by (simp add: BN_lshift1_def and_then_Some)
  have "length rp = bn_width a" using v(1) a by (simp add: bn_ok_def)
  then have "bn_width ?r \<le> bn_width a + 1" by simp
  with run BN_lshift1_val [OF run a ok(1)] keeps_free [OF keeps_lshift1 run ok(2)] show thesis
    by (intro that [of ?r]) simp_all
qed

theorem mod_lshift1_returns:
  assumes a: "bn_ok a" and m: "bn_normal m" "bn_abs m \<noteq> 0" and N: "bn_width a + 1 + bn_width m + 8 \<le> N"
    and ctx: "div_ctx_ok malloc N ctx" and r: "bn_temp malloc N r"
  obtains r' where "BN_mod_lshift1 malloc a m ctx r = (Some (), r')" and "bn_int r' = (2 * bn_int a) mod \<bar>bn_int m\<bar>" and "bn_normal r'"
proof -
  have Na: "bn_width a + 1 \<le> N" using N by simp
  obtain s where s: "BN_lshift1 malloc a r = (Some (), s)" "bn_int s = 2 * bn_int a" "bn_ok s" "bn_width s \<le> bn_width a + 1" "bn_free malloc N s"
    by (rule lshift1_returns [OF a Na r])
  have w: "bn_width s + bn_width m + 8 \<le> N" using s(4) N by simp
  obtain r' where "BN_mod_lshift1 malloc a m ctx r = (Some (), r')" "bn_normal r'" "bn_int r' = bn_int s mod \<bar>bn_int m\<bar>"
    using then_nnmod [where f = "BN_lshift1 malloc a" and r = r, OF s(1,3,5) m w ctx] unfolding BN_mod_lshift1_def by blast
  with that s(2) show thesis by simp
qed

text \<open>Products: where the operands are not the destination, the first scratch number is not used.\<close>

lemma mul_unaliased: "BN_mul malloc a b False None t = BN_mul malloc a b False (Some x) t"
  unfolding BN_mul_def bn_mul_impl_def [abs_def] if_False ..

lemma sqr_unaliased: "BN_sqr malloc a False None t = BN_sqr malloc a False (Some x) t"
  unfolding BN_sqr_def bn_sqr_consttime_def [abs_def] if_False ..

lemma abs_product: "bn_int r = bn_int a * bn_int b \<Longrightarrow> bn_abs r = bn_abs a * bn_abs b"
  by (simp add: abs_int abs_mult nat_mult_distrib)

lemma sqr_returns:
  assumes a: "bn_small a" and N: "bn_width a * 4 \<le> N" and rr: "bn_temp malloc N rr" and t: "bn_temp malloc N t" and r: "bn_temp malloc N r"
  obtains r' where "BN_sqr malloc a same (Some rr) (Some t) r = (Some (), r')" and "bn_int r' = bn_int a * bn_int a"
    and "bn_normal r'" and "bn_free malloc N r'" and "bn_width r' \<le> 2 * bn_width a"
proof -
  have free: "bn_free malloc N rr" "bn_free malloc N t" "bn_free malloc N r" and ok: "bn_ok r"
    using rr t r by (simp_all add: bn_temp_def)
  have "bn_total malloc N (BN_sqr malloc a same (Some rr) (Some t))"
    unfolding BN_sqr_def by (intro total_and_then total_sqr a N free total_return) simp
  then obtain r' where r': "BN_sqr malloc a same (Some rr) (Some t) r = (Some (), r')" "bn_free malloc N r'" using free(3) by (rule bn_totalD)
  note v = BN_sqr_val [OF r'(1) a ok]
  from abs_product [OF v(1)] have "bn_abs r' < bn_base ^ (2 * bn_width a)" unfolding mult_2 power_add using bn_abs_less [of a] by (simp add: mult_strict_mono)
  then have "bn_width r' \<le> 2 * bn_width a" by (rule normal_width [OF v(2)])
  with r' v that show thesis by blast
qed

lemma product_returns:
  assumes ab: "bn_small a" "bn_small b" and N: "8 * (bn_width a + bn_width b) + 16 \<le> N"
    and rr: "bn_temp malloc N rr" and t: "bn_temp malloc N t" and r: "bn_temp malloc N r"
  obtains r' where "BN_mul malloc a b same (Some rr) (Some t) r = (Some (), r')" and "bn_int r' = bn_int a * bn_int b"
    and "bn_normal r'" and "bn_free malloc N r'" and "bn_width r' \<le> bn_width a + bn_width b"
proof -
  have free: "bn_free malloc N rr" "bn_free malloc N t" "bn_free malloc N r" and ok: "bn_ok rr" "bn_ok r"
    using rr t r by (simp_all add: bn_temp_def)
  obtain r' where r': "BN_mul malloc a b same (Some rr) (Some t) r = (Some (), r')" "bn_free malloc N r'"
    by (rule bn_totalD [OF total_mul [OF ab N free(1,2) ok(1)] free(3)])
  have "\<And>x. Some rr = Some x \<Longrightarrow> bn_ok x" using ok by simp
  note v = BN_mul_val [OF r'(1) ab ok(2) this]
  from abs_product [OF v(1)] have "bn_abs r' < bn_base ^ (bn_width a + bn_width b)"
    unfolding power_add using bn_abs_less [of a] bn_abs_less [of b] by (simp add: mult_strict_mono)
  from normal_width [OF v(2) this] have "bn_width r' \<le> bn_width a + bn_width b" .
  with r' v that show thesis by blast
qed


theorem mod_mul_returns:
  assumes ab: "bn_small a" "bn_small b" and same: "same \<Longrightarrow> a = b" and m: "bn_normal m" "bn_abs m \<noteq> 0"
    and N: "8 * (bn_width a + bn_width b) + bn_width m + 16 \<le> N" and ctx: "div_ctx_ok malloc N ctx"
    and t: "bn_temp malloc N t" and tmp: "bn_temp malloc N tmp" and r: "bn_temp malloc N r"
  obtains r' where "BN_mod_mul malloc a b same m (Some t) (Some tmp) ctx r = (Some (), r')"
    and "bn_int r' = (bn_int a * bn_int b) mod \<bar>bn_int m\<bar>" and "bn_normal r'"
proof -
  have Np: "8 * (bn_width a + bn_width b) + 16 \<le> N" and Ns: "bn_width a * 4 \<le> N" using N by simp_all
  obtain p where p: "BN_mul malloc a b False (Some t) (Some tmp) t = (Some (), p)" "bn_int p = bn_int a * bn_int b"
    "bn_normal p" "bn_free malloc N p" "bn_width p \<le> bn_width a + bn_width b"
    by (rule product_returns [OF ab Np t tmp t])
  obtain q where q: "BN_sqr malloc a False (Some t) (Some tmp) t = (Some (), q)" "bn_int q = bn_int a * bn_int a"
    "bn_normal q" "bn_free malloc N q" "bn_width q \<le> 2 * bn_width a"
    by (rule sqr_returns [OF ab(1) Ns t tmp t])
  let ?s = "if same then q else p"
  have s: "bn_normal ?s" "bn_int ?s = bn_int a * bn_int b" "bn_width ?s \<le> bn_width a + bn_width b"
    using p(2,3,5) q(2,3,5) same by auto
  have w: "bn_width ?s + bn_width m + 8 \<le> N" using s(3) N by simp
  obtain r' where r': "BN_nnmod malloc ?s m ctx r = (Some (), r')" "bn_normal r'" "bn_int r' = bn_int ?s mod \<bar>bn_int m\<bar>"
    by (rule nnmod_returns [OF bn_normal_ok [OF s(1)] m w ctx r])
  have "BN_mod_mul malloc a b same m (Some t) (Some tmp) ctx r = (Some (), r')"
    
    using p(1) q(1) r'(1) unfolding BN_mod_mul_def mul_unaliased [where x = t] sqr_unaliased [where x = t] by (cases same) simp_all
  then show thesis by (rule that) (simp_all add: r'(2,3) s(2))
qed

theorem mod_sqr_returns:
  assumes a: "bn_small a" and m: "bn_normal m" "bn_abs m \<noteq> 0" and N: "4 * bn_width a + bn_width m + 8 \<le> N"
    and ctx: "div_ctx_ok malloc N ctx" and rr: "bn_temp malloc N rr" and tmp: "bn_temp malloc N tmp" and r: "bn_temp malloc N r"
  obtains r' where "BN_mod_sqr malloc a same m (Some rr) (Some tmp) ctx r = (Some (), r')"
    and "bn_int r' = (bn_int a * bn_int a) mod \<bar>bn_int m\<bar>" and "bn_normal r'"
proof -
  have Ns: "bn_width a * 4 \<le> N" using N by simp
  obtain q where q: "BN_sqr malloc a same (Some rr) (Some tmp) r = (Some (), q)" "bn_int q = bn_int a * bn_int a"
    "bn_normal q" "bn_free malloc N q" "bn_width q \<le> 2 * bn_width a"
    by (rule sqr_returns [OF a Ns rr tmp r])
  have w: "bn_width q + bn_width m + 8 \<le> N" and t: "bn_temp malloc N q" using q(3-5) N by (simp_all add: bn_temp_def bn_normal_ok)
  obtain r' where r': "BN_mod malloc q m ctx q = (Some (), r')" "bn_normal r'" "bn_int r' = sgn (bn_int q) * int (bn_abs q mod bn_abs m)"
    by (rule mod_returns [OF bn_normal_ok [OF q(3)] bn_normal_ok [OF m(1)] m(2) w ctx t])
  have "bn_int m \<noteq> 0" using m(2) by (simp add: bn_int_def)
  note e = mod_abs_eq [OF abs_int abs_int this r'(3)]
  have "0 \<le> bn_int q" unfolding q(2) by simp
  then have "0 \<le> bn_int r'" unfolding r'(3) by (simp add: sgn_if)
  with e have "bn_int r' = bn_int q mod \<bar>bn_int m\<bar>" by simp
  with q(1,2) r'(1,2) show thesis by (intro that [of r']) (simp_all add: BN_mod_sqr_def and_then_Some)
qed

theorem mod_lshift_returns:
  assumes a: "bn_ok a" and m: "bn_normal m" "bn_abs m \<noteq> 0" and N: "bn_width a + bn_width m + 8 \<le> N" and n: "0 \<le> n"
    and dctx: "div_ctx_ok malloc N dctx" and ctx: "\<forall>i. ctx_free malloc N (ctx i)" and init: "bn_free malloc N BN_init" and r: "bn_temp malloc N r"
  obtains r' where "BN_mod_lshift malloc True a n m ctx dctx r = (Some (), r')"
    and "bn_int r' = (2 ^ nat n * bn_int a) mod \<bar>bn_int m\<bar>"
proof -
  obtain s where s: "BN_nnmod malloc a m dctx r = (Some (), s)" "bn_normal s" "bn_int s = bn_int a mod \<bar>bn_int m\<bar>" "bn_free malloc N s"
    by (rule nnmod_returns [OF a m N dctx r])
  have okm: "bn_ok m" and wm: "bn_width m \<le> N" using m(1) N by (simp_all add: bn_normal_ok)
  obtain c where c: "BN_copy malloc m BN_init = (Some (), c)" by (rule bn_totalD [OF total_copy [OF wm] init])
  let ?m = "if bn_neg m then c\<lparr>bn_neg := False\<rparr> else m"
  have dup: "(if bn_neg m then map_option (\<lambda>x. x\<lparr>bn_neg := False\<rparr>) (BN_dup malloc True (Some m)) else Some m) = Some ?m"
    using c by (simp add: BN_dup_def)
  have am: "bn_abs ?m = bn_abs m" "bn_ok ?m" "bn_width ?m = bn_width m" using BN_copy_val [OF c okm] okm by simp_all
  have m0: "0 < \<bar>bn_int m\<bar>" using m(2) by (simp add: bn_int_def)
  have pos: "0 \<le> bn_int s" "bn_int s < \<bar>bn_int m\<bar>" unfolding s(3) using m0 by simp_all
  have less: "bn_abs s < bn_abs ?m" unfolding am(1) using pos by (simp add: abs_int [of s] abs_int [of m])
  have neg: "\<not> bn_neg s" using pos(1) bn_normal_nonneg [OF s(2)] by (auto simp: bn_int_def split: if_splits)
  have "bn_abs s < bn_base ^ bn_width m" using less am(1) bn_abs_less [of m] by simp
  then have ws: "bn_width s \<le> N" using normal_width [OF s(2)] wm by fastforce
  have "bn_total malloc N (bn_mod_lshift_consttime malloc s n ?m ctx)" by (rule total_mod_lshift) (use ctx wm ws am(3) in simp_all)
  then obtain r' where r': "bn_mod_lshift_consttime malloc s n ?m ctx s = (Some (), r')" using s(4) by (rule bn_totalD)
  note v = bn_mod_lshift_consttime_val [OF r' bn_normal_ok [OF s(2)] am(2) less neg]
  have "bn_int r' = int (2 ^ nat n * bn_abs s mod bn_abs m)" using v(1,2) unfolding am(1) by (simp add: bn_int_def)
  also have "\<dots> = (2 ^ nat n * bn_int s) mod \<bar>bn_int m\<bar>" using neg by (simp add: zmod_int bn_int_def)
  finally have "bn_int r' = (2 ^ nat n * bn_int a) mod \<bar>bn_int m\<bar>" unfolding s(3) mod_mult_right_eq .
  moreover have "BN_mod_lshift malloc True a n m ctx dctx r = (Some (), r')"
    using s(1) r' unfolding BN_mod_lshift_def dup by (simp add: and_then_Some)
  ultimately show thesis by (intro that)
qed


section \<open>Division by a word\<close>

lemma div_word_loop_val:
  assumes "ret < w" and "div_word_loop w ret ls ds = (ret', ds')"
  obtains new where "ds' = new @ ds" and "length new = length ls" and "ret' < w"
    and "bn_val (rev ls) + bn_base ^ length ls * unat ret = unat w * bn_val new + unat ret'"
proof -
  have "\<exists>new. ds' = new @ ds \<and> length new = length ls \<and> ret' < w \<and>
      bn_val (rev ls) + bn_base ^ length ls * unat ret = unat w * bn_val new + unat ret'"
    using assms
  proof (induction w ret ls ds rule: div_word_loop.induct)
    case (1 w ret l ls ds)
    obtain d rm where d: "bn_div_rem_words ret l w = (d, rm)" by (rule prod.exhaust)
    then have rm: "rm = l - d * w" by (auto simp: bn_div_rem_words_def Let_def)
    note v = div_rem_words_val [OF d "1.prems"(1)]
    have "l - d * w < w" using v(2) unfolding rm by (simp add: word_less_nat_alt)
    moreover have "div_word_loop w (l - d * w) ls (d # ds) = (ret', ds')" using "1.prems"(2) d by simp
    ultimately obtain new where new: "ds' = new @ d # ds" "length new = length ls" "ret' < w"
      "bn_val (rev ls) + bn_base ^ length ls * unat rm = unat w * bn_val new + unat ret'"
      using "1.IH" [OF d [symmetric]] unfolding rm by blast
    have "bn_val (rev (l # ls)) + bn_base ^ length (l # ls) * unat ret =
        bn_val (rev ls) + bn_base ^ length ls * (bn_base * unat ret + unat l)"
      by (simp add: bn_val_append algebra_simps)
    also have "\<dots> = bn_val (rev ls) + bn_base ^ length ls * unat rm + bn_base ^ length ls * (unat w * unat d)"
      unfolding v(1) [symmetric] by (simp add: algebra_simps)
    also have "\<dots> = unat w * bn_val (new @ [d]) + unat ret'"
      unfolding new(4) using new(2) by (simp add: bn_val_append algebra_simps)
    finally show ?case using new by (intro exI [of _ "new @ [d]"]) simp
  qed auto
  with that show thesis by blast
qed

theorem div_word_returns:
  assumes a: "bn_ok a" "bn_free malloc N a" and w: "w \<noteq> 0" and N: "bn_width a + 2 \<le> N"
  obtains a' where "BN_div_word malloc w a = (of_nat (bn_abs a mod unat w), a')"
    and "bn_int a' = sgn (bn_int a) * int (bn_abs a div unat w)"
proof (cases "bn_width a = 0")
  case True
  then have "bn_abs a = 0" by (simp add: bn_abs_def)
  with True w show thesis by (intro that [of a]) (simp_all add: BN_div_word_def bn_int_def)
next
  case False
  let ?b = "BN_num_bits_word w" let ?j = "64 - ?b"
  note b = BN_num_bits_word_val [of w]
  have b64: "?b \<le> 64"
  proof -
    have "(2 :: nat) ^ (?b - 1) < 2 ^ 64" using b(2) [OF w] unsigned_less [of w, where 'a = nat] by simp
    then have "?b - 1 < 64" by (rule power_less_imp_less_exp [rotated]) simp
    then show ?thesis by simp
  qed
  have uw: "unat (push_bit ?j w) = 2 ^ ?j * unat w"
    unfolding unat_push_bit [OF diff_le_self] using b(1) b64 by simp
  have temp: "bn_temp malloc N a" using a by (simp add: bn_temp_def)
  have Nj: "bn_width a + ?j div 64 + 1 \<le> N" using N b(2) [OF w] by simp
  obtain s where s: "BN_lshift malloc a (int ?j) a = (Some (), s)" "bn_abs s = 2 ^ ?j * bn_abs a" "bn_normal s"
    by (rule lshift_returns [OF temp a(1) Nj])
  have sign: "bn_int s = 2 ^ ?j * bn_int a" using BN_lshift_val(2) [OF s(1) a(1,1)] by simp
  have oks: "bn_ok s" using s(3) by (rule bn_normal_ok)
  obtain ret ds where loop: "div_word_loop (push_bit ?j w) 0 (rev (bn_words s)) [] = (ret, ds)" by (rule prod.exhaust)
  have "0 < push_bit ?j w" using w by (simp add: word_less_nat_alt uw unat_gt_0)
  from div_word_loop_val [OF this loop] have len: "length ds = bn_width s" and ret: "ret < push_bit ?j w"
    and val: "2 ^ ?j * bn_abs a = 2 ^ ?j * unat w * bn_val ds + unat ret"
    using oks s(2) by (auto simp: uw bn_abs_def bn_ok_def)
  have "unat ret < 2 ^ ?j * unat w" using ret by (simp add: word_less_nat_alt uw)
  from quotient_unique [OF val this] have q: "bn_val ds = bn_abs a div unat w" and r: "unat ret = 2 ^ ?j * (bn_abs a mod unat w)"
    by simp_all
  have u: "unat (drop_bit ?j ret) = bn_abs a mod unat w" unfolding unat_drop_bit r by simp
  have ret': "drop_bit ?j ret = of_nat (bn_abs a mod unat w)" by (simp flip: u)
  note d = set_d_words [OF oks len]
  let ?r = "bn_set_minimal_width (set_d ds s)"
  have "bn_int ?r = (if bn_neg s then - int (bn_abs a div unat w) else int (bn_abs a div unat w))"
    unfolding set_minimal_width(3) [OF d(2)] using d(1,4) q by (simp add: bn_int_def bn_abs_def)
  also have "\<dots> = sgn (bn_int a) * int (bn_abs a div unat w)"
  proof (cases "bn_abs a = 0")
    case False
    then have "bn_neg s = bn_neg a" using sign s(2) by (auto simp: bn_int_def split: if_splits)
    with False show ?thesis by (simp add: bn_int_def)
  qed simp
  finally show thesis using that [of ?r] False w s(1) loop ret' by (simp add: BN_div_word_def Let_def)
qed

lemma mod_digit: "(x + y * (z mod w)) mod w = (x + y * z) mod (w :: nat)"
  by (subst mod_add_right_eq [symmetric], subst mod_mult_right_eq, rule mod_add_right_eq)

lemma mod_word_loop_val:
  assumes "unat ret < unat w"
  shows "unat (mod_word_loop w ret ls) = (bn_val (rev ls) + bn_base ^ length ls * unat ret) mod unat w"
  using assms
proof (induction w ret ls rule: mod_word_loop.induct)
  case (1 w ret l ls)
  have "unat ret < 2 ^ 64" using 1(2) unsigned_less [of w, where 'a = nat] by simp
  then obtain h :: u64 where h: "unat h = unat ret" by (intro that [of "of_nat (unat ret)"] unat_of_nat_small) simp
  then have "ret = ucast h" by (simp add: word_unat_eq_iff)
  with h have two: "unat (push_bit 64 ret OR ucast l) = bn_base * unat ret + unat l" using two_limbs [of h l] by simp
  let ?r = "(push_bit 64 ret OR ucast l) mod ucast w"
  have r: "unat ?r = (bn_base * unat ret + unat l) mod unat w" by (simp add: unat_mod_distrib two)
  have "0 < unat w" using 1(2) by simp
  then have "unat ?r < unat w" unfolding r by simp
  from 1(1) [OF this] have "unat (mod_word_loop w ret (l # ls)) =
      (bn_val (rev ls) + bn_base ^ length ls * (bn_base * unat ret + unat l)) mod unat w"
    unfolding r mod_digit by simp
  also have "bn_val (rev ls) + bn_base ^ length ls * (bn_base * unat ret + unat l) =
      bn_val (rev (l # ls)) + bn_base ^ length (l # ls) * unat ret"
    by (simp add: bn_val_append algebra_simps)
  finally show ?case .
qed simp

theorem BN_mod_word_val: "w \<noteq> 0 \<Longrightarrow> unat (BN_mod_word a w) = bn_abs a mod unat w"
proof -
  assume w: "w \<noteq> 0"
  then have pos: "0 < unat w" by (simp add: unat_gt_0)
  then have v: "unat (mod_word_loop w 0 (rev (bn_words a))) = bn_abs a mod unat w"
    using mod_word_loop_val [of 0 w "rev (bn_words a)"] by (simp add: bn_abs_def)
  moreover have "bn_abs a mod unat w < 2 ^ 64" using mod_less_divisor [OF pos, of "bn_abs a"] unsigned_less [of w, where 'a = nat] by simp
  ultimately show ?thesis using w by (simp add: BN_mod_word_def unsigned_ucast_eq take_bit_nat_eq_self)
qed


section \<open>The remainder of a power of two\<close>

lemma words_of_bits:
  fixes e :: nat
  assumes "0 < e"
  shows "(e - 1) div 64 = (if e mod 64 = 0 then e div 64 - 1 else e div 64)" and "e mod 64 = 0 \<Longrightarrow> 0 < e div 64"
proof -
  obtain q r where qr: "e = 64 * q + r" "r < (64 :: nat)" by (rule that [of "e div 64" "e mod 64"]) simp_all
  then have e: "e div 64 = q" "e mod 64 = r" by simp_all
  show "e mod 64 = 0 \<Longrightarrow> 0 < e div 64" using assms qr unfolding e by (cases q) simp_all
  show "(e - 1) div 64 = (if e mod 64 = 0 then e div 64 - 1 else e div 64)"
  proof (cases r)
    case 0
    then obtain p where "q = Suc p" using assms qr(1) by (cases q) simp_all
    then have "e - 1 = 64 * p + 63" using 0 qr(1) by simp
    then have "(e - 1) div 64 = p" by simp
    with \<open>q = Suc p\<close> 0 show ?thesis unfolding e by simp
  next
    case (Suc s)
    then have "e - 1 = 64 * q + s" "s < 64" using qr by simp_all
    then have "(e - 1) div 64 = q" by simp
    with Suc show ?thesis unfolding e by simp
  qed
qed

lemma mask_top_val:
  assumes len: "length d = 1 + (e - 1) div 64" and e: "0 < e"
  shows "bn_val (mask_top e d) = bn_val d mod 2 ^ e" and "length (mask_top e d) = length d"
proof -
  let ?n = "(e - 1) div 64" and ?k = "e mod 64"
  show "length (mask_top e d) = length d" by (simp add: mask_top_def)
  have d: "d \<noteq> []" using len by (intro notI) simp
  have whole: "e = 64 * (e div 64) + ?k" by simp
  show "bn_val (mask_top e d) = bn_val d mod 2 ^ e"
  proof (cases "?k = 0")
    case True
    then have "length d = e div 64" using words_of_bits [OF e] len by simp
    then have "e = 64 * length d" using whole True by simp
    then have "2 ^ e = bn_base ^ length d" by (simp add: bn_base_def power_mult)
    then show ?thesis using True bn_val_less [of d] by (simp add: mask_top_def)
  next
    case False
    then have n: "?n = e div 64" using words_of_bits [OF e] by simp
    then have E: "(2 :: nat) ^ e = bn_base ^ ?n * 2 ^ ?k" unfolding bn_base_def by (metis whole power_add power_mult)
    have "length (butlast d) = ?n" using len by simp
    then have split: "bn_val xs = bn_val (butlast d) + bn_base ^ ?n * unat x" if "xs = butlast d @ [x]" for xs x
      using that by (simp add: bn_val_append)
    have "d[length d - 1 := x] = butlast d @ [x]" for x
      using list_update_length [of "butlast d" "last d" "[]" x] d by simp
    then have upd: "mask_top e d = butlast d @ [last d AND mask ?k]"
      using False by (simp add: mask_top_def push_bit_eq_mult mask_eq_exp_minus_1)
    have low: "bn_val (butlast d) < bn_base ^ ?n" using bn_val_less [of "butlast d"] len by simp
    have "unat (last d AND mask ?k) = unat (last d) mod 2 ^ ?k"
      by (simp only: take_bit_eq_mask [symmetric] unsigned_take_bit_eq) (simp only: take_bit_eq_mod)
    moreover have "bn_val d = bn_val (butlast d) + bn_base ^ ?n * unat (last d)" using split [of d "last d"] d by simp
    ultimately show ?thesis
      using low unfolding split [OF upd] E by (simp add: mod_mult2_eq)
  qed
qed

lemma val_map_not: "bn_val (map NOT d) = bn_base ^ length d - 1 - bn_val d"
proof -
  have "bn_val (map NOT d) + bn_val d + 1 = bn_base ^ length d"
  proof (induction d)
    case (Cons x d)
    have "NOT x = - 1 - x" by (simp add: not_eq_complement)
    moreover have "unat (- 1 :: u64) = bn_base - 1" by (simp add: bn_base_def unsigned_minus_1_eq_mask mask_eq_exp_minus_1)
    moreover have le: "unat x \<le> bn_base - 1" using limb_less [of x] by (simp del: limb_less)
    ultimately have "unat (NOT x) = bn_base - 1 - unat x" by (simp add: unat_sub word_le_nat_alt)
    with le have "unat (NOT x) + unat x + 1 = bn_base" using bn_base_pos(1) by linarith
    moreover have "bn_base * bn_val (map NOT d) + bn_base * bn_val d + bn_base = bn_base * bn_base ^ length d"
      unfolding Cons [symmetric] by (simp only: distrib_left mult_1_right)
    ultimately show ?case by simp
  qed simp
  then show ?thesis by simp
qed


theorem mod_pow2_returns:
  assumes a: "bn_ok a" and N: "1 + (e - 1) div 64 \<le> N" and r: "bn_temp malloc N r"
  obtains r' where "BN_mod_pow2 malloc a e r = (Some (), r')" and "bn_int r' = sgn (bn_int a) * int (bn_abs a mod 2 ^ e)"
    and "bn_ok r'" and "bn_free malloc N r'" and "bn_width r' \<le> 1 + (e - 1) div 64"
proof -
  let ?n = "1 + (e - 1) div 64"
  have free: "bn_free malloc N r" "bn_ok r" using r by (simp_all add: bn_temp_def)
  consider (zero) "e = 0 \<or> bn_width a = 0" | (copy) "\<not> (e = 0 \<or> bn_width a = 0)" "bn_width a < ?n"
    | (mask) "\<not> (e = 0 \<or> bn_width a = 0)" "\<not> bn_width a < ?n" by argo
  then show thesis
  proof cases
    case zero
    then have "bn_abs a mod 2 ^ e = 0" by (auto simp: bn_abs_def)
    with zero free show thesis
      by (intro that [of "BN_zero r"]) (simp_all add: BN_mod_pow2_def bn_int_def BN_zero_def bn_abs_def bn_ok_def)
  next
    case copy
    then have "bn_width a \<le> N" using N by simp
    then obtain c where c: "BN_copy malloc a r = (Some (), c)" "bn_free malloc N c" using bn_totalD [OF total_copy free(1)] by blast
    note v = BN_copy_val [OF c(1) a]
    have "bn_abs a < bn_base ^ bn_width a" by (rule bn_abs_less)
    also have "\<dots> \<le> bn_base ^ ((e - 1) div 64)" using copy(2) by (intro power_increasing) simp_all
    also have "\<dots> = 2 ^ (64 * ((e - 1) div 64))" by (simp add: bn_base_def power_mult)
    also have "\<dots> \<le> (2 :: nat) ^ e" by (intro power_increasing) (use times_div_less_eq_dividend [of 64 "e - 1"] in linarith, simp)
    finally have "bn_abs a mod 2 ^ e = bn_abs a" by simp
    moreover have "bn_int c = sgn (bn_int a) * int (bn_abs a)" using v by (cases "bn_abs a = 0") (simp_all add: bn_int_def)
    ultimately show thesis using copy c v by (intro that [of c]) (simp_all add: BN_mod_pow2_def Let_def)
  next
    case mask
    let ?d = "mask_top e (take ?n (bn_d a))"
    have len: "length (take ?n (bn_d a)) = ?n" using mask(2) a by (simp add: bn_ok_def)
    have e: "0 < e" using mask(1) by simp
    note m = mask_top_val [OF len e]
    obtain s where s: "bn_wexpand malloc ?n r = (Some (), s)" "bn_free malloc N s" by (rule wexpandE [OF free(1) N])
    let ?r = "(put_words ?d s)\<lparr>bn_neg := bn_neg a\<rparr>"
    have "bn_abs ?r = bn_abs a mod 2 ^ e"
    proof -
      have "e \<le> 64 * ?n" using words_of_bits [OF e] mult_div_mod_eq [of 64 e] mod_less_divisor [of 64 e] by (auto split: if_splits)
      then obtain k where k: "bn_base ^ ?n = 2 ^ e * 2 ^ k" unfolding bn_base_def by (metis le_add_diff_inverse power_add power_mult)
      have "bn_abs a = bn_val (take ?n (bn_d a)) + bn_base ^ ?n * bn_val (drop ?n (bn_words a))"
        using bn_val_take_drop [of ?n "bn_words a"] mask(2) a by (simp add: bn_abs_def bn_ok_def min_absorb1)
      then have "bn_abs a mod 2 ^ e = bn_val (take ?n (bn_d a)) mod 2 ^ e" unfolding k by (simp add: mult.assoc)
      with m(1) show ?thesis by simp
    qed
    then have ri: "bn_int ?r = sgn (bn_int a) * int (bn_abs a mod 2 ^ e)"
      unfolding bn_int_def [of ?r] by (cases "bn_abs a = 0") (simp_all add: bn_int_def)
    have ok: "bn_ok ?r" by simp
    show thesis
    proof (rule that)
      show "BN_mod_pow2 malloc a e r = (Some (), bn_set_minimal_width ?r)"
        using mask s(1) by (simp add: BN_mod_pow2_def Let_def and_then_Some)
      show "bn_int (bn_set_minimal_width ?r) = sgn (bn_int a) * int (bn_abs a mod 2 ^ e)"
        unfolding set_minimal_width(3) [OF ok] by (rule ri)
      show "bn_ok (bn_set_minimal_width ?r)" by (rule bn_normal_ok [OF set_minimal_width(4) [OF ok]])
      show "bn_width (bn_set_minimal_width ?r) \<le> ?n"
        using bn_minimal_width(1) [OF ok] m(2) len by (simp add: bn_set_minimal_width_def Let_def)
      show "bn_free malloc N (bn_set_minimal_width ?r)" using s(2) by simp
    qed
  qed
qed

lemma twos_complement:
  fixes x :: nat
  assumes x: "0 < x" "x < 2 ^ e" and B: "2 ^ e * k = B" and k: "0 < k"
  shows "(B - 1 - x) mod 2 ^ e = 2 ^ e - 1 - x"
proof -
  obtain j where "k = Suc j" using k by (cases k) simp_all
  then have "B - 1 - x = 2 ^ e * j + (2 ^ e - 1 - x)" using x unfolding B [symmetric] by simp
  moreover have "2 ^ e - 1 - x < 2 ^ e" using x by simp
  ultimately show ?thesis by simp
qed

lemma power_of_limbs:
  assumes "0 < e"
  obtains k where "2 ^ e * k = bn_base ^ (1 + (e - 1) div 64)" and "0 < k"
proof -
  have "e \<le> 64 * (1 + (e - 1) div 64)"
    using words_of_bits [OF assms] mult_div_mod_eq [of 64 e] mod_less_divisor [of 64 e] by (auto split: if_splits)
  then obtain d where "64 * (1 + (e - 1) div 64) = e + d" by (rule less_eqE)
  then have "2 ^ e * 2 ^ d = bn_base ^ (1 + (e - 1) div 64)" unfolding bn_base_def by (metis power_add power_mult)
  then show thesis by (rule that) simp
qed

theorem nnmod_pow2_returns:
  assumes a: "bn_ok a" and N: "2 + (e - 1) div 64 + 1 \<le> N" and r: "bn_temp malloc N r"
  obtains r' where "BN_nnmod_pow2 malloc a e r = (Some (), r')" and "bn_int r' = bn_int a mod 2 ^ e"
proof -
  let ?n = "1 + (e - 1) div 64"
  have n: "?n \<le> N" using N by simp
  obtain s where s: "BN_mod_pow2 malloc a e r = (Some (), s)" "bn_int s = sgn (bn_int a) * int (bn_abs a mod 2 ^ e)"
    "bn_ok s" "bn_free malloc N s" "bn_width s \<le> ?n"
    by (rule mod_pow2_returns [OF a n r])
  have "(2 :: nat) ^ e = nat \<bar>2 ^ e :: int\<bar>" by (simp add: nat_power_eq)
  moreover have abs: "\<bar>2 ^ e :: int\<bar> = 2 ^ e" by simp
  ultimately have m: "(if bn_int s < 0 then bn_int s + 2 ^ e else bn_int s) = bn_int a mod 2 ^ e"
    using mod_abs_eq [OF abs_int _ _ s(2), of "2 ^ e", unfolded abs] by simp
  show thesis
  proof (cases "BN_is_zero s \<or> \<not> bn_neg s")
    case True
    then have "0 \<le> bn_int s" by (auto simp: is_zero_iff bn_int_def)
    with True s(1) m show thesis by (intro that [of s]) (simp_all add: BN_nnmod_pow2_def and_then_Some)
  next
    case False
    let ?x = "bn_abs s"
    have neg: "bn_int s = - int ?x" "0 < ?x" using False by (auto simp: is_zero_iff bn_int_def)
    have "int ?x \<le> int (bn_abs a mod 2 ^ e)" using neg(1) s(2) by (simp add: sgn_if split: if_splits)
    moreover have "bn_abs a mod 2 ^ e < 2 ^ e" by simp
    ultimately have less: "?x < 2 ^ e" by linarith
    have e: "0 < e" using less neg(2) by (intro gr0I) simp
    obtain t where t: "bn_wexpand malloc ?n s = (Some (), t)" "bn_free malloc N t" by (rule wexpandE [OF s(4) n])
    note tv = bn_wexpand_Some [OF t(1) s(3)]
    let ?d = "bn_words t @ replicate (?n - bn_width t) 0"
    have d: "length ?d = ?n" "bn_val ?d = ?x" using tv(3,4) s(3,5) by (simp_all add: bn_val_append bn_abs_def bn_ok_def)
    have l: "length (map NOT ?d) = 1 + (e - 1) div 64" unfolding length_map by (rule d(1))
    obtain k where k: "2 ^ e * k = bn_base ^ ?n" "0 < k" by (rule power_of_limbs [OF e])
    let ?y = "mask_top e (map NOT ?d)"
    have y: "bn_val ?y = 2 ^ e - 1 - ?x"
      unfolding mask_top_val(1) [OF l e] val_map_not d by (rule twos_complement [OF neg(2) less k])
    have ly: "length ?y = ?n" unfolding mask_top_val(2) [OF l e] by (rule l)
    let ?r = "bn_set_minimal_width ((put_words ?y t)\<lparr>bn_neg := False\<rparr>)"
    have ok: "bn_ok ((put_words ?y t)\<lparr>bn_neg := False\<rparr>)" by simp
    note rv = set_minimal_width [OF ok]
    have ri: "bn_int ?r = int (2 ^ e - 1 - ?x)" unfolding rv(3) bn_int_set_neg bn_abs_put_words y if_False ..
    have "bn_width ((put_words ?y t)\<lparr>bn_neg := False\<rparr>) = ?n" using ly by simp
    then have "bn_width ?r \<le> ?n" using bn_minimal_width(1) [OF ok] unfolding bn_set_minimal_width_def Let_def by simp
    then have w: "max (bn_width ?r) (bn_width BN_value_one) + 1 \<le> N"
      using N unfolding BN_value_one_def by (intro order.trans [OF add_le_mono1 [OF max.boundedI]]) simp_all
    have one: "bn_normal BN_value_one" "bn_int BN_value_one = 1"
      by (simp_all add: BN_value_one_def bn_normal_iff bn_ok_def bn_abs_def bn_int_def)
    have "bn_free malloc N ?r" using t(2) by simp
    then obtain r' where r': "BN_add malloc ?r BN_value_one ?r = (Some (), r')" "bn_int r' = bn_int ?r + bn_int BN_value_one"
      using add_sub_returns [OF rv(4) one(1) w] by blast
    have "bn_int r' = bn_int s + 2 ^ e" using r'(2) less unfolding ri one(2) neg(1) by (simp add: of_nat_diff)
    with m neg have "bn_int r' = bn_int a mod 2 ^ e" by simp
    moreover have "BN_nnmod_pow2 malloc a e r = (Some (), r')"
      using False s(1) t(1) r'(1) by (simp add: BN_nnmod_pow2_def and_then_Some Let_def)
    ultimately show thesis by (intro that)
  qed
qed

end
