(* ===== verification/Bn_Recp.thy ===== *)
theory Bn_Recp
  imports Bn_Exp Bn_Div_Mod
begin

text \<open>
  Division by a fixed number with its reciprocal, and the exponentiation modulo any positive
  number that is built on it: the part of \<open>fipsmodule/bn/exponentiation.c\<close> for even moduli, and
  \<open>BN_mod_exp\<close>, which chooses.
\<close>

section \<open>The operations\<close>

subsection \<open>The reciprocal\<close>

text \<open>The struct without its \<open>flags\<close>, which are set to zero and never read.\<close>

record recp_ctx =
  rc_N :: bignum
  rc_Nr :: bignum
  rc_num_bits :: nat
  rc_shift :: int

definition BN_RECP_CTX_init :: recp_ctx where
  "BN_RECP_CTX_init = \<lparr>rc_N = BN_init, rc_Nr = BN_init, rc_num_bits = 0, rc_shift = 0\<rparr>"

definition BN_RECP_CTX_set :: "(nat \<Rightarrow> bool) \<Rightarrow> bignum \<Rightarrow> (recp_ctx, unit) oper" where
  "BN_RECP_CTX_set malloc d recp =
    (case BN_copy malloc d (rc_N recp) of
       (None, n) \<Rightarrow> (None, recp\<lparr>rc_N := n\<rparr>)
     | (Some _, n) \<Rightarrow> (Some (), recp\<lparr>rc_N := n, rc_Nr := BN_zero (rc_Nr recp), rc_num_bits := BN_num_bits d, rc_shift := 0\<rparr>))"

text \<open>\<open>t\<close> is the number from the context; the result is \<open>len\<close> or, after a failure, minus one.\<close>

definition BN_reciprocal :: "(nat \<Rightarrow> bool) \<Rightarrow> bignum \<Rightarrow> int \<Rightarrow> bignum option \<Rightarrow> div_ctx \<Rightarrow> bignum \<Rightarrow> int \<times> bignum" where
  "BN_reciprocal malloc m len t ctx r =
    (case t of
       None \<Rightarrow> (- 1, r)
     | Some t \<Rightarrow>
         (case BN_set_bit malloc len t of
            (None, _) \<Rightarrow> (- 1, r)
          | (Some _, t) \<Rightarrow>
              (case BN_div malloc t m False ctx (Some r, None) of
                 (Some _, Some r, _) \<Rightarrow> (len, r) | (None, Some r, _) \<Rightarrow> (- 1, r) | (_, None, _) \<Rightarrow> (- 1, r))))"

text \<open>The numbers that \<open>BN_div_recp\<close> and the functions it calls take from the context.\<close>

record recp_temps =
  rx_a :: "bignum option"
  rx_b :: "bignum option"
  rx_d :: "bignum option"
  rx_r :: "bignum option"
  rx_t :: "bignum option"
  rx_div :: div_ctx
  rx_mul1 :: "bignum option"
  rx_mul2 :: "bignum option"

text \<open>The reciprocal for the shift \<open>i\<close>, unless the context has it.\<close>

definition recp_at :: "(nat \<Rightarrow> bool) \<Rightarrow> nat \<Rightarrow> recp_temps \<Rightarrow> recp_ctx \<Rightarrow> recp_ctx" where
  "recp_at malloc i ctx recp = (if int i \<noteq> rc_shift recp then
     case BN_reciprocal malloc (rc_N recp) (int i) (rx_t ctx) (rx_div ctx) (rc_Nr recp) of
       (shift, nr) \<Rightarrow> recp\<lparr>rc_Nr := nr, rc_shift := shift\<rparr>
     else recp)"

text \<open>The loop that corrects the quotient; it gives up at the fourth correction.\<close>

function recp_correct :: "(nat \<Rightarrow> bool) \<Rightarrow> bignum \<Rightarrow> nat \<Rightarrow> bignum \<Rightarrow> bignum \<Rightarrow> (bignum \<times> bignum) option" where
  "recp_correct malloc N j d r =
    (if 0 \<le> sint (BN_ucmp r N) then
       if j > 2 then None
       else case BN_usub malloc r N r of
         (None, _) \<Rightarrow> None
       | (Some _, r) \<Rightarrow> (case BN_add_word malloc 1 d of (None, _) \<Rightarrow> None | (Some _, d) \<Rightarrow> recp_correct malloc N (j + 1) d r)
     else Some (d, r))"
  by pat_completeness auto
termination by (relation "measure (\<lambda>(_, _, j, _). 3 - j)") auto

declare recp_correct.simps [simp del]

text \<open>
  The quotient and the remainder, \<open>None\<close> when a call fails: what the destinations then hold is not
  modelled.  \<open>dv\<close> and \<open>rem\<close> are the destinations of the caller.
\<close>

definition BN_div_recp :: "(nat \<Rightarrow> bool) \<Rightarrow> bignum option \<Rightarrow> bignum option \<Rightarrow> bignum \<Rightarrow> recp_temps \<Rightarrow>
    (recp_ctx, bignum \<times> bignum) oper" where
  "BN_div_recp malloc dv rem m ctx recp =
    (case (rx_a ctx, rx_b ctx, if dv = None then rx_d ctx else dv, if rem = None then rx_r ctx else rem) of
       (Some a, Some b, Some d, Some r) \<Rightarrow>
         if sint (BN_ucmp m (rc_N recp)) < 0 then
           (case BN_copy malloc m r of (None, _) \<Rightarrow> (None, recp) | (Some _, r) \<Rightarrow> (Some (BN_zero d, r), recp))
         else let i = BN_num_bits m; j = rc_num_bits recp * 2; i = (if j > i then j else i);
             recp = recp_at malloc i ctx recp
         in if rc_shift recp = - 1 then (None, recp)
         else case BN_rshift malloc m (int (rc_num_bits recp)) a of (None, _) \<Rightarrow> (None, recp) | (Some _, a) \<Rightarrow>
           (case BN_mul malloc a (rc_Nr recp) False None (rx_mul1 ctx) b of (None, _) \<Rightarrow> (None, recp) | (Some _, b) \<Rightarrow>
             (case BN_rshift malloc b (int i - int (rc_num_bits recp)) d of (None, _) \<Rightarrow> (None, recp) | (Some _, d) \<Rightarrow>
               let d = d\<lparr>bn_neg := False\<rparr>
               in case BN_mul malloc (rc_N recp) d False None (rx_mul2 ctx) b of (None, _) \<Rightarrow> (None, recp) | (Some _, b) \<Rightarrow>
                 (case BN_usub malloc m b r of (None, _) \<Rightarrow> (None, recp) | (Some _, r) \<Rightarrow>
                   (case recp_correct malloc (rc_N recp) 0 d (r\<lparr>bn_neg := False\<rparr>) of
                      None \<Rightarrow> (None, recp)
                    | Some (d, r) \<Rightarrow>
                        (Some (d\<lparr>bn_neg := (bn_neg m \<noteq> bn_neg (rc_N recp))\<rparr>,
                               r\<lparr>bn_neg := (if BN_is_zero r then False else bn_neg m)\<rparr>), recp)))))
     | _ \<Rightarrow> (None, recp))"

subsection \<open>Exponentiation\<close>

text \<open>\<open>same\<close> tells that \<open>x\<close> and \<open>y\<close> are one object; without \<open>y\<close> only the remainder is taken.\<close>

definition BN_mod_mul_reciprocal :: "(nat \<Rightarrow> bool) \<Rightarrow> bignum \<Rightarrow> bignum option \<Rightarrow> bool \<Rightarrow> bignum option \<Rightarrow> bignum option \<Rightarrow>
    recp_temps \<Rightarrow> bignum \<Rightarrow> (recp_ctx, bignum) oper" where
  "BN_mod_mul_reciprocal malloc x y same a tmp ctx r recp =
    (case a of
       None \<Rightarrow> (None, recp)
     | Some a \<Rightarrow>
         (case (case y of
                  Some y \<Rightarrow>
                    (case (if same then BN_sqr malloc x False None tmp a else BN_mul malloc x y False None tmp a) of
                       (None, _) \<Rightarrow> None | (Some _, a) \<Rightarrow> Some a)
                | None \<Rightarrow> Some x) of
            None \<Rightarrow> (None, recp)
          | Some ca \<Rightarrow>
              (case BN_div_recp malloc None (Some r) ca ctx recp of
                 (None, recp) \<Rightarrow> (None, recp) | (Some (_, r), recp) \<Rightarrow> (Some r, recp))))"

text \<open>
  The numbers from the context, where the multiplication with the number \<open>k\<close> gets \<open>rm_mul k\<close>.
  The destination is neither the exponent nor the modulus.
\<close>

record recp_exp_ctx =
  rm_aa :: "bignum option"
  rm_val :: "nat \<Rightarrow> bignum option"
  rm_div :: div_ctx
  rm_mul :: "nat \<Rightarrow> bignum option \<times> bignum option \<times> recp_temps"

definition recp_mult :: "(nat \<Rightarrow> bool) \<Rightarrow> (nat \<Rightarrow> bignum option \<times> bignum option \<times> recp_temps) \<Rightarrow>
    (recp_ctx \<times> nat, bignum) mult" where
  "recp_mult malloc ctx d x y same = (\<lambda>(recp, k).
    case ctx k of (a, tmp, temps) \<Rightarrow>
      case BN_mod_mul_reciprocal malloc x (Some y) same a tmp temps d recp of (z, recp) \<Rightarrow> (z, recp, Suc k))"

definition mod_exp_recp :: "(nat \<Rightarrow> bool) \<Rightarrow> recp_exp_ctx \<Rightarrow> bignum \<Rightarrow> bignum \<Rightarrow> bignum \<Rightarrow> unit bn_oper" where
  "mod_exp_recp malloc ctx a p m r =
    (let bits = BN_num_bits p
     in if bits = 0 then BN_one malloc r
     else case (rm_aa ctx, rm_val ctx 0) of
       (Some aa, Some val0) \<Rightarrow>
         (case (if bn_neg m then
                  (case BN_copy malloc m aa of
                     (None, _) \<Rightarrow> None
                   | (Some _, aa) \<Rightarrow> Some (aa\<lparr>bn_neg := False\<rparr>, BN_RECP_CTX_set malloc (aa\<lparr>bn_neg := False\<rparr>) BN_RECP_CTX_init))
                else Some (aa, BN_RECP_CTX_set malloc m BN_RECP_CTX_init)) of
            Some (aa, (Some _, recp)) \<Rightarrow>
              (case BN_nnmod malloc a m (rm_div ctx) val0 of
                 (None, _) \<Rightarrow> (None, r)
               | (Some _, val0) \<Rightarrow>
                   if BN_is_zero val0 then (Some (), BN_zero r)
                   else let window = BN_window_bits_for_exponent_size bits; mul = recp_mult malloc (rm_mul ctx)
                   in case power_table mul window (Some aa) (rm_val ctx) val0 (recp, 0) of
                     (None, _) \<Rightarrow> (None, r)
                   | (Some val, s) \<Rightarrow>
                       (case BN_one malloc r of
                          (None, r) \<Rightarrow> (None, r)
                        | (Some _, r1) \<Rightarrow>
                            (case slide mul (\<lambda>r x. mul r r x False) (\<lambda>i. BN_is_bit_set p (int i)) window val True (bits - 1) r1 s of
                               (None, _) \<Rightarrow> (None, r) | (Some (_, r), _) \<Rightarrow> (Some (), r))))
          | _ \<Rightarrow> (None, r))
     | _ \<Rightarrow> (None, r))"

text \<open>Any modulus that is not negative; a base that is not reduced is reduced into \<open>r\<close> first.\<close>

definition BN_mod_exp :: "(nat \<Rightarrow> bool) \<Rightarrow> div_ctx \<Rightarrow> exp_ctx \<Rightarrow> recp_exp_ctx \<Rightarrow> bignum \<Rightarrow> bignum \<Rightarrow> bignum \<Rightarrow> unit bn_oper" where
  "BN_mod_exp malloc dctx mctx rctx a p m r =
    (if bn_neg m then (None, r)
     else case (if bn_neg a \<or> 0 \<le> sint (BN_ucmp a m) then
                  (case BN_nnmod malloc a m dctx r of (None, r) \<Rightarrow> (None, r) | (Some _, r) \<Rightarrow> (Some r, r))
                else (Some a, r)) of
       (None, r) \<Rightarrow> (None, r)
     | (Some a, r) \<Rightarrow>
         if BN_is_odd m then BN_mod_exp_mont malloc mctx a p m None r else mod_exp_recp malloc rctx a p m r)"

section \<open>The guess and its corrections\<close>

lemma div_times:
  fixes x :: nat
  assumes "0 < k"
  shows "k * (x div k) \<le> x" and "x < k * (x div k) + k"
  using dividend_less_times_div [OF assms, of x] by (simp_all add: add.commute)

text \<open>The guess is never above the quotient, and below it by at most three.\<close>

lemma barrett:
  fixes m N n i :: nat
  assumes N: "0 < N" "N < 2 ^ n" "2 ^ n \<le> 2 * N" and m: "m < 2 ^ i" and n: "n \<le> i"
  defines "d \<equiv> (m div 2 ^ n) * (2 ^ i div N) div 2 ^ (i - n)"
  shows "d * N \<le> m" and "m < d * N + 4 * N"
proof -
  define B E a R where "B = (2 :: nat) ^ n" and "E = (2 :: nat) ^ (i - n)" and "a = m div B" and "R = 2 ^ i div N"
  have M: "2 ^ i = B * E" unfolding B_def E_def using n by (simp flip: power_add)
  have pos: "0 < B" "0 < E" by (simp_all add: B_def E_def)
  have a: "B * a \<le> m" "m < B * a + B" using div_times [OF pos(1), of m] by (simp_all add: a_def)
  have R: "N * R \<le> B * E" "B * E < N * R + N" using div_times [OF N(1), of "B * E"] by (simp_all add: R_def M)
  have d: "E * d \<le> a * R" "a * R < E * d + E"
    using div_times [OF pos(2), of "a * R"] by (simp_all add: d_def a_def R_def B_def E_def)
  have "(B * E) * (d * N) = (B * N) * (E * d)" by simp
  also have "\<dots> \<le> (B * N) * (a * R)" using d(1) by (rule mult_le_mono2)
  also have "\<dots> = (B * a) * (N * R)" by simp
  also have "\<dots> \<le> m * (B * E)" using a(1) R(1) by (rule mult_le_mono)
  finally have "(B * E) * (d * N) \<le> (B * E) * m" by (simp only: mult.commute)
  with pos show "d * N \<le> m" by simp
  have "m * (B * E) \<le> m * (N * R + N)" using R(2) by (intro mult_le_mono2) simp
  also have "\<dots> = m * (N * R) + m * N" by (simp only: distrib_left)
  also have "m * (N * R) \<le> (B * a + B) * (N * R)" using a(2) by (intro mult_le_mono1) simp
  also have "(B * a + B) * (N * R) = (B * N) * (a * R) + B * (N * R)" by (simp add: algebra_simps)
  also have "(B * N) * (a * R) < (B * N) * (E * d + E)" using d(2) pos N(1) by simp
  also have "B * (N * R) \<le> B * (B * E)" using R(1) by (rule mult_le_mono2)
  also have "B * (B * E) \<le> (2 * N) * (B * E)" using N(3) by (intro mult_le_mono1) (simp add: B_def)
  also have "m * N \<le> (B * E) * N" using m by (intro mult_le_mono1) (simp add: M)
  finally have "m * (B * E) < (B * N) * (E * d + E) + 2 * N * (B * E) + B * E * N" by simp
  also have "\<dots> = (d * N + 4 * N) * (B * E)" by (simp add: algebra_simps)
  finally show "m < d * N + 4 * N" by simp
qed

text \<open>The operations of the loop succeed and keep the room.\<close>

lemma keeps_set_word: "keeps_static (BN_set_word malloc w)"
  unfolding keeps_static_def BN_set_word_def by (auto simp: and_then_def BN_zero_def bn_wexpand_def)

lemma keeps_add_word:
  assumes "BN_add_word malloc w a = (x, r)" and "\<not> bn_neg a" and "bn_free malloc N a"
  shows "bn_free malloc N r"
  using assms keeps_set_word [of malloc w]
  by (auto simp: BN_add_word.simps [of malloc w a] bn_free_def keeps_static_def and_then_def bn_wexpand_def
      split: if_splits prod.splits)

lemma free_room: "bn_free malloc N r \<Longrightarrow> n \<le> N \<Longrightarrow> bn_room malloc n r"
  by (simp add: bn_room_def wexpand_free)

lemma usub_returns:
  assumes "bn_ok a" and "bn_ok b" and "bn_abs b \<le> bn_abs a" and "bn_width a \<le> N" and r: "bn_free malloc N r"
  obtains r' where "BN_usub malloc a b r = (Some (), r')" and "bn_normal r'" and "bn_abs r' = bn_abs a - bn_abs b"
    and "\<not> bn_neg r'" and "bn_free malloc N r'"
proof -
  obtain x r' where run: "BN_usub malloc a b r = (x, r')" by (rule prod.exhaust)
  note v = BN_usub_val [OF assms(1,2) run]
  have "x = Some ()" using v(1) assms(3,4) free_room [OF r] by simp
  with run v(2) keeps_free [OF keeps_usub run r] that show thesis by blast
qed

lemma add_word_returns:
  assumes d: "bn_normal d" "\<not> bn_neg d" and w: "bn_width d + 1 \<le> N" and free: "bn_free malloc N d"
  obtains d' where "BN_add_word malloc w d = (Some (), d')" and "bn_normal d'" and "bn_abs d' = bn_abs d + unat w"
    and "\<not> bn_neg d'" and "bn_free malloc N d'"
proof -
  obtain x d' where run: "BN_add_word malloc w d = (x, d')" by (rule prod.exhaust)
  note v = BN_add_word_val [OF d(1) run]
  have x: "x = Some ()" using v(2) w free_room [OF free] by (cases x) auto
  then have n: "bn_normal d'" "bn_int d' = int (bn_abs d + unat w)" using v(1) d(2) by (simp_all add: bn_int_def)
  have a: "bn_abs d' = bn_abs d + unat w" by (rule bn_int_eq_int [OF n(2)])
  have "\<not> bn_neg d'"
  proof
    assume neg: "bn_neg d'"
    then have "int (bn_abs d' + (bn_abs d + unat w)) = 0" using n(2) unfolding bn_int_def of_nat_add by simp
    then have "bn_abs d' = 0" unfolding of_nat_eq_0_iff add_is_0 by (rule conjunct1)
    with bn_normal_nonneg [OF n(1)] neg show False by simp
  qed
  with run x n(1) a keeps_add_word [OF run d(2) free] that show thesis by simp
qed

lemma recp_correct_returns:
  assumes N: "bn_ok N" "bn_abs N \<noteq> 0" and K: "W + 1 \<le> K"
  shows "bn_normal d \<Longrightarrow> \<not> bn_neg d \<Longrightarrow> bn_free malloc K d \<Longrightarrow> bn_normal r \<Longrightarrow> \<not> bn_neg r \<Longrightarrow> bn_free malloc K r \<Longrightarrow>
    bn_abs d * bn_abs N + bn_abs r < bn_base ^ W \<Longrightarrow> j \<le> 3 \<Longrightarrow> bn_abs r < (4 - j) * bn_abs N \<Longrightarrow>
    \<exists>d' r'. recp_correct malloc N j d r = Some (d', r') \<and> bn_abs d' * bn_abs N + bn_abs r' = bn_abs d * bn_abs N + bn_abs r \<and>
      bn_abs r' < bn_abs N \<and> bn_normal d' \<and> \<not> bn_neg d' \<and> bn_free malloc K d' \<and> bn_normal r' \<and> \<not> bn_neg r' \<and> bn_free malloc K r'"
proof (induction "3 - j" arbitrary: j d r rule: less_induct)
  case less
  note p = less.prems
  show ?case
  proof (cases "bn_abs N \<le> bn_abs r")
    case False
    then have "\<not> 0 \<le> sint (BN_ucmp r N)" using ucmp_less_iff [of r N] by simp
    then have "recp_correct malloc N j d r = Some (d, r)" by (simp add: recp_correct.simps [of malloc N j])
    with False p show ?thesis by simp
  next
    case True
    then have ge: "0 \<le> sint (BN_ucmp r N)" using ucmp_less_iff [of r N] by simp
    have j: "\<not> j > 2"
    proof
      assume "j > 2"
      with p(8) have "j = 3" by simp
      with p(9) True show False by simp
    qed
    have "bn_abs d \<le> bn_abs d * bn_abs N" using N(2) by simp
    then have "bn_abs r < bn_base ^ W" "bn_abs d < bn_base ^ W" using p(7) by linarith+
    then have "bn_width r \<le> W" "bn_width d \<le> W" using normal_width [OF p(4)] normal_width [OF p(1)] by blast+
    then have w: "bn_width r \<le> K" "bn_width d + 1 \<le> K" using K by simp_all
    obtain r1 where r1: "BN_usub malloc r N r = (Some (), r1)" "bn_normal r1" "bn_abs r1 = bn_abs r - bn_abs N" "\<not> bn_neg r1" "bn_free malloc K r1"
      by (rule usub_returns [OF bn_normal_ok [OF p(4)] N(1) True w(1) p(6)])
    obtain d1 where d1: "BN_add_word malloc 1 d = (Some (), d1)" "bn_normal d1" "bn_abs d1 = bn_abs d + unat (1 :: u64)" "\<not> bn_neg d1" "bn_free malloc K d1"
      by (rule add_word_returns [OF p(1,2) w(2) p(3)])
    have step: "recp_correct malloc N j d r = recp_correct malloc N (j + 1) d1 r1"
      using ge j r1(1) d1(1) by (simp add: recp_correct.simps [of malloc N j])
    have sum: "bn_abs d1 * bn_abs N + bn_abs r1 = bn_abs d * bn_abs N + bn_abs r" using d1(3) r1(3) True by simp
    have "4 - j = Suc (4 - (j + 1))" using j by simp
    then have "bn_abs r < (4 - (j + 1)) * bn_abs N + bn_abs N" using p(9) by simp
    then have less: "bn_abs r1 < (4 - (j + 1)) * bn_abs N" using r1(3) True by linarith
    have j': "3 - (j + 1) < 3 - j" "j + 1 \<le> 3" using j by simp_all
    show ?thesis
      using less.hyps [OF j'(1) d1(2,4,5) r1(2,4,5) _ j'(2) less] p(7) unfolding step sum by simp
  qed
qed

section \<open>Division by the reciprocal\<close>

lemma rshift_returns:
  assumes "bn_width a \<le> K" and "bn_free malloc K r"
  obtains r' where "BN_rshift malloc a (int n) r = (Some (), r')" and "bn_abs r' = bn_abs a div 2 ^ n" and "bn_normal r'"
    and "bn_free malloc K r'"
proof -
  have "bn_total malloc K (BN_rshift malloc a (int n))" by (rule rshift_total [OF _ assms(1)]) simp
  then obtain r' where r': "BN_rshift malloc a (int n) r = (Some (), r')" "bn_free malloc K r'" using assms(2) by (rule bn_totalD)
  note v = BN_rshift_val [OF r'(1), unfolded nat_int]
  have "\<bar>bn_int r'\<bar> = \<bar>bn_int a\<bar> div 2 ^ n" using v(2) by (auto simp: abs_mult sgn_if pos_imp_zdiv_nonneg_iff)
  then have "int (bn_abs r') = int (bn_abs a div 2 ^ n)" by (simp add: bn_int_def zdiv_int split: if_splits)
  then have "bn_abs r' = bn_abs a div 2 ^ n" by (simp only: of_nat_eq_iff)
  with r' v(3) that show thesis by blast
qed

lemma copy_returns:
  assumes a: "bn_normal a" "bn_width a \<le> K" and r: "bn_free malloc K r"
  obtains r' where "BN_copy malloc a r = (Some (), r')" and "bn_normal r'" and "bn_int r' = bn_int a" and "bn_abs r' = bn_abs a"
    and "bn_neg r' = bn_neg a" and "bn_width r' = bn_width a" and "bn_free malloc K r'"
proof -
  obtain r' where r': "BN_copy malloc a r = (Some (), r')" "bn_free malloc K r'"
    by (rule bn_totalD [OF total_copy [OF a(2)] r])
  note v = BN_copy_val [OF r'(1) bn_normal_ok [OF a(1)]]
  have "bn_normal r'" using a(1) v by (simp add: bn_normal_iff)
  with r' v that show thesis by blast
qed

lemma power_bits:
  assumes t: "bn_temp malloc K t" "bn_width t = 0" and i: "i div 64 + 1 \<le> K"
  obtains t' where "BN_set_bit malloc (int i) t = (Some (), t')" and "bn_abs t' = 2 ^ i" and "bn_ok t'" and "bn_width t' = i div 64 + 1"
    and "bn_neg t' = bn_neg t"
proof -
  have total: "bn_total malloc K (BN_set_bit malloc (int i))" by (rule total_set_bit) (use i in simp_all)
  obtain t' where t': "BN_set_bit malloc (int i) t = (Some (), t')"
    using bn_totalD [OF total] t(1) unfolding bn_temp_def by blast
  have ok: "bn_ok t" using t(1) by (simp add: bn_temp_def)
  note v = BN_set_bit_val [OF t' ok, unfolded nat_int]
  have "bn_abs t = 0" using t(2) by (simp add: bn_abs_def)
  then have "bn_abs t' = 2 ^ i" using v(2) by (simp add: set_bit_eq_or push_bit_eq_mult)
  moreover have "bn_width t' = i div 64 + 1"
    using t' t(2) by (auto simp: BN_set_bit_def and_then_def Let_def dest: bn_wexpand_Some(4) [OF _ ok]
      split: option.splits prod.splits if_splits)
  ultimately show thesis using that t' v(3,4) by blast
qed

lemma reciprocal_returns:
  assumes m: "bn_ok m" "bn_abs m \<noteq> 0" and t: "bn_temp malloc K t" "bn_width t = 0" and K: "i div 64 + bn_width m + 9 \<le> K"
    and ctx: "div_ctx_ok malloc K ctx" and r: "bn_temp malloc K r"
  obtains r' where "BN_reciprocal malloc m (int i) (Some t) ctx r = (int i, r')" and "bn_normal r'"
    and "bn_abs r' = 2 ^ i div bn_abs m" and "bn_free malloc K r'"
proof -
  have i: "i div 64 + 1 \<le> K" using K by simp
  obtain t' where t': "BN_set_bit malloc (int i) t = (Some (), t')" "bn_abs t' = 2 ^ i" "bn_ok t'" "bn_width t' = i div 64 + 1"
    by (rule power_bits [OF t i])
  have w: "bn_width t' + bn_width m + 8 \<le> K" using K t'(4) by simp
  obtain quo rem where run: "BN_div malloc t' m False ctx (Some r, None) = (Some (), quo, rem)"
    and out: "out_is malloc K (Some r) quo (sgn (bn_int t') * sgn (bn_int m) * int (bn_abs t' div bn_abs m))"
    by (rule BN_div_returns [OF t'(3) m(1,2) w ctx, of "Some r" None False]) (use r in simp_all)
  from out obtain q where q: "quo = Some q" "bn_normal q" "bn_free malloc K q"
    "bn_int q = sgn (bn_int t') * sgn (bn_int m) * int (bn_abs t' div bn_abs m)"
    by (auto simp: out_is_def)
  have "bn_int t' \<noteq> 0" "bn_int m \<noteq> 0" using t'(2) m(2) by (simp_all add: bn_int_def)
  then have "\<bar>bn_int q\<bar> = int (bn_abs t' div bn_abs m)" unfolding q(4) by (simp add: abs_mult)
  then have "bn_abs q = 2 ^ i div bn_abs m" unfolding abs_int [of q] t'(2) [symmetric] by (simp only: nat_int)
  with q run t'(1) show thesis by (intro that [of q]) (simp_all add: BN_reciprocal_def)
qed

text \<open>A context with a divisor, and a reciprocal unless the shift is still zero.\<close>

definition recp_ok :: "(nat \<Rightarrow> bool) \<Rightarrow> nat \<Rightarrow> recp_ctx \<Rightarrow> bool" where
  "recp_ok malloc K recp \<longleftrightarrow> bn_ok (rc_N recp) \<and> bn_abs (rc_N recp) \<noteq> 0 \<and> rc_num_bits recp = BN_num_bits (rc_N recp) \<and>
    bn_temp malloc K (rc_Nr recp) \<and>
    (rc_shift recp = 0 \<or> 0 < rc_shift recp \<and> bn_normal (rc_Nr recp) \<and>
       bn_abs (rc_Nr recp) = 2 ^ nat (rc_shift recp) div bn_abs (rc_N recp))"

text \<open>The context zeroes the number that it gives to \<open>BN_reciprocal\<close>.\<close>

definition recp_temps_ok :: "(nat \<Rightarrow> bool) \<Rightarrow> nat \<Rightarrow> recp_temps \<Rightarrow> bool" where
  "recp_temps_ok malloc K ctx \<longleftrightarrow>
    (\<forall>x \<in> {rx_a ctx, rx_b ctx, rx_d ctx, rx_r ctx, rx_mul1 ctx, rx_mul2 ctx}. \<exists>y. x = Some y \<and> bn_temp malloc K y) \<and>
    (\<exists>t. rx_t ctx = Some t \<and> bn_temp malloc K t \<and> bn_width t = 0) \<and> div_ctx_ok malloc K (rx_div ctx)"

lemma recp_at_ok:
  assumes recp: "recp_ok malloc K recp" and ctx: "recp_temps_ok malloc K ctx" and i: "0 < i"
    and K: "i div 64 + bn_width (rc_N recp) + 9 \<le> K"
  defines "recp' \<equiv> recp_at malloc i ctx recp"
  shows "recp_ok malloc K recp'" and "rc_N recp' = rc_N recp" and "rc_num_bits recp' = rc_num_bits recp"
    and "rc_shift recp' = int i" and "bn_normal (rc_Nr recp')" and "bn_abs (rc_Nr recp') = 2 ^ i div bn_abs (rc_N recp)"
proof -
  obtain t where t: "rx_t ctx = Some t" "bn_temp malloc K t" "bn_width t = 0" and div: "div_ctx_ok malloc K (rx_div ctx)"
    using ctx by (auto simp: recp_temps_ok_def)
  have N: "bn_ok (rc_N recp)" "bn_abs (rc_N recp) \<noteq> 0" and Nr: "bn_temp malloc K (rc_Nr recp)"
    using recp by (simp_all add: recp_ok_def)
  obtain r' where r': "BN_reciprocal malloc (rc_N recp) (int i) (Some t) (rx_div ctx) (rc_Nr recp) = (int i, r')"
    "bn_normal r'" "bn_abs r' = 2 ^ i div bn_abs (rc_N recp)" "bn_free malloc K r'"
    by (rule reciprocal_returns [OF N t(2,3) K div Nr])
  have temp: "bn_temp malloc K r'" using r'(2,4) by (simp add: bn_temp_def bn_normal_ok)
  have e: "recp' = (if int i \<noteq> rc_shift recp then recp\<lparr>rc_Nr := r', rc_shift := int i\<rparr> else recp)"
    using r'(1) t(1) by (simp add: recp'_def recp_at_def)
  show "rc_N recp' = rc_N recp" "rc_num_bits recp' = rc_num_bits recp" "rc_shift recp' = int i" by (simp_all add: e)
  have shift: "int i = rc_shift recp \<Longrightarrow> nat (rc_shift recp) = i" by linarith
  show "bn_normal (rc_Nr recp')" "bn_abs (rc_Nr recp') = 2 ^ i div bn_abs (rc_N recp)"
    using recp r'(2,3) i shift by (auto simp: e recp_ok_def)
  then show "recp_ok malloc K recp'" using recp temp i shift by (simp add: e recp_ok_def)
qed

lemma normal_small: "bn_normal x \<Longrightarrow> bn_width x \<le> K \<Longrightarrow> bn_free malloc K r \<Longrightarrow> bn_small x"
  by (simp add: bn_small_def bn_normal_ok bn_free_def)

text \<open>The guess from the reciprocal, and the remainder that goes with it.\<close>

lemma recp_guess:
  assumes N: "bn_ok N" "bn_abs N \<noteq> 0" and Nr: "bn_normal Nr" "bn_abs Nr = 2 ^ i div bn_abs N"
    and m: "bn_normal m" "bn_abs m < 2 ^ i" and i: "n \<le> i" "i \<le> 64 * (bn_width m + 2 * bn_width N)"
    and n: "bn_abs N < 2 ^ n" "2 ^ n \<le> 2 * bn_abs N" and K: "16 * (bn_width m + bn_width N) + 24 \<le> K"
    and temps: "bn_temp malloc K a" "bn_temp malloc K b" "bn_temp malloc K d" "bn_temp malloc K r"
    and mul: "bn_temp malloc K t1" "bn_temp malloc K t2"
  obtains a' b' d' b'' r' where "BN_rshift malloc m (int n) a = (Some (), a')"
    and "BN_mul malloc a' Nr False None (Some t1) b = (Some (), b')"
    and "BN_rshift malloc b' (int i - int n) d = (Some (), d')"
    and "BN_mul malloc N (d'\<lparr>bn_neg := False\<rparr>) False None (Some t2) b' = (Some (), b'')"
    and "BN_usub malloc m b'' r = (Some (), r')"
    and "bn_abs d' * bn_abs N + bn_abs r' = bn_abs m" and "bn_abs r' < 4 * bn_abs N"
    and "bn_normal d'" and "bn_free malloc K d'" and "bn_normal r'" and "\<not> bn_neg r'" and "bn_free malloc K r'"
proof -
  have free: "bn_free malloc K a" "bn_free malloc K d" "bn_free malloc K r" using temps by (simp_all add: bn_temp_def)
  have wm: "bn_width m \<le> K" "bn_width N \<le> K" using K by simp_all
  obtain a' where a': "BN_rshift malloc m (int n) a = (Some (), a')" "bn_abs a' = bn_abs m div 2 ^ n" "bn_normal a'" "bn_free malloc K a'"
    by (rule rshift_returns [OF wm(1) free(1)])
  have "bn_abs a' \<le> bn_abs m" unfolding a'(2) by simp
  then have wa: "bn_width a' \<le> bn_width m" using bn_abs_less [of m] by (intro normal_width [OF a'(3)]) linarith
  have "bn_abs Nr \<le> 2 ^ i" unfolding Nr(2) by simp
  also have "(2 :: nat) ^ i \<le> 2 ^ (64 * (bn_width m + 2 * bn_width N))" using i(2) by (intro power_increasing) simp_all
  also have "\<dots> < bn_base ^ (bn_width m + 2 * bn_width N + 1)"
  proof -
    have "bn_base ^ (bn_width m + 2 * bn_width N + 1) = 2 ^ (64 * (bn_width m + 2 * bn_width N + 1))"
      by (simp only: bn_base_def power_mult)
    then show ?thesis by simp
  qed
  finally have wNr: "bn_width Nr \<le> bn_width m + 2 * bn_width N + 1" by (rule normal_width [OF Nr(1)])
  have small: "bn_small a'" "bn_small Nr" using wa wNr K by (auto intro!: normal_small [OF a'(3) _ free(1)] normal_small [OF Nr(1) _ free(1)])
  have K1: "8 * (bn_width a' + bn_width Nr) + 16 \<le> K" using wa wNr K by simp
  obtain b' where b': "BN_mul malloc a' Nr False None (Some t1) b = (Some (), b')" "bn_int b' = bn_int a' * bn_int Nr" "bn_normal b'"
    "bn_free malloc K b'" "bn_width b' \<le> bn_width a' + bn_width Nr"
    using product_returns [OF small K1 temps(1) mul(1) temps(2), of False] mul_unaliased [where x = a] by metis
  have wb: "bn_width b' \<le> K" using b'(5) K1 by simp
  have bi: "int i - int n = int (i - n)" using i(1) by simp
  obtain d' where d': "BN_rshift malloc b' (int (i - n)) d = (Some (), d')" "bn_abs d' = bn_abs b' div 2 ^ (i - n)" "bn_normal d'" "bn_free malloc K d'"
    by (rule rshift_returns [OF wb free(2)])
  have "bn_abs d' = (bn_abs m div 2 ^ n) * (2 ^ i div bn_abs N) div 2 ^ (i - n)"
    unfolding d'(2) abs_product [OF b'(2)] a'(2) Nr(2) ..
  then have guess: "bn_abs d' * bn_abs N \<le> bn_abs m" "bn_abs m < bn_abs d' * bn_abs N + 4 * bn_abs N"
    using barrett [of "bn_abs N" n "bn_abs m" i] N(2) n m(2) i(1) by simp_all
  let ?d = "d'\<lparr>bn_neg := False\<rparr>"
  have d: "bn_normal ?d" using d'(3) by (simp add: bn_normal_set_neg)
  have "bn_abs d' * 1 \<le> bn_abs d' * bn_abs N" using N(2) by (intro mult_le_mono2) simp
  then have "bn_abs d' < bn_base ^ bn_width m" using guess(1) bn_abs_less [of m] by linarith
  then have "bn_abs ?d < bn_base ^ bn_width m" by simp
  then have wd: "bn_width ?d \<le> bn_width m" by (rule normal_width [OF d])
  have small2: "bn_small N" "bn_small ?d"
    using N(1) wm(2) free(1) normal_small [OF d _ free(1)] wd wm(1) by (simp_all add: bn_small_def bn_free_def)
  have K2: "8 * (bn_width N + bn_width ?d) + 16 \<le> K" using wd K by simp
  have tb: "bn_temp malloc K b'" using b'(3,4) by (simp add: bn_temp_def bn_normal_ok)
  obtain b'' where b'': "BN_mul malloc N ?d False None (Some t2) b' = (Some (), b'')" "bn_int b'' = bn_int N * bn_int ?d" "bn_normal b''"
    using product_returns [OF small2 K2 temps(1) mul(2) tb, of False] mul_unaliased [where x = a] by metis
  have ab: "bn_abs b'' = bn_abs d' * bn_abs N" using abs_product [OF b''(2)] by simp
  have le: "bn_abs b'' \<le> bn_abs m" using guess(1) ab by simp
  obtain r' where r': "BN_usub malloc m b'' r = (Some (), r')" "bn_normal r'" "bn_abs r' = bn_abs m - bn_abs b''" "\<not> bn_neg r'" "bn_free malloc K r'"
    by (rule usub_returns [OF bn_normal_ok [OF m(1)] bn_normal_ok [OF b''(3)] le wm(1) free(3)])
  have "bn_abs d' * bn_abs N + bn_abs r' = bn_abs m" "bn_abs r' < 4 * bn_abs N" using r'(3) ab guess by simp_all
  then show thesis
    using that [OF a'(1) b'(1) _ b''(1) r'(1)] d'(1,3,4) r'(2,4,5) unfolding bi by blast
qed

lemma num_bits_bounds:
  assumes "bn_ok x" and "bn_abs x \<noteq> 0"
  shows "0 < BN_num_bits x" and "bn_abs x < 2 ^ BN_num_bits x" and "2 ^ BN_num_bits x \<le> 2 * bn_abs x"
    and "BN_num_bits x \<le> 64 * bn_width x"
proof -
  note v = BN_num_bits_val [OF assms(1)]
  show pos: "0 < BN_num_bits x" and "bn_abs x < 2 ^ BN_num_bits x" using v assms(2) by simp_all
  have "(2 :: nat) ^ BN_num_bits x = 2 * 2 ^ (BN_num_bits x - 1)" using pos by (simp flip: power_Suc)
  then show "2 ^ BN_num_bits x \<le> 2 * bn_abs x" using v(2) assms(2) by simp
  have "2 ^ (BN_num_bits x - 1) < (2 :: nat) ^ (64 * bn_width x)"
    using v(2) assms(2) bn_abs_less [of x] unfolding bn_base_def power_mult by linarith
  then have "BN_num_bits x - 1 < 64 * bn_width x" by simp
  then show "BN_num_bits x \<le> 64 * bn_width x" by linarith
qed

lemma sgn_int_eq: "sgn (bn_int x) * int k = (if bn_abs x = 0 then 0 else if bn_neg x then - int k else int k)"
  by (simp add: bn_int_def)

text \<open>The guess with its corrections is the quotient.\<close>

lemma recp_quotient:
  assumes N: "bn_ok N" "bn_abs N \<noteq> 0" and Nr: "bn_normal Nr" "bn_abs Nr = 2 ^ i div bn_abs N"
    and m: "bn_normal m" "bn_abs m < 2 ^ i" and i: "n \<le> i" "i \<le> 64 * (bn_width m + 2 * bn_width N)"
    and n: "bn_abs N < 2 ^ n" "2 ^ n \<le> 2 * bn_abs N" and K: "16 * (bn_width m + bn_width N) + 24 \<le> K"
    and temps: "bn_temp malloc K a" "bn_temp malloc K b" "bn_temp malloc K d" "bn_temp malloc K r"
    and mul: "bn_temp malloc K t1" "bn_temp malloc K t2"
  obtains a' b' d' b'' r' d1 r1 where "BN_rshift malloc m (int n) a = (Some (), a')"
    and "BN_mul malloc a' Nr False None (Some t1) b = (Some (), b')"
    and "BN_rshift malloc b' (int i - int n) d = (Some (), d')"
    and "BN_mul malloc N (d'\<lparr>bn_neg := False\<rparr>) False None (Some t2) b' = (Some (), b'')"
    and "BN_usub malloc m b'' r = (Some (), r')"
    and "recp_correct malloc N 0 (d'\<lparr>bn_neg := False\<rparr>) (r'\<lparr>bn_neg := False\<rparr>) = Some (d1, r1)"
    and "bn_abs d1 = bn_abs m div bn_abs N" and "bn_abs r1 = bn_abs m mod bn_abs N"
    and "bn_normal d1" and "bn_normal r1" and "bn_free malloc K r1"
proof -
  obtain a' b' d' b'' r' where g: "BN_rshift malloc m (int n) a = (Some (), a')"
    "BN_mul malloc a' Nr False None (Some t1) b = (Some (), b')"
    "BN_rshift malloc b' (int i - int n) d = (Some (), d')"
    "BN_mul malloc N (d'\<lparr>bn_neg := False\<rparr>) False None (Some t2) b' = (Some (), b'')"
    "BN_usub malloc m b'' r = (Some (), r')"
    and v: "bn_abs d' * bn_abs N + bn_abs r' = bn_abs m" "bn_abs r' < 4 * bn_abs N"
      "bn_normal d'" "bn_free malloc K d'" "bn_normal r'" "\<not> bn_neg r'" "bn_free malloc K r'"
    by (rule recp_guess [OF assms])
  let ?d = "d'\<lparr>bn_neg := False\<rparr>" and ?r = "r'\<lparr>bn_neg := False\<rparr>"
  have W: "bn_width m + 1 \<le> K" using K by simp
  have "\<exists>d1 r1. recp_correct malloc N 0 ?d ?r = Some (d1, r1) \<and> bn_abs d1 * bn_abs N + bn_abs r1 = bn_abs ?d * bn_abs N + bn_abs ?r \<and>
      bn_abs r1 < bn_abs N \<and> bn_normal d1 \<and> \<not> bn_neg d1 \<and> bn_free malloc K d1 \<and> bn_normal r1 \<and> \<not> bn_neg r1 \<and> bn_free malloc K r1"
    by (rule recp_correct_returns [OF N W]) (use v bn_abs_less [of m] in \<open>simp_all add: bn_normal_set_neg\<close>)
  then obtain d1 r1 where c: "recp_correct malloc N 0 ?d ?r = Some (d1, r1)" "bn_abs d1 * bn_abs N + bn_abs r1 = bn_abs m"
    "bn_abs r1 < bn_abs N" "bn_normal d1" "bn_normal r1" "bn_free malloc K r1"
    using v(1) by auto
  have "bn_abs d1 = bn_abs m div bn_abs N" "bn_abs r1 = bn_abs m mod bn_abs N"
    using c(2,3) by (auto simp: c(2) [symmetric])
  then show thesis by (rule that [OF g c(1) _ _ c(4-6)])
qed

text \<open>The numbers that are taken from the context, or given by the caller.\<close>

lemma recp_temps:
  assumes ctx: "recp_temps_ok malloc K ctx" and dv: "\<And>x. dv = Some x \<Longrightarrow> bn_temp malloc K x" and rem: "\<And>x. rem = Some x \<Longrightarrow> bn_temp malloc K x"
  obtains a b d r t1 t2 where "rx_a ctx = Some a" "bn_temp malloc K a" and "rx_b ctx = Some b" "bn_temp malloc K b"
    and "(if dv = None then rx_d ctx else dv) = Some d" "bn_temp malloc K d"
    and "(if rem = None then rx_r ctx else rem) = Some r" "bn_temp malloc K r"
    and "rx_mul1 ctx = Some t1" "bn_temp malloc K t1" and "rx_mul2 ctx = Some t2" "bn_temp malloc K t2"
  using ctx dv rem by (cases dv; cases rem) (auto simp: recp_temps_ok_def)

theorem BN_div_recp_returns:
  assumes recp: "recp_ok malloc K recp" and ctx: "recp_temps_ok malloc K ctx" and m: "bn_normal m"
    and K: "16 * (bn_width m + bn_width (rc_N recp)) + 24 \<le> K"
    and dv: "\<And>x. dv = Some x \<Longrightarrow> bn_temp malloc K x" and rem: "\<And>x. rem = Some x \<Longrightarrow> bn_temp malloc K x"
  obtains d r recp' where "BN_div_recp malloc dv rem m ctx recp = (Some (d, r), recp')" and "recp_ok malloc K recp'"
    and "rc_N recp' = rc_N recp" and "bn_normal d" and "bn_normal r" and "bn_free malloc K r"
    and "bn_int d = sgn (bn_int m) * sgn (bn_int (rc_N recp)) * int (bn_abs m div bn_abs (rc_N recp))"
    and "bn_int r = sgn (bn_int m) * int (bn_abs m mod bn_abs (rc_N recp))"
proof -
  let ?N = "rc_N recp" and ?n = "rc_num_bits recp"
  have N: "bn_ok ?N" "bn_abs ?N \<noteq> 0" "?n = BN_num_bits ?N" using recp by (simp_all add: recp_ok_def)
  obtain a b d r t1 t2 where a: "rx_a ctx = Some a" "bn_temp malloc K a" and b: "rx_b ctx = Some b" "bn_temp malloc K b"
    and d: "(if dv = None then rx_d ctx else dv) = Some d" "bn_temp malloc K d"
    and r: "(if rem = None then rx_r ctx else rem) = Some r" "bn_temp malloc K r"
    and t: "rx_mul1 ctx = Some t1" "bn_temp malloc K t1" "rx_mul2 ctx = Some t2" "bn_temp malloc K t2"
    by (rule recp_temps [OF ctx dv rem])
  note unfold = BN_div_recp_def a(1) b(1) d(1) r(1) prod.case option.case
  show thesis
  proof (cases "bn_abs m < bn_abs ?N")
    case True
    have free: "bn_free malloc K r" "bn_ok d" and wm: "bn_width m \<le> K" using r(2) d(2) K by (simp_all add: bn_temp_def)
    obtain r' where r': "BN_copy malloc m r = (Some (), r')" "bn_normal r'" "bn_int r' = bn_int m" "bn_free malloc K r'"
      by (rule copy_returns [OF m wm free(1)])
    have lt: "sint (BN_ucmp m ?N) < 0" using True by (simp add: ucmp_less_iff)
    have run: "BN_div_recp malloc dv rem m ctx recp = (Some (BN_zero d, r'), recp)"
      unfolding unfold if_P [OF lt] r'(1) ..
    have "bn_normal (BN_zero d)" "bn_int (BN_zero d) = 0"
      using free(2) by (simp_all add: BN_zero_def bn_normal_iff bn_ok_def bn_int_def bn_abs_def)
    moreover have "bn_int m = sgn (bn_int m) * int (bn_abs m)" by (auto simp: sgn_int_eq bn_int_def)
    ultimately show thesis using True r' by (intro that [OF run recp]) simp_all
  next
    case False
    have m0: "bn_abs m \<noteq> 0" using False N(2) by simp
    note nb = num_bits_bounds [OF N(1,2), folded N(3)] and mb = num_bits_bounds [OF bn_normal_ok [OF m] m0]
    define i where "i = (if ?n * 2 > BN_num_bits m then ?n * 2 else BN_num_bits m)"
    have i: "0 < i" "?n \<le> i" "BN_num_bits m \<le> i" "i \<le> 64 * (bn_width m + 2 * bn_width ?N)"
      using nb(1,4) mb(1,4) by (auto simp: i_def)
    have "i div 64 \<le> bn_width m + 2 * bn_width ?N" using i(4) by simp
    then have Ki: "i div 64 + bn_width ?N + 9 \<le> K" using K by simp
    define recp' where "recp' = recp_at malloc i ctx recp"
    note at = recp_at_ok [OF recp ctx i(1) Ki, folded recp'_def]
    have "(2 :: nat) ^ BN_num_bits m \<le> 2 ^ i" using i(3) by (intro power_increasing) simp_all
    then have mi: "bn_abs m < 2 ^ i" using mb(2) by linarith
    obtain a' b' d' b'' r' d1 r1 where g: "BN_rshift malloc m (int ?n) a = (Some (), a')"
      "BN_mul malloc a' (rc_Nr recp') False None (Some t1) b = (Some (), b')"
      "BN_rshift malloc b' (int i - int ?n) d = (Some (), d')"
      "BN_mul malloc ?N (d'\<lparr>bn_neg := False\<rparr>) False None (Some t2) b' = (Some (), b'')"
      "BN_usub malloc m b'' r = (Some (), r')"
      "recp_correct malloc ?N 0 (d'\<lparr>bn_neg := False\<rparr>) (r'\<lparr>bn_neg := False\<rparr>) = Some (d1, r1)"
      and q: "bn_abs d1 = bn_abs m div bn_abs ?N" "bn_abs r1 = bn_abs m mod bn_abs ?N" "bn_normal d1" "bn_normal r1" "bn_free malloc K r1"
      by (rule recp_quotient [OF N(1,2) at(5,6) m mi i(2,4) nb(2,3) K a(2) b(2) d(2) r(2) t(2,4)])
    let ?d1 = "d1\<lparr>bn_neg := (bn_neg m \<noteq> bn_neg ?N)\<rparr>" and ?r1 = "r1\<lparr>bn_neg := (if BN_is_zero r1 then False else bn_neg m)\<rparr>"
    have q0: "bn_abs d1 \<noteq> 0" using False N(2) unfolding q(1) by (simp add: div_greater_zero_iff)
    have ge: "\<not> sint (BN_ucmp m ?N) < 0" using False by (simp add: ucmp_less_iff)
    have shift: "\<not> rc_shift recp' = - 1" using at(4) by simp
    have run: "BN_div_recp malloc dv rem m ctx recp = (Some (?d1, ?r1), recp')"
      unfolding unfold Let_def if_not_P [OF ge] i_def [symmetric] recp'_def [symmetric] if_not_P [OF shift] at(2,3) t(1,3) g ..
    show thesis
    proof (rule that [OF run at(1,2)])
      show "bn_int ?d1 = sgn (bn_int m) * sgn (bn_int ?N) * int (bn_abs m div bn_abs ?N)"
        unfolding bn_int_set_neg q(1) [symmetric] using sgn_int [OF m0] sgn_int [OF N(2)] by simp
      show "bn_int ?r1 = sgn (bn_int m) * int (bn_abs m mod bn_abs ?N)"
        unfolding bn_int_set_neg q(2) [symmetric] using sgn_int [OF m0] by (simp add: is_zero_iff)
    qed (use q(3-5) q0 in \<open>simp_all add: bn_normal_set_neg is_zero_iff\<close>)
  qed
qed

section \<open>Exponentiation modulo any number\<close>

definition recp_rep :: "(nat \<Rightarrow> bool) \<Rightarrow> nat \<Rightarrow> nat \<Rightarrow> bignum \<Rightarrow> nat \<Rightarrow> bool" where
  "recp_rep malloc K n x k \<longleftrightarrow> bn_normal x \<and> \<not> bn_neg x \<and> bn_abs x = k mod n \<and> bn_free malloc K x"

definition mul_temps_ok :: "(nat \<Rightarrow> bool) \<Rightarrow> nat \<Rightarrow> bignum option \<times> bignum option \<times> recp_temps \<Rightarrow> bool" where
  "mul_temps_ok malloc K c \<longleftrightarrow> (\<exists>a tmp temps. c = (Some a, Some tmp, temps) \<and> bn_temp malloc K a \<and> bn_temp malloc K tmp \<and>
     recp_temps_ok malloc K temps)"

definition recp_good :: "(nat \<Rightarrow> bool) \<Rightarrow> nat \<Rightarrow> nat \<Rightarrow> (nat \<Rightarrow> bignum option \<times> bignum option \<times> recp_temps) \<Rightarrow> recp_ctx \<times> nat \<Rightarrow> bool" where
  "recp_good malloc K n ctx = (\<lambda>(recp, _). recp_ok malloc K recp \<and> bn_abs (rc_N recp) = n \<and> 48 * bn_width (rc_N recp) + 24 \<le> K \<and>
     (\<forall>k. mul_temps_ok malloc K (ctx k)))"

lemma normal_neg: "bn_normal x \<Longrightarrow> 0 \<le> bn_int x \<Longrightarrow> \<not> bn_neg x"
  using bn_normal_nonneg [of x] by (auto simp: bn_int_def split: if_splits)

lemma mod_mul_reciprocal_returns:
  assumes recp: "recp_ok malloc K recp" and K: "48 * bn_width (rc_N recp) + 24 \<le> K" and ctx: "mul_temps_ok malloc K (Some a, Some tmp, temps)"
    and n: "n = bn_abs (rc_N recp)" and x: "recp_rep malloc K n x k" and y: "recp_rep malloc K n y l" and same: "same \<Longrightarrow> x = y"
    and d: "bn_temp malloc K d"
  obtains z recp' where "BN_mod_mul_reciprocal malloc x (Some y) same (Some a) (Some tmp) temps d recp = (Some z, recp')"
    and "recp_ok malloc K recp'" and "rc_N recp' = rc_N recp" and "recp_rep malloc K n z (k * l)"
proof -
  let ?w = "bn_width (rc_N recp)"
  have a: "bn_temp malloc K a" and tmp: "bn_temp malloc K tmp" and temps: "recp_temps_ok malloc K temps"
    using ctx by (simp_all add: mul_temps_ok_def)
  have n0: "0 < n" using recp n by (simp add: recp_ok_def)
  have nx: "bn_normal x" "bn_abs x = k mod n" "\<not> bn_neg x" "bn_free malloc K x" and ny: "bn_normal y" "bn_abs y = l mod n" "\<not> bn_neg y"
    using x y by (simp_all add: recp_rep_def)
  have less: "bn_abs v < bn_base ^ ?w" if "bn_abs v = j mod n" for v j
    using that mod_less_divisor [OF n0, of j] bn_abs_less [of "rc_N recp"] n by linarith
  have w: "bn_width x \<le> ?w" "bn_width y \<le> ?w"
    using normal_width [OF nx(1) less [OF nx(2)]] normal_width [OF ny(1) less [OF ny(2)]] .
  have small: "bn_small x" "bn_small y" using normal_small [OF nx(1) _ nx(4)] normal_small [OF ny(1) _ nx(4)] w K by simp_all
  have K1: "8 * (bn_width x + bn_width y) + 16 \<le> K" "bn_width x * 4 \<le> K" using w K by simp_all
  obtain p where p: "BN_mul malloc x y False (Some tmp) (Some tmp) a = (Some (), p)" "bn_int p = bn_int x * bn_int y"
    "bn_normal p" "bn_width p \<le> bn_width x + bn_width y"
    by (rule product_returns [OF small K1(1) tmp tmp a])
  obtain q where q: "BN_sqr malloc x False (Some tmp) (Some tmp) a = (Some (), q)" "bn_int q = bn_int x * bn_int x"
    "bn_normal q" "bn_width q \<le> 2 * bn_width x"
    by (rule sqr_returns [OF small(1) K1(2) tmp tmp a])
  let ?s = "if same then q else p"
  have s: "bn_normal ?s" "bn_int ?s = bn_int x * bn_int y" "bn_width ?s \<le> bn_width x + bn_width y"
    using p(2-4) q(2-4) same by auto
  have abs: "bn_abs ?s = bn_abs x * bn_abs y" by (rule abs_product [OF s(2)])
  have Ks: "16 * (bn_width ?s + ?w) + 24 \<le> K" using s(3) w K by simp
  obtain dd r recp' where r: "BN_div_recp malloc None (Some d) ?s temps recp = (Some (dd, r), recp')" "recp_ok malloc K recp'"
    "rc_N recp' = rc_N recp" "bn_normal r" "bn_free malloc K r" "bn_int r = sgn (bn_int ?s) * int (bn_abs ?s mod bn_abs (rc_N recp))"
    by (rule BN_div_recp_returns [OF recp temps s(1) Ks, of None "Some d"]) (use d in simp_all)
  have "0 \<le> bn_int ?s" unfolding s(2) using nx(3) ny(3) by (simp add: bn_int_def)
  then have ri: "bn_int r = int (bn_abs ?s mod n)" using r(6) n abs_int [of ?s] by (auto simp: sgn_if)
  have "bn_abs r = k * l mod n" unfolding bn_int_eq_int [OF ri] abs nx(2) ny(2) by (rule mod_mult_eq)
  with r(4,5) ri normal_neg [OF r(4)] have rep: "recp_rep malloc K n r (k * l)" by (simp add: recp_rep_def)
  have "BN_mod_mul_reciprocal malloc x (Some y) same (Some a) (Some tmp) temps d recp = (Some r, recp')"
    using p(1) q(1) r(1) unfolding BN_mod_mul_reciprocal_def mul_unaliased [where x = tmp] sqr_unaliased [where x = tmp]
    by (cases same) simp_all
  with r(2,3) rep that show thesis by blast
qed

interpretation recp_exp: power_mult "recp_mult malloc ctx" "recp_rep malloc K n" "bn_temp malloc K" "recp_good malloc K n ctx"
  for malloc ctx K n
proof unfold_locales
  fix d x y same k l
  assume d: "bn_temp malloc K d" and x: "recp_rep malloc K n x k" and y: "recp_rep malloc K n y l" and same: "same \<Longrightarrow> x = y"
  show "returns (recp_good malloc K n ctx) (recp_mult malloc ctx d x y same) (\<lambda>z. recp_rep malloc K n z (k * l))"
    unfolding returns_def
  proof (intro allI impI)
    fix s assume s: "recp_good malloc K n ctx s"
    obtain recp j where sj: "s = (recp, j)" by (rule prod.exhaust)
    have good: "recp_ok malloc K recp" "48 * bn_width (rc_N recp) + 24 \<le> K" "n = bn_abs (rc_N recp)" "mul_temps_ok malloc K (ctx j)"
      using s by (simp_all add: sj recp_good_def)
    from good(4) obtain a tmp temps where c: "ctx j = (Some a, Some tmp, temps)" by (auto simp: mul_temps_ok_def)
    obtain z recp' where z: "BN_mod_mul_reciprocal malloc x (Some y) same (Some a) (Some tmp) temps d recp = (Some z, recp')"
      "recp_ok malloc K recp'" "rc_N recp' = rc_N recp" "recp_rep malloc K n z (k * l)"
      by (rule mod_mul_reciprocal_returns [OF good(1,2) good(4) [unfolded c] good(3) x y same d])
    then show "\<exists>z s'. recp_mult malloc ctx d x y same s = (Some z, s') \<and> recp_good malloc K n ctx s' \<and> recp_rep malloc K n z (k * l)"
      using s by (intro exI [of _ z] exI [of _ "(recp', Suc j)"]) (simp add: sj recp_mult_def c recp_good_def)
  qed
qed (simp add: recp_rep_def bn_temp_def bn_normal_ok)

definition recp_exp_ctx_ok :: "(nat \<Rightarrow> bool) \<Rightarrow> nat \<Rightarrow> recp_exp_ctx \<Rightarrow> bool" where
  "recp_exp_ctx_ok malloc K ctx \<longleftrightarrow> (\<exists>aa. rm_aa ctx = Some aa \<and> bn_temp malloc K aa) \<and>
     (\<forall>i. \<exists>y. rm_val ctx i = Some y \<and> bn_temp malloc K y) \<and> div_ctx_ok malloc K (rm_div ctx) \<and>
     (\<forall>k. mul_temps_ok malloc K (rm_mul ctx k))"

lemma num_bits_eq:
  assumes x: "bn_ok x" "bn_abs x \<noteq> 0" and y: "bn_ok y" "bn_abs y = bn_abs x"
  shows "BN_num_bits y = BN_num_bits x"
proof -
  have le: "BN_num_bits u \<le> BN_num_bits v" if "bn_ok u" "bn_ok v" "bn_abs u = bn_abs v" "bn_abs v \<noteq> 0" for u v
  proof -
    have "bn_abs u \<noteq> 0" using that(3,4) by simp
    then have "2 ^ (BN_num_bits u - 1) \<le> bn_abs u" using BN_num_bits_val(2) [OF that(1)] by blast
    also have "\<dots> < (2 :: nat) ^ BN_num_bits v" unfolding that(3) by (rule BN_num_bits_val(1) [OF that(2)])
    finally have "BN_num_bits u - 1 < BN_num_bits v" by (rule power_less_imp_less_exp [rotated]) simp
    then show ?thesis by linarith
  qed
  from le [of x y] le [of y x] x y show ?thesis by simp
qed

lemma recp_set_returns:
  assumes m: "bn_normal m" "bn_abs m \<noteq> 0" "bn_width m \<le> K" and init: "bn_free malloc K BN_init"
  obtains recp where "BN_RECP_CTX_set malloc m BN_RECP_CTX_init = (Some (), recp)" and "recp_ok malloc K recp"
    and "bn_abs (rc_N recp) = bn_abs m" and "bn_width (rc_N recp) = bn_width m" and "bn_int (rc_N recp) = bn_int m"
proof -
  obtain n where n: "BN_copy malloc m BN_init = (Some (), n)" "bn_normal n" "bn_int n = bn_int m" "bn_abs n = bn_abs m" "bn_width n = bn_width m"
    by (rule copy_returns [OF m(1,3) init])
  let ?recp = "\<lparr>rc_N = n, rc_Nr = BN_zero BN_init, rc_num_bits = BN_num_bits m, rc_shift = 0\<rparr>"
  have bits: "BN_num_bits m = BN_num_bits n"
    by (rule num_bits_eq [OF bn_normal_ok [OF n(2)] _ bn_normal_ok [OF m(1)]]) (use n(4) m(2) in simp_all)
  have "bn_temp malloc K (BN_zero BN_init)" using init by (simp add: bn_temp_def BN_zero_def BN_init_def bn_ok_def bn_free_def)
  then have "recp_ok malloc K ?recp" using n m(2) bits by (simp add: recp_ok_def bn_normal_ok)
  moreover have "BN_RECP_CTX_set malloc m BN_RECP_CTX_init = (Some (), ?recp)"
    using n(1) by (simp add: BN_RECP_CTX_set_def BN_RECP_CTX_init_def)
  ultimately show thesis using n(3-5) by (intro that [of ?recp]) simp_all
qed

lemma one_returns:
  assumes r: "bn_temp malloc K r" and K: "1 \<le> K"
  obtains r' where "BN_one malloc r = (Some (), r')" and "bn_normal r'" and "bn_int r' = 1" and "bn_free malloc K r'"
proof -
  obtain x r' where run: "BN_set_word malloc 1 r = (x, r')" by (rule prod.exhaust)
  have ok: "bn_ok r" "bn_free malloc K r" using r by (simp_all add: bn_temp_def)
  note v = BN_set_word_val [OF ok(1) run]
  have "x = Some ()" using v(2) free_room [OF ok(2) K] by (cases x) auto
  with run v(1) keeps_free [OF keeps_set_word run ok(2)] that show thesis by (simp add: BN_one_def)
qed

text \<open>The divisor is the absolute value of the modulus; \<open>aa\<close> is still there to be written to.\<close>

lemma recp_of_modulus:
  assumes m: "bn_normal m" "bn_abs m \<noteq> 0" "bn_width m \<le> K" and init: "bn_free malloc K BN_init" and aa: "bn_temp malloc K aa"
  obtains aa' recp where "(if bn_neg m then
        (case BN_copy malloc m aa of
           (None, _) \<Rightarrow> None
         | (Some _, aa) \<Rightarrow> Some (aa\<lparr>bn_neg := False\<rparr>, BN_RECP_CTX_set malloc (aa\<lparr>bn_neg := False\<rparr>) BN_RECP_CTX_init))
      else Some (aa, BN_RECP_CTX_set malloc m BN_RECP_CTX_init)) = Some (aa', (Some (), recp))"
    and "bn_temp malloc K aa'" and "recp_ok malloc K recp" and "bn_abs (rc_N recp) = bn_abs m" and "bn_width (rc_N recp) = bn_width m"
proof (cases "bn_neg m")
  case False
  obtain recp where "BN_RECP_CTX_set malloc m BN_RECP_CTX_init = (Some (), recp)" "recp_ok malloc K recp"
    "bn_abs (rc_N recp) = bn_abs m" "bn_width (rc_N recp) = bn_width m"
    by (rule recp_set_returns [OF m init])
  with False aa that show thesis by simp
next
  case True
  have free: "bn_free malloc K aa" using aa by (simp add: bn_temp_def)
  obtain c where c: "BN_copy malloc m aa = (Some (), c)" "bn_normal c" "bn_abs c = bn_abs m" "bn_width c = bn_width m" "bn_free malloc K c"
    by (rule copy_returns [OF m(1,3) free])
  let ?c = "c\<lparr>bn_neg := False\<rparr>"
  have n: "bn_normal ?c" "bn_abs ?c \<noteq> 0" "bn_width ?c \<le> K" using c(2-4) m(2,3) by (simp_all add: bn_normal_set_neg)
  obtain recp where recp: "BN_RECP_CTX_set malloc ?c BN_RECP_CTX_init = (Some (), recp)" "recp_ok malloc K recp"
    "bn_abs (rc_N recp) = bn_abs ?c" "bn_width (rc_N recp) = bn_width ?c"
    by (rule recp_set_returns [OF n init])
  have temp: "bn_temp malloc K ?c" using c(2,5) by (simp add: bn_temp_def bn_normal_ok)
  show thesis by (rule that [OF _ temp recp(2)]) (use True c(1,3,4) recp(1,3,4) in simp_all)
qed

text \<open>The table and the windows, which start with a product of one and the first table entry.\<close>

lemma recp_windows:
  assumes good: "recp_good malloc K n ctx s" and v: "recp_rep malloc K n v k" and one: "recp_rep malloc K n r 1"
    and d: "bn_temp malloc K d" and dests: "\<And>i. \<exists>y. val i = Some y \<and> bn_temp malloc K y"
    and p: "bn_ok p" "BN_num_bits p \<noteq> 0"
  defines "mul \<equiv> recp_mult malloc ctx" and "window \<equiv> BN_window_bits_for_exponent_size (BN_num_bits p)"
  obtains vals s' b z s'' where "power_table mul window (Some d) val v s = (Some vals, s')"
    and "slide mul (\<lambda>r x. mul r r x False) (\<lambda>i. BN_is_bit_set p (int i)) window vals True (BN_num_bits p - 1) r s' = (Some (b, z), s'')"
    and "recp_rep malloc K n z (k ^ bn_abs p)"
proof -
  let ?e = "bn_abs p" and ?bits = "BN_num_bits p" and ?good = "recp_good malloc K n ctx" and ?rep = "recp_rep malloc K n"
  have e: "?e \<noteq> 0" "?e < 2 ^ ?bits" using p(2) BN_num_bits_val(1) [OF p(1)] num_bits_0_iff [OF p(1)] by simp_all
  have window: "0 < window" by (simp add: window_def BN_window_bits_for_exponent_size_def)
  obtain vals s' where vals: "power_table mul window (Some d) val v s = (Some vals, s')" "?good s'"
    "\<forall>i < 2 ^ (window - 1). ?rep (vals ! i) (k ^ (2 * i + 1))"
    unfolding mul_def by (rule returnsD [OF recp_exp.power_table_returns [OF window v refl d dests] good])
  have bits: "(\<lambda>i. BN_is_bit_set p (int i)) = bit ?e" by (simp add: BN_is_bit_set_iff fun_eq_iff)
  have top: "?e div 2 ^ Suc (?bits - 1) = 0" using e p(2) by simp
  have first: "returns ?good (mul d d x False) (\<lambda>z. ?rep z j)" if "?rep d 1" "?rep x j" for d x j
    using recp_exp.mul_returns [OF recp_exp.rep_dest [OF that(1)] that, of False] by (simp add: mul_def)
  have "returns ?good (slide mul (\<lambda>r x. mul r r x False) (bit ?e) window vals True (?bits - 1) r)
      (\<lambda>(one, z). (one \<longleftrightarrow> ?e = 0) \<and> (\<not> one \<longrightarrow> ?rep z (k ^ ?e)))"
    unfolding mul_def
    by (rule recp_exp.slide_returns [where init = "\<lambda>d. ?rep d 1", OF first [unfolded mul_def] vals(3) window]) (use one top in simp_all)
  then obtain b z s'' where run: "slide mul (\<lambda>r x. mul r r x False) (bit ?e) window vals True (?bits - 1) r s' = (Some (b, z), s'')"
    "?rep z (k ^ ?e)"
    using e(1) vals(2) by (elim returnsD) auto
  from that [OF vals(1) run(1) [folded bits] run(2)] show thesis .
qed

theorem mod_exp_recp_returns:
  assumes m: "bn_normal m" "bn_abs m \<noteq> 0" "even (bn_abs m)" and a: "bn_ok a" and p: "bn_ok p"
    and K: "bn_width a + 48 * bn_width m + 24 \<le> K" and init: "bn_free malloc K BN_init"
    and ctx: "recp_exp_ctx_ok malloc K ctx" and r: "bn_temp malloc K r"
  obtains r' where "mod_exp_recp malloc ctx a p m r = (Some (), r')" and "bn_int r' = bn_int a ^ bn_abs p mod \<bar>bn_int m\<bar>"
proof -
  let ?n = "bn_abs m" and ?e = "bn_abs p" and ?bits = "BN_num_bits p"
  have nm: "\<bar>bn_int m\<bar> = int ?n" by (simp add: bn_int_def)
  have n2: "1 < ?n" using m(2,3) by (cases "?n = 1") auto
  have K1: "1 \<le> K" "bn_width m \<le> K" using K by simp_all
  obtain r1 where r1: "BN_one malloc r = (Some (), r1)" "bn_normal r1" "bn_int r1 = 1" "bn_free malloc K r1"
    by (rule one_returns [OF r K1(1)])
  show thesis
  proof (cases "?bits = 0")
    case True
    then have "?e = 0" using num_bits_0_iff [OF p] by simp
    with True r1(1,3) n2 show thesis by (intro that [of r1]) (simp_all add: mod_exp_recp_def nm)
  next
    case False
    have e: "?e \<noteq> 0" "?e < 2 ^ ?bits" using False BN_num_bits_val(1) [OF p] num_bits_0_iff [OF p] by simp_all
    obtain aa v0 where aa: "rm_aa ctx = Some aa" "bn_temp malloc K aa" and v0: "rm_val ctx 0 = Some v0" "bn_temp malloc K v0"
      and div: "div_ctx_ok malloc K (rm_div ctx)"
      using ctx unfolding recp_exp_ctx_ok_def by blast
    obtain aa' recp where rc: "(if bn_neg m then
        (case BN_copy malloc m aa of
           (None, _) \<Rightarrow> None
         | (Some _, aa) \<Rightarrow> Some (aa\<lparr>bn_neg := False\<rparr>, BN_RECP_CTX_set malloc (aa\<lparr>bn_neg := False\<rparr>) BN_RECP_CTX_init))
      else Some (aa, BN_RECP_CTX_set malloc m BN_RECP_CTX_init)) = Some (aa', (Some (), recp))"
      "bn_temp malloc K aa'" "recp_ok malloc K recp" "bn_abs (rc_N recp) = ?n" "bn_width (rc_N recp) = bn_width m"
      by (rule recp_of_modulus [OF m(1,2) K1(2) init aa(2)])
    have Kn: "bn_width a + bn_width m + 8 \<le> K" using K by simp
    obtain v where v: "BN_nnmod malloc a m (rm_div ctx) v0 = (Some (), v)" "bn_normal v" "bn_int v = bn_int a mod \<bar>bn_int m\<bar>" "bn_free malloc K v"
      by (rule nnmod_returns [OF a m(1,2) Kn div v0(2)])
    have vn: "\<not> bn_neg v" by (rule normal_neg [OF v(2)], unfold v(3) nm, rule pos_mod_sign) (use m(2) in simp)
    then have vi: "int (bn_abs v) = bn_int a mod int ?n" using v(3) nm by (simp add: bn_int_def)
    then have vless: "bn_abs v < ?n" using m(2) by (metis of_nat_0_less_iff of_nat_less_iff pos_mod_bound not_gr_zero)
    have goal: "int (bn_abs v ^ ?e mod ?n) = bn_int a ^ ?e mod \<bar>bn_int m\<bar>"
      unfolding zmod_int of_nat_power vi nm by (rule power_mod)
    note unfold = mod_exp_recp_def Let_def if_not_P [OF False] aa(1) v0(1) prod.case option.case rc(1) v(1)
    show thesis
    proof (cases "BN_is_zero v")
      case True
      then have "bn_abs v = 0" by (simp add: is_zero_iff)
      with e(1) have "bn_int a ^ ?e mod \<bar>bn_int m\<bar> = 0" unfolding goal [symmetric] by (simp add: power_0_left)
      moreover have "bn_int (BN_zero r) = 0" by (simp add: bn_int_def BN_zero_def bn_abs_def)
      moreover have "mod_exp_recp malloc ctx a p m r = (Some (), BN_zero r)" unfolding unfold if_P [OF True] ..
      ultimately show thesis using that by simp
    next
      case nz: False
      have rep: "recp_rep malloc K ?n v (bn_abs v)" using v(2,4) vn vless by (simp add: recp_rep_def)
      have dests: "\<exists>y. rm_val ctx i = Some y \<and> bn_temp malloc K y" for i using ctx unfolding recp_exp_ctx_ok_def by blast
      have good: "recp_good malloc K ?n (rm_mul ctx) (recp, 0)" using rc(3-5) K ctx by (simp add: recp_good_def recp_exp_ctx_ok_def)
      have one: "recp_rep malloc K ?n r1 1" using r1(2-4) n2 normal_neg [OF r1(2)] bn_int_eq_int [of r1 1] by (simp add: recp_rep_def)
      obtain val s b z s' where run:
        "power_table (recp_mult malloc (rm_mul ctx)) (BN_window_bits_for_exponent_size ?bits) (Some aa') (rm_val ctx) v (recp, 0) = (Some val, s)"
        "slide (recp_mult malloc (rm_mul ctx)) (\<lambda>r x. recp_mult malloc (rm_mul ctx) r r x False) (\<lambda>i. BN_is_bit_set p (int i))
          (BN_window_bits_for_exponent_size ?bits) val True (?bits - 1) r1 s = (Some (b, z), s')"
        "recp_rep malloc K ?n z (bn_abs v ^ ?e)"
        by (rule recp_windows [OF good rep one rc(2) dests p False])
      have zi: "bn_int z = bn_int a ^ ?e mod \<bar>bn_int m\<bar>" unfolding goal [symmetric] using run(3) by (simp add: recp_rep_def bn_int_def)
      have "mod_exp_recp malloc ctx a p m r = (Some (), z)"
        unfolding unfold if_not_P [OF nz] run(1) r1(1) run(2) ..
      then show thesis using zi by (rule that)
    qed
  qed
qed

text \<open>The base as it is, or reduced into the destination.\<close>

lemma reduced_base:
  assumes m: "bn_normal m" "bn_abs m \<noteq> 0" "\<not> bn_neg m" and a: "bn_small a" and K: "bn_width a + bn_width m + 8 \<le> K"
    and ctx: "div_ctx_ok malloc K dctx" and r: "bn_temp malloc K r"
  obtains b r1 where "(if bn_neg a \<or> 0 \<le> sint (BN_ucmp a m) then
        (case BN_nnmod malloc a m dctx r of (None, r) \<Rightarrow> (None, r) | (Some _, r) \<Rightarrow> (Some r, r))
      else (Some a, r)) = (Some b, r1)"
    and "bn_small b" and "\<not> bn_neg b" and "bn_abs b < bn_abs m" and "bn_int b mod bn_int m = bn_int a mod bn_int m"
    and "bn_width b \<le> bn_width a + bn_width m" and "bn_temp malloc K r1"
proof (cases "bn_neg a \<or> 0 \<le> sint (BN_ucmp a m)")
  case False
  then have "\<not> bn_neg a" "bn_abs a < bn_abs m" using ucmp_less_iff [of a m] by auto
  with False a r show thesis by (intro that [of a r]) simp_all
next
  case True
  have ok: "bn_ok a" using a by (simp add: bn_small_def)
  have mi: "bn_int m = int (bn_abs m)" using m(3) by (simp add: bn_int_def)
  obtain v where v: "BN_nnmod malloc a m dctx r = (Some (), v)" "bn_normal v" "bn_int v = bn_int a mod \<bar>bn_int m\<bar>" "bn_free malloc K v"
    by (rule nnmod_returns [OF ok m(1,2) K ctx r])
  have pos: "0 \<le> bn_int v" "bn_int v < int (bn_abs m)" using m(2) unfolding v(3) mi by simp_all
  have n: "\<not> bn_neg v" by (rule normal_neg [OF v(2) pos(1)])
  then have less: "bn_abs v < bn_abs m" using pos(2) by (simp add: bn_int_def)
  have w: "bn_width v \<le> bn_width m" using less bn_abs_less [of m] by (intro normal_width [OF v(2)]) linarith
  have small: "bn_small v" using normal_small [OF v(2) _ v(4)] w K by simp
  show thesis
  proof (rule that [of v v])
    show "bn_int v mod bn_int m = bn_int a mod bn_int m" unfolding v(3) mi by simp
  qed (use True v(1,2,4) small n less w in \<open>simp_all add: bn_temp_def bn_normal_ok\<close>)
qed

theorem BN_mod_exp_returns:
  assumes m: "bn_normal m" "bn_abs m \<noteq> 0" "\<not> bn_neg m" and a: "bn_small a" and p: "bn_ok p"
    and K: "16 * bn_width a + 64 * bn_width m + 24 \<le> K" and init: "bn_free malloc K BN_init" and ctx: "div_ctx_ok malloc K dctx"
    "exp_ctx_ok malloc K mctx" "recp_exp_ctx_ok malloc K rctx" and r: "bn_temp malloc K r"
  obtains r' where "BN_mod_exp malloc dctx mctx rctx a p m r = (Some (), r')"
    and "bn_int r' = bn_int a ^ bn_abs p mod bn_int m"
proof -
  have K1: "bn_width a + bn_width m + 8 \<le> K" using K by simp
  obtain b r1 where b: "(if bn_neg a \<or> 0 \<le> sint (BN_ucmp a m) then
        (case BN_nnmod malloc a m dctx r of (None, r) \<Rightarrow> (None, r) | (Some _, r) \<Rightarrow> (Some r, r))
      else (Some a, r)) = (Some b, r1)"
    "bn_small b" "\<not> bn_neg b" "bn_abs b < bn_abs m" "bn_int b mod bn_int m = bn_int a mod bn_int m"
    "bn_width b \<le> bn_width a + bn_width m" "bn_temp malloc K r1"
    by (rule reduced_base [OF m a K1 ctx(1) r])
  have power: "bn_int b ^ bn_abs p mod bn_int m = bn_int a ^ bn_abs p mod bn_int m"
    using b(5) by (metis power_mod)
  have okm: "bn_ok m" "bn_ok b" using m(1) b(2) by (simp_all add: bn_normal_ok bn_small_def)
  note unfold = BN_mod_exp_def if_not_P [OF m(3)] b(1) prod.case option.case
  show thesis
  proof (cases "BN_is_odd m")
    case True
    have small: "bn_small m" using normal_small [OF m(1) _ init] K by simp
    have odd: "odd (bn_abs m)" using True is_odd_iff [OF okm(1)] by simp
    have K2: "16 * (bn_width b + bn_width m) + 16 \<le> K" using b(6) K by simp
    have given: "mont_given malloc K m None" unfolding mont_given_def by blast
    obtain r' where "BN_mod_exp_mont malloc mctx b p m None r1 = (Some (), r')" "bn_int r' = bn_int b ^ bn_abs p mod bn_int m"
      by (rule BN_mod_exp_mont_returns [OF small odd m(3) b(2-4) p K2 init ctx(2) given b(7)])
    with True power that show thesis unfolding unfold by simp
  next
    case False
    have even: "even (bn_abs m)" using False is_odd_iff [OF okm(1)] by simp
    have K2: "bn_width b + 48 * bn_width m + 24 \<le> K" using b(6) K by simp
    have mi: "\<bar>bn_int m\<bar> = bn_int m" using m(3) by (simp add: bn_int_def)
    obtain r' where "mod_exp_recp malloc rctx b p m r1 = (Some (), r')" "bn_int r' = bn_int b ^ bn_abs p mod \<bar>bn_int m\<bar>"
      by (rule mod_exp_recp_returns [OF m(1,2) even okm(2) p K2 init ctx(3) b(7)])
    with False power mi that show thesis unfolding unfold by simp
  qed
qed

end
