(* ===== verification/Bn_Exp2.thy ===== *)
theory Bn_Exp2
  imports Bn_Recp
begin

text \<open>
  The Montgomery contexts that are made with a division (\<open>fipsmodule/bn/montgomery.c\<close>), the
  product of two powers modulo a number, and powers without a modulus
  (\<open>fipsmodule/bn/exponentiation.c\<close>).
\<close>

section \<open>The operations\<close>

subsection \<open>Contexts\<close>

text \<open>Where the caller gives no \<open>BN_CTX\<close>, the code makes one; the numbers are arguments in both cases.\<close>

definition BN_MONT_CTX_set :: "(nat \<Rightarrow> bool) \<Rightarrow> bignum \<Rightarrow> div_ctx \<Rightarrow> (mont_ctx, unit) oper" where
  "BN_MONT_CTX_set malloc modulus ctx mont =
    (case bn_mont_ctx_set_N_and_n0 malloc modulus mont of
       (None, mont) \<Rightarrow> (None, mont)
     | (Some _, mont) \<Rightarrow>
         let lgBigR = bn_width (mont_N mont) * 64
         in case and_then (and_then (BN_set_bit malloc (int (lgBigR * 2))) (\<lambda>_ rr. BN_mod malloc rr (mont_N mont) ctx rr))
                (\<lambda>_. bn_resize_words malloc (bn_width (mont_N mont))) (BN_zero (mont_RR mont)) of
              (ret, rr) \<Rightarrow> (ret, mont\<lparr>mont_RR := rr\<rparr>))"

definition BN_MONT_CTX_new_for_modulus :: "(nat \<Rightarrow> bool) \<Rightarrow> bool \<Rightarrow> bignum \<Rightarrow> div_ctx \<Rightarrow> mont_ctx option" where
  "BN_MONT_CTX_new_for_modulus malloc new_ok modulus ctx =
    (case BN_MONT_CTX_new new_ok of
       None \<Rightarrow> None
     | Some mont \<Rightarrow> (case BN_MONT_CTX_set malloc modulus ctx mont of (None, _) \<Rightarrow> None | (Some _, mont) \<Rightarrow> Some mont))"

subsection \<open>Products of powers\<close>

text \<open>
  The contexts of the two exponentiations, and the scratch numbers of the two products; the
  second power goes to a number of its own.
\<close>

definition BN_mod_exp2_mont :: "(nat \<Rightarrow> bool) \<Rightarrow> bool \<Rightarrow> div_ctx \<Rightarrow> exp_ctx \<Rightarrow> exp_ctx \<Rightarrow>
    bignum option \<times> bignum option \<Rightarrow> bignum option \<times> bignum option \<Rightarrow>
    bignum \<Rightarrow> bignum \<Rightarrow> bignum \<Rightarrow> bignum \<Rightarrow> bignum \<Rightarrow> mont_ctx option \<Rightarrow> unit bn_oper" where
  "BN_mod_exp2_mont malloc new_ok dctx ctx1 ctx2 to mul a1 p1 a2 p2 m mont rr =
    (case (case mont of None \<Rightarrow> BN_MONT_CTX_new_for_modulus malloc new_ok m dctx | Some mont \<Rightarrow> Some mont) of
       None \<Rightarrow> (None, rr)
     | Some mont \<Rightarrow>
         and_then (BN_mod_exp_mont malloc ctx1 a1 p1 m (Some mont)) (\<lambda>_ rr.
           case BN_mod_exp_mont malloc ctx2 a2 p2 m (Some mont) BN_init of
             (None, _) \<Rightarrow> (None, rr)
           | (Some _, tmp) \<Rightarrow>
               and_then (\<lambda>rr. BN_to_montgomery malloc mont rr (fst to) (snd to) rr) (\<lambda>_ rr.
                 BN_mod_mul_montgomery malloc mont rr tmp False (fst mul) (snd mul) rr) rr) rr)"

subsection \<open>Powers\<close>

text \<open>
  The loop squares \<open>v\<close> and multiplies it to \<open>rr\<close> where the bit is set; the round \<open>i\<close> gets the
  scratch numbers \<open>sq i\<close> and \<open>mu i\<close>.
\<close>

fun exp_loop :: "(nat \<Rightarrow> bool) \<Rightarrow> (nat \<Rightarrow> bignum option \<times> bignum option) \<Rightarrow> (nat \<Rightarrow> bignum option \<times> bignum option) \<Rightarrow>
    bignum \<Rightarrow> nat list \<Rightarrow> bignum \<Rightarrow> bignum \<Rightarrow> bignum option" where
  "exp_loop malloc sq mu p (i # is) v rr =
    (case BN_sqr malloc v True (fst (sq i)) (snd (sq i)) v of
       (None, _) \<Rightarrow> None
     | (Some _, v) \<Rightarrow>
         if BN_is_bit_set p (int i) then
           (case BN_mul malloc rr v True (fst (mu i)) (snd (mu i)) rr of
              (None, _) \<Rightarrow> None | (Some _, rr) \<Rightarrow> exp_loop malloc sq mu p is v rr)
         else exp_loop malloc sq mu p is v rr)"
| "exp_loop malloc sq mu p [] v rr = Some rr"

text \<open>\<open>same\<close> tells that the destination is the base or the exponent, and the result is built in \<open>tmp\<close>.\<close>

definition BN_exp :: "(nat \<Rightarrow> bool) \<Rightarrow> (nat \<Rightarrow> bignum option \<times> bignum option) \<Rightarrow> (nat \<Rightarrow> bignum option \<times> bignum option) \<Rightarrow>
    bignum option \<Rightarrow> bignum option \<Rightarrow> bignum \<Rightarrow> bignum \<Rightarrow> bool \<Rightarrow> unit bn_oper" where
  "BN_exp malloc sq mu tmp v a p same r =
    (case (if same then tmp else Some r, v) of
       (Some rr, Some v) \<Rightarrow>
         (case BN_copy malloc a v of
            (None, _) \<Rightarrow> (None, r)
          | (Some _, v) \<Rightarrow>
              (case (if BN_is_odd p then BN_copy malloc a rr else BN_one malloc rr) of
                 (None, _) \<Rightarrow> (None, r)
               | (Some _, rr) \<Rightarrow>
                   (case exp_loop malloc sq mu p [1..<BN_num_bits p] v rr of
                      None \<Rightarrow> (None, r)
                    | Some rr \<Rightarrow> if same then BN_copy malloc rr r else (Some (), rr))))
     | _ \<Rightarrow> (None, r))"

section \<open>Powers\<close>

lemma power_less_width:
  assumes "bn_abs x = bn_abs a ^ k" and "bn_normal x" and "k * bn_width a \<le> W" and "0 < W"
  shows "bn_width x \<le> W"
proof (rule normal_width [OF assms(2)])
  show "bn_abs x < bn_base ^ W"
  proof (cases "k = 0")
    case True
    have "1 < bn_base ^ W" by (rule one_less_power) (simp_all add: assms(4) bn_base_def)
    with True show ?thesis using assms(1) by simp
  next
    case False
    then have "bn_abs a ^ k < (bn_base ^ bn_width a) ^ k" using bn_abs_less [of a] by (intro power_strict_mono) simp_all
    also have "(bn_base ^ bn_width a) ^ k = bn_base ^ (k * bn_width a)" by (simp only: power_mult [symmetric] mult.commute)
    also have "\<dots> \<le> bn_base ^ W" using assms(3) by (intro power_increasing) (simp_all add: bn_base_def)
    finally show ?thesis using assms(1) by simp
  qed
qed

lemma exp_loop_returns:
  fixes a :: bignum and p :: bignum
  defines "e \<equiv> bn_abs p"
  assumes W: "2 ^ n * bn_width a \<le> W" "0 < W" "16 * W + 16 \<le> K" and temps: "\<forall>i. temp_pair malloc K (sq i)" "\<forall>i. temp_pair malloc K (mu i)"
  shows "0 < i \<Longrightarrow> i \<le> n \<Longrightarrow> bn_normal v \<Longrightarrow> bn_int v = bn_int a ^ 2 ^ (i - 1) \<Longrightarrow> bn_free malloc K v \<Longrightarrow>
    bn_normal rr \<Longrightarrow> bn_int rr = bn_int a ^ (e mod 2 ^ i) \<Longrightarrow> bn_free malloc K rr \<Longrightarrow>
    \<exists>r'. exp_loop malloc sq mu p [i..<n] v rr = Some r' \<and> bn_normal r' \<and> bn_int r' = bn_int a ^ (e mod 2 ^ n) \<and> bn_free malloc K r'"
proof (induction "n - i" arbitrary: i v rr)
  case 0
  then show ?case by auto
next
  case (Suc k)
  note p = Suc.prems
  have i: "i < n" "k = n - Suc i" using Suc.hyps(2) by simp_all
  have abs_power: "bn_abs x = bn_abs a ^ j" if "bn_int x = bn_int a ^ j" for x j
    using that by (simp add: abs_int power_abs nat_power_eq)
  have pow: "2 ^ j \<le> (2 :: nat) ^ n" if "j \<le> n" for j using that by (intro power_increasing) simp_all
  have width: "bn_width x \<le> W" if "bn_normal x" "bn_int x = bn_int a ^ j" "j \<le> 2 ^ n" for x j
    by (rule power_less_width [OF abs_power [OF that(2)] that(1) _ W(2)])
      (use that(3) W(1) in \<open>auto intro: le_trans [OF mult_le_mono1]\<close>)
  obtain s1 s2 m1 m2 where c: "sq i = (Some s1, Some s2)" "bn_temp malloc K s1" "bn_temp malloc K s2"
    "mu i = (Some m1, Some m2)" "bn_temp malloc K m1" "bn_temp malloc K m2"
    using temps unfolding temp_pair_def by metis
  have wv: "bn_width v \<le> W" by (rule width [OF p(3,4)]) (use i(1) in \<open>simp add: pow\<close>)
  have sv: "bn_small v" "bn_temp malloc K v" "bn_width v * 4 \<le> K"
    using normal_small [OF p(3) _ p(5)] wv W(3) p(3,5) by (simp_all add: bn_temp_def bn_normal_ok)
  obtain v' where v': "BN_sqr malloc v True (Some s1) (Some s2) v = (Some (), v')" "bn_int v' = bn_int v * bn_int v"
    "bn_normal v'" "bn_free malloc K v'"
    by (rule sqr_returns [OF sv(1,3) c(2,3) sv(2)])
  have "bn_int v' = bn_int a ^ (2 ^ (i - 1) + 2 ^ (i - 1))" unfolding v'(2) p(4) power_add ..
  also have "(2 :: nat) ^ (i - 1) + 2 ^ (i - 1) = 2 ^ i" using p(1) by (cases i) simp_all
  finally have vi: "bn_int v' = bn_int a ^ 2 ^ i" .
  have bit: "BN_is_bit_set p (int i) \<longleftrightarrow> bit e i" by (simp add: BN_is_bit_set_iff e_def)
  have e: "e mod 2 ^ Suc i = 2 ^ i * of_bool (bit e i) + e mod 2 ^ i"
  proof -
    have "e mod (2 ^ i * 2) = 2 ^ i * (e div 2 ^ i mod 2) + e mod 2 ^ i" by (rule mod_mult2_eq)
    then show ?thesis by (simp add: bit_iff_odd mod_2_eq_odd mult.commute)
  qed
  note IH = Suc.hyps(1) [OF i(2), of v', OF _ _ v'(3) _ v'(4)]
  have upt: "[i..<n] = i # [Suc i..<n]" using i(1) by (rule upt_conv_Cons)
  show ?case
  proof (cases "bit e i")
    case False
    have "bn_int rr = bn_int a ^ (e mod 2 ^ Suc i)" using p(7) e False by simp
    from IH [OF _ _ _ p(6) this p(8)] show ?thesis
      using i(1) vi v'(1) c(1) False bit unfolding upt by simp
  next
    case True
    have wr: "bn_width rr \<le> W"
    proof (rule width [OF p(6,7)])
      have "e mod 2 ^ i < 2 ^ i" by simp
      with pow [of i] i(1) show "e mod 2 ^ i \<le> 2 ^ n" by linarith
    qed
    have wv': "bn_width v' \<le> W" by (rule width [OF v'(3) vi]) (use i(1) in \<open>simp add: pow\<close>)
    have sr: "bn_small rr" "bn_small v'" "bn_temp malloc K rr" "8 * (bn_width rr + bn_width v') + 16 \<le> K"
      using normal_small [OF p(6) _ p(8)] normal_small [OF v'(3) _ v'(4)] wr wv' W(3) p(6,8) by (simp_all add: bn_temp_def bn_normal_ok)
    obtain r1 where r1: "BN_mul malloc rr v' True (Some m1) (Some m2) rr = (Some (), r1)" "bn_int r1 = bn_int rr * bn_int v'"
      "bn_normal r1" "bn_free malloc K r1"
      by (rule product_returns [OF sr(1,2,4) c(5,6) sr(3)])
    have "bn_int r1 = bn_int a ^ (e mod 2 ^ Suc i)" unfolding r1(2) p(7) vi e using True by (simp add: power_add mult.commute)
    from IH [OF _ _ _ r1(3) this r1(4)] show ?thesis
      using i(1) vi v'(1) c(1,4) r1(1) True bit unfolding upt by simp
  qed
qed

theorem BN_exp_returns:
  assumes a: "bn_normal a" and p: "bn_ok p" and W: "2 ^ BN_num_bits p * bn_width a \<le> W" "0 < W" "16 * W + 16 \<le> K"
    and temps: "\<forall>i. temp_pair malloc K (sq i)" "\<forall>i. temp_pair malloc K (mu i)"
    and tmp: "bn_temp malloc K tmp" "bn_temp malloc K v" "bn_temp malloc K r"
  obtains r' where "BN_exp malloc sq mu (Some tmp) (Some v) a p same r = (Some (), r')" and "bn_int r' = bn_int a ^ bn_abs p"
    and "bn_normal r'"
proof -
  let ?rr = "if same then tmp else r" and ?n = "BN_num_bits p" and ?e = "bn_abs p"
  have free: "bn_free malloc K v" "bn_free malloc K ?rr" "bn_temp malloc K ?rr" "bn_free malloc K r" using tmp by (simp_all add: bn_temp_def)
  have "bn_width a \<le> 2 ^ ?n * bn_width a" by simp
  then have wa: "bn_width a \<le> K" "1 \<le> K" using W by linarith+
  obtain v1 where v1: "BN_copy malloc a v = (Some (), v1)" "bn_normal v1" "bn_int v1 = bn_int a" "bn_free malloc K v1"
    by (rule copy_returns [OF a wa(1) free(1)])
  obtain c where c: "BN_copy malloc a ?rr = (Some (), c)" "bn_normal c" "bn_int c = bn_int a" "bn_free malloc K c"
    by (rule copy_returns [OF a wa(1) free(2)])
  obtain o1 where o1: "BN_one malloc ?rr = (Some (), o1)" "bn_normal o1" "bn_int o1 = 1" "bn_free malloc K o1"
    by (rule one_returns [OF free(3) wa(2)])
  let ?r1 = "if BN_is_odd p then c else o1"
  have r1: "(if BN_is_odd p then BN_copy malloc a ?rr else BN_one malloc ?rr) = (Some (), ?r1)" using c(1) o1(1) by simp
  have r1v: "bn_normal ?r1" "bn_int ?r1 = bn_int a ^ (?e mod 2 ^ 1)" "bn_free malloc K ?r1"
    using c o1 is_odd_iff [OF p] by (simp_all add: mod_2_eq_odd)
  have "\<exists>r2. exp_loop malloc sq mu p [1..<?n] v1 ?r1 = Some r2 \<and> bn_normal r2 \<and> bn_int r2 = bn_int a ^ ?e \<and> bn_free malloc K r2"
  proof (cases "?n = 0")
    case True
    then have "?e = 0" using num_bits_0_iff [OF p] by simp
    with True r1v show ?thesis by simp
  next
    case False
    have "?e mod 2 ^ ?n = ?e" using BN_num_bits_val(1) [OF p] by simp
    with exp_loop_returns [OF W temps, of 1 v1 ?r1 p] False v1 r1v show ?thesis by simp
  qed
  then obtain r2 where r2: "exp_loop malloc sq mu p [1..<?n] v1 ?r1 = Some r2" "bn_normal r2" "bn_int r2 = bn_int a ^ ?e" "bn_free malloc K r2"
    by blast
  have "bn_abs r2 = bn_abs a ^ ?e" using r2(3) by (simp add: abs_int power_abs nat_power_eq)
  moreover have "?e * bn_width a \<le> 2 ^ ?n * bn_width a" using BN_num_bits_val(1) [OF p] by (intro mult_le_mono1) simp
  ultimately have "bn_width r2 \<le> W" using power_less_width [OF _ r2(2), of a ?e W] W(1,2) by linarith
  then have w2: "bn_width r2 \<le> K" using W(3) by simp
  obtain r3 where r3: "BN_copy malloc r2 r = (Some (), r3)" "bn_normal r3" "bn_int r3 = bn_int r2"
    by (rule copy_returns [OF r2(2) w2 free(4)])
  have pick: "(if same then Some tmp else Some r) = Some ?rr" by simp
  have run: "BN_exp malloc sq mu (Some tmp) (Some v) a p same r = (Some (), if same then r3 else r2)"
    unfolding BN_exp_def pick prod.case option.case v1(1) r1 r2(1) r3(1) by simp
  show thesis by (rule that [OF run]) (simp_all add: r2(2,3) r3(2,3))
qed

section \<open>Contexts that are made with a division\<close>

theorem mont_for_modulus:
  assumes m: "bn_small m" "odd (bn_abs m)" "\<not> bn_neg m" and N: "16 * bn_width m + 16 \<le> N"
    and ctx: "div_ctx_ok malloc N ctx" and init: "bn_free malloc N BN_init"
  obtains mont where "BN_MONT_CTX_new_for_modulus malloc True m ctx = Some mont" and "mont_ok mont"
    and "mont_n mont = bn_abs m" and "mont_room malloc N mont"
proof -
  let ?m0 = "\<lparr>mont_RR = BN_init, mont_N = BN_init, mont_n0 = 0\<rparr>"
  have nz: "bn_abs m \<noteq> 0" using m(2) by (intro notI) simp
  have wm: "bn_width m \<le> N" using N by simp
  obtain n0 where n0: "BN_copy malloc m BN_init = (Some (), n0)"
    by (rule bn_totalD [OF total_copy [OF wm] init])
  let ?n = "bn_set_minimal_width n0"
  let ?m1 = "?m0\<lparr>mont_N := ?n, mont_n0 := bn_mont_n0 ?n\<rparr>" and ?w = "bn_width ?n"
  have set: "bn_mont_ctx_set_N_and_n0 malloc m ?m0 = (Some (), ?m1)"
    using m(1-3) nz n0 is_odd_iff [of m]
    by (simp add: bn_mont_ctx_set_N_and_n0_def is_zero_iff BN_is_negative_def bn_small_def Let_def)
  note n = set_N_and_n0_val [OF set m(1)]
  have okn: "bn_ok ?n" "bn_abs ?n \<noteq> 0" "bn_abs ?n = bn_abs m" using n(1,5) nz by (simp_all add: bn_small_def)
  have w: "?w \<le> bn_width m"
    using BN_copy_val(3,4) [OF n0] m(1) bn_minimal_width(1) [of n0]
    by (simp add: bn_small_def bn_set_minimal_width_def Let_def)
  have zero: "bn_temp malloc N (BN_zero BN_init)" "bn_width (BN_zero BN_init) = 0"
    using init by (simp_all add: bn_temp_def BN_zero_def BN_init_def bn_ok_def bn_free_def)
  have i: "(?w * 64 * 2) div 64 + 1 \<le> N" using w N by simp
  obtain t where t: "BN_set_bit malloc (int (?w * 64 * 2)) (BN_zero BN_init) = (Some (), t)" "bn_abs t = 2 ^ (?w * 64 * 2)"
    "bn_ok t" "bn_width t = (?w * 64 * 2) div 64 + 1" "bn_neg t = bn_neg (BN_zero BN_init)"
    by (rule power_bits [OF zero i])
  have total: "bn_total malloc N (BN_set_bit malloc (int (?w * 64 * 2)))" by (rule total_set_bit) (use i in simp_all)
  have ft: "bn_temp malloc N t" using bn_totalD [OF total, of "BN_zero BN_init"] zero(1) t(1,3) unfolding bn_temp_def by (metis prod.inject)
  have K: "bn_width t + ?w + 8 \<le> N" using t(4) w N by simp
  obtain rr where rr: "BN_mod malloc t ?n ctx t = (Some (), rr)" "bn_normal rr" "bn_free malloc N rr"
    "bn_int rr = sgn (bn_int t) * int (bn_abs t mod bn_abs ?n)"
    by (rule mod_returns [OF t(3) okn(1,2) K ctx ft])
  have "bn_int t = int (2 ^ (?w * 64 * 2))" using t(2,5) by (simp add: bn_int_def BN_zero_def)
  then have "bn_int rr = int (2 ^ (?w * 64 * 2) mod bn_abs m)" using rr(4) t(2) okn(3) by simp
  then have v: "bn_abs rr = 2 ^ (?w * 64 * 2) mod bn_abs m" "\<not> bn_neg rr" using bn_int_eq_int normal_neg [OF rr(2)] by simp_all
  have "bn_abs rr < bn_abs ?n" using v(1) nz okn(3) by simp
  then have less: "bn_abs rr < bn_base ^ ?w" using bn_abs_less [of ?n] by linarith
  have wN: "?w \<le> N" using w wm by simp
  from total_resize [OF disjI2 [OF less] wN rr(3)] obtain r2 where r2: "bn_resize_words malloc ?w rr = (Some (), r2)" by blast
  note r2v = bn_resize_words_val [OF r2 bn_normal_ok [OF rr(2)]]
  let ?mont = "?m1\<lparr>mont_RR := r2\<rparr>"
  have "(2 :: nat) ^ (?w * 64 * 2) = bn_base ^ ?w * bn_base ^ ?w"
    unfolding bn_base_def power_mult [symmetric] power_add [symmetric] by (simp add: algebra_simps)
  then have ok: "mont_ok ?mont" using n(1,2,5,6) v r2v by (simp add: mont_ok_def bn_small_def)
  have m1: "mont_N ?m1 = ?n" "mont_RR ?m1 = BN_init" by simp_all
  have run: "BN_MONT_CTX_new_for_modulus malloc True m ctx = Some ?mont"
    unfolding BN_MONT_CTX_new_for_modulus_def BN_MONT_CTX_new_def BN_MONT_CTX_set_def Let_def
    by (simp only: if_True option.case prod.case set m1 and_then_def t(1) rr(1) r2)
  show thesis by (rule that [OF run ok]) (use okn(3) init w N in \<open>simp_all add: mont_room_def\<close>)
qed

section \<open>Products of powers\<close>

lemma keeps_from_montgomery_word: "keeps_static (BN_from_montgomery_word malloc mont x)"
  unfolding keeps_static_def BN_from_montgomery_word_def
  by (auto simp: Let_def and_then_def bn_wexpand_def split: option.splits prod.splits)

lemma keeps_mod_exp_mont: "keeps_static (BN_mod_exp_mont malloc ctx a p m mont)"
  unfolding keeps_static_def BN_mod_exp_mont_def Let_def
  using keeps_from_montgomery_word keeps_set_word
  by (auto simp: keeps_static_def BN_zero_def BN_one_def BN_from_montgomery_def split: option.splits prod.splits)

text \<open>A number in Montgomery form times one that is not, which takes the form away.\<close>

lemma mixed_product_returns:
  assumes ok: "mont_ok mt" "mont_room malloc N mt" and b: "mont_form mt b k" and y: "bn_small y" "\<not> bn_neg y" "bn_abs y < mont_n mt"
    and N: "16 * bn_width y + 16 \<le> N" and t: "bn_temp malloc N t1" "bn_temp malloc N t2"
  obtains r' where "BN_mod_mul_montgomery malloc mt b y False (Some t1) (Some t2) b = (Some (), r')"
    and "bn_int r' = int ((k * bn_abs y) mod mont_n mt)"
proof -
  have bs: "bn_small b" "\<not> bn_neg b" "bn_width b = bn_width (mont_N mt)" "bn_abs b = (mont_R mt * k) mod mont_n mt"
    using b by (simp_all add: mont_form_def)
  have prod: "bn_abs b * bn_abs y < mont_n mt * mont_R mt"
    using mont_form_less [OF ok(1) b] y(3) mont_okD(6) [OF ok(1)] by (intro mul_less_mod) simp_all
  have room: "8 * (bn_width b + bn_width y) + 16 \<le> N" "2 * bn_width (mont_N mt) \<le> N"
    using N ok(2) bs(3) by (simp_all add: mont_room_def)
  have tt: "bn_free malloc N t1" "bn_ok t1" "bn_free malloc N t2" using t by (simp_all add: bn_temp_def)
  have "bn_total malloc N (BN_mod_mul_montgomery malloc mt b y False (Some t1) (Some t2))"
    by (rule total_mod_mul_montgomery [OF ok(1) bs(1,2) y(1,2) _ prod room tt]) simp
  then obtain r0 where r0: "BN_mod_mul_montgomery malloc mt b y False (Some t1) (Some t2) BN_init = (Some (), r0)"
    by (rule bn_totalD [OF _ mont_room_init [OF ok(2)]])
  obtain r' where r': "BN_mod_mul_montgomery malloc mt b y False (Some t1) (Some t2) b = (Some (), r')"
    using mod_mul_montgomery_dest [OF r0 mont_form_dest [OF b]] by blast
  have "\<And>x. Some t1 = Some x \<Longrightarrow> bn_ok x" using tt(2) by simp
  note v = BN_mod_mul_montgomery_val [where same = False, OF r' ok(1) bs(1) y(1) this _ prod, simplified]
  have "(mont_R mt * bn_abs r') mod mont_n mt = (mont_R mt * (k * bn_abs y)) mod mont_n mt"
    using v(2) unfolding bs(4) by (simp add: mod_mult_left_eq mult.assoc)
  then have "bn_abs r' mod mont_n mt = (k * bn_abs y) mod mont_n mt" by (rule cancel_R [OF mont_okD(2) [OF ok(1)]])
  then show thesis using that [OF r'] v(1,3) by (simp add: bn_int_def)
qed

theorem BN_mod_exp2_mont_returns:
  assumes m: "bn_small m" "odd (bn_abs m)" "\<not> bn_neg m"
    and a1: "bn_small a1" "\<not> bn_neg a1" "bn_abs a1 < bn_abs m" and a2: "bn_small a2" "\<not> bn_neg a2" "bn_abs a2 < bn_abs m"
    and p: "bn_ok p1" "bn_ok p2" and N: "16 * (bn_width a1 + bn_width m) + 16 \<le> N" "16 * (bn_width a2 + bn_width m) + 16 \<le> N"
    and init: "bn_free malloc N BN_init" and ctx: "exp_ctx_ok malloc N ctx1" "exp_ctx_ok malloc N ctx2" "div_ctx_ok malloc N dctx"
    and temps: "temp_pair malloc N to" "temp_pair malloc N mul" and given: "mont_given malloc N m mont" and rr: "bn_temp malloc N rr"
  obtains r' where "BN_mod_exp2_mont malloc True dctx ctx1 ctx2 to mul a1 p1 a2 p2 m mont rr = (Some (), r')"
    and "bn_int r' = (bn_int a1 ^ bn_abs p1 * bn_int a2 ^ bn_abs p2) mod bn_int m"
proof -
  have Nm: "16 * bn_width m + 16 \<le> N" using N(1) by simp
  obtain mt where mt: "(case mont of None \<Rightarrow> BN_MONT_CTX_new_for_modulus malloc True m dctx | Some x \<Rightarrow> Some x) = Some mt"
    "mont_ok mt" "mont_n mt = bn_abs m" "mont_room malloc N mt"
  proof (cases mont)
    case None
    obtain x where "BN_MONT_CTX_new_for_modulus malloc True m dctx = Some x" "mont_ok x" "mont_n x = bn_abs m" "mont_room malloc N x"
      by (rule mont_for_modulus [OF m Nm ctx(3) init])
    with None that show thesis by simp
  next
    case (Some x)
    with given that show thesis by (simp add: mont_given_def)
  qed
  have given': "mont_given malloc N m (Some mt)" using mt by (simp add: mont_given_def)
  have init': "bn_temp malloc N BN_init" using init by (simp add: bn_temp_def BN_init_def bn_ok_def)
  obtain x where x: "BN_mod_exp_mont malloc ctx1 a1 p1 m (Some mt) rr = (Some (), x)"
    "bn_int x = bn_int a1 ^ bn_abs p1 mod bn_int m" "bn_ok x" "16 * bn_width x + 16 \<le> N" "\<not> bn_neg x"
    by (rule BN_mod_exp_mont_returns [OF m a1 p(1) N(1) init ctx(1) given' rr])
  obtain y where y: "BN_mod_exp_mont malloc ctx2 a2 p2 m (Some mt) BN_init = (Some (), y)"
    "bn_int y = bn_int a2 ^ bn_abs p2 mod bn_int m" "bn_ok y" "16 * bn_width y + 16 \<le> N" "\<not> bn_neg y"
    by (rule BN_mod_exp_mont_returns [OF m a2 p(2) N(2) init ctx(2) given' init'])
  have mi: "bn_int m = int (bn_abs m)" "0 < bn_int m" using m(2,3) by (auto simp: bn_int_def intro!: Nat.gr0I)
  have less: "bn_abs z < bn_abs m" if "bn_int z = k mod bn_int m" "\<not> bn_neg z" for z k
  proof -
    have "bn_int z < bn_int m" unfolding that(1) using mi(2) by (rule pos_mod_bound)
    then show ?thesis using mi(1) that(2) by (simp add: bn_int_def [of z])
  qed
  have xl: "bn_abs x < bn_abs m" and yl: "bn_abs y < bn_abs m" using less [OF x(2,5)] less [OF y(2,5)] .
  have free: "bn_free malloc N x" using keeps_free [OF keeps_mod_exp_mont x(1)] rr by (simp add: bn_temp_def)
  have small: "bn_small x" "bn_small y" using x(3,4) y(3,4) init by (simp_all add: bn_small_def bn_free_def)
  obtain s1 s2 t1 t2 where t: "to = (Some s1, Some s2)" "bn_temp malloc N s1" "bn_temp malloc N s2"
    "mul = (Some t1, Some t2)" "bn_temp malloc N t1" "bn_temp malloc N t2"
    using temps unfolding temp_pair_def by blast
  have nR: "bn_abs m < mont_R mt" using mont_okD(6) [OF mt(2)] mt(3) by simp
  have xR: "bn_abs x < mont_R mt" using xl nR by simp
  have room: "8 * (bn_width x + bn_width (mont_N mt)) + 16 \<le> N" using x(4) mt(4) by (simp add: mont_room_def)
  have dest: "mont_dest malloc mt x" by (rule temp_dest [OF mt(4)]) (simp add: bn_temp_def x(3) free)
  obtain b where b: "BN_to_montgomery malloc mt x (Some s1) (Some s2) x = (Some (), b)" "mont_form mt b (bn_abs x)"
    by (rule to_montgomery_returns [OF mt(2) small(1) x(5) xR room mt(4) t(2,3) dest])
  have ym: "bn_abs y < mont_n mt" using yl mt(3) by simp
  obtain r' where r': "BN_mod_mul_montgomery malloc mt b y False (Some t1) (Some t2) b = (Some (), r')"
    "bn_int r' = int ((bn_abs x * bn_abs y) mod mont_n mt)"
    by (rule mixed_product_returns [OF mt(2,4) b(2) small(2) y(5) ym y(4) t(5,6)])
  have "bn_int r' = (bn_int x * bn_int y) mod bn_int m" using r'(2) x(5) y(5) mi(1) mt(3) by (simp add: bn_int_def zmod_int)
  then have val: "bn_int r' = (bn_int a1 ^ bn_abs p1 * bn_int a2 ^ bn_abs p2) mod bn_int m" unfolding x(2) y(2) by (simp only: mod_mult_eq)
  have "BN_mod_exp2_mont malloc True dctx ctx1 ctx2 to mul a1 p1 a2 p2 m mont rr = (Some (), r')"
    unfolding BN_mod_exp2_mont_def mt(1) option.case t(1,4) fst_conv snd_conv
    by (simp add: and_then_def x(1) y(1) b(1) r'(1))
  then show thesis using val by (rule that)
qed

end
