(* ===== verification/Spec2Isabelle.thy ===== *)
theory Spec2Isabelle
  imports Asn1_Oids Asn1_Sets Ber Unicode Pb_Fields Pool Stack Base64 Mem Bio_Pair Bn_Exp_Consttime Bn_Div_Mod Bn_Exp2
begin

text \<open>
  The native core that the Dinder app links into its process: the parts of BoringSSL
  (under \<open>Dinder/Pods/BoringSSL-GRPC/src/crypto\<close>) that read and build DER, share certificate
  buffers and keep collections, its big-number arithmetic, and the protocol-buffer codec nanopb
  (under \<open>Dinder/Pods/nanopb\<close>) that Firestore uses for its messages.  Everything that arrives
  from the network or is stored on the device passes through this code before any other.

  \<^bold>\<open>Parts and theories\<close>

  \<^item> \<open>Prelude\<close>: the C integer types as words, \<open>size_t\<close> arithmetic, operations with a success
    flag (\<open>oper\<close>, with the collection \<open>op_simps\<close>), big- and little-endian numbers, \<open>memcmp\<close>.
  \<^item> \<open>Cbs\<close>: \<open>bytestring/cbs.c\<close>.  A \<open>CBS\<close> is the list of bytes in its window; every
    reader returns its result and the window it leaves.  The parts of \<open>cbs.c\<close> on object
    identifiers are in \<open>Asn1_Oids\<close>.  \<open>Der\<close> is the specification: base-128 numbers, tags and
    whole elements of X.690, and the theorems that the readers accept exactly these.
  \<^item> \<open>Cbb\<close>: \<open>bytestring/cbb.c\<close>.  The state is the shared buffer and the chain of open
    children; a \<open>CBB *\<close> is the depth in the chain.  \<open>render\<close> says what the bytes will be once
    all prefixes are filled in, and flushing refines it.  \<open>Asn1_Values\<close>, \<open>Asn1_Oids\<close> and
    \<open>Asn1_Sets\<close> hold the typed writers of \<open>cbb.c\<close> and their round trips through the readers.
  \<^item> \<open>Unicode\<close>: \<open>bytestring/unicode.c\<close> over readers and builders.
  \<^item> \<open>Ber\<close>: \<open>bytestring/ber.c\<close>, which reads BER with the reader and writes DER with the
    builder; the lemmas relate it to a grammar of BER encodings of abstract values.
  \<^item> \<open>Consttime\<close>: the branch-free comparisons and selections of \<open>internal.h\<close>, with
    \<open>CRYPTO_memcmp\<close>.  \<open>Base64\<close>: \<open>base64/base64.c\<close>, block and streaming, on top of them.
  \<^item> \<open>Mem\<close>: the string and comparison helpers of \<open>mem.c\<close>.
  \<^item> \<open>Lhash\<close>: \<open>lhash/lhash.c\<close>.  The locale \<open>hashing\<close> is the contract of the caller's hash and
    comparison functions, \<open>dictionary\<close> what a client of the table relies on, and
    \<open>hash_table\<close> gives the second from the first.
  \<^item> \<open>Pool\<close>: \<open>pool/pool.c\<close> and \<open>refcount_lock.c\<close>, a client of the table whose functions
    interpret \<open>hashing\<close>.  Its critical sections are the steps of an inductive relation, so
    that any interleaving of threads is a run; the invariant counts references.
  \<^item> \<open>Stack\<close>: \<open>stack/stack.c\<close>, a refinement of lists.
  \<^item> \<open>Bio_Pair\<close>: \<open>bio/pair.c\<close>, two ring buffers, each a refinement of a bounded queue.
  \<^item> Big numbers, \<open>fipsmodule/bn\<close>: \<open>Bn_Words\<close> has the word operations of \<open>generic.c\<close> on lists of
    64-bit limbs, \<open>Bn_Reduce\<close> comparison and reduction in constant time, \<open>Bn_Mul\<close> the schoolbook
    and Comba products, \<open>Bn_Karatsuba\<close> the recursions of \<open>mul.c\<close>.  \<open>Bignum\<close> has the record of
    \<open>bn.h\<close> with \<open>bn.c\<close> and \<open>cmp.c\<close>; \<open>Bn_Add\<close>, \<open>Bn_Shift\<close>, \<open>Bn_Bytes\<close> and \<open>Bn_Product\<close> the operations
    of \<open>add.c\<close>, \<open>shift.c\<close>, \<open>bytes.c\<close> and \<open>mul.c\<close> on it; \<open>Bn_Modular\<close> the constant-time half of
    \<open>div.c\<close>, \<open>Bn_Mont\<close> the contexts and products of \<open>montgomery.c\<close>.  \<open>bn_val\<close> is the number in a
    list of limbs, \<open>bn_abs\<close> and \<open>bn_int\<close> the value of a \<open>BIGNUM\<close>; the collection \<open>bn_spec\<close> has what
    each operation computes.  \<open>Bn_Room\<close> shows that the operations return: where the allocator
    grants the limbs (\<open>bn_free\<close>), each is \<open>bn_total\<close>, by the rules \<open>bn_returns\<close>.
  \<^item> Modular exponentiation, \<open>exponentiation.c\<close>: the loops over windows in \<open>Bn_Window\<close> are defined
    over a multiplication, whose contract is the locale \<open>power_mult\<close>; the Montgomery products on
    big numbers (\<open>Bn_Exp\<close>), on small arrays, and with the table of the constant-time variant
    (\<open>Bn_Exp_Consttime\<close>) are its interpretations.  The size of that table is a natural number,
    where the code has an \<open>int\<close>.
  \<^item> \<open>Bn_Div\<close> has the long division of \<open>div.c\<close>, whose loop keeps the remainder in the limbs of
    the numerator; \<open>Bn_Div_Mod\<close> has the arithmetic modulo numbers, words and powers of two.
  \<^item> \<open>Bn_Recp\<close> divides by a fixed number with its reciprocal, and has \<open>BN_mod_exp\<close>, which uses this
    for even moduli: its products are one more interpretation of \<open>power_mult\<close>.  \<open>Bn_Exp2\<close> has the
    Montgomery contexts that are made with a division, products of powers, and \<open>BN_exp\<close>.
  \<^item> \<open>Pb_Istream\<close>, \<open>Pb_Ostream\<close>: the streams, varints, tags, skipping and substreams of
    \<open>pb_decode.c\<close> and \<open>pb_encode.c\<close>.  The callback of the application is a parameter with the
    contract \<open>input_source\<close> or \<open>output_sink\<close>; the memory buffers of the code are the instances.
  \<^item> \<open>Pb_Fields\<close>: the field encoders and decoders, arrays, static fields and submessages.

  The properties are at the end of this file, the most important first: exactness of the
  readers against the specification, round trips of what the writers produce, refinement of
  abstract states, safety of fields and references, and the error behaviour.

  \<^bold>\<open>Conventions\<close>

  Definitions have the names of the C functions; an auxiliary definition stands for a loop or
  for a block of the function it follows.  A function that returns 1 or 0 and stores results
  through pointers returns an option; an out-pointer that may be \<open>NULL\<close> is always supplied.
  The targets are 64-bit and little-endian: \<open>size_t\<close> is a natural number whose sums and
  products wrap at \<open>2 ^ 64\<close>, bytes and fixed-width integers are words, \<open>int64_t\<close> is a 64-bit
  word read with \<open>sint\<close>.  The allocator is a function from the size to its answer, or the
  answer itself where there is one allocation; a number that the code takes from a \<open>BN_CTX\<close>
  is an argument, \<open>None\<close> where there is none left; fresh bytes that the code does not read before
  it writes are zero.  The error queue of BoringSSL is not part of the states.  nanopb is built
  as in the app, with \<open>PB_FIELD_32BIT\<close>, \<open>PB_ENABLE_MALLOC\<close> and error messages.

  \<^bold>\<open>Termination and fuel\<close>

  All loops are structural recursions or have a measure, but for these.  The copying loops of
  \<open>Bio_Pair\<close> are partial functions, with \<open>None\<close> for a loop that does not end or an assertion
  that fails; the properties of the pair show that they return.  \<open>cbs_convert_ber\<close> recurses on
  the contents of elements, with a depth that is checked against \<open>kMaxDepth\<close>, and then goes on
  with what the recursion has left unread: it is a nested recursion, for which
  \<open>convert_loop_shrinks\<close> shows that what is left is never longer than the window, so that the
  length of the window is a measure.  No definition has fuel.

  \<^bold>\<open>What the model shows about the code\<close>

  Deviations that were found and are theorems: the quick check of \<open>ber.c\<close> misses nested BER,
  \<open>pb_decode_varint32\<close> accepts some numbers beyond 32 bits, \<open>sk_set\<close> leaves the sorted flag
  on an array out of order, \<open>BN_div\<close> loses the sign of the remainder when the quotient replaces
  the numerator, \<open>BN_bin2bn\<close> of an empty string leaves a negative zero,
  \<open>bn_rshift_secret_shift\<close> ignores the high bits of the distance, \<open>bn_mul_part_recursive\<close> on
  fewer than eight limbs leaves old limbs behind the product, \<open>CBS_asn1_ber_to_der\<close> consumes
  all elements of an input that it converts, \<open>CBB_did_write\<close> succeeds on a builder with an
  error, and \<open>bn_abs_sub_consttime\<close> keeps the sign of its destination.

  \<^bold>\<open>Not modelled\<close>

  Of nanopb: the walk over the field table of a message (\<open>pb_encode\<close>, \<open>pb_decode\<close>,
  \<open>pb_common.c\<close>, defaults, extensions and release), pointer and callback fields; where a
  codec calls it, the codec of the message is an argument.  Of BoringSSL:
  the lock around a shared Montgomery context, primes, gcd, square roots and random numbers;
  the rest of the cryptography
  (\<open>fipsmodule\<close>, \<open>curve25519\<close>, \<open>chacha\<close>, \<open>hrss\<close> and others), X.509, the template-driven
  \<open>asn1\<close>, \<open>evp\<close>, \<open>pem\<close>, the TLS library \<open>ssl\<close>, and the operating-system parts.  The C
  core of gRPC is asynchronous glue over sockets, timers and threads; the \<open>upb\<close> messages are
  generated.  abseil, leveldb and Firestore are C++; the app itself is Swift.
\<close>

text \<open>C1: The DER element reader CBS_get_any_asn1_element accepts exactly the inputs that start with a
  canonical tag-length-value element of fewer than 2^32 contents octets, and returns that
  element, its tag and its header length, with the reader behind it; in particular lengths not
  in their shortest form, tags not in their shortest form, indefinite lengths and truncated
  elements are all refused.\<close>

theorem element_reader_exact:
  "CBS_get_any_asn1_element s = (Some (e, tag, hl), r) \<longleftrightarrow>
    (\<exists>body. length body < 2 ^ 32 \<and> e = der_element tag body \<and> s = e @ r \<and>
       hl = length (der_header tag (length body)))"
  by (rule get_any_asn1_element_iff)

text \<open>C2: Packed repeated fields survive the wire: encode_array on a memory stream writes the tag, the
  length and the items exactly when the buffer has room and fails otherwise, and pb_decode_tag
  followed by decode_static_field on these bytes restores the same items and their count in the
  structure, leaves the rest of the structure and of the input alone. This holds for every
  packable type with the size that goes with it, for nonempty arrays whose items and encoding
  are smaller than 2^32 bytes, and for the tags 1 to 2^29 - 1.\<close>

theorem packed_array_roundtrip:
  assumes "items \<noteq> []" and "\<forall>item \<in> set items. well_typed f item"
    and "PB_HTYPE (ftype f) = 0x20" and "length items \<le> array_size f"
    and "data_size f * array_size f < 2 ^ 32" and "length (array_body f items) < 2 ^ 32"
    and "0 < unat (ftag f)" and "unat (ftag f) < 2 ^ 29"
    and "PB_ENCODERS submsg (PB_LTYPE (ftype f)) = Some enc"
    and "data_size f * length items \<le> length old" and "wire = tag_bytes PB_WT_STRING (ftag f)
      @ varint_buffer (of_nat (length (array_body f items))) @ array_body f items"
  shows "(if length wire \<le> n
      then \<exists>t. encode_array deref f (concat items @ junk) (length items) enc (pb_ostream_from_buffer n)
          = (Some (), t) \<and> sink_state t = wire \<and> bytes_written t = length wire
      else \<exists>t. encode_array deref f (concat items @ junk) (length items) enc (pb_ostream_from_buffer n)
          = (None, t)) \<and>
    (\<exists>s. pb_decode_tag (whole_buffer (wire @ rest)) = ((Some (PB_WT_STRING, ftag f), False), s) \<and>
      decode_static_field realloc submsg' defaults PB_WT_STRING
        (\<lparr>fpos = f, has_size = True, fcount = 0, pdata = old\<rparr>, s) =
      (Some (), (\<lparr>fpos = f, has_size = True, fcount = length items,
          pdata = concat items @ drop (data_size f * length items) old\<rparr>, whole_buffer rest)))"
proof (intro conjI)
  have "emits buf_write (\<lambda>mem. mem) (encode_array deref f (concat items @ junk) (length items) enc) wire"
    unfolding assms(11) using assms(6)
    by (intro memory.emits_packed_array [OF assms(1,2,4,9)]) simp
  moreover have "length wire < 2 ^ 64"
    using assms(6) varint_buffer_bound [of "of_nat (length (array_body f items))"]
      varint_buffer_bound [of "push_bit 3 (ucast (ftag f)) OR ucast PB_WT_STRING"]
    by (simp add: assms(11) tag_bytes_def)
  ultimately show "if length wire \<le> n
      then \<exists>t. encode_array deref f (concat items @ junk) (length items) enc (pb_ostream_from_buffer n)
          = (Some (), t) \<and> sink_state t = wire \<and> bytes_written t = length wire
      else \<exists>t. encode_array deref f (concat items @ junk) (length items) enc (pb_ostream_from_buffer n)
          = (None, t)"
    by (rule emits_to_buffer)
next
  let ?it = "\<lparr>fpos = f, has_size = True, fcount = 0, pdata = old\<rparr>"
  let ?len = "varint_buffer (of_nat (length (array_body f items)))"
  let ?s = "whole_buffer (?len @ array_body f items @ rest)"
  have "unat PB_WT_STRING < 8" by (simp add: wire_types)
  then have "pb_decode_tag (whole_buffer (wire @ rest)) = ((Some (PB_WT_STRING, ftag f), False), ?s)"
    using decode_tag_bytes [OF assms(7,8)] by (simp add: assms(11))
  moreover obtain t where "decode_static_field realloc submsg' defaults PB_WT_STRING (?it, ?s) =
      (Some (), (?it\<lparr>fcount := fcount ?it + length items,
        pdata := [] @ concat items @ drop (data_size f * length items) old\<rparr>, t))"
    and a: "advanced (\<lambda>mem. mem) ?s (length ?len + length (array_body f items)) t"
    using buffer.decode_packed_ok [OF assms(2) primed_whole contents_whole assms(6) _ assms(3,1),
        where it = ?it and pre = "[]" and d = old and rest = rest and realloc = realloc
        and submsg = submsg' and defaults = defaults] assms(4,5,10) by auto
  ultimately show "\<exists>s. pb_decode_tag (whole_buffer (wire @ rest)) = ((Some (PB_WT_STRING, ftag f), False), s) \<and>
      decode_static_field realloc submsg' defaults PB_WT_STRING (?it, s) =
      (Some (), (\<lparr>fpos = f, has_size = True, fcount = length items,
          pdata = concat items @ drop (data_size f * length items) old\<rparr>, whole_buffer rest))"
    using advanced_whole2 [OF a] by simp
qed

lemma packed_array_roundtrip_witness:
  "\<exists>s. pb_decode_tag (whole_buffer ((tag_bytes PB_WT_STRING 3 @ varint_buffer 3 @ [7, 0x96, 1]) @ [9]))
      = ((Some (PB_WT_STRING, 3), False), s) \<and>
    decode_static_field (\<lambda>_ _. None) (\<lambda>_. mem_error []) (\<lambda>_. []) PB_WT_STRING
      (\<lparr>fpos = \<lparr>ftag = 3, ftype = 0x22, data_size = 2, array_size = 4\<rparr>, has_size = True, fcount = 0,
        pdata = [0, 0, 0, 0, 0, 0, 0, 0]\<rparr>, s) =
    (Some (), (\<lparr>fpos = \<lparr>ftag = 3, ftype = 0x22, data_size = 2, array_size = 4\<rparr>, has_size = True,
        fcount = 2, pdata = [7, 0, 0x96, 0, 0, 0, 0, 0]\<rparr>, whole_buffer [9]))"
proof -
  let ?f = "\<lparr>ftag = 3, ftype = 0x22, data_size = 2, array_size = 4\<rparr>"
  let ?items = "[[7, 0], [0x96, 0]] :: byte list list"
  have t: "PB_LTYPE (ftype ?f) = 2" "PB_HTYPE (ftype ?f) = 0x20"
    by (simp_all add: PB_LTYPE_def PB_HTYPE_def)
  have body: "array_body ?f ?items = [7, 0x96, 1]"
    using t by (simp add: array_body_def scalar_bytes_def load_unsigned_def varint_buffer_def Let_def
        varint_groups.simps)
  have typed: "\<forall>item \<in> set ?items. well_typed ?f item"
    using t by (simp add: well_typed_def)
  have enc: "PB_ENCODERS (\<lambda>_ _. out_error []) (PB_LTYPE (ftype ?f)) = Some pb_enc_uvarint"
    using t by (simp add: PB_ENCODERS_def)
  have wire: "tag_bytes PB_WT_STRING 3 @ varint_buffer 3 @ [7, 0x96, 1] = tag_bytes PB_WT_STRING (ftag ?f)
      @ varint_buffer (of_nat (length (array_body ?f ?items))) @ array_body ?f ?items"
    unfolding body by simp
  have two: "length ?items = 2" by simp
  note r = packed_array_roundtrip [OF _ typed t(2) _ _ _ _ _ enc _ wire, where old = "[0, 0, 0, 0, 0, 0, 0, 0]"
      and rest = "[9]" and realloc = "\<lambda>_ _. None" and submsg' = "\<lambda>_. mem_error []" and defaults = "\<lambda>_. []",
      THEN conjunct2, unfolded body two]
  show ?thesis
    using r by simp
qed

text \<open>C3: Modular multiplication: for a positive odd modulus and reduced operands that are not negative,
  of fewer than 2^31 limbs, where the allocator grants enough limbs, making a Montgomery
  context, bringing both operands into Montgomery form, multiplying (or squaring, where they are
  one object) and converting back all succeed, and the result is the product modulo the modulus.\<close>

theorem montgomery_multiplication:
  assumes m: "bn_small m" "odd (bn_abs m)" "\<not> bn_neg m"
    and a: "bn_small a" "\<not> bn_neg a" "bn_abs a < bn_abs m" and b: "bn_small b" "\<not> bn_neg b" "bn_abs b < bn_abs m"
    and N: "16 * (bn_width a + bn_width b + bn_width m) + 16 \<le> N"
    and ctx: "\<forall>i. ctx_free malloc N (ctx i)" and init: "bn_free malloc N BN_init"
    and same: "same \<Longrightarrow> a = b" and tmp: "bn_temp malloc N tmp" "bn_temp malloc N t" "bn_temp malloc N r"
  shows "\<exists>mont a' b' p r'. BN_MONT_CTX_new_consttime malloc True m ctx = Some mont \<and>
    BN_to_montgomery malloc mont a (Some tmp) (Some t) r = (Some (), a') \<and>
    BN_to_montgomery malloc mont b (Some tmp) (Some t) r = (Some (), b') \<and>
    BN_mod_mul_montgomery malloc mont a' b' same (Some tmp) (Some t) r = (Some (), p) \<and>
    BN_from_montgomery malloc mont p (Some t) r = (Some (), r') \<and>
    bn_int r' = (bn_int a * bn_int b) mod bn_int m"
proof -
  have "16 * bn_width m + 16 \<le> N" using N by simp
  from mont_context [OF m this ctx init] obtain mont where
    mont: "BN_MONT_CTX_new_consttime malloc True m ctx = Some mont" "mont_ok mont" "mont_n mont = bn_abs m"
      "mont_room malloc N mont" "bn_width (mont_N mont) \<le> bn_width m" .
  have less: "bn_abs a < mont_R mont" "bn_abs b < mont_R mont"
    using a(3) b(3) mont_okD(6) [OF mont(2)] mont(3) by linarith+
  have Na: "8 * (bn_width a + bn_width (mont_N mont)) + 16 \<le> N"
    and Nb: "8 * (bn_width b + bn_width (mont_N mont)) + 16 \<le> N" using N mont(5) by simp_all
  note r = temp_dest [OF mont(4) tmp(3)]
  obtain a' where a': "BN_to_montgomery malloc mont a (Some tmp) (Some t) r = (Some (), a')" "mont_form mont a' (bn_abs a)"
    by (rule to_montgomery_returns [OF mont(2) a(1,2) less(1) Na mont(4) tmp(1,2) r])
  obtain b' where b': "BN_to_montgomery malloc mont b (Some tmp) (Some t) r = (Some (), b')" "mont_form mont b' (bn_abs b)"
    by (rule to_montgomery_returns [OF mont(2) b(1,2) less(2) Nb mont(4) tmp(1,2) r])
  obtain p where p: "BN_mod_mul_montgomery malloc mont a' b' same (Some tmp) (Some t) r = (Some (), p)"
    "mont_form mont p (bn_abs a * bn_abs b)"
    by (rule mul_montgomery_returns [where same = same, OF mont(2) a'(2) b'(2) _ mont(4) tmp(1,2) r]) (use same a'(1) b'(1) in simp_all)
  obtain r' where r': "BN_from_montgomery malloc mont p (Some t) r = (Some (), r')"
    "bn_int r' = int (bn_abs a * bn_abs b mod mont_n mont)"
    by (rule from_montgomery_returns [OF mont(2) p(2) mont(4) tmp(2) r])
  have "bn_int r' = (bn_int a * bn_int b) mod bn_int m"
    unfolding r'(2) using a(2) b(2) m(3) by (simp add: mont(3) bn_int_def zmod_int)
  with mont(1) a'(1) b'(1) p(1) r'(1) show ?thesis by blast
qed

lemma montgomery_multiplication_witness:
  defines "n \<equiv> \<lambda>k. \<lparr>bn_d = [k], bn_width = 1, bn_neg = False, bn_static = False\<rparr>"
  shows "\<exists>mont a' b' p r'. BN_MONT_CTX_new_consttime (\<lambda>_. True) True (n 15) (\<lambda>_. (Some BN_init, Some BN_init, Some BN_init)) = Some mont \<and>
    BN_to_montgomery (\<lambda>_. True) mont (n 7) (Some BN_init) (Some BN_init) BN_init = (Some (), a') \<and>
    BN_to_montgomery (\<lambda>_. True) mont (n 11) (Some BN_init) (Some BN_init) BN_init = (Some (), b') \<and>
    BN_mod_mul_montgomery (\<lambda>_. True) mont a' b' False (Some BN_init) (Some BN_init) BN_init = (Some (), p) \<and>
    BN_from_montgomery (\<lambda>_. True) mont p (Some BN_init) BN_init = (Some (), r') \<and> bn_int r' = 2"
  using montgomery_multiplication [of "n 15" "n 7" "n 11" 100 "\<lambda>_. True" "\<lambda>_. (Some BN_init, Some BN_init, Some BN_init)" False BN_init BN_init BN_init]
  by (simp add: n_def bn_small_def bn_ok_def bn_abs_def bn_int_def bn_free_def ctx_free_def bn_temp_def BN_init_def)

text \<open>C4: Modular exponentiation: for a positive odd modulus and a reduced base that is not negative, of
  fewer than 2^31 limbs, and any exponent, whose sign is ignored, with a Montgomery context that
  the caller gives or without one, BN_mod_exp_mont succeeds where the allocator grants enough
  limbs, and its sliding windows compute the power modulo the modulus.\<close>

theorem mod_exp_exact:
  assumes m: "bn_small m" "odd (bn_abs m)" "\<not> bn_neg m" and a: "bn_small a" "\<not> bn_neg a" "bn_abs a < bn_abs m"
    and p: "bn_ok p" and N: "16 * (bn_width a + bn_width m) + 16 \<le> N" and init: "bn_free malloc N BN_init"
    and ctx: "exp_ctx_ok malloc N ctx" and given: "mont_given malloc N m mont" and r: "bn_temp malloc N r"
  shows "\<exists>r'. BN_mod_exp_mont malloc ctx a p m mont r = (Some (), r') \<and> bn_int r' = bn_int a ^ bn_abs p mod bn_int m"
  by (rule BN_mod_exp_mont_returns [OF assms]) blast

lemma mod_exp_exact_witness:
  defines "n \<equiv> \<lambda>k. \<lparr>bn_d = [k], bn_width = 1, bn_neg = False, bn_static = False\<rparr>"
  defines "ctx \<equiv> \<lparr>ex_r = Some BN_init, ex_d = Some BN_init, ex_val = \<lambda>_. Some BN_init, ex_new_ok = True,
      ex_new = \<lambda>_. (Some BN_init, Some BN_init, Some BN_init), ex_to = (Some BN_init, Some BN_init),
      ex_mul = \<lambda>_. (Some BN_init, Some BN_init), ex_from = Some BN_init\<rparr>"
  shows "\<exists>r'. BN_mod_exp_mont (\<lambda>_. True) ctx (n 7) (n 13) (n 15) None BN_init = (Some (), r') \<and> bn_int r' = 7"
  using mod_exp_exact [of "n 15" "n 7" "n 13" 100 "\<lambda>_. True" ctx None BN_init]
  by (simp add: n_def ctx_def bn_small_def bn_ok_def bn_abs_def bn_int_def bn_free_def ctx_free_def bn_temp_def BN_init_def
      exp_ctx_ok_def temp_pair_def mont_given_def)

text \<open>C5: Constant-time exponentiation: BN_mod_exp_mont_consttime, with fixed windows over all bits of
  the width of the exponent and a table of which every read touches all rows, under the same
  conditions on its arguments succeeds where the allocator grants every request and gives the
  same number as the sliding windows of BN_mod_exp_mont.\<close>

theorem mod_exp_consttime_agrees:
  assumes m: "bn_small m" "odd (bn_abs m)" "\<not> bn_neg m" and a: "bn_small a" "\<not> bn_neg a" "bn_abs a < bn_abs m"
    and p: "bn_ok p" and N: "16 * (bn_width a + bn_width m) + 16 \<le> N" and init: "bn_free malloc N BN_init"
    and ctx: "exp_ctx_ok malloc N ctx" and given: "mont_given malloc N m mont" and r: "bn_temp malloc N r"
    and one: "bn_temp malloc N one" and buf: "\<And>k. malloc k"
  shows "\<exists>r' r''. BN_mod_exp_mont_consttime malloc ctx (Some one) a p m mont r = (Some (), r') \<and>
    BN_mod_exp_mont malloc ctx a p m mont r = (Some (), r'') \<and> bn_int r' = bn_int r''"
proof -
  obtain r' where 1: "BN_mod_exp_mont_consttime malloc ctx (Some one) a p m mont r = (Some (), r')"
    "bn_int r' = bn_int a ^ bn_abs p mod bn_int m"
    by (rule BN_mod_exp_mont_consttime_returns [OF m a p N init ctx given r one buf])
  obtain r'' where 2: "BN_mod_exp_mont malloc ctx a p m mont r = (Some (), r'')"
    "bn_int r'' = bn_int a ^ bn_abs p mod bn_int m"
    by (rule BN_mod_exp_mont_returns [OF m a p N init ctx given r])
  from 1 2 show ?thesis by simp
qed

lemma mod_exp_consttime_agrees_witness:
  defines "n \<equiv> \<lambda>k. \<lparr>bn_d = [k], bn_width = 1, bn_neg = False, bn_static = False\<rparr>"
  defines "ctx \<equiv> \<lparr>ex_r = Some BN_init, ex_d = Some BN_init, ex_val = \<lambda>_. Some BN_init, ex_new_ok = True,
      ex_new = \<lambda>_. (Some BN_init, Some BN_init, Some BN_init), ex_to = (Some BN_init, Some BN_init),
      ex_mul = \<lambda>_. (Some BN_init, Some BN_init), ex_from = Some BN_init\<rparr>"
  shows "\<exists>r' r''. BN_mod_exp_mont_consttime (\<lambda>_. True) ctx (Some BN_init) (n 7) (n 13) (n 15) None BN_init = (Some (), r') \<and>
    BN_mod_exp_mont (\<lambda>_. True) ctx (n 7) (n 13) (n 15) None BN_init = (Some (), r'') \<and> bn_int r' = bn_int r''"
  by (rule mod_exp_consttime_agrees [where N = 100])
    (simp_all add: n_def ctx_def bn_small_def bn_ok_def bn_abs_def bn_free_def ctx_free_def bn_temp_def BN_init_def
      exp_ctx_ok_def temp_pair_def mont_given_def)

text \<open>C6: Modular exponentiation for every positive modulus in normal form: BN_mod_exp succeeds where
  the allocator grants enough limbs and yields the power modulo the modulus, for a base of
  either sign and of fewer than 2^31 limbs, reduced or not, and any exponent, whose sign is
  ignored. An odd modulus goes to the Montgomery products, an even one to sliding windows over
  products that are reduced with the reciprocal.\<close>

theorem mod_exp_any_modulus:
  assumes m: "bn_normal m" "bn_abs m \<noteq> 0" "\<not> bn_neg m" and a: "bn_small a" and p: "bn_ok p"
    and K: "16 * bn_width a + 64 * bn_width m + 24 \<le> K" and init: "bn_free malloc K BN_init" and ctx: "div_ctx_ok malloc K dctx"
    "exp_ctx_ok malloc K mctx" "recp_exp_ctx_ok malloc K rctx" and r: "bn_temp malloc K r"
  shows "\<exists>r'. BN_mod_exp malloc dctx mctx rctx a p m r = (Some (), r') \<and> bn_int r' = bn_int a ^ bn_abs p mod bn_int m"
  by (rule BN_mod_exp_returns [OF assms]) blast

lemma mod_exp_any_modulus_witness:
  defines "n \<equiv> \<lambda>s k. \<lparr>bn_d = [k], bn_width = 1, bn_neg = s, bn_static = False\<rparr>"
  defines "t \<equiv> \<lparr>rx_a = Some BN_init, rx_b = Some BN_init, rx_d = Some BN_init, rx_r = Some BN_init, rx_t = Some BN_init,
      rx_div = (Some BN_init, Some BN_init, Some BN_init, Some BN_init), rx_mul1 = Some BN_init, rx_mul2 = Some BN_init\<rparr>"
  defines "mctx \<equiv> \<lparr>ex_r = Some BN_init, ex_d = Some BN_init, ex_val = \<lambda>_. Some BN_init, ex_new_ok = True,
      ex_new = \<lambda>_. (Some BN_init, Some BN_init, Some BN_init), ex_to = (Some BN_init, Some BN_init),
      ex_mul = \<lambda>_. (Some BN_init, Some BN_init), ex_from = Some BN_init\<rparr>"
  defines "rctx \<equiv> \<lparr>rm_aa = Some BN_init, rm_val = \<lambda>_. Some BN_init, rm_div = (Some BN_init, Some BN_init, Some BN_init, Some BN_init), rm_mul = \<lambda>_. (Some BN_init, Some BN_init, t)\<rparr>"
  shows "\<exists>r'. BN_mod_exp (\<lambda>_. True) (Some BN_init, Some BN_init, Some BN_init, Some BN_init) mctx rctx (n True 7) (n False 3) (n False 10) BN_init = (Some (), r') \<and> bn_int r' = 7"
proof -
  have n: "bn_normal (n s k)" "bn_width (n s k) = 1" "bn_int (n s k) = (if s then - int (unat k) else int (unat k))" "bn_abs (n s k) = unat k"
    "bn_small (n s k)" "bn_ok (n s k)" "bn_neg (n s k) = s" if "k \<noteq> 0" for s k
    using that by (simp_all add: n_def bn_normal_iff bn_small_def bn_ok_def bn_abs_def bn_int_def unat_gt_0 Suc_le_eq)
  have tmp: "bn_temp (\<lambda>_. True) 200 BN_init" "bn_free (\<lambda>_. True) 200 BN_init" "bn_width BN_init = 0"
    by (simp_all add: bn_temp_def bn_free_def BN_init_def bn_ok_def)
  then have d: "div_ctx_ok (\<lambda>_. True) 200 (Some BN_init, Some BN_init, Some BN_init, Some BN_init)" by (simp add: div_ctx_ok_def)
  with tmp have t: "recp_temps_ok (\<lambda>_. True) 200 t" by (simp add: t_def recp_temps_ok_def)
  have r: "recp_exp_ctx_ok (\<lambda>_. True) 200 rctx" using tmp d t by (simp add: rctx_def recp_exp_ctx_ok_def mul_temps_ok_def)
  have m: "exp_ctx_ok (\<lambda>_. True) 200 mctx" using tmp by (simp add: mctx_def exp_ctx_ok_def temp_pair_def ctx_free_def)
  show ?thesis
    using mod_exp_any_modulus [of "n False 10" "n True 7" "n False 3" 200 "\<lambda>_. True" "(Some BN_init, Some BN_init, Some BN_init, Some BN_init)" mctx rctx BN_init] tmp d m r by (simp add: n)
qed

text \<open>C7: Inversion modulo an odd prime of at most nine limbs, as the elliptic curves use it: bringing a
  reduced number other than zero, of as many limbs as the modulus, into Montgomery form, raising
  it to the modulus less two and converting back does not abort, and the product of the result
  with the number is one modulo the prime.\<close>

theorem small_inverse_exact:
  assumes m: "bn_small m" "odd (bn_abs m)" "\<not> bn_neg m" "bn_width m \<le> BN_SMALL_MAX_WORDS"
    and prime: "1 < bn_abs m" "\<And>d. d dvd bn_abs m \<Longrightarrow> d = 1 \<or> d = bn_abs m"
    and N: "16 * bn_width m + 16 \<le> N" and ctx: "\<forall>i. ctx_free malloc N (ctx i)" and init: "bn_free malloc N BN_init"
  shows "\<exists>mont. BN_MONT_CTX_new_consttime malloc True m ctx = Some mont \<and>
    (\<forall>x. length x = bn_width (mont_N mont) \<and> 0 < bn_val x \<and> bn_val x < bn_abs m \<longrightarrow>
      (\<exists>a b y. bn_to_montgomery_small mont x = Some a \<and> bn_mod_inverse_prime_mont_small mont a = Some b \<and>
        bn_from_montgomery_small mont b = Some y \<and> bn_val x * bn_val y mod bn_abs m = 1))"
proof -
  let ?n = "bn_abs m"
  from mont_context [OF m(1-3) N ctx init] obtain mont where
    mont: "BN_MONT_CTX_new_consttime malloc True m ctx = Some mont" "mont_ok mont" "mont_n mont = ?n"
      "bn_width (mont_N mont) \<le> bn_width m" .
  have ok: "small_ok mont" using mont(2,4) m(4) by (simp add: small_ok_def)
  have "\<exists>a b y. bn_to_montgomery_small mont x = Some a \<and> bn_mod_inverse_prime_mont_small mont a = Some b \<and>
      bn_from_montgomery_small mont b = Some y \<and> bn_val x * bn_val y mod ?n = 1"
    if x: "length x = bn_width (mont_N mont)" "0 < bn_val x" "bn_val x < ?n" for x
  proof -
    have less: "bn_val x < mont_n mont" and two: "2 \<le> mont_n mont" using x(3) mont(3) prime(1) by simp_all
    obtain a where a: "bn_to_montgomery_small mont x = Some a" "small_form mont a (bn_val x)"
      by (rule to_small_form [OF ok x(1) less])
    obtain b where b: "bn_mod_inverse_prime_mont_small mont a = Some b" "small_form mont b (bn_val x ^ (mont_n mont - 2))"
      by (rule bn_mod_inverse_prime_mont_small_returns [OF ok a(2) two])
    obtain y where y: "bn_from_montgomery_small mont b = Some y" "bn_val y = bn_val x ^ (mont_n mont - 2) mod mont_n mont"
      by (rule from_small_value [OF ok b(2)])
    have e: "Suc (?n - 2) = ?n - 1" using prime(1) by simp
    have "\<not> ?n dvd bn_val x" using x(2,3) by (rule nat_dvd_not_less)
    then have "bn_val x ^ (?n - 1) mod ?n = 1" using fermat [of ?n "bn_val x"] prime by blast
    then have "bn_val x * bn_val y mod ?n = 1"
      unfolding y(2) mont(3) mod_mult_right_eq power_Suc [symmetric] e .
    with a(1) b(1) y(1) show ?thesis by blast
  qed
  with mont(1) show ?thesis by blast
qed

lemma small_inverse_exact_witness:
  defines "n \<equiv> \<lparr>bn_d = [7], bn_width = 1, bn_neg = False, bn_static = False\<rparr>"
  shows "\<exists>mont. BN_MONT_CTX_new_consttime (\<lambda>_. True) True n (\<lambda>_. (Some BN_init, Some BN_init, Some BN_init)) = Some mont \<and>
    (\<forall>x. length x = bn_width (mont_N mont) \<and> 0 < bn_val x \<and> bn_val x < 7 \<longrightarrow>
      (\<exists>a b y. bn_to_montgomery_small mont x = Some a \<and> bn_mod_inverse_prime_mont_small mont a = Some b \<and>
        bn_from_montgomery_small mont b = Some y \<and> bn_val x * bn_val y mod 7 = 1))"
proof -
  have n: "bn_abs n = 7" "bn_small n" "\<not> bn_neg n" "bn_width n = 1"
    by (simp_all add: n_def bn_abs_def bn_small_def bn_ok_def)
  have prime: "d = 1 \<or> d = 7" if "d dvd 7" for d :: nat
  proof -
    have "d \<in> {0, 1, 2, 3, 4, 5, 6, 7}" using dvd_imp_le [OF that] by auto
    with that show ?thesis by auto
  qed
  have free: "bn_free (\<lambda>_. True) 100 BN_init" by (simp add: bn_free_def BN_init_def)
  then have "ctx_free (\<lambda>_. True) 100 (Some BN_init, Some BN_init, Some BN_init)" by (simp add: ctx_free_def)
  with small_inverse_exact [of n 100 "\<lambda>_. True" "\<lambda>_. (Some BN_init, Some BN_init, Some BN_init)"] n prime free
  show ?thesis by (simp add: BN_SMALL_MAX_WORDS_def)
qed

text \<open>C8: Big-number multiplication: whatever the widths of the operands (below 2^31 limbs, the range of
  the code's int), and so whichever of the four algorithms BN_mul chooses, it succeeds where the
  allocator grants enough limbs, also when the destination is an operand, and the result is the
  product of the two integers in normal form.\<close>

theorem bn_product_exact:
  assumes ops: "bn_small a" "bn_small b" and N: "8 * (bn_width a + bn_width b) + 16 \<le> N"
    and tmp: "bn_temp malloc N rr" "bn_temp malloc N t" "bn_temp malloc N r"
  shows "\<exists>r'. BN_mul malloc a b same (Some rr) (Some t) r = (Some (), r') \<and>
    bn_int r' = bn_int a * bn_int b \<and> bn_normal r'"
proof -
  have free: "bn_free malloc N rr" "bn_free malloc N t" "bn_free malloc N r" and ok: "bn_ok rr" "bn_ok r"
    using tmp by (simp_all add: bn_temp_def)
  obtain r' where run: "BN_mul malloc a b same (Some rr) (Some t) r = (Some (), r')"
    by (rule bn_totalD [OF total_mul [OF ops N free(1,2) ok(1)] free(3)])
  have "\<And>x. Some rr = Some x \<Longrightarrow> bn_ok x" using ok by simp
  from BN_mul_val [OF run ops ok(2) this] run show ?thesis by blast
qed

lemma bn_product_exact_witness:
  defines "n \<equiv> \<lambda>s k. \<lparr>bn_d = [k, 1], bn_width = 2, bn_neg = s, bn_static = False\<rparr>"
  shows "\<exists>r'. BN_mul (\<lambda>_. True) (n True 2) (n False 3) False (Some BN_init) (Some BN_init) BN_init = (Some (), r') \<and>
    bn_int r' = - ((2 + 2 ^ 64) * (3 + 2 ^ 64)) \<and> bn_normal r'"
  using bn_product_exact [of "n True 2" "n False 3" 100 "\<lambda>_. True" BN_init BN_init BN_init False]
  by (simp add: n_def bn_small_def bn_ok_def bn_abs_def bn_int_def bn_free_def bn_temp_def BN_init_def bn_base_def)

text \<open>C9: A successful CBB_flush of the root of a chain of open children, each with a pending length
  prefix behind the one that contains it, leaves no open child and leaves as contents exactly
  what the abstract view says: every child closed innermost first, its length prefix (or DER
  length, moving the contents up when the length needs more octets) written over the
  placeholder.\<close>

theorem flush_refines_render:
  assumes "base s = Some b" and "buf_ok b" and "chain_ok 0 (chain s) (len b)"
    and "CBB_flush 0 s = (Some (), s')"
  shows "chain s' = [] \<and> (\<exists>b'. base s' = Some b' \<and> buf_ok b' \<and>
    contents b' = render (chain s) (contents b))"
proof -
  from assms(1,4) obtain b' cs' where f: "flush_chain b (chain s) = (True, b', cs')"
    and s': "s' = s\<lparr>base := Some b', chain := cs'\<rparr>"
    by (auto simp: CBB_flush_def split: prod.splits if_splits)
  from flush_chain_True [OF f assms(2,3)] s' show ?thesis by simp
qed

lemma flush_refines_render_witness:
  "\<exists>s s'. CBB_flush 0 s = (Some (), s') \<and> (\<exists>b'. base s' = Some b' \<and>
    contents b' = render (chain s) [7, 0, 9])"
proof -
  let ?b = "\<lparr>buf = [7, 0, 9, 0], len = 3, can_resize = False, error = False, realloc_ok = \<lambda>_. False\<rparr>"
  let ?s = "\<lparr>base = Some ?b, chain = [\<lparr>offset = 1, pending_len_len = 1, pending_is_asn1 = False\<rparr>]\<rparr>"
  have "fst (CBB_flush 0 ?s) = Some ()"
    by (simp add: CBB_flush_def size_add_def flush_child_def write_prefix_def)
  then obtain s' where f: "CBB_flush 0 ?s = (Some (), s')" by (metis prod.collapse)
  have "chain_ok 0 (chain ?s) (len ?b)" by (simp add: child_ok_def child_start_def)
  moreover have "contents ?b = [7, 0, 9]" by (simp add: contents_def numeral_eq_Suc)
  moreover have "base ?s = Some ?b" and "buf_ok ?b" by (simp_all add: buf_ok_def)
  ultimately obtain b' where "base s' = Some b'" and "contents b' = render (chain ?s) [7, 0, 9]"
    using flush_refines_render [of ?s ?b s'] f by metis
  with f show ?thesis by blast
qed

text \<open>C10: However the threads interleave their critical sections, a reference that a thread holds is
  never dangling: its buffer is allocated and in the table, freeing it does not abort and
  releases the memory only when it was the last reference, and two held buffers with the same
  contents or address are the same.\<close>

theorem pool_held_buffers_alive:
  assumes "CRYPTO_BUFFER_POOL_new malloc = Some p0" and "pool_step\<^sup>*\<^sup>* (p0, {#}) (p, held)" and "b \<in># held"
  shows "cb_addr b \<in> allocated p \<and> lh_retrieve (bufs p) b = Some b \<and>
    (\<exists>p'. CRYPTO_BUFFER_free malloc' b p = Some p' \<and> (cb_addr b \<notin> allocated p' \<longrightarrow> count held b = 1)) \<and>
    (\<forall>c. c \<in># held \<and> (cb_data b = cb_data c \<or> cb_addr b = cb_addr c) \<longrightarrow> b = c)"
proof -
  have inv: "pool_inv (p, held)" by (rule pool_reachable_inv [OF assms(1,2)])
  show ?thesis
    using held_alive [OF inv assms(3)] free_inv [OF inv assms(3), of malloc'] by blast
qed

lemma pool_held_buffers_alive_witness:
  "\<exists>p0 p b. CRYPTO_BUFFER_POOL_new (\<lambda>_. True) = Some p0 \<and> pool_step\<^sup>*\<^sup>* (p0, {#}) (p, {#b#}) \<and>
    cb_data b = [1, 2] \<and> cb_addr b \<in> allocated p \<and> CRYPTO_BUFFER_free (\<lambda>_. True) b p \<noteq> None"
proof -
  obtain p0 where p0: "CRYPTO_BUFFER_POOL_new (\<lambda>_. True) = Some p0"
    by (auto simp: CRYPTO_BUFFER_POOL_new_def lh_new_def)
  let ?b = "\<lparr>cb_addr = 64, cb_data = [1, 2], cb_pooled = True\<rparr>"
  obtain p where "buffer_insert (\<lambda>_. True) ?b p0 = (Some ?b, p)"
    using new_pool_empty(2) [OF p0, of ?b] by (rule insert_miss [where malloc = "\<lambda>_. True"]) simp_all
  with new_pool_empty(1) [OF p0] have "pool_step (p0, {#}) (p, {#?b#})"
    by (intro insert_ok [of 64]) simp_all
  then have step: "pool_step\<^sup>*\<^sup>* (p0, {#}) (p, {#?b#})" by blast
  from pool_held_buffers_alive [OF p0 step, of ?b "\<lambda>_. True"] step p0
  show ?thesis by (intro exI [of _ p0] exI [of _ p] exI [of _ ?b]) auto
qed



text \<open>C12: Long division into other objects than the numerator: on numbers of either sign and any width,
  for a divisor other than zero, BN_div succeeds where the allocator grants enough limbs; the
  limbs of the quotient that it guesses from the top limbs and corrects make it the quotient
  rounded towards zero, with a remainder that is smaller than the divisor and has the sign of
  the numerator.\<close>

theorem long_division_exact:
  assumes ops: "bn_ok numer" "bn_ok divisor" "bn_abs divisor \<noteq> 0" and N: "bn_width numer + bn_width divisor + 8 \<le> N"
    and ctx: "div_ctx_ok malloc N ctx" and out: "bn_temp malloc N quo" "bn_temp malloc N rem"
  shows "\<exists>q r. BN_div malloc numer divisor False ctx (Some quo, Some rem) = (Some (), Some q, Some r) \<and>
    bn_int numer = bn_int q * bn_int divisor + bn_int r \<and> \<bar>bn_int r\<bar> < \<bar>bn_int divisor\<bar> \<and>
    (bn_int r \<noteq> 0 \<longrightarrow> sgn (bn_int r) = sgn (bn_int numer)) \<and> bn_normal q \<and> bn_normal r"
proof -
  let ?m = "bn_abs numer" and ?d = "bn_abs divisor"
  obtain quo' rem' where run: "BN_div malloc numer divisor False ctx (Some quo, Some rem) = (Some (), quo', rem')"
    and q: "out_is malloc N (Some quo) quo' (sgn (bn_int numer) * sgn (bn_int divisor) * int (?m div ?d))"
    and r: "out_is malloc N (Some rem) rem' (rem_sgn False numer divisor * int (?m mod ?d))"
    by (rule BN_div_returns [OF ops N ctx, of "Some quo" "Some rem" False]) (use out in simp_all)
  from q r obtain x y where x: "quo' = Some x" "bn_int x = sgn (bn_int numer) * sgn (bn_int divisor) * int (?m div ?d)" "bn_normal x"
    and y: "rem' = Some y" "bn_int y = sgn (bn_int numer) * int (?m mod ?d)" "bn_normal y"
    by (auto simp: out_is_def rem_sgn_def)
  from signed_division [OF ops(3) x(2) y(2)] show ?thesis using run x(1,3) y(1,3) by blast
qed

lemma long_division_exact_witness:
  defines "n \<equiv> \<lambda>s k. \<lparr>bn_d = [k, 1], bn_width = 2, bn_neg = s, bn_static = False\<rparr>"
  shows "\<exists>q r. BN_div (\<lambda>_. True) (n True 7) (n False 2) False (Some BN_init, Some BN_init, Some BN_init, Some BN_init)
      (Some BN_init, Some BN_init) = (Some (), Some q, Some r) \<and>
    bn_int (n True 7) = bn_int q * bn_int (n False 2) + bn_int r \<and> \<bar>bn_int r\<bar> < \<bar>bn_int (n False 2)\<bar>"
  using long_division_exact [of "n True 7" "n False 2" 100 "\<lambda>_. True" "(Some BN_init, Some BN_init, Some BN_init, Some BN_init)" BN_init BN_init]
  by (auto simp: n_def bn_ok_def bn_abs_def bn_free_def bn_temp_def BN_init_def div_ctx_ok_def)

text \<open>C13: Division by a reciprocal: for a divisor in normal form other than zero, of either sign,
  BN_RECP_CTX_set succeeds where the allocator grants enough limbs, and so do BN_div_recp on one
  numerator in normal form, for which it makes the reciprocal, and on a second one of any other
  width, for which it keeps the reciprocal or makes another. The product with the reciprocal
  misses the quotient by at most the three corrections that the loop allows, so that each call
  yields the quotient rounded towards zero and the remainder with the sign of the numerator.\<close>

theorem reciprocal_division_exact:
  assumes d: "bn_normal d" "bn_abs d \<noteq> 0" and m: "bn_normal m" "bn_normal m'"
    and K: "16 * (max (bn_width m) (bn_width m') + bn_width d) + 24 \<le> K" and init: "bn_free malloc K BN_init"
    and ctx: "recp_temps_ok malloc K ctx" "recp_temps_ok malloc K ctx'"
    and out: "bn_temp malloc K q" "bn_temp malloc K r" "bn_temp malloc K q'" "bn_temp malloc K r'"
  shows "\<exists>recp x y recp1 x' y' recp2. BN_RECP_CTX_set malloc d BN_RECP_CTX_init = (Some (), recp) \<and>
    BN_div_recp malloc (Some q) (Some r) m ctx recp = (Some (x, y), recp1) \<and>
    BN_div_recp malloc (Some q') (Some r') m' ctx' recp1 = (Some (x', y'), recp2) \<and>
    bn_int m = bn_int x * bn_int d + bn_int y \<and> \<bar>bn_int y\<bar> < \<bar>bn_int d\<bar> \<and> (bn_int y \<noteq> 0 \<longrightarrow> sgn (bn_int y) = sgn (bn_int m)) \<and>
    bn_int m' = bn_int x' * bn_int d + bn_int y' \<and> \<bar>bn_int y'\<bar> < \<bar>bn_int d\<bar> \<and> (bn_int y' \<noteq> 0 \<longrightarrow> sgn (bn_int y') = sgn (bn_int m'))"
proof -
  have wd: "bn_width d \<le> K" using K by simp
  obtain recp where recp: "BN_RECP_CTX_set malloc d BN_RECP_CTX_init = (Some (), recp)" "recp_ok malloc K recp"
    "bn_abs (rc_N recp) = bn_abs d" "bn_width (rc_N recp) = bn_width d" "bn_int (rc_N recp) = bn_int d"
    by (rule recp_set_returns [OF d wd init])
  have K1: "16 * (bn_width m + bn_width (rc_N recp)) + 24 \<le> K" and K2: "16 * (bn_width m' + bn_width (rc_N recp)) + 24 \<le> K"
    using K recp(4) by auto
  obtain x y recp1 where 1: "BN_div_recp malloc (Some q) (Some r) m ctx recp = (Some (x, y), recp1)" "recp_ok malloc K recp1"
    "rc_N recp1 = rc_N recp" "bn_int x = sgn (bn_int m) * sgn (bn_int (rc_N recp)) * int (bn_abs m div bn_abs (rc_N recp))"
    "bn_int y = sgn (bn_int m) * int (bn_abs m mod bn_abs (rc_N recp))"
    by (rule BN_div_recp_returns [OF recp(2) ctx(1) m(1) K1, of "Some q" "Some r"]) (use out in simp_all)
  obtain x' y' recp2 where 2: "BN_div_recp malloc (Some q') (Some r') m' ctx' recp1 = (Some (x', y'), recp2)"
    "bn_int x' = sgn (bn_int m') * sgn (bn_int (rc_N recp)) * int (bn_abs m' div bn_abs (rc_N recp))"
    "bn_int y' = sgn (bn_int m') * int (bn_abs m' mod bn_abs (rc_N recp))"
    by (rule BN_div_recp_returns [OF 1(2) ctx(2) m(2) K2 [folded 1(3)], of "Some q'" "Some r'", unfolded 1(3)]) (use out in simp_all)
  note s = signed_division [OF d(2) 1(4) [unfolded recp(3,5)] 1(5) [unfolded recp(3)]]
    and s' = signed_division [OF d(2) 2(2) [unfolded recp(3,5)] 2(3) [unfolded recp(3)]]
  show ?thesis using recp(1) 1(1) 2(1) s s' by blast
qed

lemma reciprocal_division_exact_witness:
  defines "n \<equiv> \<lambda>s k. \<lparr>bn_d = [k], bn_width = 1, bn_neg = s, bn_static = False\<rparr>"
  defines "t \<equiv> \<lparr>rx_a = Some BN_init, rx_b = Some BN_init, rx_d = Some BN_init, rx_r = Some BN_init, rx_t = Some BN_init,
      rx_div = (Some BN_init, Some BN_init, Some BN_init, Some BN_init), rx_mul1 = Some BN_init, rx_mul2 = Some BN_init\<rparr>"
  shows "\<exists>recp x y recp1 x' y' recp2. BN_RECP_CTX_set (\<lambda>_. True) (n False 10) BN_RECP_CTX_init = (Some (), recp) \<and>
    BN_div_recp (\<lambda>_. True) (Some BN_init) (Some BN_init) (n True 47) t recp = (Some (x, y), recp1) \<and>
    BN_div_recp (\<lambda>_. True) (Some BN_init) (Some BN_init) (n False 3) t recp1 = (Some (x', y'), recp2) \<and>
    - 47 = bn_int x * 10 + bn_int y \<and> \<bar>bn_int y\<bar> < 10 \<and> 3 = bn_int x' * 10 + bn_int y' \<and> \<bar>bn_int y'\<bar> < 10"
proof -
  have n: "bn_normal (n s k)" "bn_width (n s k) = 1" "bn_int (n s k) = (if s then - int (unat k) else int (unat k))" "bn_abs (n s k) = unat k"
    if "k \<noteq> 0" for s k
    using that by (simp_all add: n_def bn_normal_iff bn_ok_def bn_abs_def bn_int_def unat_gt_0 Suc_le_eq)
  have tmp: "bn_temp (\<lambda>_. True) 100 BN_init" "bn_free (\<lambda>_. True) 100 BN_init" "bn_width BN_init = 0"
    by (simp_all add: bn_temp_def bn_free_def BN_init_def bn_ok_def)
  then have "recp_temps_ok (\<lambda>_. True) 100 t" by (simp add: t_def recp_temps_ok_def div_ctx_ok_def)
  with reciprocal_division_exact [of "n False 10" "n True 47" "n False 3" 100 "\<lambda>_. True" t t BN_init BN_init BN_init BN_init] tmp
  show ?thesis by (simp add: n) blast
qed

text \<open>C14: Constant-time division: for a numerator that is not negative and a positive divisor, with any
  of the outputs being an operand, the long division in binary succeeds where the allocator
  grants enough limbs, and yields the quotient and the remainder.\<close>

theorem bn_division_exact:
  assumes ops: "bn_ok numer" "bn_ok divisor" "\<not> bn_neg numer" "\<not> bn_neg divisor" "bn_abs divisor \<noteq> 0"
    and N: "bn_width numer \<le> N" "bn_width divisor \<le> N"
    and free: "bn_free malloc N cq" "bn_free malloc N cr" "bn_free malloc N tmp" "bn_free malloc N q" "bn_free malloc N r"
  shows "\<exists>q' r'. bn_div_consttime malloc numer divisor q_same r_same (Some cq) (Some cr) (Some tmp) (Some q, Some r) =
      (Some (), Some q', Some r') \<and>
    bn_int q' = bn_int numer div bn_int divisor \<and> bn_int r' = bn_int numer mod bn_int divisor"
proof -
  have out: "output_free malloc N (Some q)" "output_free malloc N (Some r)" using free by (simp_all add: output_free_def)
  obtain quo rem where run: "bn_div_consttime malloc numer divisor q_same r_same (Some cq) (Some cr) (Some tmp) (Some q, Some r) =
      (Some (), quo, rem)"
    by (rule total_div [OF ops N free(1-3) out])
  note v = bn_div_consttime_val [OF run ops(1,2)]
  from v(2) obtain q' r' where "quo = Some q'" "rem = Some r'" by auto
  with v(3,4) run show ?thesis by blast
qed

lemma bn_division_exact_witness:
  defines "n \<equiv> \<lambda>k. \<lparr>bn_d = [k, 1], bn_width = 2, bn_neg = False, bn_static = False\<rparr>"
  shows "\<exists>q' r'. bn_div_consttime (\<lambda>_. True) (n 9) (n 2) True False (Some BN_init) (Some BN_init) (Some BN_init) (Some (n 9), Some BN_init) =
      (Some (), Some q', Some r') \<and> bn_int q' = 1 \<and> bn_int r' = 7"
  using bn_division_exact [of "n 9" "n 2" 8 "\<lambda>_. True" BN_init BN_init BN_init "n 9" BN_init True False]
  by (simp add: n_def bn_ok_def bn_abs_def bn_int_def bn_free_def BN_init_def bn_base_def)

text \<open>C15: A BIO pair is two bounded FIFO queues: from a new pair of two different objects, any sequence
  of reads, writes and shutdowns at the two ends, of any sizes, runs to its end (the copying
  loops included), and at any time the bytes that one end has sent are exactly those that the
  other has received followed by those in the ring buffer, which never holds more than its size.\<close>

theorem bio_pair_fifo:
  assumes "BIO_new_bio_pair malloc (Some a) (Some p) n m h0 = (Some (a, p), h)" and "a \<noteq> p"
    and "\<forall>e \<in> set es. event_end e = a \<or> event_end e = p"
  shows "\<exists>h' sent received. bio_run es (h, \<lambda>_. [], \<lambda>_. []) = Some (h', sent, received) \<and>
    sent a = received p @ queue (bio_ptr (h' a)) \<and> sent p = received a @ queue (bio_ptr (h' p)) \<and>
    length (queue (bio_ptr (h' a))) \<le> bb_size (bio_ptr (h' a)) \<and>
    length (queue (bio_ptr (h' p))) \<le> bb_size (bio_ptr (h' p))"
proof -
  have "in_transit a p (h, \<lambda>_. [], \<lambda>_. [])"
    using new_pair(1-3) [OF assms(1,2)] by (simp add: in_transit_def)
  from run_transit [OF this assms(3)] obtain h' sent received
    where run: "bio_run es (h, \<lambda>_. [], \<lambda>_. []) = Some (h', sent, received)"
    and transit: "in_transit a p (h', sent, received)" by (metis prod.collapse)
  then have "ring_ok (bio_ptr (h' a))" "ring_ok (bio_ptr (h' p))"
    by (simp_all add: in_transit_def paired_def)
  with run transit ring.bounded show ?thesis by (auto simp: in_transit_def)
qed

lemma bio_pair_fifo_witness:
  "\<exists>h h' sent received. BIO_new_bio_pair (\<lambda>_. True) (Some 1) (Some 2) 3 0 (\<lambda>_. bio_new) = (Some (1, 2), h) \<and>
    bio_run [Write 1 [7, 8, 9, 10], Read 2 2, Write 1 [11], Shutdown 1, Read 2 9, Read 1 5]
      (h, \<lambda>_. [], \<lambda>_. []) = Some (h', sent, received) \<and> sent 1 = received 2 @ queue (bio_ptr (h' 1))"
proof -
  obtain h where h: "BIO_new_bio_pair (\<lambda>_. True) (Some 1) (Some 2) 3 0 (\<lambda>_. bio_new) = (Some (1, 2), h)"
    by (simp add: BIO_new_bio_pair_def bio_make_pair_def make_buf_def bio_new_def upd_ptr_def Let_def)
  from bio_pair_fifo [OF h, of "[Write 1 [7, 8, 9, 10], Read 2 2, Write 1 [11], Shutdown 1, Read 2 9, Read 1 5]"] h
  show ?thesis by auto
qed

text \<open>C16: Modular arithmetic over a modulus other than zero, of either sign, even or odd: on numbers in
  normal form of fewer than 2^31 limbs, BN_mod_add, BN_mod_sub and BN_mod_mul (which squares
  where its operands are one object) succeed where the allocator grants enough limbs and yield
  the representative that is not negative and below the absolute value of the modulus.\<close>

theorem modular_arithmetic_exact:
  assumes n: "bn_normal a" "bn_normal b" "bn_small a" "bn_small b" and m: "bn_normal m" "bn_abs m \<noteq> 0"
    and N: "8 * (bn_width a + bn_width b) + bn_width m + 16 \<le> N" and ctx: "div_ctx_ok malloc N ctx"
    and same: "same \<Longrightarrow> a = b" and tmp: "bn_temp malloc N t" "bn_temp malloc N tmp" "bn_temp malloc N r"
  shows "\<exists>s d p. BN_mod_add malloc a b m ctx r = (Some (), s) \<and> bn_int s = (bn_int a + bn_int b) mod \<bar>bn_int m\<bar> \<and>
    BN_mod_sub malloc a b m ctx r = (Some (), d) \<and> bn_int d = (bn_int a - bn_int b) mod \<bar>bn_int m\<bar> \<and>
    BN_mod_mul malloc a b same m (Some t) (Some tmp) ctx r = (Some (), p) \<and> bn_int p = (bn_int a * bn_int b) mod \<bar>bn_int m\<bar>"
proof -
  have Ns: "max (bn_width a) (bn_width b) + 1 + bn_width m + 8 \<le> N" using N by (auto simp: max_def)
  obtain s d where "BN_mod_add malloc a b m ctx r = (Some (), s)" "bn_int s = (bn_int a + bn_int b) mod \<bar>bn_int m\<bar>"
    "BN_mod_sub malloc a b m ctx r = (Some (), d)" "bn_int d = (bn_int a - bn_int b) mod \<bar>bn_int m\<bar>"
    by (rule mod_sum_returns [OF n(1,2) m Ns ctx tmp(3)])
  moreover obtain p where "BN_mod_mul malloc a b same m (Some t) (Some tmp) ctx r = (Some (), p)" "bn_int p = (bn_int a * bn_int b) mod \<bar>bn_int m\<bar>"
    by (rule mod_mul_returns [OF n(3,4) same m N ctx tmp])
  ultimately show ?thesis by blast
qed

lemma modular_arithmetic_exact_witness:
  defines "n \<equiv> \<lambda>s k. \<lparr>bn_d = [k], bn_width = 1, bn_neg = s, bn_static = False\<rparr>"
  shows "\<exists>s d p. BN_mod_add (\<lambda>_. True) (n True 7) (n False 3) (n True 10) (Some BN_init, Some BN_init, Some BN_init, Some BN_init) BN_init = (Some (), s) \<and> bn_int s = 6 \<and>
    BN_mod_sub (\<lambda>_. True) (n True 7) (n False 3) (n True 10) (Some BN_init, Some BN_init, Some BN_init, Some BN_init) BN_init = (Some (), d) \<and> bn_int d = 0 \<and>
    BN_mod_mul (\<lambda>_. True) (n True 7) (n False 3) False (n True 10) (Some BN_init) (Some BN_init)
      (Some BN_init, Some BN_init, Some BN_init, Some BN_init) BN_init = (Some (), p) \<and> bn_int p = 9"
proof -
  have n: "bn_normal (n s k)" "bn_small (n s k)" "bn_width (n s k) = 1" "bn_int (n s k) = (if s then - int (unat k) else int (unat k))"
    "bn_abs (n s k) = unat k" if "k \<noteq> 0" for s k
    using that by (simp_all add: n_def bn_normal_iff bn_ok_def bn_abs_def bn_small_def bn_int_def unat_gt_0 Suc_le_eq)
  have tmp: "bn_temp (\<lambda>_. True) 100 BN_init" by (simp add: bn_temp_def bn_free_def BN_init_def bn_ok_def)
  then have "div_ctx_ok (\<lambda>_. True) 100 (Some BN_init, Some BN_init, Some BN_init, Some BN_init)" by (simp add: div_ctx_ok_def)
  with modular_arithmetic_exact [of "n True 7" "n False 3" "n True 10" 100 "\<lambda>_. True" "(Some BN_init, Some BN_init, Some BN_init, Some BN_init)" False BN_init BN_init BN_init]
  show ?thesis using tmp by (simp add: n)
qed

text \<open>C17: cbs_get_utf8 reads exactly the shortest UTF-8 encodings of valid code points: it returns v
  with the reader at r exactly when v is a valid code point (no surrogate, no non-character, at
  most 0x10ffff) and the input is the encoding form of v followed by r.\<close>

theorem utf8_reader_exact:
  "cbs_get_utf8 s = (Some v, r) \<longleftrightarrow> is_valid_code_point v \<and> s = utf8 (unat v) @ r"
  by (rule get_utf8_iff)

text \<open>C18: Base64 streams do not depend on how the input is cut and invert each other: the updates and
  the final call write the lines of 48 bytes of the whole input, and decoding any text with the
  same visible characters, whitespace anywhere and cut in any other way, gives the input back. A
  piece has fewer than 2^29 bytes of input or 2^30 of text, so that its counts fit an int.\<close>

theorem base64_stream_roundtrip:
  assumes "\<forall>c \<in> set cs. length c < 2 ^ 29" and "\<forall>c \<in> set ds. length c < 2 ^ 30"
    and "filter (\<lambda>c. \<not> is_space c) (concat ds) = filter (\<lambda>c. \<not> is_space c) (encode_stream cs EVP_EncodeInit)"
  shows "encode_stream cs EVP_EncodeInit = base64_text (concat cs) \<and>
    decode_stream ds EVP_DecodeInit = Some (concat cs)"
proof -
  have e: "encode_stream cs EVP_EncodeInit = base64_text (concat cs)"
    using encode_stream_text [of EVP_EncodeInit cs] assms(1) by (simp add: EVP_EncodeInit_def)
  have "length (EVP_EncodeBlock (concat cs)) mod 4 = 0"
    by (simp add: length_EncodeBlock)
  then have "decode_text (concat ds) = Some (concat cs)"
    unfolding decode_text_def assms(3) e base64_text_plain by (simp add: decode_quads_encode)
  with e decode_stream_text [OF assms(2)] show ?thesis by simp
qed

lemma base64_stream_roundtrip_witness:
  "decode_stream [[65], [81, 10, 73], [68, 10]] EVP_DecodeInit = Some (concat [[1], [2, 3]])"
proof -
  have "encode_stream [[1], [2, 3]] EVP_EncodeInit = [65, 81, 73, 68, 10]"
    by (simp add: EVP_EncodeUpdate_def EVP_EncodeInit_def EVP_EncodeFinal_def Let_def conv_bin2ascii_if)
  then show ?thesis
    using base64_stream_roundtrip [of "[[1], [2, 3]]" "[[65], [81, 10, 73], [68, 10]]"]
    by (simp add: is_space_def)
qed

text \<open>C19: The dotted-decimal text of every valid object identifier survives the trip through DER, when
  the contents octets are fewer than 2^58 and the allocator of the printer does not fail:
  CBB_add_asn1_oid_from_text builds contents octets from the text, and CBS_asn1_oid_to_text
  prints the same text (with its terminating NUL) from them.\<close>

theorem oid_roundtrip:
  assumes "valid_oid comps" and "length (oid_der comps) < 2 ^ 58"
  shows "\<exists>der. build (CBB_add_asn1_oid_from_text 0 (oid_text comps)) = Some der \<and>
    CBS_asn1_oid_to_text (\<lambda>_. True) True der = Some (oid_text comps @ [0])"
proof -
  have "length (oid_der comps) + 4 < 2 ^ 64" using assms(2) by simp
  from build_writes [OF writes_oid_from_text [OF assms(1)] this] oid_to_text_iff [OF assms(2)] assms(1)
  show ?thesis by blast
qed

lemma oid_roundtrip_witness:
  "\<exists>der. build (CBB_add_asn1_oid_from_text 0 (oid_text [1, 2, 3])) = Some der \<and>
    CBS_asn1_oid_to_text (\<lambda>_. True) True der = Some (oid_text [1, 2, 3] @ [0])"
  by (rule oid_roundtrip)
    (simp_all add: valid_oid_def oid_der_def b128_def)

text \<open>C20: The hash table refines a finite map: after any run of fewer than 2^64 insertions and deletions
  on a fresh table, whose resizings may or may not find memory while the entries themselves do,
  lh_retrieve answers every key as the same run on the map does, for every hash and comparison
  function in which comparing equal is an equivalence that keeps the hash.\<close>

theorem lhash_refines_map:
  assumes "hashing hash cmp" and "lh_new malloc hash cmp = Some lh" and "length ops < 2 ^ 64" and "malloc' 24"
  shows "lh_retrieve (fold (lh_step malloc') ops lh) = fold (map_step cmp) ops (\<lambda>_. None)"
proof -
  have t: "hash_table hash cmp"
    using assms(1) by (simp add: hash_table_def)
  have new: "lh_wf hash cmp lh" "lh_items lh = []"
    using hashing.new_wf [OF assms(1,2)] by simp_all
  then have "lh_retrieve lh = (\<lambda>_. None)"
    by (simp add: fun_eq_iff hashing.retrieve_None_iff [OF assms(1)])
  then show ?thesis
    using hash_table.run_refines [OF t new(1), where ops = ops and malloc = malloc'] new(2) assms(3,4)
    by simp
qed

lemma lhash_refines_map_witness:
  "\<exists>lh. lh_new (\<lambda>_. True) (\<lambda>n. of_nat (n mod 100)) (\<lambda>a b. int (a mod 100) - int (b mod 100)) = Some lh \<and>
    lh_retrieve (fold (lh_step (\<lambda>k. k = 24)) [Insert 7, Insert 8, Insert 107, Delete 8] lh)
      = (\<lambda>k. if k mod 100 = 7 then Some (107 :: nat) else None)"
proof -
  define hash :: "nat \<Rightarrow> u32" where "hash = (\<lambda>n. of_nat (n mod 100))"
  define cmp where "cmp = (\<lambda>a b. int (a mod 100) - int (b mod 100))"
  have "hashing hash cmp"
    by unfold_locales (auto simp: hash_def cmp_def)
  moreover obtain lh where lh: "lh_new (\<lambda>_. True) hash cmp = Some lh" by (simp add: lh_new_def)
  ultimately have "lh_retrieve (fold (lh_step (\<lambda>k. k = 24)) [Insert 7, Insert 8, Insert 107, Delete 8] lh)
      = fold (map_step cmp) [Insert 7, Insert 8, Insert 107, Delete 8] (\<lambda>_. None)"
    by (rule lhash_refines_map) simp_all
  also have "\<dots> = (\<lambda>k. if k mod 100 = 7 then Some 107 else None)"
    by (auto simp: cmp_def)
  finally show ?thesis using lh unfolding hash_def cmp_def by blast
qed

text \<open>C21: Every int64_t survives the trip through DER: what CBB_add_asn1_int64 writes on a fresh builder
  is read back by CBS_get_asn1_int64 as the same value with nothing left over, for negative
  values too.\<close>

theorem int64_roundtrip:
  "\<exists>der. build (CBB_add_asn1_int64 0 v) = Some der \<and> CBS_get_asn1_int64 (der @ r) = (Some v, r)"
proof -
  have "length (der_int v) \<le> 8" using der_int_value(1) [of v] by (simp add: shortest_int_def)
  then have "length (der_element CBS_ASN1_INTEGER (der_int v)) + 4 < 2 ^ 64"
    using length_der_element [of CBS_ASN1_INTEGER "der_int v"] by simp
  from build_writes [OF writes_asn1_int64 this] asn1_int64_iff show ?thesis by blast
qed

text \<open>C22: CBB_flush_asn1_set_of on a builder whose contents are a sequence of DER elements succeeds
  where the allocator grants every request and replaces them by the same elements sorted in
  lexicographic order of their encodings, leaving everything written before them and the open
  children as they were. The sizes must not overflow: fewer than 2^64 - 4 bytes in the buffer
  and an array of 16-byte CBS that fits size_t.\<close>

theorem set_of_sorted:
  assumes "ready d s b" and "CBB_data d s = concat es" and "list_all is_element es"
    and "len b + 4 < 2 ^ 64" and "length es \<le> (2 ^ 64 - 1) div 16"
  shows "\<exists>s' b'. CBB_flush_asn1_set_of (\<lambda>_. True) d s = (Some (), s') \<and> ready d s' b' \<and>
    chain s' = chain s \<and> contents b' = take (cbb_start s d) (contents b) @ concat (sort es) \<and>
    mset (sort es) = mset es"
  using flush_set_of [OF assms] by simp

lemma set_of_sorted_witness:
  "\<exists>s s' b'. CBB_flush_asn1_set_of (\<lambda>_. True) 0 s = (Some (), s') \<and> ready 0 s' b' \<and>
    contents b' = der_element 2 [1] @ der_element 2 [2]"
proof -
  let ?es = "[der_element 2 [2], der_element 2 [1]]"
  have e: "der_element 2 [k] = [2, 1, k]" for k
    by (simp add: der_element_def der_header_def der_tag_def der_length_def CBS_ASN1_TAG_NUMBER_MASK_def)
  let ?b = "\<lparr>buf = concat ?es, len = 6, can_resize = True, error = False, realloc_ok = \<lambda>_. True\<rparr>"
  let ?s = "\<lparr>base = Some ?b, chain = []\<rparr>"
  have "ready 0 ?s ?b" by (simp add: ready_def buf_ok_def grows_def e)
  moreover have "CBB_data 0 ?s = concat ?es" by (simp add: CBB_data_def cbb_start_def contents_def e)
  moreover have "list_all is_element ?es" unfolding is_element_def by (simp, intro conjI exI [of _ 2] exI [of _ "[2]"] exI [of _ "[1]"]) simp_all
  moreover have "len ?b + 4 < 2 ^ 64" and "length ?es \<le> (2 ^ 64 - 1) div 16" by simp_all
  ultimately obtain s' b' where "CBB_flush_asn1_set_of (\<lambda>_. True) 0 ?s = (Some (), s')" "ready 0 s' b'"
    "contents b' = take (cbb_start ?s 0) (contents ?b) @ concat (sort ?es)"
    using set_of_sorted [of 0 ?s ?b ?es] by blast
  then show ?thesis by (intro exI [of _ ?s] exI [of _ s'] exI [of _ b']) (simp add: cbb_start_def e)
qed

text \<open>C23: pb_decode_varint accepts, on a memory stream, exactly the varints of at most ten bytes at the
  front of the buffer (bytes with the continuation bit, then one without) and returns their
  value modulo 2^64 with the stream behind them; longer and unfinished ones fail.\<close>

theorem pb_decode_varint_exact:
  "pb_decode_varint (whole_buffer bs) = (Some x, t) \<longleftrightarrow>
    (\<exists>v rest. bs = v @ rest \<and> is_varint v \<and> length v \<le> 10 \<and> x = of_nat (varint_nat v)
       \<and> t = whole_buffer rest)"
proof
  assume d: "pb_decode_varint (whole_buffer bs) = (Some x, t)"
  then obtain v rest where v: "bs = v @ rest" "is_varint v" "length v \<le> 10"
    using buffer.pb_decode_varint_SomeD [OF primed_whole d] by auto
  with buffer.pb_decode_varint_ok [OF primed_whole contents_whole v(2,3), of rest] d
  have "x = of_nat (varint_nat v) \<and> advanced (\<lambda>mem. mem) (whole_buffer (v @ rest)) (length v) t"
    by auto
  with v advanced_whole show "\<exists>v rest. bs = v @ rest \<and> is_varint v \<and> length v \<le> 10
      \<and> x = of_nat (varint_nat v) \<and> t = whole_buffer rest"
    by blast
next
  assume "\<exists>v rest. bs = v @ rest \<and> is_varint v \<and> length v \<le> 10
      \<and> x = of_nat (varint_nat v) \<and> t = whole_buffer rest"
  then obtain v rest where v: "bs = v @ rest" "is_varint v" "length v \<le> 10"
    "x = of_nat (varint_nat v)" "t = whole_buffer rest" by blast
  then show "pb_decode_varint (whole_buffer bs) = (Some x, t)"
    using buffer.pb_decode_varint_ok [OF primed_whole contents_whole v(2,3), of rest] advanced_whole
    by fastforce
qed

text \<open>C24: Signed addition and subtraction: on numbers in normal form BN_add and BN_sub succeed where the
  allocator grants one limb more than the longer operand has, and yield the sum and the
  difference of the integers, again in normal form.\<close>

theorem bn_sums_exact:
  assumes "bn_normal a" and "bn_normal b" and "max (bn_width a) (bn_width b) + 1 \<le> N" and "bn_free malloc N r"
  shows "\<exists>s d. BN_add malloc a b r = (Some (), s) \<and> bn_normal s \<and> bn_int s = bn_int a + bn_int b \<and>
    BN_sub malloc a b r = (Some (), d) \<and> bn_normal d \<and> bn_int d = bn_int a - bn_int b"
  by (rule add_sub_returns [OF assms]) blast

lemma bn_sums_exact_witness:
  defines "n \<equiv> \<lambda>s k. \<lparr>bn_d = [k], bn_width = 1, bn_neg = s, bn_static = False\<rparr>"
  shows "\<exists>s d. BN_add (\<lambda>_. True) (n True 5) (n False (- 1)) BN_init = (Some (), s) \<and> bn_normal s \<and> bn_int s = 2 ^ 64 - 6 \<and>
    BN_sub (\<lambda>_. True) (n True 5) (n False (- 1)) BN_init = (Some (), d) \<and> bn_normal d \<and> bn_int d = - (2 ^ 64 + 4)"
proof -
  have n: "bn_normal (n True 5)" "bn_normal (n False (- 1))" "bn_int (n True 5) = - 5" "bn_int (n False (- 1)) = 2 ^ 64 - 1"
    "max (bn_width (n True 5)) (bn_width (n False (- 1))) + 1 \<le> 2" "bn_free (\<lambda>_. True) 2 BN_init"
    by (simp_all add: n_def bn_normal_def bn_minimal_width_def bn_ok_def bn_abs_def bn_int_def bn_free_def BN_init_def unsigned_minus_1_eq_mask mask_eq_exp_minus_1)
  show ?thesis using bn_sums_exact [OF n(1,2,5,6)] unfolding n(3,4) by simp
qed

text \<open>C25: The Karatsuba recursions agree with the schoolbook method limb by limb, for n a power of two:
  on n limbs the recursions for products and for squares write the schoolbook product; on
  operands of n to 2n - 1 limbs whose lengths differ by at most one, the recursion for odd
  lengths writes the schoolbook product into an array of 4n limbs. Behind the product it leaves
  zeros, whatever was there, when n is at least eight; below eight it clears only as many bytes
  of the array as it should clear limbs, so that with n = 1 the operands 2 and 3 turn the array
  9, 9, 9, 9 into 6, 0, 0, 9.\<close>

theorem karatsuba_equals_schoolbook:
  assumes n: "n = 2 ^ k" and a: "n \<le> length a" "length a < 2 * n" and b: "n \<le> length b" "length b < 2 * n"
    and d: "length a \<le> length b + 1" "length b \<le> length a + 1"
  shows "bn_mul_part_recursive n a b r = bn_mul_normal a b @
      (if 8 \<le> n then replicate (4 * n - (length a + length b)) 0
       else clear_bytes (4 * n - (length a + length b)) (drop (length a + length b) r)) \<and>
    bn_mul_part_recursive 1 [2] [3] [9, 9, 9, 9] = [6, 0, 0, 9] \<and>
    bn_mul_recursive n (take n a) (take n b) = bn_mul_normal (take n a) (take n b) \<and>
    bn_sqr_recursive n (take n a) = bn_mul_normal (take n a) (take n a)"
  using karatsuba_part [OF n _ a b d] karatsuba_small [OF a(1) b(1)] karatsuba_bytes
    karatsuba_full [OF n, of "take n a" "take n b"] karatsuba_square [OF n, of "take n a"] a(1) b(1) by simp

lemma karatsuba_equals_schoolbook_witness:
  "bn_mul_part_recursive 16 (replicate 29 7) (replicate 30 9) [] = bn_mul_normal (replicate 29 7) (replicate 30 9) @ replicate 5 0"
  using karatsuba_equals_schoolbook [of 16 4 "replicate 29 7" "replicate 30 9" "[]"] by simp

text \<open>C26: Byte round trip: a nonempty big-endian string is read into a number with its value, where the
  allocator grants the limbs; written padded to the same length it is the same string again, in
  little-endian order its reverse, and without padding the string less its leading zeros.\<close>

theorem bn_bytes_roundtrip:
  assumes "inp \<noteq> []" and "length inp \<le> 8 * N" and "bn_free malloc N r"
  shows "\<exists>bn. BN_bin2bn malloc new inp (Some r) = Some bn \<and> bn_int bn = int (be_nat inp) \<and>
    BN_bn2bin_padded (length inp) bn = Some inp \<and> BN_bn2le_padded (length inp) bn = Some (rev inp) \<and>
    BN_bn2bin bn = dropWhile (\<lambda>b. b = 0) inp"
proof -
  obtain bn where run: "BN_bin2bn malloc new inp (Some r) = Some bn" by (rule bin2bn_returns [OF assms(3,2)])
  note v = BN_bin2bn_val [OF run] and ok = bin2bn_ok [OF run assms(1)]
  have "BN_bn2bin_padded (length inp) bn = Some inp"
    using BN_bn2bin_padded_val [OF ok, of "length inp"] v(1) be_nat_less [of inp] by (simp add: be_bytes_be_nat)
  moreover have "le_bytes (length inp) (be_nat inp) = rev inp"
    using rev_le_bytes [of "length inp" "be_nat inp"] be_nat_less [of inp] be_bytes_be_nat [of inp] by (simp add: rev_swap)
  then have "BN_bn2le_padded (length inp) bn = Some (rev inp)"
    using BN_bn2le_padded_val [OF ok, of "length inp"] v(1) be_nat_less [of inp] by simp
  moreover have "bn_int bn = int (be_nat inp)" using v assms(1) by (simp add: bn_int_def)
  ultimately show ?thesis using run bn2bin_strip [OF ok v(1)] by blast
qed

lemma bn_bytes_roundtrip_witness:
  "\<exists>bn. BN_bin2bn (\<lambda>_. True) None [0, 1, 2, 3, 4, 5, 6, 7, 8] (Some BN_init) = Some bn \<and>
    BN_bn2bin_padded 9 bn = Some [0, 1, 2, 3, 4, 5, 6, 7, 8] \<and> BN_bn2le_padded 9 bn = Some [8, 7, 6, 5, 4, 3, 2, 1, 0] \<and>
    BN_bn2bin bn = [1, 2, 3, 4, 5, 6, 7, 8]"
proof -
  have "bn_free (\<lambda>_. True) 4 BN_init" by (simp add: bn_free_def BN_init_def)
  moreover have len: "length [0, 1, 2, 3, 4, 5, 6, 7, 8 :: byte] = 9" by simp
  ultimately obtain bn where "BN_bin2bn (\<lambda>_. True) None [0, 1, 2, 3, 4, 5, 6, 7, 8] (Some BN_init) = Some bn"
    "BN_bn2bin_padded 9 bn = Some [0, 1, 2, 3, 4, 5, 6, 7, 8]" "BN_bn2le_padded 9 bn = Some [8, 7, 6, 5, 4, 3, 2, 1, 0]"
    "BN_bn2bin bn = [1, 2, 3, 4, 5, 6, 7, 8]"
    using bn_bytes_roundtrip [of "[0, 1, 2, 3, 4, 5, 6, 7, 8]" 4 "\<lambda>_. True" BN_init None, unfolded len] by auto
  then show ?thesis by (intro exI conjI)
qed



text \<open>C28: Sorting makes sk_find faster and changes nothing else: on a sorted stack the binary search
  finds exactly what the linear scan finds, the first element that compares equal, for every
  comparison that is a total preorder; sk_sort permutes the elements and establishes the order.
  The qsort of the C library is a parameter that sorts such comparisons.\<close>

theorem sk_find_after_sort:
  assumes "stack_ok s" and "in_order s" and "sk_comp s = Some cmp" and "total_preorder cmp" and "qsort_contract qsort"
  shows "\<exists>t. sk_sort qsort (Some s) = Some t \<and> stack_ok t \<and> in_order t \<and> sorted_flag t \<and>
    mset (elems t) = mset (elems s) \<and>
    (\<forall>x. sk_find (Some t) (Some x) = index_from (\<lambda>q. cmp (Some x) q = 0) 0 (elems t))"
  using sort_ok [OF assms(1,2,5)] assms(3,4) find_matches by fastforce

lemma sk_find_after_sort_witness:
  "\<exists>t. sk_sort isort (Some \<lparr>sk_data = [Some 2, Some 1, Some 2, None], num = 3, sorted_flag = False,
      num_alloc = 4, sk_comp = Some nat_cmp\<rparr>) = Some t \<and> mset (elems t) = {#Some 2, Some 1, Some 2#} \<and>
    sk_find (Some t) (Some 2) = index_from (\<lambda>q. nat_cmp (Some 2) q = 0) 0 (elems t)"
proof -
  let ?s = "\<lparr>sk_data = [Some 2, Some 1, Some 2, None], num = 3, sorted_flag = False,
      num_alloc = 4, sk_comp = Some nat_cmp\<rparr>"
  have "stack_ok ?s" "in_order ?s" "sk_comp ?s = Some nat_cmp"
    by (simp_all add: stack_ok_def in_order_def)
  from sk_find_after_sort [OF this nat_cmp_preorder isort_contract] show ?thesis
    by (auto simp: elems_def)
qed

text \<open>C29: pb_skip_field, on a memory stream, passes exactly one field payload of its wire type: a varint
  of any length, eight or four bytes, or a length varint (of at most 36 bytes and a value below
  2^32) and as many bytes; the stream then stands at the next field.\<close>

theorem pb_skip_field_exact:
  assumes "is_payload wt p"
  shows "pb_skip_field wt (whole_buffer (p @ rest)) = (Some (), whole_buffer rest)"
  using buffer.pb_skip_field_ok [OF primed_whole contents_whole assms, of rest] advanced_whole by blast

lemma pb_skip_field_exact_witness:
  "pb_skip_field PB_WT_STRING (whole_buffer ([2, 0xAA, 0xBB] @ [8, 1])) = (Some (), whole_buffer [8, 1])"
proof -
  have "is_length_varint [2] (length [0xAA, 0xBB :: byte])"
    by (simp add: is_length_varint_def is_varint_Cons cont_def low7_def)
  then have "is_payload PB_WT_STRING [2, 0xAA, 0xBB]"
    unfolding is_payload_def by (intro disjI2 disjI1 conjI refl exI [of _ "[2]"] exI [of _ "[0xAA, 0xBB]"]) simp_all
  then show ?thesis by (rule pb_skip_field_exact)
qed

text \<open>C30: Once the threads have given back all references and no count has saturated, nothing is leaked:
  no buffer is allocated any more and the table is empty, which is what CRYPTO_BUFFER_POOL_free
  asserts.\<close>

theorem pool_drains:
  assumes "CRYPTO_BUFFER_POOL_new malloc = Some p0" and "pool_step\<^sup>*\<^sup>* (p0, {#}) (p, {#})"
    and "\<forall>a \<in> allocated p. references p a \<noteq> CRYPTO_REFCOUNT_MAX"
  shows "allocated p = {} \<and> lh_num_items (bufs p) = 0"
  by (rule drained [OF pool_reachable_inv [OF assms(1,2)] assms(3)])

lemma pool_drains_witness:
  "\<exists>p0 p1 b p. CRYPTO_BUFFER_POOL_new (\<lambda>_. True) = Some p0 \<and>
    buffer_insert (\<lambda>_. True) \<lparr>cb_addr = 64, cb_data = [1], cb_pooled = True\<rparr> p0 = (Some b, p1) \<and>
    CRYPTO_BUFFER_free (\<lambda>_. True) b p1 = Some p \<and> lh_num_items (bufs p) = 0"
proof -
  obtain p0 where p0: "CRYPTO_BUFFER_POOL_new (\<lambda>_. True) = Some p0"
    by (auto simp: CRYPTO_BUFFER_POOL_new_def lh_new_def)
  let ?b = "\<lparr>cb_addr = 64, cb_data = [1], cb_pooled = True\<rparr>"
  obtain p1 where p1: "buffer_insert (\<lambda>_. True) ?b p0 = (Some ?b, p1)" "references p1 64 = 1" "allocated p1 = {64}"
    using new_pool_empty(2) [OF p0, of ?b] new_pool_empty(1) [OF p0]
    by (auto intro: insert_miss [where malloc = "\<lambda>_. True" and p = p0 and buf = ?b])
  obtain found lh where "lh_delete (\<lambda>_. True) ?b (bufs p1) = (found, lh)" by (metis prod.collapse)
  with p1 obtain p where p: "CRYPTO_BUFFER_free (\<lambda>_. True) ?b p1 = Some p" "allocated p = {}"
    by (auto simp: CRYPTO_BUFFER_free_def CRYPTO_refcount_dec_and_test_zero_def CRYPTO_REFCOUNT_MAX_def)
  have "pool_step (p0, {#}) (p1, {#?b#})"
    using p1(1) new_pool_empty(1) [OF p0] by (intro insert_ok [of 64]) simp_all
  moreover have "pool_step (p1, {#?b#}) (p, {#})"
    using pool_step.free [of ?b "{#?b#}" "\<lambda>_. True" p1 p] p(1) by simp
  ultimately have "pool_step\<^sup>*\<^sup>* (p0, {#}) (p, {#})"
    by (meson converse_rtranclp_into_rtranclp rtranclp.rtrancl_refl)
  from pool_drains [OF p0 this] p p1(1) p0 show ?thesis by auto
qed

text \<open>C31: A stack refines a list: for arrays of fewer than 2^59 slots, sk_insert puts the pointer at the
  position, or at the end when that is beyond the end, moves the elements behind it, returns the
  new length and fails only when the array is full and realloc does; sk_delete returns and
  removes the element. Both keep the representation invariant, and push, pop and shift are their
  instances.\<close>

theorem stack_refines_list:
  assumes "stack_ok s" and "num_alloc s < 2 ^ 59"
  shows "((case sk_insert realloc p pos (Some s) of
      (n, None) \<Rightarrow> False
    | (n, Some t) \<Rightarrow> if num_alloc s \<le> num s + 1 \<and> \<not> realloc (16 * num_alloc s) then n = 0 \<and> t = s
        else n = length (elems t) \<and> stack_ok t \<and> \<not> sorted_flag t \<and>
          elems t = take pos (elems s) @ p # drop pos (elems s))) \<and>
    (pos < length (elems s) \<longrightarrow> (\<exists>t. sk_delete pos (Some s) = (elems s ! pos, Some t) \<and> stack_ok t \<and>
      elems t = take pos (elems s) @ drop (Suc pos) (elems s))) \<and>
    (sk_push realloc p (Some s) = sk_insert realloc p (length (elems s)) (Some s)) \<and>
    (elems s \<noteq> [] \<longrightarrow> sk_pop (Some s) = sk_delete (length (elems s) - 1) (Some s) \<and>
      sk_shift (Some s) = sk_delete 0 (Some s))"
proof (intro conjI)
  have len: "length (elems s) = num s" by (rule length_elems [OF assms(1)])
  note i = insert_elems [OF assms, of realloc p pos]
  show "case sk_insert realloc p pos (Some s) of
      (n, None) \<Rightarrow> False
    | (n, Some t) \<Rightarrow> if num_alloc s \<le> num s + 1 \<and> \<not> realloc (16 * num_alloc s) then n = 0 \<and> t = s
        else n = length (elems t) \<and> stack_ok t \<and> \<not> sorted_flag t \<and>
          elems t = take pos (elems s) @ p # drop pos (elems s)"
  proof (cases "num_alloc s \<le> num s + 1 \<and> \<not> realloc (16 * num_alloc s)")
    case True
    with i show ?thesis by simp
  next
    case False
    have run: "sk_insert realloc p pos (Some s) = (num s + 1, snd (sk_insert realloc p pos (Some s)))"
      using conjunct1 [OF i] unfolding if_not_P [OF False] .
    have "snd (sk_insert realloc p pos (Some s)) \<noteq> None"
      by (simp add: sk_insert_def split: option.splits)
    then obtain t where t: "snd (sk_insert realloc p pos (Some s)) = Some t" by blast
    with run have "sk_insert realloc p pos (Some s) = (num s + 1, Some t)" by simp
    then have "stack_ok t \<and> elems t = take pos (elems s) @ p # drop pos (elems s) \<and> \<not> sorted_flag t"
      using conjunct2 [OF i] by auto
    with \<open>sk_insert realloc p pos (Some s) = (num s + 1, Some t)\<close> len show ?thesis
      using False by (simp add: min_def)
  qed
  show "pos < length (elems s) \<longrightarrow> (\<exists>t. sk_delete pos (Some s) = (elems s ! pos, Some t) \<and> stack_ok t \<and>
      elems t = take pos (elems s) @ drop (Suc pos) (elems s))"
    using delete_elems [OF assms(1), of pos] len by auto
  show "sk_push realloc p (Some s) = sk_insert realloc p (length (elems s)) (Some s)"
    by (simp add: sk_push_def sk_num_def len)
  show "elems s \<noteq> [] \<longrightarrow> sk_pop (Some s) = sk_delete (length (elems s) - 1) (Some s) \<and>
      sk_shift (Some s) = sk_delete 0 (Some s)"
    using len by (cases "elems s = []") (auto simp: sk_pop_def sk_shift_def)
qed

lemma stack_refines_list_witness:
  "\<exists>s t. sk_new (\<lambda>_. True) None = Some s \<and> sk_insert (\<lambda>_. False) (Some (7 :: nat)) 9 (Some s) = (1, Some t) \<and>
    elems t = [Some 7]"
proof -
  obtain s :: "nat stack" where s: "sk_new (\<lambda>_. True) None = Some s" "num_alloc s = 4" "num s = 0"
    by (auto simp: sk_new_def kMinSize_def)
  then have "stack_ok s" "elems s = []" using new_ok by blast+
  with stack_refines_list [where s = s and realloc = "\<lambda>_. False" and p = "Some 7" and pos = 9] s
  show ?thesis by (fastforce split: prod.splits option.splits)
qed

text \<open>C32: The decoders of scalars, bytes, strings and fixed-length bytes never write outside a static
  field, whatever bytes arrive and whether they succeed or fail: memory behind data_size is
  unchanged, also by the terminator that pb_dec_string stores after a failed read. The field
  must have at least the size that its type stores without looking at data_size (one byte for a
  bool, four or eight for the fixed types), and not be a pointer; the decoder of submessages,
  which passes the field on to the walk over the message, is not covered.\<close>

theorem pb_decoders_stay_in_field:
  assumes "PB_DECODERS realloc submsg (PB_LTYPE (ftype f)) = Some dec" and "sized_for f"
    and "PB_LTYPE (ftype f) \<noteq> 8" and "PB_ATYPE (ftype f) \<noteq> 0x80"
    and "data_size f \<le> length d" and "dec f (d, pb_istream_from_buffer mem n) = (r, (d', t))"
  shows "length d' = length d \<and> drop (data_size f) d' = drop (data_size f) d"
proof -
  have "modest (callback (pb_istream_from_buffer mem n))"
    by (simp add: pb_istream_from_buffer_def modest_buf_read)
  with frame_decoder [OF assms(1,3,4,2)] assms(5,6) show ?thesis
    unfolding frame_def by blast
qed

lemma pb_decoders_stay_in_field_witness:
  "drop 3 (fst (snd (pb_dec_string (\<lambda>_ _. None) \<lparr>ftag = 1, ftype = 7, data_size = 3, array_size = 0\<rparr>
    ([1, 1, 1, 9, 9], pb_istream_from_buffer [2, 65] 2)))) = [9, 9]"
proof -
  let ?f = "\<lparr>ftag = 1, ftype = 7, data_size = 3, array_size = 0\<rparr>"
  have "PB_DECODERS (\<lambda>_ _. None) (\<lambda>_. mem_error []) (PB_LTYPE (ftype ?f)) =
      Some (pb_dec_string (\<lambda>_ _. None) :: byte list decoder)"
    by (simp add: PB_DECODERS_def PB_LTYPE_def)
  moreover have "sized_for ?f" "PB_LTYPE (ftype ?f) \<noteq> 8" "PB_ATYPE (ftype ?f) \<noteq> 0x80"
    by (simp_all add: sized_for_def PB_LTYPE_def PB_ATYPE_def)
  moreover obtain r d' t where "pb_dec_string (\<lambda>_ _. None) ?f
      ([1, 1, 1, 9, 9], pb_istream_from_buffer [2, 65] 2) = (r, (d', t))"
    by (metis prod.collapse)
  ultimately show ?thesis
    using pb_decoders_stay_in_field [of "\<lambda>_ _. None" "\<lambda>_. mem_error []" ?f "pb_dec_string (\<lambda>_ _. None)"
        "[1, 1, 1, 9, 9]" "[2, 65]" 2 r d' t] by simp
qed

text \<open>C33: The quick walk misses BER: for the input 30 08 30 04 30 80 00 00 30 00, whose innermost
  element has an indefinite length, cbs_find_ber answers that no conversion is needed and
  CBS_asn1_ber_to_der returns the input as it is, because the walk over the last empty sequence
  resets the flag that the walk over its sibling had set.\<close>

theorem find_ber_misses_nested_ber:
  "let inner = [0x30, 0x80, 0, 0]; outer = [0x30, 8, 0x30, 4] @ inner @ [0x30, 0] in
    cbs_find_ber 2 inner = Some True \<and> cbs_find_ber 0 outer = Some False \<and>
    CBS_asn1_ber_to_der (\<lambda>_. True) True outer = (Some (outer, False), [])"
proof -
  let ?t = "0x20000010 :: u32"
  let ?inner = "[0x30, 0x80, 0, 0] :: byte list"
  let ?mid = "der_element ?t ?inner @ der_element ?t []"
  have tag: "der_tag ?t = [0x30]"
    by (simp add: der_tag_def CBS_ASN1_TAG_NUMBER_MASK_def)
  have el: "der_element ?t body = [0x30, of_nat (length body)] @ body" if "length body < 128" for body
    using that by (simp add: der_element_def der_header_def der_length_def tag)
  have con: "is_constructed ?t" and str: "\<not> is_string_type ?t"
    by (simp_all add: is_constructed_def is_string_type_def CBS_ASN1_CONSTRUCTED_def CBS_ASN1_BITSTRING_def
        CBS_ASN1_OCTETSTRING_def CBS_ASN1_UTF8STRING_def CBS_ASN1_NUMERICSTRING_def CBS_ASN1_PRINTABLESTRING_def
        CBS_ASN1_T61STRING_def CBS_ASN1_VIDEOTEXSTRING_def CBS_ASN1_IA5STRING_def
        CBS_ASN1_GRAPHICSTRING_def CBS_ASN1_VISIBLESTRING_def CBS_ASN1_GENERALSTRING_def
        CBS_ASN1_UNIVERSALSTRING_def CBS_ASN1_BMPSTRING_def)
  have "find_ber_loop False 2 (der_tag ?t @ 0x80 # [0, 0]) = Some True"
    by (subst find_ber_loop.simps) (simp add: read_indefinite [OF con] is_indefinite_marker is_eoc_marker)
  then have inner: "cbs_find_ber 2 ?inner = Some True"
    by (simp add: cbs_find_ber.simps kMaxDepth_def tag)
  have "cbs_find_ber 1 ?mid = Some False"
  proof (rule find_ber_overwritten [OF con str])
    show "cbs_find_ber (1 + 1) ?inner = Some True" unfolding one_add_one by (rule inner)
  qed (simp_all add: kMaxDepth_def)
  then have "cbs_find_ber 0 (der_element ?t ?mid @ []) = Some False"
    using con str find_ber_element [of ?mid False 0 ?t "[]"]
    by (simp add: cbs_find_ber.simps [of 0] find_ber_Nil el)
  moreover have "CBS_get_any_asn1_element (der_element ?t ?mid @ []) =
      (Some (der_element ?t ?mid, ?t, length (der_header ?t (length ?mid))), [])"
    unfolding get_any_asn1_element_iff by (intro exI [of _ ?mid]) (simp add: el)
  ultimately show ?thesis
    using inner by (simp add: el CBS_asn1_ber_to_der_def and_then_def ok_def)
qed

text \<open>C34: Errors are sticky, with one exception: once the error flag of the shared buffer is set, the
  functions of cbb.c that flush first (CBB_flush itself, the writers of bytes, space and
  integers of any width, CBB_reserve, every opening of a child, the writers of ASN.1 integers,
  strings, booleans and object identifiers, CBB_flush_asn1_set_of and CBB_finish) fail at any
  depth and leave the builder as it is. CBB_did_write does not look at the flag: without an open
  child it still succeeds and moves the length of a buffer that has the space.\<close>

theorem builder_error_sticky:
  assumes "base s = Some b" and "error b"
  shows "CBB_flush d s = (None, s) \<and> CBB_add_bytes d data s = (None, s) \<and> CBB_add_space d k s = (None, s) \<and>
    CBB_reserve d k s = (None, s) \<and> CBB_add_u8 d v8 s = (None, s) \<and> CBB_add_u16 d v16 s = (None, s) \<and>
    CBB_add_u16le d v16 s = (None, s) \<and> CBB_add_u24 d v32 s = (None, s) \<and> CBB_add_u32 d v32 s = (None, s) \<and>
    CBB_add_u32le d v32 s = (None, s) \<and> CBB_add_u64 d v64 s = (None, s) \<and> CBB_add_u64le d v64 s = (None, s) \<and>
    CBB_add_u8_length_prefixed d s = (None, s) \<and> CBB_add_u16_length_prefixed d s = (None, s) \<and>
    CBB_add_u24_length_prefixed d s = (None, s) \<and> CBB_add_asn1 d tag s = (None, s) \<and>
    CBB_add_asn1_uint64 d v64 s = (None, s) \<and> CBB_add_asn1_int64 d v64 s = (None, s) \<and>
    CBB_add_asn1_octet_string d data s = (None, s) \<and> CBB_add_asn1_bool d i s = (None, s) \<and>
    CBB_add_asn1_oid_from_text d data s = (None, s) \<and> CBB_flush_asn1_set_of malloc d s = (None, s) \<and>
    CBB_finish d want s = (None, s) \<and>
    (drop d (chain s) = [] \<and> len b + n \<le> cap b \<and> cap b < 2 ^ 64 \<longrightarrow>
      CBB_did_write d n s = (Some (), s\<lparr>base := Some (b\<lparr>len := len b + n\<rparr>)\<rparr>))"
  using flush_failed [OF assms] failed_sticky [OF assms] assms(1)
  by (simp add: CBB_reserve_def CBB_add_u16_def CBB_add_u16le_def CBB_add_u24_def CBB_add_u32_def CBB_add_u32le_def
      CBB_add_u64_def CBB_add_u64le_def CBB_add_u8_length_prefixed_def CBB_add_u16_length_prefixed_def
      CBB_add_u24_length_prefixed_def CBB_add_asn1_uint64_def CBB_add_asn1_int64_def CBB_add_asn1_octet_string_def
      CBB_add_asn1_bool_def CBB_add_asn1_oid_from_text_def CBB_flush_asn1_set_of_def CBB_finish_def and_then_def fail_def
      CBB_did_write_def on_base_def size_add_small)

lemma builder_error_sticky_witness:
  defines "s \<equiv> \<lparr>base = Some \<lparr>buf = [0, 0], len = 0, can_resize = True, error = True, realloc_ok = \<lambda>_. True\<rparr>, chain = []\<rparr>"
  shows "CBB_finish 0 True s = (None, s) \<and> (\<exists>s'. CBB_did_write 0 2 s = (Some (), s'))"
  using builder_error_sticky [of s "\<lparr>buf = [0, 0], len = 0, can_resize = True, error = True, realloc_ok = \<lambda>_. True\<rparr>" 0]
  by (simp add: s_def cap_def)

text \<open>C35: On varints of at most five bytes in a memory stream pb_decode_varint32 is exact: it returns
  the value when it fits 32 bits and fails otherwise. On six bytes it is not: a fifth byte with
  the continuation bit is not checked, so a number beyond 32 bits can be accepted and returned
  as zero.\<close>

theorem pb_decode_varint32_short:
  assumes "is_varint v" and "length v \<le> 5"
  shows "(if varint_nat v < 2 ^ 32
      then pb_decode_varint32 (whole_buffer (v @ rest)) = (Some (of_nat (varint_nat v)), whole_buffer rest)
      else fst (pb_decode_varint32 (whole_buffer (v @ rest))) = None) \<and>
    (\<exists>w. is_varint w \<and> length w = 6 \<and> 2 ^ 32 \<le> varint_nat w \<and>
      pb_decode_varint32 (whole_buffer w) = (Some 0, whole_buffer []))"
proof (rule conjI)
  show "if varint_nat v < 2 ^ 32
      then pb_decode_varint32 (whole_buffer (v @ rest)) = (Some (of_nat (varint_nat v)), whole_buffer rest)
      else fst (pb_decode_varint32 (whole_buffer (v @ rest))) = None"
    using varint32_short_exact [OF assms, of rest] by (auto simp: prod_eq_iff split: if_splits)
  show "\<exists>w. is_varint w \<and> length w = 6 \<and> 2 ^ 32 \<le> varint_nat w \<and>
      pb_decode_varint32 (whole_buffer w) = (Some 0, whole_buffer [])"
    using varint32_misses_overflow
    by (intro exI [of _ "[0x80, 0x80, 0x80, 0x80, 0xF0, 0x00]"]) (simp add: is_varint_Cons cont_def low7_def)
qed

lemma pb_decode_varint32_short_witness:
  "fst (pb_decode_varint32 (whole_buffer ([0x80, 0x80, 0x80, 0x80, 0x10] @ []))) = None"
proof -
  have "is_varint [0x80, 0x80, 0x80, 0x80, 0x10]" "varint_nat [0x80, 0x80, 0x80, 0x80, 0x10] = 2 ^ 32"
    by (simp_all add: is_varint_Cons cont_def low7_def)
  then show ?thesis
    using pb_decode_varint32_short [of "[0x80, 0x80, 0x80, 0x80, 0x10]" "[]"] by simp
qed

text \<open>C36: Where the quotient of BN_div is the object of the numerator, the remainder gets the sign of
  the quotient: the sign of the numerator is read for it after the sign of the quotient has been
  stored there. The division still succeeds where the allocator grants enough limbs, and the
  absolute values are right, but numerator = quotient * divisor + remainder holds exactly when
  the divisor is positive or divides the numerator. Dividing minus seven by minus two this way
  gives three and plus one.\<close>

theorem division_in_place_loses_sign:
  assumes ops: "bn_ok numer" "bn_ok divisor" "bn_abs divisor \<noteq> 0" and N: "bn_width numer + bn_width divisor + 8 \<le> N"
    and ctx: "div_ctx_ok malloc N ctx" and out: "bn_temp malloc N numer" "bn_temp malloc N rem"
  shows "\<exists>q r. BN_div malloc numer divisor True ctx (Some numer, Some rem) = (Some (), Some q, Some r) \<and>
    bn_int q = sgn (bn_int numer) * sgn (bn_int divisor) * int (bn_abs numer div bn_abs divisor) \<and>
    bn_int r = sgn (bn_int numer) * sgn (bn_int divisor) * int (bn_abs numer mod bn_abs divisor) \<and>
    (bn_int numer = bn_int q * bn_int divisor + bn_int r \<longleftrightarrow> 0 < bn_int divisor \<or> bn_int divisor dvd bn_int numer)"
proof -
  let ?m = "bn_abs numer" and ?d = "bn_abs divisor" and ?sm = "sgn (bn_int numer)" and ?sd = "sgn (bn_int divisor)"
  obtain quo' rem' where run: "BN_div malloc numer divisor True ctx (Some numer, Some rem) = (Some (), quo', rem')"
    and q: "out_is malloc N (Some numer) quo' (?sm * ?sd * int (?m div ?d))"
    and r: "out_is malloc N (Some rem) rem' (rem_sgn True numer divisor * int (?m mod ?d))"
    by (rule BN_div_returns [OF ops N ctx, of "Some numer" "Some rem" True]) (use out in simp_all)
  from q r obtain x y where x: "quo' = Some x" "bn_int x = ?sm * ?sd * int (?m div ?d)"
    and y: "rem' = Some y" "bn_int y = ?sm * ?sd * int (?m mod ?d)"
    by (auto simp: out_is_def rem_sgn_def)
  have d: "bn_int divisor = ?sd * int ?d" and m: "bn_int numer = ?sm * int ?m" and s: "?sd * ?sd = 1" "?sd \<noteq> 0"
    using ops(3) by (auto simp: bn_int_def sgn_if)
  have "bn_int x * bn_int divisor = ?sm * (?sd * ?sd) * int (?m div ?d * ?d)" unfolding x(2) by (subst d) simp
  then have prod: "bn_int x * bn_int divisor = ?sm * int (?m div ?d * ?d)" unfolding s(1) by simp
  have "bn_int numer - bn_int x * bn_int divisor = ?sm * (int ?m - int (?m div ?d * ?d))"
    unfolding prod by (subst m) (simp only: right_diff_distrib)
  also have "int ?m = int (?m div ?d * ?d) + int (?m mod ?d)" by (simp flip: of_nat_add of_nat_mult)
  also have "int (?m div ?d * ?d) + int (?m mod ?d) - int (?m div ?d * ?d) = int (?m mod ?d)" by simp
  finally have "bn_int numer = bn_int x * bn_int divisor + bn_int y \<longleftrightarrow> ?sm * int (?m mod ?d) = ?sm * ?sd * int (?m mod ?d)"
    unfolding y(2) by linarith
  also have "\<dots> \<longleftrightarrow> ?sm = 0 \<or> ?sd = 1 \<or> ?m mod ?d = 0" by auto
  also have "?sm = 0 \<longleftrightarrow> ?m = 0" by (auto simp: bn_int_def sgn_if)
  also have "?sd = 1 \<longleftrightarrow> 0 < bn_int divisor" by (simp add: sgn_1_pos)
  also have "?m = 0 \<or> 0 < bn_int divisor \<or> ?m mod ?d = 0 \<longleftrightarrow> 0 < bn_int divisor \<or> bn_int divisor dvd bn_int numer"
  proof -
    have "bn_int divisor dvd bn_int numer \<longleftrightarrow> ?d dvd ?m" by (simp add: bn_int_def)
    then show ?thesis by (auto simp: dvd_eq_mod_eq_0)
  qed
  finally show ?thesis using run x y by blast
qed

lemma division_in_place_loses_sign_witness:
  defines "n \<equiv> \<lambda>k. \<lparr>bn_d = [k], bn_width = 1, bn_neg = True, bn_static = False\<rparr>"
  shows "\<exists>q r. BN_div (\<lambda>_. True) (n 7) (n 2) True (Some BN_init, Some BN_init, Some BN_init, Some BN_init)
      (Some (n 7), Some BN_init) = (Some (), Some q, Some r) \<and> bn_int q = 3 \<and> bn_int r = 1 \<and>
    bn_int (n 7) \<noteq> bn_int q * bn_int (n 2) + bn_int r"
proof -
  have n: "bn_ok (n k)" "bn_width (n k) = 1" "bn_abs (n k) = unat k" "bn_int (n k) = - int (unat k)"
    "bn_temp (\<lambda>_. True) 100 (n k)" "bn_temp (\<lambda>_. True) 100 BN_init" for k
    by (simp_all add: n_def bn_ok_def bn_abs_def bn_int_def bn_temp_def bn_free_def BN_init_def)
  then have "div_ctx_ok (\<lambda>_. True) 100 (Some BN_init, Some BN_init, Some BN_init, Some BN_init)" by (simp add: div_ctx_ok_def)
  from division_in_place_loses_sign [OF n(1,1) _ _ this n(5,6), of 2 7] show ?thesis by (auto simp: n)
qed

text \<open>C37: A secret shift is a shift only by distances below a bound. bn_rshift_secret_shift succeeds
  where the allocator grants enough limbs, and shifts by the distance modulo the least power of
  two above the number of bits of the limbs; so it yields the number of BN_rshift exactly when
  the distance is below that power, or the number has no more bits than the remaining distance.
  For one limb the power is 128, and shifting 5 by 128 leaves 5, where BN_rshift yields zero.\<close>

theorem secret_shift_ignores_high_bits:
  assumes a: "bn_ok a" "bn_width a \<le> N" and tmp: "bn_free malloc N tmp" and r: "bn_temp malloc N r"
    and k: "64 * bn_width a < 2 ^ k" "k \<noteq> 0 \<Longrightarrow> 2 ^ (k - 1) \<le> 64 * bn_width a"
  shows "\<exists>x y. bn_rshift_secret_shift malloc a n (Some tmp) r = (Some (), x) \<and> BN_rshift malloc a (int n) r = (Some (), y) \<and>
    bn_abs x = bn_abs a div 2 ^ (n mod 2 ^ k) \<and> bn_abs y = bn_abs a div 2 ^ n \<and>
    (bn_abs x = bn_abs y \<longleftrightarrow> n < 2 ^ k \<or> bn_abs a < 2 ^ (n mod 2 ^ k))"
proof -
  let ?m = "64 * bn_width a"
  have len: "length (bn_words a) = bn_width a" and free: "bn_free malloc N r" and okr: "bn_ok r"
    using a(1) r by (simp_all add: bn_ok_def bn_temp_def)
  obtain r1 where r1: "BN_copy malloc a r = (Some (), r1)" by (rule bn_totalD [OF total_copy [OF a(2)] free])
  have "bn_width r1 \<le> N" using BN_copy_val [OF r1 a(1)] a(2) by simp
  then obtain t where "bn_wexpand malloc (bn_width r1) tmp = (Some (), t)" by (rule wexpandE [OF tmp])
  with r1 obtain x where x: "bn_rshift_secret_shift malloc a n (Some tmp) r = (Some (), x)"
    by (simp add: bn_rshift_secret_shift_def and_then_Some)
  obtain y where y: "BN_rshift malloc a (int n) r = (Some (), y)"
    by (rule bn_totalD [OF rshift_total [of "int n", OF _ a(2)] free]) simp_all
  have "bit_length ?m = k" by (rule bit_length_unique [OF k])
  then have xv: "bn_abs x = bn_abs a div 2 ^ (n mod 2 ^ k)" using bn_rshift_secret_shift_val(1) [OF x okr] len by simp
  have yv: "bn_abs y = bn_abs a div 2 ^ n"
  proof -
    have "\<bar>bn_int y\<bar> = \<bar>bn_int a\<bar> div 2 ^ n" using BN_rshift_val(2) [OF y] by (auto simp: abs_mult sgn_if pos_imp_zdiv_nonneg_iff)
    then have "int (bn_abs y) = int (bn_abs a div 2 ^ n)" by (simp add: bn_int_def zdiv_int split: if_splits)
    then show ?thesis by (simp only: of_nat_eq_iff)
  qed
  have "bn_abs x = bn_abs y \<longleftrightarrow> n < 2 ^ k \<or> bn_abs a < 2 ^ (n mod 2 ^ k)"
  proof (cases "n < 2 ^ k")
    case False
    have "bn_abs a < 2 ^ ?m" using bn_abs_less [of a] by (simp add: bn_base_def power_mult)
    also have "(2 :: nat) ^ ?m \<le> 2 ^ n" using k(1) False by (intro power_increasing) simp_all
    finally have "bn_abs y = 0" unfolding yv by simp
    with False show ?thesis unfolding xv by (simp add: div_eq_0_iff)
  qed (simp add: xv yv)
  with x y xv yv show ?thesis by blast
qed

lemma secret_shift_ignores_high_bits_witness:
  defines "a \<equiv> \<lparr>bn_d = [5], bn_width = 1, bn_neg = False, bn_static = False\<rparr>"
  shows "\<exists>x y. bn_rshift_secret_shift (\<lambda>_. True) a 128 (Some BN_init) BN_init = (Some (), x) \<and> bn_abs x = 5 \<and>
    BN_rshift (\<lambda>_. True) a 128 BN_init = (Some (), y) \<and> bn_abs y = 0"
proof -
  have "bn_ok a" "bn_width a = 1" "bn_abs a = 5" "bn_free (\<lambda>_. True) 1 BN_init" "bn_temp (\<lambda>_. True) 1 BN_init"
    by (simp_all add: a_def bn_ok_def bn_abs_def bn_temp_def bn_free_def BN_init_def)
  with secret_shift_ignores_high_bits [of a 1 "\<lambda>_. True" BN_init BN_init 7 128] show ?thesis by auto
qed

text \<open>C38: The sign of a reused negative number survives where it should not. BN_bin2bn clears it for a
  string that is not empty, but for an empty one leaves it: the result is a negative zero, not
  in normal form, which BN_cmp calls less than zero. BN_le2bn clears it for an empty string, but
  for a string that is not empty keeps it and yields, where the allocator grants the limbs,
  minus the number that the bytes denote.\<close>

theorem bin2bn_empty_keeps_sign:
  assumes neg: "bn_neg r" and free: "bn_free malloc N r"
  shows "(\<exists>z. BN_bin2bn malloc new [] (Some r) = Some z \<and> BN_is_zero z \<and> BN_is_negative z \<and>
      BN_cmp (Some z) (Some BN_init) = - 1) \<and>
    (\<exists>y. BN_le2bn malloc new [] (Some r) = Some y \<and> BN_is_zero y \<and> \<not> BN_is_negative y) \<and>
    (\<forall>inp. inp \<noteq> [] \<and> length inp \<le> 8 * N \<longrightarrow>
      (\<exists>x y. BN_bin2bn malloc new inp (Some r) = Some x \<and> bn_int x = int (be_nat inp) \<and>
        BN_le2bn malloc new inp (Some r) = Some y \<and> bn_int y = - int (le_nat inp)))"
proof (intro conjI allI impI)
  fix inp :: "byte list"
  assume inp: "inp \<noteq> [] \<and> length inp \<le> 8 * N"
  obtain x where x: "BN_bin2bn malloc new inp (Some r) = Some x" by (rule bin2bn_returns [OF free, of inp new]) (use inp in simp_all)
  obtain y where y: "BN_le2bn malloc new inp (Some r) = Some y" "bn_neg y = bn_neg r"
    by (rule le2bn_returns [OF free, of inp new]) (use inp in simp_all)
  show "\<exists>x y. BN_bin2bn malloc new inp (Some r) = Some x \<and> bn_int x = int (be_nat inp) \<and>
      BN_le2bn malloc new inp (Some r) = Some y \<and> bn_int y = - int (le_nat inp)"
    using x y BN_bin2bn_val [OF x] BN_le2bn_val [OF y(1)] inp neg by (simp add: bn_int_def)
qed (use neg in \<open>auto simp: BN_bin2bn_def BN_le2bn_def BN_is_negative_def BN_cmp_def is_zero_iff bn_abs_def BN_init_def\<close>)

lemma bin2bn_empty_keeps_sign_witness:
  defines "r \<equiv> \<lparr>bn_d = [7], bn_width = 1, bn_neg = True, bn_static = False\<rparr>"
  shows "(\<exists>z. BN_bin2bn (\<lambda>_. True) None [] (Some r) = Some z \<and> BN_is_zero z \<and> BN_cmp (Some z) (Some BN_init) = - 1) \<and>
    (\<exists>y. BN_le2bn (\<lambda>_. True) None [1, 1] (Some r) = Some y \<and> bn_int y = - 257)"
proof -
  have "bn_neg r" "bn_free (\<lambda>_. True) 1 r" by (simp_all add: r_def bn_free_def)
  note v = bin2bn_empty_keeps_sign [OF this, of None]
  from v show ?thesis by (auto dest: spec [of _ "[1, 1]"])
qed

text \<open>C39: sk_set keeps the sorted flag, so that it can leave it set on an array that is not in order;
  sk_find then searches in the wrong half and misses the element that sk_set has just stored.\<close>

theorem sk_set_then_find_misses:
  "\<exists>s t. stack_ok s \<and> in_order s \<and> sorted_flag s \<and> sk_comp s = Some nat_cmp \<and>
    sk_set 0 (Some 9) (Some s) = (Some 9, Some t) \<and> elems t = [Some 9, Some 2, Some 3] \<and> \<not> in_order t \<and>
    sk_find (Some t) (Some 9) = None"
proof -
  let ?s = "\<lparr>sk_data = [Some 1, Some 2, Some 3, None], num = 3, sorted_flag = True, num_alloc = 4,
    sk_comp = Some nat_cmp\<rparr>"
  let ?t = "?s\<lparr>sk_data := [Some 9, Some 2, Some 3, None]\<rparr>"
  have "sk_find (Some ?t) (Some 9) = None"
    by (simp add: sk_find_def sk_is_sorted_def bsearch.simps nat_cmp_def Let_def)
  then show ?thesis
    by (intro exI [of _ ?s] exI [of _ ?t])
      (simp add: stack_ok_def in_order_def elems_def nat_cmp_def sk_set_def)
qed

text \<open>C40: The scalar decoders are type-safe, for fields of the size that their type stores (one byte for
  a bool, four or eight for the fixed types): whatever bytes arrive, when the decoder of a
  packable type accepts them it leaves an item of the C type of the field in memory, a bool
  being 0 or 1 and an integer having one of the supported sizes, and no other byte changes.\<close>

theorem pb_decoded_scalar_typed:
  assumes "PB_DECODERS realloc submsg (PB_LTYPE (ftype f)) = Some dec" and "PB_LTYPE (ftype f) \<le> 5"
    and "dec f (d, s) = (Some (), (d', s'))"
    and "PB_LTYPE (ftype f) = 0 \<longrightarrow> data_size f = 1" and "PB_LTYPE (ftype f) = 4 \<longrightarrow> data_size f = 4"
    and "PB_LTYPE (ftype f) = 5 \<longrightarrow> data_size f = 8"
  shows "well_typed f (take (data_size f) d') \<and> drop (data_size f) d' = drop (data_size f) d"
  using decoder_well_typed assms by blast

lemma pb_decoded_scalar_typed_witness:
  "\<exists>d' s'. pb_dec_bool \<lparr>ftag = 1, ftype = 0, data_size = 1, array_size = 0\<rparr> ([9, 9], whole_buffer [5]) =
      (Some (), (d', s')) \<and> take 1 d' \<in> {[0], [1]}"
proof -
  let ?f = "\<lparr>ftag = 1, ftype = 0, data_size = 1, array_size = 0\<rparr>"
  have t: "PB_LTYPE (ftype ?f) = 0" by (simp add: PB_LTYPE_def)
  have "is_varint [5]" "varint_nat [5] = 5"
    by (simp_all add: is_varint_Cons cont_def low7_def)
  then have "pb_decode_varint32 (whole_buffer [5]) = (Some 5, whole_buffer [])"
    using varint32_short_exact [of "[5]" "[]"] by simp
  then have run: "pb_dec_bool ?f ([9, 9], whole_buffer [5]) = (Some (), ([1, 9], whole_buffer []))"
    by (simp add: pb_dec_bool_def and_then_def on_stream_def put_mem_def)
  have "PB_DECODERS (\<lambda>_ _. None) (\<lambda>_. mem_error []) (PB_LTYPE (ftype ?f)) = Some pb_dec_bool"
    unfolding t by (simp add: PB_DECODERS_def)
  from pb_decoded_scalar_typed [OF this _ run] t have "well_typed ?f (take 1 [1, 9])" by simp
  with run show ?thesis by (auto simp: well_typed_def)
qed

section \<open>Further theorems\<close>

text \<open>CBS_asn1_oid_to_text, with an allocator that does not fail, prints a text exactly for contents
  octets that encode a valid component list, with the first two components packed as 40 a + b,
  and the text is the dotted-decimal form of the components.\<close>

theorem oid_printer_exact:
  assumes "length cbs < 2 ^ 58"
  shows "CBS_asn1_oid_to_text (\<lambda>_. True) True cbs = Some t \<longleftrightarrow>
    (\<exists>comps. valid_oid comps \<and> cbs = oid_der comps \<and> t = oid_text comps @ [0])"
  using assms by (rule oid_to_text_iff)

lemma oid_printer_exact_witness:
  "CBS_asn1_oid_to_text (\<lambda>_. True) True [42] = Some (oid_text [1, 2] @ [0])"
proof -
  have "valid_oid [1, 2]" and "[42] = oid_der [1, 2]"
    by (simp_all add: valid_oid_def oid_der_def b128_def)
  moreover have "length [42 :: byte] < 2 ^ 58" by simp
  ultimately show ?thesis using oid_printer_exact [of "[42]" "oid_text [1, 2] @ [0]"] by blast
qed

text \<open>CBS_get_asn1_int64 accepts an INTEGER only in its shortest two's-complement form: it returns v
  with the reader at r exactly when the input is the canonical encoding of v followed by r.\<close>

theorem int64_reader_exact:
  "CBS_get_asn1_int64 s = (Some v, r) \<longleftrightarrow> s = der_element CBS_ASN1_INTEGER (der_int v) @ r"
  by (rule asn1_int64_iff)

text \<open>Every uint64_t survives the trip through DER: what CBB_add_asn1_uint64 writes on a fresh
  builder is read back by CBS_get_asn1_uint64 as the same value with nothing left over.\<close>

theorem uint64_roundtrip:
  "\<exists>der. build (CBB_add_asn1_uint64 0 v) = Some der \<and> CBS_get_asn1_uint64 (der @ r) = (Some v, r)"
proof -
  have "length (der_element CBS_ASN1_INTEGER (der_uint (unat v))) + 4 < 2 ^ 64"
    using length_der_element [of CBS_ASN1_INTEGER "der_uint (unat v)"] length_der_uint [of "unat v"] by simp
  from build_writes [OF writes_asn1_uint64 this] asn1_uint64_iff show ?thesis by blast
qed

text \<open>For a valid code point, cbb_add_utf8 writes as many bytes as cbb_get_utf8_len announces and
  cbs_get_utf8 reads the same code point back from them.\<close>

theorem utf8_roundtrip:
  assumes "is_valid_code_point u"
  shows "\<exists>bs. build (cbb_add_utf8 0 u) = Some bs \<and> length bs = cbb_get_utf8_len u \<and>
    cbs_get_utf8 (bs @ r) = (Some u, r)"
proof -
  have len: "length (utf8 (unat u)) = cbb_get_utf8_len u" by (rule length_utf8 [OF assms])
  then have "length (utf8 (unat u)) + 4 < 2 ^ 64" by (simp add: cbb_get_utf8_len_def)
  from build_writes [OF writes_utf8 [OF assms] this] len get_utf8_iff assms show ?thesis by blast
qed

lemma utf8_roundtrip_witness:
  "\<exists>bs. build (cbb_add_utf8 0 0x20ac) = Some bs \<and> length bs = cbb_get_utf8_len 0x20ac \<and>
    cbs_get_utf8 (bs @ [65]) = (Some 0x20ac, [65])"
  by (rule utf8_roundtrip) (simp add: is_valid_code_point_def)

text \<open>Plain and zigzag varints round trip for every 64-bit value: the encoder needs at most ten
  bytes (the size of its local buffer), writes them to a memory stream with room for ten, and
  the decoder returns the value with the stream behind it.\<close>

theorem pb_varint_roundtrip:
  "(\<exists>t. pb_encode_varint v (pb_ostream_from_buffer 10) = (Some (), t) \<and> length (sink_state t) \<le> 10 \<and>
      pb_decode_varint (whole_buffer (sink_state t @ rest)) = (Some v, whole_buffer rest)) \<and>
   (\<exists>t. pb_encode_svarint v (pb_ostream_from_buffer 10) = (Some (), t) \<and> length (sink_state t) \<le> 10 \<and>
      pb_decode_svarint (whole_buffer (sink_state t @ rest)) = (Some v, whole_buffer rest))"
proof -
  have w: "\<exists>t. pb_encode_varint x (pb_ostream_from_buffer 10) = (Some (), t) \<and> sink_state t = varint_buffer x" for x
    using emits_to_buffer [OF memory.emits_varint, of x 10] varint_buffer_bound [of x]
    by (auto simp: order_le_less_trans)
  have "pb_decode_varint (whole_buffer (varint_buffer v @ rest)) = (Some v, whole_buffer rest)"
    using buffer.decode_varint_buffer [OF primed_whole contents_whole, of v rest] advanced_whole by blast
  moreover have "pb_decode_svarint (whole_buffer (varint_buffer (zigzag v) @ rest)) = (Some v, whole_buffer rest)"
    using buffer.decode_svarint_buffer [OF primed_whole contents_whole, of v rest] advanced_whole by blast
  ultimately show ?thesis
    using w [of v] w [of "zigzag v"] varint_buffer_bound by (auto simp: pb_encode_svarint_def)
qed

text \<open>Strings and byte arrays of static fields round trip: a C string shorter than the field, and a
  byte array that fits it, are written as length and contents, and the decoders rebuild the same
  memory, terminator and size included, leaving the memory behind them alone.\<close>

theorem pb_string_bytes_roundtrip:
  assumes "PB_ATYPE (ftype f) = 0" and "data_size f < 2 ^ 32" and "data_size f \<le> length old"
    and "length body + 4 \<le> data_size f" and "length body + 10 \<le> n" and "n < 2 ^ 64"
  shows "((\<forall>b \<in> set body. b \<noteq> 0) \<longrightarrow>
      (\<exists>t. pb_enc_string f (Some (body @ 0 # junk)) (pb_ostream_from_buffer n) = (Some (), t) \<and>
        pb_dec_string realloc f (old, whole_buffer (sink_state t @ rest)) =
          (Some (), (body @ 0 # drop (length body + 1) old, whole_buffer rest)))) \<and>
    (\<exists>t. pb_enc_bytes f (Some (le_bytes 4 (length body) @ body @ junk)) (pb_ostream_from_buffer n) = (Some (), t) \<and>
        pb_dec_bytes realloc f (old, whole_buffer (sink_state t @ rest)) =
          (Some (), (le_bytes 4 (length body) @ body @ drop (4 + length body) old, whole_buffer rest)))"
proof (intro conjI)
  let ?len = "varint_buffer (of_nat (length body))"
  have room: "length (?len @ body) \<le> n" "length (?len @ body) < 2 ^ 64"
    using varint_buffer_bound [of "of_nat (length body)"] assms(5,6) by simp_all
  have np: "PB_ATYPE (ftype f) \<noteq> 0x80" using assms(1) by simp
  show "(\<forall>b \<in> set body. b \<noteq> 0) \<longrightarrow>
      (\<exists>t. pb_enc_string f (Some (body @ 0 # junk)) (pb_ostream_from_buffer n) = (Some (), t) \<and>
        pb_dec_string realloc f (old, whole_buffer (sink_state t @ rest)) =
          (Some (), (body @ 0 # drop (length body + 1) old, whole_buffer rest)))"
  proof
    assume nz: "\<forall>b \<in> set body. b \<noteq> 0"
    have "length body < data_size f" using assms(4) by simp
    with emits_to_buffer [OF memory.emits_enc_string [OF nz _ assms(1)] room(2), of n junk]
      buffer.pb_dec_string_ok [OF primed_whole contents_whole, where body = body and f = f and d = old
        and rest = rest and realloc = realloc]
    show "\<exists>t. pb_enc_string f (Some (body @ 0 # junk)) (pb_ostream_from_buffer n) = (Some (), t) \<and>
        pb_dec_string realloc f (old, whole_buffer (sink_state t @ rest)) =
          (Some (), (body @ 0 # drop (length body + 1) old, whole_buffer rest))"
      using room(1) assms(2,3) np advanced_whole2 by auto
  qed
  show "\<exists>t. pb_enc_bytes f (Some (le_bytes 4 (length body) @ body @ junk)) (pb_ostream_from_buffer n) = (Some (), t) \<and>
        pb_dec_bytes realloc f (old, whole_buffer (sink_state t @ rest)) =
          (Some (), (le_bytes 4 (length body) @ body @ drop (4 + length body) old, whole_buffer rest))"
    using emits_to_buffer [OF memory.emits_enc_bytes [OF assms(4,2)] room(2), of n junk]
      buffer.pb_dec_bytes_ok [OF primed_whole contents_whole assms(4,2,3) np,
        where rest = rest and realloc = realloc]
      room(1) advanced_whole2 by auto
qed

lemma pb_string_bytes_roundtrip_witness:
  "\<exists>t. pb_enc_bytes \<lparr>ftag = 1, ftype = 6, data_size = 8, array_size = 0\<rparr>
      (Some (le_bytes 4 (length [5, 6 :: byte]) @ [5, 6] @ [])) (pb_ostream_from_buffer 12) = (Some (), t) \<and>
    pb_dec_bytes (\<lambda>_ _. None) \<lparr>ftag = 1, ftype = 6, data_size = 8, array_size = 0\<rparr>
      (replicate 8 1, whole_buffer (sink_state t @ [])) =
      (Some (), (le_bytes 4 (length [5, 6 :: byte]) @ [5, 6] @ drop 6 (replicate 8 1), whole_buffer []))"
  using pb_string_bytes_roundtrip [of "\<lparr>ftag = 1, ftype = 6, data_size = 8, array_size = 0\<rparr>"
      "replicate 8 1" "[5, 6]" 12 "[]" "\<lambda>_ _. None" "[]"]
  by (simp add: PB_ATYPE_def)

text \<open>A substream is isolated: it sees its body and nothing behind it, and after any successful
  reading inside it, complete or not, closing it leaves the parent exactly behind the body.\<close>

theorem pb_substream_isolated:
  assumes "is_length_varint v (length body)"
  shows "\<exists>sub t. pb_make_string_substream (whole_buffer (v @ body @ rest)) = (Some sub, t) \<and>
    contents_of (\<lambda>mem. mem) sub = body \<and> bytes_left sub = length body \<and>
    (\<forall>n sub'. advanced (\<lambda>mem. mem) sub n sub' \<longrightarrow>
      pb_close_string_substream sub' t = (Some (), whole_buffer rest))"
proof -
  obtain sub t where m: "pb_make_string_substream (whole_buffer (v @ body @ rest)) = (Some sub, t)"
    and r: "primed buf_read (\<lambda>mem. mem) sub" and c: "contents_of (\<lambda>mem. mem) sub = body"
    and close: "\<forall>n sub'. advanced (\<lambda>mem. mem) sub n sub' \<longrightarrow>
      (\<exists>u. pb_close_string_substream sub' t = (Some (), u)
        \<and> advanced (\<lambda>mem. mem) (whole_buffer (v @ body @ rest)) (length v + length body) u)"
    using buffer.substream_ok [OF primed_whole contents_whole assms, of rest] by blast
  have "bytes_left sub = length body"
    using length_stream_contents [OF r] c by simp
  with m c close advanced_whole2 show ?thesis by blast
qed

lemma pb_substream_isolated_witness:
  "\<exists>sub t. pb_make_string_substream (whole_buffer ([1] @ [0xAA] @ [0xBB])) = (Some sub, t) \<and>
    bytes_left sub = 1"
proof -
  have "is_length_varint [1] (length [0xAA :: byte])"
    by (simp add: is_length_varint_def is_varint_Cons cont_def low7_def)
  from pb_substream_isolated [OF this, of "[0xBB]"] show ?thesis by auto
qed

text \<open>The lengths of Base64: EVP_EncodedLength is the length of what EVP_EncodeBlock writes, its
  terminator included, or fails exactly on overflow; what EVP_DecodeBase64 writes fits
  EVP_DecodedLength and falls short of it by less than three bytes; and it decodes an encoding
  whenever it is given that much room.\<close>

theorem base64_lengths:
  "(length bs < 2 ^ 64 \<longrightarrow> EVP_EncodedLength (length bs) =
      (if length (EVP_EncodeBlock bs) < 2 ^ 64 then Some (length (EVP_EncodeBlock bs) + 1) else None)) \<and>
   (EVP_DecodeBase64 max_out inp = Some out \<longrightarrow>
      (\<exists>n. EVP_DecodedLength (length inp) = Some n \<and> n \<le> max_out \<and> length out \<le> n \<and> n < length out + 3)) \<and>
   (length (EVP_EncodeBlock bs) div 4 * 3 \<le> max_out \<longrightarrow>
      EVP_DecodeBase64 max_out (EVP_EncodeBlock bs) = Some bs)"
proof (intro conjI impI)
  assume "length bs < 2 ^ 64"
  then show "EVP_EncodedLength (length bs) =
      (if length (EVP_EncodeBlock bs) < 2 ^ 64 then Some (length (EVP_EncodeBlock bs) + 1) else None)"
    by (simp add: EncodedLength_exact length_EncodeBlock)
next
  assume "EVP_DecodeBase64 max_out inp = Some out"
  then show "\<exists>n. EVP_DecodedLength (length inp) = Some n \<and> n \<le> max_out \<and> length out \<le> n \<and> n < length out + 3"
    using decode_quads_length [of inp out] by (simp add: DecodeBase64_iff EVP_DecodedLength_def)
next
  assume "length (EVP_EncodeBlock bs) div 4 * 3 \<le> max_out"
  then show "EVP_DecodeBase64 max_out (EVP_EncodeBlock bs) = Some bs"
    by (simp add: DecodeBase64_iff decode_quads_encode length_EncodeBlock)
qed

lemma base64_lengths_witness:
  "EVP_DecodeBase64 3 (EVP_EncodeBlock [1, 2]) = Some [1, 2] \<and>
    EVP_EncodedLength (length [1, 2 :: byte]) = Some (length (EVP_EncodeBlock [1, 2]) + 1)"
  using base64_lengths [of "[1, 2]" 3 "[]" "[]"] by (simp add: length_EncodeBlock)

text \<open>The branch-free operations compute what their branching counterparts do: each comparison is
  all ones or all zeros for every pair of arguments, each selection on such a mask is the
  conditional, and CRYPTO_memcmp of equally long strings is zero exactly on equal ones.\<close>

theorem constant_time_correct:
  "constant_time_lt_w a b = (if a < b then - 1 else 0) \<and> constant_time_ge_w a b = (if b \<le> a then - 1 else 0) \<and>
   constant_time_eq_w a b = (if a = b then - 1 else 0) \<and> constant_time_is_zero_w a = (if a = 0 then - 1 else 0) \<and>
   constant_time_lt_8 a b = (if a < b then - 1 else 0) \<and> constant_time_eq_8 a b = (if a = b then - 1 else 0) \<and>
   constant_time_eq_int i j = (if i = j then - 1 else 0) \<and>
   constant_time_select_w (constant_time_lt_w a b) x y = (if a < b then x else y) \<and>
   constant_time_select_8 (constant_time_eq_8 a b) v w = (if a = b then v else w) \<and>
   constant_time_select_int (constant_time_eq_int i j) i j = j \<and>
   (CRYPTO_memcmp (map f xs) (map g xs) = 0 \<longleftrightarrow> map f xs = map g xs)"
  by (simp add: consttime CRYPTO_memcmp_0_iff) (simp add: mask_of_def)

text \<open>CBS_get_asn1_implicit_string reads a primitive element with the outer tag as it is, and
  otherwise exactly a constructed element with the outer tag whose contents are a sequence of
  elements with the inner tag, in which case it returns the joined contents in new storage.\<close>

theorem implicit_string_exact:
  assumes "\<not> is_constructed outer" and "length s < 2 ^ 63"
  shows "CBS_get_asn1_implicit_string (\<lambda>_. True) True outer inner s = (Some (out, stored), r) \<longleftrightarrow>
    (if stored then \<exists>cs. s = der_element (outer OR CBS_ASN1_CONSTRUCTED) (concat (map (der_element inner) cs)) @ r \<and>
        length (concat (map (der_element inner) cs)) < 2 ^ 32 \<and> (\<forall>c\<in>set cs. length c < 2 ^ 32) \<and> out = concat cs
     else s = der_element outer out @ r \<and> length out < 2 ^ 32)"
  using assms by (rule implicit_string_iff)

lemma implicit_string_exact_witness:
  "CBS_get_asn1_implicit_string (\<lambda>_. True) True 0x80000000 4 (der_element 0x80000000 [1, 2]) =
    (Some ([1, 2], False), [])"
proof -
  have "\<not> is_constructed 0x80000000" by (simp add: is_constructed_def CBS_ASN1_CONSTRUCTED_def)
  moreover have "length (der_element 0x80000000 [1, 2]) < 2 ^ 63"
    using length_der_element [of "0x80000000" "[1, 2]"] by simp
  ultimately show ?thesis
    using implicit_string_exact [of "0x80000000" "der_element 0x80000000 [1, 2]" 4 "[1, 2]" False "[]"] by simp
qed

text \<open>Comparison: on numbers without negative zero, of any widths, BN_cmp is the order of the
  integers, and the constant-time BN_ucmp the order of their absolute values.\<close>

theorem bn_order_exact:
  assumes "bn_neg a \<Longrightarrow> bn_abs a \<noteq> 0" and "bn_neg b \<Longrightarrow> bn_abs b \<noteq> 0"
  shows "BN_cmp (Some a) (Some b) = (if bn_int a < bn_int b then - 1 else if bn_int a = bn_int b then 0 else 1) \<and>
    BN_ucmp a b = (if bn_abs a < bn_abs b then - 1 else if bn_abs a = bn_abs b then 0 else 1)"
  using BN_cmp_val [of a b] assms BN_ucmp_val [of a b] by (simp add: order_def)

lemma bn_order_exact_witness:
  "BN_cmp (Some \<lparr>bn_d = [7, 0], bn_width = 2, bn_neg = True, bn_static = False\<rparr>)
     (Some \<lparr>bn_d = [7], bn_width = 1, bn_neg = False, bn_static = False\<rparr>) = - 1"
  using bn_order_exact [of "\<lparr>bn_d = [7, 0], bn_width = 2, bn_neg = True, bn_static = False\<rparr>"
      "\<lparr>bn_d = [7], bn_width = 1, bn_neg = False, bn_static = False\<rparr>"]
  by (simp add: bn_abs_def bn_int_def)

text \<open>cbb_buffer_reserve refuses a request exactly when the sum of lengths overflows size_t, the
  buffer is of fixed size and too small, or the allocator refuses the doubled (or, when doubling
  overflows or is not enough, the exact) capacity; a refusal changes nothing but the error flag.\<close>

theorem reserve_fails_exactly:
  assumes "buf_ok b" and "n < 2 ^ 64"
  shows "(fst (cbb_buffer_reserve n b) = None \<longleftrightarrow>
      2 ^ 64 \<le> len b + n \<or>
      cap b < len b + n \<and> (\<not> can_resize b \<or> \<not> realloc_ok b (new_capacity (cap b) (len b + n)))) \<and>
    (\<forall>b'. cbb_buffer_reserve n b = (None, b') \<longrightarrow> b' = b\<lparr>error := True\<rparr>)"
  using reserve_None_iff [OF assms] reserve_None by blast

lemma reserve_fails_exactly_witness:
  "fst (cbb_buffer_reserve 3 \<lparr>buf = [1, 2], len = 1, can_resize = False, error = False,
     realloc_ok = \<lambda>_. True\<rparr>) = None"
proof -
  let ?b = "\<lparr>buf = [1, 2], len = 1, can_resize = False, error = False, realloc_ok = \<lambda>_. True\<rparr> :: cbb_buffer"
  have "buf_ok ?b" by (simp add: buf_ok_def)
  from reserve_fails_exactly [OF this, of 3] show ?thesis by (simp add: cap_def)
qed

text \<open>The outcomes at an end of a pair: a write of at most the write guarantee is accepted whole; a
  write to a full buffer and a read from an empty one fail with the retry flags set, and the
  failed read leaves its size, cut to the capacity, as the read request of the writer; after a
  shutdown the reader gets what is left and then end of file.\<close>

theorem bio_pair_outcomes:
  assumes "paired a p h" and "inp \<noteq> []" and "0 < n"
  shows "(int (length inp) \<le> BIO_ctrl_get_write_guarantee a h \<longrightarrow>
      (\<exists>h'. BIO_write a inp h = Some (int (length inp), h') \<and>
        queue (bio_ptr (h' a)) = queue (bio_ptr (h a)) @ inp)) \<and>
    (\<not> bb_closed (bio_ptr (h a)) \<and> BIO_ctrl_get_write_guarantee a h = 0 \<longrightarrow>
      (\<exists>h'. BIO_write a inp h = Some (- 1, h') \<and> BIO_should_retry (h' a) \<and> BIO_should_write (h' a) \<and>
        queue (bio_ptr (h' a)) = queue (bio_ptr (h a)))) \<and>
    (queue (bio_ptr (h p)) = [] \<and> \<not> bb_closed (bio_ptr (h p)) \<longrightarrow>
      (\<exists>h'. BIO_read a n h = Some (- 1, [], h') \<and> BIO_should_retry (h' a) \<and> BIO_should_read (h' a) \<and>
        BIO_ctrl_get_read_request p h' = min n (int (bb_size (bio_ptr (h p)))))) \<and>
    (bb_closed (bio_ptr (h p)) \<longrightarrow> (\<exists>h' out. BIO_read a n h = Some (int (length out), out, h') \<and>
      out = take (nat n) (queue (bio_ptr (h p)))))"
proof -
  have ok: "ring_ok (bio_ptr (h a))" "bb_peer (bio_ptr (h a)) \<noteq> None"
    using assms(1) by (simp_all add: paired_def)
  have full: "length (queue (bio_ptr (h a))) = bb_size (bio_ptr (h a))"
    if "\<not> bb_closed (bio_ptr (h a))" "BIO_ctrl_get_write_guarantee a h = 0"
    using that ok by (simp add: BIO_ctrl_get_write_guarantee_def ring_ok_def Let_def)
  obtain r h1 where w: "BIO_write a inp h = Some (r, h1)"
    "queue (bio_ptr (h a)) @ take (nat r) inp = queue (bio_ptr (h1 a))"
    "\<not> bb_closed (bio_ptr (h a)) \<Longrightarrow> length (queue (bio_ptr (h a))) = bb_size (bio_ptr (h a)) \<Longrightarrow>
      r = - 1 \<and> BIO_should_retry (h1 a) \<and> BIO_should_write (h1 a)"
    using BIO_write_spec [OF assms(1,2), of "queue (bio_ptr (h a))" "[]"] by auto
  obtain r' out h2 where rd: "BIO_read a n h = Some (r', out, h2)"
    "if queue (bio_ptr (h p)) \<noteq> [] then out = take (nat n) (queue (bio_ptr (h p))) \<and> r' = int (length out) \<and> 0 < r'
     else out = [] \<and> (if bb_closed (bio_ptr (h p)) then r' = 0 else r' = - 1 \<and> BIO_should_retry (h2 a) \<and>
       BIO_should_read (h2 a) \<and> bb_request (bio_ptr (h2 p)) = min (nat n) (bb_size (bio_ptr (h p))))"
    using BIO_read_spec [OF assms(1,3), of "queue (bio_ptr (h p))" "[]"] by auto
  have "int (min (nat n) (bb_size (bio_ptr (h p)))) = min n (int (bb_size (bio_ptr (h p))))"
    using assms(3) by simp
  then show ?thesis
    using write_guarantee [OF assms(1,2)] w full rd
    by (auto simp: BIO_ctrl_get_read_request_def split: if_splits)
qed

lemma bio_pair_outcomes_witness:
  "\<exists>h h'. BIO_new_bio_pair (\<lambda>_. True) (Some 1) (Some 2) 3 0 (\<lambda>_. bio_new) = (Some (1, 2), h) \<and>
    BIO_read 1 5 h = Some (- 1, [], h') \<and> BIO_should_retry (h' 1)"
proof -
  obtain h where h: "BIO_new_bio_pair (\<lambda>_. True) (Some 1) (Some 2) 3 0 (\<lambda>_. bio_new) = (Some (1, 2), h)"
    and open_end: "\<not> bb_closed (bio_ptr (h 2))"
    by (simp add: BIO_new_bio_pair_def bio_make_pair_def make_buf_def bio_new_def upd_ptr_def Let_def)
  from bio_pair_outcomes [OF new_pair(1) [OF h], of "[0]" 5] new_pair(3) [OF h] open_end h
  show ?thesis by auto
qed

text \<open>lh_doall_arg calls the function on every item exactly once, and although it resizes the table
  afterwards the table stays well-formed and every lookup answers as before.\<close>

theorem lh_doall_arg_visits:
  assumes "hashing hash cmp" and "lh_wf hash cmp lh"
  shows "snd (lh_doall_arg malloc func lh arg) = fold func (lh_items lh) arg \<and> distinct (lh_items lh) \<and>
    (\<forall>x. x \<in> set (lh_items lh) \<longleftrightarrow> lh_retrieve lh x = Some x) \<and>
    lh_wf hash cmp (fst (lh_doall_arg malloc func lh arg)) \<and>
    lh_retrieve (fst (lh_doall_arg malloc func lh arg)) = lh_retrieve lh"
proof -
  note wf = doall_wf [OF assms(2), of malloc func arg]
  then have "set (lh_items (fst (lh_doall_arg malloc func lh arg))) = set (lh_items lh)"
    by (metis set_mset_mset)
  then have "lh_retrieve (fst (lh_doall_arg malloc func lh arg)) k = Some x \<longleftrightarrow> lh_retrieve lh k = Some x" for k x
    using wf by (simp add: hashing.retrieve_Some_iff [OF assms(1)] assms(2))
  then have "lh_retrieve (fst (lh_doall_arg malloc func lh arg)) k = lh_retrieve lh k" for k
    by (metis not_Some_eq)
  then show ?thesis
    using wf assms(2) hashing.cmp_refl [OF assms(1)]
    by (auto simp: doall_visits hashing.retrieve_Some_iff [OF assms(1,2)] lh_wf_def distinct_for_def)
qed

lemma lh_doall_arg_visits_witness:
  "\<exists>lh. lh_new (\<lambda>_. True) (\<lambda>n. of_nat n) (\<lambda>a b. int a - int b) = Some lh \<and>
    snd (lh_doall_arg (\<lambda>_. False) (\<lambda>x s. x + s) lh (3 :: nat)) = 3"
proof -
  obtain lh where lh: "lh_new (\<lambda>_. True) (\<lambda>n :: nat. of_nat n) (\<lambda>a b. int a - int b) = Some lh"
    by (auto simp: lh_new_def)
  have h: "hashing (\<lambda>n :: nat. of_nat n) (\<lambda>a b. int a - int b)"
    by unfold_locales auto
  from hashing.new_wf [OF this lh] have wf: "lh_wf (\<lambda>n :: nat. of_nat n) (\<lambda>a b. int a - int b) lh"
    and e: "lh_items lh = []" by simp_all
  show ?thesis
    using lh_doall_arg_visits [OF h wf, of "\<lambda>_. False" "\<lambda>x s. x + s" 3] lh e by simp
qed

end
